(* ===== verification/Prelude.thy ===== *)
theory Prelude
  imports Main "HOL-Library.Word"
begin

text \<open>
  Shared vocabulary of the development: the widths of C integers, byte buffers with
  bounds-checked access, byte-order codecs, C strings, and the outcome type every
  fallible operation returns.

  A C object is the list of its bytes and a pointer into it is an offset, or the list of
  the bytes from the pointer on.  Reading or writing past the end of the object is
  undefined behaviour in C; here it is the outcome \<open>Fault OutOfBounds\<close>, so that memory
  safety is a statement about results.
\<close>

unbundle bit_operations_syntax

type_synonym u8 = "8 word"
type_synonym u16 = "16 word"
type_synonym u32 = "32 word"
type_synonym u64 = "64 word"
type_synonym bytes = "u8 list"

text \<open>
  \<open>Ok\<close> is a normal return, \<open>Err\<close> the error return of the C function (a non-zero
  status or NULL), \<open>Fault\<close> the ways an execution goes wrong or stops.
\<close>

datatype fault = OutOfBounds | NullDeref | AssertFail | Died | Diverges | Overflow

datatype 'a res = Ok 'a | Err | Fault fault

fun andthen :: "'a res \<Rightarrow> ('a \<Rightarrow> 'b res) \<Rightarrow> 'b res" where
  "andthen (Ok x) f = f x"
| "andthen Err f = Err"
| "andthen (Fault e) f = Fault e"

fun map_res :: "('a \<Rightarrow> 'b) \<Rightarrow> 'a res \<Rightarrow> 'b res" where
  "map_res f (Ok x) = Ok (f x)"
| "map_res f Err = Err"
| "map_res f (Fault e) = Fault e"

fun fault_unless :: "bool \<Rightarrow> fault \<Rightarrow> 'a res \<Rightarrow> 'a res" where
  "fault_unless b e r = (if b then r else Fault e)"

fun of_opt :: "'a option \<Rightarrow> 'a res" where
  "of_opt (Some x) = Ok x"
| "of_opt None = Fault OutOfBounds"

text \<open>
  An operation on a device or object: it takes the state and returns an outcome and the
  new state, also when it fails.  \<open>focus\<close> runs an operation of a part of the state.
\<close>

type_synonym ('s, 'a) act = "'s \<Rightarrow> 'a res \<times> 's"

definition act_bind :: "('s, 'a) act \<Rightarrow> ('a \<Rightarrow> ('s, 'b) act) \<Rightarrow> ('s, 'b) act" where
  "act_bind m f s =
     (case m s of (Ok x, s') \<Rightarrow> f x s' | (Err, s') \<Rightarrow> (Err, s') | (Fault e, s') \<Rightarrow> (Fault e, s'))"

definition act_lift :: "'a res \<Rightarrow> ('s, 'a) act" where
  "act_lift r s = (r, s)"

definition focus :: "('t \<Rightarrow> 's) \<Rightarrow> ('s \<Rightarrow> 't \<Rightarrow> 't) \<Rightarrow> ('s, 'a) act \<Rightarrow> ('t, 'a) act" where
  "focus get upd m t = (case m (get t) of (r, s') \<Rightarrow> (r, upd s' t))"

named_theorems buf_simps "rewrite rules for buffers"
named_theorems codec_simps "rewrite rules for byte codecs"

lemma andthen_Ok_iff:
  "andthen r f = Ok y \<longleftrightarrow> (\<exists>x. r = Ok x \<and> f x = Ok y)"
  by (cases r) auto

lemma andthen_Fault_iff:
  "andthen r f = Fault e \<longleftrightarrow> r = Fault e \<or> (\<exists>x. r = Ok x \<and> f x = Fault e)"
  by (cases r) auto

lemma map_res_Ok_iff: "map_res f r = Ok y \<longleftrightarrow> (\<exists>x. r = Ok x \<and> y = f x)"
  by (cases r) auto

lemma map_res_Fault_iff [simp]: "map_res f r = Fault e \<longleftrightarrow> r = Fault e"
  by (cases r) auto

lemma of_opt_Ok_iff [simp]: "of_opt r = Ok y \<longleftrightarrow> r = Some y"
  by (cases r) auto

lemma of_opt_not_Err [simp]: "of_opt r \<noteq> Err"
  by (cases r) auto

lemma of_opt_Fault_iff [simp]: "of_opt r = Fault e \<longleftrightarrow> r = None \<and> e = OutOfBounds"
  by (cases r) auto

lemma andthen_assoc: "andthen (andthen m f) g = andthen m (\<lambda>x. andthen (f x) g)"
  by (cases m) auto

lemma andthen_map_res: "andthen (map_res f r) g = andthen r (\<lambda>x. g (f x))"
  by (cases r) auto

lemma map_res_andthen: "map_res f (andthen r g) = andthen r (\<lambda>x. map_res f (g x))"
  by (cases r) auto

lemma map_res_map_res: "map_res f (map_res g r) = map_res (\<lambda>x. f (g x)) r"
  by (cases r) auto

lemma map_res_ident [simp]: "map_res (\<lambda>x. x) r = r"
  by (cases r) auto

text \<open>Recursion under \<open>andthen\<close> knows what the first operation returned.\<close>

lemma andthen_cong [fundef_cong]:
  "r = r' \<Longrightarrow> (\<And>x. r' = Ok x \<Longrightarrow> f x = g x) \<Longrightarrow> andthen r f = andthen r' g"
  by (cases r') auto

subsection \<open>Bounds-checked buffers\<close>

definition rd :: "'a list \<Rightarrow> nat \<Rightarrow> 'a option" where
  "rd bs i = (if i < length bs then Some (bs ! i) else None)"

definition slice :: "'a list \<Rightarrow> nat \<Rightarrow> nat \<Rightarrow> 'a list option" where
  "slice bs off n = (if off + n \<le> length bs then Some (take n (drop off bs)) else None)"

definition put :: "'a list \<Rightarrow> nat \<Rightarrow> 'a list \<Rightarrow> 'a list option" where
  "put bs off xs = (if off + length xs \<le> length bs
     then Some (take off bs @ xs @ drop (off + length xs) bs) else None)"

lemma rd_Some_iff [buf_simps]: "rd bs i = Some x \<longleftrightarrow> i < length bs \<and> x = bs ! i"
  by (auto simp: rd_def)

lemma rd_None_iff [buf_simps]: "rd bs i = None \<longleftrightarrow> length bs \<le> i"
  by (auto simp: rd_def)

lemma slice_Some_iff [buf_simps]:
  "slice bs off n = Some xs \<longleftrightarrow> off + n \<le> length bs \<and> xs = take n (drop off bs)"
  by (auto simp: slice_def)

lemma slice_None_iff [buf_simps]: "slice bs off n = None \<longleftrightarrow> length bs < off + n"
  by (auto simp: slice_def)

lemma slice_length: "slice bs off n = Some xs \<Longrightarrow> length xs = n"
  by (auto simp: slice_def split: if_splits)

lemma slice_0 [simp]: "slice bs 0 (length bs) = Some bs"
  by (simp add: slice_def)

lemma slice_append_mid:
  "off = length ps \<Longrightarrow> n = length xs \<Longrightarrow> slice (ps @ xs @ qs) off n = Some xs"
  by (simp add: slice_def)

lemma put_length: "put bs off xs = Some bs' \<Longrightarrow> length bs' = length bs"
  by (auto simp: put_def split: if_splits)

lemma put_Some_ex: "(\<exists>bs'. put bs off xs = Some bs') \<longleftrightarrow> off + length xs \<le> length bs"
  by (auto simp: put_def)

lemma slice_put_same:
  "put bs off xs = Some bs' \<Longrightarrow> slice bs' off (length xs) = Some xs"
  by (auto simp: put_def slice_def split: if_splits)

lemma put_nth:
  assumes "put bs off xs = Some bs'" and "i < length bs"
  shows "bs' ! i = (if off \<le> i \<and> i < off + length xs then xs ! (i - off) else bs ! i)"
  using assms by (auto simp: put_def nth_append min_def split: if_splits)

lemma slice_put_other:
  assumes "put bs off xs = Some bs'" and "i + n \<le> off \<or> off + length xs \<le> i"
  shows "slice bs' i n = slice bs i n"
proof (cases "i + n \<le> length bs")
  case True
  have len: "length bs' = length bs" by (rule put_length [OF assms(1)])
  have "take n (drop i bs') = take n (drop i bs)"
  proof (rule nth_equalityI)
    show "length (take n (drop i bs')) = length (take n (drop i bs))" by (simp add: len)
  next
    fix k assume "k < length (take n (drop i bs'))"
    with True len have k: "k < n" "i + k < length bs" by auto
    then show "take n (drop i bs') ! k = take n (drop i bs) ! k"
      using put_nth [OF assms(1), of "i + k"] assms(2) len by auto
  qed
  then show ?thesis by (simp add: slice_def len)
next
  case False
  then show ?thesis using put_length [OF assms(1)] by (simp add: slice_def)
qed

subsection \<open>Frames\<close>

text \<open>\<open>b'\<close> is \<open>b\<close> outside \<open>A\<close>.\<close>

definition frame :: "bytes \<Rightarrow> bytes \<Rightarrow> nat set \<Rightarrow> bool" where
  "frame b b' A \<longleftrightarrow> length b' = length b \<and> (\<forall>i < length b. i \<notin> A \<longrightarrow> b' ! i = b ! i)"

lemma frame_refl [simp]: "frame b b A"
  by (simp add: frame_def)

lemma frame_mono: "frame a b A \<Longrightarrow> A \<subseteq> C \<Longrightarrow> frame a b C"
  by (auto simp: frame_def)

lemma frame_trans: "frame a b A \<Longrightarrow> frame b c B \<Longrightarrow> A \<union> B \<subseteq> C \<Longrightarrow> frame a c C"
  unfolding frame_def by (metis UnCI subset_iff)

lemma frame_put: "put b off xs = Some b' \<Longrightarrow> {off..<off + length xs} \<subseteq> A \<Longrightarrow> frame b b' A"
  by (auto simp: frame_def put_length put_nth)

lemma frame_length: "frame b b' A \<Longrightarrow> length b' = length b"
  by (simp add: frame_def)

lemma slice_frame:
  assumes "frame b b' A" and "{off..<off + n} \<inter> A = {}"
  shows "slice b' off n = slice b off n"
proof -
  have "take n (drop off b') = take n (drop off b)" if "off + n \<le> length b"
    using assms that by (intro nth_equalityI) (auto simp: frame_def disjoint_iff)
  with assms(1) show ?thesis by (simp add: slice_def frame_def)
qed

lemma frame_Un: "frame a b A \<Longrightarrow> frame b c B \<Longrightarrow> frame a c (A \<union> B)"
  by (rule frame_trans) auto

lemma slice_within: "slice b off n = Some xs \<Longrightarrow> i + k \<le> n \<Longrightarrow> slice b (off + i) k = slice xs i k"
  by (auto simp: slice_def drop_take min_def add.commute split: if_splits)

subsection \<open>Byte-order codecs\<close>

text \<open>
  \<open>be_val\<close> and \<open>le_val\<close> read an unsigned integer of any number of bytes, \<open>be_bytes\<close> and
  \<open>le_bytes\<close> store one; \<open>be32toh\<close>, \<open>htobe32\<close>, \<open>htole32\<close> and the like of the C code are
  their instances at the width of the access.
\<close>

definition be_val :: "bytes \<Rightarrow> nat" where
  "be_val bs = fold (\<lambda>b a. a * 256 + unat b) bs 0"

fun le_val :: "bytes \<Rightarrow> nat" where
  "le_val [] = 0"
| "le_val (b # bs) = unat b + 256 * le_val bs"

fun le_bytes :: "nat \<Rightarrow> nat \<Rightarrow> bytes" where
  "le_bytes 0 v = []"
| "le_bytes (Suc n) v = word_of_nat v # le_bytes n (v div 256)"

definition be_bytes :: "nat \<Rightarrow> nat \<Rightarrow> bytes" where
  "be_bytes n v = rev (le_bytes n v)"

lemma length_le_bytes [simp]: "length (le_bytes n v) = n"
  by (induction n arbitrary: v) auto

lemma length_be_bytes [simp]: "length (be_bytes n v) = n"
  by (simp add: be_bytes_def)

lemma be_val_append_one: "be_val (bs @ [b]) = be_val bs * 256 + unat b"
  by (simp add: be_val_def)

lemma be_val_rev: "be_val (rev bs) = le_val bs"
  by (induction bs) (simp_all add: be_val_append_one, simp add: be_val_def)

lemma unat_u8_less: "unat (b :: u8) < 256"
  using unsigned_less [of b] by simp

lemma unat_u32_less: "unat (w :: u32) < 4294967296"
  using unsigned_less [of w] by simp

lemma unat_u64_less: "unat (w :: u64) < 18446744073709551616"
  using unsigned_less [of w] by simp

lemma unat_ucast_32_64 [simp]: "unat (ucast (w :: u32) :: u64) = unat w"
  using unat_u32_less [of w] by (simp add: unsigned_ucast_eq take_bit_nat_eq_self)

lemma unat_u64_of_nat: "n < 18446744073709551616 \<Longrightarrow> unat (of_nat n :: u64) = n"
  by (simp add: unat_of_nat)

lemma unat_u32_of_nat: "n < 4294967296 \<Longrightarrow> unat (of_nat n :: u32) = n"
  by (simp add: unat_of_nat)

lemma unat_byte_of_nat: "unat (word_of_nat v :: u8) = v mod 256"
  by (simp add: unat_of_nat)

lemma le_val_le_bytes [codec_simps]: "le_val (le_bytes n v) = v mod 256 ^ n"
proof (induction n arbitrary: v)
  case 0
  then show ?case by simp
next
  case (Suc n)
  have "v mod 256 + 256 * (v div 256 mod 256 ^ n) = v mod (256 * 256 ^ n)"
    by (simp add: mod_mult2_eq)
  with Suc show ?case by (simp add: unat_byte_of_nat)
qed

lemma be_val_be_bytes [codec_simps]: "be_val (be_bytes n v) = v mod 256 ^ n"
  by (simp add: be_bytes_def be_val_rev le_val_le_bytes)

lemma le_val_bound: "le_val bs < 256 ^ length bs"
proof (induction bs)
  case Nil
  then show ?case by simp
next
  case (Cons b bs)
  have "256 * (le_val bs + 1) \<le> 256 * 256 ^ length bs"
    using Cons by (intro mult_le_mono2) simp
  then show ?case using unat_u8_less [of b] by simp
qed

lemma be_val_bound: "be_val bs < 256 ^ length bs"
  using le_val_bound [of "rev bs"] by (simp add: be_val_rev [symmetric])

definition be32 :: "bytes \<Rightarrow> u32" where
  "be32 bs = word_of_nat (be_val bs)"

definition be64 :: "bytes \<Rightarrow> u64" where
  "be64 bs = word_of_nat (be_val bs)"

definition le32 :: "bytes \<Rightarrow> u32" where
  "le32 bs = word_of_nat (le_val bs)"

definition le16 :: "bytes \<Rightarrow> u16" where
  "le16 bs = word_of_nat (le_val bs)"

definition htobe32 :: "u32 \<Rightarrow> bytes" where
  "htobe32 w = be_bytes 4 (unat w)"

definition htobe64 :: "u64 \<Rightarrow> bytes" where
  "htobe64 w = be_bytes 8 (unat w)"

lemma length_htobe32 [simp]: "length (htobe32 w) = 4"
  by (simp add: htobe32_def)

lemma length_htobe64 [simp]: "length (htobe64 w) = 8"
  by (simp add: htobe64_def)

lemma be32_htobe32 [simp]: "be32 (htobe32 w) = w"
  using unat_u32_less [of w] by (simp add: be32_def htobe32_def be_val_be_bytes)

lemma be64_htobe64 [simp]: "be64 (htobe64 w) = w"
  using unat_u64_less [of w] by (simp add: be64_def htobe64_def be_val_be_bytes)

subsection \<open>Sizes as integers\<close>

text \<open>A \<open>size_t\<close> stored in an \<open>int\<close>.\<close>

definition as_int :: "u64 \<Rightarrow> int" where
  "as_int w = sint (ucast w :: u32)"

lemma as_int_small: "unat w < 2147483648 \<Longrightarrow> as_int w = int (unat w)"
proof -
  assume w: "unat w < 2147483648"
  have "(ucast w :: u32) = word_of_int (uint w)" by simp
  moreover have small: "signed_take_bit 31 (int k) = int k" if "k < 2147483648" for k
    using that by (simp add: signed_take_bit_int_eq_self)
  ultimately have "as_int w = signed_take_bit 31 (uint w)" by (simp only: as_int_def signed_of_int) simp
  also have "uint w = int (unat w)" by (rule uint_nat)
  also have "signed_take_bit 31 (int (unat w)) = int (unat w)"
    by (rule small [OF w])
  finally show ?thesis .
qed

subsection \<open>C strings\<close>

text \<open>
  A \<open>char *\<close> is the list of the bytes from the pointer to the end of the object it points
  into.  \<open>cstr\<close> is the string it denotes: the bytes before the first NUL; there is none
  where no NUL follows, and reading on runs off the object.
\<close>

fun cstr :: "bytes \<Rightarrow> bytes option" where
  "cstr [] = None"
| "cstr (c # cs) = (if c = 0 then Some [] else map_option ((#) c) (cstr cs))"

definition str :: "string \<Rightarrow> bytes" where
  "str s = map of_char s"

definition ch :: "char \<Rightarrow> u8" where
  "ch c = of_char c"

lemma cstr_append_NUL: "0 \<notin> set s \<Longrightarrow> cstr (s @ 0 # rest) = Some s"
  by (induction s) auto

lemma cstr_Some_split: "cstr bs = Some s \<Longrightarrow> \<exists>rest. bs = s @ 0 # rest \<and> 0 \<notin> set s"
proof (induction bs arbitrary: s)
  case Nil
  then show ?case by simp
next
  case (Cons c cs)
  show ?case
  proof (cases "c = 0")
    case True
    with Cons.prems show ?thesis by auto
  next
    case False
    with Cons.prems obtain t where t: "cstr cs = Some t" "s = c # t" by auto
    from Cons.IH [OF t(1)] obtain rest where "cs = t @ 0 # rest" "0 \<notin> set t" by blast
    with t(2) False show ?thesis by auto
  qed
qed

lemma cstr_iff: "cstr bs = Some s \<longleftrightarrow> (\<exists>rest. bs = s @ 0 # rest \<and> 0 \<notin> set s)"
  using cstr_Some_split cstr_append_NUL by metis

subsection \<open>Alignment\<close>

text \<open>The macros \<open>ALIGN_UP\<close>/\<open>ALIGN\<close> and \<open>ALIGN_DOWN\<close> for a power of two.\<close>

definition align_up :: "nat \<Rightarrow> nat \<Rightarrow> nat" where
  "align_up x a = (x + (a - 1)) div a * a"

definition align_down :: "nat \<Rightarrow> nat \<Rightarrow> nat" where
  "align_down x a = x div a * a"

lemma align_up_ge: "0 < a \<Longrightarrow> x \<le> align_up x a"
proof -
  assume a: "0 < a"
  have "(x + (a - 1)) mod a \<le> a - 1" using mod_less_divisor [OF a, of "x + (a - 1)"] by linarith
  moreover have "align_up x a + (x + (a - 1)) mod a = x + (a - 1)"
    by (simp add: align_up_def)
  ultimately show ?thesis by linarith
qed

lemma align_up_dvd: "a dvd align_up x a"
  by (simp add: align_up_def)

lemma align_down_le: "align_down x a \<le> x"
  by (simp add: align_down_def)

text \<open>The macro on a machine word, with a power of two.\<close>

lemma word_and_not_mask: "w AND NOT (mask k) = w - take_bit k w"
  for w :: "'a::len word"
proof -
  have "w AND NOT (mask k) = push_bit k (drop_bit k w)"
    by (intro bit_word_eqI) (auto simp: bit_simps)
  moreover have "push_bit k (drop_bit k w) + take_bit k w = w" by (rule bits_ident)
  ultimately show ?thesis by (simp add: algebra_simps)
qed

lemma unat_align_down:
  fixes w :: "'a::len word"
  assumes "k < LENGTH('a)"
  shows "unat (w AND NOT (2 ^ k - 1)) = unat w div 2 ^ k * 2 ^ k"
proof -
  have t: "unat (take_bit k w) = unat w mod 2 ^ k"
    unfolding unsigned_take_bit_eq by (rule take_bit_eq_mod)
  then have "take_bit k w \<le> w" by (simp add: word_le_nat_alt)
  then have "unat (w AND NOT (mask k)) = unat w - unat w mod 2 ^ k"
    by (simp add: word_and_not_mask unat_sub t)
  then show ?thesis by (simp add: mask_eq_exp_minus_1 minus_mod_eq_div_mult)
qed

lemma unat_align8_down: "unat (w AND NOT 7) = unat w div 8 * 8" for w :: u64
  using unat_align_down [of 3 w] by simp

definition align8 :: "u64 \<Rightarrow> u64" where
  "align8 w = (w + 7) AND NOT 7"

lemma unat_align8: "unat w + 7 < 18446744073709551616 \<Longrightarrow> unat (align8 w) = align_up (unat w) 8"
  unfolding align8_def unat_align8_down align_up_def by (simp add: unat_word_ariths)

end
