(* ===== verification/DList.thy ===== *)
theory DList
  imports Prelude
begin

text \<open>
  \<^verbatim>\<open>src/src/base/list.c\<close>: the intrusive doubly linked list every registry of the
  bootloader is built on, over an explicit heap from node pointers to nodes.  A list is a
  head node followed by its elements; \<open>list_rep\<close> relates the heap to the list of element
  nodes, and the interface locale \<open>node_list\<close> states what the clients rely on.
\<close>

record 'p list_node =
  next_of :: "'p option"
  prev_of :: "'p option"

type_synonym 'p node_heap = "'p \<Rightarrow> 'p list_node"

definition set_next :: "'p \<Rightarrow> 'p option \<Rightarrow> 'p node_heap \<Rightarrow> 'p node_heap" where
  "set_next p q h = h(p := (h p)\<lparr>next_of := q\<rparr>)"

definition set_prev :: "'p \<Rightarrow> 'p option \<Rightarrow> 'p node_heap \<Rightarrow> 'p node_heap" where
  "set_prev p q h = h(p := (h p)\<lparr>prev_of := q\<rparr>)"

definition list_remove :: "'p \<Rightarrow> 'p node_heap \<Rightarrow> 'p node_heap" where
  "list_remove node h =
     (let h1 = (case prev_of (h node) of None \<Rightarrow> h
                | Some p \<Rightarrow> set_next p (next_of (h node)) h)
      in case next_of (h1 node) of None \<Rightarrow> h1
         | Some n \<Rightarrow> set_prev n (prev_of (h1 node)) h1)"

definition list_insert_after :: "'p \<Rightarrow> 'p \<Rightarrow> 'p node_heap \<Rightarrow> 'p node_heap" where
  "list_insert_after node after h =
     (let h1 = set_next node (next_of (h after)) h;
          h2 = set_prev node (Some after) h1;
          h3 = set_next after (Some node) h2
      in case next_of (h3 node) of None \<Rightarrow> h3
         | Some n \<Rightarrow> set_prev n (Some node) h3)"

definition list_insert_before :: "'p \<Rightarrow> 'p \<Rightarrow> 'p node_heap \<Rightarrow> 'p node_heap" where
  "list_insert_before node before h =
     (let h1 = set_prev node (prev_of (h before)) h;
          h2 = set_next node (Some before) h1;
          h3 = set_prev before (Some node) h2
      in case prev_of (h3 node) of None \<Rightarrow> h3
         | Some p \<Rightarrow> set_next p (Some node) h3)"

text \<open>
  \<open>list_for_each\<close> starts at \<open>head.next\<close> and follows \<open>next\<close> to NULL; on a cyclic heap it
  does not end, hence the fuel.
\<close>

fun list_walk :: "nat \<Rightarrow> 'p node_heap \<Rightarrow> 'p option \<Rightarrow> 'p list option" where
  "list_walk 0 h p = None"
| "list_walk (Suc n) h None = Some []"
| "list_walk (Suc n) h (Some x) = map_option ((#) x) (list_walk n h (next_of (h x)))"

definition list_for_each :: "nat \<Rightarrow> 'p node_heap \<Rightarrow> 'p \<Rightarrow> 'p list option" where
  "list_for_each fuel h head = list_walk fuel h (next_of (h head))"

subsection \<open>The list a heap represents\<close>

fun seg :: "'p node_heap \<Rightarrow> 'p \<Rightarrow> 'p list \<Rightarrow> bool" where
  "seg h p [] = True"
| "seg h p (x # xs) = (next_of (h p) = Some x \<and> prev_of (h x) = Some p \<and> seg h x xs)"

definition list_rep :: "'p node_heap \<Rightarrow> 'p \<Rightarrow> 'p list \<Rightarrow> bool" where
  "list_rep h head xs \<longleftrightarrow>
     seg h head xs \<and> next_of (h (last (head # xs))) = None \<and> distinct (head # xs)"

lemma next_of_set [simp]:
  "next_of (set_next p q h r) = (if r = p then q else next_of (h r))"
  "next_of (set_prev p q h r) = next_of (h r)"
  by (simp_all add: set_next_def set_prev_def)

lemma prev_of_set [simp]:
  "prev_of (set_prev p q h r) = (if r = p then q else prev_of (h r))"
  "prev_of (set_next p q h r) = prev_of (h r)"
  by (simp_all add: set_next_def set_prev_def)

lemma seg_append: "seg h p (xs @ ys) \<longleftrightarrow> seg h p xs \<and> seg h (last (p # xs)) ys"
  by (induction xs arbitrary: p) auto

text \<open>A segment reads the \<open>next\<close> of all its nodes but the last, the \<open>prev\<close> of all but the first.\<close>

lemma seg_frame:
  assumes "\<forall>q \<in> set (butlast (p # xs)). next_of (h' q) = next_of (h q)"
    and "\<forall>q \<in> set xs. prev_of (h' q) = prev_of (h q)"
  shows "seg h' p xs = seg h p xs"
  using assms
proof (induction xs arbitrary: p)
  case Nil
  then show ?case by simp
next
  case (Cons x xs)
  then show ?case by (cases xs) auto
qed

lemma list_rep_nil: "list_rep h head [] \<longleftrightarrow> next_of (h head) = None"
  by (simp add: list_rep_def)

lemma last_notin_butlast: "distinct xs \<Longrightarrow> xs \<noteq> [] \<Longrightarrow> last xs \<notin> set (butlast xs)"
  by (induction xs) auto

text \<open>What the heap is after an insertion, node by node.\<close>

lemma next_insert_after:
  "node \<noteq> after \<Longrightarrow> next_of (list_insert_after node after h q) =
     (if q = after then Some node else if q = node then next_of (h after) else next_of (h q))"
  by (auto simp: list_insert_after_def Let_def split: option.splits)

lemma prev_insert_after:
  "node \<noteq> after \<Longrightarrow> prev_of (list_insert_after node after h q) =
     (if next_of (h after) = Some q then Some node
      else if q = node then Some after else prev_of (h q))"
  by (auto simp: list_insert_after_def Let_def split: option.splits)

lemma list_insert_after_rep:
  assumes rep: "list_rep h head (xs @ ys)" and after: "after = last (head # xs)"
    and fresh: "node \<notin> set (head # xs @ ys)"
  shows "list_rep (list_insert_after node after h) head (xs @ node # ys)"
proof -
  let ?h = "list_insert_after node after h"
  have dist: "distinct (head # xs @ ys)" and seg: "seg h head xs" "seg h after ys"
    and nul: "next_of (h (last (head # xs @ ys))) = None"
    using rep after by (auto simp: list_rep_def seg_append)
  have ain: "after \<in> set (head # xs)" using after last_in_set [of "head # xs"] by simp
  with fresh have ne: "node \<noteq> after" by auto
  have anb: "after \<notin> set (butlast (head # xs))"
    using last_notin_butlast [of "head # xs"] dist after by auto
  have any: "after \<notin> set ys" using ain dist by auto
  have nxt: "next_of (h after) = (case ys of [] \<Rightarrow> None | y # _ \<Rightarrow> Some y)"
    using seg(2) nul after by (cases ys) auto
  have s1: "seg ?h head xs = seg h head xs"
  proof (rule seg_frame)
    show "\<forall>q \<in> set (butlast (head # xs)). next_of (?h q) = next_of (h q)"
      using anb fresh ne by (auto simp: next_insert_after dest: in_set_butlastD)
    show "\<forall>q \<in> set xs. prev_of (?h q) = prev_of (h q)"
      using nxt fresh ne dist by (auto simp: prev_insert_after split: list.splits)
  qed
  have s2: "seg ?h node ys"
  proof (cases ys)
    case (Cons y zs)
    have "seg ?h y zs = seg h y zs"
    proof (rule seg_frame)
      show "\<forall>q \<in> set (butlast (y # zs)). next_of (?h q) = next_of (h q)"
        using any fresh ne Cons by (auto simp: next_insert_after dest: in_set_butlastD)
      show "\<forall>q \<in> set zs. prev_of (?h q) = prev_of (h q)"
        using nxt fresh ne dist Cons by (auto simp: prev_insert_after)
    qed
    with seg(2) Cons nxt ne show ?thesis by (auto simp: next_insert_after prev_insert_after)
  qed simp
  have "next_of (?h (last (head # xs @ node # ys))) = None"
    using nul nxt any fresh ne after
    by (cases ys) (auto simp: next_insert_after)
  moreover have "prev_of (?h node) = Some after"
    using nxt fresh ne by (auto simp: prev_insert_after split: list.splits)
  moreover have "next_of (?h after) = Some node" using ne by (simp add: next_insert_after)
  ultimately show ?thesis
    using s1 s2 seg(1) dist fresh after by (auto simp: list_rep_def seg_append)
qed

text \<open>Inserting before an element is inserting after the node that precedes it.\<close>

lemma list_insert_before_eq:
  assumes "prev_of (h before) = Some p" and "next_of (h p) = Some before"
    and "node \<noteq> before" and "node \<noteq> p" and "p \<noteq> before"
  shows "list_insert_before node before h = list_insert_after node p h"
proof
  fix q
  show "list_insert_before node before h q = list_insert_after node p h q"
    using assms
    by (auto simp: list_insert_before_def list_insert_after_def Let_def set_next_def set_prev_def)
qed

lemma list_insert_before_rep:
  assumes rep: "list_rep h head (xs @ before # ys)"
    and fresh: "node \<notin> set (head # xs @ before # ys)"
  shows "list_rep (list_insert_before node before h) head (xs @ node # before # ys)"
proof -
  let ?p = "last (head # xs)"
  have pin: "?p \<in> set (head # xs)" by (rule last_in_set) simp
  have "prev_of (h before) = Some ?p" "next_of (h ?p) = Some before" "?p \<noteq> before"
    using rep pin by (auto simp: list_rep_def seg_append)
  moreover have "node \<noteq> before" "node \<noteq> ?p" using fresh pin by auto
  ultimately have "list_insert_before node before h = list_insert_after node ?p h"
    by (simp add: list_insert_before_eq)
  with list_insert_after_rep [OF rep refl fresh] show ?thesis by simp
qed

lemma next_remove:
  assumes "prev_of (h node) = Some p" and "p \<noteq> node"
  shows "next_of (list_remove node h q) = (if q = p then next_of (h node) else next_of (h q))"
  using assms by (auto simp: list_remove_def Let_def split: option.splits)

lemma prev_remove:
  assumes "prev_of (h node) = Some p" and "p \<noteq> node"
  shows "prev_of (list_remove node h q) =
    (if next_of (h node) = Some q then Some p else prev_of (h q))"
  using assms by (auto simp: list_remove_def Let_def split: option.splits)

lemma list_remove_rep:
  assumes rep: "list_rep h head (xs @ node # ys)"
  shows "list_rep (list_remove node h) head (xs @ ys)"
proof -
  let ?h = "list_remove node h" and ?p = "last (head # xs)"
  have dist: "distinct (head # xs @ node # ys)" and seg: "seg h head xs" "seg h node ys"
    and p: "prev_of (h node) = Some ?p" and nul: "next_of (h (last (node # ys))) = None"
    using rep by (auto simp: list_rep_def seg_append)
  have pin: "?p \<in> set (head # xs)" by (rule last_in_set) simp
  with dist have ne: "?p \<noteq> node" and pny: "?p \<notin> set ys" by auto
  note nxr = next_remove [of h node ?p, OF p ne]
    and pvr = prev_remove [of h node ?p, OF p ne]
  have pnb: "?p \<notin> set (butlast (head # xs))"
    using last_notin_butlast [of "head # xs"] dist by auto
  have nxt: "next_of (h node) = (case ys of [] \<Rightarrow> None | y # _ \<Rightarrow> Some y)"
    using seg(2) nul by (cases ys) auto
  have s1: "seg ?h head xs = seg h head xs"
  proof (rule seg_frame)
    show "\<forall>q \<in> set (butlast (head # xs)). next_of (?h q) = next_of (h q)"
      using pnb by (auto simp: nxr)
    show "\<forall>q \<in> set xs. prev_of (?h q) = prev_of (h q)"
      using nxt dist by (auto simp: pvr split: list.splits)
  qed
  have s2: "seg ?h ?p ys"
  proof (cases ys)
    case (Cons y zs)
    have "seg ?h y zs = seg h y zs"
    proof (rule seg_frame)
      show "\<forall>q \<in> set (butlast (y # zs)). next_of (?h q) = next_of (h q)"
        using pny Cons by (auto simp: nxr dest: in_set_butlastD)
      show "\<forall>q \<in> set zs. prev_of (?h q) = prev_of (h q)"
        using nxt dist Cons by (auto simp: pvr)
    qed
    with seg(2) Cons nxt show ?thesis by (auto simp: nxr pvr)
  qed simp
  have "next_of (?h (last (head # xs @ ys))) = None"
  proof (cases ys)
    case Nil
    then show ?thesis using nxt by (simp add: nxr)
  next
    case (Cons y zs)
    then have "last (head # xs @ ys) \<in> set ys" by simp
    with pny have "last (head # xs @ ys) \<noteq> ?p" by metis
    with nul Cons show ?thesis by (simp add: nxr split: if_splits)
  qed
  with s1 s2 seg(1) dist show ?thesis by (auto simp: list_rep_def seg_append)
qed

lemma list_walk_seg:
  assumes "seg h p xs" and "next_of (h (last (p # xs))) = None" and "length xs < fuel"
  shows "list_walk fuel h (next_of (h p)) = Some xs"
  using assms
proof (induction xs arbitrary: p fuel)
  case Nil
  then show ?case by (cases fuel) auto
next
  case (Cons x xs)
  then show ?case by (cases fuel) (auto split: if_splits)
qed

lemma list_for_each_rep:
  "list_rep h head xs \<Longrightarrow> length xs < fuel \<Longrightarrow> list_for_each fuel h head = Some xs"
  by (simp add: list_rep_def list_for_each_def list_walk_seg)

end
