(* ===== verification/Registry.thy ===== *)
theory Registry
  imports DList
begin

text \<open>
  The registries built on the list: \<^verbatim>\<open>src/src/base/event.h\<close> (events and their triggers),
  \<^verbatim>\<open>src/src/base/cleanup.c\<close> (cleanup events run before reboot, poweroff and hand-off) and
  \<^verbatim>\<open>src/src/base/init_funcs.c\<close>.  What a registry needs of the list is the interface
  \<open>node_list\<close>; \<open>list.c\<close> provides it.
\<close>

locale node_list =
  fixes rep :: "'h \<Rightarrow> 'p \<Rightarrow> 'p list \<Rightarrow> bool"
    and insert_front :: "'p \<Rightarrow> 'p \<Rightarrow> 'h \<Rightarrow> 'h"
    and unlink :: "'p \<Rightarrow> 'h \<Rightarrow> 'h"
    and elements :: "nat \<Rightarrow> 'h \<Rightarrow> 'p \<Rightarrow> 'p list option"
  assumes rep_insert:
      "rep h head xs \<Longrightarrow> n \<notin> set (head # xs) \<Longrightarrow> rep (insert_front n head h) head (n # xs)"
    and rep_unlink: "rep h head (xs @ n # ys) \<Longrightarrow> rep (unlink n h) head (xs @ ys)"
    and rep_elements: "rep h head xs \<Longrightarrow> length xs < fuel \<Longrightarrow> elements fuel h head = Some xs"
    and rep_distinct: "rep h head xs \<Longrightarrow> distinct (head # xs)"
begin

lemma rep_insert_all:
  "rep h head xs \<Longrightarrow> distinct ns \<Longrightarrow> set ns \<inter> set (head # xs) = {} \<Longrightarrow>
     rep (fold (\<lambda>n. insert_front n head) ns h) head (rev ns @ xs)"
proof (induction ns arbitrary: h xs)
  case Nil
  then show ?case by simp
next
  case (Cons n ns)
  from Cons.prems have "rep (insert_front n head h) head (n # xs)"
    by (intro rep_insert) auto
  moreover have "set ns \<inter> set (head # n # xs) = {}" using Cons.prems by auto
  ultimately have "rep (fold (\<lambda>n. insert_front n head) ns (insert_front n head h)) head
      (rev ns @ n # xs)"
    using Cons.IH Cons.prems(2) by simp
  then show ?case by simp
qed

lemma elements_insert_all:
  "rep h head [] \<Longrightarrow> distinct ns \<Longrightarrow> head \<notin> set ns \<Longrightarrow> length ns < fuel \<Longrightarrow>
     elements fuel (fold (\<lambda>n. insert_front n head) ns h) head = Some (rev ns)"
  using rep_insert_all [of h head "[]" ns] rep_elements by simp

lemma rep_unlink_any:
  "rep h head xs \<Longrightarrow> n \<in> set xs \<Longrightarrow> rep (unlink n h) head (remove1 n xs)"
proof -
  assume rep: "rep h head xs" and n: "n \<in> set xs"
  then obtain as bs where xs: "xs = as @ n # bs" and "n \<notin> set as"
    using split_list_first by metis
  then have "remove1 n xs = as @ bs" by (simp add: remove1_append)
  with rep_unlink [of h head as n bs] rep xs show ?thesis by simp
qed

lemma elements_unlink:
  "rep h head xs \<Longrightarrow> n \<in> set xs \<Longrightarrow> length xs < fuel \<Longrightarrow>
     elements fuel (unlink n h) head = Some (remove1 n xs)"
  using rep_unlink_any rep_elements [of "unlink n h" head "remove1 n xs"]
  by (metis length_remove1 less_imp_diff_less)

end

interpretation lst: node_list list_rep list_insert_after list_remove list_for_each
proof unfold_locales
  fix h :: "'p node_heap" and head n xs
  assume "list_rep h head xs" and "n \<notin> set (head # xs)"
  then show "list_rep (list_insert_after n head h) head (n # xs)"
    using list_insert_after_rep [of h head "[]" xs head n] by simp
qed (auto simp: list_remove_rep list_for_each_rep, auto simp: list_rep_def)

subsection \<open>Events\<close>

text \<open>
  A trigger may change the world and the list itself: the GDB stub's cleanup event removes
  its own node while it runs.  So a trigger maps the heap and the rest of the state to a
  status (true for a non-zero return) and a new state, and the walk reads \<open>next\<close> from the
  heap the trigger left.
\<close>

type_synonym ('p, 's) trigger = "'p \<Rightarrow> 'p node_heap \<times> 's \<Rightarrow> bool \<times> 'p node_heap \<times> 's"

fun event_walk ::
  "nat \<Rightarrow> ('p \<Rightarrow> bool) \<Rightarrow> ('p, 's) trigger \<Rightarrow> 'p option \<Rightarrow> bool \<Rightarrow> 'p node_heap \<times> 's
     \<Rightarrow> (bool \<times> 'p node_heap \<times> 's) option" where
  "event_walk 0 sel trig cur ret st = None"
| "event_walk (Suc fuel) sel trig None ret st = Some (ret, st)"
| "event_walk (Suc fuel) sel trig (Some x) ret st =
     (if sel x
      then (case trig x st of (r, st') \<Rightarrow>
              event_walk fuel sel trig (next_of (fst st' x)) (r \<or> ret) st')
      else event_walk fuel sel trig (next_of (fst st x)) ret st)"

definition event_trigger_all ::
  "nat \<Rightarrow> ('p, 's) trigger \<Rightarrow> 'p \<Rightarrow> 'p node_heap \<times> 's \<Rightarrow> (bool \<times> 'p node_heap \<times> 's) option" where
  "event_trigger_all fuel trig head st =
     event_walk fuel (\<lambda>_. True) trig (next_of (fst st head)) False st"

subsection \<open>Cleanup events\<close>

datatype cleanup_type = CleanupOnReboot | CleanupOnPoweroff | CleanupOnHandoff | CleanupOnLegacy

fun cleanup_bit :: "cleanup_type \<Rightarrow> u32" where
  "cleanup_bit CleanupOnReboot = 1"
| "cleanup_bit CleanupOnPoweroff = 2"
| "cleanup_bit CleanupOnHandoff = 4"
| "cleanup_bit CleanupOnLegacy = 8"

definition cleanup_add :: "'p \<Rightarrow> 'p \<Rightarrow> 'p node_heap \<Rightarrow> 'p node_heap" where
  "cleanup_add events event h = list_insert_after event events h"

definition cleanup_remove :: "'p \<Rightarrow> 'p node_heap \<Rightarrow> 'p node_heap" where
  "cleanup_remove event h = list_remove event h"

definition cleanup_trigger ::
  "nat \<Rightarrow> ('p \<Rightarrow> u32) \<Rightarrow> ('p, 's) trigger \<Rightarrow> 'p \<Rightarrow> cleanup_type \<Rightarrow> 'p node_heap \<times> 's
     \<Rightarrow> (bool \<times> 'p node_heap \<times> 's) option" where
  "cleanup_trigger fuel types trig events type st =
     event_walk fuel (\<lambda>ev. types ev AND cleanup_bit type \<noteq> 0) trig
       (next_of (fst st events)) False st"

text \<open>
  The specification: the selected events, in list order, each run once on the state the
  one before it left.
\<close>

fun run_events ::
  "('p, 's) trigger \<Rightarrow> 'p list \<Rightarrow> bool \<Rightarrow> 'p node_heap \<times> 's \<Rightarrow> bool \<times> 'p node_heap \<times> 's" where
  "run_events trig [] ret st = (ret, st)"
| "run_events trig (x # xs) ret st =
     (case trig x st of (r, st') \<Rightarrow> run_events trig xs (r \<or> ret) st')"

text \<open>A well-behaved trigger leaves the list alone, or takes its own event off it.\<close>

definition own_node_only :: "('p, 's) trigger \<Rightarrow> bool" where
  "own_node_only trig \<longleftrightarrow>
     (\<forall>x st. fst (snd (trig x st)) = fst st \<or> fst (snd (trig x st)) = list_remove x (fst st))"

lemma event_walk_run:
  assumes own: "own_node_only trig" and "list_rep (fst st) head (pre @ todo)"
    and "length todo < fuel" and "cur = (case todo of [] \<Rightarrow> None | x # _ \<Rightarrow> Some x)"
  shows "event_walk fuel sel trig cur ret st = Some (run_events trig (filter sel todo) ret st)"
  using assms(2-)
proof (induction todo arbitrary: pre st ret fuel cur)
  case Nil
  then show ?case by (cases fuel) auto
next
  case (Cons x todo)
  then obtain n where fuel: "fuel = Suc n" "length todo < n" by (cases fuel) auto
  let ?cur = "case todo of [] \<Rightarrow> None | y # _ \<Rightarrow> Some y"
  have nxt: "next_of (fst st x) = ?cur"
    using Cons.prems(1) by (cases todo) (auto simp: list_rep_def seg_append)
  obtain p where p: "prev_of (fst st x) = Some p" "p \<noteq> x"
  proof
    show "prev_of (fst st x) = Some (last (head # pre))"
      using Cons.prems(1) by (auto simp: list_rep_def seg_append)
    show "last (head # pre) \<noteq> x"
      using Cons.prems(1) last_in_set [of "head # pre"] by (auto simp: list_rep_def)
  qed
  obtain r st' where step: "trig x st = (r, st')" by (cases "trig x st")
  with own have "fst st' = fst st \<or> fst st' = list_remove x (fst st)"
    unfolding own_node_only_def by (metis snd_conv)
  then have "(\<exists>pre'. list_rep (fst st') head (pre' @ todo)) \<and> next_of (fst st' x) = ?cur"
  proof
    assume "fst st' = fst st"
    with Cons.prems(1) nxt show ?thesis by (metis append_Cons append_Nil append_assoc)
  next
    assume "fst st' = list_remove x (fst st)"
    with list_remove_rep [OF Cons.prems(1)] nxt next_remove [of "fst st" x p x] p
    show ?thesis by auto
  qed
  then obtain pre' where rep': "list_rep (fst st') head (pre' @ todo)"
    and nxt': "next_of (fst st' x) = ?cur" by blast
  show ?case
  proof (cases "sel x")
    case True
    with Cons.IH [OF rep' fuel(2) refl, of "r \<or> ret"] fuel(1) Cons.prems(3) step nxt'
    show ?thesis by simp
  next
    case False
    have "list_rep (fst st) head ((pre @ [x]) @ todo)" using Cons.prems(1) by simp
    from Cons.IH [OF this fuel(2) refl, of ret] False fuel(1) Cons.prems(3) nxt
    show ?thesis by simp
  qed
qed

lemma cleanup_trigger_run:
  assumes "own_node_only trig" and "list_rep (fst st) events xs" and "length xs < fuel"
  shows "cleanup_trigger fuel types trig events type st =
    Some (run_events trig (filter (\<lambda>ev. types ev AND cleanup_bit type \<noteq> 0) xs) False st)"
  unfolding cleanup_trigger_def
proof (rule event_walk_run [where pre = "[]", OF assms(1)])
  show "list_rep (fst st) events ([] @ xs)" using assms(2) by simp
  show "next_of (fst st events) = (case xs of [] \<Rightarrow> None | x # _ \<Rightarrow> Some x)"
    using assms(2) by (cases xs) (auto simp: list_rep_def)
qed (rule assms(3))

subsection \<open>Initialisation functions\<close>

text \<open>All of them run, whatever the earlier ones returned; the result says whether one failed.\<close>

fun run_init_funcs :: "('s \<Rightarrow> bool \<times> 's) list \<Rightarrow> bool \<Rightarrow> 's \<Rightarrow> bool \<times> 's" where
  "run_init_funcs [] res s = (res, s)"
| "run_init_funcs (f # fs) res s = (case f s of (r, s') \<Rightarrow> run_init_funcs fs (r \<or> res) s')"

lemma run_init_funcs_state:
  "snd (run_init_funcs fs res s) = fold (\<lambda>f s. snd (f s)) fs s"
  by (induction fs arbitrary: res s) (auto split: prod.splits)

subsection \<open>Properties\<close>

text \<open>
  Taking a member off a list leaves the other members in their order, and every walk
  with more fuel than the list is long returns exactly them.
\<close>

theorem list_remove_walk:
  assumes "list_rep h head xs" and "n \<in> set xs" and "length xs < fuel"
  shows "list_for_each fuel (list_remove n h) head = Some (remove1 n xs) \<and>
    list_rep (list_remove n h) head (remove1 n xs)"
  using lst.elements_unlink [OF assms] lst.rep_unlink_any [OF assms(1,2)] by simp

text \<open>
  C27. Events registered with \<open>cleanup_add\<close> on an empty list are run by \<open>cleanup_trigger\<close>
  when their type mask has the bit of the occasion, each once, the last registered first,
  even when a trigger takes its own event off the list; the status is non-zero exactly when
  the sequence of triggers reports one.
\<close>

theorem cleanup_trigger_runs_registered:
  assumes "own_node_only trig" and "list_rep h events []" and "distinct es"
    and "events \<notin> set es" and "length es < fuel"
  shows "cleanup_trigger fuel types trig events type (fold (\<lambda>e. cleanup_add events e) es h, s) =
    Some (run_events trig (filter (\<lambda>e. types e AND cleanup_bit type \<noteq> 0) (rev es)) False
      (fold (\<lambda>e. cleanup_add events e) es h, s))"
proof -
  have "list_rep (fold (\<lambda>e. list_insert_after e events) es h) events (rev es)"
    using lst.rep_insert_all [of h events "[]" es] assms(2-4) by simp
  moreover have "cleanup_add events = (\<lambda>e. list_insert_after e events)"
    by (simp add: fun_eq_iff cleanup_add_def)
  ultimately have "list_rep (fst (fold (\<lambda>e. cleanup_add events e) es h, s)) events (rev es)"
    by simp
  from cleanup_trigger_run [OF assms(1) this, of fuel] assms(5) show ?thesis by simp
qed

definition empty_heap :: "nat node_heap" where
  "empty_heap = (\<lambda>_. \<lparr>next_of = None, prev_of = None\<rparr>)"

lemma empty_heap_rep: "list_rep empty_heap 0 []"
  by (simp add: list_rep_nil empty_heap_def)

theorem list_remove_walk_witness:
  "list_for_each 5 (list_remove 2 (list_insert_after 1 0 (list_insert_after 2 0
     (list_insert_after 3 0 empty_heap)))) 0 = Some [1, 3]"
proof -
  have "list_rep (list_insert_after 1 0 (list_insert_after 2 0
      (list_insert_after 3 0 empty_heap))) 0 [1, 2, 3]"
    by (intro lst.rep_insert empty_heap_rep) auto
  from list_remove_walk [OF this, of 2 5] show ?thesis by simp
qed

definition log_trigger :: "(nat, nat list) trigger" where
  "log_trigger x st = (x = 2, list_remove x (fst st), snd st @ [x])"

theorem cleanup_trigger_runs_registered_witness:
  "\<exists>h'. cleanup_trigger 9 (\<lambda>e. if e = 1 then 4 else 5) log_trigger 0 CleanupOnReboot
     (fold (\<lambda>e. cleanup_add 0 e) [1, 2, 3] empty_heap, []) = Some (True, h', [3, 2])"
proof -
  have own: "own_node_only log_trigger" by (simp add: own_node_only_def log_trigger_def)
  have "(4 :: u32) AND 1 = 0" "(5 :: u32) AND 1 \<noteq> 0" by simp_all
  with cleanup_trigger_runs_registered [OF own empty_heap_rep, of "[1, 2, 3]" 9
      "\<lambda>e. if e = 1 then 4 else 5" CleanupOnReboot "[]"]
  show ?thesis by (simp add: log_trigger_def)
qed

end
