(* ===== verification/Queue.thy ===== *)
theory Queue
  imports Prelude
begin

text \<open>
  \<^verbatim>\<open>src/src/base/queue.c\<close>: an intrusive singly linked FIFO queue over an explicit heap
  of \<open>next\<close> fields.  Pushing writes through \<open>queue->tail\<close>, which is NULL in an empty
  queue: that branch is the outcome \<open>Fault NullDeref\<close>.
\<close>

type_synonym 'p next_heap = "'p \<Rightarrow> 'p option"

record 'p queue =
  q_head :: "'p option"
  q_tail :: "'p option"

definition queue_peek :: "'p queue \<Rightarrow> 'p option" where
  "queue_peek q = q_head q"

definition queue_empty :: "'p queue \<Rightarrow> bool" where
  "queue_empty q \<longleftrightarrow> queue_peek q = None"

definition queue_pop :: "'p queue \<Rightarrow> 'p next_heap \<Rightarrow> 'p option \<times> 'p queue \<times> 'p next_heap" where
  "queue_pop q h =
     (let ret = q_head q;
          (q1, h1) = (case ret of None \<Rightarrow> (q, h)
                      | Some n \<Rightarrow> (q\<lparr>q_head := h n\<rparr>, h(n := None)));
          q2 = (if q_head q1 = None then q1\<lparr>q_tail := None\<rparr> else q1)
      in (ret, q2, h1))"

definition queue_push :: "'p \<Rightarrow> 'p queue \<Rightarrow> 'p next_heap \<Rightarrow> ('p queue \<times> 'p next_heap) res" where
  "queue_push node q h =
     (let q1 = (if queue_empty q then q\<lparr>q_head := Some node\<rparr> else q);
          h1 = h(node := None)
      in case q_tail q1 of
           None \<Rightarrow> Fault NullDeref
         | Some t \<Rightarrow> Ok (q1\<lparr>q_tail := Some node\<rparr>, h1(t := Some node)))"

subsection \<open>The queue a heap represents\<close>

fun chain :: "'p next_heap \<Rightarrow> 'p option \<Rightarrow> 'p list \<Rightarrow> bool" where
  "chain h p [] \<longleftrightarrow> p = None"
| "chain h p (x # xs) \<longleftrightarrow> p = Some x \<and> chain h (h x) xs"

definition queue_rep :: "'p next_heap \<Rightarrow> 'p queue \<Rightarrow> 'p list \<Rightarrow> bool" where
  "queue_rep h q xs \<longleftrightarrow> chain h (q_head q) xs \<and> distinct xs \<and>
     q_tail q = (if xs = [] then None else Some (last xs))"

lemma chain_upd: "n \<notin> set xs \<Longrightarrow> chain (h(n := v)) p xs = chain h p xs"
  by (induction xs arbitrary: p) auto

lemma chain_snoc:
  "chain h p (xs @ [t]) \<Longrightarrow> distinct (xs @ [t]) \<Longrightarrow> n \<notin> set (xs @ [t]) \<Longrightarrow>
     chain (h(n := None, t := Some n)) p (xs @ [t, n])"
proof (induction xs arbitrary: p)
  case Nil
  then show ?case by auto
next
  case (Cons x xs)
  then show ?case by auto
qed

lemma queue_push_rep:
  assumes "queue_rep h q xs" and "xs \<noteq> []" and "node \<notin> set xs"
  shows "\<exists>q' h'. queue_push node q h = Ok (q', h') \<and> queue_rep h' q' (xs @ [node])"
proof -
  obtain ys t where xs: "xs = ys @ [t]" using assms(2) by (cases xs rule: rev_cases) auto
  have "\<not> queue_empty q"
    using assms(1,2) by (cases xs) (auto simp: queue_rep_def queue_empty_def queue_peek_def)
  moreover have "q_tail q = Some t" using assms(1) xs by (simp add: queue_rep_def)
  moreover have "chain (h(node := None, t := Some node)) (q_head q) (ys @ [t, node])"
    using assms xs by (intro chain_snoc) (auto simp: queue_rep_def)
  ultimately show ?thesis
    using assms xs by (auto simp: queue_push_def queue_rep_def)
qed

lemma queue_pop_rep:
  assumes "queue_rep h q xs"
  shows "\<exists>q' h'. queue_pop q h = (case xs of [] \<Rightarrow> None | x # _ \<Rightarrow> Some x, q', h') \<and>
    queue_rep h' q' (tl xs)"
proof (cases xs)
  case Nil
  with assms show ?thesis by (auto simp: queue_pop_def queue_rep_def Let_def)
next
  case (Cons x ys)
  with assms have h: "q_head q = Some x" "chain h (h x) ys" "x \<notin> set ys" "distinct ys"
    and t: "q_tail q = Some (last xs)"
    by (auto simp: queue_rep_def)
  let ?q = "if h x = None then q\<lparr>q_head := h x, q_tail := None\<rparr> else q\<lparr>q_head := h x\<rparr>"
  have "queue_pop q h = (Some x, ?q, h(x := None))"
    using h(1) by (simp add: queue_pop_def)
  moreover have "chain (h(x := None)) (h x) ys" using h by (simp add: chain_upd)
  then have "queue_rep (h(x := None)) ?q ys"
    using h(2,4) t Cons by (cases ys) (simp_all add: queue_rep_def)
  ultimately show ?thesis using Cons by simp
qed

text \<open>
  Pushing onto a non-empty queue appends the node at the back, so that popping still
  returns the oldest node first; pushing onto an empty queue instead writes through the
  NULL tail pointer, whatever the node.
\<close>

theorem queue_push_fifo_or_null:
  assumes "queue_rep h q xs" and "node \<notin> set xs"
  shows "if xs = [] then queue_push node q h = Fault NullDeref
    else \<exists>q' h'. queue_push node q h = Ok (q', h') \<and> queue_rep h' q' (xs @ [node]) \<and>
      fst (queue_pop q' h') = Some (hd xs)"
proof (cases "xs = []")
  case True
  with assms show ?thesis
    by (auto simp: queue_rep_def queue_push_def Let_def queue_empty_def)
next
  case False
  from queue_push_rep [OF assms(1) False assms(2)] obtain q' h'
    where q': "queue_push node q h = Ok (q', h')" "queue_rep h' q' (xs @ [node])" by auto
  have "fst (queue_pop q' h') = Some (hd xs)"
    using queue_pop_rep [OF q'(2)] False by (cases xs) auto
  with q' False show ?thesis by auto
qed

theorem queue_push_fifo_or_null_witness:
  "queue_push (3 :: nat) \<lparr>q_head = None, q_tail = None\<rparr> (\<lambda>_. None) = Fault NullDeref"
proof -
  have "queue_rep (\<lambda>_. None) \<lparr>q_head = None, q_tail = None\<rparr> ([] :: nat list)"
    by (simp add: queue_rep_def)
  from queue_push_fifo_or_null [OF this, of 3] show ?thesis by simp
qed

end
