(* ===== verification/Ranges.thy ===== *)
theory Ranges
  imports Prelude
begin

text \<open>
  \<^verbatim>\<open>src/src/base/ranges.c\<close>: a set of 64-bit addresses kept as the sorted list of the edges
  between the addresses in it and those outside, and \<^verbatim>\<open>src/src/vboot/util/memory.c\<close>,
  which uses it to wipe all memory that is not in use.  \<open>covers\<close> is the abstraction: an
  address is in the set when an odd number of edges lie at or below it.
\<close>

type_synonym edges = "u64 list"

definition ranges_init :: edges where
  "ranges_init = []"

fun ranges_teardown :: "edges \<Rightarrow> edges" where
  "ranges_teardown [] = []"
| "ranges_teardown (e # es) = ranges_teardown es"

text \<open>
  The first loop of \<open>ranges_set_region_to\<close> walks past the edges below \<open>start\<close>; the second
  deletes those up to \<open>end\<close>.  Both flip \<open>included\<close> at every edge.
\<close>

fun find_start :: "u64 \<Rightarrow> edges \<Rightarrow> bool \<Rightarrow> edges \<times> edges \<times> bool" where
  "find_start start [] included = ([], [], included)"
| "find_start start (e # es) included =
     (if e < start
      then (case find_start start es (\<not> included) of (pre, cur, inc) \<Rightarrow> (e # pre, cur, inc))
      else ([], e # es, included))"

fun drop_covered :: "u64 \<Rightarrow> edges \<Rightarrow> bool \<Rightarrow> edges \<times> bool" where
  "drop_covered end' [] included = ([], included)"
| "drop_covered end' (e # es) included =
     (if e \<le> end' then drop_covered end' es (\<not> included) else (e # es, included))"

definition ranges_set_region_to :: "edges \<Rightarrow> u64 \<Rightarrow> u64 \<Rightarrow> bool \<Rightarrow> edges res" where
  "ranges_set_region_to es start end' new_included =
     (if start = end' then Fault AssertFail
      else (case find_start start es False of (pre, cur, included) \<Rightarrow>
        let start_edge = (if new_included \<noteq> included then [start] else [])
        in (case drop_covered end' cur included of (cur', included') \<Rightarrow>
          let end_edge = (if included' \<noteq> new_included then [end'] else [])
          in Ok (pre @ start_edge @ end_edge @ cur'))))"

definition ranges_add :: "edges \<Rightarrow> u64 \<Rightarrow> u64 \<Rightarrow> edges res" where
  "ranges_add es start end' = ranges_set_region_to es start end' True"

definition ranges_sub :: "edges \<Rightarrow> u64 \<Rightarrow> u64 \<Rightarrow> edges res" where
  "ranges_sub es start end' = ranges_set_region_to es start end' False"

text \<open>The calls \<open>ranges_for_each\<close> makes; a trailing unpaired edge ends the walk with a message.\<close>

fun ranges_for_each :: "edges \<Rightarrow> (u64 \<times> u64) list" where
  "ranges_for_each [] = []"
| "ranges_for_each [e] = []"
| "ranges_for_each (a # b # es) = (a, b) # ranges_for_each es"

subsection \<open>Abstraction and invariant\<close>

definition below :: "edges \<Rightarrow> u64 \<Rightarrow> nat" where
  "below es x = length (filter (\<lambda>e. e \<le> x) es)"

definition covers :: "edges \<Rightarrow> u64 \<Rightarrow> bool" where
  "covers es x \<longleftrightarrow> odd (below es x)"

definition ranges_ok :: "edges \<Rightarrow> bool" where
  "ranges_ok es \<longleftrightarrow> sorted_wrt (<) es \<and> even (length es)"

lemma below_simps [simp]:
  "below [] x = 0"
  "below (e # es) x = (if e \<le> x then Suc (below es x) else below es x)"
  "below (es @ fs) x = below es x + below fs x"
  by (simp_all add: below_def)

lemma below_all: "\<forall>e \<in> set es. e \<le> x \<Longrightarrow> below es x = length es"
  by (induction es) auto

lemma below_none: "\<forall>e \<in> set es. x < e \<Longrightarrow> below es x = 0"
  by (induction es) (auto simp: not_le)

lemma find_start_split:
  "sorted_wrt (<) es \<Longrightarrow> find_start start es inc = (pre, cur, inc') \<Longrightarrow>
     es = pre @ cur \<and> (\<forall>e \<in> set pre. e < start) \<and> (\<forall>e \<in> set cur. start \<le> e) \<and>
     inc' = (inc \<noteq> odd (length pre))"
proof (induction es arbitrary: inc pre)
  case Nil
  then show ?case by simp
next
  case (Cons e es)
  show ?case
  proof (cases "e < start")
    case True
    then obtain pre' where pre': "find_start start es (\<not> inc) = (pre', cur, inc')" "pre = e # pre'"
      using Cons.prems(2) by (auto split: prod.splits)
    with Cons.IH [OF _ pre'(1)] Cons.prems(1) True show ?thesis by auto
  next
    case False
    have "start \<le> x" if "x \<in> set es" for x
    proof -
      have "e < x" using Cons.prems(1) that by simp
      with False show ?thesis by simp
    qed
    with False Cons.prems show ?thesis by auto
  qed
qed

lemma drop_covered_split:
  "sorted_wrt (<) es \<Longrightarrow> drop_covered end' es inc = (cur, inc') \<Longrightarrow>
     \<exists>mid. es = mid @ cur \<and> (\<forall>e \<in> set mid. e \<le> end') \<and> (\<forall>e \<in> set cur. end' < e) \<and>
     inc' = (inc \<noteq> odd (length mid))"
proof (induction es arbitrary: inc)
  case Nil
  then show ?case by simp
next
  case (Cons e es)
  show ?case
  proof (cases "e \<le> end'")
    case True
    with Cons obtain mid where "es = mid @ cur" "\<forall>e \<in> set mid. e \<le> end'"
      "\<forall>e \<in> set cur. end' < e" "inc' = ((\<not> inc) \<noteq> odd (length mid))" by auto
    with True show ?thesis by (intro exI [of _ "e # mid"]) auto
  next
    case False
    with Cons.prems show ?thesis by (auto simp: not_le intro: less_trans)
  qed
qed

lemma ranges_set_region_to_ok:
  assumes ok: "ranges_ok es" and se: "start < end'"
  shows "\<exists>es'. ranges_set_region_to es start end' new = Ok es' \<and> ranges_ok es' \<and>
    (\<forall>x. covers es' x = (if start \<le> x \<and> x < end' then new else covers es x))"
proof -
  obtain pre cur inc where fs: "find_start start es False = (pre, cur, inc)"
    by (cases "find_start start es False") auto
  obtain cur' inc' where dc: "drop_covered end' cur inc = (cur', inc')"
    by (cases "drop_covered end' cur inc") auto
  have sorted: "sorted_wrt (<) es" and even: "even (length es)" using ok by (auto simp: ranges_ok_def)
  from find_start_split [OF sorted fs] have es: "es = pre @ cur"
    and pre: "\<forall>e \<in> set pre. e < start" and cur: "\<forall>e \<in> set cur. start \<le> e"
    and inc: "inc = odd (length pre)" by auto
  have "sorted_wrt (<) cur" using sorted es by (simp add: sorted_wrt_append)
  from drop_covered_split [OF this dc] obtain mid where mid: "cur = mid @ cur'"
    "\<forall>e \<in> set mid. e \<le> end'" and cur': "\<forall>e \<in> set cur'. end' < e"
    and inc': "inc' = (inc \<noteq> odd (length mid))" by auto
  let ?s = "if new \<noteq> inc then [start] else []" and ?e = "if inc' \<noteq> new then [end'] else []"
  let ?es = "pre @ ?s @ ?e @ cur'"
  have "ranges_set_region_to es start end' new = Ok ?es"
    using se fs dc by (simp add: ranges_set_region_to_def)
  moreover have "ranges_ok ?es"
    using sorted even es mid pre cur' se inc inc'
    by (auto simp: ranges_ok_def sorted_wrt_append)
  moreover have "covers ?es x = (if start \<le> x \<and> x < end' then new else covers es x)" for x
  proof -
    consider "x < start" | "start \<le> x" "x < end'" | "end' \<le> x" by fastforce
    then show ?thesis
    proof cases
      case 1
      then have "below cur x = 0" "below cur' x = 0"
        using cur cur' se by (auto intro!: below_none dest!: bspec)
      with 1 se es show ?thesis by (auto simp: covers_def not_le)
    next
      case 2
      then have "below pre x = length pre" "below cur' x = 0"
        using pre cur' by (auto intro!: below_all below_none dest!: bspec)
      with 2 inc show ?thesis by (auto simp: covers_def not_le)
    next
      case 3
      then have "below pre x = length pre" "below mid x = length mid"
        using pre mid se by (auto intro!: below_all dest!: bspec)
      with 3 se es mid(1) inc inc' show ?thesis by (auto simp: covers_def not_le)
    qed
  qed
  ultimately show ?thesis by blast
qed

lemma ranges_pairs_less:
  "sorted_wrt (<) es \<Longrightarrow> (a, b) \<in> set (ranges_for_each es) \<Longrightarrow> a < b"
  by (induction es rule: ranges_for_each.induct) auto

lemma ranges_pairs_cover:
  "ranges_ok es \<Longrightarrow> (\<exists>(a, b) \<in> set (ranges_for_each es). a \<le> x \<and> x < b) \<longleftrightarrow> covers es x"
proof (induction es rule: ranges_for_each.induct)
  case (3 a b es)
  have ok: "ranges_ok es" and ab: "a < b" and bs: "\<forall>e \<in> set es. b < e"
    using "3.prems" by (auto simp: ranges_ok_def)
  have "covers (a # b # es) x \<longleftrightarrow> (a \<le> x \<and> x < b) \<or> covers es x"
  proof (cases "b \<le> x")
    case True
    with ab have "a \<le> x" by simp
    with True show ?thesis by (auto simp: covers_def not_less)
  next
    case False
    then have "below es x = 0" using bs by (intro below_none) auto
    with False show ?thesis by (auto simp: covers_def)
  qed
  with "3.IH" [OF ok] show ?case by auto
qed (auto simp: covers_def ranges_ok_def)

text \<open>
  C24. On a well-formed collection, adding or removing a non-empty region always succeeds,
  keeps the collection well-formed, and changes membership exactly on the region, where
  the new region takes precedence over whatever was there.
\<close>

theorem ranges_set_region_to_correct:
  assumes "ranges_ok es" and "start < end'"
  shows "\<exists>es'. ranges_set_region_to es start end' new = Ok es' \<and> ranges_ok es' \<and>
    (\<forall>x. covers es' x = (if start \<le> x \<and> x < end' then new else covers es x))"
  by (rule ranges_set_region_to_ok [OF assms])

theorem ranges_set_region_to_correct_witness:
  "\<exists>es'. ranges_set_region_to [1, 4, 8, 9] 3 8 False = Ok es' \<and> ranges_ok es' \<and>
    (\<forall>x. covers es' x = (if 3 \<le> x \<and> x < 8 then False else covers [1, 4, 8, 9] x))"
  by (rule ranges_set_region_to_correct) (simp_all add: ranges_ok_def)

lemma ranges_for_each_sorted:
  assumes "ranges_ok es"
  shows "sorted_wrt (\<lambda>(a, b) (c, d). b < c) (ranges_for_each es)"
proof -
  have mem: "\<forall>(a, b) \<in> set (ranges_for_each fs). a \<in> set fs \<and> b \<in> set fs" for fs
    by (induction fs rule: ranges_for_each.induct) auto
  have "sorted_wrt (<) es" using assms by (simp add: ranges_ok_def)
  then show ?thesis using mem by (induction es rule: ranges_for_each.induct) fastforce+
qed

text \<open>
  \<open>ranges_for_each\<close> calls its function on disjoint, increasing, non-empty intervals whose
  union is exactly the collection.
\<close>

theorem ranges_for_each_covers:
  assumes "ranges_ok es"
  shows "((\<exists>(a, b) \<in> set (ranges_for_each es). a \<le> x \<and> x < b) \<longleftrightarrow> covers es x) \<and>
    (\<forall>(a, b) \<in> set (ranges_for_each es). a < b) \<and>
    sorted_wrt (\<lambda>(a, b) (c, d). b < c) (ranges_for_each es)"
  using ranges_pairs_cover [OF assms] ranges_pairs_less ranges_for_each_sorted [OF assms] assms
  unfolding ranges_ok_def by blast

theorem ranges_for_each_covers_witness:
  "covers [1, 4] 2 \<and> ranges_for_each [1, 4 :: u64] = [(1, 4)]"
  using ranges_for_each_covers [of "[1, 4]" 2] by (simp add: ranges_ok_def)

end
