(* ===== verification/MemWipe.thy ===== *)
theory MemWipe
  imports Ranges
begin

text \<open>
  \<^verbatim>\<open>src/src/vboot/util/memory.c\<close>: clearing memory between boot modes.  The wipe takes the
  RAM of the E820 table, takes away what later entries reserve and what was marked as
  used, and clears the rest.  The table (found in the firmware database by
  \<^verbatim>\<open>base/physmem.c\<close>) and the bounds of the program image are inputs; the result is the
  list of the \<open>arch_phys_memset\<close> calls, each a start and a length.
\<close>

record e820_range =
  e820_base :: u64
  e820_size :: u64
  e820_type :: u32

definition E820_Ram :: u32 where
  "E820_Ram = 1"

definition E820_Reserved :: u32 where
  "E820_Reserved = 2"

definition E820_Acpi :: u32 where
  "E820_Acpi = 3"

definition E820_Nvs :: u32 where
  "E820_Nvs = 4"

definition E820_Unusable :: u32 where
  "E820_Unusable = 5"

lemmas e820_types = E820_Ram_def E820_Reserved_def E820_Acpi_def E820_Nvs_def E820_Unusable_def

text \<open>The static list of used ranges and the flag that says it was set up.\<close>

record used_list =
  used_ranges :: edges
  used_initialized :: bool

definition used_list_initialize :: "u64 \<Rightarrow> u64 \<Rightarrow> used_list \<Rightarrow> used_list res" where
  "used_list_initialize image_start image_end u =
     (if used_initialized u then Ok u
      else map_res (\<lambda>es. \<lparr>used_ranges = es, used_initialized = True\<rparr>)
             (ranges_add ranges_init image_start image_end))"

definition memory_mark_used :: "u64 \<Rightarrow> u64 \<Rightarrow> u64 \<Rightarrow> u64 \<Rightarrow> used_list \<Rightarrow> used_list res" where
  "memory_mark_used image_start image_end start end' u =
     andthen (used_list_initialize image_start image_end u) (\<lambda>u1.
       map_res (\<lambda>es. u1\<lparr>used_ranges := es\<rparr>) (ranges_add (used_ranges u1) start end'))"

fun collect_ram :: "edges \<Rightarrow> e820_range list \<Rightarrow> edges res" where
  "collect_ram es [] = Ok es"
| "collect_ram es (r # rs) =
     (let start = e820_base r; end' = e820_base r + e820_size r
      in if e820_type r = E820_Ram then andthen (ranges_add es start end') (\<lambda>es'. collect_ram es' rs)
         else if e820_type r \<in> {E820_Reserved, E820_Acpi, E820_Nvs, E820_Unusable}
         then andthen (ranges_sub es start end') (\<lambda>es'. collect_ram es' rs)
         else Err)"

fun remove_ranges :: "edges \<Rightarrow> (u64 \<times> u64) list \<Rightarrow> edges res" where
  "remove_ranges es [] = Ok es"
| "remove_ranges es ((start, end') # rs) =
     andthen (ranges_sub es start end') (\<lambda>es'. remove_ranges es' rs)"

definition unused_memset :: "u64 \<times> u64 \<Rightarrow> u64 \<times> u64" where
  "unused_memset r = (case r of (start, end') \<Rightarrow> (start, end' - start))"

definition memory_wipe_unused ::
  "u64 \<Rightarrow> u64 \<Rightarrow> e820_range list option \<Rightarrow> used_list \<Rightarrow> ((u64 \<times> u64) list \<times> used_list) res" where
  "memory_wipe_unused image_start image_end e820 u =
     (case e820 of None \<Rightarrow> Err
      | Some table \<Rightarrow>
          andthen (collect_ram ranges_init table) (\<lambda>ranges.
          andthen (used_list_initialize image_start image_end u) (\<lambda>u1.
          andthen (remove_ranges ranges (ranges_for_each (used_ranges u1))) (\<lambda>ranges'.
            Ok (map unused_memset (ranges_for_each ranges'), u1)))))"

subsection \<open>What is wiped\<close>

definition in_range :: "e820_range \<Rightarrow> u64 \<Rightarrow> bool" where
  "in_range r x \<longleftrightarrow> e820_base r \<le> x \<and> x < e820_base r + e820_size r"

definition range_ok :: "e820_range \<Rightarrow> bool" where
  "range_ok r \<longleftrightarrow> e820_base r < e820_base r + e820_size r \<and>
     e820_type r \<in> {E820_Ram, E820_Reserved, E820_Acpi, E820_Nvs, E820_Unusable}"

text \<open>An address is RAM when the last entry of the table that holds it says so.\<close>

definition is_ram :: "e820_range list \<Rightarrow> u64 \<Rightarrow> bool" where
  "is_ram table x = fold (\<lambda>r acc. if in_range r x then e820_type r = E820_Ram else acc) table False"

definition cleared :: "(u64 \<times> u64) list \<Rightarrow> u64 \<Rightarrow> bool" where
  "cleared calls x \<longleftrightarrow> (\<exists>(s, n) \<in> set calls. s \<le> x \<and> x - s < n)"

lemma collect_ram_ok:
  "ranges_ok es \<Longrightarrow> \<forall>r \<in> set table. range_ok r \<Longrightarrow>
     \<exists>es'. collect_ram es table = Ok es' \<and> ranges_ok es' \<and>
       (\<forall>x. covers es' x =
         fold (\<lambda>r acc. if in_range r x then e820_type r = E820_Ram else acc) table (covers es x))"
proof (induction table arbitrary: es)
  case Nil
  then show ?case by simp
next
  case (Cons r rs)
  let ?ram = "e820_type r = E820_Ram"
  have lt: "e820_base r < e820_base r + e820_size r" using Cons.prems(2) by (simp add: range_ok_def)
  obtain es1 where es1: "ranges_set_region_to es (e820_base r) (e820_base r + e820_size r) ?ram = Ok es1"
    "ranges_ok es1" and cov: "\<forall>x. covers es1 x = (if in_range r x then ?ram else covers es x)"
    using ranges_set_region_to_ok [OF Cons.prems(1) lt, of ?ram] unfolding in_range_def by blast
  have "collect_ram es (r # rs) = collect_ram es1 rs"
    using es1(1) Cons.prems(2)
    by (auto simp: Let_def ranges_add_def ranges_sub_def range_ok_def e820_types)
  with Cons.IH [OF es1(2)] Cons.prems(2) cov show ?case by auto
qed

lemma remove_ranges_ok:
  "ranges_ok es \<Longrightarrow> \<forall>(a, b) \<in> set rs. a < b \<Longrightarrow>
     \<exists>es'. remove_ranges es rs = Ok es' \<and> ranges_ok es' \<and>
       (\<forall>x. covers es' x \<longleftrightarrow> covers es x \<and> \<not> (\<exists>(a, b) \<in> set rs. a \<le> x \<and> x < b))"
proof (induction rs arbitrary: es)
  case Nil
  then show ?case by simp
next
  case (Cons r rs)
  obtain a b where r: "r = (a, b)" "a < b" using Cons.prems(2) by (cases r) auto
  obtain es1 where es1: "ranges_set_region_to es a b False = Ok es1" "ranges_ok es1"
    and cov: "\<forall>x. covers es1 x = (if a \<le> x \<and> x < b then False else covers es x)"
    using ranges_set_region_to_ok [OF Cons.prems(1) r(2), of False] by blast
  from Cons.IH [OF es1(2)] Cons.prems(2) es1(1) r(1) cov show ?case
    by (auto simp: ranges_sub_def)
qed

lemma word_between_iff: "a < b \<Longrightarrow> (a \<le> x \<and> x - a < b - a) \<longleftrightarrow> (a \<le> x \<and> x < (b :: u64))"
  by (auto simp: word_less_nat_alt word_le_nat_alt unat_sub less_imp_le)

lemma cleared_map:
  "\<forall>(a, b) \<in> set ps. a < b \<Longrightarrow>
     cleared (map unused_memset ps) x \<longleftrightarrow> (\<exists>(a, b) \<in> set ps. a \<le> x \<and> x < b)"
proof (induction ps)
  case (Cons p ps)
  obtain a b where p: "p = (a, b)" "a < b" using Cons.prems by (cases p) auto
  have "cleared (map unused_memset (p # ps)) x \<longleftrightarrow>
      a \<le> x \<and> x - a < b - a \<or> cleared (map unused_memset ps) x"
    using p(1) by (auto simp: cleared_def unused_memset_def)
  then show ?case using Cons p by (simp add: word_between_iff)
qed (simp add: cleared_def)

lemma cleared_pairs:
  assumes "ranges_ok es"
  shows "cleared (map unused_memset (ranges_for_each es)) x \<longleftrightarrow> covers es x"
proof -
  have "\<forall>(a, b) \<in> set (ranges_for_each es). a < b"
    using assms ranges_pairs_less by (auto simp: ranges_ok_def)
  then have "cleared (map unused_memset (ranges_for_each es)) x \<longleftrightarrow>
      (\<exists>(a, b) \<in> set (ranges_for_each es). a \<le> x \<and> x < b)"
    by (simp add: cleared_map)
  then show ?thesis using ranges_pairs_cover [OF assms] by simp
qed

text \<open>
  C23. For a well-formed E820 table and list of used ranges, wiping succeeds and clears
  exactly the addresses that the table says are RAM and that are not in use: no address
  in use is touched, and no unused RAM is left with old contents.
\<close>

theorem memory_wipe_exact:
  assumes "\<forall>r \<in> set table. range_ok r" and "ranges_ok (used_ranges u)" and "used_initialized u"
  shows "\<exists>calls. memory_wipe_unused image_start image_end (Some table) u = Ok (calls, u) \<and>
    (\<forall>x. cleared calls x \<longleftrightarrow> is_ram table x \<and> \<not> covers (used_ranges u) x)"
proof -
  have nil: "ranges_ok ranges_init" "covers ranges_init x = False" for x
    by (simp_all add: ranges_ok_def ranges_init_def covers_def)
  from collect_ram_ok [OF nil(1) assms(1)] obtain es where es: "collect_ram ranges_init table = Ok es"
    "ranges_ok es" "\<forall>x. covers es x = is_ram table x"
    by (auto simp: is_ram_def nil(2))
  have "\<forall>(a, b) \<in> set (ranges_for_each (used_ranges u)). a < b"
    using assms(2) ranges_pairs_less by (auto simp: ranges_ok_def)
  from remove_ranges_ok [OF es(2) this] ranges_pairs_cover [OF assms(2)] obtain es'
    where es': "remove_ranges es (ranges_for_each (used_ranges u)) = Ok es'" "ranges_ok es'"
      "\<forall>x. covers es' x \<longleftrightarrow> covers es x \<and> \<not> covers (used_ranges u) x"
    by auto
  show ?thesis
    using es es' assms(3) cleared_pairs [OF es'(2)]
    by (auto simp: memory_wipe_unused_def used_list_initialize_def)
qed

theorem memory_wipe_exact_witness:
  "\<exists>calls. memory_wipe_unused 4 8
      (Some [\<lparr>e820_base = 0, e820_size = 64, e820_type = 1\<rparr>,
             \<lparr>e820_base = 32, e820_size = 16, e820_type = 2\<rparr>])
      \<lparr>used_ranges = [4, 8], used_initialized = True\<rparr> =
      Ok (calls, \<lparr>used_ranges = [4, 8], used_initialized = True\<rparr>) \<and> cleared calls 50"
proof -
  let ?t = "[\<lparr>e820_base = 0, e820_size = 64, e820_type = 1\<rparr>,
             \<lparr>e820_base = 32, e820_size = 16, e820_type = 2\<rparr>] :: e820_range list"
  have "\<forall>r \<in> set ?t. range_ok r" by (simp add: range_ok_def e820_types)
  moreover have "ranges_ok (used_ranges \<lparr>used_ranges = [4, 8], used_initialized = True\<rparr>)"
    by (simp add: ranges_ok_def)
  moreover have "is_ram ?t 50 \<and> \<not> covers [4, 8] 50"
    by (simp add: is_ram_def in_range_def covers_def e820_types)
  ultimately show ?thesis
    using memory_wipe_exact [of ?t "\<lparr>used_ranges = [4, 8], used_initialized = True\<rparr>" 4 8]
    by auto
qed

end
