(* ===== verification/StateMachine.thy ===== *)
theory StateMachine
  imports Prelude
begin

text \<open>
  \<^verbatim>\<open>src/src/base/state_machine.c\<close>: table-driven state machines, used to replay key
  sequences.  States live in a bounded table; a pointer to a state is its index there.
  Transitions are prepended to the list of their source state.  The abstraction is a
  partial transition function on state ids; \<open>sm_run\<close> is shown to be one step of it.
  State ids and inputs are only compared, so C's \<open>int\<close> is modelled as \<open>int\<close>.
\<close>

record sm_state =
  st_id :: int
  is_final :: int
  transitions :: "(int \<times> nat) list"

record sm_data =
  start_state :: "nat option"
  curr_state :: "nat option"
  max_states :: nat
  arr :: "sm_state list"

definition STATE_FINAL :: int where
  "STATE_FINAL = 1"

definition STATE_NOT_FINAL :: int where
  "STATE_NOT_FINAL = 0"

definition STATE_NO_TRANSITION :: int where
  "STATE_NO_TRANSITION = -1"

definition sm_init :: "nat \<Rightarrow> sm_data" where
  "sm_init n = \<lparr>start_state = None, curr_state = None, max_states = n, arr = []\<rparr>"

fun find_from :: "sm_state list \<Rightarrow> int \<Rightarrow> nat \<Rightarrow> nat option" where
  "find_from [] sid i = None"
| "find_from (s # ss) sid i = (if st_id s = sid then Some i else find_from ss sid (Suc i))"

definition sm_find_state :: "sm_data \<Rightarrow> int \<Rightarrow> nat option" where
  "sm_find_state sm sid = find_from (arr sm) sid 0"

definition sm_reset_state :: "sm_data \<Rightarrow> sm_data" where
  "sm_reset_state sm = sm\<lparr>curr_state := start_state sm\<rparr>"

definition sm_set_start_state :: "sm_data \<Rightarrow> int \<Rightarrow> sm_data" where
  "sm_set_start_state sm sid = sm_reset_state (sm\<lparr>start_state := sm_find_state sm sid\<rparr>)"

definition sm_add_state :: "sm_data \<Rightarrow> int \<Rightarrow> int \<Rightarrow> sm_data res" where
  "sm_add_state sm sid final =
     (if \<not> length (arr sm) < max_states sm then Fault AssertFail
      else if sm_find_state sm sid \<noteq> None then Ok sm
      else Ok (sm\<lparr>arr := arr sm @ [\<lparr>st_id = sid, is_final = final, transitions = []\<rparr>]\<rparr>))"

definition sm_add_nonfinal_state :: "sm_data \<Rightarrow> int \<Rightarrow> sm_data res" where
  "sm_add_nonfinal_state sm sid = sm_add_state sm sid STATE_NOT_FINAL"

definition sm_add_final_state :: "sm_data \<Rightarrow> int \<Rightarrow> sm_data res" where
  "sm_add_final_state sm sid = sm_add_state sm sid STATE_FINAL"

definition sm_add_start_state :: "sm_data \<Rightarrow> int \<Rightarrow> sm_data res" where
  "sm_add_start_state sm sid =
     map_res (\<lambda>sm1. sm_set_start_state sm1 sid) (sm_add_state sm sid STATE_NOT_FINAL)"

definition sm_add_transition :: "sm_data \<Rightarrow> int \<Rightarrow> int \<Rightarrow> int \<Rightarrow> sm_data res" where
  "sm_add_transition sm src_id input dst_id =
     (case (sm_find_state sm src_id, sm_find_state sm dst_id) of
        (Some src, Some dst) \<Rightarrow>
          (let s = arr sm ! src
           in Ok (sm\<lparr>arr := (arr sm)[src := s\<lparr>transitions := (input, dst) # transitions s\<rparr>]\<rparr>))
      | _ \<Rightarrow> Fault AssertFail)"

text \<open>The result is the return value, the value stored through \<open>output\<close> if any, and the machine.\<close>

definition sm_run :: "sm_data \<Rightarrow> int \<Rightarrow> (int \<times> int option \<times> sm_data) res" where
  "sm_run sm input =
     (case (curr_state sm, start_state sm) of
        (Some cur, Some start) \<Rightarrow>
          (case find (\<lambda>t. fst t = input) (transitions (arr sm ! cur)) of
             None \<Rightarrow> Ok (STATE_NO_TRANSITION, None, sm)
           | Some tran \<Rightarrow>
               (let sm1 = sm\<lparr>curr_state := Some (snd tran)\<rparr>; next_st = arr sm ! snd tran
                in if is_final next_st = STATE_FINAL
                   then Ok (STATE_FINAL, Some (st_id next_st), sm_reset_state sm1)
                   else Ok (STATE_NOT_FINAL, Some (st_id next_st), sm1)))
      | _ \<Rightarrow> Fault AssertFail)"

subsection \<open>Invariant\<close>

definition state_ok :: "nat \<Rightarrow> sm_state \<Rightarrow> bool" where
  "state_ok n s \<longleftrightarrow> (\<forall>(i, j) \<in> set (transitions s). j < n)"

definition sm_ok :: "sm_data \<Rightarrow> bool" where
  "sm_ok sm \<longleftrightarrow> distinct (map st_id (arr sm)) \<and> length (arr sm) \<le> max_states sm \<and>
     (\<forall>s \<in> set (arr sm). state_ok (length (arr sm)) s) \<and>
     (\<forall>i. start_state sm = Some i \<longrightarrow> i < length (arr sm)) \<and>
     (\<forall>i. curr_state sm = Some i \<longrightarrow> i < length (arr sm))"

lemma find_from_Some:
  "find_from ss sid i = Some j \<Longrightarrow> i \<le> j \<and> j - i < length ss \<and> st_id (ss ! (j - i)) = sid"
proof (induction ss arbitrary: i)
  case (Cons s ss)
  show ?case
  proof (cases "st_id s = sid")
    case False
    with Cons.prems have "find_from ss sid (Suc i) = Some j" by simp
    note IH = Cons.IH [OF this]
    then have "(s # ss) ! (j - i) = ss ! (j - Suc i)" by (simp add: nth_Cons')
    with IH show ?thesis by auto
  qed (use Cons.prems in auto)
qed simp

lemma find_from_None: "find_from ss sid i = None \<longleftrightarrow> sid \<notin> st_id ` set ss"
  by (induction ss arbitrary: i) auto

lemma sm_find_state_Some:
  "sm_find_state sm sid = Some j \<Longrightarrow> j < length (arr sm) \<and> st_id (arr sm ! j) = sid"
  using find_from_Some [of "arr sm" sid 0 j] by (simp add: sm_find_state_def)

lemma sm_find_state_None: "sm_find_state sm sid = None \<longleftrightarrow> sid \<notin> st_id ` set (arr sm)"
  by (simp add: sm_find_state_def find_from_None)

lemma sm_find_state_index:
  assumes "distinct (map st_id (arr sm))" and "i < length (arr sm)"
  shows "sm_find_state sm (st_id (arr sm ! i)) = Some i"
proof (cases "sm_find_state sm (st_id (arr sm ! i))")
  case None
  with assms(2) show ?thesis by (auto simp: sm_find_state_None)
next
  case (Some j)
  from sm_find_state_Some [OF this] assms have "j = i"
    by (metis length_map nth_eq_iff_index_eq nth_map)
  with Some show ?thesis by simp
qed

lemma state_ok_mono: "state_ok n s \<Longrightarrow> n \<le> m \<Longrightarrow> state_ok m s"
  by (fastforce simp: state_ok_def)

lemma sm_add_state_ok: "sm_ok sm \<Longrightarrow> sm_add_state sm sid final = Ok sm' \<Longrightarrow> sm_ok sm'"
  by (fastforce simp: sm_add_state_def sm_ok_def sm_find_state_None state_ok_def split: if_splits)

lemma sm_set_start_state_ok: "sm_ok sm \<Longrightarrow> sm_ok (sm_set_start_state sm sid)"
  using sm_find_state_Some [of sm sid]
  by (auto simp: sm_set_start_state_def sm_reset_state_def sm_ok_def)

lemma map_st_id_update:
  "st_id s = st_id (xs ! i) \<Longrightarrow> map st_id (xs[i := s]) = map st_id xs"
  by (induction xs arbitrary: i) (auto split: nat.splits)

lemma sm_add_transition_ok:
  assumes ok: "sm_ok sm" and add: "sm_add_transition sm src input dst = Ok sm'"
  shows "sm_ok sm'"
proof -
  obtain i j where ij: "sm_find_state sm src = Some i" "sm_find_state sm dst = Some j"
    using add by (auto simp: sm_add_transition_def split: option.splits)
  let ?s = "(arr sm ! i)\<lparr>transitions := (input, j) # transitions (arr sm ! i)\<rparr>"
  have sm': "sm' = sm\<lparr>arr := (arr sm)[i := ?s]\<rparr>"
    using add ij by (simp add: sm_add_transition_def Let_def)
  have "state_ok (length (arr sm)) ?s"
    using ok sm_find_state_Some [OF ij(1)] sm_find_state_Some [OF ij(2)]
    by (auto simp: sm_ok_def state_ok_def)
  then have "\<forall>s \<in> set ((arr sm)[i := ?s]). state_ok (length (arr sm)) s"
    using ok set_update_subset_insert [of "arr sm" i ?s] by (auto simp: sm_ok_def)
  with ok sm' show ?thesis by (simp add: sm_ok_def map_st_id_update)
qed

subsection \<open>Refinement of a partial transition function\<close>

definition sm_delta :: "sm_data \<Rightarrow> int \<Rightarrow> int \<Rightarrow> int option" where
  "sm_delta sm q input =
     (case sm_find_state sm q of None \<Rightarrow> None
      | Some i \<Rightarrow> map_option (\<lambda>j. st_id (arr sm ! j)) (map_of (transitions (arr sm ! i)) input))"

definition sm_accepts :: "sm_data \<Rightarrow> int \<Rightarrow> bool" where
  "sm_accepts sm q \<longleftrightarrow>
     (case sm_find_state sm q of None \<Rightarrow> False | Some i \<Rightarrow> is_final (arr sm ! i) = STATE_FINAL)"

definition id_of :: "sm_data \<Rightarrow> nat option \<Rightarrow> int option" where
  "id_of sm p = map_option (\<lambda>i. st_id (arr sm ! i)) p"

text \<open>The contract of the header: the return value, the sid reported, the new current state.\<close>

definition dfa_step ::
  "(int \<Rightarrow> int \<Rightarrow> int option) \<Rightarrow> (int \<Rightarrow> bool) \<Rightarrow> int \<Rightarrow> int \<Rightarrow> int \<Rightarrow> int \<times> int option \<times> int" where
  "dfa_step delta accepts start cur input =
     (case delta cur input of
        None \<Rightarrow> (STATE_NO_TRANSITION, None, cur)
      | Some q \<Rightarrow> if accepts q then (STATE_FINAL, Some q, start) else (STATE_NOT_FINAL, Some q, q))"

lemma find_map_of: "map_option snd (find (\<lambda>t. fst t = k) ts) = map_of ts k"
  by (induction ts) auto

text \<open>
  C22. On a well-formed machine with a start state, \<open>sm_run\<close> passes its assertion and is one
  step of the transition function: it reports the id of the next state, goes back to the
  start state after a final one, stays put without a transition, and leaves the machine
  well-formed with the same transitions.
\<close>

theorem sm_run_refines_dfa:
  assumes ok: "sm_ok sm" and cur: "curr_state sm = Some c" and start: "start_state sm = Some s"
  shows "\<exists>rc out sm'. sm_run sm input = Ok (rc, out, sm') \<and> sm_ok sm' \<and>
    id_of sm' (curr_state sm') = Some (snd (snd (dfa_step (sm_delta sm) (sm_accepts sm)
      (st_id (arr sm ! s)) (st_id (arr sm ! c)) input))) \<and>
    (rc, out) = (let (r, q, _) = dfa_step (sm_delta sm) (sm_accepts sm)
      (st_id (arr sm ! s)) (st_id (arr sm ! c)) input in (r, q)) \<and>
    arr sm' = arr sm \<and> start_state sm' = start_state sm"
proof -
  have c: "c < length (arr sm)" and s: "s < length (arr sm)" and dist: "distinct (map st_id (arr sm))"
    using assms by (auto simp: sm_ok_def)
  have delta: "sm_delta sm (st_id (arr sm ! c)) input =
      map_option (\<lambda>j. st_id (arr sm ! j)) (map_of (transitions (arr sm ! c)) input)"
    by (simp add: sm_delta_def sm_find_state_index [OF dist c])
  show ?thesis
  proof (cases "find (\<lambda>t. fst t = input) (transitions (arr sm ! c))")
    case None
    then have "map_of (transitions (arr sm ! c)) input = None"
      using find_map_of [of input "transitions (arr sm ! c)"] by simp
    with None ok cur start delta show ?thesis
      by (auto simp: sm_run_def dfa_step_def id_of_def)
  next
    case (Some tran)
    then have m: "map_of (transitions (arr sm ! c)) input = Some (snd tran)"
      using find_map_of [of input "transitions (arr sm ! c)"] by simp
    have tran: "tran \<in> set (transitions (arr sm ! c))"
      using Some by (auto simp: find_Some_iff)
    have "state_ok (length (arr sm)) (arr sm ! c)" using ok c by (auto simp: sm_ok_def)
    with tran have j: "snd tran < length (arr sm)" by (cases tran) (auto simp: state_ok_def)
    have "sm_accepts sm (st_id (arr sm ! snd tran)) \<longleftrightarrow> is_final (arr sm ! snd tran) = STATE_FINAL"
      by (simp add: sm_accepts_def sm_find_state_index [OF dist j])
    with Some ok cur start delta m j s show ?thesis
      by (auto simp: sm_run_def dfa_step_def id_of_def sm_reset_state_def Let_def sm_ok_def)
  qed
qed

text \<open>
  Adding a transition between two known states overrides whatever the source state did
  on that input and nothing else; an unknown state trips the assertion.
\<close>

theorem sm_add_transition_overrides:
  assumes ok: "sm_ok sm"
  shows "if src \<in> st_id ` set (arr sm) \<and> dst \<in> st_id ` set (arr sm)
    then \<exists>sm'. sm_add_transition sm src input dst = Ok sm' \<and> sm_ok sm' \<and>
      sm_delta sm' = (\<lambda>q i. if q = src \<and> i = input then Some dst else sm_delta sm q i)
    else sm_add_transition sm src input dst = Fault AssertFail"
proof (cases "src \<in> st_id ` set (arr sm) \<and> dst \<in> st_id ` set (arr sm)")
  case False
  then have "sm_find_state sm src = None \<or> sm_find_state sm dst = None"
    by (auto simp: sm_find_state_None)
  with False show ?thesis by (auto simp: sm_add_transition_def split: option.splits)
next
  case True
  then obtain i j where i: "sm_find_state sm src = Some i" and j: "sm_find_state sm dst = Some j"
    by (metis option.exhaust sm_find_state_None)
  let ?s = "(arr sm ! i)\<lparr>transitions := (input, j) # transitions (arr sm ! i)\<rparr>"
  define sm' where "sm' = sm\<lparr>arr := (arr sm)[i := ?s]\<rparr>"
  have add: "sm_add_transition sm src input dst = Ok sm'"
    by (simp add: sm_add_transition_def i j sm'_def Let_def)
  have ok': "sm_ok sm'" by (rule sm_add_transition_ok [OF ok add])
  have ids: "st_id (arr sm' ! k) = st_id (arr sm ! k)" for k
    using sm_find_state_Some [OF i] by (simp add: sm'_def nth_list_update)
  have len: "length (arr sm') = length (arr sm)" by (simp add: sm'_def)
  have maps: "map st_id (arr sm') = map st_id (arr sm)" by (simp add: sm'_def map_st_id_update)
  have fnd: "sm_find_state sm' q = sm_find_state sm q" for q
  proof (cases "sm_find_state sm q")
    case None
    with maps show ?thesis by (metis sm_find_state_None set_map)
  next
    case (Some k)
    from sm_find_state_Some [OF this] ok' ids len show ?thesis
      using sm_find_state_index [of sm' k] Some by (auto simp: sm_ok_def)
  qed
  have "sm_delta sm' q n = (if q = src \<and> n = input then Some dst else sm_delta sm q n)" for q n
  proof (cases "sm_find_state sm q")
    case None
    with i fnd show ?thesis by (auto simp: sm_delta_def)
  next
    case (Some k)
    have ki: "k = i \<longleftrightarrow> q = src"
    proof
      assume "k = i"
      with sm_find_state_Some [OF Some] sm_find_state_Some [OF i] show "q = src" by simp
    next
      assume "q = src"
      with Some i show "k = i" by simp
    qed
    have at_k: "arr sm' ! k = (if k = i then ?s else arr sm ! k)"
      using sm_find_state_Some [OF Some] by (auto simp: sm'_def nth_list_update)
    have dst: "st_id (arr sm ! j) = dst" using sm_find_state_Some [OF j] by simp
    show ?thesis
    proof (cases "q = src")
      case True
      with ki have "k = i" by simp
      with True Some fnd dst ids at_k show ?thesis by (simp add: sm_delta_def)
    next
      case False
      with ki have "k \<noteq> i" by simp
      with False Some fnd ids at_k show ?thesis by (simp add: sm_delta_def)
    qed
  qed
  with True add ok' show ?thesis by auto
qed

subsection \<open>Witnesses\<close>

definition sample_sm :: sm_data where
  "sample_sm = \<lparr>start_state = Some 0, curr_state = Some 0, max_states = 2,
     arr = [\<lparr>st_id = 5, is_final = 0, transitions = [(7, 1)]\<rparr>,
            \<lparr>st_id = 6, is_final = 1, transitions = []\<rparr>]\<rparr>"

lemma sample_sm_ok: "sm_ok sample_sm"
  by (simp add: sample_sm_def sm_ok_def state_ok_def)

theorem sm_run_refines_dfa_witness:
  "\<exists>sm'. sm_run sample_sm 7 = Ok (STATE_FINAL, Some 6, sm') \<and> id_of sm' (curr_state sm') = Some 5"
proof -
  have h: "curr_state sample_sm = Some 0" "start_state sample_sm = Some 0"
    by (simp_all add: sample_sm_def)
  have "dfa_step (sm_delta sample_sm) (sm_accepts sample_sm) 5 5 7 = (STATE_FINAL, Some 6, 5)"
    by (simp add: dfa_step_def sm_delta_def sm_accepts_def sm_find_state_def sample_sm_def STATE_FINAL_def)
  moreover have "st_id (arr sample_sm ! 0) = 5" by (simp add: sample_sm_def)
  ultimately show ?thesis
    using sm_run_refines_dfa [OF sample_sm_ok h, of 7] by auto
qed

theorem sm_add_transition_overrides_witness:
  "\<exists>sm'. sm_add_transition sample_sm 5 7 5 = Ok sm' \<and> sm_delta sm' 5 7 = Some 5"
proof -
  have "5 \<in> st_id ` set (arr sample_sm)" by (simp add: sample_sm_def)
  with sm_add_transition_overrides [OF sample_sm_ok, of 5 5 7] show ?thesis by auto
qed

end
