(* ===== verification/Lzma.thy ===== *)
theory Lzma
  imports Prelude
begin

text \<open>
  The LZMA decoder (\<^verbatim>\<open>base/lzma/lzmadecode.c\<close>, \<^verbatim>\<open>priv.h\<close>, \<^verbatim>\<open>lzma.c\<close>).  \<open>Err\<close> is the result
  \<open>LZMA_RESULT_DATA_ERROR\<close>, and the 0 of \<open>ulzman\<close>.

  The macros of the range decoder (\<open>RC_INIT\<close>, \<open>RC_NORMALIZE\<close>, \<open>IfBit0\<close> with its updates) are
  functions on its variables.  The rest of the decoder uses them only to ask for the next bit, in
  the context of a probability or without one: it is written over two such functions.
\<close>

subsection \<open>The range decoder\<close>

record range_decoder =
  rd_pos :: nat
  rd_range :: u32
  rd_code :: u32
  rd_probs :: "u16 list"

definition kTopValue :: u32 where
  "kTopValue = push_bit 24 1"

definition kBitModelTotal :: int where
  "kBitModelTotal = 2 ^ 11"

text \<open>\<open>ins\<close> is the input, and \<open>lim\<close> the size passed with it.\<close>

definition rc_read_byte :: "bytes \<Rightarrow> nat \<Rightarrow> range_decoder \<Rightarrow> (u8 \<times> range_decoder) res" where
  "rc_read_byte ins lim s =
     (if rd_pos s = lim then Err
      else andthen (of_opt (rd ins (rd_pos s))) (\<lambda>b. Ok (b, s\<lparr>rd_pos := rd_pos s + 1\<rparr>)))"

fun rc_init_loop :: "bytes \<Rightarrow> nat \<Rightarrow> nat \<Rightarrow> range_decoder \<Rightarrow> range_decoder res" where
  "rc_init_loop ins lim 0 s = Ok s"
| "rc_init_loop ins lim (Suc i) s =
     andthen (rc_read_byte ins lim s) (\<lambda>(b, s).
     rc_init_loop ins lim i (s\<lparr>rd_code := push_bit 8 (rd_code s) OR ucast b\<rparr>))"

definition rc_init :: "bytes \<Rightarrow> nat \<Rightarrow> u16 list \<Rightarrow> range_decoder res" where
  "rc_init ins lim probs =
     rc_init_loop ins lim 5 \<lparr>rd_pos = 0, rd_range = 0xFFFFFFFF, rd_code = 0, rd_probs = probs\<rparr>"

definition rc_normalize :: "bytes \<Rightarrow> nat \<Rightarrow> range_decoder \<Rightarrow> range_decoder res" where
  "rc_normalize ins lim s =
     (if rd_range s < kTopValue
      then andthen (rc_read_byte ins lim s) (\<lambda>(b, s).
        Ok (s\<lparr>rd_range := push_bit 8 (rd_range s), rd_code := push_bit 8 (rd_code s) OR ucast b\<rparr>))
      else Ok s)"

definition rc_bit :: "bytes \<Rightarrow> nat \<Rightarrow> nat \<Rightarrow> range_decoder \<Rightarrow> (bool \<times> range_decoder) res" where
  "rc_bit ins lim i s =
     andthen (rc_normalize ins lim s) (\<lambda>s.
     andthen (of_opt (rd (rd_probs s) i)) (\<lambda>p.
     let bound = drop_bit 11 (rd_range s) * ucast p in
     if rd_code s < bound
     then Ok (False, s\<lparr>rd_range := bound,
            rd_probs := (rd_probs s)[i := p + word_of_int ((kBitModelTotal - uint p) div 2 ^ 5)]\<rparr>)
     else Ok (True, s\<lparr>rd_range := rd_range s - bound, rd_code := rd_code s - bound,
            rd_probs := (rd_probs s)[i := p - drop_bit 5 p]\<rparr>)))"

definition rc_direct :: "bytes \<Rightarrow> nat \<Rightarrow> range_decoder \<Rightarrow> (bool \<times> range_decoder) res" where
  "rc_direct ins lim s =
     andthen (rc_normalize ins lim s) (\<lambda>s.
     let half = drop_bit 1 (rd_range s) in
     if half \<le> rd_code s
     then Ok (True, s\<lparr>rd_range := half, rd_code := rd_code s - half\<rparr>)
     else Ok (False, s\<lparr>rd_range := half\<rparr>))"

subsection \<open>Symbols\<close>

type_synonym 's bit_fun = "nat \<Rightarrow> 's \<Rightarrow> (bool \<times> 's) res"
type_synonym 's direct_fun = "'s \<Rightarrow> (bool \<times> 's) res"

definition shift_in :: "nat \<Rightarrow> bool \<Rightarrow> nat" where
  "shift_in m b = 2 * m + of_bool b"

fun tree_loop :: "'s bit_fun \<Rightarrow> nat \<Rightarrow> nat \<Rightarrow> nat \<Rightarrow> 's \<Rightarrow> (nat \<times> 's) res" where
  "tree_loop bitf probs 0 m s = Ok (m, s)"
| "tree_loop bitf probs (Suc i) m s =
     andthen (bitf (probs + m) s) (\<lambda>(b, s). tree_loop bitf probs i (shift_in m b) s)"

definition bit_tree_decode :: "'s bit_fun \<Rightarrow> nat \<Rightarrow> nat \<Rightarrow> 's \<Rightarrow> (nat \<times> 's) res" where
  "bit_tree_decode bitf probs levels s = map_res (\<lambda>(m, s). (m - 2 ^ levels, s)) (tree_loop bitf probs levels 1 s)"

text \<open>The bits of lowest order first: \<open>i\<close> is the value of the next one.\<close>

fun reverse_loop :: "'s bit_fun \<Rightarrow> nat \<Rightarrow> nat \<Rightarrow> nat \<Rightarrow> nat \<Rightarrow> u32 \<Rightarrow> 's \<Rightarrow> (u32 \<times> 's) res" where
  "reverse_loop bitf probs 0 i mi rep0 s = Ok (rep0, s)"
| "reverse_loop bitf probs (Suc n) i mi rep0 s =
     andthen (bitf (probs + mi) s) (\<lambda>(b, s).
     reverse_loop bitf probs n (2 * i) (shift_in mi b) (if b then rep0 OR word_of_nat i else rep0) s)"

fun direct_loop :: "'s direct_fun \<Rightarrow> nat \<Rightarrow> u32 \<Rightarrow> 's \<Rightarrow> (u32 \<times> 's) res" where
  "direct_loop directf 0 rep0 s = Ok (rep0, s)"
| "direct_loop directf (Suc n) rep0 s =
     andthen (directf s) (\<lambda>(b, s).
     direct_loop directf n (if b then push_bit 1 rep0 OR 1 else push_bit 1 rep0) s)"

text \<open>
  The two loops of a literal; a symbol of 0 would not grow.
\<close>

function lit_matched :: "'s bit_fun \<Rightarrow> nat \<Rightarrow> nat \<Rightarrow> nat \<Rightarrow> 's \<Rightarrow> (nat \<times> 's) res" where
  "lit_matched bitf prob mbyte symbol s =
     (if symbol = 0 then Fault Diverges
      else let mbyte = 2 * mbyte; mbit = (if odd (mbyte div 0x100) then 0x100 else 0) in
        andthen (bitf (prob + 0x100 + mbit + symbol) s) (\<lambda>(b, s).
        let sym = shift_in symbol b in
        if b \<noteq> (mbit \<noteq> 0) then Ok (sym, s)
        else if sym < 0x100 then lit_matched bitf prob mbyte sym s else Ok (sym, s)))"
  by pat_completeness auto
termination
  by (relation "measure (\<lambda>(_, _, _, symbol, _). 0x100 - symbol)") (auto simp: shift_in_def)

declare lit_matched.simps [simp del]

function lit_plain :: "'s bit_fun \<Rightarrow> nat \<Rightarrow> nat \<Rightarrow> 's \<Rightarrow> (nat \<times> 's) res" where
  "lit_plain bitf prob symbol s =
     (if symbol < 0x100
      then if symbol = 0 then Fault Diverges
        else andthen (bitf (prob + symbol) s) (\<lambda>(b, s). lit_plain bitf prob (shift_in symbol b) s)
      else Ok (symbol, s))"
  by pat_completeness auto
termination
  by (relation "measure (\<lambda>(_, _, symbol, _). 0x100 - symbol)") (auto simp: shift_in_def)

declare lit_plain.simps [simp del]

subsection \<open>The table of probabilities\<close>

definition kNumPosBitsMax :: nat where "kNumPosBitsMax = 4"
definition kNumPosStatesMax :: nat where "kNumPosStatesMax = 2 ^ kNumPosBitsMax"
definition kLenNumLowBits :: nat where "kLenNumLowBits = 3"
definition kLenNumLowSymbols :: nat where "kLenNumLowSymbols = 2 ^ kLenNumLowBits"
definition kLenNumMidBits :: nat where "kLenNumMidBits = 3"
definition kLenNumMidSymbols :: nat where "kLenNumMidSymbols = 2 ^ kLenNumMidBits"
definition kLenNumHighBits :: nat where "kLenNumHighBits = 8"
definition kLenNumHighSymbols :: nat where "kLenNumHighSymbols = 2 ^ kLenNumHighBits"
definition LenChoice :: nat where "LenChoice = 0"
definition LenChoice2 :: nat where "LenChoice2 = LenChoice + 1"
definition LenLow :: nat where "LenLow = LenChoice2 + 1"
definition LenMid :: nat where "LenMid = LenLow + kNumPosStatesMax * 2 ^ kLenNumLowBits"
definition LenHigh :: nat where "LenHigh = LenMid + kNumPosStatesMax * 2 ^ kLenNumMidBits"
definition kNumLenProbs :: nat where "kNumLenProbs = LenHigh + kLenNumHighSymbols"
definition kNumStates :: nat where "kNumStates = 12"
definition kNumLitStates :: nat where "kNumLitStates = 7"
definition kStartPosModelIndex :: nat where "kStartPosModelIndex = 4"
definition kEndPosModelIndex :: nat where "kEndPosModelIndex = 14"
definition kNumFullDistances :: nat where "kNumFullDistances = 2 ^ (kEndPosModelIndex div 2)"
definition kNumPosSlotBits :: nat where "kNumPosSlotBits = 6"
definition kNumLenToPosStates :: nat where "kNumLenToPosStates = 4"
definition kNumAlignBits :: nat where "kNumAlignBits = 4"
definition kAlignTableSize :: nat where "kAlignTableSize = 2 ^ kNumAlignBits"
definition kMatchMinLen :: nat where "kMatchMinLen = 2"
definition IsMatch :: nat where "IsMatch = 0"
definition IsRep :: nat where "IsRep = IsMatch + kNumStates * 2 ^ kNumPosBitsMax"
definition IsRepG0 :: nat where "IsRepG0 = IsRep + kNumStates"
definition IsRepG1 :: nat where "IsRepG1 = IsRepG0 + kNumStates"
definition IsRepG2 :: nat where "IsRepG2 = IsRepG1 + kNumStates"
definition IsRep0Long :: nat where "IsRep0Long = IsRepG2 + kNumStates"
definition PosSlot :: nat where "PosSlot = IsRep0Long + kNumStates * 2 ^ kNumPosBitsMax"
definition SpecPos :: nat where "SpecPos = PosSlot + kNumLenToPosStates * 2 ^ kNumPosSlotBits"
definition Align :: nat where "Align = SpecPos + kNumFullDistances - kEndPosModelIndex"
definition LenCoder :: nat where "LenCoder = Align + kAlignTableSize"
definition RepLenCoder :: nat where "RepLenCoder = LenCoder + kNumLenProbs"
definition LiteralProbs :: nat where "LiteralProbs = RepLenCoder + kNumLenProbs"
definition LZMA_BASE_SIZE :: nat where "LZMA_BASE_SIZE = 1846"
definition LZMA_LIT_SIZE :: nat where "LZMA_LIT_SIZE = 768"

lemmas lzma_consts = kNumPosBitsMax_def kNumPosStatesMax_def kLenNumLowBits_def kLenNumLowSymbols_def
  kLenNumMidBits_def kLenNumMidSymbols_def kLenNumHighBits_def kLenNumHighSymbols_def LenChoice_def
  LenChoice2_def LenLow_def LenMid_def LenHigh_def kNumLenProbs_def kNumStates_def kNumLitStates_def
  kStartPosModelIndex_def kEndPosModelIndex_def kNumFullDistances_def kNumPosSlotBits_def
  kNumLenToPosStates_def kNumAlignBits_def kAlignTableSize_def kMatchMinLen_def IsMatch_def IsRep_def
  IsRepG0_def IsRepG1_def IsRepG2_def IsRep0Long_def PosSlot_def SpecPos_def Align_def LenCoder_def
  RepLenCoder_def LiteralProbs_def LZMA_BASE_SIZE_def LZMA_LIT_SIZE_def

text \<open>The check at compile time.\<close>

lemma base_size: "LiteralProbs = LZMA_BASE_SIZE"
  by (simp add: lzma_consts)

subsection \<open>Packets\<close>

record lzma_props =
  lp_lc :: nat
  lp_lp :: nat
  lp_pb :: nat

record lzma_vars =
  lz_state :: nat
  lz_rep0 :: u32
  lz_rep1 :: u32
  lz_rep2 :: u32
  lz_rep3 :: u32
  lz_prev :: u8
  lz_out :: bytes
  lz_pos :: nat

text \<open>\<open>outStream[nowPos - rep0]\<close>, and \<open>outStream[nowPos++] = previousByte\<close>.\<close>

definition history_byte :: "lzma_vars \<Rightarrow> u8 res" where
  "history_byte lz =
     (if unat (lz_rep0 lz) \<le> lz_pos lz then of_opt (rd (lz_out lz) (lz_pos lz - unat (lz_rep0 lz))) else Fault OutOfBounds)"

definition out_byte :: "u8 \<Rightarrow> lzma_vars \<Rightarrow> lzma_vars res" where
  "out_byte b lz =
     (if lz_pos lz < length (lz_out lz)
      then Ok (lz\<lparr>lz_prev := b, lz_out := (lz_out lz)[lz_pos lz := b], lz_pos := lz_pos lz + 1\<rparr>)
      else Fault OutOfBounds)"

definition literal_probs :: "lzma_props \<Rightarrow> lzma_vars \<Rightarrow> nat" where
  "literal_probs props lz =
     LiteralProbs + LZMA_LIT_SIZE *
       ((lz_pos lz mod 2 ^ lp_lp props) * 2 ^ lp_lc props + unat (lz_prev lz) div 2 ^ (8 - lp_lc props))"

definition decode_literal :: "'s bit_fun \<Rightarrow> lzma_props \<Rightarrow> lzma_vars \<Rightarrow> 's \<Rightarrow> (lzma_vars \<times> 's) res" where
  "decode_literal bitf props lz s =
     (let prob = literal_probs props lz in
      andthen (if kNumLitStates \<le> lz_state lz
               then andthen (history_byte lz) (\<lambda>mb. lit_matched bitf prob (unat mb) 1 s)
               else Ok (1, s)) (\<lambda>(symbol, s).
      andthen (lit_plain bitf prob symbol s) (\<lambda>(symbol, s).
      andthen (out_byte (word_of_nat symbol) lz) (\<lambda>lz.
      let state = lz_state lz in
      Ok (lz\<lparr>lz_state := if state < 4 then 0 else if state < 10 then state - 3 else state - 6\<rparr>, s)))))"

definition decode_len :: "'s bit_fun \<Rightarrow> nat \<Rightarrow> nat \<Rightarrow> 's \<Rightarrow> (nat \<times> 's) res" where
  "decode_len bitf prob pos_state s =
     andthen (bitf (prob + LenChoice) s) (\<lambda>(b, s).
     if \<not> b then bit_tree_decode bitf (prob + LenLow + pos_state * 2 ^ kLenNumLowBits) kLenNumLowBits s
     else andthen (bitf (prob + LenChoice2) s) (\<lambda>(b, s).
       if \<not> b
       then map_res (\<lambda>(len, s). (len + kLenNumLowSymbols, s))
              (bit_tree_decode bitf (prob + LenMid + pos_state * 2 ^ kLenNumMidBits) kLenNumMidBits s)
       else map_res (\<lambda>(len, s). (len + (kLenNumLowSymbols + kLenNumMidSymbols), s))
              (bit_tree_decode bitf (prob + LenHigh) kLenNumHighBits s)))"

text \<open>The distance, before it is incremented.\<close>

definition decode_distance :: "'s bit_fun \<Rightarrow> 's direct_fun \<Rightarrow> nat \<Rightarrow> 's \<Rightarrow> (u32 \<times> 's) res" where
  "decode_distance bitf directf len s =
     andthen (bit_tree_decode bitf
       (PosSlot + (if len < kNumLenToPosStates then len else kNumLenToPosStates - 1) * 2 ^ kNumPosSlotBits)
       kNumPosSlotBits s) (\<lambda>(pos_slot, s).
     if kStartPosModelIndex \<le> pos_slot
     then let n = pos_slot div 2 - 1; rep0 = (2 OR word_of_nat (pos_slot mod 2)) in
       if pos_slot < kEndPosModelIndex
       then let rep0 = push_bit n rep0 in
         reverse_loop bitf (SpecPos + unat rep0 - pos_slot - 1) n 1 1 rep0 s
       else andthen (direct_loop directf (n - kNumAlignBits) rep0 s) (\<lambda>(rep0, s).
         reverse_loop bitf Align kNumAlignBits 1 1 (push_bit kNumAlignBits rep0) s)
     else Ok (word_of_nat pos_slot, s))"

text \<open>\<open>do ... while (len != 0 && nowPos < outSize)\<close>.\<close>

fun copy_match :: "nat \<Rightarrow> nat \<Rightarrow> lzma_vars \<Rightarrow> lzma_vars res" where
  "copy_match out_size 0 lz = Ok lz"
| "copy_match out_size (Suc len) lz =
     andthen (history_byte lz) (\<lambda>b.
     andthen (out_byte b lz) (\<lambda>lz.
     if len \<noteq> 0 \<and> lz_pos lz < out_size then copy_match out_size len lz else Ok lz))"

text \<open>From the length on; the result says whether the marker of the end was read.\<close>

definition finish_match :: "'s bit_fun \<Rightarrow> 's direct_fun \<Rightarrow> nat \<Rightarrow> nat \<Rightarrow> nat \<Rightarrow> lzma_vars \<Rightarrow> 's \<Rightarrow> (bool \<times> lzma_vars \<times> 's) res" where
  "finish_match bitf directf out_size prob pos_state lz s =
     andthen (decode_len bitf prob pos_state s) (\<lambda>(len, s).
     andthen (if lz_state lz < 4
              then andthen (decode_distance bitf directf len s) (\<lambda>(dist, s).
                Ok (dist + 1 = 0, lz\<lparr>lz_state := lz_state lz + kNumLitStates, lz_rep0 := dist + 1\<rparr>, s))
              else Ok (False, lz, s)) (\<lambda>(marker, lz, s).
     if marker then Ok (True, lz, s)
     else if lz_pos lz < unat (lz_rep0 lz) then Err
     else map_res (\<lambda>lz. (False, lz, s)) (copy_match out_size (len + kMatchMinLen) lz)))"

text \<open>A match with one of the last distances.\<close>

definition decode_rep :: "'s bit_fun \<Rightarrow> 's direct_fun \<Rightarrow> nat \<Rightarrow> nat \<Rightarrow> lzma_vars \<Rightarrow> 's \<Rightarrow> (bool \<times> lzma_vars \<times> 's) res" where
  "decode_rep bitf directf out_size pos_state lz s =
     (let state = lz_state lz;
          finish = (\<lambda>lz s. finish_match bitf directf out_size RepLenCoder pos_state
            (lz\<lparr>lz_state := if state < kNumLitStates then 8 else 11\<rparr>) s) in
      andthen (bitf (IsRepG0 + state) s) (\<lambda>(b, s).
      if \<not> b then
        andthen (bitf (IsRep0Long + state * 2 ^ kNumPosBitsMax + pos_state) s) (\<lambda>(b, s).
        if \<not> b then
          (if lz_pos lz = 0 then Err
           else andthen (history_byte lz) (\<lambda>byte.
             map_res (\<lambda>lz. (False, lz, s)) (out_byte byte (lz\<lparr>lz_state := if state < kNumLitStates then 9 else 11\<rparr>))))
        else finish lz s)
      else andthen (bitf (IsRepG1 + state) s) (\<lambda>(b, s).
      if \<not> b then finish (lz\<lparr>lz_rep0 := lz_rep1 lz, lz_rep1 := lz_rep0 lz\<rparr>) s
      else andthen (bitf (IsRepG2 + state) s) (\<lambda>(b, s).
      if \<not> b then finish (lz\<lparr>lz_rep0 := lz_rep2 lz, lz_rep2 := lz_rep1 lz, lz_rep1 := lz_rep0 lz\<rparr>) s
      else finish (lz\<lparr>lz_rep0 := lz_rep3 lz, lz_rep3 := lz_rep2 lz, lz_rep2 := lz_rep1 lz, lz_rep1 := lz_rep0 lz\<rparr>) s))))"

text \<open>The body of the main loop.\<close>

definition decode_packet :: "'s bit_fun \<Rightarrow> 's direct_fun \<Rightarrow> lzma_props \<Rightarrow> nat \<Rightarrow> lzma_vars \<Rightarrow> 's \<Rightarrow> (bool \<times> lzma_vars \<times> 's) res" where
  "decode_packet bitf directf props out_size lz s =
     (let pos_state = lz_pos lz mod 2 ^ lp_pb props; state = lz_state lz in
      andthen (bitf (IsMatch + state * 2 ^ kNumPosBitsMax + pos_state) s) (\<lambda>(b, s).
      if \<not> b then map_res (\<lambda>(lz, s). (False, lz, s)) (decode_literal bitf props lz s)
      else andthen (bitf (IsRep + state) s) (\<lambda>(b, s).
      if \<not> b then
        finish_match bitf directf out_size LenCoder pos_state
          (lz\<lparr>lz_rep3 := lz_rep2 lz, lz_rep2 := lz_rep1 lz, lz_rep1 := lz_rep0 lz,
              lz_state := if state < kNumLitStates then 0 else 3\<rparr>) s
      else decode_rep bitf directf out_size pos_state lz s)))"

text \<open>Every packet but the marker moves on in the output.\<close>

lemma andthen_OkE: "andthen r f = Ok y \<Longrightarrow> (\<And>x. r = Ok x \<Longrightarrow> f x = Ok y \<Longrightarrow> P) \<Longrightarrow> P"
  by (cases r) auto

lemma out_byte_pos: "out_byte b lz = Ok lz' \<Longrightarrow> lz_pos lz' = Suc (lz_pos lz)"
  by (auto simp: out_byte_def split: if_splits)

lemma copy_match_pos: "copy_match n (Suc len) lz = Ok lz' \<Longrightarrow> lz_pos lz < lz_pos lz'"
proof (induction len arbitrary: lz)
  case 0
  then show ?case by (auto elim!: andthen_OkE dest: out_byte_pos split: if_splits)
next
  case (Suc len)
  obtain b lz1 where "out_byte b lz = Ok lz1"
    and r: "(if Suc len \<noteq> 0 \<and> lz_pos lz1 < n then copy_match n (Suc len) lz1 else Ok lz1) = Ok lz'"
    using Suc.prems unfolding copy_match.simps(2) [of n "Suc len"] by (elim andthen_OkE) blast
  then have p: "lz_pos lz1 = Suc (lz_pos lz)" by (simp add: out_byte_pos)
  show ?case
  proof (cases "lz_pos lz1 < n")
    case True
    then have "copy_match n (Suc len) lz1 = Ok lz'" using r by (simp del: copy_match.simps)
    from Suc.IH [OF this] p show ?thesis by simp
  next
    case False
    then show ?thesis using r p by (simp del: copy_match.simps)
  qed
qed

lemma finish_match_pos:
  "finish_match bitf directf n prob ps lz s = Ok (False, lz', s') \<Longrightarrow> lz_pos lz < lz_pos lz'"
  by (auto simp: finish_match_def map_res_Ok_iff kMatchMinLen_def dest!: copy_match_pos elim!: andthen_OkE
    split: if_splits simp del: copy_match.simps)

lemma decode_rep_pos:
  "decode_rep bitf directf n ps lz s = Ok (False, lz', s') \<Longrightarrow> lz_pos lz < lz_pos lz'"
  unfolding decode_rep_def Let_def
  by (elim andthen_OkE) (auto simp: map_res_Ok_iff dest!: finish_match_pos out_byte_pos elim!: andthen_OkE split: if_splits)

lemma decode_packet_pos:
  "decode_packet bitf directf props n lz s = Ok (False, lz', s') \<Longrightarrow> lz_pos lz < lz_pos lz'"
  unfolding decode_packet_def Let_def
  by (elim andthen_OkE) (auto simp: map_res_Ok_iff decode_literal_def Let_def
    dest!: finish_match_pos out_byte_pos decode_rep_pos elim!: andthen_OkE split: if_splits)

function packet_loop :: "'s bit_fun \<Rightarrow> 's direct_fun \<Rightarrow> lzma_props \<Rightarrow> nat \<Rightarrow> lzma_vars \<Rightarrow> 's \<Rightarrow> (lzma_vars \<times> 's) res" where
  "packet_loop bitf directf props out_size lz s =
     (if lz_pos lz < out_size
      then andthen (decode_packet bitf directf props out_size lz s) (\<lambda>(marker, lz, s).
        if marker then Ok (lz, s) else packet_loop bitf directf props out_size lz s)
      else Ok (lz, s))"
  by pat_completeness auto
termination
  by (relation "measure (\<lambda>(_, _, _, n, lz, _). n - lz_pos lz)") (auto dest!: decode_packet_pos)

declare packet_loop.simps [simp del]

subsection \<open>The decoder\<close>

text \<open>The properties byte, taken apart by subtraction.\<close>

function LzmaDecodeProperties_pb :: "nat \<Rightarrow> nat \<Rightarrow> nat \<times> nat" where
  "LzmaDecodeProperties_pb prop0 pb =
     (if 45 \<le> prop0 then LzmaDecodeProperties_pb (prop0 - 45) (pb + 1) else (prop0, pb))"
  by pat_completeness auto
termination
  by (relation "measure fst") auto

function LzmaDecodeProperties_lp :: "nat \<Rightarrow> nat \<Rightarrow> nat \<times> nat" where
  "LzmaDecodeProperties_lp prop0 lp =
     (if 9 \<le> prop0 then LzmaDecodeProperties_lp (prop0 - 9) (lp + 1) else (prop0, lp))"
  by pat_completeness auto
termination
  by (relation "measure fst") auto

declare LzmaDecodeProperties_pb.simps [simp del] LzmaDecodeProperties_lp.simps [simp del]

definition LZMA_PROPERTIES_SIZE :: nat where "LZMA_PROPERTIES_SIZE = 5"

definition LzmaDecodeProperties :: "bytes \<Rightarrow> nat \<Rightarrow> lzma_props res" where
  "LzmaDecodeProperties data sz =
     (if sz < LZMA_PROPERTIES_SIZE then Err
      else andthen (of_opt (rd data 0)) (\<lambda>b.
        let prop0 = unat b in
        if 9 * 5 * 5 \<le> prop0 then Err
        else let (prop0, pb) = LzmaDecodeProperties_pb prop0 0; (prop0, lp) = LzmaDecodeProperties_lp prop0 0 in
          Ok \<lparr>lp_lc = prop0, lp_lp = lp, lp_pb = pb\<rparr>))"

definition LzmaGetNumProbs :: "lzma_props \<Rightarrow> nat" where
  "LzmaGetNumProbs props = LZMA_BASE_SIZE + LZMA_LIT_SIZE * 2 ^ (lp_lc props + lp_lp props)"

text \<open>\<open>probs\<close> is the memory for the probabilities, whatever it contains.\<close>

definition init_probs :: "lzma_props \<Rightarrow> u16 list \<Rightarrow> u16 list res" where
  "init_probs props probs =
     (let num_probs = LiteralProbs + LZMA_LIT_SIZE * 2 ^ (lp_lc props + lp_lp props)
      in of_opt (put probs 0 (replicate num_probs (word_of_int (kBitModelTotal div 2)))))"

definition lzma_start :: "bytes \<Rightarrow> lzma_vars" where
  "lzma_start out =
     \<lparr>lz_state = 0, lz_rep0 = 1, lz_rep1 = 1, lz_rep2 = 1, lz_rep3 = 1, lz_prev = 0, lz_out = out, lz_pos = 0\<rparr>"

text \<open>The result is \<open>inSizeProcessed\<close>, \<open>outSizeProcessed\<close> and the output.\<close>

definition LzmaDecode :: "lzma_props \<Rightarrow> u16 list \<Rightarrow> bytes \<Rightarrow> nat \<Rightarrow> bytes \<Rightarrow> nat \<Rightarrow> (nat \<times> nat \<times> bytes) res" where
  "LzmaDecode props probs ins in_size out out_size =
     andthen (init_probs props probs) (\<lambda>probs.
     andthen (rc_init ins in_size probs) (\<lambda>s.
     andthen (packet_loop (rc_bit ins in_size) (rc_direct ins in_size) props out_size (lzma_start out) s) (\<lambda>(lz, s).
     andthen (rc_normalize ins in_size s) (\<lambda>s.
     Ok (rd_pos s, lz_pos lz, lz_out lz)))))"

subsection \<open>The interface\<close>

text \<open>\<open>Err\<close> stands for \<open>-2\<close> and \<open>None\<close> for \<open>-1\<close>.\<close>

definition ulzma_expanded_size :: "bytes \<Rightarrow> u64 \<Rightarrow> u64 option res" where
  "ulzma_expanded_size src srcn =
     (if srcn < word_of_nat (LZMA_PROPERTIES_SIZE + 8) then Err
      else andthen (of_opt (slice src LZMA_PROPERTIES_SIZE 8)) (\<lambda>b.
        let sz = word_of_nat (le_val b) :: u64 in
        Ok (if sz = - 1 then None else Some sz)))"

text \<open>
  The size is a \<open>ssize_t\<close> when it is checked and an unsigned number when it is compared; what is
  passed on has 32 bits.  \<open>scratch\<close> is the uninitialized scratchpad of 15980 bytes.
\<close>

definition ulzman :: "u16 list \<Rightarrow> bytes \<Rightarrow> u64 \<Rightarrow> bytes \<Rightarrow> u64 \<Rightarrow> (nat \<times> bytes) res" where
  "ulzman scratch src srcn dst dstn =
     andthen (of_opt (slice src 0 LZMA_PROPERTIES_SIZE)) (\<lambda>properties.
     andthen (ulzma_expanded_size src srcn) (\<lambda>sz.
     andthen (case sz of None \<Rightarrow> Ok dstn
              | Some w \<Rightarrow> if sint w < - 1 then Err else Ok (if dstn < w then dstn else w)) (\<lambda>n.
     let out_size = ucast n :: u32 in
     andthen (LzmaDecodeProperties properties LZMA_PROPERTIES_SIZE) (\<lambda>props.
     if 15980 < LzmaGetNumProbs props * 2 then Err
     else let data_offset = LZMA_PROPERTIES_SIZE + 8 in
       map_res (\<lambda>(_, processed, dst). (processed, dst))
         (LzmaDecode props scratch (drop data_offset src) (unat (srcn - word_of_nat data_offset)) dst (unat out_size))))))"

definition ulzma :: "u16 list \<Rightarrow> bytes \<Rightarrow> bytes \<Rightarrow> (nat \<times> bytes) res" where
  "ulzma scratch src dst = ulzman scratch src (- 1) dst (- 1)"

end
