(* ===== verification/Str.thy ===== *)
theory Str
  imports Prelude
begin

text \<open>
  \<^verbatim>\<open>src/src/base/libc/string.c\<close>, \<^verbatim>\<open>strlcpy.c\<close> and \<^verbatim>\<open>ctype.c\<close>: the C string functions the
  rest of the program is built on.  A string argument is the list of the bytes from the
  pointer to the end of its object.  Whether a plain \<open>char\<close> is signed depends on the
  target (signed on x86, unsigned on ARM); it is the parameter \<open>sg\<close>.  Lengths are far
  below \<open>INT_MAX\<close>, so the \<open>int\<close> loop counters are natural numbers.
\<close>

definition char_val :: "bool \<Rightarrow> u8 \<Rightarrow> int" where
  "char_val sg c = (if sg then sint c else uint c)"

subsection \<open>Character classes\<close>

definition isalpha :: "int \<Rightarrow> bool" where
  "isalpha c \<longleftrightarrow> 97 \<le> c \<and> c \<le> 122 \<or> 65 \<le> c \<and> c \<le> 90"

definition isascii :: "int \<Rightarrow> bool" where
  "isascii c \<longleftrightarrow> 0 \<le> c \<and> c \<le> 127"

definition isblank :: "int \<Rightarrow> bool" where
  "isblank c \<longleftrightarrow> c = 32 \<or> c = 9"

definition iscntrl :: "int \<Rightarrow> bool" where
  "iscntrl c \<longleftrightarrow> c \<le> 31 \<or> c = 127"

definition isdigit :: "int \<Rightarrow> bool" where
  "isdigit c \<longleftrightarrow> 48 \<le> c \<and> c \<le> 57"

definition isalnum :: "int \<Rightarrow> bool" where
  "isalnum c \<longleftrightarrow> isalpha c \<or> isdigit c"

definition isgraph :: "int \<Rightarrow> bool" where
  "isgraph c \<longleftrightarrow> 33 \<le> c \<and> c \<le> 126"

definition islower :: "int \<Rightarrow> bool" where
  "islower c \<longleftrightarrow> 97 \<le> c \<and> c \<le> 122"

definition isprint :: "int \<Rightarrow> bool" where
  "isprint c \<longleftrightarrow> 32 \<le> c \<and> c \<le> 126"

definition isspace :: "int \<Rightarrow> bool" where
  "isspace c \<longleftrightarrow> c = 32 \<or> 9 \<le> c \<and> c \<le> 13"

definition ispunct :: "int \<Rightarrow> bool" where
  "ispunct c \<longleftrightarrow> isprint c \<and> \<not> isspace c \<and> \<not> isalnum c"

definition isupper :: "int \<Rightarrow> bool" where
  "isupper c \<longleftrightarrow> 65 \<le> c \<and> c \<le> 90"

definition tolower :: "int \<Rightarrow> int" where
  "tolower c = (if 65 \<le> c \<and> c \<le> 90 then c + 32 else c)"

definition toupper :: "int \<Rightarrow> int" where
  "toupper c = (if 97 \<le> c \<and> c \<le> 122 then c - 32 else c)"

definition isxdigit :: "int \<Rightarrow> bool" where
  "isxdigit c \<longleftrightarrow> isdigit c \<or> 97 \<le> tolower c \<and> tolower c \<le> 102"

subsection \<open>Length and comparison\<close>

fun strnlen_loop :: "bytes \<Rightarrow> nat \<Rightarrow> nat \<Rightarrow> nat res" where
  "strnlen_loop [] maxlen len = Fault OutOfBounds"
| "strnlen_loop (c # cs) maxlen len =
     (if c \<noteq> 0 \<and> len < maxlen then strnlen_loop cs maxlen (Suc len) else Ok len)"

definition strnlen :: "bytes option \<Rightarrow> nat \<Rightarrow> nat res" where
  "strnlen p maxlen = (case p of None \<Rightarrow> Ok 0 | Some s \<Rightarrow> strnlen_loop s maxlen 0)"

fun strlen_loop :: "bytes \<Rightarrow> nat \<Rightarrow> nat res" where
  "strlen_loop [] len = Fault OutOfBounds"
| "strlen_loop (c # cs) len = (if c \<noteq> 0 then strlen_loop cs (Suc len) else Ok len)"

definition strlen :: "bytes option \<Rightarrow> nat res" where
  "strlen p = (case p of None \<Rightarrow> Ok 0 | Some s \<Rightarrow> strlen_loop s 0)"

fun cmp_loop :: "(u8 \<Rightarrow> int) \<Rightarrow> bytes \<Rightarrow> bytes \<Rightarrow> int res" where
  "cmp_loop f (a # as) (b # bs) =
     (if f a - f b \<noteq> 0 \<or> a = 0 then Ok (f a - f b) else cmp_loop f as bs)"
| "cmp_loop f _ _ = Fault OutOfBounds"

fun ncmp_loop :: "(u8 \<Rightarrow> int) \<Rightarrow> bytes \<Rightarrow> bytes \<Rightarrow> nat \<Rightarrow> int res" where
  "ncmp_loop f _ _ 0 = Ok 0"
| "ncmp_loop f (a # as) (b # bs) (Suc n) =
     (if f a - f b \<noteq> 0 \<or> a = 0 then Ok (f a - f b) else ncmp_loop f as bs n)"
| "ncmp_loop f _ _ (Suc n) = Fault OutOfBounds"

definition strcasecmp :: "bool \<Rightarrow> bytes \<Rightarrow> bytes \<Rightarrow> int res" where
  "strcasecmp sg s1 s2 = cmp_loop (\<lambda>c. tolower (char_val sg c)) s1 s2"

definition strncasecmp :: "bool \<Rightarrow> bytes \<Rightarrow> bytes \<Rightarrow> nat \<Rightarrow> int res" where
  "strncasecmp sg s1 s2 maxlen = ncmp_loop (\<lambda>c. tolower (char_val sg c)) s1 s2 maxlen"

definition strcmp :: "bool \<Rightarrow> bytes \<Rightarrow> bytes \<Rightarrow> int res" where
  "strcmp sg s1 s2 = cmp_loop (char_val sg) s1 s2"

definition strncmp :: "bool \<Rightarrow> bytes \<Rightarrow> bytes \<Rightarrow> nat \<Rightarrow> int res" where
  "strncmp sg s1 s2 maxlen = ncmp_loop (char_val sg) s1 s2 maxlen"

subsection \<open>Copying\<close>

text \<open>
  The destination is the list of the bytes from \<open>d\<close> on; the result is its new contents.
  A copying loop \<open>for (i = 0; i < k; i++) p[i] = s[i]\<close> is \<open>copy_loop\<close>.
\<close>

fun copy_loop :: "bytes \<Rightarrow> bytes \<Rightarrow> nat \<Rightarrow> bytes res" where
  "copy_loop p s 0 = Ok p"
| "copy_loop (_ # p) (c # s) (Suc k) = map_res ((#) c) (copy_loop p s k)"
| "copy_loop _ _ (Suc k) = Fault OutOfBounds"

definition at_offset :: "bytes \<Rightarrow> nat \<Rightarrow> (bytes \<Rightarrow> bytes res) \<Rightarrow> bytes res" where
  "at_offset d n f = (if n \<le> length d then map_res ((@) (take n d)) (f (drop n d)) else Fault OutOfBounds)"

definition set_byte :: "nat \<Rightarrow> u8 \<Rightarrow> bytes \<Rightarrow> bytes res" where
  "set_byte i c d = (if i < length d then Ok (d[i := c]) else Fault OutOfBounds)"

definition strncpy :: "bytes \<Rightarrow> bytes \<Rightarrow> nat \<Rightarrow> bytes res" where
  "strncpy d s n = andthen (strlen (Some s)) (\<lambda>l. copy_loop d s (if n > l + 1 then l + 1 else n))"

definition strcpy :: "bytes \<Rightarrow> bytes \<Rightarrow> bytes res" where
  "strcpy d s = andthen (strlen (Some s)) (\<lambda>l. strncpy d s (l + 1))"

definition append_n :: "bytes \<Rightarrow> bytes \<Rightarrow> nat \<Rightarrow> nat \<Rightarrow> bytes res" where
  "append_n d s dl k =
     at_offset d dl (\<lambda>p. andthen (copy_loop p s k) (set_byte k 0))"

definition strcat :: "bytes \<Rightarrow> bytes \<Rightarrow> bytes res" where
  "strcat d s = andthen (strlen (Some d)) (\<lambda>dl. andthen (strlen (Some s)) (\<lambda>sl. append_n d s dl sl))"

definition strncat :: "bytes \<Rightarrow> bytes \<Rightarrow> nat \<Rightarrow> bytes res" where
  "strncat d s n = andthen (strlen (Some d)) (\<lambda>dl. andthen (strlen (Some s)) (\<lambda>sl.
     append_n d s dl (if n > sl then sl else n)))"

text \<open>
  In \<open>strlcat\<close> the bound \<open>n - dl - 1\<close> is computed in \<open>size_t\<close> and stored in an \<open>int\<close>, so
  it can be negative, and it is returned as a \<open>size_t\<close>.
\<close>

definition strlcat :: "bytes \<Rightarrow> bytes \<Rightarrow> u64 \<Rightarrow> (u64 \<times> bytes) res" where
  "strlcat d s n = andthen (strlen (Some s)) (\<lambda>sl. andthen (strlen (Some d)) (\<lambda>dl.
     (let mx = sint (ucast (if n > word_of_nat (sl + dl) then word_of_nat sl
                            else n - word_of_nat dl - 1) :: u32)
      in map_res (Pair (word_of_int mx)) (append_n d s dl (nat mx)))))"

fun strlcpy_copy :: "bytes \<Rightarrow> bytes \<Rightarrow> nat \<Rightarrow> (bytes \<times> nat \<times> bool) res" where
  "strlcpy_copy d s 0 = Ok (d, 0, False)"
| "strlcpy_copy (_ # d) (c # s) (Suc n) =
     (if c = 0 then Ok (c # d, 1, True)
      else map_res (\<lambda>(d', k, stop). (c # d', Suc k, stop)) (strlcpy_copy d s n))"
| "strlcpy_copy _ _ (Suc n) = Fault OutOfBounds"

text \<open>
  \<open>strlcpy_copy\<close> is the copying loop: the new destination, the bytes copied, and whether it
  stopped at the NUL (otherwise \<open>n\<close> reached 0).
\<close>

definition strlcpy :: "bytes \<Rightarrow> bytes \<Rightarrow> nat \<Rightarrow> (nat \<times> bytes) res" where
  "strlcpy dst src siz =
     (if siz = 0 then map_res (\<lambda>l. (l, dst)) (strlen (Some src))
      else andthen (strlcpy_copy dst src (siz - 1)) (\<lambda>(d, k, stop).
        if stop then Ok (k - 1, d)
        else andthen (set_byte k 0 d) (\<lambda>d'.
          map_res (\<lambda>l. (k + l, d')) (strlen (Some (drop k src))))))"

subsection \<open>Searching\<close>

text \<open>A pointer into the argument is an offset; NULL is \<open>None\<close>.\<close>

fun strchr_loop :: "bool \<Rightarrow> bytes \<Rightarrow> int \<Rightarrow> nat \<Rightarrow> nat option res" where
  "strchr_loop sg [] c i = Fault OutOfBounds"
| "strchr_loop sg (x # xs) c i =
     (if x = 0 then Ok None else if char_val sg x = c then Ok (Some i)
      else strchr_loop sg xs c (Suc i))"

definition strchr :: "bool \<Rightarrow> bytes \<Rightarrow> int \<Rightarrow> nat option res" where
  "strchr sg s c = strchr_loop sg s c 0"

fun strrchr_down :: "bool \<Rightarrow> bytes \<Rightarrow> int \<Rightarrow> nat \<Rightarrow> nat option" where
  "strrchr_down sg s c 0 = (if char_val sg (s ! 0) = c then Some 0 else None)"
| "strrchr_down sg s c (Suc i) =
     (if char_val sg (s ! Suc i) = c then Some (Suc i) else strrchr_down sg s c i)"

definition strrchr :: "bool \<Rightarrow> bytes \<Rightarrow> int \<Rightarrow> nat option res" where
  "strrchr sg s c = map_res (strrchr_down sg s c) (strlen (Some s))"

text \<open>\<open>alloc_ok\<close> says whether \<open>malloc\<close> succeeds; \<open>fresh\<close> is what it returns.\<close>

definition strdup :: "bool \<Rightarrow> (nat \<Rightarrow> bytes) \<Rightarrow> bytes \<Rightarrow> bytes option res" where
  "strdup alloc_ok fresh s = andthen (strlen (Some s)) (\<lambda>n.
     if \<not> alloc_ok then Ok None
     else andthen (strncpy (fresh (n + 1)) s n) (\<lambda>p. map_res Some (set_byte n 0 p)))"

definition mem_equal :: "bytes \<Rightarrow> bytes \<Rightarrow> nat \<Rightarrow> bool res" where
  "mem_equal a b n = (case (slice a 0 n, slice b 0 n) of (Some x, Some y) \<Rightarrow> Ok (x = y)
     | _ \<Rightarrow> Fault OutOfBounds)"

fun strstr_loop :: "bytes \<Rightarrow> bytes \<Rightarrow> nat \<Rightarrow> nat \<Rightarrow> nat \<Rightarrow> nat option res" where
  "strstr_loop h n nn i 0 = Ok None"
| "strstr_loop h n nn i (Suc k) =
     andthen (mem_equal (drop i h) n nn) (\<lambda>e.
       if e then Ok (Some i) else strstr_loop h n nn (Suc i) k)"

definition strstr :: "bytes \<Rightarrow> bytes \<Rightarrow> nat option res" where
  "strstr h n = andthen (strlen (Some h)) (\<lambda>hn. andthen (strlen (Some n)) (\<lambda>nn.
     if nn \<le> hn then strstr_loop h n nn 0 (hn - nn + 1) else Ok None))"

text \<open>The length of the longest prefix of \<open>s\<close> of bytes that are (\<open>want\<close>) or are not among \<open>a\<close>.\<close>

fun span_loop :: "bool \<Rightarrow> bytes \<Rightarrow> bytes \<Rightarrow> nat \<Rightarrow> nat res" where
  "span_loop want [] a i = Fault OutOfBounds"
| "span_loop want (c # cs) a i =
     (if c \<noteq> 0 \<and> (c \<in> set a) = want then span_loop want cs a (Suc i) else Ok i)"

definition strspn :: "bytes \<Rightarrow> bytes \<Rightarrow> nat res" where
  "strspn s a = andthen (strlen (Some a)) (\<lambda>al. span_loop True s (take al a) 0)"

definition strcspn :: "bytes \<Rightarrow> bytes \<Rightarrow> nat res" where
  "strcspn s a = andthen (strlen (Some a)) (\<lambda>al. span_loop False s (take al a) 0)"

subsection \<open>Tokens\<close>

text \<open>
  The tokenizers write into the string: \<open>obj\<close> is the object and pointers are offsets into
  it.  \<open>strsep_walk\<close> is the search for a delimiter.
\<close>

fun strsep_walk :: "bool \<Rightarrow> bytes \<Rightarrow> bytes \<Rightarrow> nat \<Rightarrow> nat res" where
  "strsep_walk sg [] delim i = Fault OutOfBounds"
| "strsep_walk sg (c # cs) delim i =
     (if c = 0 then Ok i
      else andthen (strchr sg delim (char_val sg c)) (\<lambda>f.
        if f = None then strsep_walk sg cs delim (Suc i) else Ok i))"

text \<open>The token, the object and the new \<open>*stringp\<close>.\<close>

definition strsep :: "bool \<Rightarrow> bytes \<Rightarrow> nat option \<Rightarrow> bytes \<Rightarrow> (nat option \<times> bytes \<times> nat option) res" where
  "strsep sg obj stringp delim =
     (case stringp of None \<Rightarrow> Ok (None, obj, None)
      | Some p \<Rightarrow>
          (case rd obj p of None \<Rightarrow> Fault OutOfBounds
           | Some c0 \<Rightarrow>
               if c0 = 0 then Ok (None, obj, Some p)
               else andthen (strsep_walk sg (drop p obj) delim p) (\<lambda>w.
                 if obj ! w \<noteq> 0 then Ok (Some p, obj[w := 0], Some (w + 1))
                 else Ok (Some p, obj, Some w))))"

text \<open>
  \<open>ptr\<close> points to the saved position: \<open>None\<close> is a NULL \<open>ptr\<close>, \<open>Some q\<close> a variable holding \<open>q\<close>.
\<close>

definition strtok_r ::
  "bytes \<Rightarrow> nat option \<Rightarrow> bytes \<Rightarrow> nat option \<Rightarrow> (nat \<times> bytes \<times> nat) res" where
  "strtok_r obj s delim ptr =
     andthen (case s of Some i \<Rightarrow> Ok i
              | None \<Rightarrow> (case ptr of None \<Rightarrow> Fault NullDeref | Some q \<Rightarrow> Ok q)) (\<lambda>i.
     andthen (strspn (drop i obj) delim) (\<lambda>a.
     andthen (strcspn (drop (i + a) obj) delim) (\<lambda>b.
     andthen (set_byte (i + a + b) 0 obj) (\<lambda>obj'.
       case ptr of None \<Rightarrow> Fault NullDeref | Some _ \<Rightarrow> Ok (i + a, obj', i + a + b + 1)))))"

text \<open>\<open>strtok_global\<close> is a \<open>char **\<close> that nothing ever sets: a NULL \<open>ptr\<close>.\<close>

definition strtok :: "bytes \<Rightarrow> nat option \<Rightarrow> bytes \<Rightarrow> (nat \<times> bytes \<times> nat) res" where
  "strtok obj s delim = strtok_r obj s delim None"

subsection \<open>Numbers\<close>

definition valid_digit :: "int \<Rightarrow> int \<Rightarrow> bool" where
  "valid_digit c base \<longleftrightarrow>
     (let last = (if base > 9 then 57 else 48 + (base - 1))
      in 48 \<le> c \<and> c \<le> last \<or>
         base > 11 \<and> 97 \<le> tolower c \<and> tolower c \<le> 97 + (base - 11))"

definition digit_offset :: "int \<Rightarrow> int" where
  "digit_offset c = (if 48 \<le> c \<and> c \<le> 57 then c - 48 else 10 + tolower c - 97)"

fun skip_space :: "bool \<Rightarrow> bytes \<Rightarrow> nat \<Rightarrow> (bytes \<times> nat) res" where
  "skip_space sg [] i = Fault OutOfBounds"
| "skip_space sg (c # cs) i =
     (if c \<noteq> 0 \<and> isspace (char_val sg c) then skip_space sg cs (Suc i) else Ok (c # cs, i))"

fun has_0x :: "bytes \<Rightarrow> bool res" where
  "has_0x [] = Fault OutOfBounds"
| "has_0x (c # cs) =
     (if c \<noteq> 48 then Ok False
      else case cs of [] \<Rightarrow> Fault OutOfBounds | x # _ \<Rightarrow> Ok (x = 120 \<or> x = 88))"

definition auto_base :: "int \<Rightarrow> bytes \<Rightarrow> nat \<Rightarrow> (int \<times> bytes \<times> nat) res" where
  "auto_base base s i =
     (if base \<noteq> 0 then Ok (base, s, i)
      else andthen (has_0x s) (\<lambda>hx.
        Ok (if hx then (16, s, i) else if hd s = 48 then (8, tl s, i + 1) else (10, s, i))))"

definition skip_0x :: "int \<Rightarrow> bytes \<Rightarrow> nat \<Rightarrow> (int \<times> bytes \<times> nat) res" where
  "skip_0x base s i =
     (if base \<noteq> 16 then Ok (base, s, i)
      else map_res (\<lambda>hx. if hx then (base, drop 2 s, i + 2) else (base, s, i)) (has_0x s))"

text \<open>The digits: \<open>step\<close> adds one to the accumulator.\<close>

fun digits_loop ::
  "bool \<Rightarrow> int \<Rightarrow> ('a \<Rightarrow> int \<Rightarrow> 'a res) \<Rightarrow> bytes \<Rightarrow> nat \<Rightarrow> 'a \<Rightarrow> ('a \<times> nat) res" where
  "digits_loop sg base step [] i acc = Fault OutOfBounds"
| "digits_loop sg base step (c # cs) i acc =
     (if c \<noteq> 0 \<and> valid_digit (char_val sg c) base
      then andthen (step acc (digit_offset (char_val sg c))) (digits_loop sg base step cs (Suc i))
      else Ok (acc, i))"

definition parse_digits ::
  "bool \<Rightarrow> int \<Rightarrow> ('a \<Rightarrow> int \<Rightarrow> int \<Rightarrow> 'a res) \<Rightarrow> bytes \<Rightarrow> nat \<Rightarrow> 'a \<Rightarrow> ('a \<times> nat) option res" where
  "parse_digits sg base step s i zero =
     andthen (auto_base base s i) (\<lambda>(b, s, i).
     andthen (skip_0x b s i) (\<lambda>(b, s, i).
       case s of [] \<Rightarrow> Fault OutOfBounds
       | c # _ \<Rightarrow> if c = 0 \<or> \<not> valid_digit (char_val sg c) b then Ok None
           else map_res Some (digits_loop sg b (\<lambda>acc. step acc b) s i zero)))"

text \<open>The accumulator of \<open>strtol\<close> is an \<open>int\<close>, whatever the width of \<open>long\<close>.\<close>

definition int_step :: "int \<Rightarrow> int \<Rightarrow> int \<Rightarrow> int res" where
  "int_step acc base d = (let r = acc * base + d in
     if - 2147483648 \<le> r \<and> r < 2147483648 then Ok r else Fault Overflow)"

definition strtol :: "bool \<Rightarrow> bytes \<Rightarrow> int \<Rightarrow> (int \<times> nat) res" where
  "strtol sg p base =
     andthen (skip_space sg p 0) (\<lambda>(s, i).
       (let neg = (hd s = 45); s1 = (if neg then tl s else s); i1 = (if neg then i + 1 else i)
        in case s1 of [] \<Rightarrow> Fault OutOfBounds
           | c # _ \<Rightarrow> if c = 0 then Ok (0, 0)
               else map_res (\<lambda>r. case r of None \<Rightarrow> (0, 0)
                        | Some (v, e) \<Rightarrow> (if neg then - v else v, e))
                      (parse_digits sg base int_step s1 i1 0)))"

definition atol :: "bool \<Rightarrow> bytes \<Rightarrow> int res" where
  "atol sg p = map_res fst (strtol sg p 10)"

definition u64_step :: "u64 \<Rightarrow> int \<Rightarrow> int \<Rightarrow> u64 res" where
  "u64_step acc base d = Ok (acc * of_int base + of_int d)"

definition strtoull :: "bool \<Rightarrow> bytes \<Rightarrow> int \<Rightarrow> (u64 \<times> nat) res" where
  "strtoull sg p base =
     andthen (skip_space sg p 0) (\<lambda>(s, i).
       case s of [] \<Rightarrow> Fault OutOfBounds
       | c # _ \<Rightarrow> if c = 0 then Ok (0, 0)
           else map_res (\<lambda>r. case r of None \<Rightarrow> (0, 0) | Some ve \<Rightarrow> ve)
                  (parse_digits sg base u64_step s i 0))"

definition strtoul :: "bool \<Rightarrow> bytes \<Rightarrow> int \<Rightarrow> (u64 \<times> nat) res" where
  "strtoul sg p base = map_res (\<lambda>(v, e). (if v > 4294967295 then 4294967295 else v, e)) (strtoull sg p base)"

subsection \<open>What the functions compute\<close>

lemma copy_loop_eq:
  "copy_loop p s k = (if k \<le> length p \<and> k \<le> length s then Ok (take k s @ drop k p) else Fault OutOfBounds)"
  by (induction p s k rule: copy_loop.induct) auto

lemma strnlen_terminated: "0 \<notin> set a \<Longrightarrow> length a < n \<Longrightarrow> strnlen (Some (a @ 0 # r)) n = Ok (length a)"
proof -
  have "0 \<notin> set a \<Longrightarrow> k + length a < n \<Longrightarrow> strnlen_loop (a @ 0 # r) n k = Ok (k + length a)" for k
    by (induction a arbitrary: k) auto
  from this [of 0] show "0 \<notin> set a \<Longrightarrow> length a < n \<Longrightarrow> ?thesis" by (simp add: strnlen_def)
qed

lemma strlen_loop_terminated: "0 \<notin> set s \<Longrightarrow> strlen_loop (s @ 0 # r) k = Ok (k + length s)"
  by (induction s arbitrary: k) auto

lemma strlen_terminated [simp]: "0 \<notin> set s \<Longrightarrow> strlen (Some (s @ 0 # r)) = Ok (length s)"
  by (simp add: strlen_def strlen_loop_terminated)

lemma strlen_loop_cstr: "strlen_loop bs k = (case cstr bs of None \<Rightarrow> Fault OutOfBounds | Some s \<Rightarrow> Ok (k + length s))"
  by (induction bs arbitrary: k) (auto split: option.splits)

lemma strlen_cstr: "strlen (Some bs) = (case cstr bs of None \<Rightarrow> Fault OutOfBounds | Some s \<Rightarrow> Ok (length s))"
  by (simp add: strlen_def strlen_loop_cstr split: option.split)

lemma char_val_eq_iff [simp]: "char_val sg a = char_val sg b \<longleftrightarrow> a = b"
  by (cases sg) (auto simp: char_val_def dest: signed_word_eqI unsigned_word_eqI)

text \<open>The text of a field of \<open>n\<close> bytes ends at the first NUL or at the end of the field.\<close>

definition ctext :: "nat \<Rightarrow> bytes \<Rightarrow> bytes" where
  "ctext n s = takeWhile (\<lambda>c. c \<noteq> 0) (take n s)"

definition readable :: "nat \<Rightarrow> bytes \<Rightarrow> bool" where
  "readable n s \<longleftrightarrow> n \<le> length s \<or> 0 \<in> set s"

lemma ctext_Suc [simp]: "ctext (Suc n) (c # s) = (if c = 0 then [] else c # ctext n s)"
  by (simp add: ctext_def)

lemma ctext_0 [simp]: "ctext 0 s = []"
  by (simp add: ctext_def)

lemma ncmp_loop_text:
  assumes "\<And>a b. f a = f b \<longleftrightarrow> a = b" and "readable n s1" and "readable n s2"
  shows "\<exists>r. ncmp_loop f s1 s2 n = Ok r \<and> (r = 0 \<longleftrightarrow> ctext n s1 = ctext n s2)"
  using assms(2,3)
proof (induction n arbitrary: s1 s2)
  case 0
  then show ?case by simp
next
  case (Suc n)
  then obtain a s1' b s2' where s: "s1 = a # s1'" "s2 = b # s2'"
    by (cases s1; cases s2) (auto simp: readable_def)
  show ?case
  proof (cases "f a - f b \<noteq> 0 \<or> a = 0")
    case True
    then show ?thesis using s assms(1) by auto
  next
    case False
    then have ab: "a = b" "a \<noteq> 0" using assms(1) by auto
    then have "readable n s1'" "readable n s2'" using Suc.prems s by (auto simp: readable_def)
    from Suc.IH [OF this] show ?thesis using s ab by auto
  qed
qed

lemma strncmp_text:
  "readable n s1 \<Longrightarrow> readable n s2 \<Longrightarrow>
     \<exists>r. strncmp sg s1 s2 n = Ok r \<and> (r = 0 \<longleftrightarrow> ctext n s1 = ctext n s2)"
  unfolding strncmp_def by (rule ncmp_loop_text) simp

lemma cmp_loop_text:
  assumes "\<And>a b. f a = f b \<longleftrightarrow> a = b" and "0 \<notin> set a" and "0 \<notin> set b"
  shows "\<exists>r. cmp_loop f (a @ 0 # ra) (b @ 0 # rb) = Ok r \<and> (r = 0 \<longleftrightarrow> a = b)"
  using assms(2,3)
proof (induction a arbitrary: b)
  case Nil
  then show ?case using assms(1) by (cases b) auto
next
  case (Cons x a)
  then show ?case using assms(1)
    by (cases b) auto
qed

lemma strcmp_terminated:
  "0 \<notin> set a \<Longrightarrow> 0 \<notin> set b \<Longrightarrow> \<exists>r. strcmp sg (a @ 0 # ra) (b @ 0 # rb) = Ok r \<and> (r = 0 \<longleftrightarrow> a = b)"
  unfolding strcmp_def by (rule cmp_loop_text) simp_all

text \<open>
  On terminated strings \<open>strcmp\<close> and \<open>strncmp\<close> stay within the strings and return 0
  exactly when the strings, or their first \<open>n\<close> characters, are equal, for either signedness
  of \<open>char\<close>.
\<close>

theorem strcmp_equal:
  assumes "0 \<notin> set a" and "0 \<notin> set b"
  shows "(\<exists>r. strcmp sg (a @ 0 # ra) (b @ 0 # rb) = Ok r \<and> (r = 0 \<longleftrightarrow> a = b)) \<and>
    (\<exists>r. strncmp sg (a @ 0 # ra) (b @ 0 # rb) n = Ok r \<and> (r = 0 \<longleftrightarrow> take n a = take n b))"
proof -
  have ctx: "ctext n (s @ 0 # r) = take n s" if "0 \<notin> set s" for n s and r :: bytes
    using that
  proof (induction s arbitrary: n)
    case Nil
    then show ?case by (cases n) auto
  next
    case (Cons x s)
    then show ?case by (cases n) auto
  qed
  have "readable n (a @ 0 # ra)" "readable n (b @ 0 # rb)" by (auto simp: readable_def)
  from strncmp_text [OF this, of sg] ctx [OF assms(1)] ctx [OF assms(2)]
    strcmp_terminated [OF assms, of sg ra rb]
  show ?thesis by simp
qed

subsection \<open>Decimal numbers\<close>

fun dec_value :: "nat \<Rightarrow> nat list \<Rightarrow> nat" where
  "dec_value v [] = v"
| "dec_value v (d # ds) = dec_value (v * 10 + d) ds"

definition dec_char :: "nat \<Rightarrow> u8" where
  "dec_char d = word_of_nat (48 + d)"

lemma char_val_dec: "d < 10 \<Longrightarrow> char_val sg (dec_char d) = int d + 48"
proof -
  assume "d < 10"
  then have "d \<in> set [0..<10]" by simp
  moreover have "\<forall>d \<in> set [0..<10]. char_val sg (dec_char d) = int d + 48"
    by (simp add: char_val_def dec_char_def upt_rec)
  ultimately show ?thesis by blast
qed

lemma dec_char_neq: "d < 10 \<Longrightarrow> dec_char d \<noteq> 0 \<and> dec_char d \<noteq> 120 \<and> dec_char d \<noteq> 88"
  using char_val_dec [of d False] by (auto simp: char_val_def)

lemma digits_loop_dec:
  assumes "\<forall>d \<in> set ds. d < 10" and "c = 0 \<or> \<not> isdigit (char_val sg c)"
  shows "digits_loop sg 10 (\<lambda>acc. u64_step acc 10) (map dec_char ds @ c # rest) i (of_nat v) =
    Ok (of_nat (dec_value v ds), i + length ds)"
  using assms(1)
proof (induction ds arbitrary: i v)
  case Nil
  then show ?case using assms(2) by (auto simp: valid_digit_def isdigit_def Let_def)
next
  case (Cons d ds)
  then have d: "d < 10" by simp
  have "u64_step (of_nat v) 10 (digit_offset (char_val sg (dec_char d))) = Ok (of_nat (v * 10 + d))"
    using d by (simp add: u64_step_def digit_offset_def char_val_dec)
  moreover have "valid_digit (char_val sg (dec_char d)) 10"
    using d by (simp add: valid_digit_def char_val_dec)
  ultimately show ?case
    using Cons.IH [of "Suc i" "v * 10 + d"] Cons.prems dec_char_neq [OF d] by simp
qed

text \<open>
  \<open>strtoull\<close> in base 10 reads the whole run of digits it is given, up to the first
  other character, as their value modulo 2 to the 64, and reports where it stopped.
\<close>

theorem strtoull_decimal:
  assumes "ds \<noteq> []" and "\<forall>d \<in> set ds. d < 10" and "c = 0 \<or> \<not> isdigit (char_val sg c)"
  shows "strtoull sg (map dec_char ds @ c # rest) 10 = Ok (of_nat (dec_value 0 ds), length ds)"
proof -
  obtain d ds' where ds: "ds = d # ds'" "d < 10" using assms(1,2) by (cases ds) auto
  have skip: "skip_space sg (map dec_char ds @ c # rest) 0 = Ok (map dec_char ds @ c # rest, 0)"
    using ds by (simp add: isspace_def char_val_dec)
  have valid: "valid_digit (char_val sg (dec_char d)) 10"
    using ds(2) by (simp add: valid_digit_def char_val_dec)
  have "parse_digits sg 10 u64_step (map dec_char ds @ c # rest) 0 0 =
      Ok (Some (of_nat (dec_value 0 ds), length ds))"
    using digits_loop_dec [OF assms(2,3), of rest 0 0] ds valid dec_char_neq [OF ds(2)]
    by (simp add: parse_digits_def auto_base_def skip_0x_def)
  then show ?thesis using skip ds dec_char_neq [OF ds(2)] by (simp add: strtoull_def)
qed

subsection \<open>Bounded copy\<close>

lemma strlcpy_copy_stop:
  "0 \<notin> set s \<Longrightarrow> length s < n \<Longrightarrow> n \<le> length d \<Longrightarrow>
     strlcpy_copy d (s @ 0 # r) n = Ok (s @ 0 # drop (length s + 1) d, length s + 1, True)"
proof (induction s arbitrary: d n)
  case Nil
  then show ?case by (cases d; cases n) auto
next
  case (Cons c s)
  then show ?case by (cases d; cases n) auto
qed

lemma strlcpy_copy_full:
  "0 \<notin> set s \<Longrightarrow> n \<le> length s \<Longrightarrow> n \<le> length d \<Longrightarrow>
     strlcpy_copy d (s @ 0 # r) n = Ok (take n s @ drop n d, n, False)"
proof (induction n arbitrary: d s)
  case 0
  then show ?case by (cases d) auto
next
  case (Suc n)
  then show ?case by (cases d; cases s) auto
qed

text \<open>
  \<open>strlcpy\<close> returns the length of the source and leaves in the destination the source
  cut to \<open>siz - 1\<close> characters, always terminated, and nothing past that changed.
\<close>

theorem strlcpy_truncates:
  assumes "0 \<notin> set s" and "0 < siz" and "siz \<le> length d"
  shows "\<exists>d'. strlcpy d (s @ 0 # r) siz = Ok (length s, d') \<and>
    cstr d' = Some (take (siz - 1) s) \<and> length d' = length d \<and> drop siz d' = drop siz d"
proof (cases "length s < siz - 1")
  case True
  from strlcpy_copy_stop [OF assms(1) this, of d r] assms True show ?thesis
    by (auto simp: strlcpy_def cstr_append_NUL drop_Cons')
next
  case False
  let ?k = "siz - 1"
  have k: "?k \<le> length s" "?k < length d" using False assms(2,3) by auto
  have drop: "drop ?k (s @ 0 # r) = drop ?k s @ 0 # r" using k by simp
  have "0 \<notin> set (drop ?k s)" using assms(1) by (meson in_set_dropD)
  then have len: "strlen (Some (drop ?k (s @ 0 # r))) = Ok (length s - ?k)"
    by (simp only: drop strlen_terminated length_drop not_False_eq_True)
  have upd: "(take ?k s @ drop ?k d)[?k := 0] = take ?k s @ 0 # drop (Suc ?k) d"
    using k by (simp add: list_update_append Cons_nth_drop_Suc [symmetric])
  have "strlcpy d (s @ 0 # r) siz = Ok (length s, take ?k s @ 0 # drop (Suc ?k) d)"
    using strlcpy_copy_full [OF assms(1) k(1), of d r] k assms(2) len upd
    by (simp add: strlcpy_def set_byte_def)
  moreover have "0 \<notin> set (take ?k s)" using assms(1) by (meson in_set_takeD)
  ultimately show ?thesis
    using k assms(2,3) by (auto simp: cstr_append_NUL)
qed

text \<open>
  \<open>strtok\<close> never works: whatever its arguments, it dereferences the NULL pointer it
  keeps its state behind, or runs off a string before it gets there.
\<close>

theorem strtok_always_faults: "\<exists>f. strtok obj s delim = Fault f"
proof -
  have *: "\<exists>f. andthen m k = Fault f" if "m \<noteq> Err" "\<And>x. \<exists>f. k x = Fault f" for m :: "'a res" and k :: "'a \<Rightarrow> 'b res"
    using that by (cases m) auto
  have span: "span_loop w xs a i \<noteq> Err" for w xs a i
    by (induction w xs a i rule: span_loop.induct) auto
  have "strspn x a \<noteq> Err" "strcspn x a \<noteq> Err" for x a
    using span by (simp_all add: strspn_def strcspn_def strlen_cstr split: option.splits)
  then show ?thesis
    unfolding strtok_def strtok_r_def
    by (intro *) (auto simp: set_byte_def split: option.splits)
qed

text \<open>Two details of the number parser: base 11 has no letter digit, and \<open>strnlen\<close> reads one byte too many.\<close>

lemma valid_digit_base_11: "\<not> valid_digit 97 11" "valid_digit 97 12"
  by (simp_all add: valid_digit_def tolower_def)

lemma strnlen_overread: "0 \<notin> set s \<Longrightarrow> strnlen (Some s) (length s) = Fault OutOfBounds"
proof -
  have "0 \<notin> set s \<Longrightarrow> k + length s = n \<Longrightarrow> strnlen_loop s n k = Fault OutOfBounds" for k n
    by (induction s arbitrary: k) auto
  from this [of 0 "length s"] show "0 \<notin> set s \<Longrightarrow> ?thesis" by (simp add: strnlen_def)
qed

subsection \<open>Witnesses\<close>

theorem strcmp_equal_witness:
  "\<exists>r. strcmp True (str ''ab'' @ 0 # []) (str ''ac'' @ 0 # [1]) = Ok r \<and> r \<noteq> 0"
  using strcmp_equal [of "str ''ab''" "str ''ac''" True "[]" "[1]" 1] by (auto simp: str_def)

theorem strtoull_decimal_witness:
  "strtoull True (map dec_char [4, 0, 9, 6] @ 46 # []) 10 = Ok (4096, 4)"
  using strtoull_decimal [of "[4, 0, 9, 6]" 46 True "[]"] by (simp add: isdigit_def char_val_def)

theorem strlcpy_truncates_witness:
  "\<exists>d'. strlcpy (replicate 6 9) (str ''kernel'' @ 0 # []) 4 = Ok (6, d') \<and> cstr d' = Some (str ''ker'')"
  using strlcpy_truncates [of "str ''kernel''" 4 "replicate 6 9" "[]"] by (auto simp: str_def)

end
