(* ===== verification/Cbfs.thy ===== *)
theory Cbfs
  imports Lzma Str
begin

text \<open>
  The coreboot file system (\<^verbatim>\<open>base/cbfs/cbfs.c\<close>, \<^verbatim>\<open>cbfs.h\<close>) over a source of bytes, and the source
  in memory (\<^verbatim>\<open>ram_media.c\<close>).  \<open>size_t\<close> and pointers have 64 bits.

  A source is read in whole pieces, or not at all, and mapping it gives a pointer, here the bytes
  from it on, or \<open>CBFS_MEDIA_INVALID_MAP_ADDRESS\<close>; both operations may run out of the memory below
  them.  Opening, closing and unmapping do nothing in any source of the program and are left out.
\<close>

subsection \<open>Sources\<close>

record cbfs_media =
  media_read :: "u64 \<Rightarrow> u64 \<Rightarrow> bytes option res"
  media_map :: "u64 \<Rightarrow> u64 \<Rightarrow> bytes option res"

record ram_media =
  rm_start :: bytes
  rm_size :: u64

definition ram_map :: "ram_media \<Rightarrow> u64 \<Rightarrow> u64 \<Rightarrow> bytes option res" where
  "ram_map m offset count =
     (let offset = if 0xf0000000 < offset then rm_size m + offset else offset in
      if rm_size m < offset + count then Ok None
      else if unat offset \<le> length (rm_start m) then Ok (Some (drop (unat offset) (rm_start m)))
      else Fault OutOfBounds)"

definition ram_read :: "ram_media \<Rightarrow> u64 \<Rightarrow> u64 \<Rightarrow> bytes option res" where
  "ram_read m offset count =
     andthen (ram_map m offset count) (\<lambda>ptr.
     case ptr of None \<Rightarrow> Ok None | Some p \<Rightarrow> map_res Some (of_opt (slice p 0 (unat count))))"

text \<open>\<open>mem\<close> says whether \<open>malloc\<close> has the memory for the context; it is not checked.\<close>

definition init_cbfs_ram_media :: "bool \<Rightarrow> bytes \<Rightarrow> u64 \<Rightarrow> cbfs_media res" where
  "init_cbfs_ram_media mem start sz =
     (if \<not> mem then Fault NullDeref
      else let m = \<lparr>rm_start = start, rm_size = sz\<rparr> in Ok \<lparr>media_read = ram_read m, media_map = ram_map m\<rparr>)"

text \<open>
  The default source, and whether it is initialized.  \<open>init\<close> is the result of
  \<open>libpayload_init_default_cbfs_media\<close>: \<open>None\<close> for the weak definition, which returns \<open>-1\<close>.
\<close>

record cbfs_default =
  is_default_cbfs_media_initialized :: bool
  default_cbfs_media :: cbfs_media

definition setup_cbfs_from_ram :: "bool \<Rightarrow> bytes \<Rightarrow> u32 \<Rightarrow> (cbfs_default, unit) act" where
  "setup_cbfs_from_ram mem start sz d =
     (case init_cbfs_ram_media mem start (ucast sz) of
        Ok m \<Rightarrow> (Ok (), d\<lparr>default_cbfs_media := m, is_default_cbfs_media_initialized := True\<rparr>)
      | Err \<Rightarrow> (Err, d) | Fault f \<Rightarrow> (Fault f, d))"

definition setup_cbfs_from_flash :: "cbfs_media option \<Rightarrow> (cbfs_default, unit) act" where
  "setup_cbfs_from_flash init d =
     (case init of None \<Rightarrow> (Err, d)
      | Some m \<Rightarrow> (Ok (), d\<lparr>default_cbfs_media := m, is_default_cbfs_media_initialized := True\<rparr>))"

definition init_default_cbfs_media :: "cbfs_media option \<Rightarrow> (cbfs_default, cbfs_media) act" where
  "init_default_cbfs_media init d =
     act_bind (if is_default_cbfs_media_initialized d then (\<lambda>d. (Ok (), d)) else setup_cbfs_from_flash init)
       (\<lambda>_ d. (Ok (default_cbfs_media d), d)) d"

text \<open>The beginning of every operation: \<open>None\<close> is \<open>CBFS_DEFAULT_MEDIA\<close>.\<close>

definition choose_media :: "cbfs_media option \<Rightarrow> cbfs_media option \<Rightarrow> (cbfs_default, cbfs_media) act" where
  "choose_media init media =
     (case media of None \<Rightarrow> init_default_cbfs_media init | Some m \<Rightarrow> (\<lambda>d. (Ok m, d)))"

subsection \<open>The master header\<close>

definition be32_at :: "bytes \<Rightarrow> nat \<Rightarrow> u32 res" where
  "be32_at p off = map_res be32 (of_opt (slice p off 4))"

definition CBFS_HEADER_MAGIC :: u32 where "CBFS_HEADER_MAGIC = 0x4F524243"
definition CBFS_ALIGNMENT :: u32 where "CBFS_ALIGNMENT = 64"

definition sizeof_header :: nat where "sizeof_header = 32"

definition header_of :: "cbfs_media \<Rightarrow> bytes res" where
  "header_of m =
     andthen (media_read m (0 - 4) 4) (\<lambda>r.
     case r of None \<Rightarrow> Err | Some b \<Rightarrow>
       andthen (media_map m (scast (le32 b)) (word_of_nat sizeof_header)) (\<lambda>h.
       case h of None \<Rightarrow> Err | Some h \<Rightarrow>
         andthen (be32_at h 0) (\<lambda>magic. if magic \<noteq> CBFS_HEADER_MAGIC then Err else Ok h)))"

definition cbfs_get_header :: "cbfs_media option \<Rightarrow> cbfs_media option \<Rightarrow> (cbfs_default, bytes) act" where
  "cbfs_get_header init media = act_bind (choose_media init media) (\<lambda>m. act_lift (header_of m))"

text \<open>\<open>x86\<close> is \<open>CONFIG_ARCH_X86\<close>: the boot block is not part of the file system.\<close>

definition header_range :: "bool \<Rightarrow> bytes \<Rightarrow> (u32 \<times> u32) res" where
  "header_range x86 h =
     andthen (be32_at h 20) (\<lambda>offset.
     andthen (be32_at h 8) (\<lambda>romsize.
     if x86
     then andthen (be32_at h 12) (\<lambda>bootblock.
       let cbfs_end = romsize - bootblock in
       Ok (offset, if bootblock mod CBFS_ALIGNMENT \<noteq> 0 then cbfs_end - (CBFS_ALIGNMENT - bootblock mod CBFS_ALIGNMENT)
                   else cbfs_end - 1))
     else Ok (offset, romsize)))"

record lib_sysinfo =
  cbfs_offset :: u64
  cbfs_size :: u64

definition get_cbfs_range :: "bool \<Rightarrow> lib_sysinfo \<Rightarrow> cbfs_media option \<Rightarrow> cbfs_media option \<Rightarrow> (cbfs_default, u32 \<times> u32) act" where
  "get_cbfs_range x86 sys init media =
     (if Option.is_none media \<and> cbfs_offset sys \<noteq> 0 \<and> cbfs_size sys \<noteq> 0
      then (\<lambda>d. let offset = ucast (cbfs_offset sys) in (Ok (offset, ucast (ucast offset + cbfs_size sys)), d))
      else act_bind (cbfs_get_header init media) (\<lambda>h. act_lift (header_range x86 h)))"

subsection \<open>Finding a file\<close>

definition CBFS_FILE_MAGIC :: bytes where "CBFS_FILE_MAGIC = str ''LARCHIVE''"

definition sizeof_file :: nat where "sizeof_file = 24"

text \<open>A pointer to a file: NULL, \<open>CBFS_MEDIA_INVALID_MAP_ADDRESS\<close>, or the bytes from it on.\<close>

datatype file_ptr = NoFile | InvalidFile | FileAt bytes

definition next_aligned :: "u32 \<Rightarrow> u32" where
  "next_aligned offset =
     (if offset mod CBFS_ALIGNMENT \<noteq> 0 then offset + (CBFS_ALIGNMENT - offset mod CBFS_ALIGNMENT) else offset)"

text \<open>The sum of two \<open>int\<close>s, converted to \<open>size_t\<close>.\<close>

definition int_sum :: "u32 \<Rightarrow> u32 \<Rightarrow> u64 res" where
  "int_sum a b = (let s = sint a + sint b in
     if - (2 ^ 31) \<le> s \<and> s < 2 ^ 31 then Ok (word_of_int s) else Fault Overflow)"

fun find_file :: "nat \<Rightarrow> bool \<Rightarrow> cbfs_media \<Rightarrow> bytes \<Rightarrow> u32 \<Rightarrow> u32 \<Rightarrow> file_ptr res" where
  "find_file 0 sg m name offset cbfs_end = Fault Diverges"
| "find_file (Suc fuel) sg m name offset cbfs_end =
     (if \<not> offset < cbfs_end then Ok NoFile
      else andthen (media_read m (ucast offset) (word_of_nat sizeof_file)) (\<lambda>r.
      case r of None \<Rightarrow> Ok NoFile | Some file \<Rightarrow>
        if take 8 file \<noteq> CBFS_FILE_MAGIC
        then find_file fuel sg m name (next_aligned offset + CBFS_ALIGNMENT) cbfs_end
        else andthen (be32_at file 8) (\<lambda>len.
          andthen (be32_at file 20) (\<lambda>file_offset.
          let vardata_len = file_offset - word_of_nat sizeof_file in
          andthen (media_map m (ucast offset + word_of_nat sizeof_file) (ucast vardata_len)) (\<lambda>v.
          andthen (case v of None \<Rightarrow> Ok False | Some vardata \<Rightarrow> map_res (\<lambda>c. c = 0) (strcmp sg vardata name)) (\<lambda>found.
          if found
          then andthen (int_sum file_offset len) (\<lambda>n.
            map_res (case_option InvalidFile FileAt) (media_map m (ucast offset) n))
          else find_file fuel sg m name (next_aligned (offset + (len + file_offset))) cbfs_end))))))"

definition cbfs_get_file ::
  "nat \<Rightarrow> bool \<Rightarrow> bool \<Rightarrow> lib_sysinfo \<Rightarrow> cbfs_media option \<Rightarrow> cbfs_media option \<Rightarrow> bytes \<Rightarrow> (cbfs_default, file_ptr) act" where
  "cbfs_get_file fuel sg x86 sys init media name d =
     (case choose_media init media d of
        (Ok m, d) \<Rightarrow>
          (case get_cbfs_range x86 sys init (Some m) d of
             (Ok (offset, cbfs_end), d) \<Rightarrow> (find_file fuel sg m name offset cbfs_end, d)
           | (Err, d) \<Rightarrow> (Ok NoFile, d) | (Fault f, d) \<Rightarrow> (Fault f, d))
      | (Err, d) \<Rightarrow> (Ok NoFile, d) | (Fault f, d) \<Rightarrow> (Fault f, d))"

subsection \<open>Attributes\<close>

definition CBFS_FILE_ATTR_TAG_UNUSED :: u32 where "CBFS_FILE_ATTR_TAG_UNUSED = 0"
definition CBFS_FILE_ATTR_TAG_UNUSED2 :: u32 where "CBFS_FILE_ATTR_TAG_UNUSED2 = 0xffffffff"
definition CBFS_FILE_ATTR_TAG_COMPRESSION :: u32 where "CBFS_FILE_ATTR_TAG_COMPRESSION = 0x42435a4c"

definition sizeof_attribute :: nat where "sizeof_attribute = 8"

text \<open>A pointer to an attribute is its offset from the pointer to the file.\<close>

definition cbfs_file_first_attr :: "bytes \<Rightarrow> nat option res" where
  "cbfs_file_first_attr file =
     andthen (be32_at file 16) (\<lambda>attributes_offset.
     if unat attributes_offset \<le> sizeof_file then Ok None
     else andthen (be32_at file 20) (\<lambda>offset.
       if unat offset \<le> sizeof_file + sizeof_attribute then Ok None else Ok (Some (unat attributes_offset))))"

definition cbfs_file_next_attr :: "bytes \<Rightarrow> nat option \<Rightarrow> nat option res" where
  "cbfs_file_next_attr file attr =
     (case attr of None \<Rightarrow> Ok None
      | Some a \<Rightarrow>
        andthen (be32_at file (a + 4)) (\<lambda>len.
        andthen (be32_at file 20) (\<lambda>offset.
        if unat offset \<le> a + unat len + sizeof_attribute then Ok None
        else andthen (be32_at file (a + unat len)) (\<lambda>tag.
          if tag = CBFS_FILE_ATTR_TAG_UNUSED then Ok None
          else if tag = CBFS_FILE_ATTR_TAG_UNUSED2 then Ok None else Ok (Some (a + unat len))))))"

fun find_attr :: "nat \<Rightarrow> bytes \<Rightarrow> u32 \<Rightarrow> nat option \<Rightarrow> nat option res" where
  "find_attr 0 file tag attr = Fault Diverges"
| "find_attr (Suc fuel) file tag attr =
     (case attr of None \<Rightarrow> Ok None
      | Some a \<Rightarrow> andthen (be32_at file a) (\<lambda>t.
          if t = tag then Ok attr else andthen (cbfs_file_next_attr file attr) (find_attr fuel file tag)))"

definition cbfs_file_find_attr :: "nat \<Rightarrow> bytes \<Rightarrow> u32 \<Rightarrow> nat option res" where
  "cbfs_file_find_attr fuel file tag = andthen (cbfs_file_first_attr file) (find_attr fuel file tag)"

subsection \<open>The content\<close>

definition CBFS_COMPRESS_NONE :: u32 where "CBFS_COMPRESS_NONE = 0"
definition CBFS_COMPRESS_LZMA :: u32 where "CBFS_COMPRESS_LZMA = 1"
definition CBFS_TYPE_PAYLOAD :: u32 where "CBFS_TYPE_PAYLOAD = 0x20"

text \<open>\<open>len\<close> is an \<open>int\<close>; the result is the number returned and the memory at \<open>dst\<close>.\<close>

definition cbfs_decompress :: "u16 list \<Rightarrow> u32 \<Rightarrow> bytes \<Rightarrow> bytes \<Rightarrow> u32 \<Rightarrow> (u32 \<times> bytes) res" where
  "cbfs_decompress scratch algo src dst len =
     (if algo = CBFS_COMPRESS_NONE
      then andthen (of_opt (slice src 0 (unat (scast len :: u64)))) (\<lambda>b.
        andthen (of_opt (put dst 0 b)) (\<lambda>dst. Ok (len, dst)))
      else if algo = CBFS_COMPRESS_LZMA
      then (case ulzma scratch src dst of
              Ok (n, dst) \<Rightarrow> Ok (word_of_nat n, dst) | Err \<Rightarrow> Ok (0, dst) | Fault f \<Rightarrow> Fault f)
      else Ok (0, dst))"

text \<open>
  \<open>alloc\<close> is \<open>malloc\<close>: the memory it returns, if any.  The result is what is stored through \<open>sz\<close>,
  if anything, and the content.
\<close>

definition file_content :: "nat \<Rightarrow> u16 list \<Rightarrow> (nat \<Rightarrow> bytes option) \<Rightarrow> u32 \<Rightarrow> bytes \<Rightarrow> (u64 option \<times> bytes option) res" where
  "file_content fuel scratch alloc type file =
     andthen (be32_at file 12) (\<lambda>file_type.
     if file_type \<noteq> type then Ok (Some 0, None)
     else andthen (be32_at file 20) (\<lambda>offset.
       andthen (cbfs_file_find_attr fuel file CBFS_FILE_ATTR_TAG_COMPRESSION) (\<lambda>attr.
       andthen (be32_at file 8) (\<lambda>len.
       andthen (case attr of None \<Rightarrow> Ok (CBFS_COMPRESS_NONE, len)
                | Some a \<Rightarrow> andthen (be32_at file (a + 8)) (\<lambda>compression.
                    map_res (Pair compression) (be32_at file (a + 12)))) (\<lambda>(algo, final_size).
       case alloc (unat final_size) of None \<Rightarrow> Ok (Some 0, None)
       | Some dst \<Rightarrow>
         if unat offset \<le> length file
         then map_res (\<lambda>(r, dst). if r = 0 then (Some 0, None) else (Some (ucast final_size), Some dst))
                (cbfs_decompress scratch algo (drop (unat offset) file) dst final_size)
         else Fault OutOfBounds)))))"

definition cbfs_get_file_content ::
  "nat \<Rightarrow> bool \<Rightarrow> bool \<Rightarrow> lib_sysinfo \<Rightarrow> cbfs_media option \<Rightarrow> u16 list \<Rightarrow> (nat \<Rightarrow> bytes option) \<Rightarrow>
     cbfs_media option \<Rightarrow> bytes \<Rightarrow> u32 \<Rightarrow> (cbfs_default, u64 option \<times> bytes option) act" where
  "cbfs_get_file_content fuel sg x86 sys init scratch alloc media name type d =
     (case choose_media init media d of
        (Ok m, d) \<Rightarrow>
          act_bind (cbfs_get_file fuel sg x86 sys init (Some m) name) (\<lambda>file.
            case file of NoFile \<Rightarrow> act_lift (Ok (Some 0, None))
            | InvalidFile \<Rightarrow> act_lift (Fault OutOfBounds)
            | FileAt p \<Rightarrow> act_lift (file_content fuel scratch alloc type p)) d
      | (Err, d) \<Rightarrow> (Ok (None, None), d) | (Fault f, d) \<Rightarrow> (Fault f, d))"

definition cbfs_load_payload ::
  "nat \<Rightarrow> bool \<Rightarrow> bool \<Rightarrow> lib_sysinfo \<Rightarrow> cbfs_media option \<Rightarrow> u16 list \<Rightarrow> (nat \<Rightarrow> bytes option) \<Rightarrow>
     cbfs_media option \<Rightarrow> bytes \<Rightarrow> (cbfs_default, bytes option) act" where
  "cbfs_load_payload fuel sg x86 sys init scratch alloc media name =
     act_bind (cbfs_get_file_content fuel sg x86 sys init scratch alloc media name CBFS_TYPE_PAYLOAD)
       (\<lambda>(sz, content). act_lift (Ok content))"

subsection \<open>File systems\<close>

text \<open>
  What a file system holds: at every aligned offset a file or a hole.  A file is its header, its
  name with a NUL, \<open>ce_pad\<close>, the attributes and the data.
\<close>

record cbfs_entry =
  ce_type :: u32
  ce_name :: bytes
  ce_pad :: bytes
  ce_attrs :: "(u32 \<times> bytes) list"
  ce_data :: bytes

datatype cbfs_item = Hole | File cbfs_entry

definition attr_bytes :: "u32 \<times> bytes \<Rightarrow> bytes" where
  "attr_bytes a = htobe32 (fst a) @ htobe32 (word_of_nat (8 + length (snd a))) @ snd a"

definition attrs_bytes :: "(u32 \<times> bytes) list \<Rightarrow> bytes" where
  "attrs_bytes as = concat (map attr_bytes as)"

definition attrs_start :: "cbfs_entry \<Rightarrow> nat" where
  "attrs_start e = 25 + length (ce_name e) + length (ce_pad e)"

definition data_start :: "cbfs_entry \<Rightarrow> nat" where
  "data_start e = attrs_start e + length (attrs_bytes (ce_attrs e))"

definition entry_bytes :: "cbfs_entry \<Rightarrow> bytes" where
  "entry_bytes e = CBFS_FILE_MAGIC @ htobe32 (word_of_nat (length (ce_data e))) @ htobe32 (ce_type e) @
     htobe32 (if ce_attrs e = [] then 0 else word_of_nat (attrs_start e)) @ htobe32 (word_of_nat (data_start e)) @
     ce_name e @ 0 # ce_pad e @ attrs_bytes (ce_attrs e) @ ce_data e"

text \<open>The algorithm and the size of the content.\<close>

definition entry_compression :: "cbfs_entry \<Rightarrow> u32 \<times> u32" where
  "entry_compression e =
     (case find (\<lambda>a. fst a = CBFS_FILE_ATTR_TAG_COMPRESSION) (ce_attrs e) of
        None \<Rightarrow> (CBFS_COMPRESS_NONE, word_of_nat (length (ce_data e)))
      | Some a \<Rightarrow> (be32 (take 4 (snd a)), be32 (drop 4 (snd a))))"

definition entry_ok :: "cbfs_entry \<Rightarrow> bool" where
  "entry_ok e \<longleftrightarrow> 0 \<notin> set (ce_name e) \<and> length (entry_bytes e) < 2 ^ 31 \<and>
     (\<forall>a\<in>set (ce_attrs e). fst a \<noteq> CBFS_FILE_ATTR_TAG_UNUSED \<and> fst a \<noteq> CBFS_FILE_ATTR_TAG_UNUSED2 \<and>
        (fst a = CBFS_FILE_ATTR_TAG_COMPRESSION \<longrightarrow> length (snd a) = 8)) \<and>
     (fst (entry_compression e) = CBFS_COMPRESS_NONE \<longrightarrow> unat (snd (entry_compression e)) = length (ce_data e))"

fun laid_out :: "bytes \<Rightarrow> nat \<Rightarrow> cbfs_item list \<Rightarrow> nat \<Rightarrow> bool" where
  "laid_out img off [] lim \<longleftrightarrow> lim \<le> off"
| "laid_out img off (Hole # items) lim \<longleftrightarrow> off < lim \<and> off + 24 \<le> length img \<and>
     take 8 (drop off img) \<noteq> CBFS_FILE_MAGIC \<and> laid_out img (off + 64) items lim"
| "laid_out img off (File e # items) lim \<longleftrightarrow> off < lim \<and> entry_ok e \<and>
     slice img off (length (entry_bytes e)) = Some (entry_bytes e) \<and>
     laid_out img (align_up (off + length (entry_bytes e)) 64) items lim"

text \<open>The offset of the first file of a name, and the file.\<close>

fun find_item :: "bytes \<Rightarrow> nat \<Rightarrow> cbfs_item list \<Rightarrow> (nat \<times> cbfs_entry) option" where
  "find_item name off [] = None"
| "find_item name off (Hole # items) = find_item name (off + 64) items"
| "find_item name off (File e # items) =
     (if ce_name e = name then Some (off, e) else find_item name (align_up (off + length (entry_bytes e)) 64) items)"

lemma slice_Some_drop:
  assumes "slice bs off n = Some xs"
  shows "off + n \<le> length bs \<and> drop off bs = xs @ drop (off + n) bs"
proof -
  have "take n (drop off bs) @ drop (off + n) bs = drop off bs"
    using append_take_drop_id [of n "drop off bs"] by (simp add: add.commute)
  then show ?thesis using assms by (simp add: slice_Some_iff)
qed

lemma int_sum_ok:
  assumes "a + b < 2 ^ 31"
  shows "int_sum (word_of_nat a) (word_of_nat b) = Ok (word_of_nat (a + b))"
proof -
  have s: "sint (word_of_nat x :: u32) = int x" if "x < 2 ^ 31" for x
    using that by (simp add: signed_of_nat signed_take_bit_int_eq_self)
  have "sint (word_of_nat a :: u32) + sint (word_of_nat b :: u32) = int (a + b)"
    using assms by (subst s, simp, subst s, simp_all)
  then show ?thesis using assms by (simp add: int_sum_def)
qed

lemma be32_at_field: "length a = off \<Longrightarrow> be32_at (a @ htobe32 w @ b) off = Ok w"
  by (simp add: be32_at_def slice_def)

lemma be32_at_take: "off + 4 \<le> n \<Longrightarrow> n \<le> length p \<Longrightarrow> be32_at (take n p) off = be32_at p off"
  by (simp add: be32_at_def slice_def drop_take min_def)

lemma length_magic [simp]: "length CBFS_FILE_MAGIC = 8"
  by (simp add: CBFS_FILE_MAGIC_def str_def)

lemma length_entry: "length (entry_bytes e) = data_start e + length (ce_data e)"
  by (simp add: entry_bytes_def data_start_def attrs_start_def)

lemma entry_fields:
  "be32_at (entry_bytes e @ r) 8 = Ok (word_of_nat (length (ce_data e)))"
  "be32_at (entry_bytes e @ r) 12 = Ok (ce_type e)"
  "be32_at (entry_bytes e @ r) 16 = Ok (if ce_attrs e = [] then 0 else word_of_nat (attrs_start e))"
  "be32_at (entry_bytes e @ r) 20 = Ok (word_of_nat (data_start e))"
  "take 8 (entry_bytes e @ r) = CBFS_FILE_MAGIC"
  "drop 24 (entry_bytes e @ r) = ce_name e @ 0 # ce_pad e @ attrs_bytes (ce_attrs e) @ ce_data e @ r"
proof -
  define l where "l = htobe32 (word_of_nat (length (ce_data e)))"
  define t where "t = htobe32 (ce_type e)"
  define a where "a = htobe32 (if ce_attrs e = [] then 0 else word_of_nat (attrs_start e))"
  define f where "f = htobe32 (word_of_nat (data_start e))"
  define b where "b = ce_name e @ 0 # ce_pad e @ attrs_bytes (ce_attrs e) @ ce_data e @ r"
  have e: "entry_bytes e @ r = CBFS_FILE_MAGIC @ l @ t @ a @ f @ b"
    by (simp add: entry_bytes_def l_def t_def a_def f_def b_def)
  have len: "length l = 4" "length t = 4" "length a = 4" "length f = 4" by (simp_all add: l_def t_def a_def f_def)
  show "take 8 (entry_bytes e @ r) = CBFS_FILE_MAGIC" "drop 24 (entry_bytes e @ r) = ce_name e @ 0 # ce_pad e @ attrs_bytes (ce_attrs e) @ ce_data e @ r"
    unfolding e b_def [symmetric] by (simp_all add: len)
  show "be32_at (entry_bytes e @ r) 8 = Ok (word_of_nat (length (ce_data e)))"
    unfolding e l_def by (rule be32_at_field) simp
  show "be32_at (entry_bytes e @ r) 12 = Ok (ce_type e)"
    using be32_at_field [of "CBFS_FILE_MAGIC @ l" 12 "ce_type e" "a @ f @ b"] len by (simp add: e t_def)
  show "be32_at (entry_bytes e @ r) 16 = Ok (if ce_attrs e = [] then 0 else word_of_nat (attrs_start e))"
    using be32_at_field [of "CBFS_FILE_MAGIC @ l @ t" 16 "if ce_attrs e = [] then 0 else word_of_nat (attrs_start e)" "f @ b"] len
    by (simp only: e a_def append_assoc length_append length_magic)
  show "be32_at (entry_bytes e @ r) 20 = Ok (word_of_nat (data_start e))"
    using be32_at_field [of "CBFS_FILE_MAGIC @ l @ t @ a" 20 "word_of_nat (data_start e)" b] len by (simp add: e f_def)
qed

lemma next_aligned_up:
  assumes "x + 64 < 2 ^ 32"
  shows "next_aligned (word_of_nat x) = word_of_nat (align_up x 64)"
proof -
  have u: "unat (word_of_nat x :: u32) = x" using assms by (simp add: unat_u32_of_nat)
  have m: "(word_of_nat x :: u32) mod 64 = word_of_nat (x mod 64)"
    by (rule word_unat_eq_iff [THEN iffD2]) (use assms in \<open>simp add: unat_mod_distrib unat_u32_of_nat u\<close>)
  show ?thesis
  proof (cases "x mod 64 = 0")
    case True
    then have "align_up x 64 = x" by (auto simp: align_up_def mod_0_imp_dvd elim!: dvdE)
    then show ?thesis using m True by (simp add: next_aligned_def CBFS_ALIGNMENT_def)
  next
    case False
    obtain q r where x: "x = q * 64 + r" "r < 64" using that [of "x div 64" "x mod 64"] by simp
    then have r: "x mod 64 = r" "0 < r" using False by simp_all
    have "(x + (64 - 1)) div 64 = q + 1" by (rule div_nat_eqI) (use x r(2) in simp_all)
    then have a: "align_up x 64 = x + (64 - x mod 64)" unfolding align_up_def r using x by simp
    have "(word_of_nat (x mod 64) :: u32) \<noteq> 0" using False by (simp add: word_unat_eq_iff unat_u32_of_nat)
    moreover have "(64 :: u32) - word_of_nat (x mod 64) = word_of_nat (64 - x mod 64)"
      by (simp add: of_nat_diff less_imp_le)
    ultimately show ?thesis using m a by (simp add: next_aligned_def CBFS_ALIGNMENT_def)
  qed
qed

text \<open>
  The last four bytes hold the offset of the master header, from the end when it is negative; it
  gives the range of the file system.
\<close>

definition header_pos :: "bytes \<Rightarrow> int" where
  "header_pos img = (let r = sint (le32 (drop (length img - 4) img)) in if r < 0 then int (length img) + r else r)"

definition cbfs_image :: "bool \<Rightarrow> bytes \<Rightarrow> nat \<Rightarrow> cbfs_item list \<Rightarrow> bool" where
  "cbfs_image x86 img start items \<longleftrightarrow> 4 \<le> length img \<and> length img \<le> 0xf0000000 \<and>
     0 \<le> header_pos img \<and> header_pos img + 32 \<le> int (length img) \<and>
     (let h = drop (nat (header_pos img)) img in
      be32_at h 0 = Ok CBFS_HEADER_MAGIC \<and>
      (case header_range x86 h of
         Ok (offset, cbfs_end) \<Rightarrow>
           unat offset = start \<and> start mod 64 = 0 \<and> laid_out img start items (unat cbfs_end)
       | _ \<Rightarrow> False))"

text \<open>
  The laws of a source: it holds \<open>img\<close>, of less than 0xf0000000 bytes, and gives it by offsets
  from the start, and by negative offsets from the end.
\<close>

locale cbfs_source =
  fixes media :: cbfs_media and img :: bytes
  assumes read_in: "length img \<le> 0xf0000000 \<Longrightarrow> unat off + unat n \<le> length img \<Longrightarrow>
      media_read media off n = Ok (Some (take (unat n) (drop (unat off) img)))"
    and map_in: "length img \<le> 0xf0000000 \<Longrightarrow> unat off + unat n \<le> length img \<Longrightarrow>
      media_map media off n = Ok (Some (drop (unat off) img))"
    and read_end: "length img \<le> 0xf0000000 \<Longrightarrow> 0 < k \<Longrightarrow> k \<le> length img \<Longrightarrow> unat n \<le> k \<Longrightarrow>
      media_read media (- word_of_nat k) n = Ok (Some (take (unat n) (drop (length img - k) img)))"
    and map_end: "length img \<le> 0xf0000000 \<Longrightarrow> 0 < k \<Longrightarrow> k \<le> length img \<Longrightarrow> unat n \<le> k \<Longrightarrow>
      media_map media (- word_of_nat k) n = Ok (Some (drop (length img - k) img))"
begin

lemma find_file_entry:
  assumes "length img \<le> 0xf0000000" "entry_ok e" "slice img off (length (entry_bytes e)) = Some (entry_bytes e)"
    and "0 \<notin> set name" "off < 2 ^ 32" "word_of_nat off < cbfs_end"
  shows "find_file (Suc k) sg media (name @ 0 # junk) (word_of_nat off) cbfs_end =
    (if ce_name e = name then Ok (FileAt (drop off img))
     else find_file k sg media (name @ 0 # junk) (word_of_nat (align_up (off + length (entry_bytes e)) 64)) cbfs_end)"
proof -
  let ?n = "length (entry_bytes e)" and ?ds = "data_start e"
  have n: "off + ?n \<le> length img" and p: "drop off img = entry_bytes e @ drop (off + ?n) img"
    using slice_Some_drop [OF assms(3)] by simp_all
  have small: "?n < 2 ^ 31" and nul: "0 \<notin> set (ce_name e)" using assms(2) by (simp_all add: entry_ok_def)
  have ds: "25 \<le> ?ds" "?ds + length (ce_data e) = ?n" by (simp_all add: length_entry) (simp add: data_start_def attrs_start_def)
  define w :: u64 where "w = ucast (word_of_nat off :: u32)"
  have uo: "unat w = off" using assms(5) by (simp add: w_def unat_u32_of_nat)
  have hdr: "media_read media w (word_of_nat sizeof_file) = Ok (Some (take 24 (drop off img)))"
    using read_in [OF assms(1), of w "word_of_nat sizeof_file"] n ds uo by (simp add: sizeof_file_def)
  have f: "take 8 (take 24 (drop off img)) = CBFS_FILE_MAGIC"
    "be32_at (take 24 (drop off img)) 8 = Ok (word_of_nat (length (ce_data e)))"
    "be32_at (take 24 (drop off img)) 20 = Ok (word_of_nat ?ds)"
    using n ds entry_fields [of e "drop (off + ?n) img"] by (simp_all add: be32_at_take p [symmetric] min_def)
  have vl: "(word_of_nat ?ds :: u32) - word_of_nat sizeof_file = word_of_nat (?ds - 24)"
    using ds by (simp add: sizeof_file_def of_nat_diff)
  have "unat (w + word_of_nat sizeof_file) = off + 24"
    using uo assms(5) by (simp add: unat_word_ariths sizeof_file_def)
  moreover have "unat (ucast (word_of_nat (?ds - 24) :: u32) :: u64) = ?ds - 24"
    unfolding unat_ucast_32_64 by (rule unat_u32_of_nat) (use ds small in simp)
  ultimately have vd: "media_map media (w + word_of_nat sizeof_file) (ucast (word_of_nat (?ds - 24) :: u32)) = Ok (Some (drop (off + 24) img))"
    using map_in [OF assms(1), of "w + word_of_nat sizeof_file" "ucast (word_of_nat (?ds - 24) :: u32)"] n ds
    by (simp del: of_nat_diff)
  have "drop (off + 24) img = ce_name e @ 0 # ce_pad e @ attrs_bytes (ce_attrs e) @ ce_data e @ drop (off + ?n) img"
    using entry_fields(6) [of e "drop (off + ?n) img"] by (simp add: p [symmetric] add.commute)
  then obtain c where c: "strcmp sg (drop (off + 24) img) (name @ 0 # junk) = Ok c" "c = 0 \<longleftrightarrow> ce_name e = name"
    using strcmp_terminated [OF nul assms(4)] by metis
  have sum: "int_sum (word_of_nat ?ds) (word_of_nat (length (ce_data e))) = Ok (word_of_nat ?n)"
    using int_sum_ok [of ?ds "length (ce_data e)"] small by (simp only: ds(2))
  have mp: "media_map media w (word_of_nat ?n) = Ok (Some (drop off img))"
    using map_in [OF assms(1), of w "word_of_nat ?n"] n uo small by (simp add: unat_u64_of_nat)
  have nx: "next_aligned (word_of_nat off + (word_of_nat (length (ce_data e)) + word_of_nat ?ds)) = word_of_nat (align_up (off + ?n) 64)"
  proof -
    have "(word_of_nat off + (word_of_nat (length (ce_data e)) + word_of_nat ?ds) :: u32) = word_of_nat (off + ?n)"
      unfolding ds(2) [symmetric] of_nat_add by (simp only: ac_simps)
    moreover have "off + ?n + 64 < 2 ^ 32" using n assms(1) by simp
    ultimately show ?thesis by (simp only: next_aligned_up)
  qed
  show ?thesis
    using assms(6) hdr f vl vd c sum mp nx by (simp add: Let_def flip: w_def)
qed

lemma find_file_items:
  assumes "length img \<le> 0xf0000000" and "laid_out img off items lim" and "off mod 64 = 0"
    and "off < 2 ^ 32" and "lim < 2 ^ 32" and "length items < fuel" and "0 \<notin> set name"
  shows "find_file fuel sg media (name @ 0 # junk) (word_of_nat off) (word_of_nat lim) =
    Ok (case find_item name off items of None \<Rightarrow> NoFile | Some (o1, e) \<Rightarrow> FileAt (drop o1 img))"
  using assms
proof (induction items arbitrary: off fuel)
  case Nil
  then obtain k where "fuel = Suc k" by (cases fuel) auto
  then show ?case using Nil by (simp add: word_less_nat_alt unat_u32_of_nat)
next
  case (Cons item items)
  obtain k where k: "fuel = Suc k" "length items < k" using Cons.prems(6) by (cases fuel) auto
  have uo: "unat (ucast (word_of_nat off :: u32) :: u64) = off" using Cons.prems(4) by (simp add: unat_u32_of_nat)
  have lt: "off < lim" using Cons.prems(2) by (cases item) auto
  then have cmp: "(word_of_nat off :: u32) < word_of_nat lim"
    using Cons.prems(4,5) by (simp add: word_less_nat_alt unat_u32_of_nat)
  have al: "align_up off 64 = off" using Cons.prems(3) by (auto simp: align_up_def mod_0_imp_dvd elim!: dvdE)
  have in24: "off + 24 \<le> length img"
  proof (cases item)
    case (File e)
    then show ?thesis using Cons.prems(2) by (auto simp: slice_Some_iff length_entry data_start_def attrs_start_def)
  qed (use Cons.prems(2) in simp)
  have hdr: "media_read media (ucast (word_of_nat off :: u32)) (word_of_nat sizeof_file) = Ok (Some (take 24 (drop off img)))"
    using read_in [OF Cons.prems(1), of "ucast (word_of_nat off :: u32)" "word_of_nat sizeof_file"] in24 uo
    by (simp add: sizeof_file_def)
  have bound: "off + 64 < 2 ^ 32" using in24 Cons.prems(1) by simp
  show ?case
  proof (cases item)
    case Hole
    then have lo: "laid_out img (off + 64) items lim" and nm: "take 8 (drop off img) \<noteq> CBFS_FILE_MAGIC"
      using Cons.prems(2) by simp_all
    have nx: "next_aligned (word_of_nat off) + CBFS_ALIGNMENT = word_of_nat (off + 64)"
      using next_aligned_up [OF bound] al by (simp add: CBFS_ALIGNMENT_def)
    have "find_file k sg media (name @ 0 # junk) (word_of_nat (off + 64)) (word_of_nat lim) =
      Ok (case find_item name (off + 64) items of None \<Rightarrow> NoFile | Some (o1, e) \<Rightarrow> FileAt (drop o1 img))"
      by (rule Cons.IH [OF Cons.prems(1) lo _ _ Cons.prems(5) k(2) Cons.prems(7)]) (use Cons.prems(3) bound in simp_all)
    then show ?thesis using cmp hdr nm nx k(1) Hole by (simp add: min_def)
  next
    case (File e)
    let ?off = "align_up (off + length (entry_bytes e)) 64"
    have e: "entry_ok e" "slice img off (length (entry_bytes e)) = Some (entry_bytes e)" and lo: "laid_out img ?off items lim"
      using Cons.prems(2) File by simp_all
    have n: "off + length (entry_bytes e) \<le> length img" using e(2) by (simp add: slice_Some_iff)
    have "?off \<le> off + length (entry_bytes e) + 63" by (simp add: align_up_def)
    then have off: "?off < 2 ^ 32" using n Cons.prems(1) by simp
    have al: "?off mod 64 = 0" by (simp add: align_up_def)
    have "find_file k sg media (name @ 0 # junk) (word_of_nat ?off) (word_of_nat lim) =
      Ok (case find_item name ?off items of None \<Rightarrow> NoFile | Some (o1, e) \<Rightarrow> FileAt (drop o1 img))"
      by (rule Cons.IH [OF Cons.prems(1) lo al off Cons.prems(5) k(2) Cons.prems(7)])
    then show ?thesis
      unfolding k(1) find_file_entry [OF Cons.prems(1) e Cons.prems(7) Cons.prems(4) cmp] using File by simp
  qed
qed

lemma header_found:
  assumes "cbfs_image x86 img start items"
  shows "header_of media = Ok (drop (nat (header_pos img)) img)"
proof -
  define w where "w = le32 (drop (length img - 4) img)"
  have len: "4 \<le> length img" "length img \<le> 0xf0000000" using assms by (simp_all add: cbfs_image_def)
  have pos: "0 \<le> header_pos img" "header_pos img + 32 \<le> int (length img)" using assms by (simp_all add: cbfs_image_def)
  have hp: "header_pos img = (if sint w < 0 then int (length img) + sint w else sint w)" by (simp add: header_pos_def w_def Let_def)
  have rd: "media_read media (0 - 4) 4 = Ok (Some (drop (length img - 4) img))"
    using read_end [OF len(2), of 4 4] len(1) by simp
  have sc: "(scast w :: u64) = word_of_int (sint w)" by (simp add: signed_word_eqI) 
  have mp: "media_map media (scast w) (word_of_nat sizeof_header) = Ok (Some (drop (nat (header_pos img)) img))"
  proof (cases "sint w < 0")
    case True
    define k where "k = nat (- sint w)"
    have "(scast w :: u64) = - word_of_nat k" unfolding sc k_def using True by simp
    moreover have "0 < k" "k \<le> length img" "32 \<le> k" "length img - k = nat (header_pos img)"
      using True pos hp by (auto simp: k_def)
    ultimately show ?thesis using map_end [OF len(2), of k "word_of_nat sizeof_header"] by (simp add: sizeof_header_def)
  next
    case False
    then have r: "sint w = header_pos img" using hp by simp
    have "take_bit 64 (header_pos img) = header_pos img" using pos len(2) by (intro take_bit_int_eq_self) simp_all
    then have "unat (scast w :: u64) = nat (header_pos img)" unfolding sc r by (simp add: unsigned_of_int)
    then show ?thesis using map_in [OF len(2), of "scast w" "word_of_nat sizeof_header"] pos by (simp add: sizeof_header_def)
  qed
  show ?thesis using rd mp assms by (simp add: header_of_def w_def [symmetric] cbfs_image_def Let_def)
qed

lemma get_file:
  assumes "cbfs_image x86 img start items" "length items < fuel" "0 \<notin> set name"
  shows "cbfs_get_file fuel sg x86 sys init (Some media) (name @ 0 # junk) d =
    (Ok (case find_item name start items of None \<Rightarrow> NoFile | Some (off, e) \<Rightarrow> FileAt (drop off img)), d)"
proof -
  let ?h = "drop (nat (header_pos img)) img"
  obtain offset cbfs_end where r: "header_range x86 ?h = Ok (offset, cbfs_end)"
    and lo: "unat offset = start" "start mod 64 = 0" "laid_out img start items (unat cbfs_end)"
    using assms(1) by (auto simp: cbfs_image_def Let_def split: res.splits)
  have "find_file fuel sg media (name @ 0 # junk) (word_of_nat start) (word_of_nat (unat cbfs_end)) =
    Ok (case find_item name start items of None \<Rightarrow> NoFile | Some (off, e) \<Rightarrow> FileAt (drop off img))"
    by (rule find_file_items [OF _ lo(3,2) _ _ assms(2,3)])
      (use assms(1) lo(1) unat_u32_less [of offset] unat_u32_less [of cbfs_end] in \<open>simp_all add: cbfs_image_def\<close>)
  moreover have "(word_of_nat start :: u32) = offset" by (simp flip: lo(1))
  ultimately have "find_file fuel sg media (name @ 0 # junk) offset cbfs_end =
    Ok (case find_item name start items of None \<Rightarrow> NoFile | Some (off, e) \<Rightarrow> FileAt (drop off img))" by simp
  then show ?thesis
    using header_found [OF assms(1)] r
    by (simp add: cbfs_get_file_def choose_media_def get_cbfs_range_def cbfs_get_header_def act_bind_def act_lift_def)
qed

end

subsection \<open>Attributes of a file\<close>

lemma attr_fields:
  assumes "file = p @ attr_bytes x @ r" "length p = a" "8 + length (snd x) < 2 ^ 32"
  shows "be32_at file a = Ok (fst x)" "map_res unat (be32_at file (a + 4)) = Ok (8 + length (snd x))"
    "slice file (a + 8) (length (snd x)) = Some (snd x)"
proof -
  show "be32_at file a = Ok (fst x)"
    using be32_at_field [of p a "fst x" "htobe32 (word_of_nat (8 + length (snd x))) @ snd x @ r"] assms(1,2)
    by (simp add: attr_bytes_def)
  have "be32_at file (a + 4) = Ok (word_of_nat (8 + length (snd x)))"
    using be32_at_field [of "p @ htobe32 (fst x)" "a + 4" "word_of_nat (8 + length (snd x))" "snd x @ r"] assms(1,2)
    by (simp add: attr_bytes_def)
  then show "map_res unat (be32_at file (a + 4)) = Ok (8 + length (snd x))"
    using unat_u32_of_nat [of "8 + length (snd x)"] assms(3) by simp
  show "slice file (a + 8) (length (snd x)) = Some (snd x)"
    unfolding assms(1) using assms(2) by (simp add: slice_def attr_bytes_def)
qed

lemma length_attr: "length (attr_bytes x) = 8 + length (snd x)"
  by (simp add: attr_bytes_def)

lemma find_attr_list:
  assumes "file = p @ attrs_bytes as @ r" "length p = a" "as \<noteq> []" "length as < fuel"
    and "be32_at file 20 = Ok (word_of_nat (a + length (attrs_bytes as)))" "a + length (attrs_bytes as) < 2 ^ 31"
    and "\<forall>x\<in>set as. fst x \<noteq> CBFS_FILE_ATTR_TAG_UNUSED \<and> fst x \<noteq> CBFS_FILE_ATTR_TAG_UNUSED2 \<and>
        (fst x = CBFS_FILE_ATTR_TAG_COMPRESSION \<longrightarrow> length (snd x) = 8)"
  shows "\<exists>q. find_attr fuel file CBFS_FILE_ATTR_TAG_COMPRESSION (Some a) = Ok q \<and>
    (case find (\<lambda>x. fst x = CBFS_FILE_ATTR_TAG_COMPRESSION) as of None \<Rightarrow> q = None
     | Some x \<Rightarrow> \<exists>b. q = Some b \<and> slice file (b + 8) (length (snd x)) = Some (snd x))"
  using assms
proof (induction as arbitrary: p a fuel)
  case (Cons x xs)
  obtain k where k: "fuel = Suc k" "length xs < k" using Cons.prems(4) by (cases fuel) auto
  have fl: "file = p @ attr_bytes x @ (attrs_bytes xs @ r)" using Cons.prems(1) by (simp add: attrs_bytes_def)
  have tot: "length (attrs_bytes (x # xs)) = 8 + length (snd x) + length (attrs_bytes xs)"
    by (simp add: attrs_bytes_def length_attr)
  have "8 + length (snd x) < 2 ^ 32" using Cons.prems(6) unfolding tot by simp
  note fields = attr_fields [OF fl Cons.prems(2) this]
  show ?case
  proof (cases "fst x = CBFS_FILE_ATTR_TAG_COMPRESSION")
    case True
    then show ?thesis using fields k(1) by auto
  next
    case False
    let ?a = "a + (8 + length (snd x))"
    obtain l where l: "be32_at file (a + 4) = Ok l" "unat l = 8 + length (snd x)"
      using fields(2) by (auto simp: map_res_Ok_iff)
    have ds: "be32_at file 20 = Ok (word_of_nat (?a + length (attrs_bytes xs)))" using Cons.prems(5) tot by (simp add: add.assoc)
    have uds: "unat (word_of_nat (?a + length (attrs_bytes xs)) :: u32) = ?a + length (attrs_bytes xs)"
      by (rule unat_u32_of_nat) (use Cons.prems(6) tot in simp)
    show ?thesis
    proof (cases "length (attrs_bytes xs) \<le> 8")
      case True
      then have "cbfs_file_next_attr file (Some a) = Ok None"
        using l ds uds by (simp add: cbfs_file_next_attr_def sizeof_attribute_def)
      moreover have "find (\<lambda>x. fst x = CBFS_FILE_ATTR_TAG_COMPRESSION) xs = None"
      proof -
        have le: "length (attr_bytes y) \<le> length (attrs_bytes xs)" if "y \<in> set xs" for y
          using that by (induction xs) (auto simp: attrs_bytes_def)
        have "length (snd y) = 0" if "y \<in> set xs" for y
          using le_trans [OF le [OF that] True] by (simp add: length_attr)
        then show ?thesis using Cons.prems(7) by (fastforce simp: find_None_iff)
      qed
      ultimately show ?thesis using False fields(1) k by (cases k) auto
    next
      case more: False
      then obtain y ys where xs: "xs = y # ys" by (cases xs) (auto simp: attrs_bytes_def)
      have "file = (p @ attr_bytes x) @ attr_bytes y @ (attrs_bytes ys @ r)"
        unfolding fl xs by (simp add: attrs_bytes_def)
      moreover have "length (p @ attr_bytes x) = ?a" using Cons.prems(2) by (simp add: length_attr)
      moreover have "8 + length (snd y) < 2 ^ 32" using Cons.prems(6) unfolding tot xs by (simp add: attrs_bytes_def length_attr)
      ultimately have "be32_at file ?a = Ok (fst y)" by (rule attr_fields(1))
      moreover have "fst y \<noteq> CBFS_FILE_ATTR_TAG_UNUSED" "fst y \<noteq> CBFS_FILE_ATTR_TAG_UNUSED2"
        using Cons.prems(7) xs by simp_all
      ultimately have "cbfs_file_next_attr file (Some a) = Ok (Some ?a)"
        using l ds uds more by (simp add: cbfs_file_next_attr_def sizeof_attribute_def)
      moreover have "\<exists>q. find_attr k file CBFS_FILE_ATTR_TAG_COMPRESSION (Some ?a) = Ok q \<and>
        (case find (\<lambda>x. fst x = CBFS_FILE_ATTR_TAG_COMPRESSION) xs of None \<Rightarrow> q = None
         | Some x \<Rightarrow> \<exists>b. q = Some b \<and> slice file (b + 8) (length (snd x)) = Some (snd x))"
        by (rule Cons.IH [where p = "p @ attr_bytes x"])
          (use fl Cons.prems(2,6,7) xs k(2) ds tot in \<open>simp_all add: length_attr\<close>)
      ultimately show ?thesis using False fields(1) k(1) by simp
    qed
  qed
qed simp

lemma find_attr_entry:
  assumes "entry_ok e" "length (ce_attrs e) < fuel"
  shows "\<exists>q. cbfs_file_find_attr fuel (entry_bytes e @ r) CBFS_FILE_ATTR_TAG_COMPRESSION = Ok q \<and>
    (case find (\<lambda>x. fst x = CBFS_FILE_ATTR_TAG_COMPRESSION) (ce_attrs e) of None \<Rightarrow> q = None
     | Some x \<Rightarrow> \<exists>b. q = Some b \<and> slice (entry_bytes e @ r) (b + 8) (length (snd x)) = Some (snd x))"
proof (cases "ce_attrs e")
  case Nil
  then have "cbfs_file_first_attr (entry_bytes e @ r) = Ok None"
    by (simp add: cbfs_file_first_attr_def entry_fields)
  then show ?thesis using Nil assms(2) by (cases fuel) (auto simp: cbfs_file_find_attr_def)
next
  case (Cons x xs)
  let ?p = "CBFS_FILE_MAGIC @ htobe32 (word_of_nat (length (ce_data e))) @ htobe32 (ce_type e) @
     htobe32 (if ce_attrs e = [] then 0 else word_of_nat (attrs_start e)) @ htobe32 (word_of_nat (data_start e)) @
     ce_name e @ 0 # ce_pad e"
  have small: "data_start e < 2 ^ 31" using assms(1) by (simp add: entry_ok_def length_entry)
  have as: "8 \<le> length (attrs_bytes (ce_attrs e))" unfolding Cons by (simp add: attrs_bytes_def length_attr)
  then have ds: "attrs_start e + 8 \<le> data_start e" "25 \<le> attrs_start e" by (simp_all add: data_start_def attrs_start_def)
  have u: "unat (word_of_nat (attrs_start e) :: u32) = attrs_start e" "unat (word_of_nat (data_start e) :: u32) = data_start e"
    using small ds by (simp_all add: unat_u32_of_nat)
  have "cbfs_file_first_attr (entry_bytes e @ r) = Ok (Some (attrs_start e))"
    using Cons u ds by (simp add: cbfs_file_first_attr_def entry_fields sizeof_file_def sizeof_attribute_def)
  moreover have "\<exists>q. find_attr fuel (entry_bytes e @ r) CBFS_FILE_ATTR_TAG_COMPRESSION (Some (attrs_start e)) = Ok q \<and>
    (case find (\<lambda>x. fst x = CBFS_FILE_ATTR_TAG_COMPRESSION) (ce_attrs e) of None \<Rightarrow> q = None
     | Some x \<Rightarrow> \<exists>b. q = Some b \<and> slice (entry_bytes e @ r) (b + 8) (length (snd x)) = Some (snd x))"
  proof (rule find_attr_list [where p = ?p])
    show "be32_at (entry_bytes e @ r) 20 = Ok (word_of_nat (attrs_start e + length (attrs_bytes (ce_attrs e))))"
      using entry_fields(4) by (simp add: data_start_def)
    show "attrs_start e + length (attrs_bytes (ce_attrs e)) < 2 ^ 31" using small by (simp add: data_start_def)
  qed (use Cons assms in \<open>simp_all add: entry_bytes_def attrs_start_def entry_ok_def\<close>)
  ultimately show ?thesis by (simp add: cbfs_file_find_attr_def)
qed

lemma entry_size:
  assumes "entry_ok e" "length (ce_attrs e) < fuel"
  shows "\<exists>q. cbfs_file_find_attr fuel (entry_bytes e @ r) CBFS_FILE_ATTR_TAG_COMPRESSION = Ok q \<and>
    (case q of None \<Rightarrow> Ok (CBFS_COMPRESS_NONE, word_of_nat (length (ce_data e)))
     | Some a \<Rightarrow> andthen (be32_at (entry_bytes e @ r) (a + 8)) (\<lambda>compression.
         map_res (Pair compression) (be32_at (entry_bytes e @ r) (a + 12)))) = Ok (entry_compression e)"
proof -
  obtain q where q: "cbfs_file_find_attr fuel (entry_bytes e @ r) CBFS_FILE_ATTR_TAG_COMPRESSION = Ok q"
    "case find (\<lambda>x. fst x = CBFS_FILE_ATTR_TAG_COMPRESSION) (ce_attrs e) of None \<Rightarrow> q = None
     | Some x \<Rightarrow> \<exists>b. q = Some b \<and> slice (entry_bytes e @ r) (b + 8) (length (snd x)) = Some (snd x)"
    using find_attr_entry [OF assms] by blast
  show ?thesis
  proof (cases "find (\<lambda>x. fst x = CBFS_FILE_ATTR_TAG_COMPRESSION) (ce_attrs e)")
    case None
    then show ?thesis using q by (simp add: entry_compression_def)
  next
    case (Some x)
    then obtain b where b: "q = Some b" "slice (entry_bytes e @ r) (b + 8) (length (snd x)) = Some (snd x)" using q by auto
    have "length (snd x) = 8" using Some assms(1) by (auto simp: find_Some_iff entry_ok_def)
    then have "slice (entry_bytes e @ r) (b + 8 + 0) 4 = slice (snd x) 0 4" "slice (entry_bytes e @ r) (b + 8 + 4) 4 = slice (snd x) 4 4"
      using slice_within [OF b(2), of 0 4] slice_within [OF b(2), of 4 4] by simp_all
    then show ?thesis using q(1) b(1) Some \<open>length (snd x) = 8\<close>
      by (simp add: be32_at_def entry_compression_def slice_def add.assoc)
  qed
qed

subsection \<open>The content of a file\<close>

text \<open>What the caller gets of a file at \<open>off\<close>.\<close>

definition stored_content :: "u16 list \<Rightarrow> (nat \<Rightarrow> bytes option) \<Rightarrow> bytes \<Rightarrow> u32 \<Rightarrow> nat \<Rightarrow> cbfs_entry \<Rightarrow> bytes option res" where
  "stored_content scratch alloc img type off e =
     (if ce_type e \<noteq> type then Ok None
      else case alloc (unat (snd (entry_compression e))) of None \<Rightarrow> Ok None
      | Some dst \<Rightarrow>
        if fst (entry_compression e) = CBFS_COMPRESS_NONE then Ok (if ce_data e = [] then None else Some (ce_data e))
        else if fst (entry_compression e) = CBFS_COMPRESS_LZMA
        then (case ulzma scratch (drop (off + data_start e) img) dst of
                Ok (n, out) \<Rightarrow> Ok (if (word_of_nat n :: u32) = 0 then None else Some out)
              | Err \<Rightarrow> Ok None | Fault f \<Rightarrow> Fault f)
        else Ok None)"

definition with_size :: "cbfs_entry \<Rightarrow> bytes option \<Rightarrow> u64 option \<times> bytes option" where
  "with_size e c = (case c of None \<Rightarrow> (Some 0, None) | Some b \<Rightarrow> (Some (ucast (snd (entry_compression e))), Some b))"

lemma with_size_simps [simp]:
  "with_size e None = (Some 0, None)" "with_size e (Some b) = (Some (ucast (snd (entry_compression e))), Some b)"
  by (simp_all add: with_size_def)

definition allocates :: "(nat \<Rightarrow> bytes option) \<Rightarrow> bool" where
  "allocates alloc \<longleftrightarrow> (\<forall>n d. alloc n = Some d \<longrightarrow> length d = n)"

lemma decompress_none:
  assumes "unat len = length xs" "length xs < 2 ^ 31" "length dst = length xs"
  shows "cbfs_decompress scratch CBFS_COMPRESS_NONE (xs @ r) dst len = Ok (len, xs)"
proof -
  have "len = word_of_nat (length xs)" by (simp flip: assms(1))
  then have "sint len = int (length xs)" using assms(2) by (simp add: signed_of_nat signed_take_bit_int_eq_self)
  then have "(scast len :: u64) = word_of_nat (length xs)"
    by (metis of_int_of_nat_eq scast_eq)
  then have "unat (scast len :: u64) = length xs" using assms(2) by (simp add: unat_u64_of_nat)
  then show ?thesis using assms(3) by (simp add: cbfs_decompress_def slice_def put_def)
qed

lemma file_content_entry:
  assumes e: "entry_ok e" "slice img off (length (entry_bytes e)) = Some (entry_bytes e)"
    and fuel: "length (ce_attrs e) < fuel" and alloc: "allocates alloc"
  shows "file_content fuel scratch alloc type (drop off img) = map_res (with_size e) (stored_content scratch alloc img type off e)"
proof -
  define r where "r = drop (off + length (entry_bytes e)) img"
  have p: "drop off img = entry_bytes e @ r" and n: "off + length (entry_bytes e) \<le> length img"
    using slice_Some_drop [OF e(2)] by (simp_all add: r_def)
  have small: "data_start e + length (ce_data e) < 2 ^ 31" using e(1) by (simp add: entry_ok_def length_entry)
  then have u: "unat (word_of_nat (data_start e) :: u32) = data_start e" by (simp add: unat_u32_of_nat)
  have data: "drop (data_start e) (entry_bytes e @ r) = ce_data e @ r"
    by (simp add: entry_bytes_def data_start_def attrs_start_def)
  have tail: "drop (off + data_start e) img = ce_data e @ r"
    using data by (simp add: p [symmetric] add.commute)
  obtain q where q: "cbfs_file_find_attr fuel (entry_bytes e @ r) CBFS_FILE_ATTR_TAG_COMPRESSION = Ok q"
    "(case q of None \<Rightarrow> Ok (CBFS_COMPRESS_NONE, word_of_nat (length (ce_data e)))
     | Some a \<Rightarrow> andthen (be32_at (entry_bytes e @ r) (a + 8)) (\<lambda>compression.
         map_res (Pair compression) (be32_at (entry_bytes e @ r) (a + 12)))) = Ok (entry_compression e)"
    using entry_size [OF e(1) fuel] by blast
  obtain algo sz where c: "entry_compression e = (algo, sz)" by fastforce
  have none: "unat sz = length (ce_data e)" if "algo = CBFS_COMPRESS_NONE" using e(1) c that by (simp add: entry_ok_def)
  have le: "data_start e \<le> data_start e + length (ce_data e) + length r" by simp
  have eq: "file_content fuel scratch alloc type (drop off img) =
    (if ce_type e \<noteq> type then Ok (Some 0, None)
     else case alloc (unat sz) of None \<Rightarrow> Ok (Some 0, None)
     | Some dst \<Rightarrow> map_res (\<lambda>(r, dst). if r = 0 then (Some 0, None) else (Some (ucast sz), Some dst))
         (cbfs_decompress scratch algo (ce_data e @ r) dst sz))"
    unfolding p file_content_def entry_fields andthen.simps q c prod.case u data length_entry length_append if_P [OF le]
    by simp
  show ?thesis
  proof (cases "alloc (unat sz)")
    case (Some dst)
    then have dst: "length dst = unat sz" using alloc by (simp add: allocates_def)
    consider "algo = CBFS_COMPRESS_NONE" | "algo \<noteq> CBFS_COMPRESS_NONE" "algo = CBFS_COMPRESS_LZMA"
      | "algo \<noteq> CBFS_COMPRESS_NONE" "algo \<noteq> CBFS_COMPRESS_LZMA" by blast
    then show ?thesis
    proof cases
      case 1
      have d: "cbfs_decompress scratch CBFS_COMPRESS_NONE (ce_data e @ r) dst sz = Ok (sz, ce_data e)"
        by (rule decompress_none) (use none [OF 1] small dst in simp_all)
      have "sz = 0 \<longleftrightarrow> ce_data e = []" using none [OF 1] by (auto simp flip: unat_eq_zero)
      then show ?thesis unfolding eq stored_content_def c by (simp add: Some 1 d c)
    next
      case 2
      then show ?thesis unfolding eq stored_content_def c tail
        by (cases "ulzma scratch (ce_data e @ r) dst") (auto simp: Some c cbfs_decompress_def)
    next
      case 3
      then show ?thesis unfolding eq stored_content_def c by (simp add: Some c cbfs_decompress_def)
    qed
  qed (simp add: eq stored_content_def c)
qed

lemma find_item_entry:
  "laid_out img off items lim \<Longrightarrow> find_item name off items = Some (o1, e) \<Longrightarrow>
     entry_ok e \<and> slice img o1 (length (entry_bytes e)) = Some (entry_bytes e) \<and> File e \<in> set items"
  by (induction name off items rule: find_item.induct) (auto split: if_splits)

text \<open>Fuel for the search and the lists of attributes.\<close>

definition enough_fuel :: "nat \<Rightarrow> cbfs_item list \<Rightarrow> bool" where
  "enough_fuel fuel items \<longleftrightarrow> length items < fuel \<and>
     (\<forall>i\<in>set items. case i of Hole \<Rightarrow> True | File e \<Rightarrow> length (ce_attrs e) < fuel)"

definition named_content ::
  "u16 list \<Rightarrow> (nat \<Rightarrow> bytes option) \<Rightarrow> bytes \<Rightarrow> bytes \<Rightarrow> u32 \<Rightarrow> nat \<Rightarrow> cbfs_item list \<Rightarrow> (u64 option \<times> bytes option) res" where
  "named_content scratch alloc img name type start items =
     (case find_item name start items of None \<Rightarrow> Ok (Some 0, None)
      | Some (off, e) \<Rightarrow> map_res (with_size e) (stored_content scratch alloc img type off e))"

context cbfs_source
begin

lemma get_file_content:
  assumes img: "cbfs_image x86 img start items" and fuel: "enough_fuel fuel items"
    and name: "0 \<notin> set name" and alloc: "allocates alloc"
  shows "cbfs_get_file_content fuel sg x86 sys init scratch alloc (Some media) (name @ 0 # junk) type d =
    (named_content scratch alloc img name type start items, d)"
proof -
  have get: "cbfs_get_file fuel sg x86 sys init (Some media) (name @ 0 # junk) d =
    (Ok (case find_item name start items of None \<Rightarrow> NoFile | Some (off, e) \<Rightarrow> FileAt (drop off img)), d)"
    using get_file [OF img _ name] fuel by (simp add: enough_fuel_def)
  obtain lim where lo: "laid_out img start items lim"
    using img by (auto simp: cbfs_image_def Let_def split: res.splits)
  show ?thesis
  proof (cases "find_item name start items")
    case None
    then show ?thesis
      using get by (simp add: cbfs_get_file_content_def choose_media_def act_bind_def act_lift_def named_content_def)
  next
    case (Some oe)
    obtain off e where oe: "oe = (off, e)" by fastforce
    from find_item_entry [OF lo Some [unfolded oe]]
    have e: "entry_ok e" "slice img off (length (entry_bytes e)) = Some (entry_bytes e)" "File e \<in> set items" by simp_all
    have "length (ce_attrs e) < fuel" using e(3) fuel by (fastforce simp: enough_fuel_def)
    then show ?thesis
      using get Some oe file_content_entry [OF e(1,2) _ alloc]
      by (simp add: cbfs_get_file_content_def choose_media_def act_bind_def act_lift_def named_content_def)
  qed
qed

end

subsection \<open>The source in memory\<close>

definition ram_source :: "bytes \<Rightarrow> cbfs_media" where
  "ram_source img = (let m = \<lparr>rm_start = img, rm_size = word_of_nat (length img)\<rparr> in
     \<lparr>media_read = ram_read m, media_map = ram_map m\<rparr>)"

lemma init_ram_source:
  assumes "unat sz = length img"
  shows "init_cbfs_ram_media True img sz = Ok (ram_source img)"
  by (simp add: init_cbfs_ram_media_def ram_source_def Let_def flip: assms)

lemma ram_map_in:
  assumes "length img \<le> 0xf0000000" "unat off + unat n \<le> length img"
  shows "ram_map \<lparr>rm_start = img, rm_size = word_of_nat (length img)\<rparr> off n = Ok (Some (drop (unat off) img))"
proof -
  have sz: "unat (word_of_nat (length img) :: u64) = length img" using assms(1) by (simp add: unat_u64_of_nat)
  have "unat (off + n) = unat off + unat n" using assms by (simp add: unat_word_ariths)
  then have "\<not> word_of_nat (length img) < off + n" using assms(2) sz by (simp add: word_less_nat_alt)
  moreover have "\<not> 0xf0000000 < off" using assms by (simp add: word_less_nat_alt)
  ultimately show ?thesis using assms by (simp add: ram_map_def Let_def)
qed

lemma ram_map_end:
  assumes "length img \<le> 0xf0000000" "0 < k" "k \<le> length img" "unat n \<le> k"
  shows "ram_map \<lparr>rm_start = img, rm_size = word_of_nat (length img)\<rparr> (- word_of_nat k) n = Ok (Some (drop (length img - k) img))"
proof -
  have sz: "unat (word_of_nat (length img) :: u64) = length img" using assms(1) by (simp add: unat_u64_of_nat)
  have uk: "unat (word_of_nat k :: u64) = k" using assms(1,3) by (simp add: unat_u64_of_nat)
  have "unat (- word_of_nat k :: u64) = 2 ^ 64 - k"
  proof -
    have "int k < 2 ^ 64" using assms(1,3) by simp
    then have "(- int k) mod 2 ^ 64 = 2 ^ 64 - int k" using assms(2) by (simp add: zmod_zminus1_eq_if)
    moreover have "uint (word_of_nat k :: u64) = int k" using uk by (metis uint_nat)
    ultimately have "uint (- word_of_nat k :: u64) = 2 ^ 64 - int k" by (simp add: uint_word_ariths(4))
    then show ?thesis using \<open>int k < 2 ^ 64\<close> by (simp add: nat_diff_distrib flip: nat_uint_eq)
  qed
  then have "0xf0000000 < (- word_of_nat k :: u64)" using assms(1,3) by (simp add: word_less_nat_alt)
  moreover have off: "(word_of_nat (length img) + - word_of_nat k :: u64) = word_of_nat (length img - k)"
    using assms(3) by (simp add: of_nat_diff)
  moreover have "unat (word_of_nat (length img - k) :: u64) = length img - k" using assms(1) by (simp add: unat_u64_of_nat del: of_nat_diff)
  moreover from this have "unat (word_of_nat (length img - k) + n) = length img - k + unat n"
    using assms by (simp add: unat_word_ariths del: of_nat_diff)
  then have "\<not> word_of_nat (length img) < word_of_nat (length img - k) + n"
    using assms sz by (simp add: word_less_nat_alt del: of_nat_diff)
  ultimately show ?thesis by (simp add: ram_map_def Let_def del: of_nat_diff)
qed

interpretation ram: cbfs_source "ram_source img" img for img
  by unfold_locales (simp_all add: ram_source_def ram_read_def ram_map_in ram_map_end slice_def Let_def)

lemma cbfs_load:
  assumes "cbfs_image x86 img start items" "enough_fuel fuel items" "0 \<notin> set name" "allocates alloc" "unat sz = length img"
  shows "\<exists>m. init_cbfs_ram_media True img sz = Ok m \<and>
    cbfs_load_payload fuel sg x86 sys init scratch alloc (Some m) (name @ 0 # junk) d =
      (map_res snd (named_content scratch alloc img name CBFS_TYPE_PAYLOAD start items), d)"
proof -
  have "cbfs_load_payload fuel sg x86 sys init scratch alloc (Some (ram_source img)) (name @ 0 # junk) d =
      (map_res snd (named_content scratch alloc img name CBFS_TYPE_PAYLOAD start items), d)"
    unfolding cbfs_load_payload_def act_bind_def ram.get_file_content [OF assms(1-4)]
    by (cases "named_content scratch alloc img name CBFS_TYPE_PAYLOAD start items") (auto simp: act_lift_def)
  then show ?thesis using init_ram_source [OF assms(5)] by blast
qed

subsection \<open>Properties\<close>

text \<open>The range in the system information is never used: the media is replaced before it is looked at.\<close>

lemma sysinfo_unused: "cbfs_get_file fuel sg x86 sys init media name d = cbfs_get_file fuel sg x86 sys' init media name d"
proof -
  have r: "get_cbfs_range x86 s init (Some m) = act_bind (cbfs_get_header init (Some m)) (\<lambda>h. act_lift (header_range x86 h))" for s m
    by (simp add: get_cbfs_range_def)
  show ?thesis unfolding cbfs_get_file_def r by (rule refl)
qed

text \<open>
  C8. In a file system in memory, of files, holes and a master header that gives their range,
  \<open>cbfs_get_file_content\<close> returns the first file of the name, when it has the type: a copy of its
  data, the result of the LZMA decoder on it, or NULL for any other algorithm, for empty content,
  and when there is no such file or no memory.
\<close>

theorem cbfs_ram_content:
  assumes "cbfs_image x86 img start items" and "enough_fuel fuel items" and "0 \<notin> set name"
    and "allocates alloc" and "unat sz = length img"
  shows "\<exists>m. init_cbfs_ram_media True img sz = Ok m \<and>
    cbfs_get_file_content fuel sg x86 sys init scratch alloc (Some m) (name @ 0 # junk) type d =
      (named_content scratch alloc img name type start items, d)"
  using init_ram_source [OF assms(5)] ram.get_file_content [OF assms(1-4)] by blast

text \<open>A file with an attribute and data, a hole, an empty file; then the master header.\<close>

definition sample_entry :: cbfs_entry where
  "sample_entry = \<lparr>ce_type = 0x50, ce_name = str ''logo'', ce_pad = [0, 0, 0], ce_attrs = [(0x68736148, [1, 2, 3, 4])],
     ce_data = [0x11, 0x22, 0x33]\<rparr>"

definition empty_entry :: cbfs_entry where
  "empty_entry = \<lparr>ce_type = 0xffffffff, ce_name = [], ce_pad = [], ce_attrs = [], ce_data = []\<rparr>"

definition sample_cbfs :: bytes where
  "sample_cbfs = entry_bytes sample_entry @ replicate 17 0xff @ replicate 64 0xff @ entry_bytes empty_entry @ replicate 39 0xff @
     htobe32 CBFS_HEADER_MAGIC @ htobe32 0x31313131 @ htobe32 192 @ htobe32 0 @ htobe32 64 @ htobe32 0 @ htobe32 1 @ htobe32 0 @
     le_bytes 4 (unat (- 36 :: u32))"

lemma sample_entry_lengths: "length (entry_bytes sample_entry) = 47" "length (entry_bytes empty_entry) = 25"
  by (simp_all add: length_entry data_start_def attrs_start_def sample_entry_def empty_entry_def str_def attrs_bytes_def length_attr)

lemma sample_ok: "entry_ok sample_entry" "entry_ok empty_entry"
  using sample_entry_lengths by (simp_all add: entry_ok_def sample_entry_def empty_entry_def str_def entry_compression_def
    CBFS_FILE_ATTR_TAG_UNUSED_def CBFS_FILE_ATTR_TAG_UNUSED2_def CBFS_FILE_ATTR_TAG_COMPRESSION_def unat_u32_of_nat)

lemma sample_laid_out: "laid_out sample_cbfs 0 [File sample_entry, Hole, File empty_entry] 192"
proof -
  have "slice sample_cbfs 0 47 = Some (entry_bytes sample_entry)"
    by (simp add: sample_cbfs_def slice_def sample_entry_lengths)
  moreover have "slice sample_cbfs 128 25 = Some (entry_bytes empty_entry)"
    by (simp add: sample_cbfs_def slice_def sample_entry_lengths)
  moreover have "take 8 (drop 64 sample_cbfs) = replicate 8 0xff"
    by (simp add: sample_cbfs_def sample_entry_lengths)
  moreover have "replicate 8 0xff \<noteq> CBFS_FILE_MAGIC"
  proof -
    have "hd (replicate 8 0xff) \<noteq> hd CBFS_FILE_MAGIC" by (simp add: CBFS_FILE_MAGIC_def str_def)
    then show ?thesis by metis
  qed
  moreover have "length sample_cbfs = 228" by (simp add: sample_cbfs_def sample_entry_lengths)
  ultimately show ?thesis using sample_ok by (simp add: sample_entry_lengths align_up_def)
qed

lemma sample_image: "cbfs_image False sample_cbfs 0 [File sample_entry, Hole, File empty_entry]"
proof -
  let ?h = "htobe32 CBFS_HEADER_MAGIC @ htobe32 0x31313131 @ htobe32 192 @ htobe32 0 @ htobe32 64 @ htobe32 0 @ htobe32 1 @ htobe32 0 @
     le_bytes 4 (unat (- 36 :: u32))"
  have len: "length sample_cbfs = 228" by (simp add: sample_cbfs_def sample_entry_lengths)
  have "drop 224 sample_cbfs = le_bytes 4 (unat (- 36 :: u32))" by (simp add: sample_cbfs_def sample_entry_lengths)
  then have "le32 (drop (length sample_cbfs - 4) sample_cbfs) = - 36" by (simp add: len le32_def le_val_le_bytes)
  then have pos: "header_pos sample_cbfs = 192" by (simp add: header_pos_def len)
  have h: "drop 192 sample_cbfs = ?h" by (simp add: sample_cbfs_def sample_entry_lengths)
  have f: "be32_at ?h 0 = Ok CBFS_HEADER_MAGIC" "be32_at ?h 8 = Ok 192" "be32_at ?h 20 = Ok 0"
    by (simp_all add: be32_at_def slice_def)
  then have "header_range False ?h = Ok (0, 192)" by (simp add: header_range_def)
  then show ?thesis using pos h f(1) len sample_laid_out by (simp add: cbfs_image_def)
qed

theorem cbfs_ram_content_witness:
  "\<exists>m. init_cbfs_ram_media True sample_cbfs 228 = Ok m \<and>
    cbfs_get_file_content 10 True False \<lparr>cbfs_offset = 0, cbfs_size = 0\<rparr> None [] (\<lambda>n. Some (replicate n 0)) (Some m)
      (str ''logo'' @ [0]) 0x50 \<lparr>is_default_cbfs_media_initialized = True, default_cbfs_media = ram_source []\<rparr> =
      (Ok (Some 3, Some [0x11, 0x22, 0x33]), \<lparr>is_default_cbfs_media_initialized = True, default_cbfs_media = ram_source []\<rparr>)"
proof -
  have "enough_fuel 10 [File sample_entry, Hole, File empty_entry]" by (simp add: enough_fuel_def sample_entry_def empty_entry_def)
  moreover have "0 \<notin> set (str ''logo'')" by (simp add: str_def)
  moreover have "allocates (\<lambda>n. Some (replicate n 0))" by (simp add: allocates_def)
  moreover have "unat (228 :: u64) = length sample_cbfs" by (simp add: sample_cbfs_def sample_entry_lengths)
  moreover have "named_content [] (\<lambda>n. Some (replicate n 0)) sample_cbfs (str ''logo'') 0x50 0 [File sample_entry, Hole, File empty_entry] =
    Ok (Some 3, Some [0x11, 0x22, 0x33])"
    by (simp add: named_content_def stored_content_def sample_entry_def entry_compression_def CBFS_FILE_ATTR_TAG_COMPRESSION_def
      CBFS_COMPRESS_NONE_def)
  ultimately show ?thesis 
    using cbfs_ram_content [OF sample_image, where fuel = 10 and name = "str ''logo''" and alloc = "\<lambda>n. Some (replicate n 0)"
      and sz = 228 and sg = True and junk = "[]" and scratch = "[]" and type = "0x50" and init = None
      and sys = "\<lparr>cbfs_offset = 0, cbfs_size = 0\<rparr>"
      and d = "\<lparr>is_default_cbfs_media_initialized = True, default_cbfs_media = ram_source []\<rparr>"] by simp
qed

text \<open>
  C38. The search need not end: at a header with the length 0 and the offset 0 it stays, whatever
  the name.
\<close>

theorem cbfs_search_hangs:
  assumes "slice img off 24 = Some (CBFS_FILE_MAGIC @ htobe32 0 @ t @ htobe32 0)" and "length t = 8"
    and "off mod 64 = 0" and "off < unat cbfs_end" and "length img \<le> 0xf0000000"
  shows "find_file fuel sg (ram_source img) name (word_of_nat off) cbfs_end = Fault Diverges"
proof (induction fuel)
  case (Suc k)
  have b: "off + 24 \<le> length img" using assms(1) by (simp add: slice_Some_iff)
  define w :: u64 where "w = ucast (word_of_nat off :: u32)"
  have off: "off < 2 ^ 32" using b assms(5) by simp
  have uo: "unat w = off" using off by (simp add: w_def unat_u32_of_nat)
  have rd: "media_read (ram_source img) w (word_of_nat sizeof_file) = Ok (Some (CBFS_FILE_MAGIC @ htobe32 0 @ t @ htobe32 0))"
    using ram.read_in [OF assms(5), of w "word_of_nat sizeof_file"] b uo assms(1) by (simp add: sizeof_file_def slice_Some_iff)
  have mp: "media_map (ram_source img) (w + word_of_nat sizeof_file) (ucast (0 - word_of_nat sizeof_file :: u32)) = Ok None"
  proof -
    have sz: "unat (word_of_nat (length img) :: u64) = length img" using assms(5) by (simp add: unat_u64_of_nat)
    have "unat (w + 24) = off + 24" using uo off by (simp add: unat_word_ariths)
    moreover have "unat (w + 24 + 0xffffffe8) = off + 24 + 0xffffffe8" using uo off by (simp add: unat_word_ariths)
    ultimately have "\<not> 0xf0000000 < w + 24" "word_of_nat (length img) < w + 24 + 0xffffffe8"
      using b assms(5) sz by (simp_all add: word_less_nat_alt)
    then show ?thesis by (simp add: ram_source_def ram_map_def Let_def sizeof_file_def)
  qed
  have f: "be32_at (CBFS_FILE_MAGIC @ htobe32 0 @ t @ htobe32 0) 8 = Ok 0" "be32_at (CBFS_FILE_MAGIC @ htobe32 0 @ t @ htobe32 0) 20 = Ok 0"
    using assms(2) by (simp_all add: be32_at_def slice_def)
  have al: "align_up off 64 = off" using assms(3) by (auto simp: align_up_def mod_0_imp_dvd elim!: dvdE)
  have "off + 64 < 2 ^ 32" using b assms(5) by simp
  then have nx: "next_aligned (word_of_nat off) = word_of_nat off" using next_aligned_up al by simp
  have "(word_of_nat off :: u32) < cbfs_end" using assms(4) off by (simp add: word_less_nat_alt unat_u32_of_nat)
  then show ?case using rd mp f nx Suc.IH by (simp add: Let_def flip: w_def)
qed simp

lemma htobe32_0: "htobe32 0 = replicate 4 0"
proof -
  have "le_bytes n 0 = replicate n 0" for n by (induction n) simp_all
  then show ?thesis by (simp add: htobe32_def be_bytes_def)
qed

theorem cbfs_search_hangs_witness:
  "find_file 1000 True (ram_source (CBFS_FILE_MAGIC @ replicate 120 0)) (str ''logo'') (word_of_nat 0) 128 = Fault Diverges"
proof (rule cbfs_search_hangs [where t = "replicate 8 0"])
  show "slice (CBFS_FILE_MAGIC @ replicate 120 0) 0 24 = Some (CBFS_FILE_MAGIC @ htobe32 0 @ replicate 8 0 @ htobe32 0)"
    by (simp add: slice_def htobe32_0 flip: replicate_add)
qed simp_all

end
