(* ===== verification/LzmaSafe.thy ===== *)
theory LzmaSafe
  imports Lzma
begin

text \<open>
  Memory safety of the LZMA decoder for any input.  The locale \<open>bit_source\<close> states what the decoder
  needs of the range decoder: a bit in the context of a probability of the table is either
  produced, keeping the invariant, or refused.  Everything the decoder does over such a source
  stays inside the table and the output; the range decoder is the interpretation.
\<close>

lemma tree_index: "probs + (m + 1) * k \<le> n \<Longrightarrow> 0 < k \<Longrightarrow> probs + m < (n :: nat)"
  by (cases k) auto

locale bit_source =
  fixes bitf :: "'s bit_fun"
    and directf :: "'s direct_fun"
    and inv :: "'s \<Rightarrow> bool"
    and nprobs :: nat
  assumes bit_safe: "inv s \<Longrightarrow> i < nprobs \<Longrightarrow> bitf i s = Err \<or> (\<exists>b s'. bitf i s = Ok (b, s') \<and> inv s')"
    and direct_safe: "inv s \<Longrightarrow> directf s = Err \<or> (\<exists>b s'. directf s = Ok (b, s') \<and> inv s')"
begin

text \<open>A result that is refused, or keeps the invariant and satisfies \<open>P\<close>.\<close>

definition safe :: "('a \<times> 's) res \<Rightarrow> ('a \<Rightarrow> bool) \<Rightarrow> bool" where
  "safe r P \<longleftrightarrow> r = Err \<or> (\<exists>x s. r = Ok (x, s) \<and> inv s \<and> P x)"

lemma safe_Ok: "inv s \<Longrightarrow> P x \<Longrightarrow> safe (Ok (x, s)) P"
  by (simp add: safe_def)

lemma safe_Err: "safe Err P"
  by (simp add: safe_def)

lemma safe_andthen: "safe r P \<Longrightarrow> (\<And>x s. inv s \<Longrightarrow> P x \<Longrightarrow> safe (f (x, s)) Q) \<Longrightarrow> safe (andthen r f) Q"
proof (cases "r = Err")
  case False
  assume "safe r P" and f: "\<And>x s. inv s \<Longrightarrow> P x \<Longrightarrow> safe (f (x, s)) Q"
  then obtain x s where "r = Ok (x, s)" "inv s" "P x" using False by (auto simp: safe_def)
  then show ?thesis using f [of s x] by simp
qed (simp add: safe_def)

lemma safe_map: "safe r P \<Longrightarrow> (\<And>x s. inv s \<Longrightarrow> P x \<Longrightarrow> safe (Ok (f (x, s))) Q) \<Longrightarrow> safe (map_res f r) Q"
  by (fastforce simp: safe_def)

lemma safe_bit: "inv s \<Longrightarrow> i < nprobs \<Longrightarrow> safe (bitf i s) (\<lambda>b. True)"
  using bit_safe by (auto simp: safe_def)

lemma safe_direct: "inv s \<Longrightarrow> safe (directf s) (\<lambda>b. True)"
  using direct_safe by (auto simp: safe_def)

lemma safe_tree_loop:
  "inv s \<Longrightarrow> probs + (m + 1) * 2 ^ n \<le> nprobs \<Longrightarrow>
     safe (tree_loop bitf probs n m s) (\<lambda>m'. m * 2 ^ n \<le> m' \<and> m' < (m + 1) * 2 ^ n)"
proof (induction n arbitrary: m s)
  case 0
  then show ?case by (auto intro: safe_Ok)
next
  case (Suc n)
  have "probs + m < nprobs" by (rule tree_index [OF Suc.prems(2)]) simp
  moreover have "safe (tree_loop bitf probs n (shift_in m b) s) (\<lambda>m'. m * 2 ^ Suc n \<le> m' \<and> m' < (m + 1) * 2 ^ Suc n)"
    if "inv s" for b s
  proof -
    have ub: "(shift_in m b + 1) * 2 ^ n \<le> (2 * m + 2) * 2 ^ n" by (rule mult_le_mono1) (simp add: shift_in_def)
    have lb: "(2 * m) * 2 ^ n \<le> shift_in m b * 2 ^ n" by (rule mult_le_mono1) (simp add: shift_in_def)
    have eq: "(2 * m + 2) * 2 ^ n = (m + 1) * 2 ^ Suc n" "(2 * m) * 2 ^ n = m * 2 ^ Suc n" by (simp_all add: algebra_simps)
    have "safe (tree_loop bitf probs n (shift_in m b) s) (\<lambda>m'. shift_in m b * 2 ^ n \<le> m' \<and> m' < (shift_in m b + 1) * 2 ^ n)"
      by (rule Suc.IH [OF that]) (use ub eq(1) Suc.prems(2) in linarith)
    then show ?thesis using ub lb unfolding safe_def eq by (metis le_trans less_le_trans)
  qed
  ultimately show ?case
    unfolding tree_loop.simps by (intro safe_andthen [OF safe_bit [OF Suc.prems(1)]]) auto
qed

lemma safe_tree:
  assumes "inv s" "probs + 2 * 2 ^ n \<le> nprobs"
  shows "safe (bit_tree_decode bitf probs n s) (\<lambda>v. v < 2 ^ n)"
  unfolding bit_tree_decode_def
  by (rule safe_map [OF safe_tree_loop [OF assms(1), of probs 1 n]]) (use assms(2) in \<open>auto intro!: safe_Ok\<close>)

lemma safe_reverse:
  "inv s \<Longrightarrow> probs + (mi + 1) * 2 ^ n \<le> nprobs \<Longrightarrow> safe (reverse_loop bitf probs n i mi rep0 s) (\<lambda>r. True)"
proof (induction n arbitrary: i mi rep0 s)
  case 0
  then show ?case by (auto intro: safe_Ok)
next
  case (Suc n)
  have ix: "probs + mi < nprobs" by (rule tree_index [OF Suc.prems(2)]) simp
  have "(shift_in mi b + 1) * 2 ^ n \<le> (mi + 1) * 2 ^ Suc n" for b
    using mult_le_mono1 [of "shift_in mi b + 1" "2 * mi + 2" "2 ^ n"] by (simp add: shift_in_def algebra_simps)
  then have "probs + (shift_in mi b + 1) * 2 ^ n \<le> nprobs" for b using Suc.prems(2) by (meson add_le_cancel_left le_trans)
  with ix show ?case
    unfolding reverse_loop.simps by (intro safe_andthen [OF safe_bit [OF Suc.prems(1)]]) (auto intro: Suc.IH)
qed

lemma safe_direct_loop: "inv s \<Longrightarrow> safe (direct_loop directf n rep0 s) (\<lambda>r. True)"
proof (induction n arbitrary: rep0 s)
  case 0
  then show ?case by (auto intro: safe_Ok)
next
  case (Suc n)
  then show ?case
    unfolding direct_loop.simps by (intro safe_andthen [OF safe_direct]) (auto intro: Suc.IH)
qed

lemma safe_lit_plain:
  "inv s \<Longrightarrow> prob + 0x100 \<le> nprobs \<Longrightarrow> 0 < symbol \<Longrightarrow> safe (lit_plain bitf prob symbol s) (\<lambda>v. True)"
proof (induction "0x100 - symbol" arbitrary: symbol s rule: less_induct)
  case less
  show ?case
  proof (cases "symbol < 0x100")
    case True
    have "safe (lit_plain bitf prob (shift_in symbol b) s) (\<lambda>v. True)" if "inv s" for b s
      by (rule less.hyps) (use True less.prems that in \<open>auto simp: shift_in_def\<close>)
    then show ?thesis
      using True less.prems
      by (subst lit_plain.simps) (auto intro!: safe_andthen [OF safe_bit])
  next
    case False
    then show ?thesis using less.prems by (subst lit_plain.simps) (auto intro: safe_Ok)
  qed
qed

lemma safe_lit_matched:
  "inv s \<Longrightarrow> prob + 0x300 \<le> nprobs \<Longrightarrow> 0 < symbol \<Longrightarrow> symbol < 0x100 \<Longrightarrow>
     safe (lit_matched bitf prob mbyte symbol s) (\<lambda>v. 0 < v)"
proof (induction "0x100 - symbol" arbitrary: symbol mbyte s rule: less_induct)
  case less
  let ?m = "if odd (2 * mbyte div 0x100) then 0x100 else 0 :: nat"
  have ix: "prob + 0x100 + ?m + symbol < nprobs" using less.prems by simp
  have rec: "safe (lit_matched bitf prob (2 * mbyte) (shift_in symbol b) s) (\<lambda>v. 0 < v)"
    if "inv s" "shift_in symbol b < 0x100" for b s
    by (rule less.hyps) (use less.prems that in \<open>auto simp: shift_in_def\<close>)
  have pos: "0 < shift_in symbol b" for b using less.prems by (simp add: shift_in_def)
  have "symbol \<noteq> 0" using less.prems(3) by simp
  note unfolds = lit_matched.simps [of bitf prob mbyte symbol s] Let_def if_not_P [OF this]
  show ?case
    unfolding unfolds
    by (rule safe_andthen [OF safe_bit [OF less.prems(1) ix]]) (use rec pos in \<open>auto intro: safe_Ok\<close>)
qed

end

subsection \<open>The invariant of the decoder\<close>

text \<open>
  \<open>n\<close> is the size of the output, and \<open>out0\<close> what its memory held before: beyond the position it
  has not changed.
\<close>

definition lz_bounds :: "nat \<Rightarrow> bytes \<Rightarrow> lzma_vars \<Rightarrow> bool" where
  "lz_bounds n out0 lz \<longleftrightarrow>
     lz_pos lz \<le> n \<and> n \<le> length out0 \<and> length (lz_out lz) = length out0 \<and>
     drop (lz_pos lz) (lz_out lz) = drop (lz_pos lz) out0"

definition lz_mid :: "nat \<Rightarrow> bytes \<Rightarrow> lzma_vars \<Rightarrow> bool" where
  "lz_mid n out0 lz \<longleftrightarrow> lz_bounds n out0 lz \<and>
     lz_state lz < 12 \<and> lz_rep0 lz \<noteq> 0 \<and> lz_rep1 lz \<noteq> 0 \<and> lz_rep2 lz \<noteq> 0 \<and> lz_rep3 lz \<noteq> 0"

text \<open>Between packets the last distance stays within the output.\<close>

definition lz_ok :: "nat \<Rightarrow> bytes \<Rightarrow> lzma_vars \<Rightarrow> bool" where
  "lz_ok n out0 lz \<longleftrightarrow> lz_mid n out0 lz \<and>
     (unat (lz_rep0 lz) \<le> lz_pos lz \<or> lz_pos lz = 0 \<and> lz_rep0 lz = 1 \<and> lz_state lz < 7)"

definition props_ok :: "lzma_props \<Rightarrow> nat \<Rightarrow> bool" where
  "props_ok props nprobs \<longleftrightarrow> lp_lc props \<le> 8 \<and> lp_lp props \<le> 4 \<and> lp_pb props \<le> 4 \<and>
     LiteralProbs + LZMA_LIT_SIZE * 2 ^ (lp_lc props + lp_lp props) \<le> nprobs"

lemma history_ok:
  assumes "lz_mid n out0 lz" "unat (lz_rep0 lz) \<le> lz_pos lz"
  shows "\<exists>b. history_byte lz = Ok b"
proof -
  have "0 < unat (lz_rep0 lz)" using assms(1) by (simp add: lz_mid_def lz_bounds_def unat_gt_0)
  then have "lz_pos lz - unat (lz_rep0 lz) < length (lz_out lz)" using assms by (auto simp: lz_mid_def lz_bounds_def)
  then show ?thesis using assms(2) by (simp add: history_byte_def rd_def)
qed

lemma out_byte_ok:
  assumes "lz_mid n out0 lz" "lz_pos lz < n" "unat (lz_rep0 lz) \<le> Suc (lz_pos lz)"
  obtains lz' where "out_byte b lz = Ok lz'" "lz_ok n out0 lz'" "lz_pos lz' = Suc (lz_pos lz)" "lz_rep0 lz' = lz_rep0 lz"
    "lz_state lz' = lz_state lz"
proof
  have "drop (Suc (lz_pos lz)) (lz_out lz) = drop (Suc (lz_pos lz)) out0"
    using assms(1) by (simp add: lz_mid_def lz_bounds_def drop_Suc flip: tl_drop)
  then show "lz_ok n out0 (lz\<lparr>lz_prev := b, lz_out := (lz_out lz)[lz_pos lz := b], lz_pos := lz_pos lz + 1\<rparr>)"
    using assms by (simp add: lz_ok_def lz_mid_def lz_bounds_def)
qed (use assms in \<open>auto simp: out_byte_def lz_mid_def lz_bounds_def\<close>)

lemma lz_ok_mid: "lz_ok n out0 lz \<Longrightarrow> lz_mid n out0 lz"
  by (simp add: lz_ok_def)

lemma lz_ok_rep0: "lz_ok n out0 lz \<Longrightarrow> unat (lz_rep0 lz) \<le> Suc (lz_pos lz)"
  by (auto simp: lz_ok_def)

lemma lz_ok_state: "lz_ok n out0 lz \<Longrightarrow> 0 < lz_pos lz \<Longrightarrow> st < 12 \<Longrightarrow> lz_ok n out0 (lz\<lparr>lz_state := st\<rparr>)"
  by (auto simp: lz_ok_def lz_mid_def lz_bounds_def)

lemma literal_probs_bound:
  assumes "props_ok props nprobs"
  shows "literal_probs props lz + 0x300 \<le> nprobs"
proof -
  let ?lc = "lp_lc props" and ?lp = "lp_lp props"
  have lc: "?lc \<le> 8" using assms by (simp add: props_ok_def)
  have "unat (lz_prev lz) < 2 ^ ?lc * 2 ^ (8 - ?lc)"
    using unat_u8_less [of "lz_prev lz"] lc by (simp add: power_add [symmetric])
  then have "unat (lz_prev lz) div 2 ^ (8 - ?lc) < 2 ^ ?lc" by (simp add: less_mult_imp_div_less)
  moreover have "(lz_pos lz mod 2 ^ ?lp + 1) * 2 ^ ?lc \<le> 2 ^ ?lp * 2 ^ ?lc"
    by (rule mult_le_mono1) (simp add: Suc_le_eq)
  ultimately have "lz_pos lz mod 2 ^ ?lp * 2 ^ ?lc + unat (lz_prev lz) div 2 ^ (8 - ?lc) + 1 \<le> 2 ^ (?lc + ?lp)"
    by (simp add: power_add algebra_simps)
  then have "LZMA_LIT_SIZE * (lz_pos lz mod 2 ^ ?lp * 2 ^ ?lc + unat (lz_prev lz) div 2 ^ (8 - ?lc) + 1)
      \<le> LZMA_LIT_SIZE * 2 ^ (?lc + ?lp)" by (rule mult_le_mono2)
  then show ?thesis using assms by (simp add: literal_probs_def props_ok_def LZMA_LIT_SIZE_def)
qed

lemma copy_match_ok:
  assumes "lz_mid n out0 lz" "unat (lz_rep0 lz) \<le> lz_pos lz" "lz_pos lz < n"
  shows "\<exists>lz'. copy_match n (Suc len) lz = Ok lz' \<and> lz_ok n out0 lz'"
  using assms
proof (induction len arbitrary: lz)
  case 0
  obtain b where "history_byte lz = Ok b" using history_ok [OF 0(1,2)] by blast
  moreover obtain lz' where "out_byte b lz = Ok lz'" "lz_ok n out0 lz'"
    using out_byte_ok [OF 0(1,3), of b] 0(2) by auto
  ultimately show ?case by simp
next
  case (Suc len)
  obtain b where b: "history_byte lz = Ok b" using history_ok [OF Suc.prems(1,2)] by blast
  obtain lz1 where lz1: "out_byte b lz = Ok lz1" "lz_ok n out0 lz1" "lz_pos lz1 = Suc (lz_pos lz)" "lz_rep0 lz1 = lz_rep0 lz"
    using out_byte_ok [OF Suc.prems(1,3), of b] Suc.prems(2) by auto
  show ?case
  proof (cases "lz_pos lz1 < n")
    case True
    have "\<exists>lz'. copy_match n (Suc len) lz1 = Ok lz' \<and> lz_ok n out0 lz'"
      by (rule Suc.IH [OF lz_ok_mid [OF lz1(2)] _ True]) (use lz1(3,4) Suc.prems(2) in simp)
    then show ?thesis unfolding copy_match.simps(2) [of n "Suc len"] using b lz1(1) True by (simp del: copy_match.simps)
  next
    case False
    then show ?thesis unfolding copy_match.simps(2) [of n "Suc len"] using b lz1(1,2) by (simp del: copy_match.simps)
  qed
qed

subsection \<open>Packets\<close>

context bit_source
begin

lemma safe_decode_literal:
  assumes "inv s" "props_ok props nprobs" "lz_ok n out0 lz" "lz_pos lz < n"
  shows "safe (decode_literal bitf props lz s) (lz_ok n out0)"
proof -
  let ?prob = "literal_probs props lz"
  have ix: "?prob + 0x300 \<le> nprobs" by (rule literal_probs_bound [OF assms(2)])
  have hist: "\<exists>b. history_byte lz = Ok b" if "7 \<le> lz_state lz"
    by (rule history_ok [OF lz_ok_mid [OF assms(3)]]) (use assms(3) that in \<open>auto simp: lz_ok_def\<close>)
  have sym: "safe (if kNumLitStates \<le> lz_state lz
      then andthen (history_byte lz) (\<lambda>mb. lit_matched bitf ?prob (unat mb) 1 s) else Ok (1, s)) (\<lambda>v. 0 < v)"
    using hist safe_lit_matched [OF assms(1) ix] assms(1) by (auto simp: kNumLitStates_def intro!: safe_Ok)
  have st: "lz_state lz < 12" using assms(3) by (simp add: lz_ok_def lz_mid_def lz_bounds_def)
  have out: "safe (andthen (out_byte b lz) (\<lambda>lz. let state = lz_state lz in
      Ok (lz\<lparr>lz_state := if state < 4 then 0 else if state < 10 then state - 3 else state - 6\<rparr>, s))) (lz_ok n out0)"
    if "inv s" for b s
  proof -
    obtain lz' where "out_byte b lz = Ok lz'" "lz_ok n out0 lz'" "lz_pos lz' = Suc (lz_pos lz)" "lz_state lz' = lz_state lz"
      using out_byte_ok [OF lz_ok_mid [OF assms(3)] assms(4) lz_ok_rep0 [OF assms(3)], of b] by metis
    then show ?thesis using that st by (auto simp: Let_def intro!: safe_Ok lz_ok_state)
  qed
  have pl: "safe (andthen (lit_plain bitf ?prob v s) (\<lambda>(symbol, s). andthen (out_byte (word_of_nat symbol) lz) (\<lambda>lz. let state = lz_state lz in
      Ok (lz\<lparr>lz_state := if state < 4 then 0 else if state < 10 then state - 3 else state - 6\<rparr>, s)))) (lz_ok n out0)"
    if "inv s" "0 < v" for v s
    by (rule safe_andthen [OF safe_lit_plain]) (use that ix out in auto)
  show ?thesis unfolding decode_literal_def Let_def [of "literal_probs props lz"]
    by (rule safe_andthen [OF sym]) (use pl in auto)
qed

lemma safe_decode_len:
  assumes "inv s" "prob + 514 + 256 \<le> nprobs" "pos_state < 16"
  shows "safe (decode_len bitf prob pos_state s) (\<lambda>len. True)"
proof -
  have t: "safe (bit_tree_decode bitf q m s) (\<lambda>v. True)" if "inv s" "q + 2 * 2 ^ m \<le> nprobs" for q m s
    using safe_tree [OF that] unfolding safe_def by auto
  have mp: "safe (map_res (\<lambda>(len, s). (len + k, s)) r) (\<lambda>v. True)" if "safe r (\<lambda>v. True)" for k :: nat and r
    by (rule safe_map [OF that]) (auto intro: safe_Ok)
  have low: "safe (bit_tree_decode bitf (prob + LenLow + pos_state * 2 ^ kLenNumLowBits) kLenNumLowBits s) (\<lambda>v. True)"
    if "inv s" for s
    by (rule t [OF that]) (use assms(2,3) in \<open>simp add: lzma_consts\<close>)
  have mid: "safe (bit_tree_decode bitf (prob + LenMid + pos_state * 2 ^ kLenNumMidBits) kLenNumMidBits s) (\<lambda>v. True)"
    if "inv s" for s
    by (rule t [OF that]) (use assms(2,3) in \<open>simp add: lzma_consts\<close>)
  have high: "safe (bit_tree_decode bitf (prob + LenHigh) kLenNumHighBits s) (\<lambda>v. True)" if "inv s" for s
    by (rule t [OF that]) (use assms(2) in \<open>simp add: lzma_consts\<close>)
  have ix: "prob + LenChoice < nprobs" "prob + LenChoice2 < nprobs" using assms(2) by (simp_all add: lzma_consts)
  show ?thesis
    unfolding decode_len_def
    by (rule safe_andthen [OF safe_bit [OF assms(1) ix(1)]])
      (auto intro!: low mp mid high safe_andthen [OF safe_bit [OF _ ix(2)]])
qed

lemma safe_decode_distance:
  assumes "inv s" "2048 \<le> nprobs"
  shows "safe (decode_distance bitf directf len s) (\<lambda>d. True)"
proof -
  have slot: "safe (bit_tree_decode bitf
       (PosSlot + (if len < kNumLenToPosStates then len else kNumLenToPosStates - 1) * 2 ^ kNumPosSlotBits) kNumPosSlotBits s) (\<lambda>v. v < 2 ^ kNumPosSlotBits)"
    by (rule safe_tree [OF assms(1)]) (use assms(2) in \<open>auto simp: lzma_consts\<close>)
  have spc: "safe (reverse_loop bitf (SpecPos + unat (push_bit n (2 OR word_of_nat (v mod 2)) :: u32) - v - 1) n 1 1 r s) (\<lambda>d. True)"
    if "inv s" "4 \<le> v" "v < 14" "n = v div 2 - 1" for v n r s
  proof (rule safe_reverse [OF that(1)])
    have "v \<in> set [4..<14]" unfolding set_upt using that(2,3) by simp
    moreover have "list_all (\<lambda>v. SpecPos + unat (push_bit (v div 2 - 1) (2 OR word_of_nat (v mod 2)) :: u32) - v - 1
        + (1 + 1) * 2 ^ (v div 2 - 1) \<le> 2048) [4..<14]"
      by (simp add: upt_rec lzma_consts)
    ultimately show "SpecPos + unat (push_bit n (2 OR word_of_nat (v mod 2)) :: u32) - v - 1 + (1 + 1) * 2 ^ n \<le> nprobs"
      using assms(2) that(4) by (auto simp: list_all_iff)
  qed
  have align: "safe (reverse_loop bitf Align kNumAlignBits 1 1 r s) (\<lambda>d. True)" if "inv s" for r s
    by (rule safe_reverse [OF that]) (use assms(2) in \<open>simp add: lzma_consts\<close>)
  show ?thesis
    unfolding decode_distance_def
  proof (rule safe_andthen [OF slot], goal_cases)
    case (1 v s)
    consider (small) "v < 4" | (spec) "4 \<le> v" "v < 14" | (direct) "4 \<le> v" "\<not> v < 14" by linarith
    then show ?case
    proof cases
      case small
      then show ?thesis using 1(1) by (simp add: kStartPosModelIndex_def safe_Ok)
    next
      case spec
      then show ?thesis
        using spc [OF 1(1) spec refl] by (simp only: prod.case kStartPosModelIndex_def kEndPosModelIndex_def Let_def if_True)
    next
      case direct
      have "safe (andthen (direct_loop directf n r s) (\<lambda>(rep0, s).
          reverse_loop bitf Align kNumAlignBits 1 1 (push_bit kNumAlignBits rep0) s)) (\<lambda>d. True)" for n r
        by (rule safe_andthen [OF safe_direct_loop [OF 1(1)]]) (use align in auto)
      then show ?thesis using direct by (simp only: prod.case kStartPosModelIndex_def kEndPosModelIndex_def Let_def if_True if_False)
    qed
  qed
qed

text \<open>A packet: with the marker only the bounds of the output are kept.\<close>

definition packet_ok :: "nat \<Rightarrow> bytes \<Rightarrow> (bool \<times> lzma_vars \<times> 's) res \<Rightarrow> bool" where
  "packet_ok n out0 r \<longleftrightarrow>
     r = Err \<or> (\<exists>marker lz s. r = Ok (marker, lz, s) \<and> inv s \<and> lz_bounds n out0 lz \<and> (\<not> marker \<longrightarrow> lz_ok n out0 lz))"

lemma packet_andthen: "safe r P \<Longrightarrow> (\<And>x s. inv s \<Longrightarrow> P x \<Longrightarrow> packet_ok n out0 (f (x, s))) \<Longrightarrow> packet_ok n out0 (andthen r f)"
proof (cases "r = Err")
  case False
  assume "safe r P" and f: "\<And>x s. inv s \<Longrightarrow> P x \<Longrightarrow> packet_ok n out0 (f (x, s))"
  then obtain x s where "r = Ok (x, s)" "inv s" "P x" using False by (auto simp: safe_def)
  then show ?thesis using f [of s x] by simp
qed (simp add: packet_ok_def)

lemma packet_Ok: "inv s \<Longrightarrow> lz_ok n out0 lz \<Longrightarrow> packet_ok n out0 (Ok (False, lz, s))"
  unfolding packet_ok_def lz_ok_def lz_mid_def by blast

lemma packet_marker: "inv s \<Longrightarrow> lz_bounds n out0 lz \<Longrightarrow> packet_ok n out0 (Ok (True, lz, s))"
  unfolding packet_ok_def by blast

lemma packet_bit:
  assumes "inv s" "i < nprobs" "\<And>s. inv s \<Longrightarrow> packet_ok n out0 (f (False, s))" "\<And>s. inv s \<Longrightarrow> packet_ok n out0 (f (True, s))"
  shows "packet_ok n out0 (andthen (bitf i s) f)"
proof (rule packet_andthen [OF safe_bit [OF assms(1,2)]])
  show "packet_ok n out0 (f (b, s))" if "inv s" for b s using assms(3,4) [OF that] by (cases b) auto
qed

lemma packet_Err: "packet_ok n out0 Err"
  by (simp add: packet_ok_def)

text \<open>From the length on: the distances need not be within the output yet.\<close>

lemma packet_finish:
  assumes "inv s" "prob + 770 \<le> nprobs" "2048 \<le> nprobs" "pos_state < 16"
    and "lz_mid n out0 lz" "lz_pos lz < n" "lz_state lz < 4 \<or> 7 \<le> lz_state lz"
  shows "packet_ok n out0 (finish_match bitf directf n prob pos_state lz s)"
proof -
  have fin: "packet_ok n out0 (if lz_pos lz < unat (lz_rep0 lz) then Err
      else map_res (\<lambda>lz. (False, lz, s)) (copy_match n (len + kMatchMinLen) lz))"
    if st: "inv s" "lz_mid n out0 lz" "lz_pos lz < n" for lz s len
  proof (cases "lz_pos lz < unat (lz_rep0 lz)")
    case False
    then obtain lz' where "copy_match n (Suc (Suc len)) lz = Ok lz'" "lz_ok n out0 lz'"
      using copy_match_ok [OF st(2) _ st(3), of "Suc len"] by auto
    then show ?thesis using False st(1) packet_Ok by (simp add: kMatchMinLen_def del: copy_match.simps)
  qed (simp add: packet_Err)
  have len: "safe (decode_len bitf prob pos_state s) (\<lambda>len. True)"
    by (rule safe_decode_len) (use assms in auto)
  show ?thesis
    unfolding finish_match_def
  proof (rule packet_andthen [OF len], goal_cases)
    case (1 len s)
    show ?case
    proof (cases "lz_state lz < 4")
      case True
      show ?thesis
        unfolding prod.case if_P [OF True] andthen_assoc
      proof (rule packet_andthen [OF safe_decode_distance [OF 1(1) assms(3)]], goal_cases)
        case (1 d s)
        let ?lz = "lz\<lparr>lz_state := lz_state lz + kNumLitStates, lz_rep0 := d + 1\<rparr>"
        show ?case
        proof (cases "d + 1 = 0")
          case marker: True
          have "lz_bounds n out0 ?lz" using assms(5) by (simp add: lz_mid_def lz_bounds_def)
          then show ?thesis using marker 1(1) packet_marker by simp
        next
          case False
          have "lz_mid n out0 ?lz" using assms(5) True False by (simp add: lz_mid_def lz_bounds_def kNumLitStates_def)
          then show ?thesis using fin [OF 1(1), of ?lz len] assms(6) False by simp
        qed
      qed
    next
      case False
      then show ?thesis using fin [OF 1(1) assms(5,6)] by simp
    qed
  qed
qed

lemma packet_rep:
  assumes "inv s" "2102 \<le> nprobs" "pos_state < 16" "lz_ok n out0 lz" "lz_pos lz < n"
  shows "packet_ok n out0 (decode_rep bitf directf n pos_state lz s)"
proof -
  have st: "lz_state lz < 12" and mid: "lz_mid n out0 lz" using assms(4) by (simp_all add: lz_ok_def lz_mid_def)
  have fin: "packet_ok n out0 (finish_match bitf directf n RepLenCoder pos_state
        (lz'\<lparr>lz_state := if lz_state lz < kNumLitStates then 8 else 11\<rparr>) s)"
    if "inv s" "lz_mid n out0 lz'" "lz_pos lz' = lz_pos lz" for lz' s
    by (rule packet_finish [OF that(1)]) (use assms that in \<open>auto simp: lz_mid_def lz_bounds_def lzma_consts\<close>)
  have swap: "lz_mid n out0 (lz\<lparr>lz_rep0 := lz_rep1 lz, lz_rep1 := lz_rep0 lz\<rparr>)"
    "lz_mid n out0 (lz\<lparr>lz_rep0 := lz_rep2 lz, lz_rep2 := lz_rep1 lz, lz_rep1 := lz_rep0 lz\<rparr>)"
    "lz_mid n out0 (lz\<lparr>lz_rep0 := lz_rep3 lz, lz_rep3 := lz_rep2 lz, lz_rep2 := lz_rep1 lz, lz_rep1 := lz_rep0 lz\<rparr>)"
    using mid by (simp_all add: lz_mid_def lz_bounds_def)
  have short: "packet_ok n out0 (if lz_pos lz = 0 then Err
      else andthen (history_byte lz) (\<lambda>byte.
        map_res (\<lambda>lz. (False, lz, s)) (out_byte byte (lz\<lparr>lz_state := if lz_state lz < kNumLitStates then 9 else 11\<rparr>))))"
    if "inv s" for s
  proof (cases "lz_pos lz = 0")
    case False
    let ?lz = "lz\<lparr>lz_state := if lz_state lz < kNumLitStates then 9 else 11\<rparr>"
    have rep: "unat (lz_rep0 lz) \<le> lz_pos lz" using assms(4) False by (auto simp: lz_ok_def)
    obtain b where b: "history_byte lz = Ok b" using history_ok [OF mid rep] by blast
    have "lz_mid n out0 ?lz" using mid by (simp add: lz_mid_def lz_bounds_def)
    then obtain lz' where "out_byte b ?lz = Ok lz'" "lz_ok n out0 lz'"
      by (rule out_byte_ok [where b = b]) (use rep assms(5) in auto)
    then show ?thesis using b that False packet_Ok by simp
  qed (simp add: packet_Err)
  have ix: "IsRepG0 + lz_state lz < nprobs" "IsRepG1 + lz_state lz < nprobs" "IsRepG2 + lz_state lz < nprobs"
    "IsRep0Long + lz_state lz * 2 ^ kNumPosBitsMax + pos_state < nprobs"
    using st assms(2,3) by (simp_all add: lzma_consts)
  note bit = packet_bit [OF _ ix(1)] packet_bit [OF _ ix(2)] packet_bit [OF _ ix(3)] packet_bit [OF _ ix(4)]
  show ?thesis
    unfolding decode_rep_def Let_def
    by (rule bit(1) [OF assms(1)])
      (simp_all only: prod.case if_True if_False not_True_eq_False not_False_eq_True,
       (rule bit fin short swap mid refl | assumption | simp; fail
        | simp only: prod.case if_True if_False not_True_eq_False not_False_eq_True)+)
qed

lemma packet_safe:
  assumes "inv s" "props_ok props nprobs" "lz_ok n out0 lz" "lz_pos lz < n"
  shows "packet_ok n out0 (decode_packet bitf directf props n lz s)"
proof -
  have probs: "2614 \<le> nprobs"
  proof -
    have "768 * 1 \<le> 768 * (2 :: nat) ^ (lp_lc props + lp_lp props)" by (rule mult_le_mono2) simp
    moreover have "1846 + 768 * 2 ^ (lp_lc props + lp_lp props) \<le> nprobs" using assms(2) by (simp add: props_ok_def lzma_consts)
    ultimately show ?thesis by linarith
  qed
  have mid: "lz_mid n out0 lz" by (rule lz_ok_mid [OF assms(3)])
  have st: "lz_state lz < 12" using mid by (simp add: lz_mid_def lz_bounds_def)
  have "(2 :: nat) ^ lp_pb props \<le> 2 ^ 4" by (rule power_increasing) (use assms(2) in \<open>simp_all add: props_ok_def\<close>)
  then have ps: "lz_pos lz mod 2 ^ lp_pb props < 16"
  proof -
    have "lz_pos lz mod 2 ^ lp_pb props < 2 ^ lp_pb props" by (rule mod_less_divisor) simp
    also have "\<dots> \<le> 16" using \<open>2 ^ lp_pb props \<le> 2 ^ 4\<close> by simp
    finally show ?thesis .
  qed
  have ix: "IsMatch + lz_state lz * 2 ^ kNumPosBitsMax + lz_pos lz mod 2 ^ lp_pb props < nprobs" "IsRep + lz_state lz < nprobs"
    using st probs ps by (simp_all add: lzma_consts)
  have lit: "packet_ok n out0 (map_res (\<lambda>(lz, s). (False, lz, s)) (decode_literal bitf props lz s))" if "inv s" for s
    using safe_decode_literal [OF that assms(2-4)] packet_Ok by (auto simp: safe_def packet_Err)
  have new: "packet_ok n out0 (finish_match bitf directf n LenCoder (lz_pos lz mod 2 ^ lp_pb props)
      (lz\<lparr>lz_rep3 := lz_rep2 lz, lz_rep2 := lz_rep1 lz, lz_rep1 := lz_rep0 lz,
          lz_state := if lz_state lz < kNumLitStates then 0 else 3\<rparr>) s)" if "inv s" for s
    by (rule packet_finish [OF that]) (use probs ps mid assms(4) in \<open>auto simp: lzma_consts lz_mid_def lz_bounds_def\<close>)
  have rep: "packet_ok n out0 (decode_rep bitf directf n (lz_pos lz mod 2 ^ lp_pb props) lz s)" if "inv s" for s
    by (rule packet_rep [OF that _ ps assms(3,4)]) (use probs in simp)
  show ?thesis
    unfolding decode_packet_def Let_def
    by (rule packet_bit [OF assms(1) ix(1)])
      (simp_all only: prod.case if_True if_False not_True_eq_False not_False_eq_True,
       (rule packet_bit [OF _ ix(2)] lit new rep | assumption | simp only: prod.case if_True if_False not_True_eq_False not_False_eq_True)+)
qed

lemma loop_safe:
  "inv s \<Longrightarrow> props_ok props nprobs \<Longrightarrow> lz_ok n out0 lz \<Longrightarrow>
     safe (packet_loop bitf directf props n lz s) (lz_bounds n out0)"
proof (induction "n - lz_pos lz" arbitrary: lz s rule: less_induct)
  case less
  show ?case
  proof (cases "lz_pos lz < n")
    case True
    let ?r = "decode_packet bitf directf props n lz s"
    have pk: "packet_ok n out0 ?r" by (rule packet_safe [OF less.prems True])
    show ?thesis
    proof (cases "?r = Err")
      case False
      then obtain marker lz' s' where r: "?r = Ok (marker, lz', s')" "inv s'" "lz_bounds n out0 lz'" "\<not> marker \<Longrightarrow> lz_ok n out0 lz'"
        using pk by (auto simp: packet_ok_def)
      have "safe (packet_loop bitf directf props n lz' s') (lz_bounds n out0)" if "\<not> marker"
        by (rule less.hyps [OF _ r(2) less.prems(2) r(4) [OF that]])
          (use decode_packet_pos [of bitf directf props n lz s lz' s'] r(1) that True in auto)
      then show ?thesis using True r by (subst packet_loop.simps) (auto intro: safe_Ok)
    qed (use True in \<open>subst packet_loop.simps, simp add: safe_Err\<close>)
  next
    case False
    then show ?thesis using less.prems by (subst packet_loop.simps) (auto simp: lz_ok_def lz_mid_def lz_bounds_def intro!: safe_Ok)
  qed
qed

end

subsection \<open>The range decoder as a source of bits\<close>

definition rd_inv :: "bytes \<Rightarrow> nat \<Rightarrow> nat \<Rightarrow> range_decoder \<Rightarrow> bool" where
  "rd_inv ins lim nprobs s \<longleftrightarrow> rd_pos s \<le> lim \<and> lim \<le> length ins \<and> length (rd_probs s) = nprobs"

lemma rc_read_byte_inv:
  "rd_inv ins lim n s \<Longrightarrow>
     rc_read_byte ins lim s = Err \<or> (\<exists>b. rc_read_byte ins lim s = Ok (b, s\<lparr>rd_pos := rd_pos s + 1\<rparr>) \<and> rd_pos s < lim)"
  by (auto simp: rc_read_byte_def rd_inv_def rd_def)

lemma rc_normalize_inv:
  assumes "rd_inv ins lim n s"
  shows "rc_normalize ins lim s = Err \<or> (\<exists>s'. rc_normalize ins lim s = Ok s' \<and> rd_inv ins lim n s')"
  using rc_read_byte_inv [OF assms] assms by (auto simp: rc_normalize_def rd_inv_def)

lemma rc_bit_inv:
  assumes "rd_inv ins lim n s" "i < n"
  shows "rc_bit ins lim i s = Err \<or> (\<exists>b s'. rc_bit ins lim i s = Ok (b, s') \<and> rd_inv ins lim n s')"
proof (cases "rc_normalize ins lim s = Err")
  case False
  then obtain s' where "rc_normalize ins lim s = Ok s'" "rd_inv ins lim n s'" using rc_normalize_inv [OF assms(1)] by blast
  then show ?thesis using assms(2) by (simp add: rc_bit_def rd_inv_def rd_def Let_def ex_bool_eq)
qed (simp add: rc_bit_def)

lemma rc_direct_inv:
  assumes "rd_inv ins lim n s"
  shows "rc_direct ins lim s = Err \<or> (\<exists>b s'. rc_direct ins lim s = Ok (b, s') \<and> rd_inv ins lim n s')"
proof (cases "rc_normalize ins lim s = Err")
  case False
  then obtain s' where "rc_normalize ins lim s = Ok s'" "rd_inv ins lim n s'" using rc_normalize_inv [OF assms] by blast
  then show ?thesis by (simp add: rc_direct_def rd_inv_def Let_def ex_bool_eq)
qed (simp add: rc_direct_def)

interpretation rc: bit_source "rc_bit ins lim" "rc_direct ins lim" "rd_inv ins lim nprobs" nprobs
  for ins lim nprobs
  by (unfold_locales; (rule rc_bit_inv rc_direct_inv))

lemma rc_init_loop_inv:
  "rd_inv ins lim n s \<Longrightarrow> rc_init_loop ins lim k s = Err \<or> (\<exists>s'. rc_init_loop ins lim k s = Ok s' \<and> rd_inv ins lim n s')"
proof (induction k arbitrary: s)
  case (Suc k)
  from rc_read_byte_inv [OF Suc.prems] show ?case
  proof
    assume "\<exists>b. rc_read_byte ins lim s = Ok (b, s\<lparr>rd_pos := rd_pos s + 1\<rparr>) \<and> rd_pos s < lim"
    then obtain b where b: "rc_read_byte ins lim s = Ok (b, s\<lparr>rd_pos := rd_pos s + 1\<rparr>)" "rd_pos s < lim" by blast
    have "rd_inv ins lim n (s\<lparr>rd_pos := rd_pos s + 1, rd_code := push_bit 8 (rd_code s) OR ucast b\<rparr>)"
      using Suc.prems b(2) by (simp add: rd_inv_def)
    from Suc.IH [OF this] show ?thesis using b(1) by simp
  qed simp
qed simp

lemma LzmaDecode_safe:
  assumes "props_ok props (length probs)" "in_size \<le> length ins" "out_size \<le> length out"
  shows "LzmaDecode props probs ins in_size out out_size = Err \<or>
    (\<exists>i n out'. LzmaDecode props probs ins in_size out out_size = Ok (i, n, out') \<and>
       i \<le> in_size \<and> n \<le> out_size \<and> length out' = length out \<and> drop n out' = drop n out)"
proof -
  let ?np = "LiteralProbs + LZMA_LIT_SIZE * 2 ^ (lp_lc props + lp_lp props)"
  obtain probs1 where p1: "init_probs props probs = Ok probs1" "length probs1 = length probs"
    using assms(1) by (auto simp: init_probs_def props_ok_def Let_def put_def)
  let ?b = "rc_bit ins in_size" and ?d = "rc_direct ins in_size"
  have "rd_inv ins in_size (length probs) \<lparr>rd_pos = 0, rd_range = 0xFFFFFFFF, rd_code = 0, rd_probs = probs1\<rparr>"
    using assms(2) p1(2) by (simp add: rd_inv_def)
  from rc_init_loop_inv [OF this, of 5] show ?thesis
  proof
    assume "\<exists>s'. rc_init_loop ins in_size 5 \<lparr>rd_pos = 0, rd_range = 0xFFFFFFFF, rd_code = 0, rd_probs = probs1\<rparr> = Ok s' \<and>
      rd_inv ins in_size (length probs) s'"
    then obtain s1 where s1: "rc_init ins in_size probs1 = Ok s1" "rd_inv ins in_size (length probs) s1"
      by (auto simp: rc_init_def)
    have "lz_ok out_size out (lzma_start out)" using assms(3) by (simp add: lz_ok_def lz_mid_def lz_bounds_def lzma_start_def)
    from rc.loop_safe [OF s1(2) assms(1) this]
    consider "packet_loop ?b ?d props out_size (lzma_start out) s1 = Err"
      | lz s2 where "packet_loop ?b ?d props out_size (lzma_start out) s1 = Ok (lz, s2)"
          "rd_inv ins in_size (length probs) s2" "lz_bounds out_size out lz"
      unfolding rc.safe_def by blast
    then show ?thesis
    proof cases
      case 1
      then show ?thesis using p1 s1 by (simp add: LzmaDecode_def)
    next
      case 2
      show ?thesis using rc_normalize_inv [OF 2(2)]
        by (rule disjE) (use p1 s1 2 in \<open>auto simp: LzmaDecode_def rd_inv_def lz_bounds_def\<close>)
    qed
  qed (use p1 in \<open>simp add: LzmaDecode_def rc_init_def\<close>)
qed

subsection \<open>The properties\<close>

lemma properties_pb: "LzmaDecodeProperties_pb p k = (p mod 45, k + p div 45)"
proof (induction p k rule: LzmaDecodeProperties_pb.induct)
  case (1 p k)
  show ?case
  proof (cases "45 \<le> p")
    case True
    then show ?thesis using 1 by (subst LzmaDecodeProperties_pb.simps) (simp add: le_mod_geq le_div_geq)
  qed (subst LzmaDecodeProperties_pb.simps, simp)
qed

lemma properties_lp: "LzmaDecodeProperties_lp p k = (p mod 9, k + p div 9)"
proof (induction p k rule: LzmaDecodeProperties_lp.induct)
  case (1 p k)
  show ?case
  proof (cases "9 \<le> p")
    case True
    then show ?thesis using 1 by (subst LzmaDecodeProperties_lp.simps) (simp add: le_mod_geq le_div_geq)
  qed (subst LzmaDecodeProperties_lp.simps, simp)
qed

lemma properties_eq:
  "data \<noteq> [] \<Longrightarrow> LzmaDecodeProperties data 5 =
     (let p = unat (hd data) in
      if 225 \<le> p then Err else Ok \<lparr>lp_lc = p mod 45 mod 9, lp_lp = p mod 45 div 9, lp_pb = p div 45\<rparr>)"
  by (cases data) (auto simp: LzmaDecodeProperties_def LZMA_PROPERTIES_SIZE_def properties_pb properties_lp Let_def rd_def)

subsection \<open>The interface\<close>

text \<open>A result that is refused, or \<open>k \<le> w\<close> bytes of output with nothing written behind them.\<close>

definition out_safe :: "nat \<Rightarrow> bytes \<Rightarrow> (nat \<times> bytes) res \<Rightarrow> bool" where
  "out_safe w dst r \<longleftrightarrow> r = Err \<or>
     (\<exists>k dst'. r = Ok (k, dst') \<and> k \<le> w \<and> length dst' = length dst \<and> drop k dst' = drop k dst)"

text \<open>The room for the output, or less when the header says so.\<close>

definition out_limit :: "bytes \<Rightarrow> bytes \<Rightarrow> u64 \<Rightarrow> nat" where
  "out_limit dst src srcn =
     (case ulzma_expanded_size src srcn of Ok (Some w) \<Rightarrow> min (length dst) (unat w) | _ \<Rightarrow> length dst)"

lemma out_safe_mono: "out_safe v dst r \<Longrightarrow> v \<le> w \<Longrightarrow> out_safe w dst r"
  by (auto simp: out_safe_def)

lemma ulzman_data_safe:
  assumes "5 \<le> length src" "in_size \<le> length ins" "n \<le> length dst" "length scratch = 7990"
  shows "out_safe n dst (andthen (LzmaDecodeProperties (take 5 src) 5) (\<lambda>props.
     if 15980 < LzmaGetNumProbs props * 2 then Err
     else map_res (\<lambda>(_, processed, dst). (processed, dst)) (LzmaDecode props scratch ins in_size dst n)))"
proof -
  let ?p = "unat (src ! 0)"
  have pr: "LzmaDecodeProperties (take 5 src) 5 =
      (if 225 \<le> ?p then Err else Ok \<lparr>lp_lc = ?p mod 45 mod 9, lp_lp = ?p mod 45 div 9, lp_pb = ?p div 45\<rparr>)"
  proof -
    have "take 5 src \<noteq> []" "hd (take 5 src) = src ! 0" using assms(1) by (cases src; simp)+
    then show ?thesis using properties_eq [of "take 5 src"] by (simp add: Let_def)
  qed
  show ?thesis
  proof (cases "225 \<le> ?p")
    case False
    define props where "props = \<lparr>lp_lc = ?p mod 45 mod 9, lp_lp = ?p mod 45 div 9, lp_pb = ?p div 45\<rparr>"
    show ?thesis
    proof (cases "15980 < LzmaGetNumProbs props * 2")
      case fits: False
      have pok: "props_ok props (length scratch)"
        unfolding props_ok_def using fits assms(4) False by (auto simp: props_def LzmaGetNumProbs_def base_size)
      from LzmaDecode_safe [OF pok assms(2,3)] show ?thesis
        using pr False fits assms(3) by (auto simp: props_def [symmetric] out_safe_def)
    qed (use pr False in \<open>simp add: props_def [symmetric] out_safe_def\<close>)
  qed (use pr in \<open>simp add: out_safe_def\<close>)
qed

lemma ulzman_out_safe:
  assumes "5 \<le> length src" "unat srcn \<le> length src" "unat dstn = length dst" "length scratch = 7990"
  shows "out_safe (out_limit dst src srcn) dst (ulzman scratch src srcn dst dstn)"
proof -
  have hdr: "slice src 0 5 = Some (take 5 src)" using assms(1) by (simp add: slice_def)
  show ?thesis
  proof (cases "srcn < 13")
    case True
    then show ?thesis using hdr by (simp add: ulzman_def ulzma_expanded_size_def LZMA_PROPERTIES_SIZE_def out_safe_def)
  next
    case False
    then have "13 \<le> unat srcn" by (simp add: word_less_nat_alt)
    then have len: "13 \<le> length src" using assms(2) by simp
    then have sl: "slice src 5 8 = Some (take 8 (drop 5 src))" by (simp add: slice_def)
    obtain sz where sz: "ulzma_expanded_size src srcn = Ok sz"
      using False sl by (auto simp: ulzma_expanded_size_def LZMA_PROPERTIES_SIZE_def Let_def)
    have off: "unat (srcn - 13) \<le> length src - 13" using False assms(2) by (simp add: unat_sub word_le_nat_alt not_less)
    let ?n = "case sz of None \<Rightarrow> Ok dstn | Some w \<Rightarrow> if sint w < - 1 then Err else Ok (if dstn < w then dstn else w)"
    show ?thesis
    proof (cases ?n)
      case (Ok n)
      have "unat (ucast n :: u32) \<le> unat n" by (simp add: unsigned_ucast_eq)
      also have "\<dots> \<le> out_limit dst src srcn"
        using Ok sz assms(3) by (auto simp: out_limit_def word_less_nat_alt split: option.splits if_splits)
      finally have lim: "unat (ucast n :: u32) \<le> out_limit dst src srcn" .
      also have "\<dots> \<le> length dst" by (auto simp: out_limit_def split: res.splits option.splits)
      finally have nle: "unat (ucast n :: u32) \<le> length dst" .
      note out_safe_mono [OF ulzman_data_safe [OF assms(1) _ nle assms(4), of "unat (srcn - 13)" "drop 13 src"] lim]
      moreover have c: "(5 :: nat) + 8 = 13" "(word_of_nat 13 :: u64) = 13" by simp_all
      ultimately show ?thesis
        using hdr sz Ok off unfolding ulzman_def LZMA_PROPERTIES_SIZE_def Let_def c by simp
    qed (use hdr sz in \<open>auto simp: ulzman_def LZMA_PROPERTIES_SIZE_def out_safe_def split: option.splits if_splits\<close>)
  qed
qed

text \<open>
  C2. Whatever the compressed data, given the true sizes of input and output and the scratchpad of 15980
  bytes: an input of fewer than 5 bytes is read past its end; on every other \<open>ulzman\<close> ends and makes no
  access outside the input, the table of probabilities or the output.  It refuses the input or returns the
  number of bytes it wrote, which is at most the size of the output and at most the size in the
  header, and the memory behind them is unchanged.
\<close>

theorem ulzman_safe:
  assumes "unat srcn \<le> length src" "unat dstn = length dst" "length scratch = 7990"
  shows "if length src < 5 then ulzman scratch src srcn dst dstn = Fault OutOfBounds
    else ulzman scratch src srcn dst dstn = Err \<or>
      (\<exists>k dst'. ulzman scratch src srcn dst dstn = Ok (k, dst') \<and> k \<le> length dst \<and>
         (\<forall>w. ulzma_expanded_size src srcn = Ok (Some w) \<longrightarrow> k \<le> unat w) \<and>
         length dst' = length dst \<and> drop k dst' = drop k dst)"
proof (cases "length src < 5")
  case True
  then show ?thesis by (simp add: ulzman_def slice_def LZMA_PROPERTIES_SIZE_def)
next
  case False
  then have five: "5 \<le> length src" by simp
  have "out_limit dst src srcn \<le> length dst" by (auto simp: out_limit_def split: res.splits option.splits)
  moreover have "ulzma_expanded_size src srcn = Ok (Some w) \<Longrightarrow> out_limit dst src srcn \<le> unat w" for w
    by (simp add: out_limit_def)
  ultimately show ?thesis using ulzman_out_safe [OF five assms] False unfolding out_safe_def by (meson le_trans)
qed

text \<open>The two literals \<^verbatim>\<open>ab\<close> and the marker; the size in the header is 2.\<close>

definition lzma_sample :: bytes where
  "lzma_sample = [0x5D, 0, 0, 1, 0, 2, 0, 0, 0, 0, 0, 0, 0, 0, 0x30, 0x98, 0x9C, 0xFF, 0xFF, 0xFF, 0xFF, 0xF0, 0, 0, 0]"

theorem ulzman_safe_witness:
  "ulzman (replicate 7990 0) lzma_sample 25 (replicate 8 7) 8 = Err \<or>
    (\<exists>k dst'. ulzman (replicate 7990 0) lzma_sample 25 (replicate 8 7) 8 = Ok (k, dst') \<and> k \<le> 8 \<and>
       (\<forall>w. ulzma_expanded_size lzma_sample 25 = Ok (Some w) \<longrightarrow> k \<le> unat w) \<and>
       length dst' = 8 \<and> drop k dst' = drop k (replicate 8 7))"
  using ulzman_safe [of 25 lzma_sample 8 "replicate 8 7" "replicate 7990 0"] by (simp add: lzma_sample_def)

end
