(* ===== verification/Mem.thy ===== *)
theory Mem
  imports Str
begin

text \<open>
  \<^verbatim>\<open>src/src/base/libc/memory.c\<close>: the default \<open>memset\<close>, \<open>memcpy\<close>, \<open>memmove\<close> and \<open>memcmp\<close>,
  which work a machine word at a time.  \<open>unsigned long\<close> has 8 bytes, stored little endian.
  \<open>memcpy\<close> and \<open>memmove\<close> work on one memory with two offsets, so that overlap is part of
  the model.
\<close>

subsection \<open>memset\<close>

definition memset_word :: "u8 \<Rightarrow> u64" where
  "memset_word c = fold (\<lambda>i w. push_bit (i * 8) w OR w) [1, 2, 4] (ucast c)"

fun set_words :: "bytes \<Rightarrow> u64 \<Rightarrow> nat \<Rightarrow> nat \<Rightarrow> bytes res" where
  "set_words s w i 0 = Ok s"
| "set_words s w i (Suc k) =
     andthen (of_opt (put s (i * 8) (le_bytes 8 (unat w)))) (\<lambda>s. set_words s w (Suc i) k)"

fun set_bytes :: "bytes \<Rightarrow> u8 \<Rightarrow> nat \<Rightarrow> nat \<Rightarrow> bytes res" where
  "set_bytes s c i 0 = Ok s"
| "set_bytes s c i (Suc k) =
     andthen (of_opt (put s i [c])) (\<lambda>s. set_bytes s c (Suc i) k)"

definition default_memset :: "bytes \<Rightarrow> u8 \<Rightarrow> nat \<Rightarrow> bytes res" where
  "default_memset s c n =
     andthen (set_words s (memset_word c) 0 (n div 8)) (\<lambda>s.
       set_bytes s c (n div 8 * 8) (n mod 8))"

subsection \<open>memcpy and memmove\<close>

definition move :: "nat \<Rightarrow> bytes \<Rightarrow> int \<Rightarrow> int \<Rightarrow> bytes res" where
  "move w m dst src =
     (if dst < 0 \<or> src < 0 then Fault OutOfBounds
      else andthen (of_opt (slice m (nat src) w)) (\<lambda>x.
        of_opt (put m (nat dst) (le_bytes w (le_val x)))))"

fun copy_units :: "nat \<Rightarrow> bytes \<Rightarrow> nat \<Rightarrow> nat \<Rightarrow> nat \<Rightarrow> nat \<Rightarrow> bytes res" where
  "copy_units w m dst src i 0 = Ok m"
| "copy_units w m dst src i (Suc k) =
     andthen (move w m (int (dst + i * w)) (int (src + i * w))) (\<lambda>m.
       copy_units w m dst src (Suc i) k)"

definition default_memcpy :: "bytes \<Rightarrow> nat \<Rightarrow> nat \<Rightarrow> nat \<Rightarrow> bytes res" where
  "default_memcpy m dst src n =
     andthen (copy_units 8 m dst src 0 (n div 8)) (\<lambda>m.
       copy_units 1 m (dst + n div 8 * 8) (src + n div 8 * 8) 0 (n mod 8))"

text \<open>
  The loops \<open>for (i = start; i >= 0; i--)\<close> of \<open>memmove\<close> count down in a \<open>size_t\<close>.
\<close>

fun down_loop :: "nat \<Rightarrow> (u64 \<Rightarrow> bytes \<Rightarrow> bytes res) \<Rightarrow> u64 \<Rightarrow> bytes \<Rightarrow> bytes res" where
  "down_loop 0 body i m = Fault Diverges"
| "down_loop (Suc fuel) body i m =
     (if i \<ge> 0 then andthen (body i m) (down_loop fuel body (i - 1)) else Ok m)"

text \<open>\<open>p + i\<close> for a pointer and a \<open>size_t\<close> wraps, so an index near 2 to the 64 is before \<open>p\<close>.\<close>

definition default_memmove :: "nat \<Rightarrow> bytes \<Rightarrow> nat \<Rightarrow> nat \<Rightarrow> u64 \<Rightarrow> bytes res" where
  "default_memmove fuel m dst src n =
     (if src > dst then default_memcpy m dst src (unat n)
      else (let offs = n - n mod 8 in
        andthen (down_loop fuel (\<lambda>i m. move 1 m (int dst + sint (i + offs)) (int src + sint (i + offs)))
          (n mod 8 - 1) m) (\<lambda>m.
        down_loop fuel (\<lambda>i m. move 8 m (int dst + sint (i * 8)) (int src + sint (i * 8)))
          (n div 8 - 1) m)))"

subsection \<open>memcmp\<close>

fun cmp_words :: "bytes \<Rightarrow> bytes \<Rightarrow> nat \<Rightarrow> nat \<Rightarrow> nat res" where
  "cmp_words a b i 0 = Ok i"
| "cmp_words a b i (Suc k) =
     (case (slice a (i * 8) 8, slice b (i * 8) 8) of
        (Some x, Some y) \<Rightarrow> if le_val x \<noteq> le_val y then Ok i else cmp_words a b (Suc i) k
      | _ \<Rightarrow> Fault OutOfBounds)"

fun cmp_bytes :: "bytes \<Rightarrow> bytes \<Rightarrow> nat \<Rightarrow> nat \<Rightarrow> int res" where
  "cmp_bytes a b i 0 = Ok 0"
| "cmp_bytes a b i (Suc k) =
     (case (rd a i, rd b i) of
        (Some x, Some y) \<Rightarrow> if x \<noteq> y then Ok (uint x - uint y) else cmp_bytes a b (Suc i) k
      | _ \<Rightarrow> Fault OutOfBounds)"

definition default_memcmp :: "bytes \<Rightarrow> bytes \<Rightarrow> nat \<Rightarrow> int res" where
  "default_memcmp a b n =
     andthen (cmp_words a b 0 (n div 8)) (\<lambda>i. cmp_bytes a b (i * 8) (n - i * 8))"

subsection \<open>memset fills\<close>

lemma put_append:
  "of_opt (put s off (xs @ ys)) =
     andthen (of_opt (put s off xs)) (\<lambda>s. of_opt (put s (off + length xs) ys))"
  by (auto simp: put_def ac_simps)

lemma put_nil: "off \<le> length s \<Longrightarrow> put s off [] = Some s"
  by (simp add: put_def)

lemma set_words_put:
  "i * 8 \<le> length s \<Longrightarrow> set_words s w i k = of_opt (put s (i * 8) (concat (replicate k (le_bytes 8 (unat w)))))"
proof (induction k arbitrary: s i)
  case (Suc k)
  show ?case
  proof (cases "put s (i * 8) (le_bytes 8 (unat w))")
    case None
    then show ?thesis by (simp add: put_append)
  next
    case (Some s')
    then have "Suc i * 8 \<le> length s'" by (auto simp: put_def split: if_splits)
    from Suc.IH [OF this] Some show ?thesis by (simp add: put_append add.commute)
  qed
qed (simp add: put_nil)

lemma set_bytes_put: "i \<le> length s \<Longrightarrow> set_bytes s c i k = of_opt (put s i (replicate k c))"
proof (induction k arbitrary: s i)
  case (Suc k)
  show ?case
  proof (cases "put s i [c]")
    case None
    then show ?thesis using put_append [of s i "[c]" "replicate k c"] by simp
  next
    case (Some s')
    then have "Suc i \<le> length s'" by (auto simp: put_def split: if_splits)
    from Suc.IH [OF this] Some show ?thesis using put_append [of s i "[c]" "replicate k c"] by simp
  qed
qed (simp add: put_nil)

lemma le_bytes_word: "le_bytes (Suc n) (unat (w :: u64)) = ucast w # le_bytes n (unat (drop_bit 8 w))"
  by (simp add: of_nat_unat drop_bit_eq_div unat_div)

lemma bit_memset_word:
  "bit (memset_word c) (8 * k + n) \<longleftrightarrow> bit c n" if "k < 8" "n < 8"
proof -
  have out: "\<not> bit c m" if "8 \<le> m" for m using bit_imp_le_length [of c m] that by auto
  from \<open>k < 8\<close> consider "k = 0" | "k = 1" | "k = 2" | "k = 3" | "k = 4" | "k = 5" | "k = 6" | "k = 7"
    by linarith
  then show ?thesis
    using \<open>n < 8\<close> by cases (simp_all add: memset_word_def bit_simps out)
qed

lemma memset_word_bytes: "le_bytes 8 (unat (memset_word c)) = replicate 8 c"
proof -
  have "ucast (drop_bit (8 * k) (memset_word c)) = c" if "k < 8" for k
    using that by (intro bit_word_eqI) (simp add: bit_memset_word bit_simps)
  note b = this [of 0] this [of 1] this [of 2] this [of 3] this [of 4] this [of 5] this [of 6] this [of 7]
  have "le_bytes (Suc (Suc (Suc (Suc (Suc (Suc (Suc (Suc 0)))))))) (unat (memset_word c)) =
      replicate (Suc (Suc (Suc (Suc (Suc (Suc (Suc (Suc 0)))))))) c"
    unfolding le_bytes_word using b by (simp add: drop_bit_drop_bit)
  moreover have "(8 :: nat) = Suc (Suc (Suc (Suc (Suc (Suc (Suc (Suc 0)))))))" by simp
  ultimately show ?thesis by (simp only:)
qed

lemma replicate_words: "concat (replicate k (replicate 8 c)) @ replicate r c = replicate (k * 8 + r) c"
  by (induction k) (simp_all add: replicate_add)

text \<open>
  The word-wise \<open>memset\<close> is the byte-wise one: it sets exactly the first \<open>n\<close> bytes to
  \<open>c\<close>, and goes out of bounds exactly when there are fewer.
\<close>

theorem default_memset_fills: "default_memset s c n = of_opt (put s 0 (replicate n c))"
proof -
  have "default_memset s c n = andthen (of_opt (put s 0 (concat (replicate (n div 8) (replicate 8 c)))))
      (\<lambda>s. set_bytes s c (n div 8 * 8) (n mod 8))"
    using set_words_put [of 0 s "memset_word c" "n div 8"]
    by (simp add: default_memset_def memset_word_bytes)
  also have "\<dots> = andthen (of_opt (put s 0 (concat (replicate (n div 8) (replicate 8 c)))))
      (\<lambda>s. of_opt (put s (0 + length (concat (replicate (n div 8) (replicate 8 c)))) (replicate (n mod 8) c)))"
    by (cases "put s 0 (concat (replicate (n div 8) (replicate 8 c)))")
      (auto simp: set_bytes_put put_def length_concat sum_list_replicate split: if_splits)
  also have "\<dots> = of_opt (put s 0 (replicate n c))"
    using put_append [of s 0 "concat (replicate (n div 8) (replicate 8 c))" "replicate (n mod 8) c"]
    by (simp add: replicate_words)
  finally show ?thesis .
qed

subsection \<open>memmove\<close>

lemma le_bytes_le_val: "le_bytes (length x) (le_val x) = x"
proof (induction x)
  case (Cons a x)
  have "word_of_nat (unat a + 256 * le_val x) = a"
    by (simp only: word_unat_eq_iff unat_byte_of_nat) (simp add: unat_u8_less)
  with Cons show ?case by (simp add: unat_u8_less del: of_nat_add of_nat_mult)
qed simp

lemma move_slice:
  "move w m (int d) (int s) = andthen (of_opt (slice m s w)) (\<lambda>x. of_opt (put m d x))"
proof (cases "slice m s w")
  case (Some x)
  then show ?thesis
    using le_bytes_le_val [of x] slice_length [OF Some] by (simp add: move_def)
qed (simp add: move_def)

lemma move_before: "s < 0 \<Longrightarrow> move w m d s = Fault OutOfBounds"
  by (simp add: move_def)

lemma move_byte_Ok:
  "0 \<le> s \<Longrightarrow> s \<le> d \<Longrightarrow> d < int (length m) \<Longrightarrow> \<exists>m'. move 1 m d s = Ok m' \<and> length m' = length m"
  using move_slice [of 1 m "nat d" "nat s"] by (auto simp: slice_def put_def)

lemma sint_of_int_u64:
  "- 9223372036854775808 \<le> z \<Longrightarrow> z < 9223372036854775808 \<Longrightarrow> sint (word_of_int z :: u64) = z"
  by (simp add: signed_of_int signed_take_bit_int_eq_self)

lemma down_loop_faults:
  assumes "src \<le> dst" and "dst \<le> length m" and "length m < 4611686018427387904"
    and "i + offs = word_of_int z" and "- int src - 1 \<le> z" and "int dst + z < int (length m)"
    and "nat (z + int src + 1) < fuel"
  shows "down_loop fuel (\<lambda>i m. move 1 m (int dst + sint (i + offs)) (int src + sint (i + offs))) i m
    = Fault OutOfBounds"
  using assms(2-)
proof (induction fuel arbitrary: m i z)
  case (Suc fuel)
  have z: "- 9223372036854775808 \<le> z" "z < 9223372036854775808"
    using Suc.prems(1,2,4,5) assms(1) by linarith+
  have s: "sint (i + offs) = z" unfolding Suc.prems(3) by (rule sint_of_int_u64 [OF z])
  show ?case
  proof (cases "int src + z < 0")
    case True
    then show ?thesis by (simp add: s move_before)
  next
    case False
    with assms(1) Suc.prems(5) obtain m' where m': "move 1 m (int dst + z) (int src + z) = Ok m'"
      "length m' = length m"
      using move_byte_Ok [of "int src + z" "int dst + z" m] by auto
    have "i - 1 + offs = word_of_int (z - 1)" using Suc.prems(3) by (simp add: algebra_simps)
    moreover have "nat (z - 1 + int src + 1) < fuel" using Suc.prems(6) False by linarith
    ultimately have "down_loop fuel (\<lambda>i m. move 1 m (int dst + sint (i + offs)) (int src + sint (i + offs)))
        (i - 1) m' = Fault OutOfBounds"
      using Suc.prems False by (intro Suc.IH [of m' "i - 1" "z - 1"]) (auto simp: m'(2))
    then show ?thesis by (simp add: s m'(1) del: One_nat_def)
  qed
qed simp

text \<open>
  The default \<open>memmove\<close> never works when the destination is not before the source: its
  loops test \<open>i >= 0\<close> on an unsigned \<open>i\<close>, so the copy goes on down through memory, below
  the start of both regions, until it faults, whatever the size, 0 included.
\<close>

theorem default_memmove_down_faults:
  assumes "src \<le> dst" and "dst + unat n \<le> length m" and "length m < 4611686018427387904"
    and "src + unat n < fuel"
  shows "default_memmove fuel m dst src n = Fault OutOfBounds"
proof -
  have start: "(n mod 8 - 1) + (n - n mod 8) = word_of_int (int (unat n) - 1)" by simp
  have "down_loop fuel (\<lambda>i m. move 1 m (int dst + sint (i + (n - n mod 8)))
      (int src + sint (i + (n - n mod 8)))) (n mod 8 - 1) m = Fault OutOfBounds"
    by (rule down_loop_faults [OF assms(1) _ assms(3) start]) (use assms in linarith)+
  then show ?thesis using assms(1) by (simp add: default_memmove_def Let_def)
qed

subsection \<open>memcmp\<close>

lemma le_val_inject: "length x = length y \<Longrightarrow> le_val x = le_val y \<longleftrightarrow> x = y"
  using le_bytes_le_val [of x] le_bytes_le_val [of y] by metis

lemma cmp_bytes_skip:
  "take m (drop p a) = take m (drop p b) \<Longrightarrow> p + m \<le> length a \<Longrightarrow> p + m \<le> length b \<Longrightarrow> m \<le> k \<Longrightarrow>
     cmp_bytes a b p k = cmp_bytes a b (p + m) (k - m)"
proof (induction m arbitrary: p k)
  case (Suc m)
  then obtain k' where k: "k = Suc k'" by (cases k) auto
  have d: "drop p a = a ! p # drop (Suc p) a" "drop p b = b ! p # drop (Suc p) b"
    using Suc.prems by (simp_all add: Cons_nth_drop_Suc)
  then have eq: "a ! p = b ! p" "take m (drop (Suc p) a) = take m (drop (Suc p) b)"
    using Suc.prems(1) by auto
  have "cmp_bytes a b p k = cmp_bytes a b (Suc p) k'"
    using Suc.prems eq k by (simp add: rd_def)
  with Suc.IH [OF eq(2)] Suc.prems k show ?case by simp
qed simp

lemma cmp_words_skip:
  "n \<le> length a \<Longrightarrow> n \<le> length b \<Longrightarrow> (i + k) * 8 \<le> n \<Longrightarrow>
     \<exists>j. cmp_words a b i k = Ok j \<and> cmp_bytes a b (i * 8) (n - i * 8) = cmp_bytes a b (j * 8) (n - j * 8)"
proof (induction k arbitrary: i)
  case (Suc k)
  have le: "i * 8 + 8 \<le> n" using Suc.prems(3) by simp
  have sl: "slice a (i * 8) 8 = Some (take 8 (drop (i * 8) a))" "slice b (i * 8) 8 = Some (take 8 (drop (i * 8) b))"
    using le Suc.prems by (simp_all add: slice_def)
  show ?case
  proof (cases "le_val (take 8 (drop (i * 8) a)) = le_val (take 8 (drop (i * 8) b))")
    case True
    then have "take 8 (drop (i * 8) a) = take 8 (drop (i * 8) b)"
      using le Suc.prems by (subst (asm) le_val_inject) auto
    then have "cmp_bytes a b (i * 8) (n - i * 8) = cmp_bytes a b (i * 8 + 8) (n - i * 8 - 8)"
      using le Suc.prems by (intro cmp_bytes_skip) auto
    then have step: "cmp_bytes a b (i * 8) (n - i * 8) = cmp_bytes a b (Suc i * 8) (n - Suc i * 8)"
      by (simp add: add.commute)
    have "(Suc i + k) * 8 \<le> n" using Suc.prems(3) by simp
    from Suc.IH [OF Suc.prems(1,2) this] step sl True show ?thesis by auto
  qed (use sl in simp)
qed simp

lemma cmp_bytes_equal:
  "p + k \<le> length a \<Longrightarrow> p + k \<le> length b \<Longrightarrow>
     \<exists>r. cmp_bytes a b p k = Ok r \<and> (r = 0 \<longleftrightarrow> take k (drop p a) = take k (drop p b))"
proof (induction k arbitrary: p)
  case (Suc k)
  have d: "drop p a = a ! p # drop (Suc p) a" "drop p b = b ! p # drop (Suc p) b"
    using Suc.prems by (simp_all add: Cons_nth_drop_Suc)
  have "Suc p + k \<le> length a" "Suc p + k \<le> length b" using Suc.prems by auto
  from Suc.IH [OF this] Suc.prems d show ?case
    by (auto simp: rd_def word_uint_eq_iff)
qed simp

lemma default_memcmp_words:
  assumes "n \<le> length a" and "n \<le> length b"
  shows "default_memcmp a b n = cmp_bytes a b 0 n"
proof -
  have "(0 + n div 8) * 8 \<le> n" by simp
  from cmp_words_skip [OF assms this] show ?thesis by (auto simp: default_memcmp_def)
qed

lemma default_memcmp_equal:
  "n \<le> length a \<Longrightarrow> n \<le> length b \<Longrightarrow> \<exists>r. default_memcmp a b n = Ok r \<and> (r = 0 \<longleftrightarrow> take n a = take n b)"
  using cmp_bytes_equal [of 0 n a b] by (simp add: default_memcmp_words)

lemma cmp_bytes_first_diff:
  "p + k \<le> length a \<Longrightarrow> p + k \<le> length b \<Longrightarrow>
     (\<forall>i. p \<le> i \<longrightarrow> i < p + k \<longrightarrow> a ! i = b ! i) \<and> cmp_bytes a b p k = Ok 0 \<or>
     (\<exists>i. p \<le> i \<and> i < p + k \<and> (\<forall>j. p \<le> j \<longrightarrow> j < i \<longrightarrow> a ! j = b ! j) \<and> a ! i \<noteq> b ! i \<and>
       cmp_bytes a b p k = Ok (uint (a ! i) - uint (b ! i)))"
proof (induction k arbitrary: p)
  case (Suc k)
  have r: "rd a p = Some (a ! p)" "rd b p = Some (b ! p)" using Suc.prems by (simp_all add: rd_def)
  show ?case
  proof (cases "a ! p = b ! p")
    case False
    then show ?thesis by (intro disjI2 exI [of _ p]) (simp add: r)
  next
    case True
    have "Suc p + k \<le> length a" "Suc p + k \<le> length b" using Suc.prems by auto
    note IH = Suc.IH [OF this]
    have step: "cmp_bytes a b p (Suc k) = cmp_bytes a b (Suc p) k" using True by (simp add: r)
    have up: "a ! j = b ! j" if "p \<le> j" "j < i" "\<forall>j. Suc p \<le> j \<longrightarrow> j < i \<longrightarrow> a ! j = b ! j" for i j
      using that True by (cases "j = p") auto
    show ?thesis using IH
    proof (elim disjE exE conjE)
      assume all: "\<forall>i. Suc p \<le> i \<longrightarrow> i < Suc p + k \<longrightarrow> a ! i = b ! i" and "cmp_bytes a b (Suc p) k = Ok 0"
      moreover have "a ! i = b ! i" if "p \<le> i" "i < p + Suc k" for i
        using up [of i "Suc p + k"] all that by (simp only: add_Suc add_Suc_right)
      ultimately show ?thesis unfolding step by (intro disjI1 conjI allI impI)
    next
      fix i
      assume "Suc p \<le> i" "i < Suc p + k" "\<forall>j. Suc p \<le> j \<longrightarrow> j < i \<longrightarrow> a ! j = b ! j"
        "a ! i \<noteq> b ! i" "cmp_bytes a b (Suc p) k = Ok (uint (a ! i) - uint (b ! i))"
      with up show ?thesis unfolding step by (intro disjI2 exI [of _ i]) auto
    qed
  qed
qed simp

lemma take_eq_nth: "n \<le> length a \<Longrightarrow> n \<le> length b \<Longrightarrow> take n a = take n b \<longleftrightarrow> (\<forall>i. 0 \<le> i \<longrightarrow> i < 0 + n \<longrightarrow> a ! i = b ! i)"
  by (auto simp: list_eq_iff_nth_eq)

text \<open>
  C33. For two areas of at least \<open>n\<close> bytes the word-wise \<open>memcmp\<close> returns 0 when their first \<open>n\<close>
  bytes are the same, and otherwise the byte of the first area less the byte of the second, as
  unsigned numbers, at the first index where the two differ.
\<close>

theorem default_memcmp_reference:
  assumes "n \<le> length a" and "n \<le> length b"
  shows "if take n a = take n b then default_memcmp a b n = Ok 0
    else \<exists>k<n. take k a = take k b \<and> a ! k \<noteq> b ! k \<and>
      default_memcmp a b n = Ok (int (unat (a ! k)) - int (unat (b ! k)))"
proof -
  have bounds: "0 + n \<le> length a" "0 + n \<le> length b" using assms by simp_all
  note diff = cmp_bytes_first_diff [OF bounds, folded default_memcmp_words [OF assms]]
  have "take k a = take k b" if "k < n" "\<forall>j. 0 \<le> j \<longrightarrow> j < k \<longrightarrow> a ! j = b ! j" for k
    using take_eq_nth [of k a b] that assms by simp
  with diff show ?thesis by (auto simp: take_eq_nth [OF assms])
qed

subsection \<open>Witnesses\<close>

theorem default_memmove_down_faults_witness: "default_memmove 5 [1, 2, 3, 4] 1 0 3 = Fault OutOfBounds"
  by (rule default_memmove_down_faults) simp_all

theorem default_memcmp_reference_witness:
  "default_memcmp (replicate 8 5 @ [1, 3, 9]) (replicate 8 5 @ [1, 4, 0]) 11 = Ok (- 1)"
proof -
  let ?a = "replicate 8 5 @ [1, 3, 9] :: bytes" and ?b = "replicate 8 5 @ [1, 4, 0] :: bytes"
  have ne: "take 11 ?a \<noteq> take 11 ?b" by simp
  obtain k where k: "k < 11" "take k ?a = take k ?b" "?a ! k \<noteq> ?b ! k"
    "default_memcmp ?a ?b 11 = Ok (int (unat (?a ! k)) - int (unat (?b ! k)))"
    using default_memcmp_reference [of 11 ?a ?b] ne by auto
  have "\<not> 9 < k"
  proof
    assume "9 < k"
    with k(2) have "?a ! 9 = ?b ! 9" by (metis nth_take)
    then show False by (simp add: nth_append)
  qed
  then have "k = 9" using k(3) by (cases "k < 9") (auto simp: nth_append numeral_eq_Suc less_Suc_eq)
  with k(4) show ?thesis by (simp add: nth_append)
qed

end
