(* ===== verification/Storage.thy ===== *)
theory Storage
  imports Mem
begin

text \<open>
  The storage interface, \<^verbatim>\<open>src/src/drivers/storage/storage.h\<close>, and the memory-backed
  implementation, \<^verbatim>\<open>src/src/drivers/storage/memory.c\<close>.  A \<open>StorageOps\<close> is a record of
  operations on the state of the device; \<open>read\<close> returns the bytes it stores in the
  caller's buffer.  \<open>size_t\<close> and offsets have 64 bits and wrap.
\<close>

record 's storage_ops =
  op_read :: "u64 \<Rightarrow> u64 \<Rightarrow> ('s, bytes) act"
  op_write :: "bytes \<Rightarrow> u64 \<Rightarrow> u64 \<Rightarrow> ('s, unit) act"
  op_size :: "('s, int) act"

definition storage_read :: "'s storage_ops \<Rightarrow> u64 \<Rightarrow> u64 \<Rightarrow> ('s, bytes) act" where
  "storage_read me offset n = op_read me offset n"

definition storage_write :: "'s storage_ops \<Rightarrow> bytes \<Rightarrow> u64 \<Rightarrow> u64 \<Rightarrow> ('s, unit) act" where
  "storage_write me buffer offset n = op_write me buffer offset n"

definition storage_size :: "'s storage_ops \<Rightarrow> ('s, int) act" where
  "storage_size me = op_size me"

subsection \<open>Memory storage\<close>

record memory_storage =
  ms_data :: bytes
  ms_size :: u64

definition memory_storage_read :: "u64 \<Rightarrow> u64 \<Rightarrow> (memory_storage, bytes) act" where
  "memory_storage_read offset n st =
     (if offset > ms_size st \<or> offset + n > ms_size st then (Err, st)
      else (of_opt (slice (ms_data st) (unat offset) (unat n)), st))"

definition memory_storage_write :: "bytes \<Rightarrow> u64 \<Rightarrow> u64 \<Rightarrow> (memory_storage, unit) act" where
  "memory_storage_write buffer offset n st =
     (if offset > ms_size st \<or> offset + n > ms_size st then (Err, st)
      else case slice buffer 0 (unat n) of None \<Rightarrow> (Fault OutOfBounds, st)
      | Some xs \<Rightarrow> (case put (ms_data st) (unat offset) xs of
          None \<Rightarrow> (Fault OutOfBounds, st) | Some d \<Rightarrow> (Ok (), st\<lparr>ms_data := d\<rparr>)))"

definition memory_ro_storage_write :: "bytes \<Rightarrow> u64 \<Rightarrow> u64 \<Rightarrow> (memory_storage, unit) act" where
  "memory_ro_storage_write buffer offset n st = (Err, st)"

definition memory_storage_size :: "(memory_storage, int) act" where
  "memory_storage_size st = (Ok (as_int (ms_size st)), st)"

definition new_memory_base_storage :: "bytes \<Rightarrow> u64 \<Rightarrow> memory_storage" where
  "new_memory_base_storage d n = \<lparr>ms_data = d, ms_size = n\<rparr>"

definition new_memory_ro_storage :: "bytes \<Rightarrow> u64 \<Rightarrow> memory_storage storage_ops \<times> memory_storage" where
  "new_memory_ro_storage d n =
     (\<lparr>op_read = memory_storage_read, op_write = memory_ro_storage_write, op_size = memory_storage_size\<rparr>,
      new_memory_base_storage d n)"

definition new_memory_storage :: "bytes \<Rightarrow> u64 \<Rightarrow> memory_storage storage_ops \<times> memory_storage" where
  "new_memory_storage d n =
     (\<lparr>op_read = memory_storage_read, op_write = memory_storage_write, op_size = memory_storage_size\<rparr>,
      new_memory_base_storage d n)"

subsection \<open>The contract\<close>

text \<open>
  What a client relies on: \<open>contents\<close> is what the device holds.  The laws speak of requests
  whose end does not wrap; the bounds checks of the drivers are wrong for the others.
\<close>

definition no_wrap :: "u64 \<Rightarrow> u64 \<Rightarrow> bool" where
  "no_wrap offset n \<longleftrightarrow> unat offset + unat n < 18446744073709551616"

locale readable_storage =
  fixes ops :: "'s storage_ops" and contents :: "'s \<Rightarrow> bytes" and ok :: "'s \<Rightarrow> bool"
  assumes read_in: "ok s \<Longrightarrow> no_wrap off n \<Longrightarrow> unat off + unat n \<le> length (contents s) \<Longrightarrow>
      \<exists>s'. storage_read ops off n s = (Ok (take (unat n) (drop (unat off) (contents s))), s') \<and>
        ok s' \<and> contents s' = contents s"
    and read_out: "ok s \<Longrightarrow> no_wrap off n \<Longrightarrow> length (contents s) < unat off + unat n \<Longrightarrow>
      \<exists>s'. storage_read ops off n s = (Err, s') \<and> ok s' \<and> contents s' = contents s"
    and size_ok: "ok s \<Longrightarrow> length (contents s) < 2147483648 \<Longrightarrow>
      \<exists>s'. storage_size ops s = (Ok (int (length (contents s))), s') \<and> ok s' \<and> contents s' = contents s"
begin

lemma read_cases:
  assumes "ok s" and "no_wrap off n"
  shows "\<exists>s'. storage_read ops off n s =
      ((case slice (contents s) (unat off) (unat n) of None \<Rightarrow> Err | Some xs \<Rightarrow> Ok xs), s') \<and>
    ok s' \<and> contents s' = contents s"
  using read_in [OF assms] read_out [OF assms]
  by (cases "unat off + unat n \<le> length (contents s)") (auto simp: slice_def)

end

locale storage = readable_storage ops contents ok
  for ops :: "'s storage_ops" and contents and ok +
  assumes write_in: "ok s \<Longrightarrow> no_wrap off n \<Longrightarrow> unat off + unat n \<le> length (contents s) \<Longrightarrow>
      unat n \<le> length buf \<Longrightarrow>
      \<exists>s'. storage_write ops buf off n s = (Ok (), s') \<and> ok s' \<and>
        put (contents s) (unat off) (take (unat n) buf) = Some (contents s')"
    and write_out: "ok s \<Longrightarrow> no_wrap off n \<Longrightarrow> length (contents s) < unat off + unat n \<Longrightarrow>
      \<exists>s'. storage_write ops buf off n s = (Err, s') \<and> ok s' \<and> contents s' = contents s"
begin

text \<open>Reading back what was written, and leaving the rest alone.\<close>

lemma write_read:
  assumes ok: "ok s" and w: "no_wrap off n" and le: "unat off + unat n \<le> length (contents s)"
    and buf: "unat n \<le> length buf"
  shows "\<exists>s1. storage_write ops buf off n s = (Ok (), s1) \<and> ok s1 \<and>
    (\<exists>s2. storage_read ops off n s1 = (Ok (take (unat n) buf), s2) \<and> contents s2 = contents s1) \<and>
    (\<forall>off' n'. no_wrap off' n' \<longrightarrow> unat off' + unat n' \<le> length (contents s) \<longrightarrow>
      unat off' + unat n' \<le> unat off \<or> unat off + unat n \<le> unat off' \<longrightarrow>
      (\<exists>s2. storage_read ops off' n' s1 = (Ok (take (unat n') (drop (unat off') (contents s))), s2)))"
proof -
  obtain s1 where s1: "storage_write ops buf off n s = (Ok (), s1)" "ok s1"
    and p: "put (contents s) (unat off) (take (unat n) buf) = Some (contents s1)"
    using write_in [OF ok w le buf] by auto
  have len: "length (contents s1) = length (contents s)" by (rule put_length [OF p])
  have n: "length (take (unat n) buf) = unat n" using buf by simp
  have same: "take (unat n) (drop (unat off) (contents s1)) = take (unat n) buf"
    using slice_put_same [OF p] buf by (simp add: slice_def min_absorb2 split: if_splits)
  have other: "take (unat n') (drop (unat off') (contents s1)) = take (unat n') (drop (unat off') (contents s))"
    if "unat off' + unat n' \<le> length (contents s)"
      "unat off' + unat n' \<le> unat off \<or> unat off + unat n \<le> unat off'" for off' n' :: u64
    using slice_put_other [OF p, of "unat off'" "unat n'"] that buf by (simp add: slice_def len min_absorb2)
  from read_in [OF s1(2) w] le len same have
    "\<exists>s2. storage_read ops off n s1 = (Ok (take (unat n) buf), s2) \<and> contents s2 = contents s1" by auto
  moreover have "\<exists>s2. storage_read ops off' n' s1 = (Ok (take (unat n') (drop (unat off') (contents s))), s2)"
    if "no_wrap off' n'" "unat off' + unat n' \<le> length (contents s)"
      "unat off' + unat n' \<le> unat off \<or> unat off + unat n \<le> unat off'" for off' n'
    using read_in [OF s1(2) that(1)] other [OF that(2,3)] that(2) len by auto
  ultimately show ?thesis using s1 by blast
qed

end

definition memory_ok :: "memory_storage \<Rightarrow> bool" where
  "memory_ok st \<longleftrightarrow> unat (ms_size st) = length (ms_data st)"

lemma no_wrap_add: "no_wrap a b \<Longrightarrow> unat (a + b) = unat a + unat b"
  by (simp add: no_wrap_def unat_word_ariths)

lemma memory_check:
  "no_wrap offset n \<Longrightarrow> offset > m \<or> offset + n > m \<longleftrightarrow> unat m < unat offset + unat n"
  by (auto simp: word_less_nat_alt no_wrap_add)

abbreviation memory_ops :: "memory_storage storage_ops" where
  "memory_ops \<equiv> fst (new_memory_storage [] 0)"

abbreviation memory_ro_ops :: "memory_storage storage_ops" where
  "memory_ro_ops \<equiv> fst (new_memory_ro_storage [] 0)"

interpretation mem: storage memory_ops ms_data memory_ok
  by unfold_locales
    (auto simp: storage_read_def storage_write_def storage_size_def new_memory_storage_def
      memory_storage_read_def memory_storage_write_def memory_storage_size_def memory_check
      memory_ok_def slice_def put_def as_int_small split: option.splits)

interpretation mem_ro: readable_storage memory_ro_ops ms_data memory_ok
  by unfold_locales
    (auto simp: storage_read_def storage_size_def new_memory_ro_storage_def
      memory_storage_read_def memory_storage_size_def memory_check
      memory_ok_def slice_def as_int_small split: option.splits)

subsection \<open>Windows\<close>

text \<open>
  The check and the forwarded call that the FMAP, section index and dcdir storages share: a
  request on a region of \<open>limit\<close> bytes at \<open>start\<close> of another storage.
\<close>

definition bounded_read :: "'s storage_ops \<Rightarrow> u64 \<Rightarrow> u64 \<Rightarrow> u64 \<Rightarrow> u64 \<Rightarrow> ('s, bytes) act" where
  "bounded_read base limit start offset n s =
     (if offset + n > limit then (Err, s) else storage_read base (offset + start) n s)"

definition bounded_write :: "'s storage_ops \<Rightarrow> u64 \<Rightarrow> u64 \<Rightarrow> bytes \<Rightarrow> u64 \<Rightarrow> u64 \<Rightarrow> ('s, unit) act" where
  "bounded_write base limit start buffer offset n s =
     (if offset + n > limit then (Err, s) else storage_write base buffer (offset + start) n s)"

definition window :: "u64 \<Rightarrow> u64 \<Rightarrow> bytes \<Rightarrow> bytes" where
  "window start limit c = take (unat limit) (drop (unat start) c)"

lemma length_window: "unat start + unat limit \<le> length c \<Longrightarrow> length (window start limit c) = unat limit"
  by (simp add: window_def)

lemma take_drop_window:
  "unat off + unat n \<le> unat limit \<Longrightarrow>
     take (unat n) (drop (unat off) (window start limit c)) = take (unat n) (drop (unat off + unat start) c)"
  by (simp add: window_def drop_take take_take min_absorb1)

lemma no_wrap_window:
  "no_wrap start limit \<Longrightarrow> unat off + unat n \<le> unat limit \<Longrightarrow> no_wrap (off + start) n \<and>
     unat (off + start) = unat off + unat start"
  by (simp add: no_wrap_def unat_word_ariths)

lemma put_window:
  assumes "put c (off + start) xs = Some c'" and "off + length xs \<le> limit" and "start + limit \<le> length c"
  shows "put (take limit (drop start c)) off xs = Some (take limit (drop start c'))"
proof -
  have len: "length c' = length c" by (rule put_length [OF assms(1)])
  obtain w where w: "put (take limit (drop start c)) off xs = Some w"
    using assms(2,3) by (auto simp: put_def)
  have "w = take limit (drop start c')"
  proof (rule nth_equalityI)
    show "length w = length (take limit (drop start c'))" using put_length [OF w] len by simp
  next
    fix i assume "i < length w"
    then have i: "i < limit" "i < length (take limit (drop start c))"
      using put_length [OF w] assms(3) by auto
    show "w ! i = take limit (drop start c') ! i"
      using put_nth [OF w i(2)] put_nth [OF assms(1), of "start + i"] i assms(3) len
      by (auto simp: add.commute)
  qed
  with w show ?thesis by simp
qed

context readable_storage
begin

lemma bounded_read_window:
  assumes ok: "ok s" and w: "no_wrap off n" and nw: "no_wrap start limit"
    and le: "unat start + unat limit \<le> length (contents s)"
  shows "\<exists>s'. bounded_read ops limit start off n s =
      (if unat off + unat n \<le> unat limit
       then Ok (take (unat n) (drop (unat off) (window start limit (contents s)))) else Err, s') \<and>
    ok s' \<and> contents s' = contents s"
proof (cases "unat off + unat n \<le> unat limit")
  case True
  then have "\<not> off + n > limit" by (simp add: word_less_nat_alt no_wrap_add [OF w])
  with True no_wrap_window [OF nw True] read_in [OF ok, of "off + start" n] le show ?thesis
    by (auto simp: bounded_read_def take_drop_window)
next
  case False
  then have "off + n > limit" by (simp add: word_less_nat_alt no_wrap_add [OF w])
  with False ok show ?thesis by (auto simp: bounded_read_def)
qed

text \<open>The sum of the check wraps: the region of the request can start before the window.\<close>

lemma bounded_read_escape:
  assumes ok: "ok s" and k: "0 < unat k" "k \<le> start" "k \<le> n" "unat n \<le> unat k + unat limit"
    and le: "unat start + unat limit \<le> length (contents s)" and nw: "no_wrap start limit"
  shows "\<exists>s'. bounded_read ops limit start (- k) n s =
      (Ok (take (unat n) (drop (unat start - unat k) (contents s))), s')"
proof -
  have d: "unat (start - k) = unat start - unat k" "unat (n - k) = unat n - unat k"
    using k by (simp_all add: unat_sub)
  have kn: "unat k \<le> unat n" "unat k \<le> unat start" using k by (simp_all add: word_le_nat_alt)
  have "\<not> - k + n > limit" using k(4) d kn by (simp add: word_less_nat_alt algebra_simps)
  moreover have "no_wrap (start - k) n" "unat (start - k) + unat n \<le> length (contents s)"
    using d kn k(4) le nw by (auto simp: no_wrap_def)
  ultimately show ?thesis
    using read_in [OF ok, of "start - k" n] d by (auto simp: bounded_read_def algebra_simps)
qed

end

context storage
begin

lemma bounded_write_window:
  assumes ok: "ok s" and w: "no_wrap off n" and nw: "no_wrap start limit"
    and le: "unat start + unat limit \<le> length (contents s)" and buf: "unat n \<le> length buf"
    and fits: "unat off + unat n \<le> unat limit"
  shows "\<exists>s'. bounded_write ops limit start buf off n s = (Ok (), s') \<and> ok s' \<and>
    put (contents s) (unat off + unat start) (take (unat n) buf) = Some (contents s') \<and>
    put (window start limit (contents s)) (unat off) (take (unat n) buf) = Some (window start limit (contents s'))"
proof -
  have "\<not> off + n > limit" using fits by (simp add: word_less_nat_alt no_wrap_add [OF w])
  moreover obtain s' where s': "storage_write ops buf (off + start) n s = (Ok (), s')" "ok s'"
      "put (contents s) (unat off + unat start) (take (unat n) buf) = Some (contents s')"
    using no_wrap_window [OF nw fits] write_in [OF ok, of "off + start" n buf] fits le buf by auto
  moreover have "length (take (unat n) buf) = unat n" using buf by simp
  ultimately show ?thesis
    using put_window [OF s'(3), of "unat limit"] put_length [OF s'(3)] fits le buf
    by (auto simp: bounded_write_def window_def add.commute)
qed

lemma bounded_write_out:
  "no_wrap off n \<Longrightarrow> unat limit < unat off + unat n \<Longrightarrow> bounded_write ops limit start buf off n s = (Err, s)"
  by (simp add: bounded_write_def word_less_nat_alt no_wrap_add)

end

end
