(* ===== verification/Legacy.thy ===== *)
theory Legacy
  imports Cbfs LzmaSafe Storage Registry
begin

text \<open>
  Booting a legacy payload (\<^verbatim>\<open>vboot/callbacks/legacy.c\<close>): the flash region of the board is read into
  memory, the file \<open>payload\<close> of its CBFS is loaded, and its segments are put where they belong.
  Memory is a map from addresses to bytes; the payload is an object of its own, which the segments
  do not overlap.
\<close>

subsection \<open>Segments\<close>

type_synonym phys_mem = "u64 \<Rightarrow> u8"

definition mem_load :: "phys_mem \<Rightarrow> u64 \<Rightarrow> nat \<Rightarrow> bytes" where
  "mem_load m a n = map (\<lambda>i. m (a + word_of_nat i)) [0..<n]"

definition mem_store :: "phys_mem \<Rightarrow> u64 \<Rightarrow> bytes \<Rightarrow> phys_mem" where
  "mem_store m a xs = (\<lambda>b. let i = unat (b - a) in if i < length xs then xs ! i else m b)"

record cbfs_payload_segment =
  ps_type :: u32
  ps_compression :: u32
  ps_offset :: u32
  ps_load_addr :: u64
  ps_len :: u32
  ps_mem_len :: u32

definition PAYLOAD_SEGMENT_CODE :: u32 where "PAYLOAD_SEGMENT_CODE = 0x45444F43"
definition PAYLOAD_SEGMENT_DATA :: u32 where "PAYLOAD_SEGMENT_DATA = 0x41544144"
definition PAYLOAD_SEGMENT_BSS :: u32 where "PAYLOAD_SEGMENT_BSS = 0x20535342"
definition PAYLOAD_SEGMENT_PARAMS :: u32 where "PAYLOAD_SEGMENT_PARAMS = 0x41524150"
definition PAYLOAD_SEGMENT_ENTRY :: u32 where "PAYLOAD_SEGMENT_ENTRY = 0x52544E45"

text \<open>The type is compared as it is stored, the other fields are big-endian.\<close>

definition segment_at :: "bytes \<Rightarrow> nat \<Rightarrow> cbfs_payload_segment res" where
  "segment_at payload p =
     map_res (\<lambda>b. \<lparr>ps_type = le32 (take 4 b), ps_compression = be32 (take 4 (drop 4 b)),
                ps_offset = be32 (take 4 (drop 8 b)), ps_load_addr = be64 (take 8 (drop 12 b)),
                ps_len = be32 (take 4 (drop 20 b)), ps_mem_len = be32 (take 4 (drop 24 b))\<rparr>)
       (of_opt (slice payload p 28))"

text \<open>The cases for code and data, and for zeroed memory; \<open>Err\<close> is the return from the function.\<close>

definition load_segment :: "u16 list \<Rightarrow> bytes \<Rightarrow> cbfs_payload_segment \<Rightarrow> phys_mem \<Rightarrow> phys_mem res" where
  "load_segment scratch payload sgm m =
     (if ps_type sgm = PAYLOAD_SEGMENT_CODE \<or> ps_type sgm = PAYLOAD_SEGMENT_DATA
      then if ps_compression sgm = CBFS_COMPRESS_NONE
        then if ps_mem_len sgm < ps_len sgm then Err
          else andthen (of_opt (slice payload (unat (ps_offset sgm)) (unat (ps_len sgm)))) (\<lambda>src.
            Ok (mem_store m (ps_load_addr sgm) src))
        else if ps_compression sgm = CBFS_COMPRESS_LZMA
        then if length payload < unat (ps_offset sgm) then Fault OutOfBounds
          else andthen (ulzman scratch (drop (unat (ps_offset sgm)) payload) (ucast (ps_len sgm))
              (mem_load m (ps_load_addr sgm) (unat (ps_mem_len sgm))) (ucast (ps_mem_len sgm))) (\<lambda>(n, out).
            if n = 0 then Err else Ok (mem_store m (ps_load_addr sgm) out))
        else Err
      else if ps_type sgm = PAYLOAD_SEGMENT_BSS
      then Ok (mem_store m (ps_load_addr sgm) (replicate (unat (ps_mem_len sgm)) 0))
      else if ps_type sgm = PAYLOAD_SEGMENT_PARAMS then Ok m
      else Err)"

text \<open>
  The loop over the segments.  The result is the address that is called, with the memory; \<open>Err\<close> when
  the function returns because of an error.
\<close>

lemma segment_at_bound: "segment_at payload p = Ok sgm \<Longrightarrow> p + 28 \<le> length payload"
  by (auto simp: segment_at_def map_res_Ok_iff slice_Some_iff)

function load_segments :: "u16 list \<Rightarrow> bytes \<Rightarrow> nat \<Rightarrow> phys_mem \<Rightarrow> (u64 \<times> phys_mem) res" where
  "load_segments scratch payload p m =
     andthen (segment_at payload p) (\<lambda>sgm.
     if ps_type sgm = PAYLOAD_SEGMENT_ENTRY then Ok (ps_load_addr sgm, m)
     else andthen (load_segment scratch payload sgm m) (\<lambda>m. load_segments scratch payload (p + 28) m))"
  by pat_completeness auto
termination
  by (relation "measure (\<lambda>(_, payload, p, _). length payload - p)") (auto dest!: segment_at_bound)

declare load_segments.simps [simp del]

text \<open>
  At the entry the cleanup events run before the call, whose code never returns; \<open>events\<close> is the
  list of events, and \<open>trig\<close> what each of them does.
\<close>

definition load_payload_and_run ::
  "u16 list \<Rightarrow> nat \<Rightarrow> ('p \<Rightarrow> u32) \<Rightarrow> ('p, 'c) trigger \<Rightarrow> 'p \<Rightarrow> bytes \<Rightarrow> phys_mem \<Rightarrow> 'p node_heap \<times> 'c
     \<Rightarrow> (u64 \<times> phys_mem \<times> 'p node_heap \<times> 'c) res" where
  "load_payload_and_run scratch fuel types trig events payload m st =
     andthen (load_segments scratch payload 0 m) (\<lambda>(entry, m).
     case cleanup_trigger fuel types trig events CleanupOnLegacy st of
       None \<Rightarrow> Fault Diverges | Some (r, st) \<Rightarrow> Ok (entry, m, st))"

text \<open>
  What the boot relies on: the configuration, the storage of the board, the allocator, the
  uninitialized stack of the decoder, and the cleanup events.
\<close>

record ('s, 'p, 'c) legacy_env =
  le_disabled :: bool
  le_storage :: "'s storage_ops"
  le_alloc :: "nat \<Rightarrow> bytes option"
  le_ram :: bool
  le_signed :: bool
  le_x86 :: bool
  le_sysinfo :: lib_sysinfo
  le_flash :: "cbfs_media option"
  le_scratch :: "u16 list"
  le_fuel :: nat
  le_types :: "'p \<Rightarrow> u32"
  le_trigger :: "('p, 'c) trigger"
  le_events :: 'p

definition VbExLegacy ::
  "('s, 'p, 'c) legacy_env \<Rightarrow> cbfs_default \<Rightarrow> phys_mem \<Rightarrow> 'p node_heap \<times> 'c \<Rightarrow> ('s, u64 \<times> phys_mem \<times> 'p node_heap \<times> 'c) act" where
  "VbExLegacy env d m st =
     (if le_disabled env then act_lift Err
      else act_bind (storage_size (le_storage env)) (\<lambda>sz.
        if sz < 0 then act_lift Err
        else act_bind (storage_read (le_storage env) 0 (word_of_int sz)) (\<lambda>buf.
          act_lift (
            andthen (init_cbfs_ram_media (le_ram env) buf (word_of_int sz)) (\<lambda>media.
            andthen (fst (cbfs_load_payload (le_fuel env) (le_signed env) (le_x86 env) (le_sysinfo env) (le_flash env)
              (le_scratch env) (le_alloc env) (Some media) (str ''payload'' @ [0]) d)) (\<lambda>payload.
            case payload of None \<Rightarrow> Err
            | Some p \<Rightarrow> load_payload_and_run (le_scratch env) (le_fuel env) (le_types env) (le_trigger env)
                (le_events env) p m st))))))"

subsection \<open>Memory\<close>

definition range_of :: "u64 \<Rightarrow> nat \<Rightarrow> u64 set" where
  "range_of a n = (\<lambda>i. a + word_of_nat i) ` {..<n}"

lemma in_range_of:
  assumes "n \<le> 2 ^ 32"
  shows "b \<in> range_of a n \<longleftrightarrow> unat (b - a) < n"
proof
  assume "b \<in> range_of a n"
  then obtain i where i: "i < n" "b = a + word_of_nat i" by (auto simp: range_of_def)
  then have "b - a = word_of_nat i" by simp
  then show "unat (b - a) < n" using i(1) assms by (simp add: unat_u64_of_nat)
next
  assume "unat (b - a) < n"
  moreover have "b = a + word_of_nat (unat (b - a))" by simp
  ultimately show "b \<in> range_of a n" unfolding range_of_def by blast
qed

lemma mem_store_other: "length xs \<le> 2 ^ 32 \<Longrightarrow> b \<notin> range_of a (length xs) \<Longrightarrow> mem_store m a xs b = m b"
  by (simp add: mem_store_def in_range_of Let_def)

lemma mem_store_load: "length xs \<le> 2 ^ 32 \<Longrightarrow> mem_load (mem_store m a xs) a (length xs) = xs"
  by (rule nth_equalityI) (simp_all add: mem_load_def mem_store_def unat_u64_of_nat)

lemma mem_load_cong: "(\<And>b. b \<in> range_of a n \<Longrightarrow> m b = m' b) \<Longrightarrow> mem_load m a n = mem_load m' a n"
  by (auto simp: mem_load_def range_of_def)

lemma mem_store_Nil [simp]: "mem_store m a [] = m"
  by (simp add: mem_store_def)

lemma length_mem_load [simp]: "length (mem_load m a n) = n"
  by (simp add: mem_load_def)

subsection \<open>Payloads\<close>

definition segment_bytes :: "cbfs_payload_segment \<Rightarrow> bytes" where
  "segment_bytes s = le_bytes 4 (unat (ps_type s)) @ htobe32 (ps_compression s) @ htobe32 (ps_offset s) @
     htobe64 (ps_load_addr s) @ htobe32 (ps_len s) @ htobe32 (ps_mem_len s)"

lemma length_segment [simp]: "length (segment_bytes s) = 28"
  by (simp add: segment_bytes_def)

lemma le32_unat: "le32 (le_bytes 4 (unat w)) = w"
  using unat_u32_less [of w] by (simp add: le32_def le_val_le_bytes)

lemma segment_at_bytes:
  assumes "payload = pre @ segment_bytes s @ rest" "length pre = p"
  shows "segment_at payload p = Ok s"
proof -
  have "slice payload p 28 = Some (segment_bytes s)" using assms by (simp add: slice_def)
  moreover have "\<lparr>ps_type = le32 (take 4 (segment_bytes s)), ps_compression = be32 (take 4 (drop 4 (segment_bytes s))),
      ps_offset = be32 (take 4 (drop 8 (segment_bytes s))), ps_load_addr = be64 (take 8 (drop 12 (segment_bytes s))),
      ps_len = be32 (take 4 (drop 20 (segment_bytes s))), ps_mem_len = be32 (take 4 (drop 24 (segment_bytes s)))\<rparr> = s"
    by (simp add: segment_bytes_def le32_unat be64_htobe64)
  ultimately show ?thesis by (simp add: segment_at_def)
qed

text \<open>How much memory a segment fills, and with what; \<open>None\<close> when it is not well-formed.\<close>

definition is_data :: "cbfs_payload_segment \<Rightarrow> bool" where
  "is_data s \<longleftrightarrow> ps_type s = PAYLOAD_SEGMENT_CODE \<or> ps_type s = PAYLOAD_SEGMENT_DATA"

definition segment_size :: "cbfs_payload_segment \<Rightarrow> nat" where
  "segment_size s =
     (if is_data s then if ps_compression s = CBFS_COMPRESS_NONE then unat (ps_len s) else unat (ps_mem_len s)
      else if ps_type s = PAYLOAD_SEGMENT_BSS then unat (ps_mem_len s) else 0)"

definition segment_range :: "cbfs_payload_segment \<Rightarrow> u64 set" where
  "segment_range s = range_of (ps_load_addr s) (segment_size s)"

definition segment_image :: "u16 list \<Rightarrow> bytes \<Rightarrow> phys_mem \<Rightarrow> cbfs_payload_segment \<Rightarrow> bytes option" where
  "segment_image scratch payload m s =
     (if is_data s
      then if ps_compression s = CBFS_COMPRESS_NONE
        then if ps_mem_len s < ps_len s then None else slice payload (unat (ps_offset s)) (unat (ps_len s))
        else if ps_compression s = CBFS_COMPRESS_LZMA \<and> unat (ps_offset s) + unat (ps_len s) \<le> length payload
        then case ulzman scratch (drop (unat (ps_offset s)) payload) (ucast (ps_len s))
              (mem_load m (ps_load_addr s) (unat (ps_mem_len s))) (ucast (ps_mem_len s)) of
            Ok (n, out) \<Rightarrow> if n = 0 then None else Some out | _ \<Rightarrow> None
        else None
      else if ps_type s = PAYLOAD_SEGMENT_BSS then Some (replicate (unat (ps_mem_len s)) 0)
      else if ps_type s = PAYLOAD_SEGMENT_PARAMS then Some [] else None)"

lemma segment_image_load:
  assumes "segment_image scratch payload m s = Some xs"
  shows "ps_type s \<noteq> PAYLOAD_SEGMENT_ENTRY \<and> load_segment scratch payload s m = Ok (mem_store m (ps_load_addr s) xs)"
  using assms
  by (auto simp: segment_image_def load_segment_def is_data_def PAYLOAD_SEGMENT_CODE_def PAYLOAD_SEGMENT_DATA_def
    PAYLOAD_SEGMENT_BSS_def PAYLOAD_SEGMENT_PARAMS_def PAYLOAD_SEGMENT_ENTRY_def CBFS_COMPRESS_NONE_def CBFS_COMPRESS_LZMA_def
    split: if_splits res.splits)

lemma segment_image_length:
  assumes "segment_image scratch payload m s = Some xs" "length scratch = 7990"
  shows "length xs = segment_size s"
proof (cases "is_data s \<and> ps_compression s \<noteq> CBFS_COMPRESS_NONE")
  case True
  let ?src = "drop (unat (ps_offset s)) payload" and ?dst = "mem_load m (ps_load_addr s) (unat (ps_mem_len s))"
  obtain n where r: "ulzman scratch ?src (ucast (ps_len s)) ?dst (ucast (ps_mem_len s)) = Ok (n, xs)"
    and le: "unat (ps_offset s) + unat (ps_len s) \<le> length payload"
    using assms(1) True by (auto simp: segment_image_def split: if_splits res.splits)
  have "slice ?src 0 5 \<noteq> None"
  proof
    assume "slice ?src 0 5 = None"
    then show False using r by (simp add: ulzman_def LZMA_PROPERTIES_SIZE_def)
  qed
  then have "5 \<le> length ?src" by (simp add: slice_def split: if_splits)
  then have "out_safe (out_limit ?dst ?src (ucast (ps_len s))) ?dst (ulzman scratch ?src (ucast (ps_len s)) ?dst (ucast (ps_mem_len s)))"
    by (rule ulzman_out_safe) (use le assms(2) in simp_all)
  then show ?thesis using r True by (auto simp: out_safe_def segment_size_def)
next
  case False
  then show ?thesis using assms(1)
    by (auto simp: segment_image_def segment_size_def slice_Some_iff split: if_splits)
qed

lemma segment_image_cong:
  assumes "\<And>b. b \<in> segment_range s \<Longrightarrow> m b = m' b"
  shows "segment_image scratch payload m s = segment_image scratch payload m' s"
proof (cases "is_data s \<and> ps_compression s \<noteq> CBFS_COMPRESS_NONE")
  case True
  then have "mem_load m (ps_load_addr s) (unat (ps_mem_len s)) = mem_load m' (ps_load_addr s) (unat (ps_mem_len s))"
    by (intro mem_load_cong assms) (simp add: segment_range_def segment_size_def)
  then show ?thesis by (simp add: segment_image_def)
qed (auto simp: segment_image_def)

lemma segment_size_bound: "segment_size s \<le> 2 ^ 32"
  using unat_u32_less [of "ps_len s"] unat_u32_less [of "ps_mem_len s"] by (simp add: segment_size_def)

text \<open>The segments do not overlap.\<close>

definition apart :: "cbfs_payload_segment list \<Rightarrow> bool" where
  "apart segs \<longleftrightarrow> sorted_wrt (\<lambda>s t. segment_range s \<inter> segment_range t = {}) segs"

lemma load_segments_image:
  assumes "payload = pre @ concat (map segment_bytes segs) @ segment_bytes e @ rest" and "length pre = p"
    and "ps_type e = PAYLOAD_SEGMENT_ENTRY" and "apart segs" and "length scratch = 7990"
    and "\<And>s. s \<in> set segs \<Longrightarrow> segment_image scratch payload m s \<noteq> None"
  shows "\<exists>m'. load_segments scratch payload p m = Ok (ps_load_addr e, m') \<and>
    (\<forall>s\<in>set segs. segment_image scratch payload m s = Some (mem_load m' (ps_load_addr s) (segment_size s))) \<and>
    (\<forall>b. (\<forall>s\<in>set segs. b \<notin> segment_range s) \<longrightarrow> m' b = m b)"
  using assms
proof (induction segs arbitrary: pre p m)
  case Nil
  then have "segment_at payload p = Ok e" by (intro segment_at_bytes) simp_all
  then show ?case using Nil by (subst load_segments.simps) simp
next
  case (Cons s segs)
  obtain xs where xs: "segment_image scratch payload m s = Some xs" using Cons.prems(6) [of s] by auto
  have len: "length xs = segment_size s" "length xs \<le> 2 ^ 32"
    using segment_image_length [OF xs Cons.prems(5)] segment_size_bound [of s] by simp_all
  let ?m = "mem_store m (ps_load_addr s) xs"
  have same: "?m b = m b" if "b \<notin> segment_range s" for b
    using mem_store_other [OF len(2)] that len(1) by (simp add: segment_range_def)
  have apart: "apart segs" and dis: "\<And>t. t \<in> set segs \<Longrightarrow> segment_range s \<inter> segment_range t = {}"
    using Cons.prems(4) by (simp_all add: apart_def)
  have img: "segment_image scratch payload ?m t = segment_image scratch payload m t" if "t \<in> set segs" for t
    by (rule segment_image_cong) (use dis [OF that] same in blast)
  have "\<exists>m'. load_segments scratch payload (p + 28) ?m = Ok (ps_load_addr e, m') \<and>
    (\<forall>t\<in>set segs. segment_image scratch payload ?m t = Some (mem_load m' (ps_load_addr t) (segment_size t))) \<and>
    (\<forall>b. (\<forall>t\<in>set segs. b \<notin> segment_range t) \<longrightarrow> m' b = ?m b)"
    by (rule Cons.IH [where pre = "pre @ segment_bytes s"]) (use Cons.prems apart img in auto)
  then obtain m' where m': "load_segments scratch payload (p + 28) ?m = Ok (ps_load_addr e, m')"
    "\<And>t. t \<in> set segs \<Longrightarrow> segment_image scratch payload ?m t = Some (mem_load m' (ps_load_addr t) (segment_size t))"
    "\<And>b. (\<And>t. t \<in> set segs \<Longrightarrow> b \<notin> segment_range t) \<Longrightarrow> m' b = ?m b" by blast
  have "segment_at payload p = Ok s"
    by (rule segment_at_bytes [where pre = pre]) (use Cons.prems(1,2) in simp_all)
  then have "load_segments scratch payload p m = Ok (ps_load_addr e, m')"
    using segment_image_load [OF xs] m'(1) by (subst load_segments.simps) simp
  moreover have "mem_load m' (ps_load_addr s) (segment_size s) = mem_load ?m (ps_load_addr s) (segment_size s)"
  proof (rule mem_load_cong)
    fix b assume "b \<in> range_of (ps_load_addr s) (segment_size s)"
    then show "m' b = ?m b" using m'(3) dis by (auto simp: segment_range_def)
  qed
  moreover have "mem_load ?m (ps_load_addr s) (segment_size s) = xs" using mem_store_load [OF len(2)] len(1) by simp
  ultimately show ?case using xs m'(2,3) img same by (intro exI [of _ m']) auto
qed

text \<open>A payload that can be loaded, and memory into which it has been.\<close>

definition loadable :: "u16 list \<Rightarrow> bytes \<Rightarrow> cbfs_payload_segment list \<Rightarrow> cbfs_payload_segment \<Rightarrow> phys_mem \<Rightarrow> bool" where
  "loadable scratch payload segs e m \<longleftrightarrow>
     (let t = concat (map segment_bytes segs) @ segment_bytes e in take (length t) payload = t) \<and>
     ps_type e = PAYLOAD_SEGMENT_ENTRY \<and> apart segs \<and> length scratch = 7990 \<and>
     (\<forall>s\<in>set segs. segment_image scratch payload m s \<noteq> None)"

definition loaded :: "u16 list \<Rightarrow> bytes \<Rightarrow> cbfs_payload_segment list \<Rightarrow> phys_mem \<Rightarrow> phys_mem \<Rightarrow> bool" where
  "loaded scratch payload segs m m' \<longleftrightarrow>
     (\<forall>s\<in>set segs. segment_image scratch payload m s = Some (mem_load m' (ps_load_addr s) (segment_size s))) \<and>
     (\<forall>b. (\<forall>s\<in>set segs. b \<notin> segment_range s) \<longrightarrow> m' b = m b)"

text \<open>The cleanup events of a legacy boot, run on \<open>st\<close>.\<close>

definition legacy_cleanup :: "('p \<Rightarrow> u32) \<Rightarrow> ('p, 'c) trigger \<Rightarrow> 'p list \<Rightarrow> 'p node_heap \<times> 'c \<Rightarrow> 'p node_heap \<times> 'c" where
  "legacy_cleanup types trig evs st =
     snd (run_events trig (filter (\<lambda>ev. types ev AND cleanup_bit CleanupOnLegacy \<noteq> 0) evs) False st)"

lemma load_payload_and_run_loads:
  assumes "loadable scratch payload segs e m"
    and "own_node_only trig" and "list_rep (fst st) events evs" and "length evs < fuel"
  shows "\<exists>m'. load_payload_and_run scratch fuel types trig events payload m st =
      Ok (ps_load_addr e, m', legacy_cleanup types trig evs st) \<and> loaded scratch payload segs m m'"
proof -
  let ?t = "concat (map segment_bytes segs) @ segment_bytes e"
  have eq: "payload = [] @ concat (map segment_bytes segs) @ segment_bytes e @ drop (length ?t) payload"
    using assms(1) append_take_drop_id [of "length ?t" payload] unfolding loadable_def Let_def by simp
  have "\<exists>m'. load_segments scratch payload 0 m = Ok (ps_load_addr e, m') \<and> loaded scratch payload segs m m'"
    unfolding loaded_def by (rule load_segments_image [OF eq]) (use assms(1) in \<open>simp_all add: loadable_def\<close>)
  then obtain m' where m': "load_segments scratch payload 0 m = Ok (ps_load_addr e, m')" "loaded scratch payload segs m m'"
    by blast
  then show ?thesis
    using cleanup_trigger_run [OF assms(2-4), of types CleanupOnLegacy]
    by (cases "run_events trig (filter (\<lambda>ev. types ev AND cleanup_bit CleanupOnLegacy \<noteq> 0) evs) False st")
      (auto simp: load_payload_and_run_def legacy_cleanup_def)
qed

subsection \<open>Properties\<close>

text \<open>The flash holds a file system with an uncompressed payload, and there is memory for it.\<close>

definition holds_payload :: "('s, 'p, 'c) legacy_env \<Rightarrow> bytes \<Rightarrow> nat \<Rightarrow> cbfs_item list \<Rightarrow> bytes \<Rightarrow> bool" where
  "holds_payload env img start items payload \<longleftrightarrow>
     cbfs_image (le_x86 env) img start items \<and> enough_fuel (le_fuel env) items \<and>
     (case find_item (str ''payload'') start items of None \<Rightarrow> False
      | Some (off, e) \<Rightarrow> ce_type e = CBFS_TYPE_PAYLOAD \<and> fst (entry_compression e) = CBFS_COMPRESS_NONE \<and>
          ce_data e = payload \<and> le_alloc env (length payload) \<noteq> None)"

text \<open>
  C7. Legacy boot, on any storage that keeps the storage contract: when it is not disabled and the
  storage holds a file system with a payload of code, data, zeroed and parameter segments that do
  not overlap, followed by an entry, then every segment is put in its place, copied, decompressed or
  zeroed, no other memory changes, the cleanup events for a legacy boot run, and the entry is
  called.
\<close>

theorem VbExLegacy_boots:
  assumes "readable_storage (le_storage env) contents ok" and "ok s" and "length (contents s) < 2 ^ 31"
    and "\<not> le_disabled env" and "le_ram env" and "allocates (le_alloc env)"
    and "holds_payload env (contents s) start items payload" and "payload \<noteq> []"
    and "loadable (le_scratch env) payload segs e m"
    and "own_node_only (le_trigger env)" and "list_rep (fst st) (le_events env) evs" and "length evs < le_fuel env"
  shows "\<exists>m' s'. VbExLegacy env d m st s =
      (Ok (ps_load_addr e, m', legacy_cleanup (le_types env) (le_trigger env) evs st), s') \<and>
    loaded (le_scratch env) payload segs m m' \<and> contents s' = contents s"
proof -
  let ?img = "contents s"
  obtain off f where img: "cbfs_image (le_x86 env) ?img start items" "enough_fuel (le_fuel env) items"
    and f: "find_item (str ''payload'') start items = Some (off, f)" "ce_type f = CBFS_TYPE_PAYLOAD"
      "fst (entry_compression f) = CBFS_COMPRESS_NONE" "ce_data f = payload" "le_alloc env (length payload) \<noteq> None"
    using assms(7) by (auto simp: holds_payload_def split: option.splits)
  obtain lim where lo: "laid_out ?img start items lim"
    using img(1) by (auto simp: cbfs_image_def Let_def split: res.splits)
  have "unat (snd (entry_compression f)) = length payload"
    using find_item_entry [OF lo f(1)] f(3,4) by (simp add: entry_ok_def)
  then have content: "named_content (le_scratch env) (le_alloc env) ?img (str ''payload'') CBFS_TYPE_PAYLOAD start items =
      Ok (with_size f (Some payload))"
    using f assms(8) by (auto simp: named_content_def stored_content_def)
  let ?sz = "word_of_int (int (length ?img)) :: u64"
  have usz: "unat ?sz = length ?img" using assms(3) by (simp add: unat_u64_of_nat)
  have "0 \<notin> set (str ''payload'')" by (simp add: str_def)
  from cbfs_load [OF img this assms(6) usz, where sg = "le_signed env" and sys = "le_sysinfo env" and init = "le_flash env"
    and scratch = "le_scratch env" and junk = "[]" and d = d] content
  obtain media where media: "init_cbfs_ram_media True ?img ?sz = Ok media"
    "fst (cbfs_load_payload (le_fuel env) (le_signed env) (le_x86 env) (le_sysinfo env) (le_flash env)
       (le_scratch env) (le_alloc env) (Some media) (str ''payload'' @ [0]) d) = Ok (Some payload)" by auto
  obtain s1 where s1: "storage_size (le_storage env) s = (Ok (int (length ?img)), s1)" "ok s1" "contents s1 = ?img"
    using readable_storage.size_ok [OF assms(1,2)] assms(3) by auto
  obtain s2 where s2: "storage_read (le_storage env) 0 ?sz s1 = (Ok ?img, s2)" "contents s2 = ?img"
    using readable_storage.read_in [OF assms(1) s1(2), of 0 ?sz] s1(3) usz assms(3) by (auto simp: no_wrap_def)
  obtain m' where m': "load_payload_and_run (le_scratch env) (le_fuel env) (le_types env) (le_trigger env) (le_events env) payload m st =
      Ok (ps_load_addr e, m', legacy_cleanup (le_types env) (le_trigger env) evs st)" "loaded (le_scratch env) payload segs m m'"
    using load_payload_and_run_loads [OF assms(9-12)] by blast
  have "VbExLegacy env d m st s =
      (Ok (ps_load_addr e, m', legacy_cleanup (le_types env) (le_trigger env) evs st), s2)"
    using assms(4,5) s1(1) s2(1) media m'(1) by (simp add: VbExLegacy_def act_bind_def act_lift_def)
  then show ?thesis using m'(2) s2(2) by blast
qed

subsection \<open>A payload\<close>

text \<open>Three bytes of data, four zeroed bytes and an entry; one event on the list of cleanup events.\<close>

definition data_segment :: cbfs_payload_segment where
  "data_segment = \<lparr>ps_type = PAYLOAD_SEGMENT_DATA, ps_compression = 0, ps_offset = 84, ps_load_addr = 0x1000, ps_len = 3, ps_mem_len = 3\<rparr>"

definition bss_segment :: cbfs_payload_segment where
  "bss_segment = \<lparr>ps_type = PAYLOAD_SEGMENT_BSS, ps_compression = 0, ps_offset = 0, ps_load_addr = 0x2000, ps_len = 0, ps_mem_len = 4\<rparr>"

definition entry_segment :: cbfs_payload_segment where
  "entry_segment = \<lparr>ps_type = PAYLOAD_SEGMENT_ENTRY, ps_compression = 0, ps_offset = 0, ps_load_addr = 0x1001, ps_len = 0, ps_mem_len = 0\<rparr>"

lemmas sample_segments = data_segment_def bss_segment_def entry_segment_def PAYLOAD_SEGMENT_DATA_def PAYLOAD_SEGMENT_CODE_def
  PAYLOAD_SEGMENT_BSS_def PAYLOAD_SEGMENT_ENTRY_def PAYLOAD_SEGMENT_PARAMS_def

definition sample_payload :: bytes where
  "sample_payload = segment_bytes data_segment @ segment_bytes bss_segment @ segment_bytes entry_segment @ [0xde, 0xad, 0xbe]"

definition payload_entry :: cbfs_entry where
  "payload_entry = \<lparr>ce_type = CBFS_TYPE_PAYLOAD, ce_name = str ''payload'', ce_pad = [], ce_attrs = [], ce_data = sample_payload\<rparr>"

definition payload_cbfs :: bytes where
  "payload_cbfs = entry_bytes payload_entry @ replicate 9 0xff @
     htobe32 CBFS_HEADER_MAGIC @ htobe32 0x31313131 @ htobe32 128 @ htobe32 0 @ htobe32 64 @ htobe32 0 @ htobe32 1 @ htobe32 0 @
     le_bytes 4 (unat (- 36 :: u32))"

definition sample_env :: "(memory_storage, nat, nat) legacy_env" where
  "sample_env = \<lparr>le_disabled = False, le_storage = memory_ops, le_alloc = (\<lambda>n. Some (replicate n 0)), le_ram = True,
     le_signed = True, le_x86 = False, le_sysinfo = \<lparr>cbfs_offset = 0, cbfs_size = 0\<rparr>, le_flash = None,
     le_scratch = replicate 7990 0, le_fuel = 10, le_types = (\<lambda>_. 8), le_trigger = (\<lambda>ev st. (False, fst st, snd st + ev)),
     le_events = 0\<rparr>"

lemma payload_lengths: "length sample_payload = 87" "length (entry_bytes payload_entry) = 119"
proof -
  show l: "length sample_payload = 87" by (simp add: sample_payload_def)
  show "length (entry_bytes payload_entry) = 119"
    by (simp add: length_entry data_start_def attrs_start_def payload_entry_def str_def attrs_bytes_def l)
qed

lemma payload_entry_ok: "entry_ok payload_entry"
  using payload_lengths by (simp add: entry_ok_def, simp add: payload_entry_def str_def entry_compression_def)

lemma payload_image: "cbfs_image False payload_cbfs 0 [File payload_entry]"
proof -
  let ?h = "htobe32 CBFS_HEADER_MAGIC @ htobe32 0x31313131 @ htobe32 128 @ htobe32 0 @ htobe32 64 @ htobe32 0 @ htobe32 1 @ htobe32 0 @
     le_bytes 4 (unat (- 36 :: u32))"
  have len: "length payload_cbfs = 164" by (simp add: payload_cbfs_def payload_lengths)
  have "drop 160 payload_cbfs = le_bytes 4 (unat (- 36 :: u32))" by (simp add: payload_cbfs_def payload_lengths)
  then have "le32 (drop (length payload_cbfs - 4) payload_cbfs) = - 36" by (simp add: len le32_def le_val_le_bytes)
  then have pos: "header_pos payload_cbfs = 128" by (simp add: header_pos_def len)
  have h: "drop 128 payload_cbfs = ?h" by (simp add: payload_cbfs_def payload_lengths)
  have f: "be32_at ?h 0 = Ok CBFS_HEADER_MAGIC" "be32_at ?h 8 = Ok 128" "be32_at ?h 20 = Ok 0"
    by (simp_all add: be32_at_def slice_def)
  then have "header_range False ?h = Ok (0, 128)" by (simp add: header_range_def)
  moreover have "slice payload_cbfs 0 119 = Some (entry_bytes payload_entry)"
    by (simp add: payload_cbfs_def slice_def payload_lengths)
  ultimately show ?thesis using pos h f(1) len payload_entry_ok by (simp add: cbfs_image_def payload_lengths align_up_def)
qed

lemma payload_held: "holds_payload sample_env payload_cbfs 0 [File payload_entry] sample_payload"
  using payload_image payload_lengths
  by (simp add: holds_payload_def sample_env_def enough_fuel_def)
    (simp add: payload_entry_def entry_compression_def)

lemma payload_loadable:
  "loadable (replicate 7990 0) sample_payload [data_segment, bss_segment] entry_segment m"
proof -
  have d: "segment_image (replicate 7990 0) sample_payload m data_segment = Some [0xde, 0xad, 0xbe]"
    by (simp add: segment_image_def is_data_def sample_segments CBFS_COMPRESS_NONE_def slice_def sample_payload_def)
  have b: "segment_image (replicate 7990 0) sample_payload m bss_segment = Some (replicate 4 0)"
    by (simp add: segment_image_def is_data_def sample_segments)
  have "segment_range data_segment \<inter> segment_range bss_segment = {}"
    by (auto simp: segment_range_def range_of_def segment_size_def is_data_def sample_segments CBFS_COMPRESS_NONE_def
      lessThan_nat_numeral lessThan_Suc)
  moreover have "ps_type entry_segment = PAYLOAD_SEGMENT_ENTRY" by (simp add: entry_segment_def)
  ultimately show ?thesis using d b by (simp add: loadable_def apart_def sample_payload_def)
qed

theorem VbExLegacy_boots_witness:
  "\<exists>m' h s'. VbExLegacy sample_env \<lparr>is_default_cbfs_media_initialized = True, default_cbfs_media = ram_source []\<rparr> (\<lambda>_. 0xcc)
      (cleanup_add 0 1 empty_heap, 0) \<lparr>ms_data = payload_cbfs, ms_size = 164\<rparr> = (Ok (0x1001, m', h, 1), s') \<and>
    loaded (replicate 7990 0) sample_payload [data_segment, bss_segment] (\<lambda>_. 0xcc) m'"
proof -
  have rep: "list_rep (cleanup_add 0 1 empty_heap) 0 [1]"
    unfolding cleanup_add_def by (intro lst.rep_insert empty_heap_rep) auto
  have own: "own_node_only (le_trigger sample_env)" by (simp add: own_node_only_def sample_env_def)
  have len: "length payload_cbfs = 164" by (simp add: payload_cbfs_def payload_lengths)
  let ?st = "(cleanup_add 0 1 empty_heap, 0 :: nat)"
  have "(8 :: u32) AND 8 \<noteq> 0" by simp
  then have run: "legacy_cleanup (le_types sample_env) (le_trigger sample_env) [1] ?st = (cleanup_add 0 1 empty_heap, 1)"
    by (simp add: legacy_cleanup_def sample_env_def)
  have "\<exists>m' s'. VbExLegacy sample_env \<lparr>is_default_cbfs_media_initialized = True, default_cbfs_media = ram_source []\<rparr> (\<lambda>_. 0xcc)
      ?st \<lparr>ms_data = payload_cbfs, ms_size = 164\<rparr> =
      (Ok (ps_load_addr entry_segment, m', legacy_cleanup (le_types sample_env) (le_trigger sample_env) [1] ?st), s') \<and>
    loaded (le_scratch sample_env) sample_payload [data_segment, bss_segment] (\<lambda>_. 0xcc) m' \<and> ms_data s' = ms_data \<lparr>ms_data = payload_cbfs, ms_size = 164\<rparr>"
  proof (rule VbExLegacy_boots)
    show "readable_storage (le_storage sample_env) ms_data memory_ok"
      using mem.readable_storage_axioms by (simp add: sample_env_def)
    show "holds_payload sample_env (ms_data \<lparr>ms_data = payload_cbfs, ms_size = 164\<rparr>) 0 [File payload_entry] sample_payload"
      using payload_held by simp
    show "loadable (le_scratch sample_env) sample_payload [data_segment, bss_segment] entry_segment (\<lambda>_. 0xcc)"
      using payload_loadable by (simp add: sample_env_def)
  qed (use own rep len payload_lengths in \<open>auto simp: sample_env_def memory_ok_def allocates_def\<close>)
  then show ?thesis unfolding run by (auto simp: entry_segment_def sample_env_def)
qed

end
