(* ===== verification/Ec.thy ===== *)
theory Ec
  imports Prelude
begin

text \<open>
  The ChromeOS embedded controller, \<^verbatim>\<open>drivers/ec/cros/ec.c\<close>: the two versions of the host command
  protocol over the operations of a bus.  The other commands are in EcCommands.

  The result of a C function is an \<open>int\<close>, and the buffer of the caller is passed in and returned.  A
  NULL buffer has length 0, and a structure is the list of its bytes.  The static variables are the
  record \<open>ec\<close>; \<open>ec_world\<close> is the state of the bus, the EC and the clock.
\<close>

subsection \<open>The bus and the driver\<close>

text \<open>
  \<open>send_packet\<close> gets the packet and the bytes of the response buffer and returns a status and the
  new bytes; \<open>send_command\<close> likewise.
\<close>

record 'w ec_bus =
  bus_init :: "('w \<Rightarrow> int \<times> 'w) option"
  bus_send_command :: "u8 \<Rightarrow> int \<Rightarrow> bytes \<Rightarrow> bytes \<Rightarrow> 'w \<Rightarrow> int \<times> bytes \<times> 'w"
  bus_send_packet :: "(bytes \<Rightarrow> bytes \<Rightarrow> 'w \<Rightarrow> int \<times> bytes \<times> 'w) option"

datatype send_command_func = SendProto2 | SendProto3

record 'w ec =
  ec_bus_ops :: "'w ec_bus option"
  ec_interrupt_gpio :: "('w \<Rightarrow> int \<times> 'w) option"
  ec_send_func :: "send_command_func option"
  proto3_request :: bytes
  proto3_request_size :: int
  proto3_response :: bytes
  proto3_response_size :: int
  max_param_size :: int
  passthru_param_size :: int
  ec_initialized :: bool
  ec_world :: 'w

text \<open>The static variables when the program starts.\<close>

definition ec_static :: "'w \<Rightarrow> 'w ec" where
  "ec_static w = \<lparr>ec_bus_ops = None, ec_interrupt_gpio = None, ec_send_func = None, proto3_request = [],
     proto3_request_size = 0, proto3_response = [], proto3_response_size = 0, max_param_size = 0,
     passthru_param_size = 0, ec_initialized = False, ec_world = w\<rparr>"

text \<open>
  The clock, and what uninitialized memory of a size holds.  Waiting loops take \<open>me_fuel\<close> rounds at
  most.
\<close>

record 'w machine =
  me_time :: "'w \<Rightarrow> u64 \<times> 'w"
  me_delay :: "nat \<Rightarrow> 'w \<Rightarrow> 'w"
  me_uninit :: "nat \<Rightarrow> bytes"
  me_fuel :: nat
  me_passthru :: bool

definition machine_wf :: "'w machine \<Rightarrow> bool" where
  "machine_wf env \<longleftrightarrow> (\<forall>n. length (me_uninit env n) = n)"

definition time_now :: "'w machine \<Rightarrow> ('w ec, u64) act" where
  "time_now env s = (case me_time env (ec_world s) of (t, w) \<Rightarrow> (Ok t, s\<lparr>ec_world := w\<rparr>))"

definition time_since :: "'w machine \<Rightarrow> u64 \<Rightarrow> ('w ec, u64) act" where
  "time_since env start = act_bind (time_now env) (\<lambda>t. act_lift (Ok (t - start)))"

definition mdelay :: "'w machine \<Rightarrow> nat \<Rightarrow> ('w ec, unit) act" where
  "mdelay env ms s = (Ok (), s\<lparr>ec_world := me_delay env ms (ec_world s)\<rparr>)"

definition cros_ec_set_bus :: "'w ec_bus \<Rightarrow> ('w ec, int) act" where
  "cros_ec_set_bus bus s =
     (case ec_bus_ops s of Some _ \<Rightarrow> (Ok (- 1), s) | None \<Rightarrow> (Ok 0, s\<lparr>ec_bus_ops := Some bus\<rparr>))"

subsection \<open>Packets\<close>

definition EC_HOST_REQUEST_VERSION :: u8 where "EC_HOST_REQUEST_VERSION = 3"
definition EC_HOST_RESPONSE_VERSION :: u8 where "EC_HOST_RESPONSE_VERSION = 3"
definition EC_RES_INVALID_COMMAND :: int where "EC_RES_INVALID_COMMAND = 1"
definition EC_RES_INVALID_PARAM :: int where "EC_RES_INVALID_PARAM = 3"
definition EC_RES_INVALID_RESPONSE :: int where "EC_RES_INVALID_RESPONSE = 5"
definition EC_RES_INVALID_CHECKSUM :: int where "EC_RES_INVALID_CHECKSUM = 7"
definition EC_RES_IN_PROGRESS :: int where "EC_RES_IN_PROGRESS = 8"
definition EC_RES_TIMEOUT :: int where "EC_RES_TIMEOUT = 10"
definition EC_RES_REQUEST_TRUNCATED :: int where "EC_RES_REQUEST_TRUNCATED = 13"
definition EC_RES_RESPONSE_TOO_BIG :: int where "EC_RES_RESPONSE_TOO_BIG = 14"
definition EC_CMD_GET_COMMS_STATUS :: int where "EC_CMD_GET_COMMS_STATUS = 0x09"
definition EC_CMD_RESEND_RESPONSE :: int where "EC_CMD_RESEND_RESPONSE = 0xdb"
definition EC_COMMS_STATUS_PROCESSING :: u32 where "EC_COMMS_STATUS_PROCESSING = 1"
definition CROS_EC_CMD_TIMEOUT_MS :: u64 where "CROS_EC_CMD_TIMEOUT_MS = 5000"
definition EC_PROTO2_MAX_PARAM_SIZE :: int where "EC_PROTO2_MAX_PARAM_SIZE = 0xfc"
definition DEFAULT_BUF_SIZE :: int where "DEFAULT_BUF_SIZE = 0x100"
definition sizeof_host_header :: int where "sizeof_host_header = 8"

text \<open>A sum of \<open>size_t\<close> stored in an \<open>int\<close>: it wraps at 32 bits.\<close>

definition c_int :: "int \<Rightarrow> int" where
  "c_int k = sint (word_of_int k :: u32)"

lemma c_int_small: "- 2147483648 \<le> k \<Longrightarrow> k < 2147483648 \<Longrightarrow> c_int k = k"
  by (simp add: c_int_def signed_of_int signed_take_bit_int_eq_self)

lemma c_int_wraps: "2147483648 \<le> k \<Longrightarrow> k < 4294967296 \<Longrightarrow> c_int k = k - 4294967296"
proof -
  assume k: "2147483648 \<le> k" "k < 4294967296"
  have "word_of_int k = (word_of_int (k - 4294967296) :: u32)"
    by (rule word_of_int_eq_iff [THEN iffD2]) (simp add: take_bit_eq_mod)
  then have "c_int k = c_int (k - 4294967296)" by (simp only: c_int_def)
  also have "\<dots> = k - 4294967296" using k by (intro c_int_small) simp_all
  finally show ?thesis .
qed

definition le16_at :: "bytes \<Rightarrow> nat \<Rightarrow> u16 res" where
  "le16_at p off = map_res le16 (of_opt (slice p off 2))"

definition le32_at :: "bytes \<Rightarrow> nat \<Rightarrow> u32 res" where
  "le32_at p off = map_res le32 (of_opt (slice p off 4))"

definition cros_ec_calc_checksum :: "bytes \<Rightarrow> int \<Rightarrow> u8 res" where
  "cros_ec_calc_checksum data sz = map_res sum_list (of_opt (slice data 0 (nat sz)))"

text \<open>The header of a request, the size of the packet and the new contents of the buffer.\<close>

definition request_header :: "u8 \<Rightarrow> int \<Rightarrow> int \<Rightarrow> nat \<Rightarrow> bytes" where
  "request_header csum cmd cmd_version dout_len =
     [EC_HOST_REQUEST_VERSION, csum] @ le_bytes 2 (unat (word_of_int cmd :: u16)) @ [word_of_int cmd_version, 0] @
     le_bytes 2 (unat (word_of_nat dout_len :: u16))"

definition create_proto3_request :: "bytes \<Rightarrow> int \<Rightarrow> int \<Rightarrow> int \<Rightarrow> bytes \<Rightarrow> (int \<times> bytes) res" where
  "create_proto3_request rq rq_size cmd cmd_version dout =
     (let out_bytes = c_int (int (length dout) + sizeof_host_header) in
      if out_bytes > rq_size then Ok (- EC_RES_REQUEST_TRUNCATED, rq)
      else andthen (of_opt (put rq 0 (request_header 0 cmd cmd_version (length dout) @ dout))) (\<lambda>rq.
        andthen (cros_ec_calc_checksum rq out_bytes) (\<lambda>c.
        andthen (of_opt (put rq 1 [- c])) (\<lambda>rq. Ok (out_bytes, rq)))))"

definition prepare_proto3_response_buffer :: "int \<Rightarrow> int \<Rightarrow> int" where
  "prepare_proto3_response_buffer rs_size din_len =
     (let in_bytes = c_int (din_len + sizeof_host_header) in
      if in_bytes > rs_size then - EC_RES_RESPONSE_TOO_BIG else in_bytes)"

definition handle_proto3_response :: "bytes \<Rightarrow> bytes \<Rightarrow> (int \<times> bytes) res" where
  "handle_proto3_response rs din =
     andthen (of_opt (rd rs 0)) (\<lambda>struct_version.
     if struct_version \<noteq> EC_HOST_RESPONSE_VERSION then Ok (- EC_RES_INVALID_RESPONSE, din)
     else andthen (le16_at rs 6) (\<lambda>reserved.
     if reserved \<noteq> 0 then Ok (- EC_RES_INVALID_RESPONSE, din)
     else andthen (le16_at rs 4) (\<lambda>data_len.
     if uint data_len > int (length din) then Ok (- EC_RES_RESPONSE_TOO_BIG, din)
     else andthen (cros_ec_calc_checksum rs (sizeof_host_header + uint data_len)) (\<lambda>csum.
     if csum \<noteq> 0 then Ok (- EC_RES_INVALID_CHECKSUM, din)
     else andthen (le16_at rs 2) (\<lambda>result.
     if result \<noteq> 0 then Ok (- uint result, din)
     else andthen (of_opt (slice rs 8 (length din))) (\<lambda>din. Ok (uint data_len, din)))))))"

subsection \<open>Protocol version 3\<close>

definition send_command_proto3_work :: "int \<Rightarrow> int \<Rightarrow> bytes \<Rightarrow> bytes \<Rightarrow> ('w ec, int \<times> bytes) act" where
  "send_command_proto3_work cmd cmd_version dout din s =
     act_bind (act_lift (create_proto3_request (proto3_request s) (proto3_request_size s) cmd cmd_version dout))
       (\<lambda>(out_bytes, rq) s. let s = s\<lparr>proto3_request := rq\<rparr> in
        if out_bytes < 0 then (Ok (out_bytes, din), s)
        else let in_bytes = prepare_proto3_response_buffer (proto3_response_size s) (int (length din)) in
        if in_bytes < 0 then (Ok (in_bytes, din), s)
        else case ec_bus_ops s of None \<Rightarrow> (Fault NullDeref, s)
        | Some bus \<Rightarrow> (case bus_send_packet bus of None \<Rightarrow> (Fault NullDeref, s)
          | Some send_packet \<Rightarrow>
            (case (slice (proto3_request s) 0 (nat out_bytes), slice (proto3_response s) 0 (nat in_bytes)) of
               (Some request, Some response) \<Rightarrow>
                 (case send_packet request response (ec_world s) of
                    (rv, response, w) \<Rightarrow>
                      (case put (proto3_response s) 0 response of
                         None \<Rightarrow> (Fault OutOfBounds, s)
                       | Some buf \<Rightarrow>
                         let s = s\<lparr>ec_world := w, proto3_response := buf\<rparr> in
                         if rv < 0 then (Ok (rv, din), s) else (handle_proto3_response buf din, s)))
             | _ \<Rightarrow> (Fault OutOfBounds, s)))) s"

text \<open>
  The loop that waits until the EC is no longer busy; \<open>send\<close> is the function of the protocol.  The
  result is an error to return, if any.
\<close>

type_synonym 'w ec_send = "int \<Rightarrow> int \<Rightarrow> bytes \<Rightarrow> bytes \<Rightarrow> ('w ec, int \<times> bytes) act"

fun wait_completed :: "nat \<Rightarrow> 'w machine \<Rightarrow> 'w ec_send \<Rightarrow> u64 \<Rightarrow> ('w ec, int option) act" where
  "wait_completed 0 env send start = act_lift (Fault Diverges)"
| "wait_completed (Suc fuel) env send start =
     act_bind (mdelay env 50) (\<lambda>_.
     act_bind (send EC_CMD_GET_COMMS_STATUS 0 [] (me_uninit env 4)) (\<lambda>(ret, resp).
     if ret < 0 then act_lift (Ok (Some ret))
     else act_bind (time_since env start) (\<lambda>t.
     if CROS_EC_CMD_TIMEOUT_MS * 1000 < t then act_lift (Ok (Some (- EC_RES_TIMEOUT)))
     else act_bind (act_lift (le32_at resp 0)) (\<lambda>flags.
     if flags AND EC_COMMS_STATUS_PROCESSING \<noteq> 0 then wait_completed fuel env send start
     else act_lift (Ok None)))))"

definition send_and_wait :: "'w machine \<Rightarrow> 'w ec_send \<Rightarrow> 'w ec_send" where
  "send_and_wait env send cmd cmd_version dout din =
     act_bind (send cmd cmd_version dout din) (\<lambda>(rv, din).
     if rv = - EC_RES_IN_PROGRESS
     then act_bind (time_now env) (\<lambda>start.
       act_bind (wait_completed (me_fuel env) env send start) (\<lambda>err.
       case err of Some e \<Rightarrow> act_lift (Ok (e, din)) | None \<Rightarrow> send EC_CMD_RESEND_RESPONSE 0 [] din))
     else act_lift (Ok (rv, din)))"

definition send_command_proto3 :: "'w machine \<Rightarrow> 'w ec_send" where
  "send_command_proto3 env = send_and_wait env send_command_proto3_work"

subsection \<open>Protocol version 2\<close>

definition bus_command :: "'w ec_send" where
  "bus_command cmd cmd_version dout din s =
     (case ec_bus_ops s of None \<Rightarrow> (Fault NullDeref, s)
      | Some bus \<Rightarrow>
        (case bus_send_command bus (word_of_int cmd) cmd_version dout din (ec_world s) of
           (len, buf, w) \<Rightarrow>
             (case put din 0 buf of None \<Rightarrow> (Fault OutOfBounds, s)
              | Some din \<Rightarrow> (Ok (len, din), s\<lparr>ec_world := w\<rparr>))))"

definition send_command_proto2 :: "'w machine \<Rightarrow> 'w ec_send" where
  "send_command_proto2 env cmd cmd_version dout din s =
     (if Option.is_none (ec_bus_ops s) then (Ok (- 1, din), s)
      else if cmd > 0xff then (Ok (- EC_RES_INVALID_COMMAND, din), s)
      else send_and_wait env bus_command cmd cmd_version dout din s)"

text \<open>\<open>ec_command\<close> once the driver is initialized.\<close>

definition ec_command_ready :: "'w machine \<Rightarrow> 'w ec_send" where
  "ec_command_ready env cmd cmd_version dout din s =
     (case ec_send_func s of None \<Rightarrow> (Fault AssertFail, s)
      | Some SendProto3 \<Rightarrow> send_command_proto3 env cmd cmd_version dout din s
      | Some SendProto2 \<Rightarrow> send_command_proto2 env cmd cmd_version dout din s)"

text \<open>
  The comparison \<open>ec_command(...) < sizeof(r)\<close> is one of \<open>size_t\<close>s: a negative number is not less.
\<close>

definition less_than_size :: "int \<Rightarrow> nat \<Rightarrow> bool" where
  "less_than_size rv n \<longleftrightarrow> (word_of_int rv :: u64) < word_of_nat n"

subsection \<open>Initialization\<close>

definition EC_CMD_GET_PROTOCOL_INFO :: int where "EC_CMD_GET_PROTOCOL_INFO = 0x0b"
definition EC_CMD_GET_VERSION :: int where "EC_CMD_GET_VERSION = 0x02"
definition EC_CMD_HOST_EVENT_CLEAR_B :: int where "EC_CMD_HOST_EVENT_CLEAR_B = 0x8f"
definition EC_HOST_EVENT_KEYBOARD_RECOVERY :: nat where "EC_HOST_EVENT_KEYBOARD_RECOVERY = 15"
definition EC_HOST_EVENT_INVALID :: nat where "EC_HOST_EVENT_INVALID = 32"
definition EC_IMAGE_RO :: u32 where "EC_IMAGE_RO = 1"
definition EC_IMAGE_RW :: u32 where "EC_IMAGE_RW = 2"
definition MSG_BYTES :: nat where "MSG_BYTES = 257"

definition EC_CMD_PASSTHRU_OFFSET :: "int \<Rightarrow> int" where
  "EC_CMD_PASSTHRU_OFFSET n = 0x4000 * n"

definition EC_HOST_EVENT_MASK :: "nat \<Rightarrow> u32" where
  "EC_HOST_EVENT_MASK event_code = push_bit (event_code - 1) 1"

text \<open>
  Three commands are used while the driver is being initialized, so \<open>ec_command\<close> is an argument here.
\<close>

definition get_protocol_info :: "'w ec_send \<Rightarrow> int \<Rightarrow> bytes \<Rightarrow> ('w ec, int \<times> bytes) act" where
  "get_protocol_info command devidx info =
     act_bind (command (EC_CMD_PASSTHRU_OFFSET devidx + EC_CMD_GET_PROTOCOL_INFO) 0 [] info) (\<lambda>(rv, info).
     act_lift (Ok (if less_than_size rv 12 then - 1 else 0, info)))"

text \<open>\<open>id\<close> is the buffer of \<open>maxlen\<close> bytes; the first versions of the response are read-only and writable.\<close>

definition read_id :: "'w machine \<Rightarrow> 'w ec_send \<Rightarrow> bytes \<Rightarrow> ('w ec, int \<times> bytes) act" where
  "read_id env command idbuf =
     act_bind (command EC_CMD_GET_VERSION 0 [] (me_uninit env 100)) (\<lambda>(rv, r).
     if less_than_size rv 100 then act_lift (Ok (- 1, idbuf))
     else let maxlen = (if length idbuf > 32 then 32 else length idbuf) in
       act_bind (act_lift (le32_at r 96)) (\<lambda>current_image.
       if current_image = EC_IMAGE_RO \<or> current_image = EC_IMAGE_RW
       then act_lift (andthen (of_opt (slice r (if current_image = EC_IMAGE_RO then 0 else 32) maxlen)) (\<lambda>v.
         andthen (of_opt (put idbuf 0 v)) (\<lambda>idbuf.
         if maxlen = 0 then Fault OutOfBounds
         else map_res (Pair 0) (of_opt (put idbuf (maxlen - 1) [0])))))
       else act_lift (Ok (- 1, idbuf))))"

definition clear_host_events :: "'w ec_send \<Rightarrow> u32 \<Rightarrow> ('w ec, int) act" where
  "clear_host_events command events =
     act_bind (command EC_CMD_HOST_EVENT_CLEAR_B 0 (le_bytes 4 (unat events)) []) (\<lambda>(rv, _).
     act_lift (Ok (if rv < 0 then - 1 else 0)))"

definition set_max_proto3_sizes :: "'w machine \<Rightarrow> int \<Rightarrow> int \<Rightarrow> int \<Rightarrow> ('w ec, int) act" where
  "set_max_proto3_sizes env request_size response_size passthru_size s =
     (let maxp = request_size - sizeof_host_header; passthru = passthru_size - sizeof_host_header in
      (Ok 0, s\<lparr>proto3_request := (if request_size \<noteq> 0 then me_uninit env (nat request_size) else []),
        proto3_response := (if response_size \<noteq> 0 then me_uninit env (nat response_size) else []),
        proto3_request_size := request_size, proto3_response_size := response_size,
        max_param_size := maxp, passthru_param_size := (if passthru > maxp then maxp else passthru)\<rparr>))"

text \<open>\<open>me_passthru\<close> is \<open>CONFIG_DRIVER_EC_CROS_PASSTHRU\<close>.\<close>

definition cros_ec_probe_passthru :: "'w machine \<Rightarrow> ('w ec, int) act" where
  "cros_ec_probe_passthru env =
     (if \<not> me_passthru env then act_lift (Ok 0)
      else act_bind (get_protocol_info (ec_command_ready env) 1 (me_uninit env 12)) (\<lambda>(rv, infopd).
        if rv \<noteq> 0 then act_lift (Ok 0) else act_lift (map_res uint (le16_at infopd 4))))"

definition choose_protocol :: "'w machine \<Rightarrow> ('w ec, unit) act" where
  "choose_protocol env =
     act_bind (\<lambda>s. (Ok (), s\<lparr>ec_send_func := Some SendProto3\<rparr>)) (\<lambda>_.
     act_bind (set_max_proto3_sizes env DEFAULT_BUF_SIZE DEFAULT_BUF_SIZE DEFAULT_BUF_SIZE) (\<lambda>_.
     act_bind (get_protocol_info (ec_command_ready env) 0 (me_uninit env 12)) (\<lambda>(rv, info).
     if rv \<noteq> 0
     then act_bind (set_max_proto3_sizes env 0 0 0) (\<lambda>_ s. (Ok (), s\<lparr>ec_send_func := None\<rparr>))
     else act_bind (cros_ec_probe_passthru env) (\<lambda>passthru_size.
       act_bind (act_lift (le16_at info 4)) (\<lambda>request_size.
       act_bind (act_lift (le16_at info 6)) (\<lambda>response_size.
       act_bind (set_max_proto3_sizes env (uint request_size) (uint response_size) passthru_size)
         (\<lambda>_. act_lift (Ok ()))))))))"

definition fall_back :: "('w ec, unit) act" where
  "fall_back s =
     (case ec_send_func s of Some _ \<Rightarrow> (Ok (), s)
      | None \<Rightarrow> (Ok (), s\<lparr>ec_send_func := Some SendProto2, max_param_size := EC_PROTO2_MAX_PARAM_SIZE\<rparr>))"

definition cros_ec_init :: "'w machine \<Rightarrow> ('w ec, int) act" where
  "cros_ec_init env s =
     (if ec_initialized s then (Ok 0, s)
      else case ec_bus_ops s of None \<Rightarrow> (Ok (- 1), s)
      | Some bus \<Rightarrow>
        (case (case bus_init bus of None \<Rightarrow> (0, ec_world s) | Some init \<Rightarrow> init (ec_world s)) of
           (rv, w) \<Rightarrow>
             let s = s\<lparr>ec_world := w\<rparr> in
             if rv \<noteq> 0 then (Ok (- 1), s)
             else act_bind (case bus_send_packet bus of Some _ \<Rightarrow> choose_protocol env | None \<Rightarrow> act_lift (Ok ())) (\<lambda>_.
               act_bind fall_back (\<lambda>_.
               act_bind (read_id env (ec_command_ready env) (me_uninit env MSG_BYTES)) (\<lambda>(rv, _).
               if rv \<noteq> 0 then (\<lambda>s. (Ok (- 1), s\<lparr>ec_initialized := False\<rparr>))
               else act_bind (clear_host_events (ec_command_ready env) (EC_HOST_EVENT_MASK EC_HOST_EVENT_KEYBOARD_RECOVERY))
                 (\<lambda>_. act_lift (Ok 0))))) (s\<lparr>ec_initialized := True\<rparr>)))"

definition ec_command :: "'w machine \<Rightarrow> 'w ec_send" where
  "ec_command env cmd cmd_version dout din s =
     (if ec_initialized s then ec_command_ready env cmd cmd_version dout din s
      else act_bind (cros_ec_init env) (\<lambda>rv.
        if rv \<noteq> 0 then act_lift (Ok (- 1, din)) else ec_command_ready env cmd cmd_version dout din) s)"

definition cros_ec_get_protocol_info :: "'w machine \<Rightarrow> int \<Rightarrow> bytes \<Rightarrow> ('w ec, int \<times> bytes) act" where
  "cros_ec_get_protocol_info env = get_protocol_info (ec_command env)"

definition cros_ec_read_id :: "'w machine \<Rightarrow> bytes \<Rightarrow> ('w ec, int \<times> bytes) act" where
  "cros_ec_read_id env = read_id env (ec_command env)"

definition cros_ec_clear_host_events :: "'w machine \<Rightarrow> u32 \<Rightarrow> ('w ec, int) act" where
  "cros_ec_clear_host_events env = clear_host_events (ec_command env)"

end
