(* ===== verification/EcCommands.thy ===== *)
theory EcCommands
  imports Ec
begin

text \<open>
  The commands of \<^verbatim>\<open>drivers/ec/cros/ec.c\<close> that are not used by its initialization.  A structure that
  the C code leaves partly uninitialized holds \<open>me_uninit\<close> there; an out-parameter is returned beside
  the result, and is given its old value where the code may leave it alone.
\<close>

subsection \<open>Versions, keyboard, images\<close>

definition EC_VER_MASK :: "nat \<Rightarrow> u32" where
  "EC_VER_MASK version = push_bit version 1"

definition cros_ec_get_cmd_versions :: "'w machine \<Rightarrow> int \<Rightarrow> int \<Rightarrow> ('w ec, int \<times> u32) act" where
  "cros_ec_get_cmd_versions env devidx cmd =
     act_bind (ec_command env (EC_CMD_PASSTHRU_OFFSET devidx + 0x08) 0 [word_of_int cmd] (me_uninit env 4)) (\<lambda>(rv, r).
     if less_than_size rv 4 then act_lift (Ok (- 1, 0))
     else act_lift (map_res (Pair 0) (le32_at r 0)))"

definition cros_ec_cmd_version_supported :: "'w machine \<Rightarrow> int \<Rightarrow> int \<Rightarrow> nat \<Rightarrow> ('w ec, bool) act" where
  "cros_ec_cmd_version_supported env devidx cmd ver =
     act_bind (cros_ec_get_cmd_versions env devidx cmd) (\<lambda>(rv, mask).
     act_lift (Ok (if rv \<noteq> 0 then False else mask AND EC_VER_MASK ver \<noteq> 0)))"

definition cros_ec_scan_keyboard :: "'w machine \<Rightarrow> bytes \<Rightarrow> ('w ec, int \<times> bytes) act" where
  "cros_ec_scan_keyboard env scan =
     act_bind (ec_command env 0x60 0 [] scan) (\<lambda>(rv, scan).
     act_lift (Ok (if less_than_size rv 13 then - 1 else 0, scan)))"

definition cros_ec_read_version :: "'w machine \<Rightarrow> bytes \<Rightarrow> ('w ec, int \<times> bytes) act" where
  "cros_ec_read_version env version =
     act_bind (ec_command env EC_CMD_GET_VERSION 0 [] version) (\<lambda>(rv, version).
     act_lift (Ok (if less_than_size rv 100 then - 1 else 0, version)))"

text \<open>\<open>max_param_size\<close> is read before \<open>ec_command\<close> initializes the driver.\<close>

definition cros_ec_read_build_info :: "'w machine \<Rightarrow> bytes \<Rightarrow> ('w ec, int \<times> bytes) act" where
  "cros_ec_read_build_info env strp s =
     (case slice strp 0 (nat (max_param_size s)) of None \<Rightarrow> (Fault OutOfBounds, s)
      | Some buf \<Rightarrow>
        act_bind (ec_command env 0x04 0 [] buf) (\<lambda>(rv, buf).
        act_lift (map_res (Pair (if rv < 0 then - 1 else 0)) (of_opt (put strp 0 buf)))) s)"

definition cros_ec_read_current_image :: "'w machine \<Rightarrow> int \<Rightarrow> u32 \<Rightarrow> ('w ec, int \<times> u32) act" where
  "cros_ec_read_current_image env devidx img =
     act_bind (ec_command env (EC_CMD_PASSTHRU_OFFSET devidx + EC_CMD_GET_VERSION) 0 [] (me_uninit env 100)) (\<lambda>(rv, r).
     if less_than_size rv 100 then act_lift (Ok (- 1, img))
     else act_lift (map_res (Pair 0) (le32_at r 96)))"

subsection \<open>The hash of the writable image\<close>

definition EC_VBOOT_HASH_STATUS_NONE :: u8 where "EC_VBOOT_HASH_STATUS_NONE = 0"
definition EC_VBOOT_HASH_STATUS_DONE :: u8 where "EC_VBOOT_HASH_STATUS_DONE = 1"
definition EC_VBOOT_HASH_STATUS_BUSY :: u8 where "EC_VBOOT_HASH_STATUS_BUSY = 2"
definition EC_VBOOT_HASH_OFFSET_RW :: u32 where "EC_VBOOT_HASH_OFFSET_RW = 0xfffffffd"
definition CROS_EC_HASH_TIMEOUT_MS :: u64 where "CROS_EC_HASH_TIMEOUT_MS = 2000"
definition CROS_EC_HASH_CHECK_DELAY_MS :: nat where "CROS_EC_HASH_CHECK_DELAY_MS = 10"

text \<open>\<open>p\<close> are the 76 bytes of the parameters and \<open>hash\<close> those of the response.\<close>

definition ec_vboot_hash :: "'w machine \<Rightarrow> int \<Rightarrow> bytes \<Rightarrow> bytes \<Rightarrow> ('w ec, int \<times> bytes) act" where
  "ec_vboot_hash env devidx p hash = ec_command env (EC_CMD_PASSTHRU_OFFSET devidx + 0x2a) 0 p hash"

text \<open>
  The body of the \<open>switch\<close> of \<open>cros_ec_read_hash\<close>: whether the function returns \<open>-1\<close>, the
  parameters, the response and \<open>recalc_requested\<close>.
\<close>

definition read_hash_switch ::
  "'w machine \<Rightarrow> int \<Rightarrow> bytes \<Rightarrow> bytes \<Rightarrow> bool \<Rightarrow> ('w ec, bool \<times> bytes \<times> bytes \<times> bool) act" where
  "read_hash_switch env devidx p hash recalc =
     act_bind (act_lift (of_opt (rd hash 0))) (\<lambda>status.
     if status = EC_VBOOT_HASH_STATUS_NONE then
       (if recalc then act_lift (Ok (False, p, hash, recalc))
        else act_bind (act_lift (andthen (of_opt (put p 0 [2, 0, 0])) (\<lambda>p.
            of_opt (put p 4 (le_bytes 4 (unat EC_VBOOT_HASH_OFFSET_RW)))))) (\<lambda>p.
          act_bind (ec_vboot_hash env devidx p hash) (\<lambda>(rv, hash).
          if rv < 0 then act_lift (Ok (True, p, hash, recalc))
          else act_lift (map_res (\<lambda>hash. (False, p, hash, True)) (of_opt (put hash 0 [EC_VBOOT_HASH_STATUS_BUSY]))))))
     else if status = EC_VBOOT_HASH_STATUS_BUSY
     then act_bind (mdelay env CROS_EC_HASH_CHECK_DELAY_MS) (\<lambda>_. act_lift (Ok (False, p, hash, recalc)))
     else act_lift (Ok (False, p, hash, recalc)))"

text \<open>The loop: whether the function returns \<open>-1\<close> from inside it, and the response.\<close>

fun read_hash_loop ::
  "nat \<Rightarrow> 'w machine \<Rightarrow> int \<Rightarrow> u64 \<Rightarrow> bytes \<Rightarrow> bytes \<Rightarrow> bool \<Rightarrow> ('w ec, bool \<times> bytes) act" where
  "read_hash_loop 0 env devidx start p hash recalc = act_lift (Fault Diverges)"
| "read_hash_loop (Suc fuel) env devidx start p hash recalc =
     act_bind (act_lift (of_opt (put p 0 [0]))) (\<lambda>p.
     act_bind (ec_vboot_hash env devidx p hash) (\<lambda>(rv, hash).
     if rv < 0 then act_lift (Ok (True, hash))
     else act_bind (read_hash_switch env devidx p hash recalc) (\<lambda>(failed, p, hash, recalc).
     if failed then act_lift (Ok (True, hash))
     else act_bind (act_lift (of_opt (rd hash 0))) (\<lambda>status.
     if status = EC_VBOOT_HASH_STATUS_BUSY
     then act_bind (time_since env start) (\<lambda>t.
       if t < CROS_EC_HASH_TIMEOUT_MS * 1000 then read_hash_loop fuel env devidx start p hash recalc
       else act_lift (Ok (False, hash)))
     else act_lift (Ok (False, hash))))))"

definition cros_ec_read_hash :: "'w machine \<Rightarrow> int \<Rightarrow> bytes \<Rightarrow> ('w ec, int \<times> bytes) act" where
  "cros_ec_read_hash env devidx hash =
     act_bind (time_now env) (\<lambda>start.
     act_bind (read_hash_loop (me_fuel env) env devidx start (me_uninit env 76) hash False) (\<lambda>(failed, hash).
     if failed then act_lift (Ok (- 1, hash))
     else act_bind (act_lift (of_opt (rd hash 0))) (\<lambda>status.
     act_lift (Ok (if status \<noteq> EC_VBOOT_HASH_STATUS_DONE then - 1 else 0, hash)))))"

subsection \<open>Rebooting\<close>

definition EC_REBOOT_FLAG_ON_AP_SHUTDOWN :: u8 where "EC_REBOOT_FLAG_ON_AP_SHUTDOWN = 2"

definition cros_ec_test :: "'w machine \<Rightarrow> ('w ec, int) act" where
  "cros_ec_test env =
     act_bind (ec_command env 0x01 0 (le_bytes 4 (unat (0x12345678 :: u32))) (me_uninit env 4)) (\<lambda>(rv, resp).
     if less_than_size rv 4 then act_lift (Ok (- 1))
     else act_bind (act_lift (le32_at resp 0)) (\<lambda>out_data.
     act_lift (Ok (if out_data \<noteq> 0x12345678 + 0x01020304 then - 1 else 0))))"

text \<open>The loop \<open>do mdelay(50); while (timeout-- && cros_ec_test())\<close>: the last value of \<open>timeout\<close>.\<close>

fun reboot_wait :: "nat \<Rightarrow> 'w machine \<Rightarrow> ('w ec, int) act" where
  "reboot_wait 0 env = act_bind (mdelay env 50) (\<lambda>_. act_lift (Ok (- 1)))"
| "reboot_wait (Suc timeout) env =
     act_bind (mdelay env 50) (\<lambda>_.
     act_bind (cros_ec_test env) (\<lambda>rv.
     if rv \<noteq> 0 then reboot_wait timeout env else act_lift (Ok (int timeout))))"

definition cros_ec_reboot :: "'w machine \<Rightarrow> int \<Rightarrow> u8 \<Rightarrow> u8 \<Rightarrow> ('w ec, int) act" where
  "cros_ec_reboot env devidx cmd flags =
     act_bind (ec_command env (EC_CMD_PASSTHRU_OFFSET devidx + 0xd2) 0 [cmd, flags] []) (\<lambda>(rv, _).
     if rv < 0 then act_lift (Ok (- 1))
     else if flags AND EC_REBOOT_FLAG_ON_AP_SHUTDOWN = 0
     then act_bind (reboot_wait 20 env) (\<lambda>timeout. act_lift (Ok (if timeout = 0 then - 1 else 0)))
     else act_lift (Ok 0))"

subsection \<open>Interrupts and events\<close>

definition cros_ec_set_interrupt_gpio :: "('w \<Rightarrow> int \<times> 'w) \<Rightarrow> ('w ec, unit) act" where
  "cros_ec_set_interrupt_gpio gpio s =
     (case ec_interrupt_gpio s of Some _ \<Rightarrow> (Fault Died, s) | None \<Rightarrow> (Ok (), s\<lparr>ec_interrupt_gpio := Some gpio\<rparr>))"

definition cros_ec_interrupt_pending :: "('w ec, int) act" where
  "cros_ec_interrupt_pending s =
     (case ec_interrupt_gpio s of None \<Rightarrow> (Ok 1, s)
      | Some get \<Rightarrow> (case get (ec_world s) of (v, w) \<Rightarrow> (Ok v, s\<lparr>ec_world := w\<rparr>)))"

text \<open>The result is compared with the size of a pointer, not of the structure.\<close>

definition cros_ec_mkbp_info :: "'w machine \<Rightarrow> bytes \<Rightarrow> ('w ec, int \<times> bytes) act" where
  "cros_ec_mkbp_info env info =
     act_bind (ec_command env 0x61 0 [] info) (\<lambda>(rv, info).
     act_lift (Ok (if less_than_size rv 8 then - 1 else 0, info)))"

definition cros_ec_get_host_events :: "'w machine \<Rightarrow> u32 \<Rightarrow> ('w ec, int \<times> u32) act" where
  "cros_ec_get_host_events env events =
     act_bind (ec_command env 0x87 0 [] (me_uninit env 4)) (\<lambda>(rv, resp).
     if less_than_size rv 4 then act_lift (Ok (- 1, events))
     else act_bind (act_lift (le32_at resp 0)) (\<lambda>mask.
     act_lift (Ok (if mask AND EC_HOST_EVENT_MASK EC_HOST_EVENT_INVALID \<noteq> 0 then (- 1, events) else (0, mask)))))"

definition cros_ec_entering_mode :: "'w machine \<Rightarrow> int \<Rightarrow> int \<Rightarrow> ('w ec, int) act" where
  "cros_ec_entering_mode env devidx mode =
     act_bind (ec_command env (EC_CMD_PASSTHRU_OFFSET devidx + 0xb6) 0 (le_bytes 4 (unat (word_of_int mode :: u32))) [])
       (\<lambda>(rv, _). act_lift (Ok (if rv \<noteq> 0 then - 1 else 0)))"

subsection \<open>Flash\<close>

definition EC_CMD_FLASH_INFO :: int where "EC_CMD_FLASH_INFO = 0x10"
definition EC_CMD_FLASH_READ :: int where "EC_CMD_FLASH_READ = 0x11"
definition EC_CMD_FLASH_WRITE :: int where "EC_CMD_FLASH_WRITE = 0x12"
definition EC_CMD_FLASH_ERASE :: int where "EC_CMD_FLASH_ERASE = 0x13"
definition EC_CMD_FLASH_PROTECT :: int where "EC_CMD_FLASH_PROTECT = 0x15"
definition EC_CMD_FLASH_REGION_INFO :: int where "EC_CMD_FLASH_REGION_INFO = 0x16"
definition EC_FLASH_WRITE_VER0_SIZE :: u32 where "EC_FLASH_WRITE_VER0_SIZE = 64"
definition EC_FLASH_REGION_RW :: u32 where "EC_FLASH_REGION_RW = 1"

text \<open>Two 32-bit fields one after the other.\<close>

definition two_u32 :: "u32 \<Rightarrow> u32 \<Rightarrow> bytes" where
  "two_u32 a b = le_bytes 4 (unat a) @ le_bytes 4 (unat b)"

definition cros_ec_flash_protect :: "'w machine \<Rightarrow> int \<Rightarrow> u32 \<Rightarrow> u32 \<Rightarrow> bytes \<Rightarrow> ('w ec, int \<times> bytes) act" where
  "cros_ec_flash_protect env devidx set_mask set_flags resp =
     act_bind (ec_command env (EC_CMD_PASSTHRU_OFFSET devidx + EC_CMD_FLASH_PROTECT) 1 (two_u32 set_mask set_flags) resp)
       (\<lambda>(rv, resp). act_lift (Ok (if less_than_size rv 12 then - 1 else 0, resp)))"

text \<open>\<open>None\<close> is \<open>-1\<close>; otherwise the offset and the size, which each caller asks for or not.\<close>

definition cros_ec_flash_offset :: "'w machine \<Rightarrow> int \<Rightarrow> u32 \<Rightarrow> ('w ec, (u32 \<times> u32) option) act" where
  "cros_ec_flash_offset env devidx region =
     act_bind (ec_command env (EC_CMD_PASSTHRU_OFFSET devidx + EC_CMD_FLASH_REGION_INFO) 1
         (le_bytes 4 (unat region)) (me_uninit env 8)) (\<lambda>(rv, r).
     if rv \<noteq> 8 then act_lift (Ok None)
     else act_lift (andthen (le32_at r 0) (\<lambda>offset. map_res (\<lambda>sz. Some (offset, sz)) (le32_at r 4))))"

definition cros_ec_flash_erase :: "'w machine \<Rightarrow> int \<Rightarrow> u32 \<Rightarrow> u32 \<Rightarrow> ('w ec, int) act" where
  "cros_ec_flash_erase env devidx offset sz =
     act_bind (ec_command env (EC_CMD_PASSTHRU_OFFSET devidx + EC_CMD_FLASH_ERASE) 0 (two_u32 offset sz) [])
       (\<lambda>(rv, _). act_lift (Ok rv))"

definition param_limit :: "'w ec \<Rightarrow> int \<Rightarrow> u32" where
  "param_limit s devidx = word_of_int (if devidx = 0 then max_param_size s else passthru_param_size s)"

text \<open>\<open>data\<close> are the bytes from the pointer on; both callers pass one that is not NULL.\<close>

definition cros_ec_flash_write_block :: "'w machine \<Rightarrow> int \<Rightarrow> bytes \<Rightarrow> u32 \<Rightarrow> u32 \<Rightarrow> ('w ec, int) act" where
  "cros_ec_flash_write_block env devidx data offset sz s =
     (let bufsize = 8 + sz in
      if bufsize > param_limit s devidx then (Ok (- 1), s)
      else case slice data 0 (unat sz) of None \<Rightarrow> (Fault OutOfBounds, s)
      | Some d \<Rightarrow>
        act_bind (act_lift (of_opt (put (me_uninit env (unat bufsize)) 0 (two_u32 offset sz @ d)))) (\<lambda>buf.
        act_bind (ec_command env (EC_CMD_PASSTHRU_OFFSET devidx + EC_CMD_FLASH_WRITE) 0 buf []) (\<lambda>(rv, _).
        act_lift (Ok (if rv \<ge> 0 then 0 else - 1)))) s)"

definition cros_ec_flash_write_burst_size :: "'w machine \<Rightarrow> int \<Rightarrow> ('w ec, u32) act" where
  "cros_ec_flash_write_burst_size env devidx s =
     (let pdata_max_size = param_limit s devidx - 8 in
      act_bind (cros_ec_cmd_version_supported env devidx EC_CMD_FLASH_WRITE 1) (\<lambda>supported.
      if \<not> supported then act_lift (Ok EC_FLASH_WRITE_VER0_SIZE)
      else act_bind (ec_command env (EC_CMD_PASSTHRU_OFFSET devidx + EC_CMD_FLASH_INFO) 0 [] (me_uninit env 16)) (\<lambda>(rv, info).
      if less_than_size rv 16 then act_lift (Ok 0)
      else act_bind (act_lift (le32_at info 4)) (\<lambda>write_block_size.
      if write_block_size = 0 then act_lift (Fault Overflow)
      else act_lift (Ok (pdata_max_size div write_block_size * write_block_size))))) s)"

text \<open>\<open>data\<close> are the bytes from the pointer on, which every round moves by \<open>burst\<close>.\<close>

fun ec_write_loop :: "nat \<Rightarrow> 'w machine \<Rightarrow> int \<Rightarrow> u32 \<Rightarrow> bytes \<Rightarrow> u32 \<Rightarrow> u32 \<Rightarrow> ('w ec, int) act" where
  "ec_write_loop 0 env devidx burst data off stop = act_lift (Fault Diverges)"
| "ec_write_loop (Suc fuel) env devidx burst data off stop =
     (if \<not> off < stop then act_lift (Ok 0)
      else let todo = min (stop - off) burst in
        act_bind
          (if todo < burst
           then act_bind (act_lift (of_opt (slice data 0 (unat todo)))) (\<lambda>d.
             cros_ec_flash_write_block env devidx (d @ replicate (unat (burst - todo)) 0xff) off burst)
           else cros_ec_flash_write_block env devidx data off burst) (\<lambda>ret.
        if ret \<noteq> 0 then act_lift (Ok ret)
        else ec_write_loop fuel env devidx burst (drop (unat burst) data) (off + burst) stop))"

definition cros_ec_flash_write :: "'w machine \<Rightarrow> int \<Rightarrow> bytes \<Rightarrow> u32 \<Rightarrow> u32 \<Rightarrow> ('w ec, int) act" where
  "cros_ec_flash_write env devidx data offset sz =
     act_bind (cros_ec_flash_write_burst_size env devidx) (\<lambda>burst.
     if burst = 0 then act_lift (Ok (- 1))
     else ec_write_loop (me_fuel env) env devidx burst data offset (offset + sz))"

definition cros_ec_flash_read_block :: "'w machine \<Rightarrow> int \<Rightarrow> bytes \<Rightarrow> u32 \<Rightarrow> u32 \<Rightarrow> ('w ec, int \<times> bytes) act" where
  "cros_ec_flash_read_block env devidx data offset sz =
     act_bind (act_lift (of_opt (slice data 0 (unat sz)))) (\<lambda>din.
     act_bind (ec_command env (EC_CMD_PASSTHRU_OFFSET devidx + EC_CMD_FLASH_READ) 0 (two_u32 offset sz) din) (\<lambda>(rv, din).
     act_lift (map_res (Pair (if rv \<ge> 0 then 0 else - 1)) (of_opt (put data 0 din)))))"

text \<open>\<open>done\<close> are the bytes before the pointer.\<close>

fun ec_read_loop ::
  "nat \<Rightarrow> 'w machine \<Rightarrow> int \<Rightarrow> u32 \<Rightarrow> bytes \<Rightarrow> bytes \<Rightarrow> u32 \<Rightarrow> u32 \<Rightarrow> ('w ec, int \<times> bytes) act" where
  "ec_read_loop 0 env devidx burst passed data off stop = act_lift (Fault Diverges)"
| "ec_read_loop (Suc fuel) env devidx burst passed data off stop =
     (if \<not> off < stop then act_lift (Ok (0, passed @ data))
      else act_bind (cros_ec_flash_read_block env devidx data off (min (stop - off) burst)) (\<lambda>(ret, data).
        if ret \<noteq> 0 then act_lift (Ok (ret, passed @ data))
        else ec_read_loop fuel env devidx burst (passed @ take (unat burst) data) (drop (unat burst) data)
          (off + burst) stop))"

definition cros_ec_flash_read :: "'w machine \<Rightarrow> int \<Rightarrow> bytes \<Rightarrow> u32 \<Rightarrow> u32 \<Rightarrow> ('w ec, int \<times> bytes) act" where
  "cros_ec_flash_read env devidx data offset sz =
     act_bind (cros_ec_flash_write_burst_size env devidx) (\<lambda>burst.
     ec_read_loop (me_fuel env) env devidx burst [] data offset (offset + sz))"

definition cros_ec_flash_update_rw :: "'w machine \<Rightarrow> int \<Rightarrow> bytes \<Rightarrow> int \<Rightarrow> ('w ec, int) act" where
  "cros_ec_flash_update_rw env devidx img image_size =
     act_bind (cros_ec_flash_offset env devidx EC_FLASH_REGION_RW) (\<lambda>region.
     case region of None \<Rightarrow> act_lift (Ok (- 1))
     | Some (rw_offset, rw_size) \<Rightarrow>
       if (word_of_int image_size :: u32) > rw_size then act_lift (Ok (- 1))
       else act_bind (cros_ec_flash_erase env devidx rw_offset rw_size) (\<lambda>ret.
         if ret \<noteq> 0 then act_lift (Ok ret)
         else act_bind (cros_ec_flash_write env devidx img rw_offset (word_of_int image_size)) (\<lambda>ret.
           act_lift (Ok ret))))"

subsection \<open>The context of verified boot, power and sensors\<close>

definition EC_VBNV_BLOCK_SIZE :: nat where "EC_VBNV_BLOCK_SIZE = 16"

definition cros_ec_read_vbnvcontext :: "'w machine \<Rightarrow> bytes \<Rightarrow> ('w ec, int \<times> bytes) act" where
  "cros_ec_read_vbnvcontext env block =
     act_bind (act_lift (of_opt (put (me_uninit env 20) 0 (le_bytes 4 0)))) (\<lambda>p.
     act_bind (act_lift (of_opt (slice block 0 EC_VBNV_BLOCK_SIZE))) (\<lambda>din.
     act_bind (ec_command env 0x17 1 p din) (\<lambda>(len, din).
     act_lift (map_res (Pair (if len < int EC_VBNV_BLOCK_SIZE then - 1 else 0)) (of_opt (put block 0 din))))))"

definition cros_ec_write_vbnvcontext :: "'w machine \<Rightarrow> bytes \<Rightarrow> ('w ec, int) act" where
  "cros_ec_write_vbnvcontext env block =
     act_bind (act_lift (of_opt (slice block 0 EC_VBNV_BLOCK_SIZE))) (\<lambda>b.
     act_bind (ec_command env 0x17 1 (le_bytes 4 1 @ b) []) (\<lambda>(len, _).
     act_lift (Ok (if len < 0 then - 1 else 0))))"

definition cros_ec_battery_cutoff :: "'w machine \<Rightarrow> u8 \<Rightarrow> ('w ec, int) act" where
  "cros_ec_battery_cutoff env flags =
     act_bind (ec_command env 0x99 0 [flags] []) (\<lambda>(len, _). act_lift (Ok (if len < 0 then - 1 else 0)))"

definition cros_ec_set_motion_sense_activity :: "'w machine \<Rightarrow> u32 \<Rightarrow> u32 \<Rightarrow> ('w ec, int) act" where
  "cros_ec_set_motion_sense_activity env activity v =
     act_bind (act_lift (andthen (of_opt (put (me_uninit env 12) 0 [13])) (\<lambda>p.
       of_opt (put p 2 [word_of_int (uint activity), word_of_int (uint v)])))) (\<lambda>p.
     act_bind (ec_command env 0x2b 2 p (me_uninit env 10)) (\<lambda>(rv, _).
     act_lift (Ok (if rv < 0 then - 1 else 0))))"

definition cros_ec_read_memmap :: "'w machine \<Rightarrow> u8 \<Rightarrow> u8 \<Rightarrow> bytes \<Rightarrow> ('w ec, int \<times> bytes) act" where
  "cros_ec_read_memmap env offset sz dest =
     act_bind (act_lift (of_opt (slice dest 0 (unat sz)))) (\<lambda>din.
     act_bind (ec_command env 0x07 0 [offset, sz] din) (\<lambda>(rv, din).
     act_lift (map_res (Pair (if rv < 0 then - 1 else 0)) (of_opt (put dest 0 din)))))"

definition cros_ec_read_batt_volt :: "'w machine \<Rightarrow> bytes \<Rightarrow> ('w ec, int \<times> bytes) act" where
  "cros_ec_read_batt_volt env volt = cros_ec_read_memmap env 0x40 4 volt"

definition cros_ec_read_limit_power_request :: "'w machine \<Rightarrow> int \<Rightarrow> ('w ec, int \<times> int) act" where
  "cros_ec_read_limit_power_request env limit_power =
     act_bind (act_lift (of_opt (put (me_uninit env 9) 0 (1 # le_bytes 4 5)))) (\<lambda>p.
     act_bind (ec_command env 0xa0 0 p (me_uninit env 20)) (\<lambda>(res, r).
     if res = - EC_RES_INVALID_PARAM \<or> res = - EC_RES_INVALID_COMMAND then act_lift (Ok (0, 0))
     else if res \<noteq> 4 then act_lift (Ok (- 1, limit_power))
     else act_lift (map_res (\<lambda>v. (0, sint v)) (le32_at r 0))))"

definition cros_ec_read_batt_state_of_charge :: "'w machine \<Rightarrow> u32 \<Rightarrow> ('w ec, int \<times> u32) act" where
  "cros_ec_read_batt_state_of_charge env state =
     act_bind (act_lift (of_opt (put (me_uninit env 9) 0 [0]))) (\<lambda>params.
     act_bind (ec_command env 0xa0 0 params (me_uninit env 20)) (\<lambda>(rv, resp).
     if rv < 0 then act_lift (Ok (- 1, state))
     else act_lift (map_res (Pair 0) (le32_at resp 16))))"

end
