(* ===== verification/EcSafe.thy ===== *)
theory EcSafe
  imports EcCommands
begin

text \<open>
  Memory safety of the driver of the embedded controller: whatever the bus and the EC answer,
  \<open>ec_command\<close> stays inside its buffers, calls no missing function, and keeps the buffers and the
  sizes in the static variables together.  The only other outcome is waiting for more rounds than
  \<open>me_fuel\<close>.
\<close>

subsection \<open>Outcomes of operations\<close>

definition act_holds :: "('s \<Rightarrow> bool) \<Rightarrow> ('s, 'a) act \<Rightarrow> ('a \<Rightarrow> 's \<Rightarrow> bool) \<Rightarrow> bool" where
  "act_holds P m Q \<longleftrightarrow>
     (\<forall>s. P s \<longrightarrow> (case m s of (Ok x, s') \<Rightarrow> Q x s' | (Err, _) \<Rightarrow> False | (Fault e, _) \<Rightarrow> e = Diverges))"

lemma act_holdsI:
  "(\<And>s. P s \<Longrightarrow> case m s of (Ok x, s') \<Rightarrow> Q x s' | (Err, _) \<Rightarrow> False | (Fault e, _) \<Rightarrow> e = Diverges) \<Longrightarrow> act_holds P m Q"
  by (simp add: act_holds_def)

lemma act_holdsD:
  "act_holds P m Q \<Longrightarrow> P s \<Longrightarrow> (\<exists>x s'. m s = (Ok x, s') \<and> Q x s') \<or> (\<exists>s'. m s = (Fault Diverges, s'))"
  unfolding act_holds_def by (cases "m s"; cases "fst (m s)") force+

lemma act_holds_conseq:
  "act_holds P m Q \<Longrightarrow> (\<And>s. P' s \<Longrightarrow> P s) \<Longrightarrow> (\<And>x s. Q x s \<Longrightarrow> Q' x s) \<Longrightarrow> act_holds P' m Q'"
  unfolding act_holds_def by (auto split: prod.splits res.splits) blast+

lemma act_holds_bind:
  assumes "act_holds P m R" and "\<And>x. act_holds (R x) (f x) Q"
  shows "act_holds P (act_bind m f) Q"
proof (rule act_holdsI)
  fix s
  assume "P s"
  from act_holdsD [OF assms(1) this] show "case act_bind m f s of (Ok x, s') \<Rightarrow> Q x s' | (Err, _) \<Rightarrow> False | (Fault e, _) \<Rightarrow> e = Diverges"
    (is ?thesis)
  proof (elim disjE exE conjE)
    fix x s' assume m: "m s = (Ok x, s')" "R x s'"
    with assms(2) [of x] show ?thesis by (simp add: act_bind_def act_holds_def)
  qed (simp add: act_bind_def)
qed

lemma act_holds_bind2:
  assumes "act_holds P m (\<lambda>(a, b) s. R a b s)" and "\<And>a b. act_holds (R a b) (f a b) Q"
  shows "act_holds P (act_bind m (\<lambda>(a, b). f a b)) Q"
  by (rule act_holds_bind [OF assms(1)]) (use assms(2) in \<open>auto split: prod.split\<close>)

lemma act_holds_Ok: "(\<And>s. P s \<Longrightarrow> Q x s) \<Longrightarrow> act_holds P (act_lift (Ok x)) Q"
  by (simp add: act_holds_def act_lift_def)

lemma act_bind_lift_Ok: "act_bind (act_lift (Ok x)) f = f x"
  by (simp add: act_bind_def act_lift_def fun_eq_iff)

lemma act_holds_diverges: "act_holds P (act_lift (Fault Diverges)) Q"
  by (simp add: act_holds_def act_lift_def)

lemma act_holds_lift: "(\<And>s. P s \<Longrightarrow> \<exists>x. r = Ok x \<and> Q x s) \<Longrightarrow> act_holds P (act_lift r) Q"
  by (fastforce simp: act_holds_def act_lift_def)

lemma act_holds_if:
  "(b \<Longrightarrow> act_holds P m Q) \<Longrightarrow> (\<not> b \<Longrightarrow> act_holds P m' Q) \<Longrightarrow> act_holds P (if b then m else m') Q"
  by simp

lemma act_holds_pure: "(b \<Longrightarrow> act_holds P m Q) \<Longrightarrow> act_holds (\<lambda>s. b \<and> P s) m Q"
  by (simp add: act_holds_def)

subsection \<open>The invariant\<close>

text \<open>A bus leaves the length of a buffer alone.\<close>

definition bus_in_bounds :: "'w ec_bus \<Rightarrow> bool" where
  "bus_in_bounds bus \<longleftrightarrow>
     (\<forall>cmd ver dout din w len buf w'. bus_send_command bus cmd ver dout din w = (len, buf, w') \<longrightarrow> length buf = length din) \<and>
     (\<forall>send_packet rq rs w rv buf w'. bus_send_packet bus = Some send_packet \<longrightarrow>
        send_packet rq rs w = (rv, buf, w') \<longrightarrow> length buf = length rs)"

definition ec_buffers :: "'w ec \<Rightarrow> bool" where
  "ec_buffers s \<longleftrightarrow>
     length (proto3_request s) = nat (proto3_request_size s) \<and>
     length (proto3_response s) = nat (proto3_response_size s) \<and>
     (\<forall>bus. ec_bus_ops s = Some bus \<longrightarrow> bus_in_bounds bus)"

definition ec_can_send :: "'w ec \<Rightarrow> bool" where
  "ec_can_send s \<longleftrightarrow>
     (\<exists>bus. ec_bus_ops s = Some bus \<and> (ec_send_func s = Some SendProto2 \<or>
        ec_send_func s = Some SendProto3 \<and> bus_send_packet bus \<noteq> None))"

text \<open>The bus has packets, and whatever protocol has been chosen up to now.\<close>

definition has_packets :: "'w ec \<Rightarrow> bool" where
  "has_packets s \<longleftrightarrow> ec_buffers s \<and> (\<exists>bus. ec_bus_ops s = Some bus \<and> bus_send_packet bus \<noteq> None)"

text \<open>An initialization that fails leaves \<open>ec_send_func\<close> set, for the bus it has used.\<close>

definition ec_wf :: "'w ec \<Rightarrow> bool" where
  "ec_wf s \<longleftrightarrow> ec_buffers s \<and> (ec_initialized s \<longrightarrow> ec_can_send s) \<and>
     (ec_send_func s = Some SendProto3 \<longrightarrow> has_packets s)"

subsection \<open>Packets\<close>

lemma le16_at_Ok: "off + 2 \<le> length p \<Longrightarrow> \<exists>v. le16_at p off = Ok v"
  by (simp add: le16_at_def slice_def)

lemma le32_at_Ok: "off + 4 \<le> length p \<Longrightarrow> \<exists>v. le32_at p off = Ok v"
  by (simp add: le32_at_def slice_def)

lemma cros_ec_calc_checksum_Ok: "nat n \<le> length p \<Longrightarrow> \<exists>v. cros_ec_calc_checksum p n = Ok v"
  by (simp add: cros_ec_calc_checksum_def slice_def)

lemma length_request_header [simp]: "length (request_header c cmd ver n) = 8"
  by (simp add: request_header_def)

lemma create_proto3_request_bounds:
  assumes "length rq = nat rq_size" and small: "length dout < 2147483640"
  shows "\<exists>n rq'. create_proto3_request rq rq_size cmd ver dout = Ok (n, rq') \<and> length rq' = length rq \<and>
     nat n \<le> length rq"
proof (cases "int (length dout) + sizeof_host_header > rq_size")
  case True
  moreover have "c_int (int (length dout) + sizeof_host_header) = int (length dout) + sizeof_host_header"
    using small by (intro c_int_small) (simp_all add: sizeof_host_header_def)
  ultimately show ?thesis by (simp add: create_proto3_request_def EC_RES_REQUEST_TRUNCATED_def)
next
  case False
  have n: "c_int (int (length dout) + 8) = int (length dout) + 8" using small by (intro c_int_small) simp_all
  have fits: "8 + length dout \<le> length rq" using False assms by (simp add: sizeof_host_header_def)
  let ?p = "request_header 0 cmd ver (length dout) @ dout"
  obtain rq1 where rq1: "put rq 0 ?p = Some rq1" using fits by (simp add: put_def)
  have l1: "length rq1 = length rq" by (rule put_length [OF rq1])
  obtain c where c: "cros_ec_calc_checksum rq1 (int (length dout) + sizeof_host_header) = Ok c"
    using cros_ec_calc_checksum_Ok [of _ rq1] fits l1 by (metis add.commute int_nat_eq nat_int_add of_nat_numeral sizeof_host_header_def)
  obtain rq2 where rq2: "put rq1 1 [- c] = Some rq2" using fits l1 by (simp add: put_def)
  have "length rq2 = length rq" using put_length [OF rq2] l1 by simp
  then show ?thesis using False fits rq1 c rq2
    by (auto simp: create_proto3_request_def sizeof_host_header_def nat_add_distrib n)
qed

lemma handle_proto3_response_bounds:
  assumes "8 + length din \<le> length rs"
  shows "\<exists>rv din'. handle_proto3_response rs din = Ok (rv, din') \<and> length din' = length din"
proof -
  obtain ver where ver: "rd rs 0 = Some ver" using assms by (cases rs) (auto simp: rd_def)
  obtain reserved where reserved: "le16_at rs 6 = Ok reserved" using le16_at_Ok [of 6 rs] assms by auto
  obtain len where len: "le16_at rs 4 = Ok len" using le16_at_Ok [of 4 rs] assms by auto
  obtain result where result: "le16_at rs 2 = Ok result" using le16_at_Ok [of 2 rs] assms by auto
  obtain d where d: "slice rs 8 (length din) = Some d" using assms by (simp add: slice_def)
  have c: "\<exists>c. cros_ec_calc_checksum rs (sizeof_host_header + uint len) = Ok c" if "\<not> uint len > int (length din)"
    using that assms by (intro cros_ec_calc_checksum_Ok) (simp add: sizeof_host_header_def nat_le_iff)
  show ?thesis
    using c slice_length [OF d] unfolding handle_proto3_response_def by (auto simp: ver reserved len result d)
qed

subsection \<open>Sending\<close>

text \<open>
  Lengths are of type \<open>int\<close>, and so is the size of a packet, which has 8 bytes more than its data: for longer
  data it is negative and the only test of it passes.
\<close>

definition int_sizes :: "bytes \<Rightarrow> bytes \<Rightarrow> bool" where
  [simp]: "int_sizes dout din \<longleftrightarrow> length dout < 2147483640 \<and> length din < 2147483648"

definition send_safe :: "('w ec \<Rightarrow> bool) \<Rightarrow> 'w ec_send \<Rightarrow> bool" where
  "send_safe P send \<longleftrightarrow>
     (\<forall>cmd ver dout din. int_sizes dout din \<longrightarrow>
        act_holds P (send cmd ver dout din) (\<lambda>(rv, din') s. length din' = length din \<and> P s))"

lemma send_safeD:
  "send_safe P send \<Longrightarrow> int_sizes dout din \<Longrightarrow> act_holds P (send cmd ver dout din) (\<lambda>(rv, din') s. length din' = length din \<and> P s)"
  by (simp add: send_safe_def)

definition sends3 :: "'w ec \<Rightarrow> bool" where
  "sends3 s \<longleftrightarrow> ec_buffers s \<and> ec_send_func s = Some SendProto3 \<and>
     (\<exists>bus. ec_bus_ops s = Some bus \<and> bus_send_packet bus \<noteq> None)"

definition sends2 :: "'w ec \<Rightarrow> bool" where
  "sends2 s \<longleftrightarrow> ec_buffers s \<and> ec_send_func s = Some SendProto2 \<and> ec_bus_ops s \<noteq> None"

text \<open>A property of the static variables that no time function touches.\<close>

definition world_free :: "('w ec \<Rightarrow> bool) \<Rightarrow> bool" where
  "world_free P \<longleftrightarrow> (\<forall>s w. P s \<longrightarrow> P (s\<lparr>ec_world := w\<rparr>))"

lemma world_free_sends3: "world_free sends3"
  by (auto simp: world_free_def sends3_def ec_buffers_def)

lemma world_free_sends2: "world_free sends2"
  by (auto simp: world_free_def sends2_def ec_buffers_def)

lemma mdelay_holds: "world_free P \<Longrightarrow> act_holds P (mdelay env ms) (\<lambda>_. P)"
  by (simp add: act_holds_def mdelay_def world_free_def)

lemma time_now_holds: "world_free P \<Longrightarrow> act_holds P (time_now env) (\<lambda>_. P)"
  by (simp add: act_holds_def time_now_def world_free_def split: prod.splits)

lemma time_since_holds: "world_free P \<Longrightarrow> act_holds P (time_since env start) (\<lambda>_. P)"
  unfolding time_since_def by (rule act_holds_bind [OF time_now_holds]) (auto intro: act_holds_Ok)

lemma send_command_proto3_work_safe: "send_safe sends3 send_command_proto3_work"
  unfolding send_safe_def
proof (intro allI impI act_holdsI)
  fix cmd ver and dout din :: bytes and s :: "'w ec"
  assume sizes: "int_sizes dout din" and s: "sends3 s"
  then have small: "length dout < 2147483640" "length din < 2147483648" by simp_all
  obtain bus packet where bus: "ec_bus_ops s = Some bus" "bus_send_packet bus = Some packet" "bus_in_bounds bus"
    using s by (auto simp: sends3_def ec_buffers_def)
  have len: "length (proto3_request s) = nat (proto3_request_size s)"
      "length (proto3_response s) = nat (proto3_response_size s)"
    using s by (auto simp: sends3_def ec_buffers_def)
  obtain n rq where rq: "create_proto3_request (proto3_request s) (proto3_request_size s) cmd ver dout = Ok (n, rq)"
      "length rq = length (proto3_request s)" "nat n \<le> length rq"
    using create_proto3_request_bounds [OF len(1) small(1)] by metis
  define m where "m = prepare_proto3_response_buffer (proto3_response_size s) (int (length din))"
  let ?s = "s\<lparr>proto3_request := rq\<rparr>"
  have s': "sends3 ?s" using s rq(2) by (auto simp: sends3_def ec_buffers_def)
  show "case send_command_proto3_work cmd ver dout din s of (Ok x, s') \<Rightarrow> (case x of (rv, din') \<Rightarrow> \<lambda>s. length din' = length din \<and> sends3 s) s'
      | (Err, _) \<Rightarrow> False | (Fault e, _) \<Rightarrow> e = Diverges"
  proof (cases "n < 0 \<or> m < 0")
    case True
    then have "send_command_proto3_work cmd ver dout din s = (Ok (if n < 0 then n else m, din), ?s)"
      by (cases "n < 0") (simp_all add: send_command_proto3_work_def act_bind_def act_lift_def rq(1) m_def Let_def)
    with s' show ?thesis by simp
  next
    case False
    have "m = c_int (int (length din) + 8) \<and> m \<le> proto3_response_size s"
      using False by (auto simp: m_def prepare_proto3_response_buffer_def sizeof_host_header_def EC_RES_RESPONSE_TOO_BIG_def Let_def
        split: if_splits)
    moreover have "c_int (int (length din) + 8) = int (length din) + 8 \<or> c_int (int (length din) + 8) < 0"
      using small(2) c_int_small [of "int (length din) + 8"] c_int_wraps [of "int (length din) + 8"]
      by (cases "int (length din) + 8 < 2147483648") auto
    ultimately have m: "m = int (length din) + 8" "nat m \<le> length (proto3_response s)"
      using False len(2) by auto
    obtain request where request: "slice rq 0 (nat n) = Some request" using rq(3) by (simp add: slice_def)
    obtain response where response: "slice (proto3_response s) 0 (nat m) = Some response" using m(2) by (simp add: slice_def)
    obtain rv resp w where sent: "packet request response (ec_world s) = (rv, resp, w)" by (metis prod_cases3)
    have resp: "length resp = nat m"
      using bus(2,3) sent slice_length [OF response] unfolding bus_in_bounds_def by metis
    obtain buf where buf: "put (proto3_response s) 0 resp = Some buf" using resp m(2) by (simp add: put_def)
    have lbuf: "length buf = length (proto3_response s)" by (rule put_length [OF buf])
    have "8 + length din \<le> length buf" using m lbuf by simp
    from handle_proto3_response_bounds [OF this] obtain r d where handled:
      "handle_proto3_response buf din = Ok (r, d)" "length d = length din" by blast
    have "sends3 (?s\<lparr>ec_world := w, proto3_response := buf\<rparr>)"
      using s' lbuf by (auto simp: sends3_def ec_buffers_def)
    moreover have "send_command_proto3_work cmd ver dout din s =
        (Ok (if rv < 0 then (rv, din) else (r, d)), ?s\<lparr>ec_world := w, proto3_response := buf\<rparr>)"
      using False by (simp add: send_command_proto3_work_def act_bind_def act_lift_def rq(1) Let_def m_def [symmetric] bus
        request response sent buf handled(1))
    ultimately show ?thesis using handled(2) by simp
  qed
qed

lemma bus_command_safe: "send_safe sends2 bus_command"
  unfolding send_safe_def
proof (intro allI impI act_holdsI)
  fix cmd ver dout and din :: bytes and s :: "'w ec"
  assume s: "sends2 s"
  obtain bus where bus: "ec_bus_ops s = Some bus" "bus_in_bounds bus"
    using s by (auto simp: sends2_def ec_buffers_def)
  obtain len buf w where sent: "bus_send_command bus (word_of_int cmd) ver dout din (ec_world s) = (len, buf, w)"
    by (metis prod_cases3)
  have "length buf = length din" using bus(2) sent unfolding bus_in_bounds_def by blast
  then show "case bus_command cmd ver dout din s of (Ok x, s') \<Rightarrow> (case x of (rv, din') \<Rightarrow> \<lambda>s. length din' = length din \<and> sends2 s) s'
      | (Err, _) \<Rightarrow> False | (Fault e, _) \<Rightarrow> e = Diverges"
    using s by (simp add: bus_command_def bus(1) sent put_def sends2_def ec_buffers_def)
qed

lemma wait_completed_holds:
  assumes "send_safe P send" "world_free P" "machine_wf env"
  shows "act_holds P (wait_completed fuel env send start) (\<lambda>_. P)"
proof (induction fuel)
  case 0
  show ?case by (simp add: act_holds_diverges)
next
  case (Suc fuel)
  have u: "length (me_uninit env 4) = 4" using assms(3) by (simp add: machine_wf_def)
  have tail: "act_holds (\<lambda>s. length resp = 4 \<and> P s)
      (if ret < 0 then act_lift (Ok (Some ret))
       else act_bind (time_since env start) (\<lambda>t.
       if CROS_EC_CMD_TIMEOUT_MS * 1000 < t then act_lift (Ok (Some (- EC_RES_TIMEOUT)))
       else act_bind (act_lift (le32_at resp 0)) (\<lambda>flags.
       if flags AND EC_COMMS_STATUS_PROCESSING \<noteq> 0 then wait_completed fuel env send start
       else act_lift (Ok None)))) (\<lambda>_. P)" for ret :: int and resp
  proof (rule act_holds_pure)
    assume "length resp = 4"
    then obtain flags where flags: "le32_at resp 0 = Ok flags" using le32_at_Ok [of 0 resp] by auto
    show "act_holds P
      (if ret < 0 then act_lift (Ok (Some ret))
       else act_bind (time_since env start) (\<lambda>t.
       if CROS_EC_CMD_TIMEOUT_MS * 1000 < t then act_lift (Ok (Some (- EC_RES_TIMEOUT)))
       else act_bind (act_lift (le32_at resp 0)) (\<lambda>flags.
       if flags AND EC_COMMS_STATUS_PROCESSING \<noteq> 0 then wait_completed fuel env send start
       else act_lift (Ok None)))) (\<lambda>_. P)"
      unfolding flags
      by (intro act_holds_if act_holds_Ok act_holds_bind [OF time_since_holds [OF assms(2)]]
        act_holds_bind [of _ _ "\<lambda>_. P"] Suc.IH) auto
  qed
  show ?case
    unfolding wait_completed.simps
    by (rule act_holds_bind [OF mdelay_holds [OF assms(2)]], rule act_holds_bind2 [OF send_safeD [OF assms(1)]],
      simp add: u, unfold u, rule tail)
qed

lemma send_and_wait_safe:
  assumes "send_safe P send" "world_free P" "machine_wf env"
  shows "send_safe P (send_and_wait env send)"
  unfolding send_safe_def
proof (intro allI impI)
  fix cmd ver dout and din :: bytes
  assume sizes: "int_sizes dout din"
  have tail: "act_holds (\<lambda>s. length d = length din \<and> P s)
      (if rv = - EC_RES_IN_PROGRESS
       then act_bind (time_now env) (\<lambda>start.
         act_bind (wait_completed (me_fuel env) env send start) (\<lambda>err.
         case err of Some e \<Rightarrow> act_lift (Ok (e, d)) | None \<Rightarrow> send EC_CMD_RESEND_RESPONSE 0 [] d))
       else act_lift (Ok (rv, d))) (\<lambda>(rv, din') s. length din' = length din \<and> P s)" for rv :: int and d
  proof (rule act_holds_pure)
    assume d: "length d = length din"
    have last: "act_holds P (case err of Some e \<Rightarrow> act_lift (Ok (e, d)) | None \<Rightarrow> send EC_CMD_RESEND_RESPONSE 0 [] d)
        (\<lambda>(rv, din') s. length din' = length din \<and> P s)" for err
      using send_safeD [OF assms(1), of _ d] sizes by (cases err) (auto intro: act_holds_Ok simp: d)
    show "act_holds P
      (if rv = - EC_RES_IN_PROGRESS
       then act_bind (time_now env) (\<lambda>start.
         act_bind (wait_completed (me_fuel env) env send start) (\<lambda>err.
         case err of Some e \<Rightarrow> act_lift (Ok (e, d)) | None \<Rightarrow> send EC_CMD_RESEND_RESPONSE 0 [] d))
       else act_lift (Ok (rv, d))) (\<lambda>(rv, din') s. length din' = length din \<and> P s)"
      by (intro act_holds_if act_holds_bind [OF time_now_holds [OF assms(2)]]
        act_holds_bind [OF wait_completed_holds [OF assms]] last act_holds_Ok) (simp add: d)
  qed
  show "act_holds P (send_and_wait env send cmd ver dout din) (\<lambda>(rv, din') s. length din' = length din \<and> P s)"
    unfolding send_and_wait_def
    by (rule act_holds_bind2 [OF send_safeD [OF assms(1) sizes] tail])
qed

lemma send_command_proto3_safe: "machine_wf env \<Longrightarrow> send_safe sends3 (send_command_proto3 env)"
  unfolding send_command_proto3_def
  by (rule send_and_wait_safe [OF send_command_proto3_work_safe world_free_sends3])

lemma send_command_proto2_safe:
  assumes "machine_wf env"
  shows "send_safe sends2 (send_command_proto2 env)"
  unfolding send_safe_def
proof (intro allI impI act_holdsI)
  fix cmd ver dout and din :: bytes and s :: "'a ec"
  assume sizes: "int_sizes dout din" and s: "sends2 s"
  have "act_holds sends2 (send_and_wait env bus_command cmd ver dout din) (\<lambda>(rv, din') s. length din' = length din \<and> sends2 s)"
    by (rule send_safeD [OF send_and_wait_safe [OF bus_command_safe world_free_sends2 assms] sizes])
  from act_holdsD [OF this s] s show "case send_command_proto2 env cmd ver dout din s of
      (Ok x, s') \<Rightarrow> (case x of (rv, din') \<Rightarrow> \<lambda>s. length din' = length din \<and> sends2 s) s'
      | (Err, _) \<Rightarrow> False | (Fault e, _) \<Rightarrow> e = Diverges"
    by (auto simp: send_command_proto2_def sends2_def)
qed

text \<open>The driver once it is initialized.\<close>

definition ec_sends :: "'w ec \<Rightarrow> bool" where
  "ec_sends s \<longleftrightarrow> ec_buffers s \<and> ec_can_send s"

lemma ec_sends_iff: "ec_sends s \<longleftrightarrow> sends2 s \<or> sends3 s"
  by (auto simp: ec_sends_def ec_can_send_def sends2_def sends3_def)

lemma ec_command_ready_safe3: "machine_wf env \<Longrightarrow> send_safe sends3 (ec_command_ready env)"
  using send_command_proto3_safe [of env]
  by (fastforce simp: send_safe_def act_holds_def ec_command_ready_def sends3_def)

lemma ec_command_ready_safe2: "machine_wf env \<Longrightarrow> send_safe sends2 (ec_command_ready env)"
  using send_command_proto2_safe [of env]
  by (fastforce simp: send_safe_def act_holds_def ec_command_ready_def sends2_def)

lemma act_holds_disj:
  assumes "act_holds P m (\<lambda>x s. R x \<and> P s)" "act_holds P' m (\<lambda>x s. R x \<and> P' s)"
  shows "act_holds (\<lambda>s. P s \<or> P' s) m (\<lambda>x s. R x \<and> (P s \<or> P' s))"
proof (rule act_holdsI)
  fix s
  assume "P s \<or> P' s"
  then show "case m s of (Ok x, s') \<Rightarrow> R x \<and> (P s' \<or> P' s') | (Err, _) \<Rightarrow> False | (Fault e, _) \<Rightarrow> e = Diverges"
    using act_holdsD [OF assms(1)] act_holdsD [OF assms(2)] by (elim disjE) fastforce+
qed

lemma ec_command_ready_safe:
  assumes "machine_wf env"
  shows "send_safe ec_sends (ec_command_ready env)"
proof -
  have sends: "ec_sends = (\<lambda>s. sends2 s \<or> sends3 s)" by (simp add: fun_eq_iff ec_sends_iff)
  show ?thesis
    using act_holds_disj [of sends2 "ec_command_ready env cmd ver dout din" "\<lambda>(rv, d). length d = length din" sends3 for cmd ver dout and din :: bytes]
      ec_command_ready_safe2 [OF assms] ec_command_ready_safe3 [OF assms]
    unfolding send_safe_def sends by (simp add: case_prod_unfold)
qed

subsection \<open>Initialization\<close>

lemma get_protocol_info_holds:
  "send_safe P command \<Longrightarrow> length info < 2147483648 \<Longrightarrow>
   act_holds P (get_protocol_info command devidx info) (\<lambda>(rv, info') s. length info' = length info \<and> P s)"
  unfolding get_protocol_info_def
  by (rule act_holds_bind [OF send_safeD]) (auto simp: act_holds_def act_lift_def)

lemma clear_host_events_holds:
  "send_safe P command \<Longrightarrow> act_holds P (clear_host_events command events) (\<lambda>_. P)"
  unfolding clear_host_events_def
  by (rule act_holds_bind [OF send_safeD]) (auto simp: act_holds_def act_lift_def)

lemma read_id_holds:
  assumes "send_safe P command" "machine_wf env" "idbuf \<noteq> []"
  shows "act_holds P (read_id env command idbuf) (\<lambda>(rv, idbuf') s. length idbuf' = length idbuf \<and> P s)"
proof -
  have u: "length (me_uninit env 100) = 100" using assms(2) by (simp add: machine_wf_def)
  define n where "n = min (length idbuf) 32"
  have n: "(if length idbuf > 32 then 32 else length idbuf) = n" "0 < n" "n \<le> 32" "n \<le> length idbuf"
    using assms(3) by (auto simp: n_def)
  have copied: "\<exists>i. andthen (of_opt (slice r off n)) (\<lambda>v. andthen (of_opt (put idbuf 0 v)) (\<lambda>idbuf.
      if n = 0 then Fault OutOfBounds else map_res (Pair (0::int)) (of_opt (put idbuf (n - 1) [0])))) = Ok (0, i) \<and>
      length i = length idbuf" if r: "length r = 100" "off \<le> 32" for r off
  proof -
    obtain v where v: "slice r off n = Some v" using r n by (simp add: slice_def)
    obtain i where i: "put idbuf 0 v = Some i" using n slice_length [OF v] by (simp add: put_def)
    obtain j where j: "put i (n - 1) [0] = Some j" using n put_length [OF i] by (simp add: put_def)
    show ?thesis using n(2) put_length [OF i] put_length [OF j] by (simp add: v i j [simplified])
  qed
  have tail: "act_holds (\<lambda>s. length r = length (me_uninit env 100) \<and> P s)
      (if less_than_size rv 100 then act_lift (Ok (- 1 :: int, idbuf))
       else let maxlen = (if length idbuf > 32 then 32 else length idbuf) in
       act_bind (act_lift (le32_at r 96)) (\<lambda>current_image.
       if current_image = EC_IMAGE_RO \<or> current_image = EC_IMAGE_RW
       then act_lift (andthen (of_opt (slice r (if current_image = EC_IMAGE_RO then 0 else 32) maxlen)) (\<lambda>v.
         andthen (of_opt (put idbuf 0 v)) (\<lambda>idbuf.
         if maxlen = 0 then Fault OutOfBounds
         else map_res (Pair 0) (of_opt (put idbuf (maxlen - 1) [0])))))
       else act_lift (Ok (- 1 :: int, idbuf)))) (\<lambda>(rv, idbuf') s. length idbuf' = length idbuf \<and> P s)" for rv r
  proof (rule act_holds_pure, unfold n(1) Let_def)
    assume r: "length r = length (me_uninit env 100)"
    obtain c where c: "le32_at r 96 = Ok c" using le32_at_Ok [of 96 r] r u by auto
    show "act_holds P
      (if less_than_size rv 100 then act_lift (Ok (- 1 :: int, idbuf))
       else act_bind (act_lift (le32_at r 96)) (\<lambda>current_image.
       if current_image = EC_IMAGE_RO \<or> current_image = EC_IMAGE_RW
       then act_lift (andthen (of_opt (slice r (if current_image = EC_IMAGE_RO then 0 else 32) n)) (\<lambda>v.
         andthen (of_opt (put idbuf 0 v)) (\<lambda>idbuf.
         if n = 0 then Fault OutOfBounds
         else map_res (Pair 0) (of_opt (put idbuf (n - 1) [0])))))
       else act_lift (Ok (- 1 :: int, idbuf)))) (\<lambda>(rv, idbuf') s. length idbuf' = length idbuf \<and> P s)"
      unfolding c act_bind_lift_Ok
      by (intro act_holds_if act_holds_Ok) (use copied [of r "if c = EC_IMAGE_RO then 0 else 32"] r u
        in \<open>auto simp del: andthen.simps map_res.simps intro!: act_holds_lift\<close>)
  qed
  show ?thesis unfolding read_id_def
    by (rule act_holds_bind2 [OF send_safeD [OF assms(1)] tail]) (simp add: u)
qed

lemma sends3_iff: "sends3 s \<longleftrightarrow> has_packets s \<and> ec_send_func s = Some SendProto3"
  by (auto simp: sends3_def has_packets_def)

lemma set_max_proto3_sizes_holds:
  assumes "machine_wf env" "0 \<le> request_size" "0 \<le> response_size"
  shows "act_holds sends3 (set_max_proto3_sizes env request_size response_size passthru_size) (\<lambda>_. sends3)"
  using assms by (auto simp: act_holds_def set_max_proto3_sizes_def sends3_def ec_buffers_def machine_wf_def Let_def)

lemma cros_ec_probe_passthru_holds:
  assumes "machine_wf env"
  shows "act_holds sends3 (cros_ec_probe_passthru env) (\<lambda>_. sends3)"
proof -
  have tail: "act_holds (\<lambda>s. length infopd = length (me_uninit env 12) \<and> sends3 s)
      (if rv \<noteq> 0 then act_lift (Ok 0) else act_lift (map_res uint (le16_at infopd 4))) (\<lambda>_. sends3)" for rv :: int and infopd
    using le16_at_Ok [of 4 infopd] assms by (auto simp: act_holds_def act_lift_def machine_wf_def)
  have "act_holds sends3 (act_bind (get_protocol_info (ec_command_ready env) 1 (me_uninit env 12)) (\<lambda>(rv, infopd).
        if rv \<noteq> 0 then act_lift (Ok 0) else act_lift (map_res uint (le16_at infopd 4)))) (\<lambda>_. sends3)"
    by (rule act_holds_bind2 [OF get_protocol_info_holds [OF ec_command_ready_safe3 [OF assms]] tail])
      (use assms in \<open>simp add: machine_wf_def\<close>)
  then show ?thesis unfolding cros_ec_probe_passthru_def by (auto intro: act_holds_Ok)
qed

lemma choose_protocol_holds:
  assumes "machine_wf env"
  shows "act_holds has_packets (choose_protocol env)
    (\<lambda>_ s. has_packets s \<and> (ec_send_func s = None \<or> ec_send_func s = Some SendProto3))"
    (is "act_holds _ _ (\<lambda>_. ?Q)")
proof -
  have start: "act_holds has_packets (\<lambda>s. (Ok (), s\<lparr>ec_send_func := Some SendProto3\<rparr>)) (\<lambda>_. sends3)"
    by (auto simp: act_holds_def sends3_def has_packets_def ec_buffers_def)
  have off: "act_holds sends3 (\<lambda>s. (Ok (), s\<lparr>ec_send_func := None\<rparr>)) (\<lambda>_. ?Q)"
    by (auto simp: act_holds_def sends3_def has_packets_def ec_buffers_def)
  have chosen: "act_holds sends3 (act_lift (Ok ())) (\<lambda>_. ?Q)"
    by (rule act_holds_Ok) (auto simp: sends3_iff)
  have tail: "act_holds (\<lambda>s. length info = length (me_uninit env 12) \<and> sends3 s)
     (if rv \<noteq> 0
     then act_bind (set_max_proto3_sizes env 0 0 0) (\<lambda>_ s. (Ok (), s\<lparr>ec_send_func := None\<rparr>))
     else act_bind (cros_ec_probe_passthru env) (\<lambda>passthru_size.
       act_bind (act_lift (le16_at info 4)) (\<lambda>request_size.
       act_bind (act_lift (le16_at info 6)) (\<lambda>response_size.
       act_bind (set_max_proto3_sizes env (uint request_size) (uint response_size) passthru_size)
         (\<lambda>_. act_lift (Ok ())))))) (\<lambda>_. ?Q)" for rv :: int and info
  proof (rule act_holds_pure)
    assume "length info = length (me_uninit env 12)"
    then have info: "length info = 12" using assms by (simp add: machine_wf_def)
    obtain a b where ab: "le16_at info 4 = Ok a" "le16_at info 6 = Ok b"
      using le16_at_Ok [of 4 info] le16_at_Ok [of 6 info] info by auto
    have ok: "act_holds sends3 (act_lift (Ok x)) (\<lambda>_. sends3)" for x :: u16 by (rule act_holds_Ok)
    show "act_holds sends3
     (if rv \<noteq> 0
     then act_bind (set_max_proto3_sizes env 0 0 0) (\<lambda>_ s. (Ok (), s\<lparr>ec_send_func := None\<rparr>))
     else act_bind (cros_ec_probe_passthru env) (\<lambda>passthru_size.
       act_bind (act_lift (le16_at info 4)) (\<lambda>request_size.
       act_bind (act_lift (le16_at info 6)) (\<lambda>response_size.
       act_bind (set_max_proto3_sizes env (uint request_size) (uint response_size) passthru_size)
         (\<lambda>_. act_lift (Ok ())))))) (\<lambda>_. ?Q)"
      unfolding ab
      by (intro act_holds_if act_holds_bind [OF set_max_proto3_sizes_holds [OF assms]]
        act_holds_bind [OF cros_ec_probe_passthru_holds [OF assms]] act_holds_bind [OF ok] off chosen) simp_all
  qed
  have size0: "0 \<le> DEFAULT_BUF_SIZE" by (simp add: DEFAULT_BUF_SIZE_def)
  show ?thesis unfolding choose_protocol_def
    by (rule act_holds_bind [OF start], rule act_holds_bind [OF set_max_proto3_sizes_holds [OF assms size0 size0]],
      rule act_holds_bind2 [OF get_protocol_info_holds [OF ec_command_ready_safe3 [OF assms]] tail])
      (use assms in \<open>simp add: machine_wf_def\<close>)
qed

lemma fall_back_holds:
  "act_holds (\<lambda>s. ec_buffers s \<and> ec_bus_ops s \<noteq> None \<and>
      (ec_send_func s = Some SendProto3 \<longrightarrow> has_packets s)) fall_back (\<lambda>_. ec_sends)"
  by (auto simp: act_holds_def fall_back_def ec_sends_iff sends2_def sends3_def has_packets_def ec_buffers_def
    split: option.split send_command_func.splits) (metis send_command_func.exhaust)+

lemma ec_sends_wf: "ec_sends s \<Longrightarrow> ec_wf s"
  by (auto simp: ec_sends_def ec_wf_def ec_can_send_def has_packets_def)

lemma ec_sends_initialized: "ec_sends (s\<lparr>ec_initialized := b\<rparr>) = ec_sends s"
  by (simp add: ec_sends_def ec_buffers_def ec_can_send_def)

lemma cros_ec_init_holds:
  assumes env: "machine_wf env"
  shows "act_holds ec_wf (cros_ec_init env) (\<lambda>rv s. ec_wf s \<and> (rv = 0 \<longrightarrow> ec_sends s))"
proof (rule act_holdsI)
  fix s :: "'a ec"
  assume s: "ec_wf s"
  let ?post = "\<lambda>(rv :: int) s. ec_wf s \<and> (rv = 0 \<longrightarrow> ec_sends s)"
  show "case cros_ec_init env s of (Ok x, s') \<Rightarrow> ?post x s' | (Err, _) \<Rightarrow> False | (Fault e, _) \<Rightarrow> e = Diverges"
  proof (cases "ec_initialized s \<or> ec_bus_ops s = None")
    case True
    with s show ?thesis by (auto simp: cros_ec_init_def ec_wf_def ec_sends_def split: option.split)
  next
    case False
    then obtain bus where bus: "ec_bus_ops s = Some bus" and fresh: "\<not> ec_initialized s" by blast
    obtain rv w where init: "(case bus_init bus of None \<Rightarrow> (0, ec_world s) | Some init \<Rightarrow> init (ec_world s)) = (rv, w)"
      by fastforce
    let ?s = "s\<lparr>ec_world := w, ec_initialized := True\<rparr>"
    let ?P = "\<lambda>t. ec_buffers t \<and> ec_bus_ops t = Some bus \<and> (ec_send_func t = Some SendProto3 \<longrightarrow> bus_send_packet bus \<noteq> None)"
    have failed: "act_holds ec_sends (\<lambda>s. (Ok (- 1), s\<lparr>ec_initialized := False\<rparr>)) ?post"
      by (auto simp: act_holds_def ec_sends_initialized intro!: ec_sends_wf)
    have uninit: "me_uninit env MSG_BYTES \<noteq> []" "length (me_uninit env MSG_BYTES) = MSG_BYTES"
      using env by (auto simp: machine_wf_def MSG_BYTES_def dest: arg_cong [of _ _ length])
    have last: "act_holds ec_sends (if rv \<noteq> 0 then (\<lambda>s. (Ok (- 1), s\<lparr>ec_initialized := False\<rparr>))
        else act_bind (clear_host_events (ec_command_ready env) (EC_HOST_EVENT_MASK EC_HOST_EVENT_KEYBOARD_RECOVERY))
          (\<lambda>_. act_lift (Ok 0))) ?post" for rv :: int
      by (intro act_holds_if failed act_holds_bind [OF clear_host_events_holds [OF ec_command_ready_safe [OF env]]] act_holds_Ok)
        (simp add: ec_sends_wf)
    have chosen: "act_holds ?P (case bus_send_packet bus of Some _ \<Rightarrow> choose_protocol env | None \<Rightarrow> act_lift (Ok ()))
        (\<lambda>_ s. ec_buffers s \<and> ec_bus_ops s \<noteq> None \<and> (ec_send_func s = Some SendProto3 \<longrightarrow> has_packets s))"
    proof (cases "bus_send_packet bus")
      case None
      then show ?thesis by (auto intro: act_holds_Ok)
    next
      case (Some packet)
      show ?thesis unfolding Some option.case
        by (rule act_holds_conseq [OF choose_protocol_holds [OF env]]) (auto simp: has_packets_def Some)
    qed
    let ?chain = "act_bind (case bus_send_packet bus of Some _ \<Rightarrow> choose_protocol env | None \<Rightarrow> act_lift (Ok ())) (\<lambda>_.
        act_bind fall_back (\<lambda>_.
        act_bind (read_id env (ec_command_ready env) (me_uninit env MSG_BYTES)) (\<lambda>(rv, _).
        if rv \<noteq> 0 then (\<lambda>s. (Ok (- 1), s\<lparr>ec_initialized := False\<rparr>))
        else act_bind (clear_host_events (ec_command_ready env) (EC_HOST_EVENT_MASK EC_HOST_EVENT_KEYBOARD_RECOVERY))
          (\<lambda>_. act_lift (Ok 0)))))"
    have "act_holds ?P ?chain ?post"
      by (intro act_holds_bind [OF chosen] act_holds_bind [OF fall_back_holds]
        act_holds_bind2 [OF read_id_holds [OF ec_command_ready_safe [OF env] env uninit(1)]]
        act_holds_pure last)
    moreover have "?P ?s" using s bus by (auto simp: ec_wf_def ec_buffers_def has_packets_def)
    moreover have "cros_ec_init env s = (if rv \<noteq> 0 then (Ok (- 1), s\<lparr>ec_world := w\<rparr>) else ?chain ?s)"
      using fresh by (simp add: cros_ec_init_def bus init Let_def)
    moreover have "ec_wf (s\<lparr>ec_world := w\<rparr>)" using s by (auto simp: ec_wf_def ec_buffers_def ec_can_send_def has_packets_def)
    ultimately show ?thesis unfolding act_holds_def by (cases "rv = 0") simp_all
  qed
qed

lemma ec_command_holds:
  assumes env: "machine_wf env"
  shows "send_safe ec_wf (ec_command env)"
  unfolding send_safe_def
proof (intro allI impI act_holdsI)
  fix cmd ver dout and din :: bytes and s :: "'a ec"
  assume sizes: "int_sizes dout din" and s: "ec_wf s"
  have ready: "act_holds ec_sends (ec_command_ready env cmd ver dout din) (\<lambda>(rv, din') s. length din' = length din \<and> ec_wf s)"
    by (rule act_holds_conseq [OF send_safeD [OF ec_command_ready_safe [OF env] sizes]]) (auto intro: ec_sends_wf)
  have "act_holds ec_wf (act_bind (cros_ec_init env) (\<lambda>rv.
      if rv \<noteq> 0 then act_lift (Ok (- 1, din)) else ec_command_ready env cmd ver dout din))
      (\<lambda>(rv, din') s. length din' = length din \<and> ec_wf s)"
    by (rule act_holds_bind [OF cros_ec_init_holds [OF env]])
      (auto intro: act_holds_Ok act_holds_conseq [OF ready])
  moreover have "ec_initialized s \<Longrightarrow> ec_sends s" using s by (simp add: ec_wf_def ec_sends_def)
  ultimately show "case ec_command env cmd ver dout din s of
      (Ok x, s') \<Rightarrow> (case x of (rv, din') \<Rightarrow> \<lambda>s. length din' = length din \<and> ec_wf s) s'
      | (Err, _) \<Rightarrow> False | (Fault e, _) \<Rightarrow> e = Diverges"
    using s ready by (auto simp: ec_command_def act_holds_def)
qed

text \<open>
  C5.  Memory safety of the driver of the embedded controller: from a well-formed driver, also one that
  is not initialized yet, every command returns, or waits for more rounds than the bound, whatever the
  bus and the EC answer, if the sizes of request and response packet are in the range of \<open>int\<close>.  It leaves a buffer of the same length and a well-formed driver.
\<close>

theorem ec_command_safe:
  assumes "machine_wf env" "ec_wf s" and "length dout < 2147483640" "length din < 2147483648"
  shows "(\<exists>rv din' s'. ec_command env cmd ver dout din s = (Ok (rv, din'), s') \<and> length din' = length din \<and> ec_wf s') \<or>
    (\<exists>s'. ec_command env cmd ver dout din s = (Fault Diverges, s'))"
  using act_holdsD [OF send_safeD [OF ec_command_holds [OF assms(1)]] assms(2), of dout din cmd ver] assms(3,4) by auto

lemma ec_command_safe_witness:
  "\<exists>bus env s. machine_wf env \<and> cros_ec_set_bus bus (ec_static ()) = (Ok 0, s) \<and> ec_wf s \<and>
     ((\<exists>rv din' s'. ec_command env 1 0 [] [0] s = (Ok (rv, din'), s') \<and> length din' = length [0 :: u8] \<and> ec_wf s') \<or>
      (\<exists>s'. ec_command env 1 0 [] [0] s = (Fault Diverges, s')))"
proof -
  define bus :: "unit ec_bus" where "bus = \<lparr>bus_init = None, bus_send_command = \<lambda>_ _ _ din w. (0, din, w), bus_send_packet = None\<rparr>"
  define env :: "unit machine" where "env = \<lparr>me_time = \<lambda>w. (0, w), me_delay = \<lambda>_ w. w, me_uninit = \<lambda>n. replicate n 0, me_fuel = 1, me_passthru = True\<rparr>"
  define s where "s = (ec_static ())\<lparr>ec_bus_ops := Some bus\<rparr>"
  have env: "machine_wf env" by (simp add: env_def machine_wf_def)
  have s: "ec_wf s" by (simp add: s_def ec_static_def bus_def ec_wf_def ec_buffers_def bus_in_bounds_def)
  have "cros_ec_set_bus bus (ec_static ()) = (Ok 0, s)" by (simp add: cros_ec_set_bus_def ec_static_def s_def)
  moreover have "length ([] :: bytes) < 2147483640" "length [0 :: u8] < 2147483648" by simp_all
  note ec_command_safe [OF env s this, of 1 0]
  ultimately show ?thesis using env s by blast
qed

text \<open>With data just short of 2 GiB the size of the packet is negative, and the data is copied past the buffer.\<close>

lemma create_proto3_request_wraps:
  assumes "2147483640 \<le> length dout" "length dout < 2147483648" "0 \<le> rq_size" "length rq = nat rq_size" "rq_size < 65544"
  shows "create_proto3_request rq rq_size cmd ver dout = Fault OutOfBounds"
proof -
  have "c_int (int (length dout) + 8) = int (length dout) + 8 - 4294967296" using assms by (intro c_int_wraps) simp_all
  moreover have "put rq 0 (request_header 0 cmd ver (length dout) @ dout) = None" using assms by (simp add: put_def)
  ultimately show ?thesis using assms by (simp add: create_proto3_request_def sizeof_host_header_def)
qed

end
