(* ===== verification/EcHost.thy ===== *)
theory EcHost
  imports EcCommands
begin

text \<open>
  What the driver and an embedded controller that follows the protocol do together.  The locale
  \<open>ec_host\<close> states what a command achieves; both versions of the protocol are its interpretations,
  and updating the firmware of the EC is proved in it once.
\<close>

subsection \<open>The interface\<close>

text \<open>
  The EC: what it answers to the version of a command with parameters, a result code and data, and its
  new state.
\<close>

type_synonym 'w ec_handler = "u16 \<Rightarrow> u8 \<Rightarrow> bytes \<Rightarrow> 'w \<Rightarrow> u16 \<times> bytes \<times> 'w"

locale ec_host =
  fixes env :: "'w machine"
    and host :: "'w ec \<Rightarrow> bool"
    and handle :: "'w ec_handler"
    and max_out :: nat
    and max_in :: nat
  assumes max_out: "host s \<Longrightarrow> max_param_size s = int max_out"
    and max_out_less: "max_out < 65536"
    and exchange: "host s \<Longrightarrow> 0 \<le> cmd \<Longrightarrow> cmd \<le> 0xff \<Longrightarrow> length dout \<le> max_out \<Longrightarrow> length din \<le> max_in \<Longrightarrow>
      handle (word_of_int cmd) (word_of_int ver) dout (ec_world s) = (result, resp, w) \<Longrightarrow>
      length resp \<le> length din \<Longrightarrow> result \<noteq> 8 \<Longrightarrow>
      \<exists>d s'. ec_command env cmd ver dout din s = (Ok (if result = 0 then int (length resp) else - uint result, d), s') \<and>
        length d = length din \<and> (result = 0 \<longrightarrow> take (length resp) d = resp) \<and> host s' \<and> ec_world s' = w"
begin

lemma command_ok:
  assumes "host s" "0 \<le> cmd" "cmd \<le> 0xff" "length dout \<le> max_out" "length resp \<le> max_in"
    and "handle (word_of_int cmd) (word_of_int ver) dout (ec_world s) = (0, resp, w)" "length din = length resp"
  shows "\<exists>s'. ec_command env cmd ver dout din s = (Ok (int (length resp), resp), s') \<and> host s' \<and> ec_world s' = w"
  using exchange [OF assms(1-4) _ assms(6), of din] assms(5,7) by fastforce

end

subsection \<open>Protocol version 3\<close>

definition request_packet :: "u16 \<Rightarrow> u8 \<Rightarrow> bytes \<Rightarrow> bytes" where
  "request_packet cmd ver data =
     (let fields = le_bytes 2 (unat cmd) @ [ver, 0] @ le_bytes 2 (length data) @ data
      in [3, - (3 + sum_list fields)] @ fields)"

definition response_packet :: "u16 \<Rightarrow> bytes \<Rightarrow> bytes" where
  "response_packet result data =
     (let fields = le_bytes 2 (unat result) @ le_bytes 2 (length data) @ [0, 0] @ data
      in [3, - (3 + sum_list fields)] @ fields)"

text \<open>The bus gives a well-formed packet to the EC and puts its response in front of the buffer.\<close>

definition speaks_proto3 :: "'w ec_handler \<Rightarrow> (bytes \<Rightarrow> bytes \<Rightarrow> 'w \<Rightarrow> int \<times> bytes \<times> 'w) \<Rightarrow> bool" where
  "speaks_proto3 handle packet \<longleftrightarrow>
     (\<forall>cmd ver data rs w result resp w'. length data < 65536 \<longrightarrow> handle cmd ver data w = (result, resp, w') \<longrightarrow>
        8 + length resp \<le> length rs \<longrightarrow>
        (\<exists>rv rest. packet (request_packet cmd ver data) rs w = (rv, response_packet result resp @ rest, w') \<and>
           0 \<le> rv \<and> 8 + length resp + length rest = length rs))"

definition proto3_ready :: "'w ec_handler \<Rightarrow> nat \<Rightarrow> nat \<Rightarrow> 'w ec \<Rightarrow> bool" where
  "proto3_ready handle m n s \<longleftrightarrow>
     ec_initialized s \<and> ec_send_func s = Some SendProto3 \<and>
     (\<exists>bus packet. ec_bus_ops s = Some bus \<and> bus_send_packet bus = Some packet \<and> speaks_proto3 handle packet) \<and>
     length (proto3_request s) = m + 8 \<and> proto3_request_size s = int (m + 8) \<and>
     length (proto3_response s) = n + 8 \<and> proto3_response_size s = int (n + 8) \<and>
     max_param_size s = int m \<and> m < 65536 \<and> n < 65536"

lemma length_request_packet [simp]: "length (request_packet cmd ver data) = 8 + length data"
  by (simp add: request_packet_def Let_def)

lemma length_response_packet [simp]: "length (response_packet result data) = 8 + length data"
  by (simp add: response_packet_def Let_def)

lemma le_bytes_2: "le_bytes 2 v = [word_of_nat v, word_of_nat (v div 256)]"
  by (simp add: numeral_2_eq_2)

lemma put_front: "length xs = n \<Longrightarrow> n \<le> length b \<Longrightarrow> put b 0 xs = Some (xs @ drop n b)"
  by (simp add: put_def)

lemma create_proto3_request_eq:
  assumes "length rq = m + 8" "length data \<le> m" "m < 65536"
  shows "create_proto3_request rq (int (m + 8)) cmd ver data =
     Ok (int (length data) + 8, request_packet (word_of_int cmd) (word_of_int ver) data @ drop (8 + length data) rq)"
proof -
  have len: "unat (word_of_nat (length data) :: u16) = length data" using assms by (simp add: unat_of_nat)
  let ?h = "\<lambda>c. [3, c] @ le_bytes 2 (unat (word_of_int cmd :: u16)) @ [word_of_int ver, 0] @ le_bytes 2 (length data)"
  let ?rest = "drop (8 + length data) rq"
  have h: "request_header 0 cmd ver (length data) = ?h 0"
    by (simp add: request_header_def EC_HOST_REQUEST_VERSION_def len)
  have one: "put rq 0 (?h 0 @ data) = Some (?h 0 @ data @ ?rest)"
    using put_front [of "?h 0 @ data" "8 + length data" rq] assms by simp
  have sum: "cros_ec_calc_checksum (?h 0 @ data @ ?rest) (int (length data) + 8) = Ok (sum_list (?h 0 @ data))"
  proof -
    have n: "nat (int (length data) + 8) = 8 + length data" by simp
    have "slice ([] @ (?h 0 @ data) @ ?rest) 0 (8 + length data) = Some (?h 0 @ data)"
      by (rule slice_append_mid) simp_all
    then show ?thesis by (simp add: cros_ec_calc_checksum_def n)
  qed
  have two: "put (?h 0 @ data @ ?rest) 1 [- sum_list (?h 0 @ data)] =
      Some (request_packet (word_of_int cmd) (word_of_int ver) data @ ?rest)"
    by (simp add: put_def request_packet_def Let_def add.assoc)
  have n: "c_int (int (length data) + 8) = int (length data) + 8" using assms by (intro c_int_small) simp_all
  have fits: "\<not> int (length data) + 8 > int (m + 8)" using assms(2) by simp
  show ?thesis
    by (simp only: create_proto3_request_def sizeof_host_header_def Let_def n fits if_False h one sum two of_opt.simps andthen.simps)
qed

lemma sum_response_packet: "sum_list (response_packet result data) = 0"
  by (simp add: response_packet_def Let_def)

lemma le16_le_bytes: "le16 (le_bytes 2 (unat (w :: u16))) = w"
proof -
  have "unat w < 65536" by (rule order_less_le_trans [OF unsigned_less]) simp
  then show ?thesis by (simp add: le16_def le_val_le_bytes)
qed

lemma handle_proto3_response_eq:
  assumes "length data \<le> length din" "length din < 65536" "8 + length data + length rest = 8 + length din"
  shows "handle_proto3_response (response_packet result data @ rest @ old) din =
     Ok (if result = 0 then int (length data) else - uint result, if result = 0 then data @ rest else din)"
proof -
  let ?p = "response_packet result data @ rest @ old"
  have len: "unat (word_of_nat (length data) :: u16) = length data" using assms by (simp add: unat_of_nat)
  have ver: "rd ?p 0 = Some 3" by (simp add: rd_def response_packet_def Let_def)
  have l2: "le_bytes 2 (length data) = le_bytes 2 (unat (word_of_nat (length data) :: u16))" by (simp only: len)
  have result: "le16_at ?p 2 = Ok result"
    by (simp add: le16_at_def slice_def response_packet_def Let_def le16_le_bytes)
  have dlen: "le16_at ?p 4 = Ok (word_of_nat (length data))"
    by (simp add: le16_at_def slice_def response_packet_def Let_def l2 le16_le_bytes)
  have reserved: "le16_at ?p 6 = Ok 0"
    by (simp add: le16_at_def slice_def response_packet_def Let_def le16_def)
  have ulen: "uint (word_of_nat (length data) :: u16) = int (length data)" by (simp add: uint_nat len)
  have csum: "cros_ec_calc_checksum ?p (sizeof_host_header + int (length data)) = Ok 0"
    by (simp add: cros_ec_calc_checksum_def slice_def sizeof_host_header_def nat_add_distrib sum_response_packet)
  have out: "slice (response_packet r data @ rest @ old) 8 (length din) = Some (data @ rest)" for r using assms(3)
    by (simp add: slice_def response_packet_def Let_def)
  show ?thesis using assms(1)
    by (simp add: handle_proto3_response_def ver result dlen reserved ulen csum out EC_HOST_RESPONSE_VERSION_def)
qed

lemma send_command_proto3_work_eq:
  assumes s: "proto3_ready handle m n s" and fits: "length dout \<le> m" "length din \<le> n" "length resp \<le> length din"
    and ec: "handle (word_of_int cmd) (word_of_int ver) dout (ec_world s) = (result, resp, w)"
  shows "\<exists>rest s'. send_command_proto3_work cmd ver dout din s =
      (Ok (if result = 0 then int (length resp) else - uint result, if result = 0 then resp @ rest else din), s') \<and>
      length (resp @ rest) = length din \<and> proto3_ready handle m n s' \<and> ec_world s' = w"
proof -
  obtain bus packet where bus: "ec_bus_ops s = Some bus" "bus_send_packet bus = Some packet" "speaks_proto3 handle packet"
    using s by (auto simp: proto3_ready_def)
  have sizes: "length (proto3_request s) = m + 8" "proto3_request_size s = int (m + 8)"
      "length (proto3_response s) = n + 8" "proto3_response_size s = int (n + 8)" "m < 65536" "n < 65536"
    using s by (auto simp: proto3_ready_def)
  let ?pkt = "request_packet (word_of_int cmd) (word_of_int ver) dout"
  let ?rq = "?pkt @ drop (8 + length dout) (proto3_request s)"
  let ?rs = "take (8 + length din) (proto3_response s)"
  have rq: "create_proto3_request (proto3_request s) (proto3_request_size s) cmd ver dout = Ok (int (length dout) + 8, ?rq)"
    unfolding sizes(2) by (rule create_proto3_request_eq [OF sizes(1) fits(1) sizes(5)])
  have in_bytes: "prepare_proto3_response_buffer (proto3_response_size s) (int (length din)) = int (length din) + 8"
    using fits(2) sizes(6) c_int_small [of "int (length din) + 8"]
    by (simp add: prepare_proto3_response_buffer_def sizeof_host_header_def sizes(4) Let_def)
  have sl: "slice ?rq 0 (nat (int (length dout) + 8)) = Some ?pkt"
      "slice (proto3_response s) 0 (nat (int (length din) + 8)) = Some ?rs"
    using fits sizes by (simp_all add: slice_def nat_add_distrib add.commute)
  have "8 + length resp \<le> length ?rs" using fits sizes(3) by simp
  with bus(3) ec fits(1) sizes(5) obtain rv rest where sent:
    "packet ?pkt ?rs (ec_world s) = (rv, response_packet result resp @ rest, w)" "0 \<le> rv"
    "8 + length resp + length rest = length ?rs"
    unfolding speaks_proto3_def by (meson le_less_trans)
  have rest: "8 + length resp + length rest = 8 + length din" using sent(3) fits(2) sizes(3) by simp
  let ?buf = "response_packet result resp @ rest @ drop (8 + length din) (proto3_response s)"
  have buf: "put (proto3_response s) 0 (response_packet result resp @ rest) = Some ?buf"
    using put_front [of "response_packet result resp @ rest" "8 + length din"] rest fits(2) sizes(3) by simp
  have handled: "handle_proto3_response ?buf din =
      Ok (if result = 0 then int (length resp) else - uint result, if result = 0 then resp @ rest else din)"
    by (rule handle_proto3_response_eq [OF fits(3) _ rest]) (use fits(2) sizes(6) in simp)
  let ?s = "s\<lparr>proto3_request := ?rq, ec_world := w, proto3_response := ?buf\<rparr>"
  have "send_command_proto3_work cmd ver dout din s =
      (Ok (if result = 0 then int (length resp) else - uint result, if result = 0 then resp @ rest else din), ?s)"
    using sent(2) by (simp add: send_command_proto3_work_def act_bind_def act_lift_def rq in_bytes bus(1,2) sl sent(1) buf handled
      Let_def del: append.simps append_assoc)
  moreover have "proto3_ready handle m n ?s" using s rest fits sizes by (auto simp: proto3_ready_def)
  ultimately show ?thesis using rest by force
qed

lemma send_and_wait_no_wait:
  assumes "send cmd ver dout din s = (Ok (rv, d), s')" "rv \<noteq> - EC_RES_IN_PROGRESS"
  shows "send_and_wait env send cmd ver dout din s = (Ok (rv, d), s')"
  using assms by (simp add: send_and_wait_def act_bind_def act_lift_def)

lemma result_not_in_progress: "result \<noteq> (8 :: u16) \<Longrightarrow> (if result = 0 then int k else - uint result) \<noteq> - EC_RES_IN_PROGRESS"
  by (auto simp: EC_RES_IN_PROGRESS_def word_uint_eq_iff)

lemma proto3_exchange:
  assumes s: "proto3_ready handle m n s" and fits: "length dout \<le> m" "length din \<le> n" "length resp \<le> length din"
    and ec: "handle (word_of_int cmd) (word_of_int ver) dout (ec_world s) = (result, resp, w)" "result \<noteq> 8"
  shows "\<exists>rest s'. ec_command env cmd ver dout din s =
      (Ok (if result = 0 then int (length resp) else - uint result, if result = 0 then resp @ rest else din), s') \<and>
      length (resp @ rest) = length din \<and> proto3_ready handle m n s' \<and> ec_world s' = w"
proof -
  obtain rest s' where r: "send_command_proto3_work cmd ver dout din s =
      (Ok (if result = 0 then int (length resp) else - uint result, if result = 0 then resp @ rest else din), s')"
      "length (resp @ rest) = length din" "proto3_ready handle m n s'" "ec_world s' = w"
    using send_command_proto3_work_eq [OF s fits ec(1)] by blast
  have ready: "ec_initialized s" "ec_send_func s = Some SendProto3" using s by (auto simp: proto3_ready_def)
  have "ec_command env cmd ver dout din s =
      (Ok (if result = 0 then int (length resp) else - uint result, if result = 0 then resp @ rest else din), s')"
    using send_and_wait_no_wait [of send_command_proto3_work, OF r(1) result_not_in_progress, OF ec(2), of env] ready
    by (simp only: ec_command_def ec_command_ready_def send_command_proto3_def if_True option.case send_command_func.case)
  with r(2-4) show ?thesis by blast
qed

interpretation proto3: ec_host env "proto3_ready handle (min m 65535) n" handle "min m 65535" n for env handle m n
proof
  fix s :: "'a ec" and cmd ver dout and din :: bytes and result resp w
  assume "proto3_ready handle (min m 65535) n s" "length dout \<le> min m 65535" "length din \<le> n"
    "handle (word_of_int cmd) (word_of_int ver) dout (ec_world s) = (result, resp, w)" "length resp \<le> length din" "result \<noteq> 8"
  from proto3_exchange [OF this(1-3) this(5) this(4,6), of env]
  show "\<exists>d s'. ec_command env cmd ver dout din s = (Ok (if result = 0 then int (length resp) else - uint result, d), s') \<and>
        length d = length din \<and> (result = 0 \<longrightarrow> take (length resp) d = resp) \<and>
        proto3_ready handle (min m 65535) n s' \<and> ec_world s' = w"
    by (cases "result = 0") fastforce+
qed (auto simp: proto3_ready_def)

subsection \<open>Protocol version 2\<close>

definition speaks_proto2 :: "'w ec_handler \<Rightarrow> (u8 \<Rightarrow> int \<Rightarrow> bytes \<Rightarrow> bytes \<Rightarrow> 'w \<Rightarrow> int \<times> bytes \<times> 'w) \<Rightarrow> nat \<Rightarrow> bool" where
  "speaks_proto2 handle command n \<longleftrightarrow>
     (\<forall>cmd ver data din w result resp w'. length data \<le> 0xfc \<longrightarrow> length din \<le> n \<longrightarrow>
        handle (ucast cmd) (word_of_int ver) data w = (result, resp, w') \<longrightarrow> length resp \<le> length din \<longrightarrow>
        (\<exists>d. command cmd ver data din w = (if result = 0 then int (length resp) else - uint result, d, w') \<and>
           length d = length din \<and> (result = 0 \<longrightarrow> take (length resp) d = resp)))"

definition proto2_ready :: "'w ec_handler \<Rightarrow> nat \<Rightarrow> 'w ec \<Rightarrow> bool" where
  "proto2_ready handle n s \<longleftrightarrow>
     ec_initialized s \<and> ec_send_func s = Some SendProto2 \<and> max_param_size s = EC_PROTO2_MAX_PARAM_SIZE \<and>
     (\<exists>bus. ec_bus_ops s = Some bus \<and> speaks_proto2 handle (bus_send_command bus) n)"

lemma ucast_byte_command: "0 \<le> cmd \<Longrightarrow> cmd \<le> 0xff \<Longrightarrow> ucast (word_of_int cmd :: u8) = (word_of_int cmd :: u16)"
  by (intro word_uint_eqI) (simp add: unsigned_ucast_eq uint_word_of_int take_bit_int_eq_self)

lemma proto2_exchange:
  assumes s: "proto2_ready handle n s" and cmd: "0 \<le> cmd" "cmd \<le> 0xff" and fits: "length dout \<le> 0xfc" "length din \<le> n"
    and ec: "handle (word_of_int cmd) (word_of_int ver) dout (ec_world s) = (result, resp, w)"
      "length resp \<le> length din" "result \<noteq> 8"
  shows "\<exists>d s'. ec_command env cmd ver dout din s = (Ok (if result = 0 then int (length resp) else - uint result, d), s') \<and>
      length d = length din \<and> (result = 0 \<longrightarrow> take (length resp) d = resp) \<and> proto2_ready handle n s' \<and> ec_world s' = w"
proof -
  obtain bus where bus: "ec_bus_ops s = Some bus" "speaks_proto2 handle (bus_send_command bus) n"
    using s by (auto simp: proto2_ready_def)
  have "handle (ucast (word_of_int cmd :: u8)) (word_of_int ver) dout (ec_world s) = (result, resp, w)"
    using ec(1) by (simp only: ucast_byte_command [OF cmd])
  with bus(2) fits ec(2) obtain d where d: "bus_send_command bus (word_of_int cmd) ver dout din (ec_world s) =
      (if result = 0 then int (length resp) else - uint result, d, w)" "length d = length din"
      "result = 0 \<longrightarrow> take (length resp) d = resp"
    unfolding speaks_proto2_def by meson
  have sent: "bus_command cmd ver dout din s = (Ok (if result = 0 then int (length resp) else - uint result, d), s\<lparr>ec_world := w\<rparr>)"
    using d(2) by (simp add: bus_command_def bus(1) d(1) put_def)
  have "ec_command env cmd ver dout din s = (Ok (if result = 0 then int (length resp) else - uint result, d), s\<lparr>ec_world := w\<rparr>)"
    using send_and_wait_no_wait [of bus_command, OF sent result_not_in_progress, OF ec(3)] s cmd(2) bus(1)
    by (simp add: ec_command_def ec_command_ready_def send_command_proto2_def proto2_ready_def)
  moreover have "proto2_ready handle n (s\<lparr>ec_world := w\<rparr>)" using s by (simp add: proto2_ready_def)
  ultimately show ?thesis using d(2,3) by fastforce
qed

interpretation proto2: ec_host env "proto2_ready handle n" handle 252 n for env handle n
proof
  fix s :: "'a ec" and cmd ver dout and din :: bytes and result resp w
  assume "proto2_ready handle n s" "0 \<le> cmd" "cmd \<le> 0xff" "length dout \<le> 252" "length din \<le> n"
    "handle (word_of_int cmd) (word_of_int ver) dout (ec_world s) = (result, resp, w)" "length resp \<le> length din" "result \<noteq> 8"
  from proto2_exchange [OF this, of env]
  show "\<exists>d s'. ec_command env cmd ver dout din s = (Ok (if result = 0 then int (length resp) else - uint result, d), s') \<and>
        length d = length din \<and> (result = 0 \<longrightarrow> take (length resp) d = resp) \<and> proto2_ready handle n s' \<and> ec_world s' = w"
    .
qed (auto simp: proto2_ready_def EC_PROTO2_MAX_PARAM_SIZE_def)

subsection \<open>A bus with an EC at its end\<close>

text \<open>It takes the request apart and answers what \<open>handle\<close> says.\<close>

definition serve_packet :: "'w ec_handler \<Rightarrow> bytes \<Rightarrow> bytes \<Rightarrow> 'w \<Rightarrow> int \<times> bytes \<times> 'w" where
  "serve_packet handle rq rs w =
     (case handle (le16 (take 2 (drop 2 rq))) (rq ! 4) (drop 8 rq) w of (result, resp, w') \<Rightarrow>
        let p = response_packet result resp in
        if length p \<le> length rs then (0, p @ drop (length p) rs, w') else (- 1, rs, w'))"

lemma speaks_proto3_serve_packet: "speaks_proto3 handle (serve_packet handle)"
  unfolding speaks_proto3_def
proof (intro allI impI)
  fix cmd ver data and rs :: bytes and w result resp w'
  assume a: "handle cmd ver data w = (result, resp, w')" "8 + length resp \<le> length rs"
  have "take 2 (drop 2 (request_packet cmd ver data)) = le_bytes 2 (unat cmd)" "request_packet cmd ver data ! 4 = ver"
      "drop 8 (request_packet cmd ver data) = data"
    by (simp_all add: request_packet_def Let_def nth_append)
  with a show "\<exists>rv rest. serve_packet handle (request_packet cmd ver data) rs w = (rv, response_packet result resp @ rest, w') \<and>
      0 \<le> rv \<and> 8 + length resp + length rest = length rs"
    by (simp add: serve_packet_def le16_le_bytes)
qed

definition packet_bus :: "'w ec_handler \<Rightarrow> 'w ec_bus" where
  "packet_bus handle = \<lparr>bus_init = None, bus_send_command = \<lambda>_ _ _ din w. (- 1, din, w), bus_send_packet = Some (serve_packet handle)\<rparr>"

definition packet_driver :: "'w ec_handler \<Rightarrow> nat \<Rightarrow> nat \<Rightarrow> 'w \<Rightarrow> 'w ec" where
  "packet_driver handle m n w =
     (ec_static w)\<lparr>ec_bus_ops := Some (packet_bus handle), ec_send_func := Some SendProto3,
        proto3_request := replicate (m + 8) 0, proto3_request_size := int (m + 8),
        proto3_response := replicate (n + 8) 0, proto3_response_size := int (n + 8),
        max_param_size := int m, passthru_param_size := int m, ec_initialized := True\<rparr>"

lemma packet_driver_ready: "m < 65536 \<Longrightarrow> n < 65536 \<Longrightarrow> proto3_ready handle m n (packet_driver handle m n w)"
  by (simp add: proto3_ready_def packet_driver_def packet_bus_def ec_static_def speaks_proto3_serve_packet)

lemma ec_world_packet_driver [simp]: "ec_world (packet_driver handle m n w) = w"
  by (simp add: packet_driver_def ec_static_def)

text \<open>
  C4.  A command over protocol version 3 reaches the EC as it is: the EC is given the command, its
  version and the parameters in a packet whose bytes sum to zero, and its answer comes back as the
  number of bytes and the data, or as the negated result code with the buffer of the caller untouched.
\<close>

theorem ec_command_exchange:
  assumes "proto3_ready handle m n s" "length dout \<le> m" "length din \<le> n" "length resp \<le> length din"
    and "handle (word_of_int cmd) (word_of_int ver) dout (ec_world s) = (result, resp, w)" "result \<noteq> 8"
  shows "sum_list (request_packet (word_of_int cmd) (word_of_int ver) dout) = 0 \<and>
    (\<exists>rest s'. ec_command env cmd ver dout din s =
      (Ok (if result = 0 then int (length resp) else - uint result, if result = 0 then resp @ rest else din), s') \<and>
      length (resp @ rest) = length din \<and> proto3_ready handle m n s' \<and> ec_world s' = w)"
  using proto3_exchange [OF assms] by (simp add: request_packet_def Let_def)

lemma ec_command_exchange_witness:
  "\<exists>handle :: bytes ec_handler. \<exists>env s s'. handle 0x4001 2 [5] [7] = (0, [7], [5]) \<and>
     proto3_ready handle 16 16 s \<and> ec_world s = [7] \<and>
     ec_command env 0x4001 2 [5] [1] s = (Ok (1, [7]), s') \<and> ec_world s' = [5]"
proof -
  define handle :: "bytes ec_handler" where "handle = (\<lambda>cmd ver data w. (if cmd = 0x4001 then (0, w, data) else (1, [], w)))"
  define s where "s = packet_driver handle 16 16 [7]"
  have s: "proto3_ready handle 16 16 s" "ec_world s = [7]" by (simp_all add: s_def packet_driver_ready)
  have h: "handle (word_of_int 0x4001) (word_of_int 2) [5] (ec_world s) = (0, [7], [5])" by (simp add: handle_def s(2))
  have "\<exists>rest s'. ec_command env 0x4001 2 [5] [1] s = (Ok (1, [7] @ rest), s') \<and> length ([7 :: u8] @ rest) = 1 \<and> ec_world s' = [5]" for env
    using ec_command_exchange [OF s(1) _ _ _ h, of "[1]" env] by auto
  then obtain env s' where "ec_command env 0x4001 2 [5] [1] s = (Ok (1, [7]), s')" "ec_world s' = [5]" by fastforce
  with s h show ?thesis by fastforce
qed

end
