(* ===== verification/EcFlash.thy ===== *)
theory EcFlash
  imports EcHost
begin

text \<open>
  Updating the firmware of the embedded controller, \<open>cros_ec_flash_update_rw\<close>, proved for every host
  interface of EcHost; the wait for a reboot; and what the size comparisons make of errors.
\<close>

subsection \<open>The flash of the EC\<close>

text \<open>
  The flash commands as \<^verbatim>\<open>drivers/ec/cros/commands.h\<close> documents them.  \<open>v1\<close> says whether the EC has version 1
  of the write command; version 0, which the driver sends, supports only 64 bytes of data.  Offset and
  size of a write are multiples of \<open>wbs\<close>, of an erasure of \<open>ebs\<close>, and the writable region is the \<open>sz\<close> bytes at
  \<open>rw\<close>.  Erasing sets every bit, and bytes that are erased can be written.
\<close>

definition ec_erased :: "bytes \<Rightarrow> nat \<Rightarrow> nat \<Rightarrow> bool" where
  "ec_erased F lo hi \<longleftrightarrow> (\<forall>i. lo \<le> i \<and> i < hi \<longrightarrow> F ! i = 0xff)"

definition serves_flash :: "'w ec_handler \<Rightarrow> ('w \<Rightarrow> bytes) \<Rightarrow> bool \<Rightarrow> u32 \<Rightarrow> u32 \<Rightarrow> u32 \<Rightarrow> u32 \<Rightarrow> bool" where
  "serves_flash handle flash v1 wbs ebs rw sz \<longleftrightarrow>
     (\<forall>w. \<exists>mask. (mask AND EC_VER_MASK 1 \<noteq> 0 \<longleftrightarrow> v1) \<and> handle 0x08 0 [0x12] w = (0, le_bytes 4 (unat mask), w)) \<and>
     (\<forall>w. \<exists>info. length info = 16 \<and> slice info 4 4 = Some (le_bytes 4 (unat wbs)) \<and> handle 0x10 0 [] w = (0, info, w)) \<and>
     (\<forall>w. handle 0x16 1 (le_bytes 4 1) w = (0, two_u32 rw sz, w)) \<and>
     (\<forall>w off n. unat ebs dvd unat off \<longrightarrow> unat ebs dvd unat n \<longrightarrow> unat off + unat n \<le> length (flash w) \<longrightarrow>
        (\<exists>w'. handle 0x13 0 (two_u32 off n) w = (0, [], w') \<and>
           put (flash w) (unat off) (replicate (unat n) 0xff) = Some (flash w'))) \<and>
     (\<forall>w off n d. length d = unat n \<longrightarrow> 64 < unat n \<longrightarrow>
        (\<exists>result w'. handle 0x12 0 (two_u32 off n @ d) w = (result, [], w') \<and> result \<noteq> 0 \<and> result \<noteq> 8 \<and> flash w' = flash w)) \<and>
     (\<forall>w off n d. length d = unat n \<longrightarrow> unat n \<le> 64 \<longrightarrow> unat wbs dvd unat off \<longrightarrow> unat wbs dvd unat n \<longrightarrow> unat off + unat n \<le> length (flash w) \<longrightarrow>
        ec_erased (flash w) (unat off) (unat off + unat n) \<longrightarrow>
        (\<exists>w'. handle 0x12 0 (two_u32 off n @ d) w = (0, [], w') \<and> put (flash w) (unat off) d = Some (flash w')))"

lemma length_two_u32 [simp]: "length (two_u32 a b) = 8"
  by (simp add: two_u32_def)

lemma le32_word_bytes: "le32 (le_bytes 4 (unat (w :: u32))) = w"
  using unat_u32_less [of w] by (simp add: le32_def le_val_le_bytes)

lemma le32_at_eq: "slice p off 4 = Some (le_bytes 4 (unat w)) \<Longrightarrow> le32_at p off = Ok w"
  by (simp add: le32_at_def le32_word_bytes)

lemma le32_at_two_u32: "le32_at (two_u32 a b) 0 = Ok a" "le32_at (two_u32 a b) 4 = Ok b"
  by (auto intro!: le32_at_eq simp: two_u32_def slice_def)

lemma not_less_than_size: "\<not> less_than_size (int n) n"
  by (simp add: less_than_size_def)

lemma put_put:
  assumes "put F k xs = Some F1" "put F1 (k + length xs) ys = Some F2"
  shows "put F k (xs @ ys) = Some F2"
proof -
  have le: "k + length xs \<le> length F" "k + length xs + length ys \<le> length F"
      and F1: "F1 = take k F @ xs @ drop (k + length xs) F"
    using assms put_length [OF assms(1)] by (auto simp: put_def split: if_splits)
  have "F2 = take (k + length xs) F1 @ ys @ drop (k + length xs + length ys) F1"
    using assms(2) by (auto simp: put_def split: if_splits)
  then show ?thesis using le by (cases xs) (auto simp: put_def F1 min_def add_ac)
qed

lemma erased_put:
  assumes "put F k xs = Some F1" "ec_erased F k hi" "hi \<le> length F"
  shows "ec_erased F1 (k + length xs) hi"
  using assms put_nth [OF assms(1)] by (auto simp: ec_erased_def)

lemma put_padding:
  assumes "ec_erased F k (k + length xs + m)" "k + length xs + m \<le> length F"
  shows "put F k (xs @ replicate m 0xff) = put F k xs"
proof -
  have "drop (k + length xs) F = replicate m 0xff @ drop (k + length xs + m) F"
    using assms by (intro nth_equalityI) (auto simp: ec_erased_def nth_append add.assoc)
  then show ?thesis using assms(2) by (simp add: put_def add.assoc)
qed

lemma put_erased_image:
  assumes "put F k (replicate n 0xff) = Some F1" "put F1 k xs = Some F2" "length xs \<le> n"
  shows "F2 = take k F @ xs @ replicate (n - length xs) 0xff @ drop (k + n) F"
  using assms by (auto simp: put_def min_def split: if_splits)

lemma erased_fresh: "put F k (replicate n 0xff) = Some F1 \<Longrightarrow> ec_erased F1 k (k + n)"
  by (auto simp: ec_erased_def put_def nth_append split: if_splits)

lemma align_up_block: "0 < n \<Longrightarrow> n \<le> b \<Longrightarrow> align_up n b = b"
proof -
  assume "0 < n" "n \<le> b"
  then have "(n + (b - 1)) div b = 1" by (intro div_nat_eqI) auto
  then show ?thesis by (simp add: align_up_def)
qed

lemma align_up_blocks:
  assumes "0 < b" "b \<le> n"
  shows "align_up n b = b + align_up (n - b) b"
proof -
  have n: "(n - b + (b - 1)) + b = n + (b - 1)" using assms by simp
  have "(n - b + (b - 1) + b) div b = (n - b + (b - 1)) div b + 1" using assms(1) by (intro div_add_self2) simp
  then show ?thesis unfolding align_up_def n by simp
qed

context ec_host
begin

lemma flash_offset_ok:
  assumes "serves_flash handle flash v1 wbs ebs rw sz" "machine_wf env" "host s" "8 \<le> max_in" "8 \<le> max_out"
  shows "\<exists>s'. cros_ec_flash_offset env 0 EC_FLASH_REGION_RW s = (Ok (Some (rw, sz)), s') \<and>
      host s' \<and> ec_world s' = ec_world s"
proof -
  have "handle 0x16 1 (le_bytes 4 1) (ec_world s) = (0, two_u32 rw sz, ec_world s)"
    using assms(1) by (simp add: serves_flash_def)
  then have "\<exists>s'. ec_command env 0x16 1 (le_bytes 4 1) (me_uninit env 8) s = (Ok (int (length (two_u32 rw sz)), two_u32 rw sz), s') \<and>
      host s' \<and> ec_world s' = ec_world s"
    using assms by (intro command_ok) (simp_all add: machine_wf_def)
  then obtain s' where s': "ec_command env 0x16 1 (le_bytes 4 1) (me_uninit env 8) s = (Ok (8, two_u32 rw sz), s')"
      "host s'" "ec_world s' = ec_world s" by auto
  have cmd: "EC_CMD_PASSTHRU_OFFSET 0 + EC_CMD_FLASH_REGION_INFO = 0x16" "unat EC_FLASH_REGION_RW = 1"
    by (simp_all add: EC_FLASH_REGION_RW_def EC_CMD_PASSTHRU_OFFSET_def EC_CMD_FLASH_REGION_INFO_def)
  show ?thesis
    using s'(2,3) by (simp add: cros_ec_flash_offset_def cmd act_bind_def s'(1) [unfolded One_nat_def] act_lift_def le32_at_two_u32)
qed

lemma flash_erase_ok:
  assumes "serves_flash handle flash v1 wbs ebs rw sz" "host s" "8 \<le> max_out" "unat off + unat n \<le> length (flash (ec_world s))"
    and "unat ebs dvd unat off" "unat ebs dvd unat n"
  shows "\<exists>s'. cros_ec_flash_erase env 0 off n s = (Ok 0, s') \<and> host s' \<and>
      put (flash (ec_world s)) (unat off) (replicate (unat n) 0xff) = Some (flash (ec_world s'))"
proof -
  obtain w' where w': "handle 0x13 0 (two_u32 off n) (ec_world s) = (0, [], w')"
      "put (flash (ec_world s)) (unat off) (replicate (unat n) 0xff) = Some (flash w')"
    using assms(1,4-6) unfolding serves_flash_def by blast
  have "\<exists>s'. ec_command env 0x13 0 (two_u32 off n) [] s = (Ok (int (length ([] :: bytes)), []), s') \<and> host s' \<and> ec_world s' = w'"
    using assms w'(1) by (intro command_ok) simp_all
  with w'(2) show ?thesis
    by (auto simp: cros_ec_flash_erase_def EC_CMD_PASSTHRU_OFFSET_def EC_CMD_FLASH_ERASE_def act_bind_def act_lift_def)
qed

lemma param_limit_host: "host s \<Longrightarrow> param_limit s 0 = word_of_nat max_out"
  by (simp add: param_limit_def max_out)

text \<open>A block that fits in a packet is sent, and the result is 0 if the EC says so.\<close>

lemma flash_write_block_sent:
  assumes env: "machine_wf env" and s: "host s" and n: "8 + unat n \<le> max_out" "unat n \<le> length data"
    and ec: "handle 0x12 0 (two_u32 off n @ take (unat n) data) (ec_world s) = (result, [], w')" "result \<noteq> 8"
  shows "\<exists>s'. cros_ec_flash_write_block env 0 data off n s = (Ok (if result = 0 then 0 else - 1), s') \<and> host s' \<and> ec_world s' = w'"
proof -
  let ?d = "take (unat n) data"
  have d: "slice data 0 (unat n) = Some ?d" "length ?d = unat n" using n(2) by (simp_all add: slice_def)
  have "8 + n = word_of_nat (8 + unat n)" by simp
  moreover have small: "8 + unat n < 4294967296" using n(1) max_out_less by linarith
  ultimately have buf: "unat (8 + n) = 8 + unat n" using unat_u32_of_nat [OF small] by metis
  have "unat (word_of_nat max_out :: u32) = max_out" using max_out_less by (simp add: unat_of_nat)
  then have fits: "\<not> 8 + n > param_limit s 0" using n(1) by (simp add: param_limit_host [OF s] word_less_nat_alt buf)
  have filled: "put (me_uninit env (unat (8 + n))) 0 (two_u32 off n @ ?d) = Some (two_u32 off n @ ?d)"
    using env d(2) by (simp add: put_def machine_wf_def buf)
  obtain r s' where s': "ec_command env 0x12 0 (two_u32 off n @ ?d) [] s = (Ok (if result = 0 then 0 else - uint result, r), s')"
      "host s'" "ec_world s' = w'"
    using exchange [OF s, where cmd = "0x12" and dout = "two_u32 off n @ ?d" and din = "[]" and ver = 0 and result = result and
      resp = "[]" and w = w'] n(1) ec d(2) by auto
  have "(if result = 0 then 0 else - uint result) < 0 \<longleftrightarrow> result \<noteq> 0"
    by (auto simp: word_uint_eq_iff order_less_le)
  with s' fits show ?thesis
    by (auto simp: cros_ec_flash_write_block_def Let_def d(1) filled EC_CMD_PASSTHRU_OFFSET_def EC_CMD_FLASH_WRITE_def
      act_bind_def act_lift_def)
qed

lemma flash_write_block_refused:
  assumes ec: "serves_flash handle flash v1 wbs ebs rw sz" "machine_wf env" and s: "host s"
    and n: "8 + unat n \<le> max_out" "unat n \<le> length data" "64 < unat n"
  shows "\<exists>s'. cros_ec_flash_write_block env 0 data off n s = (Ok (- 1), s') \<and> host s' \<and> flash (ec_world s') = flash (ec_world s)"
proof -
  have "length (take (unat n) data) = unat n" using n(2) by simp
  with ec(1) n(3) obtain result w' where "handle 0x12 0 (two_u32 off n @ take (unat n) data) (ec_world s) = (result, [], w')"
      "result \<noteq> 0" "result \<noteq> 8" "flash w' = flash (ec_world s)"
    unfolding serves_flash_def by meson
  with flash_write_block_sent [OF ec(2) s n(1,2)] show ?thesis by fastforce
qed

lemma flash_write_block_ok:
  assumes ec: "serves_flash handle flash v1 wbs ebs rw sz" "machine_wf env" and s: "host s"
    and n: "8 + unat n \<le> max_out" "unat n \<le> length data" "unat n \<le> 64" "unat wbs dvd unat off" "unat wbs dvd unat n"
    and F: "unat off + unat n \<le> length (flash (ec_world s))" "ec_erased (flash (ec_world s)) (unat off) (unat off + unat n)"
  shows "\<exists>s'. cros_ec_flash_write_block env 0 data off n s = (Ok 0, s') \<and> host s' \<and>
      put (flash (ec_world s)) (unat off) (take (unat n) data) = Some (flash (ec_world s'))"
proof -
  have "length (take (unat n) data) = unat n" using n(2) by simp
  with ec(1) n(3-5) F obtain w' where "handle 0x12 0 (two_u32 off n @ take (unat n) data) (ec_world s) = (0, [], w')"
      "put (flash (ec_world s)) (unat off) (take (unat n) data) = Some (flash w')"
    unfolding serves_flash_def by meson
  with flash_write_block_sent [OF ec(2) s n(1,2)] show ?thesis by fastforce
qed

lemma cmd_version_supported_ok:
  assumes "serves_flash handle flash v1 wbs ebs rw sz" "machine_wf env" "host s" "8 \<le> max_in" "8 \<le> max_out"
  shows "\<exists>s'. cros_ec_cmd_version_supported env 0 EC_CMD_FLASH_WRITE 1 s = (Ok v1, s') \<and> host s' \<and> ec_world s' = ec_world s"
proof -
  obtain mask where mask: "mask AND EC_VER_MASK 1 \<noteq> 0 \<longleftrightarrow> v1" "handle 0x08 0 [0x12] (ec_world s) = (0, le_bytes 4 (unat mask), ec_world s)"
    using assms(1) unfolding serves_flash_def by blast
  have "\<exists>s'. ec_command env 0x08 0 [0x12] (me_uninit env 4) s = (Ok (int (length (le_bytes 4 (unat mask))), le_bytes 4 (unat mask)), s') \<and>
      host s' \<and> ec_world s' = ec_world s"
    using assms mask(2) by (intro command_ok) (simp_all add: machine_wf_def)
  moreover have "le32_at (le_bytes 4 (unat mask)) 0 = Ok mask" by (rule le32_at_eq) (simp add: slice_def)
  ultimately show ?thesis using mask(1) not_less_than_size [of 4]
    by (auto simp: cros_ec_cmd_version_supported_def cros_ec_get_cmd_versions_def EC_CMD_FLASH_WRITE_def EC_CMD_PASSTHRU_OFFSET_def
      act_bind_def act_lift_def)
qed

lemma flash_write_burst_size_ok:
  assumes "serves_flash handle flash v1 wbs ebs rw sz" "machine_wf env" "host s" "16 \<le> max_in" "8 \<le> max_out" "wbs \<noteq> 0"
  shows "\<exists>burst s'. cros_ec_flash_write_burst_size env 0 s = (Ok burst, s') \<and>
      unat burst = (if v1 then (max_out - 8) div unat wbs * unat wbs else 64) \<and> host s' \<and> ec_world s' = ec_world s"
proof (cases v1)
  case False
  obtain s1 where "cros_ec_cmd_version_supported env 0 EC_CMD_FLASH_WRITE 1 s = (Ok False, s1)" "host s1" "ec_world s1 = ec_world s"
    using cmd_version_supported_ok [OF assms(1-3)] assms(4,5) False by auto
  then show ?thesis using False
    by (auto simp: cros_ec_flash_write_burst_size_def Let_def act_bind_def act_lift_def EC_FLASH_WRITE_VER0_SIZE_def One_nat_def)
next
  case True
  obtain s1 where s1: "cros_ec_cmd_version_supported env 0 EC_CMD_FLASH_WRITE 1 s = (Ok True, s1)" "host s1" "ec_world s1 = ec_world s"
    using cmd_version_supported_ok [OF assms(1-3)] assms(4,5) True by auto
  obtain info where info: "length info = 16" "slice info 4 4 = Some (le_bytes 4 (unat wbs))"
      "handle 0x10 0 [] (ec_world s1) = (0, info, ec_world s1)"
    using assms(1) unfolding serves_flash_def by blast
  have "\<exists>s'. ec_command env 0x10 0 [] (me_uninit env 16) s1 = (Ok (int (length info), info), s') \<and> host s' \<and> ec_world s' = ec_world s1"
    using assms(2,4) s1(2) info by (intro command_ok) (simp_all add: machine_wf_def)
  then obtain s2 where s2: "ec_command env 0x10 0 [] (me_uninit env 16) s1 = (Ok (16, info), s2)" "host s2" "ec_world s2 = ec_world s1"
    using info(1) by auto
  let ?burst = "(param_limit s 0 - 8) div wbs * wbs"
  have limit: "unat (param_limit s 0) = max_out" using max_out_less by (simp add: param_limit_host [OF assms(3)] unat_of_nat)
  have "(8 :: u32) \<le> param_limit s 0" using assms(5) by (simp add: word_le_nat_alt limit)
  then have sub: "unat (param_limit s 0 - 8) = max_out - 8" using limit by (simp add: unat_sub)
  have "(max_out - 8) div unat wbs * unat wbs \<le> max_out - 8" by simp
  then have "(max_out - 8) div unat wbs * unat wbs < 2 ^ 32"
    by (rule le_less_trans) (use max_out_less in simp)
  then have "unat ?burst = (max_out - 8) div unat wbs * unat wbs" 
    by (subst unat_mult_lem [THEN iffD1]) (simp_all add: unat_div sub)
  moreover have "cros_ec_flash_write_burst_size env 0 s = (Ok ?burst, s2)"
    using s2(1) assms(6) not_less_than_size [of 16] info(2)
    by (simp add: cros_ec_flash_write_burst_size_def Let_def act_bind_def act_lift_def s1(1) [unfolded One_nat_def] EC_CMD_FLASH_INFO_def
      EC_CMD_PASSTHRU_OFFSET_def le32_at_eq [OF info(2)])
  ultimately show ?thesis using s2(2,3) s1(3) True by auto
qed

lemma flash_write_round_ok:
  assumes ec: "serves_flash handle flash v1 wbs ebs rw sz" "machine_wf env" and s: "host s"
    and burst: "0 < unat burst" "unat wbs dvd unat burst" "8 + unat burst \<le> max_out" "unat burst \<le> 64" "unat wbs dvd unat off"
    and n: "off < stop" "n = unat (stop - off)" "n \<le> length data"
    and F: "unat off + unat burst \<le> length (flash (ec_world s))" "ec_erased (flash (ec_world s)) (unat off) (unat off + unat burst)"
  shows "\<exists>s'. ec_write_loop (Suc fuel) env 0 burst data off stop s =
        ec_write_loop fuel env 0 burst (drop (unat burst) data) (off + burst) stop s' \<and> host s' \<and>
      put (flash (ec_world s)) (unat off) (take (min n (unat burst)) data) = Some (flash (ec_world s'))"
proof (cases "n < unat burst")
  case True
  let ?d = "take n data @ replicate (unat burst - n) 0xff"
  have todo: "min (stop - off) burst = stop - off" "stop - off < burst" using True n(2)
    by (simp_all add: min_def word_less_nat_alt word_le_nat_alt)
  have rest: "unat (burst - (stop - off)) = unat burst - n" using todo(2) n(2) by (simp add: unat_sub)
  obtain s' where s': "cros_ec_flash_write_block env 0 ?d off burst s = (Ok 0, s')" "host s'"
      "put (flash (ec_world s)) (unat off) (take (unat burst) ?d) = Some (flash (ec_world s'))"
    using flash_write_block_ok [OF ec s burst(3) _ burst(4,5,2) F, of ?d] n(3) True by auto
  have all: "take (unat burst) ?d = ?d" using n(3) True by simp
  have "put (flash (ec_world s)) (unat off) ?d = put (flash (ec_world s)) (unat off) (take n data)"
    using F n(3) True by (intro put_padding) (simp_all add: add.assoc)
  moreover have "ec_write_loop (Suc fuel) env 0 burst data off stop s =
      ec_write_loop fuel env 0 burst (drop (unat burst) data) (off + burst) stop s'"
    using n s'(1) by (simp add: todo Let_def rest act_bind_def act_lift_def slice_def)
  moreover have "min n (unat burst) = n" using True by simp
  ultimately show ?thesis using s'(2) s'(3) [unfolded all] by (intro exI [of _ s']) (simp del: ec_write_loop.simps)
next
  case False
  have todo: "min (stop - off) burst = burst" using False n(2) by (intro min.absorb2) (simp add: word_le_nat_alt)
  obtain s' where s': "cros_ec_flash_write_block env 0 data off burst s = (Ok 0, s')" "host s'"
      "put (flash (ec_world s)) (unat off) (take (unat burst) data) = Some (flash (ec_world s'))"
    using flash_write_block_ok [OF ec s burst(3) _ burst(4,5,2) F, of data] n(3) False by auto
  moreover have "ec_write_loop (Suc fuel) env 0 burst data off stop s =
      ec_write_loop fuel env 0 burst (drop (unat burst) data) (off + burst) stop s'"
    using n(1) s'(1) by (simp add: todo Let_def act_bind_def act_lift_def)
  moreover have "min n (unat burst) = unat burst" using False by simp
  ultimately show ?thesis by (intro exI [of _ s']) (simp del: ec_write_loop.simps)
qed

lemma ec_write_loop_end: "\<not> off < stop \<Longrightarrow> ec_write_loop (Suc fuel) env 0 burst data off stop s = (Ok 0, s)"
  by (simp add: act_lift_def)

lemma ec_write_loop_ok:
  assumes ec: "serves_flash handle flash v1 wbs ebs rw sz" "machine_wf env"
    and burst: "0 < unat burst" "unat wbs dvd unat burst" "8 + unat burst \<le> max_out" "unat burst \<le> 64" and hi: "hi < 2 ^ 32"
  shows "host s \<Longrightarrow> unat off + n = unat stop \<Longrightarrow> n \<le> length data \<Longrightarrow> unat off + align_up n (unat burst) \<le> hi \<Longrightarrow>
      hi \<le> length (flash (ec_world s)) \<Longrightarrow> ec_erased (flash (ec_world s)) (unat off) hi \<Longrightarrow> n < fuel \<Longrightarrow>
      unat wbs dvd unat off \<Longrightarrow>
      \<exists>s'. ec_write_loop fuel env 0 burst data off stop s = (Ok 0, s') \<and> host s' \<and>
        put (flash (ec_world s)) (unat off) (take n data) = Some (flash (ec_world s'))"
proof (induction fuel arbitrary: s off n data)
  case 0
  then show ?case by simp
next
  case (Suc fuel)
  let ?b = "unat burst"
  show ?case
  proof (cases "n = 0")
    case True
    then have "\<not> off < stop" using Suc.prems(2) by (simp add: word_less_nat_alt)
    from ec_write_loop_end [OF this] show ?thesis using Suc.prems(1,5,4) True by (auto simp: put_def)
  next
    case False
    have lt: "off < stop" using False Suc.prems(2) by (simp add: word_less_nat_alt)
    then have n: "n = unat (stop - off)" using Suc.prems(2) by (simp add: unat_sub)
    have block: "unat off + ?b \<le> hi"
      using Suc.prems(4) False burst(1) align_up_block [of n ?b] align_up_blocks [of ?b n] by (cases "n \<le> ?b") auto
    have F: "unat off + ?b \<le> length (flash (ec_world s))" "ec_erased (flash (ec_world s)) (unat off) (unat off + ?b)"
      using block Suc.prems(5,6) by (auto simp: ec_erased_def)
    obtain s1 where s1: "ec_write_loop (Suc fuel) env 0 burst data off stop s =
        ec_write_loop fuel env 0 burst (drop ?b data) (off + burst) stop s1" "host s1"
        "put (flash (ec_world s)) (unat off) (take (min n ?b) data) = Some (flash (ec_world s1))"
      using flash_write_round_ok [OF ec Suc.prems(1) burst Suc.prems(8) lt n Suc.prems(3) F] by blast
    have off': "unat (off + burst) = unat off + ?b"
      by (subst unat_add_lem [THEN iffD1]) (use block hi in simp_all)
    show ?thesis
    proof (cases "n \<le> ?b")
      case True
      obtain g where g: "fuel = Suc g" using Suc.prems(7) False by (cases fuel) auto
      have "\<not> off + burst < stop" using True Suc.prems(2) by (simp add: word_less_nat_alt off')
      from ec_write_loop_end [OF this, of g] s1 True show ?thesis by (auto simp: g min_def simp del: ec_write_loop.simps)
    next
      case long: False
      have l1: "length (flash (ec_world s1)) = length (flash (ec_world s))" by (rule put_length [OF s1(3)])
      have m: "min n ?b = ?b" "length (take ?b data) = ?b" using long Suc.prems(3) by auto
      have e1: "ec_erased (flash (ec_world s1)) (unat (off + burst)) hi"
        using erased_put [OF s1(3) Suc.prems(6,5)] m by (simp add: off')
      have "\<exists>s'. ec_write_loop fuel env 0 burst (drop ?b data) (off + burst) stop s1 = (Ok 0, s') \<and> host s' \<and>
        put (flash (ec_world s1)) (unat (off + burst)) (take (n - ?b) (drop ?b data)) = Some (flash (ec_world s'))"
        by (rule Suc.IH [OF s1(2) _ _ _ _ e1])
          (use Suc.prems(2,3,4,5,7,8) long burst(1,2) align_up_blocks [of ?b n] in \<open>auto simp: off' l1\<close>)
      then obtain s2 where s2: "ec_write_loop fuel env 0 burst (drop ?b data) (off + burst) stop s1 = (Ok 0, s2)" "host s2"
        "put (flash (ec_world s1)) (unat (off + burst)) (take (n - ?b) (drop ?b data)) = Some (flash (ec_world s2))" by blast
      have "put (flash (ec_world s)) (unat off) (take ?b data @ take (n - ?b) (drop ?b data)) = Some (flash (ec_world s2))"
        using s1(3) s2(3) m by (intro put_put [of _ _ _ "flash (ec_world s1)"]) (simp_all add: off')
      moreover have "take ?b data @ take (n - ?b) (drop ?b data) = take n data"
        using long by (metis le_add_diff_inverse nat_le_linear take_add)
      ultimately show ?thesis using s1(1) s2(1,2) by auto
    qed
  qed
qed

lemma ec_write_loop_refused:
  assumes ec: "serves_flash handle flash v1 wbs ebs rw sz" "machine_wf env" and s: "host s"
    and burst: "8 + unat burst \<le> max_out" "64 < unat burst"
    and n: "off < stop" "unat (stop - off) \<le> length data"
  shows "\<exists>s'. ec_write_loop (Suc fuel) env 0 burst data off stop s = (Ok (- 1), s') \<and> flash (ec_world s') = flash (ec_world s)"
proof (cases "stop - off < burst")
  case True
  let ?d = "take (unat (stop - off)) data @ replicate (unat (burst - (stop - off))) 0xff"
  have todo: "min (stop - off) burst = stop - off" using True by simp
  have "unat (stop - off) < unat burst" using True by (simp add: word_less_nat_alt)
  then have "unat burst \<le> length ?d" using n(2) True by (simp add: unat_sub)
  then obtain s' where "cros_ec_flash_write_block env 0 ?d off burst s = (Ok (- 1), s')" "flash (ec_world s') = flash (ec_world s)"
    using flash_write_block_refused [OF ec s burst(1) _ burst(2)] by blast
  then show ?thesis using n True by (simp add: todo Let_def act_bind_def act_lift_def slice_def)
next
  case False
  then have "unat burst \<le> length data" using n(2) by (simp add: word_less_nat_alt)
  then obtain s' where "cros_ec_flash_write_block env 0 data off burst s = (Ok (- 1), s')" "flash (ec_world s') = flash (ec_world s)"
    using flash_write_block_refused [OF ec s burst(1) _ burst(2)] by blast
  moreover have "min (stop - off) burst = burst" using False by simp
  ultimately show ?thesis using n(1) by (simp add: Let_def act_bind_def act_lift_def)
qed

lemma flash_update_rw_result:
  assumes ec: "serves_flash handle flash v1 wbs ebs rw sz" "machine_wf env" and s: "host s"
    and m: "16 \<le> max_in" "8 \<le> max_out" "wbs \<noteq> 0"
    and burst: "burst = (if v1 then (max_out - 8) div unat wbs * unat wbs else 64)" "0 < burst" "unat wbs dvd burst" "8 + burst \<le> max_out"
    and region: "unat rw + unat sz \<le> length (flash (ec_world s))" "unat rw + unat sz < 2 ^ 32"
      "unat wbs dvd unat rw" "unat ebs dvd unat rw" "unat ebs dvd unat sz"
    and image: "align_up (length img) burst \<le> unat sz" "length img < me_fuel env"
  shows "\<exists>s'. cros_ec_flash_update_rw env 0 img (int (length img)) s = (Ok (if burst \<le> 64 \<or> img = [] then 0 else - 1), s') \<and>
      flash (ec_world s') = take (unat rw) (flash (ec_world s)) @
        (if burst \<le> 64 then img @ replicate (unat sz - length img) 0xff else replicate (unat sz) 0xff) @
        drop (unat rw + unat sz) (flash (ec_world s))"
proof -
  obtain s1 where s1: "cros_ec_flash_offset env 0 EC_FLASH_REGION_RW s = (Ok (Some (rw, sz)), s1)" "host s1" "ec_world s1 = ec_world s"
    using flash_offset_ok [OF ec s] m by auto
  obtain s2 where s2: "cros_ec_flash_erase env 0 rw sz s1 = (Ok 0, s2)" "host s2"
      "put (flash (ec_world s1)) (unat rw) (replicate (unat sz) 0xff) = Some (flash (ec_world s2))"
    using flash_erase_ok [OF ec(1) s1(2) m(2)] region(1,4,5) s1(3) by auto
  obtain b s3 where s3: "cros_ec_flash_write_burst_size env 0 s2 = (Ok b, s3)" "unat b = burst" "host s3" "ec_world s3 = ec_world s2"
    using flash_write_burst_size_ok [OF ec s2(2) m] burst(1) by auto
  have le: "length img \<le> unat sz" using image(1) align_up_ge [OF burst(2)] by (rule le_trans [rotated])
  have len: "unat (word_of_nat (length img) :: u32) = length img"
    by (rule unat_u32_of_nat) (use le unat_u32_less [of sz] in linarith)
  have stop: "unat (rw + word_of_nat (length img)) = unat rw + length img"
    using le region(2) by (simp add: unat_add_lem [THEN iffD1] len)
  have wb: "unat wbs dvd unat b" "8 + unat b \<le> max_out" "0 < unat b" using burst(2-4) s3(2) by simp_all
  have er: "ec_erased (flash (ec_world s3)) (unat rw) (unat rw + unat sz)" using erased_fresh [OF s2(3)] s3(4) by simp
  have l2: "unat rw + unat sz \<le> length (flash (ec_world s3))" using put_length [OF s2(3)] region(1) s1(3) s3(4) by simp
  have update: "cros_ec_flash_update_rw env 0 img (int (length img)) s =
      ec_write_loop (me_fuel env) env 0 b img rw (rw + word_of_nat (length img)) s3"
    using le wb(3) by (auto simp: cros_ec_flash_update_rw_def act_bind_def act_lift_def s1(1) s2(1) s3(1) cros_ec_flash_write_def
      word_less_nat_alt len split: prod.splits res.splits)
  show ?thesis
  proof (cases "burst \<le> 64")
    case True
    obtain s4 where s4: "ec_write_loop (me_fuel env) env 0 b img rw (rw + word_of_nat (length img)) s3 = (Ok 0, s4)" "host s4"
        "put (flash (ec_world s3)) (unat rw) (take (length img) img) = Some (flash (ec_world s4))"
      using ec_write_loop_ok [OF ec wb(3,1,2) _ region(2) s3(3) stop [symmetric] _ _ l2 er image(2), where data = img]
        image(1) region(3) s3(2) True by auto
    have "flash (ec_world s4) = take (unat rw) (flash (ec_world s)) @ img @ replicate (unat sz - length img) 0xff @
        drop (unat rw + unat sz) (flash (ec_world s))"
      using put_erased_image [OF s2(3), of img] s4(3) s3(4) s1(3) le by simp
    with update s4(1) True show ?thesis by auto
  next
    case False
    obtain g where g: "me_fuel env = Suc g" using image(2) by (cases "me_fuel env") auto
    have F2: "flash (ec_world s3) = take (unat rw) (flash (ec_world s)) @ replicate (unat sz) 0xff @
        drop (unat rw + unat sz) (flash (ec_world s))"
      using put_erased_image [OF s2(3), of "[]"] s3(4) s1(3) l2 by (simp add: put_def)
    show ?thesis
    proof (cases "img = []")
      case True
      then show ?thesis using update False F2 ec_write_loop_end [of rw rw g 0] by (simp add: g)
    next
      case nonempty: False
      have "rw < rw + word_of_nat (length img)" using nonempty by (simp add: word_less_nat_alt stop)
      moreover have "unat (rw + word_of_nat (length img) - rw) \<le> length img" by (simp add: len)
      ultimately obtain s4 where "ec_write_loop (me_fuel env) env 0 b img rw (rw + word_of_nat (length img)) s3 = (Ok (- 1), s4)"
          "flash (ec_world s4) = flash (ec_world s3)"
        using ec_write_loop_refused [OF ec s3(3) wb(2), of rw "rw + word_of_nat (length img)" img g] False s3(2) by (auto simp: g)
      with update False nonempty F2 show ?thesis by auto
    qed
  qed
qed

end

subsection \<open>Updating the firmware\<close>

text \<open>
  C6.  \<open>cros_ec_flash_update_rw\<close> over both versions of the protocol, with an EC that keeps to
  \<^verbatim>\<open>commands.h\<close> and an image that fits in the writable region when it is rounded up to a multiple of the burst
  size.  An EC without version 1 of the write command, and one whose bursts have at most 64 bytes, ends up with
  the image in the region and erased bytes after it.  Any other EC refuses the first block, because the
  driver chooses the larger bursts of version 1 but sends version 0: the update fails and leaves the region
  erased.  The rest of the flash is as before.
\<close>

theorem cros_ec_flash_update_rw_programs:
  assumes "proto3_ready handle m n s \<or> proto2_ready handle n s \<and> m = 252"
    and "serves_flash handle flash v1 wbs ebs rw sz" "machine_wf env" "16 \<le> n" "8 \<le> m" "wbs \<noteq> 0"
    and "burst = (if v1 then (m - 8) div unat wbs * unat wbs else 64)" "0 < burst" "unat wbs dvd burst" "8 + burst \<le> m"
    and "unat rw + unat sz \<le> length (flash (ec_world s))" "unat rw + unat sz < 2 ^ 32"
    and "unat wbs dvd unat rw" "unat ebs dvd unat rw" "unat ebs dvd unat sz"
    and "align_up (length img) burst \<le> unat sz" "length img < me_fuel env"
  shows "\<exists>s'. cros_ec_flash_update_rw env 0 img (int (length img)) s = (Ok (if burst \<le> 64 \<or> img = [] then 0 else - 1), s') \<and>
      flash (ec_world s') = take (unat rw) (flash (ec_world s)) @
        (if burst \<le> 64 then img @ replicate (unat sz - length img) 0xff else replicate (unat sz) 0xff) @
        drop (unat rw + unat sz) (flash (ec_world s))"
  using assms(1)
proof (elim disjE conjE)
  assume s: "proto3_ready handle m n s"
  then have m: "min m 65535 = m" by (simp add: proto3_ready_def)
  show ?thesis
    by (rule proto3.flash_update_rw_result [of handle flash v1 wbs ebs rw sz env m n s burst img, unfolded m]) (use s assms(2-) in simp_all)
next
  assume "proto2_ready handle n s" "m = 252"
  then show ?thesis
    by (intro proto2.flash_update_rw_result [of handle flash v1 wbs ebs rw sz env n s burst img]) (use assms(2-) in simp_all)
qed

text \<open>An EC whose state is its flash, with blocks of \<open>wbs\<close> bytes.\<close>

definition flash_ec :: "bool \<Rightarrow> u32 \<Rightarrow> u32 \<Rightarrow> u32 \<Rightarrow> bytes ec_handler" where
  "flash_ec v1 wbs rw sz cmd ver data F =
     (if cmd = 0x08 then (0, le_bytes 4 (if v1 then 2 else 1), F)
      else if cmd = 0x10 then (0, replicate 4 0 @ le_bytes 4 (unat wbs) @ replicate 8 0, F)
      else if cmd = 0x16 then (0, two_u32 rw sz, F)
      else if cmd = 0x13 then
        (case put F (unat (le32 (take 4 data))) (replicate (unat (le32 (drop 4 data))) 0xff) of
           None \<Rightarrow> (3, [], F) | Some F' \<Rightarrow> (0, [], F'))
      else if cmd = 0x12 \<and> length data \<le> 72 then
        (case put F (unat (le32 (take 4 data))) (drop 8 data) of None \<Rightarrow> (3, [], F) | Some F' \<Rightarrow> (0, [], F'))
      else (3, [], F))"

lemma flash_ec_serves: "serves_flash (flash_ec v1 wbs rw sz) id v1 wbs ebs rw sz"
  unfolding serves_flash_def
proof (intro conjI allI impI)
  fix F :: bytes
  let ?mask = "if v1 then 2 else 1 :: u32"
  have "(?mask AND EC_VER_MASK 1 \<noteq> 0) = v1" "unat ?mask = (if v1 then 2 else 1)" by (simp_all add: EC_VER_MASK_def)
  then show "\<exists>mask. (mask AND EC_VER_MASK 1 \<noteq> 0 \<longleftrightarrow> v1) \<and> flash_ec v1 wbs rw sz 0x08 0 [0x12] F = (0, le_bytes 4 (unat mask), F)"
    by (intro exI [of _ ?mask]) (simp add: flash_ec_def)
  show "\<exists>info. length info = 16 \<and> slice info 4 4 = Some (le_bytes 4 (unat wbs)) \<and> flash_ec v1 wbs rw sz 0x10 0 [] F = (0, info, F)"
    by (simp add: flash_ec_def slice_def)
  show "flash_ec v1 wbs rw sz 0x16 1 (le_bytes 4 1) F = (0, two_u32 rw sz, F)"
    by (simp add: flash_ec_def)
next
  fix F :: bytes and off n :: u32
  assume "unat off + unat n \<le> length (id F)"
  then show "\<exists>w'. flash_ec v1 wbs rw sz 0x13 0 (two_u32 off n) F = (0, [], w') \<and>
      put (id F) (unat off) (replicate (unat n) 0xff) = Some (id w')"
    by (simp add: flash_ec_def two_u32_def le32_word_bytes put_def)
next
  fix F d :: bytes and off n :: u32
  assume "length d = unat n" "64 < unat n"
  then show "\<exists>result w'. flash_ec v1 wbs rw sz 0x12 0 (two_u32 off n @ d) F = (result, [], w') \<and> result \<noteq> 0 \<and> result \<noteq> 8 \<and> id w' = id F"
    by (simp add: flash_ec_def)
next
  fix F d :: bytes and off n :: u32
  assume "length d = unat n" "unat n \<le> 64" "unat off + unat n \<le> length (id F)"
  then show "\<exists>w'. flash_ec v1 wbs rw sz 0x12 0 (two_u32 off n @ d) F = (0, [], w') \<and> put (id F) (unat off) d = Some (id w')"
    by (simp add: flash_ec_def two_u32_def le32_word_bytes put_def)
qed

text \<open>An EC with bursts of 4 bytes, and one with bursts of 100 bytes.\<close>

lemma cros_ec_flash_update_rw_programs_witness:
  "(\<exists>env s s'. ec_world s = [1, 2, 3, 4, 5, 6, 7, 8] \<and> ec_bus_ops s = Some (packet_bus (flash_ec True 2 2 4)) \<and>
     cros_ec_flash_update_rw env 0 [10, 11, 12] 3 s = (Ok 0, s') \<and> ec_world s' = [1, 2, 10, 11, 12, 0xff, 7, 8]) \<and>
   (\<exists>env s s'. ec_world s = replicate 100 1 @ [2] \<and> ec_bus_ops s = Some (packet_bus (flash_ec True 2 0 100)) \<and>
     cros_ec_flash_update_rw env 0 [10, 11, 12] 3 s = (Ok (- 1), s') \<and> ec_world s' = replicate 100 0xff @ [2])"
proof (rule conjI)
  let ?F = "[1, 2, 3, 4, 5, 6, 7, 8] :: bytes"
  define env :: "bytes machine" where
    "env = \<lparr>me_time = \<lambda>w. (0, w), me_delay = \<lambda>_ w. w, me_uninit = \<lambda>n. replicate n 0, me_fuel = 5, me_passthru = True\<rparr>"
  have env: "machine_wf env" "me_fuel env = 5" by (simp_all add: env_def machine_wf_def)
  define s where "s = packet_driver (flash_ec True 2 2 4) 12 16 ?F"
  have s: "proto3_ready (flash_ec True 2 2 4) 12 16 s" "ec_world s = ?F" "ec_bus_ops s = Some (packet_bus (flash_ec True 2 2 4))"
    by (simp_all add: s_def packet_driver_ready) (simp add: packet_driver_def)
  have al: "align_up (length [10 :: u8, 11, 12]) 4 = 4" by (simp add: align_up_def)
  have "\<exists>s'. cros_ec_flash_update_rw env 0 [10, 11, 12] (int (length [10 :: u8, 11, 12])) s =
        (Ok (if 4 \<le> (64 :: nat) \<or> [10 :: u8, 11, 12] = [] then 0 else - 1), s') \<and>
      id (ec_world s') = take (unat (2 :: u32)) (id (ec_world s)) @
        (if 4 \<le> (64 :: nat) then [10, 11, 12] @ replicate (unat (4 :: u32) - length [10 :: u8, 11, 12]) 0xff
         else replicate (unat (4 :: u32)) 0xff) @ drop (unat (2 :: u32) + unat (4 :: u32)) (id (ec_world s))"
    by (rule cros_ec_flash_update_rw_programs [OF disjI1 [OF s(1)] flash_ec_serves [of _ _ _ _ 2] env(1)])
      (simp_all add: s(2) env(2) al [simplified])
  then obtain s' where "cros_ec_flash_update_rw env 0 [10, 11, 12] 3 s = (Ok 0, s')" "ec_world s' = [1, 2, 10, 11, 12, 0xff, 7, 8]"
    by (auto simp: s(2))
  with s(2,3) show "\<exists>env s s'. ec_world s = ?F \<and> ec_bus_ops s = Some (packet_bus (flash_ec True 2 2 4)) \<and>
     cros_ec_flash_update_rw env 0 [10, 11, 12] 3 s = (Ok 0, s') \<and> ec_world s' = [1, 2, 10, 11, 12, 0xff, 7, 8]" by blast
next
  let ?F = "replicate 100 1 @ [2] :: bytes"
  define env :: "bytes machine" where
    "env = \<lparr>me_time = \<lambda>w. (0, w), me_delay = \<lambda>_ w. w, me_uninit = \<lambda>n. replicate n 0, me_fuel = 5, me_passthru = True\<rparr>"
  have env: "machine_wf env" "me_fuel env = 5" by (simp_all add: env_def machine_wf_def)
  define s where "s = packet_driver (flash_ec True 2 0 100) 108 16 ?F"
  have s: "proto3_ready (flash_ec True 2 0 100) 108 16 s" "ec_world s = ?F" "ec_bus_ops s = Some (packet_bus (flash_ec True 2 0 100))"
    by (simp_all add: s_def packet_driver_ready) (simp add: packet_driver_def)
  have al: "align_up (length [10 :: u8, 11, 12]) 100 = 100" by (simp add: align_up_def)
  have "\<exists>s'. cros_ec_flash_update_rw env 0 [10, 11, 12] (int (length [10 :: u8, 11, 12])) s =
        (Ok (if 100 \<le> (64 :: nat) \<or> [10 :: u8, 11, 12] = [] then 0 else - 1), s') \<and>
      id (ec_world s') = take (unat (0 :: u32)) (id (ec_world s)) @
        (if 100 \<le> (64 :: nat) then [10, 11, 12] @ replicate (unat (100 :: u32) - length [10 :: u8, 11, 12]) 0xff
         else replicate (unat (100 :: u32)) 0xff) @ drop (unat (0 :: u32) + unat (100 :: u32)) (id (ec_world s))"
    by (rule cros_ec_flash_update_rw_programs [OF disjI1 [OF s(1)] flash_ec_serves [of _ _ _ _ 2] env(1)])
      (simp_all add: s(2) env(2) al [simplified])
  then obtain s' where "cros_ec_flash_update_rw env 0 [10, 11, 12] 3 s = (Ok (- 1), s')" "ec_world s' = replicate 100 0xff @ [2]"
    by (auto simp: s(2))
  with s(2,3) show "\<exists>env s s'. ec_world s = ?F \<and> ec_bus_ops s = Some (packet_bus (flash_ec True 2 0 100)) \<and>
     cros_ec_flash_update_rw env 0 [10, 11, 12] 3 s = (Ok (- 1), s') \<and> ec_world s' = replicate 100 0xff @ [2]" by blast
qed

end
