(* ===== verification/EcErrors.thy ===== *)
theory EcErrors
  imports EcFlash
begin

text \<open>
  Errors that the driver of the embedded controller loses: comparing a negative result with a
  \<open>size_t\<close>, and the test of the counter after waiting for a reboot.
\<close>

subsection \<open>Negative results are not less than a size\<close>

lemma negative_not_less_than_size:
  assumes "- (2 ^ 31) \<le> rv" "rv < 0" "n < 2 ^ 31"
  shows "\<not> less_than_size rv n"
proof -
  have "uint (word_of_int rv :: u64) = rv mod 2 ^ 64" by (simp add: uint_word_of_int)
  also have "\<dots> = rv + 2 ^ 64"
    using assms by (intro int_mod_pos_eq [of _ _ "- 1"]) auto
  finally have "uint (word_of_int rv :: u64) = rv + 2 ^ 64" .
  moreover have "uint (word_of_nat n :: u64) = int n" using assms(3) by (simp add: uint_nat unat_of_nat)
  ultimately show ?thesis using assms by (simp add: less_than_size_def word_less_def)
qed

text \<open>A bus that gives an error for every packet, other than that the command is in progress.\<close>

definition fails_packets :: "(bytes \<Rightarrow> bytes \<Rightarrow> 'w \<Rightarrow> int \<times> bytes \<times> 'w) \<Rightarrow> bool" where
  "fails_packets packet \<longleftrightarrow>
     (\<forall>rq rs w. \<exists>rv rs' w'. packet rq rs w = (rv, rs', w') \<and> - (2 ^ 31) \<le> rv \<and> rv < 0 \<and> rv \<noteq> - EC_RES_IN_PROGRESS \<and>
        length rs' = length rs)"

definition default_proto3 :: "(bytes \<Rightarrow> bytes \<Rightarrow> 'w \<Rightarrow> int \<times> bytes \<times> 'w) \<Rightarrow> 'w ec \<Rightarrow> bool" where
  "default_proto3 packet s \<longleftrightarrow>
     ec_send_func s = Some SendProto3 \<and>
     (\<exists>bus. ec_bus_ops s = Some bus \<and> bus_send_packet bus = Some packet) \<and>
     length (proto3_request s) = 256 \<and> proto3_request_size s = 256 \<and>
     length (proto3_response s) = 256 \<and> proto3_response_size s = 256"

lemma failed_packet:
  assumes s: "default_proto3 packet s" and bad: "fails_packets packet" and din: "length din = 12"
  shows "\<exists>rv s'. send_command_proto3_work cmd ver [] din s = (Ok (rv, din), s') \<and> default_proto3 packet s' \<and>
     - (2 ^ 31) \<le> rv \<and> rv < 0 \<and> rv \<noteq> - EC_RES_IN_PROGRESS"
proof -
  obtain bus where bus: "ec_bus_ops s = Some bus" "bus_send_packet bus = Some packet" using s by (auto simp: default_proto3_def)
  have sizes: "length (proto3_request s) = 248 + 8" "proto3_request_size s = int (248 + 8)"
      "length (proto3_response s) = 256" "proto3_response_size s = 256"
    using s by (auto simp: default_proto3_def)
  let ?pkt = "request_packet (word_of_int cmd) (word_of_int ver) []"
  let ?rq = "?pkt @ drop (8 + length ([] :: bytes)) (proto3_request s)"
  have rq: "create_proto3_request (proto3_request s) (proto3_request_size s) cmd ver [] = Ok (8, ?rq)"
    using create_proto3_request_eq [OF sizes(1), of "[]" cmd ver] unfolding sizes(2) by simp
  have in_bytes: "prepare_proto3_response_buffer (proto3_response_size s) (int (length din)) = 20"
    by (simp add: prepare_proto3_response_buffer_def sizeof_host_header_def sizes(4) din c_int_small)
  obtain rv rs w where sent: "packet ?pkt (take 20 (proto3_response s)) (ec_world s) = (rv, rs, w)" "- (2 ^ 31) \<le> rv" "rv < 0"
      "rv \<noteq> - EC_RES_IN_PROGRESS" "length rs = 20"
  proof -
    have "length (take 20 (proto3_response s)) = 20" using sizes(3) by simp
    with bad show thesis unfolding fails_packets_def using that by metis
  qed
  have sl: "slice (?pkt @ drop 8 (proto3_request s)) 0 8 = Some ?pkt" "slice (proto3_response s) 0 20 = Some (take 20 (proto3_response s))"
    by (simp_all add: slice_def sizes(3))
  obtain buf where buf: "put (proto3_response s) 0 rs = Some buf" using sent(5) sizes(3) by (simp add: put_def)
  let ?s = "s\<lparr>proto3_request := ?rq, ec_world := w, proto3_response := buf\<rparr>"
  have "send_command_proto3_work cmd ver [] din s = (Ok (rv, din), ?s)"
    using sent(3) by (simp add: send_command_proto3_work_def act_bind_def act_lift_def rq in_bytes bus sl sent(1) buf Let_def
      del: append.simps append_assoc drop_append)
  moreover have "default_proto3 packet ?s" using s put_length [OF buf] by (auto simp: default_proto3_def)
  ultimately show ?thesis using sent by blast
qed

lemma failed_protocol_info:
  assumes s: "default_proto3 packet s" and bad: "fails_packets packet" and info: "length info = 12"
  shows "\<exists>s'. get_protocol_info (ec_command_ready env) devidx info s = (Ok (0, info), s') \<and> default_proto3 packet s'"
proof -
  let ?cmd = "EC_CMD_PASSTHRU_OFFSET devidx + EC_CMD_GET_PROTOCOL_INFO"
  obtain rv s' where s': "send_command_proto3_work ?cmd 0 [] info s = (Ok (rv, info), s')" "default_proto3 packet s'"
      "- (2 ^ 31) \<le> rv" "rv < 0" "rv \<noteq> - EC_RES_IN_PROGRESS"
    using failed_packet [OF s bad info] by blast
  have func: "ec_send_func s = Some SendProto3" using s by (simp add: default_proto3_def)
  have "ec_command_ready env ?cmd 0 [] info s = (Ok (rv, info), s')"
    using send_and_wait_no_wait [of send_command_proto3_work, OF s'(1,5), of env]
    by (simp add: ec_command_ready_def func send_command_proto3_def)
  then show ?thesis using s'(2) negative_not_less_than_size [OF s'(3,4), of 12]
    by (simp add: get_protocol_info_def act_bind_def act_lift_def)
qed

lemma failed_probe:
  assumes "default_proto3 packet s" "fails_packets packet" "machine_wf env"
  shows "\<exists>n s'. cros_ec_probe_passthru env s = (Ok n, s') \<and> default_proto3 packet s'"
proof (cases "me_passthru env")
  case True
  have len: "length (me_uninit env 12) = 12" using assms(3) by (simp add: machine_wf_def)
  then have "\<exists>v. le16_at (me_uninit env 12) 4 = Ok v" by (simp add: le16_at_def slice_def)
  with failed_protocol_info [OF assms(1,2) len, of env 1] show ?thesis
    by (auto simp: cros_ec_probe_passthru_def True act_bind_def act_lift_def)
next
  case False
  then show ?thesis using assms(1) by (simp add: cros_ec_probe_passthru_def act_lift_def)
qed

text \<open>
  The fall-back to protocol version 2 is lost when the bus reports errors: with every packet
  failing, \<open>cros_ec_get_protocol_info\<close> takes the negative result for a long enough answer, so the choice
  of the protocol stays with version 3 and takes the size of the packets from uninitialized memory.
\<close>

theorem choose_protocol_ignores_errors:
  assumes "ec_bus_ops s = Some bus" "bus_send_packet bus = Some packet" "fails_packets packet" "machine_wf env"
  shows "\<exists>v s'. choose_protocol env s = (Ok (), s') \<and> ec_send_func s' = Some SendProto3 \<and>
     le16_at (me_uninit env 12) 4 = Ok v \<and> proto3_request_size s' = uint v"
proof -
  have set_max: "\<exists>t'. set_max_proto3_sizes env x y z t = (Ok 0, t')" for x y z t
    by (simp add: set_max_proto3_sizes_def Let_def)
  obtain s0 where set0: "set_max_proto3_sizes env DEFAULT_BUF_SIZE DEFAULT_BUF_SIZE DEFAULT_BUF_SIZE
      (s\<lparr>ec_send_func := Some SendProto3\<rparr>) = (Ok 0, s0)"
    using set_max by blast
  then have s0: "default_proto3 packet s0" using assms
    by (auto simp: default_proto3_def set_max_proto3_sizes_def DEFAULT_BUF_SIZE_def machine_wf_def Let_def)
  have len: "length (me_uninit env 12) = 12" using assms(4) by (simp add: machine_wf_def)
  obtain s1 where s1: "get_protocol_info (ec_command_ready env) 0 (me_uninit env 12) s0 = (Ok (0, me_uninit env 12), s1)"
      "default_proto3 packet s1"
    using failed_protocol_info [OF s0 assms(3) len] by blast
  obtain n s2 where s2: "cros_ec_probe_passthru env s1 = (Ok n, s2)" "default_proto3 packet s2"
    using failed_probe [OF s1(2) assms(3,4)] by blast
  obtain a b where ab: "le16_at (me_uninit env 12) 4 = Ok a" "le16_at (me_uninit env 12) 6 = Ok b"
    using len by (auto simp: le16_at_def slice_def)
  obtain s3 where s3: "set_max_proto3_sizes env (uint a) (uint b) n s2 = (Ok 0, s3)"
    using set_max by blast
  have "choose_protocol env s = (Ok (), s3)"
    by (simp add: choose_protocol_def act_bind_def act_lift_def set0 s1(1) s2(1) ab s3)
  moreover have "ec_send_func s2 = Some SendProto3" using s2(2) by (simp add: default_proto3_def)
  ultimately show ?thesis using ab(1) s3 by (auto simp: set_max_proto3_sizes_def Let_def)
qed

lemma choose_protocol_ignores_errors_witness:
  "\<exists>bus packet env s'. bus_send_packet bus = Some packet \<and> packet [] [] () = (- 1, [], ()) \<and>
     choose_protocol env ((ec_static ())\<lparr>ec_bus_ops := Some bus\<rparr>) = (Ok (), s') \<and> ec_send_func s' = Some SendProto3 \<and>
     proto3_request_size s' = 0x0605"
proof -
  define packet where "packet = (\<lambda>(rq :: bytes) rs w. (- 1, rs, w) :: int \<times> bytes \<times> unit)"
  define bus :: "unit ec_bus" where "bus = \<lparr>bus_init = None, bus_send_command = \<lambda>_ _ _ din w. (0, din, w), bus_send_packet = Some packet\<rparr>"
  define env :: "unit machine" where "env = \<lparr>me_time = \<lambda>w. (0, w), me_delay = \<lambda>_ w. w,
    me_uninit = \<lambda>n. take n ([1, 2, 3, 4, 5, 6] @ replicate n 0), me_fuel = 5, me_passthru = True\<rparr>"
  have bad: "fails_packets packet" by (simp add: fails_packets_def packet_def EC_RES_IN_PROGRESS_def)
  have env: "machine_wf env" by (simp add: env_def machine_wf_def)
  have v: "le16_at (me_uninit env 12) 4 = Ok 0x0605" by (simp add: env_def le16_at_def slice_def le16_def)
  have "\<exists>v s'. choose_protocol env ((ec_static ())\<lparr>ec_bus_ops := Some bus\<rparr>) = (Ok (), s') \<and> ec_send_func s' = Some SendProto3 \<and>
     le16_at (me_uninit env 12) 4 = Ok v \<and> proto3_request_size s' = uint v"
    by (rule choose_protocol_ignores_errors [OF _ _ bad env, of _ bus]) (simp_all add: bus_def)
  moreover have "bus_send_packet bus = Some packet" "packet [] [] () = (- 1, [], ())" by (simp_all add: bus_def packet_def)
  ultimately show ?thesis using v by fastforce
qed

subsection \<open>Waiting for a reboot\<close>

text \<open>
  The state after \<open>n\<close> rounds of waiting and testing, and the result of the test in the next round.
\<close>

fun wait_rounds :: "nat \<Rightarrow> 'w machine \<Rightarrow> 'w ec \<Rightarrow> 'w ec" where
  "wait_rounds 0 env s = s"
| "wait_rounds (Suc n) env s = wait_rounds n env (snd (cros_ec_test env (snd (mdelay env 50 s))))"

definition round_test :: "'w machine \<Rightarrow> 'w ec \<Rightarrow> int res" where
  "round_test env s = fst (cros_ec_test env (snd (mdelay env 50 s)))"

lemma reboot_wait_rounds:
  assumes "k \<le> t" "\<forall>i<k. round_test env (wait_rounds i env s) = Ok (- 1)"
    and "k < t \<longrightarrow> round_test env (wait_rounds k env s) = Ok 0"
  shows "fst (reboot_wait t env s) = Ok (int t - 1 - int k)"
  using assms
proof (induction t arbitrary: k s)
  case 0
  then show ?case by (simp add: act_bind_def act_lift_def mdelay_def)
next
  case (Suc t)
  obtain rv s1 where test: "cros_ec_test env (snd (mdelay env 50 s)) = (rv, s1)" by fastforce
  have step: "reboot_wait (Suc t) env s = (case rv of Ok v \<Rightarrow> (if v \<noteq> 0 then reboot_wait t env s1 else (Ok (int t), s1))
      | Err \<Rightarrow> (Err, s1) | Fault e \<Rightarrow> (Fault e, s1))"
    using test by (auto simp: act_bind_def act_lift_def mdelay_def split: res.split)
  show ?case
  proof (cases k)
    case 0
    then have "rv = Ok 0" using Suc.prems(3) test by (simp add: round_test_def)
    then show ?thesis by (simp add: step 0 del: reboot_wait.simps)
  next
    case (Suc j)
    then have rv: "rv = Ok (- 1)" using Suc.prems(2) test by (auto simp: round_test_def)
    have shift: "wait_rounds (Suc i) env s = wait_rounds i env s1" for i using test by simp
    have "fst (reboot_wait t env s1) = Ok (int t - 1 - int j)"
    proof (rule Suc.IH)
      show "\<forall>i<j. round_test env (wait_rounds i env s1) = Ok (- 1)"
        using Suc.prems(2) Suc by (metis shift Suc_less_eq)
      show "j < t \<longrightarrow> round_test env (wait_rounds j env s1) = Ok 0"
        using Suc.prems(3) Suc shift by simp
    qed (use Suc.prems(1) Suc in simp)
    then show ?thesis using Suc by (simp add: step rv del: reboot_wait.simps)
  qed
qed

text \<open>
  C39.  \<open>cros_ec_reboot\<close> gets the counter wrong: when the EC comes back for the test number \<open>k\<close>, counted
  from 0, or for none of the 20, the result is an error exactly when it came back in time for the last
  test.  An EC that never comes back is success.
\<close>

theorem cros_ec_reboot_result:
  assumes "ec_command env (EC_CMD_PASSTHRU_OFFSET devidx + 0xd2) 0 [cmd, flags] [] s = (Ok (rv, d), s0)" "0 \<le> rv"
    and "flags AND EC_REBOOT_FLAG_ON_AP_SHUTDOWN = 0" "k \<le> 20"
    and "\<forall>i<k. round_test env (wait_rounds i env s0) = Ok (- 1)"
    and "k < 20 \<longrightarrow> round_test env (wait_rounds k env s0) = Ok 0"
  shows "fst (cros_ec_reboot env devidx cmd flags s) = Ok (if k = 19 then - 1 else 0)"
proof -
  have "fst (reboot_wait 20 env s0) = Ok (19 - int k)" using reboot_wait_rounds [OF assms(4-6)] by simp
  then obtain s1 where w: "reboot_wait 20 env s0 = (Ok (19 - int k), s1)" by (metis prod.collapse)
  show ?thesis using assms(2,3) by (simp add: cros_ec_reboot_def act_bind_def assms(1) w act_lift_def del: reboot_wait.simps)
qed

lemma cros_ec_reboot_result_witness:
  "\<exists>bus env (s :: nat ec). ec_bus_ops s = Some bus \<and> fst (cros_ec_reboot env 0 0 0 s) = Ok (- 1)"
proof -
  define bus :: "nat ec_bus" where "bus = \<lparr>bus_init = None,
    bus_send_command = \<lambda>cmd ver dout din w. (if cmd \<noteq> 1 then (0, din, w)
      else if w = 0 then (4, le_bytes 4 0x1336597c, 0) else (- 1, din, w - 1)), bus_send_packet = None\<rparr>"
  define env :: "nat machine" where
    "env = \<lparr>me_time = \<lambda>w. (0, w), me_delay = \<lambda>_ w. w, me_uninit = \<lambda>_. [0, 0, 0, 0], me_fuel = 5, me_passthru = True\<rparr>"
  define s where "s n = (ec_static n)\<lparr>ec_bus_ops := Some bus, ec_send_func := Some SendProto2, ec_initialized := True\<rparr>" for n
  have reboot: "ec_command env (EC_CMD_PASSTHRU_OFFSET 0 + 0xd2) 0 [0, 0] [] (s n) = (Ok (0, []), s n)" for n
    by (simp add: ec_command_def ec_command_ready_def send_command_proto2_def send_and_wait_def bus_command_def
      act_bind_def act_lift_def s_def ec_static_def bus_def put_def EC_RES_IN_PROGRESS_def EC_CMD_PASSTHRU_OFFSET_def)
  have say: "ec_command env 1 0 dout [0, 0, 0, 0] (s n) =
      (if n = 0 then (Ok (4, le_bytes 4 0x1336597c), s 0) else (Ok (- 1, [0, 0, 0, 0]), s (n - 1)))" for dout n
    by (simp add: ec_command_def ec_command_ready_def send_command_proto2_def send_and_wait_def bus_command_def
      act_bind_def act_lift_def s_def ec_static_def bus_def put_def EC_RES_IN_PROGRESS_def)
  have sizes: "\<not> less_than_size (- 1) 4" "\<not> less_than_size 4 4"
    by (rule negative_not_less_than_size, simp_all add: less_than_size_def)
  have words: "le32_at (le_bytes 4 0x1336597c) 0 = Ok 0x1336597c" "le32_at [0, 0, 0, 0] 0 = Ok 0"
    by (simp_all add: le32_at_def slice_def le32_def le_val_le_bytes)
  have uninit: "me_uninit env 4 = [0, 0, 0, 0]" by (simp add: env_def)
  have hello: "cros_ec_test env (s n) = (Ok (if n = 0 then 0 else - 1), s (n - 1))" for n
    by (cases "n = 0") (simp_all add: cros_ec_test_def uninit act_bind_def act_lift_def say sizes words)
  have idle: "mdelay env ms t = (Ok (), t)" for ms t by (simp add: mdelay_def env_def)
  have round: "wait_rounds i env (s n) = s (n - i)" for i n
    by (induction i arbitrary: n) (simp_all add: idle hello)
  have "fst (cros_ec_reboot env 0 0 0 (s 19)) = Ok (if (19 :: nat) = 19 then - 1 else 0)"
    by (rule cros_ec_reboot_result [OF reboot, where k = 19])
      (simp_all add: round_test_def round idle hello EC_REBOOT_FLAG_ON_AP_SHUTDOWN_def)
  moreover have "ec_bus_ops (s 19) = Some bus" by (simp add: s_def)
  ultimately show ?thesis by auto
qed

end
