(* ===== verification/Checksum.thy ===== *)
theory Checksum
  imports Prelude
begin

text \<open>
  \<^verbatim>\<open>src/src/base/ipchecksum.c\<close>: the one's complement checksum of RFC 1071 over a buffer of
  16-bit words in the byte order of the machine (little endian on every target).  The
  running sum is a C \<open>int\<close>; going past its maximum is the outcome \<open>Fault Overflow\<close>.
\<close>

definition add_int :: "nat \<Rightarrow> nat \<Rightarrow> nat res" where
  "add_int s v = (if s + v < 2147483648 then Ok (s + v) else Fault Overflow)"

fun ip_sum :: "bytes \<Rightarrow> nat \<Rightarrow> nat \<Rightarrow> nat res" where
  "ip_sum bs 0 s = Ok s"
| "ip_sum bs (Suc 0) s =
     (case bs of [] \<Rightarrow> Fault OutOfBounds | a # _ \<Rightarrow> add_int s (unat a))"
| "ip_sum bs (Suc (Suc n)) s =
     (case bs of a # b # rest \<Rightarrow> andthen (add_int s (unat a + 256 * unat b)) (ip_sum rest n)
      | _ \<Rightarrow> Fault OutOfBounds)"

definition ip_fold :: "nat \<Rightarrow> nat" where
  "ip_fold s = (let s1 = s div 65536 + s mod 65536 in s1 + s1 div 65536)"

definition ipchecksum :: "bytes \<Rightarrow> nat \<Rightarrow> u16 res" where
  "ipchecksum bs nbytes = map_res (\<lambda>s. NOT (word_of_nat (ip_fold s))) (ip_sum bs nbytes 0)"

subsection \<open>One's complement arithmetic\<close>

fun words_total :: "bytes \<Rightarrow> nat" where
  "words_total [] = 0"
| "words_total [a] = unat a"
| "words_total (a # b # rest) = unat a + 256 * unat b + words_total rest"

lemma words_total_bound: "words_total bs \<le> 65535 * ((length bs + 1) div 2)"
proof (induction bs rule: words_total.induct)
  case (2 a)
  then show ?case using unat_u8_less [of a] by simp
next
  case (3 a b rest)
  then show ?case using unat_u8_less [of a] unat_u8_less [of b] by simp
qed simp

lemma words_total_append:
  "even (length bs) \<Longrightarrow> words_total (bs @ cs) = words_total bs + words_total cs"
  by (induction bs rule: words_total.induct) auto

lemma ip_sum_total:
  "s + words_total bs < 2147483648 \<Longrightarrow> ip_sum (bs @ rest) (length bs) s = Ok (s + words_total bs)"
  by (induction bs arbitrary: s rule: words_total.induct) (simp_all add: add_int_def add.assoc)

lemma sub_shift: "s = a + 65535 * q \<Longrightarrow> \<not> a < 65536 \<Longrightarrow> s = (a - 65535) + 65535 * (q + 1)"
  for s a q :: nat
  by simp

lemma ip_fold_cases:
  assumes "s < 2147483648"
  shows "\<exists>k. s = ip_fold s mod 65536 + 65535 * k" "ip_fold s mod 65536 = 0 \<longleftrightarrow> s = 0"
proof -
  let ?s1 = "s div 65536 + s mod 65536"
  have s: "s = ?s1 + 65535 * (s div 65536)"
    using div_mult_mod_eq [of s 65536] by linarith
  have f: "ip_fold s mod 65536 = (if ?s1 < 65536 then ?s1 else ?s1 - 65535)"
    and le: "?s1 < 131071"
  proof -
    have "s div 65536 < 32768" "s mod 65536 < 65536" using assms by (simp_all add: less_mult_imp_div_less)
    then show le: "?s1 < 131071" by linarith
    show "ip_fold s mod 65536 = (if ?s1 < 65536 then ?s1 else ?s1 - 65535)"
    proof (cases "?s1 < 65536")
      case False
      with le have "?s1 div 65536 = 1" by (simp add: div_nat_eqI)
      then have "ip_fold s = 65536 + (?s1 - 65535)" using False by (simp add: ip_fold_def Let_def)
      moreover have "?s1 - 65535 < 65536" using le by linarith
      ultimately have "ip_fold s mod 65536 = ?s1 - 65535" by (simp only: mod_add_self1 mod_less)
      with False show ?thesis by simp
    qed (simp add: ip_fold_def Let_def)
  qed
  show "\<exists>k. s = ip_fold s mod 65536 + 65535 * k"
  proof (cases "?s1 < 65536")
    case True
    with f s show ?thesis by metis
  next
    case False
    have "s = (?s1 - 65535) + 65535 * (s div 65536 + 1)" by (rule sub_shift [OF s False])
    with f False show ?thesis by metis
  qed
  show "ip_fold s mod 65536 = 0 \<longleftrightarrow> s = 0" using f s by (auto split: if_splits)
qed

lemma add_complement: "s = f + 65535 * k \<Longrightarrow> f \<le> 65535 \<Longrightarrow> s + (65535 - f) = 65535 * (k + 1)"
  for s f k :: nat
  by simp

lemma ip_fold_complement:
  assumes "s + 65535 < 2147483648"
  shows "ip_fold (s + (65535 - ip_fold s mod 65536)) mod 65536 = 65535"
proof -
  let ?f = "ip_fold s mod 65536"
  let ?t = "s + (65535 - ?f)"
  obtain k where k: "s = ?f + 65535 * k" using ip_fold_cases(1) [of s] assms by auto
  have f: "?f \<le> 65535" by (simp add: less_Suc_eq_le [symmetric])
  have t: "?t = 65535 * (k + 1)" using add_complement [OF k f] .
  have lt: "?t < 2147483648" using assms by linarith
  obtain j where j: "?t = ip_fold ?t mod 65536 + 65535 * j" using ip_fold_cases(1) [OF lt] by auto
  have pos: "0 < ip_fold ?t mod 65536" using ip_fold_cases(2) [OF lt] t by auto
  have le: "ip_fold ?t mod 65536 \<le> 65535" by (simp add: less_Suc_eq_le [symmetric])
  have "65535 dvd ip_fold ?t mod 65536"
    using t j by (metis dvd_add_left_iff dvd_triv_left)
  with pos le show ?thesis by (metis dvd_imp_le le_antisym)
qed

text \<open>The result for a message no longer than the 64 KiB an IP datagram can have.\<close>

lemma ipchecksum_value:
  assumes "length bs \<le> 65536"
  shows "ipchecksum (bs @ rest) (length bs) = Ok (NOT (word_of_nat (ip_fold (words_total bs))))"
proof -
  have "(length bs + 1) div 2 \<le> 32768" using assms by linarith
  then have "words_total bs \<le> 65535 * 32768"
    using words_total_bound [of bs] by (meson mult_le_mono2 order.trans)
  then have "0 + words_total bs < 2147483648" by simp
  from ip_sum_total [OF this, of rest] show ?thesis by (simp add: ipchecksum_def)
qed

text \<open>The \<open>int\<close> of the sum overflows on 65538 bytes of ones.\<close>

lemma ip_sum_ones:
  "s + 65535 * k < 2147483648 \<Longrightarrow> ip_sum (replicate (2 * k) 0xff @ rest) (2 * k + n) s = ip_sum rest n (s + 65535 * k)"
proof (induction k arbitrary: s)
  case (Suc k)
  then have "ip_sum (replicate (2 * k) 0xff @ rest) (2 * k + n) (s + 65535) = ip_sum rest n (s + 65535 + 65535 * k)"
    by (intro Suc.IH) simp
  with Suc.prems show ?case by (simp add: add_int_def add.assoc)
qed simp

lemma ipchecksum_overflows:
  "ipchecksum (replicate (2 * 32768) 0xff @ [0xff, 0xff]) (2 * 32768 + 2) = Fault Overflow"
proof -
  have "ip_sum (replicate (2 * 32768) 0xff @ [0xff, 0xff]) (2 * 32768 + 2) 0 =
      ip_sum [0xff, 0xff] 2 (0 + 65535 * 32768)"
    by (rule ip_sum_ones) simp
  also have "\<dots> = Fault Overflow" by (subst numeral_2_eq_2) (simp add: add_int_def)
  finally show ?thesis unfolding ipchecksum_def by (simp only: map_res.simps)
qed

lemma unat_m1_u16: "unat (- 1 :: u16) = 65535"
  by (simp add: unsigned_minus_1_eq_mask mask_eq_exp_minus_1)

lemma unat_not_u16: "unat (NOT (w :: u16)) = 65535 - unat w"
proof -
  have "NOT w = - 1 - w" by (simp add: not_eq_complement)
  moreover have "w \<le> - 1" by simp
  ultimately show ?thesis using unat_sub [of w "- 1"] by (simp add: unat_m1_u16)
qed

lemma words_total_le_bytes: "words_total (le_bytes 2 v) = v mod 65536"
proof -
  have "v mod 65536 = 256 * (v div 256 mod 256) + v mod 256"
    using mod_mult2_eq [of v 256 256] by simp
  then show ?thesis by (simp add: numeral_2_eq_2 unat_byte_of_nat del: of_nat_mod of_nat_div)
qed

text \<open>
  C32. For a message of even length up to 65534 bytes, more than fits an IP datagram,
  the sum does not overflow and the checksum detects nothing wrong: over the message followed by
  its own checksum, the checksum is 0.  A longer message can overflow the \<open>int\<close> of the sum
  (\<open>ipchecksum_overflows\<close> above).
\<close>

theorem ipchecksum_verifies:
  assumes "even (length bs)" and "length bs \<le> 65534"
  shows "\<exists>c. ipchecksum bs (length bs) = Ok c \<and>
    ipchecksum (bs @ le_bytes 2 (unat c)) (length bs + 2) = Ok 0"
proof -
  define c :: u16 where "c = NOT (word_of_nat (ip_fold (words_total bs)))"
  let ?t = "words_total bs"
  have len: "length bs \<le> 65536" using assms(2) by simp
  have c: "ipchecksum bs (length bs) = Ok c"
    using ipchecksum_value [OF len, of "[]"] by (simp add: c_def)
  have uc: "unat c = 65535 - ip_fold ?t mod 65536"
    by (simp add: c_def unat_not_u16 unat_of_nat)
  have "words_total (le_bytes 2 (unat c)) = unat c"
    using uc by (simp add: words_total_le_bytes)
  then have tot: "words_total (bs @ le_bytes 2 (unat c)) = ?t + (65535 - ip_fold ?t mod 65536)"
    using words_total_append [OF assms(1)] uc by simp
  have "(length bs + 1) div 2 \<le> 32767" using assms(2) by linarith
  then have "?t \<le> 65535 * 32767"
    using words_total_bound [of bs] by (meson mult_le_mono2 order.trans)
  then have "ip_fold (words_total (bs @ le_bytes 2 (unat c))) mod 65536 = 65535"
    unfolding tot by (intro ip_fold_complement) simp
  then have "(word_of_nat (ip_fold (words_total (bs @ le_bytes 2 (unat c)))) :: u16) = - 1"
    by (intro word_unat_eq_iff [THEN iffD2]) (simp add: unat_of_nat unat_m1_u16)
  moreover have "length (bs @ le_bytes 2 (unat c)) \<le> 65536" using assms(2) by simp
  ultimately have "ipchecksum (bs @ le_bytes 2 (unat c)) (length bs + 2) = Ok 0"
    using ipchecksum_value [of "bs @ le_bytes 2 (unat c)" "[]"] by simp
  with c show ?thesis by blast
qed

theorem ipchecksum_verifies_witness:
  "let bs = [0x45, 0x00, 0x12, 0xff] in \<exists>c. ipchecksum bs (length bs) = Ok c \<and>
     ipchecksum (bs @ le_bytes 2 (unat c)) (length bs + 2) = Ok 0"
  unfolding Let_def by (rule ipchecksum_verifies) simp_all

end
