(* ===== verification/CommandLine.thy ===== *)
theory CommandLine
  imports Prelude
begin

text \<open>
  \<^verbatim>\<open>src/src/boot/commandline.c\<close>: the kernel command line is copied to a buffer with
  \<open>%D\<close>, \<open>%P\<close>, \<open>%U\<close> and \<open>%R\<close> replaced.  The destination is a buffer and a write position;
  a write past the end of the buffer is a fault, so the space checks are seen to be enough
  or not.
\<close>

record subst_env =
  devnum :: int
  partnum :: int
  guid :: bytes
  external_gpt :: bool

type_synonym out_buf = "bytes \<times> nat"

definition emit :: "bytes \<Rightarrow> out_buf \<Rightarrow> out_buf res" where
  "emit xs d = map_res (\<lambda>b. (b, snd d + length xs)) (of_opt (put (fst d) (snd d) xs))"

definition itoa :: "int \<Rightarrow> bytes" where
  "itoa v = (if v > 9 then [ch CHR ''0'' + of_int (v div 10)] else []) @ [ch CHR ''0'' + of_int (v mod 10)]"

definition hexdigits :: bytes where
  "hexdigits = str ''0123456789abcdef''"

definition one_byte :: "u8 \<Rightarrow> bytes" where
  "one_byte v = [hexdigits ! (unat v div 16), hexdigits ! (unat v mod 16)]"

definition guid_order :: "nat list list" where
  "guid_order = [[3, 2, 1, 0], [5, 4], [7, 6], [8, 9], [10, 11, 12, 13, 14, 15]]"

fun join_dash :: "bytes list \<Rightarrow> bytes" where
  "join_dash [] = []"
| "join_dash [x] = x"
| "join_dash (x # y # zs) = x @ ch CHR ''-'' # join_dash (y # zs)"

definition guid_text :: "bytes \<Rightarrow> bytes" where
  "guid_text g = join_dash (map (\<lambda>grp. concat (map (\<lambda>i. one_byte (g ! i)) grp)) guid_order)"

definition emit_guid :: "bytes \<Rightarrow> out_buf \<Rightarrow> out_buf res" where
  "emit_guid g d = (if length g < 16 then Fault OutOfBounds else emit (guid_text g) d)"

definition check_space :: "nat \<Rightarrow> nat \<Rightarrow> out_buf \<Rightarrow> out_buf res" where
  "check_space cap n d = (if snd d + n \<le> cap then Ok d else Err)"

definition cros_secure :: bytes where
  "cros_secure = str ''cros_secure ''"

text \<open>One \<open>%\<close> escape: \<open>c\<close> is the character after it, \<open>src\<close> the input after that.\<close>

definition subst_escape :: "subst_env \<Rightarrow> nat \<Rightarrow> u8 \<Rightarrow> bytes \<Rightarrow> out_buf \<Rightarrow> out_buf res" where
  "subst_escape e cap c src d =
     (if c = 0 then Err
      else if c = ch CHR ''D'' then
        (if devnum e < 0 \<or> devnum e > 25 then Err
         else case src of [] \<Rightarrow> Fault OutOfBounds
         | s # _ \<Rightarrow>
             if s = ch CHR ''p'' then andthen (check_space cap 3 d) (emit (itoa (devnum e)))
             else andthen (check_space cap 2 d) (emit [ch CHR ''a'' + of_int (devnum e)]))
      else if c = ch CHR ''P'' then
        (if partnum e < 1 \<or> partnum e > 99 then Err
         else andthen (check_space cap 3 d) (emit (itoa (partnum e))))
      else if c = ch CHR ''U'' then
        andthen (check_space cap (36 + 1) d) (emit_guid (guid e))
      else if c = ch CHR ''R'' then
        (if external_gpt e then
           (if partnum e < 1 \<or> partnum e > 99 then Err
            else andthen (check_space cap (13 + 3 + 2) d) (\<lambda>d.
              andthen (emit (str ''/dev/ubiblock'') d) (\<lambda>d.
              andthen (emit (itoa (partnum e)) d) (emit (str ''_0'')))))
         else andthen (check_space cap (9 + 36 + 1 + 12) d) (\<lambda>d.
              andthen (emit (str ''PARTUUID='') d) (\<lambda>d.
              andthen (emit_guid (guid e) d) (emit (str ''/PARTNROFF=1'')))))
      else andthen (check_space cap 3 d) (\<lambda>d.
             andthen (emit [ch CHR ''%''] d) (emit [c])))"

fun subst_loop :: "subst_env \<Rightarrow> nat \<Rightarrow> bytes \<Rightarrow> out_buf \<Rightarrow> out_buf res" where
  "subst_loop e cap [] d = Fault OutOfBounds"
| "subst_loop e cap [c] d =
     (if c = 0 then Ok d
      else if c \<noteq> ch CHR ''%'' then
        andthen (check_space cap 2 d) (\<lambda>d. andthen (emit [c] d) (\<lambda>d. Fault OutOfBounds))
      else Fault OutOfBounds)"
| "subst_loop e cap (c # c1 # src) d =
     (if c = 0 then Ok d
      else if c \<noteq> ch CHR ''%'' then
        andthen (check_space cap 2 d) (\<lambda>d. andthen (emit [c] d) (subst_loop e cap (c1 # src)))
      else andthen (subst_escape e cap c1 src d) (subst_loop e cap src))"

definition commandline_subst :: "bytes \<Rightarrow> bytes \<Rightarrow> nat \<Rightarrow> subst_env \<Rightarrow> bytes res" where
  "commandline_subst src dest dest_size e =
     (if dest_size > 10000 then Err
      else andthen (check_space dest_size 12 (dest, 0)) (\<lambda>d.
        andthen (emit cros_secure d) (\<lambda>d.
        andthen (subst_loop e dest_size src d) (\<lambda>d.
        map_res fst (emit [0] d)))))"

subsection \<open>Specification\<close>

text \<open>
  What one escape stands for, and the expansion of a whole command line, with no buffer
  and no bounds.  \<open>next_p\<close> says whether a \<open>p\<close> follows.
\<close>

definition escape_text :: "subst_env \<Rightarrow> u8 \<Rightarrow> bool \<Rightarrow> bytes option" where
  "escape_text e c next_p =
     (if c = 0 then None
      else if c = ch CHR ''D'' then
        (if devnum e \<in> {0..25}
         then Some (if next_p then itoa (devnum e) else [ch CHR ''a'' + of_int (devnum e)])
         else None)
      else if c = ch CHR ''P'' then
        (if partnum e \<in> {1..99} then Some (itoa (partnum e)) else None)
      else if c = ch CHR ''U'' then Some (guid_text (guid e))
      else if c = ch CHR ''R'' then
        (if external_gpt e
         then if partnum e \<in> {1..99}
              then Some (str ''/dev/ubiblock'' @ itoa (partnum e) @ str ''_0'') else None
         else Some (str ''PARTUUID='' @ guid_text (guid e) @ str ''/PARTNROFF=1''))
      else Some [ch CHR ''%'', c])"

fun expand :: "subst_env \<Rightarrow> bytes \<Rightarrow> bytes option" where
  "expand e [] = Some []"
| "expand e [c] = (if c = ch CHR ''%'' then None else Some [c])"
| "expand e (c # c1 # s) =
     (if c \<noteq> ch CHR ''%'' then map_option ((#) c) (expand e (c1 # s))
      else case escape_text e c1 (s \<noteq> [] \<and> hd s = ch CHR ''p'') of
             None \<Rightarrow> None | Some t \<Rightarrow> map_option ((@) t) (expand e s))"


subsection \<open>Correctness\<close>

text \<open>The buffer \<open>d0\<close> after \<open>w\<close> has been written to its front.\<close>

definition wrote :: "bytes \<Rightarrow> bytes \<Rightarrow> out_buf" where
  "wrote d0 w = (w @ drop (length w) d0, length w)"

lemma emit_wrote:
  "length w \<le> length d0 \<Longrightarrow> emit xs (wrote d0 w) =
     (if length w + length xs \<le> length d0 then Ok (wrote d0 (w @ xs)) else Fault OutOfBounds)"
  by (simp add: emit_def wrote_def put_def add.commute)

lemma check_space_wrote:
  "check_space cap n (wrote d0 w) = (if length w + n \<le> cap then Ok (wrote d0 w) else Err)"
  by (simp add: check_space_def wrote_def)

lemma length_itoa: "length (itoa v) \<le> 2"
  by (simp add: itoa_def)

lemma length_guid_text: "length (guid_text g) = 36"
  by (simp add: guid_text_def guid_order_def one_byte_def)

lemma subst_lengths:
  "length (str ''/dev/ubiblock'') = 13" "length (str ''_0'') = 2"
  "length (str ''PARTUUID='') = 9" "length (str ''/PARTNROFF=1'') = 12" "length cros_secure = 12"
  by (simp_all add: str_def cros_secure_def)

lemma subst_escape_wrote:
  assumes "length w \<le> cap" and "cap \<le> length d0" and "16 \<le> length (guid e)" and "src \<noteq> []"
  shows "subst_escape e cap c src (wrote d0 w) = Err \<or>
    (\<exists>t. escape_text e c (hd src = ch CHR ''p'') = Some t \<and>
      subst_escape e cap c src (wrote d0 w) = Ok (wrote d0 (w @ t)) \<and> length (w @ t) < cap)"
  using assms length_itoa [of "devnum e"] length_itoa [of "partnum e"]
  by (cases src) (auto simp: subst_escape_def escape_text_def emit_wrote check_space_wrote
      emit_guid_def subst_lengths length_guid_text)

lemma subst_loop_wrote:
  assumes "0 \<notin> set s" and "length w \<le> cap" and "cap \<le> length d0" and "16 \<le> length (guid e)"
  shows "subst_loop e cap (s @ 0 # rest) (wrote d0 w) = Err \<or>
    (\<exists>t. expand e s = Some t \<and> subst_loop e cap (s @ 0 # rest) (wrote d0 w) = Ok (wrote d0 (w @ t)) \<and>
      (length (w @ t) < cap \<or> s = [] \<and> t = []))"
  using assms(1,2,4)
proof (induction e s arbitrary: w rule: expand.induct)
  case (1 e)
  then show ?case by (cases rest) auto
next
  case (2 e c)
  then show ?case using assms(3)
    by (cases rest) (auto simp: check_space_wrote emit_wrote subst_escape_def)
next
  case (3 e c c1 s)
  let ?src = "s @ 0 # rest"
  show ?case
  proof (cases "c = ch CHR ''%''")
    case True
    have p: "hd ?src = ch CHR ''p'' \<longleftrightarrow> s \<noteq> [] \<and> hd s = ch CHR ''p''"
      by (cases s) (auto simp: ch_def)
    have c0: "c \<noteq> 0" using 3 by auto
    have unfold: "subst_loop e cap ((c # c1 # s) @ 0 # rest) d =
        andthen (subst_escape e cap c1 ?src d) (subst_loop e cap ?src)" for d
      using True c0 by (cases s) simp_all
    from subst_escape_wrote [OF 3(4) assms(3) 3(5), of ?src c1]
    consider "subst_escape e cap c1 ?src (wrote d0 w) = Err"
      | t where "escape_text e c1 (s \<noteq> [] \<and> hd s = ch CHR ''p'') = Some t"
        "subst_escape e cap c1 ?src (wrote d0 w) = Ok (wrote d0 (w @ t))" "length (w @ t) < cap"
      unfolding p by auto
    then show ?thesis
    proof cases
      case 1
      then show ?thesis by (simp only: unfold andthen.simps simp_thms)
    next
      case (2 t)
      have "0 \<notin> set s" "length (w @ t) \<le> cap" using 3(3) 2(3) by auto
      from 3(2) [OF _ 2(1) this 3(5)] True 2 c0 show ?thesis
        by (auto simp only: unfold andthen.simps expand.simps split: option.splits) auto
    qed
  next
    case False
    have c0: "c \<noteq> 0" and s0: "0 \<notin> set (c1 # s)" using 3(3) by auto
    have unfold: "subst_loop e cap ((c # c1 # s) @ 0 # rest) d =
        andthen (check_space cap 2 d) (\<lambda>d. andthen (emit [c] d) (subst_loop e cap ((c1 # s) @ 0 # rest)))" for d
      using False c0 by simp
    show ?thesis
    proof (cases "length w + 2 \<le> cap")
      case True
      then have "length (w @ [c]) \<le> cap" by simp
      from 3(1) [OF False s0 this 3(5)] show ?thesis
        using True False c0 assms(3) by (auto simp: unfold check_space_wrote emit_wrote)
    next
      case False
      then show ?thesis by (simp only: unfold check_space_wrote if_False andthen.simps simp_thms)
    qed
  qed
qed

lemma commandline_subst_cases:
  assumes "0 \<notin> set s" and "16 \<le> length (guid e)"
  shows "commandline_subst (s @ 0 # rest) dest (length dest) e = Err \<or>
    length dest = 12 \<and> s = [] \<and> commandline_subst (s @ 0 # rest) dest (length dest) e = Fault OutOfBounds \<or>
    (\<exists>t. expand e s = Some t \<and> commandline_subst (s @ 0 # rest) dest (length dest) e =
      Ok (fst (wrote dest (cros_secure @ t @ [0]))) \<and> 12 + length t < length dest)"
proof (cases "12 \<le> length dest \<and> length dest \<le> 10000")
  case True
  have start: "(dest, 0) = wrote dest []" by (simp add: wrote_def)
  have pre: "commandline_subst (s @ 0 # rest) dest (length dest) e =
      andthen (subst_loop e (length dest) (s @ 0 # rest) (wrote dest cros_secure)) (\<lambda>d. map_res fst (emit [0] d))"
    using True by (simp add: commandline_subst_def start check_space_wrote emit_wrote subst_lengths)
  have len: "length cros_secure \<le> length dest" using True by (simp add: subst_lengths)
  let ?l = "subst_loop e (length dest) (s @ 0 # rest) (wrote dest cros_secure)"
  from subst_loop_wrote [OF assms(1) len order.refl assms(2), of rest]
  consider "?l = Err" | t where "expand e s = Some t" "?l = Ok (wrote dest (cros_secure @ t))"
      "length (cros_secure @ t) < length dest"
    | "s = []" "?l = Ok (wrote dest cros_secure)" "length dest = 12" "expand e s = Some []"
    | "s = []" "?l = Ok (wrote dest cros_secure)" "12 < length dest" "expand e s = Some []"
    using len by (auto simp: subst_lengths le_less)
  then show ?thesis
  proof cases
    case 1
    then show ?thesis unfolding pre by simp
  next
    case (2 t)
    then have "length (cros_secure @ t) + 1 \<le> length dest" by simp
    with 2 show ?thesis unfolding pre by (simp add: emit_wrote subst_lengths)
  next
    case 3
    then show ?thesis unfolding pre by (simp add: emit_wrote subst_lengths)
  next
    case 4
    then show ?thesis unfolding pre by (simp add: emit_wrote subst_lengths)
  qed
next
  case False
  then show ?thesis by (auto simp: commandline_subst_def check_space_def)
qed


lemma itoa_no_NUL: "v \<in> {0..99} \<Longrightarrow> 0 \<notin> set (itoa v)"
proof -
  assume v: "v \<in> {0..99}"
  have digit: "ch CHR ''0'' + of_int d \<noteq> 0" if "d \<in> {0..9}" for d
  proof -
    from that have "d \<in> set [0..9]" by simp
    moreover have "\<forall>d \<in> set [0..9]. ch CHR ''0'' + of_int d \<noteq> 0" by (simp add: ch_def upto_rec1)
    ultimately show ?thesis by blast
  qed
  from v have "v div 10 \<in> {0..9}" "v mod 10 \<in> {0..9}" by auto
  with digit show ?thesis by (auto simp: itoa_def)
qed

lemma one_byte_no_NUL: "0 \<notin> set (one_byte v)"
proof -
  have all: "0 \<notin> set hexdigits" "length hexdigits = 16" by (simp_all add: hexdigits_def str_def)
  have "unat v div 16 < 16" using unat_u8_less [of v] by linarith
  with all show ?thesis unfolding one_byte_def by (auto simp: in_set_conv_nth)
qed

lemma guid_text_no_NUL: "0 \<notin> set (guid_text g)"
  using one_byte_no_NUL by (simp add: guid_text_def guid_order_def ch_def)

lemma letter_no_NUL: "v \<in> {0..25} \<Longrightarrow> ch CHR ''a'' + of_int v \<noteq> 0"
proof -
  assume "v \<in> {0..25}"
  then have "v \<in> set [0..25]" by simp
  moreover have "\<forall>v \<in> set [0..25]. ch CHR ''a'' + of_int v \<noteq> 0" by (simp add: ch_def upto_rec1)
  ultimately show ?thesis by blast
qed

lemma escape_text_no_NUL: "escape_text e c p = Some t \<Longrightarrow> 0 \<notin> set t"
  using itoa_no_NUL guid_text_no_NUL letter_no_NUL [of "devnum e"]
  by (auto simp: escape_text_def str_def ch_def split: if_splits)

lemma expand_no_NUL: "0 \<notin> set s \<Longrightarrow> expand e s = Some t \<Longrightarrow> 0 \<notin> set t"
proof (induction e s arbitrary: t rule: expand.induct)
  case (3 e c c1 s)
  then show ?case using escape_text_no_NUL by (auto split: if_splits option.splits)
qed (auto split: if_splits)

text \<open>
  C28. Where the substitution succeeds, the destination holds the string \<open>cros_secure\<close>
  followed by the expansion of the template, every escape replaced, and nothing is written
  outside the destination.
\<close>

theorem commandline_subst_expands:
  assumes "0 \<notin> set s" and "16 \<le> length (guid e)"
    and "commandline_subst (s @ 0 # rest) dest (length dest) e = Ok dest'"
  shows "\<exists>t. expand e s = Some t \<and> cstr dest' = Some (cros_secure @ t) \<and>
    length dest' = length dest \<and> drop (13 + length t) dest' = drop (13 + length t) dest"
proof -
  from commandline_subst_cases [OF assms(1,2), of rest dest] assms(3) obtain t
    where t: "expand e s = Some t" "dest' = fst (wrote dest (cros_secure @ t @ [0]))"
      "12 + length t < length dest" by auto
  have "0 \<notin> set (cros_secure @ t)"
    using expand_no_NUL [OF assms(1) t(1)] by (simp add: cros_secure_def str_def)
  from cstr_append_NUL [OF this] t show ?thesis
    by (simp add: wrote_def subst_lengths)
qed

text \<open>
  The space checks are enough, with one exception: on a NUL-terminated template the
  function goes out of bounds exactly when the destination has 12 bytes and the template is
  empty, where the final NUL is written one byte past the end.
\<close>

theorem commandline_subst_bounds:
  assumes "0 \<notin> set s" and "16 \<le> length (guid e)"
  shows "(\<exists>f. commandline_subst (s @ 0 # rest) dest (length dest) e = Fault f) \<longleftrightarrow>
    length dest = 12 \<and> s = []"
proof
  assume "\<exists>f. commandline_subst (s @ 0 # rest) dest (length dest) e = Fault f"
  with commandline_subst_cases [OF assms, of rest dest] show "length dest = 12 \<and> s = []" by auto
next
  assume r: "length dest = 12 \<and> s = []"
  have start: "(dest, 0) = wrote dest []" by (simp add: wrote_def)
  show "\<exists>f. commandline_subst (s @ 0 # rest) dest (length dest) e = Fault f"
    using r by (cases rest)
      (simp_all add: commandline_subst_def start check_space_wrote emit_wrote subst_lengths)
qed

definition sample_env :: subst_env where
  "sample_env = \<lparr>devnum = 1, partnum = 12, guid = replicate 16 0xab, external_gpt = False\<rparr>"

theorem commandline_subst_expands_witness:
  "\<exists>dest'. commandline_subst (str ''root=%D%P'' @ 0 # []) (replicate 40 0) (length (replicate 40 (0 :: u8)))
     sample_env = Ok dest' \<and> cstr dest' = Some (cros_secure @ str ''root=b12'')"
proof -
  let ?r = "commandline_subst (str ''root=%D%P'' @ 0 # []) (replicate 40 0)
    (length (replicate 40 (0 :: u8))) sample_env"
  have "case ?r of Ok d \<Rightarrow> True | _ \<Rightarrow> False" by code_simp
  then obtain dest' where d: "?r = Ok dest'" by (cases ?r) auto
  have h: "0 \<notin> set (str ''root=%D%P'')" "16 \<le> length (guid sample_env)"
    by (simp_all add: str_def sample_env_def)
  have "expand sample_env (str ''root=%D%P'') = Some (str ''root=b12'')" by code_simp
  with commandline_subst_expands [OF h d] d show ?thesis by auto
qed

theorem commandline_subst_bounds_witness:
  "(\<exists>f. commandline_subst ([] @ 0 # []) (replicate 12 0) (length (replicate 12 (0 :: u8))) sample_env
     = Fault f) \<longleftrightarrow> length (replicate 12 (0 :: u8)) = 12 \<and> ([] :: bytes) = []"
  by (rule commandline_subst_bounds) (simp_all add: sample_env_def)

end
