(* ===== verification/FmapStorage.thy ===== *)
theory FmapStorage
  imports Storage
begin

text \<open>
  \<^verbatim>\<open>src/src/image/fmap.c\<close> and \<^verbatim>\<open>src/src/drivers/storage/fmap.c\<close>: a named area of the flash map as
  a storage of its own.  An \<open>Fmap\<close> is the list of its bytes, the packed header of 56 bytes
  and the packed areas of 42; the area is looked up on first use and cached.
\<close>

record fmap_area =
  area_offset :: u32
  area_size :: u32
  area_name :: bytes
  area_flags :: u16

definition fmap_nareas :: "bytes \<Rightarrow> nat" where
  "fmap_nareas fmap = le_val (take 2 (drop 54 fmap))"

definition fmap_area_at :: "bytes \<Rightarrow> nat \<Rightarrow> fmap_area option" where
  "fmap_area_at fmap i = map_option (\<lambda>a.
     \<lparr>area_offset = le32 (take 4 a), area_size = le32 (take 4 (drop 4 a)),
      area_name = take 32 (drop 8 a), area_flags = le16 (drop 40 a)\<rparr>) (slice fmap (56 + 42 * i) 42)"

definition fmap_check_signature :: "bytes \<Rightarrow> int res" where
  "fmap_check_signature fmap = default_memcmp fmap (str ''__FMAP__'') 8"

fun find_area_loop :: "bool \<Rightarrow> bytes \<Rightarrow> bytes \<Rightarrow> nat \<Rightarrow> nat \<Rightarrow> fmap_area res" where
  "find_area_loop sg fmap name i 0 = Err"
| "find_area_loop sg fmap name i (Suc k) =
     andthen (strncmp sg name (drop (56 + 42 * i + 8) fmap) 32) (\<lambda>r.
       if r = 0 then of_opt (fmap_area_at fmap i) else find_area_loop sg fmap name (Suc i) k)"

definition fmap_find_area :: "bool \<Rightarrow> bytes \<Rightarrow> bytes \<Rightarrow> fmap_area res" where
  "fmap_find_area sg fmap name = find_area_loop sg fmap name 0 (fmap_nareas fmap)"

text \<open>The storage and its media; \<open>fs_base\<close> is the state of the underlying storage.\<close>

record 's fmap_storage =
  fs_base :: 's
  fs_offset :: u32
  fs_fmap :: "bytes option"
  fs_name :: bytes
  fs_area :: "fmap_area option"

definition on_base :: "('s, 'a) act \<Rightarrow> ('s fmap_storage, 'a) act" where
  "on_base m = focus fs_base (\<lambda>b st. st\<lparr>fs_base := b\<rparr>) m"

definition fmap_storage_find_fmap :: "'s storage_ops \<Rightarrow> ('s fmap_storage, unit) act" where
  "fmap_storage_find_fmap base st =
     act_bind (on_base (storage_read base (ucast (fs_offset st)) 56)) (\<lambda>hdr.
     act_bind (act_lift (fmap_check_signature hdr)) (\<lambda>r st.
       if r \<noteq> 0 then (Err, st)
       else act_bind (on_base (storage_read base (ucast (fs_offset st) + 56)
              (of_nat (fmap_nareas hdr * 42)))) (\<lambda>areas st.
              (Ok (), st\<lparr>fs_fmap := Some (hdr @ areas)\<rparr>)) st)) st"

definition fmap_storage_find_area :: "bool \<Rightarrow> 's storage_ops \<Rightarrow> ('s fmap_storage, unit) act" where
  "fmap_storage_find_area sg base =
     act_bind (\<lambda>st. if fs_fmap st = None then fmap_storage_find_fmap base st else (Ok (), st)) (\<lambda>_ st.
       act_bind (act_lift (fmap_find_area sg (the (fs_fmap st)) (fs_name st))) (\<lambda>a st.
         (Ok (), st\<lparr>fs_area := Some a\<rparr>)) st)"

text \<open>\<open>if (!storage->area && fmap_storage_find_area(storage)) return 1;\<close>\<close>

definition fmap_storage_ready :: "bool \<Rightarrow> 's storage_ops \<Rightarrow> ('s fmap_storage, fmap_area) act" where
  "fmap_storage_ready sg base =
     act_bind (\<lambda>st. if fs_area st = None then fmap_storage_find_area sg base st else (Ok (), st))
       (\<lambda>_ st. (Ok (the (fs_area st)), st))"

definition fmap_storage_read ::
  "bool \<Rightarrow> 's storage_ops \<Rightarrow> u64 \<Rightarrow> u64 \<Rightarrow> ('s fmap_storage, bytes) act" where
  "fmap_storage_read sg base offset n =
     act_bind (fmap_storage_ready sg base) (\<lambda>a.
       on_base (bounded_read base (ucast (area_size a)) (ucast (area_offset a)) offset n))"

definition fmap_storage_write ::
  "bool \<Rightarrow> 's storage_ops \<Rightarrow> bytes \<Rightarrow> u64 \<Rightarrow> u64 \<Rightarrow> ('s fmap_storage, unit) act" where
  "fmap_storage_write sg base buffer offset n =
     act_bind (fmap_storage_ready sg base) (\<lambda>a.
       on_base (bounded_write base (ucast (area_size a)) (ucast (area_offset a)) buffer offset n))"

text \<open>The failure of \<open>size\<close> is reported as the size 1.\<close>

definition fmap_storage_size :: "bool \<Rightarrow> 's storage_ops \<Rightarrow> ('s fmap_storage, int) act" where
  "fmap_storage_size sg base st =
     (case fmap_storage_ready sg base st of
        (Ok a, st') \<Rightarrow> (Ok (as_int (ucast (area_size a))), st')
      | (Err, st') \<Rightarrow> (Ok 1, st')
      | (Fault e, st') \<Rightarrow> (Fault e, st'))"

definition fmap_ops :: "bool \<Rightarrow> 's storage_ops \<Rightarrow> 's fmap_storage storage_ops" where
  "fmap_ops sg base = \<lparr>op_read = fmap_storage_read sg base, op_write = fmap_storage_write sg base,
     op_size = fmap_storage_size sg base\<rparr>"

definition new_fmap_storage ::
  "bool \<Rightarrow> 's storage_ops \<Rightarrow> 's \<Rightarrow> u32 \<Rightarrow> bytes \<Rightarrow> 's fmap_storage storage_ops \<times> 's fmap_storage" where
  "new_fmap_storage sg base b off name =
     (fmap_ops sg base,
      \<lparr>fs_base = b, fs_offset = off, fs_fmap = None, fs_name = name, fs_area = None\<rparr>)"

subsection \<open>The area a name stands for\<close>

definition fmap_lookup :: "bool \<Rightarrow> u32 \<Rightarrow> bytes \<Rightarrow> bytes \<Rightarrow> fmap_area option" where
  "fmap_lookup sg off name c =
     (case slice c (unat off) 56 of None \<Rightarrow> None | Some hdr \<Rightarrow>
        if fmap_check_signature hdr \<noteq> Ok 0 then None
        else case slice c (unat off + 56) (fmap_nareas hdr * 42) of None \<Rightarrow> None
        | Some areas \<Rightarrow> (case fmap_find_area sg (hdr @ areas) name of Ok a \<Rightarrow> Some a | _ \<Rightarrow> None))"

definition area_known :: "bool \<Rightarrow> bytes \<Rightarrow> 's fmap_storage \<Rightarrow> fmap_area option" where
  "area_known sg c st =
     (case fs_area st of Some a \<Rightarrow> Some a
      | None \<Rightarrow> (case fs_fmap st of None \<Rightarrow> fmap_lookup sg (fs_offset st) (fs_name st) c
          | Some f \<Rightarrow> (case fmap_find_area sg f (fs_name st) of Ok a \<Rightarrow> Some a | _ \<Rightarrow> None)))"

definition fmap_contents :: "bool \<Rightarrow> ('s \<Rightarrow> bytes) \<Rightarrow> 's fmap_storage \<Rightarrow> bytes" where
  "fmap_contents sg contents st =
     (case area_known sg (contents (fs_base st)) st of None \<Rightarrow> []
      | Some a \<Rightarrow> window (ucast (area_offset a)) (ucast (area_size a)) (contents (fs_base st)))"

definition fmap_ok :: "bool \<Rightarrow> ('s \<Rightarrow> bytes) \<Rightarrow> ('s \<Rightarrow> bool) \<Rightarrow> 's fmap_storage \<Rightarrow> bool" where
  "fmap_ok sg contents ok st \<longleftrightarrow> ok (fs_base st) \<and>
     (\<exists>a. area_known sg (contents (fs_base st)) st = Some a \<and>
       unat (area_offset a) + unat (area_size a) \<le> length (contents (fs_base st)))"

lemma no_wrap_u32 [simp]: "no_wrap (ucast (a :: u32)) (ucast (b :: u32))"
  using unat_u32_less [of a] unat_u32_less [of b] by (simp add: no_wrap_def)

lemma fmap_nareas_bound: "fmap_nareas f < 65536"
  using le_val_bound [of "take 2 (drop 54 f)"] power_increasing [of "length (take 2 (drop 54 f))" 2 "256 :: nat"]
  by (simp add: fmap_nareas_def)

context readable_storage
begin

lemma find_fmap_lookup:
  assumes ok: "ok (fs_base st)" and none: "fs_fmap st = None"
    and look: "fmap_lookup sg (fs_offset st) (fs_name st) (contents (fs_base st)) = Some a"
  shows "\<exists>b f. fmap_storage_find_fmap ops st = (Ok (), st\<lparr>fs_base := b, fs_fmap := Some f\<rparr>) \<and>
    ok b \<and> contents b = contents (fs_base st) \<and> fmap_find_area sg f (fs_name st) = Ok a"
proof -
  let ?c = "contents (fs_base st)" and ?off = "fs_offset st"
  obtain hdr areas where hdr: "slice ?c (unat ?off) 56 = Some hdr" "fmap_check_signature hdr = Ok 0"
    and areas: "slice ?c (unat ?off + 56) (fmap_nareas hdr * 42) = Some areas"
    and find: "fmap_find_area sg (hdr @ areas) (fs_name st) = Ok a"
    using look by (auto simp: fmap_lookup_def split: option.splits if_splits res.splits)
  have n1: "no_wrap (ucast ?off) 56" using unat_u32_less [of ?off] by (simp add: no_wrap_def)
  have o2: "unat (ucast ?off + 56 :: u64) = unat ?off + 56" using no_wrap_add [OF n1] by simp
  have n: "unat (of_nat (fmap_nareas hdr * 42) :: u64) = fmap_nareas hdr * 42"
    using fmap_nareas_bound [of hdr] by (intro unat_u64_of_nat) simp
  have n2: "no_wrap (ucast ?off + 56) (of_nat (fmap_nareas hdr * 42))"
    using unat_u32_less [of ?off] fmap_nareas_bound [of hdr] unfolding no_wrap_def o2 n by linarith
  obtain b1 where b1: "storage_read ops (ucast ?off) 56 (fs_base st) = (Ok hdr, b1)" "ok b1" "contents b1 = ?c"
    using read_cases [OF ok n1] hdr by auto
  obtain b2 where b2: "storage_read ops (ucast ?off + 56) (of_nat (fmap_nareas hdr * 42)) b1 = (Ok areas, b2)"
      "ok b2" "contents b2 = ?c"
    using read_cases [OF b1(2) n2] areas b1(3) unfolding o2 n by auto
  show ?thesis
    using b1 b2 hdr find
    by (auto simp: fmap_storage_find_fmap_def act_bind_def on_base_def focus_def act_lift_def)
qed

lemma fmap_ready:
  assumes "fmap_ok sg contents ok st"
  shows "\<exists>a st'. fmap_storage_ready sg ops st = (Ok a, st') \<and> fs_area st' = Some a \<and>
    area_known sg (contents (fs_base st)) st = Some a \<and> ok (fs_base st') \<and>
    contents (fs_base st') = contents (fs_base st) \<and>
    unat (area_offset a) + unat (area_size a) \<le> length (contents (fs_base st))"
proof -
  obtain a where ok: "ok (fs_base st)" and a: "area_known sg (contents (fs_base st)) st = Some a"
    "unat (area_offset a) + unat (area_size a) \<le> length (contents (fs_base st))"
    using assms by (auto simp: fmap_ok_def)
  show ?thesis
  proof (cases "fs_area st")
    case (Some a')
    with a ok show ?thesis
      by (auto simp: fmap_storage_ready_def act_bind_def area_known_def)
  next
    case area: None
    show ?thesis
    proof (cases "fs_fmap st")
      case (Some f)
      with a ok area show ?thesis
        by (auto simp: fmap_storage_ready_def fmap_storage_find_area_def act_bind_def act_lift_def
            area_known_def split: res.splits)
    next
      case None
      with area a(1) have "fmap_lookup sg (fs_offset st) (fs_name st) (contents (fs_base st)) = Some a"
        by (simp add: area_known_def)
      from find_fmap_lookup [OF ok None this] a ok area None show ?thesis
        by (auto simp: fmap_storage_ready_def fmap_storage_find_area_def act_bind_def act_lift_def)
    qed
  qed
qed

lemma fmap_read_law:
  assumes st: "fmap_ok sg contents ok st" and w: "no_wrap off n"
  shows "\<exists>st'. storage_read (fmap_ops sg ops) off n st =
      ((case slice (fmap_contents sg contents st) (unat off) (unat n) of None \<Rightarrow> Err | Some xs \<Rightarrow> Ok xs), st') \<and>
    fmap_ok sg contents ok st' \<and> fmap_contents sg contents st' = fmap_contents sg contents st"
proof -
  obtain a st1 where r: "fmap_storage_ready sg ops st = (Ok a, st1)" "fs_area st1 = Some a"
    "area_known sg (contents (fs_base st)) st = Some a" "ok (fs_base st1)"
    "contents (fs_base st1) = contents (fs_base st)"
    and le: "unat (area_offset a) + unat (area_size a) \<le> length (contents (fs_base st))"
    using fmap_ready [OF st] by auto
  from bounded_read_window [OF r(4) w, of "ucast (area_offset a)" "ucast (area_size a)"] le r(5)
  obtain b where "bounded_read ops (ucast (area_size a)) (ucast (area_offset a)) off n (fs_base st1) =
      (if unat off + unat n \<le> unat (area_size a)
       then Ok (take (unat n) (drop (unat off) (fmap_contents sg contents st))) else Err, b)"
    "ok b" "contents b = contents (fs_base st)"
    by (auto simp: fmap_contents_def r(3))
  moreover have "length (fmap_contents sg contents st) = unat (area_size a)"
    using le by (simp add: fmap_contents_def r(3) length_window)
  ultimately show ?thesis using r le
    by (auto simp: storage_read_def fmap_ops_def fmap_storage_read_def act_bind_def on_base_def
        focus_def slice_def fmap_ok_def fmap_contents_def area_known_def)
qed

lemma fmap_size_law:
  assumes st: "fmap_ok sg contents ok st" and small: "length (fmap_contents sg contents st) < 2147483648"
  shows "\<exists>st'. storage_size (fmap_ops sg ops) st = (Ok (int (length (fmap_contents sg contents st))), st') \<and>
    fmap_ok sg contents ok st' \<and> fmap_contents sg contents st' = fmap_contents sg contents st"
proof -
  obtain a st1 where r: "fmap_storage_ready sg ops st = (Ok a, st1)" "fs_area st1 = Some a"
    "area_known sg (contents (fs_base st)) st = Some a" "ok (fs_base st1)"
    "contents (fs_base st1) = contents (fs_base st)"
    and le: "unat (area_offset a) + unat (area_size a) \<le> length (contents (fs_base st))"
    using fmap_ready [OF st] by auto
  have "length (fmap_contents sg contents st) = unat (area_size a)"
    using le by (simp add: fmap_contents_def r(3) length_window)
  then show ?thesis using r le small
    by (auto simp: storage_size_def fmap_ops_def fmap_storage_size_def as_int_small
        fmap_ok_def fmap_contents_def area_known_def)
qed

end

context storage
begin

lemma fmap_write_strong:
  assumes st: "fmap_ok sg contents ok st" and w: "no_wrap off n"
    and fits: "unat off + unat n \<le> length (fmap_contents sg contents st)" and buf: "unat n \<le> length buf"
  shows "\<exists>st' a. storage_write (fmap_ops sg ops) buf off n st = (Ok (), st') \<and> fmap_ok sg contents ok st' \<and>
    put (fmap_contents sg contents st) (unat off) (take (unat n) buf) = Some (fmap_contents sg contents st') \<and>
    area_known sg (contents (fs_base st)) st = Some a \<and>
    put (contents (fs_base st)) (unat off + unat (area_offset a)) (take (unat n) buf) = Some (contents (fs_base st'))"
proof -
  obtain a st1 where r: "fmap_storage_ready sg ops st = (Ok a, st1)" "fs_area st1 = Some a"
    "area_known sg (contents (fs_base st)) st = Some a" "ok (fs_base st1)"
    "contents (fs_base st1) = contents (fs_base st)"
    and le: "unat (area_offset a) + unat (area_size a) \<le> length (contents (fs_base st))"
    using fmap_ready [OF st] by auto
  have len: "length (fmap_contents sg contents st) = unat (area_size a)"
    using le by (simp add: fmap_contents_def r(3) length_window)
  from bounded_write_window [OF r(4) w, of "ucast (area_offset a)" "ucast (area_size a)" buf] le r(5) fits buf len
  obtain b where b: "bounded_write ops (ucast (area_size a)) (ucast (area_offset a)) buf off n (fs_base st1) = (Ok (), b)"
    "ok b" "put (contents (fs_base st)) (unat off + unat (area_offset a)) (take (unat n) buf) = Some (contents b)"
    "put (window (ucast (area_offset a)) (ucast (area_size a)) (contents (fs_base st))) (unat off)
       (take (unat n) buf) = Some (window (ucast (area_offset a)) (ucast (area_size a)) (contents b))"
    by auto
  let ?st2 = "st1\<lparr>fs_base := b\<rparr>"
  have "storage_write (fmap_ops sg ops) buf off n st = (Ok (), ?st2)"
    using r(1) b(1) by (simp add: storage_write_def fmap_ops_def fmap_storage_write_def act_bind_def
        on_base_def focus_def)
  moreover have "area_known sg (contents (fs_base ?st2)) ?st2 = Some a" by (simp add: area_known_def r(2))
  ultimately show ?thesis using b r(3) le put_length [OF b(3)] by (auto simp: fmap_ok_def fmap_contents_def)
qed

lemma fmap_write_law:
  assumes "fmap_ok sg contents ok st" and "no_wrap off n"
    and "unat off + unat n \<le> length (fmap_contents sg contents st)" and "unat n \<le> length buf"
  shows "\<exists>st'. storage_write (fmap_ops sg ops) buf off n st = (Ok (), st') \<and> fmap_ok sg contents ok st' \<and>
    put (fmap_contents sg contents st) (unat off) (take (unat n) buf) = Some (fmap_contents sg contents st')"
  using fmap_write_strong [OF assms] by auto

lemma fmap_write_out_law:
  assumes st: "fmap_ok sg contents ok st" and w: "no_wrap off n"
    and out: "length (fmap_contents sg contents st) < unat off + unat n"
  shows "\<exists>st'. storage_write (fmap_ops sg ops) buf off n st = (Err, st') \<and> fmap_ok sg contents ok st' \<and>
    fmap_contents sg contents st' = fmap_contents sg contents st"
proof -
  obtain a st1 where r: "fmap_storage_ready sg ops st = (Ok a, st1)" "fs_area st1 = Some a"
    "area_known sg (contents (fs_base st)) st = Some a" "ok (fs_base st1)"
    "contents (fs_base st1) = contents (fs_base st)"
    and le: "unat (area_offset a) + unat (area_size a) \<le> length (contents (fs_base st))"
    using fmap_ready [OF st] by auto
  have "length (fmap_contents sg contents st) = unat (area_size a)"
    using le by (simp add: fmap_contents_def r(3) length_window)
  with out have "unat (ucast (area_size a) :: u64) < unat off + unat n" by simp
  from bounded_write_out [OF w this] r le show ?thesis
    by (auto simp: storage_write_def fmap_ops_def fmap_storage_write_def act_bind_def on_base_def
        focus_def fmap_ok_def fmap_contents_def area_known_def)
qed

end

interpretation fmap_mem: storage "fmap_ops sg memory_ops" "fmap_contents sg ms_data" "fmap_ok sg ms_data memory_ok"
  for sg :: bool
proof unfold_locales
  fix s off n
  assume ok: "fmap_ok sg ms_data memory_ok s" and w: "no_wrap off n"
  from mem.fmap_read_law [OF ok w]
  show "unat off + unat n \<le> length (fmap_contents sg ms_data s) \<Longrightarrow>
      \<exists>s'. storage_read (fmap_ops sg memory_ops) off n s =
        (Ok (take (unat n) (drop (unat off) (fmap_contents sg ms_data s))), s') \<and>
        fmap_ok sg ms_data memory_ok s' \<and> fmap_contents sg ms_data s' = fmap_contents sg ms_data s"
    and "length (fmap_contents sg ms_data s) < unat off + unat n \<Longrightarrow>
      \<exists>s'. storage_read (fmap_ops sg memory_ops) off n s = (Err, s') \<and>
        fmap_ok sg ms_data memory_ok s' \<and> fmap_contents sg ms_data s' = fmap_contents sg ms_data s"
    by (auto simp: slice_def)
qed (fact mem.fmap_size_law mem.fmap_write_law mem.fmap_write_out_law)+

lemma bounded_read_out:
  assumes "no_wrap off n" and "unat sz < unat off + unat n"
  shows "bounded_read b sz base off n st = (Err, st)"
  using assms no_wrap_add [OF assms(1)] by (simp add: bounded_read_def word_less_nat_alt)

subsection \<open>Properties\<close>

text \<open>
  C26. An FMAP area on a memory device, for requests whose end, offset plus size, fits the 64 bits of the
  code's sum: writing inside the area succeeds and changes exactly the bytes of the device at the
  area's offset plus the request's, and reading them back returns what was written; a read or a write
  that ends past the area is refused and changes nothing.  A request whose end wraps is not refused
  (\<open>fmap_area_escape\<close> below).
\<close>

theorem fmap_area_read_write:
  assumes "fmap_lookup sg foff name d = Some a" and "unat (area_offset a) + unat (area_size a) \<le> length d"
    and "unat m = length d" and "no_wrap off n" and "unat n \<le> length buf"
    and "new_fmap_storage sg memory_ops \<lparr>ms_data = d, ms_size = m\<rparr> foff name = (ops, st)"
  shows "if unat off + unat n \<le> unat (area_size a)
    then \<exists>st1 st2. storage_write ops buf off n st = (Ok (), st1) \<and>
      put d (unat off + unat (area_offset a)) (take (unat n) buf) = Some (ms_data (fs_base st1)) \<and>
      storage_read ops off n st1 = (Ok (take (unat n) buf), st2)
    else \<exists>st1 st2. storage_write ops buf off n st = (Err, st1) \<and> ms_data (fs_base st1) = d \<and>
      storage_read ops off n st = (Err, st2) \<and> ms_data (fs_base st2) = d"
proof -
  have ops: "ops = fmap_ops sg memory_ops" and st: "fs_area st = None" "fs_fmap st = None"
    "fs_offset st = foff" "fs_name st = name" "ms_data (fs_base st) = d" "ms_size (fs_base st) = m"
    using assms(6) by (auto simp: new_fmap_storage_def)
  have known: "area_known sg d st = Some a" by (simp add: area_known_def st assms(1))
  have ok: "fmap_ok sg ms_data memory_ok st" using assms by (simp add: fmap_ok_def memory_ok_def st known)
  have len: "length (fmap_contents sg ms_data st) = unat (area_size a)"
    using assms(2) by (simp add: fmap_contents_def st known length_window)
  show ?thesis
  proof (cases "unat off + unat n \<le> unat (area_size a)")
    case True
    with mem.fmap_write_strong [OF ok assms(4) _ assms(5)] len known st
    obtain st1 where st1: "storage_write ops buf off n st = (Ok (), st1)" "fmap_ok sg ms_data memory_ok st1"
      "put (fmap_contents sg ms_data st) (unat off) (take (unat n) buf) = Some (fmap_contents sg ms_data st1)"
      "put d (unat off + unat (area_offset a)) (take (unat n) buf) = Some (ms_data (fs_base st1))"
      unfolding ops by auto
    have "slice (fmap_contents sg ms_data st1) (unat off) (unat n) = Some (take (unat n) buf)"
      using slice_put_same [OF st1(3)] assms(5) by (simp add: min_absorb2)
    with fmap_mem.read_cases [OF st1(2) assms(4)] have "\<exists>st2. storage_read ops off n st1 = (Ok (take (unat n) buf), st2)"
      unfolding ops by auto
    with st1 True show ?thesis by auto
  next
    case False
    then have past: "unat (ucast (area_size a) :: u64) < unat off + unat n" by simp
    note out = mem.bounded_write_out [OF assms(4) past] bounded_read_out [OF assms(4) past]
    obtain st1 where r: "fmap_storage_ready sg memory_ops st = (Ok a, st1)" "ms_data (fs_base st1) = d"
      using mem.fmap_ready [OF ok] known st by auto
    have "storage_write ops buf off n st = (Err, st1)"
      using r(1) by (simp add: ops storage_write_def fmap_ops_def fmap_storage_write_def act_bind_def
          on_base_def focus_def out)
    moreover have "storage_read ops off n st = (Err, st1)"
      using r(1) by (simp add: ops storage_read_def fmap_ops_def fmap_storage_read_def act_bind_def
          on_base_def focus_def out)
    ultimately show ?thesis using r(2) False by auto
  qed
qed

text \<open>
  The bounds check does not confine a client to its area: the sum in it wraps, and a
  request at an offset near 2 to the 64 reads the bytes of the device before the area.
\<close>

theorem fmap_area_escape:
  assumes "fmap_lookup sg foff name d = Some a" and "unat (area_offset a) + unat (area_size a) \<le> length d"
    and "unat m = length d" and "0 < k" and "k \<le> unat (area_offset a)"
    and "new_fmap_storage sg memory_ops \<lparr>ms_data = d, ms_size = m\<rparr> foff name = (ops, st)"
  shows "\<exists>st'. storage_read ops (- of_nat k) (of_nat k) st =
    (Ok (take k (drop (unat (area_offset a) - k) d)), st')"
proof -
  have ops: "ops = fmap_ops sg memory_ops" and st: "fs_area st = None" "fs_fmap st = None"
    "fs_offset st = foff" "fs_name st = name" "ms_data (fs_base st) = d" "ms_size (fs_base st) = m"
    using assms(6) by (auto simp: new_fmap_storage_def)
  have known: "area_known sg d st = Some a" by (simp add: area_known_def st assms(1))
  have ok: "fmap_ok sg ms_data memory_ok st" using assms by (simp add: fmap_ok_def memory_ok_def st known)
  obtain st1 where r: "fmap_storage_ready sg memory_ops st = (Ok a, st1)" "memory_ok (fs_base st1)"
    "ms_data (fs_base st1) = d"
    using mem.fmap_ready [OF ok] known st by auto
  have k: "unat (of_nat k :: u64) = k"
    using assms(5) unat_u32_less [of "area_offset a"] by (intro unat_u64_of_nat) linarith
  have "\<exists>b. bounded_read memory_ops (ucast (area_size a)) (ucast (area_offset a)) (- of_nat k) (of_nat k) (fs_base st1) =
      (Ok (take k (drop (unat (area_offset a) - k) d)), b)"
    using mem.bounded_read_escape [OF r(2), of "of_nat k" "ucast (area_offset a)" "of_nat k" "ucast (area_size a)"]
      assms(2,4,5) by (simp add: k r(3) word_le_nat_alt)
  with r(1) show ?thesis
    by (auto simp: ops storage_read_def fmap_ops_def fmap_storage_read_def act_bind_def on_base_def focus_def)
qed

subsection \<open>Witnesses\<close>

text \<open>A flash image of 114 bytes with one area, \<open>GBB\<close>, of its last 16 bytes.\<close>

definition sample_header :: bytes where
  "sample_header = str ''__FMAP__'' @ [1, 0] @ replicate 8 0 @ le_bytes 4 114 @ replicate 32 0 @ le_bytes 2 1"

definition sample_entry :: bytes where
  "sample_entry = le_bytes 4 98 @ le_bytes 4 16 @ str ''GBB'' @ replicate 29 0 @ [0, 0]"

definition sample_image :: bytes where
  "sample_image = sample_header @ sample_entry @ map word_of_nat [0..<16]"

definition sample_area :: fmap_area where
  "sample_area = \<lparr>area_offset = 98, area_size = 16, area_name = str ''GBB'' @ replicate 29 0, area_flags = 0\<rparr>"

lemma sample_lengths: "length sample_header = 56" "length sample_entry = 42"
  by (simp_all add: sample_header_def sample_entry_def str_def)

lemma sample_signature: "fmap_check_signature sample_header = Ok 0"
proof -
  let ?sig = "str ''__FMAP__''"
  have l: "length ?sig = 8" by (simp add: str_def)
  have "default_memcmp sample_header ?sig 8 = Ok 0"
    using default_memcmp_equal [of 8 sample_header ?sig] by (simp add: sample_lengths l) (simp add: sample_header_def l)
  then show ?thesis by (simp add: fmap_check_signature_def)
qed
lemma sample_nareas:  "fmap_nareas sample_header = 1"
proof -
  have "drop 54 sample_header = le_bytes 2 1"
    by (simp add: sample_header_def str_def)
  then show ?thesis by (simp add: fmap_nareas_def le_val_le_bytes)
qed

lemma sample_area_at: "fmap_area_at (sample_header @ sample_entry) 0 = Some sample_area"
proof -
  have "slice (sample_header @ sample_entry) 56 42 = Some sample_entry"
    by (simp add: slice_def sample_lengths)
  moreover have "take 4 sample_entry = le_bytes 4 98" "take 4 (drop 4 sample_entry) = le_bytes 4 16"
    "take 32 (drop 8 sample_entry) = str ''GBB'' @ replicate 29 0" "drop 40 sample_entry = [0, 0]"
    by (simp_all add: sample_entry_def str_def)
  ultimately show ?thesis
    by (simp add: fmap_area_at_def sample_area_def le32_def le16_def le_val_le_bytes)
qed

lemma sample_find_area: "fmap_find_area True (sample_header @ sample_entry) (str ''GBB'' @ [0]) = Ok sample_area"
proof -
  have "drop 64 (sample_header @ sample_entry) = str ''GBB'' @ replicate 29 0 @ [0, 0]"
    using sample_lengths(1) by (simp add: sample_entry_def)
  moreover have "fmap_nareas (sample_header @ sample_entry) = 1"
    using sample_nareas by (simp add: fmap_nareas_def sample_lengths(1))
  moreover have "strncmp True (str ''GBB'' @ [0]) (str ''GBB'' @ replicate 29 0 @ [0, 0]) 32 = Ok 0"
    by (simp add: strncmp_def str_def numeral_eq_Suc)
  ultimately show ?thesis using sample_area_at by (simp add: fmap_find_area_def)
qed

lemma sample_lookup: "fmap_lookup True 0 (str ''GBB'' @ [0]) sample_image = Some sample_area"
proof -
  have "slice sample_image 0 56 = Some sample_header" "slice sample_image 56 42 = Some sample_entry"
    by (simp_all add: slice_def sample_image_def sample_lengths)
  then show ?thesis by (simp add: fmap_lookup_def sample_signature sample_nareas sample_find_area)
qed

lemma length_sample_image: "length sample_image = 114"
  by (simp add: sample_image_def sample_lengths)

theorem fmap_area_read_write_witness:
  "(\<exists>st1 st2. storage_write (fmap_ops True memory_ops) [7, 8] 4 2
      \<lparr>fs_base = \<lparr>ms_data = sample_image, ms_size = 114\<rparr>, fs_offset = 0, fs_fmap = None,
       fs_name = str ''GBB'' @ [0], fs_area = None\<rparr> = (Ok (), st1) \<and>
    storage_read (fmap_ops True memory_ops) 4 2 st1 = (Ok [7, 8], st2)) \<and>
  (\<exists>st2. storage_read (fmap_ops True memory_ops) 15 2
      \<lparr>fs_base = \<lparr>ms_data = sample_image, ms_size = 114\<rparr>, fs_offset = 0, fs_fmap = None,
       fs_name = str ''GBB'' @ [0], fs_area = None\<rparr> = (Err, st2))"
  using fmap_area_read_write [OF sample_lookup, of 114 4 2 "[7, 8]"]
    fmap_area_read_write [OF sample_lookup, of 114 15 2 "[7, 8]"]
  by (auto simp: sample_area_def length_sample_image no_wrap_def new_fmap_storage_def)

theorem fmap_area_escape_witness:
  "\<exists>st'. storage_read (fmap_ops True memory_ops) (- of_nat 98) (of_nat 98)
      \<lparr>fs_base = \<lparr>ms_data = sample_image, ms_size = 114\<rparr>, fs_offset = 0, fs_fmap = None,
       fs_name = str ''GBB'' @ [0], fs_area = None\<rparr> = (Ok (sample_header @ sample_entry), st')"
proof -
  have "take 98 sample_image = sample_header @ sample_entry" by (simp add: sample_image_def sample_lengths)
  with fmap_area_escape [OF sample_lookup, of 114 98] show ?thesis
    by (auto simp: sample_area_def length_sample_image new_fmap_storage_def)
qed

end
