(* ===== verification/SectionIndex.thy ===== *)
theory SectionIndex
  imports Storage
begin

text \<open>
  \<^verbatim>\<open>src/src/drivers/storage/section_index.c\<close>: an image that starts with a table of sections,
  a count and that many pairs of offset and size, and the storages for the whole and for one
  section.  The table is read on first use and cached.
\<close>

type_synonym section_entry = "u32 \<times> u32"

record 's section_index =
  si_base :: 's
  si_index :: "section_entry list option"
  si_total :: u64

fun parse_entries :: "nat \<Rightarrow> bytes \<Rightarrow> section_entry list" where
  "parse_entries 0 bs = []"
| "parse_entries (Suc k) bs =
     (le32 (take 4 bs), le32 (take 4 (drop 4 bs))) # parse_entries k (drop 8 bs)"

definition round4 :: "u32 \<Rightarrow> u32" where
  "round4 w = (w + 3) AND NOT 3"

fun sections_total :: "u64 \<Rightarrow> section_entry list \<Rightarrow> u64" where
  "sections_total t [] = t"
| "sections_total t ((off, n) # es) = sections_total (t + 8 + ucast (round4 n)) es"

definition on_si_base :: "('s, 'a) act \<Rightarrow> ('s section_index, 'a) act" where
  "on_si_base m = focus si_base (\<lambda>b st. st\<lparr>si_base := b\<rparr>) m"

text \<open>The table is allocated with its size in 32 bits and read with its size in 64.\<close>

definition section_index_storage_find_index :: "'s storage_ops \<Rightarrow> ('s section_index, unit) act" where
  "section_index_storage_find_index base =
     act_bind (on_si_base (storage_read base 0 4)) (\<lambda>cnt.
       (let count = le32 cnt; alloc = 4 + count * 8
        in act_bind (on_si_base (storage_read base 4 (ucast count * 8))) (\<lambda>bs st.
          if unat alloc < 4 + length bs then (Fault OutOfBounds, st)
          else (let es = parse_entries (unat count) bs
                in (Ok (), st\<lparr>si_index := Some es, si_total := sections_total 4 es\<rparr>)))))"

definition section_index_ready :: "'s storage_ops \<Rightarrow> ('s section_index, unit) act" where
  "section_index_ready base st =
     (if si_index st = None then section_index_storage_find_index base st else (Ok (), st))"

definition section_index_storage_read ::
  "'s storage_ops \<Rightarrow> u64 \<Rightarrow> u64 \<Rightarrow> ('s section_index, bytes) act" where
  "section_index_storage_read base offset n =
     act_bind (section_index_ready base) (\<lambda>_ st.
       if offset + n > si_total st then (Err, st)
       else on_si_base (storage_read base offset n) st)"

definition section_index_storage_write ::
  "bytes \<Rightarrow> u64 \<Rightarrow> u64 \<Rightarrow> ('s section_index, unit) act" where
  "section_index_storage_write buffer offset n st = (Err, st)"

text \<open>The size is that of the table read so far: 0 before the first read.\<close>

definition section_index_storage_size :: "('s section_index, int) act" where
  "section_index_storage_size st = (Ok (as_int (si_total st)), st)"

definition new_section_index_storage ::
  "'s storage_ops \<Rightarrow> 's \<Rightarrow> 's section_index storage_ops \<times> 's section_index" where
  "new_section_index_storage base b =
     (\<lparr>op_read = section_index_storage_read base, op_write = section_index_storage_write,
       op_size = section_index_storage_size\<rparr>, \<lparr>si_base = b, si_index = None, si_total = 0\<rparr>)"

subsection \<open>One section\<close>

record 's section_entry_storage =
  se_parent :: "'s section_index"
  se_idx :: u32
  se_entry :: "section_entry option"

definition on_parent :: "('s section_index, 'a) act \<Rightarrow> ('s section_entry_storage, 'a) act" where
  "on_parent m = focus se_parent (\<lambda>b st. st\<lparr>se_parent := b\<rparr>) m"

text \<open>\<open>&index->entries[i]\<close>: the index is not compared with the count.\<close>

definition section_index_storage_find_entry :: "'s storage_ops \<Rightarrow> ('s section_entry_storage, unit) act" where
  "section_index_storage_find_entry base =
     act_bind (on_parent (section_index_ready base)) (\<lambda>_ st.
       case rd (the (si_index (se_parent st))) (unat (se_idx st)) of
         None \<Rightarrow> (Fault OutOfBounds, st)
       | Some e \<Rightarrow> (Ok (), st\<lparr>se_entry := Some e\<rparr>))"

definition section_entry_ready :: "'s storage_ops \<Rightarrow> ('s section_entry_storage, section_entry) act" where
  "section_entry_ready base =
     act_bind (\<lambda>st. if se_entry st = None then section_index_storage_find_entry base st else (Ok (), st))
       (\<lambda>_ st. (Ok (the (se_entry st)), st))"

definition section_index_entry_storage_read ::
  "'s storage_ops \<Rightarrow> u64 \<Rightarrow> u64 \<Rightarrow> ('s section_entry_storage, bytes) act" where
  "section_index_entry_storage_read base offset n =
     act_bind (section_entry_ready base) (\<lambda>e.
       on_parent (on_si_base (bounded_read base (ucast (snd e)) (ucast (fst e)) offset n)))"

definition section_index_entry_storage_write ::
  "'s storage_ops \<Rightarrow> bytes \<Rightarrow> u64 \<Rightarrow> u64 \<Rightarrow> ('s section_entry_storage, unit) act" where
  "section_index_entry_storage_write base buffer offset n =
     act_bind (section_entry_ready base) (\<lambda>e.
       on_parent (on_si_base (bounded_write base (ucast (snd e)) (ucast (fst e)) buffer offset n)))"

definition section_index_entry_storage_size :: "'s storage_ops \<Rightarrow> ('s section_entry_storage, int) act" where
  "section_index_entry_storage_size base st =
     (case section_entry_ready base st of
        (Ok e, st') \<Rightarrow> (Ok (as_int (ucast (snd e))), st')
      | (Err, st') \<Rightarrow> (Ok 1, st')
      | (Fault f, st') \<Rightarrow> (Fault f, st'))"

definition new_section_index_entry_storage ::
  "'s storage_ops \<Rightarrow> 's section_index \<Rightarrow> u32 \<Rightarrow> 's section_entry_storage storage_ops \<times> 's section_entry_storage" where
  "new_section_index_entry_storage base parent i =
     (\<lparr>op_read = section_index_entry_storage_read base, op_write = section_index_entry_storage_write base,
       op_size = section_index_entry_storage_size base\<rparr>,
      \<lparr>se_parent = parent, se_idx = i, se_entry = None\<rparr>)"

subsection \<open>Lookup\<close>

definition section_table :: "bytes \<Rightarrow> section_entry list option" where
  "section_table c =
     (case slice c 0 4 of None \<Rightarrow> None | Some cnt \<Rightarrow>
        map_option (parse_entries (le_val cnt)) (slice c 4 (le_val cnt * 8)))"

lemma length_parse_entries [simp]: "length (parse_entries k bs) = k"
  by (induction k arbitrary: bs) auto

lemma le_val_take4: "length cnt = 4 \<Longrightarrow> unat (le32 cnt) = le_val cnt \<and> le_val cnt < 4294967296"
  using le_val_bound [of cnt] by (simp add: le32_def unat_u32_of_nat)

context readable_storage
begin

lemma find_index_table:
  assumes ok: "ok (si_base st)" and t: "section_table (contents (si_base st)) = Some es"
    and small: "length (contents (si_base st)) < 4294967296"
  shows "\<exists>b. section_index_storage_find_index ops st =
      (Ok (), st\<lparr>si_base := b, si_index := Some es, si_total := sections_total 4 es\<rparr>) \<and>
    ok b \<and> contents b = contents (si_base st)"
proof -
  let ?c = "contents (si_base st)"
  obtain cnt bs where cnt: "slice ?c 0 4 = Some cnt" and bs: "slice ?c 4 (le_val cnt * 8) = Some bs"
    and es: "es = parse_entries (le_val cnt) bs"
    using t by (auto simp: section_table_def split: option.splits)
  have v: "unat (le32 cnt) = le_val cnt" and lt: "le_val cnt * 8 + 4 < 4294967296"
    using le_val_take4 [OF slice_length [OF cnt]] bs small by (auto simp: slice_def split: if_splits)
  have n: "unat (ucast (le32 cnt) * 8 :: u64) = le_val cnt * 8"
    using lt by (simp add: unat_word_ariths v)
  have alloc: "unat (4 + le32 cnt * 8) = 4 + le_val cnt * 8"
    using lt by (simp add: unat_word_ariths v)
  have w: "no_wrap 0 4" "no_wrap 4 (ucast (le32 cnt) * 8)" using lt by (simp_all add: no_wrap_def n)
  obtain b1 where b1: "storage_read ops 0 4 (si_base st) = (Ok cnt, b1)" "ok b1" "contents b1 = ?c"
    using read_cases [OF ok w(1)] cnt by auto
  obtain b2 where b2: "storage_read ops 4 (ucast (le32 cnt) * 8) b1 = (Ok bs, b2)" "ok b2" "contents b2 = ?c"
    using read_cases [OF b1(2) w(2)] bs b1(3) by (auto simp: n)
  have "length bs = le_val cnt * 8" by (rule slice_length [OF bs])
  then show ?thesis
    using b1 b2 es v alloc
    by (auto simp: section_index_storage_find_index_def act_bind_def on_si_base_def focus_def Let_def)
qed

lemma section_entry_read_law:
  assumes ok: "ok (si_base (se_parent st))" and t: "section_table (contents (si_base (se_parent st))) = Some es"
    and small: "length (contents (si_base (se_parent st))) < 4294967296"
    and none: "se_entry st = None" "si_index (se_parent st) = None" and w: "no_wrap off n"
    and le: "\<forall>i < length es. unat (fst (es ! i)) + unat (snd (es ! i)) \<le> length (contents (si_base (se_parent st)))"
  shows "\<exists>st'. section_index_entry_storage_read ops off n st =
    (if unat (se_idx st) < length es then
       (let e = es ! unat (se_idx st)
        in if unat off + unat n \<le> unat (snd e)
           then Ok (take (unat n) (drop (unat off) (window (ucast (fst e)) (ucast (snd e))
             (contents (si_base (se_parent st)))))) else Err)
     else Fault OutOfBounds, st')"
proof -
  obtain b where b: "section_index_storage_find_index ops (se_parent st) =
      (Ok (), (se_parent st)\<lparr>si_base := b, si_index := Some es, si_total := sections_total 4 es\<rparr>)"
    "ok b" "contents b = contents (si_base (se_parent st))"
    using find_index_table [OF ok t small] by auto
  show ?thesis
  proof (cases "unat (se_idx st) < length es")
    case False
    then show ?thesis using b none
      by (auto simp: section_index_entry_storage_read_def section_entry_ready_def act_bind_def
          section_index_storage_find_entry_def on_parent_def focus_def section_index_ready_def rd_def)
  next
    case True
    let ?e = "es ! unat (se_idx st)"
    have nw: "no_wrap (ucast (fst ?e)) (ucast (snd ?e))"
      using unat_u32_less [of "fst ?e"] unat_u32_less [of "snd ?e"] by (simp add: no_wrap_def)
    have fit: "unat (ucast (fst ?e) :: u64) + unat (ucast (snd ?e) :: u64) \<le> length (contents b)"
      using le True b(3) by simp
    from bounded_read_window [OF b(2) w nw fit] b(3) obtain b' where
      "bounded_read ops (ucast (snd ?e)) (ucast (fst ?e)) off n b =
        (if unat off + unat n \<le> unat (snd ?e)
         then Ok (take (unat n) (drop (unat off) (window (ucast (fst ?e)) (ucast (snd ?e))
           (contents (si_base (se_parent st)))))) else Err, b')" by auto
    with True b(1) none show ?thesis
      by (auto simp: section_index_entry_storage_read_def section_entry_ready_def act_bind_def
          section_index_storage_find_entry_def on_parent_def on_si_base_def focus_def
          section_index_ready_def rd_def Let_def)
  qed
qed

end

text \<open>
  The storage of section \<open>i\<close> reads the bytes of that section and refuses a request past
  its end; for an \<open>i\<close> that the table does not have, it does not fail, it goes past the table.
\<close>

theorem section_entry_read:
  assumes "section_table d = Some es" and "length d < 4294967296" and "unat m = length d"
    and "\<forall>i < length es. unat (fst (es ! i)) + unat (snd (es ! i)) \<le> length d" and "no_wrap off n"
    and "new_section_index_entry_storage memory_ops
      (snd (new_section_index_storage memory_ops \<lparr>ms_data = d, ms_size = m\<rparr>)) i = (ops, st)"
  shows "\<exists>st'. storage_read ops off n st =
    (if unat i < length es then
       (let e = es ! unat i
        in if unat off + unat n \<le> unat (snd e)
           then Ok (take (unat n) (drop (unat off + unat (fst e)) d)) else Err)
     else Fault OutOfBounds, st')"
proof -
  have st: "ops = fst (new_section_index_entry_storage memory_ops (se_parent st) i)"
    "se_entry st = None" "si_index (se_parent st) = None"
    "si_base (se_parent st) = \<lparr>ms_data = d, ms_size = m\<rparr>" "se_idx st = i"
    using assms(6) by (auto simp: new_section_index_entry_storage_def new_section_index_storage_def)
  have "memory_ok (si_base (se_parent st))" using assms(3) by (simp add: st memory_ok_def)
  from mem.section_entry_read_law [OF this _ _ st(2,3) assms(5), of es] assms(1,2,4)
  show ?thesis
    by (auto simp: st Let_def storage_read_def new_section_index_entry_storage_def take_drop_window
        split: if_splits)
qed

definition sample_sections :: bytes where
  "sample_sections = le_bytes 4 1 @ (le_bytes 4 12 @ le_bytes 4 3) @ [1, 2, 3, 0]"

theorem section_entry_read_witness:
  "(\<exists>st'. storage_read (fst (new_section_index_entry_storage memory_ops
      (snd (new_section_index_storage memory_ops \<lparr>ms_data = sample_sections, ms_size = 16\<rparr>)) 0)) 1 2
     (snd (new_section_index_entry_storage memory_ops
      (snd (new_section_index_storage memory_ops \<lparr>ms_data = sample_sections, ms_size = 16\<rparr>)) 0)) =
     (Ok [2, 3], st'))"
proof -
  have "section_table sample_sections = Some [(12, 3)]"
    by (simp add: section_table_def slice_def sample_sections_def le_val_le_bytes le32_def)
  moreover have "length sample_sections = 16" "drop 13 sample_sections = [2, 3, 0]"
    by (simp_all add: sample_sections_def)
  ultimately show ?thesis
    using section_entry_read [of sample_sections "[(12, 3)]" 16 1 2 0] by (simp add: no_wrap_def)
qed

end
