(* ===== verification/Flash.thy ===== *)
theory Flash
  imports Storage
begin

text \<open>
  The flash interface, \<^verbatim>\<open>src/src/drivers/flash/flash.h\<close>, and the storage on top of it,
  \<^verbatim>\<open>src/src/drivers/storage/flash.c\<close>, which turns writes of any range into erases and
  programs of sectors.  \<open>read\<close> returns a pointer into the driver's cache in C; here it
  returns the bytes, and what the caller does to its copy stays with the caller.
\<close>

record 's flash_ops =
  fo_read :: "u32 \<Rightarrow> u32 \<Rightarrow> ('s, bytes) act"
  fo_write :: "bytes \<Rightarrow> u32 \<Rightarrow> u32 \<Rightarrow> ('s, unit) act"
  fo_erase_size :: "('s, int) act"
  fo_erase :: "u32 \<Rightarrow> u32 \<Rightarrow> ('s, unit) act"
  fo_size :: "('s, int) act"

definition flash_read :: "'s flash_ops \<Rightarrow> u32 \<Rightarrow> u32 \<Rightarrow> ('s, bytes) act" where
  "flash_read me offset n = fo_read me offset n"

definition flash_write :: "'s flash_ops \<Rightarrow> bytes \<Rightarrow> u32 \<Rightarrow> u32 \<Rightarrow> ('s, unit) act" where
  "flash_write me buffer offset n = fo_write me buffer offset n"

definition flash_erase_size :: "'s flash_ops \<Rightarrow> ('s, int) act" where
  "flash_erase_size me = fo_erase_size me"

definition flash_erase :: "'s flash_ops \<Rightarrow> u32 \<Rightarrow> u32 \<Rightarrow> ('s, unit) act" where
  "flash_erase me offset n = fo_erase me offset n"

definition flash_size :: "'s flash_ops \<Rightarrow> ('s, int) act" where
  "flash_size me = fo_size me"

subsection \<open>Flash storage\<close>

definition flash_storage_read :: "'s flash_ops \<Rightarrow> u64 \<Rightarrow> u64 \<Rightarrow> ('s, bytes) act" where
  "flash_storage_read flash offset n =
     act_bind (flash_read flash (ucast offset) (ucast n)) (\<lambda>r.
       act_lift (of_opt (slice r 0 (unat n))))"

text \<open>Whether writing \<open>new\<close> over \<open>old\<close> needs a bit to go from 0 to 1.\<close>

definition needs_erase :: "bytes \<Rightarrow> bytes \<Rightarrow> bool" where
  "needs_erase old new \<longleftrightarrow> list_ex (\<lambda>(o1, n1). o1 AND n1 \<noteq> n1) (zip old new)"

text \<open>The two loops that skip bytes that are all ones: the rest and the bytes skipped in front.\<close>

definition trim_ones :: "bytes \<Rightarrow> bytes \<times> nat" where
  "trim_ones buf =
     (let b1 = rev (dropWhile (\<lambda>b. b = 0xff) (rev buf));
          b2 = dropWhile (\<lambda>b. b = 0xff) b1
      in (b2, length b1 - length b2))"

text \<open>
  One sector at \<open>pos\<close>: \<open>extra_low\<close> is the first byte of it to be written and \<open>data\<close> the
  input that is left; the result is the number of input bytes consumed.
\<close>

definition flash_write_sector :: "'s flash_ops \<Rightarrow> u64 \<Rightarrow> u64 \<Rightarrow> u64 \<Rightarrow> bytes \<Rightarrow> ('s, nat) act" where
  "flash_write_sector flash esize pos extra_low data =
     act_bind (flash_read flash (ucast pos) (ucast esize)) (\<lambda>existing.
       (let low = unat extra_low;
            bytes = min (unat (esize - extra_low)) (length data);
            new_data = take bytes data
        in case slice existing low bytes of None \<Rightarrow> act_lift (Fault OutOfBounds)
           | Some old \<Rightarrow>
               act_bind (if needs_erase old new_data then flash_erase flash (ucast pos) (ucast esize)
                         else act_lift (Ok ())) (\<lambda>_.
               (case put existing low new_data of None \<Rightarrow> act_lift (Fault OutOfBounds)
                | Some merged \<Rightarrow>
                    (case trim_ones (take (unat esize) merged) of (wbuf, skipped) \<Rightarrow>
                       act_bind (flash_write flash wbuf (ucast (pos + of_nat skipped)) (of_nat (length wbuf))) (\<lambda>_.
                         act_lift (Ok bytes)))))))"

fun flash_write_loop ::
  "nat \<Rightarrow> 's flash_ops \<Rightarrow> u64 \<Rightarrow> u64 \<Rightarrow> u64 \<Rightarrow> u64 \<Rightarrow> bytes \<Rightarrow> ('s, unit) act" where
  "flash_write_loop 0 flash esize pos stop extra_low data = act_lift (Fault Diverges)"
| "flash_write_loop (Suc fuel) flash esize pos stop extra_low data =
     (if pos < stop
      then act_bind (flash_write_sector flash esize pos extra_low data) (\<lambda>k.
             flash_write_loop fuel flash esize (pos + esize) stop 0 (drop k data))
      else act_lift (Ok ()))"

definition flash_storage_write :: "nat \<Rightarrow> 's flash_ops \<Rightarrow> bytes \<Rightarrow> u64 \<Rightarrow> u64 \<Rightarrow> ('s, unit) act" where
  "flash_storage_write fuel flash buffer offset n =
     act_bind (flash_size flash) (\<lambda>total.
       if offset + n > word_of_int total then act_lift Err
       else act_bind (flash_erase_size flash) (\<lambda>e.
         if e < 0 then act_lift Err
         else (let esize = word_of_int e :: u64 in
           if (esize - 1) AND esize \<noteq> 0 then act_lift (Fault AssertFail)
           else (let erase_mask = NOT (esize - 1);
                     aligned_offset = offset AND erase_mask;
                     extra_low = offset - aligned_offset;
                     aligned_size = (n + extra_low + NOT erase_mask) AND erase_mask
                 in case slice buffer 0 (unat n) of None \<Rightarrow> act_lift (Fault OutOfBounds)
                    | Some data \<Rightarrow> flash_write_loop fuel flash esize aligned_offset
                        (aligned_offset + aligned_size) extra_low data))))"

definition flash_storage_size :: "'s flash_ops \<Rightarrow> ('s, int) act" where
  "flash_storage_size flash = flash_size flash"

definition new_flash_storage :: "nat \<Rightarrow> 's flash_ops \<Rightarrow> 's storage_ops" where
  "new_flash_storage fuel flash =
     \<lparr>op_read = flash_storage_read flash, op_write = flash_storage_write fuel flash,
      op_size = flash_storage_size flash\<rparr>"

subsection \<open>Powers of two\<close>

lemma of_nat_unat_same: "of_nat (unat (w :: u64)) = w"
  by simp

lemma power_of_two_check: "(2 ^ k - 1) AND 2 ^ k = (0 :: u64)"
proof -
  have "mask k AND 2 ^ k = (0 :: u64)" by (intro bit_word_eqI) (auto simp: bit_simps)
  then show ?thesis by (simp add: mask_eq_exp_minus_1)
qed

subsection \<open>NOR flash\<close>

text \<open>
  The documented behaviour of the chips behind the interface: erasing a sector sets every
  bit, programming can only clear bits, reading returns the contents.
\<close>

definition program :: "nat \<Rightarrow> bytes \<Rightarrow> bytes \<Rightarrow> bytes" where
  "program off buf c = take off c @ map2 (AND) (take (length buf) (drop off c)) buf @ drop (off + length buf) c"

definition erased :: "nat \<Rightarrow> nat \<Rightarrow> bytes \<Rightarrow> bytes" where
  "erased off n c = take off c @ replicate n 0xff @ drop (off + n) c"

definition nor_flash :: "'s flash_ops \<Rightarrow> ('s \<Rightarrow> bytes) \<Rightarrow> ('s \<Rightarrow> bool) \<Rightarrow> nat \<Rightarrow> bool" where
  "nor_flash f contents ok k \<longleftrightarrow> k < 31 \<and>
     (\<forall>s. ok s \<longrightarrow> 2 ^ k dvd length (contents s) \<and> length (contents s) < 2147483648 \<and>
       (\<exists>s'. flash_size f s = (Ok (int (length (contents s))), s') \<and> ok s' \<and> contents s' = contents s) \<and>
       (\<exists>s'. flash_erase_size f s = (Ok (2 ^ k), s') \<and> ok s' \<and> contents s' = contents s) \<and>
       (\<forall>off n. unat off + unat n \<le> length (contents s) \<longrightarrow>
         (\<exists>s'. flash_read f off n s = (Ok (take (unat n) (drop (unat off) (contents s))), s') \<and>
           ok s' \<and> contents s' = contents s)) \<and>
       (\<forall>off. 2 ^ k dvd unat off \<longrightarrow> unat off + 2 ^ k \<le> length (contents s) \<longrightarrow>
         (\<exists>s'. flash_erase f off (2 ^ k) s = (Ok (), s') \<and> ok s' \<and>
           contents s' = erased (unat off) (2 ^ k) (contents s))) \<and>
       (\<forall>off buf. unat off + length buf \<le> length (contents s) \<longrightarrow>
         (\<exists>s'. flash_write f buf off (of_nat (length buf)) s = (Ok (), s') \<and> ok s' \<and>
           contents s' = program (unat off) buf (contents s))))"

lemma nor_flash_laws:
  assumes "nor_flash f contents ok k" and "ok s"
  shows nor_bounds: "k < 31 \<and> 2 ^ k dvd length (contents s) \<and> length (contents s) < 2147483648"
    and nor_size: "\<exists>s'. flash_size f s = (Ok (int (length (contents s))), s') \<and> ok s' \<and> contents s' = contents s"
    and nor_erase_size: "\<exists>s'. flash_erase_size f s = (Ok (2 ^ k), s') \<and> ok s' \<and> contents s' = contents s"
    and nor_read: "unat off + unat n \<le> length (contents s) \<Longrightarrow>
      \<exists>s'. flash_read f off n s = (Ok (take (unat n) (drop (unat off) (contents s))), s') \<and>
        ok s' \<and> contents s' = contents s"
    and nor_erase: "2 ^ k dvd unat off \<Longrightarrow> unat off + 2 ^ k \<le> length (contents s) \<Longrightarrow>
      \<exists>s'. flash_erase f off (2 ^ k) s = (Ok (), s') \<and> ok s' \<and>
        contents s' = erased (unat off) (2 ^ k) (contents s)"
    and nor_write: "unat off + length buf \<le> length (contents s) \<Longrightarrow>
      \<exists>s'. flash_write f buf off (of_nat (length buf)) s = (Ok (), s') \<and> ok s' \<and>
        contents s' = program (unat off) buf (contents s)"
  using assms unfolding nor_flash_def by simp_all

lemma length_program [simp]: "off + length buf \<le> length c \<Longrightarrow> length (program off buf c) = length c"
  by (simp add: program_def)

lemma program_nth:
  "off + length buf \<le> length c \<Longrightarrow> i < length c \<Longrightarrow>
     program off buf c ! i = (if off \<le> i \<and> i < off + length buf then c ! i AND buf ! (i - off) else c ! i)"
  by (auto simp: program_def nth_append)

lemma length_erased [simp]: "off + n \<le> length c \<Longrightarrow> length (erased off n c) = length c"
  by (simp add: erased_def)

lemma erased_nth:
  "off + n \<le> length c \<Longrightarrow> i < length c \<Longrightarrow>
     erased off n c ! i = (if off \<le> i \<and> i < off + n then 0xff else c ! i)"
  by (auto simp: erased_def nth_append)

lemma dropWhile_replicate: "xs = replicate (length xs - length (dropWhile (\<lambda>b. b = v) xs)) v @ dropWhile (\<lambda>b. b = v) xs"
proof -
  have "takeWhile (\<lambda>b. b = v) xs = replicate (length (takeWhile (\<lambda>b. b = v) xs)) v"
    by (induction xs) auto
  moreover have "length (takeWhile (\<lambda>b. b = v) xs) = length xs - length (dropWhile (\<lambda>b. b = v) xs)"
    by (metis add_diff_cancel_right' length_append takeWhile_dropWhile_id)
  ultimately show ?thesis by (metis takeWhile_dropWhile_id)
qed

lemma trim_ones_split:
  assumes "trim_ones m = (w, k)"
  shows "\<exists>r. m = replicate k 0xff @ w @ replicate r 0xff"
proof -
  let ?b1 = "rev (dropWhile (\<lambda>b. b = 0xff) (rev m))"
  have w: "w = dropWhile (\<lambda>b. b = 0xff) ?b1" and k: "k = length ?b1 - length w"
    using assms by (auto simp: trim_ones_def Let_def)
  have b1: "?b1 = replicate k 0xff @ w" using dropWhile_replicate [of ?b1 "0xff"] w k by simp
  have "rev m = replicate (length m - length ?b1) 0xff @ rev ?b1"
    using dropWhile_replicate [of "rev m" "0xff"] by simp
  then have "m = ?b1 @ replicate (length m - length ?b1) 0xff" by (metis rev_append rev_replicate rev_rev_ident)
  with b1 show ?thesis by (metis append_assoc)
qed

lemma trim_ones_nth:
  assumes "trim_ones m = (w, k)" and "i < length m"
  shows "if k \<le> i \<and> i < k + length w then m ! i = w ! (i - k) else m ! i = 0xff"
proof -
  obtain r where m: "m = replicate k 0xff @ w @ replicate r 0xff"
    using trim_ones_split [OF assms(1)] by blast
  with assms(2) have "i < k + length w + r" by simp
  with m show ?thesis by (auto simp: nth_append)
qed

lemma and_ones: "(x :: u8) AND 0xff = x"
proof -
  have "(0xff :: u8) = - 1" by simp
  then show ?thesis by (simp only: and.right_neutral)
qed

lemma ones_and: "0xff AND (x :: u8) = x"
  using and_ones [of x] by (simp add: and.commute)

lemma not_needs_erase:
  assumes "\<not> needs_erase old new" and "i < length old" and "i < length new"
  shows "old ! i AND new ! i = new ! i"
proof -
  have "(old ! i, new ! i) \<in> set (zip old new)" using assms(2,3) by (auto simp: in_set_zip)
  with assms(1) show ?thesis by (auto simp: needs_erase_def list_ex_iff)
qed

text \<open>The bytes of the device after one sector has been (erased and) programmed.\<close>

lemma sector_result:
  assumes p: "p + e \<le> length c" and low: "low + length new \<le> e"
    and merged: "put (take e (drop p c)) low new = Some m" and trim: "trim_ones m = (w, k)"
    and base: "base = (if needs_erase (take (length new) (drop low (take e (drop p c)))) new
      then erased p e c else c)"
  shows "put c (p + low) new = Some (program (p + k) w base)"
proof -
  have lm: "length m = e" using put_length [OF merged] p by simp
  have lb: "length base = length c" using p by (simp add: base)
  obtain r where "m = replicate k 0xff @ w @ replicate r 0xff" using trim_ones_split [OF trim] by blast
  with lm have kw: "k + length w \<le> e" by auto
  obtain c' where c': "put c (p + low) new = Some c'" using p low by (simp add: put_def)
  have "c' = program (p + k) w base"
  proof (rule nth_equalityI)
    show len: "length c' = length (program (p + k) w base)"
      using put_length [OF c'] kw p lb by simp
    fix i assume "i < length c'"
    then have i: "i < length c" using put_length [OF c'] by simp
    have pn: "program (p + k) w base ! i =
        (if p + k \<le> i \<and> i < p + k + length w then base ! i AND w ! (i - (p + k)) else base ! i)"
      using program_nth [of "p + k" w base i] kw p lb i by simp
    have cn: "c' ! i = (if p + low \<le> i \<and> i < p + low + length new then new ! (i - (p + low)) else c ! i)"
      by (rule put_nth [OF c' i])
    show "c' ! i = program (p + k) w base ! i"
    proof (cases "p \<le> i \<and> i < p + e")
      case False
      then have "base ! i = c ! i" using erased_nth [OF p i] by (auto simp: base)
      with False pn cn kw low show ?thesis by auto
    next
      case True
      define j where "j = i - p"
      have j: "j < e" "i = p + j" using True by (auto simp: j_def)
      have mj: "m ! j = (if low \<le> j \<and> j < low + length new then new ! (j - low) else c ! i)"
        using put_nth [OF merged, of j] j p by simp
      have "program (p + k) w base ! i = base ! i AND m ! j"
        using trim_ones_nth [OF trim, of j] lm j pn and_ones by (auto simp: algebra_simps)
      also have "\<dots> = m ! j"
      proof (cases "needs_erase (take (length new) (drop low (take e (drop p c)))) new")
        case True
        then show ?thesis using erased_nth [OF p i] j ones_and by (simp add: base)
      next
        case False
        then have b: "base ! i = c ! i" by (simp add: base)
        show ?thesis
        proof (cases "low \<le> j \<and> j < low + length new")
          case True
          then have "j - low < length new" by linarith
          then have "c ! i AND new ! (j - low) = new ! (j - low)"
            using True not_needs_erase [OF False, of "j - low"] p low j by simp
          with True mj b show ?thesis by simp
        next
          case False
          with mj b show ?thesis by simp
        qed
      qed
      finally show ?thesis using mj cn j by auto
    qed
  qed
  with c' show ?thesis by simp
qed

lemma unat_u32_small: "n < 2147483648 \<Longrightarrow> unat (ucast (of_nat n :: u64) :: u32) = n"
proof -
  assume n: "n < 2147483648"
  have "unat (of_nat n :: u64) = n" using n by (intro unat_u64_of_nat) simp
  then show "unat (ucast (of_nat n :: u64) :: u32) = n"
    using n by (simp only: unsigned_ucast_eq) (simp add: take_bit_nat_eq_self)
qed

text \<open>One step of the loop, at a sector boundary \<open>p\<close>.\<close>

lemma write_sector_put:
  assumes nor: "nor_flash f contents ok k" and ok: "ok s" and p: "2 ^ k dvd p" "p + 2 ^ k \<le> length (contents s)"
    and low: "low < 2 ^ k" and n_def: "n = min (2 ^ k - low) (length data)"
  shows "\<exists>s'. flash_write_sector f (2 ^ k) (of_nat p) (of_nat low) data s = (Ok n, s') \<and> ok s' \<and>
    put (contents s) (p + low) (take n data) = Some (contents s')"
proof -
  let ?c = "contents s" and ?e = "2 ^ k :: nat" and ?new = "take n data"
  have k: "k < 31" and len: "length ?c < 2147483648" using nor_bounds [OF nor ok] by simp_all
  have e31: "?e < 2147483648" using power_strict_increasing [OF k, of "2 :: nat"] by simp
  have pow: "(2 ^ k :: u64) = of_nat ?e" by simp
  have e64: "unat (2 ^ k :: u64) = ?e" unfolding pow using e31 by (intro unat_u64_of_nat) simp
  have e32: "unat (ucast (2 ^ k :: u64) :: u32) = ?e" unfolding pow by (rule unat_u32_small [OF e31])
  have "unat (2 ^ k :: u32) = ?e" using unat_u32_of_nat [of ?e] e31 by simp
  then have e32': "(ucast (2 ^ k :: u64) :: u32) = 2 ^ k" using e32 by (simp only: word_unat_eq_iff)
  have up: "unat (ucast (of_nat p :: u64) :: u32) = p" using p(2) len by (intro unat_u32_small) simp
  have ulow: "unat (of_nat low :: u64) = low" using low e31 by (intro unat_u64_of_nat) simp
  have uel: "unat (2 ^ k - of_nat low :: u64) = ?e - low"
    using low by (simp add: unat_sub word_le_nat_alt e64 ulow)
  have ln: "length ?new = n" "low + n \<le> ?e" using low by (simp_all add: n_def)
  obtain s1 where s1: "flash_read f (ucast (of_nat p :: u64)) (ucast (2 ^ k :: u64)) s = (Ok (take ?e (drop p ?c)), s1)"
    "ok s1" "contents s1 = ?c"
    using nor_read [OF nor ok, of "ucast (of_nat p :: u64)" "ucast (2 ^ k :: u64)"] p(2) up e32 by auto
  let ?sec = "take ?e (drop p ?c)"
  have lsec: "length ?sec = ?e" using p(2) by simp
  have old: "slice ?sec low n = Some (take n (drop low ?sec))" using ln lsec by (simp add: slice_def)
  have "low + length ?new \<le> length ?sec" using ln lsec by simp
  then obtain m where m: "put ?sec low ?new = Some m" using put_Some_ex [of ?sec low ?new] by blast
  obtain w t where t: "trim_ones m = (w, t)" by (cases "trim_ones m")
  let ?er = "needs_erase (take n (drop low ?sec)) ?new"
  define base where "base = (if ?er then erased p ?e ?c else ?c)"
  obtain s2 where s2: "(if ?er then flash_erase f (ucast (of_nat p :: u64)) (ucast (2 ^ k :: u64)) else act_lift (Ok ())) s1 =
      (Ok (), s2)" "ok s2" "contents s2 = base"
  proof (cases ?er)
    case True
    have "\<exists>s'. flash_erase f (ucast (of_nat p :: u64)) (2 ^ k) s1 = (Ok (), s') \<and> ok s' \<and>
        contents s' = erased (unat (ucast (of_nat p :: u64) :: u32)) ?e (contents s1)"
      using nor_erase [OF nor s1(2), of "ucast (of_nat p :: u64)"] s1(3) p up by simp
    with True that e32' up s1(3) show ?thesis by (auto simp: base_def)
  next
    case False
    with that s1 show ?thesis by (auto simp: base_def act_lift_def)
  qed
  have lb: "length base = length ?c" using p(2) by (simp add: base_def)
  have put: "put ?c (p + low) ?new = Some (program (p + t) w base)"
    using sector_result [OF p(2), of low ?new m w t base] ln m t by (simp add: base_def)
  obtain r where r: "m = replicate t 0xff @ w @ replicate r 0xff" using trim_ones_split [OF t] by blast
  have lm: "length m = ?e" using put_length [OF m] lsec by simp
  with r have tw: "p + t + length w \<le> length ?c" using p(2) by simp
  have upt: "unat (ucast (of_nat p + of_nat t :: u64) :: u32) = p + t"
    using unat_u32_small [of "p + t"] tw len by simp
  obtain s3 where s3: "flash_write f w (ucast (of_nat p + of_nat t :: u64)) (of_nat (length w)) s2 = (Ok (), s3)" "ok s3"
    "contents s3 = program (p + t) w base"
    using nor_write [OF nor s2(2), of "ucast (of_nat p + of_nat t :: u64)" w] s2(3) tw upt lb by auto
  have "take ?e m = m" using lm by simp
  then have "flash_write_sector f (2 ^ k) (of_nat p) (of_nat low) data s = (Ok n, s3)"
    using s1(1) s2(1) s3(1) old m t
    by (simp add: flash_write_sector_def act_bind_def Let_def ulow uel e64 n_def [symmetric] act_lift_def)
  with s3 put show ?thesis by auto
qed

text \<open>The whole loop, from a sector boundary \<open>p\<close> to the boundary \<open>q\<close> that the request ends in.\<close>

lemma write_loop_put:
  assumes nor: "nor_flash f contents ok k"
  shows "ok s \<Longrightarrow> 2 ^ k dvd p \<Longrightarrow> 2 ^ k dvd q \<Longrightarrow> q \<le> length (contents s) \<Longrightarrow> p \<le> q \<Longrightarrow> low < 2 ^ k \<Longrightarrow>
      low + length data \<le> q - p \<Longrightarrow> q - p < low + length data + 2 ^ k \<Longrightarrow> q - p < fuel * 2 ^ k \<Longrightarrow>
    \<exists>s'. flash_write_loop fuel f (2 ^ k) (of_nat p) (of_nat q) (of_nat low) data s = (Ok (), s') \<and> ok s' \<and>
      put (contents s) (p + low) data = Some (contents s')"
proof (induction fuel arbitrary: s p low data)
  case (Suc fuel)
  let ?e = "2 ^ k :: nat"
  have len: "length (contents s) < 2147483648" using nor_bounds [OF nor Suc.prems(1)] by simp
  have pq: "(of_nat p :: u64) < of_nat q \<longleftrightarrow> p < q"
    using Suc.prems(4,5) len by (simp add: word_less_nat_alt unat_u64_of_nat)
  show ?case
  proof (cases "p < q")
    case False
    with Suc.prems(5,7,8) have "low = 0" "data = []" "p = q" by auto
    with pq Suc.prems(1,4) show ?thesis by (auto simp: act_lift_def put_def)
  next
    case True
    have "?e dvd q - p" using Suc.prems(2,3) by (rule dvd_diff_nat [rotated])
    with True have ge: "?e \<le> q - p" by (simp add: dvd_imp_le)
    define n where "n = min (?e - low) (length data)"
    have "p + ?e \<le> length (contents s)" using ge Suc.prems(4) True by linarith
    from write_sector_put [OF nor Suc.prems(1,2) this Suc.prems(6) n_def]
    obtain s1 where s1: "flash_write_sector f (2 ^ k) (of_nat p) (of_nat low) data s = (Ok n, s1)" "ok s1"
      "put (contents s) (p + low) (take n data) = Some (contents s1)" by auto
    have l1: "length (contents s1) = length (contents s)" by (rule put_length [OF s1(3)])
    have step: "(of_nat p :: u64) + 2 ^ k = of_nat (p + ?e)" by simp
    have rec: "0 + length (drop n data) \<le> q - (p + ?e)" "q - (p + ?e) < 0 + length (drop n data) + ?e"
      using Suc.prems(6,7,8) ge by (auto simp: n_def)
    have fuel: "q - (p + ?e) < fuel * ?e" using Suc.prems(9) ge by simp
    have "?e dvd p + ?e" using Suc.prems(2) by simp
    moreover have "q \<le> length (contents s1)" "p + ?e \<le> q" using Suc.prems(4) l1 ge True by auto
    ultimately obtain s2 where
      s2: "flash_write_loop fuel f (2 ^ k) (of_nat (p + ?e)) (of_nat q) (of_nat 0) (drop n data) s1 = (Ok (), s2)"
      "ok s2" "put (contents s1) (p + ?e + 0) (drop n data) = Some (contents s2)"
      using Suc.IH [OF s1(2) _ Suc.prems(3) _ _ _ rec fuel] by auto
    have "put (contents s) (p + low) data = Some (contents s2)"
    proof (cases "?e - low \<le> length data")
      case True
      then have n: "length (take n data) = n" "p + low + n = p + ?e" using Suc.prems(6) by (auto simp: n_def)
      have "of_opt (put (contents s) (p + low) data) = of_opt (put (contents s1) (p + low + n) (drop n data))"
        using put_append [of "contents s" "p + low" "take n data" "drop n data"] s1(3)
        by (simp only: n(1) append_take_drop_id of_opt.simps andthen.simps)
      then have "of_opt (put (contents s) (p + low) data) = Ok (contents s2)"
        using s2(3) by (simp only: n(2) add_0_right of_opt.simps)
      then show ?thesis by simp
    next
      case False
      then have n: "take n data = data" "drop n data = []" by (auto simp: n_def)
      then have "contents s2 = contents s1" using s2(3) by (auto simp: put_def split: if_splits)
      with s1(3) n show ?thesis by simp
    qed
    with s1(1) s2 pq True show ?thesis by (auto simp: act_bind_def step simp del: of_nat_add)
  qed
qed simp

text \<open>
  C21. On a NOR flash whose sector size is a power of two, \<open>flash_storage_write\<close> of any
  range inside the device succeeds and leaves the device with exactly the new bytes in the
  range and every other byte as it was, whatever had to be erased on the way; a range past
  the end is refused.
\<close>

theorem flash_storage_write_correct:
  assumes nor: "nor_flash f contents ok k" and ok: "ok s" and w: "no_wrap off n"
    and buf: "unat n \<le> length buf" and fuel: "length (contents s) < fuel * 2 ^ k"
  shows "\<exists>s'. ok s' \<and> (if unat off + unat n \<le> length (contents s)
    then flash_storage_write fuel f buf off n s = (Ok (), s') \<and>
      put (contents s) (unat off) (take (unat n) buf) = Some (contents s')
    else flash_storage_write fuel f buf off n s = (Err, s') \<and> contents s' = contents s)"
proof -
  let ?e = "2 ^ k :: nat" and ?c = "contents s"
  have k: "k < 31" and dvd: "?e dvd length ?c" and len: "length ?c < 2147483648"
    using nor_bounds [OF nor ok] by simp_all
  have e31: "?e < 2147483648" using power_strict_increasing [OF k, of "2 :: nat"] by simp
  obtain s1 where s1: "flash_size f s = (Ok (int (length ?c)), s1)" "ok s1" "contents s1 = ?c"
    using nor_size [OF nor ok] by blast
  have check: "off + n > word_of_int (int (length ?c)) \<longleftrightarrow> length ?c < unat off + unat n"
    using len by (simp add: word_less_nat_alt no_wrap_add [OF w] unat_u64_of_nat)
  show ?thesis
  proof (cases "unat off + unat n \<le> length ?c")
    case False
    with check s1 show ?thesis
      by (auto simp: flash_storage_write_def act_bind_def act_lift_def simp del: of_int_of_nat_eq)
  next
    case True
    obtain s2 where s2: "flash_erase_size f s1 = (Ok (2 ^ k), s2)" "ok s2" "contents s2 = ?c"
      using nor_erase_size [OF nor s1(2)] s1(3) by auto
    define p low q where "p = unat off div ?e * ?e" and "low = unat off mod ?e"
      and "q = p + (unat n + low + (?e - 1)) div ?e * ?e"
    have off: "unat off = p + low" using div_mult_mod_eq [of "unat off" ?e] by (simp only: p_def low_def)
    have low: "low < ?e" by (simp add: low_def)
    have pdvd: "?e dvd p" and qdvd: "?e dvd q" by (simp_all add: p_def q_def)
    define A R where "A = (unat n + low + (?e - 1)) div ?e * ?e" and "R = (unat n + low + (?e - 1)) mod ?e"
    have AR: "A + R = unat n + low + (?e - 1)" "R < ?e" "0 < ?e" "q = p + A"
      unfolding A_def R_def q_def by (rule div_mult_mod_eq) simp_all
    then have up: "q < unat off + unat n + ?e" "p \<le> q" "low + unat n \<le> q - p"
      unfolding off by linarith+
    have qlen: "q \<le> length ?c"
    proof -
      obtain a b where ab: "q = a * ?e" "length ?c = b * ?e" using qdvd dvd by (metis dvd_def mult.commute)
      then have "a * ?e < (b + 1) * ?e" using up(1) True by simp
      then have "a \<le> b" by (simp only: mult_less_cancel2) simp
      with ab show ?thesis by simp
    qed
    have mw: "(2 ^ k :: u64) - 1 = of_nat (?e - 1)" by (simp add: of_nat_diff)
    have "?e - 1 < 18446744073709551616" using e31 by linarith
    then have m: "unat ((2 ^ k :: u64) - 1) = ?e - 1"
      unfolding mw by (rule unat_u64_of_nat)
    have a1: "off AND NOT (2 ^ k - 1) = of_nat p"
    proof -
      have "unat (off AND NOT (2 ^ k - 1)) = p"
        unfolding p_def by (rule unat_align_down) (use k in simp)
      then show ?thesis by (metis of_nat_unat_same)
    qed
    have a2: "off - of_nat p = of_nat low"
      by (metis add_diff_cancel_left' of_nat_add off of_nat_unat_same)
    have sum: "unat (n + of_nat low + (2 ^ k - 1)) = unat n + low + (?e - 1)"
    proof -
      have l: "unat (of_nat low :: u64) = low" using low e31 by (intro unat_u64_of_nat) simp
      have w1: "no_wrap n (of_nat low)" using True len low e31 by (simp add: no_wrap_def l)
      then have "no_wrap (n + of_nat low) (2 ^ k - 1)"
        using True len low e31 by (simp add: no_wrap_def no_wrap_add l m)
      then show ?thesis by (simp only: no_wrap_add [OF w1] no_wrap_add l m)
    qed
    have a3: "of_nat p + ((n + of_nat low + (2 ^ k - 1)) AND NOT (2 ^ k - 1)) = (of_nat q :: u64)"
    proof -
      have "unat ((n + of_nat low + (2 ^ k - 1)) AND NOT (2 ^ k - 1)) = q - p"
        using unat_align_down [of k "n + of_nat low + (2 ^ k - 1)"] k by (simp only: sum) (simp add: q_def)
      then have "(n + of_nat low + (2 ^ k - 1)) AND NOT (2 ^ k - 1) = of_nat (q - p)"
        by (metis of_nat_unat_same)
      then have "of_nat p + ((n + of_nat low + (2 ^ k - 1)) AND NOT (2 ^ k - 1)) = (of_nat (p + (q - p)) :: u64)"
        by (simp only: of_nat_add)
      then show ?thesis using up(2) by simp
    qed
    have d: "slice buf 0 (unat n) = Some (take (unat n) buf)" using buf by (simp add: slice_def)
    obtain s3 where "flash_write_loop fuel f (2 ^ k) (of_nat p) (of_nat q) (of_nat low) (take (unat n) buf) s2 = (Ok (), s3)"
      "ok s3" "put ?c (p + low) (take (unat n) buf) = Some (contents s3)"
    proof -
      have "low + length (take (unat n) buf) \<le> q - p"
        "q - p < low + length (take (unat n) buf) + ?e" "q - p < fuel * ?e" "q \<le> length (contents s2)"
        using up buf off fuel qlen s2(3) by simp_all
      from write_loop_put [OF nor s2(2) pdvd qdvd this(4) up(2) low this(1,2,3)] that s2(3) show ?thesis by auto
    qed
    moreover have "flash_storage_write fuel f buf off n s =
        flash_write_loop fuel f (2 ^ k) (of_nat p) (of_nat q) (of_nat low) (take (unat n) buf) s2"
      using s1(1) s2(1) check True d power_of_two_check [of k]
      by (simp add: flash_storage_write_def act_bind_def Let_def a1 a2 a3)
    ultimately show ?thesis using True off by auto
  qed
qed

subsection \<open>Witness\<close>

text \<open>A simulated chip with sectors of \<open>2 ^ k\<close> bytes.\<close>

definition sim_nor :: "nat \<Rightarrow> bytes flash_ops" where
  "sim_nor k = \<lparr>
     fo_read = (\<lambda>off n c. (of_opt (slice c (unat off) (unat n)), c)),
     fo_write = (\<lambda>buf off n c.
       if unat off + length buf \<le> length c then (Ok (), program (unat off) buf c) else (Err, c)),
     fo_erase_size = (\<lambda>c. (Ok (2 ^ k), c)),
     fo_erase = (\<lambda>off n c. (Ok (), erased (unat off) (2 ^ k) c)),
     fo_size = (\<lambda>c. (Ok (int (length c)), c))\<rparr>"

lemma sim_nor_flash:
  "k < 31 \<Longrightarrow> nor_flash (sim_nor k) (\<lambda>c. c) (\<lambda>c. 2 ^ k dvd length c \<and> length c < 2147483648) k"
  by (simp add: nor_flash_def sim_nor_def flash_read_def flash_write_def flash_erase_def
      flash_size_def flash_erase_size_def slice_def)

theorem flash_storage_write_correct_witness:
  "flash_storage_write 9 (sim_nor 2) [7, 0xff, 9] 3 3 ([0, 0, 0, 0] @ [1, 2, 0xff, 4]) =
     (Ok (), [0, 0, 0, 7, 0xff, 9, 0xff, 4])"
proof -
  let ?c = "[0, 0, 0, 0] @ [1, 2, 0xff, 4] :: bytes"
  have c: "length ?c = 8" by simp
  then have ok: "2 ^ 2 dvd length ?c \<and> length ?c < 2147483648" unfolding c by simp
  have h: "no_wrap 3 3" "unat (3 :: u64) \<le> length [7, 0xff, 9 :: u8]" "length ?c < 9 * 2 ^ 2"
    by (simp_all add: no_wrap_def)
  have "put ?c 3 (take 3 [7, 0xff, 9]) = Some [0, 0, 0, 7, 0xff, 9, 0xff, 4]" by (simp add: put_def)
  with flash_storage_write_correct [OF sim_nor_flash [of 2] ok h] show ?thesis by (auto simp: c)
qed

end
