(* ===== verification/SpiFlash.thy ===== *)
theory SpiFlash
  imports Flash
begin

text \<open>
  \<^verbatim>\<open>src/src/drivers/flash/spi.c\<close>: the SPI NOR driver.  The bus controller (\<open>SpiOps\<close>, one
  driver per chipset) and the clock are parameters: operations on their own state, the
  chip behind the bus included.  Loops that wait take fuel.
\<close>

record 'b spi_bus =
  sp_start :: "('b, unit) act"
  sp_stop :: "('b, unit) act"
  sp_send :: "bytes \<Rightarrow> ('b, unit) act"
  sp_receive :: "u32 \<Rightarrow> ('b, bytes) act"
  sp_time :: "('b, u64) act"
  sp_udelay :: "nat \<Rightarrow> ('b, unit) act"

record 'b spi_flash =
  sf_bus :: 'b
  sf_cache :: bytes
  sf_erase_cmd :: u8
  sf_sector_size :: u32
  sf_rom_size :: u32
  sf_last_command_time :: u64

definition ReadCommand :: u32 where
  "ReadCommand = 3"

definition ReadSr1Command :: u8 where
  "ReadSr1Command = 5"

definition WriteCommand :: u32 where
  "WriteCommand = 2"

definition WriteEnableCommand :: u8 where
  "WriteEnableCommand = 6"

definition on_bus :: "('b, 'a) act \<Rightarrow> ('b spi_flash, 'a) act" where
  "on_bus m = focus sf_bus (\<lambda>b st. st\<lparr>sf_bus := b\<rparr>) m"

text \<open>\<open>time_us(start)\<close>: the microseconds since \<open>start\<close>.\<close>

definition time_us :: "'b spi_bus \<Rightarrow> u64 \<Rightarrow> ('b spi_flash, u64) act" where
  "time_us ops start = act_bind (on_bus (sp_time ops)) (\<lambda>t. act_lift (Ok (t - start)))"

fun wait_10us :: "nat \<Rightarrow> 'b spi_bus \<Rightarrow> ('b spi_flash, unit) act" where
  "wait_10us 0 ops st = (Fault Diverges, st)"
| "wait_10us (Suc fuel) ops st =
     act_bind (time_us ops (sf_last_command_time st)) (\<lambda>t.
       if t < 10 then wait_10us fuel ops else act_lift (Ok ())) st"

definition spi_flash_start :: "nat \<Rightarrow> 'b spi_bus \<Rightarrow> ('b spi_flash, unit) act" where
  "spi_flash_start fuel ops = act_bind (wait_10us fuel ops) (\<lambda>_. on_bus (sp_start ops))"

definition spi_flash_stop :: "'b spi_bus \<Rightarrow> ('b spi_flash, unit) act" where
  "spi_flash_stop ops = act_bind (time_us ops 0) (\<lambda>t st.
     on_bus (sp_stop ops) (st\<lparr>sf_last_command_time := t\<rparr>))"

text \<open>
  Run the transfers between start and stop; if one fails, stop and report the failure.
\<close>

definition spi_session :: "nat \<Rightarrow> 'b spi_bus \<Rightarrow> ('b spi_flash, 'a) act \<Rightarrow> ('b spi_flash, 'a) act" where
  "spi_session fuel ops body = act_bind (spi_flash_start fuel ops) (\<lambda>_ st.
     case body st of
       (Ok x, st') \<Rightarrow> act_bind (spi_flash_stop ops) (\<lambda>_. act_lift (Ok x)) st'
     | (Err, st') \<Rightarrow> act_bind (\<lambda>s. case spi_flash_stop ops s of (Fault e, s') \<Rightarrow> (Fault e, s')
                      | (_, s') \<Rightarrow> (Ok (), s')) (\<lambda>_. act_lift Err) st'
     | (Fault e, st') \<Rightarrow> (Fault e, st'))"

definition spi_flash_command :: "nat \<Rightarrow> 'b spi_bus \<Rightarrow> bytes \<Rightarrow> ('b spi_flash, unit) act" where
  "spi_flash_command fuel ops cmd = spi_session fuel ops (on_bus (sp_send ops cmd))"

definition spi_flash_read_command :: "nat \<Rightarrow> 'b spi_bus \<Rightarrow> bytes \<Rightarrow> u32 \<Rightarrow> ('b spi_flash, bytes) act" where
  "spi_flash_read_command fuel ops cmd n =
     spi_session fuel ops (act_bind (on_bus (sp_send ops cmd)) (\<lambda>_. on_bus (sp_receive ops n)))"

text \<open>\<open>buf\<close> is the caller's buffer from its pointer on; \<open>n\<close> bytes of it are sent.\<close>

definition spi_flash_write_command ::
  "nat \<Rightarrow> 'b spi_bus \<Rightarrow> bytes \<Rightarrow> bytes \<Rightarrow> u32 \<Rightarrow> ('b spi_flash, unit) act" where
  "spi_flash_write_command fuel ops cmd buf n =
     spi_session fuel ops (act_bind (on_bus (sp_send ops cmd)) (\<lambda>_.
       act_bind (act_lift (of_opt (slice buf 0 (unat n)))) (\<lambda>xs. on_bus (sp_send ops xs))))"

fun wip_loop :: "nat \<Rightarrow> 'b spi_bus \<Rightarrow> u64 \<Rightarrow> ('b spi_flash, unit) act" where
  "wip_loop 0 ops start = act_lift (Fault Diverges)"
| "wip_loop (Suc fuel) ops start =
     act_bind (spi_flash_read_command fuel ops [ReadSr1Command] 1) (\<lambda>status.
       if hd status AND 1 = 0 then act_lift (Ok ())
       else act_bind (time_us ops start) (\<lambda>t.
         if t > 2000000 then act_lift Err
         else act_bind (on_bus (sp_udelay ops 10)) (\<lambda>_. wip_loop fuel ops start)))"

definition wait_for_wip :: "nat \<Rightarrow> 'b spi_bus \<Rightarrow> ('b spi_flash, unit) act" where
  "wait_for_wip fuel ops = act_bind (time_us ops 0) (\<lambda>start. wip_loop fuel ops start)"

definition spi_flash_read :: "nat \<Rightarrow> 'b spi_bus \<Rightarrow> u32 \<Rightarrow> u32 \<Rightarrow> ('b spi_flash, bytes) act" where
  "spi_flash_read fuel ops offset n st =
     (if \<not> offset + n \<le> sf_rom_size st then (Fault AssertFail, st)
      else act_bind (spi_flash_read_command fuel ops (htobe32 (push_bit 24 ReadCommand OR offset)) n)
        (\<lambda>bs st. case put (sf_cache st) (unat offset) bs of
           None \<Rightarrow> (Fault OutOfBounds, st)
         | Some c \<Rightarrow> (Ok bs, st\<lparr>sf_cache := c\<rparr>)) st)"

fun spi_write_loop :: "nat \<Rightarrow> 'b spi_bus \<Rightarrow> bytes \<Rightarrow> u32 \<Rightarrow> u32 \<Rightarrow> ('b spi_flash, unit) act" where
  "spi_write_loop 0 ops buf offset n = act_lift (Fault Diverges)"
| "spi_write_loop (Suc fuel) ops buf offset n =
     (if n = 0 then act_lift (Ok ())
      else (let write_size = 256 - (n AND NOT 255);
                command = htobe32 (push_bit 24 WriteCommand OR offset)
            in act_bind (spi_flash_command fuel ops [WriteEnableCommand]) (\<lambda>_.
               act_bind (spi_flash_write_command fuel ops command buf write_size) (\<lambda>_.
               act_bind (wait_for_wip fuel ops) (\<lambda>_.
                 spi_write_loop fuel ops (drop (unat write_size) buf) (offset + write_size) (n - write_size))))))"

definition spi_flash_write :: "nat \<Rightarrow> 'b spi_bus \<Rightarrow> bytes \<Rightarrow> u32 \<Rightarrow> u32 \<Rightarrow> ('b spi_flash, unit) act" where
  "spi_flash_write fuel ops buf offset n st =
     (if \<not> offset + n \<le> sf_rom_size st then (Fault AssertFail, st)
      else spi_write_loop fuel ops buf offset n st)"

definition spi_flash_erase_size :: "('b spi_flash, int) act" where
  "spi_flash_erase_size st = (Ok (sint (sf_sector_size st)), st)"

fun spi_erase_loop :: "nat \<Rightarrow> 'b spi_bus \<Rightarrow> u32 \<Rightarrow> u32 \<Rightarrow> ('b spi_flash, unit) act" where
  "spi_erase_loop 0 ops offset n st = (Fault Diverges, st)"
| "spi_erase_loop (Suc fuel) ops offset n st =
     (if offset < n
      then act_bind (spi_flash_command fuel ops [WriteEnableCommand]) (\<lambda>_.
           act_bind (spi_flash_command fuel ops
             (htobe32 (push_bit 24 (ucast (sf_erase_cmd st)) OR offset))) (\<lambda>_.
           act_bind (wait_for_wip fuel ops) (\<lambda>_.
             spi_erase_loop fuel ops (offset + sf_sector_size st) n))) st
      else (Ok (), st))"

definition spi_flash_erase :: "nat \<Rightarrow> 'b spi_bus \<Rightarrow> u32 \<Rightarrow> u32 \<Rightarrow> ('b spi_flash, unit) act" where
  "spi_flash_erase fuel ops start n st =
     (if \<not> start + n \<le> sf_rom_size st then (Fault AssertFail, st)
      else if start mod sf_sector_size st \<noteq> 0 \<or> n mod sf_sector_size st \<noteq> 0 then (Err, st)
      else spi_erase_loop fuel ops 0 n st)"

definition spi_flash_size :: "('b spi_flash, int) act" where
  "spi_flash_size st = (Ok (sint (sf_rom_size st)), st)"

definition spi_flash_ops :: "nat \<Rightarrow> 'b spi_bus \<Rightarrow> 'b spi_flash flash_ops" where
  "spi_flash_ops fuel ops = \<lparr>fo_read = spi_flash_read fuel ops, fo_write = spi_flash_write fuel ops,
     fo_erase_size = spi_flash_erase_size, fo_erase = spi_flash_erase fuel ops, fo_size = spi_flash_size\<rparr>"

text \<open>The geometry comes from the coreboot tables; the ROM must be whole sectors.\<close>

definition new_spi_flash :: "'b \<Rightarrow> (nat \<Rightarrow> bytes) \<Rightarrow> u32 \<Rightarrow> u32 \<Rightarrow> u8 \<Rightarrow> 'b spi_flash res" where
  "new_spi_flash bus alloc rom_size sector_size erase_cmd =
     (if unat rom_size \<noteq> align_down (unat rom_size) (unat sector_size) then Fault AssertFail
      else Ok \<lparr>sf_bus = bus, sf_cache = alloc (unat rom_size), sf_erase_cmd = erase_cmd,
               sf_sector_size = sector_size, sf_rom_size = rom_size, sf_last_command_time = 0\<rparr>)"

subsection \<open>Programming\<close>

lemma act_bind_fst_Ok: "fst (act_bind m f s) = Ok y \<Longrightarrow> \<exists>x s'. m s = (Ok x, s') \<and> fst (f x s') = Ok y"
  by (auto simp: act_bind_def split: prod.splits res.splits)

lemma write_command_needs_buffer:
  "fst (spi_flash_write_command fuel ops cmd buf n s) = Ok y \<Longrightarrow> unat n \<le> length buf"
  unfolding spi_flash_write_command_def spi_session_def
  by (auto dest!: act_bind_fst_Ok simp: act_bind_def act_lift_def slice_def
      split: prod.splits res.splits if_splits option.splits)


lemma write_size_value:
  fixes n :: u32
  assumes "0 < unat n" and "unat n \<le> 2147483648"
  shows "if unat n < 256 then unat (256 - (n AND NOT 255)) = 256
    else if unat n < 512 then 256 - (n AND NOT 255) = 0
    else unat n < unat (256 - (n AND NOT 255))"
proof -
  define q where "q = n AND NOT 255"
  have q: "unat q = unat n div 256 * 256" using unat_align_down [of 8 n] by (simp add: q_def)
  consider "unat n < 256" | "256 \<le> unat n" "unat n < 512" | "512 \<le> unat n" by linarith
  then have "if unat n < 256 then unat (256 - q) = 256
    else if unat n < 512 then 256 - q = 0 else unat n < unat (256 - q)"
  proof cases
    case 1
    then have "q = 0" using q by (simp add: unat_eq_zero)
    with 1 show ?thesis by simp
  next
    case 2
    then have "unat n div 256 = 1" by (simp add: div_nat_eqI)
    then have "q = 256" using q by (intro word_unat_eq_iff [THEN iffD2]) simp
    with 2 show ?thesis by simp
  next
    case 3
    then have "512 \<le> unat q" using q by (simp add: div_le_mono [of 512 "unat n" 256, simplified])
    moreover have "unat q \<le> 2147483648" using q assms(2) by simp
    ultimately have "unat (256 - q) = 4294967296 + 256 - unat q"
      by (simp add: unat_sub_if' )
    with 3 assms(2) \<open>unat q \<le> 2147483648\<close> show ?thesis by simp
  qed
  then show ?thesis by (simp only: q_def)
qed

lemma spi_write_loop_never_Ok:
  "0 < unat n \<Longrightarrow> unat n \<le> 2147483648 \<Longrightarrow> length buf \<le> unat n \<Longrightarrow>
     fst (spi_write_loop fuel ops buf offset n s) \<noteq> Ok y"
proof (induction fuel arbitrary: s)
  case 0
  then show ?case by (simp add: act_lift_def)
next
  case (Suc fuel)
  let ?w = "256 - (n AND NOT 255)"
  have n0: "n \<noteq> 0" using Suc.prems(1) by auto
  show ?case
  proof
    assume "fst (spi_write_loop (Suc fuel) ops buf offset n s) = Ok y"
    then obtain s1 cmd where w: "fst (spi_flash_write_command fuel ops cmd buf ?w s1) = Ok ()"
      and rest: "\<exists>s2. fst (spi_write_loop fuel ops (drop (unat ?w) buf) (offset + ?w) (n - ?w) s2) = Ok y"
      using n0 by (auto simp: Let_def dest!: act_bind_fst_Ok) (metis fst_conv)
    from write_command_needs_buffer [OF w] Suc.prems(3) have "unat ?w \<le> unat n" by simp
    with write_size_value [OF Suc.prems(1,2)] have "?w = 0"
      by (auto split: if_splits)
    with rest Suc.IH [OF Suc.prems] show False by auto
  qed
qed

text \<open>
  C34. The driver cannot program anything: whatever the bus and the chip do, a write of a
  non-empty buffer never returns success.  The chunk size is computed from the bytes left
  instead of the offset: it is 256 below a page (past the end of the buffer), 0 between one
  page and two (no progress), and wraps above that.
\<close>

theorem spi_flash_write_never_succeeds:
  assumes "0 < unat n" and "unat n \<le> 2147483648" and "length buf = unat n"
  shows "fst (spi_flash_write fuel ops buf offset n st) \<noteq> Ok ()"
  using spi_write_loop_never_Ok [OF assms(1,2), of buf fuel ops offset st "()"] assms(3) by (simp add: spi_flash_write_def)

text \<open>
  Erasing sends the same commands, and erases the same sectors, from address 0 on,
  whatever the start address it is given: the start is only checked.
\<close>

theorem spi_flash_erase_ignores_start:
  assumes "start mod sf_sector_size st = 0" and "start + n \<le> sf_rom_size st"
    and "start' mod sf_sector_size st = 0" and "start' + n \<le> sf_rom_size st"
  shows "spi_flash_erase fuel ops start n st = spi_flash_erase fuel ops start' n st"
  using assms by (simp add: spi_flash_erase_def)

text \<open>A bus that accepts everything, with a chip that is never busy and a clock that runs.\<close>

definition quiet_bus :: "(u64 \<times> bytes list) spi_bus" where
  "quiet_bus = \<lparr>sp_start = (\<lambda>b. (Ok (), b)), sp_stop = (\<lambda>b. (Ok (), b)),
     sp_send = (\<lambda>x (t, log). (Ok (), (t, log @ [x]))),
     sp_receive = (\<lambda>n b. (Ok (replicate (unat n) 0), b)),
     sp_time = (\<lambda>(t, log). (Ok t, (t + 20, log))), sp_udelay = (\<lambda>n b. (Ok (), b))\<rparr>"

definition quiet_flash :: "(u64 \<times> bytes list) spi_flash" where
  "quiet_flash = \<lparr>sf_bus = (0, []), sf_cache = [], sf_erase_cmd = 0x20, sf_sector_size = 4096,
     sf_rom_size = 65536, sf_last_command_time = 0\<rparr>"

theorem spi_flash_write_never_succeeds_witness:
  "fst (spi_flash_write 50 quiet_bus [1, 2, 3] 0 3 quiet_flash) \<noteq> Ok ()"
  by (rule spi_flash_write_never_succeeds) simp_all

theorem spi_flash_erase_ignores_start_witness:
  "spi_flash_erase 50 quiet_bus 8192 4096 quiet_flash = spi_flash_erase 50 quiet_bus 0 4096 quiet_flash"
  by (rule spi_flash_erase_ignores_start) (simp_all add: quiet_flash_def)

end
