(* ===== verification/DcDir.thy ===== *)
theory DcDir
  imports Storage
begin

text \<open>
  \<^verbatim>\<open>src/src/base/dcdir.c\<close>: directories of named regions in an image, and the structures of
  \<^verbatim>\<open>src/src/base/dcdir_structs.h\<close>.  A directory table is a header of 8 bytes and entries, each
  a name of 8 bytes and a pointer of \<open>8 * (size + 1)\<close>.
\<close>

record dcdir =
  dd_base :: u32
  dd_offset :: u32

record dcdir_region =
  dr_offset :: u32
  dr_size :: u32

definition DcDirAnchorSignature :: bytes where
  "DcDirAnchorSignature = str ''DC DIR''"

definition DcDirDirectorySignature :: bytes where
  "DcDirDirectorySignature = str ''DCDR''"

definition le24 :: "bytes \<Rightarrow> u32" where
  "le24 bs = word_of_nat (le_val (take 3 bs))"

definition dcdir_open_root :: "'s storage_ops \<Rightarrow> u32 \<Rightarrow> ('s, dcdir) act" where
  "dcdir_open_root stg anchor_offset =
     act_bind (storage_read stg (ucast anchor_offset) 16) (\<lambda>anchor.
     act_bind (act_lift (default_memcmp anchor DcDirAnchorSignature 6)) (\<lambda>r.
       if r \<noteq> 0 then act_lift Err
       else if anchor ! 6 \<noteq> 1 then act_lift Err
       else if le32 (take 4 (drop 8 anchor)) \<noteq> anchor_offset then act_lift Err
       else act_lift (Ok \<lparr>dd_base = le32 (take 4 (drop 12 anchor)), dd_offset = anchor_offset + 16\<rparr>)))"

text \<open>
  The search: \<open>ps\<close> is the table read from the image, \<open>pos\<close> the position of \<open>pointers\<close> in
  it, \<open>left\<close> the variable \<open>size\<close>.  The size of an entry subtracted from \<open>left\<close> is that of its
  pointer alone.  The result is the copy of the pointer.
\<close>

function dcdir_find_loop :: "bytes \<Rightarrow> bytes \<Rightarrow> nat \<Rightarrow> nat \<Rightarrow> int \<Rightarrow> bytes res" where
  "dcdir_find_loop ps name nlen pos left =
     (if left > 0 then
        (case rd ps (pos + 8 + 1) of None \<Rightarrow> Fault OutOfBounds
         | Some sz \<Rightarrow>
             (let ptr_size = (unat sz + 1) * 8; name_len = min nlen 8
              in andthen (default_memcmp name (drop pos ps) name_len) (\<lambda>r.
                   if r = 0 then of_opt (slice ps (pos + 8) ptr_size)
                   else dcdir_find_loop ps name nlen (pos + 8 + ptr_size) (left - int ptr_size))))
      else Err)"
  by pat_completeness auto

termination
  by (relation "measure (\<lambda>(ps, name, nlen, pos, left). nat left)")
    (auto intro: order.strict_trans2 [OF _ uint_ge_0])

declare dcdir_find_loop.simps [simp del]

definition dcdir_find_in_dir :: "dcdir \<Rightarrow> 's storage_ops \<Rightarrow> bytes \<Rightarrow> ('s, bytes) act" where
  "dcdir_find_in_dir dir stg name =
     act_bind (storage_read stg (ucast (dd_offset dir)) 8) (\<lambda>header.
     act_bind (act_lift (default_memcmp header DcDirDirectorySignature 4)) (\<lambda>r.
       if r \<noteq> 0 then act_lift Err
       else (let left = (int (le_val (take 3 (drop 5 header))) + 1) * 8 - 8 in
         if left < 0 then act_lift Err
         else act_bind (storage_read stg (ucast (dd_offset dir) + 8) (word_of_int left)) (\<lambda>ps.
           act_bind (act_lift (strlen (Some name))) (\<lambda>nlen.
             act_lift (dcdir_find_loop ps name nlen 0 left))))))"

definition parent_offset :: "dcdir \<Rightarrow> u32" where
  "parent_offset d = dd_offset d - dd_base d"

definition ptr_field :: "bytes \<Rightarrow> nat \<Rightarrow> nat \<Rightarrow> bytes res" where
  "ptr_field ptr off n = of_opt (slice ptr off n)"

text \<open>
  The two kinds of pointer: 24-bit offset and length in the 8 bytes of the generic pointer,
  or 32-bit base, offset and length in 16 bytes; lengths are stored minus one.
\<close>

definition dcdir_open_dir_raw ::
  "'s storage_ops \<Rightarrow> dcdir \<Rightarrow> bytes \<Rightarrow> ('s, dcdir \<times> dcdir_region) act" where
  "dcdir_open_dir_raw stg parent name =
     act_bind (dcdir_find_in_dir parent stg name) (\<lambda>ptr. act_lift (
       if ptr ! 0 AND 1 = 0 then Err
       else if drop_bit 1 (ptr ! 0) = 1 then
         andthen (ptr_field ptr 2 3) (\<lambda>off. andthen (ptr_field ptr 5 3) (\<lambda>len.
           (let o1 = parent_offset parent + le24 off
            in Ok (\<lparr>dd_base = 0, dd_offset = o1\<rparr>, \<lparr>dr_offset = o1, dr_size = le24 len + 1\<rparr>))))
       else if drop_bit 1 (ptr ! 0) = 2 then
         andthen (ptr_field ptr 4 4) (\<lambda>base. andthen (ptr_field ptr 8 4) (\<lambda>off.
         andthen (ptr_field ptr 12 4) (\<lambda>len.
           (let o1 = parent_offset parent + le32 off + le32 base
            in Ok (\<lparr>dd_base = le32 base, dd_offset = o1\<rparr>, \<lparr>dr_offset = o1, dr_size = le32 len + 1\<rparr>)))))
       else Err))"

definition dcdir_open_dir :: "'s storage_ops \<Rightarrow> dcdir \<Rightarrow> bytes \<Rightarrow> ('s, dcdir) act" where
  "dcdir_open_dir stg parent name =
     act_bind (dcdir_open_dir_raw stg parent name) (\<lambda>(d, raw). act_lift (Ok d))"

definition dcdir_open_region :: "'s storage_ops \<Rightarrow> dcdir \<Rightarrow> bytes \<Rightarrow> ('s, dcdir_region) act" where
  "dcdir_open_region stg parent name =
     act_bind (dcdir_find_in_dir parent stg name) (\<lambda>ptr. act_lift (
       if ptr ! 0 AND 1 \<noteq> 0 then Err
       else if drop_bit 1 (ptr ! 0) = 1 then
         andthen (ptr_field ptr 2 3) (\<lambda>off. andthen (ptr_field ptr 5 3) (\<lambda>len.
           Ok \<lparr>dr_offset = parent_offset parent + le24 off, dr_size = le24 len + 1\<rparr>))
       else if drop_bit 1 (ptr ! 0) = 2 then
         andthen (ptr_field ptr 8 4) (\<lambda>off. andthen (ptr_field ptr 12 4) (\<lambda>len.
           Ok \<lparr>dr_offset = parent_offset parent + le32 off, dr_size = le32 len + 1\<rparr>))
       else Err))"

subsection \<open>Well-formed directories\<close>

text \<open>
  An entry is a name of 8 bytes, padded, and a pointer that holds its own size; a directory
  is the concatenation of its entries.
\<close>

type_synonym dc_entry = "bytes \<times> bytes"

definition entry_ok :: "dc_entry \<Rightarrow> bool" where
  "entry_ok e \<longleftrightarrow> length (fst e) = 8 \<and> 8 \<le> length (snd e) \<and>
     length (snd e) = (unat (snd e ! 1) + 1) * 8"

definition table_bytes :: "dc_entry list \<Rightarrow> bytes" where
  "table_bytes es = concat (map (\<lambda>e. fst e @ snd e) es)"

text \<open>The comparison: only the characters of the name that is looked for are compared.\<close>

definition entry_matches :: "bytes \<Rightarrow> dc_entry \<Rightarrow> bool" where
  "entry_matches name e \<longleftrightarrow> take (min (length name) 8) (fst e) = take 8 name"

lemma table_bytes_simps [simp]:
  "table_bytes [] = []" "table_bytes (e # es) = fst e @ snd e @ table_bytes es"
  by (simp_all add: table_bytes_def)

lemma ptr_sizes_le: "\<forall>e \<in> set es. entry_ok e \<Longrightarrow> sum_list (map (\<lambda>e. length (snd e)) es) + 8 * length es = length (table_bytes es)"
  by (induction es) (auto simp: entry_ok_def)

lemma find_loop_table:
  assumes "\<forall>e \<in> set es. entry_ok e" and "0 \<notin> set name" and "pos = length pre"
    and "int (sum_list (map (\<lambda>e. length (snd e)) es)) < left"
  shows "dcdir_find_loop (pre @ table_bytes es) (name @ 0 # r) (length name) pos left =
    (case find (entry_matches name) es of Some e \<Rightarrow> Ok (snd e) | None \<Rightarrow> Fault OutOfBounds)"
  using assms
proof (induction es arbitrary: pre pos left)
  case Nil
  then show ?case by (simp add: dcdir_find_loop.simps rd_def)
next
  case (Cons e es)
  let ?ps = "pre @ table_bytes (e # es)"
  have e: "length (fst e) = 8" "8 \<le> length (snd e)" "length (snd e) = (unat (snd e ! 1) + 1) * 8"
    using Cons.prems(1) by (auto simp: entry_ok_def)
  have left: "0 < left" using Cons.prems(4) by auto
  have sz: "rd ?ps (pos + 8 + 1) = Some (snd e ! 1)"
    using e Cons.prems(3) by (simp add: rd_def nth_append)
  have ps: "drop pos ?ps = fst e @ snd e @ table_bytes es" using Cons.prems(3) by simp
  have len: "min (length name) 8 \<le> length (name @ 0 # r)"
      "min (length name) 8 \<le> length (fst e @ snd e @ table_bytes es)"
    using e by simp_all
  obtain c where c: "default_memcmp (name @ 0 # r) (drop pos ?ps) (min (length name) 8) = Ok c"
    "c = 0 \<longleftrightarrow> entry_matches name e"
    unfolding ps using default_memcmp_equal [OF len] e(1)
    by (auto simp: entry_matches_def min_def split: if_splits)
  show ?case
  proof (cases "entry_matches name e")
    case True
    have "slice ?ps (pos + 8) (length (snd e)) = Some (snd e)"
      using slice_append_mid [of "pos + 8" "pre @ fst e" "length (snd e)" "snd e" "table_bytes es"] e Cons.prems(3)
      by simp
    then show ?thesis
      using left sz c True e(3) by (simp add: dcdir_find_loop.simps [of _ _ _ pos] Let_def del: append_assoc)
  next
    case False
    have rest: "int (sum_list (map (\<lambda>e. length (snd e)) es)) < left - int (length (snd e))"
      using Cons.prems(4) by simp
    have "dcdir_find_loop ((pre @ fst e @ snd e) @ table_bytes es) (name @ 0 # r) (length name)
        (pos + 8 + length (snd e)) (left - int (length (snd e))) =
      (case find (entry_matches name) es of Some e \<Rightarrow> Ok (snd e) | None \<Rightarrow> Fault OutOfBounds)"
      using Cons.prems e rest by (intro Cons.IH) auto
    moreover have "dcdir_find_loop ?ps (name @ 0 # r) (length name) pos left =
      dcdir_find_loop ?ps (name @ 0 # r) (length name) (pos + 8 + length (snd e)) (left - int (length (snd e)))"
      using left sz c False e(3) by (subst dcdir_find_loop.simps) (simp add: Let_def)
    ultimately show ?thesis using False by simp
  qed
qed

definition dir_at :: "bytes \<Rightarrow> nat \<Rightarrow> dc_entry list \<Rightarrow> bool" where
  "dir_at c off es \<longleftrightarrow> (\<forall>e \<in> set es. entry_ok e) \<and> length (table_bytes es) < 134217728 \<and>
     slice c off (8 + length (table_bytes es)) =
       Some (DcDirDirectorySignature @ [0] @ le_bytes 3 (length (table_bytes es) div 8) @ table_bytes es)"

definition lookup_result :: "bytes \<Rightarrow> dc_entry list \<Rightarrow> bytes res" where
  "lookup_result name es =
     (case find (entry_matches name) es of Some e \<Rightarrow> Ok (snd e)
      | None \<Rightarrow> if es = [] then Err else Fault OutOfBounds)"

lemma table_bytes_8: "\<forall>e \<in> set es. entry_ok e \<Longrightarrow> 8 dvd length (table_bytes es)"
  by (induction es) (auto simp: entry_ok_def)

lemma dir_at_parts:
  assumes "dir_at c off es"
  shows "slice c off 8 = Some (DcDirDirectorySignature @ [0] @ le_bytes 3 (length (table_bytes es) div 8))"
    and "slice c (off + 8) (length (table_bytes es)) = Some (table_bytes es)"
proof -
  let ?h = "DcDirDirectorySignature @ [0] @ le_bytes 3 (length (table_bytes es) div 8)"
  have h: "length ?h = 8" by (simp add: DcDirDirectorySignature_def str_def)
  have d: "off + (8 + length (table_bytes es)) \<le> length c"
    "take (8 + length (table_bytes es)) (drop off c) = ?h @ table_bytes es"
    using assms by (auto simp: dir_at_def slice_def split: if_splits)
  have "take 8 (drop off c) = take 8 (take (8 + length (table_bytes es)) (drop off c))" by simp
  also have "\<dots> = ?h" unfolding d(2) using h by (simp only: take_append) simp
  finally show "slice c off 8 = Some ?h" using d(1) by (simp add: slice_def)
  have "take (length (table_bytes es)) (drop 8 (drop off c)) =
      drop 8 (take (8 + length (table_bytes es)) (drop off c))" by (simp add: drop_take)
  also have "\<dots> = table_bytes es" unfolding d(2) using h by (simp only: drop_append) simp
  finally show "slice c (off + 8) (length (table_bytes es)) = Some (table_bytes es)"
    using d(1) by (simp add: slice_def add.commute)
qed

context readable_storage
begin

lemma find_in_dir_lookup:
  assumes ok: "ok s" and dir: "dir_at (contents s) (unat (dd_offset d)) es" and nz: "0 \<notin> set name"
  shows "\<exists>s'. dcdir_find_in_dir d ops (name @ 0 # r) s = (lookup_result name es, s') \<and> ok s' \<and>
    contents s' = contents s"
proof -
  let ?off = "ucast (dd_offset d) :: u64" and ?t = "table_bytes es"
  have es: "\<forall>e \<in> set es. entry_ok e" and small: "length ?t < 134217728" using dir by (auto simp: dir_at_def)
  note parts = dir_at_parts [OF dir]
  let ?h = "DcDirDirectorySignature @ [0] @ le_bytes 3 (length ?t div 8)"
  have w1: "no_wrap ?off 8" using unat_u32_less [of "dd_offset d"] by (simp add: no_wrap_def)
  obtain s1 where s1: "storage_read ops ?off 8 s = (Ok ?h, s1)" "ok s1" "contents s1 = contents s"
    using read_cases [OF ok w1] parts(1) by auto
  have cmp: "default_memcmp ?h DcDirDirectorySignature 4 = Ok 0"
    using default_memcmp_equal [of 4 ?h DcDirDirectorySignature]
    by (simp add: DcDirDirectorySignature_def str_def)
  have fld: "take 3 (drop 5 ?h) = le_bytes 3 (length ?t div 8)"
    by (simp add: DcDirDirectorySignature_def str_def)
  have left: "(int (le_val (take 3 (drop 5 ?h))) + 1) * 8 - 8 = int (length ?t)"
  proof -
    have "length ?t div 8 < 256 ^ 3" using small by simp
    then have "le_val (take 3 (drop 5 ?h)) = length ?t div 8" unfolding fld by (simp add: le_val_le_bytes)
    moreover have "length ?t div 8 * 8 = length ?t" using table_bytes_8 [OF es] by simp
    ultimately show ?thesis by (simp add: algebra_simps flip: of_nat_mult)
  qed
  have n: "unat (word_of_int (int (length ?t)) :: u64) = length ?t"
    using small by (simp add: unat_u64_of_nat)
  have o8: "unat (?off + 8) = unat (dd_offset d) + 8" using no_wrap_add [OF w1] by simp
  have w2: "no_wrap (?off + 8) (word_of_int (int (length ?t)))"
    using small unat_u32_less [of "dd_offset d"] unfolding no_wrap_def o8 n by linarith
  obtain s2 where s2: "storage_read ops (?off + 8) (word_of_int (int (length ?t))) s1 = (Ok ?t, s2)" "ok s2"
    "contents s2 = contents s"
    using read_cases [OF s1(2) w2] parts(2) s1(3) unfolding o8 n by auto
  have "dcdir_find_loop ?t (name @ 0 # r) (length name) 0 (int (length ?t)) = lookup_result name es"
  proof (cases es)
    case Nil
    then show ?thesis by (simp add: dcdir_find_loop.simps lookup_result_def)
  next
    case (Cons e es')
    then have "int (sum_list (map (\<lambda>e. length (snd e)) es)) < int (length ?t)"
      using ptr_sizes_le [OF es] by (simp only: of_nat_less_iff) simp
    from find_loop_table [OF es nz _ this, of 0 "[]" r] Cons show ?thesis
      by (simp add: lookup_result_def split: option.splits)
  qed
  then show ?thesis
    using s1 s2 cmp left nz
    by (simp add: dcdir_find_in_dir_def act_bind_def act_lift_def Let_def)
qed

end

text \<open>
  On a well-formed directory the search returns the first entry whose name starts with
  the name that is looked for (in its first 8 characters), and when there is none it does
  not report a miss: except in an empty directory, it reads past the end of the table.
\<close>

theorem dcdir_find_in_dir_result:
  assumes "unat m = length d" and "dir_at d (unat (dd_offset dir)) es" and "0 \<notin> set name"
  shows "fst (dcdir_find_in_dir dir memory_ro_ops (name @ 0 # r) \<lparr>ms_data = d, ms_size = m\<rparr>) =
    (case find (entry_matches name) es of Some e \<Rightarrow> Ok (snd e)
     | None \<Rightarrow> if es = [] then Err else Fault OutOfBounds)"
  using mem_ro.find_in_dir_lookup [of "\<lparr>ms_data = d, ms_size = m\<rparr>" dir es name r] assms
  by (auto simp: memory_ok_def lookup_result_def)

text \<open>A region pointer of the 24-bit kind.\<close>

definition region_pointer :: "nat \<Rightarrow> nat \<Rightarrow> bytes" where
  "region_pointer off len = [2, 0] @ le_bytes 3 off @ le_bytes 3 (len - 1)"

definition region_pointer32 :: "nat \<Rightarrow> nat \<Rightarrow> nat \<Rightarrow> bytes" where
  "region_pointer32 base off len = [4, 1, 0, 0] @ le_bytes 4 base @ le_bytes 4 off @ le_bytes 4 (len - 1)"

text \<open>A pointer to a region of \<open>len\<close> bytes at \<open>off\<close>, in either of the two formats.\<close>

definition points_to :: "bytes \<Rightarrow> nat \<Rightarrow> nat \<Rightarrow> bool" where
  "points_to p off len \<longleftrightarrow> 0 < len \<and>
     (p = region_pointer off len \<and> off < 16777216 \<and> len \<le> 16777216 \<or>
      (\<exists>base. p = region_pointer32 base off len) \<and> off < 4294967296 \<and> len \<le> 4294967296)"

lemma le24_le_bytes: "v < 16777216 \<Longrightarrow> le24 (le_bytes 3 v) = of_nat v"
  by (simp add: le24_def le_val_le_bytes)

lemma le32_le_bytes: "v < 4294967296 \<Longrightarrow> le32 (le_bytes 4 v) = of_nat v"
  by (simp add: le32_def le_val_le_bytes)

lemma open_region_pointer:
  assumes "dcdir_find_in_dir dir stg name s = (Ok p, s')" and "points_to p off len"
  shows "fst (dcdir_open_region stg dir name s) =
    Ok \<lparr>dr_offset = dd_offset dir - dd_base dir + of_nat off, dr_size = of_nat len\<rparr>"
proof -
  have len: "of_nat (len - 1) + 1 = (of_nat len :: u32)"
    using assms(2) by (simp add: of_nat_diff points_to_def)
  have t: "drop_bit 1 (2 :: u8) = 1" "drop_bit 1 (4 :: u8) = 2" by simp_all
  from assms(2) consider (narrow) "p = region_pointer off len" "off < 16777216" "len \<le> 16777216" "0 < len"
    | (wide) base where "p = region_pointer32 base off len" "off < 4294967296" "len \<le> 4294967296" "0 < len"
    by (auto simp: points_to_def)
  then show ?thesis
  proof cases
    case narrow
    have "slice p 2 3 = Some (le_bytes 3 off)" "slice p 5 3 = Some (le_bytes 3 (len - 1))" "p ! 0 = 2"
      by (simp_all add: narrow(1) region_pointer_def slice_def)
    with assms(1) narrow len t show ?thesis
      by (simp add: dcdir_open_region_def act_bind_def act_lift_def ptr_field_def parent_offset_def le24_le_bytes)
  next
    case wide
    have "slice p 8 4 = Some (le_bytes 4 off)" "slice p 12 4 = Some (le_bytes 4 (len - 1))" "p ! 0 = 4"
      by (simp_all add: wide(1) region_pointer32_def slice_def)
    with assms(1) wide len t show ?thesis
      by (simp add: dcdir_open_region_def act_bind_def act_lift_def ptr_field_def parent_offset_def le32_le_bytes)
  qed
qed

text \<open>
  Opening a region returns the offset and the length that its directory entry encodes in
  either format, the offset relative to the directory's own region.
\<close>

theorem dcdir_open_region_decodes:
  assumes "unat m = length d" and "dir_at d (unat (dd_offset dir)) es" and "0 \<notin> set name"
    and "find (entry_matches name) es = Some (nm, p)" and "points_to p off len"
  shows "fst (dcdir_open_region memory_ro_ops dir (name @ 0 # r) \<lparr>ms_data = d, ms_size = m\<rparr>) =
    Ok \<lparr>dr_offset = dd_offset dir - dd_base dir + of_nat off, dr_size = of_nat len\<rparr>"
proof -
  obtain s' where "dcdir_find_in_dir dir memory_ro_ops (name @ 0 # r) \<lparr>ms_data = d, ms_size = m\<rparr> = (Ok p, s')"
    using mem_ro.find_in_dir_lookup [of "\<lparr>ms_data = d, ms_size = m\<rparr>" dir es name r] assms(1-4)
    by (auto simp: memory_ok_def lookup_result_def)
  from open_region_pointer [OF this assms(5)] show ?thesis .
qed

subsection \<open>Witnesses\<close>

definition sample_table :: "dc_entry list" where
  "sample_table = [(str ''GBB'' @ replicate 5 0, region_pointer 64 16), (str ''RO_VPD'' @ [0, 0], region_pointer 80 8)]"

definition sample_dir :: bytes where
  "sample_dir = DcDirDirectorySignature @ [0] @ le_bytes 3 (length (table_bytes sample_table) div 8) @
     table_bytes sample_table"

lemma sample_dir_at: "dir_at sample_dir 0 sample_table" "length sample_dir = 40"
proof -
  have l: "length (table_bytes sample_table) = 32"
    by (simp add: sample_table_def region_pointer_def str_def)
  show "length sample_dir = 40" by (simp add: sample_dir_def l DcDirDirectorySignature_def str_def)
  moreover have "entry_ok (str ''GBB'' @ replicate 5 0, region_pointer 64 16)"
    "entry_ok (str ''RO_VPD'' @ [0, 0], region_pointer 80 8)"
    by (simp_all add: entry_ok_def region_pointer_def str_def)
  moreover have "sample_dir = DcDirDirectorySignature @ 0 # le_bytes 3 4 @ table_bytes sample_table"
    unfolding sample_dir_def l by simp
  moreover have "\<forall>e \<in> set sample_table. entry_ok e"
    using \<open>entry_ok (str ''GBB'' @ replicate 5 0, region_pointer 64 16)\<close>
      \<open>entry_ok (str ''RO_VPD'' @ [0, 0], region_pointer 80 8)\<close>
    by (simp add: sample_table_def)
  ultimately show "dir_at sample_dir 0 sample_table"
    by (simp add: dir_at_def l slice_def)
qed

lemma sample_find:
  "find (entry_matches (str ''RO_VPD'')) sample_table = Some (str ''RO_VPD'' @ [0, 0], region_pointer 80 8)"
  "find (entry_matches (str ''FW'')) sample_table = None"
  by (simp_all add: sample_table_def entry_matches_def str_def)

theorem dcdir_find_in_dir_result_witness:
  "fst (dcdir_find_in_dir \<lparr>dd_base = 0, dd_offset = 0\<rparr> memory_ro_ops (str ''FW'' @ 0 # [])
     \<lparr>ms_data = sample_dir, ms_size = 40\<rparr>) = Fault OutOfBounds"
  using dcdir_find_in_dir_result [of 40 sample_dir "\<lparr>dd_base = 0, dd_offset = 0\<rparr>" sample_table "str ''FW''" "[]"]
    sample_dir_at sample_find(2)
  by (simp add: sample_table_def) (simp add: str_def)

theorem dcdir_open_region_decodes_witness:
  "fst (dcdir_open_region memory_ro_ops \<lparr>dd_base = 0, dd_offset = 0\<rparr> (str ''RO_VPD'' @ 0 # [])
     \<lparr>ms_data = sample_dir, ms_size = 40\<rparr>) = Ok \<lparr>dr_offset = 80, dr_size = 8\<rparr>"
  using dcdir_open_region_decodes [of 40 sample_dir "\<lparr>dd_base = 0, dd_offset = 0\<rparr>" sample_table "str ''RO_VPD''"
      _ _ 80 8 "[]"] sample_dir_at sample_find(1)
  by (auto simp: str_def points_to_def)

end
