(* ===== verification/DcDirStorage.thy ===== *)
theory DcDirStorage
  imports DcDir
begin

text \<open>
  \<^verbatim>\<open>src/src/drivers/storage/dcdir.c\<close>: directories and regions of a dcdir as storages.  A
  directory is opened through its parent, up to the root, on first use, and the handles are
  cached in the objects; here the chain of objects is a value of \<open>dc_node\<close>, threaded with
  the state of the media.
\<close>

datatype dc_node =
  DcDirStorageRoot u32 "dcdir option"
| DcDirStorageDir dc_node bytes "(dcdir \<times> dcdir_region) option"

record 's dcdir_media =
  dm_node :: dc_node
  dm_media :: 's

definition on_media :: "('s, 'a) act \<Rightarrow> ('s dcdir_media, 'a) act" where
  "on_media m = focus dm_media (\<lambda>b st. st\<lparr>dm_media := b\<rparr>) m"

definition dcdir_storage_init_root :: "'s storage_ops \<Rightarrow> u32 \<Rightarrow> ('s dcdir_media, dcdir) act" where
  "dcdir_storage_init_root media off =
     act_bind (on_media (dcdir_open_root media off)) (\<lambda>h st.
       (Ok h, st\<lparr>dm_node := DcDirStorageRoot off (Some h)\<rparr>))"

text \<open>
  \<open>node_open\<close> makes sure that the directory of the node is open: \<open>opened\<close> or
  \<open>dcdir_storage_init_root\<close> for the root, \<open>media\<close> or \<open>parent->open_dir\<close> for the others.  The
  state it returns has the node with the handles filled in.
\<close>

fun node_open :: "'s storage_ops \<Rightarrow> dc_node \<Rightarrow> 's \<Rightarrow> dcdir res \<times> 's dcdir_media" where
  "node_open media (DcDirStorageRoot off h) s =
     (case h of Some d \<Rightarrow> (Ok d, \<lparr>dm_node = DcDirStorageRoot off h, dm_media = s\<rparr>)
      | None \<Rightarrow> dcdir_storage_init_root media off \<lparr>dm_node = DcDirStorageRoot off None, dm_media = s\<rparr>)"
| "node_open media (DcDirStorageDir parent name h) s =
     (case h of Some dr \<Rightarrow> (Ok (fst dr), \<lparr>dm_node = DcDirStorageDir parent name h, dm_media = s\<rparr>)
      | None \<Rightarrow> (case node_open media parent s of
          (Ok d, st) \<Rightarrow>
            (case dcdir_open_dir_raw media d name (dm_media st) of
               (Ok dr, s') \<Rightarrow> (Ok (fst dr), \<lparr>dm_node = DcDirStorageDir (dm_node st) name (Some dr), dm_media = s'\<rparr>)
             | (Err, s') \<Rightarrow> (Err, \<lparr>dm_node = DcDirStorageDir (dm_node st) name None, dm_media = s'\<rparr>)
             | (Fault e, s') \<Rightarrow> (Fault e, \<lparr>dm_node = DcDirStorageDir (dm_node st) name None, dm_media = s'\<rparr>))
        | (Err, st) \<Rightarrow> (Err, \<lparr>dm_node = DcDirStorageDir (dm_node st) name None, dm_media = dm_media st\<rparr>)
        | (Fault e, st) \<Rightarrow> (Fault e, \<lparr>dm_node = DcDirStorageDir (dm_node st) name None, dm_media = dm_media st\<rparr>)))"

subsection \<open>A directory as a storage\<close>

definition dir_ready :: "'s storage_ops \<Rightarrow> ('s dcdir_media, dcdir_region) act" where
  "dir_ready media st =
     (case node_open media (dm_node st) (dm_media st) of
        (Ok d, st') \<Rightarrow> (case dm_node st' of
            DcDirStorageDir p nm (Some dr) \<Rightarrow> (Ok (snd dr), st') | _ \<Rightarrow> (Err, st'))
      | (Err, st') \<Rightarrow> (Err, st') | (Fault e, st') \<Rightarrow> (Fault e, st'))"

definition dcdir_storage_dir_read :: "'s storage_ops \<Rightarrow> u64 \<Rightarrow> u64 \<Rightarrow> ('s dcdir_media, bytes) act" where
  "dcdir_storage_dir_read media offset n = act_bind (dir_ready media) (\<lambda>raw.
     on_media (bounded_read media (ucast (dr_size raw)) (ucast (dr_offset raw)) offset n))"

definition dcdir_storage_dir_write :: "bytes \<Rightarrow> u64 \<Rightarrow> u64 \<Rightarrow> ('s dcdir_media, unit) act" where
  "dcdir_storage_dir_write buffer offset n st = (Err, st)"

definition size_or :: "int \<Rightarrow> ('s, dcdir_region) act \<Rightarrow> ('s, int) act" where
  "size_or failed ready st = (case ready st of
     (Ok r, st') \<Rightarrow> (Ok (as_int (ucast (dr_size r))), st')
   | (Err, st') \<Rightarrow> (Ok failed, st') | (Fault e, st') \<Rightarrow> (Fault e, st'))"

definition dcdir_storage_dir_size :: "'s storage_ops \<Rightarrow> ('s dcdir_media, int) act" where
  "dcdir_storage_dir_size media = size_or (- 1) (dir_ready media)"

subsection \<open>A region as a storage\<close>

record 's dcdir_storage =
  ds_parent :: "'s dcdir_media"
  ds_name :: bytes
  ds_region :: "dcdir_region option"

definition on_region_media :: "('s, 'a) act \<Rightarrow> ('s dcdir_storage, 'a) act" where
  "on_region_media m = focus ds_parent (\<lambda>p st. st\<lparr>ds_parent := p\<rparr>) (on_media m)"

text \<open>\<open>parent->open_region\<close>, by the root's and the directory's version alike.\<close>

definition dcdir_storage_init :: "'s storage_ops \<Rightarrow> ('s dcdir_storage, unit) act" where
  "dcdir_storage_init media st =
     (case node_open media (dm_node (ds_parent st)) (dm_media (ds_parent st)) of
        (Ok d, p) \<Rightarrow> act_bind (on_region_media (dcdir_open_region media d (ds_name st))) (\<lambda>r st.
            (Ok (), st\<lparr>ds_region := Some r\<rparr>)) (st\<lparr>ds_parent := p\<rparr>)
      | (Err, p) \<Rightarrow> (Err, st\<lparr>ds_parent := p\<rparr>) | (Fault e, p) \<Rightarrow> (Fault e, st\<lparr>ds_parent := p\<rparr>))"

definition region_ready :: "'s storage_ops \<Rightarrow> ('s dcdir_storage, dcdir_region) act" where
  "region_ready media =
     act_bind (\<lambda>st. if ds_region st = None then dcdir_storage_init media st else (Ok (), st))
       (\<lambda>_ st. (Ok (the (ds_region st)), st))"

definition dcdir_storage_read :: "'s storage_ops \<Rightarrow> u64 \<Rightarrow> u64 \<Rightarrow> ('s dcdir_storage, bytes) act" where
  "dcdir_storage_read media offset n = act_bind (region_ready media) (\<lambda>r.
     on_region_media (bounded_read media (ucast (dr_size r)) (ucast (dr_offset r)) offset n))"

definition dcdir_storage_write :: "'s storage_ops \<Rightarrow> bytes \<Rightarrow> u64 \<Rightarrow> u64 \<Rightarrow> ('s dcdir_storage, unit) act" where
  "dcdir_storage_write media buffer offset n = act_bind (region_ready media) (\<lambda>r.
     on_region_media (bounded_write media (ucast (dr_size r)) (ucast (dr_offset r)) buffer offset n))"

definition dcdir_storage_size :: "'s storage_ops \<Rightarrow> ('s dcdir_storage, int) act" where
  "dcdir_storage_size media = size_or 1 (region_ready media)"

definition dcdir_ops :: "'s storage_ops \<Rightarrow> 's dcdir_storage storage_ops" where
  "dcdir_ops media = \<lparr>op_read = dcdir_storage_read media, op_write = dcdir_storage_write media,
     op_size = dcdir_storage_size media\<rparr>"

definition new_dcdir_storage :: "'s dcdir_media \<Rightarrow> bytes \<Rightarrow> 's dcdir_storage" where
  "new_dcdir_storage parent name = \<lparr>ds_parent = parent, ds_name = name, ds_region = None\<rparr>"

definition new_dcdir_storage_root :: "u32 \<Rightarrow> dc_node" where
  "new_dcdir_storage_root off = DcDirStorageRoot off None"

definition new_dcdir_storage_dir :: "dc_node \<Rightarrow> bytes \<Rightarrow> dc_node" where
  "new_dcdir_storage_dir parent name = DcDirStorageDir parent name None"

subsection \<open>An open region keeps the contract of a storage\<close>

definition region_contents :: "('s \<Rightarrow> bytes) \<Rightarrow> 's dcdir_storage \<Rightarrow> bytes" where
  "region_contents contents st = (case ds_region st of None \<Rightarrow> []
     | Some r \<Rightarrow> window (ucast (dr_offset r)) (ucast (dr_size r)) (contents (dm_media (ds_parent st))))"

definition region_ok :: "('s \<Rightarrow> bytes) \<Rightarrow> ('s \<Rightarrow> bool) \<Rightarrow> 's dcdir_storage \<Rightarrow> bool" where
  "region_ok contents ok st \<longleftrightarrow> ok (dm_media (ds_parent st)) \<and>
     (\<exists>r. ds_region st = Some r \<and>
       unat (dr_offset r) + unat (dr_size r) \<le> length (contents (dm_media (ds_parent st))))"

lemma no_wrap_region [simp]: "no_wrap (ucast (a :: u32)) (ucast (b :: u32))"
  using unat_u32_less [of a] unat_u32_less [of b] by (simp add: no_wrap_def)

lemma region_ready_open: "ds_region st = Some r \<Longrightarrow> region_ready media st = (Ok r, st)"
  by (simp add: region_ready_def act_bind_def)

lemma length_region_contents:
  "region_ok contents ok st \<Longrightarrow> ds_region st = Some r \<Longrightarrow> length (region_contents contents st) = unat (dr_size r)"
  by (simp add: region_ok_def region_contents_def length_window)

context readable_storage
begin

lemma region_read_law:
  assumes st: "region_ok contents ok st" and w: "no_wrap off n"
  shows "\<exists>st'. storage_read (dcdir_ops ops) off n st =
      ((case slice (region_contents contents st) (unat off) (unat n) of None \<Rightarrow> Err | Some xs \<Rightarrow> Ok xs), st') \<and>
    region_ok contents ok st' \<and> region_contents contents st' = region_contents contents st"
proof -
  obtain r where r: "ds_region st = Some r" "ok (dm_media (ds_parent st))"
    "unat (dr_offset r) + unat (dr_size r) \<le> length (contents (dm_media (ds_parent st)))"
    using st by (auto simp: region_ok_def)
  from bounded_read_window [OF r(2) w, of "ucast (dr_offset r)" "ucast (dr_size r)"] r
  obtain b where "bounded_read ops (ucast (dr_size r)) (ucast (dr_offset r)) off n (dm_media (ds_parent st)) =
      (if unat off + unat n \<le> unat (dr_size r)
       then Ok (take (unat n) (drop (unat off) (region_contents contents st))) else Err, b)"
    "ok b" "contents b = contents (dm_media (ds_parent st))"
    by (auto simp: region_contents_def)
  with r length_region_contents [OF st r(1)] region_ready_open [OF r(1)] show ?thesis
    by (auto simp: storage_read_def dcdir_ops_def dcdir_storage_read_def act_bind_def on_region_media_def
        on_media_def focus_def slice_def region_ok_def region_contents_def)
qed

lemma region_size_law:
  assumes "region_ok contents ok st" and "length (region_contents contents st) < 2147483648"
  shows "\<exists>st'. storage_size (dcdir_ops ops) st = (Ok (int (length (region_contents contents st))), st') \<and>
    region_ok contents ok st' \<and> region_contents contents st' = region_contents contents st"
proof -
  obtain r where r: "ds_region st = Some r" using assms(1) by (auto simp: region_ok_def)
  with length_region_contents [OF assms(1) r] region_ready_open [OF r] assms show ?thesis
    by (auto simp: storage_size_def dcdir_ops_def dcdir_storage_size_def size_or_def as_int_small)
qed

end

context storage
begin

lemma region_write_law:
  assumes st: "region_ok contents ok st" and w: "no_wrap off n"
    and fits: "unat off + unat n \<le> length (region_contents contents st)" and buf: "unat n \<le> length buf"
  shows "\<exists>st'. storage_write (dcdir_ops ops) buf off n st = (Ok (), st') \<and> region_ok contents ok st' \<and>
    put (region_contents contents st) (unat off) (take (unat n) buf) = Some (region_contents contents st')"
proof -
  obtain r where r: "ds_region st = Some r" "ok (dm_media (ds_parent st))"
    "unat (dr_offset r) + unat (dr_size r) \<le> length (contents (dm_media (ds_parent st)))"
    using st by (auto simp: region_ok_def)
  from bounded_write_window [OF r(2) w, of "ucast (dr_offset r)" "ucast (dr_size r)" buf] r fits buf
    length_region_contents [OF st r(1)]
  obtain b where b: "bounded_write ops (ucast (dr_size r)) (ucast (dr_offset r)) buf off n
      (dm_media (ds_parent st)) = (Ok (), b)" "ok b"
    "put (contents (dm_media (ds_parent st))) (unat off + unat (dr_offset r)) (take (unat n) buf) = Some (contents b)"
    "put (region_contents contents st) (unat off) (take (unat n) buf) =
       Some (window (ucast (dr_offset r)) (ucast (dr_size r)) (contents b))"
    by (auto simp: region_contents_def)
  with r region_ready_open [OF r(1)] put_length [OF b(3)] show ?thesis
    by (auto simp: storage_write_def dcdir_ops_def dcdir_storage_write_def act_bind_def on_region_media_def
        on_media_def focus_def region_ok_def region_contents_def)
qed

lemma region_write_out_law:
  assumes st: "region_ok contents ok st" and w: "no_wrap off n"
    and out: "length (region_contents contents st) < unat off + unat n"
  shows "\<exists>st'. storage_write (dcdir_ops ops) buf off n st = (Err, st') \<and> region_ok contents ok st' \<and>
    region_contents contents st' = region_contents contents st"
proof -
  obtain r where r: "ds_region st = Some r" using st by (auto simp: region_ok_def)
  then have "unat (ucast (dr_size r) :: u64) < unat off + unat n"
    using out length_region_contents [OF st r] by simp
  from bounded_write_out [OF w this] region_ready_open [OF r] st r show ?thesis
    by (auto simp: storage_write_def dcdir_ops_def dcdir_storage_write_def act_bind_def on_region_media_def
        on_media_def focus_def region_ok_def region_contents_def)
qed

end

interpretation dcdir_mem: storage "dcdir_ops memory_ops" "region_contents ms_data" "region_ok ms_data memory_ok"
proof unfold_locales
  fix s :: "memory_storage dcdir_storage" and off n
  assume ok: "region_ok ms_data memory_ok s" and w: "no_wrap off n"
  from mem.region_read_law [OF ok w]
  show "unat off + unat n \<le> length (region_contents ms_data s) \<Longrightarrow>
      \<exists>s'. storage_read (dcdir_ops memory_ops) off n s =
        (Ok (take (unat n) (drop (unat off) (region_contents ms_data s))), s') \<and>
        region_ok ms_data memory_ok s' \<and> region_contents ms_data s' = region_contents ms_data s"
    and "length (region_contents ms_data s) < unat off + unat n \<Longrightarrow>
      \<exists>s'. storage_read (dcdir_ops memory_ops) off n s = (Err, s') \<and>
        region_ok ms_data memory_ok s' \<and> region_contents ms_data s' = region_contents ms_data s"
    by (auto simp: slice_def)
qed (fact mem.region_size_law mem.region_write_law mem.region_write_out_law)+

text \<open>
  C31. A region storage that is open reads back what was written to it, and a write leaves
  every range of the region that it does not overlap as it was.
\<close>

theorem dcdir_region_read_write:
  assumes "region_ok ms_data memory_ok st" and "no_wrap off n"
    and "unat off + unat n \<le> length (region_contents ms_data st)" and "unat n \<le> length buf"
  shows "\<exists>s1. storage_write (dcdir_ops memory_ops) buf off n st = (Ok (), s1) \<and>
    (\<exists>s2. storage_read (dcdir_ops memory_ops) off n s1 = (Ok (take (unat n) buf), s2)) \<and>
    (\<forall>off' n'. no_wrap off' n' \<longrightarrow> unat off' + unat n' \<le> length (region_contents ms_data st) \<longrightarrow>
      unat off' + unat n' \<le> unat off \<or> unat off + unat n \<le> unat off' \<longrightarrow>
      (\<exists>s2. storage_read (dcdir_ops memory_ops) off' n' s1 =
        (Ok (take (unat n') (drop (unat off') (region_contents ms_data st))), s2)))"
  using dcdir_mem.write_read [OF assms] by blast

definition sample_region :: "memory_storage dcdir_storage" where
  "sample_region = \<lparr>ds_parent = \<lparr>dm_node = DcDirStorageRoot 0 None,
     dm_media = \<lparr>ms_data = [0, 1, 2, 3, 4, 5], ms_size = 6\<rparr>\<rparr>, ds_name = [],
     ds_region = Some \<lparr>dr_offset = 2, dr_size = 3\<rparr>\<rparr>"

theorem dcdir_region_read_write_witness:
  "\<exists>s1. storage_write (dcdir_ops memory_ops) [9] 1 1 sample_region = (Ok (), s1) \<and>
    (\<exists>s2. storage_read (dcdir_ops memory_ops) 1 1 s1 = (Ok [9], s2))"
proof -
  have ok: "region_ok ms_data memory_ok sample_region"
    by (simp add: region_ok_def sample_region_def memory_ok_def)
  have "length (region_contents ms_data sample_region) = 3"
    by (simp add: region_contents_def sample_region_def window_def)
  with dcdir_region_read_write [OF ok, of 1 1 "[9]"] show ?thesis by (auto simp: no_wrap_def)
qed

end
