(* ===== verification/Fwdb.thy ===== *)
theory Fwdb
  imports Storage
begin

text \<open>
  \<^verbatim>\<open>src/src/base/fwdb.c\<close>, the firmware database, a growing table of named blobs in memory,
  and \<^verbatim>\<open>src/src/drivers/storage/fwdb.c\<close>, a blob as a storage.  The database is the list of
  the bytes of its region, which starts 8-byte aligned; pointers into it are offsets.
\<close>

definition FwdbSignature :: bytes where
  "FwdbSignature = str ''DCFWDB''"

record fwdb_entry =
  fe_ptr :: nat
  fe_size :: u64

definition rd32 :: "bytes \<Rightarrow> nat \<Rightarrow> u32 res" where
  "rd32 db off = map_res le32 (of_opt (slice db off 4))"

definition rd16 :: "bytes \<Rightarrow> nat \<Rightarrow> u16 res" where
  "rd16 db off = map_res le16 (of_opt (slice db off 2))"

definition header_max_size :: "bytes \<Rightarrow> u32 res" where
  "header_max_size db = rd32 db 16"

definition header_size :: "bytes \<Rightarrow> u16 res" where
  "header_size db = rd16 db 20"

subsection \<open>Creating and checking a database\<close>

text \<open>The check walks the table: the running tot, or \<open>Err\<close> for a malformed name.\<close>

lemma align_up_grows: "0 < n \<Longrightarrow> a < align_up (a + n) 8"
  using align_up_ge [of 8 "a + n"] by linarith

function use_db_walk :: "bytes \<Rightarrow> u32 \<Rightarrow> nat \<Rightarrow> u32 \<Rightarrow> u32 res" where
  "use_db_walk db mx addr tot =
     (case slice db addr 4 of None \<Rightarrow> Fault OutOfBounds
      | Some szb \<Rightarrow>
          (let sz = le32 szb; tot' = tot + sz
           in if tot' \<ge> mx then Ok tot'
              else if sz = 0 then Ok tot'
              else andthen (strnlen (Some (drop (addr + 4) db)) (unat sz)) (\<lambda>n.
                if n = unat sz then Err
                else use_db_walk db mx (align_up (addr + unat sz) 8) tot')))"
  by pat_completeness auto

termination
proof (relation "measure (\<lambda>(db, mx, addr, tot). length db - addr)", simp)
  fix db mx addr tot szb sz tot' n
  assume "slice db addr 4 = Some szb" and "sz = le32 szb" and "sz \<noteq> 0"
  moreover from this have "0 < unat sz" by (simp add: unat_gt_0)
  ultimately show "((db, mx, align_up (addr + unat sz) 8, tot'), db, mx, addr, tot)
      \<in> measure (\<lambda>(db, mx, addr, tot). length db - addr)"
    using align_up_grows [of "unat sz" addr] by (auto simp: slice_def split: if_splits)
qed

declare use_db_walk.simps [simp del]

definition fwdb_use_db :: "bytes \<Rightarrow> unit res" where
  "fwdb_use_db db =
     andthen (default_memcmp (drop 2 db) FwdbSignature 6) (\<lambda>r.
       if r \<noteq> 0 then Err
       else if db ! 0 \<noteq> 1 then Err
       else andthen (header_max_size db) (\<lambda>mx.
            andthen (header_size db) (\<lambda>hs.
            andthen (use_db_walk db mx (unat hs) (ucast hs)) (\<lambda>tot.
              if tot + 4 > mx then Err else Ok ()))))"

definition fwdb_create_db :: "bytes \<Rightarrow> u32 \<Rightarrow> bytes res" where
  "fwdb_create_db base max_size =
     (if max_size < 28 then Err
      else andthen (of_opt (put base 0 ([1, 0] @ FwdbSignature @ replicate 8 0 @ le_bytes 4 (unat max_size) @
             le_bytes 2 24 @ [0, 0] @ replicate 4 0))) (\<lambda>db.
           map_res (\<lambda>_. db) (fwdb_use_db db)))"

definition fwdb_db_max_size :: "bytes option \<Rightarrow> u32 res" where
  "fwdb_db_max_size h = (case h of None \<Rightarrow> Ok 0 | Some db \<Rightarrow> header_max_size db)"

subsection \<open>Access\<close>

text \<open>The outcome of the search: an entry of the name, or the end of the table.\<close>

datatype fwdb_found = Found nat u32 nat | TableEnd nat

function fwdb_search :: "bool \<Rightarrow> bytes \<Rightarrow> bytes \<Rightarrow> nat \<Rightarrow> fwdb_found res" where
  "fwdb_search sg db name addr =
     (case slice db addr 4 of None \<Rightarrow> Fault OutOfBounds
      | Some szb \<Rightarrow>
          (let sz = le32 szb
           in if sz = 0 then Ok (TableEnd addr)
              else andthen (strcmp sg (drop (addr + 4) db) name) (\<lambda>r.
                if r = 0 then map_res (Found addr sz) (strlen (Some (drop (addr + 4) db)))
                else fwdb_search sg db name (align_up (addr + unat sz) 8))))"
  by pat_completeness auto

termination
proof (relation "measure (\<lambda>(sg, db, name, addr). length db - addr)", simp)
  fix sg db name addr szb sz r
  assume "slice db addr 4 = Some szb" and "sz = le32 szb" and "sz \<noteq> 0"
  moreover from this have "0 < unat sz" by (simp add: unat_gt_0)
  ultimately show "((sg :: bool, db, name :: bytes, align_up (addr + unat sz) 8), sg, db, name, addr)
      \<in> measure (\<lambda>(sg, db, name, addr). length db - addr)"
    using align_up_grows [of "unat sz" addr] by (auto simp: slice_def split: if_splits)
qed

declare fwdb_search.simps [simp del]

definition data_offset :: "nat \<Rightarrow> nat" where
  "data_offset name_len = align_up (4 + name_len + 1) 8"

text \<open>
  A new entry is its size and, or not, the data to copy; \<open>want\<close> says whether the caller
  passed a place for the result.  The result is the entry and the database.
\<close>

definition fwdb_add ::
  "bytes \<Rightarrow> bytes \<Rightarrow> nat \<Rightarrow> bytes option \<Rightarrow> u64 \<Rightarrow> (fwdb_entry \<times> bytes) res" where
  "fwdb_add db name addr src n =
     andthen (strlen (Some name)) (\<lambda>nlen. andthen (header_max_size db) (\<lambda>mx.
       (let doff = data_offset nlen;
            new_size = of_nat doff + n;
            end_addr = align8 (of_nat addr + new_size) + 4
        in if end_addr > ucast mx then Err
           else andthen (case src of None \<Rightarrow> Ok (replicate (unat n) 0)
                         | Some xs \<Rightarrow> of_opt (slice xs 0 (unat n))) (\<lambda>d.
             andthen (of_opt (put db addr (le_bytes 4 (unat new_size)))) (\<lambda>db.
             andthen (of_opt (put db (addr + 4) (take (nlen + 1) name))) (\<lambda>db.
             andthen (of_opt (put db (addr + 4 + (nlen + 1)) (replicate (doff - (nlen + 1) - 4) 0))) (\<lambda>db.
             andthen (of_opt (put db (addr + doff) d)) (\<lambda>db.
             map_res (Pair \<lparr>fe_ptr = addr + doff, fe_size = n\<rparr>)
               (of_opt (put db (addr + doff + align_up (unat n) 8) (replicate 4 0)))))))))))"

definition fwdb_access ::
  "bool \<Rightarrow> bytes option \<Rightarrow> bytes \<Rightarrow> bool \<Rightarrow> (bytes option \<times> u64) option \<Rightarrow> (fwdb_entry \<times> bytes) res" where
  "fwdb_access sg h name want new_entry =
     (case h of None \<Rightarrow> Err
      | Some db \<Rightarrow> andthen (header_size db) (\<lambda>hs. andthen (fwdb_search sg db name (unat hs)) (\<lambda>f.
          case f of
            Found addr sz nlen \<Rightarrow>
              if \<not> want then Err
              else Ok (\<lparr>fe_ptr = addr + data_offset nlen, fe_size = ucast sz - of_nat (data_offset nlen)\<rparr>, db)
          | TableEnd addr \<Rightarrow>
              (case new_entry of None \<Rightarrow> Err | Some (src, n) \<Rightarrow> fwdb_add db name addr src n))))"

subsection \<open>A blob as a storage\<close>

record fwdb_storage =
  fws_db :: "bytes option"
  fws_name :: bytes
  fws_entry :: "fwdb_entry option"

definition fwdb_ready :: "bool \<Rightarrow> (fwdb_storage, fwdb_entry) act" where
  "fwdb_ready sg st =
     (case fws_entry st of Some e \<Rightarrow> (Ok e, st)
      | None \<Rightarrow> (case fwdb_access sg (fws_db st) (fws_name st) True None of
          Ok (e, db) \<Rightarrow> (Ok e, st\<lparr>fws_entry := Some e\<rparr>)
        | Err \<Rightarrow> (Err, st) | Fault f \<Rightarrow> (Fault f, st)))"

definition fwdb_storage_read :: "bool \<Rightarrow> u64 \<Rightarrow> u64 \<Rightarrow> (fwdb_storage, bytes) act" where
  "fwdb_storage_read sg offset n = act_bind (fwdb_ready sg) (\<lambda>e st.
     if offset + n > fe_size e then (Err, st)
     else (of_opt (slice (the (fws_db st)) (unat (of_nat (fe_ptr e) + offset)) (unat n)), st))"

definition fwdb_storage_write :: "bool \<Rightarrow> bytes \<Rightarrow> u64 \<Rightarrow> u64 \<Rightarrow> (fwdb_storage, unit) act" where
  "fwdb_storage_write sg buffer offset n = act_bind (fwdb_ready sg) (\<lambda>e st.
     if offset + n > fe_size e then (Err, st)
     else case slice buffer 0 (unat n) of None \<Rightarrow> (Fault OutOfBounds, st)
     | Some xs \<Rightarrow> (case put (the (fws_db st)) (unat (of_nat (fe_ptr e) + offset)) xs of
         None \<Rightarrow> (Fault OutOfBounds, st) | Some db \<Rightarrow> (Ok (), st\<lparr>fws_db := Some db\<rparr>)))"

definition fwdb_ro_storage_write :: "bytes \<Rightarrow> u64 \<Rightarrow> u64 \<Rightarrow> (fwdb_storage, unit) act" where
  "fwdb_ro_storage_write buffer offset n st = (Err, st)"

definition fwdb_storage_size :: "bool \<Rightarrow> (fwdb_storage, int) act" where
  "fwdb_storage_size sg st = (case fwdb_ready sg st of
     (Ok e, st') \<Rightarrow> (Ok (as_int (fe_size e)), st')
   | (Err, st') \<Rightarrow> (Ok (- 1), st') | (Fault f, st') \<Rightarrow> (Fault f, st'))"

definition new_fwdb_storage :: "bool \<Rightarrow> fwdb_storage storage_ops" where
  "new_fwdb_storage sg = \<lparr>op_read = fwdb_storage_read sg, op_write = fwdb_storage_write sg,
     op_size = fwdb_storage_size sg\<rparr>"

definition new_fwdb_ro_storage :: "bool \<Rightarrow> fwdb_storage storage_ops" where
  "new_fwdb_ro_storage sg = \<lparr>op_read = fwdb_storage_read sg, op_write = fwdb_ro_storage_write,
     op_size = fwdb_storage_size sg\<rparr>"

subsection \<open>The table a region holds\<close>

text \<open>
  An entry is a name, its data and the padding behind the data.  The region is a header, the
  entries and a zero size; the size limit in the header is the size of the region.
\<close>

type_synonym blob = "bytes \<times> bytes \<times> bytes"

definition blob_ok :: "blob \<Rightarrow> bool" where
  "blob_ok b = (case b of (nm, d, pad) \<Rightarrow> 0 \<notin> set nm \<and>
     data_offset (length nm) + length d < 4294967296 \<and>
     length pad = align_up (length d) 8 - length d)"

definition blob_bytes :: "blob \<Rightarrow> bytes" where
  "blob_bytes b = (case b of (nm, d, pad) \<Rightarrow>
     le_bytes 4 (data_offset (length nm) + length d) @ nm @ [0] @
     replicate (data_offset (length nm) - (length nm + 1) - 4) 0 @ d @ pad)"

definition blobs_bytes :: "blob list \<Rightarrow> bytes" where
  "blobs_bytes bs = concat (map blob_bytes bs)"

definition fwdb_header :: "nat \<Rightarrow> bytes" where
  "fwdb_header mx = [1, 0] @ FwdbSignature @ replicate 8 0 @ le_bytes 4 mx @ le_bytes 2 24 @ [0, 0]"

definition fwdb_rep :: "bytes \<Rightarrow> blob list \<Rightarrow> bool" where
  "fwdb_rep db bs \<longleftrightarrow> (\<forall>b \<in> set bs. blob_ok b) \<and> length db < 4294967296 \<and>
     (\<exists>rest. db = fwdb_header (length db) @ blobs_bytes bs @ replicate 4 0 @ rest)"

subsection \<open>Layout\<close>

lemma align_up_add: "a dvd x \<Longrightarrow> align_up (x + y) a = x + align_up y a"
proof (cases "a = 0")
  case False
  assume "a dvd x"
  then obtain k where x: "x = k * a" by (metis dvd_def mult.commute)
  have "(k * a + z) div a = k + z div a" for z using False by simp
  from this [of "y + (a - 1)"] show ?thesis by (simp add: align_up_def x add.assoc add_mult_distrib)
qed (auto simp: align_up_def)

lemma data_offset_bounds: "n + 5 \<le> data_offset n" "8 dvd data_offset n" "data_offset n < n + 13"
proof -
  show "n + 5 \<le> data_offset n" using align_up_ge [of 8 "4 + n + 1"] by (simp add: data_offset_def)
  show "8 dvd data_offset n" by (simp add: data_offset_def align_up_dvd)
  show "data_offset n < n + 13" by (simp add: data_offset_def align_up_def)
qed

lemma length_blob_bytes:
  "blob_ok (nm, d, pad) \<Longrightarrow> length (blob_bytes (nm, d, pad)) = data_offset (length nm) + align_up (length d) 8"
  using data_offset_bounds(1) [of "length nm"] align_up_ge [of 8 "length d"]
  by (simp add: blob_ok_def blob_bytes_def)

lemma blob_bytes_8: "blob_ok b \<Longrightarrow> 8 dvd length (blob_bytes b)"
  by (cases b) (auto simp: length_blob_bytes data_offset_bounds(2) align_up_dvd)

lemma blobs_bytes_8: "\<forall>b \<in> set bs. blob_ok b \<Longrightarrow> 8 dvd length (blobs_bytes bs)"
  by (induction bs) (auto simp: blobs_bytes_def blob_bytes_8)

lemma blobs_bytes_simps [simp]:
  "blobs_bytes [] = []" "blobs_bytes (b # bs) = blob_bytes b @ blobs_bytes bs"
  "blobs_bytes (bs @ cs) = blobs_bytes bs @ blobs_bytes cs"
  by (simp_all add: blobs_bytes_def)

lemma length_fwdb_header [simp]: "length (fwdb_header mx) = 24"
  by (simp add: fwdb_header_def FwdbSignature_def str_def)

lemma blob_fields:
  fixes pre post :: bytes
  assumes b: "blob_ok (nm, d, pad)"
  defines "db \<equiv> pre @ blob_bytes (nm, d, pad) @ post" and "sz \<equiv> data_offset (length nm) + length d"
  shows "slice db (length pre) 4 = Some (le_bytes 4 sz)" "unat (le32 (le_bytes 4 sz)) = sz"
    and "le32 (le_bytes 4 sz) \<noteq> 0" "\<exists>t. drop (length pre + 4) db = nm @ 0 # t"
    and "slice db (length pre + data_offset (length nm)) (length d) = Some d"
    and "8 dvd length pre \<Longrightarrow> align_up (length pre + sz) 8 = length (pre @ blob_bytes (nm, d, pad))"
proof -
  have sz: "sz < 4294967296" "0 < sz"
    using b data_offset_bounds(1) [of "length nm"] by (auto simp: blob_ok_def sz_def)
  show "slice db (length pre) 4 = Some (le_bytes 4 sz)"
    by (simp add: db_def blob_bytes_def sz_def slice_def)
  show u: "unat (le32 (le_bytes 4 sz)) = sz"
    using sz(1) by (simp add: le32_def le_val_le_bytes unat_u32_of_nat)
  with sz(2) show "le32 (le_bytes 4 sz) \<noteq> 0" by auto
  show "\<exists>t. drop (length pre + 4) db = nm @ 0 # t" by (simp add: db_def blob_bytes_def)
  let ?front = "le_bytes 4 sz @ nm @ [0] @ replicate (data_offset (length nm) - (length nm + 1) - 4) 0"
  have "length ?front = data_offset (length nm)" using data_offset_bounds(1) [of "length nm"] by simp
  then show "slice db (length pre + data_offset (length nm)) (length d) = Some d"
    using slice_append_mid [of _ "pre @ ?front" "length d" d "pad @ post"]
    by (simp add: db_def blob_bytes_def sz_def)
  show "align_up (length pre + sz) 8 = length (pre @ blob_bytes (nm, d, pad))" if "8 dvd length pre"
    using that length_blob_bytes [OF b] data_offset_bounds(2) [of "length nm"]
    by (simp add: sz_def align_up_add)
qed

fun blob_find :: "bytes \<Rightarrow> blob list \<Rightarrow> nat \<Rightarrow> (nat \<times> blob) option" where
  "blob_find name [] pos = None"
| "blob_find name (b # bs) pos =
     (if fst b = name then Some (pos, b) else blob_find name bs (pos + length (blob_bytes b)))"

lemma fwdb_search_find:
  assumes "\<forall>b \<in> set bs. blob_ok b" and "0 \<notin> set name" and "8 dvd length pre"
  shows "fwdb_search sg (pre @ blobs_bytes bs @ replicate 4 0 @ rest) (name @ 0 # r) (length pre) =
    Ok (case blob_find name bs (length pre) of
      Some (a, nm, d, pad) \<Rightarrow> Found a (le32 (le_bytes 4 (data_offset (length nm) + length d))) (length nm)
    | None \<Rightarrow> TableEnd (length pre + length (blobs_bytes bs)))"
  using assms
proof (induction bs arbitrary: pre)
  case Nil
  have "le32 (replicate 4 0) = 0" by (simp add: le32_def numeral_eq_Suc)
  then show ?case by (subst fwdb_search.simps) (simp add: slice_def)
next
  case (Cons b bs)
  obtain nm d pad where b: "b = (nm, d, pad)" by (cases b)
  let ?post = "blobs_bytes bs @ replicate 4 0 @ rest"
  let ?db = "pre @ blob_bytes (nm, d, pad) @ ?post"
  have ok: "blob_ok (nm, d, pad)" using Cons.prems(1) b by simp
  note f = blob_fields(1) [OF ok, of pre ?post] blob_fields(2,3) [OF ok]
    blob_fields(4) [OF ok, of pre ?post] blob_fields(6) [OF ok, of pre]
  obtain t where t: "drop (length pre + 4) ?db = nm @ 0 # t" using f(4) by blast
  have nm: "0 \<notin> set nm" using ok by (simp add: blob_ok_def)
  obtain c where c: "strcmp sg (nm @ 0 # t) (name @ 0 # r) = Ok c" "c = 0 \<longleftrightarrow> nm = name"
    using strcmp_terminated [OF nm Cons.prems(2)] by blast
  show ?case
  proof (cases "nm = name")
    case True
    have "fwdb_search sg ?db (name @ 0 # r) (length pre) =
        Ok (Found (length pre) (le32 (le_bytes 4 (data_offset (length nm) + length d))) (length nm))"
      using f(1,3) t c True nm by (subst fwdb_search.simps) (simp add: Let_def del: append_assoc)
    with True b show ?thesis by simp
  next
    case False
    let ?pre = "pre @ blob_bytes (nm, d, pad)"
    have "fwdb_search sg ?db (name @ 0 # r) (length pre) = fwdb_search sg ?db (name @ 0 # r) (length ?pre)"
      using f(1,2,3) f(5) [OF Cons.prems(3)] t c False
      by (subst fwdb_search.simps) (simp add: Let_def)
    moreover have "8 dvd length ?pre" using Cons.prems(3) blob_bytes_8 [OF ok] by simp
    ultimately show ?thesis
      using Cons.IH [of ?pre] Cons.prems(1,2) False b by (simp add: add.assoc split: option.split)
  qed
qed

subsection \<open>Lookup, creation, insertion\<close>

lemma header_fields:
  assumes "mx < 4294967296"
  shows "header_size (fwdb_header mx @ t) = Ok 24" "header_max_size (fwdb_header mx @ t) = Ok (of_nat mx)"
proof -
  have "slice (fwdb_header mx @ t) 20 2 = Some (le_bytes 2 24)" "slice (fwdb_header mx @ t) 16 4 = Some (le_bytes 4 mx)"
    by (simp_all add: slice_def fwdb_header_def FwdbSignature_def str_def)
  then show "header_size (fwdb_header mx @ t) = Ok 24" "header_max_size (fwdb_header mx @ t) = Ok (of_nat mx)"
    using assms by (simp_all add: header_size_def header_max_size_def rd16_def rd32_def le16_def le32_def le_val_le_bytes)
qed

lemma blob_find_data:
  "\<forall>b \<in> set bs. blob_ok b \<Longrightarrow> blob_find name bs (length pre) = Some (a, nm, d, pad) \<Longrightarrow>
     nm = name \<and> (nm, d, pad) \<in> set bs \<and> find (\<lambda>b. fst b = name) bs = Some (nm, d, pad) \<and>
     slice (pre @ blobs_bytes bs @ t) (a + data_offset (length nm)) (length d) = Some d"
proof (induction bs arbitrary: pre)
  case (Cons b bs)
  show ?case
  proof (cases "fst b = name")
    case True
    with Cons.prems blob_fields(5) [of nm d pad pre "blobs_bytes bs @ t"] show ?thesis by auto
  next
    case False
    with Cons.prems Cons.IH [of "pre @ blob_bytes b"] show ?thesis by auto
  qed
qed simp

lemma blob_find_None: "blob_find name bs pos = None \<longleftrightarrow> find (\<lambda>b. fst b = name) bs = None"
  by (induction bs arbitrary: pos) auto

lemma fwdb_access_search:
  assumes rep: "fwdb_rep db bs" and nz: "0 \<notin> set name"
  shows "header_size db = Ok 24" and "header_max_size db = Ok (of_nat (length db))"
    and "fwdb_search sg db (name @ 0 # r) 24 =
      Ok (case blob_find name bs 24 of
        Some (a, nm, d, pad) \<Rightarrow> Found a (le32 (le_bytes 4 (data_offset (length nm) + length d))) (length nm)
      | None \<Rightarrow> TableEnd (24 + length (blobs_bytes bs)))"
proof -
  obtain rest where ok: "\<forall>b \<in> set bs. blob_ok b" and len: "length db < 4294967296"
    and db: "db = fwdb_header (length db) @ blobs_bytes bs @ replicate 4 0 @ rest"
    using rep by (auto simp: fwdb_rep_def)
  show "header_size db = Ok 24" "header_max_size db = Ok (of_nat (length db))"
    using header_fields [OF len, of "blobs_bytes bs @ replicate 4 0 @ rest"] db by simp_all
  show "fwdb_search sg db (name @ 0 # r) 24 =
      Ok (case blob_find name bs 24 of
        Some (a, nm, d, pad) \<Rightarrow> Found a (le32 (le_bytes 4 (data_offset (length nm) + length d))) (length nm)
      | None \<Rightarrow> TableEnd (24 + length (blobs_bytes bs)))"
    using fwdb_search_find [OF ok nz, of "fwdb_header (length db)" sg rest r] db by (simp split: option.split)
qed

text \<open>
  C30. Looking up a name in a database returns a pointer to the data of its first entry of that
  name and the length of that data; for a name the database does not have it fails, and the
  database is not changed.
\<close>

theorem fwdb_access_lookup:
  assumes rep: "fwdb_rep db bs" and nz: "0 \<notin> set name"
  shows "case find (\<lambda>b. fst b = name) bs of
      Some (nm, d, pad) \<Rightarrow> (\<exists>e. fwdb_access sg (Some db) (name @ 0 # r) True None = Ok (e, db) \<and>
        unat (fe_size e) = length d \<and> slice db (fe_ptr e) (length d) = Some d)
    | None \<Rightarrow> fwdb_access sg (Some db) (name @ 0 # r) True None = Err"
proof (cases "blob_find name bs 24")
  case None
  then show ?thesis
    using fwdb_access_search(1) [OF assms] fwdb_access_search(3) [OF assms, of sg r] blob_find_None [of name bs 24]
    by (simp add: fwdb_access_def)
next
  case (Some ab)
  obtain a nm d pad where ab: "ab = (a, nm, d, pad)" by (cases ab)
  obtain rest where ok: "\<forall>b \<in> set bs. blob_ok b"
    and db: "db = fwdb_header (length db) @ blobs_bytes bs @ replicate 4 0 @ rest"
    using rep by (auto simp: fwdb_rep_def)
  have "blob_find name bs (length (fwdb_header (length db))) = Some (a, nm, d, pad)" using Some ab by simp
  from blob_find_data [OF ok this, of "replicate 4 0 @ rest"]
  have f0: "nm = name \<and> (nm, d, pad) \<in> set bs \<and> find (\<lambda>b. fst b = name) bs = Some (nm, d, pad) \<and>
    slice db (a + data_offset (length nm)) (length d) = Some d"
    unfolding db [symmetric] .
  then have f: "nm = name" "(nm, d, pad) \<in> set bs" "find (\<lambda>b. fst b = name) bs = Some (nm, d, pad)"
    "slice db (a + data_offset (length nm)) (length d) = Some d"
    by blast+
  have b: "blob_ok (nm, d, pad)" using ok f(2) by blast
  define A :: u64 where "A = ucast (le32 (le_bytes 4 (data_offset (length nm) + length d)))"
  have sz: "unat A = data_offset (length nm) + length d" using blob_fields(2) [OF b] by (simp add: A_def)
  define DO :: u64 where "DO = of_nat (data_offset (length nm))"
  have "data_offset (length nm) < 4294967296" using b by (auto simp: blob_ok_def)
  then have o: "unat DO = data_offset (length nm)" unfolding DO_def by (intro unat_u64_of_nat) simp
  have "unat (A - DO) = length d" by (simp add: unat_sub word_le_nat_alt sz o)
  then have "unat (ucast (le32 (le_bytes 4 (data_offset (length nm) + length d))) - of_nat (data_offset (length nm)) :: u64) = length d"
    by (simp only: A_def DO_def)
  then show ?thesis
    using fwdb_access_search(1) [OF assms] fwdb_access_search(3) [OF assms, of sg r] Some ab f by (simp add: fwdb_access_def)
qed

subsection \<open>Growing a database\<close>

lemma put_prefix: "length pre = off \<Longrightarrow> length xs \<le> length t \<Longrightarrow> put (pre @ t) off xs = Some (pre @ xs @ drop (length xs) t)"
  by (simp add: put_def)

text \<open>Consecutive writes from \<open>addr\<close> on are one write.\<close>

lemma puts_in_a_row:
  "andthen (of_opt (put db addr xs)) (\<lambda>db. andthen (of_opt (put db (addr + length xs) ys)) k) =
     andthen (of_opt (put db addr (xs @ ys))) k"
  using put_append [of db addr xs ys] by (cases "put db addr xs") auto

lemma four_puts:
  "andthen (of_opt (put db n a)) (\<lambda>db. andthen (of_opt (put db (n + length a) b)) (\<lambda>db.
     andthen (of_opt (put db (n + length a + length b) c)) (\<lambda>db.
     andthen (of_opt (put db (n + length a + length b + length c) e)) k))) =
   andthen (of_opt (put db n (a @ b @ c @ e))) k"
proof -
  have 1: "n + length a + length b = n + length (a @ b)" "n + length a + length b + length c = n + length (a @ b @ c)"
    by simp_all
  show ?thesis unfolding 1 puts_in_a_row
    using puts_in_a_row [of db n "a @ b @ c" e k] puts_in_a_row [of db n "a @ b" c] by simp
qed

lemma end_addr_value:
  assumes "8 dvd a" and "a + data_offset n + l < 9223372036854775808"
  shows "unat (align8 (of_nat a + of_nat (data_offset n + l)) + 4) = a + data_offset n + align_up l 8 + 4"
proof -
  define e :: u64 where "e = of_nat a + of_nat (data_offset n + l)"
  have ue: "unat e = a + data_offset n + l"
    using unat_u64_of_nat [of "a + data_offset n + l"] assms(2) by (simp add: e_def add.assoc)
  have "8 dvd a + data_offset n" using assms(1) data_offset_bounds(2) by simp
  then have e8: "unat (align8 e) = a + data_offset n + align_up l 8"
    using unat_align8 [of e] assms(2) unfolding ue by (simp add: align_up_add)
  have "align_up l 8 < l + 8" by (simp add: align_up_def)
  then have "no_wrap (align8 e) 4" using assms(2) unfolding no_wrap_def e8 by simp
  then have "unat (align8 e + 4) = a + data_offset n + align_up l 8 + 4"
    by (simp only: no_wrap_add e8) simp
  then show ?thesis by (simp only: e_def)
qed

lemma fwdb_add_layout:
  assumes db: "db = pre @ t" "header_max_size db = Ok mx" and nz: "0 \<notin> set name"
    and small: "length db < 4294967296" "unat mx = length db"
    and pre: "8 dvd length pre"
    and fit: "length pre + data_offset (length name) + align_up (length d) 8 + 4 \<le> length db"
  defines "p \<equiv> align_up (length d) 8 - length d"
  shows "\<exists>pad. length pad = p \<and> fwdb_add db (name @ 0 # r) (length pre) (Some d) (of_nat (length d)) =
    Ok (\<lparr>fe_ptr = length pre + data_offset (length name), fe_size = of_nat (length d)\<rparr>,
      pre @ blob_bytes (name, d, pad) @ replicate 4 0 @
        drop (data_offset (length name) + align_up (length d) 8 + 4) t)"
proof -
  let ?doff = "data_offset (length name)"
  let ?x = "le_bytes 4 (?doff + length d) @ name @ [0] @ replicate (?doff - (length name + 1) - 4) 0"
  let ?xd = "?x @ d"
  have al: "length d \<le> align_up (length d) 8" by (rule align_up_ge) simp
  have d5: "length name + 5 \<le> ?doff" by (rule data_offset_bounds(1))
  have lx: "length ?x = ?doff" using d5 by simp
  have ld: "unat (of_nat (length d) :: u64) = length d" using fit small al by (intro unat_u64_of_nat) linarith
  have ns: "(of_nat ?doff + of_nat (length d) :: u64) = of_nat (?doff + length d)" by simp
  have uns: "unat (of_nat (?doff + length d) :: u64) = ?doff + length d"
    using fit small al by (intro unat_u64_of_nat) linarith
  define e :: u64 where "e = of_nat (length pre) + of_nat (?doff + length d)"
  have "unat (align8 e + 4) = length pre + ?doff + align_up (length d) 8 + 4"
    unfolding e_def by (rule end_addr_value [OF pre]) (use fit small al in linarith)
  then have fits: "\<not> align8 e + 4 > ucast mx" using fit small by (simp add: word_less_nat_alt)
  define X where "X = ?xd"
  have lX: "length X = ?doff + length d" using lx by (simp only: X_def length_append)
  define pad where "pad = take p (drop (length X) t)"
  have lt: "length t = length db - length pre" using db by simp
  then have tl: "length X + p + 4 \<le> length t" using fit lX al by (simp add: p_def)
  then have lpad: "length pad = p" by (simp add: pad_def)
  have w1: "put db (length pre) X = Some (pre @ X @ drop (length X) t)"
    unfolding db(1) by (rule put_prefix) (use tl in simp_all)
  have t2: "drop (length X) t = pad @ drop (length X + p) t"
    by (simp add: pad_def add.commute flip: drop_drop)
  have "put ((pre @ X @ pad) @ drop (length X + p) t) (length pre + ?doff + align_up (length d) 8) (replicate 4 0) =
      Some ((pre @ X @ pad) @ replicate 4 0 @ drop (length (replicate 4 (0 :: u8))) (drop (length X + p) t))"
    using lX lpad al tl by (intro put_prefix) (simp_all add: p_def)
  moreover have "4 + (length X + p) = ?doff + align_up (length d) 8 + 4" using lX al by (simp add: p_def)
  ultimately have w2: "put (pre @ X @ drop (length X) t) (length pre + ?doff + align_up (length d) 8) (replicate 4 0) =
      Some (pre @ X @ pad @ replicate 4 0 @ drop (?doff + align_up (length d) 8 + 4) t)"
    unfolding t2 by (simp only: append_assoc length_replicate drop_drop)
  define K where "K = (\<lambda>db :: bytes. map_res (Pair \<lparr>fe_ptr = length pre + ?doff, fe_size = of_nat (length d)\<rparr>)
      (of_opt (put db (length pre + ?doff + align_up (length d) 8) (replicate 4 0))))"
  let ?a = "le_bytes 4 (?doff + length d)" and ?b = "name @ [0]"
    and ?c = "replicate (?doff - (length name + 1) - 4) (0 :: u8)"
  have lens: "length ?a = 4" "length ?b = length name + 1" "length pre + 4 + (length name + 1) + length ?c = length pre + ?doff"
    using d5 by simp_all
  have tk: "take (length name + 1) (name @ 0 # r) = ?b" by simp
  have "fwdb_add db (name @ 0 # r) (length pre) (Some d) (of_nat (length d)) =
      andthen (of_opt (put db (length pre) ?a)) (\<lambda>db.
      andthen (of_opt (put db (length pre + 4) ?b)) (\<lambda>db.
      andthen (of_opt (put db (length pre + 4 + (length name + 1)) ?c)) (\<lambda>db.
      andthen (of_opt (put db (length pre + ?doff) d)) K)))"
    unfolding fwdb_add_def strlen_terminated [OF nz] db(2) andthen.simps Let_def ns e_def [symmetric] uns tk
    using fits ld by (simp add: K_def slice_def)
  also have "\<dots> = andthen (of_opt (put db (length pre) (?a @ ?b @ ?c @ d))) K"
    using four_puts [of db "length pre" ?a ?b ?c d K] unfolding lens .
  also have "?a @ ?b @ ?c @ d = X" by (simp add: X_def)
  also have "andthen (of_opt (put db (length pre) X)) K = Ok (\<lparr>fe_ptr = length pre + ?doff, fe_size = of_nat (length d)\<rparr>,
      pre @ X @ pad @ replicate 4 0 @ drop (?doff + align_up (length d) 8 + 4) t)"
    using w1 w2 by (simp add: K_def)
  finally show ?thesis using lpad by (auto simp: blob_bytes_def X_def)
qed

text \<open>
  C29. Adding an entry whose name is new, when it fits, returns a place that holds the data
  and leaves a database with the old entries, in their order, and the new one behind them;
  when it does not fit it fails.
\<close>

theorem fwdb_access_insert:
  assumes rep: "fwdb_rep db bs" and nz: "0 \<notin> set name" and new: "\<forall>b \<in> set bs. fst b \<noteq> name"
    and small: "length d < 2147483648" "length name < 2147483648"
  shows "if 28 + length (blobs_bytes bs) + data_offset (length name) + align_up (length d) 8 \<le> length db
    then \<exists>e db' pad. fwdb_access sg (Some db) (name @ 0 # r) True (Some (Some d, of_nat (length d))) = Ok (e, db') \<and>
      fwdb_rep db' (bs @ [(name, d, pad)]) \<and> length db' = length db \<and>
      slice db' (fe_ptr e) (length d) = Some d \<and> unat (fe_size e) = length d
    else fwdb_access sg (Some db) (name @ 0 # r) True (Some (Some d, of_nat (length d))) = Err"
proof -
  obtain rest where ok: "\<forall>b \<in> set bs. blob_ok b" and len: "length db < 4294967296"
    and db: "db = fwdb_header (length db) @ blobs_bytes bs @ replicate 4 0 @ rest"
    using rep by (auto simp: fwdb_rep_def)
  let ?pre = "fwdb_header (length db) @ blobs_bytes bs" and ?t = "replicate 4 0 @ rest"
  have pt: "db = ?pre @ ?t" using db by simp
  have mx: "header_max_size db = Ok (of_nat (length db))" by (rule fwdb_access_search(2) [OF rep nz])
  have "find (\<lambda>b. fst b = name) bs = None" using new by (auto simp: find_None_iff)
  then have acc: "fwdb_access sg (Some db) (name @ 0 # r) True (Some (Some d, of_nat (length d))) =
      fwdb_add db (name @ 0 # r) (length ?pre) (Some d) (of_nat (length d))"
    using fwdb_access_search(1) [OF rep nz] fwdb_access_search(3) [OF rep nz, of sg r]
    by (simp add: fwdb_access_def blob_find_None [symmetric, of _ _ 24])
  have pre8: "8 dvd length ?pre" using blobs_bytes_8 [OF ok] by simp
  have um: "unat (of_nat (length db) :: u32) = length db" by (rule unat_u32_of_nat [OF len])
  let ?al = "align_up (length d) 8"
  have al: "length d \<le> ?al" by (rule align_up_ge) simp
  show ?thesis
  proof (cases "28 + length (blobs_bytes bs) + data_offset (length name) + ?al \<le> length db")
    case True
    then have fit: "length ?pre + data_offset (length name) + ?al + 4 \<le> length db" by simp
    obtain pad where pad: "length pad = ?al - length d" and add: "fwdb_add db (name @ 0 # r) (length ?pre) (Some d) (of_nat (length d)) =
      Ok (\<lparr>fe_ptr = length ?pre + data_offset (length name), fe_size = of_nat (length d)\<rparr>,
        ?pre @ blob_bytes (name, d, pad) @ replicate 4 0 @ drop (data_offset (length name) + ?al + 4) ?t)"
      using fwdb_add_layout [OF pt mx nz len um pre8 fit] by blast
    let ?db' = "?pre @ blob_bytes (name, d, pad) @ replicate 4 0 @ drop (data_offset (length name) + ?al + 4) ?t"
    have b: "blob_ok (name, d, pad)" using nz pad fit len al by (simp add: blob_ok_def)
    have "length ?db' = length ?pre + (data_offset (length name) + ?al) + 4 + (length ?t - (data_offset (length name) + ?al + 4))"
      using length_blob_bytes [OF b] by simp
    moreover have "length ?pre + length ?t = length db" using pt by (metis length_append)
    ultimately have l: "length ?db' = length db" using fit by linarith
    have "fwdb_rep ?db' (bs @ [(name, d, pad)])"
      unfolding fwdb_rep_def l using ok b len by auto
    moreover have "slice ?db' (length ?pre + data_offset (length name)) (length d) = Some d"
      by (rule blob_fields(5) [OF b])
    moreover have "unat (of_nat (length d) :: u64) = length d" using small(1) by (intro unat_u64_of_nat) simp
    ultimately show ?thesis using True acc add l by auto
  next
    case False
    have "unat (align8 (of_nat (length ?pre) + of_nat (data_offset (length name) + length d)) + 4) =
        length ?pre + data_offset (length name) + ?al + 4"
    proof (rule end_addr_value [OF pre8])
      have "length ?pre + length ?t = length db" using pt by (metis length_append)
      then show "length ?pre + data_offset (length name) + length d < 9223372036854775808"
        using len small data_offset_bounds(3) [of "length name"] by linarith
    qed
    with False um have over: "align8 (of_nat (length ?pre) + of_nat (data_offset (length name) + length d)) + 4 > ucast (of_nat (length db) :: u32)"
      by (simp add: word_less_nat_alt)
    have ns: "(of_nat (data_offset (length name)) + of_nat (length d) :: u64) = of_nat (data_offset (length name) + length d)"
      by simp
    have "fwdb_add db (name @ 0 # r) (length ?pre) (Some d) (of_nat (length d)) = Err"
      unfolding fwdb_add_def strlen_terminated [OF nz] mx andthen.simps Let_def ns using over by (simp only: if_True)
    with False acc show ?thesis by simp
  qed
qed

subsection \<open>Witnesses\<close>

definition sample_fwdb :: bytes where
  "sample_fwdb = fwdb_header 64 @ replicate 4 0 @ replicate 36 7"

lemma sample_fwdb_rep: "fwdb_rep sample_fwdb []" "length sample_fwdb = 64"
  by (auto simp: fwdb_rep_def sample_fwdb_def)

theorem fwdb_access_lookup_witness:
  "fwdb_access True (Some sample_fwdb) (str ''ec'' @ 0 # []) True None = Err"
  using fwdb_access_lookup [OF sample_fwdb_rep(1), of "str ''ec''" True "[]"] by (simp add: str_def)

theorem fwdb_access_insert_witness:
  "\<exists>e db' pad. fwdb_access True (Some sample_fwdb) (str ''ec'' @ 0 # []) True
      (Some (Some [1, 2, 3], of_nat (length [1, 2, 3 :: u8]))) = Ok (e, db') \<and>
    fwdb_rep db' [(str ''ec'', [1, 2, 3], pad)] \<and> slice db' (fe_ptr e) (length [1, 2, 3 :: u8]) = Some [1, 2, 3]"
proof -
  have n: "0 \<notin> set (str ''ec'')" "length (str ''ec'') = 2" by (simp_all add: str_def)
  have "28 + length (blobs_bytes []) + data_offset (length (str ''ec'')) + align_up (length [1, 2, 3 :: u8]) 8 \<le> length sample_fwdb"
    by (simp add: n sample_fwdb_rep(2) data_offset_def align_up_def)
  with fwdb_access_insert [OF sample_fwdb_rep(1) n(1), of "[1, 2, 3]" True "[]"] n(2) obtain e db' pad where
    "fwdb_access True (Some sample_fwdb) (str ''ec'' @ 0 # []) True
      (Some (Some [1, 2, 3], of_nat (length [1, 2, 3 :: u8]))) = Ok (e, db')"
    "fwdb_rep db' [(str ''ec'', [1, 2, 3], pad)]" "slice db' (fe_ptr e) (length [1, 2, 3 :: u8]) = Some [1, 2, 3]"
    by auto
  then show ?thesis by (intro exI conjI)
qed

end
