(* ===== verification/Malloc.thy ===== *)
theory Malloc
  imports Prelude
begin

text \<open>
  \<^verbatim>\<open>src/src/base/libc/malloc.c\<close>: the allocator.  A region of memory is cut into blocks,
  each an 8-byte header (a magic number, a free bit and the size of the rest) and its data.
  The model is the bytes of one region and pointers are offsets from its start; the
  abstraction is the list of the blocks with their sizes.

  Regions are smaller than 2 GiB: a header whose size does not fit the \<open>int\<close> it is read
  into is \<open>Fault Overflow\<close>.  \<open>Fault Died\<close> is the call of \<open>halt\<close>.  The lists of aligned
  regions (\<open>memalign\<close>) are not part of the model: \<open>free\<close> is that of a region without any.
\<close>

subsection \<open>Headers\<close>

definition MAGIC :: u64 where "MAGIC = push_bit 58 0x2a"
definition FLAG_FREE :: u64 where "FLAG_FREE = push_bit 57 1"
definition MAX_SIZE :: u64 where "MAX_SIZE = push_bit 57 1 - 1"

definition hdr_size :: "u64 \<Rightarrow> u64" where
  "hdr_size h = h AND MAX_SIZE"

definition FREE_BLOCK :: "u64 \<Rightarrow> u64" where
  "FREE_BLOCK s = MAGIC OR FLAG_FREE OR (s AND MAX_SIZE)"

definition USED_BLOCK :: "u64 \<Rightarrow> u64" where
  "USED_BLOCK s = MAGIC OR (s AND MAX_SIZE)"

definition IS_FREE :: "u64 \<Rightarrow> bool" where
  "IS_FREE h \<longleftrightarrow> h AND (MAGIC OR FLAG_FREE) = MAGIC OR FLAG_FREE"

definition HAS_MAGIC :: "u64 \<Rightarrow> bool" where
  "HAS_MAGIC h \<longleftrightarrow> h AND MAGIC = MAGIC"

definition read_hdr :: "bytes \<Rightarrow> nat \<Rightarrow> u64 res" where
  "read_hdr m p = map_res (\<lambda>x. word_of_nat (le_val x)) (of_opt (slice m p 8))"

definition write_hdr :: "bytes \<Rightarrow> nat \<Rightarrow> u64 \<Rightarrow> bytes res" where
  "write_hdr m p h = of_opt (put m p (le_bytes 8 (unat h)))"

subsection \<open>Allocation\<close>

text \<open>\<open>len\<close> is the aligned length; \<open>ptr\<close> walks the headers.\<close>

function alloc_loop :: "int \<Rightarrow> bytes \<Rightarrow> nat \<Rightarrow> (nat option \<times> bytes) res" where
  "alloc_loop len m p =
     andthen (read_hdr m p) (\<lambda>h.
       let sz = as_int (hdr_size h) in
       if \<not> HAS_MAGIC h \<or> sz = 0 then Fault Died
       else if sz < 0 then Fault Overflow
       else if h AND FLAG_FREE \<noteq> 0 \<and> len \<le> sz then
         (let nsize = sz - (8 + len) in
          if nsize > 0 then
            andthen (write_hdr m p (USED_BLOCK (word_of_int len))) (\<lambda>m.
            andthen (write_hdr m (p + 8 + nat len) (FREE_BLOCK (word_of_int nsize))) (\<lambda>m.
              Ok (Some (p + 8), m)))
          else map_res (\<lambda>m. (Some (p + 8), m)) (write_hdr m p (USED_BLOCK (word_of_int sz))))
       else if p + 8 + nat sz < length m then alloc_loop len m (p + 8 + nat sz)
       else Ok (None, m))"
  by pat_completeness auto

termination
  by (relation "measure (\<lambda>(len, m, p). length m - p)") auto

declare alloc_loop.simps [simp del]

definition alloc :: "int \<Rightarrow> bytes \<Rightarrow> (nat option \<times> bytes) res" where
  "alloc len0 m =
     (let len = as_int (align8 (word_of_int len0)) in
      if len = 0 \<or> (word_of_int len :: u64) > MAX_SIZE then Ok (None, m)
      else andthen (read_hdr m 0) (\<lambda>h.
        andthen (if HAS_MAGIC h then Ok m
                 else write_hdr m 0 (FREE_BLOCK (word_of_nat (length m) - 8))) (\<lambda>m.
          alloc_loop len m 0)))"

definition malloc :: "u64 \<Rightarrow> bytes \<Rightarrow> (nat option \<times> bytes) res" where
  "malloc sz m = alloc (as_int sz) m"

definition calloc :: "u64 \<Rightarrow> u64 \<Rightarrow> bytes \<Rightarrow> (nat option \<times> bytes) res" where
  "calloc nmemb sz m =
     (let total = nmemb * sz in
      andthen (alloc (as_int total) m) (\<lambda>(r, m).
        case r of None \<Rightarrow> Ok (None, m)
        | Some p \<Rightarrow> map_res (Pair (Some p)) (of_opt (put m p (replicate (unat total) 0)))))"

subsection \<open>Freeing\<close>

lemma write_hdr_length: "write_hdr m p h = Ok m' \<Longrightarrow> length m' = length m"
  by (simp add: write_hdr_def put_length)

text \<open>The inner loop of \<open>_consolidate\<close>: the memory, \<open>nptr\<close> and the size in 32 bits.\<close>

function merge_free :: "bytes \<Rightarrow> nat \<Rightarrow> u32 \<Rightarrow> (bytes \<times> nat \<times> u32) res" where
  "merge_free m n sz =
     (if n < length m then
        andthen (read_hdr m n) (\<lambda>h.
          if \<not> IS_FREE h then Ok (m, n, sz)
          else andthen (write_hdr m n 0) (\<lambda>m.
            merge_free m (n + 8 + unat (hdr_size h)) (sz + (ucast (hdr_size h) + 8))))
      else Ok (m, n, sz))"
  by pat_completeness auto

termination
  by (relation "measure (\<lambda>(m, n, sz). length m - n)") (auto dest!: write_hdr_length)

declare merge_free.simps [simp del]

lemma merge_free_ge: "merge_free m n sz = Ok (m', n', sz') \<Longrightarrow> length m' = length m \<and> n \<le> n'"
proof (induction m n sz rule: merge_free.induct)
  case (1 m n sz)
  show ?case
  proof (cases "\<exists>h m1. n < length m \<and> read_hdr m n = Ok h \<and> IS_FREE h \<and> write_hdr m n 0 = Ok m1")
    case True
    then obtain h m1 where h: "n < length m" "read_hdr m n = Ok h" "\<not> \<not> IS_FREE h" "write_hdr m n 0 = Ok m1"
      by blast
    with "1.prems" "1.IH" [OF h] write_hdr_length [OF h(4)] show ?thesis
      by (simp add: merge_free.simps [of m n sz])
  next
    case False
    with "1.prems" show ?thesis
      by (auto simp: merge_free.simps [of m n sz] andthen_Ok_iff split: if_splits)
  qed
qed

text \<open>The outer loop: \<open>ptr\<close> walks the headers.\<close>

function consolidate_from :: "bytes \<Rightarrow> nat \<Rightarrow> bytes res" where
  "consolidate_from m p =
     (if p < length m then
        andthen (read_hdr m p) (\<lambda>h.
          if \<not> IS_FREE h then consolidate_from m (p + 8 + unat (hdr_size h))
          else andthen (merge_free m (p + 8 + unat (hdr_size h)) (ucast (hdr_size h))) (\<lambda>(m, n, sz).
            andthen (write_hdr m p (FREE_BLOCK (ucast sz))) (\<lambda>m. consolidate_from m n)))
      else Ok m)"
  by pat_completeness auto

termination
  by (relation "measure (\<lambda>(m, p). length m - p)") (auto dest!: write_hdr_length merge_free_ge)

declare consolidate_from.simps [simp del]

definition consolidate :: "bytes \<Rightarrow> bytes res" where
  "consolidate m = consolidate_from m 0"

text \<open>A pointer outside the region is ignored; so are one without a header and a free block.\<close>

definition free :: "nat \<Rightarrow> bytes \<Rightarrow> bytes res" where
  "free p m =
     (if length m \<le> p then Ok m
      else if p < 8 then Fault OutOfBounds
      else andthen (read_hdr m (p - 8)) (\<lambda>h.
        if \<not> HAS_MAGIC h then Ok m
        else if h AND FLAG_FREE \<noteq> 0 then Ok m
        else andthen (write_hdr m (p - 8) (FREE_BLOCK (hdr_size h))) consolidate))"

definition realloc :: "nat option \<Rightarrow> u64 \<Rightarrow> bytes \<Rightarrow> (nat option \<times> bytes) res" where
  "realloc ptr sz m =
     (case ptr of None \<Rightarrow> alloc (as_int sz) m
      | Some p \<Rightarrow>
          if p < 8 then Fault OutOfBounds
          else andthen (read_hdr m (p - 8)) (\<lambda>h.
            if \<not> HAS_MAGIC h then Ok (None, m)
            else (let osize = (ucast (hdr_size h) :: u32) in
              andthen (free p m) (\<lambda>m.
              andthen (alloc (as_int sz) m) (\<lambda>(r, m).
                case r of None \<Rightarrow> Ok (None, m)
                | Some q \<Rightarrow>
                    if q = p then Ok (Some p, m)
                    else andthen (of_opt (slice m p (if ucast osize > sz then unat sz else unat osize))) (\<lambda>xs.
                      map_res (Pair (Some q)) (of_opt (put m q xs))))))))"

subsection \<open>Reading and writing headers\<close>

definition header :: "nat \<Rightarrow> bool \<Rightarrow> u64" where
  "header n f = (if f then FREE_BLOCK (word_of_nat n) else USED_BLOCK (word_of_nat n))"

lemma hdr_size_take_bit: "hdr_size h = take_bit 57 h"
proof -
  have "MAX_SIZE = mask 57" by (simp add: MAX_SIZE_def mask_eq_exp_minus_1)
  then show ?thesis by (simp add: hdr_size_def take_bit_eq_mask)
qed

lemma flag_bits: "bit FLAG_FREE i \<longleftrightarrow> i = 57" "bit MAGIC 57 = False" "take_bit 57 MAGIC = 0" "take_bit 57 FLAG_FREE = 0"
proof -
  show "bit FLAG_FREE i \<longleftrightarrow> i = 57" unfolding FLAG_FREE_def bit_push_bit_iff bit_1_iff by auto
qed (simp_all add: MAGIC_def FLAG_FREE_def)

lemma header_free_iff: "header n f AND FLAG_FREE \<noteq> 0 \<longleftrightarrow> f"
proof -
  have "header n f AND FLAG_FREE = (if f then FLAG_FREE else 0)"
    by (rule bit_word_eqI)
      (auto simp: header_def FREE_BLOCK_def USED_BLOCK_def flag_bits hdr_size_take_bit [unfolded hdr_size_def] bit_simps)
  moreover have "FLAG_FREE \<noteq> 0" by (simp add: FLAG_FREE_def)
  ultimately show ?thesis by simp
qed

lemma header_magic: "HAS_MAGIC (header n f)"
  unfolding HAS_MAGIC_def by (rule bit_word_eqI) (auto simp: header_def FREE_BLOCK_def USED_BLOCK_def bit_simps)

lemma IS_FREE_split: "IS_FREE h \<longleftrightarrow> HAS_MAGIC h \<and> h AND FLAG_FREE \<noteq> 0"
proof
  assume a: "IS_FREE h"
  have "bit h i" if "bit (MAGIC OR FLAG_FREE) i" for i
    using a that unfolding IS_FREE_def by (metis bit_and_iff)
  then have b: "bit h i" if "bit MAGIC i \<or> i = 57" for i using that by (auto simp: bit_simps flag_bits)
  have "h AND MAGIC = MAGIC" by (rule bit_word_eqI) (auto simp: bit_simps b)
  moreover have "bit (h AND FLAG_FREE) 57" by (simp add: bit_simps flag_bits b)
  ultimately show "HAS_MAGIC h \<and> h AND FLAG_FREE \<noteq> 0" unfolding HAS_MAGIC_def by (metis bit_0_eq bot_apply bot_bool_def)
next
  assume a: "HAS_MAGIC h \<and> h AND FLAG_FREE \<noteq> 0"
  have m: "bit h i" if "bit MAGIC i" for i using a that unfolding HAS_MAGIC_def by (metis bit_and_iff)
  have "bit h 57"
  proof (rule ccontr)
    assume "\<not> bit h 57"
    then have "h AND FLAG_FREE = 0" by (intro bit_word_eqI) (auto simp: bit_simps flag_bits)
    with a show False by simp
  qed
  then show "IS_FREE h" unfolding IS_FREE_def
    by (intro bit_word_eqI) (auto simp: bit_simps flag_bits m)
qed

lemma header_IS_FREE: "IS_FREE (header n f) \<longleftrightarrow> f"
  by (simp add: IS_FREE_split header_magic header_free_iff)

lemma unat_hdr_size_header: "n < 2147483648 \<Longrightarrow> unat (hdr_size (header n f)) = n"
proof -
  assume n: "n < 2147483648"
  have "hdr_size (header n f) = take_bit 57 (word_of_nat n)"
    by (auto simp: hdr_size_take_bit header_def FREE_BLOCK_def USED_BLOCK_def
        hdr_size_take_bit [unfolded hdr_size_def] flag_bits)
  then show ?thesis using n by (simp add: unsigned_take_bit_eq unat_u64_of_nat take_bit_nat_eq_self)
qed

lemma ucast_hdr_size: "n < 2147483648 \<Longrightarrow> ucast (hdr_size (header n f)) = (word_of_nat n :: u32)"
proof -
  assume n: "n < 2147483648"
  have "word_of_nat (unat (hdr_size (header n f))) = (ucast (hdr_size (header n f)) :: u32)"
    by (simp add: unsigned_def)
  then show ?thesis by (simp add: unat_hdr_size_header [OF n])
qed

lemma as_int_hdr_size: "n < 2147483648 \<Longrightarrow> as_int (hdr_size (header n f)) = int n"
  using as_int_small [of "hdr_size (header n f)"] by (simp add: unat_hdr_size_header)

lemma read_hdr_slice: "slice m p 8 = Some (le_bytes 8 (unat h)) \<Longrightarrow> read_hdr m p = Ok h"
  using unat_u64_less [of h] by (simp add: read_hdr_def le_val_le_bytes)

lemma write_hdr_Ok:
  assumes "p + 8 \<le> length m"
  shows "\<exists>m'. write_hdr m p h = Ok m' \<and> frame m m' {p..<p + 8} \<and> slice m' p 8 = Some (le_bytes 8 (unat h))"
proof -
  obtain m' where m': "put m p (le_bytes 8 (unat h)) = Some m'" using assms by (auto simp: put_def)
  from slice_put_same [OF m'] frame_put [OF m' order_refl] m' show ?thesis by (auto simp: write_hdr_def)
qed

subsection \<open>The blocks of a region\<close>

type_synonym block = "nat \<times> bool"

fun heap_at :: "bytes \<Rightarrow> nat \<Rightarrow> block list \<Rightarrow> bool" where
  "heap_at m p [] \<longleftrightarrow> p = length m"
| "heap_at m p ((n, f) # bs) \<longleftrightarrow> 0 < n \<and> n < 2147483648 \<and> 8 dvd n \<and>
     slice m p 8 = Some (le_bytes 8 (unat (header n f))) \<and> heap_at m (p + 8 + n) bs"

definition heap_ok :: "bytes \<Rightarrow> block list \<Rightarrow> bool" where
  "heap_ok m bs \<longleftrightarrow> bs \<noteq> [] \<and> length m < 2147483648 \<and> heap_at m 0 bs"

fun blocks_size :: "block list \<Rightarrow> nat" where
  "blocks_size [] = 0"
| "blocks_size ((n, f) # bs) = 8 + n + blocks_size bs"

fun free_space :: "nat \<Rightarrow> block list \<Rightarrow> nat set" where
  "free_space p [] = {}"
| "free_space p ((n, f) # bs) = (if f then {p..<p + 8 + n} else {}) \<union> free_space (p + 8 + n) bs"

lemma blocks_size_append: "blocks_size (xs @ ys) = blocks_size xs + blocks_size ys"
  by (induction xs rule: blocks_size.induct) auto

lemma heap_at_size: "heap_at m p bs \<Longrightarrow> p + blocks_size bs = length m"
  by (induction m p bs rule: heap_at.induct) auto

lemma heap_at_le: "heap_at m p bs \<Longrightarrow> p \<le> length m \<and> (bs = [] \<longleftrightarrow> \<not> p < length m)"
  using heap_at_size [of m p bs] by (cases bs) auto

lemma free_space_bounds: "free_space p bs \<subseteq> {p..<p + blocks_size bs}"
proof (induction p bs rule: free_space.induct)
  case (2 p n f bs)
  have "free_space p ((n, f) # bs) \<subseteq> {p..<p + 8 + n} \<union> free_space (p + 8 + n) bs" by auto
  also have "\<dots> \<subseteq> {p..<p + blocks_size ((n, f) # bs)}" using "2" by fastforce
  finally show ?case .
qed simp

lemma heap_at_frame:
  "heap_at m p bs \<Longrightarrow> frame m m' A \<Longrightarrow> A \<inter> {p..<p + blocks_size bs} = {} \<Longrightarrow> heap_at m' p bs"
proof (induction bs arbitrary: p)
  case Nil
  then show ?case by (simp add: frame_length)
next
  case (Cons b bs)
  obtain n f where b: "b = (n, f)" by (cases b)
  have "{p..<p + 8} \<inter> A = {}" "A \<inter> {p + 8 + n..<p + 8 + n + blocks_size bs} = {}"
    using Cons.prems(3) by (auto simp: b disjoint_iff)
  with Cons.prems(1,2) Cons.IH [of "p + 8 + n"] show ?case
    by (simp add: b slice_frame [OF Cons.prems(2)])
qed

text \<open>First fit on the list of blocks; \<open>p\<close> is where its first header lies.\<close>

definition carve :: "nat \<Rightarrow> nat \<Rightarrow> block list" where
  "carve len n = (if 8 + len < n then [(len, False), (n - (8 + len), True)] else [(n, False)])"

fun alloc_blocks :: "nat \<Rightarrow> nat \<Rightarrow> block list \<Rightarrow> nat option \<times> block list" where
  "alloc_blocks len p [] = (None, [])"
| "alloc_blocks len p ((n, f) # bs) =
     (if f \<and> len \<le> n
      then (Some (p + 8), carve len n @ bs)
      else (case alloc_blocks len (p + 8 + n) bs of (r, bs') \<Rightarrow> (r, (n, f) # bs')))"

lemma alloc_split:
  assumes at: "heap_at m p ((n, True) # bs)" and len: "0 < len" "8 dvd len" "8 + len < n" and m: "length m < 2147483648"
  shows "\<exists>m'. andthen (write_hdr m p (USED_BLOCK (word_of_nat len))) (\<lambda>m.
      andthen (write_hdr m (p + 8 + len) (FREE_BLOCK (word_of_nat (n - (8 + len))))) (\<lambda>m. Ok (Some (p + 8), m))) =
      Ok (Some (p + 8), m') \<and>
    heap_at m' p ((len, False) # (n - (8 + len), True) # bs) \<and> frame m m' {p..<p + 8 + n}"
proof -
  have sz: "p + 8 + n \<le> length m" using heap_at_size [OF at] by simp
  obtain m1 where m1: "write_hdr m p (USED_BLOCK (word_of_nat len)) = Ok m1" "frame m m1 {p..<p + 8}"
    "slice m1 p 8 = Some (le_bytes 8 (unat (USED_BLOCK (word_of_nat len))))"
    using write_hdr_Ok [of p m] sz by auto
  obtain m2 where m2: "write_hdr m1 (p + 8 + len) (FREE_BLOCK (word_of_nat (n - (8 + len)))) = Ok m2"
    "frame m1 m2 {p + 8 + len..<p + 8 + len + 8}"
    "slice m2 (p + 8 + len) 8 = Some (le_bytes 8 (unat (FREE_BLOCK (word_of_nat (n - (8 + len))))))"
    using write_hdr_Ok [of "p + 8 + len" m1] sz len(3) frame_length [OF m1(2)] by auto
  have fr: "frame m m2 {p..<p + 8 + n}"
    by (rule frame_trans [OF m1(2) m2(2)]) (use len in auto)
  have "slice m2 p 8 = slice m1 p 8" by (rule slice_frame [OF m2(2)]) auto
  moreover have "heap_at m2 (p + 8 + n) bs"
    using at by (intro heap_at_frame [OF _ fr]) auto
  moreover have "8 dvd n - (8 + len)" "n - (8 + len) < 2147483648" using at len(2) by auto
  ultimately show ?thesis
    using m1 m2 fr len at by (simp add: header_def ac_simps)
qed

lemma alloc_whole:
  assumes at: "heap_at m p ((n, True) # bs)"
  shows "\<exists>m'. write_hdr m p (USED_BLOCK (word_of_nat n)) = Ok m' \<and>
    heap_at m' p ((n, False) # bs) \<and> frame m m' {p..<p + 8 + n}"
proof -
  have "p + 8 \<le> length m" using heap_at_size [OF at] by simp
  then obtain m' where m': "write_hdr m p (USED_BLOCK (word_of_nat n)) = Ok m'" "frame m m' {p..<p + 8}"
    "slice m' p 8 = Some (le_bytes 8 (unat (USED_BLOCK (word_of_nat n))))"
    using write_hdr_Ok by blast
  have "heap_at m' (p + 8 + n) bs" using at by (intro heap_at_frame [OF _ m'(2)]) auto
  then have "heap_at m' p ((n, False) # bs)" using at m'(3) by (simp add: header_def)
  moreover have "frame m m' {p..<p + 8 + n}" by (rule frame_mono [OF m'(2)]) auto
  ultimately show ?thesis using m'(1) by blast
qed

lemma alloc_loop_step:
  assumes "read_hdr m p = Ok (header n f)" and "0 < n" and "n < 2147483648"
  shows "alloc_loop (int len) m p =
    (if f \<and> len \<le> n then
       if 8 + len < n then
         andthen (write_hdr m p (USED_BLOCK (word_of_nat len))) (\<lambda>m.
         andthen (write_hdr m (p + 8 + len) (FREE_BLOCK (word_of_nat (n - (8 + len))))) (\<lambda>m.
           Ok (Some (p + 8), m)))
       else map_res (\<lambda>m. (Some (p + 8), m)) (write_hdr m p (USED_BLOCK (word_of_nat n)))
     else if p + 8 + n < length m then alloc_loop (int len) m (p + 8 + n)
     else Ok (None, m))"
proof -
  have w: "word_of_int (int n - (8 + int len)) = (word_of_nat (n - (8 + len)) :: u64)" if "8 + len < n"
  proof -
    have "int n - (8 + int len) = int (n - (8 + len))" using that by simp
    then show ?thesis by (metis of_int_of_nat_eq)
  qed
  have sz: "as_int (hdr_size (header n f)) = int n" by (rule as_int_hdr_size [OF assms(3)])
  have n0: "(n = 0) = False" using assms(2) by simp
  have step: "alloc_loop (int len) m p =
    (if f \<and> len \<le> n then
       if int n - (8 + int len) > 0 then
         andthen (write_hdr m p (USED_BLOCK (word_of_int (int len)))) (\<lambda>m.
         andthen (write_hdr m (p + 8 + nat (int len)) (FREE_BLOCK (word_of_int (int n - (8 + int len))))) (\<lambda>m.
           Ok (Some (p + 8), m)))
       else map_res (\<lambda>m. (Some (p + 8), m)) (write_hdr m p (USED_BLOCK (word_of_int (int n))))
     else if p + 8 + nat (int n) < length m then alloc_loop (int len) m (p + 8 + nat (int n))
     else Ok (None, m))"
    by (subst alloc_loop.simps) (simp only: n0 assms(1) andthen.simps Let_def sz header_magic header_free_iff simp_thms
      of_nat_le_iff of_nat_eq_0_iff of_nat_less_0_iff if_False if_True)
  show ?thesis
  proof (cases "8 + len < n")
    case True
    then show ?thesis by (simp only: step w [OF True]) simp
  next
    case False
    then show ?thesis by (simp add: step)
  qed
qed

lemma alloc_loop_refines:
  assumes len: "0 < len" "8 dvd len"
  shows "heap_at m p bs \<Longrightarrow> bs \<noteq> [] \<Longrightarrow> length m < 2147483648 \<Longrightarrow>
    \<exists>m'. alloc_loop (int len) m p = Ok (fst (alloc_blocks len p bs), m') \<and>
      heap_at m' p (snd (alloc_blocks len p bs)) \<and> frame m m' (free_space p bs)"
proof (induction bs arbitrary: p)
  case (Cons b bs)
  obtain n f where b: "b = (n, f)" by (cases b)
  have at: "heap_at m p ((n, f) # bs)" using Cons.prems(1) b by simp
  have rest: "heap_at m (p + 8 + n) bs" using at by simp
  note step = alloc_loop_step [of m p n f len]
  have hdr: "read_hdr m p = Ok (header n f)" "0 < n" "n < 2147483648" using at by (auto intro: read_hdr_slice)
  show ?case
  proof (cases "f \<and> len \<le> n")
    case True
    have sub: "frame m m' (free_space p (b # bs))" if "frame m m' {p..<p + 8 + n}" for m'
      by (rule frame_mono [OF that]) (use True in \<open>auto simp: b\<close>)
    show ?thesis
    proof (cases "8 + len < n")
      case split: True
      from alloc_split [OF _ len split Cons.prems(3), of p bs] at True sub show ?thesis
        by (auto simp: step [OF hdr] b split carve_def)
    next
      case False
      from alloc_whole [of m p n bs] at True sub False show ?thesis
        by (auto simp: step [OF hdr] b carve_def)
    qed
  next
    case False
    show ?thesis
    proof (cases "bs = []")
      case True
      with False rest at show ?thesis by (auto simp: step [OF hdr] b)
    next
      case more: False
      obtain m' where m': "alloc_loop (int len) m (p + 8 + n) = Ok (fst (alloc_blocks len (p + 8 + n) bs), m')"
        "heap_at m' (p + 8 + n) (snd (alloc_blocks len (p + 8 + n) bs))" "frame m m' (free_space (p + 8 + n) bs)"
        using Cons.IH [OF rest more Cons.prems(3)] by blast
      have "slice m' p 8 = slice m p 8"
        by (rule slice_frame [OF m'(3)]) (use free_space_bounds [of "p + 8 + n" bs] in auto)
      moreover have "p + 8 + n < length m" using heap_at_le [OF rest] more by simp
      moreover have "frame m m' (free_space p (b # bs))"
        by (rule frame_mono [OF m'(3)]) (auto simp: b)
      ultimately show ?thesis using False at m'
        by (auto simp: step [OF hdr] b split_def)
    qed
  qed
qed simp

text \<open>The length an allocation takes, and the result of \<open>alloc\<close> on a region in use.\<close>

lemma aligned_len:
  assumes "0 < n" and "n + 7 < 2147483648"
  shows "as_int (align8 (word_of_int (int n))) = int (align_up n 8)" and "0 < align_up n 8"
    and "align_up n 8 < 2147483648" and "8 dvd align_up n 8" and "n \<le> align_up n 8"
proof -
  show le: "n \<le> align_up n 8" by (rule align_up_ge) simp
  show small: "align_up n 8 < 2147483648" using assms(2) by (simp add: align_up_def)
  show "0 < align_up n 8" using le assms(1) by simp
  show "8 dvd align_up n 8" by (rule align_up_dvd)
  have "unat (align8 (word_of_int (int n))) = align_up n 8"
    using unat_align8 [of "word_of_nat n"] assms(2) by (simp add: unat_u64_of_nat)
  then show "as_int (align8 (word_of_int (int n))) = int (align_up n 8)"
    using as_int_small small by metis
qed

lemma len_not_large: "k < 2147483648 \<Longrightarrow> \<not> (word_of_int (int k) :: u64) > MAX_SIZE"
  by (simp add: MAX_SIZE_def word_less_nat_alt unat_u64_of_nat not_less)

lemma alloc_refines:
  assumes ok: "heap_ok m bs" and n: "0 < n" "n + 7 < 2147483648"
  shows "\<exists>m'. alloc (int n) m = Ok (fst (alloc_blocks (align_up n 8) 0 bs), m') \<and>
    heap_at m' 0 (snd (alloc_blocks (align_up n 8) 0 bs)) \<and> frame m m' (free_space 0 bs)"
proof -
  obtain k f bs' where bs: "bs = (k, f) # bs'" using ok unfolding heap_ok_def by (cases bs) auto
  have "read_hdr m 0 = Ok (header k f)" using ok bs by (auto simp: heap_ok_def intro: read_hdr_slice)
  then have "alloc (int n) m = alloc_loop (int (align_up n 8)) m 0"
    using aligned_len(1,2) [OF n] len_not_large [OF aligned_len(3) [OF n]]
    by (simp only: alloc_def Let_def andthen.simps header_magic if_True if_False of_nat_eq_0_iff) simp
  with alloc_loop_refines [OF aligned_len(2,4) [OF n], of m 0 bs] ok show ?thesis
    by (simp add: heap_ok_def)
qed

lemma alloc_blocks_cases:
  "alloc_blocks len p bs = (r, bs') \<Longrightarrow>
    r = None \<and> bs' = bs \<and> (\<forall>b \<in> set bs. snd b \<longrightarrow> fst b < len) \<or>
    (\<exists>xs n ys. bs = xs @ (n, True) # ys \<and> len \<le> n \<and> (\<forall>b \<in> set xs. snd b \<longrightarrow> fst b < len) \<and>
       r = Some (p + blocks_size xs + 8) \<and> bs' = xs @ carve len n @ ys)"
proof (induction bs arbitrary: p r bs')
  case (Cons b bs)
  obtain n f where b: "b = (n, f)" by (cases b)
  show ?case
  proof (cases "f \<and> len \<le> n")
    case True
    have "b # bs = [] @ (n, True) # bs" using True b by simp
    moreover have "r = Some (p + blocks_size [] + 8)" "bs' = [] @ carve len n @ bs"
      using True Cons.prems b by auto
    ultimately show ?thesis using True by (metis empty_iff list.set(1))
  next
    case False
    obtain r1 bs1 where r1: "alloc_blocks len (p + 8 + n) bs = (r1, bs1)" by fastforce
    with Cons.prems False b have r: "r = r1" "bs' = (n, f) # bs1" by (auto split: if_splits)
    from Cons.IH [OF r1] show ?thesis
    proof (elim disjE exE conjE)
      fix xs n' ys
      assume "bs = xs @ (n', True) # ys" "len \<le> n'" "\<forall>b \<in> set xs. snd b \<longrightarrow> fst b < len"
        "r1 = Some (p + 8 + n + blocks_size xs + 8)" "bs1 = xs @ carve len n' @ ys"
      with r False b show ?thesis
        by (intro disjI2 exI [of _ "(n, f) # xs"] exI [of _ n'] exI [of _ ys]) auto
    qed (use r False b in auto)
  qed
qed simp

subsection \<open>Coalescing\<close>

text \<open>What \<open>_consolidate\<close> does to the blocks: every run of free blocks becomes one.\<close>

function coalesce :: "block list \<Rightarrow> block list" where
  "coalesce [] = []"
| "coalesce ((n, False) # bs) = (n, False) # coalesce bs"
| "coalesce ((n, True) # bs) = (n + blocks_size (takeWhile snd bs), True) # coalesce (dropWhile snd bs)"
  by pat_completeness auto

termination
  by (relation "measure length") (auto simp: le_imp_less_Suc length_dropWhile_le)

lemma blocks_size_split: "blocks_size (takeWhile snd bs) + blocks_size (dropWhile snd bs) = blocks_size bs"
  using blocks_size_append [of "takeWhile snd bs" "dropWhile snd bs"] by simp

lemma coalesce_size: "blocks_size (coalesce bs) = blocks_size bs"
proof (induction bs rule: coalesce.induct)
  case (3 n bs)
  then show ?case using blocks_size_split [of bs] by simp
qed simp_all

definition no_adjacent_free :: "block list \<Rightarrow> bool" where
  "no_adjacent_free bs \<longleftrightarrow> (\<forall>i. Suc i < length bs \<longrightarrow> \<not> (snd (bs ! i) \<and> snd (bs ! Suc i)))"

lemma coalesce_head: "coalesce bs \<noteq> [] \<Longrightarrow> snd (hd (coalesce bs)) = snd (hd bs)"
  by (cases bs rule: coalesce.cases) auto

lemma no_adjacent_Cons:
  "no_adjacent_free bs \<Longrightarrow> bs \<noteq> [] \<longrightarrow> \<not> (f \<and> snd (hd bs)) \<Longrightarrow> no_adjacent_free ((n, f) # bs)"
  unfolding no_adjacent_free_def by (auto simp: nth_Cons hd_conv_nth split: nat.split)

lemma coalesce_no_adjacent: "no_adjacent_free (coalesce bs)"
proof (induction bs rule: coalesce.induct)
  case 1
  then show ?case by (simp add: no_adjacent_free_def)
next
  case (2 n bs)
  then show ?case by (simp add: no_adjacent_Cons)
next
  case (3 n bs)
  have "\<not> snd (hd (coalesce (dropWhile snd bs)))" if "coalesce (dropWhile snd bs) \<noteq> []"
    using coalesce_head [OF that] that hd_dropWhile [of snd bs] by (metis coalesce.simps(1))
  with 3 show ?case by (auto intro: no_adjacent_Cons)
qed

lemma merge_free_refines:
  "heap_at m n bs \<Longrightarrow> k + blocks_size bs < 2147483648 \<Longrightarrow>
     \<exists>m'. merge_free m n (word_of_nat k) =
         Ok (m', n + blocks_size (takeWhile snd bs), word_of_nat (k + blocks_size (takeWhile snd bs))) \<and>
       heap_at m' (n + blocks_size (takeWhile snd bs)) (dropWhile snd bs) \<and>
       frame m m' {n..<n + blocks_size (takeWhile snd bs)}"
proof (induction bs arbitrary: m n k)
  case Nil
  then show ?case by (simp add: merge_free.simps [of m "length m"])
next
  case (Cons b bs)
  obtain c f where b: "b = (c, f)" by (cases b)
  have at: "heap_at m n ((c, f) # bs)" using Cons.prems(1) b by simp
  have hdr: "read_hdr m n = Ok (header c f)" "c < 2147483648" "heap_at m (n + 8 + c) bs"
    using at by (auto intro: read_hdr_slice)
  have lt: "n < length m" "n + 8 \<le> length m" using heap_at_size [OF at] by auto
  show ?case
  proof (cases f)
    case False
    with hdr lt at show ?thesis by (simp add: merge_free.simps [of m n] b header_IS_FREE)
  next
    case True
    obtain m1 where m1: "write_hdr m n 0 = Ok m1" "frame m m1 {n..<n + 8}"
      using write_hdr_Ok [OF lt(2), of 0] by blast
    have at1: "heap_at m1 (n + 8 + c) bs" by (rule heap_at_frame [OF hdr(3) m1(2)]) auto
    have "k + 8 + c + blocks_size bs < 2147483648" using Cons.prems(2) by (simp add: b)
    from Cons.IH [OF at1 this] obtain m' where m': "merge_free m1 (n + 8 + c) (word_of_nat (k + 8 + c)) =
        Ok (m', n + 8 + c + blocks_size (takeWhile snd bs), word_of_nat (k + 8 + c + blocks_size (takeWhile snd bs)))"
      "heap_at m' (n + 8 + c + blocks_size (takeWhile snd bs)) (dropWhile snd bs)"
      "frame m1 m' {n + 8 + c..<n + 8 + c + blocks_size (takeWhile snd bs)}" by blast
    have h: "unat (hdr_size (header c True)) = c" "ucast (hdr_size (header c True)) = (word_of_nat c :: u32)"
      by (simp_all add: unat_hdr_size_header [OF hdr(2)] ucast_hdr_size [OF hdr(2)])
    have "merge_free m n (word_of_nat k) = merge_free m1 (n + 8 + c) (word_of_nat (k + 8 + c))"
      using hdr True lt(1) m1(1) h
      by (simp add: merge_free.simps [of m n] header_IS_FREE algebra_simps)
    moreover have "frame m m' {n..<n + blocks_size (takeWhile snd (b # bs))}"
      by (rule frame_trans [OF m1(2) m'(3)]) (use True in \<open>auto simp: b\<close>)
    ultimately show ?thesis using True m' by (simp add: b algebra_simps)
  qed
qed

lemma blocks_size_dvd: "heap_at m p bs \<Longrightarrow> 8 dvd blocks_size bs"
  by (induction m p bs rule: heap_at.induct) auto

lemma heap_at_append: "heap_at m p (xs @ ys) \<Longrightarrow> heap_at m (p + blocks_size xs) ys"
proof (induction xs arbitrary: p rule: blocks_size.induct)
  case (2 n f bs)
  from "2.IH" [of "p + 8 + n"] "2.prems" show ?case by (simp add: add.assoc)
qed simp

lemma free_space_append:
  "free_space p (xs @ ys) = free_space p xs \<union> free_space (p + blocks_size xs) ys"
  by (induction xs arbitrary: p rule: blocks_size.induct) (auto simp: add.assoc)

lemma free_space_all: "\<forall>b \<in> set bs. snd b \<Longrightarrow> free_space p bs = {p..<p + blocks_size bs}"
proof (induction p bs rule: free_space.induct)
  case (2 p n f bs)
  then have "free_space (p + 8 + n) bs = {p + 8 + n..<p + 8 + n + blocks_size bs}" "f" by auto
  then show ?case by auto
qed simp

lemma consolidate_refines:
  "heap_at m p bs \<Longrightarrow> blocks_size bs < 2147483648 \<Longrightarrow>
     \<exists>m'. consolidate_from m p = Ok m' \<and> heap_at m' p (coalesce bs) \<and> frame m m' (free_space p bs)"
proof (induction bs arbitrary: m p rule: coalesce.induct)
  case 1
  then show ?case by (simp add: consolidate_from.simps [of m "length m"])
next
  case (2 n bs)
  have hdr: "read_hdr m p = Ok (header n False)" "n < 2147483648" "heap_at m (p + 8 + n) bs" "p < length m"
    using "2.prems" heap_at_size [OF "2.prems"(1)] by (auto intro: read_hdr_slice)
  from "2.IH" [OF hdr(3)] "2.prems"(2) obtain m' where m': "consolidate_from m (p + 8 + n) = Ok m'"
    "heap_at m' (p + 8 + n) (coalesce bs)" "frame m m' (free_space (p + 8 + n) bs)" by auto
  have "slice m' p 8 = slice m p 8"
    by (rule slice_frame [OF m'(3)]) (use free_space_bounds [of "p + 8 + n" bs] in auto)
  with hdr m' "2.prems"(1) show ?case
    by (simp add: consolidate_from.simps [of m p] header_IS_FREE unat_hdr_size_header)
next
  case (3 n bs)
  let ?fs = "takeWhile snd bs" and ?rs = "dropWhile snd bs"
  let ?k = "n + blocks_size ?fs"
  have at: "heap_at m p ((n, True) # bs)" using "3.prems"(1) .
  have hdr: "read_hdr m p = Ok (header n True)" "n < 2147483648" "heap_at m (p + 8 + n) bs" "p + 8 + n \<le> length m"
    using at heap_at_size [OF at] by (auto intro: read_hdr_slice)
  have k: "?k < 2147483648" "n + blocks_size bs < 2147483648" "8 + ?k + blocks_size ?rs = 8 + n + blocks_size bs"
    using "3.prems"(2) blocks_size_split [of bs] by simp_all
  obtain m1 where m1: "merge_free m (p + 8 + n) (word_of_nat n) = Ok (m1, p + 8 + ?k, word_of_nat ?k)"
    "heap_at m1 (p + 8 + ?k) ?rs" "frame m m1 {p + 8 + n..<p + 8 + ?k}"
    using merge_free_refines [OF hdr(3) k(2)] by (auto simp: add.assoc)
  obtain m2 where m2: "write_hdr m1 p (FREE_BLOCK (word_of_nat ?k)) = Ok m2" "frame m1 m2 {p..<p + 8}"
    "slice m2 p 8 = Some (le_bytes 8 (unat (header ?k True)))"
    using write_hdr_Ok [of p m1 "FREE_BLOCK (word_of_nat ?k)"] hdr(4) frame_length [OF m1(3)]
    by (auto simp: header_def)
  have at2: "heap_at m2 (p + 8 + ?k) ?rs" by (rule heap_at_frame [OF m1(2) m2(2)]) auto
  obtain m' where m': "consolidate_from m2 (p + 8 + ?k) = Ok m'"
    "heap_at m' (p + 8 + ?k) (coalesce ?rs)" "frame m2 m' (free_space (p + 8 + ?k) ?rs)"
    using "3.IH" [OF at2] k "3.prems"(2) by auto
  have cast: "ucast (word_of_nat ?k :: u32) = (word_of_nat ?k :: u64)"
    using k(1) by (intro word_unat_eq_iff [THEN iffD2]) (simp add: unat_u32_of_nat unat_u64_of_nat del: of_nat_add)
  have "consolidate_from m p = Ok m'"
    using hdr m1(1) m2(1) m'(1) cast
    by (simp add: consolidate_from.simps [of m p] header_IS_FREE unat_hdr_size_header ucast_hdr_size del: of_nat_add)
  moreover have "slice m' p 8 = slice m2 p 8"
    by (rule slice_frame [OF m'(3)]) (use free_space_bounds [of "p + 8 + ?k" ?rs] in auto)
  moreover have "8 dvd blocks_size ?fs"
    using blocks_size_dvd [OF m1(2)] blocks_size_dvd [OF hdr(3)] blocks_size_split [of bs]
    by (metis dvd_add_left_iff)
  then have "8 dvd ?k" using at by simp
  moreover have "frame m m' (free_space p ((n, True) # bs))"
  proof (rule frame_trans [OF frame_Un [OF m1(3) m2(2)] m'(3)])
    have all: "\<forall>b \<in> set ?fs. snd b" by (auto dest: set_takeWhileD)
    have "free_space (p + 8 + n) bs = {p + 8 + n..<p + 8 + ?k} \<union> free_space (p + 8 + ?k) ?rs"
      using free_space_append [of "p + 8 + n" ?fs ?rs]
      by (simp only: takeWhile_dropWhile_id free_space_all [OF all] add.assoc)
    then show "({p + 8 + n..<p + 8 + ?k} \<union> {p..<p + 8}) \<union> free_space (p + 8 + ?k) ?rs \<subseteq> free_space p ((n, True) # bs)"
      by auto
  qed
  ultimately show ?case using m2(3) m'(2) at k(1) by (simp add: add.assoc)
qed

subsection \<open>The allocator\<close>

lemma heap_ok_of:
  assumes "heap_at m' 0 bs'" and "frame m m' A" and "length m < 2147483648" and "bs' \<noteq> []"
  shows "heap_ok m' bs'"
  using assms by (simp add: heap_ok_def frame_length)

text \<open>
  C18. On a well-formed region \<open>malloc\<close> takes the first free block that is large enough and
  gives the rest of it back as a free block; it returns NULL only when no free block fits.
  The region stays well formed and nothing outside the free blocks changes.
\<close>

theorem malloc_first_fit:
  assumes "heap_ok m bs" and "0 < unat sz" and "unat sz + 7 < 2147483648"
  shows "\<exists>r m' bs'. malloc sz m = Ok (r, m') \<and> heap_ok m' bs' \<and> frame m m' (free_space 0 bs) \<and>
    (let len = align_up (unat sz) 8 in
     r = None \<and> bs' = bs \<and> (\<forall>b \<in> set bs. snd b \<longrightarrow> fst b < len) \<or>
     (\<exists>xs n ys. bs = xs @ (n, True) # ys \<and> len \<le> n \<and> (\<forall>b \<in> set xs. snd b \<longrightarrow> fst b < len) \<and>
        r = Some (blocks_size xs + 8) \<and> bs' = xs @ carve len n @ ys))"
proof -
  let ?len = "align_up (unat sz) 8"
  obtain r bs' where r: "alloc_blocks ?len 0 bs = (r, bs')" by fastforce
  have "as_int sz = int (unat sz)" using assms(3) by (intro as_int_small) simp
  with alloc_refines [OF assms] r obtain m' where m': "malloc sz m = Ok (r, m')" "heap_at m' 0 bs'"
    "frame m m' (free_space 0 bs)" by (auto simp: malloc_def)
  have cases: "r = None \<and> bs' = bs \<and> (\<forall>b \<in> set bs. snd b \<longrightarrow> fst b < ?len) \<or>
     (\<exists>xs n ys. bs = xs @ (n, True) # ys \<and> ?len \<le> n \<and> (\<forall>b \<in> set xs. snd b \<longrightarrow> fst b < ?len) \<and>
        r = Some (blocks_size xs + 8) \<and> bs' = xs @ carve ?len n @ ys)"
    using alloc_blocks_cases [OF r] by simp
  then have "bs' \<noteq> []" using assms(1) by (auto simp: heap_ok_def carve_def split: if_splits)
  with m' assms(1) have "heap_ok m' bs'" by (intro heap_ok_of [OF m'(2,3)]) (auto simp: heap_ok_def)
  with m' cases show ?thesis unfolding Let_def by blast
qed

lemma heap_at_set_flag:
  assumes "write_hdr m (p + blocks_size xs) (header n f') = Ok m'" and "n < 2147483648"
    and "frame m m' {p + blocks_size xs..<p + blocks_size xs + 8}"
    and "slice m' (p + blocks_size xs) 8 = Some (le_bytes 8 (unat (header n f')))"
  shows "heap_at m p (xs @ (n, f) # ys) \<Longrightarrow> heap_at m' p (xs @ (n, f') # ys)"
  using assms
proof (induction xs arbitrary: p)
  case Nil
  have "heap_at m' (p + 8 + n) ys" using Nil by (intro heap_at_frame [of m _ _ m']) auto
  with Nil show ?case by simp
next
  case (Cons b xs)
  obtain k g where b: "b = (k, g)" by (cases b)
  have eq: "p + blocks_size (b # xs) = p + 8 + k + blocks_size xs" by (simp add: b)
  have "slice m' p 8 = slice m p 8" by (rule slice_frame [OF Cons.prems(4)]) (auto simp: b)
  moreover have "heap_at m' (p + 8 + k) (xs @ (n, f') # ys)"
    using Cons.prems by (intro Cons.IH) (simp_all add: b add.assoc)
  ultimately show ?case using Cons.prems(1) by (simp add: b)
qed

lemma free_refines:
  assumes "heap_ok m (xs @ (n, False) # ys)"
  shows "\<exists>m'. free (blocks_size xs + 8) m = Ok m' \<and> heap_ok m' (coalesce (xs @ (n, True) # ys)) \<and>
    frame m m' (free_space 0 (xs @ (n, True) # ys))"
proof -
  let ?p = "blocks_size xs"
  have at: "heap_at m 0 (xs @ (n, False) # ys)" and len: "length m < 2147483648"
    using assms by (auto simp: heap_ok_def)
  from heap_at_append [OF at] have n: "read_hdr m ?p = Ok (header n False)" "0 < n" "n < 2147483648"
    by (auto intro: read_hdr_slice)
  have sz: "blocks_size (xs @ (n, False) # ys) = length m" using heap_at_size [OF at] by simp
  then have p: "?p + 8 + n \<le> length m" by (simp add: blocks_size_append)
  obtain m1 where m1: "write_hdr m ?p (header n True) = Ok m1" "frame m m1 {?p..<?p + 8}"
    "slice m1 ?p 8 = Some (le_bytes 8 (unat (header n True)))"
    using write_hdr_Ok [of ?p m "header n True"] p by auto
  have at1: "heap_at m1 0 (xs @ (n, True) # ys)"
    using heap_at_set_flag [of m 0 xs n True m1 False ys] m1 n(3) at by simp
  have "blocks_size (xs @ (n, True) # ys) < 2147483648" using sz len by (simp add: blocks_size_append)
  from consolidate_refines [OF at1 this] obtain m' where m': "consolidate m1 = Ok m'"
    "heap_at m' 0 (coalesce (xs @ (n, True) # ys))" "frame m1 m' (free_space 0 (xs @ (n, True) # ys))"
    by (auto simp: consolidate_def)
  have "hdr_size (header n False) = word_of_nat n"
    using n(3) by (intro word_unat_eq_iff [THEN iffD2]) (simp add: unat_hdr_size_header unat_u64_of_nat)
  then have "FREE_BLOCK (hdr_size (header n False)) = header n True" by (simp add: header_def)
  then have "free (?p + 8) m = Ok m'"
    using n m1(1) m'(1) p by (simp add: free_def header_magic header_free_iff [of n False, simplified])
  moreover have "frame m m' (free_space 0 (xs @ (n, True) # ys))"
    by (rule frame_trans [OF m1(2) m'(3)]) (auto simp: free_space_append)
  moreover from this have "heap_ok m' (coalesce (xs @ (n, True) # ys))"
    using len coalesce_size [of "xs @ (n, True) # ys"]
    by (intro heap_ok_of [OF m'(2)]) (auto simp: blocks_size_append)
  ultimately show ?thesis by blast
qed

text \<open>
  C19. Freeing a block makes it free and merges every run of free blocks into one: the region
  stays well formed, no two neighbours are free, and nothing outside the free blocks changes.
\<close>

theorem free_coalesces:
  assumes "heap_ok m (xs @ (n, False) # ys)"
  shows "\<exists>m'. free (blocks_size xs + 8) m = Ok m' \<and> heap_ok m' (coalesce (xs @ (n, True) # ys)) \<and>
    no_adjacent_free (coalesce (xs @ (n, True) # ys)) \<and> frame m m' (free_space 0 (xs @ (n, True) # ys))"
  using free_refines [OF assms] coalesce_no_adjacent by blast

text \<open>
  The size is converted to \<open>int\<close>: only its low 32 bits count, so a request of 4 GiB and
  8 bytes is served with a block of 8 bytes.
\<close>

theorem malloc_truncates: "malloc sz m = malloc (take_bit 32 sz) m"
proof -
  have "ucast (take_bit 32 sz) = (ucast sz :: u32)" by (intro bit_word_eqI) (simp add: bit_simps)
  then show ?thesis by (simp add: malloc_def as_int_def)
qed

text \<open>
  \<open>realloc\<close> to the very same size corrupts the data when the block before is free: the
  block moves down, and before its 32 bytes are copied the allocator writes the header of the
  remaining free block into them.
\<close>

theorem realloc_overwrites_data:
  assumes "heap_ok m [(8, True), (32, False), (8, True)]"
  shows "\<exists>m'. realloc (Some 24) 32 m = Ok (Some 8, m') \<and>
    slice m' (8 + 16) 8 = Some (le_bytes 8 (unat (header 24 True)))"
proof -
  have len: "length m = 72" using assms heap_at_size [of m 0] by (fastforce simp: heap_ok_def)
  have hdr: "read_hdr m 16 = Ok (header 32 False)" using assms by (auto simp: heap_ok_def intro: read_hdr_slice)
  obtain m1 where m1: "free 24 m = Ok m1" "heap_ok m1 [(64, True)]" "length m1 = length m"
    using free_refines [of m "[(8, True)]" 32 "[(8, True)]"] assms by (auto dest: frame_length)
  obtain m2 where m2: "alloc 32 m1 = Ok (Some 8, m2)" "heap_at m2 0 [(32, False), (24, True)]" "length m2 = length m1"
    using alloc_refines [OF m1(2), of 32] by (auto simp: align_up_def carve_def dest: frame_length)
  have len2: "length m2 = 72" using m1(3) m2(3) len by simp
  define d where "d = take 32 (drop 24 m2)"
  have d: "slice m2 24 32 = Some d" "length d = 32" using len2 by (simp_all add: slice_def d_def)
  obtain m' where m': "put m2 8 d = Some m'" using d(2) len2 by (auto simp: put_def)
  have "as_int 32 = 32" using as_int_small [of 32] by simp
  then have "realloc (Some 24) 32 m = Ok (Some 8, m')"
    using hdr m1(1) m2(1) d m'
    by (simp add: realloc_def header_magic ucast_hdr_size)
  moreover have "slice m' (8 + 16) 8 = slice d 16 8"
    using slice_within [OF slice_put_same [OF m'], of 16 8] d(2) by simp
  moreover have "slice d 16 8 = slice m2 40 8" using slice_within [OF d(1), of 16 8] by simp
  ultimately show ?thesis using m2(2) by simp
qed

subsection \<open>Witnesses\<close>

definition sample_region :: bytes where
  "sample_region = le_bytes 8 (unat (header 8 True)) @ replicate 8 0 @
     le_bytes 8 (unat (header 32 False)) @ replicate 32 7 @ le_bytes 8 (unat (header 8 True)) @ replicate 8 0"

lemma sample_region_ok: "heap_ok sample_region [(8, True), (32, False), (8, True)]"
  by (simp add: heap_ok_def sample_region_def slice_def)

theorem malloc_first_fit_witness: "\<exists>m'. malloc 5 sample_region = Ok (Some 8, m') \<and>
    heap_ok m' [(8, False), (32, False), (8, True)]"
proof -
  have len: "align_up (unat (5 :: u64)) 8 = 8" by (simp add: align_up_def)
  have pre: "0 < unat (5 :: u64)" "unat (5 :: u64) + 7 < 2147483648" by simp_all
  obtain r m' bs' where r: "malloc 5 sample_region = Ok (r, m')" "heap_ok m' bs'"
    "r = None \<and> bs' = [(8, True), (32, False), (8, True)] \<and>
       (\<forall>b \<in> set [(8, True), (32, False), (8, True)]. snd b \<longrightarrow> fst b < (8 :: nat)) \<or>
     (\<exists>xs n ys. [(8, True), (32, False), (8, True)] = xs @ (n, True) # ys \<and> 8 \<le> n \<and>
        (\<forall>b \<in> set xs. snd b \<longrightarrow> fst b < 8) \<and> r = Some (blocks_size xs + 8) \<and> bs' = xs @ carve 8 n @ ys)"
    using malloc_first_fit [OF sample_region_ok pre] unfolding len Let_def by blast
  then obtain xs n ys where *: "[(8, True), (32, False), (8, True)] = xs @ (n, True) # ys"
    "\<forall>b \<in> set xs. snd b \<longrightarrow> fst b < (8 :: nat)" "r = Some (blocks_size xs + 8)" "bs' = xs @ carve 8 n @ ys"
    by auto
  then have "xs = []" by (cases xs) auto
  with * r show ?thesis by (auto simp: carve_def)
qed

theorem free_coalesces_witness:
  "\<exists>m'. free 24 sample_region = Ok m' \<and> heap_ok m' [(64, True)]"
  using free_coalesces [of sample_region "[(8, True)]" 32 "[(8, True)]"] sample_region_ok by auto

lemma of_nat_unat_same64: "word_of_nat (unat (w :: u64)) = w"
  by simp

theorem realloc_overwrites_data_witness:
  "\<exists>m'. realloc (Some 24) 32 sample_region = Ok (Some 8, m') \<and>
     slice m' 24 8 \<noteq> Some (replicate 8 7)"
proof -
  have "le_bytes 8 (unat (header 24 True)) \<noteq> replicate 8 7"
  proof
    assume eq: "le_bytes 8 (unat (header 24 True)) = replicate 8 7"
    have "replicate 8 (7 :: u8) = [7, 7, 7, 7, 7, 7, 7, 7]" by (simp add: numeral_eq_Suc)
    then have "le_val (replicate 8 7) = 506381209866536711" by simp
    then have "unat (header 24 True) mod 256 ^ 8 = 506381209866536711"
      unfolding eq [symmetric] le_val_le_bytes .
    then have "unat (header 24 True) = 506381209866536711"
      using unat_u64_less [of "header 24 True"] by simp
    then have "header 24 True = word_of_nat 506381209866536711" by (metis of_nat_unat_same64)
    with header_magic [of 24 True] show False by (simp add: HAS_MAGIC_def MAGIC_def)
  qed
  with realloc_overwrites_data [OF sample_region_ok] show ?thesis by fastforce
qed

end
