(* ===== verification/Fdt.thy ===== *)
theory Fdt
  imports Mem
begin

text \<open>
  Flattened device trees, the first half of \<^verbatim>\<open>src/src/base/device_tree.c\<close>: reading nodes and
  properties in place (\<open>fdt_next_property\<close>, \<open>fdt_node_name\<close>), skipping a node, and turning a
  blob into the tree \<open>fdt_unflatten\<close> builds.

  The lists a node hangs its properties and children on are HOL lists in list order:
  \<open>list_insert_after\<close> at the last node appends.  A blob is smaller than 2 GiB: its offsets are
  C \<open>int\<close>s, and one that leaves \<open>int\<close> is \<open>Fault Overflow\<close>.  Printing is left out.
\<close>

subsection \<open>Data\<close>

record fdt_property =
  fp_name :: bytes
  fp_data :: bytes
  fp_size :: u32

datatype dt_node = DtNode (dn_name: bytes) (dn_props: "fdt_property list") (dn_children: "dt_node list")

record dt_tree =
  dt_header :: bytes
  dt_header_size :: u32
  dt_reserve :: "(u64 \<times> u64) list"
  dt_root :: "dt_node option"

definition TokenBeginNode :: u32 where "TokenBeginNode = 1"
definition TokenEndNode :: u32 where "TokenEndNode = 2"
definition TokenProperty :: u32 where "TokenProperty = 3"
definition TokenEnd :: u32 where "TokenEnd = 9"

text \<open>Fields of the header, by their offset.\<close>

definition fdt_word :: "bytes \<Rightarrow> nat \<Rightarrow> u32 res" where
  "fdt_word b off = map_res be32 (of_opt (slice b off 4))"

definition structure_offset :: "bytes \<Rightarrow> u32 res" where
  "structure_offset b = fdt_word b 8"

definition strings_offset :: "bytes \<Rightarrow> u32 res" where
  "strings_offset b = fdt_word b 12"

definition reserve_map_offset :: "bytes \<Rightarrow> u32 res" where
  "reserve_map_offset b = fdt_word b 16"

definition size32 :: "u32 \<Rightarrow> u32" where
  "size32 v = word_of_nat ((unat v + 4 - 1) div 4)"

definition as_c_int :: "nat \<Rightarrow> nat res" where
  "as_c_int n = (if n < 2147483648 then Ok n else Fault Overflow)"

subsection \<open>Reading in place\<close>

text \<open>
  The result is \<open>None\<close> for the return value 0, or the bytes consumed and what was read.  A
  pointer into the blob is the rest of the blob from there.
\<close>

definition fdt_next_property :: "bytes \<Rightarrow> nat \<Rightarrow> (nat \<times> fdt_property) option res" where
  "fdt_next_property blob offset =
     andthen (fdt_word blob offset) (\<lambda>token.
     if token \<noteq> TokenProperty then Ok None
     else andthen (fdt_word blob (offset + 4)) (\<lambda>sz.
       andthen (fdt_word blob (offset + 8)) (\<lambda>name_offset.
       andthen (strings_offset blob) (\<lambda>so.
       andthen (as_c_int ((3 + unat (size32 sz)) * 4)) (\<lambda>n.
         Ok (Some (n, \<lparr>fp_name = drop (unat (name_offset + so)) blob,
           fp_data = drop (offset + 12) blob, fp_size = sz\<rparr>)))))))"

definition fdt_node_name :: "bytes \<Rightarrow> nat \<Rightarrow> (nat \<times> bytes) option res" where
  "fdt_node_name blob offset =
     andthen (fdt_word blob offset) (\<lambda>token.
     if token \<noteq> TokenBeginNode then Ok None
     else andthen (strlen (Some (drop (offset + 4) blob))) (\<lambda>l.
       andthen (as_c_int (unat (size32 (word_of_nat (l + 1))) * 4 + 4)) (\<lambda>n.
         Ok (Some (n, drop (offset + 4) blob)))))"

lemma fdt_next_property_pos:
  "fdt_next_property b off = Ok (Some (n, p)) \<Longrightarrow> 0 < n"
  by (auto simp: fdt_next_property_def andthen_Ok_iff as_c_int_def split: if_splits)

lemma fdt_node_name_pos: "fdt_node_name b off = Ok (Some (n, p)) \<Longrightarrow> 0 < n"
  by (auto simp: fdt_node_name_def andthen_Ok_iff as_c_int_def split: if_splits)

definition advance :: "nat \<Rightarrow> nat \<Rightarrow> nat res" where
  "advance off n = as_c_int (off + n)"

lemma advance_Ok_iff: "advance off n = Ok m \<longleftrightarrow> m = off + n \<and> m < 2147483648"
  by (auto simp: advance_def as_c_int_def)

subsection \<open>Skipping a node\<close>

function skip_props :: "bytes \<Rightarrow> nat \<Rightarrow> nat res" where
  "skip_props blob offset =
     andthen (fdt_next_property blob offset) (\<lambda>r.
       case r of None \<Rightarrow> Ok offset
       | Some (n, p) \<Rightarrow> andthen (advance offset n) (\<lambda>off. skip_props blob off))"
  by pat_completeness auto

termination
  by (relation "measure (\<lambda>(b, off). 2147483648 - off)")
    (auto simp: advance_Ok_iff dest: fdt_next_property_pos)

declare skip_props.simps [simp del]

lemma skip_props_ge: "skip_props b off = Ok e \<Longrightarrow> off \<le> e \<and> (e = off \<or> e < 2147483648)"
proof (induction b off rule: skip_props.induct)
  case (1 b off)
  from "1.prems" obtain r where r: "fdt_next_property b off = Ok r"
    by (auto simp: skip_props.simps [of b off] andthen_Ok_iff)
  show ?case
  proof (cases r)
    case None
    with "1.prems" r show ?thesis by (simp add: skip_props.simps [of b off])
  next
    case (Some np)
    obtain n p where np: "np = (n, p)" by (cases np)
    with Some r "1.prems" obtain m where m: "advance off n = Ok m" "skip_props b m = Ok e"
      by (auto simp: skip_props.simps [of b off] andthen_Ok_iff)
    from 1(1) [OF r Some np [symmetric] m] m(1) show ?thesis by (auto simp: advance_Ok_iff)
  qed
qed

text \<open>\<open>skip_children\<close> is the loop of \<open>fdt_skip_node\<close> over the children; 0 is "no node here".\<close>

function fdt_skip_node :: "bytes \<Rightarrow> nat \<Rightarrow> nat res"
  and skip_children :: "bytes \<Rightarrow> nat \<Rightarrow> nat res"
where
  "fdt_skip_node blob start =
     andthen (fdt_node_name blob start) (\<lambda>r.
       case r of None \<Rightarrow> Ok 0
       | Some (n, name) \<Rightarrow>
           andthen (advance start n) (\<lambda>off.
           andthen (skip_props blob off) (\<lambda>off.
           andthen (skip_children blob off) (\<lambda>off. as_c_int (off - start + 4)))))"
| "skip_children blob off =
     andthen (fdt_skip_node blob off) (\<lambda>n.
       if n = 0 then Ok off else andthen (advance off n) (\<lambda>off. skip_children blob off))"
  by pat_completeness auto

termination
  by (relation "measure (\<lambda>x. case x of Inl (b, off) \<Rightarrow> 2 * (2147483648 - off)
       | Inr (b, off) \<Rightarrow> 2 * (2147483648 - off) + 1)")
    (auto simp: advance_Ok_iff dest: fdt_node_name_pos dest!: skip_props_ge)

declare fdt_skip_node.simps [simp del] skip_children.simps [simp del]

subsection \<open>Unflattening\<close>

text \<open>
  The memory for nodes and properties comes from two static pools and then from the heap;
  every object is fresh and zero, which the datatype gives for free.
\<close>

function unflatten_props :: "bytes \<Rightarrow> nat \<Rightarrow> (fdt_property list \<times> nat) res" where
  "unflatten_props blob offset =
     andthen (fdt_next_property blob offset) (\<lambda>r.
       case r of None \<Rightarrow> Ok ([], offset)
       | Some (n, p) \<Rightarrow>
           andthen (advance offset n) (\<lambda>off. map_res (\<lambda>(ps, e). (p # ps, e)) (unflatten_props blob off)))"
  by pat_completeness auto

termination
  by (relation "measure (\<lambda>(b, off). 2147483648 - off)")
    (auto simp: advance_Ok_iff dest: fdt_next_property_pos)

declare unflatten_props.simps [simp del]

lemma unflatten_props_skip: "map_res snd (unflatten_props b off) = skip_props b off"
proof (induction b off rule: unflatten_props.induct)
  case (1 b off)
  show ?case
  proof (cases "fdt_next_property b off")
    case (Ok r)
    show ?thesis
    proof (cases r)
      case None
      with Ok show ?thesis by (simp add: unflatten_props.simps [of b off] skip_props.simps [of b off])
    next
      case (Some np)
      obtain n p where np: "np = (n, p)" by (cases np)
      have "map_res snd (map_res (\<lambda>(ps, e). (p # ps, e)) m) = map_res snd m" for m :: "(fdt_property list \<times> nat) res"
        by (cases m) auto
      with "1" [OF Ok Some np [symmetric]] Ok Some np show ?thesis
        by (cases "advance off n")
          (simp_all add: unflatten_props.simps [of b off] skip_props.simps [of b off])
    qed
  qed (simp_all add: unflatten_props.simps [of b off] skip_props.simps [of b off])
qed

lemma unflatten_props_ge:
  "unflatten_props b off = Ok (ps, e) \<Longrightarrow> off \<le> e \<and> (e = off \<or> e < 2147483648)"
  using skip_props_ge [of b off e] unflatten_props_skip [of b off] by simp

text \<open>The size of the node, 0 if there is none, and the node.\<close>

function fdt_unflatten_node :: "bytes \<Rightarrow> nat \<Rightarrow> (nat \<times> dt_node option) res"
  and unflatten_children :: "bytes \<Rightarrow> nat \<Rightarrow> (dt_node list \<times> nat) res"
where
  "fdt_unflatten_node blob start =
     andthen (fdt_node_name blob start) (\<lambda>r.
       case r of None \<Rightarrow> Ok (0, None)
       | Some (n, name) \<Rightarrow>
           andthen (advance start n) (\<lambda>off.
           andthen (unflatten_props blob off) (\<lambda>(ps, off).
           andthen (unflatten_children blob off) (\<lambda>(cs, off).
           map_res (\<lambda>sz. (sz, Some (DtNode name ps cs))) (as_c_int (off - start + 4))))))"
| "unflatten_children blob off =
     andthen (fdt_unflatten_node blob off) (\<lambda>(n, node).
       if n = 0 then Ok ([], off)
       else case node of None \<Rightarrow> Fault NullDeref
         | Some child \<Rightarrow>
             andthen (advance off n) (\<lambda>off.
             map_res (\<lambda>(cs, e). (child # cs, e)) (unflatten_children blob off)))"
  by pat_completeness auto

termination
  by (relation "measure (\<lambda>x. case x of Inl (b, off) \<Rightarrow> 2 * (2147483648 - off)
       | Inr (b, off) \<Rightarrow> 2 * (2147483648 - off) + 1)")
    (auto simp: advance_Ok_iff dest: fdt_node_name_pos dest!: unflatten_props_ge)

declare fdt_unflatten_node.simps [simp del] unflatten_children.simps [simp del]

definition fdt_unflatten_map_entry :: "bytes \<Rightarrow> nat \<Rightarrow> (nat \<times> u64 \<times> u64) option res" where
  "fdt_unflatten_map_entry blob offset =
     andthen (of_opt (slice blob offset 8)) (\<lambda>a.
     andthen (of_opt (slice blob (offset + 8) 8)) (\<lambda>l.
       if be64 l = 0 then Ok None else Ok (Some (16, be64 a, be64 l))))"

function unflatten_map :: "bytes \<Rightarrow> nat \<Rightarrow> (u64 \<times> u64) list res" where
  "unflatten_map blob offset =
     andthen (fdt_unflatten_map_entry blob offset) (\<lambda>r.
       case r of None \<Rightarrow> Ok []
       | Some (n, e) \<Rightarrow> andthen (advance offset n) (\<lambda>off. map_res ((#) e) (unflatten_map blob off)))"
  by pat_completeness auto

termination
  by (relation "measure (\<lambda>(b, off). 2147483648 - off)")
    (auto simp: advance_Ok_iff fdt_unflatten_map_entry_def andthen_Ok_iff split: if_splits)

declare unflatten_map.simps [simp del]

definition fdt_unflatten :: "bytes \<Rightarrow> dt_tree res" where
  "fdt_unflatten blob =
     andthen (structure_offset blob) (\<lambda>struct_off.
     andthen (strings_offset blob) (\<lambda>strings_off.
     andthen (reserve_map_offset blob) (\<lambda>reserve_off.
     (let min_offset = min (min struct_off strings_off) reserve_off in
     andthen (unflatten_map blob (unat reserve_off)) (\<lambda>res_map.
     andthen (fdt_unflatten_node blob (unat struct_off)) (\<lambda>(_, root).
       Ok \<lparr>dt_header = blob, dt_header_size = min_offset, dt_reserve = res_map, dt_root = root\<rparr>))))))"

subsection \<open>Skipping and unflattening agree\<close>

lemma unflatten_node_shape:
  "fdt_unflatten_node b off = Ok (n, node) \<Longrightarrow> (n = 0) = (node = None)"
  by (auto simp: fdt_unflatten_node.simps [of b off] andthen_Ok_iff map_res_Ok_iff as_c_int_def
      split: option.splits if_splits)

lemma skip_unflatten:
  "fdt_skip_node b off = map_res fst (fdt_unflatten_node b off)"
  "skip_children b off' = map_res snd (unflatten_children b off')"
proof (induction b off and b off' rule: fdt_unflatten_node_unflatten_children.induct)
  case (1 b start)
  show ?case unfolding fdt_skip_node.simps [of b start] fdt_unflatten_node.simps [of b start] map_res_andthen
  proof (intro andthen_cong [OF refl])
    fix r assume r: "fdt_node_name b start = Ok r"
    show "(case r of None \<Rightarrow> Ok 0
       | Some (n, name) \<Rightarrow>
           andthen (advance start n) (\<lambda>off.
           andthen (skip_props b off) (\<lambda>off.
           andthen (skip_children b off) (\<lambda>off. as_c_int (off - start + 4))))) =
      map_res fst (case r of None \<Rightarrow> Ok (0, None)
       | Some (n, name) \<Rightarrow>
           andthen (advance start n) (\<lambda>off.
           andthen (unflatten_props b off) (\<lambda>(ps, off).
           andthen (unflatten_children b off) (\<lambda>(cs, off).
           map_res (\<lambda>sz. (sz, Some (DtNode name ps cs))) (as_c_int (off - start + 4))))))"
    proof (cases r)
      case (Some nn)
      obtain n name where nn: "nn = (n, name)" by (cases nn)
      have "andthen (skip_props b off) (\<lambda>off. andthen (skip_children b off) (\<lambda>off. as_c_int (off - start + 4))) =
          map_res fst (andthen (unflatten_props b off) (\<lambda>(ps, off).
            andthen (unflatten_children b off) (\<lambda>(cs, off).
            map_res (\<lambda>sz. (sz, Some (DtNode name ps cs))) (as_c_int (off - start + 4)))))"
        if off: "advance start n = Ok off" for off
        unfolding unflatten_props_skip [symmetric] andthen_map_res map_res_andthen
      proof (intro andthen_cong [OF refl])
        fix x assume x: "unflatten_props b off = Ok x"
        obtain ps e where e: "x = (ps, e)" by (cases x)
        from 1 [OF r Some nn [symmetric] off x e [symmetric]]
        have "skip_children b e = map_res snd (unflatten_children b e)" .
        then show "andthen (skip_children b (snd x)) (\<lambda>off. as_c_int (off - start + 4)) =
          map_res fst (case x of (ps, off) \<Rightarrow> andthen (unflatten_children b off) (\<lambda>(cs, off).
            map_res (\<lambda>sz. (sz, Some (DtNode name ps cs))) (as_c_int (off - start + 4))))"
          by (cases "unflatten_children b e") (simp_all add: e map_res_map_res split: prod.split)
      qed
      with Some nn show ?thesis by (cases "advance start n") simp_all
    qed simp
  qed
next
  case (2 b off)
  show ?case
  proof (cases "fdt_unflatten_node b off")
    case (Ok x)
    obtain n node where x: "x = (n, node)" by (cases x)
    show ?thesis
    proof (cases node)
      case None
      with Ok x unflatten_node_shape [of b off n node] "2"(1) show ?thesis
        by (simp add: skip_children.simps [of b off] unflatten_children.simps [of b off])
    next
      case (Some c)
      then have "n \<noteq> 0" using Ok x unflatten_node_shape [of b off n node] by simp
      with Ok x Some "2"(1) "2"(2) [OF Ok x [symmetric]] show ?thesis
        by (cases "advance off n")
          (simp_all add: skip_children.simps [of b off] unflatten_children.simps [of b off]
            map_res_map_res split_def)
    qed
  qed (use "2"(1) in \<open>simp_all add: skip_children.simps [of b off] unflatten_children.simps [of b off]\<close>)
qed

text \<open>
  C35. On any blob, well formed or not, \<open>fdt_skip_node\<close> returns what \<open>fdt_unflatten_node\<close>
  returns: the same size, no node, or the same fault.
\<close>

theorem fdt_skip_node_unflatten: "fdt_skip_node b off = map_res fst (fdt_unflatten_node b off)"
  by (rule skip_unflatten(1))

end
