(* ===== verification/DtFlatten.thy ===== *)
theory DtFlatten
  imports Fdt
begin

text \<open>
  The writing half of \<^verbatim>\<open>src/src/base/device_tree.c\<close>: the size a tree will take
  (\<open>dt_flat_size\<close>) and \<open>dt_flatten\<close>.  Flattening is proved to be undone by \<open>fdt_unflatten\<close>
  and to fill exactly the number of bytes \<open>dt_flat_size\<close> announces.
\<close>

subsection \<open>The size of a flattened tree\<close>

definition dt_flat_prop_size :: "fdt_property \<Rightarrow> u32 \<times> u32 \<Rightarrow> (u32 \<times> u32) res" where
  "dt_flat_prop_size p acc =
     (case acc of (struct_size, strings_size) \<Rightarrow>
        map_res (\<lambda>l. (struct_size + 4 + 4 + 4 + word_of_nat (unat (size32 (fp_size p)) * 4),
                      strings_size + word_of_nat (l + 1)))
          (strlen (Some (fp_name p))))"

fun flat_props_size :: "fdt_property list \<Rightarrow> u32 \<times> u32 \<Rightarrow> (u32 \<times> u32) res" where
  "flat_props_size [] acc = Ok acc"
| "flat_props_size (p # ps) acc = andthen (dt_flat_prop_size p acc) (flat_props_size ps)"

fun dt_flat_node_size :: "dt_node \<Rightarrow> u32 \<times> u32 \<Rightarrow> (u32 \<times> u32) res"
  and flat_nodes_size :: "dt_node list \<Rightarrow> u32 \<times> u32 \<Rightarrow> (u32 \<times> u32) res"
where
  "dt_flat_node_size (DtNode name ps cs) acc =
     andthen (strlen (Some name)) (\<lambda>l.
     andthen (flat_props_size ps
       (fst acc + 4 + word_of_nat (unat (size32 (word_of_nat (l + 1))) * 4), snd acc)) (\<lambda>acc.
     andthen (flat_nodes_size cs acc) (\<lambda>acc.
       Ok (fst acc + 4, snd acc))))"
| "flat_nodes_size [] acc = Ok acc"
| "flat_nodes_size (c # cs) acc = andthen (dt_flat_node_size c acc) (\<lambda>acc. flat_nodes_size cs acc)"

definition dt_flat_size :: "dt_tree \<Rightarrow> u32 res" where
  "dt_flat_size tree =
     (let sz = fold (\<lambda>e sz. sz + 16) (dt_reserve tree) (dt_header_size tree) + 16 in
      case dt_root tree of None \<Rightarrow> Fault NullDeref
      | Some root \<Rightarrow>
          map_res (\<lambda>(struct_size, strings_size). sz + struct_size + 4 + strings_size)
            (dt_flat_node_size root (0, 0)))"

subsection \<open>Flattening\<close>

text \<open>
  The destination, and the offsets of \<open>dstruct\<close> and \<open>dstrings\<close> in it.  Each \<open>emit\<close> is one
  store with the increment that follows it.
\<close>

type_synonym flat = "bytes \<times> nat \<times> nat"

definition put32 :: "bytes \<Rightarrow> nat \<Rightarrow> u32 \<Rightarrow> bytes res" where
  "put32 b off v = of_opt (put b off (htobe32 v))"

definition emit32 :: "u32 \<Rightarrow> flat \<Rightarrow> flat res" where
  "emit32 v st = (case st of (b, s, t) \<Rightarrow> map_res (\<lambda>b. (b, s + 4, t)) (put32 b s v))"

definition emit_name_offset :: "nat \<Rightarrow> flat \<Rightarrow> flat res" where
  "emit_name_offset base st =
     (case st of (b, s, t) \<Rightarrow>
        map_res (\<lambda>b. (b, s + 4, t)) (put32 b s (word_of_int (int t - int base))))"

definition emit_prop_name :: "bytes \<Rightarrow> flat \<Rightarrow> flat res" where
  "emit_prop_name name st =
     (case st of (b, s, t) \<Rightarrow>
        andthen (at_offset b t (\<lambda>d. strcpy d name)) (\<lambda>b.
        map_res (\<lambda>l. (b, s, t + (l + 1))) (strlen (Some name))))"

definition emit_prop_data :: "bytes \<Rightarrow> u32 \<Rightarrow> flat \<Rightarrow> flat res" where
  "emit_prop_data data sz st =
     (case st of (b, s, t) \<Rightarrow>
        andthen (of_opt (slice data 0 (unat sz))) (\<lambda>xs.
        map_res (\<lambda>b. (b, s + unat (size32 sz * 4), t)) (of_opt (put b s xs))))"

definition emit_node_name :: "bytes \<Rightarrow> flat \<Rightarrow> flat res" where
  "emit_node_name name st =
     (case st of (b, s, t) \<Rightarrow>
        andthen (at_offset b s (\<lambda>d. strcpy d name)) (\<lambda>b.
        map_res (\<lambda>l. (b, s + unat (size32 (word_of_nat (l + 1)) * 4), t)) (strlen (Some name))))"

definition dt_flatten_prop :: "nat \<Rightarrow> fdt_property \<Rightarrow> flat \<Rightarrow> flat res" where
  "dt_flatten_prop base p st =
     andthen (emit32 TokenProperty st) (\<lambda>st.
     andthen (emit32 (fp_size p) st) (\<lambda>st.
     andthen (emit_name_offset base st) (\<lambda>st.
     andthen (emit_prop_name (fp_name p) st) (\<lambda>st.
       emit_prop_data (fp_data p) (fp_size p) st))))"

fun flatten_props :: "nat \<Rightarrow> fdt_property list \<Rightarrow> flat \<Rightarrow> flat res" where
  "flatten_props base [] st = Ok st"
| "flatten_props base (p # ps) st = andthen (dt_flatten_prop base p st) (flatten_props base ps)"

fun dt_flatten_node :: "nat \<Rightarrow> dt_node \<Rightarrow> flat \<Rightarrow> flat res"
  and flatten_nodes :: "nat \<Rightarrow> dt_node list \<Rightarrow> flat \<Rightarrow> flat res"
where
  "dt_flatten_node base (DtNode name ps cs) st =
     andthen (emit32 TokenBeginNode st) (\<lambda>st.
     andthen (emit_node_name name st) (\<lambda>st.
     andthen (flatten_props base ps st) (\<lambda>st.
     andthen (flatten_nodes base cs st) (\<lambda>st.
       emit32 TokenEndNode st))))"
| "flatten_nodes base [] st = Ok st"
| "flatten_nodes base (c # cs) st = andthen (dt_flatten_node base c st) (\<lambda>st. flatten_nodes base cs st)"

definition dt_flatten_map_entry :: "u64 \<times> u64 \<Rightarrow> bytes \<times> nat \<Rightarrow> (bytes \<times> nat) res" where
  "dt_flatten_map_entry e st =
     (case st of (b, pos) \<Rightarrow>
        andthen (of_opt (put b pos (htobe64 (fst e)))) (\<lambda>b.
        map_res (\<lambda>b. (b, pos + 16)) (of_opt (put b (pos + 8) (htobe64 (snd e))))))"

fun flatten_map :: "(u64 \<times> u64) list \<Rightarrow> bytes \<times> nat \<Rightarrow> (bytes \<times> nat) res" where
  "flatten_map [] st = Ok st"
| "flatten_map (e # es) st = andthen (dt_flatten_map_entry e st) (flatten_map es)"

text \<open>The \<open>header\<close> stores go to offsets 4 (total size), 8, 12, 32 and 36 of the destination.\<close>

definition dt_flatten :: "dt_tree \<Rightarrow> bytes \<Rightarrow> bytes res" where
  "dt_flatten tree dest =
     andthen (of_opt (slice (dt_header tree) 0 (unat (dt_header_size tree)))) (\<lambda>hdr.
     andthen (of_opt (put dest 0 hdr)) (\<lambda>b.
     andthen (flatten_map (dt_reserve tree) (b, unat (dt_header_size tree))) (\<lambda>(b, pos).
     andthen (dt_flatten_map_entry (0, 0) (b, pos)) (\<lambda>(b, pos).
     case dt_root tree of None \<Rightarrow> Fault NullDeref
     | Some root \<Rightarrow>
         andthen (dt_flat_node_size root (0, 0)) (\<lambda>(struct_size, strings_size).
         (let struct_start = pos; end_pos = pos + unat struct_size; strings_start = end_pos + 4 in
         andthen (put32 b 8 (word_of_nat struct_start)) (\<lambda>b.
         andthen (put32 b 36 struct_size) (\<lambda>b.
         andthen (put32 b end_pos TokenEnd) (\<lambda>b.
         andthen (put32 b 12 (word_of_nat strings_start)) (\<lambda>b.
         andthen (put32 b 32 strings_size) (\<lambda>b.
         andthen (dt_flatten_node strings_start root (b, struct_start, strings_start)) (\<lambda>(b, _, _).
           put32 b 4 (word_of_nat (strings_start + unat strings_size))))))))))))))"

subsection \<open>Sizes\<close>

definition pad4 :: "nat \<Rightarrow> nat" where
  "pad4 n = (n + 3) div 4 * 4"

definition text_len :: "bytes \<Rightarrow> nat" where
  "text_len s = (case cstr s of Some x \<Rightarrow> length x + 1 | None \<Rightarrow> 0)"

definition prop_struct :: "fdt_property \<Rightarrow> nat" where
  "prop_struct p = 12 + pad4 (unat (fp_size p))"

fun node_struct :: "dt_node \<Rightarrow> nat" where
  "node_struct (DtNode name ps cs) =
     8 + pad4 (text_len name) + sum_list (map prop_struct ps) + sum_list (map node_struct cs)"

fun node_strings :: "dt_node \<Rightarrow> nat" where
  "node_strings (DtNode name ps cs) =
     sum_list (map (\<lambda>p. text_len (fp_name p)) ps) + sum_list (map node_strings cs)"

definition prop_ok :: "fdt_property \<Rightarrow> bool" where
  "prop_ok p \<longleftrightarrow> cstr (fp_name p) \<noteq> None \<and> unat (fp_size p) \<le> length (fp_data p)"

fun node_ok :: "dt_node \<Rightarrow> bool" where
  "node_ok (DtNode name ps cs) \<longleftrightarrow>
     cstr name \<noteq> None \<and> list_all prop_ok ps \<and> list_all node_ok cs"

lemma pad4_ge: "n \<le> pad4 n"
  unfolding pad4_def by linarith

lemma unat_size32: "unat (size32 v) = (unat v + 3) div 4"
  using unat_u32_less [of v] by (simp add: size32_def unat_of_nat)

lemma unat_size32_pad: "unat (size32 v) * 4 = pad4 (unat v)"
  by (simp add: unat_size32 pad4_def)

lemma unat_size32_mult: "unat v < 2147483648 \<Longrightarrow> unat (size32 v * 4) = pad4 (unat v)"
  by (simp add: unat_word_ariths unat_size32 pad4_def)

lemma strlen_text: "cstr s \<noteq> None \<Longrightarrow> strlen (Some s) = Ok (text_len s - 1) \<and> 0 < text_len s"
  by (auto simp: strlen_cstr text_len_def)

lemma flat_props_size_eq:
  "list_all prop_ok ps \<Longrightarrow> flat_props_size ps (a, b) =
     Ok (a + word_of_nat (sum_list (map prop_struct ps)),
         b + word_of_nat (sum_list (map (\<lambda>p. text_len (fp_name p)) ps)))"
proof (induction ps arbitrary: a b)
  case (Cons p ps)
  then have "dt_flat_prop_size p (a, b) = Ok (a + word_of_nat (prop_struct p), b + word_of_nat (text_len (fp_name p)))"
    using strlen_text [of "fp_name p"]
    by (simp add: dt_flat_prop_size_def prop_ok_def unat_size32_pad prop_struct_def)
  with Cons show ?case by (simp add: ac_simps)
qed simp

lemma node_struct_part: "c \<in> set cs \<Longrightarrow> node_struct c \<le> sum_list (map node_struct cs)"
  by (induction cs) auto

text \<open>Induction over a node and over a list of nodes together.\<close>

lemma dt_node_list_induct [case_names Node Nil Cons]:
  assumes node: "\<And>name ps cs. Q cs \<Longrightarrow> P (DtNode name ps cs)"
    and "Q []" and cons: "\<And>c cs. P c \<Longrightarrow> Q cs \<Longrightarrow> Q (c # cs)"
  shows "P n" "Q ns"
proof -
  have list: "Q cs" if "\<And>c. c \<in> set cs \<Longrightarrow> P c" for cs
    using that by (induction cs) (auto intro: assms(2) cons)
  show P: "P n" for n
    by (induction n rule: dt_node.induct) (intro node list)
  show "Q ns" by (intro list P)
qed

lemma flat_size_eq:
  "node_ok n \<Longrightarrow> node_struct n < 2147483648 \<Longrightarrow>
     dt_flat_node_size n acc = Ok (fst acc + word_of_nat (node_struct n), snd acc + word_of_nat (node_strings n))"
  "list_all node_ok ns \<Longrightarrow> sum_list (map node_struct ns) < 2147483648 \<Longrightarrow>
     flat_nodes_size ns acc' = Ok (fst acc' + word_of_nat (sum_list (map node_struct ns)),
       snd acc' + word_of_nat (sum_list (map node_strings ns)))"
proof (induction n acc and ns acc' rule: dt_flat_node_size_flat_nodes_size.induct)
  case (1 name ps cs acc)
  let ?l = "text_len name"
  have l: "strlen (Some name) = Ok (?l - 1)" "0 < ?l" using "1.prems"(1) strlen_text [of name] by auto
  have small: "?l < 2147483648" using "1.prems"(2) pad4_ge [of ?l] by simp
  then have pad: "unat (size32 (word_of_nat (?l - 1 + 1))) * 4 = pad4 ?l"
    using l(2) unat_size32_pad [of "word_of_nat ?l"] by (simp add: unat_u32_of_nat)
  let ?acc = "(fst acc + 4 + word_of_nat (pad4 ?l) + word_of_nat (sum_list (map prop_struct ps)),
    snd acc + word_of_nat (sum_list (map (\<lambda>p. text_len (fp_name p)) ps)))"
  have props: "flat_props_size ps (fst acc + 4 + word_of_nat (unat (size32 (word_of_nat (?l - 1 + 1))) * 4), snd acc)
      = Ok ?acc"
    using "1.prems"(1) unfolding pad by (simp add: flat_props_size_eq)
  have "flat_nodes_size cs ?acc = Ok (fst ?acc + word_of_nat (sum_list (map node_struct cs)),
      snd ?acc + word_of_nat (sum_list (map node_strings cs)))"
    using "1.prems" by (intro "1.IH" [OF l(1) props]) auto
  with l(1) props show ?case by (simp add: ac_simps)
next
  case (3 c cs acc)
  then show ?case by (simp add: ac_simps)
qed simp

subsection \<open>What the writers leave in the buffer\<close>

text \<open>
  \<open>emits n m P w\<close>: at any place below \<open>base\<close> with room, \<open>w\<close> advances the structure by \<open>n\<close>
  bytes and the strings by \<open>m\<close>, changes nothing else, and leaves what \<open>P\<close> says, which
  depends on those bytes only.
\<close>

type_synonym layout = "bytes \<Rightarrow> nat \<Rightarrow> nat \<Rightarrow> bool"

definition local_to :: "nat \<Rightarrow> nat \<Rightarrow> nat \<Rightarrow> layout \<Rightarrow> bool" where
  "local_to base n m P \<longleftrightarrow> (\<forall>b b' A s t. P b s t \<longrightarrow> frame b b' A \<longrightarrow>
     A \<inter> ({s..<s + n} \<union> {t..<t + m}) = {} \<longrightarrow> P b' s t)"

definition emits :: "nat \<Rightarrow> nat \<Rightarrow> nat \<Rightarrow> layout \<Rightarrow> (flat \<Rightarrow> flat res) \<Rightarrow> bool" where
  "emits base n m P w \<longleftrightarrow> local_to base n m P \<and>
     (\<forall>b s t. s + n \<le> base \<longrightarrow> base \<le> t \<longrightarrow> t + m \<le> length b \<longrightarrow>
        (\<exists>b'. w (b, s, t) = Ok (b', s + n, t + m) \<and>
           frame b b' ({s..<s + n} \<union> {t..<t + m}) \<and> P b' s t))"

lemma emitsD:
  "emits base n m P w \<Longrightarrow> s + n \<le> base \<Longrightarrow> base \<le> t \<Longrightarrow> t + m \<le> length b \<Longrightarrow>
     \<exists>b'. w (b, s, t) = Ok (b', s + n, t + m) \<and>
       frame b b' ({s..<s + n} \<union> {t..<t + m}) \<and> P b' s t"
  by (simp add: emits_def)

lemma emits_Ok: "emits base 0 0 (\<lambda>b s t. True) Ok"
  by (simp add: emits_def local_to_def)

lemma emits_seq:
  assumes w1: "emits base n1 m1 P1 w1" and w2: "emits base n2 m2 P2 w2"
  shows "emits base (n1 + n2) (m1 + m2) (\<lambda>b s t. P1 b s t \<and> P2 b (s + n1) (t + m1))
    (\<lambda>st. andthen (w1 st) w2)"
  unfolding emits_def
proof (intro conjI allI impI)
  have l1: "local_to base n1 m1 P1" and l2: "local_to base n2 m2 P2"
    using w1 w2 by (auto simp: emits_def)
  show "local_to base (n1 + n2) (m1 + m2) (\<lambda>b s t. P1 b s t \<and> P2 b (s + n1) (t + m1))"
    unfolding local_to_def
  proof (intro allI impI, elim conjE, intro conjI)
    fix b b' A s t
    assume P: "P1 b s t" "P2 b (s + n1) (t + m1)" and f: "frame b b' A"
      and d: "A \<inter> ({s..<s + (n1 + n2)} \<union> {t..<t + (m1 + m2)}) = {}"
    have "A \<inter> ({s..<s + n1} \<union> {t..<t + m1}) = {}"
      "A \<inter> ({s + n1..<s + n1 + n2} \<union> {t + m1..<t + m1 + m2}) = {}" using d by auto
    then show "P1 b' s t" "P2 b' (s + n1) (t + m1)"
      using l1 l2 P f unfolding local_to_def by blast+
  qed
  fix b :: bytes and s t
  assume s: "s + (n1 + n2) \<le> base" and t: "base \<le> t" "t + (m1 + m2) \<le> length b"
  obtain b1 where b1: "w1 (b, s, t) = Ok (b1, s + n1, t + m1)"
    "frame b b1 ({s..<s + n1} \<union> {t..<t + m1})" "P1 b1 s t"
    using emitsD [OF w1, of s t b] s t by auto
  have len: "length b1 = length b" using b1(2) by (simp add: frame_def)
  obtain b2 where b2: "w2 (b1, s + n1, t + m1) = Ok (b2, s + n1 + n2, t + m1 + m2)"
    "frame b1 b2 ({s + n1..<s + n1 + n2} \<union> {t + m1..<t + m1 + m2})" "P2 b2 (s + n1) (t + m1)"
    using emitsD [OF w2, of "s + n1" "t + m1" b1] s t len by auto
  have "P1 b2 s t"
  proof (rule l1 [unfolded local_to_def, rule_format, OF b1(3) b2(2)])
    show "({s + n1..<s + n1 + n2} \<union> {t + m1..<t + m1 + m2}) \<inter> ({s..<s + n1} \<union> {t..<t + m1}) = {}"
      using s t by auto
  qed
  moreover have "frame b b2 ({s..<s + (n1 + n2)} \<union> {t..<t + (m1 + m2)})"
    by (rule frame_trans [OF b1(2) b2(2)]) auto
  ultimately show "\<exists>b'. andthen (w1 (b, s, t)) w2 = Ok (b', s + (n1 + n2), t + (m1 + m2)) \<and>
      frame b b' ({s..<s + (n1 + n2)} \<union> {t..<t + (m1 + m2)}) \<and> P1 b' s t \<and> P2 b' (s + n1) (t + m1)"
    using b1(1) b2(1,3) by (auto simp: add.assoc)
qed

lemma strcpy_put:
  "cstr name = Some x \<Longrightarrow> at_offset b off (\<lambda>d. strcpy d name) = of_opt (put b off (x @ [0]))"
  by (auto simp: at_offset_def strcpy_def strncpy_def strlen_cstr copy_loop_eq put_def add.commute
      dest!: cstr_Some_split)

definition text_of :: "bytes \<Rightarrow> bytes" where
  "text_of s = (case cstr s of Some x \<Rightarrow> x | None \<Rightarrow> [])"

lemma text_of_cstr: "cstr s \<noteq> None \<Longrightarrow> cstr s = Some (text_of s) \<and> text_len s = length (text_of s) + 1"
  by (auto simp: text_of_def text_len_def)

lemma local_to_struct: "k \<le> n \<Longrightarrow> local_to base n 0 (\<lambda>b s t. slice b s k = Some (xs t))"
proof (unfold local_to_def, intro allI impI)
  fix b b' A s t
  assume k: "k \<le> n" and P: "slice b s k = Some (xs t)" and f: "frame b b' A"
    and d: "A \<inter> ({s..<s + n} \<union> {t..<t + 0}) = {}"
  have "{s..<s + k} \<inter> A = {}" using d k by auto
  from slice_frame [OF f this] P show "slice b' s k = Some (xs t)" by simp
qed

lemma local_to_strings: "local_to base 0 k (\<lambda>b s t. slice b t k = Some xs)"
proof (unfold local_to_def, intro allI impI)
  fix b b' A s t
  assume P: "slice b t k = Some xs" and f: "frame b b' A"
    and d: "A \<inter> ({s..<s + 0} \<union> {t..<t + k}) = {}"
  have "{t..<t + k} \<inter> A = {}" using d by auto
  from slice_frame [OF f this] P show "slice b' t k = Some xs" by simp
qed

lemma emits_struct:
  assumes "\<And>t. length (xs t) = k" and "k \<le> n"
    and w: "\<And>b s t. base \<le> t \<Longrightarrow> w (b, s, t) = map_res (\<lambda>b. (b, s + n, t)) (of_opt (put b s (xs t)))"
  shows "emits base n 0 (\<lambda>b s t. slice b s k = Some (xs t)) w"
  unfolding emits_def
proof (intro conjI allI impI local_to_struct [OF assms(2)])
  fix b :: bytes and s t
  assume s: "s + n \<le> base" and t: "base \<le> t" "t + 0 \<le> length b"
  then obtain b' where b': "put b s (xs t) = Some b'" using assms(1,2) by (auto simp: put_def)
  with w [OF t(1)] slice_put_same [OF b'] assms(1) frame_put [OF b', of "{s..<s + n} \<union> {t..<t + 0}"] assms(2)
  show "\<exists>b'. w (b, s, t) = Ok (b', s + n, t + 0) \<and>
      frame b b' ({s..<s + n} \<union> {t..<t + 0}) \<and> slice b' s k = Some (xs t)"
    by auto
qed

lemma emits_strings:
  assumes "length xs = k"
    and w: "\<And>b s t. w (b, s, t) = map_res (\<lambda>b. (b, s, t + k)) (of_opt (put b t xs))"
  shows "emits base 0 k (\<lambda>b s t. slice b t k = Some xs) w"
  unfolding emits_def
proof (intro conjI allI impI local_to_strings)
  fix b :: bytes and s t
  assume s: "s + 0 \<le> base" and t: "base \<le> t" "t + k \<le> length b"
  then obtain b' where b': "put b t xs = Some b'" using assms(1) by (auto simp: put_def)
  with w slice_put_same [OF b'] assms(1) frame_put [OF b', of "{s..<s + 0} \<union> {t..<t + k}"]
  show "\<exists>b'. w (b, s, t) = Ok (b', s + 0, t + k) \<and>
      frame b b' ({s..<s + 0} \<union> {t..<t + k}) \<and> slice b' t k = Some xs"
    by auto
qed

lemma emits_emit32: "emits base 4 0 (\<lambda>b s t. slice b s 4 = Some (htobe32 v)) (emit32 v)"
  by (rule emits_struct) (simp_all add: emit32_def put32_def)

definition name_offset :: "nat \<Rightarrow> nat \<Rightarrow> u32" where
  "name_offset base t = word_of_nat (t - base)"

lemma emits_name_offset:
  "emits base 4 0 (\<lambda>b s t. slice b s 4 = Some (htobe32 (name_offset base t))) (emit_name_offset base)"
  by (rule emits_struct) (simp_all add: emit_name_offset_def put32_def name_offset_def flip: of_nat_diff)

lemma emits_prop_name:
  assumes "cstr name \<noteq> None"
  shows "emits base 0 (text_len name) (\<lambda>b s t. slice b t (text_len name) = Some (text_of name @ [0]))
    (emit_prop_name name)"
proof (rule emits_strings)
  fix b s t
  show "emit_prop_name name (b, s, t) =
      map_res (\<lambda>b. (b, s, t + text_len name)) (of_opt (put b t (text_of name @ [0])))"
    using text_of_cstr [OF assms] strlen_text [OF assms]
    by (cases "put b t (text_of name @ [0])") (simp_all add: emit_prop_name_def strcpy_put)
qed (use text_of_cstr [OF assms] in simp)

lemma emits_prop_data:
  assumes "unat sz \<le> length data" and "unat sz < 2147483648"
  shows "emits base (pad4 (unat sz)) 0
    (\<lambda>b s t. slice b s (unat sz) = Some (take (unat sz) data)) (emit_prop_data data sz)"
  using assms by (intro emits_struct)
    (simp_all add: emit_prop_data_def slice_def unat_size32_mult pad4_ge)

lemma emits_node_name:
  assumes "cstr name \<noteq> None" and "text_len name < 2147483648"
  shows "emits base (pad4 (text_len name)) 0
    (\<lambda>b s t. slice b s (text_len name) = Some (text_of name @ [0])) (emit_node_name name)"
proof (rule emits_struct)
  have "unat (size32 (word_of_nat (text_len name)) * 4) = pad4 (text_len name)"
    using assms(2) by (simp add: unat_size32_mult unat_u32_of_nat)
  then show "emit_node_name name (b, s, t) =
      map_res (\<lambda>b. (b, s + pad4 (text_len name), t)) (of_opt (put b s (text_of name @ [0])))" for b s t
    using text_of_cstr [OF assms(1)] strlen_text [OF assms(1)]
    by (cases "put b s (text_of name @ [0])") (simp_all add: emit_node_name_def strcpy_put)
qed (use text_of_cstr [OF assms(1)] pad4_ge in simp_all)

subsection \<open>The layout of a tree in a blob\<close>

definition prop_at :: "nat \<Rightarrow> fdt_property \<Rightarrow> layout" where
  "prop_at base p b s t \<longleftrightarrow>
     slice b s 4 = Some (htobe32 TokenProperty) \<and>
     slice b (s + 4) 4 = Some (htobe32 (fp_size p)) \<and>
     slice b (s + 8) 4 = Some (htobe32 (name_offset base t)) \<and>
     slice b t (text_len (fp_name p)) = Some (text_of (fp_name p) @ [0]) \<and>
     slice b (s + 12) (unat (fp_size p)) = Some (take (unat (fp_size p)) (fp_data p))"

fun props_at :: "nat \<Rightarrow> fdt_property list \<Rightarrow> layout" where
  "props_at base [] b s t \<longleftrightarrow> True"
| "props_at base (p # ps) b s t \<longleftrightarrow>
     prop_at base p b s t \<and> props_at base ps b (s + prop_struct p) (t + text_len (fp_name p))"

fun node_at :: "nat \<Rightarrow> dt_node \<Rightarrow> layout"
  and nodes_at :: "nat \<Rightarrow> dt_node list \<Rightarrow> layout"
where
  "node_at base (DtNode name ps cs) b s t \<longleftrightarrow>
     slice b s 4 = Some (htobe32 TokenBeginNode) \<and>
     slice b (s + 4) (text_len name) = Some (text_of name @ [0]) \<and>
     (let s1 = s + 4 + pad4 (text_len name); s2 = s1 + sum_list (map prop_struct ps);
          t2 = t + sum_list (map (\<lambda>p. text_len (fp_name p)) ps) in
      props_at base ps b s1 t \<and> nodes_at base cs b s2 t2 \<and>
      slice b (s2 + sum_list (map node_struct cs)) 4 = Some (htobe32 TokenEndNode))"
| "nodes_at base [] b s t \<longleftrightarrow> True"
| "nodes_at base (c # cs) b s t \<longleftrightarrow>
     node_at base c b s t \<and> nodes_at base cs b (s + node_struct c) (t + node_strings c)"

lemma emits_cong:
  "emits base n m P w \<Longrightarrow> n = n' \<Longrightarrow> m = m' \<Longrightarrow> (\<And>b s t. P b s t = P' b s t) \<Longrightarrow>
     (\<And>st. w st = w' st) \<Longrightarrow> emits base n' m' P' w'"
  by (simp add: emits_def local_to_def)

lemma emits_prop:
  assumes "prop_ok p" and "unat (fp_size p) < 2147483648"
  shows "emits base (prop_struct p) (text_len (fp_name p)) (prop_at base p) (dt_flatten_prop base p)"
proof -
  have ok: "cstr (fp_name p) \<noteq> None" "unat (fp_size p) \<le> length (fp_data p)"
    using assms(1) by (auto simp: prop_ok_def)
  note seq = emits_seq [OF emits_emit32 emits_seq [OF emits_emit32 emits_seq [OF emits_name_offset
    emits_seq [OF emits_prop_name [OF ok(1)] emits_prop_data [OF ok(2) assms(2)]]]],
    of base TokenProperty "fp_size p"]
  show ?thesis
    by (rule emits_cong [OF seq]) (simp_all add: prop_struct_def prop_at_def dt_flatten_prop_def add.commute)
qed

lemma emits_props:
  "list_all prop_ok ps \<Longrightarrow> sum_list (map prop_struct ps) < 2147483648 \<Longrightarrow>
     emits base (sum_list (map prop_struct ps)) (sum_list (map (\<lambda>p. text_len (fp_name p)) ps))
       (props_at base ps) (flatten_props base ps)"
proof (induction ps)
  case Nil
  show ?case by (rule emits_cong [OF emits_Ok]) simp_all
next
  case (Cons p ps)
  then have "unat (fp_size p) < 2147483648"
    using pad4_ge [of "unat (fp_size p)"] by (simp add: prop_struct_def)
  with Cons have p: "emits base (prop_struct p) (text_len (fp_name p)) (prop_at base p) (dt_flatten_prop base p)"
    by (intro emits_prop) simp_all
  have ps: "emits base (sum_list (map prop_struct ps)) (sum_list (map (\<lambda>p. text_len (fp_name p)) ps))
       (props_at base ps) (flatten_props base ps)"
    using Cons by simp
  show ?case by (rule emits_cong [OF emits_seq [OF p ps]]) simp_all
qed

lemma emits_node:
  "node_ok n \<Longrightarrow> node_struct n < 2147483648 \<Longrightarrow>
     emits base (node_struct n) (node_strings n) (node_at base n) (dt_flatten_node base n)"
  "list_all node_ok ns \<Longrightarrow> sum_list (map node_struct ns) < 2147483648 \<Longrightarrow>
     emits base (sum_list (map node_struct ns)) (sum_list (map node_strings ns))
       (nodes_at base ns) (flatten_nodes base ns)"
proof (induction n and ns rule: dt_node_list_induct)
  case (Node name ps cs)
  have ok: "cstr name \<noteq> None" "list_all prop_ok ps" "list_all node_ok cs" using Node.prems(1) by auto
  have small: "text_len name < 2147483648" "sum_list (map prop_struct ps) < 2147483648"
    "sum_list (map node_struct cs) < 2147483648"
    using Node.prems(2) pad4_ge [of "text_len name"] by auto
  note seq = emits_seq [OF emits_emit32 emits_seq [OF emits_node_name [OF ok(1) small(1)]
    emits_seq [OF emits_props [OF ok(2) small(2)] emits_seq [OF Node.IH [OF ok(3) small(3)] emits_emit32]]],
    of TokenBeginNode TokenEndNode]
  show ?case
    by (rule emits_cong [OF seq]) (simp_all add: Let_def algebra_simps)
next
  case Nil
  show ?case by (rule emits_cong [OF emits_Ok]) simp_all
next
  case (Cons c cs)
  then have "emits base (node_struct c) (node_strings c) (node_at base c) (dt_flatten_node base c)"
    "emits base (sum_list (map node_struct cs)) (sum_list (map node_strings cs))
       (nodes_at base cs) (flatten_nodes base cs)" by simp_all
  from emits_seq [OF this] show ?case by (rule emits_cong) simp_all
qed

subsection \<open>Reading a layout back\<close>

text \<open>What a tree says, apart from where its strings and values are kept.\<close>

datatype dt_text = DtText bytes "(bytes \<times> bytes) list" "dt_text list"

definition prop_text :: "fdt_property \<Rightarrow> bytes \<times> bytes" where
  "prop_text p = (text_of (fp_name p), take (unat (fp_size p)) (fp_data p))"

fun node_text :: "dt_node \<Rightarrow> dt_text" where
  "node_text (DtNode name ps cs) = DtText (text_of name) (map prop_text ps) (map node_text cs)"

lemma fdt_word_slice: "slice b off 4 = Some (htobe32 v) \<Longrightarrow> fdt_word b off = Ok v"
  by (simp add: fdt_word_def)

lemma text_of_append: "0 \<notin> set x \<Longrightarrow> text_of (x @ 0 # r) = x"
  by (simp add: text_of_def cstr_append_NUL)

lemma slice_text:
  assumes "slice b off (text_len name) = Some (text_of name @ [0])" and "cstr name \<noteq> None"
  shows "cstr (drop off b) = Some (text_of name)" and "text_len (drop off b) = text_len name"
proof -
  have "drop off b = (text_of name @ [0]) @ drop (off + text_len name) b"
    using assms(1) by (metis append_take_drop_id drop_drop add.commute slice_Some_iff)
  moreover have "0 \<notin> set (text_of name)"
    using text_of_cstr [OF assms(2)] cstr_Some_split by blast
  ultimately show "cstr (drop off b) = Some (text_of name)" by (simp add: cstr_append_NUL)
  then show "text_len (drop off b) = text_len name"
    using text_of_cstr [OF assms(2)] by (simp add: text_len_def)
qed

lemma text_of_eqI: "cstr x = Some y \<Longrightarrow> text_of x = y"
  by (simp add: text_of_def)

lemma read_prop:
  assumes "prop_at base p b s t" and "strings_offset b = Ok (word_of_nat base)" and "base \<le> t"
    and "length b < 2147483648" and "prop_ok p" and "s + prop_struct p \<le> length b"
  shows "\<exists>p'. fdt_next_property b s = Ok (Some (prop_struct p, p')) \<and> prop_text p' = prop_text p \<and> prop_ok p'"
proof -
  note at = assms(1) [unfolded prop_at_def]
  have t: "t < 2147483648" using at assms(4) by (auto simp: slice_def text_len_def split: if_splits)
  have "name_offset base t + word_of_nat base = word_of_nat t"
    using assms(3) by (simp add: name_offset_def flip: of_nat_add)
  then have off: "unat (name_offset base t + word_of_nat base) = t"
    using t by (simp add: unat_u32_of_nat)
  have n: "(3 + unat (size32 (fp_size p))) * 4 = prop_struct p"
    using unat_size32_pad [of "fp_size p"] by (simp add: prop_struct_def)
  have name: "cstr (drop t b) = Some (text_of (fp_name p))"
    using slice_text(1) [of b t "fp_name p"] at assms(5) by (simp add: prop_ok_def)
  let ?p = "\<lparr>fp_name = drop t b, fp_data = drop (s + 12) b, fp_size = fp_size p\<rparr>"
  have d: "take (unat (fp_size p)) (drop (s + 12) b) = take (unat (fp_size p)) (fp_data p)"
    "unat (fp_size p) \<le> length (drop (s + 12) b)"
    using at by (auto simp: slice_def split: if_splits)
  have "fdt_next_property b s = Ok (Some (prop_struct p, ?p))"
    using at assms(2,4,6) off n
    by (simp add: fdt_next_property_def fdt_word_slice as_c_int_def)
  moreover have "prop_text ?p = prop_text p" "prop_ok ?p"
    using d name by (simp_all add: prop_text_def prop_ok_def text_of_eqI)
  ultimately show ?thesis by blast
qed

lemma read_props:
  assumes "strings_offset b = Ok (word_of_nat base)" and "length b < 2147483648"
    and "fdt_word b (s + sum_list (map prop_struct ps)) = Ok tok" and "tok \<noteq> TokenProperty"
    and "props_at base ps b s t" and "base \<le> t" and "list_all prop_ok ps"
  shows "\<exists>ps'. unflatten_props b s = Ok (ps', s + sum_list (map prop_struct ps)) \<and>
    map prop_text ps' = map prop_text ps \<and> list_all prop_ok ps'"
  using assms(3,5-)
proof (induction ps arbitrary: s t)
  case Nil
  then show ?case using assms(4) by (simp add: unflatten_props.simps [of b s] fdt_next_property_def)
next
  case (Cons p ps)
  let ?m = "s + prop_struct p"
  have le: "?m + sum_list (map prop_struct ps) < length b"
    using Cons.prems(1) by (auto simp: fdt_word_def map_res_Ok_iff slice_def add.assoc split: if_splits)
  obtain p' where p': "fdt_next_property b s = Ok (Some (prop_struct p, p'))"
    "prop_text p' = prop_text p" "prop_ok p'"
    using read_prop [OF _ assms(1) Cons.prems(3) assms(2), of p s] Cons.prems le by auto
  obtain ps' where ps': "unflatten_props b ?m = Ok (ps', ?m + sum_list (map prop_struct ps))"
    "map prop_text ps' = map prop_text ps" "list_all prop_ok ps'"
    using Cons.IH [of ?m "t + text_len (fp_name p)"] Cons.prems by (auto simp: add.assoc)
  have "advance s (prop_struct p) = Ok ?m" using le assms(2) by (simp add: advance_Ok_iff)
  with p' ps' show ?case
    by (intro exI [of _ "p' # ps'"]) (simp add: unflatten_props.simps [of b s] add.assoc)
qed

lemma first_word:
  assumes "nodes_at base cs b s t" and "slice b (s + sum_list (map node_struct cs)) 4 = Some (htobe32 TokenEndNode)"
  shows "\<exists>tok. fdt_word b s = Ok tok \<and> tok \<noteq> TokenProperty"
proof (cases cs)
  case Nil
  with assms(2) show ?thesis by (simp add: fdt_word_slice TokenEndNode_def TokenProperty_def)
next
  case (Cons c cs')
  with assms(1) show ?thesis
    by (cases c) (simp add: fdt_word_slice TokenBeginNode_def TokenProperty_def)
qed

lemma read_node:
  assumes so: "strings_offset b = Ok (word_of_nat base)" and len: "length b < 2147483648"
  shows "node_at base n b s t \<Longrightarrow> base \<le> t \<Longrightarrow> node_ok n \<Longrightarrow>
      \<exists>n'. fdt_unflatten_node b s = Ok (node_struct n, Some n') \<and> node_text n' = node_text n \<and> node_ok n'"
    and "nodes_at base ns b s' t' \<Longrightarrow> base \<le> t' \<Longrightarrow> list_all node_ok ns \<Longrightarrow>
      slice b (s' + sum_list (map node_struct ns)) 4 = Some (htobe32 TokenEndNode) \<Longrightarrow>
      \<exists>ns'. unflatten_children b s' = Ok (ns', s' + sum_list (map node_struct ns)) \<and>
        map node_text ns' = map node_text ns \<and> list_all node_ok ns'"
proof (induction n and ns arbitrary: s t and s' t' rule: dt_node_list_induct)
  case (Node name ps cs)
  let ?s1 = "s + 4 + pad4 (text_len name)"
  let ?s2 = "?s1 + sum_list (map prop_struct ps)"
  let ?e = "?s2 + sum_list (map node_struct cs)"
  let ?t2 = "t + sum_list (map (\<lambda>p. text_len (fp_name p)) ps)"
  have ok: "cstr name \<noteq> None" "list_all prop_ok ps" "list_all node_ok cs" using Node.prems(3) by auto
  have bgn: "fdt_word b s = Ok TokenBeginNode"
    and nm: "slice b (s + 4) (text_len name) = Some (text_of name @ [0])"
    and props: "props_at base ps b ?s1 t" and nodes: "nodes_at base cs b ?s2 ?t2"
    and fin: "slice b ?e 4 = Some (htobe32 TokenEndNode)"
    using Node.prems(1) by (auto simp: Let_def fdt_word_slice)
  have e: "?e + 4 \<le> length b" using fin by (auto simp: slice_def split: if_splits)
  have l: "strlen (Some (drop (s + 4) b)) = Ok (text_len name - 1)" "0 < text_len name"
    using slice_text(1) [OF nm ok(1)] text_of_cstr [OF ok(1)] by (simp_all add: strlen_cstr)
  have small: "text_len name < 2147483648" using pad4_ge [of "text_len name"] e len by linarith
  have nn: "fdt_node_name b s = Ok (Some (pad4 (text_len name) + 4, drop (s + 4) b))"
    using bgn l e len small
    by (simp add: fdt_node_name_def as_c_int_def unat_size32_pad unat_u32_of_nat)
  have adv: "advance s (pad4 (text_len name) + 4) = Ok ?s1" using e len by (simp add: advance_Ok_iff)
  obtain tok where tok: "fdt_word b ?s2 = Ok tok" "tok \<noteq> TokenProperty"
    using first_word [OF nodes fin] by blast
  obtain ps' where ps': "unflatten_props b ?s1 = Ok (ps', ?s2)" "map prop_text ps' = map prop_text ps"
    "list_all prop_ok ps'"
    using read_props [OF so len tok props Node.prems(2) ok(2)] by blast
  obtain cs' where cs': "unflatten_children b ?s2 = Ok (cs', ?e)" "map node_text cs' = map node_text cs"
    "list_all node_ok cs'"
    using Node.IH [OF nodes _ ok(3) fin] Node.prems(2) by auto
  have "as_c_int (?e - s + 4) = Ok (node_struct (DtNode name ps cs))"
    using e len by (simp add: as_c_int_def)
  with nn adv ps' cs' slice_text(1) [OF nm ok(1)] show ?case
    by (intro exI [of _ "DtNode (drop (s + 4) b) ps' cs'"])
      (simp add: fdt_unflatten_node.simps [of b s] text_of_eqI)
next
  case Nil
  then have "fdt_word b s' = Ok TokenEndNode" by (simp add: fdt_word_slice)
  then show ?case
    by (simp add: unflatten_children.simps [of b s'] fdt_unflatten_node.simps [of b s']
      fdt_node_name_def TokenEndNode_def TokenBeginNode_def)
next
  case (Cons c cs)
  let ?m = "s' + node_struct c"
  have e: "?m + sum_list (map node_struct cs) < length b"
    using Cons.prems(4) by (auto simp: slice_def add.assoc split: if_splits)
  obtain c' where c': "fdt_unflatten_node b s' = Ok (node_struct c, Some c')" "node_text c' = node_text c" "node_ok c'"
    using Cons.IH(1) [of s' t'] Cons.prems by auto
  obtain cs' where cs': "unflatten_children b ?m = Ok (cs', ?m + sum_list (map node_struct cs))"
    "map node_text cs' = map node_text cs" "list_all node_ok cs'"
    using Cons.IH(2) [of ?m "t' + node_strings c"] Cons.prems by (auto simp: add.assoc)
  have "node_struct c \<noteq> 0" by (cases c) simp
  moreover have "advance s' (node_struct c) = Ok ?m" using e len by (simp add: advance_Ok_iff)
  ultimately show ?case using c' cs'
    by (intro exI [of _ "c' # cs'"]) (simp add: unflatten_children.simps [of b s'] add.assoc)
qed

subsection \<open>The reserve map\<close>

fun entries_at :: "(u64 \<times> u64) list \<Rightarrow> bytes \<Rightarrow> nat \<Rightarrow> bool" where
  "entries_at [] b pos \<longleftrightarrow> True"
| "entries_at (e # es) b pos \<longleftrightarrow>
     slice b pos 8 = Some (htobe64 (fst e)) \<and> slice b (pos + 8) 8 = Some (htobe64 (snd e)) \<and>
     entries_at es b (pos + 16)"

lemma entries_at_frame:
  "entries_at es b pos \<Longrightarrow> frame b b' A \<Longrightarrow> {pos..<pos + 16 * length es} \<inter> A = {} \<Longrightarrow> entries_at es b' pos"
proof (induction es arbitrary: pos)
  case (Cons e es)
  have "{pos..<pos + 8} \<inter> A = {}" "{pos + 8..<pos + 8 + 8} \<inter> A = {}"
    "{pos + 16..<pos + 16 + 16 * length es} \<inter> A = {}"
    using Cons.prems(3) by (auto simp: disjoint_iff)
  with Cons.prems Cons.IH [of "pos + 16"] show ?case
    by (simp add: slice_frame [OF Cons.prems(2)])
qed simp

lemma flatten_map_entry:
  assumes "pos + 16 \<le> length b"
  shows "\<exists>b'. dt_flatten_map_entry e (b, pos) = Ok (b', pos + 16) \<and> frame b b' {pos..<pos + 16} \<and>
    entries_at [e] b' pos"
proof -
  obtain b1 where b1: "put b pos (htobe64 (fst e)) = Some b1" using assms by (auto simp: put_def)
  then obtain b2 where b2: "put b1 (pos + 8) (htobe64 (snd e)) = Some b2"
    using assms put_length [OF b1] by (auto simp: put_def)
  have "slice b2 pos 8 = Some (htobe64 (fst e))" "slice b2 (pos + 8) 8 = Some (htobe64 (snd e))"
    using slice_put_same [OF b1] slice_put_other [OF b2, of pos 8] slice_put_same [OF b2] by simp_all
  moreover have "frame b b2 {pos..<pos + 16}"
    by (rule frame_trans [OF frame_put [OF b1 order_refl] frame_put [OF b2 order_refl]]) auto
  ultimately show ?thesis using b1 b2 by (auto simp: dt_flatten_map_entry_def)
qed

lemma flatten_map_correct:
  "pos + 16 * length es \<le> length b \<Longrightarrow>
     \<exists>b'. flatten_map es (b, pos) = Ok (b', pos + 16 * length es) \<and>
       frame b b' {pos..<pos + 16 * length es} \<and> entries_at es b' pos"
proof (induction es arbitrary: b pos)
  case (Cons e es)
  then obtain b1 where b1: "dt_flatten_map_entry e (b, pos) = Ok (b1, pos + 16)"
    "frame b b1 {pos..<pos + 16}" "entries_at [e] b1 pos"
    using flatten_map_entry [of pos b e] by auto
  then obtain b2 where b2: "flatten_map es (b1, pos + 16) = Ok (b2, pos + 16 + 16 * length es)"
    "frame b1 b2 {pos + 16..<pos + 16 + 16 * length es}" "entries_at es b2 (pos + 16)"
    using Cons.IH [of "pos + 16" b1] Cons.prems by (auto simp: frame_def)
  have "entries_at [e] b2 pos" by (rule entries_at_frame [OF b1(3) b2(2)]) auto
  moreover have "frame b b2 {pos..<pos + 16 * length (e # es)}"
    by (rule frame_trans [OF b1(2) b2(2)]) auto
  ultimately show ?case using b1(1) b2(1,3) by auto
qed simp

lemma flatten_map_snoc:
  "flatten_map (es @ [e]) st = andthen (flatten_map es st) (dt_flatten_map_entry e)"
proof (induction es arbitrary: st)
  case Nil
  show ?case by (cases "dt_flatten_map_entry e st") simp_all
next
  case (Cons a es)
  then show ?case by (cases "dt_flatten_map_entry a st") simp_all
qed

lemma read_map:
  "entries_at (es @ [(x, 0)]) b pos \<Longrightarrow> length b < 2147483648 \<Longrightarrow> \<forall>e \<in> set es. snd e \<noteq> 0 \<Longrightarrow>
     unflatten_map b pos = Ok es"
proof (induction es arbitrary: pos)
  case Nil
  then show ?case by (simp add: unflatten_map.simps [of b pos] fdt_unflatten_map_entry_def)
next
  case (Cons e es)
  have "slice b (pos + 8) 8 \<noteq> None" using Cons.prems(1) by auto
  then have "advance pos 16 = Ok (pos + 16)" using Cons.prems(2) by (auto simp: advance_Ok_iff slice_def split: if_splits)
  moreover have "snd e \<noteq> 0" using Cons.prems(3) by simp
  ultimately show ?case using Cons.prems Cons.IH [of "pos + 16"]
    by (simp add: unflatten_map.simps [of b pos] fdt_unflatten_map_entry_def)
qed

subsection \<open>The round trip\<close>

definition tree_size :: "dt_tree \<Rightarrow> nat" where
  "tree_size tree = unat (dt_header_size tree) + 16 * (length (dt_reserve tree) + 1) +
     (case dt_root tree of None \<Rightarrow> 0 | Some root \<Rightarrow> node_struct root + 4 + node_strings root)"

text \<open>
  A tree as \<open>fdt_unflatten\<close> builds it from a blob whose reserve map follows the header, or
  such a tree after editing: names are strings, values are there, and no reserved range is empty.
\<close>

definition tree_ok :: "dt_tree \<Rightarrow> bool" where
  "tree_ok tree \<longleftrightarrow>
     40 \<le> unat (dt_header_size tree) \<and> unat (dt_header_size tree) \<le> length (dt_header tree) \<and>
     reserve_map_offset (dt_header tree) = Ok (dt_header_size tree) \<and>
     (\<forall>e \<in> set (dt_reserve tree). snd e \<noteq> 0) \<and>
     (case dt_root tree of None \<Rightarrow> False | Some root \<Rightarrow> node_ok root)"

lemma put32_Ok:
  "off + 4 \<le> length b \<Longrightarrow> \<exists>b'. put32 b off v = Ok b' \<and> frame b b' {off..<off + 4} \<and>
     slice b' off 4 = Some (htobe32 v)"
proof -
  assume "off + 4 \<le> length b"
  then obtain b' where b': "put b off (htobe32 v) = Some b'" by (auto simp: put_def)
  from slice_put_same [OF b'] frame_put [OF b' order_refl] show ?thesis
    by (auto simp: put32_def b')
qed

lemma dt_flat_size_eq:
  assumes "tree_ok tree" and "tree_size tree < 2147483648"
  shows "dt_flat_size tree = Ok (word_of_nat (tree_size tree))"
proof -
  obtain root where root: "dt_root tree = Some root" "node_ok root"
    using assms(1) by (auto simp: tree_ok_def split: option.splits)
  have "fold (\<lambda>e sz. sz + 16) es z = z + word_of_nat (16 * length es)" for z :: u32 and es :: "(u64 \<times> u64) list"
    by (induction es arbitrary: z) (simp_all add: algebra_simps)
  moreover have "dt_flat_node_size root (0, 0) = Ok (word_of_nat (node_struct root), word_of_nat (node_strings root))"
    using flat_size_eq(1) [OF root(2)] assms(2) root(1) by (simp add: tree_size_def)
  ultimately show ?thesis using root(1) by (simp add: dt_flat_size_def tree_size_def algebra_simps)
qed

text \<open>The part of \<open>dt_flatten\<close> after the reserve map: header fields, structure and strings.\<close>

lemma dt_flatten_tail:
  fixes root :: dt_node and p :: nat
  defines "ssz \<equiv> node_struct root" and "tsz \<equiv> node_strings root"
  defines "e \<equiv> p + ssz"
  assumes ok: "node_ok root" and p: "40 \<le> p" "e + 4 + tsz \<le> length b" and len: "length b < 2147483648"
  shows "\<exists>b'. andthen (put32 b 8 (word_of_nat p)) (\<lambda>b.
         andthen (put32 b 36 (word_of_nat ssz)) (\<lambda>b.
         andthen (put32 b e TokenEnd) (\<lambda>b.
         andthen (put32 b 12 (word_of_nat (e + 4))) (\<lambda>b.
         andthen (put32 b 32 (word_of_nat tsz)) (\<lambda>b.
         andthen (dt_flatten_node (e + 4) root (b, p, e + 4)) (\<lambda>(b, _, _).
           put32 b 4 (word_of_nat (e + 4 + tsz)))))))) = Ok b' \<and>
     frame b b' ({4..<16} \<union> {32..<40} \<union> {p..<e + 4 + tsz}) \<and>
     structure_offset b' = Ok (word_of_nat p) \<and> strings_offset b' = Ok (word_of_nat (e + 4)) \<and>
     node_at (e + 4) root b' p (e + 4)"
proof -
  have em: "emits (e + 4) ssz tsz (node_at (e + 4) root) (dt_flatten_node (e + 4) root)"
    unfolding ssz_def tsz_def using p(2) len by (intro emits_node(1) ok) (simp add: e_def ssz_def)
  obtain b1 where b1: "put32 b 8 (word_of_nat p) = Ok b1" "frame b b1 {8..<8 + 4}"
    "slice b1 8 4 = Some (htobe32 (word_of_nat p))"
    using put32_Ok [of 8 b "word_of_nat p"] p by (auto simp: e_def)
  obtain b2 where b2: "put32 b1 36 (word_of_nat ssz) = Ok b2" "frame b1 b2 {36..<36 + 4}"
    using put32_Ok [of 36 b1 "word_of_nat ssz"] p frame_length [OF b1(2)] by (auto simp: e_def)
  obtain b3 where b3: "put32 b2 e TokenEnd = Ok b3" "frame b2 b3 {e..<e + 4}"
    using put32_Ok [of e b2 TokenEnd] p frame_length [OF b1(2)] frame_length [OF b2(2)] by auto
  obtain b4 where b4: "put32 b3 12 (word_of_nat (e + 4)) = Ok b4" "frame b3 b4 {12..<12 + 4}"
    "slice b4 12 4 = Some (htobe32 (word_of_nat (e + 4)))"
    using put32_Ok [of 12 b3 "word_of_nat (e + 4)"] p frame_length [OF b1(2)] frame_length [OF b2(2)] frame_length [OF b3(2)]
    by (auto simp: e_def)
  obtain b5 where b5: "put32 b4 32 (word_of_nat tsz) = Ok b5" "frame b4 b5 {32..<32 + 4}"
    using put32_Ok [of 32 b4 "word_of_nat tsz"] p frame_length [OF b1(2)] frame_length [OF b2(2)] frame_length [OF b3(2)]
      frame_length [OF b4(2)] by (auto simp: e_def)
  note f5 = frame_Un [OF frame_Un [OF b2(2) b3(2)] frame_Un [OF b4(2) b5(2)]]
  have len5: "length b5 = length b" using frame_Un [OF b1(2) f5] by (simp add: frame_def)
  obtain b6 where b6: "dt_flatten_node (e + 4) root (b5, p, e + 4) = Ok (b6, e, e + 4 + tsz)"
    "frame b5 b6 ({p..<e} \<union> {e + 4..<e + 4 + tsz})" "node_at (e + 4) root b6 p (e + 4)"
    using emitsD [OF em, of p "e + 4" b5] p(2) len5 by (auto simp: e_def)
  obtain b7 where b7: "put32 b6 4 (word_of_nat (e + 4 + tsz)) = Ok b7" "frame b6 b7 {4..<4 + 4}"
    using put32_Ok [of 4 b6 "word_of_nat (e + 4 + tsz)"] p len5 frame_length [OF b6(2)] by (auto simp: e_def)
  note f67 = frame_Un [OF b6(2) b7(2)]
  have "frame b b7 ({4..<16} \<union> {32..<40} \<union> {p..<e + 4 + tsz})"
    by (rule frame_trans [OF b1(2) frame_Un [OF f5 f67]]) (auto simp: e_def)
  moreover have "slice b7 8 4 = slice b1 8 4"
    by (rule slice_frame [OF frame_Un [OF f5 f67]]) (use p in \<open>auto simp: e_def\<close>)
  moreover have "slice b7 12 4 = slice b4 12 4"
    by (rule slice_frame [OF frame_Un [OF b5(2) f67]]) (use p in \<open>auto simp: e_def\<close>)
  moreover have "node_at (e + 4) root b7 p (e + 4)"
    using em b6(3) b7(2) p unfolding emits_def local_to_def e_def by fastforce
  ultimately show ?thesis using b1 b2 b3 b4 b5 b6 b7
    by (simp add: structure_offset_def strings_offset_def fdt_word_slice)
qed

lemma dt_flatten_layout:
  assumes ok: "tree_ok tree" and room: "tree_size tree \<le> length dest" and len: "length dest < 2147483648"
    and root: "dt_root tree = Some root"
  defines "hs \<equiv> unat (dt_header_size tree)"
  defines "p \<equiv> hs + 16 * (length (dt_reserve tree) + 1)"
  defines "t \<equiv> p + node_struct root + 4"
  shows "\<exists>d. dt_flatten tree dest = Ok d \<and> frame dest d {0..<tree_size tree} \<and>
    structure_offset d = Ok (word_of_nat p) \<and> strings_offset d = Ok (word_of_nat t) \<and>
    reserve_map_offset d = Ok (dt_header_size tree) \<and>
    entries_at (dt_reserve tree @ [(0, 0)]) d hs \<and> node_at t root d p t"
proof -
  let ?es = "dt_reserve tree @ [(0, 0)]"
  have sz: "tree_size tree = t + node_strings root" by (simp add: tree_size_def root p_def t_def hs_def)
  have hs: "40 \<le> hs" "hs \<le> length (dt_header tree)" and rok: "node_ok root"
    and rmo: "reserve_map_offset (dt_header tree) = Ok (dt_header_size tree)"
    using ok root by (auto simp: tree_ok_def hs_def)
  define hdr where "hdr = take hs (dt_header tree)"
  have hdr: "slice (dt_header tree) 0 hs = Some hdr" "length hdr = hs"
    using hs by (simp_all add: slice_def hdr_def)
  obtain b0 where b0: "put dest 0 hdr = Some b0"
    using hdr(2) room sz by (auto simp: put_def t_def p_def)
  have l0: "length b0 = length dest" by (rule put_length [OF b0])
  have "slice b0 16 4 = slice hdr 16 4"
    using slice_within [OF slice_put_same [OF b0], of 16 4] hdr(2) hs(1) by simp
  also have "\<dots> = slice (dt_header tree) 16 4" using slice_within [OF hdr(1), of 16 4] hs(1) by simp
  finally have r0: "reserve_map_offset b0 = Ok (dt_header_size tree)"
    using rmo by (simp add: reserve_map_offset_def fdt_word_def)
  obtain b1 where b1: "flatten_map ?es (b0, hs) = Ok (b1, p)" "frame b0 b1 {hs..<p}" "entries_at ?es b1 hs"
    using flatten_map_correct [of hs ?es b0] room sz l0 by (auto simp: p_def t_def)
  have sizes: "dt_flat_node_size root (0, 0) = Ok (word_of_nat (node_struct root), word_of_nat (node_strings root))"
    "node_struct root < 4294967296" "node_strings root < 4294967296"
    using flat_size_eq(1) [OF rok] room sz len by (simp_all add: t_def)
  have fit: "40 \<le> p" "p + node_struct root + 4 + node_strings root \<le> length b1"
    using hs room sz l0 frame_length [OF b1(2)] by (simp_all add: p_def t_def)
  obtain d where d: "andthen (put32 b1 8 (word_of_nat p)) (\<lambda>b.
         andthen (put32 b 36 (word_of_nat (node_struct root))) (\<lambda>b.
         andthen (put32 b (p + node_struct root) TokenEnd) (\<lambda>b.
         andthen (put32 b 12 (word_of_nat t)) (\<lambda>b.
         andthen (put32 b 32 (word_of_nat (node_strings root))) (\<lambda>b.
         andthen (dt_flatten_node t root (b, p, t)) (\<lambda>(b, _, _).
           put32 b 4 (word_of_nat (t + node_strings root)))))))) = Ok d"
    "frame b1 d ({4..<16} \<union> {32..<40} \<union> {p..<t + node_strings root})"
    "structure_offset d = Ok (word_of_nat p)" "strings_offset d = Ok (word_of_nat t)" "node_at t root d p t"
    using dt_flatten_tail [OF rok fit] len l0 frame_length [OF b1(2)] unfolding t_def by auto
  have f: "frame b0 d ({hs..<p} \<union> ({4..<16} \<union> {32..<40} \<union> {p..<t + node_strings root}))"
    by (rule frame_Un [OF b1(2) d(2)])
  obtain bm pm where bm: "flatten_map (dt_reserve tree) (b0, hs) = Ok (bm, pm)"
    "dt_flatten_map_entry (0, 0) (bm, pm) = Ok (b1, p)"
    using b1(1) unfolding flatten_map_snoc andthen_Ok_iff by auto
  have "dt_flatten tree dest = Ok d"
    using hdr(1) b0 bm d(1) sizes root
    by (simp add: dt_flatten_def hs_def t_def unat_u32_of_nat Let_def)
  moreover have "frame dest d {0..<tree_size tree}"
    by (rule frame_trans [OF frame_put [OF b0 order_refl] f]) (use hs hdr(2) in \<open>auto simp: sz p_def t_def\<close>)
  moreover have "slice d 16 4 = slice b0 16 4"
    by (rule slice_frame [OF f]) (use hs(1) in \<open>auto simp: p_def\<close>)
  then have "reserve_map_offset d = Ok (dt_header_size tree)"
    using r0 by (simp add: reserve_map_offset_def fdt_word_def)
  moreover have "entries_at ?es d hs"
    by (rule entries_at_frame [OF b1(3) d(2)]) (use hs(1) in \<open>auto simp: p_def\<close>)
  ultimately show ?thesis using d(3-5) by blast
qed

text \<open>
  C20. Flattening a tree into a buffer with room for it needs exactly the \<open>dt_flat_size\<close>
  bytes, leaves the rest of the buffer alone, and unflattening the result gives the tree
  back: the same reserve map and header size, and the same names, properties and children.
\<close>

theorem dt_flatten_unflatten:
  assumes "tree_ok tree" and "tree_size tree \<le> length dest" and "length dest < 2147483648"
  shows "\<exists>n d tree'. dt_flat_size tree = Ok n \<and> dt_flatten tree dest = Ok d \<and>
    length d = length dest \<and> drop (unat n) d = drop (unat n) dest \<and>
    fdt_unflatten d = Ok tree' \<and> dt_reserve tree' = dt_reserve tree \<and>
    dt_header_size tree' = dt_header_size tree \<and>
    map_option node_text (dt_root tree') = map_option node_text (dt_root tree)"
proof -
  obtain root where root: "dt_root tree = Some root" "node_ok root"
    using assms(1) by (auto simp: tree_ok_def split: option.splits)
  let ?hs = "unat (dt_header_size tree)"
  let ?p = "?hs + 16 * (length (dt_reserve tree) + 1)"
  let ?t = "?p + node_struct root + 4"
  have sz: "tree_size tree = ?t + node_strings root" by (simp add: tree_size_def root)
  obtain d where d: "dt_flatten tree dest = Ok d" "frame dest d {0..<tree_size tree}"
    "structure_offset d = Ok (word_of_nat ?p)" "strings_offset d = Ok (word_of_nat ?t)"
    "reserve_map_offset d = Ok (dt_header_size tree)"
    "entries_at (dt_reserve tree @ [(0, 0)]) d ?hs" "node_at ?t root d ?p ?t"
    using dt_flatten_layout [OF assms root(1)] by blast
  have len: "length d = length dest" "length d < 2147483648"
    using frame_length [OF d(2)] assms(3) by simp_all
  have "drop (tree_size tree) d = drop (tree_size tree) dest"
    using d(2) by (auto simp: frame_def intro!: nth_equalityI)
  moreover have "tree_size tree < 2147483648" using assms(2,3) by simp
  moreover have "unflatten_map d ?hs = Ok (dt_reserve tree)"
    using read_map [OF d(6) len(2)] assms(1) by (simp add: tree_ok_def)
  moreover obtain root' where "fdt_unflatten_node d ?p = Ok (node_struct root, Some root')"
    "node_text root' = node_text root"
    using read_node(1) [OF d(4) len(2) d(7) order_refl root(2)] by blast
  moreover have "unat (word_of_nat ?p :: u32) = ?p" "unat (word_of_nat ?t :: u32) = ?t"
    using sz assms(2,3) by (simp_all add: unat_u32_of_nat del: of_nat_add)
  moreover from this have "min (min (word_of_nat ?p) (word_of_nat ?t)) (dt_header_size tree) = dt_header_size tree"
    by (intro min_absorb2) (simp add: word_le_nat_alt del: of_nat_add)
  ultimately show ?thesis
    using dt_flat_size_eq [OF assms(1)] d(1,3,4,5) len(1) root(1)
    by (simp add: fdt_unflatten_def unat_u32_of_nat Let_def del: of_nat_add of_nat_Suc of_nat_mult)
qed

subsection \<open>Witness\<close>

definition sample_tree :: dt_tree where
  "sample_tree = \<lparr>dt_header = replicate 16 0 @ htobe32 40 @ replicate 20 0, dt_header_size = 40,
     dt_reserve = [(4096, 256)],
     dt_root = Some (DtNode [0] [\<lparr>fp_name = [97, 0], fp_data = [1, 2, 3, 4], fp_size = 3\<rparr>]
       [DtNode [98, 0] [] []])\<rparr>"

lemma sample_tree_ok: "tree_ok sample_tree" "tree_size sample_tree = 118"
  by (simp_all add: tree_ok_def sample_tree_def reserve_map_offset_def fdt_word_def slice_def
      prop_ok_def tree_size_def text_len_def prop_struct_def pad4_def)

theorem dt_flatten_unflatten_witness:
  "\<exists>n d tree'. dt_flat_size sample_tree = Ok n \<and> dt_flatten sample_tree (replicate 128 7) = Ok d \<and>
     fdt_unflatten d = Ok tree' \<and> dt_reserve tree' = [(4096, 256)] \<and>
     map_option node_text (dt_root tree') = Some (DtText [] [([97], [1, 2, 3])] [DtText [98] [] []])"
  using dt_flatten_unflatten [OF sample_tree_ok(1), of "replicate 128 7"] sample_tree_ok(2)
  by (force simp: sample_tree_def prop_text_def text_of_def)

end
