(* ===== verification/DtEdit.thy ===== *)
theory DtEdit
  imports DtFlatten
begin

text \<open>
  Reading and changing an unflattened device tree (the last part of
  \<^verbatim>\<open>src/src/base/device_tree.c\<close>).  A pointer to a node is the path of child indices that
  leads to it from the node a function was given; NULL is \<open>None\<close>.  A new node or property
  goes to the front of its list.  \<open>sg\<close> is the signedness of \<open>char\<close>, \<open>mem\<close> whether \<open>strdup\<close>
  finds memory, and \<open>fresh\<close> what memory holds before it is written.
\<close>

subsection \<open>Cell sizes and paths\<close>

text \<open>\<open>None\<close> is a NULL \<open>addrcp\<close> or \<open>sizecp\<close>, \<open>Some v\<close> a pointer to a variable holding \<open>v\<close>.\<close>

definition read_cell :: "bool \<Rightarrow> string \<Rightarrow> fdt_property \<Rightarrow> u32 option \<Rightarrow> u32 option res" where
  "read_cell sg key p cell =
     (case cell of None \<Rightarrow> Ok None
      | Some v \<Rightarrow> andthen (strcmp sg (str key @ [0]) (fp_name p)) (\<lambda>c.
          if c = 0 then map_res Some (fdt_word (fp_data p) 0) else Ok (Some v)))"

fun read_cells :: "bool \<Rightarrow> fdt_property list \<Rightarrow> u32 option \<times> u32 option \<Rightarrow> (u32 option \<times> u32 option) res" where
  "read_cells sg [] cells = Ok cells"
| "read_cells sg (p # ps) (addrc, sizec) =
     andthen (read_cell sg ''#address-cells'' p addrc) (\<lambda>addrc.
     andthen (read_cell sg ''#size-cells'' p sizec) (\<lambda>sizec.
       read_cells sg ps (addrc, sizec)))"

definition dt_read_cell_props ::
  "bool \<Rightarrow> dt_node \<Rightarrow> u32 option \<times> u32 option \<Rightarrow> (u32 option \<times> u32 option) res" where
  "dt_read_cell_props sg node cells = read_cells sg (dn_props node) cells"

fun find_child :: "bool \<Rightarrow> dt_node list \<Rightarrow> bytes \<Rightarrow> nat option res" where
  "find_child sg [] name = Ok None"
| "find_child sg (c # cs) name =
     andthen (strcmp sg (dn_name c) name) (\<lambda>r.
       if r = 0 then Ok (Some 0) else map_res (map_option Suc) (find_child sg cs name))"

definition set_children :: "dt_node \<Rightarrow> dt_node list \<Rightarrow> dt_node" where
  "set_children node cs = DtNode (dn_name node) (dn_props node) cs"

type_synonym find_result = "nat list option \<times> dt_node \<times> (u32 option \<times> u32 option)"

text \<open>\<open>below i cs\<close> is the result for child \<open>i\<close> of \<open>cs\<close> seen from its parent.\<close>

definition below_child :: "dt_node \<Rightarrow> dt_node list \<Rightarrow> nat \<Rightarrow> find_result \<Rightarrow> find_result" where
  "below_child parent cs i r =
     (case r of (p, c, cells) \<Rightarrow> (map_option ((#) i) p, set_children parent (cs[i := c]), cells))"

fun dt_find_node ::
  "bool \<Rightarrow> bool \<Rightarrow> (nat \<Rightarrow> bytes) \<Rightarrow> dt_node \<Rightarrow> bytes list \<Rightarrow> u32 option \<times> u32 option \<Rightarrow> bool \<Rightarrow> find_result res"
where
  "dt_find_node sg mem fresh parent [] cells create =
     map_res (\<lambda>cells. (Some [], parent, cells)) (dt_read_cell_props sg parent cells)"
| "dt_find_node sg mem fresh parent (name # path) cells create =
     andthen (dt_read_cell_props sg parent cells) (\<lambda>cells.
     andthen (find_child sg (dn_children parent) name) (\<lambda>found.
       case found of
         Some i \<Rightarrow> map_res (below_child parent (dn_children parent) i)
           (dt_find_node sg mem fresh (dn_children parent ! i) path cells create)
       | None \<Rightarrow>
           if \<not> create then Ok (None, parent, cells)
           else andthen (strdup mem fresh name) (\<lambda>d.
             case d of None \<Rightarrow> Ok (None, parent, cells)
             | Some nm \<Rightarrow>
                 (let new = DtNode nm [] [] in
                  map_res (below_child parent (new # dn_children parent) 0)
                    (dt_find_node sg mem fresh new path cells create)))))"

subsection \<open>Compatible strings and property values\<close>

function compat_loop :: "bool \<Rightarrow> bytes \<Rightarrow> bytes \<Rightarrow> nat \<Rightarrow> bool res" where
  "compat_loop sg wanted s n =
     (if n = 0 then Ok False
      else andthen (strncmp sg wanted s n) (\<lambda>r.
        if r = 0 then Ok True
        else andthen (strnlen (Some s) n) (\<lambda>l.
          if n \<le> l + 1 then Ok False else compat_loop sg wanted (drop (l + 1) s) (n - (l + 1)))))"
  by pat_completeness auto

termination
  by (relation "measure (\<lambda>(sg, wanted, s, n). n)") auto

declare compat_loop.simps [simp del]

fun find_prop :: "bool \<Rightarrow> bytes \<Rightarrow> fdt_property list \<Rightarrow> fdt_property option res" where
  "find_prop sg name [] = Ok None"
| "find_prop sg name (p # ps) =
     andthen (strcmp sg name (fp_name p)) (\<lambda>r. if r = 0 then Ok (Some p) else find_prop sg name ps)"

definition dt_check_compat_match :: "bool \<Rightarrow> dt_node \<Rightarrow> bytes \<Rightarrow> bool res" where
  "dt_check_compat_match sg node wanted =
     andthen (find_prop sg (str ''compatible'' @ [0]) (dn_props node)) (\<lambda>f.
       case f of None \<Rightarrow> Ok False
       | Some p \<Rightarrow> compat_loop sg wanted (fp_data p) (unat (fp_size p)))"

text \<open>A search of the subtree in preorder for a node with \<open>test\<close>.\<close>

fun find_below :: "(dt_node \<Rightarrow> bool res) \<Rightarrow> dt_node \<Rightarrow> nat list option res"
  and find_below_list :: "(dt_node \<Rightarrow> bool res) \<Rightarrow> nat \<Rightarrow> dt_node list \<Rightarrow> nat list option res"
where
  "find_below test (DtNode name ps cs) =
     andthen (test (DtNode name ps cs)) (\<lambda>b. if b then Ok (Some []) else find_below_list test 0 cs)"
| "find_below_list test i [] = Ok None"
| "find_below_list test i (c # cs) =
     andthen (find_below test c) (\<lambda>f.
       case f of Some p \<Rightarrow> Ok (Some (i # p)) | None \<Rightarrow> find_below_list test (Suc i) cs)"

definition dt_find_compat :: "bool \<Rightarrow> dt_node \<Rightarrow> bytes \<Rightarrow> nat list option res" where
  "dt_find_compat sg parent wanted = find_below (\<lambda>n. dt_check_compat_match sg n wanted) parent"

fun next_compat :: "bool \<Rightarrow> bytes \<Rightarrow> nat option \<Rightarrow> nat \<Rightarrow> dt_node list \<Rightarrow> nat option res" where
  "next_compat sg wanted ignore i [] = Ok None"
| "next_compat sg wanted ignore i (c # cs) =
     (case ignore of
        Some j \<Rightarrow> next_compat sg wanted (if i = j then None else ignore) (Suc i) cs
      | None \<Rightarrow> andthen (dt_check_compat_match sg c wanted) (\<lambda>b.
          if b then Ok (Some i) else next_compat sg wanted None (Suc i) cs))"

definition dt_find_next_compat_child :: "bool \<Rightarrow> dt_node \<Rightarrow> nat option \<Rightarrow> bytes \<Rightarrow> nat option res" where
  "dt_find_next_compat_child sg parent child wanted = next_compat sg wanted child 0 (dn_children parent)"

definition prop_value_matches :: "bool \<Rightarrow> bytes \<Rightarrow> bytes \<Rightarrow> nat \<Rightarrow> dt_node \<Rightarrow> bool res" where
  "prop_value_matches sg name dat n node =
     andthen (find_prop sg name (dn_props node)) (\<lambda>f.
       case f of None \<Rightarrow> Ok False
       | Some p \<Rightarrow>
           if n \<noteq> unat (fp_size p) then Ok False
           else map_res (\<lambda>c. c = 0) (default_memcmp dat (fp_data p) n))"

definition dt_find_prop_value :: "bool \<Rightarrow> dt_node \<Rightarrow> bytes \<Rightarrow> bytes \<Rightarrow> nat \<Rightarrow> nat list option res" where
  "dt_find_prop_value sg parent name dat n = find_below (prop_value_matches sg name dat n) parent"

subsection \<open>Properties\<close>

fun dt_write_int :: "bytes \<Rightarrow> u64 \<Rightarrow> nat \<Rightarrow> bytes res" where
  "dt_write_int dest src 0 = Ok dest"
| "dt_write_int dest src (Suc k) =
     andthen (of_opt (put dest k [ucast src])) (\<lambda>dest. dt_write_int dest (drop_bit 8 src) k)"

fun update_prop :: "bool \<Rightarrow> bytes \<Rightarrow> bytes \<Rightarrow> u32 \<Rightarrow> fdt_property list \<Rightarrow> fdt_property list option res" where
  "update_prop sg name dat sz [] = Ok None"
| "update_prop sg name dat sz (p # ps) =
     andthen (strcmp sg (fp_name p) name) (\<lambda>r.
       if r = 0 then Ok (Some (p\<lparr>fp_data := dat, fp_size := sz\<rparr> # ps))
       else map_res (map_option ((#) p)) (update_prop sg name dat sz ps))"

text \<open>The \<open>size_t\<close> argument is stored in the 32 bits of the property.\<close>

definition dt_add_bin_prop :: "bool \<Rightarrow> dt_node \<Rightarrow> bytes \<Rightarrow> bytes \<Rightarrow> u64 \<Rightarrow> dt_node res" where
  "dt_add_bin_prop sg node name dat n =
     map_res (\<lambda>r. case r of Some ps \<Rightarrow> DtNode (dn_name node) ps (dn_children node)
       | None \<Rightarrow> DtNode (dn_name node)
           (\<lparr>fp_name = name, fp_data = dat, fp_size = ucast n\<rparr> # dn_props node) (dn_children node))
     (update_prop sg name dat (ucast n) (dn_props node))"

fun find_prop_rev :: "bool \<Rightarrow> bytes \<Rightarrow> fdt_property list \<Rightarrow> fdt_property option res" where
  "find_prop_rev sg name [] = Ok None"
| "find_prop_rev sg name (p # ps) =
     andthen (strcmp sg (fp_name p) name) (\<lambda>r. if r = 0 then Ok (Some p) else find_prop_rev sg name ps)"

text \<open>NULL and 0 when there is no such property.\<close>

definition dt_find_bin_prop :: "bool \<Rightarrow> dt_node \<Rightarrow> bytes \<Rightarrow> (bytes option \<times> u64) res" where
  "dt_find_bin_prop sg node name =
     map_res (\<lambda>f. case f of Some p \<Rightarrow> (Some (fp_data p), ucast (fp_size p)) | None \<Rightarrow> (None, 0))
       (find_prop_rev sg name (dn_props node))"

definition dt_find_string_prop :: "bool \<Rightarrow> dt_node \<Rightarrow> bytes \<Rightarrow> bytes option res" where
  "dt_find_string_prop sg node name = map_res fst (dt_find_bin_prop sg node name)"

definition dt_add_string_prop :: "bool \<Rightarrow> dt_node \<Rightarrow> bytes \<Rightarrow> bytes \<Rightarrow> dt_node res" where
  "dt_add_string_prop sg node name s =
     andthen (strlen (Some s)) (\<lambda>l. dt_add_bin_prop sg node name s (word_of_nat (l + 1)))"

definition dt_add_u32_prop :: "bool \<Rightarrow> dt_node \<Rightarrow> bytes \<Rightarrow> u32 \<Rightarrow> dt_node res" where
  "dt_add_u32_prop sg node name val = dt_add_bin_prop sg node name (htobe32 val) 4"

text \<open>The loop of \<open>dt_add_reg_prop\<close>: \<open>cur\<close> is the offset of the next cell.\<close>

fun reg_cells :: "(u64 \<times> u64) list \<Rightarrow> nat \<Rightarrow> nat \<Rightarrow> bytes \<Rightarrow> nat \<Rightarrow> bytes res" where
  "reg_cells [] ac sc dat cur = Ok dat"
| "reg_cells ((a, s) # rs) ac sc dat cur =
     andthen (at_offset dat cur (\<lambda>d. dt_write_int d a (ac * 4))) (\<lambda>dat.
     andthen (at_offset dat (cur + ac * 4) (\<lambda>d. dt_write_int d s (sc * 4))) (\<lambda>dat.
       reg_cells rs ac sc dat (cur + ac * 4 + sc * 4)))"

definition dt_add_reg_prop ::
  "bool \<Rightarrow> (nat \<Rightarrow> bytes) \<Rightarrow> dt_node \<Rightarrow> (u64 \<times> u64) list \<Rightarrow> u32 \<Rightarrow> u32 \<Rightarrow> dt_node res" where
  "dt_add_reg_prop sg fresh node regs addr_cells size_cells =
     (let len = (ucast (addr_cells + size_cells) * 4 * word_of_nat (length regs) :: u64) in
      andthen (reg_cells regs (unat addr_cells) (unat size_cells) (fresh (unat len)) 0) (\<lambda>dat.
        dt_add_bin_prop sg node (str ''reg'' @ [0]) dat len))"

text \<open>A fixup returns whether it failed; a missing function trips the assertion.\<close>

fun dt_apply_fixups :: "(dt_tree \<Rightarrow> bool \<times> dt_tree) option list \<Rightarrow> dt_tree \<Rightarrow> (bool \<times> dt_tree) res" where
  "dt_apply_fixups [] tree = Ok (False, tree)"
| "dt_apply_fixups (None # fs) tree = Fault AssertFail"
| "dt_apply_fixups (Some f # fs) tree =
     (case f tree of (failed, tree) \<Rightarrow> if failed then Ok (True, tree) else dt_apply_fixups fs tree)"

subsection \<open>Adding a property\<close>

definition named_props :: "dt_node \<Rightarrow> bool" where
  "named_props node \<longleftrightarrow> list_all (\<lambda>p. cstr (fp_name p) \<noteq> None) (dn_props node)"

lemma strcmp_cstr:
  assumes "cstr a \<noteq> None" and "cstr b \<noteq> None"
  shows "\<exists>r. strcmp sg a b = Ok r \<and> (r = 0 \<longleftrightarrow> text_of a = text_of b)"
proof -
  obtain ra rb where "a = text_of a @ 0 # ra" "b = text_of b @ 0 # rb" "0 \<notin> set (text_of a)" "0 \<notin> set (text_of b)"
    using cstr_Some_split text_of_cstr [OF assms(1)] text_of_cstr [OF assms(2)] by metis
  then show ?thesis using strcmp_terminated [of "text_of a" "text_of b" sg ra rb] by metis
qed

lemma find_prop_rev_eq:
  "list_all (\<lambda>p. cstr (fp_name p) \<noteq> None) ps \<Longrightarrow> cstr name \<noteq> None \<Longrightarrow>
     find_prop_rev sg name ps = Ok (List.find (\<lambda>p. text_of (fp_name p) = text_of name) ps)"
proof (induction ps)
  case (Cons p ps)
  then obtain r where "strcmp sg (fp_name p) name = Ok r" "r = 0 \<longleftrightarrow> text_of (fp_name p) = text_of name"
    using strcmp_cstr [of "fp_name p" name sg] by auto
  with Cons show ?case by simp
qed simp

text \<open>The value of the first property with a given name.\<close>

definition prop_value :: "bytes \<Rightarrow> fdt_property list \<Rightarrow> (bytes \<times> u32) option" where
  "prop_value x ps = map_option (\<lambda>p. (fp_data p, fp_size p)) (List.find (\<lambda>p. text_of (fp_name p) = x) ps)"

lemma prop_value_Cons:
  "prop_value x [] = None"
  "prop_value x (p # ps) =
     (if text_of (fp_name p) = x then Some (fp_data p, fp_size p) else prop_value x ps)"
  by (simp_all add: prop_value_def)

definition updated :: "fdt_property list \<Rightarrow> bytes \<Rightarrow> bytes \<times> u32 \<Rightarrow> fdt_property list \<Rightarrow> bool" where
  "updated ps name v ps' \<longleftrightarrow> list_all (\<lambda>p. cstr (fp_name p) \<noteq> None) ps' \<and>
     (\<forall>x. prop_value x ps' = (if x = text_of name then Some v else prop_value x ps))"

lemma update_prop_eq:
  "list_all (\<lambda>p. cstr (fp_name p) \<noteq> None) ps \<Longrightarrow> cstr name \<noteq> None \<Longrightarrow>
     \<exists>r. update_prop sg name dat sz ps = Ok r \<and> (\<forall>ps'. r = Some ps' \<longrightarrow> updated ps name (dat, sz) ps')"
proof (induction ps)
  case (Cons p ps)
  then obtain r where r: "strcmp sg (fp_name p) name = Ok r" "r = 0 \<longleftrightarrow> text_of (fp_name p) = text_of name"
    using strcmp_cstr [of "fp_name p" name sg] by auto
  from Cons obtain r' where "update_prop sg name dat sz ps = Ok r'"
    "\<forall>ps'. r' = Some ps' \<longrightarrow> updated ps name (dat, sz) ps'"
    by auto
  with r Cons.prems show ?case by (auto simp: updated_def prop_value_Cons)
qed simp

lemma dt_find_bin_prop_eq:
  "named_props nd \<Longrightarrow> cstr key \<noteq> None \<Longrightarrow> dt_find_bin_prop sg nd key =
     Ok (case prop_value (text_of key) (dn_props nd) of None \<Rightarrow> (None, 0) | Some (d, z) \<Rightarrow> (Some d, ucast z))"
  by (simp add: dt_find_bin_prop_def named_props_def find_prop_rev_eq prop_value_def split: option.split)

lemma dt_add_bin_prop_spec:
  assumes "named_props node" and "cstr name \<noteq> None"
  shows "\<exists>node'. dt_add_bin_prop sg node name dat n = Ok node' \<and> named_props node' \<and>
    dn_children node' = dn_children node \<and> dn_name node' = dn_name node \<and>
    (\<forall>key. cstr key \<noteq> None \<longrightarrow> dt_find_bin_prop sg node' key =
      (if text_of key = text_of name then Ok (Some dat, take_bit 32 n) else dt_find_bin_prop sg node key))"
proof -
  have cast: "ucast (ucast n :: u32) = take_bit 32 n" by (simp add: unsigned_ucast_eq)
  obtain r where r: "update_prop sg name dat (ucast n) (dn_props node) = Ok r"
    "\<forall>ps'. r = Some ps' \<longrightarrow> updated (dn_props node) name (dat, ucast n) ps'"
    using update_prop_eq [of "dn_props node" name sg dat "ucast n"] assms by (auto simp: named_props_def)
  define ps where "ps = (case r of Some ps \<Rightarrow> ps
      | None \<Rightarrow> \<lparr>fp_name = name, fp_data = dat, fp_size = ucast n\<rparr> # dn_props node)"
  let ?nd = "DtNode (dn_name node) ps (dn_children node)"
  have add: "dt_add_bin_prop sg node name dat n = Ok ?nd"
    using r(1) by (cases r) (simp_all add: dt_add_bin_prop_def ps_def)
  have up: "updated (dn_props node) name (dat, ucast n) ps"
    using r(2) assms by (cases r) (auto simp: ps_def updated_def prop_value_Cons named_props_def)
  then have ok: "named_props ?nd" by (simp add: named_props_def updated_def)
  have "dt_find_bin_prop sg ?nd key =
      (if text_of key = text_of name then Ok (Some dat, take_bit 32 n) else dt_find_bin_prop sg node key)"
    if "cstr key \<noteq> None" for key
    using up that by (simp add: dt_find_bin_prop_eq [OF ok that] dt_find_bin_prop_eq [OF assms(1) that]
      updated_def cast)
  with add ok show ?thesis by auto
qed

text \<open>
  After \<open>dt_add_bin_prop\<close> the property of that name holds the new data, its size cut to
  32 bits; every other property and all children are as they were.
\<close>

theorem dt_add_bin_prop_find:
  assumes "named_props node" and "cstr name \<noteq> None"
  shows "\<exists>node'. dt_add_bin_prop sg node name dat n = Ok node' \<and> named_props node' \<and>
    dn_children node' = dn_children node \<and> dn_name node' = dn_name node \<and>
    (\<forall>key. cstr key \<noteq> None \<longrightarrow> dt_find_bin_prop sg node' key =
      (if text_of key = text_of name then Ok (Some dat, take_bit 32 n) else dt_find_bin_prop sg node key))"
  by (rule dt_add_bin_prop_spec [OF assms])

subsection \<open>Cells\<close>

lemma be_bytes_Suc: "be_bytes (Suc k) v = be_bytes k (v div 256) @ [word_of_nat v]"
  by (simp add: be_bytes_def)

lemma dt_write_int_eq:
  "k \<le> length dest \<Longrightarrow> dt_write_int dest src k = Ok (be_bytes k (unat src) @ drop k dest)"
proof (induction k arbitrary: dest src)
  case 0
  then show ?case by (simp add: be_bytes_def)
next
  case (Suc k)
  have low: "word_of_nat (unat src) = (ucast src :: u8)" by (simp add: unsigned_def)
  have "unat (drop_bit 8 src) = unat src div 256"
    by (simp add: drop_bit_eq_div unat_div)
  then show ?case
    using Suc low by (simp add: put_def be_bytes_Suc Cons_nth_drop_Suc)
qed

definition reg_bytes :: "nat \<Rightarrow> nat \<Rightarrow> (u64 \<times> u64) list \<Rightarrow> bytes" where
  "reg_bytes ac sc regs =
     concat (map (\<lambda>(a, s). be_bytes (ac * 4) (unat a) @ be_bytes (sc * 4) (unat s)) regs)"

lemma length_reg_bytes: "length (reg_bytes ac sc regs) = (ac + sc) * 4 * length regs"
  by (induction regs) (auto simp: reg_bytes_def algebra_simps)

lemma write_int_at:
  "cur + k \<le> length dat \<Longrightarrow> at_offset dat cur (\<lambda>d. dt_write_int d v k) =
     Ok (take cur dat @ be_bytes k (unat v) @ drop (cur + k) dat)"
  by (simp add: at_offset_def dt_write_int_eq add.commute)

lemma reg_cells_eq:
  "cur + length (reg_bytes ac sc regs) \<le> length dat \<Longrightarrow>
     reg_cells regs ac sc dat cur =
       Ok (take cur dat @ reg_bytes ac sc regs @ drop (cur + length (reg_bytes ac sc regs)) dat)"
proof (induction regs arbitrary: dat cur)
  case Nil
  then show ?case by (simp add: reg_bytes_def)
next
  case (Cons r regs)
  obtain a z where r: "r = (a, z)" by (cases r)
  let ?m = "cur + ac * 4 + sc * 4"
  let ?dat = "take cur dat @ be_bytes (ac * 4) (unat a) @ be_bytes (sc * 4) (unat z) @ drop ?m dat"
  have room: "?m + length (reg_bytes ac sc regs) \<le> length dat"
    using Cons.prems by (simp add: length_reg_bytes algebra_simps)
  have "reg_cells (r # regs) ac sc dat cur = reg_cells regs ac sc ?dat ?m"
    using room by (simp add: r write_int_at add.commute add.left_commute)
  also have "\<dots> = Ok (take ?m ?dat @ reg_bytes ac sc regs @ drop (?m + length (reg_bytes ac sc regs)) ?dat)"
    using room by (intro Cons.IH) simp
  finally show ?case using room by (simp add: r reg_bytes_def length_reg_bytes add.assoc ac_simps)
qed

text \<open>
  \<open>dt_add_reg_prop\<close> stores every address and size as a big-endian integer of its number
  of cells, in order and without a gap, as the value of the property \<open>reg\<close>.
\<close>

theorem dt_add_reg_prop_encodes:
  assumes "named_props node" and "unat addr_cells + unat size_cells < 4294967296"
    and "(unat addr_cells + unat size_cells) * 4 * length regs < 4294967296"
    and "\<And>n. length (fresh n) = n"
  shows "\<exists>node'. dt_add_reg_prop sg fresh node regs addr_cells size_cells = Ok node' \<and>
    dt_find_bin_prop sg node' (str ''reg'' @ [0]) =
      Ok (Some (reg_bytes (unat addr_cells) (unat size_cells) regs),
          word_of_nat ((unat addr_cells + unat size_cells) * 4 * length regs))"
proof -
  let ?n = "(unat addr_cells + unat size_cells) * 4 * length regs"
  let ?len = "ucast (addr_cells + size_cells) * 4 * word_of_nat (length regs) :: u64"
  have "unat (addr_cells + size_cells) = unat addr_cells + unat size_cells"
    using assms(2) by (simp add: unat_word_ariths)
  then have "ucast (addr_cells + size_cells) = (word_of_nat (unat addr_cells + unat size_cells) :: u64)"
    by (intro word_unat_eq_iff [THEN iffD2]) (use assms(2) in \<open>simp add: unat_u64_of_nat del: of_nat_add\<close>)
  then have len: "?len = word_of_nat ?n" by simp
  have n: "unat ?len = ?n" unfolding len using assms(3) by (intro unat_u64_of_nat) simp
  have cells: "reg_cells regs (unat addr_cells) (unat size_cells) (fresh ?n) 0 =
      Ok (reg_bytes (unat addr_cells) (unat size_cells) regs)"
    using reg_cells_eq [of 0 "unat addr_cells" "unat size_cells" regs "fresh ?n"] assms(4)
    by (simp add: length_reg_bytes)
  have reg: "cstr (str ''reg'' @ [0]) \<noteq> None" by (simp add: str_def)
  have "take_bit 32 (word_of_nat ?n :: u64) = word_of_nat ?n"
    using assms(3) by (intro word_unat_eq_iff [THEN iffD2])
      (simp add: unsigned_take_bit_eq unat_of_nat take_bit_nat_eq_self del: of_nat_mult of_nat_add)
  with dt_add_bin_prop_spec [OF assms(1) reg, of sg "reg_bytes (unat addr_cells) (unat size_cells) regs" "?len"]
    cells n len reg show ?thesis
    by (auto simp: dt_add_reg_prop_def)
qed

subsection \<open>Compatible strings\<close>

lemma strncmp_cstr:
  assumes "0 \<notin> set a" and "0 \<notin> set b" and "length a < n \<or> length b < n"
  shows "\<exists>r. strncmp sg (a @ 0 # ra) (b @ 0 # rb) n = Ok r \<and> (r = 0 \<longleftrightarrow> a = b)"
proof -
  have "ctext n (x @ 0 # r) = take n x" if "0 \<notin> set x" for x and r :: bytes and n
    using that
  proof (induction x arbitrary: n)
    case Nil
    then show ?case by (cases n) auto
  next
    case (Cons c x)
    then show ?case by (cases n) auto
  qed
  moreover have "take n a = take n b \<longleftrightarrow> a = b"
  proof
    assume eq: "take n a = take n b"
    then have "min (length a) n = min (length b) n" by (metis length_take)
    then have "length a < n" "length b < n" using assms(3) by (auto simp: min_def split: if_splits)
    then show "a = b" using eq by simp
  qed simp
  moreover have "readable n (a @ 0 # ra)" "readable n (b @ 0 # rb)" by (auto simp: readable_def)
  ultimately show ?thesis using strncmp_text [of n "a @ 0 # ra" "b @ 0 # rb" sg] assms by simp
qed

definition string_list :: "bytes list \<Rightarrow> bytes" where
  "string_list ss = concat (map (\<lambda>s. s @ [0]) ss)"

lemma compat_loop_strings:
  assumes "0 \<notin> set c"
  shows "\<forall>s \<in> set ss. 0 \<notin> set s \<Longrightarrow>
    compat_loop sg (c @ 0 # rc) (string_list ss @ rest) (length (string_list ss)) = Ok (c \<in> set ss)"
proof (induction ss)
  case Nil
  then show ?case by (simp add: compat_loop.simps string_list_def)
next
  case (Cons s ss)
  let ?n = "length (string_list (s # ss))"
  have ls: "string_list (s # ss) @ rest = s @ 0 # string_list ss @ rest" and n: "length s < ?n"
    by (simp_all add: string_list_def)
  obtain r where r: "strncmp sg (c @ 0 # rc) (string_list (s # ss) @ rest) ?n = Ok r" "r = 0 \<longleftrightarrow> c = s"
    using strncmp_cstr [OF assms _ disjI2 [OF n], of sg rc "string_list ss @ rest"] Cons.prems unfolding ls
    by (meson list.set_intros(1))
  have l: "strnlen (Some (string_list (s # ss) @ rest)) ?n = Ok (length s)"
    using strnlen_terminated [OF _ n] Cons.prems unfolding ls by simp
  have more: "?n \<le> length s + 1 \<longleftrightarrow> ss = []" by (cases ss) (simp_all add: string_list_def)
  have rec: "drop (length s + 1) (string_list (s # ss) @ rest) = string_list ss @ rest"
    "?n - (length s + 1) = length (string_list ss)" by (simp_all add: string_list_def)
  have IH: "compat_loop sg (c @ 0 # rc) (string_list ss @ rest) (length (string_list ss)) = Ok (c \<in> set ss)"
    using Cons by simp
  have "?n \<noteq> 0" by (simp add: string_list_def)
  then show ?case
    by (subst compat_loop.simps, unfold r(1) l andthen.simps rec)
      (use r(2) IH more in \<open>auto simp del: One_nat_def add_Suc_right\<close>)
qed

text \<open>
  A node whose \<open>compatible\<close> property is a list of strings matches exactly the strings
  of the list; a node without the property matches none.
\<close>

theorem dt_check_compat_match_strings:
  assumes "named_props node" and "0 \<notin> set c"
  shows "(prop_value (str ''compatible'') (dn_props node) = None \<longrightarrow>
      dt_check_compat_match sg node (c @ 0 # rc) = Ok False) \<and>
    (\<forall>ss rest sz. prop_value (str ''compatible'') (dn_props node) = Some (string_list ss @ rest, sz) \<longrightarrow>
      unat sz = length (string_list ss) \<longrightarrow> (\<forall>s \<in> set ss. 0 \<notin> set s) \<longrightarrow>
      dt_check_compat_match sg node (c @ 0 # rc) = Ok (c \<in> set ss))"
proof -
  let ?k = "str ''compatible'' @ [0]"
  have k: "cstr ?k \<noteq> None" "text_of ?k = str ''compatible''" by (simp_all add: str_def text_of_def)
  have find: "find_prop sg ?k ps = Ok (List.find (\<lambda>p. text_of (fp_name p) = str ''compatible'') ps)"
    if "list_all (\<lambda>p. cstr (fp_name p) \<noteq> None) ps" for ps
    using that
  proof (induction ps)
    case (Cons p ps)
    then obtain r where "strcmp sg ?k (fp_name p) = Ok r" "r = 0 \<longleftrightarrow> text_of (fp_name p) = str ''compatible''"
      using strcmp_cstr [OF k(1), of "fp_name p" sg] k(2) by auto
    with Cons show ?case by simp
  qed simp
  have "dt_check_compat_match sg node (c @ 0 # rc) =
      (case prop_value (str ''compatible'') (dn_props node) of None \<Rightarrow> Ok False
       | Some (d, z) \<Rightarrow> compat_loop sg (c @ 0 # rc) d (unat z))"
    using assms(1) find
    by (auto simp: dt_check_compat_match_def named_props_def prop_value_def split: option.splits)
  then show ?thesis using compat_loop_strings [OF assms(2)] by simp
qed

subsection \<open>Finding and creating nodes\<close>

text \<open>The node a path of names leads to: the first child of each name.\<close>

definition child_named :: "bytes \<Rightarrow> dt_node list \<Rightarrow> dt_node option" where
  "child_named x cs = List.find (\<lambda>c. text_of (dn_name c) = x) cs"

fun dt_lookup :: "dt_node \<Rightarrow> bytes list \<Rightarrow> dt_node option" where
  "dt_lookup n [] = Some n"
| "dt_lookup n (x # q) = (case child_named x (dn_children n) of None \<Rightarrow> None | Some c \<Rightarrow> dt_lookup c q)"

fun node_at_path :: "dt_node \<Rightarrow> nat list \<Rightarrow> dt_node" where
  "node_at_path n [] = n"
| "node_at_path n (i # p) = node_at_path (dn_children n ! i) p"

fun dt_wf :: "dt_node \<Rightarrow> bool" where
  "dt_wf (DtNode name ps cs) \<longleftrightarrow> cstr name \<noteq> None \<and>
     list_all (\<lambda>p. cstr (fp_name p) \<noteq> None \<and> 4 \<le> length (fp_data p)) ps \<and> list_all dt_wf cs"

lemma dt_wf_parts:
  "dt_wf n \<longleftrightarrow> cstr (dn_name n) \<noteq> None \<and>
     list_all (\<lambda>p. cstr (fp_name p) \<noteq> None \<and> 4 \<le> length (fp_data p)) (dn_props n) \<and> list_all dt_wf (dn_children n)"
  by (cases n) simp

lemma read_cell_Ok:
  assumes "cstr (fp_name p) \<noteq> None" and "4 \<le> length (fp_data p)" and "0 \<notin> set (str key)"
  shows "\<exists>c. read_cell sg key p cell = Ok c"
proof (cases cell)
  case (Some v)
  have "cstr (str key @ [0]) \<noteq> None" using cstr_append_NUL [OF assms(3), of "[]"] by simp
  from strcmp_cstr [OF this assms(1), of sg] show ?thesis using assms(2) Some
    by (auto simp: read_cell_def fdt_word_def slice_def)
qed (simp add: read_cell_def)

lemma read_cells_Ok:
  "list_all (\<lambda>p. cstr (fp_name p) \<noteq> None \<and> 4 \<le> length (fp_data p)) ps \<Longrightarrow> \<exists>c. read_cells sg ps cells = Ok c"
proof (induction ps arbitrary: cells)
  case (Cons p ps)
  obtain a z where cells: "cells = (a, z)" by (cases cells)
  obtain a' where a': "read_cell sg ''#address-cells'' p a = Ok a'"
    using read_cell_Ok [of p "''#address-cells''" sg a] Cons.prems by (auto simp: str_def)
  obtain z' where z': "read_cell sg ''#size-cells'' p z = Ok z'"
    using read_cell_Ok [of p "''#size-cells''" sg z] Cons.prems by (auto simp: str_def)
  from Cons a' z' show ?case by (simp add: cells)
qed simp

lemma find_child_eq:
  "list_all dt_wf cs \<Longrightarrow> cstr name \<noteq> None \<Longrightarrow>
     (find_child sg cs name = Ok None \<and> child_named (text_of name) cs = None) \<or>
     (\<exists>i < length cs. find_child sg cs name = Ok (Some i) \<and> child_named (text_of name) cs = Some (cs ! i) \<and>
        text_of (dn_name (cs ! i)) = text_of name \<and>
        (\<forall>c x. dn_name c = dn_name (cs ! i) \<longrightarrow> child_named x (cs[i := c]) =
           (if x = text_of name then Some c else child_named x cs)))"
proof (induction cs)
  case Nil
  then show ?case by (simp add: child_named_def)
next
  case (Cons c cs)
  then have "cstr (dn_name c) \<noteq> None" by (simp add: dt_wf_parts)
  then obtain r where r: "strcmp sg (dn_name c) name = Ok r" "r = 0 \<longleftrightarrow> text_of (dn_name c) = text_of name"
    using strcmp_cstr [OF _ Cons.prems(2), of "dn_name c" sg] by auto
  show ?case
  proof (cases "r = 0")
    case True
    with r show ?thesis by (intro disjI2 exI [of _ 0]) (simp add: child_named_def)
  next
    case False
    from Cons have "(find_child sg cs name = Ok None \<and> child_named (text_of name) cs = None) \<or>
     (\<exists>i < length cs. find_child sg cs name = Ok (Some i) \<and> child_named (text_of name) cs = Some (cs ! i) \<and>
        text_of (dn_name (cs ! i)) = text_of name \<and>
        (\<forall>c x. dn_name c = dn_name (cs ! i) \<longrightarrow> child_named x (cs[i := c]) =
           (if x = text_of name then Some c else child_named x cs)))" by simp
    then show ?thesis
    proof (elim disjE exE conjE)
      fix i
      assume "i < length cs" "find_child sg cs name = Ok (Some i)" "child_named (text_of name) cs = Some (cs ! i)"
        "text_of (dn_name (cs ! i)) = text_of name"
        "\<forall>c x. dn_name c = dn_name (cs ! i) \<longrightarrow> child_named x (cs[i := c]) =
           (if x = text_of name then Some c else child_named x cs)"
      with r False show ?thesis by (intro disjI2 exI [of _ "Suc i"]) (simp add: child_named_def)
    qed (use r False in \<open>simp add: child_named_def\<close>)
  qed
qed

lemma strdup_eq:
  assumes "cstr s \<noteq> None" and "\<And>n. length (fresh n) = n"
  shows "strdup True fresh s = Ok (Some (text_of s @ [0]))"
proof -
  obtain r where s: "s = text_of s @ 0 # r" using cstr_Some_split text_of_cstr [OF assms(1)] by metis
  have l: "strlen (Some s) = Ok (length (text_of s))" using text_of_cstr [OF assms(1)] by (simp add: strlen_cstr)
  have len: "length (text_of s) \<le> length s" using s by (metis le_add1 length_append)
  have "take (length (text_of s)) s = text_of s" using s by (metis append_eq_conv_conj)
  then have "copy_loop (fresh (length (text_of s) + 1)) s (length (text_of s)) =
      Ok (text_of s @ drop (length (text_of s)) (fresh (length (text_of s) + 1)))"
    using len by (simp add: copy_loop_eq assms(2))
  moreover obtain x where "drop (length (text_of s)) (fresh (length (text_of s) + 1)) = [x]"
    using assms(2) [of "length (text_of s) + 1"]
    by (metis add_diff_cancel_left' length_0_conv length_Suc_conv length_drop One_nat_def)
  ultimately show ?thesis by (simp add: strdup_def strncpy_def l set_byte_def)
qed

text \<open>What \<open>dt_find_node\<close> leaves: \<open>t'\<close> is \<open>t\<close> with the missing nodes of the path added.\<close>

definition path_added :: "dt_node \<Rightarrow> bytes list \<Rightarrow> dt_node \<Rightarrow> bool" where
  "path_added t xs t' \<longleftrightarrow> dt_wf t' \<and> dn_name t' = dn_name t \<and> dn_props t' = dn_props t \<and>
     (\<forall>q. map_option dn_props (dt_lookup t' q) =
        (case dt_lookup t q of Some n \<Rightarrow> Some (dn_props n)
         | None \<Rightarrow> if take (length q) xs = q then Some [] else None))"

lemma child_named_Cons:
  "child_named x (c # cs) = (if text_of (dn_name c) = x then Some c else child_named x cs)"
  by (simp add: child_named_def)

lemma path_added_child:
  assumes wf: "dt_wf t" and i: "i < length (dn_children t)"
    and found: "child_named x (dn_children t) = Some (dn_children t ! i)"
    and upd: "\<And>c y. dn_name c = dn_name (dn_children t ! i) \<Longrightarrow>
      child_named y ((dn_children t)[i := c]) = (if y = x then Some c else child_named y (dn_children t))"
    and c: "path_added (dn_children t ! i) xs c"
  shows "path_added t (x # xs) (set_children t ((dn_children t)[i := c]))"
  unfolding path_added_def
proof (intro conjI allI)
  have "list_all dt_wf ((dn_children t)[i := c])"
    using wf c set_update_subset_insert [of "dn_children t" i c]
    by (auto simp: dt_wf_parts [of t] list_all_iff path_added_def)
  then show "dt_wf (set_children t ((dn_children t)[i := c]))"
    using wf by (simp add: dt_wf_parts [of t] set_children_def)
  fix q
  show "map_option dn_props (dt_lookup (set_children t ((dn_children t)[i := c])) q) =
        (case dt_lookup t q of Some n \<Rightarrow> Some (dn_props n)
         | None \<Rightarrow> if take (length q) (x # xs) = q then Some [] else None)"
    using upd [of c] c found
    by (cases q) (auto simp: set_children_def path_added_def split: option.split)
qed (simp_all add: set_children_def)

lemma path_added_new:
  assumes wf: "dt_wf t" and none: "child_named x (dn_children t) = None"
    and c: "path_added (DtNode nm [] []) xs c" and nm: "text_of nm = x"
  shows "path_added t (x # xs) (set_children t (c # dn_children t))"
  unfolding path_added_def
proof (intro conjI allI)
  show "dt_wf (set_children t (c # dn_children t))"
    using wf c by (simp add: dt_wf_parts [of t] set_children_def path_added_def)
  fix q
  show "map_option dn_props (dt_lookup (set_children t (c # dn_children t)) q) =
        (case dt_lookup t q of Some n \<Rightarrow> Some (dn_props n)
         | None \<Rightarrow> if take (length q) (x # xs) = q then Some [] else None)"
  proof (cases q)
    case (Cons y q')
    have "map_option dn_props (dt_lookup c q') = (if take (length q') xs = q' then Some [] else None)"
      using c by (cases q') (auto simp: path_added_def child_named_def dest: spec [of _ q'])
    with Cons none c nm show ?thesis
      by (auto simp: set_children_def child_named_Cons path_added_def split: option.split)
  qed (simp add: set_children_def)
qed (simp_all add: set_children_def)

lemma dt_find_node_create:
  assumes fresh: "\<And>n. length (fresh n) = n"
  shows "dt_wf t \<Longrightarrow> list_all (\<lambda>x. cstr x \<noteq> None) path \<Longrightarrow>
    \<exists>p t' cells'. dt_find_node sg True fresh t path cells True = Ok (Some p, t', cells') \<and>
      path_added t (map text_of path) t' \<and>
      dt_lookup t' (map text_of path) = Some (node_at_path t' p)"
proof (induction path arbitrary: t cells)
  case Nil
  from Nil.prems(1) obtain cells' where "dt_read_cell_props sg t cells = Ok cells'"
    using read_cells_Ok [of "dn_props t" sg cells] by (auto simp: dt_read_cell_props_def dt_wf_parts)
  moreover have "path_added t [] t" using Nil.prems(1) by (auto simp: path_added_def split: option.split)
  ultimately show ?case by simp
next
  case (Cons name path)
  have ok: "cstr name \<noteq> None" "list_all (\<lambda>x. cstr x \<noteq> None) path" using Cons.prems(2) by auto
  have kids: "list_all dt_wf (dn_children t)" using Cons.prems(1) by (simp add: dt_wf_parts [of t])
  obtain cells1 where cells1: "dt_read_cell_props sg t cells = Ok cells1"
    using Cons.prems(1) read_cells_Ok [of "dn_props t" sg cells] by (auto simp: dt_read_cell_props_def dt_wf_parts)
  from find_child_eq [OF kids ok(1), of sg] show ?case
  proof (elim disjE exE conjE)
    assume none: "find_child sg (dn_children t) name = Ok None" "child_named (text_of name) (dn_children t) = None"
    let ?new = "DtNode (text_of name @ [0]) [] []"
    have cs: "cstr (text_of name @ [0]) = Some (text_of name)"
      using text_of_cstr [OF ok(1)] cstr_Some_split cstr_append_NUL by blast
    then have "dt_wf ?new" by simp
    from Cons.IH [OF this ok(2), of cells1] obtain p c cells' where c:
      "dt_find_node sg True fresh ?new path cells1 True = Ok (Some p, c, cells')"
      "path_added ?new (map text_of path) c" "dt_lookup c (map text_of path) = Some (node_at_path c p)"
      by blast
    moreover have "text_of (dn_name c) = text_of name" using c(2) cs by (simp add: path_added_def text_of_eqI)
    moreover have "path_added t (map text_of (name # path)) (set_children t (c # dn_children t))"
      using path_added_new [OF Cons.prems(1) none(2) c(2)] cs by (simp add: text_of_eqI)
    ultimately show ?thesis
      using cells1 none(1) strdup_eq [OF ok(1) fresh]
      by (simp add: below_child_def set_children_def child_named_Cons Let_def)
  next
    fix i
    assume i: "i < length (dn_children t)" "find_child sg (dn_children t) name = Ok (Some i)"
      "child_named (text_of name) (dn_children t) = Some (dn_children t ! i)"
      "\<forall>c x. dn_name c = dn_name (dn_children t ! i) \<longrightarrow> child_named x ((dn_children t)[i := c]) =
         (if x = text_of name then Some c else child_named x (dn_children t))"
    have "dt_wf (dn_children t ! i)" using kids i(1) by (simp add: list_all_length)
    from Cons.IH [OF this ok(2), of cells1] obtain p c cells' where c:
      "dt_find_node sg True fresh (dn_children t ! i) path cells1 True = Ok (Some p, c, cells')"
      "path_added (dn_children t ! i) (map text_of path) c"
      "dt_lookup c (map text_of path) = Some (node_at_path c p)"
      by blast
    moreover have "dn_name c = dn_name (dn_children t ! i)" using c(2) by (simp add: path_added_def)
    moreover have "path_added t (map text_of (name # path)) (set_children t ((dn_children t)[i := c]))"
      using path_added_child [OF Cons.prems(1) i(1,3) _ c(2)] i(4) by simp
    ultimately show ?thesis
      using cells1 i by (simp add: below_child_def set_children_def)
  qed
qed

text \<open>
  C25. \<open>dt_find_node\<close> asked to create: it returns the node the path leads to, and the new
  tree has exactly the nodes of the old one, with their properties, and those of the path.
\<close>

theorem dt_find_node_creates:
  assumes "dt_wf t" and "list_all (\<lambda>x. cstr x \<noteq> None) path" and "\<And>n. length (fresh n) = n"
  shows "\<exists>p t' cells'. dt_find_node sg True fresh t path cells True = Ok (Some p, t', cells') \<and>
    dt_lookup t' (map text_of path) = Some (node_at_path t' p) \<and> dt_wf t' \<and>
    (\<forall>q. map_option dn_props (dt_lookup t' q) =
       (case dt_lookup t q of Some n \<Rightarrow> Some (dn_props n)
        | None \<Rightarrow> if take (length q) (map text_of path) = q then Some [] else None))"
  using dt_find_node_create [OF assms(3,1,2), of sg cells] unfolding path_added_def by blast

subsection \<open>Witnesses\<close>

definition sample_node :: dt_node where
  "sample_node = DtNode [0]
     [\<lparr>fp_name = str ''compatible'' @ [0], fp_data = str ''ab'' @ [0] @ str ''c'' @ [0], fp_size = 5\<rparr>]
     [DtNode (str ''chosen'' @ [0]) [] []]"

lemma sample_node_ok: "named_props sample_node" "dt_wf sample_node"
  by (simp_all add: sample_node_def named_props_def str_def)

theorem dt_add_bin_prop_find_witness:
  "\<exists>node'. dt_add_bin_prop True sample_node (str ''reg'' @ [0]) [1, 2] 2 = Ok node' \<and>
     dt_find_bin_prop True node' (str ''reg'' @ [0]) = Ok (Some [1, 2], 2)"
proof -
  have "cstr (str ''reg'' @ [0]) \<noteq> None" by (simp add: str_def)
  from dt_add_bin_prop_find [OF sample_node_ok(1) this, of True "[1, 2]" 2] this show ?thesis by auto
qed

theorem dt_add_reg_prop_encodes_witness:
  "\<exists>node'. dt_add_reg_prop True (\<lambda>n. replicate n 9) sample_node [(4096, 16)] 1 1 = Ok node' \<and>
     dt_find_bin_prop True node' (str ''reg'' @ [0]) = Ok (Some [0, 0, 16, 0, 0, 0, 0, 16], 8)"
proof -
  have "reg_bytes 1 1 [(4096, 16)] = [0, 0, 16, 0, 0, 0, 0, 16]" by code_simp
  with dt_add_reg_prop_encodes [OF sample_node_ok(1), of 1 1 "[(4096, 16)]" "\<lambda>n. replicate n 9" True]
  show ?thesis by simp
qed

theorem dt_check_compat_match_strings_witness:
  "dt_check_compat_match True sample_node (str ''c'' @ 0 # []) = Ok True"
proof -
  let ?ss = "[str ''ab'', str ''c'']"
  have "prop_value (str ''compatible'') (dn_props sample_node) = Some (string_list ?ss @ [], 5)"
    by (simp add: prop_value_def sample_node_def string_list_def text_of_def str_def)
  moreover have "0 \<notin> set (str ''c'')" "unat (5 :: u32) = length (string_list ?ss)" "\<forall>s \<in> set ?ss. 0 \<notin> set s"
    by (simp_all add: str_def string_list_def)
  ultimately have "dt_check_compat_match True sample_node (str ''c'' @ 0 # []) = Ok (str ''c'' \<in> set ?ss)"
    using dt_check_compat_match_strings [OF sample_node_ok(1)] by blast
  then show ?thesis by simp
qed

theorem dt_find_node_creates_witness:
  "\<exists>p t' c. dt_find_node True True (\<lambda>n. replicate n 9) sample_node
      [str ''chosen'' @ [0], str ''boot'' @ [0]] (None, None) True = Ok (Some p, t', c) \<and>
    map_option dn_props (dt_lookup t' [str ''chosen'', str ''boot'']) = Some []"
  using dt_find_node_creates [OF sample_node_ok(2), of "[str ''chosen'' @ [0], str ''boot'' @ [0]]"
      "\<lambda>n. replicate n 9" True "(None, None)"]
  by (force simp: text_of_def str_def sample_node_def child_named_def dest: spec [of _ "[str ''chosen'', str ''boot'']"])

end
