(* ===== verification/FitMemory.thy ===== *)
theory FitMemory
  imports MemWipe DtEdit
begin

text \<open>
  What \<^verbatim>\<open>src/src/boot/fit.c\<close> writes into the kernel's device tree before booting: the command
  line, the position of the ramdisk, and the memory of the machine as the \<open>reg\<close> property of a
  \<open>memory\<close> node and as entries of the reserve map.  The E820 table is the one the firmware
  database holds (\<open>base/physmem.c\<close>); \<open>fresh\<close> is what memory holds before it is written.
\<close>

subsection \<open>The chosen node\<close>

fun update_at :: "(dt_node \<Rightarrow> dt_node res) \<Rightarrow> dt_node \<Rightarrow> nat list \<Rightarrow> dt_node res" where
  "update_at f n [] = f n"
| "update_at f n (i # p) =
     map_res (\<lambda>c. set_children n ((dn_children n)[i := c])) (update_at f (dn_children n ! i) p)"

definition at_chosen ::
  "bool \<Rightarrow> bool \<Rightarrow> (nat \<Rightarrow> bytes) \<Rightarrow> (dt_node \<Rightarrow> dt_node res) \<Rightarrow> dt_tree \<Rightarrow> dt_tree res" where
  "at_chosen sg mem fresh f tree =
     (case dt_root tree of None \<Rightarrow> Fault NullDeref
      | Some root \<Rightarrow>
          andthen (dt_find_node sg mem fresh root [str ''chosen'' @ [0]] (None, None) True) (\<lambda>(p, root, _).
            case p of None \<Rightarrow> Fault NullDeref
            | Some p \<Rightarrow> map_res (\<lambda>root. tree\<lparr>dt_root := Some root\<rparr>) (update_at f root p)))"

definition update_chosen :: "bool \<Rightarrow> bool \<Rightarrow> (nat \<Rightarrow> bytes) \<Rightarrow> dt_tree \<Rightarrow> bytes \<Rightarrow> dt_tree res" where
  "update_chosen sg mem fresh tree cmd_line =
     at_chosen sg mem fresh (\<lambda>node. dt_add_string_prop sg node (str ''bootargs'' @ [0]) cmd_line) tree"

definition fit_add_ramdisk ::
  "bool \<Rightarrow> bool \<Rightarrow> (nat \<Rightarrow> bytes) \<Rightarrow> dt_tree \<Rightarrow> u64 \<Rightarrow> u64 \<Rightarrow> dt_tree res" where
  "fit_add_ramdisk sg mem fresh tree ramdisk_addr ramdisk_size =
     (let start = ucast ramdisk_addr :: u32; end' = ucast (ucast start + ramdisk_size) :: u32 in
      at_chosen sg mem fresh (\<lambda>node.
        andthen (dt_add_u32_prop sg node (str ''linux,initrd-start'' @ [0]) start) (\<lambda>node.
          dt_add_u32_prop sg node (str ''linux,initrd-end'' @ [0]) end')) tree)"

subsection \<open>The memory of the machine\<close>

definition mb_up :: "u64 \<Rightarrow> u64" where
  "mb_up x = (x + 1048575) AND NOT 1048575"

definition mb_down :: "u64 \<Rightarrow> u64" where
  "mb_down x = x AND NOT 1048575"

definition add_if :: "bool \<Rightarrow> u64 \<Rightarrow> u64 \<Rightarrow> edges \<Rightarrow> edges res" where
  "add_if c start end' es = (if c then ranges_add es start end' else Ok es)"

definition trim_range :: "e820_range \<Rightarrow> edges \<times> edges \<Rightarrow> (edges \<times> edges) res" where
  "trim_range r acc =
     (case acc of (mem, reserved) \<Rightarrow>
      let start = e820_base r; end' = e820_base r + e820_size r in
      if e820_type r = E820_Ram then
        (let new_start = mb_up start; new_end = mb_down end' in
         andthen (add_if (new_start \<noteq> start) start new_start reserved) (\<lambda>reserved.
         andthen (add_if (new_start \<noteq> new_end) new_start new_end mem) (\<lambda>mem.
         andthen (add_if (new_end \<noteq> end') new_end end' reserved) (\<lambda>reserved.
           Ok (mem, reserved)))))
      else andthen (ranges_add reserved start end') (\<lambda>reserved. Ok (mem, reserved)))"

fun trim_table :: "e820_range list \<Rightarrow> edges \<times> edges \<Rightarrow> (edges \<times> edges) res" where
  "trim_table [] acc = Ok acc"
| "trim_table (r # rs) acc = andthen (trim_range r acc) (\<lambda>acc. trim_table rs acc)"

text \<open>The callback for the reserve map; a new entry goes to the front.\<close>

definition update_reserve_map :: "u64 \<times> u64 \<Rightarrow> (u64 \<times> u64) list \<Rightarrow> (u64 \<times> u64) list" where
  "update_reserve_map r entries = (case r of (start, end') \<Rightarrow> (start, end' - start) # entries)"

text \<open>A shift by 64 or more is undefined.\<close>

definition max_range :: "u32 \<Rightarrow> u64 res" where
  "max_range size_cells =
     (let k = size_cells * 32 - 1 in
      if unat k < 64 then Ok (push_bit (unat k) 1) else Fault Overflow)"

definition align_up64 :: "u64 \<Rightarrow> u64 \<Rightarrow> u64" where
  "align_up64 x a = (x + (a - 1)) AND NOT (a - 1)"

definition count_entries :: "u32 \<Rightarrow> u64 \<times> u64 \<Rightarrow> u32 \<Rightarrow> u32 res" where
  "count_entries size_cells r count =
     (case r of (start, end') \<Rightarrow>
        andthen (max_range size_cells) (\<lambda>max_size.
          Ok (ucast (ucast count + align_up64 (end' - start) max_size div max_size))))"

fun count_all :: "u32 \<Rightarrow> (u64 \<times> u64) list \<Rightarrow> u32 \<Rightarrow> u32 res" where
  "count_all size_cells [] count = Ok count"
| "count_all size_cells (r # rs) count = andthen (count_entries size_cells r count) (count_all size_cells rs)"

lemma dt_write_int_length: "dt_write_int d v k = Ok d' \<Longrightarrow> length d' = length d \<and> k \<le> length d"
proof (induction k arbitrary: d v)
  case (Suc k)
  then obtain d1 where "put d k [ucast v] = Some d1" "dt_write_int d1 (drop_bit 8 v) k = Ok d'"
    by (auto simp: andthen_Ok_iff of_opt_Ok_iff)
  with Suc.IH [OF this(2)] show ?case by (auto simp: put_def split: if_splits)
qed simp

lemma write_at_length:
  "at_offset dat cur (\<lambda>d. dt_write_int d v k) = Ok dat' \<Longrightarrow> length dat' = length dat \<and> cur + k \<le> length dat"
  by (auto simp: at_offset_def map_res_Ok_iff dest!: dt_write_int_length split: if_splits)

lemma unat_minus_1_u32: "unat (- 1 :: u32) = 4294967295"
  by (simp add: unsigned_minus_1_eq_mask mask_eq_exp_minus_1)

lemma max_range_cells: "max_range sc = Ok m \<Longrightarrow> 0 < unat sc"
  by (cases "sc = 0") (auto simp: max_range_def Let_def unat_gt_0 unat_minus_1_u32 split: if_splits)

text \<open>
  The loop of \<open>update_mem_property\<close> over one range, \<open>cur\<close> the offset of the next cell.  Each
  round writes at least one cell, so it ends, at the latest at the end of the buffer.
\<close>

function mem_loop :: "u32 \<Rightarrow> u32 \<Rightarrow> bytes \<Rightarrow> nat \<Rightarrow> u64 \<Rightarrow> u64 \<Rightarrow> (bytes \<times> nat) res" where
  "mem_loop addr_cells size_cells dat cur start full_size =
     (if full_size = 0 then Ok (dat, cur)
      else andthen (max_range size_cells) (\<lambda>max_size.
        let sz = ucast (min max_size full_size) :: u32 in
        andthen (at_offset dat cur (\<lambda>d. dt_write_int d start (unat addr_cells * 4))) (\<lambda>dat.
        let cur = cur + unat addr_cells * 4 in
        andthen (at_offset dat cur (\<lambda>d. dt_write_int d (ucast sz) (unat size_cells * 4))) (\<lambda>dat.
          mem_loop addr_cells size_cells dat (cur + unat size_cells * 4)
            (start + ucast sz) (full_size - ucast sz)))))"
  by pat_completeness auto

termination
  by (relation "measure (\<lambda>(ac, sc, dat, cur, start, full). length dat - cur)")
    (auto dest!: write_at_length max_range_cells)

declare mem_loop.simps [simp del]

fun mem_props :: "u32 \<Rightarrow> u32 \<Rightarrow> (u64 \<times> u64) list \<Rightarrow> bytes \<Rightarrow> nat \<Rightarrow> (bytes \<times> nat) res" where
  "mem_props addr_cells size_cells [] dat cur = Ok (dat, cur)"
| "mem_props addr_cells size_cells ((start, end') # rs) dat cur =
     andthen (mem_loop addr_cells size_cells dat cur start (end' - start))
       (\<lambda>(dat, cur). mem_props addr_cells size_cells rs dat cur)"

fun drop_memory :: "bool \<Rightarrow> dt_node list \<Rightarrow> dt_node list res" where
  "drop_memory sg [] = Ok []"
| "drop_memory sg (c # cs) =
     andthen (dt_find_string_prop sg c (str ''device_type'' @ [0])) (\<lambda>devtype.
     andthen (case devtype of None \<Rightarrow> Ok False
         | Some s \<Rightarrow> map_res (\<lambda>r. r = 0) (strcmp sg s (str ''memory'' @ [0]))) (\<lambda>drop.
       map_res (\<lambda>cs. if drop then cs else c # cs) (drop_memory sg cs)))"

definition cell_of :: "u32 option \<Rightarrow> u32" where
  "cell_of c = (case c of Some v \<Rightarrow> v | None \<Rightarrow> 1)"

definition update_memory ::
  "bool \<Rightarrow> (nat \<Rightarrow> bytes) \<Rightarrow> e820_range list option \<Rightarrow> dt_tree \<Rightarrow> dt_tree res" where
  "update_memory sg fresh e820 tree =
     (case dt_root tree of None \<Rightarrow> Fault NullDeref
      | Some root \<Rightarrow>
          andthen (dt_read_cell_props sg root (Some 1, Some 1)) (\<lambda>(ac, sc).
          let addr_cells = cell_of ac; size_cells = cell_of sc in
          case e820 of None \<Rightarrow> Err
          | Some table \<Rightarrow>
              andthen (drop_memory sg (dn_children root)) (\<lambda>children.
              andthen (dt_add_string_prop sg (DtNode (str ''memory'' @ [0]) [] [])
                (str ''device_type'' @ [0]) (str ''memory'' @ [0])) (\<lambda>node.
              andthen (trim_table table (ranges_init, ranges_init)) (\<lambda>(mem, reserved).
              let reserve_map = fold update_reserve_map (ranges_for_each reserved) (dt_reserve tree) in
              andthen (count_all size_cells (ranges_for_each mem) 0) (\<lambda>count.
              let len = (ucast (count * (addr_cells + size_cells)) * 4 :: u64) in
              andthen (mem_props addr_cells size_cells (ranges_for_each mem) (fresh (unat len)) 0) (\<lambda>(dat, cur).
              if cur \<noteq> unat len then Fault AssertFail
              else andthen (dt_add_bin_prop sg node (str ''reg'' @ [0]) dat len) (\<lambda>node.
                Ok (tree\<lparr>dt_root := Some (set_children root (node # children)),
                  dt_reserve := reserve_map\<rparr>)))))))))"

subsection \<open>Cutting a range into cells\<close>

lemma min_pos: "full \<noteq> 0 \<Longrightarrow> mx \<noteq> 0 \<Longrightarrow> unat (full - min mx full) < unat full" for mx full :: u64
  by (auto simp: min_def unat_sub unat_gt_0)

text \<open>The pieces of a range that fit the size cells, as start and length.\<close>

function mem_chunks :: "u64 \<Rightarrow> u64 \<Rightarrow> u64 \<Rightarrow> (u64 \<times> u64) list" where
  "mem_chunks mx start full =
     (if full = 0 \<or> mx = 0 then []
      else (start, min mx full) # mem_chunks mx (start + min mx full) (full - min mx full))"
  by pat_completeness auto

termination
  by (relation "measure (\<lambda>(mx, start, full). unat full)") (auto simp: min_pos)

declare mem_chunks.simps [simp del]

lemma mem_chunks_empty [simp]: "mem_chunks mx start 0 = []"
  by (simp add: mem_chunks.simps [of mx start 0])

lemma ucast_small: "w < 4294967296 \<Longrightarrow> ucast (ucast w :: u32) = w" for w :: u64
  by (intro word_unat_eq_iff [THEN iffD2])
    (simp add: unsigned_ucast_eq take_bit_eq_mod word_less_nat_alt unat_mod)

lemma reg_bytes_Cons:
  "reg_bytes ac sc ((a, s) # rs) = be_bytes (ac * 4) (unat a) @ be_bytes (sc * 4) (unat s) @ reg_bytes ac sc rs"
  by (simp add: reg_bytes_def)

lemma mem_loop_ok:
  "max_range sc = Ok mx \<Longrightarrow> mx \<noteq> 0 \<Longrightarrow> mx < 4294967296 \<or> full < 4294967296 \<Longrightarrow>
    cur + length (reg_bytes (unat ac) (unat sc) (mem_chunks mx start full)) \<le> length dat \<Longrightarrow>
    mem_loop ac sc dat cur start full =
      Ok (take cur dat @ reg_bytes (unat ac) (unat sc) (mem_chunks mx start full) @
            drop (cur + length (reg_bytes (unat ac) (unat sc) (mem_chunks mx start full))) dat,
          cur + length (reg_bytes (unat ac) (unat sc) (mem_chunks mx start full)))"
proof (induction mx start full arbitrary: dat cur rule: mem_chunks.induct)
  case (1 mx start full)
  show ?case
  proof (cases "full = 0")
    case True
    then show ?thesis by (simp add: mem_loop.simps [of ac sc dat] reg_bytes_def)
  next
    case False
    define sz where "sz = min mx full"
    define A where "A = be_bytes (unat ac * 4) (unat start)"
    define S where "S = be_bytes (unat sc * 4) (unat sz)"
    define R where "R = reg_bytes (unat ac) (unat sc) (mem_chunks mx (start + sz) (full - sz))"
    have len [simp]: "length A = unat ac * 4" "length S = unat sc * 4" by (simp_all add: A_def S_def)
    have chunks: "reg_bytes (unat ac) (unat sc) (mem_chunks mx start full) = A @ S @ R"
      using False "1.prems"(2) by (simp add: mem_chunks.simps [of mx start] reg_bytes_Cons A_def S_def R_def sz_def)
    have room: "cur + unat ac * 4 + unat sc * 4 + length R \<le> length dat"
      using "1.prems"(4) unfolding chunks by simp
    have fits: "ucast (ucast sz :: u32) = sz" using "1.prems"(3) by (intro ucast_small) (auto simp: sz_def min_def)
    let ?d1 = "take cur dat @ A @ drop (cur + unat ac * 4) dat"
    let ?d2 = "take (cur + unat ac * 4) ?d1 @ S @ drop (cur + unat ac * 4 + unat sc * 4) ?d1"
    have w1: "at_offset dat cur (\<lambda>d. dt_write_int d start (unat ac * 4)) = Ok ?d1"
      using room by (simp add: write_int_at A_def)
    have w2: "at_offset ?d1 (cur + unat ac * 4) (\<lambda>d. dt_write_int d sz (unat sc * 4)) = Ok ?d2"
      using room by (subst write_int_at) (simp_all add: S_def)
    have d2: "?d2 = take cur dat @ A @ S @ drop (cur + unat ac * 4 + unat sc * 4) dat"
      using room by (simp add: ac_simps)
    have step: "mem_loop ac sc dat cur start full =
        mem_loop ac sc ?d2 (cur + unat ac * 4 + unat sc * 4) (start + sz) (full - sz)"
      using False "1.prems"(1) w1 w2 fits
      by (simp add: mem_loop.simps [of ac sc dat] sz_def [symmetric] Let_def del: append_assoc)
    have "mx < 4294967296 \<or> full - sz < 4294967296"
      using "1.prems"(3) by (auto simp: sz_def min_def word_less_nat_alt unat_sub)
    then show ?thesis
      unfolding step chunks
      using "1.IH" [of "cur + unat ac * 4 + unat sc * 4" ?d2] False "1.prems"(1,2) room
      unfolding sz_def [symmetric] R_def [symmetric] d2
      by (simp add: ac_simps)
  qed
qed

lemma mem_chunks_cover:
  "mx \<noteq> 0 \<Longrightarrow> unat start + unat full < 18446744073709551616 \<Longrightarrow>
     cleared (mem_chunks mx start full) x \<longleftrightarrow> start \<le> x \<and> x < start + full"
proof (induction mx start full rule: mem_chunks.induct)
  case (1 mx start full)
  show ?case
  proof (cases "full = 0")
    case True
    then show ?thesis by (auto simp: cleared_def)
  next
    case False
    define sz where "sz = min mx full"
    have sz: "sz \<le> full" by (simp add: sz_def)
    then have s: "unat (start + sz) = unat start + unat sz" "unat (full - sz) = unat full - unat sz"
      "unat (start + full) = unat start + unat full" "unat sz \<le> unat full"
      using "1.prems"(2) by (simp_all add: unat_word_ariths word_le_nat_alt unat_sub)
    have ih: "cleared (mem_chunks mx (start + sz) (full - sz)) x \<longleftrightarrow>
        start + sz \<le> x \<and> x < start + sz + (full - sz)"
      using "1.IH" False "1.prems" s unfolding sz_def [symmetric] by simp
    have "cleared (mem_chunks mx start full) x \<longleftrightarrow>
        (start \<le> x \<and> x - start < sz) \<or> cleared (mem_chunks mx (start + sz) (full - sz)) x"
      using False "1.prems"(1)
      by (simp add: mem_chunks.simps [of mx start] cleared_def sz_def [symmetric])
    also have "\<dots> \<longleftrightarrow> start \<le> x \<and> x < start + full"
    proof (cases "start \<le> x")
      case True
      then have "unat (x - start) = unat x - unat start" by (simp add: unat_sub word_le_nat_alt)
      with True s show ?thesis by (auto simp: ih word_le_nat_alt word_less_nat_alt)
    qed (use s in \<open>auto simp: ih word_le_nat_alt\<close>)
    finally show ?thesis .
  qed
qed

lemma length_mem_chunks:
  "mx \<noteq> 0 \<Longrightarrow> length (mem_chunks mx start full) = (unat full + (unat mx - 1)) div unat mx"
proof (induction mx start full rule: mem_chunks.induct)
  case (1 mx start full)
  have mx: "0 < unat mx" using "1.prems" by (simp add: unat_gt_0)
  show ?case
  proof (cases "full = 0")
    case True
    with mx show ?thesis by (simp add: div_less)
  next
    case False
    define sz where "sz = min mx full"
    have ih: "length (mem_chunks mx (start + sz) (full - sz)) = (unat (full - sz) + (unat mx - 1)) div unat mx"
      using "1.IH" False "1.prems" unfolding sz_def [symmetric] by simp
    have "length (mem_chunks mx start full) = Suc (length (mem_chunks mx (start + sz) (full - sz)))"
      using False "1.prems" by (simp add: mem_chunks.simps [of mx start] sz_def)
    also have "\<dots> = (unat full + (unat mx - 1)) div unat mx"
    proof (cases "mx \<le> full")
      case True
      then have "unat (full - sz) + unat mx = unat full" by (simp add: sz_def unat_sub word_le_nat_alt)
      then have e: "unat full + (unat mx - 1) = unat (full - sz) + (unat mx - 1) + unat mx" by simp
      from mx have "(unat (full - sz) + (unat mx - 1) + unat mx) div unat mx =
          (unat (full - sz) + (unat mx - 1)) div unat mx + 1" by (intro div_add_self2) simp
      then show ?thesis unfolding ih e by simp
    next
      case False
      then have "sz = full" "unat full < unat mx" by (auto simp: sz_def min_def word_le_nat_alt)
      moreover have "0 < unat full" using \<open>full \<noteq> 0\<close> by (simp add: unat_gt_0)
      ultimately have "(unat full + (unat mx - 1)) div unat mx = 1"
        by (intro div_nat_eqI) auto
      with \<open>sz = full\<close> mx show ?thesis unfolding ih by (simp add: div_less)
    qed
    finally show ?thesis .
  qed
qed

subsection \<open>All ranges\<close>

definition ram_chunks :: "u64 \<Rightarrow> (u64 \<times> u64) list \<Rightarrow> (u64 \<times> u64) list" where
  "ram_chunks mx rs = concat (map (\<lambda>(start, end'). mem_chunks mx start (end' - start)) rs)"

lemma reg_bytes_append: "reg_bytes ac sc (xs @ ys) = reg_bytes ac sc xs @ reg_bytes ac sc ys"
  by (simp add: reg_bytes_def)

lemma mem_props_ok:
  assumes sc: "max_range sc = Ok mx" "mx \<noteq> 0"
  shows "mx < 4294967296 \<or> (\<forall>(a, b) \<in> set rs. b - a < 4294967296) \<Longrightarrow>
    cur + length (reg_bytes (unat ac) (unat sc) (ram_chunks mx rs)) \<le> length dat \<Longrightarrow>
    mem_props ac sc rs dat cur =
      Ok (take cur dat @ reg_bytes (unat ac) (unat sc) (ram_chunks mx rs) @
            drop (cur + length (reg_bytes (unat ac) (unat sc) (ram_chunks mx rs))) dat,
          cur + length (reg_bytes (unat ac) (unat sc) (ram_chunks mx rs)))"
proof (induction rs arbitrary: dat cur)
  case Nil
  then show ?case by (simp add: ram_chunks_def reg_bytes_def)
next
  case (Cons r rs)
  obtain a b where r: "r = (a, b)" by (cases r)
  define A where "A = reg_bytes (unat ac) (unat sc) (mem_chunks mx a (b - a))"
  define R where "R = reg_bytes (unat ac) (unat sc) (ram_chunks mx rs)"
  have all: "reg_bytes (unat ac) (unat sc) (ram_chunks mx (r # rs)) = A @ R"
    by (simp add: ram_chunks_def reg_bytes_append A_def R_def r)
  have room: "cur + length A + length R \<le> length dat" using Cons.prems(2) unfolding all by simp
  let ?d = "take cur dat @ A @ drop (cur + length A) dat"
  have one: "mem_loop ac sc dat cur a (b - a) = Ok (?d, cur + length A)"
    using mem_loop_ok [OF sc, of "b - a" cur ac a dat] Cons.prems(1) room
    by (auto simp: r A_def [symmetric])
  have "mem_props ac sc rs ?d (cur + length A) =
      Ok (take (cur + length A) ?d @ R @ drop (cur + length A + length R) ?d, cur + length A + length R)"
    using Cons.IH [of "cur + length A" ?d] Cons.prems(1) room unfolding R_def [symmetric] by auto
  with one room show ?case unfolding all by (simp add: r ac_simps)
qed

text \<open>A range of 4 GiB or more with two size cells makes the loop run off the buffer.\<close>

lemma write_at_cases:
  "at_offset dat cur (\<lambda>d. dt_write_int d v k) = Fault OutOfBounds \<or>
   (\<exists>dat'. at_offset dat cur (\<lambda>d. dt_write_int d v k) = Ok dat')"
proof -
  have "dt_write_int d v k = Fault OutOfBounds \<or> (\<exists>d'. dt_write_int d v k = Ok d')" for d
    by (induction k arbitrary: d v) (auto simp: put_def)
  from this [of "drop cur dat"] show ?thesis by (auto simp: at_offset_def)
qed

lemma mem_loop_cases:
  "max_range sc = Ok mx \<Longrightarrow>
     mem_loop ac sc dat cur start full = Fault OutOfBounds \<or> (\<exists>r. mem_loop ac sc dat cur start full = Ok r)"
proof (induction ac sc dat cur start full rule: mem_loop.induct)
  case (1 ac sc dat cur start full)
  show ?case
  proof (cases "full = 0")
    case False
    define sz where "sz = (ucast (min mx full) :: u32)"
    from write_at_cases [of dat cur start "unat ac * 4"]
    show ?thesis
    proof
      assume "at_offset dat cur (\<lambda>d. dt_write_int d start (unat ac * 4)) = Fault OutOfBounds"
      then show ?thesis using False "1.prems" by (simp add: mem_loop.simps [of ac sc dat] Let_def)
    next
      assume "\<exists>dat'. at_offset dat cur (\<lambda>d. dt_write_int d start (unat ac * 4)) = Ok dat'"
      then obtain d1 where d1: "at_offset dat cur (\<lambda>d. dt_write_int d start (unat ac * 4)) = Ok d1" ..
      from write_at_cases [of d1 "cur + unat ac * 4" "ucast sz" "unat sc * 4"]
      show ?thesis
        using False "1.prems" d1 "1.IH" [OF False "1.prems" sz_def d1 refl _ "1.prems"]
        by (auto simp: mem_loop.simps [of ac sc dat] Let_def sz_def [symmetric])
    qed
  qed (simp add: mem_loop.simps [of ac sc dat])
qed

lemma low_part:
  fixes u :: nat
  assumes "4294967296 \<le> u"
  shows "u mod 4294967296 \<le> u" and "4294967296 \<le> u - u mod 4294967296"
proof -
  have "1 \<le> u div 4294967296" using div_le_mono [OF assms, of 4294967296] by simp
  moreover have "u = u div 4294967296 * 4294967296 + u mod 4294967296" by simp
  ultimately show "4294967296 \<le> u - u mod 4294967296" by linarith
qed simp

lemma mem_loop_overrun:
  "max_range sc = Ok 9223372036854775808 \<Longrightarrow> 4294967296 \<le> full \<Longrightarrow>
     mem_loop ac sc dat cur start full = Fault OutOfBounds"
proof (induction ac sc dat cur start full rule: mem_loop.induct)
  case (1 ac sc dat cur start full)
  let ?m = "min 9223372036854775808 full"
  define sz where "sz = (ucast ?m :: u32)"
  have sz: "unat sz = unat ?m mod 4294967296"
    by (simp add: sz_def unsigned_ucast_eq take_bit_eq_mod unat_mod)
  have le: "unat sz \<le> unat full" "4294967296 \<le> unat full - unat sz"
    unfolding sz using low_part [of "unat full"] "1.prems"(2)
    by (simp_all add: min_def word_le_nat_alt)
  then have left: "4294967296 \<le> full - ucast sz"
    by (simp add: word_le_nat_alt unat_sub unsigned_ucast_eq)
  have nz: "full \<noteq> 0" using "1.prems"(2) by auto
  from write_at_cases [of dat cur start "unat ac * 4"]
  show ?case
  proof
    assume "at_offset dat cur (\<lambda>d. dt_write_int d start (unat ac * 4)) = Fault OutOfBounds"
    then show ?thesis using nz "1.prems"(1) by (simp add: mem_loop.simps [of ac sc dat] Let_def)
  next
    assume "\<exists>dat'. at_offset dat cur (\<lambda>d. dt_write_int d start (unat ac * 4)) = Ok dat'"
    then obtain d1 where d1: "at_offset dat cur (\<lambda>d. dt_write_int d start (unat ac * 4)) = Ok d1" ..
    from write_at_cases [of d1 "cur + unat ac * 4" "ucast sz" "unat sc * 4"]
    show ?thesis
      using nz "1.prems"(1) d1 "1.IH" [OF nz "1.prems"(1) sz_def d1 refl _ "1.prems"(1)] left
      by (auto simp: mem_loop.simps [of ac sc dat] Let_def sz_def [symmetric])
  qed
qed

lemma mem_props_overrun:
  assumes sc: "max_range sc = Ok 9223372036854775808"
  shows "\<exists>(a, b) \<in> set rs. 4294967296 \<le> b - a \<Longrightarrow> mem_props ac sc rs dat cur = Fault OutOfBounds"
proof (induction rs arbitrary: dat cur)
  case (Cons r rs)
  obtain a b where r: "r = (a, b)" by (cases r)
  show ?case
  proof (cases "4294967296 \<le> b - a")
    case True
    then show ?thesis by (simp add: r mem_loop_overrun [OF sc])
  next
    case False
    with Cons.prems have "\<exists>(a, b) \<in> set rs. 4294967296 \<le> b - a" by (auto simp: r)
    with Cons.IH have "mem_props ac sc rs dat cur = Fault OutOfBounds" for dat cur by blast
    then show ?thesis using mem_loop_cases [OF sc, of ac dat cur a "b - a"] by (auto simp: r)
  qed
qed simp

lemma count_step: "(ucast (ucast c + word_of_nat n :: u64) :: u32) = c + word_of_nat n" for c :: u32
proof -
  have "unat (ucast c + word_of_nat n :: u64) mod 4294967296 = (unat c + n) mod 4294967296"
    by (simp add: unat_word_ariths unsigned_ucast_eq unat_of_nat mod_mod_cancel mod_add_right_eq)
  then show ?thesis
    by (intro word_unat_eq_iff [THEN iffD2])
      (simp add: unsigned_ucast_eq take_bit_eq_mod unat_mod unat_word_ariths unat_of_nat mod_add_right_eq)
qed

lemma count_entries_ok:
  assumes sc: "max_range sc = Ok mx" and fit: "unat (b - a) + (unat mx - 1) < 18446744073709551616"
  shows "count_entries sc (a, b) c = Ok (c + word_of_nat (length (mem_chunks mx a (b - a))))"
proof -
  obtain k where k: "k < 64" "mx = 2 ^ k"
    using sc by (auto simp: max_range_def Let_def push_bit_eq_mult split: if_splits)
  then have "(2 :: nat) ^ k < 2 ^ 64" by (intro power_strict_increasing) simp_all
  moreover have "mx = word_of_nat (2 ^ k)" using k by simp
  ultimately have u: "unat mx = 2 ^ k" by (simp only: unat_of_nat) simp
  then have nz: "mx \<noteq> 0" by (metis power_not_zero unat_0 zero_neq_numeral)
  have m: "unat (mx - 1) = unat mx - 1"
    using nz unat_sub [of 1 mx] by (simp add: word_le_nat_alt unat_gt_0 Suc_leI)
  then have "unat (b - a + (mx - 1)) = unat (b - a) + (unat mx - 1)"
    using fit by (simp only: unat_word_ariths) simp
  then have "unat (align_up64 (b - a) mx) = (unat (b - a) + (2 ^ k - 1)) div 2 ^ k * 2 ^ k"
    using k unat_align_down [of k "b - a + (mx - 1)"] unfolding align_up64_def u by simp
  then have "unat (align_up64 (b - a) mx div mx) = length (mem_chunks mx a (b - a))"
    by (simp add: length_mem_chunks [OF nz] u unat_div)
  from arg_cong [OF this, of "word_of_nat :: nat \<Rightarrow> u64"]
  have "align_up64 (b - a) mx div mx = word_of_nat (length (mem_chunks mx a (b - a)))" by simp
  then show ?thesis
    by (simp only: count_entries_def sc prod.case andthen.simps count_step)
qed

lemma count_all_ok:
  assumes sc: "max_range sc = Ok mx"
  shows "\<forall>(a, b) \<in> set rs. unat (b - a) + (unat mx - 1) < 18446744073709551616 \<Longrightarrow>
    count_all sc rs c = Ok (c + word_of_nat (length (ram_chunks mx rs)))"
proof (induction rs arbitrary: c)
  case (Cons r rs)
  obtain a b where r: "r = (a, b)" by (cases r)
  from Cons show ?case by (simp add: r count_entries_ok [OF sc] ram_chunks_def)
qed (simp add: ram_chunks_def)

lemma ram_chunks_Cons: "ram_chunks mx ((a, b) # rs) = mem_chunks mx a (b - a) @ ram_chunks mx rs"
  by (simp add: ram_chunks_def)

lemma cleared_append: "cleared (xs @ ys) x \<longleftrightarrow> cleared xs x \<or> cleared ys x"
  by (auto simp: cleared_def)

lemma ram_chunks_cover:
  assumes "mx \<noteq> 0" and "\<forall>(a, b) \<in> set rs. a < b"
  shows "cleared (ram_chunks mx rs) x \<longleftrightarrow> (\<exists>(a, b) \<in> set rs. a \<le> x \<and> x < b)"
  using assms(2)
proof (induction rs)
  case (Cons r rs)
  obtain a b where r: "r = (a, b)" by (cases r)
  have ab: "a < b" using Cons.prems by (simp add: r)
  then have "unat a + unat (b - a) = unat b" by (simp add: unat_sub word_less_nat_alt word_le_nat_alt)
  then have "unat a + unat (b - a) < 18446744073709551616" using unsigned_less [of b] by simp
  then have "cleared (mem_chunks mx a (b - a)) x \<longleftrightarrow> a \<le> x \<and> x < b"
    using mem_chunks_cover [OF assms(1), of a "b - a" x] by simp
  with Cons show ?case by (simp add: r ram_chunks_Cons cleared_append)
qed (simp add: ram_chunks_def cleared_def)

subsection \<open>Trimming the table\<close>

text \<open>RAM whose first and last whole megabytes are in order.\<close>

definition range_good :: "e820_range \<Rightarrow> bool" where
  "range_good r \<longleftrightarrow> e820_base r < e820_base r + e820_size r \<and>
     (e820_type r = E820_Ram \<longrightarrow> e820_base r \<le> mb_up (e820_base r) \<and>
        mb_up (e820_base r) \<le> mb_down (e820_base r + e820_size r))"

definition usable :: "e820_range \<Rightarrow> u64 \<Rightarrow> bool" where
  "usable r x \<longleftrightarrow> e820_type r = E820_Ram \<and> mb_up (e820_base r) \<le> x \<and> x < mb_down (e820_base r + e820_size r)"

definition held :: "e820_range \<Rightarrow> u64 \<Rightarrow> bool" where
  "held r x \<longleftrightarrow> in_range r x \<and> \<not> usable r x"

lemma mb_down_le: "mb_down x \<le> x"
  using unat_align_down [of 20 x] by (simp add: mb_down_def word_le_nat_alt)

lemma add_if_ok:
  assumes "ranges_ok es" and "a \<le> b" and "c \<longleftrightarrow> a \<noteq> b"
  shows "\<exists>es'. add_if c a b es = Ok es' \<and> ranges_ok es' \<and> (\<forall>x. covers es' x \<longleftrightarrow> a \<le> x \<and> x < b \<or> covers es x)"
proof (cases c)
  case True
  with assms have "a < b" by simp
  from ranges_set_region_to_ok [OF assms(1) this, of True] True show ?thesis
    by (auto simp: add_if_def ranges_add_def)
next
  case False
  with assms show ?thesis by (auto simp: add_if_def)
qed

lemma trim_range_ok:
  assumes ok: "ranges_ok mem" "ranges_ok reserved" and r: "range_good r"
  shows "\<exists>mem' reserved'. trim_range r (mem, reserved) = Ok (mem', reserved') \<and> ranges_ok mem' \<and> ranges_ok reserved' \<and>
    (\<forall>x. covers mem' x \<longleftrightarrow> usable r x \<or> covers mem x) \<and>
    (\<forall>x. covers reserved' x \<longleftrightarrow> held r x \<or> covers reserved x)"
proof (cases "e820_type r = E820_Ram")
  case True
  define s e u d where "s = e820_base r" and "e = e820_base r + e820_size r" and "u = mb_up s" and "d = mb_down e"
  have le: "s \<le> u" "u \<le> d" "d \<le> e" using r True mb_down_le by (simp_all add: range_good_def s_def e_def u_def d_def)
  have eq_sym: "u \<noteq> s \<longleftrightarrow> s \<noteq> u" by auto
  obtain r1 where r1: "add_if (u \<noteq> s) s u reserved = Ok r1" "ranges_ok r1"
    "\<And>x. covers r1 x \<longleftrightarrow> s \<le> x \<and> x < u \<or> covers reserved x"
    using add_if_ok [OF ok(2) le(1) eq_sym] by blast
  obtain m1 where m1: "add_if (u \<noteq> d) u d mem = Ok m1" "ranges_ok m1"
    "\<And>x. covers m1 x \<longleftrightarrow> u \<le> x \<and> x < d \<or> covers mem x"
    using add_if_ok [OF ok(1) le(2) refl] by blast
  obtain r2 where r2: "add_if (d \<noteq> e) d e r1 = Ok r2" "ranges_ok r2"
    "\<And>x. covers r2 x \<longleftrightarrow> d \<le> x \<and> x < e \<or> covers r1 x"
    using add_if_ok [OF r1(2) le(3) refl] by blast
  have "trim_range r (mem, reserved) = Ok (m1, r2)"
    using True r1(1) m1(1) r2(1) by (simp add: trim_range_def Let_def s_def e_def u_def d_def)
  moreover have "usable r x \<longleftrightarrow> u \<le> x \<and> x < d" "in_range r x \<longleftrightarrow> s \<le> x \<and> x < e" for x
    using True by (simp_all add: usable_def in_range_def s_def e_def u_def d_def)
  ultimately show ?thesis using m1(2,3) r1(3) r2(2,3) le unfolding held_def
    by (intro exI [of _ m1] exI [of _ r2]) auto
next
  case False
  from r have "e820_base r < e820_base r + e820_size r" by (simp add: range_good_def)
  from ranges_set_region_to_ok [OF ok(2) this, of True] False ok(1) show ?thesis
    by (auto simp: trim_range_def Let_def ranges_add_def held_def usable_def in_range_def)
qed

lemma trim_table_ok:
  "ranges_ok mem \<Longrightarrow> ranges_ok reserved \<Longrightarrow> \<forall>r \<in> set table. range_good r \<Longrightarrow>
    \<exists>mem' reserved'. trim_table table (mem, reserved) = Ok (mem', reserved') \<and> ranges_ok mem' \<and> ranges_ok reserved' \<and>
      (\<forall>x. covers mem' x \<longleftrightarrow> (\<exists>r \<in> set table. usable r x) \<or> covers mem x) \<and>
      (\<forall>x. covers reserved' x \<longleftrightarrow> (\<exists>r \<in> set table. held r x) \<or> covers reserved x)"
proof (induction table arbitrary: mem reserved)
  case (Cons r rs)
  from trim_range_ok [OF Cons.prems(1,2), of r] Cons.prems(3) obtain m v where
    1: "trim_range r (mem, reserved) = Ok (m, v)" "ranges_ok m" "ranges_ok v"
      "\<forall>x. covers m x \<longleftrightarrow> usable r x \<or> covers mem x" "\<forall>x. covers v x \<longleftrightarrow> held r x \<or> covers reserved x" by auto
  from Cons.IH [OF 1(2,3)] Cons.prems(3) obtain m' v' where
    "trim_table rs (m, v) = Ok (m', v')" "ranges_ok m'" "ranges_ok v'"
      "\<forall>x. covers m' x \<longleftrightarrow> (\<exists>r \<in> set rs. usable r x) \<or> covers m x"
      "\<forall>x. covers v' x \<longleftrightarrow> (\<exists>r \<in> set rs. held r x) \<or> covers v x" by auto
  with 1 show ?case by auto
qed simp

subsection \<open>The memory node\<close>

definition is_memory :: "dt_node \<Rightarrow> bool" where
  "is_memory c \<longleftrightarrow> (case prop_value (str ''device_type'') (dn_props c) of
     Some (d, z) \<Rightarrow> text_of d = str ''memory'' | None \<Rightarrow> False)"

definition device_ok :: "dt_node \<Rightarrow> bool" where
  "device_ok c \<longleftrightarrow> named_props c \<and>
     (case prop_value (str ''device_type'') (dn_props c) of Some (d, z) \<Rightarrow> cstr d \<noteq> None | None \<Rightarrow> True)"

lemma text_of_literal: "0 \<notin> set s \<Longrightarrow> text_of (s @ [0]) = s \<and> cstr (s @ [0]) \<noteq> None"
  by (simp add: text_of_def cstr_append_NUL)

lemma str_names:
  "0 \<notin> set (str ''device_type'')" "0 \<notin> set (str ''memory'')" "0 \<notin> set (str ''reg'')"
  "str ''device_type'' \<noteq> str ''reg''"
  by (simp_all add: str_def)

lemma drop_memory_eq:
  "list_all device_ok cs \<Longrightarrow> drop_memory sg cs = Ok (filter (\<lambda>c. \<not> is_memory c) cs)"
proof (induction cs)
  case (Cons c cs)
  let ?k = "str ''device_type'' @ [0]" and ?m = "str ''memory'' @ [0]"
  have k: "text_of ?k = str ''device_type''" "cstr ?k \<noteq> None" and m: "text_of ?m = str ''memory''" "cstr ?m \<noteq> None"
    using text_of_literal str_names by blast+
  have c: "named_props c" using Cons.prems by (simp add: device_ok_def)
  note find = dt_find_bin_prop_eq [OF c k(2), of sg, unfolded k(1)]
  have ih: "drop_memory sg cs = Ok (filter (\<lambda>c. \<not> is_memory c) cs)" using Cons by simp
  show ?case
  proof (cases "prop_value (str ''device_type'') (dn_props c)")
    case None
    then have "dt_find_string_prop sg c ?k = Ok None" using find by (simp add: dt_find_string_prop_def)
    with ih None show ?thesis by (simp add: is_memory_def)
  next
    case (Some v)
    obtain d z where v: "v = (d, z)" by (cases v)
    have d: "cstr d \<noteq> None" using Cons.prems Some by (simp add: device_ok_def v)
    have "dt_find_string_prop sg c ?k = Ok (Some d)" using find Some by (simp add: dt_find_string_prop_def v)
    moreover obtain r where "strcmp sg d ?m = Ok r" "r = 0 \<longleftrightarrow> text_of d = str ''memory''"
      using strcmp_cstr [OF d m(2), of sg] unfolding m(1) by blast
    ultimately show ?thesis using ih Some by (simp add: is_memory_def v)
  qed
qed simp

lemma add_new_prop:
  assumes "named_props node" and "cstr name \<noteq> None" and "prop_value (text_of name) (dn_props node) = None"
  shows "dt_add_bin_prop sg node name dat n = Ok (DtNode (dn_name node)
    (\<lparr>fp_name = name, fp_data = dat, fp_size = ucast n\<rparr> # dn_props node) (dn_children node))"
proof -
  have "update_prop sg name dat sz ps = Ok None"
    if "list_all (\<lambda>p. cstr (fp_name p) \<noteq> None) ps" "prop_value (text_of name) ps = None" for sz ps
    using that
  proof (induction ps)
    case (Cons p ps)
    then obtain r where "strcmp sg (fp_name p) name = Ok r" "r = 0 \<longleftrightarrow> text_of (fp_name p) = text_of name"
      using strcmp_cstr [of "fp_name p" name sg] assms(2) by auto
    with Cons show ?case by (auto simp: prop_value_Cons split: if_splits)
  qed simp
  with assms show ?thesis by (simp add: dt_add_bin_prop_def named_props_def)
qed

definition memory_prop :: fdt_property where
  "memory_prop = \<lparr>fp_name = str ''device_type'' @ [0], fp_data = str ''memory'' @ [0], fp_size = 7\<rparr>"

definition memory_node :: "bytes \<Rightarrow> dt_node" where
  "memory_node reg = DtNode (str ''memory'' @ [0])
     [\<lparr>fp_name = str ''reg'' @ [0], fp_data = reg, fp_size = word_of_nat (length reg)\<rparr>, memory_prop] []"

lemma memory_node_built:
  "dt_add_string_prop sg (DtNode (str ''memory'' @ [0]) [] []) (str ''device_type'' @ [0]) (str ''memory'' @ [0]) =
     Ok (DtNode (str ''memory'' @ [0]) [memory_prop] [])" (is ?type)
  "dt_add_bin_prop sg (DtNode (str ''memory'' @ [0]) [memory_prop] []) (str ''reg'' @ [0]) reg (word_of_nat (length reg)) =
     Ok (memory_node reg)" (is ?reg)
proof -
  have len: "length (str ''memory'') = 6" by (simp add: str_def)
  show ?type
    using text_of_literal [OF str_names(1)] strlen_terminated [OF str_names(2), of "[]"]
    by (simp add: dt_add_string_prop_def add_new_prop named_props_def prop_value_Cons memory_prop_def len)
  show ?reg
    using text_of_literal [OF str_names(1)] text_of_literal [OF str_names(3)] str_names(4) count_step [of 0 "length reg"]
    by (simp add: add_new_prop named_props_def prop_value_Cons memory_prop_def memory_node_def)
qed

subsection \<open>The memory the kernel is told of\<close>

definition cell_max :: "u32 \<Rightarrow> u64" where
  "cell_max size_cells = (if size_cells = 1 then 2147483648 else 9223372036854775808)"

lemma max_range_eq: "sc \<in> {1, 2} \<Longrightarrow> max_range sc = Ok (cell_max sc) \<and> cell_max sc \<noteq> 0"
  by (auto simp: max_range_def cell_max_def push_bit_eq_mult)

definition in_pairs :: "(u64 \<times> u64) list \<Rightarrow> u64 \<Rightarrow> bool" where
  "in_pairs rs x \<longleftrightarrow> (\<exists>(a, b) \<in> set rs. a \<le> x \<and> x < b)"

definition reserve_entries :: "(u64 \<times> u64) list \<Rightarrow> (u64 \<times> u64) list" where
  "reserve_entries rs = map (\<lambda>(a, b). (a, b - a)) rs"

lemma fold_reserve: "fold update_reserve_map rs es = rev (reserve_entries rs) @ es"
  by (induction rs arbitrary: es) (auto simp: update_reserve_map_def reserve_entries_def)

lemma chunks_fit:
  assumes sc: "sc \<in> {1, 2}" and n: "(unat ac + unat sc) * length (ram_chunks (cell_max sc) rs) < 1073741824"
    and small: "\<not> (sc = 2 \<and> (\<exists>(a, b) \<in> set rs. 4294967296 \<le> b - a))"
  shows "\<forall>(a, b) \<in> set rs. unat (b - a) + (unat (cell_max sc) - 1) < 18446744073709551616"
proof (intro ballI, clarify)
  fix a b assume ab: "(a, b) \<in> set rs"
  show "unat (b - a) + (unat (cell_max sc) - 1) < 18446744073709551616"
  proof (cases "sc = 1")
    case True
    have "length (mem_chunks (cell_max sc) a (b - a)) \<le> length (ram_chunks (cell_max sc) rs)"
      using ab by (induction rs) (auto simp: ram_chunks_def)
    also have "\<dots> < 1073741824" using n True by (simp add: algebra_simps)
    finally have "(unat (b - a) + 2147483647) div 2147483648 < 1073741824"
      using True by (simp add: length_mem_chunks cell_max_def)
    then have "unat (b - a) + 2147483647 < 1073741824 * 2147483648"
      using div_less_iff_less_mult [of 2147483648 "unat (b - a) + 2147483647" 1073741824] by simp
    then show ?thesis using True by (simp add: cell_max_def)
  next
    case False
    with sc small ab have "b - a < 4294967296" by auto
    then have "unat (b - a) < 4294967296" by (simp add: word_less_nat_alt)
    then show ?thesis using False by (simp add: cell_max_def)
  qed
qed

lemma count_all_Ok: "max_range sc = Ok mx \<Longrightarrow> \<exists>n. count_all sc rs c = Ok n"
  by (induction rs arbitrary: c) (auto simp: count_entries_def)

lemma ucast_unat: "(ucast w :: u64) = word_of_nat (unat w)" for w :: u32
  by (simp add: unsigned_def)

lemma props_written:
  assumes sc: "sc \<in> {1, 2}" and n: "(unat ac + unat sc) * length (ram_chunks (cell_max sc) rs) < 1073741824"
    and small: "\<not> (sc = 2 \<and> (\<exists>(a, b) \<in> set rs. 4294967296 \<le> b - a))"
    and fresh: "\<And>n. length (fresh n) = n"
  defines "reg \<equiv> reg_bytes (unat ac) (unat sc) (ram_chunks (cell_max sc) rs)"
  shows "\<exists>c. count_all sc rs 0 = Ok c \<and> ucast (c * (ac + sc)) * 4 = (word_of_nat (length reg) :: u64) \<and>
    unat (word_of_nat (length reg) :: u64) = length reg \<and>
    mem_props ac sc rs (fresh (length reg)) 0 = Ok (reg, length reg)"
proof -
  let ?n = "length (ram_chunks (cell_max sc) rs)"
  note mx = max_range_eq [OF sc]
  let ?c = "word_of_nat ?n :: u32"
  have len: "length reg = (unat ac + unat sc) * 4 * ?n" by (simp add: reg_def length_reg_bytes)
  have "?c * (ac + sc) = word_of_nat ((unat ac + unat sc) * ?n)" by simp
  then have "unat (?c * (ac + sc)) = (unat ac + unat sc) * ?n"
    using n by (simp only: unat_of_nat) simp
  then have "ucast (?c * (ac + sc)) * 4 = (word_of_nat (length reg) :: u64)"
    unfolding len ucast_unat by (simp add: algebra_simps)
  moreover have "length reg = 4 * ((unat ac + unat sc) * ?n)" by (simp add: len)
  then have "length reg < 18446744073709551616" using n by linarith
  then have "unat (word_of_nat (length reg) :: u64) = length reg" by (simp add: unat_of_nat)
  moreover have "cell_max sc < 4294967296 \<or> (\<forall>(a, b) \<in> set rs. b - a < 4294967296)"
    using sc small by (auto simp: cell_max_def)
  then have "mem_props ac sc rs (fresh (length reg)) 0 = Ok (reg, length reg)"
    using mem_props_ok [of sc "cell_max sc" rs 0 ac "fresh (length reg)"] mx
    unfolding reg_def [symmetric] by (simp add: fresh)
  ultimately show ?thesis
    using count_all_ok [OF conjunct1 [OF mx] chunks_fit [OF sc n small], of 0] by auto
qed

lemma cell_of: "cell_of (Some v) = v"
  by (simp add: cell_of_def)

lemma update_memory_step:
  assumes root: "dt_root tree = Some root" and cells: "dt_read_cell_props sg root (Some 1, Some 1) = Ok (Some ac, Some sc)"
    and cs: "list_all device_ok (dn_children root)"
    and trim: "trim_table table (ranges_init, ranges_init) = Ok (mem, reserved)"
  shows "update_memory sg fresh (Some table) tree =
    andthen (count_all sc (ranges_for_each mem) 0) (\<lambda>count.
      let len = (ucast (count * (ac + sc)) * 4 :: u64) in
      andthen (mem_props ac sc (ranges_for_each mem) (fresh (unat len)) 0) (\<lambda>(dat, cur).
      if cur \<noteq> unat len then Fault AssertFail
      else andthen (dt_add_bin_prop sg (DtNode (str ''memory'' @ [0]) [memory_prop] []) (str ''reg'' @ [0]) dat len) (\<lambda>node.
        Ok (tree\<lparr>dt_root := Some (set_children root (node # filter (\<lambda>c. \<not> is_memory c) (dn_children root))),
          dt_reserve := rev (reserve_entries (ranges_for_each reserved)) @ dt_reserve tree\<rparr>))))"
  by (simp add: update_memory_def root cells drop_memory_eq [OF cs] memory_node_built(1) trim fold_reserve
      cell_of Let_def cong: if_cong)

text \<open>The entries of a \<open>reg\<close> property as the kernel reads them: \<open>ac\<close> cells of an address and \<open>sc\<close> cells of a size.\<close>

fun reg_entries :: "nat \<Rightarrow> nat \<Rightarrow> nat \<Rightarrow> bytes \<Rightarrow> (nat \<times> nat) list" where
  "reg_entries ac sc 0 reg = []"
| "reg_entries ac sc (Suc n) reg =
     (be_val (take (4 * ac) reg), be_val (take (4 * sc) (drop (4 * ac) reg))) # reg_entries ac sc n (drop (4 * (ac + sc)) reg)"

lemma reg_entries_bytes:
  "reg_entries ac sc (length regs) (reg_bytes ac sc regs) =
     map (\<lambda>(a, n). (unat a mod 2 ^ (32 * ac), unat n mod 2 ^ (32 * sc))) regs"
proof (induction regs)
  case (Cons r regs)
  have p: "256 ^ (k * 4) = (2 :: nat) ^ (32 * k)" for k
  proof -
    have "(2 :: nat) ^ (8 * (4 * k)) = (2 ^ 8) ^ (4 * k)" by (rule power_mult)
    then show ?thesis by (simp add: mult.commute)
  qed
  show ?case using Cons by (cases r) (simp add: reg_bytes_Cons be_val_be_bytes p algebra_simps)
qed simp

lemma mem_chunks_small: "(a, n) \<in> set (mem_chunks mx start full) \<Longrightarrow> n \<le> mx"
proof (induction mx start full rule: mem_chunks.induct)
  case (1 mx start full)
  show ?case
  proof (cases "full = 0 \<or> mx = 0")
    case True
    then show ?thesis using 1(2) by (simp add: mem_chunks.simps [of mx start full])
  next
    case False
    then have "mem_chunks mx start full = (start, min mx full) # mem_chunks mx (start + min mx full) (full - min mx full)"
      by (subst mem_chunks.simps) simp
    then show ?thesis using 1(1) [OF False] 1(2) by auto
  qed
qed

text \<open>The sizes always fit, the addresses lose what is above the address cells.\<close>

lemma reg_entries_chunks:
  assumes "sc \<in> {1, 2}"
  shows "reg_entries ac (unat sc) (length (ram_chunks (cell_max sc) rs)) (reg_bytes ac (unat sc) (ram_chunks (cell_max sc) rs)) =
    map (\<lambda>(a, n). (unat a mod 2 ^ (32 * ac), unat n)) (ram_chunks (cell_max sc) rs)"
proof -
  have "unat n mod 2 ^ (32 * unat sc) = unat n" if "(a, n) \<in> set (ram_chunks (cell_max sc) rs)" for a n
  proof -
    have "n \<le> cell_max sc" using that mem_chunks_small by (auto simp: ram_chunks_def)
    then have "unat n \<le> unat (cell_max sc)" by (simp add: word_le_nat_alt)
    also have "\<dots> < 2 ^ (32 * unat sc)" using assms by (auto simp: cell_max_def)
    finally show ?thesis by simp
  qed
  then show ?thesis unfolding reg_entries_bytes by auto
qed

text \<open>
  C17. \<open>update_memory\<close> cuts the machine's RAM to whole megabytes and describes it to the kernel, for a
  table whose ranges are not empty and whose RAM has a megabyte boundary in each range.  The \<open>memory\<close>
  nodes of the tree are replaced by one whose \<open>reg\<close> property the kernel reads as pieces that cover exactly the
  trimmed RAM and fit the size cells; of an address the property keeps what its cells hold, so that
  RAM above 4 GiB needs two.  Every address the table mentions otherwise is covered by new entries of the
  reserve map; the rest of the tree stays.  But with two size cells a stretch of RAM of 4 GiB or more always
  makes the loop write past the end of the buffer, because the size of a piece is kept in 32 bits.
\<close>

theorem update_memory_describes:
  assumes root: "dt_root tree = Some root" and cells: "dt_read_cell_props sg root (Some 1, Some 1) = Ok (Some ac, Some sc)"
    and sc: "sc \<in> {1, 2}" and cs: "list_all device_ok (dn_children root)"
    and table: "\<forall>r \<in> set table. range_good r" and fresh: "\<And>n. length (fresh n) = n"
  shows "\<exists>ram kept. sorted_wrt (\<lambda>(a, b) (c, d). b < c) ram \<and>
    (\<forall>x. in_pairs ram x \<longleftrightarrow> (\<exists>r \<in> set table. usable r x)) \<and>
    (\<forall>x. in_pairs kept x \<longleftrightarrow> (\<exists>r \<in> set table. held r x)) \<and>
    (let pieces = ram_chunks (cell_max sc) ram in
      (\<forall>x. cleared pieces x \<longleftrightarrow> in_pairs ram x) \<and>
      (if sc = 2 \<and> (\<exists>(a, b) \<in> set ram. 4294967296 \<le> b - a)
       then update_memory sg fresh (Some table) tree = Fault OutOfBounds
       else (unat ac + unat sc) * length pieces < 1073741824 \<longrightarrow>
         (\<exists>reg. update_memory sg fresh (Some table) tree =
             Ok (tree\<lparr>dt_root := Some (set_children root (memory_node reg # filter (\<lambda>c. \<not> is_memory c) (dn_children root))),
               dt_reserve := rev (reserve_entries kept) @ dt_reserve tree\<rparr>) \<and>
           length reg = 4 * (unat ac + unat sc) * length pieces \<and>
           reg_entries (unat ac) (unat sc) (length pieces) reg =
             map (\<lambda>(a, n). (unat a mod 2 ^ (32 * unat ac), unat n)) pieces)))"
proof -
  have "ranges_ok ranges_init" by (simp add: ranges_ok_def ranges_init_def)
  then obtain mem reserved where t: "trim_table table (ranges_init, ranges_init) = Ok (mem, reserved)"
    "ranges_ok mem" "ranges_ok reserved"
    and m: "\<And>x. covers mem x \<longleftrightarrow> (\<exists>r \<in> set table. usable r x)"
    and v: "\<And>x. covers reserved x \<longleftrightarrow> (\<exists>r \<in> set table. held r x)"
    using trim_table_ok [of ranges_init ranges_init table] table by (auto simp: ranges_init_def covers_def)
  let ?ram = "ranges_for_each mem" and ?kept = "ranges_for_each reserved"
  let ?big = "sc = 2 \<and> (\<exists>(a, b) \<in> set ?ram. 4294967296 \<le> b - a)"
  have less: "\<forall>(a, b) \<in> set ?ram. a < b" using ranges_pairs_less t(2) by (auto simp: ranges_ok_def)
  have pairs: "in_pairs ?ram x \<longleftrightarrow> covers mem x" "in_pairs ?kept x \<longleftrightarrow> covers reserved x" for x
    using ranges_pairs_cover [OF t(2)] ranges_pairs_cover [OF t(3)] by (simp_all add: in_pairs_def)
  note step = update_memory_step [OF root cells cs t(1), of fresh]
  note mx = max_range_eq [OF sc]
  have over: "update_memory sg fresh (Some table) tree = Fault OutOfBounds" if "?big"
  proof -
    obtain c where "count_all sc ?ram 0 = Ok c" using count_all_Ok mx by blast
    moreover have "mem_props ac sc ?ram dat cur = Fault OutOfBounds" for dat cur
      using mem_props_overrun [of sc ?ram] mx that by (simp add: cell_max_def)
    ultimately show ?thesis unfolding step by (simp add: Let_def)
  qed
  have fits: "update_memory sg fresh (Some table) tree =
      Ok (tree\<lparr>dt_root := Some (set_children root (memory_node (reg_bytes (unat ac) (unat sc)
          (ram_chunks (cell_max sc) ?ram)) # filter (\<lambda>c. \<not> is_memory c) (dn_children root))),
        dt_reserve := rev (reserve_entries ?kept) @ dt_reserve tree\<rparr>)"
    if "\<not> ?big" "(unat ac + unat sc) * length (ram_chunks (cell_max sc) ?ram) < 1073741824"
    using props_written [OF sc that(2,1) fresh] unfolding step
    by (auto simp: Let_def memory_node_built(2))
  let ?pieces = "ram_chunks (cell_max sc) ?ram" and ?reg = "reg_bytes (unat ac) (unat sc) (ram_chunks (cell_max sc) ?ram)"
  have reg: "length ?reg = 4 * (unat ac + unat sc) * length ?pieces"
    "reg_entries (unat ac) (unat sc) (length ?pieces) ?reg = map (\<lambda>(a, n). (unat a mod 2 ^ (32 * unat ac), unat n)) ?pieces"
    using reg_entries_chunks [OF sc] by (simp_all add: length_reg_bytes)
  show ?thesis
    using over fits reg m v pairs ram_chunks_cover [OF _ less] mx ranges_for_each_sorted [OF t(2)]
    by (intro exI [of _ ?ram] exI [of _ ?kept]) (auto simp add: Let_def in_pairs_def)
qed

definition sample_table :: "e820_range list" where
  "sample_table = [\<lparr>e820_base = 1048576, e820_size = 2097152, e820_type = E820_Ram\<rparr>,
     \<lparr>e820_base = 3145728, e820_size = 4096, e820_type = E820_Reserved\<rparr>]"

definition sample_kernel :: dt_tree where
  "sample_kernel = \<lparr>dt_header = [], dt_header_size = 0, dt_reserve = [(0, 4096)],
     dt_root = Some (DtNode [0] [] [memory_node [], DtNode (str ''chosen'' @ [0]) [] []])\<rparr>"

lemma sample_memory_ok: "device_ok (memory_node [])" "device_ok (DtNode (str ''chosen'' @ [0]) [] [])"
  by (simp_all add: device_ok_def memory_node_def memory_prop_def named_props_def prop_value_Cons str_def
      text_of_def)

theorem update_memory_describes_witness:
  "\<exists>ram. (\<forall>x. in_pairs ram x \<longleftrightarrow> 1048576 \<le> x \<and> x < 3145728) \<and>
    (2 * length (ram_chunks 2147483648 ram) < 1073741824 \<longrightarrow>
      (\<exists>kernel. update_memory True (\<lambda>n. replicate n 0) (Some sample_table) sample_kernel = Ok kernel))"
proof -
  have "dt_root sample_kernel = Some (DtNode [0] [] [memory_node [], DtNode (str ''chosen'' @ [0]) [] []])"
    by (simp add: sample_kernel_def)
  moreover have "\<forall>r \<in> set sample_table. range_good r"
    by (simp add: sample_table_def range_good_def mb_up_def mb_down_def e820_types)
  moreover have "(\<exists>r \<in> set sample_table. usable r x) \<longleftrightarrow> 1048576 \<le> x \<and> x < 3145728" for x
    by (simp add: sample_table_def usable_def mb_up_def mb_down_def e820_types)
  moreover have "dt_read_cell_props True (DtNode [0] [] [memory_node [], DtNode (str ''chosen'' @ [0]) [] []])
      (Some 1, Some 1) = Ok (Some 1, Some 1)" by (simp add: dt_read_cell_props_def)
  moreover have "length (replicate n (0 :: u8)) = n" for n by simp
  moreover have "list_all device_ok (dn_children (DtNode [0] [] [memory_node [], DtNode (str ''chosen'' @ [0]) [] []]))"
    using sample_memory_ok by simp
  moreover have "(1 :: u32) \<in> {1, 2}" by simp
  ultimately obtain ram where "\<forall>x. in_pairs ram x \<longleftrightarrow> 1048576 \<le> x \<and> x < 3145728"
    "2 * length (ram_chunks (cell_max 1) ram) < 1073741824 \<longrightarrow>
      (\<exists>kernel. update_memory True (\<lambda>n. replicate n 0) (Some sample_table) sample_kernel = Ok kernel)"
    using update_memory_describes [of sample_kernel _ True 1 1 sample_table "\<lambda>n. replicate n 0"]
    by (auto simp: Let_def)
  then show ?thesis by (auto simp: cell_max_def)
qed

text \<open>
  RAM with no megabyte boundary inside it: the bounds given to \<open>ranges_add\<close> are swapped and the
  collection is no longer sorted.
\<close>

lemma trim_within_megabyte:
  "\<exists>reserved. trim_range \<lparr>e820_base = 4096, e820_size = 651264, e820_type = E820_Ram\<rparr> ([], []) =
     Ok ([1048576, 0], reserved) \<and> \<not> ranges_ok [1048576, 0]"
  by (simp add: trim_range_def add_if_def ranges_add_def ranges_set_region_to_def mb_up_def mb_down_def
      E820_Ram_def ranges_ok_def Let_def)

end
