(* ===== verification/Fit.thy ===== *)
theory Fit
  imports FitMemory
begin

text \<open>
  \<^verbatim>\<open>src/src/boot/fit.c\<close>: loading a FIT, a device tree that holds kernels, ramdisks and kernel
  device trees as images, and configurations that combine them.  Images and configurations
  are collected in two static lists (new ones at the front); configurations whose images are
  missing are dropped, and the configuration to boot is chosen by the position of the board's
  compatible string in the kernel device tree, or by default.  Messages to the console are
  left out, but the walk over the compatible strings that prints them is kept, because it
  reads memory.  A pointer is the bytes from it to the end of the FIT; NULL is \<open>None\<close>.
\<close>

datatype compression_type = CompressionInvalid | CompressionNone | CompressionLzma | CompressionLz4

record fit_image_node =
  im_name :: bytes
  im_data :: "bytes option"
  im_size :: u32
  im_compression :: compression_type

record fit_config_node =
  cf_name :: bytes
  cf_kernel :: "bytes option"
  cf_kernel_node :: "fit_image_node option"
  cf_fdt :: "bytes option"
  cf_fdt_node :: "fit_image_node option"
  cf_ramdisk :: "bytes option"
  cf_ramdisk_node :: "fit_image_node option"
  cf_compat :: "fdt_property option"
  cf_compat_rank :: int

record fit_state =
  image_nodes :: "fit_image_node list"
  config_nodes :: "fit_config_node list"
  fit_kernel_compat :: "bytes option"

subsection \<open>The board's compatible string\<close>

definition fit_set_compat :: "bytes \<Rightarrow> fit_state \<Rightarrow> fit_state" where
  "fit_set_compat name st = st\<lparr>fit_kernel_compat := Some name\<rparr>"

fun decimal :: "nat \<Rightarrow> bytes" where
  "decimal n = (if n < 10 then [word_of_nat (48 + n)] else decimal (n div 10) @ [word_of_nat (48 + n mod 10)])"

declare decimal.simps [simp del]

text \<open>
  \<open>board\<close> is the configured board name without its NUL and \<open>board_id\<close> the board id; the pattern
  takes 16 bytes with its NUL, the buffer that many and the size of the name.
\<close>

definition fit_set_default_compat :: "bool \<Rightarrow> (nat \<Rightarrow> bytes) \<Rightarrow> bytes \<Rightarrow> u32 \<Rightarrow> fit_state \<Rightarrow> fit_state res" where
  "fit_set_default_compat mem fresh board board_id st =
     (if \<not> board_id < 100 then Fault AssertFail
      else if \<not> mem then Fault NullDeref
      else (let name = str ''google,'' @ board @ str ''-rev'' @ decimal (unat board_id) in
        andthen (of_opt (put (fresh (16 + (length board + 1))) 0 (name @ [0]))) (\<lambda>buf.
          Ok (fit_set_compat
            (map (\<lambda>c. if c = ch CHR ''_'' then ch CHR ''-'' else c) name @ drop (length name) buf) st))))"

subsection \<open>Images and configurations\<close>

definition str_eq :: "bool \<Rightarrow> string \<Rightarrow> bytes \<Rightarrow> bool res" where
  "str_eq sg lit s = map_res (\<lambda>r. r = 0) (strcmp sg (str lit @ [0]) s)"

definition compression_of :: "bool \<Rightarrow> bytes \<Rightarrow> compression_type res" where
  "compression_of sg d =
     andthen (str_eq sg ''none'' d) (\<lambda>b. if b then Ok CompressionNone
     else andthen (str_eq sg ''lzma'' d) (\<lambda>b. if b then Ok CompressionLzma
     else andthen (str_eq sg ''lz4'' d) (\<lambda>b. if b then Ok CompressionLz4 else Ok CompressionInvalid)))"

fun image_props :: "bool \<Rightarrow> fdt_property list \<Rightarrow> fit_image_node \<Rightarrow> fit_image_node res" where
  "image_props sg [] im = Ok im"
| "image_props sg (p # ps) im =
     andthen (str_eq sg ''data'' (fp_name p)) (\<lambda>b.
       if b then image_props sg ps (im\<lparr>im_data := Some (fp_data p), im_size := fp_size p\<rparr>)
       else andthen (str_eq sg ''compression'' (fp_name p)) (\<lambda>b.
         if b then andthen (compression_of sg (fp_data p)) (\<lambda>c. image_props sg ps (im\<lparr>im_compression := c\<rparr>))
         else image_props sg ps im))"

definition image_node :: "bool \<Rightarrow> dt_node \<Rightarrow> fit_state \<Rightarrow> fit_state res" where
  "image_node sg node st =
     map_res (\<lambda>im. st\<lparr>image_nodes := im # image_nodes st\<rparr>)
       (image_props sg (dn_props node)
         \<lparr>im_name = dn_name node, im_data = None, im_size = 0, im_compression = CompressionNone\<rparr>)"

fun config_props :: "bool \<Rightarrow> fdt_property list \<Rightarrow> fit_config_node \<Rightarrow> fit_config_node res" where
  "config_props sg [] cf = Ok cf"
| "config_props sg (p # ps) cf =
     andthen (str_eq sg ''kernel'' (fp_name p)) (\<lambda>b.
       if b then config_props sg ps (cf\<lparr>cf_kernel := Some (fp_data p)\<rparr>)
       else andthen (str_eq sg ''fdt'' (fp_name p)) (\<lambda>b.
         if b then config_props sg ps (cf\<lparr>cf_fdt := Some (fp_data p)\<rparr>)
         else andthen (str_eq sg ''ramdisk'' (fp_name p)) (\<lambda>b.
           if b then config_props sg ps (cf\<lparr>cf_ramdisk := Some (fp_data p)\<rparr>)
           else config_props sg ps cf)))"

definition new_config :: "bytes \<Rightarrow> fit_config_node" where
  "new_config name = \<lparr>cf_name = name, cf_kernel = None, cf_kernel_node = None, cf_fdt = None,
     cf_fdt_node = None, cf_ramdisk = None, cf_ramdisk_node = None, cf_compat = None, cf_compat_rank = 0\<rparr>"

definition config_node :: "bool \<Rightarrow> dt_node \<Rightarrow> fit_state \<Rightarrow> fit_state res" where
  "config_node sg node st =
     map_res (\<lambda>cf. st\<lparr>config_nodes := cf # config_nodes st\<rparr>)
       (config_props sg (dn_props node) (new_config (dn_name node)))"

fun each_child :: "(dt_node \<Rightarrow> fit_state \<Rightarrow> fit_state res) \<Rightarrow> dt_node list \<Rightarrow> fit_state \<Rightarrow> fit_state res" where
  "each_child f [] st = Ok st"
| "each_child f (c # cs) st = andthen (f c st) (each_child f cs)"

fun default_prop :: "bool \<Rightarrow> fdt_property list \<Rightarrow> bytes option \<Rightarrow> bytes option res" where
  "default_prop sg [] dflt = Ok dflt"
| "default_prop sg (p # ps) dflt =
     andthen (str_eq sg ''default'' (fp_name p)) (\<lambda>b.
       default_prop sg ps (if b then Some (fp_data p) else dflt))"

fun unpack_tops :: "bool \<Rightarrow> dt_node list \<Rightarrow> bytes option \<Rightarrow> fit_state \<Rightarrow> (bytes option \<times> fit_state) res" where
  "unpack_tops sg [] dflt st = Ok (dflt, st)"
| "unpack_tops sg (nd # nds) dflt st =
     andthen (str_eq sg ''images'' (dn_name nd)) (\<lambda>b.
       if b then andthen (each_child (image_node sg) (dn_children nd) st) (\<lambda>st. unpack_tops sg nds dflt st)
       else andthen (str_eq sg ''configurations'' (dn_name nd)) (\<lambda>b.
         if b then
           andthen (default_prop sg (dn_props nd) dflt) (\<lambda>dflt.
           andthen (each_child (config_node sg) (dn_children nd) st) (\<lambda>st. unpack_tops sg nds dflt st))
         else unpack_tops sg nds dflt st))"

definition fit_unpack :: "bool \<Rightarrow> dt_tree \<Rightarrow> fit_state \<Rightarrow> (bytes option \<times> fit_state) res" where
  "fit_unpack sg tree st =
     (case dt_root tree of None \<Rightarrow> Fault AssertFail | Some root \<Rightarrow> unpack_tops sg (dn_children root) None st)"

fun find_image :: "bool \<Rightarrow> fit_image_node list \<Rightarrow> bytes \<Rightarrow> fit_image_node option res" where
  "find_image sg [] name = Ok None"
| "find_image sg (im # ims) name =
     andthen (strcmp sg (im_name im) name) (\<lambda>r. if r = 0 then Ok (Some im) else find_image sg ims name)"

subsection \<open>Ranking by compatible string\<close>

function compat_prop :: "bool \<Rightarrow> bytes \<Rightarrow> nat \<Rightarrow> fdt_property option res" where
  "compat_prop sg blob offset =
     andthen (fdt_next_property blob offset) (\<lambda>r.
       case r of None \<Rightarrow> Ok None
       | Some (n, p) \<Rightarrow>
           andthen (str_eq sg ''compatible'' (fp_name p)) (\<lambda>b.
             if b then Ok (Some p) else andthen (advance offset n) (compat_prop sg blob)))"
  by pat_completeness auto

termination
  by (relation "measure (\<lambda>(sg, blob, offset). 2147483648 - offset)")
    (auto simp: advance_Ok_iff dest!: fdt_next_property_pos)

declare compat_prop.simps [simp del]

text \<open>NULL as the name of the property, and the result -1, are \<open>None\<close>.\<close>

definition fdt_find_compat :: "bool \<Rightarrow> bytes \<Rightarrow> u32 \<Rightarrow> fdt_property option res" where
  "fdt_find_compat sg blob start_offset =
     andthen (as_c_int (unat start_offset)) (\<lambda>offset.
     andthen (fdt_node_name blob offset) (\<lambda>r.
       case r of None \<Rightarrow> Ok None
       | Some (n, _) \<Rightarrow> andthen (advance offset n) (compat_prop sg blob)))"

lemma strlen_pos: "strlen (Some s) = Ok l \<Longrightarrow> s \<noteq> []"
  by (auto simp: strlen_def)

text \<open>The third argument of \<open>strncmp\<close> is the count of bytes left, converted to \<open>size_t\<close>.\<close>

function check_compat_loop :: "bool \<Rightarrow> bytes \<Rightarrow> bytes \<Rightarrow> int \<Rightarrow> int \<Rightarrow> int res" where
  "check_compat_loop sg wanted s n pos =
     (if n = 0 then Ok (- 1)
      else andthen (of_opt (rd s 0)) (\<lambda>c.
        if c = 0 then Ok (- 1)
        else andthen (strncmp sg s wanted (nat (n mod 18446744073709551616))) (\<lambda>r.
          if r = 0 then Ok pos
          else andthen (strlen (Some s)) (\<lambda>l.
            check_compat_loop sg wanted (drop (l + 1) s) (n - (int l + 1)) (pos + 1)))))"
  by pat_completeness auto

termination
  by (relation "measure (\<lambda>(sg, wanted, s, n, pos). length s)") (auto dest!: strlen_pos)

declare check_compat_loop.simps [simp del]

definition fit_check_compat :: "bool \<Rightarrow> fdt_property \<Rightarrow> bytes \<Rightarrow> int res" where
  "fit_check_compat sg p compat_name = check_compat_loop sg compat_name (fp_data p) (sint (fp_size p)) 0"

text \<open>What printing the compatible strings reads.\<close>

function print_compat :: "bytes \<Rightarrow> int \<Rightarrow> unit res" where
  "print_compat s n =
     (if n = 0 then Ok ()
      else andthen (of_opt (rd s 0)) (\<lambda>c.
        if c = 0 then Ok ()
        else andthen (strlen (Some s)) (\<lambda>l. print_compat (drop (l + 1) s) (n - (int l + 1)))))"
  by pat_completeness auto

termination
  by (relation "measure (\<lambda>(s, n). length s)") (auto dest!: strlen_pos)

declare print_compat.simps [simp del]

subsection \<open>Choosing the configuration\<close>

definition find_opt :: "bool \<Rightarrow> fit_image_node list \<Rightarrow> bytes option \<Rightarrow> fit_image_node option \<Rightarrow> fit_image_node option res" where
  "find_opt sg ims name old = (case name of None \<Rightarrow> Ok old | Some n \<Rightarrow> find_image sg ims n)"

definition rank_config :: "bool \<Rightarrow> bytes \<Rightarrow> fit_image_node \<Rightarrow> fit_config_node \<Rightarrow> fit_config_node res" where
  "rank_config sg wanted im cf =
     (case im_data im of None \<Rightarrow> Fault NullDeref
      | Some blob \<Rightarrow>
          andthen (structure_offset blob) (\<lambda>off.
          andthen (fdt_find_compat sg blob off) (\<lambda>r.
            case r of None \<Rightarrow> Ok (cf\<lparr>cf_compat_rank := - 1, cf_compat := None\<rparr>)
            | Some p \<Rightarrow> map_res (\<lambda>k. cf\<lparr>cf_compat := Some p, cf_compat_rank := k\<rparr>)
                (fit_check_compat sg p wanted))))"

text \<open>\<open>None\<close>: the configuration is discarded.\<close>

definition examine_config ::
  "bool \<Rightarrow> fit_image_node list \<Rightarrow> bytes \<Rightarrow> fit_config_node \<Rightarrow> fit_config_node option res" where
  "examine_config sg ims wanted cf =
     andthen (find_opt sg ims (cf_kernel cf) (cf_kernel_node cf)) (\<lambda>knode.
     andthen (find_opt sg ims (cf_fdt cf) (cf_fdt_node cf)) (\<lambda>fdt.
     andthen (find_opt sg ims (cf_ramdisk cf) (cf_ramdisk_node cf)) (\<lambda>ramdisk.
     let cf = cf\<lparr>cf_kernel_node := knode, cf_fdt_node := fdt, cf_ramdisk_node := ramdisk\<rparr> in
     if knode = None \<or> cf_fdt cf \<noteq> None \<and> fdt = None then Ok None
     else (case fdt of None \<Rightarrow> Ok (Some cf)
       | Some im \<Rightarrow> if im_compression im \<noteq> CompressionNone then Ok None
           else map_res Some (rank_config sg wanted im cf)))))"

definition is_default :: "bool \<Rightarrow> bytes option \<Rightarrow> fit_config_node \<Rightarrow> bool res" where
  "is_default sg dflt cf =
     (case dflt of None \<Rightarrow> Ok False | Some name \<Rightarrow> map_res (\<lambda>r. r = 0) (strcmp sg (cf_name cf) name))"

definition better_compat :: "fit_config_node option \<Rightarrow> fit_config_node \<Rightarrow> fit_config_node option res" where
  "better_compat best cf =
     (case cf_compat cf of None \<Rightarrow> Ok best
      | Some p \<Rightarrow> andthen (print_compat (fp_data p) (sint (fp_size p))) (\<lambda>_.
          Ok (case best of Some b \<Rightarrow> if cf_compat_rank b < cf_compat_rank cf then Some cf else best
              | None \<Rightarrow> if cf_compat_rank cf \<noteq> - 1 then Some cf else None)))"

fun process_configs ::
  "bool \<Rightarrow> fit_image_node list \<Rightarrow> bytes \<Rightarrow> bytes option \<Rightarrow> fit_config_node list \<Rightarrow>
   fit_config_node option \<times> fit_config_node option \<Rightarrow>
   (fit_config_node list \<times> fit_config_node option \<times> fit_config_node option) res" where
  "process_configs sg ims wanted dflt [] (d, best) = Ok ([], d, best)"
| "process_configs sg ims wanted dflt (cf # cfs) (d, best) =
     andthen (examine_config sg ims wanted cf) (\<lambda>r.
       case r of None \<Rightarrow> process_configs sg ims wanted dflt cfs (d, best)
       | Some cf \<Rightarrow>
           andthen (is_default sg dflt cf) (\<lambda>b.
           andthen (better_compat best cf) (\<lambda>best.
             map_res (\<lambda>(kept, res). (cf # kept, res))
               (process_configs sg ims wanted dflt cfs (if b then Some cf else d, best)))))"

definition choose_config :: "fit_config_node option \<Rightarrow> fit_config_node option \<Rightarrow> fit_config_node option" where
  "choose_config default_config compat_config =
     (case compat_config of Some c \<Rightarrow> Some c | None \<Rightarrow> default_config)"

subsection \<open>Loading\<close>

definition FdtMagic :: u32 where
  "FdtMagic = 3490578157"

text \<open>The address of a pointer into the FIT at \<open>base\<close>.\<close>

definition fit_addr :: "u64 \<Rightarrow> bytes \<Rightarrow> bytes option \<Rightarrow> u64" where
  "fit_addr base fit p = (case p of None \<Rightarrow> 0 | Some d \<Rightarrow> base + word_of_nat (length fit - length d))"

text \<open>The kernel's tree made ready for booting; \<open>Err\<close> when \<open>fit_load\<close> gives up.\<close>

definition prepare_kernel_tree ::
  "bool \<Rightarrow> bool \<Rightarrow> (nat \<Rightarrow> bytes) \<Rightarrow> e820_range list option \<Rightarrow> u64 \<Rightarrow> bytes \<Rightarrow> bytes option \<Rightarrow>
   fit_config_node \<Rightarrow> fit_image_node \<Rightarrow> dt_tree res" where
  "prepare_kernel_tree sg mem fresh e820 base fit cmd_line cf im =
     (case im_data im of None \<Rightarrow> Fault NullDeref
      | Some blob \<Rightarrow>
          andthen (fdt_unflatten blob) (\<lambda>dt.
          andthen (case cmd_line of None \<Rightarrow> Ok dt | Some line \<Rightarrow> update_chosen sg mem fresh dt line) (\<lambda>dt.
          andthen (update_memory sg fresh e820 dt) (\<lambda>dt.
            case cf_ramdisk_node cf of None \<Rightarrow> Ok dt
            | Some ramdisk \<Rightarrow> if im_compression ramdisk \<noteq> CompressionNone then Err
                else fit_add_ramdisk sg mem fresh dt (fit_addr base fit (im_data ramdisk)) (ucast (im_size ramdisk))))))"

definition fit_load ::
  "bool \<Rightarrow> bool \<Rightarrow> (nat \<Rightarrow> bytes) \<Rightarrow> bytes \<Rightarrow> u32 \<Rightarrow> e820_range list option \<Rightarrow> u64 \<Rightarrow> bytes \<Rightarrow> bytes option \<Rightarrow>
   dt_tree option \<Rightarrow> fit_state \<Rightarrow> (fit_image_node \<times> dt_tree option \<times> fit_state) res" where
  "fit_load sg mem fresh board board_id e820 base fit cmd_line dt st =
     andthen (fdt_word fit 0) (\<lambda>magic.
     if magic \<noteq> FdtMagic then Err
     else andthen (fdt_unflatten fit) (\<lambda>tree.
       andthen (fit_unpack sg tree st) (\<lambda>(dflt, st).
       andthen (if fit_kernel_compat st = None then fit_set_default_compat mem fresh board board_id st else Ok st) (\<lambda>st.
       andthen (process_configs sg (image_nodes st) (the (fit_kernel_compat st)) dflt (config_nodes st) (None, None))
         (\<lambda>(kept, default_config, compat_config).
       let st = st\<lparr>config_nodes := kept\<rparr> in
       case choose_config default_config compat_config of None \<Rightarrow> Err
       | Some to_boot \<Rightarrow>
           andthen (case cf_fdt_node to_boot of None \<Rightarrow> Ok dt
             | Some im \<Rightarrow> map_res Some (prepare_kernel_tree sg mem fresh e820 base fit cmd_line to_boot im)) (\<lambda>dt.
             case cf_kernel_node to_boot of None \<Rightarrow> Err | Some im \<Rightarrow> Ok (im, dt, st)))))))"

subsection \<open>The rank of a compatible string\<close>

fun position :: "int \<Rightarrow> bytes \<Rightarrow> bytes list \<Rightarrow> int" where
  "position k w [] = - 1"
| "position k w (s # ss) = (if s = w then k else position (k + 1) w ss)"

definition plain_strings :: "bytes list \<Rightarrow> bool" where
  "plain_strings ss \<longleftrightarrow> (\<forall>s \<in> set ss. s \<noteq> [] \<and> 0 \<notin> set s) \<and> length (string_list ss) < 2147483648"

lemma string_list_Cons: "string_list (s # ss) @ rest = s @ 0 # string_list ss @ rest"
  "length (string_list (s # ss)) = length s + 1 + length (string_list ss)"
  by (simp_all add: string_list_def)

lemma check_compat_loop_eq:
  assumes "0 \<notin> set w"
  shows "plain_strings ss \<Longrightarrow>
    check_compat_loop sg (w @ 0 # r) (string_list ss @ rest) (int (length (string_list ss))) k = Ok (position k w ss)"
proof (induction ss arbitrary: k)
  case Nil
  then show ?case by (simp add: check_compat_loop.simps string_list_def)
next
  case (Cons s ss)
  let ?n = "length (string_list (s # ss))"
  have s: "s \<noteq> []" "0 \<notin> set s" and ss: "plain_strings ss" and n: "?n < 2147483648"
    using Cons.prems by (simp_all add: plain_strings_def string_list_Cons(2))
  have size: "nat (int ?n mod 18446744073709551616) = ?n" using n by (simp add: nat_mod_distrib)
  have "length s < ?n" by (simp add: string_list_Cons(2))
  then obtain c where c: "strncmp sg (string_list (s # ss) @ rest) (w @ 0 # r) ?n = Ok c" "c = 0 \<longleftrightarrow> s = w"
    using strncmp_cstr [OF s(2) assms, of ?n sg "string_list ss @ rest" r] unfolding string_list_Cons(1) by blast
  have l: "strlen (Some (string_list (s # ss) @ rest)) = Ok (length s)"
    unfolding string_list_Cons(1) by (rule strlen_terminated [OF s(2)])
  have h: "rd (string_list (s # ss) @ rest) 0 = Some (hd s)" "hd s \<noteq> 0"
    using s by (cases s; auto simp: rd_def string_list_Cons(1))+
  have d: "drop (length s + 1) (string_list (s # ss) @ rest) = string_list ss @ rest"
    "int ?n - (int (length s) + 1) = int (length (string_list ss))" "int ?n \<noteq> 0"
    unfolding string_list_Cons by simp_all
  show ?case
    by (subst check_compat_loop.simps, unfold h(1) size c(1) l d(1,2) of_opt.simps andthen.simps)
      (use c(2) h(2) d(3) Cons.IH [OF ss] in simp)
qed

lemma print_compat_eq: "plain_strings ss \<Longrightarrow> print_compat (string_list ss @ rest) (int (length (string_list ss))) = Ok ()"
proof (induction ss)
  case Nil
  then show ?case by (simp add: print_compat.simps string_list_def)
next
  case (Cons s ss)
  let ?n = "length (string_list (s # ss))"
  have s: "s \<noteq> []" "0 \<notin> set s" and ss: "plain_strings ss"
    using Cons.prems by (simp_all add: plain_strings_def string_list_Cons(2))
  have l: "strlen (Some (string_list (s # ss) @ rest)) = Ok (length s)"
    unfolding string_list_Cons(1) by (rule strlen_terminated [OF s(2)])
  have h: "rd (string_list (s # ss) @ rest) 0 = Some (hd s)" "hd s \<noteq> 0"
    using s by (cases s; auto simp: rd_def string_list_Cons(1))+
  have d: "drop (length s + 1) (string_list (s # ss) @ rest) = string_list ss @ rest"
    "int ?n - (int (length s) + 1) = int (length (string_list ss))" "int ?n \<noteq> 0"
    unfolding string_list_Cons by simp_all
  show ?case
    by (subst print_compat.simps, unfold h(1) l d(1,2) of_opt.simps andthen.simps)
      (use h(2) d(3) Cons.IH [OF ss] in simp)
qed

lemma str_eq_text:
  assumes "0 \<notin> set (str lit)" and "cstr s \<noteq> None"
  shows "str_eq sg lit s = Ok (text_of s = str lit)"
proof -
  have "text_of (str lit @ [0]) = str lit" "cstr (str lit @ [0]) \<noteq> None"
    using text_of_literal [OF assms(1)] by blast+
  then obtain r where "strcmp sg (str lit @ [0]) s = Ok r" "r = 0 \<longleftrightarrow> str lit = text_of s"
    using strcmp_cstr [OF _ assms(2)] by metis
  then show ?thesis by (auto simp: str_eq_def)
qed

lemma compat_prop_eq:
  "unflatten_props b off = Ok (ps, e) \<Longrightarrow> list_all (\<lambda>p. cstr (fp_name p) \<noteq> None) ps \<Longrightarrow>
     compat_prop sg b off = Ok (List.find (\<lambda>p. text_of (fp_name p) = str ''compatible'') ps)"
proof (induction b off arbitrary: ps rule: unflatten_props.induct)
  case (1 b off)
  have lit: "0 \<notin> set (str ''compatible'')" by (simp add: str_def)
  from "1.prems"(1) obtain r where r: "fdt_next_property b off = Ok r"
    by (auto simp: unflatten_props.simps [of b off] andthen_Ok_iff)
  show ?case
  proof (cases r)
    case None
    with r "1.prems"(1) have "ps = []" by (simp add: unflatten_props.simps [of b off])
    with r None show ?thesis by (simp add: compat_prop.simps [of sg b off])
  next
    case (Some np)
    obtain n p where np: "np = (n, p)" by (cases np)
    with "1.prems"(1) r Some obtain off' ps' where o: "advance off n = Ok off'" "unflatten_props b off' = Ok (ps', e)" "ps = p # ps'"
      by (auto simp: unflatten_props.simps [of b off] andthen_Ok_iff map_res_Ok_iff)
    have "str_eq sg ''compatible'' (fp_name p) = Ok (text_of (fp_name p) = str ''compatible'')"
      using str_eq_text [OF lit, of "fp_name p"] "1.prems"(2) o(3) by simp
    with r Some np o "1.prems"(2) "1.IH" [OF r Some np [symmetric] o(1) o(2)] show ?thesis
      by (simp add: compat_prop.simps [of sg b off])
  qed
qed

subsection \<open>The choice\<close>

fun split_strings :: "bytes \<Rightarrow> bytes list" where
  "split_strings [] = []"
| "split_strings (c # cs) =
     (if c = 0 then [] # split_strings cs
      else case split_strings cs of [] \<Rightarrow> [[c]] | s # ss \<Rightarrow> (c # s) # ss)"

definition compat_strings :: "fdt_property \<Rightarrow> bytes list" where
  "compat_strings p = split_strings (take (unat (fp_size p)) (fp_data p))"

definition compat_ok :: "fdt_property \<Rightarrow> bool" where
  "compat_ok p \<longleftrightarrow> plain_strings (compat_strings p) \<and>
     string_list (compat_strings p) = take (unat (fp_size p)) (fp_data p) \<and> unat (fp_size p) \<le> length (fp_data p)"

lemma sint_small_u32: "unat w < 2147483648 \<Longrightarrow> sint w = int (unat w)" for w :: u32
proof -
  assume w: "unat w < 2147483648"
  have "unat (ucast w :: u64) = unat w" "(ucast (ucast w :: u64) :: u32) = w"
    by (simp_all add: unsigned_ucast_eq take_bit_word_eq_self)
  with w show ?thesis using as_int_small [of "ucast w"] by (simp add: as_int_def)
qed

lemma compat_ok_parts:
  assumes "compat_ok p"
  shows "fp_data p = string_list (compat_strings p) @ drop (unat (fp_size p)) (fp_data p)"
    and "sint (fp_size p) = int (length (string_list (compat_strings p)))"
proof -
  show "fp_data p = string_list (compat_strings p) @ drop (unat (fp_size p)) (fp_data p)"
    using assms by (simp add: compat_ok_def)
  have "length (string_list (compat_strings p)) = unat (fp_size p)" "unat (fp_size p) < 2147483648"
    using assms by (auto simp: compat_ok_def plain_strings_def min_def split: if_splits)
  then show "sint (fp_size p) = int (length (string_list (compat_strings p)))"
    by (simp add: sint_small_u32)
qed

text \<open>The root of a device tree blob has readable properties, and this compatible property.\<close>

definition blob_compat :: "bytes \<Rightarrow> fdt_property option \<Rightarrow> bool" where
  "blob_compat blob c \<longleftrightarrow> (\<exists>tree root. fdt_unflatten blob = Ok tree \<and> dt_root tree = Some root \<and> named_props root \<and>
     c = List.find (\<lambda>p. text_of (fp_name p) = str ''compatible'') (dn_props root))"

lemma blob_compat_find:
  assumes "blob_compat blob c"
  shows "\<exists>off. structure_offset blob = Ok off \<and> fdt_find_compat sg blob off = Ok c"
proof -
  obtain tree root where t: "fdt_unflatten blob = Ok tree" "dt_root tree = Some root" "named_props root"
    "c = List.find (\<lambda>p. text_of (fp_name p) = str ''compatible'') (dn_props root)"
    using assms by (auto simp: blob_compat_def)
  from t(1,2) obtain off n where off: "structure_offset blob = Ok off" "fdt_unflatten_node blob (unat off) = Ok (n, Some root)"
    by (auto simp: fdt_unflatten_def andthen_Ok_iff Let_def)
  from off(2) obtain m name start e where p: "fdt_node_name blob (unat off) = Ok (Some (m, name))"
    "advance (unat off) m = Ok start" "unflatten_props blob start = Ok (dn_props root, e)"
    by (auto simp: fdt_unflatten_node.simps [of blob "unat off"] andthen_Ok_iff map_res_Ok_iff split: option.splits)
  have "compat_prop sg blob start = Ok c"
    using compat_prop_eq [OF p(3)] t(3,4) by (simp add: named_props_def)
  moreover have "as_c_int (unat off) = Ok (unat off)" using p(2) by (simp add: advance_Ok_iff as_c_int_def)
  ultimately show ?thesis using off(1) p(1,2) by (simp add: fdt_find_compat_def)
qed

lemma rank_config_eq:
  assumes "im_data im = Some blob" and c: "blob_compat blob c" and ok: "\<And>p. c = Some p \<Longrightarrow> compat_ok p"
    and w: "0 \<notin> set w"
  shows "rank_config sg (w @ 0 # r) im cf = Ok (cf\<lparr>cf_compat := c,
    cf_compat_rank := (case c of None \<Rightarrow> - 1 | Some p \<Rightarrow> position 0 w (compat_strings p))\<rparr>)"
proof -
  obtain off where off: "structure_offset blob = Ok off" "fdt_find_compat sg blob off = Ok c"
    using blob_compat_find [OF c] by blast
  show ?thesis
  proof (cases c)
    case None
    with off assms(1) show ?thesis by (simp add: rank_config_def)
  next
    case (Some p)
    note parts = compat_ok_parts [OF ok [OF Some]]
    have "fit_check_compat sg p (w @ 0 # r) = Ok (position 0 w (compat_strings p))"
      unfolding fit_check_compat_def parts(2) by (subst parts(1), rule check_compat_loop_eq [OF w])
        (use ok [OF Some] in \<open>simp add: compat_ok_def\<close>)
    with off assms(1) Some show ?thesis by (simp add: rank_config_def)
  qed
qed

text \<open>Which image a name finds, which configurations can be booted, and what is learnt about them.\<close>

definition image_of :: "fit_image_node list \<Rightarrow> bytes \<Rightarrow> fit_image_node option" where
  "image_of ims name = List.find (\<lambda>im. text_of (im_name im) = text_of name) ims"

definition image_opt :: "fit_image_node list \<Rightarrow> bytes option \<Rightarrow> fit_image_node option" where
  "image_opt ims name = (case name of None \<Rightarrow> None | Some n \<Rightarrow> image_of ims n)"

definition bootable :: "fit_image_node list \<Rightarrow> fit_config_node \<Rightarrow> bool" where
  "bootable ims cf \<longleftrightarrow> image_opt ims (cf_kernel cf) \<noteq> None \<and>
     (cf_fdt cf = None \<or> (\<exists>im. image_opt ims (cf_fdt cf) = Some im \<and> im_compression im = CompressionNone))"

definition settle :: "fit_image_node list \<Rightarrow> (bytes \<Rightarrow> fdt_property option) \<Rightarrow> bytes \<Rightarrow> fit_config_node \<Rightarrow> fit_config_node" where
  "settle ims compat_of w cf =
     (let cf = cf\<lparr>cf_kernel_node := image_opt ims (cf_kernel cf), cf_fdt_node := image_opt ims (cf_fdt cf),
        cf_ramdisk_node := image_opt ims (cf_ramdisk cf)\<rparr> in
      case cf_fdt_node cf of None \<Rightarrow> cf
      | Some im \<Rightarrow> (let c = (case im_data im of None \<Rightarrow> None | Some blob \<Rightarrow> compat_of blob) in
          cf\<lparr>cf_compat := c,
            cf_compat_rank := (case c of None \<Rightarrow> - 1 | Some p \<Rightarrow> position 0 w (compat_strings p))\<rparr>))"

text \<open>What the FIT must be for the search to make sense.\<close>

definition config_ok :: "fit_image_node list \<Rightarrow> (bytes \<Rightarrow> fdt_property option) \<Rightarrow> fit_config_node \<Rightarrow> bool" where
  "config_ok ims compat_of cf \<longleftrightarrow> cf = (new_config (cf_name cf))\<lparr>cf_kernel := cf_kernel cf, cf_fdt := cf_fdt cf, cf_ramdisk := cf_ramdisk cf\<rparr> \<and>
     cstr (cf_name cf) \<noteq> None \<and> (\<forall>s \<in> {cf_kernel cf, cf_fdt cf, cf_ramdisk cf}. \<forall>n. s = Some n \<longrightarrow> cstr n \<noteq> None) \<and>
     (\<forall>im. image_opt ims (cf_fdt cf) = Some im \<and> im_compression im = CompressionNone \<longrightarrow>
       (\<exists>blob. im_data im = Some blob \<and> blob_compat blob (compat_of blob) \<and> (\<forall>p. compat_of blob = Some p \<longrightarrow> compat_ok p)))"

lemma find_image_eq:
  "\<forall>im \<in> set ims. cstr (im_name im) \<noteq> None \<Longrightarrow> cstr n \<noteq> None \<Longrightarrow> find_image sg ims n = Ok (image_of ims n)"
proof (induction ims)
  case (Cons im ims)
  then obtain r where "strcmp sg (im_name im) n = Ok r" "r = 0 \<longleftrightarrow> text_of (im_name im) = text_of n"
    using strcmp_cstr [of "im_name im" n sg] by auto
  with Cons show ?case by (simp add: image_of_def)
qed (simp add: image_of_def)

lemma image_opt_simps [simp]: "image_opt ims None = None" "image_opt ims (Some n) = image_of ims n"
  by (simp_all add: image_opt_def)

lemma find_opt_eq:
  assumes "\<forall>im \<in> set ims. cstr (im_name im) \<noteq> None" and "\<forall>n. name = Some n \<longrightarrow> cstr n \<noteq> None"
  shows "find_opt sg ims name None = Ok (image_opt ims name)"
  using assms find_image_eq [OF assms(1)] by (cases name) (auto simp: find_opt_def image_opt_def)

lemma config_ok_fields:
  "config_ok ims compat_of cf \<Longrightarrow> cf_kernel_node cf = None \<and> cf_fdt_node cf = None \<and> cf_ramdisk_node cf = None \<and>
     cf_compat cf = None \<and> cf_compat_rank cf = 0"
  by (cases cf) (simp add: config_ok_def new_config_def)

lemma examine_config_eq:
  assumes ims: "\<forall>im \<in> set ims. cstr (im_name im) \<noteq> None" and cf: "config_ok ims compat_of cf" and w: "0 \<notin> set w"
  shows "examine_config sg ims (w @ 0 # r) cf =
    Ok (if bootable ims cf then Some (settle ims compat_of w cf) else None)"
proof -
  note fields = config_ok_fields [OF cf]
  have f: "find_opt sg ims (cf_kernel cf) None = Ok (image_opt ims (cf_kernel cf))"
    "find_opt sg ims (cf_fdt cf) None = Ok (image_opt ims (cf_fdt cf))"
    "find_opt sg ims (cf_ramdisk cf) None = Ok (image_opt ims (cf_ramdisk cf))"
    by (rule find_opt_eq [OF ims]; use cf in \<open>simp add: config_ok_def\<close>)+
  show ?thesis
  proof (cases "image_opt ims (cf_fdt cf)")
    case None
    with f fields show ?thesis by (auto simp: examine_config_def settle_def bootable_def Let_def)
  next
    case (Some im)
    show ?thesis
    proof (cases "im_compression im = CompressionNone")
      case True
      with cf Some obtain blob where b: "im_data im = Some blob" "blob_compat blob (compat_of blob)"
        "\<And>p. compat_of blob = Some p \<Longrightarrow> compat_ok p"
        by (auto simp: config_ok_def)
      with f fields Some True show ?thesis
        by (auto simp: examine_config_def settle_def bootable_def Let_def rank_config_eq [OF b(1-3) w])
    next
      case False
      with f fields Some show ?thesis by (auto simp: examine_config_def bootable_def Let_def)
    qed
  qed
qed

definition ranked :: "fit_config_node \<Rightarrow> bool" where
  "ranked cf \<longleftrightarrow> cf_compat cf \<noteq> None \<and> 0 \<le> cf_compat_rank cf"

definition named_default :: "bytes option \<Rightarrow> fit_config_node \<Rightarrow> bool" where
  "named_default dflt cf \<longleftrightarrow> (case dflt of None \<Rightarrow> False | Some n \<Rightarrow> text_of (cf_name cf) = text_of n)"

definition pick_best :: "fit_config_node option \<Rightarrow> fit_config_node \<Rightarrow> fit_config_node option" where
  "pick_best best cf =
     (if ranked cf \<and> (\<forall>b. best = Some b \<longrightarrow> cf_compat_rank b < cf_compat_rank cf) then Some cf else best)"

definition pick_default :: "bytes option \<Rightarrow> fit_config_node option \<Rightarrow> fit_config_node \<Rightarrow> fit_config_node option" where
  "pick_default dflt d cf = (if named_default dflt cf then Some cf else d)"

definition candidates ::
  "fit_image_node list \<Rightarrow> (bytes \<Rightarrow> fdt_property option) \<Rightarrow> bytes \<Rightarrow> fit_config_node list \<Rightarrow> fit_config_node list" where
  "candidates ims compat_of w cfs = map (settle ims compat_of w) (filter (bootable ims) cfs)"

text \<open>The first configuration of the highest rank, and the last one with the default's name.\<close>

definition first_best :: "fit_config_node list \<Rightarrow> fit_config_node \<Rightarrow> bool" where
  "first_best cfs c \<longleftrightarrow> (\<exists>pre post. cfs = pre @ c # post \<and> ranked c \<and>
     (\<forall>x \<in> set pre. ranked x \<longrightarrow> cf_compat_rank x < cf_compat_rank c) \<and>
     (\<forall>x \<in> set post. ranked x \<longrightarrow> cf_compat_rank x \<le> cf_compat_rank c))"

definition last_default :: "bytes option \<Rightarrow> fit_config_node list \<Rightarrow> fit_config_node \<Rightarrow> bool" where
  "last_default dflt cfs c \<longleftrightarrow> (\<exists>pre post. cfs = pre @ c # post \<and> named_default dflt c \<and>
     (\<forall>x \<in> set post. \<not> named_default dflt x))"

lemma pick_best_simps:
  "pick_best None x = (if ranked x then Some x else None)"
  "pick_best (Some c) x = (if ranked x \<and> cf_compat_rank c < cf_compat_rank x then Some x else Some c)"
  by (simp_all add: pick_best_def)

lemma foldl_pick_best:
  "case foldl pick_best None cfs of None \<Rightarrow> \<forall>x \<in> set cfs. \<not> ranked x | Some c \<Rightarrow> first_best cfs c"
proof (induction cfs rule: rev_induct)
  case (snoc x cfs)
  show ?case
  proof (cases "foldl pick_best None cfs")
    case None
    with snoc have "\<forall>y \<in> set cfs. \<not> ranked y" by simp
    moreover from this have "ranked x \<Longrightarrow> first_best (cfs @ [x]) x"
      unfolding first_best_def by (intro exI [of _ cfs] exI [of _ "[]"]) auto
    ultimately show ?thesis using None by (simp add: pick_best_simps)
  next
    case (Some c)
    with snoc have c: "first_best cfs c" by simp
    then obtain pre post where p: "cfs = pre @ c # post" "ranked c"
      "\<forall>x \<in> set pre. ranked x \<longrightarrow> cf_compat_rank x < cf_compat_rank c"
      "\<forall>x \<in> set post. ranked x \<longrightarrow> cf_compat_rank x \<le> cf_compat_rank c" by (auto simp: first_best_def)
    show ?thesis
    proof (cases "ranked x \<and> cf_compat_rank c < cf_compat_rank x")
      case True
      with p have "first_best (cfs @ [x]) x" unfolding first_best_def
        by (intro exI [of _ cfs] exI [of _ "[]"]) fastforce
      with Some True show ?thesis by (simp add: pick_best_simps)
    next
      case False
      with p have "first_best (cfs @ [x]) c" unfolding first_best_def
        by (intro exI [of _ pre] exI [of _ "post @ [x]"]) auto
      with Some False show ?thesis by (auto simp: pick_best_simps)
    qed
  qed
qed simp

lemma foldl_pick_default:
  "case foldl (pick_default dflt) None cfs of None \<Rightarrow> \<forall>x \<in> set cfs. \<not> named_default dflt x
   | Some c \<Rightarrow> last_default dflt cfs c"
proof (induction cfs rule: rev_induct)
  case (snoc x cfs)
  show ?case
  proof (cases "named_default dflt x")
    case True
    then show ?thesis by (auto simp: pick_default_def last_default_def intro: exI [of _ cfs])
  next
    case False
    have "last_default dflt (cfs @ [x]) c" if "last_default dflt cfs c" for c
    proof -
      from that obtain pre post where "cfs = pre @ c # post" "named_default dflt c" "\<forall>x \<in> set post. \<not> named_default dflt x"
        by (auto simp: last_default_def)
      with False show ?thesis unfolding last_default_def by (intro exI [of _ pre] exI [of _ "post @ [x]"]) auto
    qed
    with snoc False show ?thesis by (auto simp: pick_default_def split: option.splits)
  qed
qed simp

lemma position_range: "0 \<le> k \<Longrightarrow> position k w ss = - 1 \<or> k \<le> position k w ss"
  by (induction k w ss rule: position.induct) auto

text \<open>What is learnt about a configuration that can be booted.\<close>

lemma settle_compat:
  assumes cf: "config_ok ims compat_of cf" and b: "bootable ims cf" and p: "cf_compat (settle ims compat_of w cf) = Some p"
  shows "compat_ok p \<and> cf_compat_rank (settle ims compat_of w cf) = position 0 w (compat_strings p)"
proof (cases "image_opt ims (cf_fdt cf)")
  case None
  with p config_ok_fields [OF cf] show ?thesis by (simp add: settle_def Let_def)
next
  case (Some im)
  with b have "im_compression im = CompressionNone" by (auto simp: bootable_def)
  with cf Some obtain blob where "im_data im = Some blob" "\<And>p. compat_of blob = Some p \<Longrightarrow> compat_ok p"
    unfolding config_ok_def by blast
  with p Some show ?thesis by (simp add: settle_def Let_def)
qed

lemma settle_name: "cf_name (settle ims compat_of w cf) = cf_name cf"
  by (simp add: settle_def Let_def split: option.split)

lemma better_compat_eq:
  assumes cf: "config_ok ims compat_of cf" "bootable ims cf" and best: "\<And>b. best = Some b \<Longrightarrow> 0 \<le> cf_compat_rank b"
  shows "better_compat best (settle ims compat_of w cf) = Ok (pick_best best (settle ims compat_of w cf))"
proof (cases "cf_compat (settle ims compat_of w cf)")
  case None
  then show ?thesis by (simp add: better_compat_def pick_best_def ranked_def)
next
  case (Some p)
  from settle_compat [OF cf Some] have p: "compat_ok p"
    "cf_compat_rank (settle ims compat_of w cf) = position 0 w (compat_strings p)" by simp_all
  note parts = compat_ok_parts [OF p(1)]
  have "print_compat (fp_data p) (sint (fp_size p)) = Ok ()"
    unfolding parts(2) by (subst parts(1), rule print_compat_eq) (use p(1) in \<open>simp add: compat_ok_def\<close>)
  with Some best position_range [of 0 w "compat_strings p"] p(2) show ?thesis
    by (cases best) (force simp: better_compat_def pick_best_def ranked_def)+
qed

lemma process_configs_eq:
  assumes ims: "\<forall>im \<in> set ims. cstr (im_name im) \<noteq> None" and w: "0 \<notin> set w"
    and dflt: "\<forall>n. dflt = Some n \<longrightarrow> cstr n \<noteq> None"
  shows "\<forall>cf \<in> set cfs. config_ok ims compat_of cf \<Longrightarrow> \<forall>b. best = Some b \<longrightarrow> 0 \<le> cf_compat_rank b \<Longrightarrow>
    process_configs sg ims (w @ 0 # r) dflt cfs (d, best) =
      Ok (candidates ims compat_of w cfs, foldl (pick_default dflt) d (candidates ims compat_of w cfs),
          foldl pick_best best (candidates ims compat_of w cfs))"
proof (induction cfs arbitrary: d best)
  case (Cons cf cfs)
  have cf: "config_ok ims compat_of cf" using Cons.prems by simp
  note ex = examine_config_eq [OF ims cf w, of sg r]
  show ?case
  proof (cases "bootable ims cf")
    case False
    with Cons ex show ?thesis by (simp add: candidates_def)
  next
    case True
    let ?c = "settle ims compat_of w cf"
    have "is_default sg dflt ?c = Ok (named_default dflt ?c)"
      using strcmp_cstr [of "cf_name cf" _ sg] cf dflt
      by (cases dflt) (fastforce simp: is_default_def named_default_def settle_name config_ok_def)+
    moreover have "better_compat best ?c = Ok (pick_best best ?c)"
      using better_compat_eq [OF cf True] Cons.prems(2) by blast
    moreover have "\<forall>b. pick_best best ?c = Some b \<longrightarrow> 0 \<le> cf_compat_rank b"
      using Cons.prems(2) by (auto simp: pick_best_def ranked_def)
    ultimately show ?thesis
      using Cons ex True by (simp add: candidates_def pick_default_def)
  qed
qed (simp add: candidates_def)

lemma first_bestD: "first_best cs c \<Longrightarrow> c \<in> set cs \<and> ranked c"
  by (auto simp: first_best_def)

lemma last_defaultD: "last_default dflt cs c \<Longrightarrow> c \<in> set cs \<and> named_default dflt c"
  by (auto simp: last_default_def)

text \<open>
  C16. Loading a FIT picks, among the configurations whose kernel is there and whose device tree
  is there and not compressed, the first one whose device tree has the board's compatible
  string at the greatest position of its list; if no device tree has it, the last
  configuration with the default's name; if there is none, it fails.  It returns the kernel of
  the configuration chosen, and the kernel's device tree prepared for booting.
\<close>

theorem fit_load_boots_best:
  assumes fit: "fdt_word fit 0 = Ok FdtMagic" "fdt_unflatten fit = Ok tree" "fit_unpack sg tree st = Ok (dflt, st1)"
    and w: "fit_kernel_compat st1 = Some (w @ 0 # r)" "0 \<notin> set w"
    and ims: "\<forall>im \<in> set (image_nodes st1). cstr (im_name im) \<noteq> None"
    and cfs: "\<forall>cf \<in> set (config_nodes st1). config_ok (image_nodes st1) compat_of cf"
    and dflt: "\<forall>n. dflt = Some n \<longrightarrow> cstr n \<noteq> None"
  shows "let cands = candidates (image_nodes st1) compat_of w (config_nodes st1);
      load = fit_load sg mem fresh board board_id e820 base fit cmd_line dt st in
    if \<exists>c \<in> set cands. ranked c \<or> named_default dflt c
    then \<exists>c im. (first_best cands c \<or> (\<forall>x \<in> set cands. \<not> ranked x) \<and> last_default dflt cands c) \<and>
      cf_kernel_node c = Some im \<and>
      load = (case cf_fdt_node c of None \<Rightarrow> Ok (im, dt, st1\<lparr>config_nodes := cands\<rparr>)
        | Some f \<Rightarrow> map_res (\<lambda>t. (im, Some t, st1\<lparr>config_nodes := cands\<rparr>))
            (prepare_kernel_tree sg mem fresh e820 base fit cmd_line c f))
    else load = Err"
proof -
  define cands where "cands = candidates (image_nodes st1) compat_of w (config_nodes st1)"
  define d where "d = foldl (pick_default dflt) None cands"
  define best where "best = foldl pick_best None cands"
  have proc: "process_configs sg (image_nodes st1) (w @ 0 # r) dflt (config_nodes st1) (None, None) = Ok (cands, d, best)"
    using process_configs_eq [OF ims w(2) dflt cfs, where best = None and d = None and sg = sg and r = r] by (simp add: cands_def d_def best_def)
  have load: "fit_load sg mem fresh board board_id e820 base fit cmd_line dt st =
      (case choose_config d best of None \<Rightarrow> Err
       | Some c \<Rightarrow> andthen (case cf_fdt_node c of None \<Rightarrow> Ok dt
             | Some im \<Rightarrow> map_res Some (prepare_kernel_tree sg mem fresh e820 base fit cmd_line c im)) (\<lambda>dt.
           case cf_kernel_node c of None \<Rightarrow> Err | Some im \<Rightarrow> Ok (im, dt, st1\<lparr>config_nodes := cands\<rparr>)))"
    unfolding fit_load_def by (simp add: fit w(1) proc Let_def)
  have kernel: "\<exists>im. cf_kernel_node c = Some im" if "c \<in> set cands" for c
    using that by (auto simp: cands_def candidates_def settle_def bootable_def Let_def split: option.split)
  have chosen: "case choose_config d best of None \<Rightarrow> \<forall>x \<in> set cands. \<not> ranked x \<and> \<not> named_default dflt x
      | Some c \<Rightarrow> c \<in> set cands \<and> (ranked c \<or> named_default dflt c) \<and>
          (first_best cands c \<or> (\<forall>x \<in> set cands. \<not> ranked x) \<and> last_default dflt cands c)"
    using foldl_pick_best [of cands] foldl_pick_default [where dflt = dflt and cfs = cands] unfolding d_def [symmetric] best_def [symmetric]
    by (cases best; cases d) (auto simp: choose_config_def dest: first_bestD last_defaultD)
  show ?thesis
  proof (cases "choose_config d best")
    case None
    with chosen load show ?thesis unfolding cands_def [symmetric] by (simp add: Let_def)
  next
    case (Some c)
    with chosen kernel [of c] obtain im where "cf_kernel_node c = Some im" "c \<in> set cands"
      "ranked c \<or> named_default dflt c"
      "first_best cands c \<or> (\<forall>x \<in> set cands. \<not> ranked x) \<and> last_default dflt cands c" by auto
    moreover have "andthen (map_res Some r) (\<lambda>dt. Ok (im, dt, s)) = map_res (\<lambda>t. (im, Some t, s)) r"
      for r :: "dt_tree res" and s :: fit_state by (cases r) simp_all
    ultimately show ?thesis using Some load unfolding cands_def [symmetric]
      by (auto simp: Let_def intro!: exI [of _ c] split: option.split)
  qed
qed

end
