(* ===== verification/FitSample.thy ===== *)
theory FitSample
  imports Fit
begin

text \<open>
  A small FIT, byte by byte, with one kernel and one configuration, read by the model of the
  code: the concrete input of the property of \<open>fit_load\<close>.
\<close>

text \<open>One kernel \<open>k\<close> and one configuration \<open>c\<close>, the default, without a device tree.\<close>

definition sample_fit :: bytes where
  "sample_fit = [208, 13, 254, 237, 0, 0, 0, 0, 0, 0, 0, 56, 0, 0, 0, 184, 0, 0, 0, 40, 0, 0, 0, 17, 0, 0, 0, 16, 0,
     0, 0, 0, 0, 0, 0, 20, 0, 0, 0, 128, 0, 0, 0, 0, 0, 0, 0, 0, 0, 0, 0, 0, 0, 0, 0, 0, 0, 0, 0, 1, 0,
     0, 0, 0, 0, 0, 0, 1, 105, 109, 97, 103, 101, 115, 0, 0, 0, 0, 0, 1, 107, 0, 0, 0, 0, 0, 0, 3, 0, 0,
     0, 1, 0, 0, 0, 0, 127, 0, 0, 0, 0, 0, 0, 2, 0, 0, 0, 2, 0, 0, 0, 1, 99, 111, 110, 102, 105, 103,
     117, 114, 97, 116, 105, 111, 110, 115, 0, 0, 0, 0, 0, 3, 0, 0, 0, 2, 0, 0, 0, 12, 99, 0, 0, 0, 0, 0,
     0, 1, 99, 0, 0, 0, 0, 0, 0, 3, 0, 0, 0, 2, 0, 0, 0, 5, 107, 0, 0, 0, 0, 0, 0, 2, 0, 0, 0, 2, 0, 0,
     0, 2, 0, 0, 0, 9, 100, 97, 116, 97, 0, 107, 101, 114, 110, 101, 108, 0, 100, 101, 102, 97, 117, 108,
     116, 0]"

lemma sample_words:
  "fdt_word sample_fit 0 = Ok FdtMagic" "fdt_word sample_fit 8 = Ok 56"
  "fdt_word sample_fit 12 = Ok 184" "fdt_word sample_fit 16 = Ok 40"
  "fdt_word sample_fit 56 = Ok 1" "fdt_word sample_fit 64 = Ok 1" "fdt_word sample_fit 76 = Ok 1"
  "fdt_word sample_fit 84 = Ok 3" "fdt_word sample_fit 88 = Ok 1" "fdt_word sample_fit 92 = Ok 0"
  "fdt_word sample_fit 100 = Ok 2" "fdt_word sample_fit 104 = Ok 2" "fdt_word sample_fit 108 = Ok 1"
  "fdt_word sample_fit 128 = Ok 3" "fdt_word sample_fit 132 = Ok 2" "fdt_word sample_fit 136 = Ok 12"
  "fdt_word sample_fit 144 = Ok 1" "fdt_word sample_fit 152 = Ok 3" "fdt_word sample_fit 156 = Ok 2"
  "fdt_word sample_fit 160 = Ok 5" "fdt_word sample_fit 168 = Ok 2" "fdt_word sample_fit 172 = Ok 2"
  "fdt_word sample_fit 176 = Ok 2"
  by (simp_all add: sample_fit_def fdt_word_def slice_def be32_def be_val_def FdtMagic_def)

lemma sample_names:
  "strlen (Some (drop 60 sample_fit)) = Ok 0" "strlen (Some (drop 68 sample_fit)) = Ok 6"
  "strlen (Some (drop 80 sample_fit)) = Ok 1" "strlen (Some (drop 112 sample_fit)) = Ok 14"
  "strlen (Some (drop 148 sample_fit)) = Ok 1" "strlen (Some (drop 184 sample_fit)) = Ok 4"
  "strlen (Some (drop 189 sample_fit)) = Ok 6" "strlen (Some (drop 196 sample_fit)) = Ok 7"
  by (simp_all add: sample_fit_def strlen_def)

definition sample_prop :: "nat \<Rightarrow> nat \<Rightarrow> u32 \<Rightarrow> fdt_property" where
  "sample_prop name dat n = \<lparr>fp_name = drop name sample_fit, fp_data = drop dat sample_fit, fp_size = n\<rparr>"

lemma sample_next:
  "fdt_next_property sample_fit 84 = Ok (Some (16, sample_prop 184 96 1))"
  "fdt_next_property sample_fit 128 = Ok (Some (16, sample_prop 196 140 2))"
  "fdt_next_property sample_fit 152 = Ok (Some (16, sample_prop 189 164 2))"
  "fdt_next_property sample_fit 64 = Ok None" "fdt_next_property sample_fit 76 = Ok None"
  "fdt_next_property sample_fit 100 = Ok None" "fdt_next_property sample_fit 144 = Ok None"
  "fdt_next_property sample_fit 168 = Ok None"
  by (simp_all add: fdt_next_property_def sample_words TokenProperty_def strings_offset_def as_c_int_def
      size32_def sample_prop_def)

lemma sample_node_names:
  "fdt_node_name sample_fit 56 = Ok (Some (8, drop 60 sample_fit))"
  "fdt_node_name sample_fit 64 = Ok (Some (12, drop 68 sample_fit))"
  "fdt_node_name sample_fit 76 = Ok (Some (8, drop 80 sample_fit))"
  "fdt_node_name sample_fit 108 = Ok (Some (20, drop 112 sample_fit))"
  "fdt_node_name sample_fit 144 = Ok (Some (8, drop 148 sample_fit))"
  "fdt_node_name sample_fit 100 = Ok None" "fdt_node_name sample_fit 104 = Ok None"
  "fdt_node_name sample_fit 168 = Ok None" "fdt_node_name sample_fit 172 = Ok None"
  "fdt_node_name sample_fit 176 = Ok None"
  by (simp_all add: fdt_node_name_def sample_words sample_names TokenBeginNode_def as_c_int_def size32_def)

lemma sample_no_props:
  "unflatten_props sample_fit 64 = Ok ([], 64)" "unflatten_props sample_fit 76 = Ok ([], 76)"
  "unflatten_props sample_fit 100 = Ok ([], 100)" "unflatten_props sample_fit 144 = Ok ([], 144)"
  "unflatten_props sample_fit 168 = Ok ([], 168)"
  by (subst unflatten_props.simps, simp add: sample_next)+

lemma sample_props:
  "unflatten_props sample_fit 84 = Ok ([sample_prop 184 96 1], 100)"
  "unflatten_props sample_fit 128 = Ok ([sample_prop 196 140 2], 144)"
  "unflatten_props sample_fit 152 = Ok ([sample_prop 189 164 2], 168)"
  by (subst unflatten_props.simps, simp add: sample_next sample_no_props advance_def as_c_int_def)+

definition sample_image :: dt_node where
  "sample_image = DtNode (drop 80 sample_fit) [sample_prop 184 96 1] []"

definition sample_config :: dt_node where
  "sample_config = DtNode (drop 148 sample_fit) [sample_prop 189 164 2] []"

lemma sample_no_node:
  "fdt_unflatten_node sample_fit 100 = Ok (0, None)" "fdt_unflatten_node sample_fit 104 = Ok (0, None)"
  "fdt_unflatten_node sample_fit 168 = Ok (0, None)" "fdt_unflatten_node sample_fit 172 = Ok (0, None)"
  "fdt_unflatten_node sample_fit 176 = Ok (0, None)"
  by (subst fdt_unflatten_node.simps, simp add: sample_node_names)+

lemma sample_no_children:
  "unflatten_children sample_fit 100 = Ok ([], 100)" "unflatten_children sample_fit 104 = Ok ([], 104)"
  "unflatten_children sample_fit 168 = Ok ([], 168)" "unflatten_children sample_fit 172 = Ok ([], 172)"
  "unflatten_children sample_fit 176 = Ok ([], 176)"
  by (subst unflatten_children.simps, simp add: sample_no_node)+

lemma sample_leaves:
  "fdt_unflatten_node sample_fit 76 = Ok (28, Some sample_image)"
  "fdt_unflatten_node sample_fit 144 = Ok (28, Some sample_config)"
  by (subst fdt_unflatten_node.simps, simp add: sample_node_names sample_props sample_no_children
      advance_def as_c_int_def sample_image_def sample_config_def)+

lemma sample_children:
  "unflatten_children sample_fit 76 = Ok ([sample_image], 104)"
  "unflatten_children sample_fit 144 = Ok ([sample_config], 172)"
  by (subst unflatten_children.simps, simp add: sample_leaves sample_no_children advance_def as_c_int_def)+

definition sample_images :: dt_node where
  "sample_images = DtNode (drop 68 sample_fit) [] [sample_image]"

definition sample_configs :: dt_node where
  "sample_configs = DtNode (drop 112 sample_fit) [sample_prop 196 140 2] [sample_config]"

lemma sample_tops:
  "fdt_unflatten_node sample_fit 64 = Ok (44, Some sample_images)"
  "fdt_unflatten_node sample_fit 108 = Ok (68, Some sample_configs)"
  by (subst fdt_unflatten_node.simps,
      simp add: sample_node_names sample_props sample_no_props sample_children advance_def as_c_int_def
        sample_images_def sample_configs_def)+

lemma sample_root:
  "fdt_unflatten_node sample_fit 56 = Ok (124, Some (DtNode (drop 60 sample_fit) [] [sample_images, sample_configs]))"
proof -
  have "unflatten_children sample_fit 176 = Ok ([], 176)" by (rule sample_no_children)
  then have "unflatten_children sample_fit 108 = Ok ([sample_configs], 176)"
    by (subst unflatten_children.simps) (simp add: sample_tops advance_def as_c_int_def)
  then have "unflatten_children sample_fit 64 = Ok ([sample_images, sample_configs], 176)"
    by (subst unflatten_children.simps) (simp add: sample_tops advance_def as_c_int_def)
  then show ?thesis
    by (subst fdt_unflatten_node.simps) (simp add: sample_node_names sample_no_props advance_def as_c_int_def)
qed

lemma sample_tree:
  "\<exists>tree. fdt_unflatten sample_fit = Ok tree \<and>
    dt_root tree = Some (DtNode (drop 60 sample_fit) [] [sample_images, sample_configs])"
proof -
  have "be64 (take 8 (drop 48 sample_fit)) = 0" "slice sample_fit 40 8 \<noteq> None" "slice sample_fit 48 8 = Some (take 8 (drop 48 sample_fit))"
    by (simp_all add: sample_fit_def be64_def be_val_def slice_def)
  then have "unflatten_map sample_fit 40 = Ok []"
    by (subst unflatten_map.simps) (auto simp: fdt_unflatten_map_entry_def)
  then show ?thesis
    by (simp add: fdt_unflatten_def structure_offset_def strings_offset_def reserve_map_offset_def
        sample_words sample_root Let_def)
qed

lemma sample_strings:
  "str_eq True ''images'' (drop 68 sample_fit) = Ok True"
  "str_eq True ''images'' (drop 112 sample_fit) = Ok False"
  "str_eq True ''configurations'' (drop 112 sample_fit) = Ok True"
  "str_eq True ''data'' (drop 184 sample_fit) = Ok True"
  "str_eq True ''default'' (drop 196 sample_fit) = Ok True"
  "str_eq True ''kernel'' (drop 189 sample_fit) = Ok True"
  by (simp_all add: str_eq_def str_def sample_fit_def strcmp_def char_val_def)

definition sample_kernel_image :: fit_image_node where
  "sample_kernel_image = \<lparr>im_name = drop 80 sample_fit, im_data = Some (drop 96 sample_fit), im_size = 1,
     im_compression = CompressionNone\<rparr>"

definition sample_boot :: fit_config_node where
  "sample_boot = (new_config (drop 148 sample_fit))\<lparr>cf_kernel := Some (drop 164 sample_fit)\<rparr>"

definition sample_state :: fit_state where
  "sample_state = \<lparr>image_nodes = [], config_nodes = [], fit_kernel_compat = Some [103, 0]\<rparr>"

lemma sample_unpacked:
  "dt_root tree = Some (DtNode (drop 60 sample_fit) [] [sample_images, sample_configs]) \<Longrightarrow>
   fit_unpack True tree sample_state = Ok (Some (drop 140 sample_fit),
     \<lparr>image_nodes = [sample_kernel_image], config_nodes = [sample_boot], fit_kernel_compat = Some [103, 0]\<rparr>)"
  by (simp add: fit_unpack_def sample_images_def sample_configs_def sample_strings sample_image_def
      sample_config_def sample_prop_def image_node_def config_node_def sample_state_def sample_kernel_image_def
      sample_boot_def new_config_def)

lemma sample_texts:
  "cstr (drop 80 sample_fit) = Some [107]" "cstr (drop 148 sample_fit) = Some [99]"
  "cstr (drop 140 sample_fit) = Some [99]" "cstr (drop 164 sample_fit) = Some [107]"
  by (simp_all add: sample_fit_def)

theorem fit_load_boots_best_witness:
  "\<exists>st. fit_load True True (\<lambda>n. replicate n 0) [] 0 None 0 sample_fit None None sample_state =
     Ok (sample_kernel_image, None, st)"
proof -
  let ?st1 = "\<lparr>image_nodes = [sample_kernel_image], config_nodes = [sample_boot], fit_kernel_compat = Some [103, 0]\<rparr>"
  let ?none = "\<lambda>b. None :: fdt_property option"
  obtain tree where tree: "fdt_unflatten sample_fit = Ok tree"
    "dt_root tree = Some (DtNode (drop 60 sample_fit) [] [sample_images, sample_configs])"
    using sample_tree by blast
  have ims: "\<forall>im \<in> set (image_nodes ?st1). cstr (im_name im) \<noteq> None"
    by (simp add: sample_kernel_image_def sample_texts)
  have cfs: "\<forall>cf \<in> set (config_nodes ?st1). config_ok (image_nodes ?st1) ?none cf"
    by (simp add: config_ok_def sample_boot_def new_config_def sample_texts)
  have cand: "candidates (image_nodes ?st1) ?none [103] (config_nodes ?st1) = [sample_boot\<lparr>cf_kernel_node := Some sample_kernel_image\<rparr>]"
    by (simp add: candidates_def bootable_def settle_def sample_boot_def new_config_def image_of_def
        sample_kernel_image_def sample_texts text_of_def Let_def)
  have "named_default (Some (drop 140 sample_fit)) (sample_boot\<lparr>cf_kernel_node := Some sample_kernel_image\<rparr>)"
    by (simp add: named_default_def sample_boot_def new_config_def text_of_def sample_texts)
  then show ?thesis
    using fit_load_boots_best [OF sample_words(1) tree(1) sample_unpacked [OF tree(2)], of "[103]" "[]" ?none
        True "\<lambda>n. replicate n 0" "[]" 0 None 0 None None] ims cfs
    unfolding cand
    by (auto simp: sample_texts sample_boot_def new_config_def Let_def
        dest!: first_bestD last_defaultD)
qed

end
