(* ===== verification/Lz4.thy ===== *)
theory Lz4
  imports Prelude
begin

text \<open>
  \<^verbatim>\<open>src/src/base/lz4/lz4.c\<close> and \<^verbatim>\<open>wrapper.c\<close>: decompression of LZ4 frames, used for images
  and for the files of CBFS.  The generic decoder is modelled for the one set of constants it
  is called with: the size of the input is known, the whole block is wanted, and there is no
  dictionary, so that a match may reach back to the start of the block's output only.  Source
  and destination are separate objects; pointers are offsets into them, \<open>src_addr\<close> and
  \<open>dst_addr\<close> the addresses at which they start, which only the overflow checks see.
\<close>

subsection \<open>Copying in pieces\<close>

text \<open>\<open>w\<close> bytes inside the destination, read at once and then written.\<close>

definition copy_within :: "nat \<Rightarrow> bytes \<Rightarrow> nat \<Rightarrow> nat \<Rightarrow> bytes res" where
  "copy_within w dst d s = andthen (of_opt (slice dst s w)) (\<lambda>xs. of_opt (put dst d xs))"

definition copy_from :: "nat \<Rightarrow> bytes \<Rightarrow> bytes \<Rightarrow> nat \<Rightarrow> nat \<Rightarrow> bytes res" where
  "copy_from w src dst d s = andthen (of_opt (slice src s w)) (\<lambda>xs. of_opt (put dst d xs))"

text \<open>\<open>LZ4_wildCopy\<close> copies eight bytes at a time until it has reached \<open>e\<close>, at least once.\<close>

function LZ4_wildCopy_from :: "bytes \<Rightarrow> bytes \<Rightarrow> nat \<Rightarrow> nat \<Rightarrow> nat \<Rightarrow> bytes res" where
  "LZ4_wildCopy_from src dst d s e =
     andthen (copy_from 8 src dst d s) (\<lambda>dst.
       if d + 8 < e then LZ4_wildCopy_from src dst (d + 8) (s + 8) e else Ok dst)"
  by pat_completeness auto

termination
  by (relation "measure (\<lambda>(src, dst, d, s, e). e - d)") auto

declare LZ4_wildCopy_from.simps [simp del]

function LZ4_wildCopy_within :: "bytes \<Rightarrow> nat \<Rightarrow> nat \<Rightarrow> nat \<Rightarrow> bytes res" where
  "LZ4_wildCopy_within dst d s e =
     andthen (copy_within 8 dst d s) (\<lambda>dst.
       if d + 8 < e then LZ4_wildCopy_within dst (d + 8) (s + 8) e else Ok dst)"
  by pat_completeness auto

termination
  by (relation "measure (\<lambda>(dst, d, s, e). e - d)") auto

declare LZ4_wildCopy_within.simps [simp del]

text \<open>Byte by byte up to \<open>e\<close>.\<close>

function byte_copy :: "bytes \<Rightarrow> nat \<Rightarrow> nat \<Rightarrow> nat \<Rightarrow> bytes res" where
  "byte_copy dst d s e =
     (if d < e then andthen (copy_within 1 dst d s) (\<lambda>dst. byte_copy dst (d + 1) (s + 1) e) else Ok dst)"
  by pat_completeness auto

termination
  by (relation "measure (\<lambda>(dst, d, s, e). e - d)") auto

declare byte_copy.simps [simp del]

subsection \<open>One block\<close>

text \<open>The bytes that extend a literal length; the result is where they end and the length.\<close>

function literal_run :: "bytes \<Rightarrow> nat \<Rightarrow> nat \<Rightarrow> nat \<Rightarrow> (nat \<times> nat) res" where
  "literal_run src iend ip len =
     andthen (of_opt (rd src ip)) (\<lambda>s.
       if ip + 1 + 15 < iend \<and> s = 255 then literal_run src iend (ip + 1) (len + unat s)
       else Ok (ip + 1, len + unat s))"
  by pat_completeness auto

termination
  by (relation "measure (\<lambda>(src, iend, ip, len). length src - ip)") (auto simp: rd_def split: if_splits)

declare literal_run.simps [simp del]

text \<open>The same for a match; \<open>Inl ip\<close> is the jump to the error exit.\<close>

function match_run :: "bytes \<Rightarrow> nat \<Rightarrow> nat \<Rightarrow> nat \<Rightarrow> (nat + nat \<times> nat) res" where
  "match_run src iend ip len =
     (if iend < ip + 5 then Ok (Inl ip)
      else andthen (of_opt (rd src ip)) (\<lambda>s.
        if s = 255 then match_run src iend (ip + 1) (len + unat s)
        else Ok (Inr (ip + 1, len + unat s))))"
  by pat_completeness auto

termination
  by (relation "measure (\<lambda>(src, iend, ip, len). length src - ip)") (auto simp: rd_def split: if_splits)

declare match_run.simps [simp del]

definition dec32table :: "nat list" where
  "dec32table = [4, 1, 2, 1, 4, 4, 4, 4]"

definition dec64table :: "int list" where
  "dec64table = [0, 0, 0, - 1, 0, 1, 2, 3]"

text \<open>
  The first eight bytes of a match, after which source and destination are at least eight
  apart; the result is the destination and the new match pointer.
\<close>

definition match_start :: "bytes \<Rightarrow> nat \<Rightarrow> nat \<Rightarrow> (bytes \<times> nat) res" where
  "match_start dst d m =
     (if d - m < 8 then
        andthen (copy_within 1 dst d m) (\<lambda>dst.
        andthen (copy_within 1 dst (d + 1) (m + 1)) (\<lambda>dst.
        andthen (copy_within 1 dst (d + 2) (m + 2)) (\<lambda>dst.
        andthen (copy_within 1 dst (d + 3) (m + 3)) (\<lambda>dst.
        let dec64 = dec64table ! (d - m); m = m + dec32table ! (d - m) in
        andthen (copy_within 4 dst (d + 4) m) (\<lambda>dst.
          Ok (dst, nat (int m - dec64)))))))
      else map_res (\<lambda>dst. (dst, m + 8)) (copy_within 8 dst d m))"

text \<open>A match of \<open>len\<close> bytes from \<open>m\<close> to \<open>d\<close>; \<open>False\<close> is the error exit.\<close>

definition match_copy :: "bytes \<Rightarrow> nat \<Rightarrow> nat \<Rightarrow> nat \<Rightarrow> nat \<Rightarrow> (bool \<times> bytes) res" where
  "match_copy dst oend d m len =
     (let cpy = d + len in
      andthen (match_start dst d m) (\<lambda>(dst, m).
      let d = d + 8 in
      if oend < cpy + 12 then
        (if oend < cpy + 5 then Ok (False, dst)
         else map_res (Pair True)
           (if d + 8 < oend then
              andthen (LZ4_wildCopy_within dst d m (oend - 8)) (\<lambda>dst.
                byte_copy dst (oend - 8) (m + (oend - 8 - d)) cpy)
            else byte_copy dst d m cpy))
      else map_res (Pair True) (LZ4_wildCopy_within dst d m cpy)))"

definition wraps :: "nat \<Rightarrow> bool" where
  "wraps a \<longleftrightarrow> 18446744073709551616 \<le> a"

text \<open>The result is what \<open>LZ4_decompress_generic\<close> returns and the destination.\<close>

definition lz4_error :: "nat \<Rightarrow> nat \<Rightarrow> bytes \<Rightarrow> (int \<times> bytes) res" where
  "lz4_error source ip dst = Ok (- (int ip - int source) - 1, dst)"

lemma literal_run_ge: "literal_run src iend ip len = Ok (ip', l) \<Longrightarrow> ip < ip'"
proof (induction src iend ip len rule: literal_run.induct)
  case (1 src iend ip len)
  then show ?case
    by (subst (asm) (2) literal_run.simps) (fastforce simp: andthen_Ok_iff split: if_splits)
qed

lemma match_run_ge: "match_run src iend ip len = Ok (Inr (ip', l)) \<Longrightarrow> ip < ip'"
proof (induction src iend ip len rule: match_run.induct)
  case (1 src iend ip len)
  then show ?case
    by (subst (asm) (2) match_run.simps) (fastforce simp: andthen_Ok_iff split: if_splits)
qed

text \<open>
  The match of a sequence: the offset, the length and the copy.  \<open>Inl ip\<close> is the error exit,
  \<open>Inr\<close> where the next sequence starts and where its output goes.
\<close>

definition lz4_match ::
  "nat \<Rightarrow> bytes \<Rightarrow> nat \<Rightarrow> nat \<Rightarrow> nat \<Rightarrow> u8 \<Rightarrow> nat \<Rightarrow> nat \<Rightarrow> bytes \<Rightarrow> ((nat + nat \<times> nat) \<times> bytes) res" where
  "lz4_match dst_addr src iend dest oend token ip d dst =
     andthen (of_opt (slice src ip 2)) (\<lambda>le.
     let offset = unat (le16 le); ip = ip + 2 in
     if d < dest + offset then Ok (Inl ip, dst)
     else
     let nibble = unat (token AND 15) in
     andthen (if nibble = 15 then match_run src iend ip 15 else Ok (Inr (ip, nibble))) (\<lambda>run.
     case run of Inl ip \<Rightarrow> Ok (Inl ip, dst)
     | Inr (ip, len) \<Rightarrow>
         if nibble = 15 \<and> wraps (dst_addr + d + len) then Ok (Inl ip, dst)
         else map_res (\<lambda>(ok, dst). (if ok then Inr (ip, d + (len + 4)) else Inl ip, dst))
           (match_copy dst oend d (d - offset) (len + 4))))"

lemma lz4_match_ge: "lz4_match da src iend dest oend token ip d dst = Ok (Inr (ip', d'), dst') \<Longrightarrow> ip < ip'"
proof -
  let ?k = "unat (token AND 15)"
  let ?run = "if ?k = 15 then match_run src iend (ip + 2) 15 else Ok (Inr (ip + 2, ?k))"
  assume a: "lz4_match da src iend dest oend token ip d dst = Ok (Inr (ip', d'), dst')"
  then obtain le where le: "slice src ip 2 = Some le" by (cases "slice src ip 2") (simp_all add: lz4_match_def)
  with a have "\<not> d < dest + unat (le16 le)" by (auto simp: lz4_match_def Let_def)
  with a le have "andthen ?run (\<lambda>run. case run of Inl ip \<Rightarrow> Ok (Inl ip, dst)
      | Inr (ip, len) \<Rightarrow>
          if ?k = 15 \<and> wraps (da + d + len) then Ok (Inl ip, dst)
          else map_res (\<lambda>(ok, dst). (if ok then Inr (ip, d + (len + 4)) else Inl ip, dst))
            (match_copy dst oend d (d - unat (le16 le)) (len + 4))) = Ok (Inr (ip', d'), dst')"
    by (simp only: lz4_match_def Let_def of_opt.simps andthen.simps if_False)
  then obtain run where run: "?run = Ok run" and rest: "(case run of Inl ip \<Rightarrow> Ok (Inl ip, dst)
      | Inr (ip, len) \<Rightarrow>
          if ?k = 15 \<and> wraps (da + d + len) then Ok (Inl ip, dst)
          else map_res (\<lambda>(ok, dst). (if ok then Inr (ip, d + (len + 4)) else Inl ip, dst))
            (match_copy dst oend d (d - unat (le16 le)) (len + 4))) = Ok (Inr (ip', d'), dst')"
    by (simp only: andthen_Ok_iff) blast
  from rest obtain l where "run = Inr (ip', l)"
    by (cases run) (auto simp: map_res_Ok_iff split: if_split_asm)
  with run show ?thesis by (auto dest!: match_run_ge split: if_split_asm)
qed

function lz4_loop ::
  "nat \<Rightarrow> nat \<Rightarrow> bytes \<Rightarrow> nat \<Rightarrow> nat \<Rightarrow> nat \<Rightarrow> nat \<Rightarrow> nat \<Rightarrow> nat \<Rightarrow> bytes \<Rightarrow> (int \<times> bytes) res" where
  "lz4_loop src_addr dst_addr src source iend dest oend ip d dst =
     andthen (of_opt (rd src ip)) (\<lambda>token.
     let ip = ip + 1; nibble = unat (drop_bit 4 token) in
     andthen (if nibble = 15 then literal_run src iend ip 15 else Ok (ip, nibble)) (\<lambda>(ip, len).
     if nibble = 15 \<and> (wraps (dst_addr + d + len) \<or> wraps (src_addr + ip + len)) then lz4_error source ip dst
     else
     let cpy = d + len in
     if oend < cpy + 12 \<or> iend < ip + len + 8 then
       (if ip + len \<noteq> iend \<or> oend < cpy then lz4_error source ip dst
        else map_res (\<lambda>dst. (int cpy - int dest, dst)) (copy_from len src dst d ip))
     else
       andthen (LZ4_wildCopy_from src dst d ip cpy) (\<lambda>dst.
       andthen (lz4_match dst_addr src iend dest oend token (ip + len) cpy dst) (\<lambda>(r, dst).
         case r of Inl ip \<Rightarrow> lz4_error source ip dst
         | Inr (ip, d) \<Rightarrow> lz4_loop src_addr dst_addr src source iend dest oend ip d dst))))"
  by pat_completeness auto

termination
  by (relation "measure (\<lambda>(sa, da, src, source, iend, dest, oend, ip, d, dst). length src - ip)")
    (auto simp: rd_def dest!: literal_run_ge lz4_match_ge split: if_splits)

declare lz4_loop.simps [simp del]

text \<open>
  \<open>source\<close> and \<open>dest\<close> are offsets into the two objects, the sizes are of type \<open>int\<close>.  A negative size
  puts the end pointer before the start; where it leaves the object it is undefined.
\<close>

definition LZ4_decompress_generic ::
  "nat \<Rightarrow> nat \<Rightarrow> bytes \<Rightarrow> nat \<Rightarrow> u32 \<Rightarrow> nat \<Rightarrow> u32 \<Rightarrow> bytes \<Rightarrow> (int \<times> bytes) res" where
  "LZ4_decompress_generic src_addr dst_addr src source inputSize dest outputSize dst =
     (let iend = int source + sint inputSize; oend = int dest + sint outputSize in
      if iend < 0 \<or> oend < 0 then Fault OutOfBounds
      else if outputSize = 0 then
        (if inputSize = 1
         then map_res (\<lambda>b. (if b = 0 then 0 else - 1, dst)) (of_opt (rd src source))
         else Ok (- 1, dst))
      else lz4_loop src_addr dst_addr src source (nat iend) dest (nat oend) source dest dst)"

subsection \<open>Frames\<close>

definition LZ4F_MAGICNUMBER :: u32 where
  "LZ4F_MAGICNUMBER = 407708164"

record lz4_frame_header =
  fh_magic :: u32
  fh_flags :: u8
  fh_block_descriptor :: u8

definition read_frame_header :: "bytes \<Rightarrow> lz4_frame_header res" where
  "read_frame_header src =
     map_res (\<lambda>h. \<lparr>fh_magic = le32 (take 4 h), fh_flags = h ! 4, fh_block_descriptor = h ! 5\<rparr>)
       (of_opt (slice src 0 6))"

definition fh_version :: "lz4_frame_header \<Rightarrow> u8" where
  "fh_version h = drop_bit 6 (fh_flags h)"

definition fh_reserved_clear :: "lz4_frame_header \<Rightarrow> bool" where
  "fh_reserved_clear h \<longleftrightarrow> fh_flags h AND 3 = 0 \<and> fh_block_descriptor h AND 15 = 0 \<and> \<not> bit (fh_block_descriptor h) 7"

text \<open>The result of the loop is the return value and the destination; a return of 0 is \<open>Ok (0, _)\<close>.\<close>

function lz4_blocks ::
  "nat \<Rightarrow> nat \<Rightarrow> bytes \<Rightarrow> nat \<Rightarrow> bool \<Rightarrow> nat \<Rightarrow> nat \<Rightarrow> nat \<Rightarrow> bytes \<Rightarrow> (nat \<times> bytes) res" where
  "lz4_blocks src_addr dst_addr src srcn has_block_checksum pos out dstn dst =
     andthen (of_opt (slice src pos 4)) (\<lambda>raw.
     let b = le32 raw; sz = unat (take_bit 31 b); pos = pos + 4 in
     if srcn < pos + sz then Ok (0, dst)
     else if sz = 0 then Ok (out, dst)
     else
       andthen
         (if bit b 31 then
            (let n = min sz (dstn - out) in
             andthen (copy_from n src dst out pos) (\<lambda>dst. Ok (if n < sz then None else Some (out + n), dst)))
          else
            map_res (\<lambda>(ret, dst). (if ret < 0 then None else Some (nat (int out + ret)), dst))
              (LZ4_decompress_generic src_addr dst_addr src pos (word_of_nat sz) out
                 (word_of_int (int dstn - int out)) dst))
         (\<lambda>(out', dst).
           case out' of None \<Rightarrow> Ok (0, dst)
           | Some out \<Rightarrow> lz4_blocks src_addr dst_addr src srcn has_block_checksum
               (pos + sz + (if has_block_checksum then 4 else 0)) out dstn dst))"
  by pat_completeness auto

termination
  by (relation "measure (\<lambda>(sa, da, src, srcn, c, pos, out, dstn, dst). srcn - pos)") auto

declare lz4_blocks.simps [simp del]

definition ulz4fn :: "nat \<Rightarrow> nat \<Rightarrow> bytes \<Rightarrow> nat \<Rightarrow> nat \<Rightarrow> bytes \<Rightarrow> (nat \<times> bytes) res" where
  "ulz4fn src_addr dst_addr src srcn dstn dst =
     (if srcn < 6 + 8 + 1 then Ok (0, dst)
      else andthen (read_frame_header src) (\<lambda>h.
        if fh_magic h \<noteq> LZ4F_MAGICNUMBER \<or> fh_version h \<noteq> 1 then Ok (0, dst)
        else if \<not> fh_reserved_clear h then Ok (0, dst)
        else if \<not> bit (fh_flags h) 5 then Ok (0, dst)
        else lz4_blocks src_addr dst_addr src srcn (bit (fh_flags h) 4)
          (6 + (if bit (fh_flags h) 3 then 8 else 0) + 1) 0 dstn dst))"

definition ulz4f :: "nat \<Rightarrow> nat \<Rightarrow> bytes \<Rightarrow> bytes \<Rightarrow> (nat \<times> bytes) res" where
  "ulz4f src_addr dst_addr src dst = ulz4fn src_addr dst_addr src 1073741824 1073741824 dst"

subsection \<open>What a block means\<close>

text \<open>
  A decoder on lists, by the description of the format: lengths of 15 go on in further bytes,
  a match repeats bytes one by one from \<open>offset\<close> back.  A sequence that is not the last has
  its literals end 8 bytes before the end of the input and 12 before the end of the output,
  and its match 5 before the end of the output.  The format has no offset 0.
\<close>

datatype 'a decoded = Decoded 'a | Malformed | ZeroOffset

fun extended :: "nat \<Rightarrow> bytes \<Rightarrow> nat \<Rightarrow> (nat \<times> bytes) option" where
  "extended k [] n = None"
| "extended k (b # bs) n =
     (if length (b # bs) < k then None
      else if b = 255 then extended k bs (n + 255) else Some (n + unat b, bs))"

definition run_length :: "nat \<Rightarrow> bytes \<Rightarrow> nat \<Rightarrow> (nat \<times> bytes) option" where
  "run_length k bs nibble = (if nibble = 15 then extended k bs 15 else Some (nibble, bs))"

fun repeat_back :: "nat \<Rightarrow> nat \<Rightarrow> bytes \<Rightarrow> bytes" where
  "repeat_back offset 0 out = out"
| "repeat_back offset (Suc n) out = repeat_back offset n (out @ [out ! (length out - offset)])"

lemma extended_length: "extended k bs n = Some (m, r) \<Longrightarrow> length r < length bs"
  by (induction k bs n rule: extended.induct) (auto split: if_splits)

lemma run_length_length: "run_length k bs n = Some (m, r) \<Longrightarrow> length r \<le> length bs"
  by (auto simp: run_length_def dest: extended_length split: if_splits)

definition ref_match :: "nat \<Rightarrow> u8 \<Rightarrow> bytes \<Rightarrow> bytes \<Rightarrow> (bytes \<times> bytes) decoded" where
  "ref_match room token input out =
     (let offset = unat (le16 (take 2 input)) in
      if length out < offset then Malformed
      else case run_length 5 (drop 2 input) (unat (token AND 15)) of None \<Rightarrow> Malformed
      | Some (len, input) \<Rightarrow>
          if room < length out + (len + 4) + 5 then Malformed
          else if offset = 0 then ZeroOffset
          else Decoded (input, repeat_back offset (len + 4) out))"

lemma ref_match_length: "ref_match room token input out = Decoded (input', out') \<Longrightarrow> length input' \<le> length input"
  by (auto simp: ref_match_def Let_def dest!: run_length_length split: if_splits option.splits)

function lz4_ref :: "nat \<Rightarrow> bytes \<Rightarrow> bytes \<Rightarrow> bytes decoded" where
  "lz4_ref room input out =
     (case input of [] \<Rightarrow> Malformed
      | token # input \<Rightarrow>
        (case run_length 1 input (unat (drop_bit 4 token)) of None \<Rightarrow> Malformed
         | Some (len, input) \<Rightarrow>
           if room < length out + len + 12 \<or> length input < len + 8 then
             (if length input = len \<and> length out + len \<le> room then Decoded (out @ input) else Malformed)
           else (case ref_match room token (drop len input) (out @ take len input) of
               Malformed \<Rightarrow> Malformed
             | ZeroOffset \<Rightarrow> ZeroOffset
             | Decoded (input, out) \<Rightarrow> lz4_ref room input out)))"
  by pat_completeness auto

termination
  by (relation "measure (\<lambda>(room, input, out). length input)")
    (auto dest!: run_length_length ref_match_length)

declare lz4_ref.simps [simp del]

subsection \<open>Repetition\<close>

lemma copy_within_nth:
  assumes "s + w \<le> length dst" and "d + w \<le> length dst"
  shows "\<exists>dst'. copy_within w dst d s = Ok dst' \<and> frame dst dst' {d..<d + w} \<and>
    (\<forall>k. d \<le> k \<and> k < d + w \<longrightarrow> dst' ! k = dst ! (s + (k - d)))"
proof -
  have "copy_within w dst d s = Ok (take d dst @ take w (drop s dst) @ drop (d + w) dst)"
    using assms by (simp add: copy_within_def slice_def put_def)
  moreover have "frame dst (take d dst @ take w (drop s dst) @ drop (d + w) dst) {d..<d + w}"
    using assms by (auto simp: frame_def nth_append)
  ultimately show ?thesis using assms by (auto simp: nth_append)
qed

text \<open>From \<open>a\<close> up to \<open>b\<close>, each byte is the one \<open>off\<close> before it.\<close>

definition repeats :: "nat \<Rightarrow> nat \<Rightarrow> nat \<Rightarrow> bytes \<Rightarrow> bool" where
  "repeats off a b dst \<longleftrightarrow> (\<forall>k. a \<le> k \<and> k < b \<longrightarrow> dst ! k = dst ! (k - off))"

lemma repeats_multiple:
  "repeats off a b dst \<Longrightarrow> off \<le> a \<Longrightarrow> a \<le> x + off \<Longrightarrow> x + j * off < b \<Longrightarrow> dst ! (x + j * off) = dst ! x"
proof (induction j)
  case (Suc j)
  then have "dst ! (x + j * off) = dst ! x" by simp
  moreover have "dst ! (x + Suc j * off) = dst ! (x + Suc j * off - off)"
    using Suc.prems by (simp add: repeats_def)
  ultimately show ?case by simp
qed simp

lemma repeats_chunk:
  assumes r: "repeats off a d dst" and off: "off \<le> a" "a \<le> m + off" "off dvd d - m" and w: "0 < w" "w \<le> d - m"
    and same: "\<And>k. k < d \<Longrightarrow> dst' ! k = dst ! k"
    and new: "\<And>k. d \<le> k \<Longrightarrow> k < d + w \<Longrightarrow> dst' ! k = dst ! (m + (k - d))"
  shows "repeats off a (d + w) dst'"
  unfolding repeats_def
proof (intro allI impI)
  fix k assume k: "a \<le> k \<and> k < d + w"
  obtain q where q: "d - m = off * q" using off(3) by (auto simp: dvd_def)
  have md: "m < d" using w by simp
  then have "0 < d - m" by simp
  then have "0 < off * q" unfolding q .
  then obtain q' where q': "q = Suc q'" by (cases q) auto
  show "dst' ! k = dst' ! (k - off)"
  proof (cases "k < d")
    case True
    with r k same off show ?thesis by (simp add: repeats_def)
  next
    case False
    have kk: "dst' ! k = dst ! (m + (k - d))" using False k new by simp
    show ?thesis
    proof (cases "k - off < d")
      case True
      have e: "k - off = m + (k - d) + q' * off" using False q q' md off k by (simp add: algebra_simps)
      show ?thesis using repeats_multiple [OF r off(1), of "m + (k - d)" q'] off(2) True same unfolding kk e by simp
    next
      case False2: False
      have e: "m + (k - d) = m + (k - off - d) + 1 * off" using False2 md by arith
      have "m + (k - d) < d" using k w False md by arith
      then have "m + (k - off - d) + 1 * off < d" unfolding e .
      moreover have "a \<le> m + (k - off - d) + off" using off(2) by simp
      ultimately have "dst ! (m + (k - d)) = dst ! (m + (k - off - d))"
        unfolding e by (intro repeats_multiple [OF r off(1)])
      moreover have "k - off < d + w" using k by linarith
      then have "dst' ! (k - off) = dst ! (m + (k - off - d))" using False2 new [of "k - off"] by simp
      ultimately show ?thesis by (simp add: kk)
    qed
  qed
qed

text \<open>What is known while a match at \<open>a\<close> is written and its bytes before \<open>d\<close> are done.\<close>

definition copying :: "nat \<Rightarrow> nat \<Rightarrow> nat \<Rightarrow> bytes \<Rightarrow> nat \<Rightarrow> bytes \<Rightarrow> bool" where
  "copying off a n dst0 d dst \<longleftrightarrow> frame dst0 dst {a..<n} \<and> a \<le> d \<and> (0 < off \<longrightarrow> repeats off a d dst)"

definition behind :: "nat \<Rightarrow> nat \<Rightarrow> nat \<Rightarrow> nat \<Rightarrow> nat \<Rightarrow> bool" where
  "behind off a w d m \<longleftrightarrow> m \<le> d \<and> off \<le> a \<and> (0 < off \<longrightarrow> w \<le> d - m \<and> off dvd d - m \<and> a \<le> m + off)"

lemma copying_chunk:
  assumes c: "copying off a n dst0 d dst" and b: "behind off a w d m" and w: "0 < w" "d + w \<le> n" "n \<le> length dst0"
  shows "\<exists>dst'. copy_within w dst d m = Ok dst' \<and> copying off a n dst0 (d + w) dst'"
proof -
  have len: "length dst = length dst0" using c by (auto simp: copying_def dest: frame_length)
  obtain dst' where d: "copy_within w dst d m = Ok dst'" "frame dst dst' {d..<d + w}"
    "\<And>k. d \<le> k \<Longrightarrow> k < d + w \<Longrightarrow> dst' ! k = dst ! (m + (k - d))"
    using copy_within_nth [of m w dst d] b w len by (auto simp: behind_def)
  have "frame dst0 dst' {a..<n}"
    by (rule frame_trans [of _ dst]) (use c d(2) w in \<open>auto simp: copying_def elim!: frame_mono\<close>)
  moreover have "repeats off a (d + w) dst'" if "0 < off"
  proof (rule repeats_chunk [where m = m])
    show "dst' ! k = dst ! k" if "k < d" for k
      using d(2) that w len by (auto simp: frame_def)
  qed (use c b w that d(3) in \<open>auto simp: copying_def behind_def\<close>)
  ultimately show ?thesis using c d(1) by (auto simp: copying_def)
qed

lemma off_cases: "P \<Longrightarrow> off < 8 \<Longrightarrow> off = 0 \<or> off = 1 \<or> off = 2 \<or> off = 3 \<or> off = 4 \<or> off = 5 \<or> off = 6 \<or> off = (7 :: nat)"
  by auto

lemma match_start_ok:
  assumes c: "copying off d n dst0 d dst" and m: "m \<le> d" "off = d - m" and n: "d + 8 \<le> n" "n \<le> length dst0"
  shows "\<exists>dst' m'. match_start dst d m = Ok (dst', m') \<and> copying off d n dst0 (d + 8) dst' \<and> behind off d 8 (d + 8) m'"
proof (cases "off < 8")
  case False
  with m have "behind off d 8 d m" by (auto simp: behind_def)
  from copying_chunk [OF c this _ n] obtain dst' where
    d: "copy_within 8 dst d m = Ok dst'" "copying off d n dst0 (d + 8) dst'" by auto
  moreover have "behind off d 8 (d + 8) (m + 8)" using False m by (auto simp: behind_def)
  ultimately show ?thesis using False m by (simp add: match_start_def)
next
  case True
  have bi: "behind off d 1 (d + i) (m + i)" for i using m by (auto simp: behind_def)
  obtain d1 where d1: "copy_within 1 dst d m = Ok d1" "copying off d n dst0 (d + 1) d1"
    using copying_chunk [OF c bi [of 0, simplified] _ _ n(2)] n by auto
  obtain d2 where d2: "copy_within 1 d1 (d + 1) (m + 1) = Ok d2" "copying off d n dst0 (d + 2) d2"
    using copying_chunk [OF d1(2) bi _ _ n(2)] n by (auto simp: eval_nat_numeral)
  obtain d3 where d3: "copy_within 1 d2 (d + 2) (m + 2) = Ok d3" "copying off d n dst0 (d + 3) d3"
    using copying_chunk [OF d2(2) bi _ _ n(2)] n by (auto simp: eval_nat_numeral)
  obtain d4 where d4: "copy_within 1 d3 (d + 3) (m + 3) = Ok d4" "copying off d n dst0 (d + 4) d4"
    using copying_chunk [OF d3(2) bi _ _ n(2)] n by (auto simp: eval_nat_numeral)
  let ?m = "m + dec32table ! off" and ?m' = "nat (int (m + dec32table ! off) - dec64table ! off)"
  have d_m: "d = m + off" using m by simp
  have b4: "behind off d 4 (d + 4) ?m" and b8: "behind off d 8 (d + 8) ?m'"
    using off_cases [OF TrueI True] unfolding d_m
    by (elim disjE; simp add: behind_def dec32table_def dec64table_def nat_diff_distrib nat_add_distrib)+
  obtain d5 where d5: "copy_within 4 d4 (d + 4) ?m = Ok d5" "copying off d n dst0 (d + 8) d5"
    using copying_chunk [OF d4(2) b4 _ _ n(2)] n by (auto simp: add.commute)
  have "match_start dst d m = Ok (d5, ?m')"
    using True m d1(1) d2(1) d3(1) d4(1) d5(1) by (simp add: match_start_def Let_def)
  with d5(2) b8 show ?thesis by blast
qed

lemma behind_step: "behind off a w d m \<Longrightarrow> behind off a w (d + k) (m + k)"
  by (auto simp: behind_def)

lemma behind_less: "behind off a w d m \<Longrightarrow> v \<le> w \<Longrightarrow> behind off a v d m"
  by (auto simp: behind_def)

lemma copying_less: "copying off a n dst0 d dst \<Longrightarrow> a \<le> e \<Longrightarrow> e \<le> d \<Longrightarrow> copying off a n dst0 e dst"
  by (auto simp: copying_def repeats_def)

lemma wildCopy_within_ok:
  "copying off a n dst0 d dst \<Longrightarrow> behind off a 8 d m \<Longrightarrow> d + 8 \<le> n \<Longrightarrow> e + 7 \<le> n \<Longrightarrow> n \<le> length dst0 \<Longrightarrow>
   a \<le> e \<Longrightarrow> \<exists>dst'. LZ4_wildCopy_within dst d m e = Ok dst' \<and> copying off a n dst0 e dst'"
proof (induction dst d m e rule: LZ4_wildCopy_within.induct)
  case (1 dst d m e)
  obtain d1 where d1: "copy_within 8 dst d m = Ok d1" "copying off a n dst0 (d + 8) d1"
    using copying_chunk [OF "1.prems"(1,2) _ "1.prems"(3,5)] by auto
  show ?case
  proof (cases "d + 8 < e")
    case True
    with "1.IH" [OF d1(1) True d1(2) behind_step] "1.prems" d1(1) show ?thesis
      by (simp add: LZ4_wildCopy_within.simps [of dst])
  next
    case False
    with d1 "1.prems"(6) show ?thesis
      by (auto simp: LZ4_wildCopy_within.simps [of dst] intro: copying_less)
  qed
qed

lemma byte_copy_ok:
  "copying off a n dst0 d dst \<Longrightarrow> behind off a 1 d m \<Longrightarrow> e \<le> n \<Longrightarrow> n \<le> length dst0 \<Longrightarrow>
   a \<le> e \<Longrightarrow> \<exists>dst'. byte_copy dst d m e = Ok dst' \<and> copying off a n dst0 e dst'"
proof (induction dst d m e rule: byte_copy.induct)
  case (1 dst d m e)
  show ?case
  proof (cases "d < e")
    case True
    obtain d1 where d1: "copy_within 1 dst d m = Ok d1" "copying off a n dst0 (d + 1) d1"
      using copying_chunk [OF "1.prems"(1,2) _ _ "1.prems"(4)] True "1.prems"(3) by auto
    with "1.IH" [OF True d1(1) d1(2) behind_step] "1.prems" True show ?thesis
      by (simp add: byte_copy.simps [of dst])
  next
    case False
    with "1.prems" show ?thesis by (auto simp: byte_copy.simps [of dst] intro: copying_less)
  qed
qed

lemma match_copy_ok:
  assumes m: "m \<le> d" "off = d - m" and n: "d + 12 \<le> oend" "oend \<le> length dst" and len: "4 \<le> len"
  shows "\<exists>ok dst'. match_copy dst oend d m len = Ok (ok, dst') \<and> frame dst dst' {d..<oend} \<and>
    (ok \<longleftrightarrow> d + len + 5 \<le> oend) \<and> (ok \<and> 0 < off \<longrightarrow> repeats off d (d + len) dst')"
proof -
  have "copying off d oend dst d dst" by (auto simp: copying_def repeats_def)
  then obtain d1 m1 where d1: "match_start dst d m = Ok (d1, m1)" "copying off d oend dst (d + 8) d1" "behind off d 8 (d + 8) m1"
    using match_start_ok [OF \<open>copying off d oend dst d dst\<close> m _ n(2)] n(1) by auto
  note fr = copying_def
  show ?thesis
  proof (cases "oend < d + len + 12")
    case False
    then obtain d2 where "LZ4_wildCopy_within d1 (d + 8) m1 (d + len) = Ok d2" "copying off d oend dst (d + len) d2"
      using wildCopy_within_ok [OF d1(2,3) _ _ n(2), of "d + len"] len by auto
    with False d1(1) show ?thesis by (auto simp: match_copy_def fr)
  next
    case True
    show ?thesis
    proof (cases "oend < d + len + 5")
      case True2: True
      with True d1(1,2) show ?thesis
        by (intro exI [of _ False] exI [of _ d1]) (simp add: match_copy_def fr Let_def)
    next
      case fits: False
      show ?thesis
      proof (cases "d + 8 + 8 < oend")
        case True3: True
        then have far: "d \<le> oend - 8" "d + 8 + 8 \<le> oend" "oend - 8 + 7 \<le> oend" by arith+
        obtain d2 where d2: "LZ4_wildCopy_within d1 (d + 8) m1 (oend - 8) = Ok d2" "copying off d oend dst (oend - 8) d2"
          using wildCopy_within_ok [OF d1(2,3) _ _ n(2), of "oend - 8"] far by auto
        have "behind off d 8 (oend - 8) (m1 + (oend - 8 - (d + 8)))"
          using behind_step [OF d1(3), of "oend - 8 - (d + 8)"] True3 by simp
        then obtain d3 where "byte_copy d2 (oend - 8) (m1 + (oend - 8 - (d + 8))) (d + len) = Ok d3"
          "copying off d oend dst (d + len) d3"
          using byte_copy_ok [OF d2(2) behind_less _ n(2), of 8 _ "d + len"] fits by auto
        with True fits True3 d1(1) d2(1) show ?thesis by (auto simp: match_copy_def fr Let_def)
      next
        case False3: False
        obtain d3 where "byte_copy d1 (d + 8) m1 (d + len) = Ok d3" "copying off d oend dst (d + len) d3"
          using byte_copy_ok [OF d1(2) behind_less [OF d1(3)] _ n(2), of "d + len"] fits by auto
        with True fits False3 d1(1) show ?thesis by (auto simp: match_copy_def fr Let_def)
      qed
    qed
  qed
qed

text \<open>What has been written is what the list decoder appends.\<close>

definition written :: "nat \<Rightarrow> nat \<Rightarrow> bytes \<Rightarrow> bytes" where
  "written dest d dst = take (d - dest) (drop dest dst)"

lemma written_nth: "dest \<le> d \<Longrightarrow> d \<le> length dst \<Longrightarrow> i < d - dest \<Longrightarrow> written dest d dst ! i = dst ! (dest + i)"
  by (simp add: written_def)

lemma length_written: "dest \<le> d \<Longrightarrow> d \<le> length dst \<Longrightarrow> length (written dest d dst) = d - dest"
  by (simp add: written_def)

lemma written_snoc: "dest \<le> d \<Longrightarrow> d < length dst \<Longrightarrow> written dest (Suc d) dst = written dest d dst @ [dst ! d]"
  by (simp add: written_def Suc_diff_le take_Suc_conv_app_nth)

lemma written_frame:
  assumes "frame dst dst' {d..<n}" and "dest \<le> d" and "d \<le> length dst"
  shows "written dest d dst' = written dest d dst"
proof (rule nth_equalityI)
  show "length (written dest d dst') = length (written dest d dst)"
    using assms by (simp add: length_written frame_length)
  fix i assume "i < length (written dest d dst')"
  then have i: "i < d - dest" using assms by (simp add: length_written frame_length)
  then have "dest + i < d" by simp
  then have "dst' ! (dest + i) = dst ! (dest + i)" using assms by (auto simp: frame_def)
  with i show "written dest d dst' ! i = written dest d dst ! i"
    using assms by (simp add: written_nth frame_length)
qed

lemma repeat_back_written:
  "repeats off d (d + n) dst \<Longrightarrow> 0 < off \<Longrightarrow> dest + off \<le> d \<Longrightarrow> d + n \<le> length dst \<Longrightarrow>
     repeat_back off n (written dest d dst) = written dest (d + n) dst"
proof (induction n arbitrary: d)
  case (Suc n)
  have "written dest d dst ! (length (written dest d dst) - off) = dst ! (d - off)"
    using Suc.prems by (simp add: length_written written_nth)
  also have "\<dots> = dst ! d" using Suc.prems by (simp add: repeats_def)
  finally have "repeat_back off (Suc n) (written dest d dst) = repeat_back off n (written dest (Suc d) dst)"
    using Suc.prems by (simp add: written_snoc)
  moreover have "repeats off (Suc d) (Suc d + n) dst" using Suc.prems by (simp add: repeats_def)
  ultimately show ?case using Suc.IH [of "Suc d"] Suc.prems by simp
qed simp

subsection \<open>Literals and lengths\<close>

lemma copy_from_nth:
  assumes "s + w \<le> length src" and "d + w \<le> length dst"
  shows "\<exists>dst'. copy_from w src dst d s = Ok dst' \<and> frame dst dst' {d..<d + w} \<and>
    (\<forall>k. d \<le> k \<and> k < d + w \<longrightarrow> dst' ! k = src ! (s + (k - d)))"
proof -
  have "copy_from w src dst d s = Ok (take d dst @ take w (drop s src) @ drop (d + w) dst)"
    using assms by (simp add: copy_from_def slice_def put_def)
  moreover have "frame dst (take d dst @ take w (drop s src) @ drop (d + w) dst) {d..<d + w}"
    using assms by (auto simp: frame_def nth_append)
  ultimately show ?thesis using assms by (auto simp: nth_append)
qed

lemma wildCopy_from_ok:
  "d + 8 \<le> n \<Longrightarrow> e + 7 \<le> n \<Longrightarrow> n \<le> length dst \<Longrightarrow> s + 8 \<le> length src \<Longrightarrow> s + (e - d) + 7 \<le> length src \<Longrightarrow>
   \<exists>dst'. LZ4_wildCopy_from src dst d s e = Ok dst' \<and> frame dst dst' {d..<n} \<and>
     (\<forall>k. d \<le> k \<and> k < e \<longrightarrow> dst' ! k = src ! (s + (k - d)))"
proof (induction src dst d s e rule: LZ4_wildCopy_from.induct)
  case (1 src dst d s e)
  obtain d1 where d1: "copy_from 8 src dst d s = Ok d1" "frame dst d1 {d..<d + 8}"
    "\<And>k. d \<le> k \<Longrightarrow> k < d + 8 \<Longrightarrow> d1 ! k = src ! (s + (k - d))"
    using copy_from_nth [of s 8 src d dst] "1.prems" by auto
  have f1: "frame dst d1 {d..<n}" by (rule frame_mono [OF d1(2)]) (use "1.prems" in auto)
  show ?case
  proof (cases "d + 8 < e")
    case False
    with d1 f1 show ?thesis by (auto simp: LZ4_wildCopy_from.simps [of src dst])
  next
    case True
    have len: "length d1 = length dst" by (rule frame_length [OF d1(2)])
    have far: "s + 8 + 8 \<le> length src" "s + 8 + (e - (d + 8)) + 7 \<le> length src" "d + 8 + 8 \<le> n"
      using True "1.prems" by arith+
    obtain d2 where d2: "LZ4_wildCopy_from src d1 (d + 8) (s + 8) e = Ok d2" "frame d1 d2 {d + 8..<n}"
      "\<And>k. d + 8 \<le> k \<Longrightarrow> k < e \<Longrightarrow> d2 ! k = src ! (s + 8 + (k - (d + 8)))"
      using "1.IH" [OF d1(1) True far(3) "1.prems"(2) _ far(1,2)] "1.prems"(3) len by auto
    have "frame dst d2 {d..<n}" by (rule frame_trans [OF f1 d2(2)]) auto
    moreover have "d2 ! k = src ! (s + (k - d))" if "d \<le> k" "k < e" for k
    proof (cases "k < d + 8")
      case True
      have "d2 ! k = d1 ! k" using d2(2) True that "1.prems" len by (simp add: frame_def)
      with True that d1(3) show ?thesis by simp
    next
      case False
      with d2(3) [of k] that show ?thesis by simp
    qed
    ultimately show ?thesis using d1(1) d2(1) True by (auto simp: LZ4_wildCopy_from.simps [of src dst])
  qed
qed

definition rest_of :: "bytes \<Rightarrow> nat \<Rightarrow> nat \<Rightarrow> bytes" where
  "rest_of src iend ip = take (iend - ip) (drop ip src)"

lemma rest_of_Cons: "ip < iend \<Longrightarrow> iend \<le> length src \<Longrightarrow> rest_of src iend ip = src ! ip # rest_of src iend (ip + 1)"
  by (simp add: rest_of_def Cons_nth_drop_Suc [symmetric] take_Cons' )

lemma length_rest_of: "iend \<le> length src \<Longrightarrow> length (rest_of src iend ip) = iend - ip"
  by (simp add: rest_of_def)

lemma rest_of_drop: "drop k (rest_of src iend ip) = rest_of src iend (ip + k)"
  by (simp add: rest_of_def drop_take add.commute)

lemma rest_of_take: "ip + k \<le> iend \<Longrightarrow> take k (rest_of src iend ip) = take k (drop ip src)"
  by (simp add: rest_of_def min_def)

lemma extended_grows: "extended 1 bs n = Some (m, r) \<Longrightarrow> n \<le> m"
proof (induction "1 :: nat" bs n rule: extended.induct)
  case (2 b bs n)
  then show ?case by (auto split: if_splits dest!: "2.hyps" [rotated -1])
qed simp

lemma literal_run_ref:
  "iend \<le> length src \<Longrightarrow> ip < iend \<or> ip = iend \<and> iend < length src \<Longrightarrow> 15 \<le> n \<Longrightarrow>
   \<exists>ip' l. literal_run src iend ip n = Ok (ip', l) \<and>
     (extended 1 (rest_of src iend ip) n = Some (l, rest_of src iend ip') \<and> ip' \<le> iend \<or>
      iend < ip' + l \<and> (\<forall>m r. extended 1 (rest_of src iend ip) n = Some (m, r) \<longrightarrow> length r < m))"
proof (induction src iend ip n rule: literal_run.induct)
  case (1 src iend ip n)
  then have b: "rd src ip = Some (src ! ip)" by (auto simp: rd_def)
  show ?case
  proof (cases "ip < iend")
    case False
    with "1.prems" b show ?thesis by (subst literal_run.simps) (auto simp: rest_of_def)
  next
    case ip: True
    note rest = rest_of_Cons [OF ip "1.prems"(1)]
    show ?thesis
    proof (cases "src ! ip = 255")
      case False
      with b ip show ?thesis by (simp add: literal_run.simps [of src iend ip n] rest)
    next
      case True
      show ?thesis
      proof (cases "ip + 1 + 15 < iend")
        case more: True
        from "1.IH" [of "src ! ip"] b more True "1.prems" obtain ip' l where
          "literal_run src iend (ip + 1) (n + 255) = Ok (ip', l)"
          "extended 1 (rest_of src iend (ip + 1)) (n + 255) = Some (l, rest_of src iend ip') \<and> ip' \<le> iend \<or>
            iend < ip' + l \<and> (\<forall>m r. extended 1 (rest_of src iend (ip + 1)) (n + 255) = Some (m, r) \<longrightarrow> length r < m)"
          by auto
        with b more True show ?thesis by (simp add: literal_run.simps [of src iend ip n] rest)
      next
        case stop: False
        have "length r < m" if "extended 1 (rest_of src iend (ip + 1)) (n + 255) = Some (m, r)" for m r
          using extended_grows [OF that] extended_length [OF that] stop "1.prems"
          by (simp add: length_rest_of)
        with b stop True "1.prems" show ?thesis
          by (simp add: literal_run.simps [of src iend ip n] rest)
      qed
    qed
  qed
qed

lemma match_run_ref:
  "iend \<le> length src \<Longrightarrow> ip \<le> iend \<Longrightarrow>
   (\<exists>ip'. match_run src iend ip n = Ok (Inl ip') \<and> ip \<le> ip' \<and> extended 5 (rest_of src iend ip) n = None) \<or>
   (\<exists>ip' l. match_run src iend ip n = Ok (Inr (ip', l)) \<and> ip \<le> ip' \<and> ip' + 4 \<le> iend \<and>
     extended 5 (rest_of src iend ip) n = Some (l, rest_of src iend ip'))"
proof (induction src iend ip n rule: match_run.induct)
  case (1 src iend ip n)
  show ?case
  proof (cases "iend < ip + 5")
    case True
    then have "extended 5 (rest_of src iend ip) n = None"
      using length_rest_of [OF "1.prems"(1), of ip] by (cases "rest_of src iend ip") auto
    with True show ?thesis by (simp add: match_run.simps [of src iend ip n])
  next
    case False
    then have b: "rd src ip = Some (src ! ip)" and rest: "rest_of src iend ip = src ! ip # rest_of src iend (ip + 1)"
      using "1.prems" by (auto simp: rd_def rest_of_Cons)
    have len: "\<not> length (src ! ip # rest_of src iend (ip + 1)) < 5"
      using False "1.prems" by (simp add: length_rest_of)
    show ?thesis
    proof (cases "src ! ip = 255")
      case True
      then show ?thesis
        using "1.IH" [OF False, of "src ! ip"] b False "1.prems" len
        by (auto simp: match_run.simps [of src iend ip n] rest)
    next
      case False2: False
      with b False len show ?thesis by (auto simp: match_run.simps [of src iend ip n] rest)
    qed
  qed
qed

subsection \<open>The decoder agrees\<close>

lemma run_length_match:
  assumes "iend \<le> length src" and "ip + 6 \<le> iend"
  shows "(\<exists>ip'. (if k = 15 then match_run src iend ip 15 else Ok (Inr (ip, k))) = Ok (Inl ip') \<and> ip \<le> ip' \<and>
      run_length 5 (rest_of src iend ip) k = None) \<or>
    (\<exists>ip' l. (if k = 15 then match_run src iend ip 15 else Ok (Inr (ip, k))) = Ok (Inr (ip', l)) \<and> ip \<le> ip' \<and>
      ip' + 2 \<le> iend \<and> run_length 5 (rest_of src iend ip) k = Some (l, rest_of src iend ip'))"
  using match_run_ref [of iend src ip 15] assms by (cases "k = 15") (auto simp: run_length_def)

lemma lz4_match_ref:
  assumes src: "iend \<le> length src" "ip + 8 \<le> iend" and d: "dest \<le> d" "d + 12 \<le> oend" "oend \<le> length dst"
    and addr: "dst_addr + length dst < 18446744073709551616"
  shows "\<exists>r dst'. lz4_match dst_addr src iend dest oend token ip d dst = Ok (r, dst') \<and> frame dst dst' {d..<oend} \<and>
    (case ref_match (oend - dest) token (rest_of src iend ip) (written dest d dst) of
       Malformed \<Rightarrow> \<exists>ip'. r = Inl ip' \<and> ip \<le> ip'
     | ZeroOffset \<Rightarrow> \<exists>ip' d'. r = Inr (ip', d') \<and> ip < ip' \<and> ip' + 2 \<le> iend \<and> d \<le> d' \<and> d' \<le> oend
     | Decoded (input, out) \<Rightarrow> \<exists>ip' d'. r = Inr (ip', d') \<and> ip < ip' \<and> ip' + 2 \<le> iend \<and> d \<le> d' \<and> d' \<le> oend \<and>
         input = rest_of src iend ip' \<and> out = written dest d' dst')"
proof -
  define off where "off = unat (le16 (take 2 (drop ip src)))"
  have le: "slice src ip 2 = Some (take 2 (drop ip src))" using src by (simp add: slice_def)
  have off': "unat (le16 (take 2 (rest_of src iend ip))) = off" using src by (simp add: off_def rest_of_take)
  have lw: "length (written dest d dst) = d - dest" using d by (simp add: length_written)
  let ?k = "unat (token AND 15)"
  show ?thesis
  proof (cases "d < dest + off")
    case True
    with d show ?thesis
      by (auto simp: lz4_match_def le off_def [symmetric] ref_match_def off' lw Let_def)
  next
    case near: False
    then have near': "\<not> d - dest < off" using d by simp
    from run_length_match [OF src(1), of "ip + 2" ?k] src(2) consider
      (none) ip' where "(if ?k = 15 then match_run src iend (ip + 2) 15 else Ok (Inr (ip + 2, ?k))) = Ok (Inl ip')"
        "ip + 2 \<le> ip'" "run_length 5 (rest_of src iend (ip + 2)) ?k = None"
    | (some) ip' l where "(if ?k = 15 then match_run src iend (ip + 2) 15 else Ok (Inr (ip + 2, ?k))) = Ok (Inr (ip', l))"
        "ip + 2 \<le> ip'" "ip' + 2 \<le> iend" "run_length 5 (rest_of src iend (ip + 2)) ?k = Some (l, rest_of src iend ip')"
      by auto
    then show ?thesis
    proof cases
      case none
      with near near' show ?thesis
        by (auto simp: lz4_match_def le off_def [symmetric] ref_match_def off' lw Let_def rest_of_drop)
    next
      case some
      show ?thesis
      proof (cases "?k = 15 \<and> wraps (dst_addr + d + l)")
        case True
        then have "oend < d + l" using addr d(3) by (simp add: wraps_def)
        then have "oend - dest < d - dest + (l + 4) + 5" using d(1) by arith
        with some near near' True show ?thesis
          by (auto simp: lz4_match_def le off_def [symmetric] ref_match_def off' lw Let_def rest_of_drop)
      next
        case False
        obtain ok dst' where c: "match_copy dst oend d (d - off) (l + 4) = Ok (ok, dst')" "frame dst dst' {d..<oend}"
          "ok \<longleftrightarrow> d + (l + 4) + 5 \<le> oend" "ok \<and> 0 < off \<longrightarrow> repeats off d (d + (l + 4)) dst'"
          using match_copy_ok [OF _ _ d(2,3), of "d - off" off "l + 4"] near by auto
        have ok: "ok \<longleftrightarrow> \<not> oend - dest < d - dest + (l + 4) + 5" using c(3) d by arith
        have step: "lz4_match dst_addr src iend dest oend token ip d dst =
            Ok (if ok then Inr (ip', d + (l + 4)) else Inl ip', dst')"
          using near some(1) False c(1) by (auto simp: lz4_match_def le off_def [symmetric] Let_def)
        have ref: "ref_match (oend - dest) token (rest_of src iend ip) (written dest d dst) =
            (if \<not> ok then Malformed else if off = 0 then ZeroOffset
             else Decoded (rest_of src iend ip', repeat_back off (l + 4) (written dest d dst)))"
          using near' some(4) ok by (simp add: ref_match_def off' lw rest_of_drop Let_def)
        have "repeat_back off (l + 4) (written dest d dst) = written dest (d + (l + 4)) dst'" if "ok" "0 < off"
          using repeat_back_written [of off d "l + 4" dst' dest] c(2-4) that near d
          by (simp add: written_frame frame_length)
        with step ref c(2,3) some(2,3) show ?thesis by auto
      qed
    qed
  qed
qed

text \<open>A result of the decoder agrees with one of the reference.\<close>

definition agrees :: "nat \<Rightarrow> nat \<Rightarrow> nat \<Rightarrow> bytes \<Rightarrow> (int \<times> bytes) res \<Rightarrow> bytes decoded \<Rightarrow> bool" where
  "agrees dest oend d dst r ref \<longleftrightarrow> (\<exists>n dst'. r = Ok (n, dst') \<and> frame dst dst' {d..<oend} \<and> n \<le> int oend - int dest \<and>
     (case ref of Malformed \<Rightarrow> n < 0 | ZeroOffset \<Rightarrow> True
      | Decoded out \<Rightarrow> n = int (length out) \<and> out = written dest (dest + length out) dst'))"

lemma agrees_later:
  assumes "agrees dest oend d' dst' r ref" and "frame dst dst' {d..<oend}" and "d \<le> d'"
  shows "agrees dest oend d dst r ref"
proof -
  have "frame dst dst2 {d..<oend}" if "frame dst' dst2 {d'..<oend}" for dst2
    by (rule frame_trans [OF assms(2) that]) (use assms(3) in auto)
  with assms(1) show ?thesis unfolding agrees_def by blast
qed

lemma agrees_error:
  assumes "source \<le> ip" and "dest \<le> oend" and "frame dst dst' {d..<oend}"
  shows "agrees dest oend d dst (lz4_error source ip dst') Malformed"
  using assms by (auto simp: agrees_def lz4_error_def)

text \<open>The length of the literals: where they start, or an error either way.\<close>

lemma run_length_literals:
  assumes "iend \<le> length src" and "ip < iend \<or> ip = iend \<and> iend < length src"
  shows "\<exists>ip' l. (if k = 15 then literal_run src iend ip 15 else Ok (ip, k)) = Ok (ip', l) \<and> ip \<le> ip' \<and>
    (run_length 1 (rest_of src iend ip) k = Some (l, rest_of src iend ip') \<and> ip' \<le> iend \<or>
     iend < ip' + l \<and> (\<forall>m r. run_length 1 (rest_of src iend ip) k = Some (m, r) \<longrightarrow> length r < m))"
proof (cases "k = 15")
  case True
  with literal_run_ref [OF assms, of 15] show ?thesis
    by (auto simp: run_length_def intro: literal_run_ge [THEN less_imp_le])
qed (use assms in \<open>auto simp: run_length_def\<close>)

lemma ref_too_long:
  "length r < m \<Longrightarrow>
   (if room < length out + m + 12 \<or> length r < m + 8 then
      (if length r = m \<and> length out + m \<le> room then Decoded (out @ r) else Malformed) else y) = Malformed"
  by auto

lemma lz4_ref_eq:
  "ip < iend \<Longrightarrow> iend \<le> length src \<Longrightarrow>
   lz4_ref room (rest_of src iend ip) out =
     (case run_length 1 (rest_of src iend (ip + 1)) (unat (drop_bit 4 (src ! ip))) of None \<Rightarrow> Malformed
      | Some (len, input) \<Rightarrow>
          if room < length out + len + 12 \<or> length input < len + 8 then
            (if length input = len \<and> length out + len \<le> room then Decoded (out @ input) else Malformed)
          else (case ref_match room (src ! ip) (drop len input) (out @ take len input) of
              Malformed \<Rightarrow> Malformed | ZeroOffset \<Rightarrow> ZeroOffset
            | Decoded (input, out) \<Rightarrow> lz4_ref room input out))"
  by (subst lz4_ref.simps) (simp add: rest_of_Cons)

lemma literals_written:
  assumes f: "frame dst dst1 {d..<n}" and d: "dest \<le> d" "d + l \<le> length dst" and s: "ip + l \<le> iend" "iend \<le> length src"
    and b: "\<And>k. d \<le> k \<Longrightarrow> k < d + l \<Longrightarrow> dst1 ! k = src ! (ip + (k - d))"
  shows "written dest (d + l) dst1 = written dest d dst @ take l (rest_of src iend ip)"
proof (rule nth_equalityI)
  have len: "length dst1 = length dst" by (rule frame_length [OF f])
  have lw: "length (written dest d dst) = d - dest" using d by (simp add: length_written)
  show "length (written dest (d + l) dst1) = length (written dest d dst @ take l (rest_of src iend ip))"
    using d s by (simp add: length_written len length_rest_of)
  fix i assume "i < length (written dest (d + l) dst1)"
  then have i: "i < d + l - dest" using d by (simp add: length_written len)
  then have left: "written dest (d + l) dst1 ! i = dst1 ! (dest + i)" using d len by (simp add: written_nth)
  show "written dest (d + l) dst1 ! i = (written dest d dst @ take l (rest_of src iend ip)) ! i"
  proof (cases "i < d - dest")
    case True
    then have "dest + i < d" by simp
    then have "dst1 ! (dest + i) = dst ! (dest + i)" using f d by (auto simp: frame_def)
    then show ?thesis using left True d lw by (simp add: nth_append written_nth)
  next
    case False
    then have "d \<le> dest + i" "dest + i < d + l" "i - (d - dest) < l" "dest + i - d = i - (d - dest)" using i d by auto
    then show ?thesis using left False lw b [of "dest + i"] s
      by (simp add: nth_append rest_of_def)
  qed
qed

lemma agrees_any: "agrees dest oend d dst r ref \<Longrightarrow> agrees dest oend d dst r ZeroOffset"
  by (auto simp: agrees_def)

lemma lz4_loop_ref:
  assumes src: "iend \<le> length src" and oend: "oend \<le> N"
    and addr: "dst_addr + N < 18446744073709551616" "src_addr + length src < 18446744073709551616"
  shows "source \<le> ip \<Longrightarrow> ip + 2 \<le> iend \<or> ip + 1 = iend \<and> iend < length src \<Longrightarrow> dest \<le> d \<Longrightarrow> d \<le> oend \<Longrightarrow> length dst = N \<Longrightarrow>
    agrees dest oend d dst (lz4_loop src_addr dst_addr src source iend dest oend ip d dst)
      (lz4_ref (oend - dest) (rest_of src iend ip) (written dest d dst))"
proof (induction "iend - ip" arbitrary: ip d dst rule: less_induct)
  case less
  let ?loop = "lz4_loop src_addr dst_addr src source iend dest oend"
  let ?ref = "lz4_ref (oend - dest) (rest_of src iend ip) (written dest d dst)"
  let ?token = "src ! ip" and ?k = "unat (drop_bit 4 (src ! ip))"
  have ip: "ip < iend" using less.prems(2) by auto
  with src have b: "rd src ip = Some ?token" by (simp add: rd_def)
  note ref = lz4_ref_eq [OF ip src, of "oend - dest" "written dest d dst"]
  have lw: "length (written dest d dst) = d - dest" using less.prems oend by (simp add: length_written)
  obtain ip' l where run: "(if ?k = 15 then literal_run src iend (ip + 1) 15 else Ok (ip + 1, ?k)) = Ok (ip', l)" "ip + 1 \<le> ip'"
    and alt: "run_length 1 (rest_of src iend (ip + 1)) ?k = Some (l, rest_of src iend ip') \<and> ip' \<le> iend \<or>
     iend < ip' + l \<and> (\<forall>m r. run_length 1 (rest_of src iend (ip + 1)) ?k = Some (m, r) \<longrightarrow> length r < m)"
    using run_length_literals [OF src, of "ip + 1" ?k] less.prems(2) by auto
  let ?wrap = "?k = 15 \<and> (wraps (dst_addr + d + l) \<or> wraps (src_addr + ip' + l))"
  let ?last = "oend < d + l + 12 \<or> iend < ip' + l + 8"
  have step: "?loop ip d dst =
      (if ?wrap then lz4_error source ip' dst
       else if ?last then
         (if ip' + l \<noteq> iend \<or> oend < d + l then lz4_error source ip' dst
          else map_res (\<lambda>dst. (int (d + l) - int dest, dst)) (copy_from l src dst d ip'))
       else
         andthen (LZ4_wildCopy_from src dst d ip' (d + l)) (\<lambda>dst.
         andthen (lz4_match dst_addr src iend dest oend ?token (ip' + l) (d + l) dst) (\<lambda>(r, dst).
           case r of Inl ip \<Rightarrow> lz4_error source ip dst | Inr (ip, d) \<Rightarrow> ?loop ip d dst)))"
    by (subst lz4_loop.simps) (simp only: b of_opt.simps andthen.simps Let_def run(1) prod.case)
  have err: "agrees dest oend d dst (lz4_error source ip' dst) Malformed"
    using agrees_error [of source ip' dest oend dst dst d] run(2) less.prems by simp
  from alt show ?case
  proof
    assume long: "iend < ip' + l \<and> (\<forall>m r. run_length 1 (rest_of src iend (ip + 1)) ?k = Some (m, r) \<longrightarrow> length r < m)"
    then have "?loop ip d dst = lz4_error source ip' dst" unfolding step by simp
    moreover have "?ref = Malformed" using long ref_too_long unfolding ref by (auto split: option.split)
    ultimately show ?thesis using err by simp
  next
    assume lit: "run_length 1 (rest_of src iend (ip + 1)) ?k = Some (l, rest_of src iend ip') \<and> ip' \<le> iend"
    have lr: "length (rest_of src iend ip') = iend - ip'" by (rule length_rest_of [OF src])
    have last: "?last \<longleftrightarrow> oend - dest < d - dest + l + 12 \<or> iend - ip' < l + 8"
      using lit less.prems by arith
    show ?thesis
    proof (cases "?wrap \<or> ?last \<and> (ip' + l \<noteq> iend \<or> oend < d + l)")
      case True
      have "oend < d + l \<or> iend < ip' + l" if ?wrap
        using that addr oend src by (auto simp: wraps_def)
      with True have "?last" "ip' + l \<noteq> iend \<or> oend < d + l" by auto
      then have "?ref = Malformed"
        unfolding ref using lit last less.prems by (auto simp: lw lr)
      moreover have "?loop ip d dst = lz4_error source ip' dst" using True unfolding step by auto
      ultimately show ?thesis using err by simp
    next
      case ok: False
      show ?thesis
      proof (cases "?last")
        case True
        with ok have fit: "ip' + l = iend" "d + l \<le> oend" by auto
        obtain dst1 where c: "copy_from l src dst d ip' = Ok dst1" "frame dst dst1 {d..<d + l}"
          "\<And>k. d \<le> k \<Longrightarrow> k < d + l \<Longrightarrow> dst1 ! k = src ! (ip' + (k - d))"
          using copy_from_nth [of ip' l src d dst] fit src oend less.prems by auto
        have w: "written dest (d + l) dst1 = written dest d dst @ take l (rest_of src iend ip')"
          by (rule literals_written [OF c(2)]) (use fit src oend less.prems c(3) in auto)
        have "?ref = Decoded (written dest d dst @ rest_of src iend ip')"
          unfolding ref using lit last True fit less.prems by (auto simp: lw lr)
        moreover have "frame dst dst1 {d..<oend}" by (rule frame_mono [OF c(2)]) (use fit in auto)
        moreover have "?loop ip d dst = Ok (int (d + l) - int dest, dst1)"
          using ok True c(1) fit unfolding step by auto
        ultimately show ?thesis
          using w fit less.prems lit by (auto simp: agrees_def lw lr)
      next
        case False
        obtain dst1 where c: "LZ4_wildCopy_from src dst d ip' (d + l) = Ok dst1" "frame dst dst1 {d..<oend}"
          "\<And>k. d \<le> k \<Longrightarrow> k < d + l \<Longrightarrow> dst1 ! k = src ! (ip' + (k - d))"
          using wildCopy_from_ok [of d oend "d + l" dst ip' src] False src oend less.prems by auto
        have w: "written dest (d + l) dst1 = written dest d dst @ take l (rest_of src iend ip')"
          by (rule literals_written [OF c(2)]) (use False src oend less.prems c(3) in auto)
        have N: "length dst1 = N" using frame_length [OF c(2)] less.prems by simp
        let ?rm = "ref_match (oend - dest) ?token (rest_of src iend (ip' + l)) (written dest (d + l) dst1)"
        obtain r dst2 where m: "lz4_match dst_addr src iend dest oend ?token (ip' + l) (d + l) dst1 = Ok (r, dst2)"
            "frame dst1 dst2 {d + l..<oend}"
          and r: "case ?rm of
             Malformed \<Rightarrow> \<exists>ip2. r = Inl ip2 \<and> ip' + l \<le> ip2
           | ZeroOffset \<Rightarrow> \<exists>ip2 d2. r = Inr (ip2, d2) \<and> ip' + l < ip2 \<and> ip2 + 2 \<le> iend \<and> d + l \<le> d2 \<and> d2 \<le> oend
           | Decoded (input, out) \<Rightarrow> \<exists>ip2 d2. r = Inr (ip2, d2) \<and> ip' + l < ip2 \<and> ip2 + 2 \<le> iend \<and>
               d + l \<le> d2 \<and> d2 \<le> oend \<and> input = rest_of src iend ip2 \<and> out = written dest d2 dst2"
          using lz4_match_ref [OF src, of "ip' + l" dest "d + l" oend dst1 dst_addr ?token] False oend addr less.prems N
          by auto
        have f2: "frame dst dst2 {d..<oend}" by (rule frame_trans [OF c(2) m(2)]) auto
        have loop: "?loop ip d dst = (case r of Inl ip \<Rightarrow> lz4_error source ip dst2 | Inr (ip, d) \<Rightarrow> ?loop ip d dst2)"
          using ok False c(1) m(1) unfolding step by auto
        have ref2: "?ref = (case ?rm of Malformed \<Rightarrow> Malformed | ZeroOffset \<Rightarrow> ZeroOffset
            | Decoded (input, out) \<Rightarrow> lz4_ref (oend - dest) input out)"
          unfolding ref using lit last False by (simp add: lw lr w rest_of_drop)
        have go: "agrees dest oend d dst (?loop ip2 d2 dst2)
            (lz4_ref (oend - dest) (rest_of src iend ip2) (written dest d2 dst2))"
          if "ip' + l < ip2" "ip2 + 2 \<le> iend" "d + l \<le> d2" "d2 \<le> oend" for ip2 d2
        proof (rule agrees_later [OF _ f2])
          show "agrees dest oend d2 dst2 (?loop ip2 d2 dst2)
              (lz4_ref (oend - dest) (rest_of src iend ip2) (written dest d2 dst2))"
            by (rule less.hyps) (use that run(2) less.prems frame_length [OF m(2)] N in auto)
        qed (use that in auto)
        show ?thesis
        proof (cases ?rm)
          case Malformed
          with r obtain ip2 where "r = Inl ip2" "ip' + l \<le> ip2" by auto
          with Malformed loop ref2 agrees_error [OF _ _ f2, of source ip2 dest] run(2) less.prems show ?thesis by auto
        next
          case ZeroOffset
          with r obtain ip2 d2 where "r = Inr (ip2, d2)" "ip' + l < ip2" "ip2 + 2 \<le> iend" "d + l \<le> d2" "d2 \<le> oend"
            by auto
          with ZeroOffset loop ref2 agrees_any [OF go] show ?thesis by simp
        next
          case (Decoded io)
          with r obtain ip2 d2 where "r = Inr (ip2, d2)" "ip' + l < ip2" "ip2 + 2 \<le> iend" "d + l \<le> d2" "d2 \<le> oend"
            "io = (rest_of src iend ip2, written dest d2 dst2)" by (cases io) auto
          with Decoded loop ref2 go show ?thesis by simp
        qed
      qed
    qed
  qed
qed

subsection \<open>Frames\<close>

definition block_ref :: "nat \<Rightarrow> bytes \<Rightarrow> bytes decoded" where
  "block_ref room input =
     (if room = 0 then (if input = [0] then Decoded [] else Malformed) else lz4_ref room input [])"

function blocks_ref :: "bool \<Rightarrow> nat \<Rightarrow> bytes \<Rightarrow> bytes \<Rightarrow> bytes decoded" where
  "blocks_ref check room input out =
     (if length input < 4 then Malformed
      else
      let b = le32 (take 4 input); sz = unat (take_bit 31 b); input = drop 4 input in
      if length input < sz then Malformed
      else if sz = 0 then Decoded out
      else
        case (if bit b 31 then (if room - length out < sz then Malformed else Decoded (take sz input))
              else block_ref (room - length out) (take sz input)) of
          Malformed \<Rightarrow> Malformed | ZeroOffset \<Rightarrow> ZeroOffset
        | Decoded bs \<Rightarrow> blocks_ref check room (drop (sz + (if check then 4 else 0)) input) (out @ bs))"
  by pat_completeness auto

termination
  by (relation "measure (\<lambda>(check, room, input, out). length input)") auto

declare blocks_ref.simps [simp del]

definition frame_ref :: "nat \<Rightarrow> bytes \<Rightarrow> bytes decoded" where
  "frame_ref room input =
     (if length input < 15 then Malformed
      else
      let h = \<lparr>fh_magic = le32 (take 4 input), fh_flags = input ! 4, fh_block_descriptor = input ! 5\<rparr> in
      if fh_magic h = LZ4F_MAGICNUMBER \<and> fh_version h = 1 \<and> fh_reserved_clear h \<and> bit (fh_flags h) 5
      then blocks_ref (bit (fh_flags h) 4) room (drop (if bit (fh_flags h) 3 then 15 else 7) input) []
      else Malformed)"

lemma LZ4_decompress_generic_ref:
  assumes src: "source + inputSize < length src" "0 < inputSize" and dst: "dest + outputSize \<le> length dst"
    and int: "inputSize < 2147483648" "outputSize < 2147483648"
    and addr: "dst_addr + length dst < 18446744073709551616" "src_addr + length src < 18446744073709551616"
  shows "agrees dest (dest + outputSize) dest dst
    (LZ4_decompress_generic src_addr dst_addr src source (word_of_nat inputSize) dest (word_of_nat outputSize) dst)
    (block_ref outputSize (take inputSize (drop source src)))"
proof -
  have w: "sint (word_of_nat k :: u32) = int k" "unat (word_of_nat k :: u32) = k" if "k < 2147483648" for k
    using that by (simp_all add: signed_of_nat signed_take_bit_int_eq_self unat_u32_of_nat)
  then have eqs: "(word_of_nat inputSize :: u32) = 1 \<longleftrightarrow> inputSize = 1" "(word_of_nat outputSize :: u32) = 0 \<longleftrightarrow> outputSize = 0"
    by (simp_all add: word_unat_eq_iff w(2) [OF int(1)] w(2) [OF int(2)])
  have ends: "nat (int source + int inputSize) = source + inputSize" "nat (int dest + int outputSize) = dest + outputSize" by simp_all
  have def: "LZ4_decompress_generic src_addr dst_addr src source (word_of_nat inputSize) dest (word_of_nat outputSize) dst =
     (if outputSize = 0 then
        (if inputSize = 1
         then map_res (\<lambda>b. (if b = 0 then 0 else - 1, dst)) (of_opt (rd src source))
         else Ok (- 1, dst))
      else lz4_loop src_addr dst_addr src source (source + inputSize) dest (dest + outputSize) source dest dst)"
    by (simp add: LZ4_decompress_generic_def eqs w(1) [OF int(1)] w(1) [OF int(2)] ends Let_def)
  show ?thesis
  proof (cases "outputSize = 0")
    case False
    have "written dest dest dst = []" "rest_of src (source + inputSize) source = take inputSize (drop source src)"
      by (simp_all add: written_def rest_of_def)
    moreover have "source + 2 \<le> source + inputSize \<or> source + 1 = source + inputSize \<and> source + inputSize < length src"
      using src by arith
    ultimately show ?thesis
      using False assms
        lz4_loop_ref [of "source + inputSize" src "dest + outputSize" "length dst" dst_addr src_addr source source dest dest dst]
      by (simp add: def block_ref_def)
  next
    case True
    have "rd src source = Some (src ! source)" using src by (simp add: rd_def)
    moreover have "take inputSize (drop source src) = [0] \<longleftrightarrow> inputSize = 1 \<and> src ! source = 0"
    proof
      assume "take inputSize (drop source src) = [0]"
      then have "length (take inputSize (drop source src)) = 1" "hd (take inputSize (drop source src)) = 0" by simp_all
      then show "inputSize = 1 \<and> src ! source = 0" using src by (simp add: hd_drop_conv_nth)
    next
      assume "inputSize = 1 \<and> src ! source = 0"
      then show "take inputSize (drop source src) = [0]" using src by (simp add: take_Suc hd_drop_conv_nth)
    qed
    ultimately show ?thesis unfolding def using True
      by (auto simp: block_ref_def agrees_def written_def)
  qed
qed

text \<open>The same for a number of blocks written from \<open>out\<close> on; failure is the result 0.\<close>

definition frame_agrees :: "nat \<Rightarrow> nat \<Rightarrow> bytes \<Rightarrow> (nat \<times> bytes) res \<Rightarrow> bytes decoded \<Rightarrow> bool" where
  "frame_agrees out dstn dst r ref \<longleftrightarrow> (\<exists>n dst'. r = Ok (n, dst') \<and> frame dst dst' {out..<dstn} \<and> n \<le> dstn \<and>
     (case ref of Malformed \<Rightarrow> n = 0 | ZeroOffset \<Rightarrow> True | Decoded bs \<Rightarrow> n = length bs \<and> bs = take n dst'))"

lemma frame_agrees_later:
  assumes "frame_agrees out' dstn dst' r ref" and "frame dst dst' {out..<dstn}" and "out \<le> out'"
  shows "frame_agrees out dstn dst r ref"
proof -
  have "frame dst dst2 {out..<dstn}" if "frame dst' dst2 {out'..<dstn}" for dst2
    by (rule frame_trans [OF assms(2) that]) (use assms(3) in auto)
  with assms(1) show ?thesis unfolding frame_agrees_def by blast
qed

lemma frame_agrees_any: "frame_agrees out dstn dst r ref \<Longrightarrow> frame_agrees out dstn dst r ZeroOffset"
  by (auto simp: frame_agrees_def)

lemma frame_agrees_fail: "frame dst dst' {out..<dstn} \<Longrightarrow> frame_agrees out dstn dst (Ok (0, dst')) ZeroOffset"
  by (simp add: frame_agrees_def)

text \<open>One block, stored or compressed.\<close>

definition one_block ::
  "nat \<Rightarrow> nat \<Rightarrow> bytes \<Rightarrow> nat \<Rightarrow> bool \<Rightarrow> nat \<Rightarrow> nat \<Rightarrow> nat \<Rightarrow> bytes \<Rightarrow> (nat option \<times> bytes) res" where
  "one_block src_addr dst_addr src pos stored sz out dstn dst =
     (if stored then
        (let n = min sz (dstn - out) in
         andthen (copy_from n src dst out pos) (\<lambda>dst. Ok (if n < sz then None else Some (out + n), dst)))
      else
        map_res (\<lambda>(ret, dst). (if ret < 0 then None else Some (nat (int out + ret)), dst))
          (LZ4_decompress_generic src_addr dst_addr src pos (word_of_nat sz) out (word_of_int (int dstn - int out)) dst))"

lemma take_frame:
  assumes "frame dst dst' {out..<n}" and "out \<le> length dst"
  shows "take out dst' = take out dst"
  using assms by (intro nth_equalityI) (auto simp: frame_def)

lemma one_block_ref:
  assumes src: "pos + sz < length src" "0 < sz" "sz < 2147483648" and dst: "out \<le> dstn" "dstn \<le> length dst" "dstn < 2147483648"
    and addr: "dst_addr + length dst < 18446744073709551616" "src_addr + length src < 18446744073709551616"
  shows "\<exists>r dst'. one_block src_addr dst_addr src pos stored sz out dstn dst = Ok (r, dst') \<and> frame dst dst' {out..<dstn} \<and>
    (case (if stored then (if dstn - out < sz then Malformed else Decoded (take sz (drop pos src)))
           else block_ref (dstn - out) (take sz (drop pos src))) of
       Malformed \<Rightarrow> r = None
     | ZeroOffset \<Rightarrow> (\<forall>out'. r = Some out' \<longrightarrow> out \<le> out' \<and> out' \<le> dstn)
     | Decoded bs \<Rightarrow> r = Some (out + length bs) \<and> out + length bs \<le> dstn \<and> take (out + length bs) dst' = take out dst @ bs)"
proof (cases stored)
  case True
  let ?n = "min sz (dstn - out)"
  obtain dst' where c: "copy_from ?n src dst out pos = Ok dst'" "frame dst dst' {out..<out + ?n}"
    "\<And>k. out \<le> k \<Longrightarrow> k < out + ?n \<Longrightarrow> dst' ! k = src ! (pos + (k - out))"
  proof -
    have "pos + ?n \<le> length src" "out + ?n \<le> length dst" using src dst by arith+
    from copy_from_nth [OF this] that show ?thesis by blast
  qed
  have f: "frame dst dst' {out..<dstn}" by (rule frame_mono [OF c(2)]) auto
  have "take (out + sz) dst' = take out dst @ take sz (drop pos src)" if "sz \<le> dstn - out"
  proof -
    have "take sz (drop out dst') = take sz (drop pos src)"
      using c(3) that src dst frame_length [OF f] by (intro nth_equalityI) auto
    then show ?thesis using take_frame [OF f] dst by (simp add: take_add)
  qed
  with True c(1) f src dst show ?thesis by (auto simp: one_block_def Let_def min_def)
next
  case False
  have e: "out + (dstn - out) = dstn" using dst by simp
  have room: "(word_of_int (int dstn - int out) :: u32) = word_of_nat (dstn - out)" using dst(1) by (simp add: of_nat_diff)
  have left: "out + (dstn - out) \<le> length dst" "dstn - out < 2147483648" using dst by arith+
  from LZ4_decompress_generic_ref [OF src(1,2) left(1) src(3) left(2) addr]
  obtain n dst' where r: "LZ4_decompress_generic src_addr dst_addr src pos (word_of_nat sz) out (word_of_nat (dstn - out)) dst = Ok (n, dst')"
    and f: "frame dst dst' {out..<dstn}" and n: "n \<le> int dstn - int out"
    and ref: "case block_ref (dstn - out) (take sz (drop pos src)) of Malformed \<Rightarrow> n < 0 | ZeroOffset \<Rightarrow> True
      | Decoded bs \<Rightarrow> n = int (length bs) \<and> bs = written out (out + length bs) dst'"
    unfolding agrees_def e by blast
  have step: "one_block src_addr dst_addr src pos stored sz out dstn dst =
      Ok (if n < 0 then None else Some (nat (int out + n)), dst')"
    using False r by (simp only: one_block_def room) simp
  show ?thesis
  proof (cases "block_ref (dstn - out) (take sz (drop pos src))")
    case (Decoded bs)
    with ref have bs: "n = int (length bs)" "bs = written out (out + length bs) dst'" by auto
    then have "take (out + length bs) dst' = take out dst' @ bs"
      by (simp add: take_add) (simp add: written_def)
    with bs step f n Decoded False dst take_frame [OF f] show ?thesis by (auto simp: nat_add_distrib)
  qed (use ref step f n False dst in auto)
qed

lemma lz4_blocks_one:
  "lz4_blocks src_addr dst_addr src srcn check pos out dstn dst =
     andthen (of_opt (slice src pos 4)) (\<lambda>raw.
     let b = le32 raw; sz = unat (take_bit 31 b); pos = pos + 4 in
     if srcn < pos + sz then Ok (0, dst)
     else if sz = 0 then Ok (out, dst)
     else andthen (one_block src_addr dst_addr src pos (bit b 31) sz out dstn dst) (\<lambda>(out', dst).
       case out' of None \<Rightarrow> Ok (0, dst)
       | Some out \<Rightarrow> lz4_blocks src_addr dst_addr src srcn check (pos + sz + (if check then 4 else 0)) out dstn dst))"
  by (subst lz4_blocks.simps) (simp add: one_block_def Let_def cong: if_cong)

lemma lz4_blocks_ref:
  assumes src: "srcn + 8 \<le> length src" and int: "dstn < 2147483648"
    and addr: "dst_addr + N < 18446744073709551616" "src_addr + length src < 18446744073709551616"
  shows "pos \<le> srcn + 4 \<Longrightarrow> out \<le> dstn \<Longrightarrow> dstn \<le> N \<Longrightarrow> length dst = N \<Longrightarrow>
    frame_agrees out dstn dst (lz4_blocks src_addr dst_addr src srcn check pos out dstn dst)
      (blocks_ref check dstn (rest_of src srcn pos) (take out dst))"
proof (induction "srcn + 4 - pos" arbitrary: pos out dst rule: less_induct)
  case less
  let ?loop = "lz4_blocks src_addr dst_addr src srcn check"
  let ?raw = "take 4 (drop pos src)"
  let ?b = "le32 ?raw" and ?sz = "unat (take_bit 31 (le32 ?raw))"
  have raw: "slice src pos 4 = Some ?raw" using less.prems src by (simp add: slice_def)
  have step: "?loop pos out dstn dst =
     (if srcn < pos + 4 + ?sz then Ok (0, dst)
      else if ?sz = 0 then Ok (out, dst)
      else andthen (one_block src_addr dst_addr src (pos + 4) (bit ?b 31) ?sz out dstn dst) (\<lambda>(out', dst).
        case out' of None \<Rightarrow> Ok (0, dst)
        | Some out \<Rightarrow> ?loop (pos + 4 + ?sz + (if check then 4 else 0)) out dstn dst))"
    by (subst lz4_blocks_one) (simp only: raw of_opt.simps andthen.simps Let_def)
  have small: "?sz < 2147483648"
  proof -
    have "unat (take_bit 31 (le32 ?raw)) = take_bit 31 (unat (le32 ?raw))" by (simp add: unsigned_take_bit_eq)
    also have "\<dots> < 2 ^ 31" by (rule take_bit_nat_less_exp)
    finally show ?thesis by simp
  qed
  have lr: "length (rest_of src srcn p) = srcn - p" for p using src by (simp add: length_rest_of)
  show ?case
  proof (cases "srcn < pos + 4 + ?sz")
    case True
    have "blocks_ref check dstn (rest_of src srcn pos) (take out dst) = Malformed"
    proof (cases "srcn < pos + 4")
      case True
      then show ?thesis by (subst blocks_ref.simps) (auto simp: lr)
    next
      case False
      with True show ?thesis
        by (subst blocks_ref.simps) (auto simp: lr rest_of_take Let_def)
    qed
    with True show ?thesis unfolding step by (simp add: frame_agrees_def)
  next
    case fits: False
    let ?blk = "if bit ?b 31 then (if dstn - out < ?sz then Malformed else Decoded (take ?sz (drop (pos + 4) src)))
      else block_ref (dstn - out) (take ?sz (drop (pos + 4) src))"
    have ref: "blocks_ref check dstn (rest_of src srcn pos) (take out dst) =
        (if ?sz = 0 then Decoded (take out dst)
         else case ?blk of Malformed \<Rightarrow> Malformed | ZeroOffset \<Rightarrow> ZeroOffset
         | Decoded bs \<Rightarrow> blocks_ref check dstn (rest_of src srcn (pos + 4 + ?sz + (if check then 4 else 0))) (take out dst @ bs))"
    proof -
      have c1: "\<not> length (rest_of src srcn pos) < 4" "\<not> length (rest_of src srcn (pos + 4)) < ?sz"
        using fits by (simp_all add: lr)
      have c2: "take 4 (rest_of src srcn pos) = ?raw" "take ?sz (rest_of src srcn (pos + 4)) = take ?sz (drop (pos + 4) src)"
        using fits by (auto intro!: rest_of_take)
      have c3: "drop (?sz + (if check then 4 else 0)) (rest_of src srcn (pos + 4)) =
          rest_of src srcn (pos + 4 + ?sz + (if check then 4 else 0))"
        by (simp add: rest_of_drop add.assoc)
      have c4: "length (take out dst) = out" using less.prems by simp
      show ?thesis
        by (subst blocks_ref.simps) (simp only: Let_def c1 c2 rest_of_drop [of 4] c3 c4 if_False)
    qed
    show ?thesis
    proof (cases "?sz = 0")
      case True
      with fits less.prems show ?thesis unfolding step ref by (simp add: frame_agrees_def)
    next
      case False
      obtain r dst' where o: "one_block src_addr dst_addr src (pos + 4) (bit ?b 31) ?sz out dstn dst = Ok (r, dst')"
          "frame dst dst' {out..<dstn}"
        and r: "case ?blk of Malformed \<Rightarrow> r = None
          | ZeroOffset \<Rightarrow> (\<forall>out'. r = Some out' \<longrightarrow> out \<le> out' \<and> out' \<le> dstn)
          | Decoded bs \<Rightarrow> r = Some (out + length bs) \<and> out + length bs \<le> dstn \<and> take (out + length bs) dst' = take out dst @ bs"
        using one_block_ref [of "pos + 4" ?sz src out dstn dst dst_addr src_addr "bit ?b 31"] False fits small src int addr less.prems
        by auto
      have loop: "?loop pos out dstn dst = (case r of None \<Rightarrow> Ok (0, dst')
          | Some out \<Rightarrow> ?loop (pos + 4 + ?sz + (if check then 4 else 0)) out dstn dst')"
        using fits False o(1) unfolding step by simp
      have go: "frame_agrees out dstn dst (?loop (pos + 4 + ?sz + (if check then 4 else 0)) out' dstn dst')
          (blocks_ref check dstn (rest_of src srcn (pos + 4 + ?sz + (if check then 4 else 0))) (take out' dst'))"
        if "out \<le> out'" "out' \<le> dstn" for out'
      proof (rule frame_agrees_later [OF _ o(2) that(1)])
        show "frame_agrees out' dstn dst' (?loop (pos + 4 + ?sz + (if check then 4 else 0)) out' dstn dst')
          (blocks_ref check dstn (rest_of src srcn (pos + 4 + ?sz + (if check then 4 else 0))) (take out' dst'))"
          by (rule less.hyps) (use that fits less.prems frame_length [OF o(2)] in auto)
      qed
      show ?thesis
      proof (cases ?blk)
        case Malformed
        with r loop ref False o(2) show ?thesis by (simp add: frame_agrees_def)
      next
        case ZeroOffset
        then have "frame_agrees out dstn dst (?loop pos out dstn dst) ZeroOffset"
          using r loop frame_agrees_any [OF go] o(2) by (cases r) (auto simp: frame_agrees_fail)
        with ZeroOffset ref False show ?thesis by simp
      next
        case (Decoded bs)
        with r loop ref False go [of "out + length bs"] show ?thesis by simp
      qed
    qed
  qed
qed

text \<open>
  C1. For an output of less than 2 GiB and given eight readable bytes after the input, \<open>ulz4fn\<close>
  decompresses a frame exactly as the format says.  It never faults, writes nothing outside the \<open>dstn\<close> bytes of the output,
  and returns the number of bytes the reference decoder makes, having put them there; where
  the reference finds the frame malformed or too large it returns 0.  On a match of offset 0,
  which the format does not have, it still stays in bounds, but what it makes is not defined.
\<close>

theorem ulz4fn_decodes:
  assumes "srcn + 8 \<le> length src" and "dstn \<le> length dst" and "dstn < 2147483648"
    and "dst_addr + length dst < 18446744073709551616" and "src_addr + length src < 18446744073709551616"
  shows "\<exists>n dst'. ulz4fn src_addr dst_addr src srcn dstn dst = Ok (n, dst') \<and> frame dst dst' {0..<dstn} \<and> n \<le> dstn \<and>
    (case frame_ref dstn (take srcn src) of Malformed \<Rightarrow> n = 0 | ZeroOffset \<Rightarrow> True
     | Decoded bs \<Rightarrow> n = length bs \<and> bs = take n dst')"
proof (cases "srcn < 15")
  case True
  then show ?thesis by (auto simp: ulz4fn_def frame_ref_def)
next
  case False
  obtain h where h: "read_frame_header src = Ok h"
    and hd: "\<lparr>fh_magic = le32 (take 4 src), fh_flags = src ! 4, fh_block_descriptor = src ! 5\<rparr> = h"
    using False assms(1) by (simp add: read_frame_header_def slice_def)
  let ?good = "fh_magic h = LZ4F_MAGICNUMBER \<and> fh_version h = 1 \<and> fh_reserved_clear h \<and> bit (fh_flags h) 5"
  let ?pos = "if bit (fh_flags h) 3 then 15 else 7 :: nat"
  have inp: "length (take srcn src) = srcn" "take 4 (take srcn src) = take 4 src" "take srcn src ! 4 = src ! 4"
    "take srcn src ! 5 = src ! 5" "drop ?pos (take srcn src) = rest_of src srcn ?pos"
    using False assms(1) by (simp_all add: rest_of_def drop_take)
  have pos: "6 + (if bit (fh_flags h) 3 then 8 else 0) + 1 = ?pos" by simp
  have "\<not> srcn < 6 + 8 + 1" using False by simp
  then have "ulz4fn src_addr dst_addr src srcn dstn dst =
      (if ?good then lz4_blocks src_addr dst_addr src srcn (bit (fh_flags h) 4) ?pos 0 dstn dst else Ok (0, dst))"
    unfolding ulz4fn_def h andthen.simps pos by (cases ?good) auto
  moreover have "frame_ref dstn (take srcn src) =
      (if ?good then blocks_ref (bit (fh_flags h) 4) dstn (rest_of src srcn ?pos) [] else Malformed)"
    unfolding frame_ref_def Let_def inp hd using False by simp
  moreover have "frame_agrees 0 dstn dst (lz4_blocks src_addr dst_addr src srcn (bit (fh_flags h) 4) ?pos 0 dstn dst)
      (blocks_ref (bit (fh_flags h) 4) dstn (rest_of src srcn ?pos) (take 0 dst))"
    by (rule lz4_blocks_ref [OF assms(1,3,4,5)]) (use False assms(2) in auto)
  ultimately show ?thesis unfolding frame_agrees_def by (cases ?good) auto
qed

text \<open>A frame of one compressed block: two literals, a match of four bytes at offset 2, ten literals.\<close>

definition sample_frame :: bytes where
  "sample_frame = [4, 34, 77, 24, 96, 64, 0, 16, 0, 0, 0, 32, 1, 2, 2, 0, 160, 11, 12, 13, 14, 15, 16, 17, 18, 19, 20,
     0, 0, 0, 0]"

definition sample_output :: bytes where
  "sample_output = [1, 2, 1, 2, 1, 2, 11, 12, 13, 14, 15, 16, 17, 18, 19, 20]"

lemma sample_match:
  "ref_match 64 32 [2, 0, 160, 11, 12, 13, 14, 15, 16, 17, 18, 19, 20] [1, 2] =
     Decoded ([160, 11, 12, 13, 14, 15, 16, 17, 18, 19, 20], [1, 2, 1, 2, 1, 2])"
proof -
  have "repeat_back 2 4 [1, 2] = [1, 2, 1, 2, 1, 2]" by (simp add: eval_nat_numeral)
  then show ?thesis by (simp add: ref_match_def run_length_def le16_def Let_def)
qed

lemma sample_block:
  "lz4_ref 64 [32, 1, 2, 2, 0, 160, 11, 12, 13, 14, 15, 16, 17, 18, 19, 20] [] = Decoded sample_output"
proof -
  have "lz4_ref 64 [160, 11, 12, 13, 14, 15, 16, 17, 18, 19, 20] [1, 2, 1, 2, 1, 2] = Decoded sample_output"
    by (subst lz4_ref.simps) (simp add: run_length_def sample_output_def)
  then show ?thesis by (subst lz4_ref.simps) (simp add: run_length_def sample_match)
qed

lemma sample_frame_ref: "frame_ref 64 sample_frame = Decoded sample_output"
proof -
  have "blocks_ref False 64 [0, 0, 0, 0] out = Decoded out" for out
    by (subst blocks_ref.simps) (simp add: Let_def le32_def)
  then have "blocks_ref False 64 [16, 0, 0, 0, 32, 1, 2, 2, 0, 160, 11, 12, 13, 14, 15, 16, 17, 18, 19, 20, 0, 0, 0, 0] [] =
      Decoded sample_output"
    by (subst blocks_ref.simps) (simp add: Let_def le32_def block_ref_def sample_block)
  then show ?thesis
    by (simp add: frame_ref_def sample_frame_def LZ4F_MAGICNUMBER_def fh_version_def fh_reserved_clear_def
        le32_def Let_def)
qed

theorem ulz4fn_decodes_witness:
  "\<exists>dst'. ulz4fn 0 65536 (sample_frame @ replicate 8 0) 31 64 (replicate 64 7) = Ok (16, dst') \<and>
     take 16 dst' = sample_output"
proof -
  have "length sample_frame = 31" "length sample_output = 16" by (simp_all add: sample_frame_def sample_output_def)
  then show ?thesis
    using ulz4fn_decodes [of 31 "sample_frame @ replicate 8 0" 64 "replicate 64 7" 65536 0] sample_frame_ref
    by auto
qed

text \<open>Without bytes to spare after the input, the header of the next block is read past its end.\<close>

lemma ulz4fn_reads_past_end:
  "ulz4fn 0 65536 [4, 34, 77, 24, 96, 64, 0, 4, 0, 0, 128, 1, 2, 3, 4] 15 64 (replicate 64 7) = Fault OutOfBounds"
proof -
  have "lz4_blocks 0 65536 [4, 34, 77, 24, 96, 64, 0, 4, 0, 0, 128, 1, 2, 3, 4] 15 False 15 4 64 dst = Fault OutOfBounds"
    for dst by (subst lz4_blocks.simps) (simp add: slice_def)
  then show ?thesis
    by (simp add: ulz4fn_def read_frame_header_def LZ4F_MAGICNUMBER_def fh_version_def fh_reserved_clear_def
        le32_def slice_def) (subst lz4_blocks.simps, simp add: slice_def le32_def Let_def copy_from_def put_def)
qed

text \<open>
  With room for 2 GiB or more the \<open>int\<close> size of the first compressed block is negative: its end is computed
  before the output.
\<close>

lemma ulz4fn_room_wraps:
  assumes "2147483648 \<le> dstn" "dstn < 4294967296"
  shows "ulz4fn 0 65536 (sample_frame @ replicate 8 0) 31 dstn dst = Fault OutOfBounds"
proof -
  let ?src = "sample_frame @ replicate 8 0"
  have "sint (word_of_int (int dstn) :: u32) = int dstn - 4294967296"
  proof -
    have m: "(int dstn + 2147483648) mod 4294967296 = int dstn - 2147483648"
      using assms mod_add_self2 [of "int dstn - 2147483648" 4294967296] by (simp add: add.commute)
    have "signed_take_bit 31 (int dstn) = int dstn - 4294967296"
      by (simp add: signed_take_bit_eq_take_bit_shift take_bit_eq_mod m)
    then show ?thesis by (simp add: signed_of_nat)
  qed
  then have "sint (word_of_nat dstn :: u32) < 0" using assms by simp
  then have "LZ4_decompress_generic 0 65536 ?src 11 16 0 (word_of_nat dstn) dst = Fault OutOfBounds"
    by (simp add: LZ4_decompress_generic_def Let_def)
  moreover have "slice ?src 7 4 = Some [16, 0, 0, 0]" by (simp add: slice_def sample_frame_def)
  ultimately have "lz4_blocks 0 65536 ?src 31 False 7 0 dstn dst = Fault OutOfBounds"
    by (subst lz4_blocks.simps) (simp add: le32_def Let_def)
  then show ?thesis
    by (simp add: ulz4fn_def read_frame_header_def slice_def sample_frame_def LZ4F_MAGICNUMBER_def fh_version_def
        fh_reserved_clear_def le32_def)
qed

end
