(* ===== verification/Qsort.thy ===== *)
theory Qsort
  imports Prelude "HOL-Library.Multiset"
begin

text \<open>
  The sort of the C library (\<^verbatim>\<open>base/libc/qsort.c\<close>): Bentley and McIlroy's quicksort with a
  three-way partition, insertion sort for short arrays and for arrays the partition left
  alone, and iteration instead of the second recursive call.

  The array is the list of its objects and a pointer into it the number of an object: the
  size \<open>es\<close> of an object is at least 1, and whether \<open>swapfunc\<close> moves the bytes of two objects
  as \<open>char\<close> or as \<open>long\<close> makes no difference to what it does.  The array \<open>qsort\<close> works on starts
  at object \<open>a\<close> of the list, because the recursive calls sort parts of it in place.  Comparing or
  moving an object outside the list is a fault.
\<close>

subsection \<open>The code\<close>

definition cmp_at :: "('a \<Rightarrow> 'a \<Rightarrow> int) \<Rightarrow> 'a list \<Rightarrow> nat \<Rightarrow> nat \<Rightarrow> int res" where
  "cmp_at cmp m i j = (if i < length m \<and> j < length m then Ok (cmp (m ! i) (m ! j)) else Fault OutOfBounds)"

definition swap_at :: "'a list \<Rightarrow> nat \<Rightarrow> nat \<Rightarrow> 'a list res" where
  "swap_at m i j =
     (if i < length m \<and> j < length m then Ok (m[i := m ! j, j := m ! i]) else Fault OutOfBounds)"

text \<open>\<open>swapfunc\<close> on runs of \<open>n\<close> objects; \<open>vecswap\<close> does nothing for an empty run.\<close>

fun vecswap :: "'a list \<Rightarrow> nat \<Rightarrow> nat \<Rightarrow> nat \<Rightarrow> 'a list res" where
  "vecswap m i j 0 = Ok m"
| "vecswap m i j (Suc n) = andthen (swap_at m i j) (\<lambda>m. vecswap m (i + 1) (j + 1) n)"

definition med3 :: "('a \<Rightarrow> 'a \<Rightarrow> int) \<Rightarrow> 'a list \<Rightarrow> nat \<Rightarrow> nat \<Rightarrow> nat \<Rightarrow> nat res" where
  "med3 cmp m a b c =
     andthen (cmp_at cmp m a b) (\<lambda>ab.
     andthen (cmp_at cmp m b c) (\<lambda>bc.
     if ab < 0
     then (if bc < 0 then Ok b
           else andthen (cmp_at cmp m a c) (\<lambda>ac. Ok (if ac < 0 then c else a)))
     else (if 0 < bc then Ok b
           else andthen (cmp_at cmp m a c) (\<lambda>ac. Ok (if ac < 0 then a else c)))))"

text \<open>The inner and the outer loop of the insertion sort.\<close>

fun sift :: "('a \<Rightarrow> 'a \<Rightarrow> int) \<Rightarrow> 'a list \<Rightarrow> nat \<Rightarrow> nat \<Rightarrow> 'a list res" where
  "sift cmp m a pl =
     (if a < pl
      then andthen (cmp_at cmp m (pl - 1) pl) (\<lambda>c.
             if 0 < c then andthen (swap_at m pl (pl - 1)) (\<lambda>m. sift cmp m a (pl - 1)) else Ok m)
      else Ok m)"

function insertion :: "('a \<Rightarrow> 'a \<Rightarrow> int) \<Rightarrow> 'a list \<Rightarrow> nat \<Rightarrow> nat \<Rightarrow> nat \<Rightarrow> 'a list res" where
  "insertion cmp m a n pm =
     (if pm < a + n then andthen (sift cmp m a pm) (\<lambda>m. insertion cmp m a n (pm + 1)) else Ok m)"
  by pat_completeness auto
termination
  by (relation "measure (\<lambda>(_, _, a, n, pm). a + n - pm)") auto

text \<open>The two scans of the partition: objects equal to the pivot go to the ends.\<close>

function scan_up :: "('a \<Rightarrow> 'a \<Rightarrow> int) \<Rightarrow> 'a list \<Rightarrow> nat \<Rightarrow> nat \<Rightarrow> nat \<Rightarrow> nat \<Rightarrow> bool
    \<Rightarrow> ('a list \<times> nat \<times> nat \<times> bool) res" where
  "scan_up cmp m a pa pb pc swapped =
     (if pb \<le> pc
      then andthen (cmp_at cmp m pb a) (\<lambda>c.
             if c \<le> 0
             then (if c = 0
                   then andthen (swap_at m pa pb) (\<lambda>m. scan_up cmp m a (pa + 1) (pb + 1) pc True)
                   else scan_up cmp m a pa (pb + 1) pc swapped)
             else Ok (m, pa, pb, swapped))
      else Ok (m, pa, pb, swapped))"
  by pat_completeness auto
termination
  by (relation "measure (\<lambda>(_, _, _, _, pb, pc, _). pc + 1 - pb)") auto

text \<open>A decrement below the start of the list is a fault: it would leave the array.\<close>

function scan_down :: "('a \<Rightarrow> 'a \<Rightarrow> int) \<Rightarrow> 'a list \<Rightarrow> nat \<Rightarrow> nat \<Rightarrow> nat \<Rightarrow> nat \<Rightarrow> bool
    \<Rightarrow> ('a list \<times> nat \<times> nat \<times> bool) res" where
  "scan_down cmp m a pb pc pd swapped =
     (if pb \<le> pc
      then andthen (cmp_at cmp m pc a) (\<lambda>c.
             if 0 \<le> c
             then (if pc = 0 then Fault OutOfBounds
                   else if c = 0
                   then andthen (swap_at m pc pd) (\<lambda>m. scan_down cmp m a pb (pc - 1) (pd - 1) True)
                   else scan_down cmp m a pb (pc - 1) pd swapped)
             else Ok (m, pc, pd, swapped))
      else Ok (m, pc, pd, swapped))"
  by pat_completeness auto
termination
  by (relation "measure (\<lambda>(_, _, _, _, pc, _, _). pc)") auto

declare sift.simps [simp del] insertion.simps [simp del] scan_up.simps [simp del]
  scan_down.simps [simp del]

lemma scan_up_range:
  "scan_up cmp m a pa pb pc sw = Ok (m', pa', pb', sw')
   \<Longrightarrow> pa \<le> pa' \<and> pb \<le> pb' \<and> pb' \<le> max pb (pc + 1)"
proof (induction cmp m a pa pb pc sw rule: scan_up.induct)
  case (1 cmp m a pa pb pc sw)
  note ih = 1(1,2) and res = 1(3)
  show ?case
  proof (cases "pb \<le> pc")
    case False
    with res show ?thesis by (simp add: scan_up.simps [of cmp m])
  next
    case True
    with res obtain c where c: "cmp_at cmp m pb a = Ok c"
      by (auto simp: scan_up.simps [of cmp m] andthen_Ok_iff)
    consider "c = 0" | "c < 0" | "0 < c" by linarith
    then show ?thesis
    proof cases
      case 1
      with True c res obtain m1 where m1: "swap_at m pa pb = Ok m1"
        and r: "scan_up cmp m1 a (pa + 1) (pb + 1) pc True = Ok (m', pa', pb', sw')"
        by (auto simp: scan_up.simps [of cmp m] andthen_Ok_iff)
      from ih(1) [OF True c _ 1 m1 r] 1 True show ?thesis by auto
    next
      case 2
      with True c res have r: "scan_up cmp m a pa (pb + 1) pc sw = Ok (m', pa', pb', sw')"
        by (simp add: scan_up.simps [of cmp m])
      from ih(2) [OF True c _ _ r] 2 True show ?thesis by auto
    next
      case 3
      with True c res show ?thesis by (simp add: scan_up.simps [of cmp m])
    qed
  qed
qed

lemma scan_down_range:
  "scan_down cmp m a pb pc pd sw = Ok (m', pc', pd', sw')
   \<Longrightarrow> pc' \<le> pc \<and> pd' \<le> pd \<and> min pb (pc + 1) \<le> pc' + 1"
proof (induction cmp m a pb pc pd sw rule: scan_down.induct)
  case (1 cmp m a pb pc pd sw)
  note ih = 1(1,2) and res = 1(3)
  show ?case
  proof (cases "pb \<le> pc")
    case False
    with res show ?thesis by (simp add: scan_down.simps [of cmp m])
  next
    case True
    with res obtain c where c: "cmp_at cmp m pc a = Ok c"
      by (auto simp: scan_down.simps [of cmp m] andthen_Ok_iff)
    consider "c = 0" "0 < pc" | "0 < c" "0 < pc" | "c < 0" | "0 \<le> c" "pc = 0" by linarith
    then show ?thesis
    proof cases
      case 1
      with True c res obtain m1 where m1: "swap_at m pc pd = Ok m1"
        and r: "scan_down cmp m1 a pb (pc - 1) (pd - 1) True = Ok (m', pc', pd', sw')"
        by (auto simp: scan_down.simps [of cmp m] andthen_Ok_iff)
      from ih(1) [OF True c _ _ 1(1) m1 r] 1 True show ?thesis by auto
    next
      case 2
      with True c res have r: "scan_down cmp m a pb (pc - 1) pd sw = Ok (m', pc', pd', sw')"
        by (simp add: scan_down.simps [of cmp m])
      from ih(2) [OF True c _ _ _ r] 2 True show ?thesis by auto
    next
      case 3
      with True c res show ?thesis by (simp add: scan_down.simps [of cmp m])
    next
      case 4
      with True c res show ?thesis by (simp add: scan_down.simps [of cmp m])
    qed
  qed
qed

text \<open>The partition: scan up, scan down, exchange, until the scans meet.\<close>

function part_loop :: "('a \<Rightarrow> 'a \<Rightarrow> int) \<Rightarrow> 'a list \<Rightarrow> nat \<Rightarrow> nat \<Rightarrow> nat \<Rightarrow> nat \<Rightarrow> nat \<Rightarrow> bool
    \<Rightarrow> ('a list \<times> nat \<times> nat \<times> nat \<times> nat \<times> bool) res" where
  "part_loop cmp m a pa pb pc pd swapped =
     andthen (scan_up cmp m a pa pb pc swapped) (\<lambda>(m, pa, pb, swapped).
     andthen (scan_down cmp m a pb pc pd swapped) (\<lambda>(m, pc, pd, swapped).
     if pc < pb then Ok (m, pa, pb, pc, pd, swapped)
     else andthen (swap_at m pb pc) (\<lambda>m.
          if pc = 0 then Fault OutOfBounds
          else part_loop cmp m a pa (pb + 1) (pc - 1) pd True)))"
  by pat_completeness auto
termination
  by (relation "measure (\<lambda>(_, _, _, _, pb, pc, _, _). pc + 1 - pb)")
    (auto dest!: scan_up_range scan_down_range)

declare part_loop.simps [simp del]

lemma part_loop_range:
  "part_loop cmp m a pa pb pc pd sw = Ok (m', pa', pb', pc', pd', sw')
   \<Longrightarrow> a < pb \<Longrightarrow> a \<le> pc \<Longrightarrow> pb \<le> e \<Longrightarrow> pc < e
   \<Longrightarrow> pa \<le> pa' \<and> pb' \<le> e \<and> a \<le> pc' \<and> pd' \<le> pd"
proof (induction cmp m a pa pb pc pd sw rule: part_loop.induct)
  case (1 cmp m a pa pb pc pd sw)
  from 1(2) obtain m1 pa1 pb1 sw1 m2 pc2 pd2 sw2
    where up: "scan_up cmp m a pa pb pc sw = Ok (m1, pa1, pb1, sw1)"
      and down: "scan_down cmp m1 a pb1 pc pd sw1 = Ok (m2, pc2, pd2, sw2)"
      and rest: "(if pc2 < pb1 then Ok (m2, pa1, pb1, pc2, pd2, sw2)
        else andthen (swap_at m2 pb1 pc2) (\<lambda>m. if pc2 = 0 then Fault OutOfBounds
          else part_loop cmp m a pa1 (pb1 + 1) (pc2 - 1) pd2 True)) = Ok (m', pa', pb', pc', pd', sw')"
    by (auto simp: part_loop.simps [of cmp m] andthen_Ok_iff)
  note r = scan_up_range [OF up] scan_down_range [OF down]
  show ?case
  proof (cases "pc2 < pb1")
    case True
    with rest have "pa' = pa1" "pb' = pb1" "pc' = pc2" "pd' = pd2" by auto
    with r 1(3-6) show ?thesis by auto
  next
    case False
    with rest obtain m3 where m3: "swap_at m2 pb1 pc2 = Ok m3" and pc2: "pc2 \<noteq> 0"
      and rec: "part_loop cmp m3 a pa1 (pb1 + 1) (pc2 - 1) pd2 True = Ok (m', pa', pb', pc', pd', sw')"
      by (auto simp: andthen_Ok_iff split: if_splits)
    have "pa1 \<le> pa' \<and> pb' \<le> e \<and> a \<le> pc' \<and> pd' \<le> pd2"
      by (rule 1(1) [OF up refl refl refl down refl refl refl False m3 pc2 rec])
        (use r 1(3-6) False in auto)
    with r show ?thesis by auto
  qed
qed

lemma part_loop_sizes:
  assumes "part_loop cmp m a (Suc a) (Suc a) (a + n - Suc 0) (a + n - Suc 0) False
      = Ok (m', pa, pb, pc, pd, sw)" and "\<not> n < 7"
  shows "pb - pa < n \<and> pd - pc < n"
proof -
  have "Suc a \<le> pa \<and> pb \<le> a + n \<and> a \<le> pc \<and> pd \<le> a + n - Suc 0"
    by (rule part_loop_range [OF assms(1)]) (use assms(2) in auto)
  with assms(2) show ?thesis by arith
qed

definition choose_pivot :: "('a \<Rightarrow> 'a \<Rightarrow> int) \<Rightarrow> 'a list \<Rightarrow> nat \<Rightarrow> nat \<Rightarrow> nat res" where
  "choose_pivot cmp m a n =
     (let pm = a + n div 2 in
      if n > 7
      then let pl = a; pn = a + (n - 1); d = n div 8 in
        andthen (if n > 40 then med3 cmp m pl (pl + d) (pl + 2 * d) else Ok pl) (\<lambda>pl.
        andthen (if n > 40 then med3 cmp m (pm - d) pm (pm + d) else Ok pm) (\<lambda>pm.
        andthen (if n > 40 then med3 cmp m (pn - 2 * d) (pn - d) pn else Ok pn) (\<lambda>pn.
        med3 cmp m pl pm pn)))
      else Ok pm)"

function qsort :: "('a \<Rightarrow> 'a \<Rightarrow> int) \<Rightarrow> 'a list \<Rightarrow> nat \<Rightarrow> nat \<Rightarrow> 'a list res" where
  "qsort cmp m a n =
     (if n < 7 then insertion cmp m a n (a + 1)
      else andthen (choose_pivot cmp m a n) (\<lambda>pm.
           andthen (swap_at m a pm) (\<lambda>m.
           andthen (part_loop cmp m a (a + 1) (a + 1) (a + (n - 1)) (a + (n - 1)) False)
             (\<lambda>(m, pa, pb, pc, pd, swap_cnt).
           if \<not> swap_cnt then insertion cmp m a n (a + 1)
           else let pn = a + n; r = min (pa - a) (pb - pa) in
             andthen (vecswap m a (pb - r) r) (\<lambda>m.
             let r = min (pd - pc) (pn - pd - 1) in
             andthen (vecswap m pb (pn - r) r) (\<lambda>m.
             andthen (if 1 < pb - pa then qsort cmp m a (pb - pa) else Ok m) (\<lambda>m.
             if 1 < pd - pc then qsort cmp m (pn - (pd - pc)) (pd - pc) else Ok m)))))))"
  by pat_completeness auto
termination
  by (relation "measure (\<lambda>(_, _, _, n). n)") (auto dest: part_loop_sizes)

declare qsort.simps [simp del]

subsection \<open>Reordering a part of the list\<close>

text \<open>\<open>m'\<close> has the objects of \<open>m\<close> in another order between \<open>a\<close> and \<open>e\<close>, and is \<open>m\<close> elsewhere.\<close>

definition reorders :: "nat \<Rightarrow> nat \<Rightarrow> 'a list \<Rightarrow> 'a list \<Rightarrow> bool" where
  "reorders a e m m' \<longleftrightarrow> mset m' = mset m \<and> (\<forall>i. i < a \<or> e \<le> i \<longrightarrow> i < length m \<longrightarrow> m' ! i = m ! i)"

lemma reorders_refl [simp]: "reorders a e m m"
  by (simp add: reorders_def)

lemma reorders_length: "reorders a e m m' \<Longrightarrow> length m' = length m"
  by (metis reorders_def size_mset)

lemma reorders_trans: "reorders a e m m' \<Longrightarrow> reorders a e m' m'' \<Longrightarrow> reorders a e m m''"
  using reorders_length [of a e m m'] by (auto simp: reorders_def)

lemma reorders_mono: "reorders a e m m' \<Longrightarrow> a' \<le> a \<Longrightarrow> e \<le> e' \<Longrightarrow> reorders a' e' m m'"
  by (auto simp: reorders_def)

lemma reorders_nth: "reorders a e m m' \<Longrightarrow> i < a \<or> e \<le> i \<Longrightarrow> i < length m \<Longrightarrow> m' ! i = m ! i"
  by (auto simp: reorders_def)

lemma reorders_swap:
  assumes "a \<le> i" "a \<le> j" "i < e" "j < e" "i < length m" "j < length m"
  shows "reorders a e m (m[i := m ! j, j := m ! i])"
  using assms mset_swap [of j m i] by (auto simp: reorders_def nth_list_update)

lemma swap_at_Ok: "i < length m \<Longrightarrow> j < length m \<Longrightarrow> swap_at m i j = Ok (m[i := m ! j, j := m ! i])"
  by (simp add: swap_at_def)

lemma cmp_at_Ok: "i < length m \<Longrightarrow> j < length m \<Longrightarrow> cmp_at cmp m i j = Ok (cmp (m ! i) (m ! j))"
  by (simp add: cmp_at_def)

text \<open>What holds of every object of the part holds of every object after it is reordered.\<close>

lemma reorders_parts:
  assumes "reorders a e m m'" "a \<le> e" "e \<le> length m"
  shows "take a m' = take a m" and "drop e m' = drop e m"
    and "mset (take (e - a) (drop a m')) = mset (take (e - a) (drop a m))"
proof -
  have len: "length m' = length m" by (rule reorders_length [OF assms(1)])
  show lo: "take a m' = take a m"
    by (rule nth_equalityI) (use assms in \<open>auto simp: len reorders_def\<close>)
  show hi: "drop e m' = drop e m"
    by (rule nth_equalityI) (use assms in \<open>auto simp: len reorders_def\<close>)
  have split: "xs = take a xs @ take (e - a) (drop a xs) @ drop e xs" for xs :: "'a list"
    using assms(2) by (metis append_take_drop_id drop_drop le_add_diff_inverse2)
  have "mset m' = mset m" using assms(1) by (simp add: reorders_def)
  then have "mset (take a m') + (mset (take (e - a) (drop a m')) + mset (drop e m'))
      = mset (take a m) + (mset (take (e - a) (drop a m)) + mset (drop e m))"
    by (metis split mset_append)
  then show "mset (take (e - a) (drop a m')) = mset (take (e - a) (drop a m))"
    by (simp add: lo hi)
qed

lemma reorders_all:
  assumes "reorders a e m m'" "a \<le> e" "e \<le> length m"
    and "\<And>i. a \<le> i \<Longrightarrow> i < e \<Longrightarrow> P (m ! i)" and "a \<le> i" "i < e"
  shows "P (m' ! i)"
proof -
  have len: "length m' = length m" by (rule reorders_length [OF assms(1)])
  have "set (take (e - a) (drop a m')) = set (take (e - a) (drop a m))"
    by (metis reorders_parts(3) [OF assms(1-3)] set_mset_mset)
  moreover have "m' ! i \<in> set (take (e - a) (drop a m'))"
    using assms(3,5,6) len by (auto simp: in_set_conv_nth intro!: exI [of _ "i - a"])
  ultimately obtain k where "k < e - a" "m' ! i = m ! (a + k)"
    using assms(3) by (auto simp: in_set_conv_nth)
  with assms(4) [of "a + k"] show ?thesis by simp
qed

subsection \<open>Insertion sort\<close>

text \<open>What a comparison has to be for there to be a sorted order: a total preorder.\<close>

definition total_preorder :: "('a \<Rightarrow> 'a \<Rightarrow> int) \<Rightarrow> bool" where
  "total_preorder cmp \<longleftrightarrow> (\<forall>x y. cmp x y < 0 \<longleftrightarrow> 0 < cmp y x)
     \<and> (\<forall>x y z. cmp x y \<le> 0 \<longrightarrow> cmp y z \<le> 0 \<longrightarrow> cmp x z \<le> 0)"

lemma ordering_flip: "total_preorder cmp \<Longrightarrow> 0 \<le> cmp x y \<longleftrightarrow> cmp y x \<le> 0"
  unfolding total_preorder_def by (meson linorder_not_less)

lemma ordering_refl: "total_preorder cmp \<Longrightarrow> cmp x x = 0"
  unfolding total_preorder_def by (metis less_asym linorder_less_linear)

lemma ordering_trans: "total_preorder cmp \<Longrightarrow> cmp x y \<le> 0 \<Longrightarrow> cmp y z \<le> 0 \<Longrightarrow> cmp x z \<le> 0"
  unfolding total_preorder_def by blast

definition sorted_in :: "('a \<Rightarrow> 'a \<Rightarrow> int) \<Rightarrow> 'a list \<Rightarrow> nat \<Rightarrow> nat \<Rightarrow> bool" where
  "sorted_in cmp m a e \<longleftrightarrow> (\<forall>i j. a \<le> i \<longrightarrow> i < j \<longrightarrow> j < e \<longrightarrow> cmp (m ! i) (m ! j) \<le> 0)"

text \<open>Sorted but for the object at \<open>pl\<close>, which may be too small for its place.\<close>

definition sifting :: "('a \<Rightarrow> 'a \<Rightarrow> int) \<Rightarrow> 'a list \<Rightarrow> nat \<Rightarrow> nat \<Rightarrow> nat \<Rightarrow> bool" where
  "sifting cmp m a pl e \<longleftrightarrow>
     (\<forall>i j. a \<le> i \<longrightarrow> i < j \<longrightarrow> j < e \<longrightarrow> j \<noteq> pl \<longrightarrow> cmp (m ! i) (m ! j) \<le> 0)"

lemma sifting_step:
  assumes ord: "total_preorder cmp" and s: "sifting cmp m a pl e" and "a < pl" "pl < e" "e \<le> length m"
    and gt: "0 < cmp (m ! (pl - 1)) (m ! pl)"
  shows "sifting cmp (m[pl := m ! (pl - 1), pl - 1 := m ! pl]) a (pl - 1) e"
  unfolding sifting_def
proof (intro allI impI)
  fix i j assume ij: "a \<le> i" "i < j" "j < e" "j \<noteq> pl - 1"
  let ?m = "m[pl := m ! (pl - 1), pl - 1 := m ! pl]"
  have le: "cmp (m ! pl) (m ! (pl - 1)) \<le> 0" using ordering_flip [OF ord, of "m ! (pl - 1)" "m ! pl"] gt by simp
  have s': "\<And>i j. a \<le> i \<Longrightarrow> i < j \<Longrightarrow> j < e \<Longrightarrow> j \<noteq> pl \<Longrightarrow> cmp (m ! i) (m ! j) \<le> 0"
    using s by (simp add: sifting_def)
  consider "j = pl" "i = pl - 1" | "j = pl" "i < pl - 1" | "pl < j" | "j < pl - 1" using ij by linarith
  then show "cmp (?m ! i) (?m ! j) \<le> 0"
  proof cases
    case 1 with le assms(3-5) show ?thesis by simp
  next
    case 2 with s' [of i "pl - 1"] ij assms(3-5) show ?thesis by simp
  next
    case 3
    have "?m ! i = m ! i \<or> ?m ! i = m ! (pl - 1) \<or> ?m ! i = m ! pl"
      using ij assms(3-5) by (auto simp: nth_list_update)
    with 3 s' [of i j] s' [of "pl - 1" j] s' [of pl j] ij assms(3-5) show ?thesis by auto
  next
    case 4 with s' [of i j] ij assms(3-5) show ?thesis by simp
  qed
qed

lemma sift_result:
  assumes "a \<le> pl" "pl < e" "e \<le> length m"
  shows "\<exists>m'. sift cmp m a pl = Ok m' \<and> reorders a e m m' \<and>
    (total_preorder cmp \<longrightarrow> sifting cmp m a pl e \<longrightarrow> sorted_in cmp m' a e)"
  using assms
proof (induction cmp m a pl rule: sift.induct)
  case (1 cmp m a pl)
  consider "pl = a" | "a < pl" "cmp (m ! (pl - 1)) (m ! pl) \<le> 0"
    | "a < pl" "0 < cmp (m ! (pl - 1)) (m ! pl)" using 1(2) by linarith
  then show ?case
  proof cases
    case 1
    then show ?thesis by (auto simp: sift.simps sifting_def sorted_in_def)
  next
    case 2
    have "sorted_in cmp m a e" if ord: "total_preorder cmp" and s: "sifting cmp m a pl e"
      unfolding sorted_in_def
    proof (intro allI impI)
      fix i j assume ij: "a \<le> i" "i < j" "j < e"
      consider "j \<noteq> pl" | "j = pl" "i = pl - 1" | "j = pl" "i < pl - 1" using ij by linarith
      then show "cmp (m ! i) (m ! j) \<le> 0"
      proof cases
        case 3
        then have "cmp (m ! i) (m ! (pl - 1)) \<le> 0" using s ij by (simp add: sifting_def)
        then show ?thesis using 2 3 ordering_trans [OF ord] by blast
      qed (use s ij 2 in \<open>auto simp: sifting_def\<close>)
    qed
    with 2 1(3,4) show ?thesis by (simp add: sift.simps [of cmp m] cmp_at_Ok)
  next
    case 3
    let ?m = "m[pl := m ! (pl - 1), pl - 1 := m ! pl]"
    have c: "cmp_at cmp m (pl - 1) pl = Ok (cmp (m ! (pl - 1)) (m ! pl))"
      and sw: "swap_at m pl (pl - 1) = Ok ?m"
      using 1(3,4) 3 by (auto intro!: cmp_at_Ok swap_at_Ok)
    have "\<exists>m'. sift cmp ?m a (pl - 1) = Ok m' \<and> reorders a e ?m m' \<and>
        (total_preorder cmp \<longrightarrow> sifting cmp ?m a (pl - 1) e \<longrightarrow> sorted_in cmp m' a e)"
      by (rule 1(1) [OF 3(1) c 3(2) sw]) (use 1(3,4) 3 in auto)
    then obtain m' where m': "sift cmp ?m a (pl - 1) = Ok m'" "reorders a e ?m m'"
      and so: "total_preorder cmp \<longrightarrow> sifting cmp ?m a (pl - 1) e \<longrightarrow> sorted_in cmp m' a e"
      by blast
    have "reorders a e m ?m" using 1(3,4) 3 by (intro reorders_swap) auto
    with m' have "reorders a e m m'" by (blast intro: reorders_trans)
    moreover have "sift cmp m a pl = Ok m'" using 3 c sw m' by (simp add: sift.simps [of cmp m a pl])
    moreover have "sorted_in cmp m' a e" if "total_preorder cmp" "sifting cmp m a pl e"
      using so sifting_step [OF that 3(1) 1(3,4) 3(2)] that by blast
    ultimately show ?thesis by blast
  qed
qed

lemma insertion_result:
  assumes "a < pm" "a + n \<le> length m"
  shows "\<exists>m'. insertion cmp m a n pm = Ok m' \<and> reorders a (a + n) m m' \<and>
    (total_preorder cmp \<longrightarrow> sorted_in cmp m a pm \<longrightarrow> sorted_in cmp m' a (a + n))"
  using assms
proof (induction cmp m a n pm rule: insertion.induct)
  case (1 cmp m a n pm)
  show ?case
  proof (cases "pm < a + n")
    case False
    then show ?thesis by (auto simp: insertion.simps [of cmp m] sorted_in_def)
  next
    case True
    obtain m1 where m1: "sift cmp m a pm = Ok m1" "reorders a (pm + 1) m m1"
      and s1: "total_preorder cmp \<longrightarrow> sifting cmp m a pm (pm + 1) \<longrightarrow> sorted_in cmp m1 a (pm + 1)"
      using sift_result [of a pm "pm + 1" m cmp] 1(2,3) True by auto
    have "a + n \<le> length m1" using reorders_length [OF m1(2)] 1(3) by simp
    then obtain m' where m': "insertion cmp m1 a n (pm + 1) = Ok m'" "reorders a (a + n) m1 m'"
      and s': "total_preorder cmp \<longrightarrow> sorted_in cmp m1 a (pm + 1) \<longrightarrow> sorted_in cmp m' a (a + n)"
      using 1(1) [OF True m1(1)] 1(2) by auto
    have "reorders a (a + n) m m1" by (rule reorders_mono [OF m1(2)]) (use True in auto)
    then have "reorders a (a + n) m m'" using m'(2) by (rule reorders_trans)
    moreover have "sifting cmp m a pm (pm + 1)" if "sorted_in cmp m a pm"
      using that by (auto simp: sifting_def sorted_in_def)
    ultimately show ?thesis using True m1(1) m'(1) s1 s' by (simp add: insertion.simps [of cmp m])
  qed
qed

subsection \<open>The partition\<close>

text \<open>
  Between the scans: objects equal to the pivot at \<open>a\<close> on both ends, smaller ones from \<open>pa\<close> to \<open>pb\<close>
  and larger ones from \<open>pc + 1\<close> to \<open>pd\<close>.
\<close>

definition parted :: "('a \<Rightarrow> 'a \<Rightarrow> int) \<Rightarrow> 'a list \<Rightarrow> nat \<Rightarrow> nat \<Rightarrow> nat \<Rightarrow> nat \<Rightarrow> nat \<Rightarrow> nat \<Rightarrow> bool" where
  "parted cmp m a pa pb pc pd e \<longleftrightarrow>
     a < pa \<and> pa \<le> pb \<and> pb \<le> pc + 1 \<and> pc \<le> pd \<and> pd < e \<and> e \<le> length m \<and>
     (\<forall>i. a < i \<longrightarrow> i < pa \<longrightarrow> cmp (m ! i) (m ! a) = 0) \<and>
     (\<forall>i. pa \<le> i \<longrightarrow> i < pb \<longrightarrow> cmp (m ! i) (m ! a) < 0) \<and>
     (\<forall>i. pc < i \<longrightarrow> i \<le> pd \<longrightarrow> 0 < cmp (m ! i) (m ! a)) \<and>
     (\<forall>i. pd < i \<longrightarrow> i < e \<longrightarrow> cmp (m ! i) (m ! a) = 0)"

lemma partedD:
  assumes "parted cmp m a pa pb pc pd e"
  shows "a < pa" "pa \<le> pb" "pb \<le> pc + 1" "pc \<le> pd" "pd < e" "e \<le> length m"
  using assms by (auto simp: parted_def)

lemma parted_up_eq:
  assumes "parted cmp m a pa pb pc pd e" "pb \<le> pc" "cmp (m ! pb) (m ! a) = 0"
  shows "parted cmp (m[pa := m ! pb, pb := m ! pa]) a (pa + 1) (pb + 1) pc pd e"
  using assms by (auto simp: parted_def nth_list_update less_Suc_eq)

lemma parted_up_less:
  assumes "parted cmp m a pa pb pc pd e" "pb \<le> pc" "cmp (m ! pb) (m ! a) < 0"
  shows "parted cmp m a pa (pb + 1) pc pd e"
  using assms by (auto simp: parted_def less_Suc_eq)

lemma parted_down_eq:
  assumes "parted cmp m a pa pb pc pd e" "pb \<le> pc" "cmp (m ! pc) (m ! a) = 0"
  shows "parted cmp (m[pc := m ! pd, pd := m ! pc]) a pa pb (pc - 1) (pd - 1) e"
proof -
  note d = partedD [OF assms(1)]
  have val: "m[pc := m ! pd, pd := m ! pc] ! i = (if i = pd then m ! pc else if i = pc then m ! pd else m ! i)"
    if "i < e" for i
    using d that by (auto simp: nth_list_update)
  show ?thesis unfolding parted_def
  proof (intro conjI allI impI)
    fix i assume i: "pc - 1 < i" "i \<le> pd - 1"
    with d have "i < e" "i \<noteq> pd" "i = pc \<or> pc < i" by auto
    with assms d i show "0 < cmp (m[pc := m ! pd, pd := m ! pc] ! i) (m[pc := m ! pd, pd := m ! pc] ! a)"
      unfolding val [OF \<open>i < e\<close>] by (auto simp: parted_def)
  next
    fix i assume "pd - 1 < i" "i < e"
    with assms d show "cmp (m[pc := m ! pd, pd := m ! pc] ! i) (m[pc := m ! pd, pd := m ! pc] ! a) = 0"
      by (cases "i = pd") (auto simp: parted_def val)
  qed (use assms d in \<open>auto simp: parted_def val\<close>)
qed

lemma parted_down_greater:
  assumes "parted cmp m a pa pb pc pd e" "pb \<le> pc" "0 < cmp (m ! pc) (m ! a)"
  shows "parted cmp m a pa pb (pc - 1) pd e"
proof -
  note d = partedD [OF assms(1)]
  have "0 < cmp (m ! i) (m ! a)" if "pc - 1 < i" "i \<le> pd" for i
    using assms that by (cases "i = pc") (auto simp: parted_def)
  with assms d show ?thesis unfolding parted_def by auto
qed

lemma parted_exchange:
  assumes "parted cmp m a pa pb pc pd e" "pb \<le> pc"
    and "0 < cmp (m ! pb) (m ! a)" "cmp (m ! pc) (m ! a) < 0"
  shows "parted cmp (m[pb := m ! pc, pc := m ! pb]) a pa (pb + 1) (pc - 1) pd e"
proof -
  note d = partedD [OF assms(1)]
  have "pb < pc" using assms(2-4) by (cases "pb = pc") auto
  have val: "m[pb := m ! pc, pc := m ! pb] ! i = (if i = pc then m ! pb else if i = pb then m ! pc else m ! i)"
    if "i < e" for i
    using d assms(2) that by (auto simp: nth_list_update)
  show ?thesis unfolding parted_def
  proof (intro conjI allI impI)
    fix i assume i: "pc - 1 < i" "i \<le> pd"
    with d have "i < e" "i = pc \<or> pc < i" by auto
    with assms d i \<open>pb < pc\<close> show "0 < cmp (m[pb := m ! pc, pc := m ! pb] ! i) (m[pb := m ! pc, pc := m ! pb] ! a)"
      by (auto simp: parted_def val)
  next
    fix i assume i: "pa \<le> i" "i < pb + 1"
    with assms d \<open>pb < pc\<close> have "i < e" "i = pb \<or> i < pb" by auto
    with assms d i \<open>pb < pc\<close> show "cmp (m[pb := m ! pc, pc := m ! pb] ! i) (m[pb := m ! pc, pc := m ! pb] ! a) < 0"
      unfolding val [OF \<open>i < e\<close>] by (auto simp: parted_def)
  qed (use assms d \<open>pb < pc\<close> in \<open>auto simp: parted_def val\<close>)
qed

lemma scan_up_result:
  assumes "parted cmp m a pa pb pc pd e"
  shows "\<exists>m' pa' pb' sw'. scan_up cmp m a pa pb pc sw = Ok (m', pa', pb', sw')
    \<and> reorders (a + 1) e m m' \<and> parted cmp m' a pa' pb' pc pd e
    \<and> (pb' \<le> pc \<longrightarrow> 0 < cmp (m' ! pb') (m' ! a))"
  using assms
proof (induction cmp m a pa pb pc sw rule: scan_up.induct)
  case (1 cmp m a pa pb pc sw)
  note ih = 1(1,2) and parted = 1(3)
  note d = partedD [OF parted]
  show ?case
  proof (cases "pb \<le> pc")
    case False
    with parted show ?thesis by (simp add: scan_up.simps [of cmp m])
  next
    case True
    have c: "cmp_at cmp m pb a = Ok (cmp (m ! pb) (m ! a))" using d True by (intro cmp_at_Ok) auto
    consider "cmp (m ! pb) (m ! a) = 0" | "cmp (m ! pb) (m ! a) < 0" | "0 < cmp (m ! pb) (m ! a)" by linarith
    then show ?thesis
    proof cases
      case 1
      let ?m = "m[pa := m ! pb, pb := m ! pa]"
      have sw: "swap_at m pa pb = Ok ?m" using d True by (intro swap_at_Ok) auto
      have p: "parted cmp ?m a (pa + 1) (pb + 1) pc pd e" by (rule parted_up_eq [OF parted True 1])
      have re: "reorders (a + 1) e m ?m" using d True by (intro reorders_swap) auto
      from ih(1) [OF True c _ 1 sw p] 1 obtain m' pa' pb' sw' where
        "scan_up cmp ?m a (pa + 1) (pb + 1) pc True = Ok (m', pa', pb', sw')" "reorders (a + 1) e ?m m'"
        "parted cmp m' a pa' pb' pc pd e" "pb' \<le> pc \<longrightarrow> 0 < cmp (m' ! pb') (m' ! a)" by auto
      with True c 1 sw reorders_trans [OF re] show ?thesis
        by (auto simp: scan_up.simps [of cmp m])
    next
      case 2
      have "parted cmp m a pa (pb + 1) pc pd e" by (rule parted_up_less [OF parted True 2])
      from ih(2) [OF True c _ _ this] 2 True c show ?thesis by (simp add: scan_up.simps [of cmp m])
    next
      case 3
      with True c parted show ?thesis by (simp add: scan_up.simps [of cmp m])
    qed
  qed
qed

lemma scan_down_result:
  assumes "parted cmp m a pa pb pc pd e"
  shows "\<exists>m' pc' pd' sw'. scan_down cmp m a pb pc pd sw = Ok (m', pc', pd', sw')
    \<and> reorders (a + 1) e m m' \<and> parted cmp m' a pa pb pc' pd' e \<and> (\<forall>i \<le> pc'. m' ! i = m ! i)
    \<and> (pb \<le> pc' \<longrightarrow> cmp (m' ! pc') (m' ! a) < 0)"
  using assms
proof (induction cmp m a pb pc pd sw rule: scan_down.induct)
  case (1 cmp m a pb pc pd sw)
  note ih = 1(1,2) and parted = 1(3)
  note d = partedD [OF parted]
  show ?case
  proof (cases "pb \<le> pc")
    case False
    with parted show ?thesis by (simp add: scan_down.simps [of cmp m])
  next
    case True
    with d have pc: "pc \<noteq> 0" by auto
    have c: "cmp_at cmp m pc a = Ok (cmp (m ! pc) (m ! a))" using d True by (intro cmp_at_Ok) auto
    consider "cmp (m ! pc) (m ! a) = 0" | "0 < cmp (m ! pc) (m ! a)" | "cmp (m ! pc) (m ! a) < 0" by linarith
    then show ?thesis
    proof cases
      case 1
      let ?m = "m[pc := m ! pd, pd := m ! pc]"
      have sw: "swap_at m pc pd = Ok ?m" using d True by (intro swap_at_Ok) auto
      have p: "parted cmp ?m a pa pb (pc - 1) (pd - 1) e" by (rule parted_down_eq [OF parted True 1])
      have re: "reorders (a + 1) e m ?m" using d True by (intro reorders_swap) auto
      have pl: "0 \<le> cmp (m ! pc) (m ! a)" using 1 by simp
      obtain m' pc' pd' sw' where r: "scan_down cmp ?m a pb (pc - 1) (pd - 1) True = Ok (m', pc', pd', sw')"
        "reorders (a + 1) e ?m m'" "parted cmp m' a pa pb pc' pd' e" "\<forall>i \<le> pc'. m' ! i = ?m ! i"
        "pb \<le> pc' \<longrightarrow> cmp (m' ! pc') (m' ! a) < 0"
        using ih(1) [OF True c pl pc 1 sw p] by blast
      have "pc' \<le> pc - 1" using scan_down_range [OF r(1)] by simp
      with r(4) pc d(4) have "\<forall>i \<le> pc'. m' ! i = m ! i" by auto
      moreover have "scan_down cmp m a pb pc pd sw = Ok (m', pc', pd', sw')"
        using True c 1 pc sw r(1) by (simp add: scan_down.simps [of cmp m])
      ultimately show ?thesis using r reorders_trans [OF re r(2)] by blast
    next
      case 2
      have p: "parted cmp m a pa pb (pc - 1) pd e" by (rule parted_down_greater [OF parted True 2])
      have pl: "0 \<le> cmp (m ! pc) (m ! a)" and nz: "cmp (m ! pc) (m ! a) \<noteq> 0" using 2 by auto
      from ih(2) [OF True c pl pc nz p] 2 True c pc show ?thesis by (simp add: scan_down.simps [of cmp m])
    next
      case 3
      with True c parted show ?thesis by (simp add: scan_down.simps [of cmp m])
    qed
  qed
qed

lemma part_loop_result:
  assumes "parted cmp m a pa pb pc pd e"
  shows "\<exists>m' pa' pb' pc' pd' sw'. part_loop cmp m a pa pb pc pd sw = Ok (m', pa', pb', pc', pd', sw')
    \<and> reorders (a + 1) e m m' \<and> parted cmp m' a pa' pb' pc' pd' e \<and> pb' = pc' + 1"
  using assms
proof (induction cmp m a pa pb pc pd sw rule: part_loop.induct)
  case (1 cmp m a pa pb pc pd sw)
  note ih = 1(1) and parted = 1(2)
  obtain m1 pa1 pb1 sw1 where up: "scan_up cmp m a pa pb pc sw = Ok (m1, pa1, pb1, sw1)"
    and u: "reorders (a + 1) e m m1" "parted cmp m1 a pa1 pb1 pc pd e"
    "pb1 \<le> pc \<longrightarrow> 0 < cmp (m1 ! pb1) (m1 ! a)"
    using scan_up_result [OF parted] by blast
  obtain m2 pc2 pd2 sw2 where down: "scan_down cmp m1 a pb1 pc pd sw1 = Ok (m2, pc2, pd2, sw2)"
    and w: "reorders (a + 1) e m1 m2" "parted cmp m2 a pa1 pb1 pc2 pd2 e" "\<forall>i \<le> pc2. m2 ! i = m1 ! i"
    "pb1 \<le> pc2 \<longrightarrow> cmp (m2 ! pc2) (m2 ! a) < 0"
    using scan_down_result [OF u(2)] by blast
  note re = reorders_trans [OF u(1) w(1)] and d = partedD [OF w(2)]
  show ?case
  proof (cases "pc2 < pb1")
    case True
    with up down re w(2) d(3) show ?thesis by (simp add: part_loop.simps [of cmp m])
  next
    case False
    have "pc2 \<le> pc" using scan_down_range [OF down] by simp
    with False u(3) w(3) d have g: "0 < cmp (m2 ! pb1) (m2 ! a)" by auto
    let ?m = "m2[pb1 := m2 ! pc2, pc2 := m2 ! pb1]"
    have pc2: "pc2 \<noteq> 0" using False d by auto
    have sw: "swap_at m2 pb1 pc2 = Ok ?m" using False d by (intro swap_at_Ok) auto
    have p: "parted cmp ?m a pa1 (pb1 + 1) (pc2 - 1) pd2 e"
      using False w(2,4) g by (intro parted_exchange) auto
    have re': "reorders (a + 1) e m2 ?m" using False d by (intro reorders_swap) auto
    obtain m' pa' pb' pc' pd' sw' where
      r: "part_loop cmp ?m a pa1 (pb1 + 1) (pc2 - 1) pd2 True = Ok (m', pa', pb', pc', pd', sw')"
      "reorders (a + 1) e ?m m'" "parted cmp m' a pa' pb' pc' pd' e" "pb' = pc' + 1"
      using ih [OF up refl refl refl down refl refl refl False sw pc2 p] by blast
    have "part_loop cmp m a pa pb pc pd sw = Ok (m', pa', pb', pc', pd', sw')"
      using up down False sw pc2 r(1) by (simp add: part_loop.simps [of cmp m])
    with r reorders_trans [OF reorders_trans [OF re re'] r(2)] show ?thesis by blast
  qed
qed

subsection \<open>Gathering the equal objects in the middle\<close>

lemma vecswap_result:
  assumes "n = 0 \<or> i + n \<le> j" "j + n \<le> length m" "a \<le> i" "j + n \<le> e" "i + n \<le> e"
  shows "\<exists>m'. vecswap m i j n = Ok m' \<and> reorders a e m m' \<and>
    (\<forall>k. k < length m \<longrightarrow> m' ! k = (if i \<le> k \<and> k < i + n then m ! (j + (k - i))
       else if j \<le> k \<and> k < j + n then m ! (i + (k - j)) else m ! k))"
  using assms
proof (induction m i j n rule: vecswap.induct)
  case (1 m i j)
  then show ?case by auto
next
  case (2 m i j n)
  let ?m = "m[i := m ! j, j := m ! i]"
  have sw: "swap_at m i j = Ok ?m" using 2(2,3) by (intro swap_at_Ok) auto
  have re: "reorders a e m ?m" using 2(2-6) by (intro reorders_swap) auto
  obtain m' where m': "vecswap ?m (i + 1) (j + 1) n = Ok m'" "reorders a e ?m m'"
    "\<forall>k. k < length ?m \<longrightarrow> m' ! k = (if i + 1 \<le> k \<and> k < i + 1 + n then ?m ! (j + 1 + (k - (i + 1)))
       else if j + 1 \<le> k \<and> k < j + 1 + n then ?m ! (i + 1 + (k - (j + 1))) else ?m ! k)"
    using 2(1) [OF sw] 2(2-6) by auto
  have "m' ! k = (if i \<le> k \<and> k < i + Suc n then m ! (j + (k - i))
       else if j \<le> k \<and> k < j + Suc n then m ! (i + (k - j)) else m ! k)" if "k < length m" for k
  proof -
    consider "k = i" | "k = j" | "i < k" "k < i + Suc n" | "j < k" "k < j + Suc n"
      | "k < i \<or> i + Suc n \<le> k" "k < j \<or> j + Suc n \<le> k" by linarith
    then show ?thesis
    proof cases
      case 3
      with m'(3) that 2(2,3) have "m' ! k = ?m ! (j + (k - i))" by (auto simp: Suc_diff_Suc)
      moreover have "j + (k - i) \<noteq> i" "j + (k - i) \<noteq> j" using 3 2(2) by auto
      ultimately show ?thesis using 3 by simp
    next
      case 4
      with m'(3) that 2(2,3) have "m' ! k = ?m ! (i + (k - j))" by (auto simp: Suc_diff_Suc)
      moreover have "i + (k - j) \<noteq> i" "i + (k - j) \<noteq> j" using 4 2(2) by auto
      ultimately show ?thesis using 4 2(2) by simp
    qed (use m'(3) that 2(2,3) in auto)
  qed
  moreover have "vecswap m i j (Suc n) = Ok m'" using sw m'(1) by simp
  ultimately show ?case using reorders_trans [OF re m'(2)] by blast
qed

text \<open>
  Two adjacent runs, the first with the property \<open>E\<close> and the second with \<open>S\<close>, trade places by an
  exchange of the shorter one.
\<close>

lemma vecswap_gathers:
  assumes "a \<le> p" "p \<le> q" "q \<le> length m"
    and E: "\<And>i. a \<le> i \<Longrightarrow> i < p \<Longrightarrow> E (m ! i)" and S: "\<And>i. p \<le> i \<Longrightarrow> i < q \<Longrightarrow> S (m ! i)"
    and r: "r = min (p - a) (q - p)"
  shows "\<exists>m'. vecswap m a (q - r) r = Ok m' \<and> reorders a q m m' \<and>
    (\<forall>i. a \<le> i \<longrightarrow> i < a + (q - p) \<longrightarrow> S (m' ! i)) \<and> (\<forall>i. a + (q - p) \<le> i \<longrightarrow> i < q \<longrightarrow> E (m' ! i))"
proof -
  have "r \<le> p - a" "r \<le> q - p" using r by simp_all
  with assms(1-3) have bnd: "a + r \<le> q - r" "q - r + r \<le> length m" "q - r + r \<le> q" "a + r \<le> q"
    by linarith+
  obtain m' where m': "vecswap m a (q - r) r = Ok m'" "reorders a q m m'"
    and nth: "\<forall>k. k < length m \<longrightarrow> m' ! k = (if a \<le> k \<and> k < a + r then m ! (q - r + (k - a))
       else if q - r \<le> k \<and> k < q - r + r then m ! (a + (k - (q - r))) else m ! k)"
    using vecswap_result [of r a "q - r" m a q] bnd by auto
  have r': "r = p - a \<or> r = q - p" using r by (simp add: min_def)
  have "S (m' ! i)" if i: "a \<le> i" "i < a + (q - p)" for i
  proof (cases "i < a + r")
    case True
    with i nth bnd have "m' ! i = m ! (q - r + (i - a))" by simp
    moreover have "p \<le> q - r + (i - a)" "q - r + (i - a) < q" using True i bnd \<open>r \<le> q - p\<close> assms(2) by linarith+
    ultimately show ?thesis by (simp add: S)
  next
    case False
    then have "p \<le> i" "i < q - r" "i < length m" using i r' bnd assms(1-3) by linarith+
    with False nth have "m' ! i = m ! i" by simp
    moreover have "i < q" using \<open>i < q - r\<close> by linarith
    ultimately show ?thesis using \<open>p \<le> i\<close> by (simp add: S)
  qed
  moreover have "E (m' ! i)" if i: "a + (q - p) \<le> i" "i < q" for i
  proof (cases "i < q - r")
    case True
    then have "a + r \<le> i" "i < p" "i < length m" using i r' bnd assms(1-3) by linarith+
    with True nth have "m' ! i = m ! i" by simp
    moreover have "a \<le> i" using \<open>a + r \<le> i\<close> by linarith
    ultimately show ?thesis using \<open>i < p\<close> by (simp add: E)
  next
    case False
    then have "\<not> i < a + r" "q - r \<le> i" "i < q - r + r" "i < length m" using i bnd assms(3) by linarith+
    with nth have "m' ! i = m ! (a + (i - (q - r)))" by presburger
    moreover have "a + (i - (q - r)) < p" using False i bnd \<open>r \<le> p - a\<close> by linarith
    ultimately show ?thesis by (simp add: E)
  qed
  ultimately show ?thesis using m' by blast
qed

lemma med3_result:
  assumes "a < length m" "b < length m" "c < length m"
  shows "\<exists>k. med3 cmp m a b c = Ok k \<and> k \<in> {a, b, c}"
  using assms by (simp add: med3_def cmp_at_Ok)

lemma choose_pivot_result:
  assumes "7 \<le> n" "a + n \<le> length m"
  shows "\<exists>k. choose_pivot cmp m a n = Ok k \<and> a \<le> k \<and> k < a + n"
proof (cases "n > 40")
  case False
  let ?l = a and ?m = "a + n div 2" and ?n = "a + (n - 1)"
  have "n div 2 < n" using assms(1) by simp
  with assms have b: "?l < length m" "?m < length m" "?n < length m" by linarith+
  obtain k where "med3 cmp m ?l ?m ?n = Ok k" "k \<in> {?l, ?m, ?n}"
    using med3_result [OF b] by blast
  moreover have "a \<le> k \<and> k < a + n" using assms(1) \<open>n div 2 < n\<close> calculation(2) by auto
  moreover have "a + n div 2 < a + n" using \<open>n div 2 < n\<close> by simp
  ultimately show ?thesis using False by (simp add: choose_pivot_def Let_def)
next
  case True
  define d where "d = n div 8"
  have d: "8 * d \<le> n" "0 < d" "2 * d \<le> n div 2" "n div 2 + d < n" using True by (auto simp: d_def)
  let ?h = "a + n div 2" and ?n = "a + (n - 1)"
  have med: "\<exists>k. med3 cmp m x y z = Ok k \<and> a \<le> k \<and> k < a + n"
    if "a \<le> x" "x < a + n" "a \<le> y" "y < a + n" "a \<le> z" "z < a + n" for x y z
    using med3_result [of x m y z cmp] that assms(2) by auto
  obtain pl where pl: "med3 cmp m a (a + d) (a + 2 * d) = Ok pl" "a \<le> pl" "pl < a + n"
    using med [of a "a + d" "a + 2 * d"] d True by auto
  obtain pm where pm: "med3 cmp m (?h - d) ?h (?h + d) = Ok pm" "a \<le> pm" "pm < a + n"
    by (rule exE [OF med [of "?h - d" ?h "?h + d"]]) (use d in \<open>linarith+, blast\<close>)
  obtain pn where pn: "med3 cmp m (?n - 2 * d) (?n - d) ?n = Ok pn" "a \<le> pn" "pn < a + n"
    by (rule exE [OF med [of "?n - 2 * d" "?n - d" ?n]]) (use d in \<open>linarith+, blast\<close>)
  show ?thesis
    using med [of pl pm pn] True pl pm pn unfolding choose_pivot_def d_def by (auto simp: Let_def)
qed

subsection \<open>The whole sort\<close>

text \<open>
  Three parts, of which the middle one equals the pivot, are sorted together when the outer ones
  are sorted and lie on their sides of the pivot.
\<close>

lemma sorted_in_three:
  assumes ord: "total_preorder cmp"
    and lo: "\<And>i. a \<le> i \<Longrightarrow> i < s \<Longrightarrow> cmp (m ! i) v < 0"
    and mid: "\<And>i. s \<le> i \<Longrightarrow> i < t \<Longrightarrow> cmp (m ! i) v = 0"
    and hi: "\<And>i. t \<le> i \<Longrightarrow> i < e \<Longrightarrow> 0 < cmp (m ! i) v"
    and "sorted_in cmp m a s" "sorted_in cmp m t e"
  shows "sorted_in cmp m a e"
  unfolding sorted_in_def
proof (intro allI impI)
  fix i j assume ij: "a \<le> i" "i < j" "j < e"
  consider "j < s" | "t \<le> i" | "i < t" "s \<le> j" by linarith
  then show "cmp (m ! i) (m ! j) \<le> 0"
  proof cases
    case 3
    have "cmp (m ! i) v \<le> 0" using lo [of i] mid [of i] ij 3 by (cases "i < s") auto
    moreover have "0 \<le> cmp (m ! j) v" using mid [of j] hi [of j] ij 3 by (cases "j < t") auto
    then have "cmp v (m ! j) \<le> 0" using ordering_flip [OF ord] by blast
    ultimately show ?thesis by (rule ordering_trans [OF ord])
  qed (use assms(5,6) ij in \<open>auto simp: sorted_in_def\<close>)
qed

text \<open>
  What the loop body does up to the recursive calls.  The pivot keeps the parts that are left
  smaller than the array.
\<close>

lemma qsort_body:
  assumes "7 \<le> n" "a + n \<le> length m"
  obtains (insertion) m1 where "reorders a (a + n) m m1" "qsort cmp m a n = insertion cmp m1 a n (a + 1)"
  | (split) m1 v l h where "reorders a (a + n) m m1" "l < n" "h < n" "a + l \<le> a + n - h"
      "\<And>i. a \<le> i \<Longrightarrow> i < a + l \<Longrightarrow> cmp (m1 ! i) v < 0"
      "\<And>i. total_preorder cmp \<Longrightarrow> a + l \<le> i \<Longrightarrow> i < a + n - h \<Longrightarrow> cmp (m1 ! i) v = 0"
      "\<And>i. a + n - h \<le> i \<Longrightarrow> i < a + n \<Longrightarrow> 0 < cmp (m1 ! i) v"
      "qsort cmp m a n = andthen (if 1 < l then qsort cmp m1 a l else Ok m1) (\<lambda>m.
         if 1 < h then qsort cmp m (a + n - h) h else Ok m)"
proof -
  let ?e = "a + n"
  obtain k where k: "choose_pivot cmp m a n = Ok k" "a \<le> k" "k < ?e"
    using choose_pivot_result [OF assms] by blast
  let ?m = "m[a := m ! k, k := m ! a]"
  have sw: "swap_at m a k = Ok ?m" using assms k by (intro swap_at_Ok) auto
  have re0: "reorders a ?e m ?m" using assms k by (intro reorders_swap) auto
  have "parted cmp ?m a (a + 1) (a + 1) (a + (n - 1)) (a + (n - 1)) ?e"
    using assms by (auto simp: parted_def)
  from part_loop_result [OF this, of False] obtain m1 pa pb pc pd sw' where
    part: "part_loop cmp ?m a (a + 1) (a + 1) (a + (n - 1)) (a + (n - 1)) False = Ok (m1, pa, pb, pc, pd, sw')"
    and re1: "reorders (a + 1) ?e ?m m1" and p: "parted cmp m1 a pa pb pc pd ?e" and pb: "pb = pc + 1"
    by blast
  have re: "reorders a ?e m m1" by (rule reorders_trans [OF re0 reorders_mono [OF re1]]) auto
  note d = partedD [OF p]
  let ?v = "m1 ! a"
  have big: "\<not> n < 7" using assms(1) by simp
  show thesis
  proof (cases sw')
    case False
    show thesis
      by (rule insertion [OF re]) (use big k sw part False in \<open>simp add: qsort.simps [of cmp m]\<close>)
  next
    case True
    let ?E = "\<lambda>x. x = ?v \<or> cmp x ?v = 0"
    let ?r = "min (pa - a) (pb - pa)" and ?r' = "min (pd - pc) (?e - pd - 1)"
    have "\<exists>m2. vecswap m1 a (pb - ?r) ?r = Ok m2 \<and> reorders a pb m1 m2 \<and>
      (\<forall>i. a \<le> i \<longrightarrow> i < a + (pb - pa) \<longrightarrow> cmp (m2 ! i) ?v < 0) \<and>
      (\<forall>i. a + (pb - pa) \<le> i \<longrightarrow> i < pb \<longrightarrow> ?E (m2 ! i))"
    proof (rule vecswap_gathers)
      show "?E (m1 ! i)" if "a \<le> i" "i < pa" for i using p that by (cases "i = a") (auto simp: parted_def)
      show "cmp (m1 ! i) ?v < 0" if "pa \<le> i" "i < pb" for i using p that by (simp add: parted_def)
    qed (use d in auto)
    then obtain m2 where m2: "vecswap m1 a (pb - ?r) ?r = Ok m2" "reorders a pb m1 m2"
      and lo: "\<And>i. a \<le> i \<Longrightarrow> i < a + (pb - pa) \<Longrightarrow> cmp (m2 ! i) ?v < 0"
      and mid: "\<And>i. a + (pb - pa) \<le> i \<Longrightarrow> i < pb \<Longrightarrow> ?E (m2 ! i)" by blast
    have hi2: "m2 ! i = m1 ! i" if "pb \<le> i" "i < ?e" for i
      using reorders_nth [OF m2(2), of i] that d by auto
    have len2: "length m2 = length m1" by (rule reorders_length [OF m2(2)])
    have "\<exists>m3. vecswap m2 pb (?e - ?r') ?r' = Ok m3 \<and> reorders pb ?e m2 m3 \<and>
      (\<forall>i. pb \<le> i \<longrightarrow> i < pb + (?e - (pd + 1)) \<longrightarrow> ?E (m3 ! i)) \<and>
      (\<forall>i. pb + (?e - (pd + 1)) \<le> i \<longrightarrow> i < ?e \<longrightarrow> 0 < cmp (m3 ! i) ?v)"
    proof (rule vecswap_gathers)
      show "0 < cmp (m2 ! i) ?v" if "pb \<le> i" "i < pd + 1" for i
        using p that hi2 [of i] pb d by (auto simp: parted_def)
      show "?E (m2 ! i)" if "pd + 1 \<le> i" "i < ?e" for i
        using p that hi2 [of i] pb d by (auto simp: parted_def)
    qed (use d pb len2 in auto)
    then obtain m3 where m3: "vecswap m2 pb (?e - ?r') ?r' = Ok m3" "reorders pb ?e m2 m3"
      and mid': "\<And>i. pb \<le> i \<Longrightarrow> i < pb + (?e - (pd + 1)) \<Longrightarrow> ?E (m3 ! i)"
      and hi: "\<And>i. pb + (?e - (pd + 1)) \<le> i \<Longrightarrow> i < ?e \<Longrightarrow> 0 < cmp (m3 ! i) ?v" by blast
    have lo3: "m3 ! i = m2 ! i" if "i < pb" for i
      using reorders_nth [OF m3(2), of i] that d len2 pb by auto
    have re3: "reorders a ?e m m3"
      using re reorders_mono [OF m2(2), of a ?e] reorders_mono [OF m3(2), of a ?e] d pb
      by (auto intro: reorders_trans)
    have hd: "?e - (pd - pc) = pb + (?e - (pd + 1))" using d pb by auto
    show thesis
    proof (rule split [OF re3, where v = ?v and l = "pb - pa" and h = "pd - pc"])
      show "pb - pa < n" "pd - pc < n" "a + (pb - pa) \<le> ?e - (pd - pc)" using d pb by auto
      show "cmp (m3 ! i) ?v < 0" if "a \<le> i" "i < a + (pb - pa)" for i
        using lo [OF that] lo3 [of i] that d by auto
      show "cmp (m3 ! i) ?v = 0"
        if "total_preorder cmp" "a + (pb - pa) \<le> i" "i < ?e - (pd - pc)" for i
      proof -
        have "?E (m3 ! i)"
          using mid [of i] mid' [of i] lo3 [of i] that(2,3) hd by (cases "i < pb") auto
        then show ?thesis using ordering_refl [OF that(1)] by auto
      qed
      show "0 < cmp (m3 ! i) ?v" if "?e - (pd - pc) \<le> i" "i < ?e" for i
        using hi [of i] that hd by auto
      show "qsort cmp m a n = andthen (if 1 < pb - pa then qsort cmp m3 a (pb - pa) else Ok m3)
          (\<lambda>m. if 1 < pd - pc then qsort cmp m (?e - (pd - pc)) (pd - pc) else Ok m)"
        using big k(1) sw part True m2(1) m3(1)
        by (subst qsort.simps) (simp add: Let_def)
    qed
  qed
qed

text \<open>A part of a reordered part.\<close>

lemma sorted_in_outside:
  assumes "reorders x y m m'" "e \<le> x \<or> y \<le> a" "e \<le> length m"
  shows "sorted_in cmp m' a e \<longleftrightarrow> sorted_in cmp m a e"
proof -
  have "m' ! i = m ! i" if "a \<le> i" "i < e" for i
    by (rule reorders_nth [OF assms(1)]) (use that assms(2,3) in auto)
  then show ?thesis by (auto simp: sorted_in_def)
qed

lemma sorted_in_short: "e \<le> a + 1 \<Longrightarrow> sorted_in cmp m a e"
  by (simp add: sorted_in_def)

lemma qsort_result:
  assumes "a + n \<le> length m"
  shows "\<exists>m'. qsort cmp m a n = Ok m' \<and> reorders a (a + n) m m' \<and>
    (total_preorder cmp \<longrightarrow> sorted_in cmp m' a (a + n))"
  using assms
proof (induction n arbitrary: m a rule: less_induct)
  case (less n)
  have ins: "\<exists>m'. insertion cmp m1 a n (a + 1) = Ok m' \<and> reorders a (a + n) m m' \<and>
      (total_preorder cmp \<longrightarrow> sorted_in cmp m' a (a + n))" if "reorders a (a + n) m m1" for m1
    using insertion_result [of a "a + 1" n m1 cmp] reorders_length [OF that] reorders_trans [OF that]
      less.prems sorted_in_short [of "a + 1" a cmp m1] by auto
  show ?case
  proof (cases "7 \<le> n")
    case False
    with ins [OF reorders_refl] show ?thesis by (simp add: qsort.simps [of cmp m])
  next
    case True
    show ?thesis
    proof (cases rule: qsort_body [where cmp = cmp, OF True less.prems, case_names insertion split])
      case (insertion m1)
      with ins show ?thesis by simp
    next
      case (split m1 v l h)
      let ?t = "a + n - h"
      have ah: "?t + h = a + n" using split(3) by simp
      have len1: "length m1 = length m" by (rule reorders_length [OF split(1)])
      have "\<exists>m2. (if 1 < l then qsort cmp m1 a l else Ok m1) = Ok m2 \<and> reorders a (a + l) m1 m2 \<and>
          (total_preorder cmp \<longrightarrow> sorted_in cmp m2 a (a + l))"
        using less.IH [of l a m1] split(2) less.prems len1 sorted_in_short [of "a + l" a] by auto
      then obtain m2 where m2: "(if 1 < l then qsort cmp m1 a l else Ok m1) = Ok m2"
        "reorders a (a + l) m1 m2" "total_preorder cmp \<longrightarrow> sorted_in cmp m2 a (a + l)" by blast
      have len2: "length m2 = length m" using reorders_length [OF m2(2)] len1 by simp
      have "\<exists>m3. (if 1 < h then qsort cmp m2 ?t h else Ok m2) = Ok m3 \<and> reorders ?t (a + n) m2 m3 \<and>
          (total_preorder cmp \<longrightarrow> sorted_in cmp m3 ?t (a + n))"
      proof (cases "1 < h")
        case True
        with less.IH [of h ?t m2] split(3) less.prems len2 ah show ?thesis by auto
      next
        case False
        then have "sorted_in cmp m2 ?t (a + n)" using ah by (intro sorted_in_short) linarith
        with False show ?thesis by simp
      qed
      then obtain m3 where m3: "(if 1 < h then qsort cmp m2 ?t h else Ok m2) = Ok m3"
        "reorders ?t (a + n) m2 m3" "total_preorder cmp \<longrightarrow> sorted_in cmp m3 ?t (a + n)" by blast
      have "reorders a (a + n) m m3"
        by (rule reorders_trans [OF reorders_trans [OF split(1) reorders_mono [OF m2(2)]] reorders_mono [OF m3(2)]])
          (use split(2-4) in auto)
      moreover have "qsort cmp m a n = Ok m3" using split(8) m2(1) m3(1) by simp
      moreover have "sorted_in cmp m3 a (a + n)" if ord: "total_preorder cmp"
      proof (rule sorted_in_three [OF ord, where v = v and s = "a + l" and t = ?t])
        have keep: "m3 ! i = m2 ! i" if "i < ?t" for i
          using reorders_nth [OF m3(2), of i] that less.prems len2 by auto
        show "cmp (m3 ! i) v < 0" if i: "a \<le> i" "i < a + l" for i
        proof -
          have "cmp (m2 ! i) v < 0"
            by (rule reorders_all [OF m2(2), where P = "\<lambda>x. cmp x v < 0"]) (use split(2,5) i less.prems len1 in auto)
          then show ?thesis using keep [of i] i split(4) by simp
        qed
        show "cmp (m3 ! i) v = 0" if i: "a + l \<le> i" "i < ?t" for i
          using keep [of i] reorders_nth [OF m2(2), of i] split(6) [OF ord i] i less.prems len1 by auto
        show "0 < cmp (m3 ! i) v" if i: "?t \<le> i" "i < a + n" for i
        proof (rule reorders_all [OF m3(2), where P = "\<lambda>x. 0 < cmp x v"])
          show "0 < cmp (m2 ! k) v" if k: "?t \<le> k" "k < a + n" for k
            using split(7) [OF k] reorders_nth [OF m2(2), of k] k split(4) less.prems len1 by auto
        qed (use i less.prems len2 in auto)
        show "sorted_in cmp m3 a (a + l)"
          using sorted_in_outside [OF m3(2), of "a + l" a cmp] m2(3) ord split(2,4) less.prems len2 by auto
        show "sorted_in cmp m3 ?t (a + n)" using m3(3) ord by blast
      qed
      ultimately show ?thesis by blast
    qed
  qed
qed

subsection \<open>Properties\<close>

text \<open>
  C13.  \<open>qsort\<close> sorts: when the comparison is a total preorder, it returns, having accessed only
  objects of the array, with the \<open>n\<close> objects from \<open>a\<close> on in ascending order; the
  objects are the ones that were there, and what lies outside the array is unchanged.
\<close>

theorem qsort_sorts:
  assumes "total_preorder cmp" and "a + n \<le> length m"
  shows "\<exists>m'. qsort cmp m a n = Ok m' \<and> mset (take n (drop a m')) = mset (take n (drop a m)) \<and>
    take a m' = take a m \<and> drop (a + n) m' = drop (a + n) m \<and>
    sorted_wrt (\<lambda>x y. cmp x y \<le> 0) (take n (drop a m'))"
proof -
  obtain m' where m': "qsort cmp m a n = Ok m'" "reorders a (a + n) m m'" "sorted_in cmp m' a (a + n)"
    using qsort_result [OF assms(2)] assms(1) by blast
  have len: "length m' = length m" by (rule reorders_length [OF m'(2)])
  have "sorted_wrt (\<lambda>x y. cmp x y \<le> 0) (take n (drop a m'))"
    using m'(3) assms(2) len by (auto simp: sorted_wrt_iff_nth_less sorted_in_def)
  with m' reorders_parts [OF m'(2) _ assms(2)] show ?thesis by simp
qed

text \<open>
  C36.  Whatever the comparison returns, also when it is not an order, \<open>qsort\<close> terminates, does not
  leave the array, and only reorders its objects.
\<close>

theorem qsort_terminates:
  assumes "a + n \<le> length m"
  shows "\<exists>m'. qsort cmp m a n = Ok m' \<and> mset m' = mset m \<and>
    take a m' = take a m \<and> drop (a + n) m' = drop (a + n) m"
proof -
  obtain m' where m': "qsort cmp m a n = Ok m'" "reorders a (a + n) m m'"
    using qsort_result [OF assms] by blast
  then show ?thesis using reorders_parts [OF m'(2) _ assms] by (simp add: reorders_def)
qed

lemma total_preorder_minus: "total_preorder (\<lambda>x y. x - y :: int)"
  by (auto simp: total_preorder_def)

lemma qsort_sorts_witness:
  "\<exists>m'. qsort (\<lambda>x y. x - y :: int) [9, 3, 8, 1, 5, 1, 7, 2, 6, 0] 1 8 = Ok m' \<and>
    mset (take 8 (drop 1 m')) = mset [3, 8, 1, 5, 1, 7, 2, 6] \<and> take 1 m' = [9] \<and> drop 9 m' = [0] \<and>
    sorted_wrt (\<lambda>x y. x - y \<le> 0) (take 8 (drop 1 m'))"
  using qsort_sorts [OF total_preorder_minus, of 1 8 "[9, 3, 8, 1, 5, 1, 7, 2, 6, 0]"] by simp

lemma qsort_terminates_witness:
  "\<exists>m'. qsort (\<lambda>x y. 1) [4, 3, 2, 1 :: nat, 5, 6, 7, 8] 0 8 = Ok m' \<and>
    mset m' = mset [4, 3, 2, 1, 5, 6, 7, 8] \<and> take 0 m' = [] \<and> drop 8 m' = []"
  using qsort_terminates [of 0 8 "[4, 3, 2, 1 :: nat, 5, 6, 7, 8]" "\<lambda>x y. 1"] by simp

end
