(* ===== verification/Tftp.thy ===== *)
theory Tftp
  imports Str "HOL-Library.Sublist"
begin

text \<open>
  The TFTP client of network boot (\<^verbatim>\<open>netboot/tftp.c\<close>): the callback that uIP calls for a datagram of
  the connection, and the loop that polls the network until the transfer has ended.

  A datagram is its source port and its payload; \<open>uip_newdata\<close> is true whenever uIP calls the callback
  for one.  One call of \<open>net_poll\<close> takes at most one frame from the device, so the network is the
  list of what the polls bring: \<open>None\<close> for nothing, or for a frame that is not for this connection.
  When the list is exhausted the loop is still running, which is \<open>Fault Diverges\<close>.
  Every datagram handed to uIP is recorded with the port it goes to.  Console output is left out,
  except for the text of an error packet.
\<close>

subsection \<open>The code\<close>

definition TftpReadReq :: u16 where "TftpReadReq = 1"
definition TftpData :: u16 where "TftpData = 3"
definition TftpAck :: u16 where "TftpAck = 4"
definition TftpError :: u16 where "TftpError = 5"
definition TftpPort :: u16 where "TftpPort = 69"
definition TftpMaxBlockSize :: nat where "TftpMaxBlockSize = 512"

datatype tftp_status = TftpPending | TftpSuccess | TftpFailure

record datagram =
  src_port :: u16
  appdata :: bytes

text \<open>
  The variables of the file and the connection: the memory object the file goes to and the position
  of \<open>tftp_dest\<close> in it, and \<open>rport\<close>, where 0 accepts any port.
\<close>

record tftp =
  tf_status :: tftp_status
  tf_mem :: bytes
  tf_dest :: nat
  tf_got_response :: bool
  tf_blocknum :: int
  tf_total_size :: u32
  tf_max_size :: u32
  tf_rport :: u16
  tf_sent :: "(u16 \<times> bytes) list"

text \<open>\<open>ntohw\<close> of the two bytes at an offset, and \<open>htonw\<close>.\<close>

definition word_at :: "bytes \<Rightarrow> nat \<Rightarrow> u16" where
  "word_at bs i = word_of_nat (be_val (take 2 (drop i bs)))"

definition htonw :: "u16 \<Rightarrow> bytes" where
  "htonw w = be_bytes 2 (unat w)"

text \<open>\<open>TftpAckPacket\<close>: the block number is cut to its 16 bits.\<close>

definition tftp_ack_packet :: "int \<Rightarrow> bytes" where
  "tftp_ack_packet n = htonw TftpAck @ htonw (word_of_int n)"

definition tftp_read_request :: "bytes \<Rightarrow> bytes" where
  "tftp_read_request bootfile = htonw TftpReadReq @ bootfile @ [0] @ str ''Octet'' @ [0]"

definition uip_send_to :: "bytes \<Rightarrow> tftp \<Rightarrow> tftp" where
  "uip_send_to p s = s\<lparr>tf_sent := tf_sent s @ [(tf_rport s, p)]\<rparr>"

text \<open>What \<open>tftp_print_error_pkt\<close> prints as the message: the copy of the packet up to its first NUL.\<close>

definition tftp_error_message :: "bytes \<Rightarrow> bytes option" where
  "tftp_error_message p =
     (if 4 < length p then Some (takeWhile (\<lambda>b. b \<noteq> 0) (take (length p - 4) p @ [0])) else None)"

definition tftp_callback :: "datagram \<Rightarrow> tftp \<Rightarrow> tftp res" where
  "tftp_callback d s0 =
     (let p = appdata d; n = length p in
      if n < 2 then Ok s0 else
      let s = (if tf_rport s0 = 0 then s0\<lparr>tf_rport := src_port d\<rparr> else s0);
          opcode = word_at p 0 in
      if opcode = TftpError then Ok (s\<lparr>tf_status := TftpFailure\<rparr>) else
      if opcode \<noteq> TftpData \<or> n < 4 then Ok s else
      if uint (word_at p 2) \<noteq> tf_blocknum s then Ok s else
      let new_data = drop 4 p; len = n - 4 in
      if TftpMaxBlockSize < len then Ok s else
      if unat (tf_max_size s - tf_total_size s) < len then Ok (s\<lparr>tf_status := TftpFailure\<rparr>) else
      andthen (if len = 0 then Ok (tf_mem s) else of_opt (put (tf_mem s) (tf_dest s) new_data)) (\<lambda>mem.
      let s = s\<lparr>tf_mem := mem, tf_dest := tf_dest s + len,
                tf_total_size := tf_total_size s + word_of_nat len\<rparr> in
      if len < TftpMaxBlockSize then Ok (s\<lparr>tf_status := TftpSuccess\<rparr>)
      else Ok ((uip_send_to (tftp_ack_packet (tf_blocknum s)) s)
                 \<lparr>tf_blocknum := tf_blocknum s + 1, tf_got_response := True\<rparr>)))"

text \<open>uIP hands a datagram to the connection when the port is the one it is bound to, if it is bound.\<close>

definition uip_deliver :: "datagram option \<Rightarrow> tftp \<Rightarrow> tftp res" where
  "uip_deliver poll s =
     (case poll of None \<Rightarrow> Ok s
      | Some d \<Rightarrow> if tf_rport s = 0 \<or> src_port d = tf_rport s then tftp_callback d s else Ok s)"

definition tftp_resend :: "bytes \<Rightarrow> tftp \<Rightarrow> tftp" where
  "tftp_resend read_req s =
     (if tf_blocknum s = 1
      then (uip_send_to read_req (s\<lparr>tf_rport := TftpPort\<rparr>))\<lparr>tf_rport := 0\<rparr>
      else uip_send_to (tftp_ack_packet (tf_blocknum s - 1)) s)"

definition tftp_poll :: "bytes \<Rightarrow> datagram option \<Rightarrow> tftp \<Rightarrow> tftp res" where
  "tftp_poll read_req poll s =
     andthen (uip_deliver poll (s\<lparr>tf_got_response := False\<rparr>)) (\<lambda>s.
     if tf_got_response s then Ok s else Ok (tftp_resend read_req s))"

fun tftp_loop :: "bytes \<Rightarrow> datagram option list \<Rightarrow> tftp \<Rightarrow> tftp res" where
  "tftp_loop read_req polls s =
     (if tf_status s \<noteq> TftpPending then Ok s
      else case polls of [] \<Rightarrow> Fault Diverges
        | p # polls \<Rightarrow> andthen (tftp_poll read_req p s) (tftp_loop read_req polls))"

text \<open>
  \<open>have_conn\<close> says whether \<open>uip_udp_new\<close> had a connection left; \<open>pos\<close> is where \<open>dest\<close> points in the
  memory object.  A successful read returns the size and the final state.
\<close>

definition tftp_start :: "bytes \<Rightarrow> nat \<Rightarrow> bytes \<Rightarrow> u32 \<Rightarrow> tftp" where
  "tftp_start mem pos bootfile max_size =
     \<lparr>tf_status = TftpPending, tf_mem = mem, tf_dest = pos, tf_got_response = False, tf_blocknum = 1,
      tf_total_size = 0, tf_max_size = max_size, tf_rport = 0,
      tf_sent = [(TftpPort, tftp_read_request bootfile)]\<rparr>"

definition tftp_read :: "bool \<Rightarrow> bytes \<Rightarrow> nat \<Rightarrow> bytes \<Rightarrow> u32 \<Rightarrow> datagram option list \<Rightarrow> (u32 \<times> tftp) res" where
  "tftp_read have_conn mem pos bootfile max_size polls =
     (if \<not> have_conn then Err
      else andthen (tftp_loop (tftp_read_request bootfile) polls (tftp_start mem pos bootfile max_size)) (\<lambda>s.
           if tf_status s = TftpFailure then Err else Ok (tf_total_size s, s)))"

declare tftp_loop.simps [simp del]

subsection \<open>The packets of a file\<close>

definition block_of :: "bytes \<Rightarrow> nat \<Rightarrow> bytes" where
  "block_of F k = take 512 (drop (512 * (k - 1)) F)"

definition block_count :: "bytes \<Rightarrow> nat" where
  "block_count F = length F div 512 + 1"

definition data_datagram :: "u16 \<Rightarrow> bytes \<Rightarrow> nat \<Rightarrow> datagram" where
  "data_datagram port F k =
     \<lparr>src_port = port, appdata = htonw TftpData @ htonw (word_of_nat k) @ block_of F k\<rparr>"

text \<open>
  A datagram from the server of the file \<open>F\<close>: anything but an error packet, as long as a data packet
  is one of the file's.
\<close>

definition error_datagram :: "datagram \<Rightarrow> bool" where
  "error_datagram d \<longleftrightarrow> 2 \<le> length (appdata d) \<and> word_at (appdata d) 0 = TftpError"

definition genuine :: "u16 \<Rightarrow> bytes \<Rightarrow> datagram \<Rightarrow> bool" where
  "genuine port F d \<longleftrightarrow> src_port d = port \<and> \<not> error_datagram d \<and>
     (4 \<le> length (appdata d) \<and> word_at (appdata d) 0 = TftpData
      \<longrightarrow> (\<exists>k. 1 \<le> k \<and> k \<le> block_count F \<and> d = data_datagram port F k))"

text \<open>
  The polls bring datagrams of that server.  Once the first block has come (\<open>bound\<close>) the connection has the port
  of the server, and datagrams of any kind may come from other ports too; before, the connection would take them.
\<close>

fun from_server :: "u16 \<Rightarrow> bytes \<Rightarrow> bool \<Rightarrow> datagram option list \<Rightarrow> bool" where
  "from_server port F bound [] = True"
| "from_server port F bound (None # polls) = from_server port F bound polls"
| "from_server port F bound (Some d # polls) =
     ((genuine port F d \<or> bound \<and> src_port d \<noteq> port) \<and> from_server port F (bound \<or> d = data_datagram port F 1) polls)"

lemma length_htonw [simp]: "length (htonw w) = 2"
  by (simp add: htonw_def)

lemma word_at_htonw: "word_at (ps @ htonw w @ qs) (length ps) = w"
proof -
  have "unat w < 65536" using unsigned_less [of w] by simp
  then show ?thesis by (simp add: word_at_def htonw_def be_val_be_bytes)
qed

lemma data_fields:
  "word_at (appdata (data_datagram port F k)) 0 = TftpData"
  "word_at (appdata (data_datagram port F k)) 2 = word_of_nat k"
  "drop 4 (appdata (data_datagram port F k)) = block_of F k"
  "length (appdata (data_datagram port F k)) = 4 + length (block_of F k)"
  "src_port (data_datagram port F k) = port"
  using word_at_htonw [of "[]" TftpData "htonw (word_of_nat k) @ block_of F k"]
    word_at_htonw [of "htonw TftpData" "word_of_nat k" "block_of F k"]
  by (simp_all add: data_datagram_def)

lemma uint_block_number: "k < 65536 \<Longrightarrow> uint (word_of_nat k :: u16) = int k"
  by (simp add: unsigned_of_nat take_bit_nat_eq_self)

lemma length_block:
  assumes "1 \<le> k" "k \<le> block_count F"
  shows "length (block_of F k) = (if k = block_count F then length F mod 512 else 512)"
proof -
  have F: "length F = 512 * (length F div 512) + length F mod 512" "length F mod 512 < 512" by simp_all
  have "512 * k \<le> 512 * (length F div 512)" if "k \<noteq> block_count F"
    using that assms by (intro mult_le_mono2) (auto simp: block_count_def)
  moreover have "length F - 512 * (length F div 512) = length F mod 512" by (simp add: minus_mult_div_eq_mod)
  ultimately show ?thesis using assms F by (auto simp: block_of_def block_count_def min_def diff_mult_distrib2)
qed

subsection \<open>The transfer\<close>

text \<open>The memory when the first \<open>m\<close> bytes of the file have arrived.\<close>

definition received :: "bytes \<Rightarrow> nat \<Rightarrow> bytes \<Rightarrow> nat \<Rightarrow> bytes" where
  "received mem pos F m = take pos mem @ take m F @ drop (pos + m) mem"

lemma received_put:
  assumes "pos + length F \<le> length mem" and "m \<le> length F" and "xs = take n (drop m F)"
  shows "put (received mem pos F m) (pos + m) xs = Some (received mem pos F (m + length xs))"
proof -
  have n: "length xs = min n (length F - m)" using assms(3) by simp
  have "take (m + length xs) F = take m F @ xs"
    using assms(3) by (simp add: n take_add min_def)
  moreover have "drop (length xs) (drop (pos + m) mem) = drop (pos + (m + length xs)) mem"
    by (simp add: add.commute add.left_commute)
  ultimately show ?thesis using assms(1,2) n
    by (simp add: put_def received_def)
qed

text \<open>Running, with the first \<open>k\<close> blocks stored, and ended with the whole file.\<close>

definition acks_below :: "bytes \<Rightarrow> nat \<Rightarrow> (u16 \<times> bytes) list \<Rightarrow> bool" where
  "acks_below req n sent \<longleftrightarrow>
     (\<forall>p \<in> snd ` set sent. p = req \<or> (\<exists>j. 1 \<le> j \<and> j < n \<and> p = tftp_ack_packet (int j)))"

definition running :: "bytes \<Rightarrow> u16 \<Rightarrow> bytes \<Rightarrow> nat \<Rightarrow> bytes \<Rightarrow> u32 \<Rightarrow> nat \<Rightarrow> tftp \<Rightarrow> bool" where
  "running req port mem pos F max_size k s \<longleftrightarrow>
     tf_status s = TftpPending \<and> tf_mem s = received mem pos F (512 * k) \<and> tf_dest s = pos + 512 * k \<and>
     tf_blocknum s = int (k + 1) \<and> tf_total_size s = word_of_nat (512 * k) \<and> tf_max_size s = max_size \<and>
     (tf_rport s = port \<or> k = 0 \<and> tf_rport s = 0) \<and> acks_below req (k + 1) (tf_sent s)"

definition complete :: "bytes \<Rightarrow> bytes \<Rightarrow> nat \<Rightarrow> bytes \<Rightarrow> tftp \<Rightarrow> bool" where
  "complete req mem pos F s \<longleftrightarrow>
     tf_status s = TftpSuccess \<and> tf_mem s = received mem pos F (length F) \<and>
     tf_total_size s = word_of_nat (length F) \<and> acks_below req (block_count F) (tf_sent s)"

lemma acks_resend:
  assumes "acks_below req n (tf_sent s)" "tf_blocknum s = int n" "1 \<le> n"
  shows "acks_below req n (tf_sent (tftp_resend req s))"
proof (cases "n = 1")
  case True
  with assms show ?thesis by (auto simp: tftp_resend_def uip_send_to_def acks_below_def)
next
  case False
  with assms have "\<exists>j. 1 \<le> j \<and> j < n \<and> tftp_ack_packet (int n - 1) = tftp_ack_packet (int j)"
    by (intro exI [of _ "n - 1"]) (auto simp: of_nat_diff)
  with False assms show ?thesis by (auto simp: tftp_resend_def uip_send_to_def acks_below_def)
qed

lemma running_resend:
  assumes "running req port mem pos F mx k s"
  shows "running req port mem pos F mx k (tftp_resend req s)"
proof -
  have "acks_below req (k + 1) (tf_sent (tftp_resend req s))"
    by (rule acks_resend) (use assms in \<open>auto simp: running_def\<close>)
  with assms show ?thesis by (auto simp: running_def tftp_resend_def uip_send_to_def)
qed

lemma running_clear:
  "running req port mem pos F mx k s \<Longrightarrow> running req port mem pos F mx k (s\<lparr>tf_got_response := b\<rparr>)"
  by (simp add: running_def acks_below_def)

lemma complete_resend:
  assumes "complete req mem pos F s" "tf_blocknum s = int (block_count F)"
  shows "complete req mem pos F (tftp_resend req s)"
proof -
  have "acks_below req (block_count F) (tf_sent (tftp_resend req s))"
    by (rule acks_resend) (use assms in \<open>auto simp: complete_def block_count_def\<close>)
  with assms show ?thesis by (auto simp: complete_def tftp_resend_def uip_send_to_def)
qed

text \<open>A poll that brings nothing, or a datagram that is not the next block, changes nothing that counts.\<close>

lemma poll_ignores:
  assumes run: "running req port mem pos F mx k s" and port: "port \<noteq> 0"
    and d: "\<And>d. p = Some d \<Longrightarrow> 0 < k \<and> src_port d \<noteq> port \<or> src_port d = port \<and> \<not> error_datagram d \<and>
      (4 \<le> length (appdata d) \<and> word_at (appdata d) 0 = TftpData \<longrightarrow> uint (word_at (appdata d) 2) \<noteq> int (k + 1))"
  shows "\<exists>s'. tftp_poll req p s = Ok s' \<and> running req port mem pos F mx k s'"
proof -
  let ?s = "s\<lparr>tf_got_response := False\<rparr>"
  have "\<exists>s1. uip_deliver p ?s = Ok s1 \<and> \<not> tf_got_response s1 \<and> running req port mem pos F mx k s1"
  proof (cases p)
    case None
    with running_clear [OF run] show ?thesis by (simp add: uip_deliver_def)
  next
    case (Some d)
    show ?thesis
    proof (cases "0 < k \<and> src_port d \<noteq> port")
      case True
      then show ?thesis using run port running_clear [OF run, of False] Some by (auto simp: uip_deliver_def running_def)
    next
      case False
      with d [OF Some] have d: "src_port d = port \<and> \<not> error_datagram d \<and>
        (4 \<le> length (appdata d) \<and> word_at (appdata d) 0 = TftpData \<longrightarrow> uint (word_at (appdata d) 2) \<noteq> int (k + 1))" by blast
      have "tftp_callback d ?s = Ok (if length (appdata d) < 2 then ?s
          else if tf_rport s = 0 then ?s\<lparr>tf_rport := src_port d\<rparr> else ?s)"
        using d run by (auto simp: tftp_callback_def Let_def error_datagram_def running_def)
      moreover have "running req port mem pos F mx k (?s\<lparr>tf_rport := src_port d\<rparr>)"
        using run d by (auto simp: running_def acks_below_def)
      ultimately show ?thesis using Some running_clear [OF run, of False] by (auto simp: uip_deliver_def)
    qed
  qed
  then show ?thesis using running_resend by (auto simp: tftp_poll_def)
qed

text \<open>The next block is stored and, unless it is the last one, acknowledged.\<close>

lemma poll_accepts:
  assumes run: "running req port mem pos F mx k s"
    and k: "k + 1 \<le> 65535" "k + 1 \<le> block_count F"
    and fits: "length F \<le> unat mx" "pos + length F \<le> length mem"
  shows "\<exists>s'. tftp_poll req (Some (data_datagram port F (k + 1))) s = Ok s' \<and>
    (if k + 1 = block_count F then complete req mem pos F s' else running req port mem pos F mx (k + 1) s')"
proof -
  define K where "K = k + 1"
  let ?d = "data_datagram port F K" and ?n = "length (block_of F K)"
  let ?s = "s\<lparr>tf_got_response := False\<rparr>"
  have len: "?n = (if K = block_count F then length F mod 512 else 512)"
    using length_block [of K F] k(2) by (simp add: K_def)
  have le: "512 * k \<le> length F" using k(2) by (auto simp: block_count_def)
  then have sum: "512 * k + ?n \<le> length F" by (simp add: block_of_def K_def)
  have mx: "unat mx < 4294967296" by (rule unat_u32_less)
  have tot: "unat (mx - word_of_nat (512 * k)) = unat mx - 512 * k"
  proof -
    have "unat (word_of_nat (512 * k) :: u32) = 512 * k" using le fits(1) mx by (intro unat_u32_of_nat) linarith
    then show ?thesis using le fits(1) by (subst unat_sub) (simp_all add: word_le_nat_alt del: of_nat_mult)
  qed
  have put: "(if ?n = 0 then Ok (tf_mem s) else of_opt (put (tf_mem s) (tf_dest s) (block_of F K)))
      = Ok (received mem pos F (512 * k + ?n))"
    using received_put [OF fits(2) le, of "block_of F K" 512] run by (simp add: running_def block_of_def K_def)
  have num: "uint (word_at (appdata ?d) 2) = int K"
    unfolding data_fields(2) by (rule uint_block_number) (use k(1) in \<open>simp add: K_def\<close>)
  define t where "t = (if tf_rport s = 0 then ?s\<lparr>tf_rport := port\<rparr> else ?s)
    \<lparr>tf_mem := received mem pos F (512 * k + ?n), tf_dest := pos + (512 * k + ?n),
     tf_total_size := word_of_nat (512 * k + ?n)\<rparr>"
  have n: "?n \<le> 512" using len by (simp add: less_imp_le)
  have cb: "tftp_callback ?d ?s = Ok (if ?n < 512 then t\<lparr>tf_status := TftpSuccess\<rparr>
      else (uip_send_to (tftp_ack_packet (int K)) t)\<lparr>tf_blocknum := int K + 1, tf_got_response := True\<rparr>)"
  proof -
    have r: "tf_blocknum s = int K" "tf_max_size s = mx" "tf_total_size s = word_of_nat (512 * k)"
      "tf_dest s = pos + 512 * k" using run by (auto simp: running_def K_def)
    have c: "length (appdata ?d) = 4 + ?n" "word_at (appdata ?d) 0 = TftpData" "drop 4 (appdata ?d) = block_of F K"
      by (simp_all add: data_fields)
    have "TftpData \<noteq> TftpError" by (simp add: TftpData_def TftpError_def)
    moreover have "\<not> unat (mx - word_of_nat (512 * k)) < ?n" unfolding tot using sum fits(1) by linarith
    ultimately show ?thesis
      using n num put unfolding tftp_callback_def Let_def c data_fields(5) t_def
      by (auto simp: r TftpMaxBlockSize_def uip_send_to_def add.assoc simp del: of_nat_mult)
  qed
  show ?thesis
  proof (cases "?n < 512")
    case True
    then have K: "K = block_count F" using len by (auto split: if_splits)
    have "length F = 512 * k + ?n" using K len by (simp add: K_def block_count_def)
    then have "complete req mem pos F (t\<lparr>tf_status := TftpSuccess\<rparr>)"
      using run K by (auto simp: complete_def t_def running_def acks_below_def K_def)
    moreover have "tf_blocknum t = int (block_count F)" using run K by (auto simp: t_def running_def K_def)
    moreover have "tf_rport ?s = 0 \<or> src_port ?d = tf_rport ?s" using run by (auto simp: running_def data_fields)
    ultimately show ?thesis using cb True K
      by (auto simp: tftp_poll_def uip_deliver_def t_def K_def intro: complete_resend)
  next
    case False
    with n have n512: "?n = 512" by simp
    have K: "K \<noteq> block_count F" using len n512 by (auto split: if_splits)
    let ?t = "(uip_send_to (tftp_ack_packet (int K)) t)\<lparr>tf_blocknum := int K + 1, tf_got_response := True\<rparr>"
    have "acks_below req (K + 1) (tf_sent ?t)"
      using run by (fastforce simp: acks_below_def uip_send_to_def t_def running_def K_def intro: less_SucI)
    then have "running req port mem pos F mx K ?t"
      using run n512 by (auto simp: running_def t_def uip_send_to_def K_def add.commute [of "512 * k" 512])
    moreover have "tf_rport ?s = 0 \<or> src_port ?d = tf_rport ?s" using run by (auto simp: running_def data_fields)
    ultimately show ?thesis using cb False K by (auto simp: tftp_poll_def uip_deliver_def K_def)
  qed
qed

text \<open>The data packets of blocks \<open>i\<close> to \<open>j\<close>, each brought by a poll.\<close>

definition block_polls :: "u16 \<Rightarrow> bytes \<Rightarrow> nat \<Rightarrow> nat \<Rightarrow> datagram option list" where
  "block_polls port F i j = map (\<lambda>k. Some (data_datagram port F k)) [i..<Suc j]"

lemma block_polls_Cons: "i \<le> j \<Longrightarrow> block_polls port F i j = Some (data_datagram port F i) # block_polls port F (i + 1) j"
  unfolding block_polls_def by (subst upt_conv_Cons) auto

lemma block_polls_empty: "j < i \<Longrightarrow> block_polls port F i j = []"
  by (simp add: block_polls_def)

lemma genuine_other:
  assumes "genuine port F d" and "d \<noteq> data_datagram port F (k + 1)" and "block_count F \<le> 65535" "k + 1 \<le> 65535"
  shows "src_port d = port \<and> \<not> error_datagram d \<and>
      (4 \<le> length (appdata d) \<and> word_at (appdata d) 0 = TftpData \<longrightarrow> uint (word_at (appdata d) 2) \<noteq> int (k + 1))"
proof -
  have "uint (word_at (appdata (data_datagram port F i)) 2) \<noteq> int (k + 1)"
    if "1 \<le> i" "i \<le> block_count F" "i \<noteq> k + 1" for i
    unfolding data_fields(2) using that assms(3,4) by (subst uint_block_number) auto
  note num = this
  show ?thesis
  proof (intro conjI impI)
    assume "4 \<le> length (appdata d) \<and> word_at (appdata d) 0 = TftpData"
    then obtain i where i: "1 \<le> i" "i \<le> block_count F" "d = data_datagram port F i"
      using assms(1) unfolding genuine_def by blast
    with assms(2) have "i \<noteq> k + 1" by blast
    with num [OF i(1,2)] i(3) show "uint (word_at (appdata d) 2) \<noteq> int (k + 1)" by blast
  qed (use assms(1) in \<open>simp_all add: genuine_def\<close>)
qed

lemma tftp_loop_running:
  assumes "running req port mem pos F mx k s" and "k < block_count F"
    and "from_server port F (0 < k) polls"
    and "block_count F \<le> 65535" "length F \<le> unat mx" "pos + length F \<le> length mem" "port \<noteq> 0"
  shows "if subseq (block_polls port F (k + 1) (block_count F)) polls
    then \<exists>s'. tftp_loop req polls s = Ok s' \<and> complete req mem pos F s'
    else tftp_loop req polls s = Fault Diverges"
  using assms(1-3)
proof (induction polls arbitrary: k s)
  case Nil
  then show ?case by (simp add: tftp_loop.simps [of req "[]"] running_def block_polls_Cons)
next
  case (Cons p polls)
  let ?n = "block_count F"
  have pending: "tf_status s = TftpPending" using Cons.prems(1) by (simp add: running_def)
  have loop: "tftp_loop req (p # polls) s = andthen (tftp_poll req p s) (tftp_loop req polls)"
    using pending by (subst tftp_loop.simps) simp
  have blocks: "block_polls port F (k + 1) ?n = Some (data_datagram port F (k + 1)) # block_polls port F (k + 2) ?n"
    using Cons.prems(2) by (simp add: block_polls_Cons)
  show ?case
  proof (cases "p = Some (data_datagram port F (k + 1))")
    case True
    obtain s1 where s1: "tftp_poll req p s = Ok s1"
      "if k + 1 = ?n then complete req mem pos F s1 else running req port mem pos F mx (k + 1) s1"
      using poll_accepts [OF Cons.prems(1) _ _ assms(5,6)] Cons.prems(2) assms(4) True by auto
    show ?thesis
    proof (cases "k + 1 = ?n")
      case True
      with s1(2) have "complete req mem pos F s1" by simp
      moreover have "tftp_loop req polls s1 = Ok s1"
        using calculation by (subst tftp_loop.simps) (simp add: complete_def)
      ultimately show ?thesis using loop s1(1) blocks True \<open>p = _\<close> by (simp add: block_polls_empty)
    next
      case False
      have "from_server port F (0 < k + 1) polls" using Cons.prems(3) \<open>p = _\<close> by (cases k) simp_all
      with False show ?thesis
        using Cons.IH [of "k + 1" s1] s1 Cons.prems(2) loop blocks \<open>p = _\<close>
        by (auto simp: subseq_Cons2_iff data_fields split: if_splits)
    qed
  next
    case False
    have other: "0 < k \<and> src_port d \<noteq> port \<or> src_port d = port \<and> \<not> error_datagram d \<and>
      (4 \<le> length (appdata d) \<and> word_at (appdata d) 0 = TftpData \<longrightarrow> uint (word_at (appdata d) 2) \<noteq> int (k + 1))"
      if "p = Some d" for d
    proof (cases "genuine port F d")
      case True
      have "d \<noteq> data_datagram port F (k + 1)" using that False by simp
      from genuine_other [OF True this assms(4)] Cons.prems(2) assms(4) show ?thesis by simp
    qed (use that Cons.prems(3) in simp)
    have later: "from_server port F (0 < k) polls"
    proof (cases p)
      case (Some d)
      then have "from_server port F (0 < k \<or> d = data_datagram port F 1) polls" using Cons.prems(3) by simp
      moreover have "(0 < k \<or> d = data_datagram port F 1) = (0 < k)" using False Some by (cases k) auto
      ultimately show ?thesis by (simp only:)
    qed (use Cons.prems(3) in simp)
    from poll_ignores [OF Cons.prems(1) assms(7) other] obtain s1
      where s1: "tftp_poll req p s = Ok s1" "running req port mem pos F mx k s1" by blast
    then show ?thesis
      using Cons.IH [OF s1(2) Cons.prems(2) later] loop blocks False
      by (auto simp: subseq_Cons2_iff split: if_splits)
  qed
qed

lemma running_start:
  assumes "pos \<le> length mem"
  shows "running (tftp_read_request file) port mem pos F mx 0 (tftp_start mem pos file mx)"
  using assms by (simp add: running_def tftp_start_def received_def acks_below_def)

text \<open>After 65535 full blocks the block number is 65536, which no packet has.\<close>

lemma callback_stuck:
  assumes "tf_status s = TftpPending" "tf_blocknum s = 65536" "\<not> error_datagram d"
  shows "\<exists>s'. tftp_callback d s = Ok s' \<and> tf_status s' = TftpPending \<and> tf_blocknum s' = 65536
    \<and> tf_got_response s' = tf_got_response s"
proof -
  have "uint w \<noteq> 65536" for w :: u16 using uint_bounded [of w] by simp
  then have "tftp_callback d s = Ok (if length (appdata d) < 2 then s
      else if tf_rport s = 0 then s\<lparr>tf_rport := src_port d\<rparr> else s)"
    using assms by (auto simp: tftp_callback_def Let_def error_datagram_def)
  with assms show ?thesis by auto
qed

lemma tftp_loop_stuck:
  assumes "tf_status s = TftpPending" "tf_blocknum s = 65536"
    and "\<And>d. Some d \<in> set polls \<Longrightarrow> \<not> error_datagram d"
  shows "tftp_loop req polls s = Fault Diverges"
  using assms
proof (induction polls arbitrary: s)
  case Nil
  then show ?case by (simp add: tftp_loop.simps [of req "[]"])
next
  case (Cons p polls)
  have "\<exists>s1. uip_deliver p (s\<lparr>tf_got_response := False\<rparr>) = Ok s1 \<and> tf_status s1 = TftpPending \<and> tf_blocknum s1 = 65536
      \<and> \<not> tf_got_response s1"
    using Cons.prems callback_stuck [of "s\<lparr>tf_got_response := False\<rparr>"]
    by (cases p) (auto simp: uip_deliver_def)
  then obtain s1 where s1: "tftp_poll req p s = Ok s1" "tf_status s1 = TftpPending" "tf_blocknum s1 = 65536"
    by (auto simp: tftp_poll_def tftp_resend_def uip_send_to_def)
  with Cons.IH [of s1] Cons.prems show ?case by (subst tftp_loop.simps) simp
qed

lemma tftp_loop_blocks:
  assumes "running req port mem pos F mx k s" and "k + n \<le> 65535" and "k + n < block_count F"
    and "length F \<le> unat mx" "pos + length F \<le> length mem"
  shows "\<exists>s'. tftp_loop req (block_polls port F (k + 1) (k + n) @ polls) s = tftp_loop req polls s'
    \<and> running req port mem pos F mx (k + n) s'"
  using assms(1-3)
proof (induction n arbitrary: k s)
  case 0
  then show ?case by (auto simp: block_polls_empty)
next
  case (Suc n)
  obtain s1 where s1: "tftp_poll req (Some (data_datagram port F (k + 1))) s = Ok s1"
    "running req port mem pos F mx (k + 1) s1"
    using poll_accepts [OF Suc.prems(1) _ _ assms(4,5)] Suc.prems(2,3) by auto
  obtain s' where "tftp_loop req (block_polls port F (k + 1 + 1) (k + 1 + n) @ polls) s1 = tftp_loop req polls s'"
    "running req port mem pos F mx (k + 1 + n) s'"
    using Suc.IH [OF s1(2)] Suc.prems(2,3) by auto
  moreover have "tf_status s = TftpPending" using Suc.prems(1) by (simp add: running_def)
  ultimately show ?case using s1(1)
    by (subst tftp_loop.simps) (auto simp: block_polls_Cons)
qed

subsection \<open>Properties\<close>

text \<open>
  C14.  The server sends a file of fewer than 65535 full blocks, in data packets that may be lost, repeated or
  reordered, mixed with other packets of its own that are no error packets, and, after the first block has
  come, with packets from any other port.  As long as the packets of all blocks have not arrived in their order, the
  client keeps polling; once they have, it returns the size of the file, with the file at \<open>dest\<close>,
  nothing else of the memory changed, and only full blocks acknowledged: the last block never is.
\<close>

theorem tftp_read_delivers:
  fixes mem bootfile F :: bytes
  assumes "from_server port F False polls" "port \<noteq> 0"
    and "length F < 65535 * 512" "length F \<le> unat max_size" "pos + length F \<le> length mem"
  defines "r \<equiv> tftp_read True mem pos bootfile max_size polls"
    and "delivered \<equiv> subseq (block_polls port F 1 (block_count F)) polls"
    and "ok \<equiv> \<lambda>s. tf_mem s = take pos mem @ F @ drop (pos + length F) mem \<and>
      (\<forall>p \<in> snd ` set (tf_sent s). p = tftp_read_request bootfile \<or>
         (\<exists>j. 1 \<le> j \<and> j < block_count F \<and> p = tftp_ack_packet (int j)))"
  shows "if delivered then \<exists>s. r = Ok (word_of_nat (length F), s) \<and> ok s else r = Fault Diverges"
proof -
  let ?req = "tftp_read_request bootfile" and ?s = "tftp_start mem pos bootfile max_size"
  have n: "block_count F \<le> 65535" using assms(3) by (simp add: block_count_def)
  have "running ?req port mem pos F max_size 0 ?s" using assms(5) by (intro running_start) simp
  from tftp_loop_running [OF this _ _ n assms(4,5,2)] assms(1)
  have "if delivered then \<exists>s. tftp_loop ?req polls ?s = Ok s \<and> complete ?req mem pos F s
      else tftp_loop ?req polls ?s = Fault Diverges"
    by (simp add: block_count_def delivered_def)
  then show ?thesis
    by (auto simp: r_def ok_def tftp_read_def complete_def received_def acks_below_def)
qed

text \<open>
  C37.  A file of 65535 full blocks or more never arrives.  The block number of a packet has 16 bits,
  the counter of the client is an \<open>int\<close> that goes on to 65536: after 65535 blocks in a row no data
  packet matches it, and whatever else comes, short of an error packet, the client polls for ever.
\<close>

theorem tftp_read_stalls:
  assumes "65535 * 512 \<le> length F" "length F \<le> unat max_size" "pos + length F \<le> length mem"
    and "\<And>d. Some d \<in> set more_polls \<Longrightarrow> \<not> error_datagram d"
  shows "tftp_read True mem pos bootfile max_size (block_polls port F 1 65535 @ more_polls) = Fault Diverges"
proof -
  let ?req = "tftp_read_request bootfile" and ?s = "tftp_start mem pos bootfile max_size"
  have run: "running ?req port mem pos F max_size 0 ?s" using assms(3) by (intro running_start) simp
  have n: "65535 < block_count F" using div_le_mono [OF assms(1), of 512] by (simp add: block_count_def)
  obtain s where s: "tftp_loop ?req (block_polls port F 1 65535 @ more_polls) ?s = tftp_loop ?req more_polls s"
    "running ?req port mem pos F max_size 65535 s"
    using tftp_loop_blocks [OF run _ _ assms(2,3), of 65535 more_polls] n by auto
  have "tftp_loop ?req more_polls s = Fault Diverges"
    by (rule tftp_loop_stuck) (use s(2) assms(4) in \<open>auto simp: running_def\<close>)
  with s(1) show ?thesis by (simp add: tftp_read_def)
qed

text \<open>
  The text printed for an error packet starts at the opcode, whose first byte is 0: no error message
  is ever shown.
\<close>

lemma tftp_error_message_empty:
  assumes "error_datagram d"
  shows "tftp_error_message (appdata d) = (if 4 < length (appdata d) then Some [] else None)"
proof -
  obtain x y r where p: "appdata d = x # y # r"
    using assms by (cases "appdata d" rule: list.exhaust; cases "tl (appdata d)") (auto simp: error_datagram_def)
  have "unat x * 256 + unat y < 65536" using unat_u8_less [of x] unat_u8_less [of y] by simp
  moreover have "word_of_nat (unat x * 256 + unat y) = (5 :: u16)"
    using assms by (simp add: error_datagram_def p word_at_def be_val_def TftpError_def)
  then have "unat (word_of_nat (unat x * 256 + unat y) :: u16) = 5" by simp
  ultimately have "unat x * 256 + unat y = 5" by (simp only: unat_of_nat) simp
  then have "unat x = 0" by presburger
  then have "x = 0" by (simp add: unat_eq_0)
  then show ?thesis by (auto simp: tftp_error_message_def p take_Cons')
qed

subsection \<open>Witnesses\<close>

lemma data_datagram_genuine:
  assumes "1 \<le> k" "k \<le> block_count F"
  shows "genuine port F (data_datagram port F k)"
  using assms by (auto simp: genuine_def data_fields error_datagram_def TftpData_def TftpError_def)

lemma tftp_read_delivers_witness:
  "(\<exists>s. tftp_read True [9, 9, 9, 9] 1 (str ''file'') 100 [None, Some (data_datagram 7 [1, 2, 3] 1)] = Ok (3, s)
     \<and> tf_mem s = [9, 1, 2, 3]) \<and>
   tftp_read True [9, 9, 9, 9] 1 (str ''file'') 100 [None, None] = Fault Diverges"
proof (rule conjI)
  let ?polls = "[None, Some (data_datagram 7 [1, 2, 3] 1)]"
  have g: "from_server 7 [1, 2, 3] False ?polls"
    using data_datagram_genuine [of 1 "[1, 2, 3]" 7] by (simp add: block_count_def)
  have "subseq (block_polls 7 [1, 2, 3] 1 (block_count [1, 2, 3])) ?polls"
    by (simp add: block_polls_def block_count_def upt_rec)
  then show "\<exists>s. tftp_read True [9, 9, 9, 9] 1 (str ''file'') 100 ?polls = Ok (3, s) \<and> tf_mem s = [9, 1, 2, 3]"
    using tftp_read_delivers [where polls = ?polls and port = 7 and F = "[1, 2, 3]" and max_size = 100
        and pos = 1 and mem = "[9, 9, 9, 9]" and bootfile = "str ''file''", OF g]
    by (simp add: drop_Cons') blast
next
  have "\<not> subseq (block_polls 7 [1, 2, 3] 1 (block_count [1, 2, 3])) [None, None]"
    by (simp add: block_polls_def block_count_def upt_rec)
  then show "tftp_read True [9, 9, 9, 9] 1 (str ''file'') 100 [None, None] = Fault Diverges"
    using tftp_read_delivers [where polls = "[None, None]" and port = 7 and F = "[1, 2, 3]" and max_size = 100
        and pos = 1 and mem = "[9, 9, 9, 9]" and bootfile = "str ''file''"] by simp
qed

lemma tftp_read_stalls_witness:
  "tftp_read True (replicate 40000000 0) 0 (str ''file'') 40000000
     (block_polls 7 (replicate 40000000 1) 1 65535 @ [None, None]) = Fault Diverges"
  by (rule tftp_read_stalls) simp_all

end
