(* ===== verification/Dhcp.thy ===== *)
theory Dhcp
  imports Prelude
begin

text \<open>
  The DHCP client of network boot, \<^verbatim>\<open>netboot/dhcp.c\<close>: walking the options of a packet, the callback that
  takes or drops a packet, and the exchange of the four messages.

  A packet is the list of its 548 bytes.  The network is the list of what the polls of the driver bring,
  each a packet for this connection or nothing, with what the clock says after it: whether the three
  seconds to the next transmission are over.  Where the list ends the loop is still polling, which is
  \<open>Fault Diverges\<close>.  Console output is left out.
\<close>

subsection \<open>Packets\<close>

definition DhcpTagSubnetMask :: u8 where "DhcpTagSubnetMask = 1"
definition DhcpTagDefaultRouter :: u8 where "DhcpTagDefaultRouter = 3"
definition DhcpTagRequestedIpAddress :: u8 where "DhcpTagRequestedIpAddress = 50"
definition DhcpTagOptionOverload :: u8 where "DhcpTagOptionOverload = 52"
definition DhcpTagMessageType :: u8 where "DhcpTagMessageType = 53"
definition DhcpTagServerIdentifier :: u8 where "DhcpTagServerIdentifier = 54"
definition DhcpTagParameterRequestList :: u8 where "DhcpTagParameterRequestList = 55"
definition DhcpTagMaximumDhcpMessageSize :: u8 where "DhcpTagMaximumDhcpMessageSize = 57"
definition DhcpTagClientIdentifier :: u8 where "DhcpTagClientIdentifier = 61"
definition DhcpTagEndOfList :: u8 where "DhcpTagEndOfList = 255"

definition DhcpNoMessageType :: u8 where "DhcpNoMessageType = 0"
definition DhcpDiscover :: u8 where "DhcpDiscover = 1"
definition DhcpOffer :: u8 where "DhcpOffer = 2"
definition DhcpRequest :: u8 where "DhcpRequest = 3"
definition DhcpAck :: u8 where "DhcpAck = 5"
definition DhcpNak :: u8 where "DhcpNak = 6"
definition DhcpRelease :: u8 where "DhcpRelease = 7"

definition DhcpRequestOp :: u8 where "DhcpRequestOp = 1"
definition DhcpReplyOp :: u8 where "DhcpReplyOp = 2"
definition DhcpEthernet :: u8 where "DhcpEthernet = 1"
definition DhcpCookie :: bytes where "DhcpCookie = [99, 130, 83, 99]"
definition DhcpPacketSize :: nat where "DhcpPacketSize = 548"
definition DhcpMaxPacketSize :: nat where "DhcpMaxPacketSize = 548 + 20 + 8"

text \<open>The fields of \<open>DhcpPacket\<close>, in order.\<close>

definition field :: "nat \<Rightarrow> nat \<Rightarrow> bytes \<Rightarrow> bytes" where
  "field off n p = take n (drop off p)"

definition pk_opcode :: "bytes \<Rightarrow> bytes" where "pk_opcode = field 0 1"
definition pk_hw_length :: "bytes \<Rightarrow> bytes" where "pk_hw_length = field 2 1"
definition pk_transaction_id :: "bytes \<Rightarrow> bytes" where "pk_transaction_id = field 4 4"
definition pk_your_ip :: "bytes \<Rightarrow> bytes" where "pk_your_ip = field 16 4"
definition pk_server_ip :: "bytes \<Rightarrow> bytes" where "pk_server_ip = field 20 4"
definition pk_client_hw_addr :: "bytes \<Rightarrow> bytes" where "pk_client_hw_addr = field 28 16"
definition pk_server_name :: "bytes \<Rightarrow> bytes" where "pk_server_name = field 44 64"
definition pk_bootfile_name :: "bytes \<Rightarrow> bytes" where "pk_bootfile_name = field 108 128"
definition pk_cookie :: "bytes \<Rightarrow> bytes" where "pk_cookie = field 236 4"
definition pk_options :: "bytes \<Rightarrow> bytes" where "pk_options = field 240 308"

subsection \<open>Options\<close>

text \<open>
  A callback is given the tag, the length and the bytes from the value on; \<open>None\<close> is its error return,
  which leaves the data alone.  The walk returns whether it failed, the data and \<open>new_overload\<close>.
\<close>

type_synonym 'd option_func = "u8 \<Rightarrow> u8 \<Rightarrow> bytes \<Rightarrow> 'd \<Rightarrow> 'd option"

function walk_options :: "bytes \<Rightarrow> nat \<Rightarrow> 'd option_func \<Rightarrow> u8 \<Rightarrow> 'd \<Rightarrow> bool \<times> 'd \<times> u8" where
  "walk_options options pos func new_overload d =
     (if \<not> pos < length options then (False, d, new_overload)
      else let tag = options ! pos in
      if pos + 1 \<ge> length options then (True, d, new_overload)
      else let len = options ! (pos + 1) in
      if pos + 2 \<ge> length options then (True, d, new_overload)
      else let v = drop (pos + 2) options; pos = pos + 2 + unat len in
      if pos \<ge> length options then (True, d, new_overload)
      else if tag = DhcpTagEndOfList then (False, d, new_overload)
      else if tag = DhcpTagOptionOverload
      then (if len < 1 then (True, d, new_overload) else walk_options options pos func (hd v) d)
      else case func tag len v d of None \<Rightarrow> (True, d, new_overload)
        | Some d \<Rightarrow> walk_options options pos func new_overload d)"
  by pat_completeness auto
termination by (relation "measure (\<lambda>(options, pos, _). length options - pos)") auto

declare walk_options.simps [simp del]

text \<open>The area of the packet an overload stands for: \<open>None\<close> is the default branch.\<close>

definition option_area :: "bytes \<Rightarrow> u8 \<Rightarrow> bytes option" where
  "option_area packet overload =
     (if overload = 0 then Some (pk_options packet)
      else if overload = 1 then Some (pk_bootfile_name packet)
      else if overload = 2 then Some (pk_server_name packet)
      else if overload = 3 then Some (field 44 192 packet)
      else None)"

definition dhcp_process_options :: "bytes \<Rightarrow> 'd option_func \<Rightarrow> 'd \<Rightarrow> bool \<times> 'd" where
  "dhcp_process_options packet func d =
     (case walk_options (pk_options packet) 0 func 0 d of (failed, d, new_overload) \<Rightarrow>
        if failed \<or> new_overload = 0 then (failed, d)
        else case option_area packet new_overload of None \<Rightarrow> (True, d)
          | Some area \<Rightarrow> (case walk_options area 0 func 0 d of (failed, d, _) \<Rightarrow> (failed, d)))"

definition dhcp_get_type :: "u8 option_func" where
  "dhcp_get_type tag len v type =
     (if tag \<noteq> DhcpTagMessageType then Some type else if len < 1 then None else Some (hd v))"

definition dhcp_get_server :: "bytes option_func" where
  "dhcp_get_server tag len v server_id =
     (if tag \<noteq> DhcpTagServerIdentifier then Some server_id else if len < 4 then None else Some (take 4 v))"

text \<open>The netmask and the default router of the network stack.\<close>

definition dhcp_apply_options :: "(bytes \<times> bytes) option_func" where
  "dhcp_apply_options tag len v net =
     (if tag = DhcpTagSubnetMask then (if len < 4 then None else Some (take 4 v, snd net))
      else if tag = DhcpTagDefaultRouter then (if len < 4 then None else Some (fst net, take 4 v))
      else Some net)"

subsection \<open>The client\<close>

datatype dhcp_state = DhcpInit | DhcpRequesting | DhcpBound

text \<open>The static variables, the addresses and connections of the network stack, and what was sent.\<close>

record dhcp =
  dh_state :: dhcp_state
  dh_in :: bytes
  dh_in_ready :: bool
  dh_out :: bytes
  dh_net :: "bytes \<times> bytes"
  dh_hostaddr :: bytes
  dh_conns :: nat
  dh_sent :: "bytes list"

definition acceptable_type :: "dhcp_state \<Rightarrow> u8 \<Rightarrow> bool" where
  "acceptable_type st type =
     (case st of DhcpInit \<Rightarrow> type = DhcpOffer
      | DhcpRequesting \<Rightarrow> type = DhcpAck \<or> type = DhcpNak
      | DhcpBound \<Rightarrow> True)"

definition dhcp_callback :: "bytes \<Rightarrow> dhcp \<Rightarrow> dhcp" where
  "dhcp_callback data s =
     (if length data > DhcpPacketSize then s
      else let p = data @ replicate (DhcpPacketSize - length data) 0; out = dh_out s; s = s\<lparr>dh_in := p\<rparr> in
      if pk_opcode p \<noteq> [DhcpReplyOp] \<or> pk_hw_length p \<noteq> pk_hw_length out \<or>
         take (unat (hd (pk_hw_length out))) (pk_client_hw_addr p) \<noteq> take (unat (hd (pk_hw_length out))) (pk_client_hw_addr out) \<or>
         pk_transaction_id p \<noteq> pk_transaction_id out then s
      else if pk_cookie p \<noteq> DhcpCookie then s
      else case dhcp_process_options p dhcp_get_type DhcpNoMessageType of (failed, type) \<Rightarrow>
        if failed then s
        else if acceptable_type (dh_state s) type then s\<lparr>dh_in_ready := True\<rparr> else s)"

definition uip_udp_packet_send :: "bytes \<Rightarrow> dhcp \<Rightarrow> dhcp" where
  "uip_udp_packet_send p s = s\<lparr>dh_sent := dh_sent s @ [p]\<rparr>"

type_synonym polls = "(bytes option \<times> bool) list"

fun dhcp_wait :: "bytes \<Rightarrow> polls \<Rightarrow> dhcp \<Rightarrow> (polls \<times> dhcp) res" where
  "dhcp_wait out [] s = Fault Diverges"
| "dhcp_wait out ((p, late) # polls) s =
     (let s = (case p of None \<Rightarrow> s | Some data \<Rightarrow> dhcp_callback data s) in
      if dh_in_ready s then Ok (polls, s)
      else dhcp_wait out polls (if late then uip_udp_packet_send out s else s))"

definition dhcp_send_packet :: "bytes \<Rightarrow> polls \<Rightarrow> dhcp \<Rightarrow> (polls \<times> dhcp) res" where
  "dhcp_send_packet out polls s =
     dhcp_wait out polls ((uip_udp_packet_send out s)\<lparr>dh_out := out, dh_in_ready := False\<rparr>)"

text \<open>The packet up to the options, for the address \<open>mac\<close> of the adapter, and the area of the options.\<close>

definition dhcp_prep_packet :: "bytes \<Rightarrow> u32 \<Rightarrow> bytes" where
  "dhcp_prep_packet mac transaction_id =
     [DhcpRequestOp, DhcpEthernet, 6, 0] @ le_bytes 4 (unat transaction_id) @ be_bytes 2 100 @ [0, 0] @
     replicate 16 0 @ mac @ replicate 10 0 @ replicate 192 0 @ DhcpCookie"

text \<open>The options written so far and \<open>remaining\<close>; the rest of the area is zero.\<close>

definition dhcp_add_option :: "u8 \<Rightarrow> bytes \<Rightarrow> bytes \<times> int \<Rightarrow> (bytes \<times> int) res" where
  "dhcp_add_option tag v area =
     (case area of (options, remaining) \<Rightarrow>
        if remaining \<ge> int (length v) + 2
        then Ok (options @ [tag, word_of_nat (length v)] @ v, remaining - (int (length v) + 2))
        else Fault AssertFail)"

fun dhcp_add_options :: "(u8 \<times> bytes) list \<Rightarrow> bytes \<times> int \<Rightarrow> (bytes \<times> int) res" where
  "dhcp_add_options [] area = Ok area"
| "dhcp_add_options ((tag, v) # opts) area = andthen (dhcp_add_option tag v area) (dhcp_add_options opts)"

definition dhcp_packet :: "bytes \<Rightarrow> (u8 \<times> bytes) list \<Rightarrow> bytes res" where
  "dhcp_packet prepared opts =
     andthen (dhcp_add_options opts ([], 308)) (\<lambda>(options, remaining). Ok (prepared @ options @ replicate (nat remaining) 0))"

definition discover_options :: "bytes \<Rightarrow> (u8 \<times> bytes) list" where
  "discover_options mac =
     [(DhcpTagMessageType, [DhcpDiscover]), (DhcpTagClientIdentifier, DhcpEthernet # mac),
      (DhcpTagParameterRequestList, [DhcpTagSubnetMask, DhcpTagDefaultRouter]),
      (DhcpTagMaximumDhcpMessageSize, be_bytes 2 DhcpMaxPacketSize), (DhcpTagEndOfList, [])]"

definition request_options :: "bytes \<Rightarrow> bytes \<Rightarrow> bytes \<Rightarrow> (u8 \<times> bytes) list" where
  "request_options mac your_ip server_id =
     [(DhcpTagMessageType, [DhcpRequest]), (DhcpTagClientIdentifier, DhcpEthernet # mac),
      (DhcpTagRequestedIpAddress, your_ip),
      (DhcpTagParameterRequestList, [DhcpTagSubnetMask, DhcpTagDefaultRouter]),
      (DhcpTagMaximumDhcpMessageSize, be_bytes 2 DhcpMaxPacketSize),
      (DhcpTagServerIdentifier, server_id), (DhcpTagEndOfList, [])]"

text \<open>
  The arguments from outside: the address of the adapter, whether \<open>uip_udp_new\<close> had a connection left,
  the results of \<open>rand\<close>, and what the uninitialized \<open>server_id\<close> and \<open>type\<close> hold.
\<close>

record dhcp_env =
  de_mac :: bytes
  de_have_conn :: bool
  de_rand1 :: u32
  de_rand2 :: u32
  de_server_id :: bytes
  de_type :: u8

record lease =
  le_next_ip :: bytes
  le_server_ip :: bytes
  le_bootfile :: bytes

text \<open>The outcome is the lease or the error return, with the polls that are left.\<close>

definition dhcp_request :: "dhcp_env \<Rightarrow> polls \<Rightarrow> dhcp \<Rightarrow> (lease option \<times> polls \<times> dhcp) res" where
  "dhcp_request env polls s =
     (if \<not> de_have_conn env then Ok (None, polls, s)
      else let s = s\<lparr>dh_conns := dh_conns s + 1\<rparr> in
      andthen (dhcp_packet (dhcp_prep_packet (de_mac env) (de_rand1 env)) (discover_options (de_mac env))) (\<lambda>out.
      andthen (dhcp_send_packet out polls s) (\<lambda>(polls, s).
      case dhcp_process_options (dh_in s) dhcp_get_server (de_server_id env) of (failed, server_id) \<Rightarrow>
      if failed then Ok (None, polls, s)
      else let s = s\<lparr>dh_state := DhcpRequesting\<rparr> in
      andthen (dhcp_packet (dhcp_prep_packet (de_mac env) (de_rand2 env))
          (request_options (de_mac env) (pk_your_ip (dh_in s)) server_id)) (\<lambda>out.
      andthen (dhcp_send_packet out polls s) (\<lambda>(polls, s).
      case dhcp_process_options (dh_in s) dhcp_get_type (de_type env) of (failed, type) \<Rightarrow>
      if failed \<or> type = DhcpNak then Ok (None, polls, s\<lparr>dh_state := DhcpInit\<rparr>)
      else let s = s\<lparr>dh_state := DhcpBound, dh_conns := dh_conns s - 1\<rparr> in
      case dhcp_process_options (dh_in s) dhcp_apply_options (dh_net s) of (failed, net) \<Rightarrow>
      if failed then Ok (None, polls, s\<lparr>dh_net := net, dh_state := DhcpInit\<rparr>)
      else Ok (Some \<lparr>le_next_ip = pk_server_ip (dh_in s), le_server_ip = server_id,
                     le_bootfile = pk_bootfile_name (dh_in s) @ [0]\<rparr>,
               polls, s\<lparr>dh_net := net, dh_hostaddr := pk_your_ip (dh_in s)\<rparr>))))))"

definition release_packet :: "bytes \<Rightarrow> u32 \<Rightarrow> bytes \<Rightarrow> bytes" where
  "release_packet mac transaction_id client_ip =
     (let p = dhcp_prep_packet mac transaction_id in take 12 p @ client_ip @ drop 16 p)"

definition dhcp_release :: "bytes \<Rightarrow> bool \<Rightarrow> u32 \<Rightarrow> dhcp \<Rightarrow> (bool \<times> dhcp) res" where
  "dhcp_release mac have_conn rand s =
     (if \<not> have_conn then Ok (False, s)
      else andthen (dhcp_packet (release_packet mac rand (dh_hostaddr s))
          [(DhcpTagMessageType, [DhcpRelease]), (DhcpTagEndOfList, [])]) (\<lambda>out.
        Ok (True, (uip_udp_packet_send out s)\<lparr>dh_state := DhcpInit\<rparr>)))"

subsection \<open>Lists of options\<close>

text \<open>
  An area that holds a list of options, the end tag with a length of 0 and at least one more byte.  The
  bytes of an overload option name another area.
\<close>

definition encode_option :: "u8 \<times> bytes \<Rightarrow> bytes" where
  "encode_option opt = [fst opt, word_of_nat (length (snd opt))] @ snd opt"

definition plain_option :: "u8 \<times> bytes \<Rightarrow> bool" where
  "plain_option opt \<longleftrightarrow> fst opt \<noteq> DhcpTagEndOfList \<and> length (snd opt) < 256 \<and>
     (fst opt = DhcpTagOptionOverload \<longrightarrow> snd opt \<noteq> [])"

definition holds_options :: "bytes \<Rightarrow> (u8 \<times> bytes) list \<Rightarrow> bool" where
  "holds_options area opts \<longleftrightarrow>
     (\<forall>opt \<in> set opts. plain_option opt) \<and>
     (\<exists>x pad. area = concat (map encode_option opts) @ DhcpTagEndOfList # 0 # x # pad)"

text \<open>What the options do to the data, in order, until a callback fails.\<close>

fun run_options :: "'d option_func \<Rightarrow> (u8 \<times> bytes) list \<Rightarrow> 'd \<Rightarrow> bool \<times> 'd" where
  "run_options func [] d = (False, d)"
| "run_options func (opt # opts) d =
     (if fst opt = DhcpTagOptionOverload then run_options func opts d
      else case func (fst opt) (word_of_nat (length (snd opt))) (snd opt) d of
        None \<Rightarrow> (True, d) | Some d \<Rightarrow> run_options func opts d)"

fun overload_of :: "(u8 \<times> bytes) list \<Rightarrow> u8 \<Rightarrow> u8" where
  "overload_of [] ov = ov"
| "overload_of (opt # opts) ov = overload_of opts (if fst opt = DhcpTagOptionOverload then hd (snd opt) else ov)"

text \<open>A callback that only looks at the bytes of its value.\<close>

definition reads_value :: "'d option_func \<Rightarrow> bool" where
  "reads_value func \<longleftrightarrow>
     (\<forall>tag v rest d. length v < 256 \<longrightarrow> func tag (word_of_nat (length v)) (v @ rest) d = func tag (word_of_nat (length v)) v d)"

lemma unat_len: "length v < 256 \<Longrightarrow> unat (word_of_nat (length v) :: u8) = length v"
  by (simp add: unat_of_nat)

lemma reads_value_callbacks: "reads_value dhcp_get_type" "reads_value dhcp_get_server" "reads_value dhcp_apply_options"
  by (auto simp: reads_value_def dhcp_get_type_def dhcp_get_server_def dhcp_apply_options_def word_less_nat_alt unat_len
    hd_append split: if_splits)

lemma walk_options_step:
  assumes opt: "plain_option (tag, v)" and rest: "rest \<noteq> []" and func: "reads_value func"
  shows "walk_options (pre @ encode_option (tag, v) @ rest) (length pre) func ov d =
     (if tag = DhcpTagOptionOverload
      then walk_options (pre @ encode_option (tag, v) @ rest) (length (pre @ encode_option (tag, v))) func (hd v) d
      else case func tag (word_of_nat (length v)) v d of None \<Rightarrow> (True, d, ov)
        | Some d \<Rightarrow> walk_options (pre @ encode_option (tag, v) @ rest) (length (pre @ encode_option (tag, v))) func ov d)"
proof -
  let ?area = "pre @ encode_option (tag, v) @ rest" and ?len = "word_of_nat (length v) :: u8"
  have v: "length v < 256" "tag \<noteq> DhcpTagEndOfList" using opt by (simp_all add: plain_option_def)
  have at: "?area ! length pre = tag" "?area ! (length pre + 1) = ?len" "drop (length pre + 2) ?area = v @ rest"
      "length pre < length ?area" "length pre + 1 < length ?area" "length pre + 2 < length ?area"
      "length pre + 2 + unat ?len < length ?area"
      "length pre + 2 + unat ?len = length (pre @ encode_option (tag, v))"
    using rest by (auto simp: encode_option_def nth_append unat_len [OF v(1)])
  have call: "func tag ?len (v @ rest) d = func tag ?len v d" using func v(1) by (simp add: reads_value_def)
  have overload: "tag = DhcpTagOptionOverload \<Longrightarrow> hd (v @ rest) = hd v \<and> \<not> ?len < 1"
    using opt unat_len [OF v(1)] by (cases v) (auto simp: plain_option_def word_less_nat_alt)
  show ?thesis
    unfolding walk_options.simps [of ?area "length pre"] Let_def at(1-3) call at(8)
    using at(4-7) v(2) overload unfolding at(8) by (auto simp: not_le [symmetric] split: option.split)
qed

lemma walk_options_end:
  "walk_options (pre @ DhcpTagEndOfList # 0 # x # pad) (length pre) func ov d = (False, d, ov)"
  by (simp add: walk_options.simps nth_append)

lemma walk_options_run:
  assumes func: "reads_value func"
  shows "\<forall>opt \<in> set opts. plain_option opt \<Longrightarrow>
    \<exists>ov'. walk_options (pre @ concat (map encode_option opts) @ DhcpTagEndOfList # 0 # x # pad) (length pre) func ov d =
      (fst (run_options func opts d), snd (run_options func opts d), ov') \<and>
      (\<not> fst (run_options func opts d) \<longrightarrow> ov' = overload_of opts ov)"
proof (induction opts arbitrary: pre ov d)
  case Nil
  show ?case by (simp add: walk_options_end)
next
  case (Cons opt opts)
  obtain tag v where opt: "opt = (tag, v)" by fastforce
  let ?rest = "concat (map encode_option opts) @ DhcpTagEndOfList # 0 # x # pad"
  have plain: "plain_option (tag, v)" "\<forall>opt \<in> set opts. plain_option opt" using Cons.prems opt by auto
  have step: "walk_options (pre @ encode_option (tag, v) @ ?rest) (length pre) func ov d =
     (if tag = DhcpTagOptionOverload
      then walk_options (pre @ encode_option (tag, v) @ ?rest) (length (pre @ encode_option (tag, v))) func (hd v) d
      else case func tag (word_of_nat (length v)) v d of None \<Rightarrow> (True, d, ov)
        | Some d \<Rightarrow> walk_options (pre @ encode_option (tag, v) @ ?rest) (length (pre @ encode_option (tag, v))) func ov d)"
    by (rule walk_options_step [OF plain(1) _ func]) simp
  note IH = Cons.IH [OF plain(2), of "pre @ encode_option (tag, v)"]
  show ?case
    using IH [of "hd v" d] IH [of ov]
    by (cases "func tag (word_of_nat (length v)) v d") (auto simp: opt step [simplified])
qed

lemma walk_options_area:
  assumes "holds_options area opts" "reads_value func"
  shows "\<exists>ov. walk_options area 0 func 0 d = (fst (run_options func opts d), snd (run_options func opts d), ov) \<and>
      (\<not> fst (run_options func opts d) \<longrightarrow> ov = overload_of opts 0)"
  using walk_options_run [OF assms(2), of opts "[]"] assms(1) by (auto simp: holds_options_def)

lemma run_options_append:
  "run_options func (as @ bs) d =
     (if fst (run_options func as d) then run_options func as d else run_options func bs (snd (run_options func as d)))"
  by (induction as arbitrary: d) (auto split: option.split)

lemma process_options_fold:
  assumes "holds_options (pk_options p) opts" "reads_value func"
    and "overload_of opts 0 = 0 \<and> more_opts = [] \<or>
      (\<exists>area. overload_of opts 0 \<noteq> 0 \<and> option_area p (overload_of opts 0) = Some area \<and> holds_options area more_opts)"
  shows "dhcp_process_options p func d = run_options func (opts @ more_opts) d"
proof -
  obtain ov where w: "walk_options (pk_options p) 0 func 0 d = (fst (run_options func opts d), snd (run_options func opts d), ov)"
      "\<not> fst (run_options func opts d) \<longrightarrow> ov = overload_of opts 0"
    using walk_options_area [OF assms(1,2)] by blast
  show ?thesis
  proof (cases "fst (run_options func opts d)")
    case True
    then show ?thesis by (simp add: dhcp_process_options_def w(1) run_options_append prod_eq_iff)
  next
    case False
    with w(2) have ov: "ov = overload_of opts 0" by simp
    from assms(3) show ?thesis
    proof (elim disjE exE conjE)
      assume "overload_of opts 0 = 0" "more_opts = []"
      with False show ?thesis by (simp add: dhcp_process_options_def w(1) ov prod_eq_iff)
    next
      fix area
      assume a: "overload_of opts 0 \<noteq> 0" "option_area p (overload_of opts 0) = Some area" "holds_options area more_opts"
      obtain ov' where more_walk: "walk_options area 0 func 0 (snd (run_options func opts d)) =
          (fst (run_options func more_opts (snd (run_options func opts d))),
           snd (run_options func more_opts (snd (run_options func opts d))), ov')"
        using walk_options_area [OF a(3) assms(2)] by blast
      show ?thesis using False a(1,2) by (simp add: dhcp_process_options_def w(1) ov run_options_append more_walk)
    qed
  qed
qed

subsection \<open>The packets of the client\<close>

definition option_bytes :: "(u8 \<times> bytes) list \<Rightarrow> bytes" where
  "option_bytes opts = concat (map encode_option opts)"

lemma dhcp_add_options_ok:
  "int (length (option_bytes opts)) \<le> remaining \<Longrightarrow>
   dhcp_add_options opts (done, remaining) = Ok (done @ option_bytes opts, remaining - int (length (option_bytes opts)))"
proof (induction opts arbitrary: "done" remaining)
  case Nil
  show ?case by (simp add: option_bytes_def)
next
  case (Cons opt opts)
  obtain tag v where opt: "opt = (tag, v)" by fastforce
  have len: "length (option_bytes (opt # opts)) = length v + 2 + length (option_bytes opts)"
    by (simp add: option_bytes_def encode_option_def opt)
  have "int (length (option_bytes opts)) \<le> remaining - (int (length v) + 2)" using Cons.prems len by simp
  from Cons.IH [OF this] show ?case using Cons.prems len
    by (simp add: opt dhcp_add_option_def option_bytes_def encode_option_def)
qed

lemma dhcp_packet_ok:
  "length (option_bytes opts) \<le> 308 \<Longrightarrow>
   dhcp_packet prepared opts = Ok (prepared @ option_bytes opts @ replicate (308 - length (option_bytes opts)) 0)"
  using dhcp_add_options_ok [of opts 308 "[]"] by (simp add: dhcp_packet_def nat_diff_distrib)

definition discover_packet :: "bytes \<Rightarrow> u32 \<Rightarrow> bytes" where
  "discover_packet mac xid =
     dhcp_prep_packet mac xid @ option_bytes (discover_options mac) @ replicate (308 - length (option_bytes (discover_options mac))) 0"

definition request_packet_to :: "bytes \<Rightarrow> u32 \<Rightarrow> bytes \<Rightarrow> bytes \<Rightarrow> bytes" where
  "request_packet_to mac xid your_ip server_id =
     (let opts = option_bytes (request_options mac your_ip server_id)
      in dhcp_prep_packet mac xid @ opts @ replicate (308 - length opts) 0)"

lemma discover_packet_ok:
  "length mac = 6 \<Longrightarrow> dhcp_packet (dhcp_prep_packet mac xid) (discover_options mac) = Ok (discover_packet mac xid)"
  unfolding discover_packet_def by (rule dhcp_packet_ok) (simp add: option_bytes_def encode_option_def discover_options_def)

lemma request_packet_ok:
  "length mac = 6 \<Longrightarrow> length your_ip = 4 \<Longrightarrow> length server_id = 4 \<Longrightarrow>
   dhcp_packet (dhcp_prep_packet mac xid) (request_options mac your_ip server_id) = Ok (request_packet_to mac xid your_ip server_id)"
  unfolding request_packet_to_def Let_def by (rule dhcp_packet_ok) (simp add: option_bytes_def encode_option_def request_options_def)

lemma prepared_fields:
  assumes "length mac = 6"
  shows "pk_hw_length (dhcp_prep_packet mac xid @ opts) = [6]"
    "pk_transaction_id (dhcp_prep_packet mac xid @ opts) = le_bytes 4 (unat xid)"
    "take 6 (pk_client_hw_addr (dhcp_prep_packet mac xid @ opts)) = mac"
  using assms by (simp_all add: dhcp_prep_packet_def field_def pk_hw_length_def pk_transaction_id_def pk_client_hw_addr_def)

subsection \<open>The exchange\<close>

text \<open>The datagram is a reply to the client \<open>mac\<close> in the transaction \<open>xid\<close>, of the message type \<open>type\<close>.\<close>

definition padded :: "bytes \<Rightarrow> bytes" where
  "padded data = data @ replicate (DhcpPacketSize - length data) 0"

definition is_reply :: "bytes \<Rightarrow> u32 \<Rightarrow> u8 \<Rightarrow> bytes \<Rightarrow> bool" where
  "is_reply mac xid type data \<longleftrightarrow>
     length data \<le> DhcpPacketSize \<and> pk_opcode (padded data) = [DhcpReplyOp] \<and> pk_hw_length (padded data) = [6] \<and>
     take 6 (pk_client_hw_addr (padded data)) = mac \<and> pk_transaction_id (padded data) = le_bytes 4 (unat xid) \<and>
     pk_cookie (padded data) = DhcpCookie \<and>
     dhcp_process_options (padded data) dhcp_get_type DhcpNoMessageType = (False, type)"

text \<open>Polls that bring nothing the client waits for in the state.\<close>

definition noise :: "bytes \<Rightarrow> u32 \<Rightarrow> dhcp_state \<Rightarrow> polls \<Rightarrow> bool" where
  "noise mac xid st polls \<longleftrightarrow>
     (\<forall>data late type. (Some data, late) \<in> set polls \<longrightarrow> is_reply mac xid type data \<longrightarrow> \<not> acceptable_type st type)"

definition timeouts :: "polls \<Rightarrow> nat" where
  "timeouts polls = length (filter snd polls)"

lemma dhcp_callback_ready:
  assumes mac: "length mac = 6" and out: "dh_out s = dhcp_prep_packet mac xid @ opts" and "\<not> dh_in_ready s"
  shows "dh_in_ready (dhcp_callback data s) \<longleftrightarrow> (\<exists>type. is_reply mac xid type data \<and> acceptable_type (dh_state s) type)"
    "dh_in_ready (dhcp_callback data s) \<Longrightarrow> dhcp_callback data s = s\<lparr>dh_in := padded data, dh_in_ready := True\<rparr>"
    "\<exists>p. dhcp_callback data s = s\<lparr>dh_in := p, dh_in_ready := dh_in_ready (dhcp_callback data s)\<rparr>"
proof -
  let ?p = "padded data"
  have fields: "pk_hw_length (dh_out s) = [6]" "pk_transaction_id (dh_out s) = le_bytes 4 (unat xid)"
      "take 6 (pk_client_hw_addr (dh_out s)) = mac"
    unfolding out by (rule prepared_fields [OF mac])+
  obtain failed type where opts: "dhcp_process_options ?p dhcp_get_type DhcpNoMessageType = (failed, type)" by fastforce
  define match where "match \<longleftrightarrow> length data \<le> DhcpPacketSize \<and> pk_opcode ?p = [DhcpReplyOp] \<and> pk_hw_length ?p = [6] \<and>
     take 6 (pk_client_hw_addr ?p) = mac \<and> pk_transaction_id ?p = le_bytes 4 (unat xid) \<and> pk_cookie ?p = DhcpCookie"
  have eq: "dhcp_callback data s =
      (if length data > DhcpPacketSize then s
       else s\<lparr>dh_in := ?p, dh_in_ready := match \<and> \<not> failed \<and> acceptable_type (dh_state s) type\<rparr>)"
    using assms(3) opts unfolding dhcp_callback_def padded_def [symmetric] Let_def
    by (auto simp: fields match_def)
  show "dh_in_ready (dhcp_callback data s) \<longleftrightarrow> (\<exists>type. is_reply mac xid type data \<and> acceptable_type (dh_state s) type)"
    using assms(3) opts by (auto simp: eq is_reply_def match_def)
  show "dhcp_callback data s = s\<lparr>dh_in := ?p, dh_in_ready := True\<rparr>" if "dh_in_ready (dhcp_callback data s)"
    using that assms(3) by (auto simp: eq split: if_splits)
  show "\<exists>p. dhcp_callback data s = s\<lparr>dh_in := p, dh_in_ready := dh_in_ready (dhcp_callback data s)\<rparr>"
    using assms(3) by (auto simp: eq intro: exI [of _ "dh_in s"])
qed

lemma dhcp_wait_ok:
  assumes mac: "length mac = 6" and out: "out = dhcp_prep_packet mac xid @ opts"
    and reply: "is_reply mac xid type data" "acceptable_type st type"
  shows "dh_out s = out \<Longrightarrow> \<not> dh_in_ready s \<Longrightarrow> dh_state s = st \<Longrightarrow> noise mac xid st before \<Longrightarrow>
    dhcp_wait out (before @ (Some data, late) # rest) s =
      Ok (rest, s\<lparr>dh_in := padded data, dh_in_ready := True, dh_sent := dh_sent s @ replicate (timeouts before) out\<rparr>)"
proof (induction before arbitrary: s)
  case Nil
  have "dh_in_ready (dhcp_callback data s)"
    using dhcp_callback_ready(1) [OF mac Nil.prems(1) [unfolded out] Nil.prems(2)] reply Nil.prems(3) by blast
  then have "dhcp_callback data s = s\<lparr>dh_in := padded data, dh_in_ready := True\<rparr>"
    by (rule dhcp_callback_ready(2) [OF mac Nil.prems(1) [unfolded out] Nil.prems(2)])
  then show ?case by (simp add: timeouts_def)
next
  case (Cons poll before)
  obtain q l where poll: "poll = (q, l)" by fastforce
  have noise: "noise mac xid st before" using Cons.prems(4) by (auto simp: noise_def)
  define t where "t = (case q of None \<Rightarrow> s | Some d \<Rightarrow> dhcp_callback d s)"
  have "\<exists>p. t = s\<lparr>dh_in := p\<rparr>"
  proof (cases q)
    case None
    then show ?thesis by (auto simp: t_def intro: exI [of _ "dh_in s"])
  next
    case (Some d)
    note cb = dhcp_callback_ready [OF mac Cons.prems(1) [unfolded out] Cons.prems(2), of d]
    have "\<not> dh_in_ready (dhcp_callback d s)"
      using Cons.prems(3,4) by (auto simp: cb(1) noise_def poll Some)
    moreover obtain p where "dhcp_callback d s = s\<lparr>dh_in := p, dh_in_ready := dh_in_ready (dhcp_callback d s)\<rparr>"
      using cb(3) by blast
    ultimately have "dhcp_callback d s = s\<lparr>dh_in := p\<rparr>" using Cons.prems(2) by (cases s) simp
    then show ?thesis by (auto simp: t_def Some)
  qed
  then obtain p where t: "t = s\<lparr>dh_in := p\<rparr>" ..
  have ready: "\<not> dh_in_ready t" using Cons.prems(2) by (simp add: t)
  let ?u = "if l then uip_udp_packet_send out t else t"
  have "dhcp_wait out (before @ (Some data, late) # rest) ?u =
      Ok (rest, ?u\<lparr>dh_in := padded data, dh_in_ready := True, dh_sent := dh_sent ?u @ replicate (timeouts before) out\<rparr>)"
    by (rule Cons.IH) (use Cons.prems noise in \<open>auto simp: t uip_udp_packet_send_def\<close>)
  with ready show ?case
    by (auto simp: poll t_def [symmetric] Let_def t timeouts_def uip_udp_packet_send_def)
qed

lemma dhcp_send_packet_ok:
  assumes "length mac = 6" "out = dhcp_prep_packet mac xid @ opts" "is_reply mac xid type data" "acceptable_type (dh_state s) type"
    and "noise mac xid (dh_state s) before"
  shows "dhcp_send_packet out (before @ (Some data, late) # rest) s =
    Ok (rest, s\<lparr>dh_out := out, dh_in := padded data, dh_in_ready := True,
      dh_sent := dh_sent s @ replicate (Suc (timeouts before)) out\<rparr>)"
  unfolding dhcp_send_packet_def
  using dhcp_wait_ok [OF assms(1-4), of "(uip_udp_packet_send out s)\<lparr>dh_out := out, dh_in_ready := False\<rparr>" before late rest] assms(5)
  by (simp add: uip_udp_packet_send_def)

text \<open>
  C3.  The exchange with a server gets its lease: when the offer and the acknowledgement arrive, each after
  any number of lost, foreign or malformed packets, \<open>dhcp_request\<close> returns the addresses and the file of
  the acknowledgement and the server of the offer, has sent each message once and again for every timeout,
  and leaves the connections as they were.
\<close>

theorem dhcp_request_gets_lease:
  assumes "de_have_conn env" "length (de_mac env) = 6" "dh_state s = DhcpInit"
    and "is_reply (de_mac env) (de_rand1 env) DhcpOffer offer" "noise (de_mac env) (de_rand1 env) DhcpInit noise1"
    and "dhcp_process_options (padded offer) dhcp_get_server (de_server_id env) = (False, server_id)" "length server_id = 4"
    and "is_reply (de_mac env) (de_rand2 env) DhcpAck ack" "noise (de_mac env) (de_rand2 env) DhcpRequesting noise2"
    and "dhcp_process_options (padded ack) dhcp_get_type (de_type env) = (False, DhcpAck)"
    and "dhcp_process_options (padded ack) dhcp_apply_options (dh_net s) = (False, net)"
  shows "\<exists>s'. dhcp_request env (noise1 @ (Some offer, late1) # noise2 @ (Some ack, late2) # rest) s =
      Ok (Some \<lparr>le_next_ip = pk_server_ip (padded ack), le_server_ip = server_id,
                le_bootfile = pk_bootfile_name (padded ack) @ [0]\<rparr>, rest, s') \<and>
    dh_state s' = DhcpBound \<and> dh_hostaddr s' = pk_your_ip (padded ack) \<and> dh_net s' = net \<and> dh_conns s' = dh_conns s \<and>
    dh_sent s' = dh_sent s @
      replicate (Suc (timeouts noise1)) (discover_packet (de_mac env) (de_rand1 env)) @
      replicate (Suc (timeouts noise2)) (request_packet_to (de_mac env) (de_rand2 env) (pk_your_ip (padded offer)) server_id)"
proof -
  let ?mac = "de_mac env" and ?your = "pk_your_ip (padded offer)"
  have len: "length ?your = 4" using assms(4)
    by (simp add: is_reply_def padded_def pk_your_ip_def field_def DhcpPacketSize_def)
  let ?d = "discover_packet ?mac (de_rand1 env)" and ?r = "request_packet_to ?mac (de_rand2 env) ?your server_id"
  have d: "dhcp_packet (dhcp_prep_packet ?mac (de_rand1 env)) (discover_options ?mac) = Ok ?d"
    by (rule discover_packet_ok [OF assms(2)])
  have r: "dhcp_packet (dhcp_prep_packet ?mac (de_rand2 env)) (request_options ?mac ?your server_id) = Ok ?r"
    by (rule request_packet_ok [OF assms(2) len assms(7)])
  let ?s0 = "s\<lparr>dh_conns := Suc (dh_conns s)\<rparr>"
  let ?s1 = "?s0\<lparr>dh_out := ?d, dh_in := padded offer, dh_in_ready := True,
      dh_sent := dh_sent s @ replicate (Suc (timeouts noise1)) ?d\<rparr>"
  let ?s2 = "?s1\<lparr>dh_state := DhcpRequesting, dh_out := ?r, dh_in := padded ack, dh_in_ready := True,
      dh_sent := dh_sent ?s1 @ replicate (Suc (timeouts noise2)) ?r\<rparr>"
  have one: "dhcp_send_packet ?d (noise1 @ (Some offer, late1) # noise2 @ (Some ack, late2) # rest) ?s0 =
      Ok (noise2 @ (Some ack, late2) # rest, ?s1)"
    using dhcp_send_packet_ok [OF assms(2) discover_packet_def assms(4), where s = ?s0 and before = noise1 and late = late1
        and rest = "noise2 @ (Some ack, late2) # rest"]
      assms(3,5) by (simp add: acceptable_type_def)
  have two: "dhcp_send_packet ?r (noise2 @ (Some ack, late2) # rest) (?s1\<lparr>dh_state := DhcpRequesting\<rparr>) = Ok (rest, ?s2)"
    using dhcp_send_packet_ok [OF assms(2) request_packet_to_def [unfolded Let_def] assms(8),
        where s = "?s1\<lparr>dh_state := DhcpRequesting\<rparr>" and before = noise2 and late = late2 and rest = rest] assms(9) by (simp add: acceptable_type_def)
  have ack: "DhcpAck \<noteq> DhcpNak" by (simp add: DhcpAck_def DhcpNak_def)
  show ?thesis
    using assms(1) ack by (simp add: dhcp_request_def Let_def d one assms(6) r two assms(10,11) del: replicate.simps)
qed

subsection \<open>Replies of a server\<close>

text \<open>A reply with options and the name of a boot file.\<close>

definition option_padding :: "nat \<Rightarrow> (u8 \<times> bytes) list \<Rightarrow> bytes" where
  "option_padding n opts = option_bytes opts @ DhcpTagEndOfList # replicate (n - length (option_bytes opts) - 1) 0"

definition server_reply :: "bytes \<Rightarrow> u32 \<Rightarrow> bytes \<Rightarrow> bytes \<Rightarrow> bytes \<Rightarrow> (u8 \<times> bytes) list \<Rightarrow> bytes" where
  "server_reply mac xid your_ip next_ip file opts =
     [DhcpReplyOp, DhcpEthernet, 6, 0] @ le_bytes 4 (unat xid) @ replicate 8 0 @ your_ip @ next_ip @ replicate 4 0 @
     mac @ replicate 10 0 @ replicate 64 0 @ file @ DhcpCookie @ option_padding 308 opts"

lemma length_option_padding: "length (option_bytes opts) < n \<Longrightarrow> length (option_padding n opts) = n"
  by (simp add: option_padding_def)

lemma holds_option_padding:
  assumes "\<forall>opt \<in> set opts. plain_option opt" "length (option_bytes opts) + 3 \<le> n"
  shows "holds_options (option_padding n opts) opts"
proof -
  have "n - length (option_bytes opts) - 1 = Suc (Suc (n - length (option_bytes opts) - 3))" using assms(2) by simp
  then have "option_padding n opts = concat (map encode_option opts) @ DhcpTagEndOfList # 0 # 0 # replicate (n - length (option_bytes opts) - 3) 0"
    by (simp add: option_padding_def option_bytes_def)
  with assms(1) show ?thesis unfolding holds_options_def by blast
qed

lemma server_reply_fields:
  fixes xid :: u32
  assumes "length mac = 6" "length your_ip = 4" "length next_ip = 4" "length file = 128" "length (option_bytes opts) < 308"
  defines "p \<equiv> server_reply mac xid your_ip next_ip file opts"
  shows "length p = 548" "pk_opcode p = [DhcpReplyOp]" "pk_hw_length p = [6]" "take 6 (pk_client_hw_addr p) = mac"
    "pk_transaction_id p = le_bytes 4 (unat xid)" "pk_cookie p = DhcpCookie" "pk_options p = option_padding 308 opts"
    "pk_your_ip p = your_ip" "pk_server_ip p = next_ip" "pk_bootfile_name p = file"
  using assms(1-4) length_option_padding [OF assms(5)]
  by (simp_all add: p_def server_reply_def field_def pk_opcode_def pk_hw_length_def pk_client_hw_addr_def pk_transaction_id_def
    pk_cookie_def pk_options_def pk_your_ip_def pk_server_ip_def pk_bootfile_name_def DhcpCookie_def)

lemma padded_full: "length p = 548 \<Longrightarrow> padded p = p"
  by (simp add: padded_def DhcpPacketSize_def)

lemma process_server_reply:
  assumes "length mac = 6" "length your_ip = 4" "length next_ip = 4" "length file = 128" "length (option_bytes opts) + 3 \<le> 308"
    and "\<forall>opt \<in> set opts. plain_option opt" "overload_of opts 0 = 0" "reads_value func"
  shows "dhcp_process_options (padded (server_reply mac xid your_ip next_ip file opts)) func d = run_options func opts d"
proof -
  have short: "length (option_bytes opts) < 308" using assms(5) by simp
  note f = server_reply_fields [OF assms(1-4) short, of xid]
  show ?thesis
    using process_options_fold [of _ opts func "[]"] holds_option_padding [OF assms(6,5)] assms(7,8) by (simp add: padded_full f)
qed

lemma is_reply_server_reply:
  assumes "length mac = 6" "length your_ip = 4" "length next_ip = 4" "length file = 128" "length (option_bytes opts) + 3 \<le> 308"
    and "\<forall>opt \<in> set opts. plain_option opt" "overload_of opts 0 = 0" "run_options dhcp_get_type opts DhcpNoMessageType = (False, type)"
  shows "is_reply mac xid type (server_reply mac xid your_ip next_ip file opts)"
proof -
  have short: "length (option_bytes opts) < 308" using assms(5) by simp
  note f = server_reply_fields [OF assms(1-4) short, of xid]
  show ?thesis
    using process_server_reply [OF assms(1-7) reads_value_callbacks(1), of xid DhcpNoMessageType] assms(8)
    by (simp add: is_reply_def padded_full f DhcpPacketSize_def)
qed

text \<open>
  C40.  The walk of the options is the fold of the callback over the list that the packet holds, also
  when an overload option continues it in the name of the server, of the boot file or both.
\<close>

theorem dhcp_process_options_folds:
  assumes "holds_options (pk_options p) opts" "reads_value func"
    and "overload_of opts 0 = 0 \<and> more_opts = [] \<or>
      (\<exists>area. overload_of opts 0 \<noteq> 0 \<and> option_area p (overload_of opts 0) = Some area \<and> holds_options area more_opts)"
  shows "dhcp_process_options p func d = run_options func (opts @ more_opts) d"
  using assms by (rule process_options_fold)

lemma dhcp_process_options_folds_witness:
  "\<exists>p. length p = 548 \<and> dhcp_process_options p dhcp_apply_options ([], []) = (False, ([255, 255, 255, 0], [10, 0, 0, 1]))"
proof -
  let ?opts = "[(DhcpTagOptionOverload, [1]), (DhcpTagDefaultRouter, [10, 0, 0, 1])] :: (u8 \<times> bytes) list"
  let ?more = "[(DhcpTagSubnetMask, [255, 255, 255, 0])] :: (u8 \<times> bytes) list"
  have short: "length (option_bytes ?opts) = 9" "length (option_bytes ?more) = 6" by (simp_all add: option_bytes_def encode_option_def)
  have plain: "\<forall>opt \<in> set (?opts @ ?more). plain_option opt"
    by (simp add: plain_option_def DhcpTagOptionOverload_def DhcpTagDefaultRouter_def DhcpTagSubnetMask_def DhcpTagEndOfList_def)
  let ?p = "server_reply (replicate 6 0) 0 (replicate 4 0) (replicate 4 0) (option_padding 128 ?more) ?opts"
  have f: "length ?p = 548" "pk_options ?p = option_padding 308 ?opts" "pk_bootfile_name ?p = option_padding 128 ?more"
    by (rule server_reply_fields; simp add: short length_option_padding)+
  have ov: "overload_of ?opts 0 = 1" by (simp add: DhcpTagOptionOverload_def DhcpTagDefaultRouter_def)
  have "dhcp_process_options ?p dhcp_apply_options ([], []) = run_options dhcp_apply_options (?opts @ ?more) ([], [])"
  proof (rule dhcp_process_options_folds)
    show "holds_options (pk_options ?p) ?opts" unfolding f using plain by (intro holds_option_padding) (auto simp: short)
    have "holds_options (option_padding 128 ?more) ?more" using plain by (intro holds_option_padding) (auto simp: short)
    then show "overload_of ?opts 0 = 0 \<and> ?more = [] \<or>
      (\<exists>area. overload_of ?opts 0 \<noteq> 0 \<and> option_area ?p (overload_of ?opts 0) = Some area \<and> holds_options area ?more)"
      unfolding ov by (simp add: option_area_def f)
  qed (rule reads_value_callbacks)
  also have "\<dots> = (False, ([255, 255, 255, 0], [10, 0, 0, 1]))"
    by (simp add: dhcp_apply_options_def DhcpTagOptionOverload_def DhcpTagDefaultRouter_def DhcpTagSubnetMask_def)
  finally show ?thesis using f(1) by blast
qed

lemma dhcp_request_gets_lease_witness:
  "\<exists>env polls s s'. dh_state s = DhcpInit \<and> dh_conns s = 0 \<and> length polls = 4 \<and>
     dhcp_request env polls s = Ok (Some \<lparr>le_next_ip = [10, 0, 0, 2], le_server_ip = [10, 0, 0, 1], le_bootfile = replicate 129 0\<rparr>, [], s') \<and>
     dh_hostaddr s' = [10, 0, 0, 9] \<and> dh_net s' = ([255, 255, 255, 0], []) \<and> length (dh_sent s') = 3"
proof -
  let ?mac = "[1, 2, 3, 4, 5, 6] :: bytes" and ?your = "[10, 0, 0, 9] :: bytes" and ?next = "[10, 0, 0, 2] :: bytes"
    and ?file = "replicate 128 0 :: bytes"
  define oo :: "(u8 \<times> bytes) list" where "oo = [(DhcpTagMessageType, [DhcpOffer]), (DhcpTagServerIdentifier, [10, 0, 0, 1])]"
  define ao :: "(u8 \<times> bytes) list" where "ao = [(DhcpTagMessageType, [DhcpAck]), (DhcpTagSubnetMask, [255, 255, 255, 0])]"
  define env where "env = \<lparr>de_mac = ?mac, de_have_conn = True, de_rand1 = 7, de_rand2 = 8, de_server_id = [], de_type = 0\<rparr>"
  define s where "s = \<lparr>dh_state = DhcpInit, dh_in = [], dh_in_ready = False, dh_out = [], dh_net = ([], []), dh_hostaddr = [],
    dh_conns = 0, dh_sent = []\<rparr>"
  note tags = DhcpTagMessageType_def DhcpTagServerIdentifier_def DhcpTagSubnetMask_def DhcpTagOptionOverload_def DhcpTagEndOfList_def
    DhcpTagDefaultRouter_def
  have short: "length (option_bytes oo) + 3 \<le> 308" "length (option_bytes ao) + 3 \<le> 308"
    by (simp_all add: option_bytes_def encode_option_def oo_def ao_def)
  have plain: "\<forall>opt \<in> set oo. plain_option opt" "\<forall>opt \<in> set ao. plain_option opt"
    by (simp_all add: plain_option_def oo_def ao_def tags)
  have ov: "overload_of oo 0 = 0" "overload_of ao 0 = 0" by (simp_all add: oo_def ao_def tags)
  have lens: "length ?mac = 6" "length ?your = 4" "length ?next = 4" "length ?file = 128" by simp_all
  let ?offer = "server_reply ?mac 7 ?your ?next ?file oo" and ?ack = "server_reply ?mac 8 ?your ?next ?file ao"
  have ready: "is_reply ?mac 7 DhcpOffer ?offer" "is_reply ?mac 8 DhcpAck ?ack"
    by (rule is_reply_server_reply [OF lens short(1) plain(1) ov(1)], simp add: oo_def dhcp_get_type_def tags)
      (rule is_reply_server_reply [OF lens short(2) plain(2) ov(2)], simp add: ao_def dhcp_get_type_def tags)
  have server: "dhcp_process_options (padded ?offer) dhcp_get_server [] = (False, [10, 0, 0, 1])"
    using process_server_reply [OF lens short(1) plain(1) ov(1) reads_value_callbacks(2)] by (simp add: oo_def dhcp_get_server_def tags)
  have type: "dhcp_process_options (padded ?ack) dhcp_get_type 0 = (False, DhcpAck)"
    using process_server_reply [OF lens short(2) plain(2) ov(2) reads_value_callbacks(1)] by (simp add: ao_def dhcp_get_type_def tags)
  have net: "dhcp_process_options (padded ?ack) dhcp_apply_options ([], []) = (False, ([255, 255, 255, 0], []))"
    using process_server_reply [OF lens short(2) plain(2) ov(2) reads_value_callbacks(3)] by (simp add: ao_def dhcp_apply_options_def tags)
  have short': "length (option_bytes ao) < 308" using short(2) by simp
  note f = server_reply_fields [OF lens short', of 8]
  have env: "de_have_conn env" "de_mac env = ?mac" "de_rand1 env = 7" "de_rand2 env = 8" "de_server_id env = []" "de_type env = 0"
    by (simp_all add: env_def)
  have s: "dh_state s = DhcpInit" "dh_net s = ([], [])" "dh_conns s = 0" "dh_sent s = []" by (simp_all add: s_def)
  have n1: "noise ?mac 7 DhcpInit [(None, True), (Some [], False)]"
  proof -
    have "field 0 1 (replicate 548 (0 :: u8)) = [0]" by (simp add: field_def take_replicate)
    then show ?thesis by (simp add: noise_def is_reply_def padded_def pk_opcode_def DhcpPacketSize_def DhcpReplyOp_def)
  qed
  have n2: "noise ?mac 8 DhcpRequesting []" by (simp add: noise_def)
  let ?polls = "[(None, True), (Some [], False)] @ (Some ?offer, False) # [] @ (Some ?ack, False) # []"
  obtain s' where "dhcp_request env ?polls s = Ok (Some \<lparr>le_next_ip = pk_server_ip (padded ?ack), le_server_ip = [10, 0, 0, 1],
        le_bootfile = pk_bootfile_name (padded ?ack) @ [0]\<rparr>, [], s')"
      "dh_hostaddr s' = pk_your_ip (padded ?ack)" "dh_net s' = ([255, 255, 255, 0], [])"
      "length (dh_sent s') = 3"
    using dhcp_request_gets_lease [of env s ?offer "[(None, True), (Some [], False)]" "[10, 0, 0, 1]" ?ack "[]" "([255, 255, 255, 0], [])"
      False False "[]", unfolded env(2-) s, OF env(1) lens(1) refl ready(1) n1 server _ ready(2) n2 type net]
    by (auto simp: timeouts_def)
  moreover have "?file @ [0 :: u8] = replicate 129 0" using replicate_add [of 128 1 "0 :: u8"] by simp
  moreover have "length ?polls = 4" by simp
  ultimately show ?thesis using f s(1,3) by (metis padded_full)
qed

end
