(* ===== verification/NetParams.thy ===== *)
theory NetParams
  imports Storage Str
begin

text \<open>
  The parameters of network boot, \<^verbatim>\<open>netboot/params.c\<close>: a table of values in the scratch storage of the
  board.  A pointer into the table is the offset of its byte; \<open>uintptr_t\<close> has 64 bits, and positions are
  natural numbers, which do not reach them.
\<close>

subsection \<open>The code\<close>

definition NetbootParamIdTftpServerIp :: nat where "NetbootParamIdTftpServerIp = 1"
definition NetbootParamIdKernelArgs :: nat where "NetbootParamIdKernelArgs = 2"
definition NetbootParamIdBootfile :: nat where "NetbootParamIdBootfile = 3"
definition NetbootParamIdArgsFile :: nat where "NetbootParamIdArgsFile = 4"
definition NetbootParamIdMax :: nat where "NetbootParamIdMax = 5"

record netboot_param =
  np_data :: "nat option"
  np_size :: int

definition no_param :: netboot_param where
  "no_param = \<lparr>np_data = None, np_size = 0\<rparr>"

definition netboot_sig :: bytes where
  "netboot_sig = str ''netboot'' @ [0]"

definition netboot_params_val :: "netboot_param list \<Rightarrow> nat \<Rightarrow> netboot_param res" where
  "netboot_params_val params param =
     (if param < NetbootParamIdMax then of_opt (rd params param) else Fault AssertFail)"

definition params_size32 :: "nat \<Rightarrow> nat" where
  "params_size32 n = (n + 4 - 1) div 4"

definition data32 :: "bytes \<Rightarrow> nat \<Rightarrow> u32 res" where
  "data32 data pos = map_res le32 (of_opt (slice data (4 * pos) 4))"

text \<open>The loop over \<open>count\<close>: whether the function returns 0, and the table.\<close>

fun params_loop :: "bytes \<Rightarrow> nat \<Rightarrow> nat \<Rightarrow> nat \<Rightarrow> netboot_param list \<Rightarrow> (bool \<times> netboot_param list) res" where
  "params_loop data max_pos pos 0 params = Ok (True, params)"
| "params_loop data max_pos pos (Suc count) params =
     andthen (data32 data pos) (\<lambda>val_type.
     if pos + 1 \<ge> max_pos then Ok (False, params)
     else andthen (data32 data (pos + 1)) (\<lambda>val_size.
     if pos + 2 \<ge> max_pos then Ok (False, params)
     else let val_data = 4 * (pos + 2); pos = pos + 2 + params_size32 (unat val_size) in
     if pos \<ge> max_pos then Ok (False, params)
     else if unat val_type \<ge> length params then Fault OutOfBounds
     else params_loop data max_pos pos count
       (params[unat val_type := \<lparr>np_data = Some val_data, np_size = sint val_size\<rparr>])))"

definition netboot_params_init :: "bytes \<Rightarrow> nat \<Rightarrow> (bool \<times> netboot_param list) res" where
  "netboot_params_init data sz =
     (let params = replicate NetbootParamIdMax no_param in
      if sz < length netboot_sig then Ok (False, params)
      else andthen (of_opt (slice data 0 (length netboot_sig))) (\<lambda>sig.
      if sig \<noteq> netboot_sig then Ok (False, params)
      else let max_pos = sz div 4; pos = params_size32 (length netboot_sig) in
      if pos \<ge> max_pos then Ok (False, params)
      else andthen (data32 data pos) (\<lambda>count. params_loop data max_pos (pos + 1) (unat count) params)))"

text \<open>The static variables and the device.\<close>

record 's netboot_params =
  nb_params :: "netboot_param list"
  nb_data :: "bytes option"
  nb_scratch :: 's

text \<open>
  The values asked for, each the bytes from its pointer on, and the buffer of the command line.
\<close>

record netboot_values =
  nv_tftp_ip :: "bytes option"
  nv_bootfile :: "bytes option"
  nv_argsfile :: "bytes option"
  nv_cmd_line :: "bytes option"

text \<open>A parameter that is a string: it is there, not empty and has a NUL.\<close>

definition string_param :: "bytes \<Rightarrow> netboot_param \<Rightarrow> bytes option res" where
  "string_param data param =
     (case np_data param of None \<Rightarrow> Ok None
      | Some off \<Rightarrow>
        if np_size param > 0
        then andthen (strnlen (Some (drop off data)) (nat (np_size param))) (\<lambda>n.
          Ok (if int n < np_size param then Some (drop off data) else None))
        else Ok None)"

text \<open>\<open>cmd_line\<close> is NULL or a buffer of \<open>cmd_line_max\<close> bytes.\<close>

definition append_args :: "bytes \<Rightarrow> bytes option \<Rightarrow> bytes res" where
  "append_args cmd_line args =
     (let n = length cmd_line in
      andthen (case args of None \<Rightarrow> Ok cmd_line
        | Some a \<Rightarrow> andthen (strnlen (Some cmd_line) (n - 1)) (\<lambda>l.
            andthen (set_byte l (ch CHR '' '') cmd_line) (\<lambda>cmd_line.
            at_offset cmd_line (l + 1) (\<lambda>d. strncpy d a (n - (l + 1)))))) (\<lambda>cmd_line.
      set_byte (n - 1) 0 cmd_line))"

definition netboot_params_load :: "'s storage_ops \<Rightarrow> ('s netboot_params, bytes) act" where
  "netboot_params_load ops s =
     (case nb_data s of Some data \<Rightarrow> (Ok data, s)
      | None \<Rightarrow>
        act_bind (focus nb_scratch (\<lambda>d s. s\<lparr>nb_scratch := d\<rparr>) (storage_size ops)) (\<lambda>sz.
        if sz < 0 then act_lift Err
        else act_bind (focus nb_scratch (\<lambda>d s. s\<lparr>nb_scratch := d\<rparr>) (storage_read ops 0 (word_of_int sz))) (\<lambda>data s.
          case netboot_params_init data (nat sz) of
            Ok (ok, params) \<Rightarrow>
              let s = s\<lparr>nb_params := params\<rparr> in if ok then (Ok data, s\<lparr>nb_data := Some data\<rparr>) else (Err, s)
          | Err \<Rightarrow> (Err, s) | Fault e \<Rightarrow> (Fault e, s))) s)"

definition netboot_params_read :: "'s storage_ops \<Rightarrow> bytes option \<Rightarrow> ('s netboot_params, netboot_values) act" where
  "netboot_params_read ops cmd_line =
     act_bind (netboot_params_load ops) (\<lambda>data s.
     (andthen (netboot_params_val (nb_params s) NetbootParamIdTftpServerIp) (\<lambda>ip.
      andthen (netboot_params_val (nb_params s) NetbootParamIdBootfile) (\<lambda>param.
      andthen (string_param data param) (\<lambda>bootfile.
      andthen (netboot_params_val (nb_params s) NetbootParamIdArgsFile) (\<lambda>param.
      andthen (string_param data param) (\<lambda>argsfile.
      andthen (case cmd_line of None \<Rightarrow> Ok None
        | Some [] \<Rightarrow> Ok (Some [])
        | Some buf \<Rightarrow>
          andthen (netboot_params_val (nb_params s) NetbootParamIdKernelArgs) (\<lambda>param.
          andthen (string_param data param) (\<lambda>args. map_res Some (append_args buf args)))) (\<lambda>buf.
      Ok \<lparr>nv_tftp_ip = (case np_data ip of None \<Rightarrow> None | Some off \<Rightarrow>
              if (word_of_int (np_size ip) :: u64) \<ge> 4 then Some (drop off data) else None),
          nv_bootfile = bootfile, nv_argsfile = argsfile, nv_cmd_line = buf\<rparr>)))))), s))"

subsection \<open>Lists of parameters\<close>

text \<open>
  The value of a parameter starts at a multiple of four bytes.  The area ends with at least one more
  word, because the code refuses a value that reaches the end of the area.
\<close>

definition padding :: "bytes \<Rightarrow> bytes" where
  "padding v = replicate (4 * params_size32 (length v) - length v) 0"

definition encode_param :: "nat \<times> bytes \<Rightarrow> bytes" where
  "encode_param p = le_bytes 4 (fst p) @ le_bytes 4 (length (snd p)) @ snd p @ padding (snd p)"

definition encode_params :: "(nat \<times> bytes) list \<Rightarrow> bytes" where
  "encode_params ps = netboot_sig @ le_bytes 4 (length ps) @ concat (map encode_param ps)"

text \<open>The last value of a type.\<close>

fun param_value :: "(nat \<times> bytes) list \<Rightarrow> nat \<Rightarrow> bytes option \<Rightarrow> bytes option" where
  "param_value [] t v = v"
| "param_value (p # ps) t v = param_value ps t (if fst p = t then Some (snd p) else v)"

text \<open>The table entry stands for the value in the area.\<close>

definition entry_holds :: "bytes \<Rightarrow> netboot_param \<Rightarrow> bytes option \<Rightarrow> bool" where
  "entry_holds data param v \<longleftrightarrow>
     (case v of None \<Rightarrow> np_data param = None
      | Some v \<Rightarrow> \<exists>off. np_data param = Some off \<and> np_size param = int (length v) \<and>
          off + length v < length data \<and> take (length v) (drop off data) = v)"

lemma length_padded: "length v + length (padding v) = 4 * params_size32 (length v)"
proof -
  have "length v \<le> 4 * params_size32 (length v)"
    using div_mult_mod_eq [of "length v + 3" 4] mod_less_divisor [of 4 "length v + 3"] by (simp add: params_size32_def)
  then show ?thesis by (simp add: padding_def)
qed

lemma length_encode_param: "length (encode_param p) = 4 * (2 + params_size32 (length (snd p)))"
  using length_padded [of "snd p"] by (simp add: encode_param_def)

lemma data32_at: "length pre = 4 * pos \<Longrightarrow> w < 2 ^ 32 \<Longrightarrow> data32 (pre @ le_bytes 4 w @ rest) pos = Ok (word_of_nat w)"
  by (simp add: data32_def slice_append_mid le32_def le_val_le_bytes)

lemma params_loop_step:
  assumes pre: "length pre = 4 * pos" and p: "t < 5" "length v < 2 ^ 31" and tail: "4 \<le> length rest"
    and params: "length params = 5" and data: "data = pre @ encode_param (t, v) @ rest"
  shows "params_loop data (length data div 4) pos (Suc count) params =
    params_loop data (length data div 4) (pos + 2 + params_size32 (length v)) count
      (params[t := \<lparr>np_data = Some (4 * (pos + 2)), np_size = int (length v)\<rparr>])"
proof -
  have one: "data32 data pos = Ok (word_of_nat t)"
    using data32_at [OF pre, of t] p(1) by (simp add: data encode_param_def)
  have "data = (pre @ le_bytes 4 t) @ le_bytes 4 (length v) @ v @ padding v @ rest" by (simp add: data encode_param_def)
  then have two: "data32 data (pos + 1) = Ok (word_of_nat (length v))"
    using data32_at [of "pre @ le_bytes 4 t" "pos + 1" "length v"] p(2) pre by simp
  have "length data = 4 * (pos + 2 + params_size32 (length v)) + length rest"
    using pre length_encode_param [of "(t, v)"] by (simp add: data)
  then have fits: "pos + 2 + params_size32 (length v) < length data div 4" using tail by simp
  have t: "unat (word_of_nat t :: u32) = t" using p(1) by (simp add: unat_u32_of_nat)
  have n: "unat (word_of_nat (length v) :: u32) = length v" using p(2) by (simp add: unat_u32_of_nat)
  have s: "sint (word_of_nat (length v) :: u32) = int (length v)"
    using p(2) by (simp add: signed_of_nat signed_take_bit_int_eq_self)
  show ?thesis using fits p(1) params by (simp add: one two [simplified] t n s Let_def not_le)
qed

lemma params_loop_ok:
  assumes "\<forall>p \<in> set ps. fst p < 5 \<and> length (snd p) < 2 ^ 31" "4 \<le> length rest"
  shows "length pre = 4 * pos \<Longrightarrow> data = pre @ concat (map encode_param ps) @ rest \<Longrightarrow> length params = 5 \<Longrightarrow>
    (\<forall>t<5. entry_holds data (params ! t) (v t)) \<Longrightarrow>
    \<exists>params'. params_loop data (length data div 4) pos (length ps) params = Ok (True, params') \<and> length params' = 5 \<and>
      (\<forall>t<5. entry_holds data (params' ! t) (param_value ps t (v t)))"
  using assms(1)
proof (induction ps arbitrary: pre pos params v)
  case Nil
  then show ?case by simp
next
  case (Cons p ps)
  obtain t x where p: "p = (t, x)" by fastforce
  have ok: "t < 5" "length x < 2 ^ 31" "\<forall>p \<in> set ps. fst p < 5 \<and> length (snd p) < 2 ^ 31" using Cons.prems(5) p by auto
  let ?rest = "concat (map encode_param ps) @ rest"
  have data: "data = pre @ encode_param (t, x) @ ?rest" using Cons.prems(2) p by simp
  let ?params = "params[t := \<lparr>np_data = Some (4 * (pos + 2)), np_size = int (length x)\<rparr>]"
  have "4 \<le> length ?rest" using assms(2) by simp
  from params_loop_step [OF Cons.prems(1) ok(1,2) this Cons.prems(3) data]
  have step: "params_loop data (length data div 4) pos (Suc (length ps)) params =
      params_loop data (length data div 4) (pos + 2 + params_size32 (length x)) (length ps) ?params" .
  have "rest \<noteq> []" using assms(2) by auto
  then have val: "take (length x) (drop (4 * (pos + 2)) data) = x" "4 * (pos + 2) + length x < length data"
    using Cons.prems(1) length_padded [of x] \<open>rest \<noteq> []\<close> by (simp_all add: data encode_param_def)
  have "\<forall>u<5. entry_holds data (?params ! u) (if t = u then Some x else v u)"
    using Cons.prems(3,4) val ok(1) by (auto simp: entry_holds_def nth_list_update)
  moreover have "length (pre @ encode_param (t, x)) = 4 * (pos + 2 + params_size32 (length x))"
    using Cons.prems(1) length_encode_param [of "(t, x)"] by simp
  ultimately have "\<exists>params'. params_loop data (length data div 4) (pos + 2 + params_size32 (length x)) (length ps) ?params = Ok (True, params') \<and>
      length params' = 5 \<and> (\<forall>u<5. entry_holds data (params' ! u) (param_value ps u (if t = u then Some x else v u)))"
    using data Cons.prems(3) ok(3) by (intro Cons.IH [of "pre @ encode_param (t, x)"]) simp_all
  then show ?case by (simp only: p length_Cons step param_value.simps fst_conv snd_conv)
qed

lemma length_netboot_sig: "length netboot_sig = 8"
  by (simp add: netboot_sig_def str_def)

lemma netboot_params_init_ok:
  assumes "\<forall>p \<in> set ps. fst p < 5 \<and> length (snd p) < 2 ^ 31" "4 \<le> length rest" "length ps < 2 ^ 32"
  defines "data \<equiv> encode_params ps @ rest"
  shows "\<exists>params. netboot_params_init data (length data) = Ok (True, params) \<and> length params = 5 \<and>
    (\<forall>t<5. entry_holds data (params ! t) (param_value ps t None))"
proof -
  let ?pre = "netboot_sig @ le_bytes 4 (length ps)"
  have data: "data = ?pre @ concat (map encode_param ps) @ rest" by (simp add: data_def encode_params_def)
  have count: "data32 data 2 = Ok (word_of_nat (length ps))"
    using data32_at [of netboot_sig 2 "length ps"] assms(3) by (simp add: data length_netboot_sig)
  have n: "unat (word_of_nat (length ps) :: u32) = length ps" using assms(3) by (simp add: unat_u32_of_nat)
  have len: "16 \<le> length data" using assms(2) by (simp add: data length_netboot_sig)
  have sig: "slice data 0 8 = Some netboot_sig" using slice_append_mid [of 0 "[]" 8 netboot_sig] by (simp add: data length_netboot_sig)
  have none: "\<forall>t<5. entry_holds data (replicate 5 no_param ! t) None" by (simp add: entry_holds_def no_param_def)
  obtain params where "params_loop data (length data div 4) 3 (length ps) (replicate 5 no_param) = Ok (True, params)"
      "length params = 5" "\<forall>t<5. entry_holds data (params ! t) (param_value ps t None)"
    using params_loop_ok [OF assms(1,2) _ data _ none, of 3] by (auto simp: length_netboot_sig)
  then show ?thesis using len
    by (auto simp: netboot_params_init_def Let_def length_netboot_sig sig params_size32_def count n NetbootParamIdMax_def)
qed

subsection \<open>Reading the parameters\<close>

text \<open>The string a value holds.\<close>

definition string_value :: "bytes option \<Rightarrow> bytes option" where
  "string_value v = Option.bind v cstr"

lemma cstr_take: "cstr (take n bs) = Some x \<Longrightarrow> cstr bs = Some x"
  by (metis append_take_drop_id append.assoc append_Cons cstr_iff)

lemma strnlen_full: "0 \<notin> set (take n bs) \<Longrightarrow> n < length bs \<Longrightarrow> strnlen (Some bs) n = Ok n"
proof -
  have "0 \<notin> set (take n bs) \<Longrightarrow> n < length bs \<Longrightarrow> strnlen_loop bs (k + n) k = Ok (k + n)" for k
  proof (induction n arbitrary: bs k)
    case 0
    then show ?case by (cases bs) auto
  next
    case (Suc n)
    then obtain b cs where bs: "bs = b # cs" by (cases bs) auto
    with Suc.prems Suc.IH [of cs "Suc k"] show ?case by simp
  qed
  from this [of 0] show "0 \<notin> set (take n bs) \<Longrightarrow> n < length bs \<Longrightarrow> ?thesis" by (simp add: strnlen_def)
qed

lemma cstr_None_iff: "cstr bs = None \<longleftrightarrow> 0 \<notin> set bs"
  by (induction bs) auto

lemma string_param_value:
  assumes "entry_holds data param v"
  shows "\<exists>p. string_param data param = Ok p \<and> Option.bind p cstr = string_value v \<and> (p = None \<longleftrightarrow> string_value v = None)"
proof (cases v)
  case None
  with assms show ?thesis by (simp add: string_param_def entry_holds_def string_value_def)
next
  case (Some x)
  with assms obtain off where off: "np_data param = Some off" "np_size param = int (length x)" "off + length x < length data"
      "take (length x) (drop off data) = x"
    by (auto simp: entry_holds_def)
  show ?thesis
  proof (cases "cstr x")
    case None
    have "strnlen (Some (drop off data)) (length x) = Ok (length x)"
      by (rule strnlen_full) (use off(3,4) None in \<open>auto simp: cstr_None_iff\<close>)
    then show ?thesis using None by (simp add: string_param_def off(1,2) string_value_def Some)
  next
    case (Some a)
    then obtain b where x: "x = a @ 0 # b" "0 \<notin> set a" by (auto dest: cstr_Some_split)
    have "drop off data = a @ 0 # (b @ drop (length x) (drop off data))"
      using off(4) x(1) append_take_drop_id [of "length x" "drop off data"] by simp
    moreover have less: "length a < length x" by (simp add: x(1))
    ultimately have "strnlen (Some (drop off data)) (length x) = Ok (length a)"
      using strnlen_terminated [OF x(2)] by metis
    moreover have "cstr (drop off data) = Some a" using cstr_take [of "length x" "drop off data"] off(4) Some by simp
    moreover have "x \<noteq> []" using less by auto
    ultimately show ?thesis using less Some by (simp add: string_param_def off(1,2) string_value_def \<open>v = Some x\<close>)
  qed
qed

lemma append_args_ok:
  assumes "cstr buf = Some c" "case args of None \<Rightarrow> True | Some a \<Rightarrow> cstr a = Some t"
  shows "\<exists>buf'. append_args buf args = Ok buf' \<and> length buf' = length buf \<and>
    cstr buf' = Some (case args of None \<Rightarrow> c | Some _ \<Rightarrow> take (length buf - 1) (c @ ch CHR '' '' # t))"
proof -
  obtain r where buf: "buf = c @ 0 # r" "0 \<notin> set c" using assms(1) by (auto dest: cstr_Some_split)
  have last: "\<exists>buf'. set_byte (length buf - 1) 0 (xs @ ys) = Ok buf' \<and> length buf' = length buf \<and> cstr buf' = Some xs"
    if nz: "0 \<notin> set xs" and len: "length xs + length ys = length buf" and tl: "length ys = 1 \<or> (\<exists>zs. ys = 0 # zs)" for xs ys
  proof -
    obtain y zs where ys: "ys = y # zs" "zs = [] \<or> y = 0" using tl by (auto simp: length_Suc_conv)
    have "length buf - 1 = length xs + length zs" using len ys(1) by simp
    then have "(xs @ y # zs)[length buf - 1 := 0] = xs @ 0 # zs[length zs - 1 := 0]"
      using ys(2) by (cases zs) (auto simp: list_update_append)
    then show ?thesis using nz len ys(1) by (simp add: set_byte_def cstr_append_NUL)
  qed
  show ?thesis
  proof (cases args)
    case None
    then show ?thesis using last [of c "0 # r"] buf by (simp add: append_args_def)
  next
    case (Some a)
    then obtain s where a: "a = t @ 0 # s" "0 \<notin> set t" using assms(2) by (auto dest: cstr_Some_split)
    have l: "strnlen (Some buf) (length buf - 1) = Ok (length c)"
    proof (cases r)
      case Nil
      then show ?thesis using strnlen_full [of "length c" buf] buf by simp
    next
      case (Cons x xs)
      then show ?thesis using strnlen_terminated [OF buf(2), of "length buf - 1" r] buf(1) by simp
    qed
    let ?m = "length buf - (length c + 1)"
    have m: "?m = length r" by (simp add: buf(1))
    have sp: "set_byte (length c) (ch CHR '' '') buf = Ok (c @ ch CHR '' '' # r)" by (simp add: set_byte_def buf(1))
    have at: "at_offset (c @ ch CHR '' '' # r) (length c + 1) f = map_res ((@) (c @ [ch CHR '' ''])) (f r)" for f
      by (simp add: at_offset_def)
    let ?k = "if length r > length t + 1 then length t + 1 else length r"
    have cp: "strncpy r a (length r) = Ok (take ?k a @ drop ?k r)"
      using a by (auto simp: strncpy_def copy_loop_eq)
    have "ch CHR '' '' \<noteq> 0" by (simp add: ch_def)
    then have nz: "0 \<notin> set (c @ ch CHR '' '' # t)" using buf(2) a(2) by simp
    have eq: "append_args buf args = set_byte (length buf - 1) 0 (c @ ch CHR '' '' # (take ?k a @ drop ?k r))"
      unfolding append_args_def Let_def Some option.case l andthen.simps sp m at cp map_res.simps by simp
    have "\<exists>buf'. set_byte (length buf - 1) 0 (c @ ch CHR '' '' # (take ?k a @ drop ?k r)) = Ok buf' \<and> length buf' = length buf \<and>
        cstr buf' = Some (take (length buf - 1) (c @ ch CHR '' '' # t))"
    proof (cases "length t < length r")
      case True
      then have "length r = Suc (length t) \<or> length t + 1 < length r" by auto
      then have "c @ ch CHR '' '' # (take ?k a @ drop ?k r) = (c @ ch CHR '' '' # t) @ 0 # drop (length t + 1) r"
        using a(1) by auto
      moreover have "take (length buf - 1) (c @ ch CHR '' '' # t) = c @ ch CHR '' '' # t" using True by (simp add: buf(1))
      ultimately show ?thesis using last [OF nz, of "0 # drop (length t + 1) r"] True by (simp add: buf(1))
    next
      case False
      let ?xs = "take (length buf - 1) (c @ ch CHR '' '' # t)"
      have k: "?k = length r" "take ?k a = take (length r) t" using False a(1) by auto
      have lx: "length ?xs = length buf - 1" using False by (simp add: buf(1))
      have nx: "0 \<notin> set ?xs" using nz by (meson in_set_takeD)
      have whole: "take (length buf) (c @ ch CHR '' '' # t) = c @ ch CHR '' '' # take (length r) t" by (simp add: buf(1))
      have "\<exists>y. take (length buf) (c @ ch CHR '' '' # t) = ?xs @ [y]"
        using False take_Suc_conv_app_nth [of "length buf - 1" "c @ ch CHR '' '' # t"] by (auto simp: buf(1))
      then obtain y where "c @ ch CHR '' '' # (take ?k a @ drop ?k r) = ?xs @ [y]" using whole k by auto
      then show ?thesis using last [OF nx, of "[y]"] lx by (simp add: buf(1))
    qed
    then show ?thesis by (simp only: eq [unfolded Some] Some option.case)
  qed
qed

definition tftp_ip_value :: "bytes option \<Rightarrow> bytes option" where
  "tftp_ip_value v = (case v of None \<Rightarrow> None | Some x \<Rightarrow> if 4 \<le> length x then Some (take 4 x) else None)"

text \<open>
  C15.  Parameters stored in the scratch area of any storage that keeps its contract are read back, when the
  area has less than 2 GiB, at least four bytes follow the last value, every type is one of the table and
  the command line of the caller is terminated: the address of the server (of four bytes or more), the
  names of the files that are terminated, and the command line, which is extended by a blank and the
  arguments and cut to its buffer.  The last value of a type counts.
\<close>

theorem netboot_params_round_trip:
  fixes ps :: "(nat \<times> bytes) list"
  assumes "readable_storage ops contents ok" "ok (nb_scratch s)" "nb_data s = None"
    and "contents (nb_scratch s) = encode_params ps @ rest" "length (encode_params ps @ rest) < 2 ^ 31" "4 \<le> length rest"
    and "\<forall>p \<in> set ps. fst p < 5" "cstr buf = Some c"
  defines "val \<equiv> \<lambda>t. param_value ps t None"
  shows "\<exists>nv buf' s'. netboot_params_read ops (Some buf) s = (Ok nv, s') \<and> nb_data s' = Some (encode_params ps @ rest) \<and>
    map_option (take 4) (nv_tftp_ip nv) = tftp_ip_value (val NetbootParamIdTftpServerIp) \<and>
    Option.bind (nv_bootfile nv) cstr = string_value (val NetbootParamIdBootfile) \<and>
    Option.bind (nv_argsfile nv) cstr = string_value (val NetbootParamIdArgsFile) \<and>
    nv_cmd_line nv = Some buf' \<and>
    cstr buf' = Some (case string_value (val NetbootParamIdKernelArgs) of None \<Rightarrow> c
      | Some a \<Rightarrow> take (length buf - 1) (c @ ch CHR '' '' # a))"
proof -
  define D where "D = encode_params ps @ rest"
  have D: "length D < 2 ^ 31" "contents (nb_scratch s) = D" using assms(4,5) by (simp_all add: D_def)
  have each: "length (snd p) \<le> length D" if p: "p \<in> set ps" for p
  proof -
    obtain xs ys where "ps = xs @ p # ys" using split_list [OF p] by blast
    then show ?thesis by (simp add: D_def encode_params_def encode_param_def)
  qed
  then have small: "\<forall>p \<in> set ps. fst p < 5 \<and> length (snd p) < 2 ^ 31" using D(1) assms(7) by (meson le_less_trans)
  have "length ps \<le> length D"
  proof -
    have "length ps \<le> length (concat (map encode_param ps))" by (induction ps) (auto simp: length_encode_param)
    then show ?thesis by (simp add: D_def encode_params_def)
  qed
  then have count: "length ps < 2 ^ 32" using D(1) by simp
  obtain params where init: "netboot_params_init D (length D) = Ok (True, params)" "length params = 5"
      "\<forall>t<5. entry_holds D (params ! t) (val t)"
    using netboot_params_init_ok [OF small assms(6) count] by (auto simp: val_def D_def)
  obtain d1 where d1: "storage_size ops (nb_scratch s) = (Ok (int (length D)), d1)" "ok d1" "contents d1 = D"
    using readable_storage.size_ok [OF assms(1,2)] D by auto
  have sz: "unat (word_of_nat (length D) :: u64) = length D" using D(1) by (simp add: unat_u64_of_nat)
  obtain d2 where d2: "storage_read ops 0 (word_of_nat (length D)) d1 = (Ok D, d2)"
    using readable_storage.read_in [OF assms(1) d1(2), of 0 "word_of_nat (length D)"] D(1)
    by (auto simp: d1(3) no_wrap_def sz)
  let ?s = "s\<lparr>nb_scratch := d2, nb_params := params, nb_data := Some D\<rparr>"
  have load: "netboot_params_load ops s = (Ok D, ?s)"
    using assms(3) by (simp add: netboot_params_load_def act_bind_def focus_def d1(1) d2 init(1) Let_def)
  have val: "netboot_params_val params t = Ok (params ! t)" "entry_holds D (params ! t) (val t)" if "t < 5" for t
    using that init(2,3) by (simp_all add: netboot_params_val_def NetbootParamIdMax_def rd_def)
  have str: "\<exists>p. string_param D (params ! t) = Ok p \<and> Option.bind p cstr = string_value (val t) \<and>
      (p = None \<longleftrightarrow> string_value (val t) = None)" if "t < 5" for t
    by (rule string_param_value [OF val(2) [OF that]])
  obtain b where b: "string_param D (params ! 3) = Ok b" "Option.bind b cstr = string_value (val 3)" using str [of 3] by auto
  obtain f where f: "string_param D (params ! 4) = Ok f" "Option.bind f cstr = string_value (val 4)" using str [of 4] by auto
  obtain a where a: "string_param D (params ! 2) = Ok a" "Option.bind a cstr = string_value (val 2)"
      "a = None \<longleftrightarrow> string_value (val 2) = None" using str [of 2] by auto
  have "\<exists>buf'. append_args buf a = Ok buf' \<and> cstr buf' = Some (case string_value (val 2) of None \<Rightarrow> c
      | Some a \<Rightarrow> take (length buf - 1) (c @ ch CHR '' '' # a))"
    using append_args_ok [OF assms(8), where args = a and t = "the (string_value (val 2))"] a(2,3) by (cases a) (auto split: option.splits)
  then obtain buf' where buf': "append_args buf a = Ok buf'" "cstr buf' = Some (case string_value (val 2) of None \<Rightarrow> c
      | Some a \<Rightarrow> take (length buf - 1) (c @ ch CHR '' '' # a))" by blast
  obtain x xs where bufc: "buf = x # xs" using assms(8) by (cases buf) auto
  define ip where "ip = (case np_data (params ! 1) of None \<Rightarrow> None | Some off \<Rightarrow>
      if (word_of_int (np_size (params ! 1)) :: u64) \<ge> 4 then Some (drop off D) else None)"
  have ip: "map_option (take 4) ip = tftp_ip_value (val 1)"
  proof (cases "val 1")
    case None
    then show ?thesis using val(2) [of 1] by (simp add: ip_def entry_holds_def tftp_ip_value_def)
  next
    case (Some x)
    then obtain off where off: "np_data (params ! 1) = Some off" "np_size (params ! 1) = int (length x)"
        "length x < length D" "take (length x) (drop off D) = x"
      using val(2) [of 1] by (auto simp: entry_holds_def)
    have "length x < 2 ^ 64" using off(3) D(1) by simp
    then have "(4 \<le> (word_of_nat (length x) :: u64)) = (4 \<le> length x)"
      by (simp add: word_le_nat_alt unat_u64_of_nat)
    moreover have "take 4 (drop off D) = take 4 x" if "4 \<le> length x"
      using off(4) that by (metis min.absorb1 take_take)
    ultimately show ?thesis using off Some by (simp add: ip_def tftp_ip_value_def)
  qed
  note ids = NetbootParamIdTftpServerIp_def NetbootParamIdBootfile_def NetbootParamIdArgsFile_def NetbootParamIdKernelArgs_def
  have "netboot_params_read ops (Some buf) s =
      (Ok \<lparr>nv_tftp_ip = ip, nv_bootfile = b, nv_argsfile = f, nv_cmd_line = Some buf'\<rparr>, ?s)"
    using b(1) f(1) a(1) buf'(1) by (simp add: netboot_params_read_def act_bind_def load ids val(1) bufc ip_def cong: option.case_cong)
  then show ?thesis using b(2) f(2) buf'(2) ip by (simp add: ids D_def)
qed

theorem netboot_params_round_trip_witness:
  "\<exists>nv buf' s'. netboot_params_read memory_ops (Some (str ''ab'' @ replicate 4 0))
      \<lparr>nb_params = [], nb_data = None, nb_scratch = \<lparr>ms_data = encode_params [(1, [10, 0, 0, 2]), (2, str ''quiet'' @ [0])] @ [0, 0, 0, 0],
        ms_size = 44\<rparr>\<rparr> = (Ok nv, s') \<and>
    map_option (take 4) (nv_tftp_ip nv) = Some [10, 0, 0, 2] \<and> nv_cmd_line nv = Some buf' \<and> cstr buf' = Some (str ''ab qu'')"
proof -
  let ?ps = "[(1, [10, 0, 0, 2]), (2, str ''quiet'' @ [0])] :: (nat \<times> bytes) list"
  let ?D = "encode_params ?ps @ [0, 0, 0, 0]"
  let ?s = "\<lparr>nb_params = [], nb_data = None, nb_scratch = \<lparr>ms_data = ?D, ms_size = 44\<rparr>\<rparr>"
  have len: "length ?D = 44"
    by (simp add: encode_params_def length_encode_param params_size32_def netboot_sig_def str_def)
  have ok: "memory_ok (nb_scratch ?s)" using len by (simp add: memory_ok_def)
  have small: "length ?D < 2 ^ 31" by (simp only: len) simp
  have types: "\<forall>p \<in> set ?ps. fst p < 5" by simp
  have buf: "cstr (str ''ab'' @ replicate 4 0) = Some (str ''ab'')" 
  proof -
    have "replicate 4 (0 :: u8) = 0 # replicate 3 0" by (simp flip: replicate_Suc)
    then show ?thesis by (simp add: cstr_append_NUL str_def ch_def)
  qed
  have quiet: "cstr (str ''quiet'' @ [0]) = Some (str ''quiet'')" by (simp add: cstr_append_NUL str_def ch_def)
  show ?thesis
    using netboot_params_round_trip [OF mem.readable_storage_axioms ok _ _ small _ types buf]
    by (auto simp: tftp_ip_value_def string_value_def quiet NetbootParamIdTftpServerIp_def NetbootParamIdKernelArgs_def)
      (simp add: str_def ch_def)
qed

text \<open>The type of a value is not compared with the size of the table, and its position not with the end of the area.\<close>

lemma netboot_params_wild_type:
  assumes "5 \<le> t" "t < 2 ^ 32" "length v < 2 ^ 31" "4 \<le> length rest"
  shows "netboot_params_init (encode_params [(t, v)] @ rest) (length (encode_params [(t, v)] @ rest)) = Fault OutOfBounds"
proof -
  define D where "D = encode_params [(t, v)] @ rest"
  have sig: "length netboot_sig = 8" by (simp add: netboot_sig_def str_def)
  have D: "D = netboot_sig @ le_bytes 4 1 @ encode_param (t, v) @ rest" by (simp add: encode_params_def D_def)
  have "length D = 4 * (3 + (2 + params_size32 (length v))) + length rest"
    by (simp add: D sig length_encode_param)
  then have fits: "5 + params_size32 (length v) < length D div 4" "8 \<le> length D" using assms(4) by simp_all
  have count: "data32 D 2 = Ok 1" using data32_at [of netboot_sig 2 1] by (simp add: D sig)
  have one: "data32 D 3 = Ok (word_of_nat t)"
    using data32_at [of "netboot_sig @ le_bytes 4 1" 3 t] assms(2) by (simp add: D sig encode_param_def)
  have two: "data32 D 4 = Ok (word_of_nat (length v))"
    using data32_at [of "netboot_sig @ le_bytes 4 1 @ le_bytes 4 t" 4 "length v"] assms(3) by (simp add: D sig encode_param_def)
  have n: "unat (word_of_nat t :: u32) = t" "unat (word_of_nat (length v) :: u32) = length v"
    using assms(2,3) by (simp_all add: unat_u32_of_nat)
  have "params_loop D (length D div 4) 3 (Suc 0) (replicate 5 no_param) = Fault OutOfBounds"
    using fits assms(1) by (simp add: one two n not_le)
  moreover have "slice D 0 8 = Some netboot_sig" by (simp add: slice_def D sig)
  moreover have "params_size32 8 = 2" by (simp add: params_size32_def)
  moreover have "\<not> length D div 4 \<le> 2" "\<not> length D < 8" using fits by simp_all
  ultimately have "netboot_params_init D (length D) = Fault OutOfBounds"
    by (simp add: netboot_params_init_def sig Let_def NetbootParamIdMax_def count del: params_loop.simps)
  then show ?thesis by (simp add: D_def)
qed

lemma netboot_params_short_area:
  "netboot_params_init (netboot_sig @ le_bytes 4 1) 12 = Fault OutOfBounds"
proof -
  have sig: "length netboot_sig = 8" by (simp add: netboot_sig_def str_def)
  let ?D = "netboot_sig @ le_bytes 4 1"
  have "data32 ?D 2 = Ok 1" using data32_at [of netboot_sig 2 1 "[]"] by (simp add: sig)
  moreover have "data32 ?D 3 = Fault OutOfBounds" by (simp add: data32_def slice_def sig)
  moreover have "slice ?D 0 8 = Some netboot_sig" by (simp add: slice_def sig)
  moreover have "params_size32 8 = 2" by (simp add: params_size32_def)
  ultimately show ?thesis
    by (simp add: netboot_params_init_def sig Let_def NetbootParamIdMax_def)
qed

end
