(* ===== verification/NvStorage.thy ===== *)
theory NvStorage
  imports Storage
begin

text \<open>
  The nonvolatile block of verified boot (\<^verbatim>\<open>vboot/callbacks/nvstorage_flash.c\<close>,
  \<^verbatim>\<open>nvstorage_fake.c\<close>, \<^verbatim>\<open>nvstorage_cmos.c\<close>).  The flash version appends blobs to an area
  that is erased when it is full: the current blob is the one before the first empty one.  The
  set-up asks the storage through a pointer that is still NULL, so the code never gets past it
  (\<open>nvram_init_uses_null\<close>).

  \<open>VBNV_BLOCK_SIZE\<close> is a constant of the vboot library and a parameter \<open>B\<close> here; the
  caller's buffer is a list of \<open>B\<close> bytes.
\<close>

subsection \<open>The flash version\<close>

text \<open>
  The variables of the file next to the state of the storage of the board; \<open>nv_set\<close> says that the
  pointer \<open>nvram_storage\<close> is not NULL.
\<close>

record 's nvram =
  nv_dev :: 's
  nv_set :: bool
  nv_size :: int
  nv_offset :: nat
  nv_cache :: bytes

definition via_storage :: "('s, 'a) act \<Rightarrow> ('s nvram, 'a) act" where
  "via_storage m st =
     (if nv_set st then focus nv_dev (\<lambda>d st. st\<lparr>nv_dev := d\<rparr>) m st else (Fault NullDeref, st))"

text \<open>The search: blob after blob until one is empty; \<open>n\<close> is the size of the area.\<close>

function last_blob :: "nat \<Rightarrow> bytes \<Rightarrow> nat \<Rightarrow> nat \<Rightarrow> nat \<Rightarrow> nat res" where
  "last_blob B data n offset found =
     (if offset < n
      then andthen (of_opt (slice data offset B)) (\<lambda>blob.
             if blob = replicate B 0xff then Ok found else last_blob B data n (offset + B) offset)
      else Ok found)"
  by pat_completeness auto
termination
proof (relation "measure (\<lambda>(_, _, n, offset, _). n - offset)")
  fix B :: nat and data :: bytes and n offset found :: nat and blob
  assume "offset < n" "of_opt (slice data offset B) = Ok blob" "blob \<noteq> replicate B 0xff"
  moreover have "0 < B" using calculation(2,3) by (cases B) (auto simp: slice_def split: if_splits)
  ultimately show "((B, data, n, offset + B, offset), B, data, n, offset, found)
      \<in> measure (\<lambda>(_, _, n, offset, _). n - offset)" by auto
qed simp

declare last_blob.simps [simp del]

definition flash_nvram_init :: "'s storage_ops \<Rightarrow> nat \<Rightarrow> ('s nvram, unit) act" where
  "flash_nvram_init board B =
     act_bind (via_storage (storage_size board)) (\<lambda>n st.
     let st = st\<lparr>nv_size := n\<rparr> in
     if n < 0 then (Err, st)
     else act_bind (via_storage (storage_read board 0 (word_of_int n))) (\<lambda>data.
          act_bind (act_lift (last_blob B data (nat n) B 0)) (\<lambda>found.
          act_bind (act_lift (of_opt (slice data found B))) (\<lambda>blob st.
          (Ok (), st\<lparr>nv_set := True, nv_offset := found, nv_cache := blob\<rparr>)))) st)"

definition nv_ready :: "'s storage_ops \<Rightarrow> nat \<Rightarrow> ('s nvram, unit) act" where
  "nv_ready board B st = (if nv_set st then (Ok (), st) else flash_nvram_init board B st)"

definition VbExNvStorageRead :: "'s storage_ops \<Rightarrow> nat \<Rightarrow> ('s nvram, bytes) act" where
  "VbExNvStorageRead board B = act_bind (nv_ready board B) (\<lambda>_ st. (Ok (nv_cache st), st))"

text \<open>Only bits that are set may be cleared in place.\<close>

definition can_overwrite :: "bytes \<Rightarrow> bytes \<Rightarrow> bool" where
  "can_overwrite cache buf \<longleftrightarrow> list_all2 (\<lambda>c b. c AND b = b) cache buf"

definition next_offset :: "'s storage_ops \<Rightarrow> nat \<Rightarrow> ('s nvram, nat) act" where
  "next_offset board B st =
     (let new_offset = nv_offset st + B in
      if nv_size st \<le> int new_offset
      then act_bind (via_storage (storage_write board (replicate (nat (nv_size st)) 0xff) 0
             (word_of_int (nv_size st)))) (\<lambda>_ st. (Ok 0, st)) st
      else (Ok new_offset, st))"

definition VbExNvStorageWrite :: "'s storage_ops \<Rightarrow> nat \<Rightarrow> bytes \<Rightarrow> ('s nvram, unit) act" where
  "VbExNvStorageWrite board B buf =
     act_bind (nv_ready board B) (\<lambda>_ st.
     if buf = nv_cache st then (Ok (), st)
     else act_bind (\<lambda>st. if can_overwrite (nv_cache st) buf then (Ok (nv_offset st), st) else next_offset board B st)
       (\<lambda>offset st.
       act_bind (via_storage (storage_write board buf (word_of_nat offset) (word_of_nat B)))
         (\<lambda>_ st. (Ok (), st\<lparr>nv_cache := buf\<rparr>)) (st\<lparr>nv_offset := offset\<rparr>)) st)"

subsection \<open>The other versions\<close>

text \<open>\<open>fake_nvram\<close> has \<open>B\<close> bytes, and \<open>sizeof(VBNV_BLOCK_SIZE)\<close> is the size of an \<open>int\<close>.\<close>

definition fake_read :: "bytes \<Rightarrow> bytes \<Rightarrow> bytes res" where
  "fake_read fake_nvram buf = andthen (of_opt (slice fake_nvram 0 4)) (\<lambda>xs. of_opt (put buf 0 xs))"

definition fake_write :: "bytes \<Rightarrow> bytes \<Rightarrow> bytes res" where
  "fake_write fake_nvram buf = andthen (of_opt (slice buf 0 4)) (\<lambda>xs. of_opt (put fake_nvram 0 xs))"

text \<open>
  The CMOS of the PC: \<open>vbnv_start\<close> and \<open>vbnv_size\<close> come from the coreboot tables, \<open>nvram_read\<close> and
  \<open>nvram_write\<close> of libpayload take an 8 bit address.
\<close>

definition cmos_read :: "u32 \<Rightarrow> nat \<Rightarrow> (u8 \<Rightarrow> u8) \<Rightarrow> bytes \<Rightarrow> bytes res" where
  "cmos_read vbnv_start vbnv_size cmos buf =
     (if vbnv_start = -1 then Err
      else of_opt (put buf 0 (map (\<lambda>i. cmos (ucast (vbnv_start + word_of_nat i))) [0..<vbnv_size])))"

fun cmos_write_loop :: "u32 \<Rightarrow> nat \<Rightarrow> nat \<Rightarrow> bytes \<Rightarrow> (u8 \<Rightarrow> u8) \<Rightarrow> (u8 \<Rightarrow> u8) res" where
  "cmos_write_loop vbnv_start i 0 buf cmos = Ok cmos"
| "cmos_write_loop vbnv_start i (Suc n) buf cmos =
     andthen (of_opt (rd buf i)) (\<lambda>b.
     cmos_write_loop vbnv_start (i + 1) n buf (cmos(ucast (vbnv_start + word_of_nat i) := b)))"

definition cmos_write :: "u32 \<Rightarrow> nat \<Rightarrow> (u8 \<Rightarrow> u8) \<Rightarrow> bytes \<Rightarrow> (u8 \<Rightarrow> u8) res" where
  "cmos_write vbnv_start vbnv_size cmos buf =
     (if vbnv_start = -1 then Err else cmos_write_loop vbnv_start 0 vbnv_size buf cmos)"

subsection \<open>The blobs of the area\<close>

definition blob_at :: "nat \<Rightarrow> bytes \<Rightarrow> nat \<Rightarrow> bytes" where
  "blob_at B data k = take B (drop (k * B) data)"

definition empty_blob :: "nat \<Rightarrow> bytes" where
  "empty_blob B = replicate B 0xff"

text \<open>
  An area of \<open>m\<close> blobs of which blob \<open>k\<close> is the current one: those before it (but for the first)
  are not empty, those after it are.
\<close>

definition blob_log :: "nat \<Rightarrow> bytes \<Rightarrow> nat \<Rightarrow> nat \<Rightarrow> bool" where
  "blob_log B data m k \<longleftrightarrow> 0 < B \<and> length data = m * B \<and> k < m \<and>
     (\<forall>i. 0 < i \<longrightarrow> i \<le> k \<longrightarrow> blob_at B data i \<noteq> empty_blob B) \<and>
     (\<forall>i. k < i \<longrightarrow> i < m \<longrightarrow> blob_at B data i = empty_blob B)"

lemma blob_slice:
  assumes "i < m" "length data = m * B"
  shows "slice data (i * B) B = Some (blob_at B data i)"
proof -
  have "Suc i * B \<le> m * B" using assms(1) by (intro mult_le_mono1) simp
  with assms(2) show ?thesis by (simp add: slice_def blob_at_def add.commute)
qed

lemma last_blob_log:
  assumes "blob_log B data m k" "i \<le> k"
  shows "last_blob B data (m * B) (Suc i * B) (i * B) = Ok (k * B)"
  using assms(2)
proof (induction "k - i" arbitrary: i)
  case 0
  then have i: "i = k" by simp
  show ?case
  proof (cases "Suc k < m")
    case True
    then have "slice data (Suc k * B) B = Some (empty_blob B)"
      using blob_slice [OF True, of data B] assms(1) by (simp add: blob_log_def)
    then show ?thesis using i by (subst last_blob.simps) (simp add: empty_blob_def)
  next
    case False
    then have "m * B \<le> Suc k * B" by (intro mult_le_mono1) simp
    then show ?thesis using i by (subst last_blob.simps) simp
  qed
next
  case (Suc d)
  then have i: "Suc i \<le> k" by simp
  have "Suc i < m" "0 < B" "length data = m * B" using assms(1) i by (auto simp: blob_log_def)
  moreover have "Suc i * B < m * B" using calculation by (intro mult_less_mono1)
  moreover have "blob_at B data (Suc i) \<noteq> replicate B 0xff"
    using assms(1) i by (auto simp: blob_log_def empty_blob_def)
  ultimately have "last_blob B data (m * B) (Suc i * B) (i * B) = last_blob B data (m * B) (Suc (Suc i) * B) (Suc i * B)"
    using blob_slice [of "Suc i" m data B] by (subst last_blob.simps) (simp add: add.commute)
  with Suc.hyps(1) [of "Suc i"] Suc.hyps(2) i show ?case by simp
qed

lemma blob_at_put:
  assumes "put data (k * B) xs = Some data'" "length xs = B" "length data = m * B" "i < m"
  shows "blob_at B data' i = (if i = k then xs else blob_at B data i)"
proof (cases "i = k")
  case True
  with slice_put_same [OF assms(1)] assms(2) show ?thesis
    by (auto simp: blob_at_def slice_def split: if_splits)
next
  case False
  have "i * B + B \<le> k * B \<or> k * B + B \<le> i * B"
    using False mult_le_mono1 [of "Suc i" k B] mult_le_mono1 [of "Suc k" i B] by (cases "i < k") (auto simp: add.commute)
  then have "slice data' (i * B) B = slice data (i * B) B"
    using slice_put_other [OF assms(1)] assms(2) by auto
  then show ?thesis
    using False blob_slice [OF assms(4,3)] blob_slice [of i m data' B] assms(3,4) put_length [OF assms(1)] by simp
qed

text \<open>A blob written at the current or the next place continues the log.\<close>

lemma blob_log_put:
  assumes log: "blob_log B data m k" and put: "put data (k' * B) xs = Some data'"
    and "length xs = B" "xs \<noteq> empty_blob B" and k': "k' = k \<or> k' = Suc k" "k' < m"
  shows "blob_log B data' m k'" "blob_at B data' k' = xs"
proof -
  have len: "length data = m * B" using log by (simp add: blob_log_def)
  note at = blob_at_put [OF put assms(3) len]
  show "blob_log B data' m k'"
    using log at k' assms(4) put_length [OF put] by (auto simp: blob_log_def)
  show "blob_at B data' k' = xs" using at [OF k'(2)] by simp
qed

lemma blob_log_erased:
  assumes "put (replicate (m * B) 0xff) 0 xs = Some data'" "length xs = B" "0 < B" "0 < m"
  shows "blob_log B data' m 0" "blob_at B data' 0 = xs"
proof -
  have at: "blob_at B data' i = (if i = 0 then xs else blob_at B (replicate (m * B) 0xff) i)" if "i < m" for i
    using blob_at_put [of "replicate (m * B) 0xff" 0 B xs data' m i] assms that by simp
  have "blob_at B (replicate (m * B) 0xff) i = empty_blob B" if "i < m" for i
    using blob_slice [of i m "replicate (m * B) 0xff" B] that
    by (simp add: blob_at_def empty_blob_def) (metis diff_mult_distrib min.absorb1 mult_le_mono1 nat_mult_1 Suc_diff_Suc Suc_leI le_add1 mult_Suc zero_less_diff)
  with at assms put_length [OF assms(1)] show "blob_log B data' m 0" by (simp add: blob_log_def)
  show "blob_at B data' 0 = xs" using at [OF assms(4)] by simp
qed

text \<open>
  Ready: the pointer is set and the variables describe the area.
\<close>

definition nvram_log :: "nat \<Rightarrow> ('s \<Rightarrow> bytes) \<Rightarrow> ('s \<Rightarrow> bool) \<Rightarrow> nat \<Rightarrow> 's nvram \<Rightarrow> bool" where
  "nvram_log B contents ok m st \<longleftrightarrow> ok (nv_dev st) \<and> nv_set st \<and> nv_size st = int (m * B) \<and>
     m * B < 2147483648 \<and> (\<exists>k. nv_offset st = k * B \<and> blob_log B (contents (nv_dev st)) m k \<and>
       nv_cache st = blob_at B (contents (nv_dev st)) k)"

context storage
begin

lemma small_request: "a + b < 2147483648 \<Longrightarrow> no_wrap (word_of_nat a) (word_of_nat b)
    \<and> unat (word_of_nat a :: u64) = a \<and> unat (word_of_nat b :: u64) = b"
  by (simp add: no_wrap_def unat_u64_of_nat)

lemma write_at:
  assumes "nv_set st" "ok (nv_dev st)" "a + length xs \<le> length (contents (nv_dev st))"
    "length (contents (nv_dev st)) < 2147483648"
  shows "\<exists>d. via_storage (storage_write ops xs (word_of_nat a) (word_of_nat (length xs))) st
      = (Ok (), st\<lparr>nv_dev := d\<rparr>) \<and> ok d \<and> put (contents (nv_dev st)) a xs = Some (contents d)"
proof -
  have r: "no_wrap (word_of_nat a) (word_of_nat (length xs))" "unat (word_of_nat a :: u64) = a"
    "unat (word_of_nat (length xs) :: u64) = length xs"
    using small_request [of a "length xs"] assms(3,4) by auto
  obtain d where "storage_write ops xs (word_of_nat a) (word_of_nat (length xs)) (nv_dev st) = (Ok (), d)"
    "ok d" "put (contents (nv_dev st)) a xs = Some (contents d)"
    using write_in [OF assms(2) r(1), of xs] r(2,3) assms(3) by auto
  with assms(1) show ?thesis by (intro exI [of _ d]) (simp add: via_storage_def focus_def)
qed

text \<open>A write leaves a log whose current blob is the buffer.\<close>

lemma nvram_write_log:
  assumes log: "nvram_log B contents ok m st" and buf: "length buf = B" "buf \<noteq> empty_blob B"
  shows "\<exists>st'. VbExNvStorageWrite ops B buf st = (Ok (), st') \<and> nvram_log B contents ok m st' \<and> nv_cache st' = buf"
proof (cases "buf = nv_cache st")
  case True
  with log show ?thesis
    by (auto simp: VbExNvStorageWrite_def nv_ready_def act_bind_def nvram_log_def)
next
  case False
  obtain k where k: "nv_offset st = k * B" "blob_log B (contents (nv_dev st)) m k"
    and base: "ok (nv_dev st)" "nv_set st" "nv_size st = int (m * B)" "m * B < 2147483648"
    using log by (auto simp: nvram_log_def)
  let ?c = "contents (nv_dev st)"
  have len: "length ?c = m * B" "0 < B" "k < m" using k(2) by (auto simp: blob_log_def)
  let ?pick = "if can_overwrite (nv_cache st) buf then (Ok (nv_offset st), st) else next_offset ops B st"
  have "\<exists>st1 k1. ?pick = (Ok (k1 * B), st1) \<and> nv_set st1 \<and> nv_size st1 = nv_size st \<and> ok (nv_dev st1) \<and> k1 < m \<and>
      length (contents (nv_dev st1)) = m * B \<and>
      (\<forall>data'. put (contents (nv_dev st1)) (k1 * B) buf = Some data'
         \<longrightarrow> blob_log B data' m k1 \<and> blob_at B data' k1 = buf)"
  proof (cases "can_overwrite (nv_cache st) buf")
    case True
    with k base len blob_log_put [OF k(2) _ buf, of k] show ?thesis by (intro exI [of _ st] exI [of _ k]) auto
  next
    case over: False
    show ?thesis
    proof (cases "Suc k < m")
      case True
      then have "Suc k * B < m * B" using len(2) by (intro mult_less_mono1)
      then have "\<not> nv_size st \<le> int (nv_offset st + B)" unfolding k(1) base(3) of_nat_le_iff by simp
      then have "?pick = (Ok (Suc k * B), st)" using over k(1)
        by (simp add: next_offset_def Let_def add.commute)
      with True base len blob_log_put [OF k(2) _ buf, of "Suc k"] show ?thesis
        by (intro exI [of _ st] exI [of _ "Suc k"]) auto
    next
      case False
      then have "m * B \<le> Suc k * B" by (intro mult_le_mono1) simp
      obtain d where d: "via_storage (storage_write ops (replicate (m * B) 0xff) (word_of_nat 0)
          (word_of_nat (length (replicate (m * B) (0xff :: u8))))) st = (Ok (), st\<lparr>nv_dev := d\<rparr>)"
        "ok d" "put ?c 0 (replicate (m * B) 0xff) = Some (contents d)"
        using write_at [OF base(2,1), of 0 "replicate (m * B) 0xff"] len(1) base(4) by auto
      have erased: "contents d = replicate (m * B) 0xff" using d(3) len(1) by (simp add: put_def)
      have "nv_size st \<le> int (nv_offset st + B)"
        using \<open>m * B \<le> Suc k * B\<close> unfolding k(1) base(3) of_nat_le_iff by simp
      moreover have "nat (nv_size st) = m * B" "(word_of_int (nv_size st) :: u64) = word_of_nat (m * B)"
        unfolding base(3) by (simp_all only: nat_int of_int_of_nat_eq)
      ultimately have "?pick = (Ok (0 * B), st\<lparr>nv_dev := d\<rparr>)"
        using over d(1) by (simp add: next_offset_def Let_def act_bind_def del: of_nat_mult)
      then show ?thesis
        using base d(2) erased len blob_log_erased [OF _ buf(1) len(2), of m]
        by (intro exI [of _ "st\<lparr>nv_dev := d\<rparr>"] exI [of _ 0]) auto
    qed
  qed
  then obtain st1 k1 where pick: "?pick = (Ok (k1 * B), st1)" "nv_set st1" "nv_size st1 = nv_size st" "ok (nv_dev st1)" "k1 < m"
    and len1: "length (contents (nv_dev st1)) = m * B"
    and next_log: "\<And>data'. put (contents (nv_dev st1)) (k1 * B) buf = Some data'
         \<Longrightarrow> blob_log B data' m k1 \<and> blob_at B data' k1 = buf" by blast
  have "Suc k1 * B \<le> m * B" using pick(5) by (intro mult_le_mono1) simp
  then obtain d where d: "via_storage (storage_write ops buf (word_of_nat (k1 * B)) (word_of_nat (length buf)))
      (st1\<lparr>nv_offset := k1 * B\<rparr>) = (Ok (), st1\<lparr>nv_offset := k1 * B, nv_dev := d\<rparr>)"
    "ok d" "put (contents (nv_dev st1)) (k1 * B) buf = Some (contents d)"
    using write_at [of "st1\<lparr>nv_offset := k1 * B\<rparr>" "k1 * B" buf] pick(2,4) len1 base(4) buf(1) by auto
  have "VbExNvStorageWrite ops B buf st = (Ok (), st1\<lparr>nv_offset := k1 * B, nv_dev := d, nv_cache := buf\<rparr>)"
    using False base(2) pick(1) d(1) buf(1)
    by (simp add: VbExNvStorageWrite_def nv_ready_def act_bind_def del: of_nat_mult)
  moreover have "nvram_log B contents ok m (st1\<lparr>nv_offset := k1 * B, nv_dev := d, nv_cache := buf\<rparr>)"
    using pick base d(2) next_log [OF d(3)] by (auto simp: nvram_log_def)
  ultimately show ?thesis by simp
qed

end

subsection \<open>Properties\<close>

text \<open>
  What the write would do behind a pointer that is set, on any storage that keeps the storage contract:
  a buffer that is not all ones is written, also when the area is full and has to be erased first, and
  then a read returns the buffer and so does the search for the current blob that the next boot
  makes.  The code as it is never gets there: see \<open>nvram_init_uses_null\<close> below.
\<close>

lemma nvram_write_survives:
  assumes "storage board contents ok" and "nvram_log B contents ok m st"
    and "length buf = B" "buf \<noteq> replicate B 0xff"
  shows "\<exists>st' k. VbExNvStorageWrite board B buf st = (Ok (), st') \<and> nvram_log B contents ok m st' \<and>
    VbExNvStorageRead board B st' = (Ok buf, st') \<and>
    last_blob B (contents (nv_dev st')) (m * B) B 0 = Ok k \<and> slice (contents (nv_dev st')) k B = Some buf"
proof -
  obtain st' where st': "VbExNvStorageWrite board B buf st = (Ok (), st')" "nvram_log B contents ok m st'"
    "nv_cache st' = buf"
    using storage.nvram_write_log [OF assms(1-3)] assms(4) by (auto simp: empty_blob_def)
  obtain k where k: "blob_log B (contents (nv_dev st')) m k" "blob_at B (contents (nv_dev st')) k = buf" "nv_set st'"
    using st'(2,3) by (auto simp: nvram_log_def)
  have "last_blob B (contents (nv_dev st')) (m * B) B 0 = Ok (k * B)" using last_blob_log [OF k(1), of 0] by simp
  moreover have "slice (contents (nv_dev st')) (k * B) B = Some buf"
    using blob_slice [of k m "contents (nv_dev st')" B] k by (simp add: blob_log_def)
  moreover have "VbExNvStorageRead board B st' = (Ok buf, st')"
    using st'(3) k(3) by (simp add: VbExNvStorageRead_def nv_ready_def act_bind_def)
  ultimately show ?thesis using st' by blast
qed

text \<open>
  The set-up uses the pointer it is about to set: until \<open>nvram_storage\<close> is non-NULL, every read and every
  write calls \<open>storage_size\<close> on NULL, and nothing else sets the pointer.
\<close>

lemma nvram_init_uses_null:
  assumes "\<not> nv_set st"
  shows "VbExNvStorageRead board B st = (Fault NullDeref, st)"
    and "VbExNvStorageWrite board B buf st = (Fault NullDeref, st)"
  using assms by (simp_all add: VbExNvStorageRead_def VbExNvStorageWrite_def nv_ready_def
      flash_nvram_init_def act_bind_def via_storage_def)

text \<open>The fake storage keeps the first four bytes of what is written.\<close>

lemma fake_keeps_four:
  assumes "length fake = B" "length buf = B" "length out = B" "4 \<le> B"
  shows "andthen (fake_write fake buf) (\<lambda>fake. fake_read fake out) = Ok (take 4 buf @ drop 4 out)"
  using assms by (simp add: fake_write_def fake_read_def slice_def put_def)

text \<open>The CMOS version round-trips when the addresses are distinct.\<close>

lemma cmos_write_loop_result:
  assumes "i + n \<le> length buf" "\<And>j. i \<le> j \<Longrightarrow> j < i + n \<Longrightarrow> unat (ucast (start + word_of_nat j) :: u8) = a + j"
  shows "\<exists>cmos'. cmos_write_loop start i n buf cmos = Ok cmos' \<and>
    (\<forall>x. cmos' x = (if a + i \<le> unat x \<and> unat x < a + (i + n) then buf ! (unat x - a) else cmos x))"
  using assms
proof (induction n arbitrary: i cmos)
  case 0
  then show ?case by auto
next
  case (Suc n)
  let ?x = "ucast (start + word_of_nat i) :: u8"
  have x: "unat ?x = a + i" using Suc.prems(2) [of i] by simp
  have "\<exists>cmos'. cmos_write_loop start (i + 1) n buf (cmos(?x := buf ! i)) = Ok cmos' \<and>
    (\<forall>x. cmos' x = (if a + (i + 1) \<le> unat x \<and> unat x < a + (i + 1 + n) then buf ! (unat x - a) else (cmos(?x := buf ! i)) x))"
    by (rule Suc.IH) (use Suc.prems in auto)
  then obtain cmos' where c: "cmos_write_loop start (i + 1) n buf (cmos(?x := buf ! i)) = Ok cmos'"
    "\<forall>x. cmos' x = (if a + (i + 1) \<le> unat x \<and> unat x < a + (i + 1 + n) then buf ! (unat x - a) else (cmos(?x := buf ! i)) x)"
    by blast
  have "cmos' y = (if a + i \<le> unat y \<and> unat y < a + (i + Suc n) then buf ! (unat y - a) else cmos y)" for y
  proof (cases "y = ?x")
    case True
    then show ?thesis using c(2) x by simp
  next
    case False
    then have "unat y \<noteq> a + i" using x by (metis word_unat_eq_iff)
    then show ?thesis unfolding c(2) [rule_format] using False by simp
  qed
  moreover have "cmos_write_loop start i (Suc n) buf cmos = Ok cmos'"
    using c(1) Suc.prems(1) by (simp add: rd_def)
  ultimately show ?case by blast
qed

lemma cmos_round_trip:
  assumes "unat start + length buf \<le> 256" "length out = length buf"
  shows "andthen (cmos_write start (length buf) cmos buf) (\<lambda>cmos. cmos_read start (length buf) cmos out) = Ok buf"
proof -
  have "unat (-1 :: u32) = 4294967295" by (simp add: unsigned_minus_1_eq_mask mask_eq_exp_minus_1)
  then have start: "start \<noteq> -1" using assms(1) by auto
  have addr: "unat (ucast (start + word_of_nat j) :: u8) = unat start + j" if "j < length buf" for j
  proof -
    have lt: "unat start + j < 256" using that assms(1) by simp
    have "unat (start + word_of_nat j) = unat start + j"
      using lt by (simp add: unat_word_ariths unat_of_nat)
    then show ?thesis using lt by (simp add: unsigned_ucast_eq take_bit_nat_eq_self)
  qed
  obtain c where c: "cmos_write_loop start 0 (length buf) buf cmos = Ok c"
    "\<forall>x. c x = (if unat start + 0 \<le> unat x \<and> unat x < unat start + (0 + length buf) then buf ! (unat x - unat start) else cmos x)"
    using cmos_write_loop_result [of 0 "length buf" buf start "unat start" cmos] addr by auto
  have "map (\<lambda>i. c (ucast (start + word_of_nat i))) [0..<length buf] = buf"
    by (rule nth_equalityI) (simp_all add: c(2) addr)
  then show ?thesis using start c(1) assms(2) by (simp add: cmos_write_def cmos_read_def put_def)
qed

lemma nvram_write_survives_witness:
  "\<exists>st'. VbExNvStorageWrite memory_ops 2 [7, 8]
      \<lparr>nv_dev = \<lparr>ms_data = [5, 6, 0xff, 0xff], ms_size = 4\<rparr>, nv_set = True, nv_size = 4, nv_offset = 0, nv_cache = [5, 6]\<rparr>
      = (Ok (), st') \<and> VbExNvStorageRead memory_ops 2 st' = (Ok [7, 8], st')"
proof -
  let ?st = "\<lparr>nv_dev = \<lparr>ms_data = [5, 6, 0xff, 0xff], ms_size = 4\<rparr>, nv_set = True, nv_size = 4, nv_offset = 0,
    nv_cache = [5, 6]\<rparr>"
  have "blob_log 2 [5, 6, 0xff, 0xff] 2 0"
    by (auto simp: blob_log_def blob_at_def empty_blob_def less_Suc_eq numeral_2_eq_2)
  then have "nvram_log 2 ms_data memory_ok 2 ?st"
    by (simp add: nvram_log_def memory_ok_def blob_at_def)
  moreover have "hd [7, 8 :: u8] \<noteq> hd (replicate 2 0xff)" by simp
  then have "[7, 8 :: u8] \<noteq> replicate 2 0xff" by metis
  ultimately show ?thesis using nvram_write_survives [OF mem.storage_axioms, of 2 2 ?st "[7, 8]"] by auto
qed

end
