(* ===== verification/GdbMessage.thy ===== *)
theory GdbMessage
  imports Mem
begin

text \<open>
  The messages of the debugger stub (\<^verbatim>\<open>debug/gdb/transport.c\<close>, \<^verbatim>\<open>gdb_int.h\<close>, \<^verbatim>\<open>base/io.h\<close>): hex
  encoding of memory, strings and numbers, and its decoding.  Memory is accessed in aligned
  32 bit words, because it may be memory mapped I/O: it is a map from 64 bit addresses to
  bytes, read and written by \<open>read_be32\<close> and \<open>write_be32\<close>.

  A shift of a 32 bit word by 32 is undefined in C; the parameter \<open>ub\<close> stands for what it
  leaves in the word.
\<close>

subsection \<open>Characters and numbers\<close>

definition hex_values :: "int list" where
  "hex_values =
     [-1, 10, 11, 12, 13, 14, 15, -1, -1, -1, -1, -1, -1, -1, -1, -1,
      0, 1, 2, 3, 4, 5, 6, 7, 8, 9, -1, -1, -1, -1, -1, -1]"

definition from_hex :: "u8 \<Rightarrow> u8" where
  "from_hex c = word_of_int (hex_values ! unat (c AND 0x1f))"

definition to_hex :: "u8 \<Rightarrow> u8" where
  "to_hex v = str ''0123456789abcdef'' ! unat (v AND 0xf)"

text \<open>A message: the buffer, whose length is \<open>size\<close>, and the number of bytes in use.\<close>

record gdb_message =
  gm_buf :: bytes
  gm_used :: nat

type_synonym gdb_mem = "u64 \<Rightarrow> u8"

definition gm_size :: "gdb_message \<Rightarrow> nat" where
  "gm_size m = length (gm_buf m)"

definition gdb_add :: "gdb_message \<Rightarrow> u8 \<Rightarrow> gdb_message res" where
  "gdb_add m b =
     (if gm_used m < gm_size m then Ok \<lparr>gm_buf = (gm_buf m)[gm_used m := b], gm_used = gm_used m + 1\<rparr>
      else Fault OutOfBounds)"

definition add_hex_byte :: "gdb_message \<Rightarrow> u8 \<Rightarrow> gdb_message res" where
  "add_hex_byte m byte = andthen (gdb_add m (to_hex (drop_bit 4 byte))) (\<lambda>m. gdb_add m (to_hex (byte AND 0xf)))"

text \<open>\<open>die_if(used + length * 2 > size)\<close> in \<open>int\<close> arithmetic.\<close>

definition room_for :: "gdb_message \<Rightarrow> int \<Rightarrow> unit res" where
  "room_for m len =
     (if len * 2 < - (2 ^ 31) \<or> 2 ^ 31 \<le> int (gm_used m) + len * 2 then Fault Overflow
      else if int (gm_size m) < int (gm_used m) + len * 2 then Fault Died else Ok ())"

subsection \<open>Memory\<close>

definition read_be32 :: "gdb_mem \<Rightarrow> u64 \<Rightarrow> u32" where
  "read_be32 mem a = be32 [mem a, mem (a + 1), mem (a + 2), mem (a + 3)]"

definition write_be32 :: "gdb_mem \<Rightarrow> u64 \<Rightarrow> u32 \<Rightarrow> gdb_mem" where
  "write_be32 mem a w = (let b = htobe32 w in
     mem(a := b ! 0, a + 1 := b ! 1, a + 2 := b ! 2, a + 3 := b ! 3))"

definition clrsetbits_be32 :: "gdb_mem \<Rightarrow> u64 \<Rightarrow> u32 \<Rightarrow> u32 \<Rightarrow> gdb_mem" where
  "clrsetbits_be32 mem a clear set_bits = write_be32 mem a ((read_be32 mem a AND NOT clear) OR set_bits)"

text \<open>The pointer difference \<open>p - q\<close> as a number; \<open>p\<close> is not below \<open>q\<close>.\<close>

definition ptr_diff :: "u64 \<Rightarrow> u64 \<Rightarrow> nat" where
  "ptr_diff p q = unat (p - q)"

subsection \<open>Encoding\<close>

text \<open>
  The loop runs until the length is 0: one that starts negative runs into the end of the buffer.
\<close>

function encode_loop :: "gdb_mem \<Rightarrow> gdb_message \<Rightarrow> u64 \<Rightarrow> u64 \<Rightarrow> u32 \<Rightarrow> int \<Rightarrow> gdb_message res" where
  "encode_loop mem m data aligned w len =
     (if len = 0 then Ok m
      else let byte = ucast (drop_bit ((ptr_diff aligned data - 1) * 8) w) in
        andthen (gdb_add m (to_hex (drop_bit 4 byte))) (\<lambda>m1.
        andthen (gdb_add m1 (to_hex (byte AND 0xf))) (\<lambda>m2.
        if len - 1 \<noteq> 0
        then (if data + 1 = aligned
              then encode_loop mem m2 (data + 1) (aligned + 4) (read_be32 mem aligned) (len - 1)
              else encode_loop mem m2 (data + 1) aligned w (len - 1))
        else Ok m2)))"
  by pat_completeness auto
termination
  by (relation "measure (\<lambda>(_, m, _, _, _, _). gm_size m - gm_used m)")
    (auto simp: gdb_add_def gm_size_def split: if_splits)

declare encode_loop.simps [simp del]

definition gdb_message_encode_bytes :: "gdb_mem \<Rightarrow> gdb_message \<Rightarrow> u64 \<Rightarrow> int \<Rightarrow> gdb_message res" where
  "gdb_message_encode_bytes mem m data len =
     andthen (room_for m len) (\<lambda>_.
     let aligned = data AND NOT 3 in
     encode_loop mem m data (aligned + 4) (read_be32 mem aligned) len)"

definition gdb_message_encode_zero_bytes :: "gdb_message \<Rightarrow> int \<Rightarrow> gdb_message res" where
  "gdb_message_encode_zero_bytes m len =
     andthen (room_for m len) (\<lambda>_.
     map_res (\<lambda>buf. \<lparr>gm_buf = buf, gm_used = gm_used m + nat (len * 2)\<rparr>)
       (if len < 0 then Fault OutOfBounds else of_opt (put (gm_buf m) (gm_used m) (replicate (nat (len * 2)) (ch CHR ''0'')))))"

definition gdb_message_add_string :: "gdb_message \<Rightarrow> bytes \<Rightarrow> gdb_message res" where
  "gdb_message_add_string m s =
     andthen (strlcpy (drop (gm_used m) (gm_buf m)) s (gm_size m - gm_used m)) (\<lambda>(n, d).
     let m = \<lparr>gm_buf = take (gm_used m) (gm_buf m) @ d, gm_used = gm_used m + n\<rparr> in
     if gm_size m \<le> gm_used m then Fault Died else Ok m)"

text \<open>
  \<open>CLZ\<close> of a pointer sized number: 64 for 0, else what \<open>__builtin_clz\<close>, a function on 32 bit words,
  gives for its low half; that is undefined (\<open>ub\<close>) when the low half is 0.
\<close>

definition builtin_clz :: "nat \<Rightarrow> u32 \<Rightarrow> nat" where
  "builtin_clz ub w = (if w = 0 then ub else length (takeWhile (\<lambda>i. \<not> bit w (31 - i)) [0..<32]))"

definition CLZ :: "nat \<Rightarrow> u64 \<Rightarrow> nat" where
  "CLZ ub x = (if x = 0 then 64 else builtin_clz ub (ucast x))"

fun encode_int_loop :: "gdb_message \<Rightarrow> u64 \<Rightarrow> nat \<Rightarrow> gdb_message res" where
  "encode_int_loop m val 0 = Ok m"
| "encode_int_loop m val (Suc len) =
     andthen (gdb_add m (to_hex (ucast (drop_bit (len * 4) val AND 0xf)))) (\<lambda>m. encode_int_loop m val len)"

definition gdb_message_encode_int :: "nat \<Rightarrow> gdb_message \<Rightarrow> u64 \<Rightarrow> gdb_message res" where
  "gdb_message_encode_int ub m val =
     (let len = 16 - CLZ ub val div 4 in
      if gm_size m < gm_used m + len then Fault Died else encode_int_loop m val len)"

subsection \<open>Decoding\<close>

definition hex_pair :: "bytes \<Rightarrow> nat \<Rightarrow> u32 \<Rightarrow> u32 res" where
  "hex_pair buf off w =
     andthen (of_opt (rd buf off)) (\<lambda>h.
     andthen (of_opt (rd buf (off + 1))) (\<lambda>l.
     Ok (push_bit 8 w OR push_bit 4 (ucast (from_hex h)) OR ucast (from_hex l))))"

function decode_loop :: "bytes \<Rightarrow> nat \<Rightarrow> gdb_mem \<Rightarrow> u64 \<Rightarrow> u64 \<Rightarrow> u32 \<Rightarrow> int \<Rightarrow> (gdb_mem \<times> u64 \<times> u64 \<times> u32) res" where
  "decode_loop buf off mem data aligned w len =
     (if len = 0 then Ok (mem, data, aligned, w)
      else andthen (hex_pair buf off w) (\<lambda>w.
        if ptr_diff (data + 1) aligned = 4
        then decode_loop buf (off + 2) (write_be32 mem aligned w) (data + 1) (aligned + 4) w (len - 1)
        else decode_loop buf (off + 2) mem (data + 1) aligned w (len - 1)))"
  by pat_completeness auto
termination
  by (relation "measure (\<lambda>(buf, off, _). length buf - off)")
    (auto simp: hex_pair_def andthen_Ok_iff rd_def split: if_splits)

declare decode_loop.simps [simp del]

definition gdb_message_decode_bytes :: "u32 \<Rightarrow> gdb_message \<Rightarrow> int \<Rightarrow> gdb_mem \<Rightarrow> u64 \<Rightarrow> int \<Rightarrow> gdb_mem res" where
  "gdb_message_decode_bytes ub m off mem data len =
     (if int (gm_used m) < off + 2 * len then Fault Died
      else let aligned = data AND NOT 3; shift = ptr_diff (aligned + 4) data * 8;
        w = (if shift = 32 then ub else drop_bit shift (read_be32 mem aligned)) in
      andthen (decode_loop (gm_buf m) (nat off) mem data aligned w len) (\<lambda>(mem, data, aligned, w).
      if data \<noteq> aligned
      then let shift = ptr_diff (aligned + 4) data * 8 in
        Ok (clrsetbits_be32 mem aligned (NOT (mask shift)) (push_bit shift w))
      else Ok mem))"

fun decode_int_loop :: "bytes \<Rightarrow> nat \<Rightarrow> u64 \<Rightarrow> nat \<Rightarrow> u64 res" where
  "decode_int_loop buf off val 0 = Ok val"
| "decode_int_loop buf off val (Suc len) =
     andthen (of_opt (rd buf off)) (\<lambda>c. decode_int_loop buf (off + 1) (push_bit 4 val OR ucast (from_hex c)) len)"

text \<open>The length is compared as a \<open>size_t\<close>, so a negative one is too large.\<close>

definition gdb_message_decode_int :: "gdb_message \<Rightarrow> nat \<Rightarrow> int \<Rightarrow> u64 res" where
  "gdb_message_decode_int m off len =
     (if len < 0 \<or> 16 < len then Fault Died else decode_int_loop (gm_buf m) off 0 (nat len))"

text \<open>
  \<open>strchr\<close> also finds the NUL at the end of the delimiters.  The result is the token's start and the
  offset after the delimiter.
\<close>

function tokenize_loop :: "gdb_message \<Rightarrow> nat \<Rightarrow> nat res" where
  "tokenize_loop m off =
     andthen (of_opt (rd (gm_buf m) off)) (\<lambda>c.
     if c \<in> set (str '',;:'') \<or> c = 0 then Ok (off + 1)
     else if gm_used m \<le> off + 1 then Fault Died else tokenize_loop m (off + 1))"
  by pat_completeness auto
termination
  by (relation "measure (\<lambda>(m, off). gm_size m - off)") (auto simp: gm_size_def rd_def split: if_splits)

declare tokenize_loop.simps [simp del]

definition gdb_message_tokenize :: "gdb_message \<Rightarrow> nat \<Rightarrow> (nat \<times> nat) res" where
  "gdb_message_tokenize m off = map_res (\<lambda>off'. (off, off')) (tokenize_loop m off)"

subsection \<open>Words as four bytes\<close>

lemma bit_256_add: "y < 256 \<Longrightarrow> bit (x * 256 + y) n = (if n < 8 then bit y n else bit x (n - 8))"
  for x y n :: nat
proof (cases "n < 8")
  case True
  assume "y < 256"
  have "(256 :: nat) = 2 ^ (8 - n) * 2 ^ n" using True by (simp flip: power_add)
  then have "x * 256 + y = y + x * 2 ^ (8 - n) * 2 ^ n" by (metis add.commute mult.assoc)
  then have "(x * 256 + y) div 2 ^ n = x * 2 ^ (8 - n) + y div 2 ^ n" by (metis div_mult_self1 power_not_zero zero_neq_numeral add.commute)
  moreover have "even (x * 2 ^ (8 - n))" using True by simp
  ultimately show ?thesis using True by (simp add: bit_iff_odd)
next
  case False
  assume y: "y < 256"
  have "(2 :: nat) ^ n = 2 ^ 8 * 2 ^ (n - 8)" using False by (metis le_add_diff_inverse not_less power_add)
  then have "(x * 256 + y) div 2 ^ n = (x * 256 + y) div 2 ^ 8 div 2 ^ (n - 8)" by (simp only: div_mult2_eq)
  also have "(x * 256 + y) div 2 ^ 8 = x" using y by simp
  finally show ?thesis using False by (simp add: bit_iff_odd)
qed

lemma bit_word32_of_nat: "bit (word_of_nat m :: u32) n \<longleftrightarrow> n < 32 \<and> bit m n"
proof -
  have "bit (word_of_nat m :: u32) n \<longleftrightarrow> bit (unat (word_of_nat m :: u32)) n"
    by (auto simp: bit_unsigned_iff dest: bit_imp_le_length)
  also have "unat (word_of_nat m :: u32) = take_bit 32 m" by (simp add: unsigned_of_nat)
  finally show ?thesis by (simp add: bit_take_bit_iff)
qed

lemma bit_256_unat: "bit (x * 256 + unat (y :: u8)) n \<longleftrightarrow> (if n < 8 then bit y n else bit x (n - 8))"
  using bit_256_add [of "unat y" x n] unat_u8_less [of y] by (simp add: bit_unsigned_iff)

lemma bit_be32:
  "bit (be32 [a, b, c, d]) n \<longleftrightarrow>
     (if n < 8 then bit d n else if n < 16 then bit c (n - 8) else if n < 24 then bit b (n - 16) else n < 32 \<and> bit a (n - 24))"
proof -
  have "bit (be32 [a, b, c, d]) n \<longleftrightarrow> n < 32 \<and> bit ((((0 * 256 + unat a) * 256 + unat b) * 256 + unat c) * 256 + unat d) n"
    by (simp only: be32_def be_val_def fold_simps bit_word32_of_nat)
  also have "\<dots> \<longleftrightarrow> n < 32 \<and> (if n < 8 then bit d n else if n - 8 < 8 then bit c (n - 8) else
      if n - 8 - 8 < 8 then bit b (n - 8 - 8) else
      if n - 8 - 8 - 8 < 8 then bit a (n - 8 - 8 - 8) else bit (0 :: nat) (n - 8 - 8 - 8 - 8))"
    by (simp only: bit_256_unat)
  finally show ?thesis by auto
qed

lemma be32_shift_in: "push_bit 8 (be32 [a, b, c, d]) OR ucast e = be32 [b, c, d, e]"
  by (rule bit_word_eqI) (auto simp: bit_be32 bit_simps dest: bit_imp_le_length)

lemma be32_byte:
  "ucast (drop_bit 24 (be32 [a, b, c, d])) = a" "ucast (drop_bit 16 (be32 [a, b, c, d])) = b"
  "ucast (drop_bit 8 (be32 [a, b, c, d])) = c" "ucast (drop_bit 0 (be32 [a, b, c, d])) = (d :: u8)"
  by (rule bit_word_eqI; auto simp: bit_be32 bit_simps)+

subsection \<open>Hex text\<close>

lemma hex_table: "list_all (\<lambda>k. from_hex (str ''0123456789abcdef'' ! k) = word_of_nat k) [0..<16]"
  by (simp add: upt_rec str_def from_hex_def hex_values_def)

lemma from_hex_to_hex: "from_hex (to_hex v) = v AND 0xf"
proof -
  have "v AND 0xf = take_bit 4 v" by (simp add: take_bit_eq_mask mask_eq_exp_minus_1)
  moreover have "unat (take_bit 4 v) < 16"
    unfolding unsigned_take_bit_eq using take_bit_nat_less_exp [of 4 "unat v"] by simp
  ultimately have "unat (v AND 0xf) < 16" by metis
  with hex_table show ?thesis by (simp add: list_all_iff to_hex_def)
qed

definition hex_bytes :: "bytes \<Rightarrow> bytes" where
  "hex_bytes bs = concat (map (\<lambda>b. [to_hex (drop_bit 4 b), to_hex (b AND 0xf)]) bs)"

lemma length_hex_bytes [simp]: "length (hex_bytes bs) = 2 * length bs"
  by (induction bs) (auto simp: hex_bytes_def)

lemma hex_bytes_Cons: "hex_bytes (b # bs) = to_hex (drop_bit 4 b) # to_hex (b AND 0xf) # hex_bytes bs"
  by (simp add: hex_bytes_def)

lemma nibbles_OR: "push_bit 4 (ucast (drop_bit 4 b AND 0xf)) OR ucast ((b AND 0xf) AND 0xf) = (ucast (b :: u8) :: u32)"
proof -
  have n: "x AND 0xf = take_bit 4 x" for x :: u8 by (simp add: take_bit_eq_mask mask_eq_exp_minus_1)
  show ?thesis unfolding n
    by (rule bit_word_eqI) (auto simp: bit_simps dest: bit_imp_le_length)
qed

text \<open>A message with bytes appended.\<close>

definition appended :: "gdb_message \<Rightarrow> bytes \<Rightarrow> gdb_message" where
  "appended m xs = \<lparr>gm_buf = take (gm_used m) (gm_buf m) @ xs @ drop (gm_used m + length xs) (gm_buf m),
     gm_used = gm_used m + length xs\<rparr>"

lemma gdb_add_appended: "gm_used m < gm_size m \<Longrightarrow> gdb_add m b = Ok (appended m [b])"
  by (simp add: gdb_add_def appended_def gm_size_def upd_conv_take_nth_drop)

lemma appended_used [simp]: "gm_used (appended m xs) = gm_used m + length xs"
  by (simp add: appended_def)

lemma appended_size: "gm_used m + length xs \<le> gm_size m \<Longrightarrow> gm_size (appended m xs) = gm_size m"
  by (simp add: appended_def gm_size_def)

lemma appended_appended:
  "gm_used m + length xs \<le> gm_size m \<Longrightarrow> appended (appended m xs) ys = appended m (xs @ ys)"
  by (simp add: appended_def gm_size_def add.commute add.left_commute)

lemma gdb_add_two:
  assumes "gm_used m + 2 \<le> gm_size m"
  shows "andthen (gdb_add m a) (\<lambda>m1. andthen (gdb_add m1 b) f) = f (appended m [a, b])"
  using assms by (simp add: gdb_add_appended appended_size appended_appended)

lemma appended_nil [simp]: "gm_used m \<le> gm_size m \<Longrightarrow> appended m [] = m"
  by (simp add: appended_def)

subsection \<open>Encoding memory\<close>

definition mem_bytes :: "gdb_mem \<Rightarrow> u64 \<Rightarrow> nat \<Rightarrow> bytes" where
  "mem_bytes mem a n = map (\<lambda>i. mem (a + word_of_nat i)) [0..<n]"

lemma mem_bytes_Suc: "mem_bytes mem a (Suc n) = mem a # mem_bytes mem (a + 1) n"
  unfolding mem_bytes_def map_upt_Suc by (simp add: add.assoc)

lemma length_mem_bytes [simp]: "length (mem_bytes mem a n) = n"
  by (simp add: mem_bytes_def)

text \<open>The byte at \<open>data\<close> in the word before \<open>aligned\<close>.\<close>

lemma word_byte:
  assumes "aligned = data + word_of_nat r" "1 \<le> r" "r \<le> 4"
  shows "(ucast (drop_bit ((ptr_diff aligned data - 1) * 8) (read_be32 mem (aligned - 4))) :: u8) = mem data"
proof -
  have d: "ptr_diff aligned data = r" using assms by (simp add: ptr_diff_def unat_of_nat)
  consider "r = 1" | "r = 2" | "r = 3" | "r = 4" using assms(2,3) by linarith
  then show ?thesis unfolding d unfolding read_be32_def assms(1)
    by cases (simp_all add: be32_byte [simplified])
qed

lemma encode_loop_result:
  assumes "aligned = data + word_of_nat r" "1 \<le> r" "r \<le> 4" "w = read_be32 mem (aligned - 4)"
    and "gm_used m + 2 * n \<le> gm_size m"
  shows "encode_loop mem m data aligned w (int n) = Ok (appended m (hex_bytes (mem_bytes mem data n)))"
  using assms
proof (induction n arbitrary: m data aligned w r)
  case 0
  then show ?case by (simp add: encode_loop.simps [of mem m] mem_bytes_def hex_bytes_def)
next
  case (Suc n)
  let ?b = "mem data"
  let ?m = "appended m [to_hex (drop_bit 4 ?b), to_hex (?b AND 0xf)]"
  have room: "gm_used m + 2 \<le> gm_size m" using Suc.prems(5) by simp
  have byte: "(ucast (drop_bit ((ptr_diff aligned data - 1) * 8) w) :: u8) = ?b"
    unfolding Suc.prems(4) by (rule word_byte [OF Suc.prems(1-3)])
  have step: "encode_loop mem m data aligned w (int (Suc n)) =
      (if n = 0 then Ok ?m
       else if data + 1 = aligned then encode_loop mem ?m (data + 1) (aligned + 4) (read_be32 mem aligned) (int n)
       else encode_loop mem ?m (data + 1) aligned w (int n))"
    unfolding encode_loop.simps [of mem m data] Let_def byte gdb_add_two [OF room] by simp
  have next_room: "gm_used ?m + 2 * n \<le> gm_size ?m" using Suc.prems(5) by (simp add: appended_size)
  have whole: "appended ?m (hex_bytes (mem_bytes mem (data + 1) n)) = appended m (hex_bytes (mem_bytes mem data (Suc n)))"
    using room by (simp add: appended_appended mem_bytes_Suc hex_bytes_Cons)
  show ?case
  proof (cases "r = 1")
    case True
    have "encode_loop mem ?m (data + 1) (aligned + 4) (read_be32 mem aligned) (int n)
        = Ok (appended ?m (hex_bytes (mem_bytes mem (data + 1) n)))"
      by (rule Suc.IH [where r = 4]) (use True Suc.prems(1) next_room in \<open>auto simp: add.commute [of 1]\<close>)
    with True Suc.prems(1) step whole show ?thesis by (auto simp: mem_bytes_def hex_bytes_def)
  next
    case False
    have ne: "data + 1 \<noteq> aligned"
    proof
      assume "data + 1 = aligned"
      then have "(word_of_nat r :: u64) = 1" using Suc.prems(1) by simp
      then have "unat (word_of_nat r :: u64) = 1" by simp
      then show False using False Suc.prems(3) by (simp add: unat_of_nat)
    qed
    have "encode_loop mem ?m (data + 1) aligned w (int n)
        = Ok (appended ?m (hex_bytes (mem_bytes mem (data + 1) n)))"
      by (rule Suc.IH [where r = "r - 1"]) (use False Suc.prems next_room in \<open>auto simp: of_nat_diff\<close>)
    with ne step whole show ?thesis by (auto simp: mem_bytes_def hex_bytes_def)
  qed
qed

lemma align4_diff: "data = (data AND NOT 3) + word_of_nat (unat data mod 4)" for data :: u64
proof -
  have t: "(3 :: u64) = mask 2" by (simp add: mask_eq_exp_minus_1)
  have "take_bit 2 data = word_of_nat (unat data mod 4)"
    by (simp only: word_unat_eq_iff unsigned_take_bit_eq) (simp add: take_bit_eq_mod unat_of_nat)
  then show ?thesis unfolding t word_and_not_mask by simp
qed

lemma encode_bytes_result:
  assumes "gm_used m + 2 * n \<le> gm_size m" "gm_size m < 2 ^ 31"
  shows "gdb_message_encode_bytes mem m data (int n) = Ok (appended m (hex_bytes (mem_bytes mem data n)))"
proof -
  let ?k = "unat data mod 4"
  have k: "?k < 4" by simp
  have "(data AND NOT 3) + 4 = data + word_of_nat (4 - ?k)"
    using align4_diff [of data] k by (simp add: of_nat_diff algebra_simps)
  then have "encode_loop mem m data ((data AND NOT 3) + 4) (read_be32 mem (data AND NOT 3)) (int n)
      = Ok (appended m (hex_bytes (mem_bytes mem data n)))"
    by (rule encode_loop_result) (use k assms(1) in auto)
  moreover have "room_for m (int n) = Ok ()"
    using assms by (simp add: room_for_def)
  ultimately show ?thesis by (simp add: gdb_message_encode_bytes_def Let_def)
qed

subsection \<open>Decoding memory\<close>

text \<open>Memory with bytes stored at an address.\<close>

definition overlay :: "gdb_mem \<Rightarrow> u64 \<Rightarrow> bytes \<Rightarrow> gdb_mem" where
  "overlay mem a xs = (\<lambda>x. if unat (x - a) < length xs then xs ! unat (x - a) else mem x)"

lemma overlay_nil [simp]: "overlay mem a [] = mem"
  by (simp add: overlay_def)

lemma overlay_append:
  assumes "length xs + length ys < 2 ^ 64"
  shows "overlay (overlay mem a xs) (a + word_of_nat (length xs)) ys = overlay mem a (xs @ ys)"
proof
  fix x
  let ?d = "unat (x - a)" and ?n = "length xs"
  have n: "unat (word_of_nat ?n :: u64) = ?n" using assms by (simp add: unat_of_nat)
  have sub: "unat (y - word_of_nat ?n) = (if ?n \<le> unat y then unat y - ?n else unat y + 2 ^ 64 - ?n)" for y :: u64
    using assms by (simp add: unat_sub_if_size n word_size)
  have "x - (a + word_of_nat ?n) = (x - a) - word_of_nat ?n" by simp
  with sub have d: "unat (x - (a + word_of_nat ?n)) = (if ?n \<le> ?d then ?d - ?n else ?d + 2 ^ 64 - ?n)"
    by metis
  show "overlay (overlay mem a xs) (a + word_of_nat ?n) ys x = overlay mem a (xs @ ys) x"
    unfolding overlay_def d using assms by (auto simp: nth_append)
qed

lemma overlay_read:
  assumes "length xs < 2 ^ 64"
  shows "mem_bytes (overlay mem a xs) a (length xs) = xs"
  using assms by (intro nth_equalityI) (simp_all add: mem_bytes_def overlay_def unat_of_nat)

lemma overlay_outside: "length xs \<le> unat (x - a) \<Longrightarrow> overlay mem a xs x = mem x"
  by (simp add: overlay_def)

lemma htobe32_be32: "htobe32 (be32 [a, b, c, d]) = [a, b, c, d]"
proof -
  have b: "be_val [a, b, c, d] < 4294967296" using be_val_bound [of "[a, b, c, d]"] by simp
  have "htobe32 (be32 [a, b, c, d]) = be_bytes 4 (be_val [a, b, c, d])"
    using b by (simp add: htobe32_def be32_def unat_of_nat)
  also have "\<dots> = [a, b, c, d]"
  proof -
    have v: "be_val [a, b, c, d] = le_val [d, c, b, a]"
      using be_val_rev [of "[d, c, b, a]"] by (simp only: rev.simps append.simps)
    have "length [d, c, b, a] = 4" by simp
    then have "le_bytes 4 (le_val [d, c, b, a]) = [d, c, b, a]" using le_bytes_le_val [of "[d, c, b, a]"] by metis
    then show ?thesis unfolding be_bytes_def v by simp
  qed
  finally show ?thesis .
qed

text \<open>A word whose last bytes are the pending ones.\<close>

definition holds_last :: "u32 \<Rightarrow> bytes \<Rightarrow> bool" where
  "holds_last w p \<longleftrightarrow> (\<exists>q. length q + length p = 4 \<and> w = be32 (q @ p))"

lemma list_4: "length xs = 4 \<Longrightarrow> \<exists>a b c d. xs = [a, b, c, d]"
  by (auto simp: length_Suc_conv eval_nat_numeral)

lemma holds_last_nil: "holds_last w []"
proof -
  have "w = be32 (htobe32 w)" by simp
  then show ?thesis unfolding holds_last_def by (metis append_Nil2 length_htobe32 list.size(3) add_0_right)
qed

lemma holds_last_shift:
  assumes "holds_last w p" "length p < 4"
  shows "holds_last (push_bit 8 w OR ucast b) (p @ [b])"
proof -
  obtain q where q: "length q + length p = 4" "w = be32 (q @ p)" using assms(1) by (auto simp: holds_last_def)
  then obtain a q' where q': "q = a # q'" using assms(2) by (cases q) auto
  obtain c d e f where l: "q @ p = [c, d, e, f]" using list_4 [of "q @ p"] q(1) by auto
  have "push_bit 8 w OR ucast b = be32 (q' @ p @ [b])"
    using be32_shift_in [of c d e f b] l q(2) q' by (simp flip: append_assoc)
  then show ?thesis using q(1) q' by (auto simp: holds_last_def)
qed

lemma unat_offset: "k < 4 \<Longrightarrow> x = a + word_of_nat k \<longleftrightarrow> unat (x - a) = k" for x a :: u64
proof -
  assume k: "k < 4"
  have "x = a + word_of_nat k \<longleftrightarrow> x - a = word_of_nat k" by (auto simp: algebra_simps)
  also have "\<dots> \<longleftrightarrow> unat (x - a) = k" using k by (simp add: word_unat_eq_iff unat_of_nat)
  finally show ?thesis .
qed

lemma write_overlay:
  assumes "holds_last w p" "length p = 4"
  shows "write_be32 mem a w = overlay mem a p"
proof -
  obtain b c d e where p: "p = [b, c, d, e]" using list_4 [OF assms(2)] by auto
  have "w = be32 p" using assms by (auto simp: holds_last_def)
  then have h: "htobe32 w = [b, c, d, e]" by (simp add: p htobe32_be32)
  show ?thesis
  proof
    fix x
    have "x = a \<longleftrightarrow> unat (x - a) = 0" "x = a + 1 \<longleftrightarrow> unat (x - a) = 1"
      "x = a + 2 \<longleftrightarrow> unat (x - a) = 2" "x = a + 3 \<longleftrightarrow> unat (x - a) = 3"
      using unat_offset [of 0 x a] unat_offset [of 1 x a] unat_offset [of 2 x a] unat_offset [of 3 x a] by simp_all
    then show "write_be32 mem a w x = overlay mem a p x"
      by (auto simp: write_be32_def Let_def h overlay_def p less_Suc_eq nth_Cons')
  qed
qed

lemma hex_pair_result:
  assumes "slice buf off (2 * Suc n) = Some (hex_bytes (b # bs))"
  shows "hex_pair buf off w = Ok (push_bit 8 w OR ucast b)" "slice buf (off + 2) (2 * n) = Some (hex_bytes bs)"
proof -
  have len: "off + 2 * Suc n \<le> length buf"
    and eq: "take (2 * Suc n) (drop off buf) = to_hex (drop_bit 4 b) # to_hex (b AND 0xf) # hex_bytes bs"
    using assms by (auto simp: slice_def hex_bytes_Cons split: if_splits)
  have "drop off buf ! 0 = to_hex (drop_bit 4 b)" "drop off buf ! 1 = to_hex (b AND 0xf)"
    using arg_cong [OF eq, of "\<lambda>l. l ! 0"] arg_cong [OF eq, of "\<lambda>l. l ! 1"] by simp_all
  then have "rd buf off = Some (to_hex (drop_bit 4 b))" "rd buf (off + 1) = Some (to_hex (b AND 0xf))"
    using len by (simp_all add: rd_def)
  then show "hex_pair buf off w = Ok (push_bit 8 w OR ucast b)"
    using nibbles_OR [of b] by (simp add: hex_pair_def from_hex_to_hex or.assoc)
  have "take (2 * n) (drop (off + 2) buf) = hex_bytes bs"
    using arg_cong [OF eq, of "drop 2"] by (simp add: drop_take add.commute)
  then show "slice buf (off + 2) (2 * n) = Some (hex_bytes bs)" using len by (simp add: slice_def)
qed

lemma decode_loop_result:
  assumes "data = aligned + word_of_nat (length p)" "length p < 4" "holds_last w p"
    and "slice buf off (2 * length bs) = Some (hex_bytes bs)" "length p + length bs < 2 ^ 64"
  shows "\<exists>mem' data' aligned' w' p'. decode_loop buf off mem data aligned w (int (length bs)) = Ok (mem', data', aligned', w')
    \<and> data' = aligned' + word_of_nat (length p') \<and> length p' < 4 \<and> holds_last w' p'
    \<and> overlay mem' aligned' p' = overlay mem aligned (p @ bs)"
  using assms
proof (induction bs arbitrary: off mem data aligned w p)
  case Nil
  have "decode_loop buf off mem data aligned w (int (length [])) = Ok (mem, data, aligned, w)"
    by (simp add: decode_loop.simps [of buf])
  with Nil show ?case by auto
next
  case (Cons b bs)
  have sl: "slice buf off (2 * Suc (length bs)) = Some (hex_bytes (b # bs))" using Cons.prems(4) by simp
  note pair = hex_pair_result [OF sl]
  let ?w = "push_bit 8 w OR ucast b" and ?p = "p @ [b]"
  have hold: "holds_last ?w ?p" by (rule holds_last_shift [OF Cons.prems(3,2)])
  have next_data: "data + 1 = aligned + word_of_nat (length ?p)" using Cons.prems(1) by simp
  have diff: "ptr_diff (data + 1) aligned = length ?p"
    using Cons.prems(1,2) by (simp add: ptr_diff_def unat_word_ariths unat_of_nat)
  have step: "decode_loop buf off mem data aligned w (int (length (b # bs))) =
      (if length ?p = 4 then decode_loop buf (off + 2) (write_be32 mem aligned ?w) (data + 1) (aligned + 4) ?w (int (length bs))
       else decode_loop buf (off + 2) mem (data + 1) aligned ?w (int (length bs)))"
    unfolding decode_loop.simps [of buf off mem data] pair(1) diff [symmetric] by simp
  show ?case
  proof (cases "length ?p = 4")
    case True
    have mem: "write_be32 mem aligned ?w = overlay mem aligned ?p" by (rule write_overlay [OF hold True])
    have four: "aligned + 4 = aligned + word_of_nat (length ?p)" unfolding True by simp
    have "overlay (overlay mem aligned ?p) (aligned + 4) bs = overlay mem aligned (p @ b # bs)"
      unfolding four using overlay_append [of ?p bs mem aligned] Cons.prems(5) by simp
    moreover have "data + 1 = aligned + 4 + word_of_nat (length [])" using next_data four by simp
    ultimately show ?thesis
      using Cons.IH [of "data + 1" "aligned + 4" "[]" ?w "off + 2" "write_be32 mem aligned ?w"]
        True step pair(2) holds_last_nil Cons.prems(5) mem by simp
  next
    case False
    then have "length ?p < 4" using Cons.prems(2) by simp
    with Cons.IH [of "data + 1" aligned ?p ?w "off + 2" mem, OF next_data _ hold pair(2)] False step Cons.prems(5)
    show ?thesis by simp
  qed
qed

lemma be32_merge:
  assumes "length q + length p = 4" "0 < length p" "length p < 4"
  shows "(be32 [a, b, c, d] AND mask ((4 - length p) * 8)) OR push_bit ((4 - length p) * 8) (be32 (q @ p))
    = be32 (p @ drop (length p) [a, b, c, d])"
proof -
  consider w x y z where "q = [w, x, y]" "p = [z]" | w x y z where "q = [w, x]" "p = [y, z]"
    | w x y z where "q = [w]" "p = [x, y, z]"
    using assms by (cases p; cases "tl p"; cases "tl (tl p)"; auto simp: length_Suc_conv eval_nat_numeral)
  then show ?thesis
    by cases (simp_all, (rule bit_word_eqI; auto simp: bit_be32 bit_simps)+)
qed

lemma be32_drop:
  assumes "0 < m" "m < 4"
  shows "holds_last (drop_bit ((4 - m) * 8) (be32 [a, b, c, d])) (take m [a, b, c, d])"
proof -
  have "drop_bit ((4 - m) * 8) (be32 [a, b, c, d]) = be32 (replicate (4 - m) 0 @ take m [a, b, c, d])"
  proof -
    consider "m = 1" | "m = 2" | "m = 3" using assms by linarith
    then show ?thesis
      by cases (simp_all add: eval_nat_numeral, (rule bit_word_eqI; auto simp: bit_be32 bit_simps)+)
  qed
  moreover have "length (replicate (4 - m) (0 :: u8)) + length (take m [a, b, c, d]) = 4" using assms by simp
  ultimately show ?thesis unfolding holds_last_def by blast
qed

lemma clrsetbits_overlay:
  assumes "holds_last w p" "0 < length p" "length p < 4"
  shows "clrsetbits_be32 mem a (NOT (mask ((4 - length p) * 8))) (push_bit ((4 - length p) * 8) w) = overlay mem a p"
proof -
  let ?o = "[mem a, mem (a + 1), mem (a + 2), mem (a + 3)]"
  obtain q where q: "length q + length p = 4" "w = be32 (q @ p)" using assms(1) by (auto simp: holds_last_def)
  have "clrsetbits_be32 mem a (NOT (mask ((4 - length p) * 8))) (push_bit ((4 - length p) * 8) w)
      = write_be32 mem a (be32 (p @ drop (length p) ?o))"
    unfolding clrsetbits_be32_def read_be32_def q(2) bit.double_compl be32_merge [OF q(1) assms(2,3)] ..
  also have "\<dots> = overlay mem a (p @ drop (length p) ?o)"
    by (rule write_overlay) (use assms(3) in \<open>auto simp: holds_last_def\<close>)
  also have "\<dots> = overlay mem a p"
  proof
    fix x
    have "?o ! k = mem (a + word_of_nat k)" if "k < 4" for k
      using that by (auto simp: less_Suc_eq eval_nat_numeral)
    moreover have "mem (a + word_of_nat (unat (x - a))) = mem x" by simp
    ultimately show "overlay mem a (p @ drop (length p) ?o) x = overlay mem a p x"
      using assms(3) by (auto simp: overlay_def nth_append)
  qed
  finally show ?thesis .
qed

lemma overlay_read_back: "n < 2 ^ 64 \<Longrightarrow> overlay mem a (mem_bytes mem a n) = mem"
  by (auto simp: overlay_def mem_bytes_def)

lemma mem_bytes_take: "k < 4 \<Longrightarrow> mem_bytes mem a k = take k [mem a, mem (a + 1), mem (a + 2), mem (a + 3)]"
proof -
  assume "k < 4"
  then consider "k = 0" | "k = 1" | "k = 2" | "k = 3" by linarith
  then show ?thesis by cases (simp_all add: mem_bytes_def upt_rec)
qed

text \<open>Decoding stores the bytes at the address, whatever the undefined shift leaves, and nothing else.\<close>

lemma decode_bytes_result:
  assumes "slice (gm_buf m) off (2 * length bs) = Some (hex_bytes bs)" "off + 2 * length bs \<le> gm_used m"
    and "length bs + 4 < 2 ^ 64"
  shows "gdb_message_decode_bytes ub m (int off) mem data (int (length bs)) = Ok (overlay mem data bs)"
proof -
  let ?a = "data AND NOT 3" and ?k = "unat data mod 4"
  have k: "?k < 4" by simp
  let ?p = "mem_bytes mem ?a ?k"
  have d: "data = ?a + word_of_nat (length ?p)" using align4_diff [of data] by simp
  have diff: "ptr_diff (?a + 4) data * 8 = (4 - ?k) * 8"
  proof -
    have eq: "?a + 4 - data = word_of_nat (4 - ?k)" using d k by (simp add: of_nat_diff algebra_simps)
    show ?thesis unfolding ptr_diff_def eq unat_of_nat using k by simp
  qed
  let ?w = "if ptr_diff (?a + 4) data * 8 = 32 then ub else drop_bit (ptr_diff (?a + 4) data * 8) (read_be32 mem ?a)"
  have w: "holds_last ?w ?p"
  proof (cases "?k = 0")
    case True
    then have "?p = []" by (simp only: mem_bytes_def upt_0 list.map)
    then show ?thesis using holds_last_nil by simp
  next
    case False
    have "?p = take ?k [mem ?a, mem (?a + 1), mem (?a + 2), mem (?a + 3)]"
      by (rule mem_bytes_take [OF k])
    moreover have "(4 - ?k) * 8 \<noteq> 32" using False k by simp
    ultimately show ?thesis using be32_drop [of ?k] False k unfolding diff read_be32_def by simp
  qed
  have small: "length ?p < 4" "length ?p + length bs < 2 ^ 64" using k assms(3) by auto
  obtain mem' data' a' w' p' where
    loop: "decode_loop (gm_buf m) off mem data ?a ?w (int (length bs)) = Ok (mem', data', a', w')"
    and r: "data' = a' + word_of_nat (length p')" "length p' < 4" "holds_last w' p'"
    and ov: "overlay mem' a' p' = overlay mem ?a (?p @ bs)"
    using decode_loop_result [OF d small(1) w assms(1) small(2)] by blast
  have goal: "overlay mem ?a (?p @ bs) = overlay mem data bs"
  proof -
    have "overlay mem ?a ?p = mem" by (rule overlay_read_back, rule less_trans [OF k]) simp
    with overlay_append [OF small(2), of mem ?a] d show ?thesis by metis
  qed
  have ne: "data' = a' \<longleftrightarrow> p' = []"
  proof -
    have "unat (word_of_nat (length p') :: u64) = length p'" using r(2) by (simp add: unat_of_nat)
    then have "(word_of_nat (length p') :: u64) = 0 \<longleftrightarrow> p' = []" using unat_eq_0 [of "word_of_nat (length p') :: u64"] by auto
    then show ?thesis using r(1) by simp
  qed
  have diff': "ptr_diff (a' + 4) data' * 8 = (4 - length p') * 8"
  proof -
    have eq: "a' + 4 - data' = word_of_nat (4 - length p')" using r(1,2) by (simp add: of_nat_diff)
    show ?thesis unfolding ptr_diff_def eq unat_of_nat using r(2) by simp
  qed
  have final: "(if data' \<noteq> a' then Ok (clrsetbits_be32 mem' a' (NOT (mask (ptr_diff (a' + 4) data' * 8)))
      (push_bit (ptr_diff (a' + 4) data' * 8) w')) else Ok mem') = Ok (overlay mem data bs)"
    using clrsetbits_overlay [OF r(3) _ r(2)] ov goal ne unfolding diff' by (cases "p' = []") auto
  have "\<not> int (gm_used m) < int off + 2 * int (length bs)" using assms(2) by simp
  then show ?thesis unfolding gdb_message_decode_bytes_def Let_def
    by (simp only: if_False nat_int loop andthen.simps prod.case final)
qed

end
