(* ===== verification/Gdb.thy ===== *)
theory Gdb
  imports GdbMessage
begin

text \<open>
  The debugger stub (\<^verbatim>\<open>debug/gdb/transport.c\<close>, \<^verbatim>\<open>commands.c\<close>, \<^verbatim>\<open>stub.c\<close>): the framing of packets on
  the serial line, the commands on memory, and the command loop.

  The line is a list with what each call of \<open>gdb_raw_getchar\<close> returns: \<open>None\<close> after a timeout.  When
  the list is exhausted the code is still waiting, which is \<open>Fault Diverges\<close>.  The output is the
  list of the bytes put on the line.  The registers and the single step flag belong to the
  architecture: the operations on them are parameters.
\<close>

type_synonym gdb_line = "u8 option list"

subsection \<open>Packets\<close>

datatype command_state = STATE_WAITING | STATE_COMMAND | STATE_CHECKSUM0 | STATE_CHECKSUM1

record gdb_rx =
  rx_state :: command_state
  rx_checksum :: u8
  rx_running :: u8
  rx_command :: gdb_message

fun gdb_get_loop :: "gdb_line \<Rightarrow> gdb_rx \<Rightarrow> bytes \<Rightarrow> (gdb_message \<times> bytes \<times> gdb_line) res" where
  "gdb_get_loop [] rx out = Fault Diverges"
| "gdb_get_loop (None # ins) rx out = gdb_get_loop ins (rx\<lparr>rx_state := STATE_WAITING\<rparr>) out"
| "gdb_get_loop (Some c # ins) rx out =
     (case rx_state rx of
        STATE_WAITING \<Rightarrow>
          if c = ch CHR ''$''
          then gdb_get_loop ins (rx\<lparr>rx_running := 0, rx_command := (rx_command rx)\<lparr>gm_used := 0\<rparr>,
                 rx_state := STATE_COMMAND\<rparr>) out
          else gdb_get_loop ins rx out
      | STATE_COMMAND \<Rightarrow>
          if c = ch CHR ''#'' then gdb_get_loop ins (rx\<lparr>rx_state := STATE_CHECKSUM0\<rparr>) out
          else if gm_size (rx_command rx) \<le> gm_used (rx_command rx) then Fault Died
          else andthen (gdb_add (rx_command rx) c) (\<lambda>m.
               gdb_get_loop ins (rx\<lparr>rx_command := m, rx_running := rx_running rx + c\<rparr>) out)
      | STATE_CHECKSUM0 \<Rightarrow>
          gdb_get_loop ins (rx\<lparr>rx_checksum := push_bit 4 (from_hex c), rx_state := STATE_CHECKSUM1\<rparr>) out
      | STATE_CHECKSUM1 \<Rightarrow>
          let checksum = rx_checksum rx + from_hex c in
          if rx_running rx = checksum then Ok (rx_command rx, out @ [ch CHR ''+''], ins)
          else gdb_get_loop ins (rx\<lparr>rx_checksum := checksum, rx_state := STATE_WAITING\<rparr>) (out @ [ch CHR ''-'']))"

definition gdb_get_command :: "gdb_message \<Rightarrow> gdb_line \<Rightarrow> (gdb_message \<times> bytes \<times> gdb_line) res" where
  "gdb_get_command command ins =
     gdb_get_loop ins \<lparr>rx_state = STATE_WAITING, rx_checksum = 0, rx_running = 0, rx_command = command\<rparr> []"

definition gdb_frame :: "bytes \<Rightarrow> bytes" where
  "gdb_frame body = (let checksum = sum_list body in
     [ch CHR ''$''] @ body @ [ch CHR ''#'', to_hex (drop_bit 4 checksum), to_hex (checksum AND 0xf)])"

fun gdb_send_loop :: "bytes \<Rightarrow> nat \<Rightarrow> gdb_line \<Rightarrow> bytes \<Rightarrow> (bytes \<times> gdb_line) res" where
  "gdb_send_loop pkt retries [] out = Fault Diverges"
| "gdb_send_loop pkt retries (c # ins) out =
     (if c = Some (ch CHR ''+'') \<or> retries = 0 then Ok (out @ pkt, ins)
      else gdb_send_loop pkt (retries - 1) ins (out @ pkt))"

text \<open>\<open>retries\<close> is one second divided by the timeout of a tenth of a second.\<close>

definition gdb_send_reply :: "gdb_message \<Rightarrow> gdb_line \<Rightarrow> (bytes \<times> gdb_line) res" where
  "gdb_send_reply reply ins =
     (if gm_size reply < gm_used reply then Fault OutOfBounds
      else gdb_send_loop (gdb_frame (take (gm_used reply) (gm_buf reply))) 10 ins [])"

subsection \<open>Commands\<close>

record gdb_state =
  gs_signal :: u8
  gs_resumed :: bool
  gs_connected :: bool

text \<open>What a command works on: the state of the stub, the memory, and the reply it builds.\<close>

record gdb =
  gd_state :: gdb_state
  gd_mem :: gdb_mem
  gd_reply :: gdb_message

definition gd_set_reply :: "gdb \<Rightarrow> gdb_message \<Rightarrow> gdb" where
  "gd_set_reply g m = g\<lparr>gd_reply := m\<rparr>"

definition add_text :: "string \<Rightarrow> gdb \<Rightarrow> gdb res" where
  "add_text s g = map_res (gd_set_reply g) (gdb_message_add_string (gd_reply g) (str s @ [0]))"

text \<open>The signal is one byte at an address of its own, here the memory that holds it everywhere.\<close>

definition gdb_get_last_signal :: "gdb \<Rightarrow> gdb res" where
  "gdb_get_last_signal g =
     andthen (add_text ''S'' g) (\<lambda>g.
     map_res (gd_set_reply g) (gdb_message_encode_bytes (\<lambda>_. gs_signal (gd_state g)) (gd_reply g) 0 1))"

definition gdb_read_memory :: "gdb_message \<Rightarrow> nat \<Rightarrow> gdb \<Rightarrow> gdb res" where
  "gdb_read_memory command offset g =
     andthen (gdb_message_tokenize command offset) (\<lambda>(tok, offset).
     andthen (gdb_message_decode_int command tok (int offset - 1 - int tok)) (\<lambda>addr.
     andthen (gdb_message_decode_int command offset (int (gm_used command) - int offset)) (\<lambda>len.
     map_res (gd_set_reply g) (gdb_message_encode_bytes (gd_mem g) (gd_reply g) addr (as_int len)))))"

definition gdb_write_memory :: "u32 \<Rightarrow> gdb_message \<Rightarrow> nat \<Rightarrow> gdb \<Rightarrow> gdb res" where
  "gdb_write_memory ub command offset g =
     andthen (gdb_message_tokenize command offset) (\<lambda>(tok, offset).
     andthen (gdb_message_decode_int command tok (int offset - 1 - int tok)) (\<lambda>addr.
     andthen (gdb_message_tokenize command offset) (\<lambda>(tok, offset).
     andthen (gdb_message_decode_int command tok (int offset - 1 - int tok)) (\<lambda>len.
     if len * 2 \<noteq> word_of_int (int (gm_used command) - int offset) then Fault Died
     else andthen (gdb_message_decode_bytes ub command (int offset) (gd_mem g) addr (as_int len)) (\<lambda>mem.
          add_text ''OK'' (g\<lparr>gd_mem := mem\<rparr>))))))"

definition gdb_resume :: "gdb \<Rightarrow> gdb" where
  "gdb_resume g = g\<lparr>gd_state := (gd_state g)\<lparr>gs_resumed := True\<rparr>\<rparr>"

definition gdb_continue :: "gdb_message \<Rightarrow> nat \<Rightarrow> gdb \<Rightarrow> gdb res" where
  "gdb_continue command offset g =
     (if offset < gm_used command then add_text ''E00'' g else Ok (gdb_resume g))"

text \<open>\<open>no_step\<close>: the architecture refuses to single step.\<close>

definition gdb_single_step :: "bool \<Rightarrow> gdb_message \<Rightarrow> nat \<Rightarrow> gdb \<Rightarrow> gdb res" where
  "gdb_single_step no_step command offset g =
     (if offset < gm_used command \<or> no_step then add_text ''E00'' g else Ok (gdb_resume g))"

text \<open>
  The architecture: whether it refuses to step, how it appends the registers to a reply,
  and how it takes them from a command.
\<close>

record gdb_arch =
  ga_no_step :: bool
  ga_encode_regs :: "gdb_message \<Rightarrow> gdb_message res"
  ga_decode_regs :: "nat \<Rightarrow> gdb_message \<Rightarrow> unit res"

definition gdb_commands :: "gdb_arch \<Rightarrow> u32 \<Rightarrow> (string \<times> (gdb_message \<Rightarrow> nat \<Rightarrow> gdb \<Rightarrow> gdb res)) list" where
  "gdb_commands arch ub =
     [(''?'', \<lambda>c off g. gdb_get_last_signal g),
      (''g'', \<lambda>c off g. map_res (gd_set_reply g) (ga_encode_regs arch (gd_reply g))),
      (''G'', \<lambda>c off g. andthen (ga_decode_regs arch off c) (\<lambda>_. add_text ''OK'' g)),
      (''m'', gdb_read_memory), (''M'', gdb_write_memory ub),
      (''c'', gdb_continue), (''s'', gdb_single_step (ga_no_step arch))]"

text \<open>The first command whose name agrees with the packet as far as both go; an unknown one has no effect.\<close>

fun gdb_dispatch :: "bool \<Rightarrow> (string \<times> (gdb_message \<Rightarrow> nat \<Rightarrow> gdb \<Rightarrow> gdb res)) list \<Rightarrow> gdb_message \<Rightarrow> gdb \<Rightarrow> gdb res" where
  "gdb_dispatch sg [] command g = Ok g"
| "gdb_dispatch sg ((name, handler) # cmds) command g =
     andthen (strncmp sg (str name @ [0]) (gm_buf command) (min (length name) (gm_used command))) (\<lambda>r.
     if r = 0 then handler command (length name) g else gdb_dispatch sg cmds command g)"

text \<open>
  One turn of the loop: a packet, the command, and the reply unless the program resumes.  The result
  says whether the loop goes on.
\<close>

definition gdb_turn :: "bool \<Rightarrow> gdb_arch \<Rightarrow> u32 \<Rightarrow> gdb_message \<Rightarrow> gdb \<Rightarrow> gdb_line
    \<Rightarrow> (bool \<times> gdb_message \<times> gdb \<times> bytes \<times> gdb_line) res" where
  "gdb_turn sg arch ub command g ins =
     andthen (gdb_get_command command ins) (\<lambda>(command, out, ins).
     andthen (gdb_dispatch sg (gdb_commands arch ub) command (g\<lparr>gd_reply := (gd_reply g)\<lparr>gm_used := 0\<rparr>\<rparr>)) (\<lambda>g.
     if gs_resumed (gd_state g) then Ok (False, command, g, out, ins)
     else map_res (\<lambda>(out', ins). (True, command, g, out @ out', ins)) (gdb_send_reply (gd_reply g) ins)))"

fun gdb_turns :: "nat \<Rightarrow> bool \<Rightarrow> gdb_arch \<Rightarrow> u32 \<Rightarrow> gdb_message \<Rightarrow> gdb \<Rightarrow> gdb_line \<Rightarrow> (gdb \<times> bytes \<times> gdb_line) res" where
  "gdb_turns 0 sg arch ub command g ins = Fault Diverges"
| "gdb_turns (Suc fuel) sg arch ub command g ins =
     andthen (gdb_turn sg arch ub command g ins) (\<lambda>(goes_on, command, g, out, ins).
     if goes_on then map_res (\<lambda>(g, out', ins). (g, out @ out', ins)) (gdb_turns fuel sg arch ub command g ins)
     else Ok (g, out, ins))"

definition gdb_stop_reply :: "u8 \<Rightarrow> gdb_message \<Rightarrow> gdb_message res" where
  "gdb_stop_reply signal reply =
     andthen (gdb_message_add_string (reply\<lparr>gm_used := 0\<rparr>) (str ''S'' @ [0])) (\<lambda>m.
     gdb_message_encode_bytes (\<lambda>_. signal) m 0 1)"

definition gdb_command_loop :: "nat \<Rightarrow> bool \<Rightarrow> gdb_arch \<Rightarrow> u32 \<Rightarrow> u8 \<Rightarrow> gdb_message \<Rightarrow> gdb \<Rightarrow> gdb_line
    \<Rightarrow> (gdb \<times> bytes \<times> gdb_line) res" where
  "gdb_command_loop fuel sg arch ub signal command g ins =
     andthen (if gs_resumed (gd_state g)
              then andthen (gdb_stop_reply signal (gd_reply g)) (\<lambda>m.
                   map_res (\<lambda>(out, ins). (g\<lparr>gd_reply := m\<rparr>, out, ins)) (gdb_send_reply m ins))
              else Ok (g, [], ins)) (\<lambda>(g, out, ins).
     map_res (\<lambda>(g, out', ins). (g, out @ out', ins))
       (gdb_turns fuel sg arch ub command
         (g\<lparr>gd_state := \<lparr>gs_signal = signal, gs_resumed = False, gs_connected = True\<rparr>\<rparr>) ins))"

text \<open>\<open>gdb_exit\<close>: the last packet; the cleanup event that calls it is taken off its list.\<close>

definition gdb_exit :: "u8 \<Rightarrow> gdb \<Rightarrow> gdb_line \<Rightarrow> (gdb \<times> bytes \<times> gdb_line) res" where
  "gdb_exit exit_status g ins =
     (if \<not> gs_connected (gd_state g) then Ok (g, [], ins)
      else andthen (gdb_message_add_string ((gd_reply g)\<lparr>gm_used := 0\<rparr>) (str ''W'' @ [0])) (\<lambda>m.
        andthen (gdb_message_encode_bytes (\<lambda>_. exit_status) m 0 1) (\<lambda>m.
        map_res (\<lambda>(out, ins). (g\<lparr>gd_reply := m, gd_state := (gd_state g)\<lparr>gs_connected := False\<rparr>\<rparr>, out, ins))
          (gdb_send_reply m ins))))"

text \<open>
  \<open>gdb_output_write\<close>, for \<open>count\<close> bytes at an address: while the program runs its output is
  sent in a packet; otherwise the stub is dying and detaches, and the text goes to the screen.
\<close>

definition gdb_output_write :: "u64 \<Rightarrow> int \<Rightarrow> gdb \<Rightarrow> gdb_line \<Rightarrow> (gdb \<times> bytes \<times> gdb_line) res" where
  "gdb_output_write buffer count g ins =
     (if \<not> gs_resumed (gd_state g) then gdb_exit (- 1) g ins
      else andthen (gdb_add ((gd_reply g)\<lparr>gm_used := 0\<rparr>) (ch CHR ''O'')) (\<lambda>m.
        andthen (gdb_message_encode_bytes (gd_mem g) m buffer count) (\<lambda>m.
        map_res (\<lambda>(out, ins). (gd_set_reply g m, out, ins)) (gdb_send_reply m ins))))"

subsection \<open>The line\<close>

definition gdb_text :: "gdb_message \<Rightarrow> bytes" where
  "gdb_text m = take (gm_used m) (gm_buf m)"

definition plain :: "bytes \<Rightarrow> bool" where
  "plain body \<longleftrightarrow> ch CHR ''#'' \<notin> set body"

text \<open>A packet with a checksum of its own.\<close>

definition gdb_packet :: "bytes \<Rightarrow> u8 \<Rightarrow> bytes" where
  "gdb_packet body cs = [ch CHR ''$''] @ body @ [ch CHR ''#'', to_hex (drop_bit 4 cs), to_hex (cs AND 0xf)]"

lemma gdb_frame_packet: "gdb_frame body = gdb_packet body (sum_list body)"
  by (simp add: gdb_frame_def gdb_packet_def Let_def)

lemma gdb_get_noise:
  assumes "rx_state rx = STATE_WAITING" "Some (ch CHR ''$'') \<notin> set noise"
  shows "gdb_get_loop (noise @ ins) rx out = gdb_get_loop ins rx out"
  using assms
proof (induction noise)
  case Nil
  then show ?case by simp
next
  case (Cons c noise)
  then show ?case by (cases c; cases rx) auto
qed

lemma gdb_get_body:
  assumes "rx_state rx = STATE_COMMAND" "plain body" "gm_used (rx_command rx) + length body \<le> gm_size (rx_command rx)"
  shows "gdb_get_loop (map Some body @ ins) rx out
    = gdb_get_loop ins (rx\<lparr>rx_command := appended (rx_command rx) body, rx_running := rx_running rx + sum_list body\<rparr>) out"
  using assms
proof (induction body arbitrary: rx)
  case Nil
  then show ?case by simp
next
  case (Cons c body)
  let ?rx = "rx\<lparr>rx_command := appended (rx_command rx) [c], rx_running := rx_running rx + c\<rparr>"
  have "gdb_get_loop (map Some (c # body) @ ins) rx out = gdb_get_loop (map Some body @ ins) ?rx out"
    using Cons.prems by (auto simp: plain_def gdb_add_appended)
  also have "\<dots> = gdb_get_loop ins (?rx\<lparr>rx_command := appended (rx_command ?rx) body, rx_running := rx_running ?rx + sum_list body\<rparr>) out"
    by (rule Cons.IH) (use Cons.prems in \<open>auto simp: plain_def appended_size\<close>)
  finally show ?case using Cons.prems by (simp add: appended_appended add.assoc)
qed

lemma checksum_digits: "push_bit 4 (from_hex (to_hex (drop_bit 4 cs))) + from_hex (to_hex (cs AND 0xf)) = cs"
proof -
  have n: "x AND 0xf = take_bit 4 x" for x :: u8 by (simp add: take_bit_eq_mask mask_eq_exp_minus_1)
  have "take_bit 4 (drop_bit 4 cs) = drop_bit 4 cs" by (rule bit_word_eqI) (auto simp: bit_simps dest: bit_imp_le_length)
  then show ?thesis unfolding from_hex_to_hex n by (simp add: bits_ident)
qed

text \<open>A packet is accepted when its checksum is right, and answered by a minus when it is not.\<close>

lemma gdb_get_packet:
  assumes "rx_state rx = STATE_WAITING" "plain body" "length body \<le> gm_size (rx_command rx)"
  shows "gdb_get_loop (map Some (gdb_packet body cs) @ ins) rx out =
    (if cs = sum_list body then Ok (appended ((rx_command rx)\<lparr>gm_used := 0\<rparr>) body, out @ [ch CHR ''+''], ins)
     else gdb_get_loop ins (rx\<lparr>rx_command := appended ((rx_command rx)\<lparr>gm_used := 0\<rparr>) body,
       rx_running := sum_list body, rx_checksum := cs, rx_state := STATE_WAITING\<rparr>) (out @ [ch CHR ''-'']))"
proof -
  let ?m = "(rx_command rx)\<lparr>gm_used := 0\<rparr>"
  let ?rx = "rx\<lparr>rx_running := 0, rx_command := ?m, rx_state := STATE_COMMAND\<rparr>"
  let ?tail = "map Some [ch CHR ''#'', to_hex (drop_bit 4 cs), to_hex (cs AND 0xf)] @ ins"
  have room: "gm_used (rx_command ?rx) + length body \<le> gm_size (rx_command ?rx)"
    using assms(3) by (simp add: gm_size_def)
  have "gdb_get_loop (map Some (gdb_packet body cs) @ ins) rx out = gdb_get_loop (map Some body @ ?tail) ?rx out"
    using assms(1) by (simp add: gdb_packet_def)
  also have "\<dots> = gdb_get_loop ?tail (?rx\<lparr>rx_command := appended ?m body, rx_running := sum_list body\<rparr>) out"
    using gdb_get_body [OF _ assms(2) room, of ?tail out] by simp
  finally show ?thesis using checksum_digits [of cs] by (auto simp: Let_def)
qed

lemma gdb_send_loop_result:
  assumes "length acks \<le> retries" "Some (ch CHR ''+'') \<notin> set acks"
  shows "gdb_send_loop pkt retries (acks @ Some (ch CHR ''+'') # ins) out
    = Ok (out @ concat (replicate (Suc (length acks)) pkt), ins)"
  using assms
proof (induction acks arbitrary: retries out)
  case Nil
  then show ?case by simp
next
  case (Cons a acks)
  then have "retries \<noteq> 0" "length acks \<le> retries - 1" by auto
  with Cons show ?case by auto
qed

text \<open>The packets of a list of bodies and checksums, each after some noise.\<close>

definition noisy :: "(gdb_line \<times> bytes \<times> u8) list \<Rightarrow> gdb_line" where
  "noisy ps = concat (map (\<lambda>(noise, body, cs). noise @ map Some (gdb_packet body cs)) ps)"

lemma gdb_get_bad_packets:
  assumes "rx_state rx = STATE_WAITING"
    and "\<forall>(noise, body, cs) \<in> set ps. Some (ch CHR ''$'') \<notin> set noise \<and> plain body \<and>
      length body \<le> gm_size (rx_command rx) \<and> cs \<noteq> sum_list body"
  shows "\<exists>rx'. gdb_get_loop (noisy ps @ ins) rx out = gdb_get_loop ins rx' (out @ replicate (length ps) (ch CHR ''-''))
    \<and> rx_state rx' = STATE_WAITING \<and> gm_size (rx_command rx') = gm_size (rx_command rx)"
  using assms
proof (induction ps arbitrary: rx out)
  case Nil
  then show ?case by (auto simp: noisy_def)
next
  case (Cons p ps)
  obtain noise body cs where p: "p = (noise, body, cs)" by (cases p)
  let ?m = "(rx_command rx)\<lparr>gm_used := 0\<rparr>"
  let ?rx = "rx\<lparr>rx_command := appended ?m body, rx_running := sum_list body, rx_checksum := cs, rx_state := STATE_WAITING\<rparr>"
  have h: "Some (ch CHR ''$'') \<notin> set noise" "plain body" "length body \<le> gm_size (rx_command rx)" "cs \<noteq> sum_list body"
    using Cons.prems(2) p by auto
  have size: "gm_size (rx_command ?rx) = gm_size (rx_command rx)"
    using h(3) appended_size [of ?m body] by (simp add: gm_size_def)
  have "gdb_get_loop (noisy (p # ps) @ ins) rx out = gdb_get_loop (noisy ps @ ins) ?rx (out @ [ch CHR ''-''])"
    using gdb_get_noise [OF Cons.prems(1) h(1)] gdb_get_packet [OF Cons.prems(1) h(2,3), of cs] h(4)
    by (simp add: noisy_def p)
  moreover have "\<forall>(noise, body, cs) \<in> set ps. Some (ch CHR ''$'') \<notin> set noise \<and> plain body \<and>
      length body \<le> gm_size (rx_command ?rx) \<and> cs \<noteq> sum_list body"
    using Cons.prems(2) unfolding size by auto
  moreover have "rx_state ?rx = STATE_WAITING" by simp
  ultimately show ?case using Cons.IH [of ?rx "out @ [ch CHR ''-'']"] size by auto
qed

lemma encode_int_loop_result:
  "gm_used m + n \<le> gm_size m \<Longrightarrow> \<exists>xs. encode_int_loop m val n = Ok (appended m xs) \<and> length xs = n"
proof (induction n arbitrary: m)
  case 0
  then show ?case by auto
next
  case (Suc n)
  let ?c = "to_hex (ucast (drop_bit (n * 4) val AND 0xf))"
  obtain xs where "encode_int_loop (appended m [?c]) val n = Ok (appended (appended m [?c]) xs)" "length xs = n"
    using Suc.IH [of "appended m [?c]"] Suc.prems by (auto simp: appended_size)
  with Suc.prems show ?case by (intro exI [of _ "?c # xs"]) (auto simp: gdb_add_appended appended_appended)
qed

subsection \<open>Numbers and tokens\<close>

definition hex_number :: "u8 list \<Rightarrow> u64" where
  "hex_number ds = foldl (\<lambda>v d. v * 16 + ucast d) 0 ds"

definition hex_digits :: "u8 list \<Rightarrow> bytes" where
  "hex_digits ds = map to_hex ds"

definition digits_ok :: "u8 list \<Rightarrow> bool" where
  "digits_ok ds \<longleftrightarrow> (\<forall>d \<in> set ds. d < 16) \<and> length ds \<le> 16"

lemma small_digit: "d < 16 \<Longrightarrow> d AND 0xf = (d :: u8)"
proof -
  assume "d < 16"
  then have "unat d < 16" by (simp add: word_less_nat_alt)
  moreover have "d AND 0xf = take_bit 4 d" by (simp add: take_bit_eq_mask mask_eq_exp_minus_1)
  ultimately show ?thesis by (simp only: word_unat_eq_iff unsigned_take_bit_eq) (simp add: take_bit_nat_eq_self)
qed

lemma shift_in_digit: "d < 16 \<Longrightarrow> push_bit 4 v OR ucast d = v * 16 + (ucast (d :: u8) :: u64)"
proof -
  assume "d < 16"
  then have "d = take_bit 4 d" using small_digit by (simp add: take_bit_eq_mask mask_eq_exp_minus_1)
  then have "\<not> bit d n" if "4 \<le> n" for n using that by (metis bit_take_bit_iff not_less)
  then have "push_bit 4 v AND (ucast d :: u64) = 0"
    by (intro bit_word_eqI) (auto simp: bit_simps)
  then show ?thesis by (simp add: disjunctive_add_eq_or [symmetric] push_bit_eq_mult)
qed

lemma decode_int_loop_result:
  assumes "slice buf off (length ds) = Some (hex_digits ds)" "\<forall>d \<in> set ds. d < 16"
  shows "decode_int_loop buf off v (length ds) = Ok (foldl (\<lambda>v d. v * 16 + ucast d) v ds)"
  using assms
proof (induction ds arbitrary: off v)
  case Nil
  then show ?case by simp
next
  case (Cons d ds)
  have len: "off + Suc (length ds) \<le> length buf" and eq: "take (Suc (length ds)) (drop off buf) = to_hex d # hex_digits ds"
    using Cons.prems(1) by (auto simp: slice_def hex_digits_def split: if_splits)
  have "rd buf off = Some (to_hex d)" using arg_cong [OF eq, of "\<lambda>l. l ! 0"] len by (simp add: rd_def)
  moreover have "take (length ds) (drop (off + 1) buf) = hex_digits ds"
    using arg_cong [OF eq, of "drop 1"] by (simp add: drop_take)
  then have "slice buf (off + 1) (length ds) = Some (hex_digits ds)" using len by (simp add: slice_def)
  ultimately show ?case
    using Cons.IH [of "off + 1"] Cons.prems(2)
    by (simp add: from_hex_to_hex small_digit shift_in_digit)
qed

lemma decode_int_result:
  assumes "slice (gm_buf m) off (length ds) = Some (hex_digits ds)" "digits_ok ds"
  shows "gdb_message_decode_int m off (int (length ds)) = Ok (hex_number ds)"
  using decode_int_loop_result [OF assms(1)] assms(2)
  by (simp add: gdb_message_decode_int_def digits_ok_def hex_number_def)

definition delimiters :: "bytes" where
  "delimiters = str '',;:'' @ [0]"

lemma hex_not_delimiter: "d < 16 \<Longrightarrow> to_hex d \<notin> set delimiters"
proof -
  assume d: "d < 16"
  then have "unat d < 16" by (simp add: word_less_nat_alt)
  moreover have "list_all (\<lambda>k. str ''0123456789abcdef'' ! k \<notin> set delimiters) [0..<16]"
    by (simp add: upt_rec str_def delimiters_def)
  ultimately show ?thesis by (simp add: to_hex_def small_digit [OF d] list_all_iff)
qed

lemma tokenize_result:
  assumes "slice (gm_buf m) off (Suc (length xs)) = Some (xs @ [c])"
    and "\<forall>x \<in> set xs. x \<notin> set delimiters" "c \<in> set delimiters" "off + length xs < gm_used m"
  shows "tokenize_loop m off = Ok (off + length xs + 1)"
  using assms
proof (induction xs arbitrary: off)
  case Nil
  then have len: "off < length (gm_buf m)" and eq: "take 1 (drop off (gm_buf m)) = [c]"
    by (auto simp: slice_def split: if_splits)
  have "rd (gm_buf m) off = Some c" using arg_cong [OF eq, of "\<lambda>l. l ! 0"] len by (simp add: rd_def)
  with Nil show ?case by (subst tokenize_loop.simps) (auto simp: delimiters_def)
next
  case (Cons x xs)
  have len: "off + Suc (Suc (length xs)) \<le> length (gm_buf m)"
    and eq: "take (Suc (Suc (length xs))) (drop off (gm_buf m)) = x # xs @ [c]"
    using Cons.prems(1) by (auto simp: slice_def split: if_splits)
  have "rd (gm_buf m) off = Some x" using arg_cong [OF eq, of "\<lambda>l. l ! 0"] len by (simp add: rd_def)
  moreover have "take (Suc (length xs)) (drop (off + 1) (gm_buf m)) = xs @ [c]"
    using arg_cong [OF eq, of "drop 1"] by (simp add: drop_take)
  then have "slice (gm_buf m) (off + 1) (Suc (length xs)) = Some (xs @ [c])" using len by (simp add: slice_def)
  ultimately show ?case
    using Cons.IH [of "off + 1"] Cons.prems
    by (subst tokenize_loop.simps) (auto simp: delimiters_def)
qed

text \<open>A field of hex digits and its delimiter.\<close>

lemma field_result:
  assumes "slice (gm_buf m) off (Suc (length ds)) = Some (hex_digits ds @ [c])"
    and "digits_ok ds" "c \<in> set delimiters" "off + length ds < gm_used m"
  shows "gdb_message_tokenize m off = Ok (off, off + length ds + 1)"
    and "gdb_message_decode_int m off (int (off + length ds + 1) - 1 - int off) = Ok (hex_number ds)"
proof -
  have l: "length (hex_digits ds) = length ds" by (simp add: hex_digits_def)
  have "tokenize_loop m off = Ok (off + length (hex_digits ds) + 1)"
    by (rule tokenize_result) (use assms hex_not_delimiter in \<open>auto simp: l hex_digits_def digits_ok_def\<close>)
  then show "gdb_message_tokenize m off = Ok (off, off + length ds + 1)"
    by (simp add: gdb_message_tokenize_def l)
  have "slice (gm_buf m) off (length ds) = Some (hex_digits ds)"
    using assms(1) by (auto simp: slice_def l take_Suc_conv_app_nth split: if_splits)
  from decode_int_result [OF this assms(2)]
  show "gdb_message_decode_int m off (int (off + length ds + 1) - 1 - int off) = Ok (hex_number ds)" by simp
qed

lemma add_string_result:
  assumes "gm_used m + length s < gm_size m" "0 \<notin> set s"
  shows "\<exists>m'. gdb_message_add_string m (s @ [0]) = Ok m' \<and> gdb_text m' = gdb_text m @ s \<and>
    gm_size m' = gm_size m \<and> gm_used m' = gm_used m + length s"
proof -
  let ?siz = "gm_size m - gm_used m" and ?d = "drop (gm_used m) (gm_buf m)"
  obtain d' where d': "strlcpy ?d (s @ 0 # []) ?siz = Ok (length s, d')" "cstr d' = Some (take (?siz - 1) s)"
    "length d' = length ?d"
    using strlcpy_truncates [of s ?siz ?d "[]"] assms by (auto simp: gm_size_def)
  have "take (?siz - 1) s = s" using assms(1) by simp
  with d'(2) obtain r where r: "d' = s @ 0 # r" by (auto simp: cstr_iff)
  let ?m = "\<lparr>gm_buf = take (gm_used m) (gm_buf m) @ d', gm_used = gm_used m + length s\<rparr>"
  have "gm_size ?m = gm_size m" using d'(3) assms(1) by (simp add: gm_size_def)
  moreover have "gdb_text ?m = gdb_text m @ s" using assms(1) r by (simp add: gdb_text_def gm_size_def)
  ultimately show ?thesis using d'(1) assms(1) by (simp add: gdb_message_add_string_def Let_def)
qed

lemma add_text_result:
  assumes "gm_used (gd_reply g) + length s < gm_size (gd_reply g)" "0 \<notin> set (str s)"
  shows "\<exists>m. add_text s g = Ok (g\<lparr>gd_reply := m\<rparr>) \<and> gdb_text m = gdb_text (gd_reply g) @ str s"
  using add_string_result [of "gd_reply g" "str s"] assms
  by (auto simp: add_text_def gd_set_reply_def str_def)

lemma appended_text: "gm_used m + length xs \<le> gm_size m \<Longrightarrow> gdb_text (appended m xs) = gdb_text m @ xs"
  by (simp add: gdb_text_def appended_def gm_size_def)

subsection \<open>The commands on memory\<close>

text \<open>The text of the commands, from the offset behind the letter on.\<close>

definition write_args :: "u8 list \<Rightarrow> u8 list \<Rightarrow> bytes \<Rightarrow> bytes" where
  "write_args as ns bs = hex_digits as @ str '','' @ hex_digits ns @ str '':'' @ hex_bytes bs"

definition read_args :: "u8 list \<Rightarrow> u8 list \<Rightarrow> bytes" where
  "read_args as ns = hex_digits as @ str '','' @ hex_digits ns"

lemma text_slice: "gm_used m \<le> gm_size m \<Longrightarrow> gdb_text m = ps @ xs @ qs \<Longrightarrow> slice (gm_buf m) (length ps) (length xs) = Some xs"
proof -
  assume le: "gm_used m \<le> gm_size m" and t: "gdb_text m = ps @ xs @ qs"
  have "gm_buf m = ps @ xs @ (qs @ drop (gm_used m) (gm_buf m))"
    using t append_take_drop_id [of "gm_used m" "gm_buf m"] by (simp add: gdb_text_def)
  then show ?thesis by (metis slice_append_mid)
qed

lemma length_text: "gm_used m \<le> gm_size m \<Longrightarrow> length (gdb_text m) = gm_used m"
  by (simp add: gdb_text_def gm_size_def)

lemma as_int_of_nat: "n < 2147483648 \<Longrightarrow> as_int (word_of_nat n) = int n"
  using as_int_small [of "word_of_nat n"] by (simp add: unat_u64_of_nat)

lemma delimiter_chars: "of_char CHR '','' \<in> set delimiters" "of_char CHR '':'' \<in> set delimiters"
  by (simp_all add: delimiters_def str_def)

lemma gdb_write_memory_result:
  assumes cmd: "gm_used c \<le> gm_size c" "gm_size c < 2 ^ 31" "gdb_text c = ps @ write_args as ns bs"
    and digits: "digits_ok as" "digits_ok ns" "hex_number ns = word_of_nat (length bs)"
    and reply: "gm_used (gd_reply g) + 2 < gm_size (gd_reply g)"
  shows "\<exists>m. gdb_write_memory ub c (length ps) g
      = Ok (g\<lparr>gd_mem := overlay (gd_mem g) (hex_number as) bs, gd_reply := m\<rparr>)
    \<and> gdb_text m = gdb_text (gd_reply g) @ str ''OK''"
proof -
  let ?o1 = "length ps + length as + 1"
  let ?o2 = "?o1 + length ns + 1"
  have used: "gm_used c = ?o2 + 2 * length bs"
    using length_text [OF cmd(1)] cmd(3) by (simp add: write_args_def hex_digits_def str_def)
  have f1: "slice (gm_buf c) (length ps) (Suc (length as)) = Some (hex_digits as @ [of_char CHR '',''])"
    using text_slice [OF cmd(1), of ps "hex_digits as @ [of_char CHR '','']" "hex_digits ns @ str '':'' @ hex_bytes bs"] cmd(3)
    by (simp add: write_args_def hex_digits_def str_def)
  have f2: "slice (gm_buf c) ?o1 (Suc (length ns)) = Some (hex_digits ns @ [of_char CHR '':''])"
    using text_slice [OF cmd(1), of "ps @ hex_digits as @ str '',''" "hex_digits ns @ [of_char CHR '':'']" "hex_bytes bs"] cmd(3)
    by (simp add: write_args_def hex_digits_def str_def)
  have f3: "slice (gm_buf c) ?o2 (2 * length bs) = Some (hex_bytes bs)"
    using text_slice [OF cmd(1), of "ps @ hex_digits as @ str '','' @ hex_digits ns @ str '':''" "hex_bytes bs" "[]"] cmd(3)
    by (simp add: write_args_def hex_digits_def str_def add.assoc)
  note t1 = field_result [OF f1 digits(1) delimiter_chars(1)] and t2 = field_result [OF f2 digits(2) delimiter_chars(2)]
  have small: "length bs < 2147483648" using used cmd(1,2) by simp
  have dec: "gdb_message_decode_bytes ub c (int ?o2) (gd_mem g) (hex_number as) (int (length bs))
      = Ok (overlay (gd_mem g) (hex_number as) bs)"
    by (rule decode_bytes_result [OF f3]) (use used small in auto)
  let ?g = "g\<lparr>gd_mem := overlay (gd_mem g) (hex_number as) bs\<rparr>"
  obtain m where m: "add_text ''OK'' ?g = Ok (?g\<lparr>gd_reply := m\<rparr>)" "gdb_text m = gdb_text (gd_reply g) @ str ''OK''"
    using add_text_result [of ?g "''OK''"] reply by (auto simp: str_def)
  have len: "hex_number ns * 2 = word_of_int (int (gm_used c) - int ?o2)" using used digits(3) by simp
  have i: "as_int (hex_number ns) = int (length bs)" unfolding digits(3) by (rule as_int_of_nat [OF small])
  have "gdb_write_memory ub c (length ps) g = Ok (?g\<lparr>gd_reply := m\<rparr>)"
    unfolding gdb_write_memory_def
    using t1 t2 used dec m(1) len i by simp
  with m(2) show ?thesis by auto
qed

lemma gdb_read_memory_result:
  assumes cmd: "gm_used c \<le> gm_size c" "gdb_text c = ps @ read_args as ns" "0 < length ns"
    and digits: "digits_ok as" "digits_ok ns" "hex_number ns = word_of_nat n"
    and reply: "gm_used (gd_reply g) + 2 * n \<le> gm_size (gd_reply g)" "gm_size (gd_reply g) < 2 ^ 31"
  shows "gdb_read_memory c (length ps) g
    = Ok (g\<lparr>gd_reply := appended (gd_reply g) (hex_bytes (mem_bytes (gd_mem g) (hex_number as) n))\<rparr>)"
proof -
  let ?o1 = "length ps + length as + 1"
  have used: "gm_used c = ?o1 + length ns"
    using length_text [OF cmd(1)] cmd(2) by (simp add: read_args_def hex_digits_def str_def)
  have f1: "slice (gm_buf c) (length ps) (Suc (length as)) = Some (hex_digits as @ [of_char CHR '',''])"
    using text_slice [OF cmd(1), of ps "hex_digits as @ [of_char CHR '','']" "hex_digits ns"] cmd(2)
    by (simp add: read_args_def hex_digits_def str_def)
  have f2: "slice (gm_buf c) ?o1 (length ns) = Some (hex_digits ns)"
    using text_slice [OF cmd(1), of "ps @ hex_digits as @ str '',''" "hex_digits ns" "[]"] cmd(2)
    by (simp add: read_args_def hex_digits_def str_def)
  note t1 = field_result [OF f1 digits(1) delimiter_chars(1)]
  have "gdb_message_decode_int c ?o1 (int (length ns)) = Ok (hex_number ns)"
    by (rule decode_int_result [OF f2 digits(2)])
  moreover have "int (gm_used c) - int ?o1 = int (length ns)" using used by simp
  moreover have "as_int (hex_number ns) = int n" unfolding digits(3) by (rule as_int_of_nat) (use reply in simp)
  moreover have "gdb_message_encode_bytes (gd_mem g) (gd_reply g) (hex_number as) (int n)
      = Ok (appended (gd_reply g) (hex_bytes (mem_bytes (gd_mem g) (hex_number as) n)))"
    by (rule encode_bytes_result [OF reply])
  ultimately show ?thesis
    unfolding gdb_read_memory_def using t1 used by (simp add: gd_set_reply_def)
qed

lemma dispatch_letter:
  assumes "gm_buf c = a # rest" "0 < gm_used c" "of_char x \<noteq> (0 :: u8)"
  shows "gdb_dispatch sg (([x], h) # cmds) c g = (if of_char x = a then h c 1 g else gdb_dispatch sg cmds c g)"
proof -
  have "min (length [x]) (gm_used c) = Suc 0" using assms(2) by simp
  then show ?thesis using assms(1,3) by (auto simp: strncmp_def str_def)
qed

lemma letters: "of_char CHR ''?'' = (63 :: u8)" "of_char CHR ''g'' = (103 :: u8)" "of_char CHR ''G'' = (71 :: u8)"
  "of_char CHR ''m'' = (109 :: u8)" "of_char CHR ''M'' = (77 :: u8)"
  by simp_all

lemma dispatch_memory:
  assumes "gdb_text c = str [x] @ rest" "x \<in> {CHR ''m'', CHR ''M''}"
  shows "gdb_dispatch sg (gdb_commands arch ub) c g =
    (if x = CHR ''m'' then gdb_read_memory c 1 g else gdb_write_memory ub c 1 g)"
proof -
  obtain r where c: "gm_buf c = of_char x # r" "0 < gm_used c"
    using assms(1) by (cases "gm_buf c"; cases "gm_used c") (auto simp: gdb_text_def str_def)
  have d: "gdb_dispatch sg (([y], h) # cmds) c g = (if y = x then h c 1 g else gdb_dispatch sg cmds c g)"
    if "y \<in> {CHR ''?'', CHR ''g'', CHR ''G'', CHR ''m'', CHR ''M''}" for y h cmds
    using dispatch_letter [OF c, of y] that assms(2) by (auto simp del: gdb_dispatch.simps)
  show ?thesis
    using assms(2) unfolding gdb_commands_def by (auto simp: d simp del: gdb_dispatch.simps)
qed

text \<open>An empty packet is taken for the first command of the table.\<close>

lemma dispatch_empty: "gm_used c = 0 \<Longrightarrow> gdb_dispatch sg (gdb_commands arch ub) c g = gdb_get_last_signal g"
  by (simp add: gdb_commands_def strncmp_def)

text \<open>Without a plus the packet is sent eleven times.\<close>

lemma gdb_send_gives_up:
  assumes "length answers = Suc retries" "Some (ch CHR ''+'') \<notin> set answers"
  shows "gdb_send_loop pkt retries (answers @ ins) out = Ok (out @ concat (replicate (Suc retries) pkt), ins)"
  using assms
proof (induction retries arbitrary: answers out)
  case 0
  then show ?case by (auto simp: length_Suc_conv)
next
  case (Suc n)
  then obtain a as where "answers = a # as" by (cases answers) auto
  with Suc show ?case by auto
qed

text \<open>A negative length runs over the end of the reply.\<close>

lemma encode_loop_negative: "len < 0 \<Longrightarrow> encode_loop mem m data aligned w len = Fault OutOfBounds"
proof (induction mem m data aligned w len rule: encode_loop.induct)
  case (1 mem m data aligned w len)
  let ?b = "ucast (drop_bit ((ptr_diff aligned data - 1) * 8) w) :: u8"
  show ?case
  proof (cases "gm_used m + 2 \<le> gm_size m")
    case True
    let ?m1 = "appended m [to_hex (drop_bit 4 ?b)]" and ?m2 = "appended m [to_hex (drop_bit 4 ?b), to_hex (?b AND 0xf)]"
    have m1: "gdb_add m (to_hex (drop_bit 4 ?b)) = Ok ?m1" using True by (intro gdb_add_appended) simp
    have m2: "gdb_add ?m1 (to_hex (?b AND 0xf)) = Ok ?m2"
      using True by (simp add: gdb_add_appended appended_size appended_appended)
    have ne: "len \<noteq> 0" "len - 1 \<noteq> 0" "len - 1 < 0" using 1(3) by auto
    note ih = 1(1) [OF ne(1) refl m1 m2 ne(2) _ ne(3)] 1(2) [OF ne(1) refl m1 m2 ne(2) _ ne(3)]
    show ?thesis
      unfolding encode_loop.simps [of mem m data] Let_def gdb_add_two [OF True]
      using ne ih by auto
  next
    case False
    then show ?thesis using 1(3)
      unfolding encode_loop.simps [of mem m data] Let_def
      by (auto simp: gdb_add_def gm_size_def)
  qed
qed

subsection \<open>Properties\<close>

text \<open>
  C12.  A packet crosses the line.  The sender repeats it until it is acknowledged, up to ten more times; a
  receiver that first gets noise and packets with wrong checksums answers each of them with a
  minus, then takes the packet, answers with a plus, and has the text of the reply.
\<close>

theorem gdb_packet_round_trip:
  assumes "gm_used reply \<le> gm_size reply" "plain (gdb_text reply)" "gm_used reply \<le> gm_size command"
    and "length answers \<le> 10" "Some (ch CHR ''+'') \<notin> set answers"
    and "\<forall>(noise, body, cs) \<in> set bad. Some (ch CHR ''$'') \<notin> set noise \<and> plain body \<and>
      length body \<le> gm_size command \<and> cs \<noteq> sum_list body"
    and "Some (ch CHR ''$'') \<notin> set noise"
  shows "\<exists>pkt command'. gdb_send_reply reply (answers @ Some (ch CHR ''+'') # more_ins)
        = Ok (concat (replicate (Suc (length answers)) pkt), more_ins) \<and>
      gdb_get_command command (noisy bad @ noise @ map Some pkt @ more_ins')
        = Ok (command', replicate (length bad) (ch CHR ''-'') @ [ch CHR ''+''], more_ins') \<and>
      gdb_text command' = gdb_text reply"
proof -
  let ?body = "gdb_text reply" and ?rx = "\<lparr>rx_state = STATE_WAITING, rx_checksum = 0, rx_running = 0, rx_command = command\<rparr>"
  have len: "length ?body = gm_used reply" by (rule length_text [OF assms(1)])
  obtain rx where bad: "gdb_get_loop (noisy bad @ noise @ map Some (gdb_frame ?body) @ more_ins') ?rx []
      = gdb_get_loop (noise @ map Some (gdb_frame ?body) @ more_ins') rx (replicate (length bad) (ch CHR ''-''))"
    and rx: "rx_state rx = STATE_WAITING" "gm_size (rx_command rx) = gm_size command"
    using gdb_get_bad_packets [of ?rx bad "noise @ map Some (gdb_frame ?body) @ more_ins'" "[]"] assms(6) by auto
  let ?m = "(rx_command rx)\<lparr>gm_used := 0\<rparr>"
  have room: "length ?body \<le> gm_size (rx_command rx)" using len assms(3) rx(2) by simp
  have "gdb_get_command command (noisy bad @ noise @ map Some (gdb_frame ?body) @ more_ins')
      = Ok (appended ?m ?body, replicate (length bad) (ch CHR ''-'') @ [ch CHR ''+''], more_ins')"
    using bad gdb_get_noise [OF rx(1) assms(7)] gdb_get_packet [OF rx(1) assms(2) room, of "sum_list ?body"]
    by (simp add: gdb_get_command_def gdb_frame_packet)
  moreover have "gdb_text (appended ?m ?body) = ?body"
    using appended_text [of ?m ?body] room by (simp add: gm_size_def gdb_text_def)
  moreover have "gdb_send_reply reply (answers @ Some (ch CHR ''+'') # more_ins)
      = Ok (concat (replicate (Suc (length answers)) (gdb_frame ?body)), more_ins)"
    using gdb_send_loop_result [OF assms(4,5), of "gdb_frame ?body" more_ins "[]"] assms(1)
    by (simp add: gdb_send_reply_def gdb_text_def)
  ultimately show ?thesis by blast
qed

theorem gdb_packet_round_trip_witness:
  "let reply = \<lparr>gm_buf = str ''OK'' @ [7, 7], gm_used = 2\<rparr>; command = \<lparr>gm_buf = [9, 9, 9, 9], gm_used = 3\<rparr>;
     answers = [None, Some (ch CHR ''-'')]; bad = [([None], str ''qq'', 0)]
   in \<exists>pkt command'. gdb_send_reply reply (answers @ Some (ch CHR ''+'') # [])
        = Ok (concat (replicate (Suc (length answers)) pkt), []) \<and>
      gdb_get_command command (noisy bad @ [] @ map Some pkt @ [])
        = Ok (command', replicate (length bad) (ch CHR ''-'') @ [ch CHR ''+''], []) \<and>
      gdb_text command' = gdb_text reply"
  unfolding Let_def
  by (rule gdb_packet_round_trip)
    (simp_all add: gm_size_def plain_def gdb_text_def str_def ch_def)

text \<open>
  C11.  The commands on memory, found by their letters: \<open>M\<close> stores the bytes of the packet at the address
  and replies OK, leaving every other byte as it was, although memory is written in whole words
  and whatever the undefined shift yields; \<open>m\<close> on the same address and length then replies
  with the same hex text.
\<close>

theorem gdb_memory_commands:
  assumes c1: "gm_used c1 \<le> gm_size c1" "gm_size c1 < 2 ^ 31" "gdb_text c1 = str ''M'' @ write_args as ns bs"
    and c2: "gm_used c2 \<le> gm_size c2" "gdb_text c2 = str ''m'' @ read_args as ns" "0 < length ns"
    and digits: "digits_ok as" "digits_ok ns" "hex_number ns = word_of_nat (length bs)"
    and reply: "gm_used (gd_reply g) = 0" "2 < gm_size (gd_reply g)" "2 * length bs \<le> gm_size (gd_reply g)"
      "gm_size (gd_reply g) < 2 ^ 31"
  shows "\<exists>m mem'. gdb_dispatch sg (gdb_commands arch ub) c1 g = Ok (g\<lparr>gd_mem := mem', gd_reply := m\<rparr>) \<and>
      gdb_text m = str ''OK'' \<and>
      (\<forall>x. length bs \<le> unat (x - hex_number as) \<longrightarrow> mem' x = gd_mem g x) \<and>
      (\<exists>m'. gdb_dispatch sg (gdb_commands arch ub) c2 (g\<lparr>gd_mem := mem'\<rparr>) = Ok (g\<lparr>gd_mem := mem', gd_reply := m'\<rparr>) \<and>
        gdb_text m' = hex_bytes bs)"
proof -
  let ?mem = "overlay (gd_mem g) (hex_number as) bs" and ?g = "g\<lparr>gd_mem := overlay (gd_mem g) (hex_number as) bs\<rparr>"
  have one: "length (str ''M'') = 1" "length (str ''m'') = 1" by (simp_all add: str_def)
  obtain m where m: "gdb_write_memory ub c1 1 g = Ok (?g\<lparr>gd_reply := m\<rparr>)" "gdb_text m = gdb_text (gd_reply g) @ str ''OK''"
    using gdb_write_memory_result [OF c1 digits, of g ub] reply unfolding one by auto
  have read: "gdb_read_memory c2 1 ?g = Ok (?g\<lparr>gd_reply := appended (gd_reply g) (hex_bytes bs)\<rparr>)"
    using gdb_read_memory_result [OF c2 digits, of ?g] reply overlay_read [of bs "gd_mem g" "hex_number as"]
    unfolding one by simp
  have nil: "gdb_text (gd_reply g) = []" using reply(1) by (simp add: gdb_text_def)
  have "gdb_text (appended (gd_reply g) (hex_bytes bs)) = hex_bytes bs"
    using appended_text [of "gd_reply g" "hex_bytes bs"] reply nil by simp
  moreover have "gdb_dispatch sg (gdb_commands arch ub) c1 g = gdb_write_memory ub c1 1 g"
    using dispatch_memory [OF c1(3)] by simp
  moreover have "gdb_dispatch sg (gdb_commands arch ub) c2 ?g = gdb_read_memory c2 1 ?g"
    using dispatch_memory [OF c2(2)] by simp
  ultimately show ?thesis using m read nil overlay_outside by (intro exI [of _ m] exI [of _ ?mem]) auto
qed

theorem gdb_memory_commands_witness:
  "let c1 = \<lparr>gm_buf = str ''M10,2:41ff'' @ [0, 0], gm_used = 10\<rparr>; c2 = \<lparr>gm_buf = str ''m10,2'' @ [0, 0], gm_used = 5\<rparr>;
     g = \<lparr>gd_state = \<lparr>gs_signal = 5, gs_resumed = False, gs_connected = True\<rparr>, gd_mem = (\<lambda>_. 3),
          gd_reply = \<lparr>gm_buf = [0, 0, 0, 0, 0, 0], gm_used = 0\<rparr>\<rparr>;
     arch = \<lparr>ga_no_step = True, ga_encode_regs = Ok, ga_decode_regs = \<lambda>_ _. Ok ()\<rparr>
   in \<exists>m mem'. gdb_dispatch True (gdb_commands arch 0) c1 g = Ok (g\<lparr>gd_mem := mem', gd_reply := m\<rparr>) \<and>
      gdb_text m = str ''OK'' \<and>
      (\<forall>x. length [0x41, 0xff :: u8] \<le> unat (x - hex_number [1, 0]) \<longrightarrow> mem' x = gd_mem g x) \<and>
      (\<exists>m'. gdb_dispatch True (gdb_commands arch 0) c2 (g\<lparr>gd_mem := mem'\<rparr>) = Ok (g\<lparr>gd_mem := mem', gd_reply := m'\<rparr>) \<and>
        gdb_text m' = hex_bytes [0x41, 0xff])"
  unfolding Let_def
  by (rule gdb_memory_commands [where ns = "[2]"])
    (simp_all add: gm_size_def gdb_text_def str_def write_args_def read_args_def hex_digits_def hex_bytes_def
      to_hex_def digits_ok_def hex_number_def)

end
