(* ===== verification/Printf.thy ===== *)
theory Printf
  imports Str
begin

text \<open>
  Formatted output (\<^verbatim>\<open>base/libc/printf.c\<close>).  A \<open>printf_spec\<close> is its function \<open>write\<close> and the state
  that \<open>data\<close> points to: \<open>write\<close> takes the characters and the state, and returns the count or
  a negative number, and the new state.  The operations return what the C functions return; an
  overflow of an \<open>int\<close> is \<open>Fault Overflow\<close>.  The word of flags is the set of its bits.

  \<open>long\<close>, \<open>long long\<close> and pointers have 64 bits.  Reading an argument that is not there or has
  another width is undefined behaviour, \<open>Fault OutOfBounds\<close>.
\<close>

datatype printf_flag = PREFIX | SIGNED | ZEROPADDED | LEFTALIGNED | SHOWPLUS | SPACESIGN | BIGCHARS | NEGATIVE

datatype qualifier = QByte | QShort | QInt | QLong | QLongLong | QPointer

datatype va_arg = VaInt u32 | VaLong u64 | VaPtr u64 | VaStr "bytes option"

type_synonym 's writer = "bytes \<Rightarrow> 's \<Rightarrow> (int \<times> 's) res"

subsection \<open>Early returns\<close>

text \<open>\<open>if ((retval = r) < 0) return retval;\<close> and the rest of the function.\<close>

definition chain :: "(int \<times> 's) res \<Rightarrow> (int \<Rightarrow> 's \<Rightarrow> (int \<times> 's) res) \<Rightarrow> (int \<times> 's) res" where
  "chain r k = andthen r (\<lambda>(n, s). if n < 0 then Ok (n, s) else k n s)"

definition add_int :: "int \<Rightarrow> int \<Rightarrow> int res" where
  "add_int a b = (if - (2 ^ 31) \<le> a + b \<and> a + b < 2 ^ 31 then Ok (a + b) else Fault Overflow)"

text \<open>\<open>counter += retval\<close> after a call.\<close>

definition counted :: "int \<Rightarrow> (int \<times> 's) res \<Rightarrow> (int \<Rightarrow> 's \<Rightarrow> (int \<times> 's) res) \<Rightarrow> (int \<times> 's) res" where
  "counted counter r k = chain r (\<lambda>n s. andthen (add_int counter n) (\<lambda>counter. k counter s))"

lemma chain_cong [fundef_cong]:
  "r = r' \<Longrightarrow> (\<And>n s. r' = Ok (n, s) \<Longrightarrow> k n s = k' n s) \<Longrightarrow> chain r k = chain r' k'"
  by (cases r') (auto simp: chain_def)

lemma counted_cong [fundef_cong]:
  "c = c' \<Longrightarrow> r = r' \<Longrightarrow> (\<And>n s. k n s = k' n s) \<Longrightarrow> counted c r k = counted c' r' k'"
  by (auto simp: counted_def cong: chain_cong)

subsection \<open>Padding, characters and strings\<close>

definition PRINT_BUFFER_SIZE :: int where
  "PRINT_BUFFER_SIZE = 64 + 1 + 2 + 13"

function print_chunks :: "'s writer \<Rightarrow> int \<Rightarrow> int \<Rightarrow> 's \<Rightarrow> (int \<times> 's) res" where
  "print_chunks write count tmp s =
     (if PRINT_BUFFER_SIZE < tmp
      then chain (write (replicate (nat PRINT_BUFFER_SIZE) 32) s)
             (\<lambda>_ s. print_chunks write count (tmp - PRINT_BUFFER_SIZE) s)
      else chain (write (replicate (nat tmp) 32) s) (\<lambda>_ s. Ok (count, s)))"
  by pat_completeness auto
termination
  by (relation "measure (\<lambda>(_, _, tmp, _). nat tmp)") (auto simp: PRINT_BUFFER_SIZE_def)

declare print_chunks.simps [simp del]

definition print_spaces :: "'s writer \<Rightarrow> int \<Rightarrow> 's \<Rightarrow> (int \<times> 's) res" where
  "print_spaces write count s = (if count \<le> 0 then Ok (0, s) else print_chunks write count count s)"

definition print_char :: "'s writer \<Rightarrow> u8 \<Rightarrow> int \<Rightarrow> printf_flag set \<Rightarrow> 's \<Rightarrow> (int \<times> 's) res" where
  "print_char write c width flags s =
     counted 1 (if LEFTALIGNED \<notin> flags then print_spaces write (width - 1) s else Ok (0, s)) (\<lambda>counter s.
     chain (write [c] s) (\<lambda>_ s.
     counted counter (if LEFTALIGNED \<in> flags then print_spaces write (width - 1) s else Ok (0, s)) (\<lambda>counter s.
     Ok (counter, s))))"

text \<open>\<open>width\<close> is an \<open>int\<close> and \<open>precision\<close> unsigned: the difference is taken in 32 bits.\<close>

definition print_string :: "'s writer \<Rightarrow> bytes option \<Rightarrow> int \<Rightarrow> u32 \<Rightarrow> printf_flag set \<Rightarrow> 's \<Rightarrow> (int \<times> 's) res" where
  "print_string write p width precision flags s =
     (case p of
        None \<Rightarrow> write (str ''(NULL)'') s
      | Some cs \<Rightarrow>
          andthen (strlen (Some cs)) (\<lambda>n.
          let precision = (if precision = 0 then word_of_nat n else precision);
              width = sint (word_of_int width - precision) in
          counted 0 (if LEFTALIGNED \<notin> flags then print_spaces write width s else Ok (0, s)) (\<lambda>counter s.
          counted counter (write (take (min n (unat precision)) cs) s) (\<lambda>counter s.
          counted counter (if LEFTALIGNED \<in> flags then print_spaces write width s else Ok (0, s)) (\<lambda>counter s.
          Ok (counter, s))))))"

subsection \<open>Numbers\<close>

definition digits_small :: bytes where
  "digits_small = str ''0123456789abcdef''"

definition digits_big :: bytes where
  "digits_big = str ''0123456789ABCDEF''"

text \<open>The buffer is filled from its end: it is the list of the bytes from \<open>ptr\<close> on.\<close>

definition dpush :: "bytes \<Rightarrow> bytes \<Rightarrow> bytes res" where
  "dpush xs d = (if int (length xs + length d) \<le> PRINT_BUFFER_SIZE then Ok (xs @ d) else Fault OutOfBounds)"

function put_digits :: "bytes \<Rightarrow> u64 \<Rightarrow> u64 \<Rightarrow> bytes \<Rightarrow> bytes res" where
  "put_digits digits base num d =
     andthen (of_opt (rd digits (unat (num mod base)))) (\<lambda>c.
     andthen (dpush [c] d) (\<lambda>d.
     if num div base \<noteq> 0 then put_digits digits base (num div base) d else Ok d))"
  by pat_completeness auto
termination
  by (relation "measure (\<lambda>(_, _, _, d). nat PRINT_BUFFER_SIZE - length d)")
    (auto simp: dpush_def PRINT_BUFFER_SIZE_def split: if_splits)

declare put_digits.simps [simp del]

definition sign_char :: "printf_flag set \<Rightarrow> u8 option" where
  "sign_char flags =
     (if SIGNED \<in> flags
      then (if NEGATIVE \<in> flags then Some (ch CHR ''-'')
            else if SHOWPLUS \<in> flags then Some (ch CHR ''+'')
            else if SPACESIGN \<in> flags then Some (ch CHR '' '') else None)
      else None)"

definition prefix_size :: "printf_flag set \<Rightarrow> u64 \<Rightarrow> int" where
  "prefix_size flags base =
     (if PREFIX \<in> flags then (if base = 2 then 2 else if base = 8 then 1 else if base = 16 then 2 else 0) else 0)"

definition prefix_chars :: "printf_flag set \<Rightarrow> u64 \<Rightarrow> bytes" where
  "prefix_chars flags base =
     (if PREFIX \<in> flags
      then (if base = 2 then [ch CHR ''0'', if BIGCHARS \<in> flags then ch CHR ''B'' else ch CHR ''b'']
            else if base = 8 then [ch CHR ''0'']
            else if base = 16 then [ch CHR ''0'', if BIGCHARS \<in> flags then ch CHR ''X'' else ch CHR ''x''] else [])
      else [])"

text \<open>The buffer and \<open>size\<close> when the sign has been stored.\<close>

definition number_chars :: "u64 \<Rightarrow> int \<Rightarrow> int \<Rightarrow> u64 \<Rightarrow> printf_flag set \<Rightarrow> (bytes \<times> int) res" where
  "number_chars num width precision base flags =
     (let digits = (if BIGCHARS \<in> flags then digits_big else digits_small) in
      andthen (if num = 0 then dpush [ch CHR ''0''] [] else put_digits digits base num []) (\<lambda>d.
      let size = int (length d);
        flags = (if LEFTALIGNED \<in> flags \<or> precision \<noteq> 0 then flags - {ZEROPADDED} else flags);
        precision = precision - size;
        sgn = sign_char flags;
        size = size + (if sgn \<noteq> None then 1 else 0);
        size = size + prefix_size flags base;
        precision = (if ZEROPADDED \<in> flags then width - size else precision) in
      andthen (if 0 < precision
               then let precision = min precision (PRINT_BUFFER_SIZE - size) in
                 map_res (\<lambda>d. (d, size + precision)) (dpush (replicate (nat precision) (ch CHR ''0'')) d)
               else Ok (d, size)) (\<lambda>(d, size).
      andthen (dpush (prefix_chars flags base) d) (\<lambda>d.
      andthen (case sgn of None \<Rightarrow> Ok d | Some c \<Rightarrow> dpush [c] d) (\<lambda>d. Ok (d, size))))))"

definition print_number :: "'s writer \<Rightarrow> u64 \<Rightarrow> int \<Rightarrow> int \<Rightarrow> u64 \<Rightarrow> printf_flag set \<Rightarrow> 's \<Rightarrow> (int \<times> 's) res" where
  "print_number write num width precision base flags s =
     andthen (number_chars num width precision base flags) (\<lambda>(d, size).
      let width = width - size;
        fill = 0 < width \<and> LEFTALIGNED \<notin> flags;
        tmp = (if fill then min width (PRINT_BUFFER_SIZE - size) else 0) in
      andthen (dpush (replicate (nat tmp) 32) d) (\<lambda>d.
      let size = size + tmp in
      counted 0 (if fill then print_spaces write (width - tmp) s else Ok (0, s)) (\<lambda>counter s.
      counted counter (andthen (of_opt (slice d 0 (nat size))) (\<lambda>text. write text s)) (\<lambda>counter s.
      counted counter (if LEFTALIGNED \<in> flags then print_spaces write width s else Ok (0, s)) (\<lambda>counter s.
      Ok (counter, s))))))"

subsection \<open>Directives\<close>

fun va_int :: "va_arg list \<Rightarrow> (u32 \<times> va_arg list) res" where
  "va_int (VaInt w # args) = Ok (w, args)"
| "va_int _ = Fault OutOfBounds"

fun va_long :: "va_arg list \<Rightarrow> (u64 \<times> va_arg list) res" where
  "va_long (VaLong w # args) = Ok (w, args)"
| "va_long _ = Fault OutOfBounds"

fun va_ptr :: "va_arg list \<Rightarrow> (u64 \<times> va_arg list) res" where
  "va_ptr (VaPtr w # args) = Ok (w, args)"
| "va_ptr _ = Fault OutOfBounds"

fun va_str :: "va_arg list \<Rightarrow> (bytes option \<times> va_arg list) res" where
  "va_str (VaStr p # args) = Ok (p, args)"
| "va_str _ = Fault OutOfBounds"

text \<open>The format from the current character on; the flags begin behind the percent sign.\<close>

fun parse_flags :: "bytes \<Rightarrow> printf_flag set \<Rightarrow> (bytes \<times> printf_flag set) res" where
  "parse_flags [] flags = Fault OutOfBounds"
| "parse_flags (c # cs) flags =
     (if c = ch CHR ''#'' then parse_flags cs (insert PREFIX flags)
      else if c = ch CHR ''-'' then parse_flags cs (insert LEFTALIGNED flags)
      else if c = ch CHR ''+'' then parse_flags cs (insert SHOWPLUS flags)
      else if c = ch CHR '' '' then parse_flags cs (insert SPACESIGN flags)
      else if c = ch CHR ''0'' then parse_flags cs (insert ZEROPADDED flags)
      else Ok (c # cs, flags))"

fun parse_number :: "bool \<Rightarrow> bytes \<Rightarrow> int \<Rightarrow> (bytes \<times> int) res" where
  "parse_number sg [] n = Fault OutOfBounds"
| "parse_number sg (c # cs) n =
     (if isdigit (char_val sg c)
      then (if 2 ^ 31 \<le> n * 10 + (char_val sg c - 48) then Fault Overflow
            else parse_number sg cs (n * 10 + (char_val sg c - 48)))
      else Ok (c # cs, n))"

fun parse_width :: "bool \<Rightarrow> bytes \<Rightarrow> printf_flag set \<Rightarrow> va_arg list \<Rightarrow> (bytes \<times> int \<times> printf_flag set \<times> va_arg list) res" where
  "parse_width sg [] flags args = Fault OutOfBounds"
| "parse_width sg (c # cs) flags args =
     (if isdigit (char_val sg c) then map_res (\<lambda>(cs, n). (cs, n, flags, args)) (parse_number sg (c # cs) 0)
      else if c = ch CHR ''*''
      then andthen (va_int args) (\<lambda>(w, args).
        if sint w < 0
        then (if sint w = - (2 ^ 31) then Fault Overflow else Ok (cs, - sint w, insert LEFTALIGNED flags, args))
        else Ok (cs, sint w, flags, args))
      else Ok (c # cs, 0, flags, args))"

fun parse_precision :: "bool \<Rightarrow> bytes \<Rightarrow> va_arg list \<Rightarrow> (bytes \<times> int \<times> va_arg list) res" where
  "parse_precision sg [] args = Fault OutOfBounds"
| "parse_precision sg (c # cs) args =
     (if c = ch CHR ''.''
      then (case cs of [] \<Rightarrow> Fault OutOfBounds
            | c' # cs' \<Rightarrow>
                if isdigit (char_val sg c') then map_res (\<lambda>(cs, n). (cs, n, args)) (parse_number sg cs 0)
                else if c' = ch CHR ''*''
                then andthen (va_int args) (\<lambda>(w, args). Ok (cs', if sint w < 0 then 0 else sint w, args))
                else Ok (cs, 0, args))
      else Ok (c # cs, 0, args))"

definition doubled :: "char \<Rightarrow> bytes \<Rightarrow> qualifier \<Rightarrow> qualifier \<Rightarrow> (bytes \<times> qualifier) res" where
  "doubled c cs once twice =
     (case cs of [] \<Rightarrow> Fault OutOfBounds | c' # cs' \<Rightarrow> Ok (if c' = ch c then (cs', twice) else (cs, once)))"

fun parse_qualifier :: "bytes \<Rightarrow> (bytes \<times> qualifier) res" where
  "parse_qualifier [] = Fault OutOfBounds"
| "parse_qualifier (c # cs) =
     (if c = ch CHR ''h'' then doubled CHR ''h'' cs QShort QByte
      else if c = ch CHR ''z'' then Ok (cs, QLong)
      else if c = ch CHR ''l'' then doubled CHR ''l'' cs QLong QLongLong
      else Ok (c # cs, QInt))"

definition parse_directive ::
  "bool \<Rightarrow> bytes \<Rightarrow> va_arg list \<Rightarrow> (bytes \<times> printf_flag set \<times> int \<times> int \<times> qualifier \<times> va_arg list) res" where
  "parse_directive sg cs args =
     andthen (parse_flags cs {}) (\<lambda>(cs, flags).
     andthen (parse_width sg cs flags args) (\<lambda>(cs, width, flags, args).
     andthen (parse_precision sg cs args) (\<lambda>(cs, precision, args).
     andthen (parse_qualifier cs) (\<lambda>(cs, q).
     Ok (cs, flags, width, precision, q, args)))))"

text \<open>The conversions to a number: flags to set, the base, and whether it is a pointer.\<close>

definition int_conversion :: "u8 \<Rightarrow> (printf_flag set \<times> u64 \<times> bool) option" where
  "int_conversion c =
     (if c = ch CHR ''P'' then Some ({BIGCHARS, PREFIX}, 16, True)
      else if c = ch CHR ''p'' then Some ({PREFIX}, 16, True)
      else if c = ch CHR ''b'' then Some ({}, 2, False)
      else if c = ch CHR ''o'' then Some ({}, 8, False)
      else if c = ch CHR ''d'' \<or> c = ch CHR ''i'' then Some ({SIGNED}, 10, False)
      else if c = ch CHR ''u'' then Some ({}, 10, False)
      else if c = ch CHR ''X'' then Some ({BIGCHARS}, 16, False)
      else if c = ch CHR ''x'' then Some ({}, 16, False)
      else None)"

fun va_number :: "qualifier \<Rightarrow> va_arg list \<Rightarrow> (nat \<times> u64 \<times> va_arg list) res" where
  "va_number QByte args = map_res (\<lambda>(w, args). (1, ucast w, args)) (va_int args)"
| "va_number QShort args = map_res (\<lambda>(w, args). (2, ucast w, args)) (va_int args)"
| "va_number QInt args = map_res (\<lambda>(w, args). (4, ucast w, args)) (va_int args)"
| "va_number QLong args = map_res (\<lambda>(w, args). (8, w, args)) (va_long args)"
| "va_number QLongLong args = map_res (\<lambda>(w, args). (8, w, args)) (va_long args)"
| "va_number QPointer args = map_res (\<lambda>(w, args). (8, w, args)) (va_ptr args)"

text \<open>
  The magnitude of a negative number.  \<open>(int64_t) number\<close> is negated, which is undefined for the
  least one.
\<close>

definition take_sign :: "printf_flag set \<Rightarrow> nat \<Rightarrow> u64 \<Rightarrow> (printf_flag set \<times> u64) res" where
  "take_sign flags sz number =
     (if SIGNED \<in> flags \<and> bit number (sz * 8 - 1)
      then (if sz = 8
            then (if number = 0x8000000000000000 then Fault Overflow else Ok (insert NEGATIVE flags, - number))
            else Ok (insert NEGATIVE flags, (NOT number AND NOT (push_bit (sz * 8) (- 1))) + 1))
      else Ok (flags, number))"

text \<open>
  \<open>from\<close> is \<open>&fmt[j]\<close>, the first character not printed yet, and \<open>at\<close> is \<open>&fmt[i]\<close>.
\<close>

definition pending :: "bytes \<Rightarrow> bytes \<Rightarrow> bytes" where
  "pending from at = take (length from - length at) from"

definition flush_pending :: "'s writer \<Rightarrow> bytes \<Rightarrow> bytes \<Rightarrow> int \<Rightarrow> 's \<Rightarrow> (int \<Rightarrow> 's \<Rightarrow> (int \<times> 's) res) \<Rightarrow> (int \<times> 's) res" where
  "flush_pending write from at counter s k =
     (if length at < length from then counted counter (write (pending from at) s) k else k counter s)"

lemma flush_pending_cong [fundef_cong]:
  "write = write' \<Longrightarrow> from = from' \<Longrightarrow> at = at' \<Longrightarrow> c = c' \<Longrightarrow> s = s' \<Longrightarrow> (\<And>n s. k n s = k' n s) \<Longrightarrow>
    flush_pending write from at c s k = flush_pending write' from' at' c' s' k'"
  by (auto simp: flush_pending_def cong: counted_cong)

lemma parse_flags_length: "parse_flags cs fl = Ok (cs', fl') \<Longrightarrow> length cs' \<le> length cs"
  by (induction cs fl rule: parse_flags.induct) (auto split: if_splits)

lemma parse_number_length: "parse_number sg cs n = Ok (cs', n') \<Longrightarrow> length cs' \<le> length cs"
  by (induction sg cs n rule: parse_number.induct) (auto split: if_splits)

lemma parse_width_length: "parse_width sg cs fl args = Ok (cs', r) \<Longrightarrow> length cs' \<le> length cs"
  by (cases cs) (auto simp: map_res_Ok_iff andthen_Ok_iff dest: parse_number_length split: if_splits)

lemma parse_precision_length: "parse_precision sg cs args = Ok (cs', r) \<Longrightarrow> length cs' \<le> length cs"
  by (cases cs) (auto simp: map_res_Ok_iff andthen_Ok_iff dest!: parse_number_length split: if_splits list.splits)

lemma parse_qualifier_length: "parse_qualifier cs = Ok (cs', q) \<Longrightarrow> length cs' \<le> length cs"
  by (cases cs) (auto simp: doubled_def split: if_splits list.splits)

lemma parse_directive_length: "parse_directive sg cs args = Ok (cs', r) \<Longrightarrow> length cs' \<le> length cs"
  unfolding parse_directive_def
  by (auto simp: andthen_Ok_iff
    dest!: parse_flags_length parse_width_length parse_precision_length parse_qualifier_length)

function printf_loop :: "bool \<Rightarrow> 's writer \<Rightarrow> bytes \<Rightarrow> bytes \<Rightarrow> va_arg list \<Rightarrow> int \<Rightarrow> 's \<Rightarrow> (int \<times> 's) res" where
  "printf_loop sg write from [] args counter s = Fault OutOfBounds"
| "printf_loop sg write from (c # cs) args counter s =
     (if c = 0 then flush_pending write from (c # cs) counter s (\<lambda>counter s. Ok (counter, s))
      else if c \<noteq> ch CHR ''%'' then printf_loop sg write from cs args counter s
      else flush_pending write from (c # cs) counter s (\<lambda>counter s.
        andthen (parse_directive sg cs args) (\<lambda>(at, flags, width, precision, q, args).
        case at of
          [] \<Rightarrow> Fault OutOfBounds
        | c' # after \<Rightarrow>
            if c' = ch CHR ''s'' then
              andthen (va_str args) (\<lambda>(p, args).
              counted counter (print_string write p width (word_of_int precision) flags s) (\<lambda>counter s.
              printf_loop sg write after after args counter s))
            else if c' = ch CHR ''c'' then
              andthen (va_int args) (\<lambda>(w, args).
              counted counter (print_char write (ucast w) width flags s) (\<lambda>counter s.
              printf_loop sg write after after args counter s))
            else if c' = ch CHR ''%'' then printf_loop sg write at after args counter s
            else case int_conversion c' of
              None \<Rightarrow> printf_loop sg write (c # cs) after args counter s
            | Some (fl, base, pointer) \<Rightarrow>
                andthen (va_number (if pointer then QPointer else q) args) (\<lambda>(size, number, args).
                andthen (take_sign (flags \<union> fl) size number) (\<lambda>(flags, number).
                counted counter (print_number write number width precision base flags s) (\<lambda>counter s.
                printf_loop sg write after after args counter s))))))"
  by pat_completeness auto
termination
  by (relation "measure (\<lambda>(_, _, _, at, _). length at)") (auto dest!: parse_directive_length)

declare printf_loop.simps [simp del]

definition printf_core :: "bool \<Rightarrow> bytes \<Rightarrow> 's writer \<Rightarrow> va_arg list \<Rightarrow> 's \<Rightarrow> (int \<times> 's) res" where
  "printf_core sg fmt write args s = printf_loop sg write fmt fmt args 0 s"

subsection \<open>The functions of the library\<close>

record vsnprintf_data =
  vs_size :: u64
  vs_len :: u64
  vs_string :: bytes

definition vsn_store :: "bytes \<Rightarrow> nat \<Rightarrow> bytes \<Rightarrow> (bytes \<Rightarrow> 'a res) \<Rightarrow> 'a res" where
  "vsn_store string off xs k = andthen (of_opt (put string off xs)) k"

definition vsnprintf_write :: "vsnprintf_data writer" where
  "vsnprintf_write xs d =
     (let i = vs_size d - vs_len d; count = sint (word_of_nat (length xs) :: u32); last = unat (vs_size d - 1) in
      if i = 0 then Ok (count, d)
      else if i = 1 then
        vsn_store (vs_string d) last [0] (\<lambda>string. Ok (count, d\<lparr>vs_string := string, vs_len := vs_size d\<rparr>))
      else if i \<le> word_of_nat (length xs) then
        vsn_store (vs_string d) (unat (vs_len d)) (take (unat (i - 1)) xs) (\<lambda>string.
        vsn_store string last [0] (\<lambda>string. Ok (count, d\<lparr>vs_string := string, vs_len := vs_size d\<rparr>)))
      else
        vsn_store (vs_string d) (unat (vs_len d)) xs (\<lambda>string.
        let len = vs_len d + word_of_nat (length xs) in
        vsn_store string (unat len) [0] (\<lambda>string. Ok (count, d\<lparr>vs_string := string, vs_len := len\<rparr>))))"

definition vsnprintf :: "bool \<Rightarrow> bytes \<Rightarrow> u64 \<Rightarrow> bytes \<Rightarrow> va_arg list \<Rightarrow> (int \<times> bytes) res" where
  "vsnprintf sg string sz fmt args =
     andthen (if 0 < sz then of_opt (put string 0 [0]) else Ok string) (\<lambda>string.
     map_res (\<lambda>(n, d). (n, vs_string d))
       (printf_core sg fmt vsnprintf_write args \<lparr>vs_size = sz, vs_len = 0, vs_string = string\<rparr>))"

definition vsprintf :: "bool \<Rightarrow> bytes \<Rightarrow> bytes \<Rightarrow> va_arg list \<Rightarrow> (int \<times> bytes) res" where
  "vsprintf sg string fmt args = vsnprintf sg string (- 1) fmt args"

text \<open>The console is what has been written to it.\<close>

definition vprintf_write :: "bytes writer" where
  "vprintf_write xs console = Ok (sint (word_of_nat (length xs) :: u32), console @ xs)"

definition vprintf :: "bool \<Rightarrow> bytes \<Rightarrow> va_arg list \<Rightarrow> bytes \<Rightarrow> (int \<times> bytes) res" where
  "vprintf sg fmt args console = printf_core sg fmt vprintf_write args console"

text \<open>The functions with variable arguments collect them and call these.\<close>

definition snprintf :: "bool \<Rightarrow> bytes \<Rightarrow> u64 \<Rightarrow> bytes \<Rightarrow> va_arg list \<Rightarrow> (int \<times> bytes) res" where
  "snprintf sg string sz fmt args = vsnprintf sg string sz fmt args"

definition sprintf :: "bool \<Rightarrow> bytes \<Rightarrow> bytes \<Rightarrow> va_arg list \<Rightarrow> (int \<times> bytes) res" where
  "sprintf sg string fmt args = vsprintf sg string fmt args"

definition printf :: "bool \<Rightarrow> bytes \<Rightarrow> va_arg list \<Rightarrow> bytes \<Rightarrow> (int \<times> bytes) res" where
  "printf sg fmt args console = vprintf sg fmt args console"

end
