(* ===== verification/PrintfFormat.thy ===== *)
theory PrintfFormat
  imports Printf
begin

text \<open>
  The texts that formatted output prints, the language of formats, and the functions of
  \<^verbatim>\<open>base/libc/printf.c\<close> that only compute: digits, signs and prefixes in the buffer of
  \<open>print_number\<close>, and the parsing of directives.
\<close>

subsection \<open>The texts\<close>

definition justify :: "printf_flag set \<Rightarrow> int \<Rightarrow> bytes \<Rightarrow> bytes" where
  "justify flags width text =
     (let pad = replicate (nat (width - int (length text))) 32
      in if LEFTALIGNED \<in> flags then text @ pad else pad @ text)"

text \<open>A string is padded by what its precision leaves, even where the string is shorter.\<close>

definition string_text :: "bytes option \<Rightarrow> int \<Rightarrow> nat \<Rightarrow> printf_flag set \<Rightarrow> bytes" where
  "string_text p width precision flags =
     (case p of
        None \<Rightarrow> str ''(NULL)''
      | Some s \<Rightarrow>
          let n = (if precision = 0 then length s else precision); pad = replicate (nat (width - int n)) 32
          in if LEFTALIGNED \<in> flags then take n s @ pad else pad @ take n s)"

fun digits_of :: "nat \<Rightarrow> nat \<Rightarrow> nat list" where
  "digits_of base n = (if base < 2 \<or> n < base then [n] else digits_of base (n div base) @ [n mod base])"

declare digits_of.simps [simp del]

definition lead_chars :: "printf_flag set \<Rightarrow> u64 \<Rightarrow> bytes" where
  "lead_chars flags base = (case sign_char flags of None \<Rightarrow> [] | Some c \<Rightarrow> [c]) @ prefix_chars flags base"

definition digit_chars :: "printf_flag set \<Rightarrow> nat list \<Rightarrow> bytes" where
  "digit_chars flags ds = map (\<lambda>k. (if BIGCHARS \<in> flags then digits_big else digits_small) ! k) ds"

definition number_body :: "u64 \<Rightarrow> int \<Rightarrow> int \<Rightarrow> u64 \<Rightarrow> printf_flag set \<Rightarrow> bytes" where
  "number_body num width precision base flags =
     (let ds = digit_chars flags (digits_of (unat base) (unat num)); lead = lead_chars flags base;
        used = int (length lead + length ds);
        zeros = (if ZEROPADDED \<in> flags \<and> LEFTALIGNED \<notin> flags \<and> precision = 0 then width - used
                 else precision - int (length ds))
      in lead @ replicate (nat (min zeros (PRINT_BUFFER_SIZE - used))) (ch CHR ''0'') @ ds)"

definition number_text :: "u64 \<Rightarrow> int \<Rightarrow> int \<Rightarrow> u64 \<Rightarrow> printf_flag set \<Rightarrow> bytes" where
  "number_text num width precision base flags = justify flags width (number_body num width precision base flags)"

subsection \<open>Digits\<close>

lemma digits_of_nonempty [simp]: "digits_of b n \<noteq> []"
  by (subst digits_of.simps) simp

lemma digits_of_less: "2 \<le> b \<Longrightarrow> d \<in> set (digits_of b n) \<Longrightarrow> d < b"
proof (induction b n rule: digits_of.induct)
  case (1 b n)
  then show ?case
    unfolding digits_of.simps [of b n] by (auto split: if_splits)
qed

lemma length_digits_of: "2 \<le> b \<Longrightarrow> n < b ^ Suc k \<Longrightarrow> length (digits_of b n) \<le> Suc k"
proof (induction k arbitrary: n)
  case 0
  then show ?case by (subst digits_of.simps) simp
next
  case (Suc k)
  show ?case
  proof (cases "n < b")
    case True
    then show ?thesis by (subst digits_of.simps) simp
  next
    case False
    have "n div b < b ^ Suc k" using Suc.prems by (simp add: less_mult_imp_div_less mult.commute)
    then have "length (digits_of b (n div b)) \<le> Suc k" by (rule Suc.IH [OF Suc.prems(1)])
    then show ?thesis using False Suc.prems(1) by (subst digits_of.simps) simp
  qed
qed

lemma length_digits_64: "2 \<le> b \<Longrightarrow> length (digits_of b (unat (num :: u64))) \<le> 64"
proof -
  assume b: "2 \<le> b"
  have "unat num < 2 ^ Suc 63" using unat_u64_less [of num] by simp
  also have "\<dots> \<le> b ^ Suc 63" by (rule power_mono [OF b]) simp
  finally show ?thesis using length_digits_of [OF b, of "unat num" 63] by simp
qed

lemma length_digit_chars [simp]: "length (digit_chars flags ds) = length ds"
  by (simp add: digit_chars_def)

lemma digits_tables: "length digits_small = 16" "length digits_big = 16"
  by (simp_all add: digits_small_def digits_big_def str_def)

lemma put_digits_result:
  assumes "2 \<le> unat base" "unat base \<le> length digits"
    "length (digits_of (unat base) (unat num)) + length d \<le> 80"
  shows "put_digits digits base num d = Ok (map (\<lambda>k. digits ! k) (digits_of (unat base) (unat num)) @ d)"
  using assms
proof (induction digits base num d rule: put_digits.induct)
  case (1 digits base num d)
  let ?b = "unat base" and ?n = "unat num"
  have m: "unat (num mod base) = ?n mod ?b" and q: "unat (num div base) = ?n div ?b"
    by (simp_all add: unat_mod unat_div)
  have lt: "?n mod ?b < length digits" using 1(2,3) using mod_less_divisor [of ?b ?n] by linarith
  have rd: "of_opt (rd digits (unat (num mod base))) = Ok (digits ! (?n mod ?b))" using lt by (simp add: rd_def m)
  show ?case
  proof (cases "?n < ?b")
    case True
    then have "num div base = 0" by (metis div_less q unat_eq_zero)
    then show ?thesis using True 1(4) rd lt
      unfolding put_digits.simps [of digits base num d] digits_of.simps [of ?b ?n]
      by (simp add: dpush_def PRINT_BUFFER_SIZE_def)
  next
    case False
    have ds: "digits_of ?b ?n = digits_of ?b (?n div ?b) @ [?n mod ?b]"
      using False 1(2) by (subst digits_of.simps) simp
    have "?n div ?b \<noteq> 0" using False 1(2) by (simp add: div_eq_0_iff)
    then have ne: "num div base \<noteq> 0" using q by (metis unsigned_0)
    have push: "dpush [digits ! (?n mod ?b)] d = Ok (digits ! (?n mod ?b) # d)"
      using 1(4) ds by (simp add: dpush_def PRINT_BUFFER_SIZE_def)
    have "put_digits digits base (num div base) (digits ! (?n mod ?b) # d)
        = Ok (map (\<lambda>k. digits ! k) (digits_of ?b (unat (num div base))) @ digits ! (?n mod ?b) # d)"
      by (rule 1(1) [OF rd push ne]) (use 1(2-4) ds q in auto)
    then show ?thesis
      unfolding put_digits.simps [of digits base num d] rd using push ne ds q by simp
  qed
qed

lemma length_prefix_chars: "int (length (prefix_chars flags base)) = prefix_size flags base"
  by (simp add: prefix_chars_def prefix_size_def)

lemma length_lead: "int (length (lead_chars flags base)) = (if sign_char flags \<noteq> None then 1 else 0) + prefix_size flags base"
  by (auto simp: lead_chars_def length_prefix_chars split: option.split)

lemma length_lead_le: "length (lead_chars flags base) \<le> 3"
  by (auto simp: lead_chars_def prefix_chars_def split: option.split)

text \<open>The flag that is cleared does not matter for the sign and the prefix.\<close>

lemma lead_zeropadded [simp]: "lead_chars (flags - {ZEROPADDED}) base = lead_chars flags base"
  "digit_chars (flags - {ZEROPADDED}) ds = digit_chars flags ds"
  by (simp_all add: lead_chars_def sign_char_def prefix_chars_def digit_chars_def)

lemma number_digits:
  assumes "2 \<le> unat base" "unat base \<le> 16"
  shows "(if num = 0 then dpush [ch CHR ''0''] []
      else put_digits (if BIGCHARS \<in> flags then digits_big else digits_small) base num [])
    = Ok (digit_chars flags (digits_of (unat base) (unat num)))"
proof (cases "num = 0")
  case True
  have "digits_of (unat base) 0 = [0]" using assms(1) by (subst digits_of.simps) simp
  with True show ?thesis
    by (simp add: dpush_def PRINT_BUFFER_SIZE_def digit_chars_def digits_small_def digits_big_def str_def ch_def)
next
  case False
  have "length (digits_of (unat base) (unat num)) + length ([] :: bytes) \<le> 80"
    using length_digits_64 [OF assms(1), of num] by simp
  from put_digits_result [OF assms(1) _ this] show ?thesis
    using False assms(2) by (simp add: digits_tables digit_chars_def)
qed

lemma dpush_ok: "length xs + length d \<le> 80 \<Longrightarrow> dpush xs d = Ok (xs @ d)"
  by (simp add: dpush_def PRINT_BUFFER_SIZE_def)

lemma length_number_body:
  assumes "2 \<le> unat base"
  shows "length (number_body num width precision base flags) \<le> 80"
  using length_digits_64 [OF assms, of num] length_lead_le [of flags base]
  by (simp add: number_body_def Let_def PRINT_BUFFER_SIZE_def)

lemma number_chars_result:
  assumes "2 \<le> unat base" "unat base \<le> 16"
  shows "number_chars num width precision base flags =
    Ok (number_body num width precision base flags, int (length (number_body num width precision base flags)))"
proof -
  let ?ds = "digit_chars flags (digits_of (unat base) (unat num))" and ?lead = "lead_chars flags base"
  let ?flags = "if LEFTALIGNED \<in> flags \<or> precision \<noteq> 0 then flags - {ZEROPADDED} else flags"
  let ?used = "int (length ?ds) + (if sign_char ?flags \<noteq> None then 1 else 0) + prefix_size ?flags base"
  have lead: "lead_chars ?flags base = ?lead" by simp
  have used: "?used = int (length ?lead + length ?ds)"
    using length_lead [of ?flags base] unfolding lead by simp
  have b: "length ?ds \<le> 64" "length ?lead \<le> 3"
    using length_digits_64 [OF assms(1), of num] length_lead_le [of flags base] by simp_all
  let ?z = "if ZEROPADDED \<in> ?flags then width - ?used else precision - int (length ?ds)"
  have z: "?z = (if ZEROPADDED \<in> flags \<and> LEFTALIGNED \<notin> flags \<and> precision = 0 then width - ?used
      else precision - int (length ?ds))" by simp
  let ?n = "min ?z (PRINT_BUFFER_SIZE - ?used)"
  let ?zeros = "replicate (nat ?n) (ch CHR ''0'')"
  have body: "number_body num width precision base flags = ?lead @ ?zeros @ ?ds"
    unfolding number_body_def Let_def used z by simp
  have n: "nat ?n + length ?lead + length ?ds \<le> 80"
    using b used by (simp add: PRINT_BUFFER_SIZE_def)
  have zeros: "(if 0 < ?z then map_res (\<lambda>d. (d, ?used + ?n)) (dpush ?zeros ?ds) else Ok (?ds, ?used))
      = Ok (?zeros @ ?ds, int (length ?lead + length (?zeros @ ?ds)))"
  proof (cases "0 < ?z")
    case True
    have "dpush ?zeros ?ds = Ok (?zeros @ ?ds)" by (rule dpush_ok) (use n in simp)
    moreover have "0 \<le> ?n" using True b used by (simp add: PRINT_BUFFER_SIZE_def)
    then have "?used + ?n = int (length ?lead + length (?zeros @ ?ds))" unfolding used by simp
    ultimately show ?thesis using True by (simp only: if_True map_res.simps)
  next
    case False
    then have "nat ?n = 0" by linarith
    then show ?thesis using False used by (simp only: if_False) simp
  qed
  have "andthen (dpush (prefix_chars ?flags base) d) (\<lambda>d. andthen (case sign_char ?flags of None \<Rightarrow> Ok d | Some c \<Rightarrow> dpush [c] d) (\<lambda>d. Ok (d, i)))
      = Ok (?lead @ d, i)" if "length ?lead + length d \<le> 80" for d and i :: int
    using that unfolding lead [symmetric] by (auto simp: lead_chars_def dpush_ok split: option.splits)
  then show ?thesis
    unfolding number_chars_def Let_def number_digits [OF assms] andthen.simps zeros prod.case body
    using n by (simp add: add.assoc)
qed

lemma sint_u32_of_int: "- (2 ^ 31) \<le> k \<Longrightarrow> k < 2 ^ 31 \<Longrightarrow> sint (word_of_int k :: u32) = k"
  by (simp add: signed_of_int signed_take_bit_int_eq_self)

subsection \<open>Formats\<close>

text \<open>
  The language of format strings, as the comment of \<open>printf_core\<close> describes it, and what each item of
  a format prints.  The value of a numeric item is the number the caller means.
\<close>

datatype amount = NoAmount | Const nat | FromArg int

record directive =
  dir_flags :: bytes
  dir_width :: amount
  dir_precision :: amount

datatype item = Text bytes | Percent
  | Char_item directive u8
  | Str_item directive "bytes option"
  | Num_item directive qualifier u8 int

definition flag_chars :: bytes where
  "flag_chars = str ''#-+ 0''"

definition flag_of :: "u8 \<Rightarrow> printf_flag" where
  "flag_of c = (if c = ch CHR ''#'' then PREFIX else if c = ch CHR ''-'' then LEFTALIGNED
     else if c = ch CHR ''+'' then SHOWPLUS else if c = ch CHR '' '' then SPACESIGN else ZEROPADDED)"

definition decimal :: "nat \<Rightarrow> bytes" where
  "decimal n = map dec_char (digits_of 10 n)"

fun amount_text :: "amount \<Rightarrow> bytes" where
  "amount_text NoAmount = []"
| "amount_text (Const n) = decimal n"
| "amount_text (FromArg v) = [ch CHR ''*'']"

fun amount_args :: "amount \<Rightarrow> va_arg list" where
  "amount_args (FromArg v) = [VaInt (word_of_int v)]"
| "amount_args _ = []"

fun amount_value :: "amount \<Rightarrow> int" where
  "amount_value NoAmount = 0"
| "amount_value (Const n) = int n"
| "amount_value (FromArg v) = v"

definition precision_text :: "amount \<Rightarrow> bytes" where
  "precision_text a = (if a = NoAmount then [] else ch CHR ''.'' # amount_text a)"

definition directive_text :: "directive \<Rightarrow> bytes" where
  "directive_text d = dir_flags d @ amount_text (dir_width d) @ precision_text (dir_precision d)"

definition directive_args :: "directive \<Rightarrow> va_arg list" where
  "directive_args d = amount_args (dir_width d) @ amount_args (dir_precision d)"

definition directive_flags :: "directive \<Rightarrow> printf_flag set" where
  "directive_flags d = flag_of ` set (dir_flags d) \<union> (if amount_value (dir_width d) < 0 then {LEFTALIGNED} else {})"

definition directive_width :: "directive \<Rightarrow> int" where
  "directive_width d = \<bar>amount_value (dir_width d)\<bar>"

definition directive_precision :: "directive \<Rightarrow> int" where
  "directive_precision d = max 0 (amount_value (dir_precision d))"

definition directive_ok :: "directive \<Rightarrow> bool" where
  "directive_ok d \<longleftrightarrow> set (dir_flags d) \<subseteq> set flag_chars \<and> dir_width d \<noteq> Const 0 \<and>
     \<bar>amount_value (dir_width d)\<bar> < 2147483648 \<and> \<bar>amount_value (dir_precision d)\<bar> < 2147483648"

fun qualifier_text :: "qualifier \<Rightarrow> bytes" where
  "qualifier_text QByte = str ''hh''"
| "qualifier_text QShort = str ''h''"
| "qualifier_text QLong = str ''l''"
| "qualifier_text QLongLong = str ''ll''"
| "qualifier_text _ = []"

fun qualifier_bits :: "qualifier \<Rightarrow> nat" where
  "qualifier_bits QByte = 8"
| "qualifier_bits QShort = 16"
| "qualifier_bits QInt = 32"
| "qualifier_bits _ = 64"

fun number_arg :: "qualifier \<Rightarrow> int \<Rightarrow> va_arg" where
  "number_arg QLong x = VaLong (word_of_int x)"
| "number_arg QLongLong x = VaLong (word_of_int x)"
| "number_arg QPointer x = VaPtr (word_of_int x)"
| "number_arg _ x = VaInt (word_of_int x)"

text \<open>A signed number is in the range of its type, without the least number of 64 bits.\<close>

definition number_ok :: "qualifier \<Rightarrow> u8 \<Rightarrow> int \<Rightarrow> bool" where
  "number_ok q c x \<longleftrightarrow>
     (case int_conversion c of None \<Rightarrow> False
      | Some (fl, base, pointer) \<Rightarrow> (pointer \<longleftrightarrow> q = QPointer) \<and>
          (if SIGNED \<in> fl
           then - (2 ^ (qualifier_bits q - 1)) \<le> x \<and> x < 2 ^ (qualifier_bits q - 1) \<and> x \<noteq> - (2 ^ 63)
           else 0 \<le> x \<and> x < 2 ^ qualifier_bits q))"

fun item_ok :: "item \<Rightarrow> bool" where
  "item_ok (Text t) = (0 \<notin> set t \<and> ch CHR ''%'' \<notin> set t)"
| "item_ok Percent = True"
| "item_ok (Char_item d c) = directive_ok d"
| "item_ok (Str_item d p) = (directive_ok d \<and>
     (case p of None \<Rightarrow> True | Some cs \<Rightarrow> (\<exists>t. cstr cs = Some t \<and> length t < 2147483648)))"
| "item_ok (Num_item d q c x) = (directive_ok d \<and> number_ok q c x)"

fun item_text :: "item \<Rightarrow> bytes" where
  "item_text (Text t) = t"
| "item_text Percent = str ''%%''"
| "item_text (Char_item d c) = ch CHR ''%'' # directive_text d @ str ''c''"
| "item_text (Str_item d p) = ch CHR ''%'' # directive_text d @ str ''s''"
| "item_text (Num_item d q c x) = ch CHR ''%'' # directive_text d @ qualifier_text q @ [c]"

fun item_args :: "item \<Rightarrow> va_arg list" where
  "item_args (Char_item d c) = directive_args d @ [VaInt (ucast c)]"
| "item_args (Str_item d p) = directive_args d @ [VaStr p]"
| "item_args (Num_item d q c x) = directive_args d @ [number_arg q x]"
| "item_args _ = []"

definition int_text :: "u8 \<Rightarrow> int \<Rightarrow> int \<Rightarrow> int \<Rightarrow> printf_flag set \<Rightarrow> bytes" where
  "int_text c x width precision flags =
     (case int_conversion c of None \<Rightarrow> []
      | Some (fl, base, pointer) \<Rightarrow>
          number_text (word_of_int \<bar>x\<bar>) width precision base (flags \<union> fl \<union> (if x < 0 then {NEGATIVE} else {})))"

fun item_output :: "item \<Rightarrow> bytes" where
  "item_output (Text t) = t"
| "item_output Percent = str ''%''"
| "item_output (Char_item d c) = justify (directive_flags d) (directive_width d) [c]"
| "item_output (Str_item d p) =
     string_text (map_option (\<lambda>cs. the (cstr cs)) p) (directive_width d) (nat (directive_precision d)) (directive_flags d)"
| "item_output (Num_item d q c x) = int_text c x (directive_width d) (directive_precision d) (directive_flags d)"

definition format_text :: "item list \<Rightarrow> bytes" where
  "format_text items = concat (map item_text items)"

definition format_args :: "item list \<Rightarrow> va_arg list" where
  "format_args items = concat (map item_args items)"

definition format_output :: "item list \<Rightarrow> bytes" where
  "format_output items = concat (map item_output items)"

subsection \<open>Parsing\<close>

lemma dec_value_append: "dec_value v (ds @ [d]) = dec_value v ds * 10 + d"
  by (induction ds arbitrary: v) auto

lemma dec_value_digits: "dec_value 0 (digits_of 10 n) = n"
proof (induction n rule: less_induct)
  case (less n)
  then show ?case by (subst digits_of.simps) (auto simp: dec_value_append)
qed

lemma dec_value_ge: "v \<le> dec_value v ds"
proof (induction ds arbitrary: v)
  case Nil
  then show ?case by simp
next
  case (Cons d ds)
  have "v * 10 + d \<le> dec_value (v * 10 + d) ds" by (rule Cons)
  then show ?case by simp
qed

lemma parse_number_decimal:
  assumes "\<forall>d \<in> set ds. d < 10" "\<not> isdigit (char_val sg c)" "dec_value v ds < 2147483648"
  shows "parse_number sg (map dec_char ds @ c # r) (int v) = Ok (c # r, int (dec_value v ds))"
  using assms(1,3)
proof (induction ds arbitrary: v)
  case Nil
  then show ?case using assms(2) by simp
next
  case (Cons d ds)
  then have d: "d < 10" "isdigit (char_val sg (dec_char d))" by (simp_all add: char_val_dec isdigit_def)
  have "v * 10 + d < 2147483648" using dec_value_ge [of "v * 10 + d" ds] Cons.prems(2) by simp
  then show ?case using Cons.IH [of "v * 10 + d"] Cons.prems d by (simp add: char_val_dec)
qed

lemma parse_decimal:
  assumes "n < 2147483648" "\<not> isdigit (char_val sg c)"
  shows "parse_number sg (decimal n @ c # r) 0 = Ok (c # r, int n)"
  using parse_number_decimal [of "digits_of 10 n" sg c 0 r] digits_of_less [of 10 _ n] assms
  by (simp add: decimal_def dec_value_digits)

text \<open>The first digit is not a zero.\<close>

lemma hd_digits_of: "2 \<le> b \<Longrightarrow> 0 < n \<Longrightarrow> 0 < hd (digits_of b n)"
proof (induction b n rule: digits_of.induct)
  case (1 b n)
  show ?case
  proof (cases "n < b")
    case True
    then show ?thesis using 1 by (subst digits_of.simps) simp
  next
    case False
    then have "0 < n div b" using 1(2) by (simp add: div_greater_zero_iff)
    then have "0 < hd (digits_of b (n div b))" using 1 False by simp
    then show ?thesis using False 1(2) by (subst digits_of.simps) (simp add: hd_append)
  qed
qed

lemma decimal_Cons: "0 < n \<Longrightarrow> \<exists>d ds. decimal n = dec_char d # ds \<and> 0 < d \<and> d < 10"
  using hd_digits_of [of 10 n] digits_of_less [of 10 "hd (digits_of 10 n)" n]
  by (cases "digits_of 10 n") (auto simp: decimal_def)

lemma decimal_Cons0: "\<exists>d ds. decimal n = dec_char d # ds \<and> d < 10"
  using digits_of_less [of 10 "hd (digits_of 10 n)" n]
  by (cases "digits_of 10 n") (auto simp: decimal_def)

lemma parse_flags_text:
  assumes "set fs \<subseteq> set flag_chars" "c \<notin> set flag_chars"
  shows "parse_flags (fs @ c # r) fl = Ok (c # r, fl \<union> flag_of ` set fs)"
  using assms(1)
proof (induction fs arbitrary: fl)
  case Nil
  then show ?case using assms(2) by (auto simp: flag_chars_def str_def ch_def)
next
  case (Cons f fs)
  then show ?case by (auto simp: flag_chars_def str_def ch_def flag_of_def)
qed

text \<open>A character that can follow the precision.\<close>

definition plain_char :: "u8 \<Rightarrow> bool" where
  "plain_char c \<longleftrightarrow> c \<in> set (str ''hlscdiuxXobpP%'')"

lemma plain_char:
  assumes "plain_char c"
  shows "\<not> isdigit (char_val sg c)" "c \<notin> set flag_chars" "c \<noteq> ch CHR ''*''" "c \<noteq> ch CHR ''.''"
  using assms by (cases sg; auto simp: plain_char_def str_def isdigit_def char_val_def flag_chars_def ch_def)+

lemma star_dot: "\<not> isdigit (char_val sg (ch CHR ''*''))" "\<not> isdigit (char_val sg (ch CHR ''.''))"
  "ch CHR ''*'' \<notin> set flag_chars" "ch CHR ''.'' \<notin> set flag_chars" "ch CHR ''.'' \<noteq> ch CHR ''*''"
  by (cases sg; auto simp: str_def isdigit_def char_val_def flag_chars_def ch_def)+

lemma digit_char: "d < 10 \<Longrightarrow> isdigit (char_val sg (dec_char d))"
  by (simp add: char_val_dec isdigit_def)

lemma digit_not_flag: "0 < d \<Longrightarrow> d < 10 \<Longrightarrow> dec_char d \<notin> set flag_chars"
proof -
  assume "0 < d" "d < 10"
  then have "d \<in> set [1..<10]" by simp
  moreover have "list_all (\<lambda>d. dec_char d \<notin> set flag_chars) [1..<10]"
    by (simp add: upt_rec dec_char_def flag_chars_def str_def)
  ultimately show ?thesis by (auto simp: list_all_iff)
qed

lemma parse_width_text:
  assumes "\<bar>amount_value a\<bar> < 2147483648" "\<not> isdigit (char_val sg c)" "c \<noteq> ch CHR ''*''"
  shows "parse_width sg (amount_text a @ c # r) fl (amount_args a @ args)
    = Ok (c # r, \<bar>amount_value a\<bar>, fl \<union> (if amount_value a < 0 then {LEFTALIGNED} else {}), args)"
proof (cases a)
  case NoAmount
  then show ?thesis using assms by simp
next
  case (Const n)
  obtain d ds where "decimal n = dec_char d # ds" "d < 10" using decimal_Cons0 by blast
  then show ?thesis using parse_decimal [of n sg c r] assms Const by (simp add: digit_char)
next
  case (FromArg v)
  then have "sint (word_of_int v :: u32) = v" using assms(1) by (intro sint_u32_of_int) auto
  then show ?thesis using assms FromArg star_dot(1) [of sg] by auto
qed

lemma parse_precision_text:
  assumes "\<bar>amount_value a\<bar> < 2147483648" "\<not> isdigit (char_val sg c)" "c \<noteq> ch CHR ''.''"
  shows "parse_precision sg (precision_text a @ c # r) (amount_args a @ args) = Ok (c # r, max 0 (amount_value a), args)"
proof (cases a)
  case NoAmount
  then show ?thesis using assms by (simp add: precision_text_def)
next
  case (Const n)
  obtain d ds where "decimal n = dec_char d # ds" "d < 10" using decimal_Cons0 by blast
  then show ?thesis using parse_decimal [of n sg c r] assms Const by (simp add: digit_char precision_text_def)
next
  case (FromArg v)
  then have "sint (word_of_int v :: u32) = v" using assms(1) by (intro sint_u32_of_int) auto
  then show ?thesis using assms FromArg star_dot(1) [of sg] by (auto simp: precision_text_def)
qed

lemma parse_qualifier_text:
  assumes "c \<in> set (str ''scdiuxXobpP%'')"
  shows "parse_qualifier (qualifier_text q @ c # r) = Ok (c # r, if q = QPointer then QInt else q)"
  using assms by (cases q) (auto simp: str_def ch_def doubled_def)

text \<open>The first character of each part of a directive.\<close>

lemma amount_text_head:
  assumes "\<not> isdigit (char_val sg c)" "c \<notin> set flag_chars" "a \<noteq> Const 0"
  obtains c' r' where "amount_text a @ c # r = c' # r'" "c' \<notin> set flag_chars"
proof (cases a)
  case (Const n)
  with assms(3) obtain d ds where "decimal n = dec_char d # ds" "0 < d" "d < 10" using decimal_Cons [of n] by auto
  then show ?thesis using that [of "dec_char d" "ds @ c # r"] Const digit_not_flag by simp
qed (use assms(2) star_dot(3) that in auto)

lemma parse_directive_text:
  assumes "directive_ok d" "c \<in> set (str ''scdiuxXobpP%'')"
  shows "parse_directive sg (directive_text d @ qualifier_text q @ c # r) (directive_args d @ args) =
    Ok (c # r, directive_flags d, directive_width d, directive_precision d, if q = QPointer then QInt else q, args)"
proof -
  have ok: "set (dir_flags d) \<subseteq> set flag_chars" "dir_width d \<noteq> Const 0"
    "\<bar>amount_value (dir_width d)\<bar> < 2147483648" "\<bar>amount_value (dir_precision d)\<bar> < 2147483648"
    using assms(1) by (auto simp: directive_ok_def)
  obtain c2 r2 where t2: "qualifier_text q @ c # r = c2 # r2" "plain_char c2"
    using assms(2) by (cases q) (auto simp: plain_char_def str_def)
  have p2: "\<not> isdigit (char_val sg c2)" "c2 \<notin> set flag_chars" "c2 \<noteq> ch CHR ''*''" "c2 \<noteq> ch CHR ''.''"
    using plain_char [OF t2(2)] by auto
  obtain c1 r1 where t1: "precision_text (dir_precision d) @ c2 # r2 = c1 # r1" "c1 = c2 \<or> c1 = ch CHR ''.''"
    by (cases "dir_precision d = NoAmount") (auto simp: precision_text_def)
  then have p1: "\<not> isdigit (char_val sg c1)" "c1 \<notin> set flag_chars" "c1 \<noteq> ch CHR ''*''"
    using p2 star_dot by auto
  obtain c0 r0 where t0: "amount_text (dir_width d) @ c1 # r1 = c0 # r0" "c0 \<notin> set flag_chars"
    using amount_text_head [OF p1(1,2) ok(2)] by blast
  have s: "directive_text d @ qualifier_text q @ c # r = dir_flags d @ c0 # r0"
    by (simp add: directive_text_def t2(1) t1(1) t0(1))
  have f: "parse_flags (dir_flags d @ c0 # r0) {} = Ok (c0 # r0, flag_of ` set (dir_flags d))"
    using parse_flags_text [OF ok(1) t0(2), of r0 "{}"] by simp
  have w: "parse_width sg (c0 # r0) (flag_of ` set (dir_flags d)) (directive_args d @ args)
      = Ok (c1 # r1, directive_width d, directive_flags d, amount_args (dir_precision d) @ args)"
    using parse_width_text [OF ok(3) p1(1,3), of r1 "flag_of ` set (dir_flags d)" "amount_args (dir_precision d) @ args"]
    by (simp add: t0(1) directive_args_def directive_width_def directive_flags_def)
  have p: "parse_precision sg (c1 # r1) (amount_args (dir_precision d) @ args) = Ok (c2 # r2, directive_precision d, args)"
    using parse_precision_text [OF ok(4) p2(1,4), of r2 args] by (simp add: t1(1) directive_precision_def)
  have qu: "parse_qualifier (c2 # r2) = Ok (c # r, if q = QPointer then QInt else q)"
    using parse_qualifier_text [OF assms(2), of q r] by (simp add: t2(1))
  show ?thesis unfolding s parse_directive_def f by (simp add: w p qu del: parse_qualifier.simps parse_precision.simps parse_width.simps)
qed

lemma conversions: "int_conversion c = Some (fl, base, pointer) \<Longrightarrow>
    c \<in> set (str ''diuxXobpP'') \<and> 2 \<le> unat base \<and> unat base \<le> 16 \<and> NEGATIVE \<notin> fl"
  by (auto simp: int_conversion_def str_def ch_def split: if_splits)

subsection \<open>Arguments\<close>

lemma va_number_arg: "va_number q (number_arg q x # args) =
    Ok (qualifier_bits q div 8, if qualifier_bits q = 64 then word_of_int x else ucast (word_of_int x :: u32), args)"
  by (cases q) auto

text \<open>The bit of the sign of a number in the range of its width.\<close>

lemma sign_bit:
  assumes "0 < k" "k \<le> 32" "- (2 ^ (k - 1)) \<le> x" "x < 2 ^ (k - 1)"
  shows "bit (ucast (word_of_int x :: u32) :: u64) (k - 1) \<longleftrightarrow> x < 0"
proof -
  have b: "bit (ucast (word_of_int x :: u32) :: u64) (k - 1) \<longleftrightarrow> bit x (k - 1)"
  proof -
    have "k - 1 < 32" using assms(1,2) by simp
    then show ?thesis by (auto simp: bit_simps)
  qed
  have k: "k = Suc (k - 1)" using assms(1) by simp
  have "signed_take_bit (k - 1) x = x" using assms(3,4) by (simp add: signed_take_bit_int_eq_self)
  then have "bit x (k - 1) \<longleftrightarrow> x < 0"
    by (metis bit_imp_take_bit_positive bit_signed_take_bit_iff min.idem signed_take_bit_nonnegative_iff not_less take_bit_nonnegative)
  with b show ?thesis by simp
qed

lemma sign_bit_64: "- (2 ^ 63) \<le> x \<Longrightarrow> x < 2 ^ 63 \<Longrightarrow> bit (word_of_int x :: u64) 63 \<longleftrightarrow> x < 0"
proof -
  assume "- (2 ^ 63) \<le> x" "x < 2 ^ 63"
  then have "sint (word_of_int x :: u64) = x" by (simp add: signed_of_int signed_take_bit_int_eq_self)
  then show ?thesis using bit_last_iff [of "word_of_int x :: u64"] by simp
qed

text \<open>The complement within the width, and one.\<close>

lemma negate_masked:
  assumes "k \<le> 32" "0 < k" "x < 0" "- (2 ^ (k - 1)) \<le> x"
  shows "(NOT (ucast (word_of_int x :: u32)) AND NOT (push_bit k (- 1))) + 1 = (word_of_int (- x) :: u64)"
proof -
  have "NOT (ucast (word_of_int x :: u32)) AND NOT (push_bit k (- 1)) = (take_bit k (word_of_int (NOT x)) :: u64)"
    using assms(1) by (intro bit_word_eqI) (auto simp: bit_simps)
  also have "take_bit k (word_of_int (NOT x)) = (word_of_int (take_bit k (NOT x)) :: u64)"
    by (rule take_bit_of_int)
  also have "take_bit k (NOT x) = NOT x"
  proof (rule take_bit_int_eq_self)
    show "0 \<le> NOT x" using assms(3) by (simp add: not_int_def)
    have "(2 :: int) ^ (k - 1) \<le> 2 ^ k" by (rule power_increasing) simp_all
    then show "NOT x < 2 ^ k" using assms(4) unfolding not_int_def by linarith
  qed
  finally show ?thesis by (simp add: not_int_def)
qed

lemma qualifier_bits_cases: "qualifier_bits q = 64 \<or> qualifier_bits q \<le> 32 \<and> 0 < qualifier_bits q"
  "qualifier_bits q div 8 * 8 = qualifier_bits q"
  by (cases q; simp)+

lemma take_sign_result:
  assumes "SIGNED \<in> flags" "- (2 ^ (qualifier_bits q - 1)) \<le> x" "x < 2 ^ (qualifier_bits q - 1)" "x \<noteq> - (2 ^ 63)"
    and nonneg: "0 \<le> x \<Longrightarrow> NEGATIVE \<notin> flags"
  shows "take_sign flags (qualifier_bits q div 8) (if qualifier_bits q = 64 then word_of_int x else ucast (word_of_int x :: u32))
    = Ok (flags \<union> (if x < 0 then {NEGATIVE} else {}), word_of_int \<bar>x\<bar>)"
proof (cases "qualifier_bits q = 64")
  case True
  have r: "- (2 ^ 63) \<le> x" "x < 2 ^ 63" using assms(2,3) True by simp_all
  have "word_of_int x \<noteq> (0x8000000000000000 :: u64)" if "x < 0"
  proof
    assume "word_of_int x = (0x8000000000000000 :: u64)"
    then have "sint (word_of_int x :: u64) = sint (0x8000000000000000 :: u64)" by simp
    then show False using r assms(4) by (simp add: signed_of_int signed_take_bit_int_eq_self)
  qed
  then show ?thesis using True sign_bit_64 [OF r] assms(1) by (auto simp: take_sign_def)
next
  case False
  let ?k = "qualifier_bits q"
  have k: "?k \<le> 32" "0 < ?k" "?k div 8 * 8 = ?k" "?k div 8 \<noteq> 8"
    using False qualifier_bits_cases [of q] by auto
  have b: "bit (ucast (word_of_int x :: u32) :: u64) (?k - 1) \<longleftrightarrow> x < 0"
    by (rule sign_bit [OF k(2,1) assms(2,3)])
  show ?thesis
  proof (cases "x < 0")
    case True
    then show ?thesis using False assms(1) b k negate_masked [OF k(1,2) True assms(2)]
      by (simp add: take_sign_def)
  next
    case nn: False
    have "(2 :: int) ^ (?k - 1) \<le> 2 ^ 31" by (rule power_increasing) (use k in auto)
    then have "x < 2 ^ 31" using assms(3) by linarith
    then have "ucast (word_of_int x :: u32) = (word_of_int x :: u64)"
      using nn by (simp add: unsigned_of_int take_bit_int_eq_self)
    then show ?thesis using nn False assms(1) b k by (simp add: take_sign_def)
  qed
qed

lemma ucast_byte: "ucast (ucast (c :: u8) :: u32) = c"
  by (rule bit_word_eqI) (auto simp: bit_simps)

lemma directive_precision_word:
  assumes "directive_ok d"
  shows "unat (word_of_int (directive_precision d) :: u32) = nat (directive_precision d)"
    "nat (directive_precision d) < 2147483648"
proof -
  have b: "0 \<le> directive_precision d" "directive_precision d < 2147483648"
    using assms by (auto simp: directive_ok_def directive_precision_def)
  then have "word_of_int (directive_precision d) = (word_of_nat (nat (directive_precision d)) :: u32)" by simp
  then show "unat (word_of_int (directive_precision d) :: u32) = nat (directive_precision d)"
    using b by (simp only: unat_u32_of_nat)
  show "nat (directive_precision d) < 2147483648" using b by linarith
qed

text \<open>The number and the flags a numeric item leads to.\<close>

lemma number_result:
  assumes "number_ok q c x" "int_conversion c = Some (fl, base, pointer)"
    "NEGATIVE \<notin> flags" "SIGNED \<notin> flags"
  shows "(if pointer then QPointer else if q = QPointer then QInt else q) = q"
    and "take_sign (flags \<union> fl) (qualifier_bits q div 8)
        (if qualifier_bits q = 64 then word_of_int x else ucast (word_of_int x :: u32))
      = Ok (flags \<union> fl \<union> (if x < 0 then {NEGATIVE} else {}), word_of_int \<bar>x\<bar>)"
proof -
  show "(if pointer then QPointer else if q = QPointer then QInt else q) = q"
    using assms(1,2) by (auto simp: number_ok_def)
  show "take_sign (flags \<union> fl) (qualifier_bits q div 8)
        (if qualifier_bits q = 64 then word_of_int x else ucast (word_of_int x :: u32))
      = Ok (flags \<union> fl \<union> (if x < 0 then {NEGATIVE} else {}), word_of_int \<bar>x\<bar>)"
  proof (cases "SIGNED \<in> fl")
    case True
    have n: "NEGATIVE \<notin> flags \<union> fl" using conversions [OF assms(2)] assms(3) by simp
    show ?thesis
      by (rule take_sign_result) (use True assms(1,2) n in \<open>auto simp: number_ok_def\<close>)
  next
    case False
    have r: "0 \<le> x" "x < 2 ^ qualifier_bits q" using False assms(1,2) by (auto simp: number_ok_def)
    have "ucast (word_of_int x :: u32) = (word_of_int x :: u64)" if "qualifier_bits q \<noteq> 64"
    proof -
      have "(2 :: int) ^ qualifier_bits q \<le> 2 ^ 32" by (rule power_increasing) (use qualifier_bits_cases(1) [of q] that in auto)
      then have "x < 2 ^ 32" using r(2) by linarith
      then show ?thesis using r(1) by (simp add: unsigned_of_int take_bit_int_eq_self)
    qed
    then show ?thesis using False r assms(4) by (auto simp: take_sign_def)
  qed
qed

lemma directive_flags_parsed: "directive_ok d \<Longrightarrow> NEGATIVE \<notin> directive_flags d \<and> SIGNED \<notin> directive_flags d"
  by (auto simp: directive_flags_def flag_of_def)

subsection \<open>Reading numbers back\<close>

lemma plain_number:
  assumes "2 \<le> unat base"
  shows "number_text num 0 0 base flags = lead_chars flags base @ digit_chars flags (digits_of (unat base) (unat num))"
proof -
  have "0 < length (digits_of (unat base) (unat num))" by simp
  then show ?thesis by (simp add: number_text_def number_body_def justify_def Let_def PRINT_BUFFER_SIZE_def min_le_iff_disj)
qed

definition digits_value :: "nat \<Rightarrow> nat \<Rightarrow> nat list \<Rightarrow> nat" where
  "digits_value b v ds = foldl (\<lambda>v d. v * b + d) v ds"

lemma digits_value_of: "2 \<le> b \<Longrightarrow> digits_value b 0 (digits_of b n) = n"
proof (induction n rule: less_induct)
  case (less n)
  then show ?case by (subst digits_of.simps) (auto simp: digits_value_def)
qed

lemma small_digit_char:
  assumes "k < b" "b = 10 \<or> b = 16"
  shows "valid_digit (char_val sg (digits_small ! k)) (int b) \<and> digit_offset (char_val sg (digits_small ! k)) = int k \<and>
    digits_small ! k \<noteq> 0 \<and> digits_small ! k \<noteq> 120 \<and> digits_small ! k \<noteq> 88 \<and> \<not> isspace (char_val sg (digits_small ! k))"
proof -
  let ?P = "\<lambda>b k. valid_digit (char_val sg (digits_small ! k)) (int b) \<and> digit_offset (char_val sg (digits_small ! k)) = int k \<and>
    digits_small ! k \<noteq> 0 \<and> digits_small ! k \<noteq> 120 \<and> digits_small ! k \<noteq> 88 \<and> \<not> isspace (char_val sg (digits_small ! k))"
  have "list_all (?P 10) [0..<10]"
    by (cases sg) (simp_all add: upt_rec digits_small_def str_def char_val_def valid_digit_def digit_offset_def isspace_def tolower_def)
  moreover have "list_all (?P 16) [0..<16]"
    by (cases sg) (simp_all add: upt_rec digits_small_def str_def char_val_def valid_digit_def digit_offset_def isspace_def tolower_def)
  ultimately show ?thesis using assms by (auto simp: list_all_iff)
qed

lemma digits_loop_small:
  assumes "\<forall>d \<in> set ds. d < b" "b = 10 \<or> b = 16"
  shows "digits_loop sg (int b) (\<lambda>acc. u64_step acc (int b)) (map ((!) digits_small) ds @ 0 # rest) i (of_nat v) =
    Ok (of_nat (digits_value b v ds), i + length ds)"
  using assms(1)
proof (induction ds arbitrary: i v)
  case Nil
  then show ?case by (simp add: digits_value_def)
next
  case (Cons d ds)
  note dc = small_digit_char [of d b sg]
  have "u64_step (of_nat v) (int b) (int d) = Ok (of_nat (v * b + d))"
    by (simp add: u64_step_def)
  then show ?case using Cons.IH [of "Suc i" "v * b + d"] Cons.prems dc assms(2) by (simp add: digits_value_def)
qed

lemma strtoull_digits:
  assumes "ds \<noteq> []" "\<forall>d \<in> set ds. d < b" "b = 10 \<or> b = 16"
  shows "strtoull sg (map ((!) digits_small) ds @ 0 # rest) (int b) = Ok (of_nat (digits_value b 0 ds), length ds)"
    and "strtoull sg (48 # 120 # map ((!) digits_small) ds @ 0 # rest) 16 = Ok (of_nat (digits_value 16 0 ds), length ds + 2) \<or> b \<noteq> 16"
    and "strtoull sg (48 # 120 # map ((!) digits_small) ds @ 0 # rest) 0 = Ok (of_nat (digits_value 16 0 ds), length ds + 2) \<or> b \<noteq> 16"
proof -
  obtain d ds' where ds: "ds = d # ds'" "d < b" using assms(1,2) by (cases ds) auto
  note dc = small_digit_char [OF ds(2) assms(3), of sg]
  have x: "has_0x (map ((!) digits_small) ds @ 0 # rest) = Ok False"
  proof (cases ds')
    case Nil
    then show ?thesis using ds dc by simp
  next
    case (Cons d' ds'')
    then have "d' < b" using assms(2) ds by simp
    then show ?thesis using small_digit_char [OF _ assms(3), of d' sg] ds Cons dc by simp
  qed
  show "strtoull sg (map ((!) digits_small) ds @ 0 # rest) (int b) = Ok (of_nat (digits_value b 0 ds), length ds)"
    using digits_loop_small [OF assms(2,3), of sg rest 0 0] x dc ds assms(3)
    by (auto simp: strtoull_def parse_digits_def auto_base_def skip_0x_def simp del: has_0x.simps digits_loop.simps)
  have sp: "\<not> isspace (char_val sg 48)" by (cases sg) (simp_all add: char_val_def isspace_def)
  show "strtoull sg (48 # 120 # map ((!) digits_small) ds @ 0 # rest) 16 = Ok (of_nat (digits_value 16 0 ds), length ds + 2) \<or> b \<noteq> 16"
    using digits_loop_small [OF assms(2,3), of sg rest "Suc (Suc 0)" 0] dc ds sp
    by (auto simp: strtoull_def parse_digits_def auto_base_def skip_0x_def simp del: digits_loop.simps)
  show "strtoull sg (48 # 120 # map ((!) digits_small) ds @ 0 # rest) 0 = Ok (of_nat (digits_value 16 0 ds), length ds + 2) \<or> b \<noteq> 16"
    using digits_loop_small [OF assms(2,3), of sg rest "Suc (Suc 0)" 0] dc ds sp
    by (auto simp: strtoull_def parse_digits_def auto_base_def skip_0x_def simp del: digits_loop.simps)
qed

end
