(* ===== verification/PrintfDoc.thy ===== *)
theory PrintfDoc
  imports PrintfFormat
begin

text \<open>
  What a format prints by the comment of \<open>printf_core\<close> in \<^verbatim>\<open>base/libc/printf.c\<close>, written without the code, and
  the formats on which the code keeps to it.
\<close>

subsection \<open>The documentation\<close>

text \<open>WIDTH is the minimal width; a negative one from the arguments sets the flag \<open>-\<close>.\<close>

definition doc_width :: "directive \<Rightarrow> nat" where
  "doc_width d = nat \<bar>amount_value (dir_width d)\<bar>"

definition doc_left :: "directive \<Rightarrow> bool" where
  "doc_left d \<longleftrightarrow> ch CHR ''-'' \<in> set (dir_flags d) \<or> amount_value (dir_width d) < 0"

definition widened :: "directive \<Rightarrow> bytes \<Rightarrow> bytes" where
  "widened d text =
     (let pad = replicate (doc_width d - length text) (ch CHR '' '') in if doc_left d then text @ pad else pad @ text)"

text \<open>PRECISION, if there is one.\<close>

definition doc_precision :: "directive \<Rightarrow> nat option" where
  "doc_precision d = (if dir_precision d = NoAmount then None else Some (nat (amount_value (dir_precision d))))"

text \<open>The base, the prefix and the letters of a conversion; a pointer always has its prefix.\<close>

definition doc_conversion :: "u8 \<Rightarrow> nat \<times> bytes \<times> char" where
  "doc_conversion c =
     (if c = ch CHR ''b'' then (2, str ''0b'', CHR ''a'')
      else if c = ch CHR ''o'' then (8, str ''0'', CHR ''a'')
      else if c = ch CHR ''x'' \<or> c = ch CHR ''p'' then (16, str ''0x'', CHR ''a'')
      else if c = ch CHR ''X'' \<or> c = ch CHR ''P'' then (16, str ''0X'', CHR ''A'')
      else (10, [], CHR ''a''))"

definition doc_sign :: "directive \<Rightarrow> u8 \<Rightarrow> int \<Rightarrow> bytes" where
  "doc_sign d c x =
     (if c \<notin> {ch CHR ''d'', ch CHR ''i''} then []
      else if x < 0 then str ''-''
      else if ch CHR ''+'' \<in> set (dir_flags d) then str ''+''
      else if ch CHR '' '' \<in> set (dir_flags d) then str '' '' else [])"

definition doc_number :: "directive \<Rightarrow> u8 \<Rightarrow> int \<Rightarrow> bytes" where
  "doc_number d c x =
     (case doc_conversion c of (base, pre, a) \<Rightarrow>
       let digit = (\<lambda>k. if k < 10 then ch CHR ''0'' + of_nat k else ch a + of_nat (k - 10));
           digits = map digit (digits_of base (nat \<bar>x\<bar>));
           lead = doc_sign d c x @ (if ch CHR ''#'' \<in> set (dir_flags d) \<or> c \<in> {ch CHR ''p'', ch CHR ''P''} then pre else []);
           zeros = (\<lambda>n. replicate n (ch CHR ''0''))
       in case doc_precision d of
            Some n \<Rightarrow> widened d (lead @ zeros (n - length digits) @ digits)
          | None \<Rightarrow>
              if ch CHR ''0'' \<in> set (dir_flags d) \<and> \<not> doc_left d
              then lead @ zeros (doc_width d - length (lead @ digits)) @ digits
              else widened d (lead @ digits))"

fun documented_output :: "item \<Rightarrow> bytes" where
  "documented_output (Text t) = t"
| "documented_output Percent = str ''%''"
| "documented_output (Char_item d c) = widened d [c]"
| "documented_output (Str_item d None) = widened d (str ''(NULL)'')"
| "documented_output (Str_item d (Some cs)) =
     widened d (case doc_precision d of None \<Rightarrow> the (cstr cs) | Some n \<Rightarrow> take n (the (cstr cs)))"
| "documented_output (Num_item d q c x) = doc_number d c x"

text \<open>
  The code keeps to this with four exceptions.  A precision of 0 is none.  A string that is shorter than its
  precision is padded as if it had that many characters.  \<open>(NULL)\<close> is not padded.  The zeros in front of a number
  must fit in a buffer of 80 characters with its digits, sign and prefix.
\<close>

fun as_documented :: "item \<Rightarrow> bool" where
  "as_documented (Str_item d None) \<longleftrightarrow> doc_width d \<le> 6"
| "as_documented (Str_item d (Some cs)) \<longleftrightarrow>
     (case doc_precision d of None \<Rightarrow> True
      | Some n \<Rightarrow> 0 < n \<and> (n \<le> length (the (cstr cs)) \<or> doc_width d \<le> length (the (cstr cs))))"
| "as_documented (Num_item d q c x) \<longleftrightarrow>
     (case doc_precision d of Some n \<Rightarrow> 0 < n \<and> n \<le> 77
      | None \<Rightarrow> ch CHR ''0'' \<in> set (dir_flags d) \<and> \<not> doc_left d \<longrightarrow> doc_width d \<le> 80)"
| "as_documented _ = True"

subsection \<open>The code prints what is documented\<close>

lemma flag_of_iff:
  assumes "set cs \<subseteq> set flag_chars"
  shows "PREFIX \<in> flag_of ` set cs \<longleftrightarrow> ch CHR ''#'' \<in> set cs" "LEFTALIGNED \<in> flag_of ` set cs \<longleftrightarrow> ch CHR ''-'' \<in> set cs"
    "SHOWPLUS \<in> flag_of ` set cs \<longleftrightarrow> ch CHR ''+'' \<in> set cs" "SPACESIGN \<in> flag_of ` set cs \<longleftrightarrow> ch CHR '' '' \<in> set cs"
    "ZEROPADDED \<in> flag_of ` set cs \<longleftrightarrow> ch CHR ''0'' \<in> set cs"
    "SIGNED \<notin> flag_of ` set cs" "NEGATIVE \<notin> flag_of ` set cs" "BIGCHARS \<notin> flag_of ` set cs"
  using assms by (auto simp: flag_of_def flag_chars_def str_def ch_def image_iff split: if_splits)

lemma directive_flags_iff:
  assumes "directive_ok d"
  shows "PREFIX \<in> directive_flags d \<longleftrightarrow> ch CHR ''#'' \<in> set (dir_flags d)"
    "LEFTALIGNED \<in> directive_flags d \<longleftrightarrow> doc_left d"
    "SHOWPLUS \<in> directive_flags d \<longleftrightarrow> ch CHR ''+'' \<in> set (dir_flags d)"
    "SPACESIGN \<in> directive_flags d \<longleftrightarrow> ch CHR '' '' \<in> set (dir_flags d)"
    "ZEROPADDED \<in> directive_flags d \<longleftrightarrow> ch CHR ''0'' \<in> set (dir_flags d)"
    "SIGNED \<notin> directive_flags d" "NEGATIVE \<notin> directive_flags d" "BIGCHARS \<notin> directive_flags d"
  using flag_of_iff [of "dir_flags d"] assms by (auto simp: directive_ok_def directive_flags_def doc_left_def)

lemma directive_width_eq: "directive_width d = int (doc_width d)"
  by (simp add: directive_width_def doc_width_def)

lemma justify_widened:
  assumes "directive_ok d"
  shows "justify (directive_flags d) (directive_width d) text = widened d text"
proof -
  have "nat (int (doc_width d) - int (length text)) = doc_width d - length text" by simp
  then show ?thesis
    by (simp add: justify_def widened_def directive_width_eq directive_flags_iff [OF assms] Let_def ch_def)
qed

lemma string_text_documented:
  assumes "directive_ok d" "as_documented (Str_item d (Some cs))"
  shows "string_text (Some (the (cstr cs))) (directive_width d) (nat (directive_precision d)) (directive_flags d) =
    documented_output (Str_item d (Some cs))"
proof -
  define t where "t = the (cstr cs)"
  define n where "n = (case doc_precision d of None \<Rightarrow> length t | Some n \<Rightarrow> n)"
  have n: "(if nat (directive_precision d) = 0 then length t else nat (directive_precision d)) = n"
    using assms(2) by (auto simp: n_def doc_precision_def directive_precision_def t_def)
  have out: "documented_output (Str_item d (Some cs)) = widened d (take n t)"
    by (auto simp: n_def t_def split: option.split)
  have "nat (int (doc_width d) - int n) = doc_width d - length (take n t)"
    using assms(2) by (auto simp: n_def t_def split: option.splits)
  then show ?thesis
    unfolding out t_def [symmetric] string_text_def option.case Let_def n directive_width_eq directive_flags_iff(2) [OF assms(1)]
    by (simp add: widened_def ch_def)
qed

lemma digit_documented:
  assumes "k < 16"
  shows "digits_small ! k = (if k < 10 then ch CHR ''0'' + of_nat k else ch CHR ''a'' + of_nat (k - 10))"
    "digits_big ! k = (if k < 10 then ch CHR ''0'' + of_nat k else ch CHR ''A'' + of_nat (k - 10))"
proof -
  have "k = 0 \<or> k = 1 \<or> k = 2 \<or> k = 3 \<or> k = 4 \<or> k = 5 \<or> k = 6 \<or> k = 7 \<or> k = 8 \<or> k = 9 \<or> k = 10 \<or>
      k = 11 \<or> k = 12 \<or> k = 13 \<or> k = 14 \<or> k = 15" using assms by presburger
  then show "digits_small ! k = (if k < 10 then ch CHR ''0'' + of_nat k else ch CHR ''a'' + of_nat (k - 10))"
    "digits_big ! k = (if k < 10 then ch CHR ''0'' + of_nat k else ch CHR ''A'' + of_nat (k - 10))"
    by (elim disjE; simp add: digits_small_def digits_big_def str_def ch_def)+
qed

lemma conversion_documented:
  assumes "int_conversion c = Some (fl, base, pointer)" "doc_conversion c = (b, pre, a)"
  shows "unat base = b" "2 \<le> b" "b \<le> 16" "SIGNED \<in> fl \<longleftrightarrow> c \<in> {ch CHR ''d'', ch CHR ''i''}"
    "PREFIX \<in> fl \<longleftrightarrow> c \<in> {ch CHR ''p'', ch CHR ''P''}" "ch a = (if BIGCHARS \<in> fl then ch CHR ''A'' else ch CHR ''a'')"
    "fl \<subseteq> {SIGNED, PREFIX, BIGCHARS}"
    "PREFIX \<in> flags \<Longrightarrow> (BIGCHARS \<in> flags \<longleftrightarrow> BIGCHARS \<in> fl) \<Longrightarrow> prefix_chars flags base = pre"
  using assms by (auto simp: int_conversion_def doc_conversion_def prefix_chars_def str_def ch_def split: if_splits)

text \<open>The sign and the prefix, and the digits.\<close>

lemma lead_documented:
  assumes d: "directive_ok d" and c: "int_conversion c = Some (fl, base, pointer)" "doc_conversion c = (b, pre, a)"
    and flags: "flags = directive_flags d \<union> fl \<union> (if x < 0 then {NEGATIVE} else {})"
  shows "lead_chars flags base =
    doc_sign d c x @ (if ch CHR ''#'' \<in> set (dir_flags d) \<or> c \<in> {ch CHR ''p'', ch CHR ''P''} then pre else [])"
proof -
  note conv = conversion_documented [OF c]
  have sub: "NEGATIVE \<notin> fl" "SHOWPLUS \<notin> fl" "SPACESIGN \<notin> fl" using conv(7) by auto
  have mem: "SIGNED \<in> flags \<longleftrightarrow> c \<in> {ch CHR ''d'', ch CHR ''i''}" "NEGATIVE \<in> flags \<longleftrightarrow> x < 0"
    "SHOWPLUS \<in> flags \<longleftrightarrow> ch CHR ''+'' \<in> set (dir_flags d)" "SPACESIGN \<in> flags \<longleftrightarrow> ch CHR '' '' \<in> set (dir_flags d)"
    "PREFIX \<in> flags \<longleftrightarrow> ch CHR ''#'' \<in> set (dir_flags d) \<or> c \<in> {ch CHR ''p'', ch CHR ''P''}" "BIGCHARS \<in> flags \<longleftrightarrow> BIGCHARS \<in> fl"
    using sub conv(4,5) by (simp_all add: flags directive_flags_iff [OF d])
  have "(case sign_char flags of None \<Rightarrow> [] | Some c \<Rightarrow> [c]) = doc_sign d c x"
    by (simp add: sign_char_def doc_sign_def mem str_def ch_def)
  moreover have "prefix_chars flags base =
      (if ch CHR ''#'' \<in> set (dir_flags d) \<or> c \<in> {ch CHR ''p'', ch CHR ''P''} then pre else [])"
    using conv(8) [of flags] mem(5,6) by (auto simp: prefix_chars_def)
  ultimately show ?thesis by (simp add: lead_chars_def)
qed

lemma digits_documented:
  assumes c: "int_conversion c = Some (fl, base, pointer)" "doc_conversion c = (b, pre, a)"
    and "BIGCHARS \<in> flags \<longleftrightarrow> BIGCHARS \<in> fl"
  shows "digit_chars flags (digits_of b n) =
    map (\<lambda>k. if k < 10 then ch CHR ''0'' + of_nat k else ch a + of_nat (k - 10)) (digits_of b n)"
proof -
  note conv = conversion_documented [OF c]
  have "k < 16" if "k \<in> set (digits_of b n)" for k
    using digits_of_less [OF conv(2) that] conv(3) by simp
  then show ?thesis using digit_documented assms(3) by (auto simp: digit_chars_def conv(6))
qed

lemma int_text_documented:
  assumes d: "directive_ok d" and q: "number_ok q c x" and doc: "as_documented (Num_item d q c x)"
  shows "int_text c x (directive_width d) (directive_precision d) (directive_flags d) = doc_number d c x"
proof -
  obtain fl base pointer where c1: "int_conversion c = Some (fl, base, pointer)"
    using q by (auto simp: number_ok_def split: option.splits)
  obtain b pre a where c2: "doc_conversion c = (b, pre, a)" by (metis prod_cases3)
  note conv = conversion_documented [OF c1 c2]
  define flags where "flags = directive_flags d \<union> fl \<union> (if x < 0 then {NEGATIVE} else {})"
  define lead where "lead = doc_sign d c x @ (if ch CHR ''#'' \<in> set (dir_flags d) \<or> c \<in> {ch CHR ''p'', ch CHR ''P''} then pre else [])"
  define ds where "ds = map (\<lambda>k. if k < 10 then ch CHR ''0'' + of_nat k else ch a + of_nat (k - 10)) (digits_of b (nat \<bar>x\<bar>))"
  have abs: "unat (word_of_int \<bar>x\<bar> :: u64) = nat \<bar>x\<bar>"
  proof -
    have "\<bar>x\<bar> < 2 ^ 64"
    proof -
      have "2 ^ (qualifier_bits q - 1) \<le> (2 :: int) ^ 63" "2 ^ qualifier_bits q \<le> (2 :: int) ^ 64"
        by (cases q; simp)+
      then show ?thesis using q c1 unfolding number_ok_def by (auto split: if_splits)
    qed
    then show ?thesis by (simp add: unat_eq_nat_uint uint_word_of_int take_bit_int_eq_self)
  qed
  have left: "LEFTALIGNED \<in> flags \<longleftrightarrow> doc_left d" "ZEROPADDED \<in> flags \<longleftrightarrow> ch CHR ''0'' \<in> set (dir_flags d)" "BIGCHARS \<in> flags \<longleftrightarrow> BIGCHARS \<in> fl"
    using conv(7) by (auto simp: flags_def directive_flags_iff [OF d])
  have lead: "lead_chars flags base = lead" unfolding lead_def by (rule lead_documented [OF d c1 c2 flags_def])
  have ds: "digit_chars flags (digits_of (unat base) (unat (word_of_int \<bar>x\<bar> :: u64))) = ds"
    unfolding conv(1) abs ds_def by (rule digits_documented [OF c1 c2 left(3)])
  have len: "length lead \<le> 3" "length ds \<le> 64" "0 < length ds"
    using length_lead_le [of flags base] length_digits_64 [of b "word_of_int \<bar>x\<bar>"] conv(2) lead unfolding abs
    by (simp_all add: ds_def)
  have just: "justify flags (directive_width d) out = widened d out" for out
    using justify_widened [OF d, of out] by (simp add: justify_def left(1) directive_flags_iff [OF d])
  let ?zero = "ch CHR ''0'' \<in> set (dir_flags d) \<and> \<not> doc_left d \<and> directive_precision d = 0"
  let ?zeros = "if ?zero then int (doc_width d) - int (length lead + length ds) else directive_precision d - int (length ds)"
  have body: "int_text c x (directive_width d) (directive_precision d) (directive_flags d) =
      widened d (lead @ replicate (nat (min ?zeros (80 - int (length lead + length ds)))) (ch CHR ''0'') @ ds)"
    unfolding int_text_def c1 option.case prod.case flags_def [symmetric] number_text_def just
    by (simp add: number_body_def Let_def ds lead left directive_width_eq PRINT_BUFFER_SIZE_def)
  have num: "doc_number d c x =
      (case doc_precision d of Some n \<Rightarrow> widened d (lead @ replicate (n - length ds) (ch CHR ''0'') @ ds)
       | None \<Rightarrow> if ch CHR ''0'' \<in> set (dir_flags d) \<and> \<not> doc_left d
           then lead @ replicate (doc_width d - length (lead @ ds)) (ch CHR ''0'') @ ds else widened d (lead @ ds))"
    by (simp only: doc_number_def c2 prod.case Let_def lead_def ds_def)
  show ?thesis
  proof (cases "doc_precision d")
    case (Some n)
    then have n: "directive_precision d = int n" "0 < n" "n \<le> 77"
      using doc by (auto simp: doc_precision_def directive_precision_def split: if_splits)
    have "nat (min (int n - int (length ds)) (80 - int (length lead + length ds))) = n - length ds"
      using n(3) len by linarith
    then show ?thesis using n unfolding body num Some by simp
  next
    case None
    then have p: "directive_precision d = 0" by (auto simp: doc_precision_def directive_precision_def split: if_splits)
    show ?thesis
    proof (cases "ch CHR ''0'' \<in> set (dir_flags d) \<and> \<not> doc_left d")
      case True
      then have "doc_width d \<le> 80" using doc None by simp
      then have z: "nat (min (int (doc_width d) - int (length lead + length ds)) (80 - int (length lead + length ds))) =
          doc_width d - length (lead @ ds)" by simp
      have "widened d (lead @ replicate (doc_width d - length (lead @ ds)) (ch CHR ''0'') @ ds) =
          lead @ replicate (doc_width d - length (lead @ ds)) (ch CHR ''0'') @ ds"
        by (simp add: widened_def)
      then show ?thesis using True p z unfolding body num None by simp
    next
      case False
      have "nat (min (- int (length ds)) (80 - int (length lead + length ds))) = 0" by simp
      then show ?thesis using False p unfolding body num None by auto
    qed
  qed
qed

lemma item_output_documented:
  assumes "item_ok it" "as_documented it"
  shows "item_output it = documented_output it"
proof (cases it)
  case (Str_item d p)
  show ?thesis
  proof (cases p)
    case None
    have "length (str ''(NULL)'') = 6" by (simp add: str_def)
    then show ?thesis using assms Str_item None by (simp add: string_text_def widened_def)
  next
    case (Some cs)
    then show ?thesis using string_text_documented [of d cs] assms Str_item by simp
  qed
next
  case (Num_item d q c x)
  then show ?thesis using int_text_documented [of d q c x] assms by simp
next
  case (Char_item d c)
  then show ?thesis using justify_widened [of d "[c]"] assms by simp
qed simp_all

definition format_documented :: "item list \<Rightarrow> bytes" where
  "format_documented items = concat (map documented_output items)"

lemma format_output_documented:
  assumes "\<forall>it \<in> set items. item_ok it \<and> as_documented it"
  shows "format_output items = format_documented items"
proof -
  have "map item_output items = map documented_output items"
    using assms item_output_documented by simp
  then show ?thesis by (simp only: format_output_def format_documented_def)
qed

subsection \<open>The exceptions\<close>

lemma string_padded_too_little:
  "item_output (Str_item \<lparr>dir_flags = [], dir_width = Const 5, dir_precision = Const 3\<rparr> (Some (str ''ab'' @ [0]))) = str ''  ab''"
  "documented_output (Str_item \<lparr>dir_flags = [], dir_width = Const 5, dir_precision = Const 3\<rparr> (Some (str ''ab'' @ [0]))) = str ''   ab''"
proof -
  have cs: "cstr (str ''ab'' @ [0]) = Some (str ''ab'')" by (simp add: cstr_append_NUL str_def ch_def)
  have "replicate 2 x = [x, x]" "replicate 3 x = [x, x, x]" for x :: u8 by (simp_all add: numeral_2_eq_2 numeral_3_eq_3)
  then show "item_output (Str_item \<lparr>dir_flags = [], dir_width = Const 5, dir_precision = Const 3\<rparr> (Some (str ''ab'' @ [0]))) = str ''  ab''"
    "documented_output (Str_item \<lparr>dir_flags = [], dir_width = Const 5, dir_precision = Const 3\<rparr> (Some (str ''ab'' @ [0]))) = str ''   ab''"
    by (simp_all add: cs string_text_def directive_width_def directive_precision_def directive_flags_def widened_def doc_width_def
      doc_left_def doc_precision_def str_def ch_def)
qed

lemma zeros_cut:
  "length (item_output (Num_item \<lparr>dir_flags = [], dir_width = NoAmount, dir_precision = Const 90\<rparr> QInt (ch CHR ''u'') 7)) = 80"
  "length (documented_output (Num_item \<lparr>dir_flags = [], dir_width = NoAmount, dir_precision = Const 90\<rparr> QInt (ch CHR ''u'') 7)) = 90"
proof -
  have d7: "digits_of 10 7 = [7]" by (subst digits_of.simps) simp
  have conv: "int_conversion (ch CHR ''u'') = Some ({}, 10, False)" "doc_conversion (ch CHR ''u'') = (10, [], CHR ''a'')"
    by (simp_all add: int_conversion_def doc_conversion_def ch_def)
  show "length (item_output (Num_item \<lparr>dir_flags = [], dir_width = NoAmount, dir_precision = Const 90\<rparr> QInt (ch CHR ''u'') 7)) = 80"
    by (simp add: int_text_def conv number_text_def number_body_def justify_def directive_width_def directive_precision_def
      directive_flags_def lead_chars_def sign_char_def prefix_chars_def d7 PRINT_BUFFER_SIZE_def)
  show "length (documented_output (Num_item \<lparr>dir_flags = [], dir_width = NoAmount, dir_precision = Const 90\<rparr> QInt (ch CHR ''u'') 7)) = 90"
    by (simp add: doc_number_def conv doc_sign_def doc_precision_def widened_def doc_width_def doc_left_def d7 Let_def)
qed

end
