(* ===== verification/PrintfSpec.thy ===== *)
theory PrintfSpec
  imports PrintfDoc
begin

text \<open>
  What formatted output prints.  The locale \<open>output_sink\<close> states what the printing functions
  need of the place the output goes to, and they are proved to print the texts of PrintfFormat
  on any sink.  The buffer of \<open>vsnprintf\<close> and the console are its interpretations.
\<close>

subsection \<open>Sinks\<close>

text \<open>
  \<open>holds s out\<close>: the state \<open>s\<close> is that of a sink that \<open>out\<close> has been written to.  \<open>fits out\<close>: there
  is room for it, and its length is an \<open>int\<close>.
\<close>

locale output_sink =
  fixes emit :: "'s writer"
    and holds :: "'s \<Rightarrow> bytes \<Rightarrow> bool"
    and fits :: "bytes \<Rightarrow> bool"
  assumes fits_prefix: "fits (out @ xs) \<Longrightarrow> fits out"
    and fits_int: "fits out \<Longrightarrow> length out < 2 ^ 31"
    and emit_holds: "holds s out \<Longrightarrow> fits (out @ xs) \<Longrightarrow>
      \<exists>s'. emit xs s = Ok (int (length xs), s') \<and> holds s' (out @ xs)"
begin

definition prints :: "('s \<Rightarrow> (int \<times> 's) res) \<Rightarrow> bytes \<Rightarrow> bool" where
  "prints f text \<longleftrightarrow>
     (\<forall>s out. holds s out \<longrightarrow> fits (out @ text) \<longrightarrow>
       (\<exists>s'. f s = Ok (int (length text), s') \<and> holds s' (out @ text)))"

lemma printsI: "(\<And>s out. holds s out \<Longrightarrow> fits (out @ text) \<Longrightarrow>
    \<exists>s'. f s = Ok (int (length text), s') \<and> holds s' (out @ text)) \<Longrightarrow> prints f text"
  by (simp add: prints_def)

lemma printsE:
  assumes "prints f text" "holds s out" "fits (out @ text)"
  obtains s' where "f s = Ok (int (length text), s')" "holds s' (out @ text)"
  using assms by (auto simp: prints_def)

lemma prints_emit: "prints (emit xs) xs"
  using emit_holds by (simp add: prints_def)

lemma prints_nothing: "prints (\<lambda>s. Ok (0, s)) []"
  by (simp add: prints_def)

lemma fits_length: "fits (out @ text) \<Longrightarrow> length out + length text < 2 ^ 31"
  using fits_int [of "out @ text"] by simp

lemma chain_step:
  assumes "prints f text" "holds s out" "fits (out @ text)"
  obtains s' where "\<And>k. chain (f s) k = k (int (length text)) s'" "holds s' (out @ text)"
proof -
  obtain s' where s': "f s = Ok (int (length text), s')" "holds s' (out @ text)" using assms by (rule printsE)
  have "chain (f s) k = k (int (length text)) s'" for k by (simp add: chain_def s'(1))
  with s'(2) show ?thesis by (rule that [rotated])
qed

lemma counted_step:
  assumes "prints f text" "holds s out" "fits (out @ text)" "0 \<le> c" "c + int (length text) < 2 ^ 31"
  obtains s' where "\<And>k. counted c (f s) k = k (c + int (length text)) s'" "holds s' (out @ text)"
proof -
  obtain s' where s': "\<And>k. chain (f s) k = k (int (length text)) s'" "holds s' (out @ text)"
    using chain_step [OF assms(1-3)] by metis
  have "counted c (f s) k = k (c + int (length text)) s'" for k
    using assms(4,5) unfolding counted_def s'(1) by (simp add: add_int_def)
  with s'(2) show ?thesis by (rule that [rotated])
qed

text \<open>The rest of a function, whose counter stands at \<open>c\<close>, prints \<open>text\<close>.\<close>

definition continues :: "int \<Rightarrow> ('s \<Rightarrow> (int \<times> 's) res) \<Rightarrow> bytes \<Rightarrow> bool" where
  "continues c k text \<longleftrightarrow>
     (\<forall>s out. holds s out \<longrightarrow> fits (out @ text) \<longrightarrow> c + int (length text) < 2 ^ 31 \<longrightarrow>
       (\<exists>s'. k s = Ok (c + int (length text), s') \<and> holds s' (out @ text)))"

lemma continues_done: "continues c (\<lambda>s. Ok (c, s)) []"
  by (simp add: continues_def)

lemma continues_counted:
  assumes "0 \<le> c" "prints f t1" "continues (c + int (length t1)) (k (c + int (length t1))) t2"
  shows "continues c (\<lambda>s. counted c (f s) k) (t1 @ t2)"
  unfolding continues_def
proof (intro allI impI)
  fix s out
  assume h: "holds s out" "fits (out @ t1 @ t2)" "c + int (length (t1 @ t2)) < 2 ^ 31"
  have "fits (out @ t1)" using fits_prefix [of "out @ t1" t2] h(2) by simp
  then obtain s1 where s1: "\<And>k. counted c (f s) k = k (c + int (length t1)) s1" "holds s1 (out @ t1)"
    using counted_step [OF assms(2) h(1) _ assms(1)] h(3) by auto
  moreover obtain s2 where "k (c + int (length t1)) s1 = Ok (c + int (length t1) + int (length t2), s2)"
      "holds s2 ((out @ t1) @ t2)"
    using assms(3) s1(2) h(2,3) unfolding continues_def by fastforce
  ultimately show "\<exists>s'. counted c (f s) k = Ok (c + int (length (t1 @ t2)), s') \<and> holds s' (out @ t1 @ t2)"
    by (simp add: add.assoc)
qed

lemma prints_continues: "prints f text \<longleftrightarrow> continues 0 f text"
  using fits_length by (fastforce simp: prints_def continues_def)

lemma prints_if: "(b \<Longrightarrow> prints f t) \<Longrightarrow> (\<not> b \<Longrightarrow> prints g u) \<Longrightarrow>
    prints (\<lambda>s. if b then f s else g s) (if b then t else u)"
  by simp

lemma chunks_print:
  assumes "0 \<le> count" "0 < tmp" "holds s out" "fits (out @ replicate (nat tmp) 32)"
  shows "\<exists>s'. print_chunks emit count tmp s = Ok (count, s') \<and> holds s' (out @ replicate (nat tmp) 32)"
  using assms
proof (induction "nat tmp" arbitrary: tmp s out rule: less_induct)
  case less
  show ?case
  proof (cases "PRINT_BUFFER_SIZE < tmp")
    case True
    let ?chunk = "replicate (nat PRINT_BUFFER_SIZE) 32 :: bytes" and ?more = "replicate (nat (tmp - PRINT_BUFFER_SIZE)) 32 :: bytes"
    have split: "replicate (nat tmp) 32 = ?chunk @ ?more"
      using True by (simp add: replicate_add [symmetric] PRINT_BUFFER_SIZE_def flip: nat_add_distrib)
    have f: "fits ((out @ ?chunk) @ ?more)" using less.prems(4) split by simp
    obtain s1 where s1: "\<And>k. chain (emit ?chunk s) k = k (int (length ?chunk)) s1" "holds s1 (out @ ?chunk)"
      using chain_step [OF prints_emit less.prems(3) fits_prefix [OF f]] by metis
    have "\<exists>s'. print_chunks emit count (tmp - PRINT_BUFFER_SIZE) s1 = Ok (count, s') \<and> holds s' ((out @ ?chunk) @ ?more)"
      by (rule less.hyps) (use True less.prems(1) s1(2) f in \<open>auto simp: PRINT_BUFFER_SIZE_def\<close>)
    then show ?thesis using True s1(1) split by (subst print_chunks.simps) simp
  next
    case False
    obtain s1 where "\<And>k. chain (emit (replicate (nat tmp) 32) s) k = k (int (length (replicate (nat tmp) (32 :: u8)))) s1"
      "holds s1 (out @ replicate (nat tmp) 32)"
      using chain_step [OF prints_emit less.prems(3,4)] by metis
    with False show ?thesis by (subst print_chunks.simps) simp
  qed
qed

lemma prints_spaces: "prints (print_spaces emit n) (replicate (nat n) 32)"
  using chunks_print [of n n] by (auto simp: prints_def print_spaces_def)

lemma prints_pad: "prints (\<lambda>s. if b then print_spaces emit n s else Ok (0, s)) (if b then replicate (nat n) 32 else [])"
  using prints_if [of b "print_spaces emit n" _ "\<lambda>s. Ok (0, s)" "[]"] prints_spaces prints_nothing by auto

lemma prints_justified:
  assumes "prints f text"
  shows "prints (\<lambda>s. counted 0 (if LEFTALIGNED \<notin> flags then print_spaces emit width s else Ok (0, s)) (\<lambda>counter s.
      counted counter (f s) (\<lambda>counter s.
      counted counter (if LEFTALIGNED \<in> flags then print_spaces emit width s else Ok (0, s)) (\<lambda>counter s.
      Ok (counter, s)))))
    (let pad = replicate (nat width) 32 in if LEFTALIGNED \<in> flags then text @ pad else pad @ text)"
proof -
  let ?l = "if LEFTALIGNED \<notin> flags then replicate (nat width) 32 else [] :: bytes"
    and ?r = "if LEFTALIGNED \<in> flags then replicate (nat width) 32 else [] :: bytes"
  have "continues 0 (\<lambda>s. counted 0 (if LEFTALIGNED \<notin> flags then print_spaces emit width s else Ok (0, s)) (\<lambda>counter s.
      counted counter (f s) (\<lambda>counter s.
      counted counter (if LEFTALIGNED \<in> flags then print_spaces emit width s else Ok (0, s)) (\<lambda>counter s.
      Ok (counter, s))))) (?l @ text @ ?r @ [])"
    by (intro continues_counted prints_pad assms continues_done) auto
  moreover have "?l @ text @ ?r @ [] = (let pad = replicate (nat width) 32 in if LEFTALIGNED \<in> flags then text @ pad else pad @ text)"
    by simp
  ultimately show ?thesis unfolding prints_continues by metis
qed

lemma prints_char: "prints (print_char emit c width flags) (justify flags width [c])"
proof (rule printsI)
  fix s out
  assume h: "holds s out" "fits (out @ justify flags width [c])"
  let ?pad = "replicate (nat (width - 1)) 32 :: bytes"
  let ?l = "if LEFTALIGNED \<notin> flags then ?pad else []" and ?r = "if LEFTALIGNED \<in> flags then ?pad else []"
  have tx: "justify flags width [c] = ?l @ [c] @ ?r" by (simp add: justify_def)
  have fits: "fits (out @ ?l)" "fits ((out @ ?l) @ [c])" "fits (((out @ ?l) @ [c]) @ ?r)"
    using fits_prefix [of "out @ ?l" "[c] @ ?r"] fits_prefix [of "out @ ?l @ [c]" ?r] h(2)
    unfolding tx append_assoc by blast+
  have len: "length ?l + 1 + length ?r < 2 ^ 31" using fits_length [OF fits(3)] by simp
  obtain s1 where s1: "\<And>k. counted 1 (if LEFTALIGNED \<notin> flags then print_spaces emit (width - 1) s else Ok (0, s)) k
      = k (1 + int (length ?l)) s1" "holds s1 (out @ ?l)"
    using counted_step [OF prints_pad h(1) fits(1), of 1] len by auto
  obtain s2 where s2: "\<And>k. chain (emit [c] s1) k = k 1 s2" "holds s2 ((out @ ?l) @ [c])"
    using chain_step [OF prints_emit s1(2) fits(2)] by auto
  obtain s3 where "\<And>k. counted (1 + int (length ?l)) (if LEFTALIGNED \<in> flags then print_spaces emit (width - 1) s2 else Ok (0, s2)) k
      = k (1 + int (length ?l) + int (length ?r)) s3" "holds s3 (((out @ ?l) @ [c]) @ ?r)"
    using counted_step [OF prints_pad s2(2) fits(3), of "1 + int (length ?l)"] len by auto
  then show "\<exists>s'. print_char emit c width flags s = Ok (int (length (justify flags width [c])), s') \<and>
      holds s' (out @ justify flags width [c])"
    unfolding print_char_def s1(1) s2(1) tx by (intro exI [of _ s3]) auto
qed

lemma prints_string_Some:
  assumes "cstr cs = Some t" "0 \<le> width" "width < 2 ^ 31" "unat precision < 2147483648" "length t < 2147483648"
  shows "prints (print_string emit (Some cs) width precision flags) (string_text (Some t) width (unat precision) flags)"
proof -
  let ?n = "if precision = 0 then length t else unat precision"
  let ?p = "if precision = 0 then word_of_nat (length t) else precision :: u32"
  have p: "unat ?p = ?n" using assms(5) by (simp add: unat_u32_of_nat)
  have "?n < 2147483648" using assms(4,5) by simp
  then have n: "int ?n < 2147483648" by linarith
  have "word_of_int width - ?p = word_of_int (width - int ?n)" by (simp add: p [symmetric])
  moreover have "- (2 ^ 31) \<le> width - int ?n" "width - int ?n < 2 ^ 31" using assms(2,3) n unfolding power_numeral_reduce by simp_all
  ultimately have w: "sint (word_of_int width - ?p) = width - int ?n" by (simp only: sint_u32_of_int)
  obtain rest where cs: "cs = t @ 0 # rest" "0 \<notin> set t" using cstr_Some_split [OF assms(1)] by blast
  have take: "take (min (length t) (unat ?p)) cs = take ?n t" unfolding p by (simp add: cs(1) min_def)
  have "prints (print_string emit (Some cs) width precision flags)
    (let pad = replicate (nat (width - int ?n)) 32 in
      if LEFTALIGNED \<in> flags then take ?n t @ pad else pad @ take ?n t)"
    unfolding print_string_def using prints_justified [OF prints_emit, of flags "width - int ?n" "take ?n t"]
    by (simp only: option.case strlen_cstr assms(1) andthen.simps Let_def take w)
  moreover have "unat precision = 0 \<longleftrightarrow> precision = 0" by (simp add: unat_eq_0)
  ultimately show ?thesis by (simp add: string_text_def Let_def)
qed

lemma prints_string_None: "prints (print_string emit None width precision flags) (string_text None width n flags)"
  using prints_emit by (simp add: prints_def print_string_def string_text_def)

lemma prints_number:
  assumes "2 \<le> unat base" "unat base \<le> 16"
  shows "prints (print_number emit num width precision base flags) (number_text num width precision base flags)"
proof -
  let ?body = "number_body num width precision base flags"
  let ?w = "width - int (length ?body)"
  let ?fill = "0 < ?w \<and> LEFTALIGNED \<notin> flags"
  let ?tmp = "if ?fill then min ?w (PRINT_BUFFER_SIZE - int (length ?body)) else 0"
  let ?d = "replicate (nat ?tmp) 32 @ ?body"
  have len: "length ?body \<le> 80" by (rule length_number_body [OF assms(1)])
  then have "?tmp \<le> 80 - int (length ?body)" by (simp add: PRINT_BUFFER_SIZE_def)
  then have "nat ?tmp + length ?body \<le> 80" using len by linarith
  then have push: "dpush (replicate (nat ?tmp) 32) ?body = Ok ?d" by (intro dpush_ok) simp
  have "0 \<le> ?tmp" using len by (simp add: PRINT_BUFFER_SIZE_def)
  then have size: "nat (int (length ?body) + ?tmp) = length ?d" by simp
  let ?l = "if ?fill then replicate (nat (?w - ?tmp)) 32 else [] :: bytes"
    and ?r = "if LEFTALIGNED \<in> flags then replicate (nat ?w) 32 else [] :: bytes"
  have "?l @ replicate (nat ?tmp) 32 = (if LEFTALIGNED \<in> flags then [] else replicate (nat ?w) 32)"
    using len by (auto simp: replicate_add [symmetric] PRINT_BUFFER_SIZE_def nat_add_distrib [symmetric])
  then have "number_text num width precision base flags = (?l @ replicate (nat ?tmp) 32) @ ?body @ ?r"
    by (simp add: number_text_def justify_def Let_def)
  then have t: "number_text num width precision base flags = ?l @ ?d @ ?r @ []" by simp
  have w: "prints (\<lambda>s. andthen (of_opt (slice ?d 0 (nat (int (length ?body) + ?tmp)))) (\<lambda>text. emit text s)) ?d"
    unfolding size slice_0 of_opt.simps andthen.simps by (rule prints_emit)
  show ?thesis
    unfolding prints_continues t print_number_def number_chars_result [OF assms] andthen.simps prod.case Let_def push
    by (intro continues_counted prints_pad w continues_done) auto
qed

lemma continues_flush:
  assumes "0 \<le> c" "continues (c + int (length pend)) (k (c + int (length pend))) t"
  shows "continues c (\<lambda>s. flush_pending emit (pend @ at) at c s k) (pend @ t)"
proof (cases "pend = []")
  case True
  then show ?thesis using assms(2) by (simp add: flush_pending_def)
next
  case False
  then have "flush_pending emit (pend @ at) at c s k = counted c (emit pend s) k" for s
    by (simp add: flush_pending_def pending_def)
  then show ?thesis using continues_counted [of c "emit pend" pend k t] prints_emit assms by simp
qed

lemma loop_text:
  "0 \<notin> set t \<Longrightarrow> ch CHR ''%'' \<notin> set t \<Longrightarrow>
     printf_loop sg emit from (t @ r) args c s = printf_loop sg emit from r args c s"
  by (induction t) (auto simp: printf_loop.simps(2))

lemma loop_directive:
  assumes "parse_directive sg cs args = Ok (c' # after, flags, width, precision, q, args')"
  shows "printf_loop sg emit from (ch CHR ''%'' # cs) args c s =
    flush_pending emit from (ch CHR ''%'' # cs) c s (\<lambda>c s.
      if c' = ch CHR ''s'' then
        andthen (va_str args') (\<lambda>(p, args).
        counted c (print_string emit p width (word_of_int precision) flags s) (\<lambda>c s.
        printf_loop sg emit after after args c s))
      else if c' = ch CHR ''c'' then
        andthen (va_int args') (\<lambda>(w, args).
        counted c (print_char emit (ucast w) width flags s) (\<lambda>c s.
        printf_loop sg emit after after args c s))
      else if c' = ch CHR ''%'' then printf_loop sg emit (c' # after) after args' c s
      else case int_conversion c' of
        None \<Rightarrow> printf_loop sg emit (ch CHR ''%'' # cs) after args' c s
      | Some (fl, base, pointer) \<Rightarrow>
          andthen (va_number (if pointer then QPointer else q) args') (\<lambda>(size, number, args).
          andthen (take_sign (flags \<union> fl) size number) (\<lambda>(flags, number).
          counted c (print_number emit number width precision base flags s) (\<lambda>c s.
          printf_loop sg emit after after args c s))))"
proof -
  have "ch CHR ''%'' \<noteq> 0" by (simp add: ch_def)
  with assms show ?thesis by (simp add: printf_loop.simps(2))
qed

text \<open>An item that is a directive prints its output and the loop goes on behind it.\<close>

lemma continues_directive:
  assumes "0 \<le> c" "prints f out"
    and "\<And>c s. body c s = counted c (f s) (\<lambda>c s. printf_loop sg emit after after args c s)"
    and "continues (c + int (length pend) + int (length out))
      (\<lambda>s. printf_loop sg emit after after args (c + int (length pend) + int (length out)) s) rest"
  shows "continues c (\<lambda>s. flush_pending emit (pend @ at) at c s body) (pend @ out @ rest)"
proof (rule continues_flush [OF assms(1)])
  let ?c = "c + int (length pend)"
  have "body ?c = (\<lambda>s. counted ?c (f s) (\<lambda>c s. printf_loop sg emit after after args c s))"
    by (rule ext) (rule assms(3))
  then show "continues ?c (body ?c) (out @ rest)"
    using continues_counted [of ?c f out "\<lambda>c s. printf_loop sg emit after after args c s" rest] assms(1,2,4) by simp
qed

lemma prints_item:
  assumes "item_ok it" "\<And>t. it \<noteq> Text t" "it \<noteq> Percent"
  obtains cs f out where "item_text it = ch CHR ''%'' # cs" "prints f (item_output it)"
    "\<And>fr r args c s. printf_loop sg emit fr (item_text it @ r) (item_args it @ args) c s =
      flush_pending emit fr (item_text it @ r) c s (\<lambda>c s. counted c (f s) (\<lambda>c s. printf_loop sg emit r r args c s))"
proof (cases it)
  case (Char_item d c)
  have d: "directive_ok d" using assms(1) Char_item by simp
  have p: "parse_directive sg (directive_text d @ str ''c'' @ r) (directive_args d @ args) =
      Ok (ch CHR ''c'' # r, directive_flags d, directive_width d, directive_precision d, QInt, args)" for r args
    using parse_directive_text [OF d, of "ch CHR ''c''" sg QInt r args] by (simp add: str_def ch_def)
  have "printf_loop sg emit fr (item_text it @ r) (item_args it @ args) c' s =
      flush_pending emit fr (item_text it @ r) c' s (\<lambda>c' s.
        counted c' (print_char emit c (directive_width d) (directive_flags d) s) (\<lambda>c' s. printf_loop sg emit r r args c' s))"
    for fr r args c' s
    using loop_directive [OF p [of r "VaInt (ucast c) # args"], of fr c' s] Char_item by (simp add: ch_def ucast_byte)
  then show ?thesis by (rule that [rotated 2]) (use prints_char Char_item in auto)
next
  case (Str_item d p)
  have d: "directive_ok d" using assms(1) Str_item by simp
  have pd: "parse_directive sg (directive_text d @ str ''s'' @ r) (directive_args d @ args) =
      Ok (ch CHR ''s'' # r, directive_flags d, directive_width d, directive_precision d, QInt, args)" for r args
    using parse_directive_text [OF d, of "ch CHR ''s''" sg QInt r args] by (simp add: str_def ch_def)
  have "printf_loop sg emit fr (item_text it @ r) (item_args it @ args) c s =
      flush_pending emit fr (item_text it @ r) c s (\<lambda>c s.
        counted c (print_string emit p (directive_width d) (word_of_int (directive_precision d)) (directive_flags d) s)
          (\<lambda>c s. printf_loop sg emit r r args c s))"
    for fr r args c s
    using loop_directive [OF pd [of r "VaStr p # args"], of fr c s] Str_item by simp
  moreover have "prints (print_string emit p (directive_width d) (word_of_int (directive_precision d)) (directive_flags d)) (item_output it)"
  proof (cases p)
    case None
    then show ?thesis using prints_string_None Str_item by simp
  next
    case (Some cs)
    then obtain t where t: "cstr cs = Some t" "length t < 2147483648" using assms(1) Str_item by auto
    have w: "0 \<le> directive_width d" "directive_width d < 2 ^ 31"
      using d by (auto simp: directive_ok_def directive_width_def)
    note pr = directive_precision_word [OF d]
    show ?thesis
      using prints_string_Some [OF t(1) w _ t(2), of "word_of_int (directive_precision d)" "directive_flags d"] pr
      by (simp add: Str_item Some t(1))
  qed
  ultimately show ?thesis by (intro that [rotated 2]) (use Str_item in auto)
next
  case (Num_item d q c x)
  have ok: "directive_ok d" "number_ok q c x" using assms(1) Num_item by simp_all
  obtain fl base pointer where conv: "int_conversion c = Some (fl, base, pointer)"
    using ok(2) by (auto simp: number_ok_def split: option.splits)
  have c: "c \<in> set (str ''scdiuxXobpP%'')" "c \<noteq> ch CHR ''s''" "c \<noteq> ch CHR ''c''" "c \<noteq> ch CHR ''%''"
    using conversions [OF conv] by (auto simp: str_def ch_def)
  note nr = number_result [OF ok(2) conv, of "directive_flags d"] directive_flags_parsed [OF ok(1)]
  let ?flags = "directive_flags d \<union> fl \<union> (if x < 0 then {NEGATIVE} else {})"
  let ?f = "print_number emit (word_of_int \<bar>x\<bar>) (directive_width d) (directive_precision d) base ?flags"
  have loop: "printf_loop sg emit fr (item_text it @ r) (item_args it @ args) n s =
      flush_pending emit fr (item_text it @ r) n s (\<lambda>n s. counted n (?f s) (\<lambda>n s. printf_loop sg emit r r args n s))"
    for fr r args n s
    using loop_directive [OF parse_directive_text [OF ok(1) c(1), of sg q r "number_arg q x # args"], of fr n s] nr
    by (simp add: Num_item c(2-4) conv va_number_arg)
  have "prints ?f (item_output it)"
    using prints_number [of base] conversions [OF conv] by (simp add: Num_item int_text_def conv)
  then show ?thesis by (rule that [rotated]) (use loop Num_item in auto)
qed (use assms in auto)

lemma continues_items:
  assumes "\<forall>it \<in> set items. item_ok it" "0 \<le> c"
  shows "continues c (\<lambda>s. printf_loop sg emit (pend @ format_text items @ 0 # r) (format_text items @ 0 # r)
      (format_args items @ more_args) c s) (pend @ format_output items)"
  using assms
proof (induction items arbitrary: pend c)
  case Nil
  have "printf_loop sg emit (pend @ 0 # r) (0 # r) args c s = flush_pending emit (pend @ 0 # r) (0 # r) c s (\<lambda>c s. Ok (c, s))" for args s
    by (simp add: printf_loop.simps(2))
  then show ?case
    using continues_flush [of c pend "\<lambda>c s. Ok (c, s)" "[]" "0 # r"] Nil(2) continues_done
    by (simp add: format_text_def format_args_def format_output_def)
next
  case (Cons it items)
  let ?r = "format_text items @ 0 # r" and ?args = "format_args items @ more_args"
  have t: "format_text (it # items) @ 0 # r = item_text it @ ?r" "format_args (it # items) @ more_args = item_args it @ ?args"
    "format_output (it # items) = item_output it @ format_output items"
    by (simp_all add: format_text_def format_args_def format_output_def)
  have ih: "continues c (\<lambda>s. printf_loop sg emit (pend @ ?r) ?r ?args c s) (pend @ format_output items)" if "0 \<le> c" for pend c
    by (rule Cons.IH) (use Cons.prems(1) that in auto)
  consider (literal) t where "it = Text t" | (percent) "it = Percent" | (directive) "\<And>t. it \<noteq> Text t" "it \<noteq> Percent"
    by (cases it) auto
  then show ?case
  proof cases
    case (literal t)
    have "printf_loop sg emit (pend @ item_text it @ ?r) (item_text it @ ?r) (item_args it @ ?args) c s
        = printf_loop sg emit ((pend @ t) @ ?r) ?r ?args c s" for s
      using loop_text [of t] Cons.prems(1) literal by simp
    then show ?thesis unfolding t using ih [OF Cons.prems(2), of "pend @ t"] literal by simp
  next
    case percent
    let ?pct = "[ch CHR ''%'']"
    have p: "parse_directive sg (ch CHR ''%'' # ?r) ?args = Ok (ch CHR ''%'' # ?r, {}, 0, 0, QInt, ?args)"
      using parse_directive_text [of "\<lparr>dir_flags = [], dir_width = NoAmount, dir_precision = NoAmount\<rparr>" "ch CHR ''%''" sg QInt ?r ?args]
      by (simp add: directive_ok_def directive_text_def directive_args_def directive_flags_def directive_width_def
        directive_precision_def precision_text_def str_def ch_def)
    have l: "printf_loop sg emit (pend @ item_text it @ ?r) (item_text it @ ?r) (item_args it @ ?args) c s
        = flush_pending emit (pend @ item_text it @ ?r) (item_text it @ ?r) c s
            (\<lambda>c s. printf_loop sg emit (?pct @ ?r) ?r ?args c s)" for s
      using loop_directive [OF p, of "pend @ item_text it @ ?r" c s] percent by (simp add: str_def ch_def)
    have "0 \<le> c + int (length pend)" using Cons.prems(2) by simp
    from continues_flush [of c pend "\<lambda>c s. printf_loop sg emit (?pct @ ?r) ?r ?args c s" "?pct @ format_output items"
        "item_text it @ ?r", OF Cons.prems(2) ih [OF this]]
    show ?thesis unfolding t l using percent by (simp add: str_def ch_def)
  next
    case directive
    have ok: "item_ok it" using Cons.prems(1) by simp
    obtain cs f where "item_text it = ch CHR ''%'' # cs" and f: "prints f (item_output it)"
      and l: "\<And>fr r args c s. printf_loop sg emit fr (item_text it @ r) (item_args it @ args) c s =
        flush_pending emit fr (item_text it @ r) c s (\<lambda>c s. counted c (f s) (\<lambda>c s. printf_loop sg emit r r args c s))"
      using prints_item [OF ok directive, of sg] by metis
    have c: "0 \<le> c + int (length pend) + int (length (item_output it))" using Cons.prems(2) by simp
    show ?thesis
      unfolding t l
      by (rule continues_directive [OF Cons.prems(2) f refl]) (use ih [OF c, of "[]"] in simp)
  qed
qed

text \<open>The whole format.\<close>

lemma printf_core_prints:
  assumes "\<forall>it \<in> set items. item_ok it"
  shows "prints (printf_core sg (format_text items @ 0 # r) emit (format_args items @ more_args)) (format_output items)"
  using continues_items [OF assms, of 0 sg "[]" r more_args] unfolding prints_continues printf_core_def by simp

end

subsection \<open>The buffer and the console\<close>

text \<open>
  \<open>b\<close> is the buffer at the start, and \<open>n\<close> the size passed with it.  Output that does not fit is
  dropped; a size beyond the end of the buffer is harmless while the output is short.
\<close>

definition buffer_holds :: "u64 \<Rightarrow> bytes \<Rightarrow> vsnprintf_data \<Rightarrow> bytes \<Rightarrow> bool" where
  "buffer_holds n b d out \<longleftrightarrow>
     vs_size d = n \<and>
     (if n = 0 then vs_len d = 0 \<and> vs_string d = b
      else length out < unat n \<and> length out < length b \<and> unat (vs_len d) = length out \<and>
             vs_string d = out @ 0 # drop (Suc (length out)) b \<or>
           vs_len d = n \<and> unat n \<le> length b \<and> unat n \<le> Suc (length out) \<and>
             vs_string d = take (unat n - 1) out @ 0 # drop (unat n) b)"

definition buffer_fits :: "u64 \<Rightarrow> bytes \<Rightarrow> bytes \<Rightarrow> bool" where
  "buffer_fits n b out \<longleftrightarrow> length out < 2 ^ 31 \<and> (unat n \<le> length b \<or> length out < length b)"

lemma buffer_holds_short:
  assumes "buffer_holds n b d out" "n \<noteq> 0" "length out < unat n"
  shows "vs_string d = out @ 0 # drop (Suc (length out)) b"
proof -
  have "vs_size d = n" using assms(1) by (simp add: buffer_holds_def)
  moreover have "drop (unat n) b = drop (Suc (length out)) b" if "unat n \<le> Suc (length out)"
    using that assms(3) by (metis le_SucE le_antisym less_imp_le_nat not_less)
  ultimately show ?thesis using assms by (auto simp: buffer_holds_def)
qed

lemma count_int: "k < 2 ^ 31 \<Longrightarrow> sint (word_of_nat k :: u32) = int k"
  using sint_u32_of_int [of "int k"] by simp

lemma put_tail: "length xs \<le> length t \<Longrightarrow> put (out @ t) (length out) xs = Some (out @ xs @ drop (length xs) t)"
  by (simp add: put_def)

lemma one_length: "length [x] = 1"
  by simp

lemma vsnprintf_write_holds:
  assumes "buffer_holds n b d out" "buffer_fits n b (out @ xs)"
  shows "\<exists>d'. vsnprintf_write xs d = Ok (int (length xs), d') \<and> buffer_holds n b d' (out @ xs)"
proof -
  have c: "sint (word_of_nat (length xs) :: u32) = int (length xs)"
    by (rule count_int) (use assms(2) in \<open>simp add: buffer_fits_def\<close>)
  have sz: "vs_size d = n" using assms(1) by (simp add: buffer_holds_def)
  consider (full) "n = 0 \<or> vs_len d = n" | (room) "n \<noteq> 0" "length out < unat n" "length out < length b"
      "unat (vs_len d) = length out" "vs_string d = out @ 0 # drop (Suc (length out)) b"
    using assms(1) by (auto simp: buffer_holds_def split: if_splits)
  then show ?thesis
  proof cases
    case full
    then have "vsnprintf_write xs d = Ok (int (length xs), d)"
      using assms(1) c sz by (auto simp: vsnprintf_write_def Let_def buffer_holds_def)
    moreover have "buffer_holds n b d (out @ xs)"
      using full assms(1) by (auto simp: buffer_holds_def)
    ultimately show ?thesis by blast
  next
    case room
    let ?L = "length out" and ?i = "unat n - length out" and ?t = "0 # drop (Suc (length out)) b"
    have le: "vs_len d \<le> n" using room(2,4) by (simp add: word_le_nat_alt)
    then have i: "unat (n - vs_len d) = ?i" by (simp add: unat_sub room(4))
    have last: "unat (n - 1) = unat n - 1" by (rule unat_minus_one) (rule room(1))
    have len: "unat (word_of_nat (length xs) :: u64) = length xs"
      using assms(2) by (simp add: buffer_fits_def unat_u64_of_nat)
    have fit: "unat n \<le> length b \<or> ?L + length xs < length b" using assms(2) by (auto simp: buffer_fits_def)
    have tl: "length ?t = length b - ?L" using room(3) by simp
    have one: "n - vs_len d = 1 \<longleftrightarrow> ?i = 1" "n - vs_len d \<le> word_of_nat (length xs) \<longleftrightarrow> ?i \<le> length xs" "n - vs_len d \<noteq> 0"
      using i len room(2) by (auto simp: word_unat_eq_iff word_le_nat_alt)
    have i1: "unat (n - vs_len d - 1) = ?i - 1" using unat_minus_one [OF one(3)] i by simp
    consider (one) "?i = 1" | (cut) "?i \<noteq> 1" "?i \<le> length xs" | (whole) "?i \<noteq> 1" "length xs < ?i" by linarith
    then show ?thesis
    proof cases
      case one': one
      then have n: "unat n = Suc ?L" by simp
      have "put (vs_string d) ?L [0] = Some (vs_string d)"
        using put_tail [of "[0]" ?t out] room(5) tl room(3) by simp
      then have "vsnprintf_write xs d = Ok (int (length xs), d\<lparr>vs_len := n\<rparr>)"
        using one one' by (simp add: vsnprintf_write_def sz c vsn_store_def last n)
      moreover have "buffer_holds n b (d\<lparr>vs_len := n\<rparr>) (out @ xs)"
        using room n by (simp add: buffer_holds_def sz)
      ultimately show ?thesis by blast
    next
      case cut
      have nb: "unat n \<le> length b" using fit cut(2) by linarith
      let ?xs = "take (?i - 1) xs"
      have x: "length ?xs = ?i - 1" using cut(2) by simp
      have p1: "put (vs_string d) ?L ?xs = Some (out @ ?xs @ drop (?i - 1) ?t)"
        using put_tail [of ?xs ?t out] tl x nb room(2,5) by simp
      have len1: "length (out @ ?xs) = unat n - 1" using x room(2) by simp
      have d1: "drop 1 (drop (?i - 1) ?t) = drop (unat n) b"
      proof -
        obtain k where k: "?i = Suc (Suc k)" using room(2) cut(1) by (metis One_nat_def Suc_pred zero_less_diff neq0_conv)
        then have "unat n = Suc (Suc k) + ?L" by linarith
        then show ?thesis by (simp add: add.commute)
      qed
      have "put ((out @ ?xs) @ drop (?i - 1) ?t) (length (out @ ?xs)) [0]
          = Some ((out @ ?xs) @ [0] @ drop (length [0 :: u8]) (drop (?i - 1) ?t))"
        by (rule put_tail) (use tl nb room(2) in simp)
      then have p2: "put (out @ ?xs @ drop (?i - 1) ?t) (unat n - 1) [0] = Some (out @ ?xs @ 0 # drop (unat n) b)"
        unfolding len1 one_length d1 append_assoc append_Cons append_Nil .
      let ?d = "d\<lparr>vs_string := out @ ?xs @ 0 # drop (unat n) b, vs_len := n\<rparr>"
      have w: "vsnprintf_write xs d = Ok (int (length xs), ?d)"
        using one cut p1 p2 i1 room(4) by (simp add: vsnprintf_write_def sz c vsn_store_def last)
      have "take (unat n - 1) (out @ xs) = out @ ?xs" using room(2) by simp
      moreover have "unat n \<le> Suc (length (out @ xs))" using cut(2) by simp
      ultimately have "buffer_holds n b ?d (out @ xs)"
        using room(1) nb by (simp add: buffer_holds_def sz)
      with w show ?thesis by blast
    next
      case whole
      have nb: "?L + length xs < length b" "?L + length xs < unat n" using fit whole(2) by linarith+
      have p1: "put (vs_string d) ?L xs = Some (out @ xs @ drop (length xs) ?t)"
        using put_tail [of xs ?t out] tl nb(1) room(5) by simp
      have "drop 1 (drop (length xs) ?t) = drop (Suc (?L + length xs)) b"
        by (cases xs) (simp_all add: add.commute)
      moreover have "1 \<le> length (drop (length xs) ?t)" using tl nb(1) by simp
      ultimately have p2: "put (out @ xs @ drop (length xs) ?t) (?L + length xs) [0]
          = Some (out @ xs @ 0 # drop (Suc (?L + length xs)) b)"
        using put_tail [of "[0]" "drop (length xs) ?t" "out @ xs"] by simp
      have nl: "unat (vs_len d + word_of_nat (length xs)) = ?L + length xs"
        using nb(2) unat_u64_less [of n] len room(4) by (simp add: unat_word_ariths)
      let ?d = "d\<lparr>vs_string := out @ xs @ 0 # drop (Suc (?L + length xs)) b, vs_len := vs_len d + word_of_nat (length xs)\<rparr>"
      have "vsnprintf_write xs d = Ok (int (length xs), ?d)"
        using one whole p1 p2 nl room(4) by (simp add: vsnprintf_write_def sz c vsn_store_def)
      moreover have "buffer_holds n b ?d (out @ xs)"
        using room(1) nb nl by (simp add: buffer_holds_def sz)
      ultimately show ?thesis by blast
    qed
  qed
qed

interpretation vsn: output_sink vsnprintf_write "buffer_holds n b" "buffer_fits n b" for n b
  by unfold_locales (auto simp: buffer_fits_def intro: vsnprintf_write_holds)

definition console_holds :: "bytes \<Rightarrow> bytes \<Rightarrow> bytes \<Rightarrow> bool" where
  "console_holds before console out \<longleftrightarrow> console = before @ out"

definition console_fits :: "bytes \<Rightarrow> bool" where
  "console_fits out \<longleftrightarrow> length out < 2 ^ 31"

interpretation con: output_sink vprintf_write "console_holds before" console_fits for before
  by unfold_locales (auto simp: console_fits_def console_holds_def vprintf_write_def count_int)

subsection \<open>Details\<close>

text \<open>A percent sign at the end of the format makes the loop step over the terminator.\<close>

lemma printf_trailing_percent: "printf_core sg (str ''%'' @ [0]) emit args s = Fault OutOfBounds"
  by (simp add: printf_core_def printf_loop.simps parse_directive_def flush_pending_def str_def ch_def
    isdigit_def char_val_def int_conversion_def)

text \<open>Unsigned bytes are not cut to their type.\<close>

lemma unsigned_byte_not_cut: "va_number QByte (VaInt 300 # args) = Ok (1, 300, args)"
  by simp

subsection \<open>Properties\<close>

text \<open>The buffer starts with a NUL when there is room for it.\<close>

definition started :: "u64 \<Rightarrow> bytes \<Rightarrow> bytes" where
  "started n b = (if n = 0 then b else b[0 := 0])"

lemma vsnprintf_holds:
  assumes "\<forall>it \<in> set items. item_ok it" "length (format_output items) < 2 ^ 31"
    and "unat n \<le> length b \<or> length (format_output items) < length b"
  obtains d where "vsnprintf sg b n (format_text items @ 0 # r) (format_args items) =
      Ok (int (length (format_output items)), vs_string d)" "buffer_holds n (started n b) d (format_output items)"
proof -
  let ?out = "format_output items" and ?d = "\<lparr>vs_size = n, vs_len = 0, vs_string = started n b\<rparr>"
  have pos: "0 < length b" if "n \<noteq> 0"
  proof -
    have "0 < unat n" using that unat_gt_0 by blast
    then show ?thesis using assms(3) by linarith
  qed
  then have start: "(if 0 < n then of_opt (put b 0 [0]) else Ok b) = Ok (started n b)"
    by (cases b) (auto simp: put_def word_gt_0 started_def)
  have h: "buffer_holds n (started n b) ?d []"
  proof (cases "n = 0")
    case False
    then show ?thesis using pos by (cases b) (auto simp: buffer_holds_def unat_gt_0 started_def)
  qed (simp add: buffer_holds_def)
  have f: "buffer_fits n (started n b) ([] @ ?out)" using assms(2,3) by (simp add: buffer_fits_def started_def)
  obtain d where "printf_core sg (format_text items @ 0 # r) vsnprintf_write (format_args items) ?d = Ok (int (length ?out), d)"
    "buffer_holds n (started n b) d ([] @ ?out)"
    using vsn.printsE [OF vsn.printf_core_prints [OF assms(1), of n "started n b" sg r "[]"] h f] by auto
  then show ?thesis by (intro that) (simp_all add: vsnprintf_def start)
qed


text \<open>The console receives the whole output.\<close>

lemma vprintf_formats:
  assumes "\<forall>it \<in> set items. item_ok it" "length (format_output items) < 2 ^ 31"
  shows "vprintf sg (format_text items @ 0 # r) (format_args items) console =
    Ok (int (length (format_output items)), console @ format_output items)"
  using con.printsE [OF con.printf_core_prints [OF assms(1), of console sg r "[]"], of console "[]"] assms(2)
  by (auto simp: vprintf_def console_holds_def console_fits_def)

text \<open>
  C10.  A 64-bit number printed in decimal or hexadecimal, with or without the prefix, is read back
  by \<open>strtoull\<close> in the matching base, or in base 0 when it has the prefix, which stops at the
  terminator.
\<close>

theorem printf_strtoull_round_trip:
  assumes "(fmt, base) \<in> {(str ''%lu'', 10), (str ''%lx'', 16), (str ''%#lx'', 16), (str ''%#lx'', 0)}"
    and "20 < unat n" "unat n \<le> length b"
  shows "\<exists>k b'. vsnprintf sg b n (fmt @ 0 # r) [VaLong v] = Ok (int k, b') \<and> strtoull sg b' base = Ok (v, k)"
proof -
  define ds where "ds = digits_of (if base = 10 then 10 else 16) (unat v)"
  define lead where "lead = (if fmt = str ''%#lx'' then [48, 120] else [] :: bytes)"
  let ?d = "\<lparr>dir_flags = if fmt = str ''%#lx'' then [ch CHR ''#''] else [], dir_width = NoAmount, dir_precision = NoAmount\<rparr>"
  let ?items = "[Num_item ?d QLong (if base = 10 then ch CHR ''u'' else ch CHR ''x'') (uint v)]"
  have pre: "base = 10 \<and> fmt = str ''%lu'' \<or> base = 16 \<and> fmt = str ''%lx'' \<or> (base = 0 \<or> base = 16) \<and> fmt = str ''%#lx''"
    using assms(1) by auto
  have conv: "int_conversion (ch CHR ''u'') = Some ({}, 10, False)" "int_conversion (ch CHR ''x'') = Some ({}, 16, False)"
    by (simp_all add: int_conversion_def ch_def)
  have t: "format_text ?items = fmt" "format_args ?items = [VaLong v]"
    using pre by (auto simp: format_text_def format_args_def directive_text_def directive_args_def precision_text_def str_def ch_def)
  have v: "0 \<le> uint v" "uint v < 2 ^ 64" using uint_bounded [of v] by simp_all
  have nok: "number_ok QLong (ch CHR ''u'') (uint v)" "number_ok QLong (ch CHR ''x'') (uint v)"
    using v by (simp_all add: number_ok_def conv)
  have "ch CHR ''#'' \<in> set flag_chars" by (simp add: flag_chars_def str_def ch_def)
  with nok have ok: "\<forall>it \<in> set ?items. item_ok it" by (auto simp: directive_ok_def)
  have num: "number_text v 0 0 base' fl = lead_chars fl base' @ map ((!) digits_small) (digits_of (unat base') (unat v))"
    if "2 \<le> unat base'" "BIGCHARS \<notin> fl" for base' fl
    using plain_number [OF that(1)] that(2) by (simp add: digit_chars_def)
  have texts: "int_text (ch CHR ''u'') (uint v) 0 0 {} = map ((!) digits_small) (digits_of 10 (unat v))"
    "int_text (ch CHR ''x'') (uint v) 0 0 {} = map ((!) digits_small) (digits_of 16 (unat v))"
    "int_text (ch CHR ''x'') (uint v) 0 0 {PREFIX} = [48, 120] @ map ((!) digits_small) (digits_of 16 (unat v))"
    by (simp_all add: int_text_def conv num lead_chars_def sign_char_def prefix_chars_def) (simp_all add: ch_def)
  have hash: "flag_of (ch CHR ''#'') = PREFIX" by (simp add: flag_of_def)
  have out: "format_output ?items = lead @ map ((!) digits_small) ds"
    using pre by (elim disjE conjE) (simp_all add: format_output_def directive_width_def directive_precision_def
      directive_flags_def texts hash lead_def ds_def, simp_all add: str_def texts)
  have "length ds \<le> 20"
    using length_digits_of [of 10 "unat v" 19] length_digits_of [of 16 "unat v" 15] unat_u64_less [of v] by (auto simp: ds_def)
  moreover have "fmt = str ''%#lx'' \<Longrightarrow> length ds \<le> 16"
    using length_digits_of [of 16 "unat v" 15] unat_u64_less [of v] pre by (auto simp: ds_def str_def)
  ultimately have len: "length (format_output ?items) \<le> 20" unfolding out by (auto simp: lead_def)
  have fits: "length (format_output ?items) < 2 ^ 31" using len by simp
  have "unat n \<le> length b \<or> length (format_output ?items) < length b" using assms(3) by simp
  from vsnprintf_holds [OF ok fits this, of sg r] obtain d
    where d: "vsnprintf sg b n (fmt @ 0 # r) [VaLong v] = Ok (int (length (format_output ?items)), vs_string d)"
      "buffer_holds n (started n b) d (format_output ?items)"
    unfolding t by metis
  have "n \<noteq> 0" using assms(2) by auto
  then have "vs_string d = format_output ?items @ 0 # drop (Suc (length (format_output ?items))) (started n b)"
    using buffer_holds_short [OF d(2)] len assms(2) by linarith
  with d(1) obtain rest where p: "vsnprintf sg b n (fmt @ 0 # r) [VaLong v] =
      Ok (int (length lead + length ds), lead @ map ((!) digits_small) ds @ 0 # rest)"
    unfolding out by simp
  have d16: "\<forall>d \<in> set ds. d < (if base = 10 then 10 else 16)" "ds \<noteq> []"
    using digits_of_less by (auto simp: ds_def split: if_splits)
  have val: "of_nat (digits_value (if base = 10 then 10 else 16) 0 ds) = v"
    by (simp add: ds_def digits_value_of)
  have "strtoull sg (lead @ map ((!) digits_small) ds @ 0 # rest) base = Ok (v, length lead + length ds)"
    using pre strtoull_digits [OF d16(2,1)] val by (auto simp: lead_def str_def)
  with p show ?thesis by blast
qed

subsection \<open>Witnesses\<close>


theorem printf_strtoull_round_trip_witness:
  "\<exists>k b'. vsnprintf True (replicate 24 7) 21 (str ''%#lx'' @ [0]) [VaLong 0xfeedbeef12345678] = Ok (int k, b') \<and>
     strtoull True b' 0 = Ok (0xfeedbeef12345678, k)"
  using printf_strtoull_round_trip [of "str ''%#lx''" 0 21 "replicate 24 7" True "[]" "0xfeedbeef12345678"] by simp

end
