(* ===== verification/Spec2Isabelle.thy ===== *)
theory Spec2Isabelle
  imports Registry Queue MemWipe StateMachine Legacy EcSafe EcErrors Checksum CommandLine FmapStorage SectionIndex
    SpiFlash DcDirStorage Fwdb Malloc FitSample Lz4 Qsort Tftp Dhcp NetParams NvStorage Gdb PrintfSpec
begin

text \<open>
  Depthcharge, the boot loader of ChromeOS devices: a verification library of its core.

  \<^bold>\<open>The program.\<close>  Coreboot (or UEFI, or the FSP) starts depthcharge with a description of the machine.  Its
  init functions register drivers, cleanup events and device tree fixups on global lists;
  verified boot then reads firmware and kernels through the storage interface, wipes the
  memory nobody marked as used, rewrites the kernel command line and the device tree, runs
  the cleanup events and jumps to the kernel.  The library models the code under
  \<^verbatim>\<open>src/src/base\<close>, \<^verbatim>\<open>src/src/boot\<close>, \<^verbatim>\<open>src/src/image\<close>, \<^verbatim>\<open>src/src/vboot\<close>, \<^verbatim>\<open>src/src/netboot\<close>,
  \<^verbatim>\<open>src/src/debug\<close>, and the flash and storage drivers, which decide what is booted and where
  bytes go.

  \<^bold>\<open>Conventions\<close> (theory Prelude).  A C integer is a word of its width; arithmetic is
  carried out at the width the C expression has after promotion.  An object in memory is the
  list of its bytes, a pointer an offset into it, or the list of the bytes from the pointer
  on.  An operation returns \<open>Ok x\<close>, \<open>Err\<close> (the C code reports failure, through a nonzero or
  NULL result), or \<open>Fault f\<close>: undefined behaviour (an access outside the object, a NULL
  dereference), a failed assertion, or a loop that ran out of the fuel the model gave it.
  A theorem that says an operation returns \<open>Ok\<close> therefore says that it terminates, stays in
  bounds and reports success.

  \<^bold>\<open>The theories.\<close>
  \<^item> DList, Registry, Queue (\<^verbatim>\<open>base/list.c\<close>, \<^verbatim>\<open>event.h\<close>, \<^verbatim>\<open>cleanup.c\<close>, \<^verbatim>\<open>init_funcs.c\<close>, \<^verbatim>\<open>queue.c\<close>):
    the intrusive lists on an explicit heap of nodes, with a representation predicate; the
    locale \<open>node_list\<close> states what the registries need of them.  The cleanup events run once
    each, in reverse order of registration, even when an event unlinks itself.
  \<^item> Ranges, MemWipe (\<^verbatim>\<open>base/ranges.c\<close>, \<^verbatim>\<open>base/physmem.c\<close>, \<^verbatim>\<open>vboot/util/memory.c\<close>): sets of 64-bit
    addresses as sorted edge lists refine sets, and the wipe clears exactly the RAM nobody
    marked.
  \<^item> StateMachine (\<^verbatim>\<open>base/state_machine.c\<close>): the table refines a deterministic automaton.
  \<^item> Checksum, CommandLine, Str, Mem (\<^verbatim>\<open>base/ipchecksum.c\<close>, \<^verbatim>\<open>boot/commandline.c\<close>,
    \<^verbatim>\<open>base/libc/string.c\<close>, \<^verbatim>\<open>strlcpy.c\<close>, \<^verbatim>\<open>ctype.c\<close>, \<^verbatim>\<open>memory.c\<close>): functional descriptions and
    equivalence with the documented meaning, and the inputs on which the code misbehaves.
  \<^item> Malloc (\<^verbatim>\<open>base/libc/malloc.c\<close>): the heap as a sequence of blocks; allocation and release
    refine operations on the block list.
  \<^item> Storage (\<^verbatim>\<open>drivers/storage/storage.h\<close>, \<^verbatim>\<open>memory.c\<close>): the table of operations and the locales
    \<open>readable_storage\<close> and \<open>storage\<close> with the laws every provider keeps.  FmapStorage,
    SectionIndex, DcDir with DcDirStorage and Fwdb build storages on storages
    (\<^verbatim>\<open>drivers/storage/fmap.c\<close>, \<^verbatim>\<open>section_index.c\<close>, \<^verbatim>\<open>dcdir.c\<close>, \<^verbatim>\<open>fwdb.c\<close>, \<^verbatim>\<open>base/dcdir.c\<close>,
    \<^verbatim>\<open>base/fwdb.c\<close>, \<^verbatim>\<open>image/fmap.c\<close>): the client is proved in the context of the locale and
    interpreted on the memory storage.
  \<^item> Flash, SpiFlash (\<^verbatim>\<open>drivers/flash/flash.h\<close>, \<^verbatim>\<open>spi.c\<close>, \<^verbatim>\<open>drivers/storage/flash.c\<close>): the write
    algorithm over a NOR flash, and the SPI driver below it.
  \<^item> Fdt, DtFlatten, DtEdit (\<^verbatim>\<open>base/device_tree.c\<close>): reading a flattened tree, sizing and
    writing it (a round trip), finding nodes and changing properties.
  \<^item> FitMemory, Fit, FitSample (\<^verbatim>\<open>boot/fit.c\<close>): unpacking a FIT image, choosing the configuration
    whose compatible string ranks best, and the memory node written for the kernel: it describes
    the usable memory rounded to megabytes, where each range of RAM has a megabyte boundary and its
    addresses fit the address cells.  FitSample holds a concrete image.
  \<^item> Lz4 (\<^verbatim>\<open>base/lz4\<close>): the frame and block decoder, with its fast copies of eight bytes, is
    equal to a reference decoder that copies byte by byte, for outputs below 2 GiB and with eight
    readable bytes after the input.
  \<^item> Lzma, LzmaSafe (\<^verbatim>\<open>base/lzma\<close>): the decoder is written over a source of bits, and the locale
    \<open>bit_source\<close> states what it needs of one; the interpretation on the range decoder gives the
    safety of \<open>ulzman\<close> on any input of five bytes or more; shorter ones are read past their end.
  \<^item> Cbfs, Legacy (\<^verbatim>\<open>base/cbfs\<close>, \<^verbatim>\<open>vboot/callbacks/legacy.c\<close>): the file system is described by
    the list of its files and holes; the locale \<open>cbfs_source\<close> states the laws of a source, and is
    interpreted on the source in memory.  Legacy boot reads the storage of the board, loads the payload
    from its file system with the LZMA decoder where needed, and runs the cleanup events.
  \<^item> Ec, EcCommands, EcSafe, EcHost, EcFlash, EcErrors (\<^verbatim>\<open>drivers/ec/cros/ec.c\<close>): the driver of the embedded
    controller.  The bus, the EC and the clock are arguments.  EcSafe: whatever they answer, the driver
    stays in its buffers, for packet sizes in the range of \<open>int\<close>.  EcHost: the locale \<open>ec_host\<close> is a command that reaches an EC which follows the
    protocol; versions 2 and 3 of the protocol are its interpretations, and EcFlash proves the update of the
    firmware in it, for an EC that keeps to \<^verbatim>\<open>commands.h\<close>: it succeeds for bursts of at most 64 bytes, and
    fails with the region erased for larger ones, since the driver always sends version 0 of the command.  EcErrors: errors that the driver takes for success.
  \<^item> Qsort (\<^verbatim>\<open>base/libc/qsort.c\<close>): the result is sorted and a permutation, and the recursion ends,
    whatever the comparison function answers.
  \<^item> Printf, PrintfFormat, PrintfDoc, PrintfSpec (\<^verbatim>\<open>base/libc/printf.c\<close>): the language of formats and what it
    prints; PrintfDoc states the output as the comment of \<open>printf_core\<close> documents it and the four
    exceptions in which the code departs from it; the locale \<open>output_sink\<close> states what the printing functions need of their output, and
    is interpreted on the buffer of \<open>vsnprintf\<close> and on the console.  Printed numbers are read
    back by \<open>strtoull\<close>.
  \<^item> NvStorage (\<^verbatim>\<open>vboot/callbacks/nvstorage_flash.c\<close>, \<^verbatim>\<open>nvstorage_fake.c\<close>, \<^verbatim>\<open>nvstorage_cmos.c\<close>): the
    set-up of the flash version uses a NULL pointer, so that none of its reads and writes returns; the lemmas
    about its log of blobs say what the write would do behind a set pointer, over any interpretation
    of the locale \<open>storage\<close>.
  \<^item> Tftp (\<^verbatim>\<open>netboot/tftp.c\<close>): the transfer as a machine fed with the list of packets that the polls of
    the network return; which packets may arrive between the blocks of the file is the predicate
    \<open>from_server\<close>.
  \<^item> Dhcp (\<^verbatim>\<open>netboot/dhcp.c\<close>): walking the options of a packet is a fold over the list of options, and the
    exchange with the server, again over the list of what the polls bring, ends with the lease it offered.
  \<^item> NetParams (\<^verbatim>\<open>netboot/params.c\<close>): the table of parameters in the scratch storage, encoded and read back
    over any interpretation of \<open>readable_storage\<close>.
  \<^item> GdbMessage, Gdb (\<^verbatim>\<open>debug/gdb/transport.c\<close>, \<^verbatim>\<open>commands.c\<close>, \<^verbatim>\<open>stub.c\<close>): packets survive a bad line, and the
    memory commands store and fetch exactly the bytes of the packet.

  \<^bold>\<open>Bounds and fuel.\<close>  Walks of pointer lists, the sector loop of the flash storage and the downward copy take a fuel argument; the
  theorems name an amount that suffices (the length of the represented list, or the number of
  bytes left) or state the result for any larger fuel.  The device tree, database and heap
  theorems are for objects below 2 GiB, where the \<open>int\<close> sizes of the code do not wrap; the theorems
  about wrap-around say what happens beyond.  A loop that waits for the outside world (network, serial
  line) consumes a list of what it will be given; where the list ends the code still waits, which is
  \<open>Fault Diverges\<close>, and the liveness theorems say for which lists it returns.  The TFTP theorems are for
  files of fewer than 65535 blocks, the debugger's for buffers below 2 GiB, the packets of the EC and the
  output of LZ4 below 2 GiB, the IP checksum for messages up to 65534 bytes.

  \<^bold>\<open>Not modelled.\<close>  Register-level drivers (buses, GPIO, displays, USB, keyboards, TPM, network
  cards), the architecture code and handoff assembly, the vendored libpayload, uIP and EDK
  sources, the build tools and the board descriptions: their behaviour is that of the hardware
  or of code kept elsewhere.  Output to the console is not part of the state.  \<^verbatim>\<open>malloc.c\<close> is
  modelled without its aligned regions and its DMA heap, and \<^verbatim>\<open>device_tree.c\<close> without its
  printing functions.
\<close>

end
